(* ===== verification/Prelude.thy ===== *)
theory Prelude
  imports Main "HOL-Library.AList" "HOL-Library.Multiset"
begin

text \<open>
  Shared vocabulary of the development.

  \<^item> A Go function returning \<open>(T, error)\<close> is a function into \<open>'e + 'a\<close>: \<open>Inl\<close> is the
    returned error, \<open>Inr\<close> the value. \<open>bindR\<close> is the \<open>if err != nil { return err }\<close> idiom,
    \<open>foldR\<close> a \<open>for range\<close> loop whose body may return an error, \<open>mapR\<close> a loop that builds
    a slice.
  \<^item> A Go map is an association list (\<open>gmap\<close>): its entries in the order in which a
    \<open>range\<close> statement visits them. Go leaves that order open, so a definition is a
    function of the order and a theorem for every list holds for every order Go may take;
    \<open>gm_ok\<close> (distinct keys) is the well-formedness every Go map has. A nil map is the
    empty list: the modelled code only ever ranges over, looks up in or measures a nil map.
\<close>

named_theorems gm_simps "lookups in Go maps after updates"
named_theorems res_elims "inversion of error-returning computations"

section \<open>Error returns\<close>

definition bindR :: "'e + 'a \<Rightarrow> ('a \<Rightarrow> 'e + 'b) \<Rightarrow> 'e + 'b" where
  "bindR m f = (case m of Inl e \<Rightarrow> Inl e | Inr x \<Rightarrow> f x)"

lemma bindR_simps [simp]:
  "bindR (Inl e) f = Inl e"
  "bindR (Inr x) f = f x"
  by (simp_all add: bindR_def)

lemma bindR_Inr_iff [res_elims]: "bindR m f = Inr y \<longleftrightarrow> (\<exists>x. m = Inr x \<and> f x = Inr y)"
  by (cases m) simp_all

lemma bindR_Inl_iff: "bindR m f = Inl e \<longleftrightarrow> m = Inl e \<or> (\<exists>x. m = Inr x \<and> f x = Inl e)"
  by (cases m) auto

lemma bindR_cong [fundef_cong]:
  "m = m' \<Longrightarrow> (\<And>x. m' = Inr x \<Longrightarrow> f x = f' x) \<Longrightarrow> bindR m f = bindR m' f'"
  by (cases m') simp_all

primrec foldR :: "('a \<Rightarrow> 's \<Rightarrow> 'e + 's) \<Rightarrow> 'a list \<Rightarrow> 's \<Rightarrow> 'e + 's" where
  "foldR f [] s = Inr s"
| "foldR f (x # xs) s = bindR (f x s) (foldR f xs)"

primrec mapR :: "('a \<Rightarrow> 'e + 'b) \<Rightarrow> 'a list \<Rightarrow> 'e + 'b list" where
  "mapR f [] = Inr []"
| "mapR f (x # xs) = bindR (f x) (\<lambda>y. bindR (mapR f xs) (\<lambda>ys. Inr (y # ys)))"

primrec checkR :: "('a \<Rightarrow> 'e option) \<Rightarrow> 'a list \<Rightarrow> 'e option" where
  \<comment> \<open>a validation loop: the first error, if any\<close>
  "checkR f [] = None"
| "checkR f (x # xs) = (case f x of Some e \<Rightarrow> Some e | None \<Rightarrow> checkR f xs)"

definition guardR :: "'e option \<Rightarrow> 'e + 'a \<Rightarrow> 'e + 'a" where
  "guardR v k = (case v of Some e \<Rightarrow> Inl e | None \<Rightarrow> k)"

lemma guardR_simps [simp]: "guardR None k = k" "guardR (Some e) k = Inl e"
  by (simp_all add: guardR_def)

lemma guardR_Inr_iff [res_elims]: "guardR v k = Inr y \<longleftrightarrow> v = None \<and> k = Inr y"
  by (cases v) simp_all

lemma checkR_None_iff [simp]: "checkR f xs = None \<longleftrightarrow> (\<forall>x \<in> set xs. f x = None)"
  by (induction xs) (auto split: option.splits)

lemma checkR_Some: "checkR f xs = Some e \<Longrightarrow> \<exists>x \<in> set xs. f x = Some e"
  by (induction xs) (auto split: option.splits)

lemma foldR_append: "foldR f (xs @ ys) s = bindR (foldR f xs s) (foldR f ys)"
  by (induction xs arbitrary: s) (auto simp: bindR_def split: sum.splits)

lemma foldR_invariant:
  assumes "foldR f xs s = Inr s'" and "P s"
    and "\<And>x s s'. x \<in> set xs \<Longrightarrow> P s \<Longrightarrow> f x s = Inr s' \<Longrightarrow> P s'"
  shows "P s'"
  using assms
proof (induction xs arbitrary: s)
  case (Cons x xs)
  from Cons.prems(1) obtain t where t: "f x s = Inr t" "foldR f xs t = Inr s'"
    by (auto simp: bindR_Inr_iff)
  show ?case
    by (rule Cons.IH [OF t(2)]) (use Cons.prems t in \<open>auto intro: Cons.prems(3)\<close>)
qed simp

text \<open>A loop whose every successful step establishes a fact that later steps keep.\<close>

lemma foldR_all:
  assumes "foldR f xs s = Inr s'"
    and "\<And>x s s'. x \<in> set xs \<Longrightarrow> f x s = Inr s' \<Longrightarrow> Q x s'"
    and "\<And>x y s s'. x \<in> set xs \<Longrightarrow> Q y s \<Longrightarrow> f x s = Inr s' \<Longrightarrow> Q y s'"
  shows "\<forall>x \<in> set xs. Q x s'"
  using assms
proof (induction xs arbitrary: s)
  case (Cons x xs)
  from Cons.prems(1) obtain t where t: "f x s = Inr t" "foldR f xs t = Inr s'"
    by (auto simp: bindR_Inr_iff)
  have "Q x s'"
    by (rule foldR_invariant [OF t(2), where P = "Q x"])
      (auto intro: Cons.prems(2) [OF _ t(1)] Cons.prems(3))
  moreover have "\<forall>y \<in> set xs. Q y s'"
    by (rule Cons.IH [OF t(2)]) (auto intro: Cons.prems(2) Cons.prems(3))
  ultimately show ?case by simp
qed simp

lemma mapR_Inr_iff: "mapR f xs = Inr ys \<longleftrightarrow> list_all2 (\<lambda>x y. f x = Inr y) xs ys"
  by (induction xs arbitrary: ys) (auto simp: bindR_Inr_iff list_all2_Cons1)

lemma mapR_mem: "mapR f xs = Inr ys \<Longrightarrow> y \<in> set ys \<Longrightarrow> \<exists>x \<in> set xs. f x = Inr y"
  by (induction xs arbitrary: ys) (auto simp: bindR_Inr_iff)

lemma mapR_length: "mapR f xs = Inr ys \<Longrightarrow> length ys = length xs"
  by (simp add: mapR_Inr_iff list_all2_lengthD)

lemma mapR_cong [fundef_cong]:
  "xs = ys \<Longrightarrow> (\<And>x. x \<in> set ys \<Longrightarrow> f x = g x) \<Longrightarrow> mapR f xs = mapR g ys"
  by (induction ys arbitrary: xs) (auto intro!: bindR_cong)

section \<open>Go maps\<close>

type_synonym ('k, 'v) gmap_of = "('k \<times> 'v) list"
type_synonym 'v gmap = "(string, 'v) gmap_of"

abbreviation gm_keys :: "('k, 'v) gmap_of \<Rightarrow> 'k list" where
  "gm_keys m \<equiv> map fst m"

definition gm_ok :: "('k, 'v) gmap_of \<Rightarrow> bool" where
  "gm_ok m \<longleftrightarrow> distinct (gm_keys m)"

abbreviation gm_get :: "('k, 'v) gmap_of \<Rightarrow> 'k \<Rightarrow> 'v option" where
  "gm_get m k \<equiv> map_of m k"

definition gm_has :: "('k, 'v) gmap_of \<Rightarrow> 'k \<Rightarrow> bool" where
  "gm_has m k \<longleftrightarrow> map_of m k \<noteq> None"

definition gm_get_or :: "'v \<Rightarrow> ('k, 'v) gmap_of \<Rightarrow> 'k \<Rightarrow> 'v" where
  \<comment> \<open>\<open>m[k]\<close> read without the comma-ok form: the zero value when absent\<close>
  "gm_get_or z m k = (case map_of m k of Some v \<Rightarrow> v | None \<Rightarrow> z)"

abbreviation gm_set :: "'k \<Rightarrow> 'v \<Rightarrow> ('k, 'v) gmap_of \<Rightarrow> ('k, 'v) gmap_of" where
  "gm_set k v m \<equiv> AList.update k v m"

abbreviation gm_del :: "'k \<Rightarrow> ('k, 'v) gmap_of \<Rightarrow> ('k, 'v) gmap_of" where
  "gm_del k m \<equiv> AList.delete k m"

definition gm_copy :: "('k, 'v) gmap_of \<Rightarrow> ('k, 'v) gmap_of \<Rightarrow> ('k, 'v) gmap_of" where
  \<comment> \<open>\<open>for k, v := range src { dst[k] = v }\<close>\<close>
  "gm_copy src dst = fold (\<lambda>(k, v). gm_set k v) src dst"

definition gm_push :: "'k \<Rightarrow> 'v \<Rightarrow> ('k, 'v list) gmap_of \<Rightarrow> ('k, 'v list) gmap_of" where
  \<comment> \<open>\<open>m[k] = append(m[k], v)\<close>\<close>
  "gm_push k v m = gm_set k (gm_get_or [] m k @ [v]) m"

lemma gm_ok_Nil [simp]: "gm_ok []"
  by (simp add: gm_ok_def)

lemma gm_ok_set [simp]: "gm_ok m \<Longrightarrow> gm_ok (gm_set k v m)"
  by (simp add: gm_ok_def distinct_update)

lemma gm_ok_del [simp]: "gm_ok m \<Longrightarrow> gm_ok (gm_del k m)"
  by (simp add: gm_ok_def distinct_delete)

lemma gm_get_set [gm_simps]: "gm_get (gm_set k v m) = (gm_get m)(k \<mapsto> v)"
  by (rule update_conv')

lemma gm_get_del [gm_simps]: "gm_get (gm_del k m) = (gm_get m)(k := None)"
  by (rule delete_conv')

lemma set_keys_set [gm_simps]: "set (gm_keys (gm_set k v m)) = insert k (set (gm_keys m))"
  by (induction m) auto

lemma gm_has_iff: "gm_has m k \<longleftrightarrow> k \<in> set (gm_keys m)"
  by (induction m) (auto simp: gm_has_def)

lemma gm_has_set [gm_simps]: "gm_has (gm_set k v m) k' \<longleftrightarrow> k' = k \<or> gm_has m k'"
  by (auto simp: gm_has_def gm_get_set)

lemma gm_get_or_set [gm_simps]:
  "gm_get_or z (gm_set k v m) k' = (if k' = k then v else gm_get_or z m k')"
  by (simp add: gm_get_or_def gm_get_set)

lemma gm_get_in: "gm_get m k = Some v \<Longrightarrow> (k, v) \<in> set m"
  by (rule map_of_SomeD)

lemma gm_in_get: "gm_ok m \<Longrightarrow> (k, v) \<in> set m \<Longrightarrow> gm_get m k = Some v"
  by (simp add: gm_ok_def)

lemma gm_ok_copy [simp]: "gm_ok dst \<Longrightarrow> gm_ok (gm_copy src dst)"
  unfolding gm_copy_def by (induction src arbitrary: dst) auto

lemma gm_get_copy [gm_simps]:
  "gm_ok src \<Longrightarrow> gm_get (gm_copy src dst) = gm_get dst ++ gm_get src"
proof (induction src arbitrary: dst)
  case Nil
  then show ?case by (simp add: gm_copy_def)
next
  case (Cons p src)
  obtain k v where p: "p = (k, v)" by (cases p)
  from Cons.prems p have ok: "gm_ok src" and nk: "k \<notin> set (gm_keys src)"
    by (auto simp: gm_ok_def)
  have "gm_get (gm_copy (p # src) dst) = gm_get (gm_copy src (gm_set k v dst))"
    by (simp add: gm_copy_def p)
  also have "\<dots> = (gm_get dst)(k \<mapsto> v) ++ gm_get src"
    by (simp only: Cons.IH [OF ok] gm_get_set)
  also have "\<dots> = gm_get dst ++ gm_get (p # src)"
    using nk p map_of_eq_None_iff [of src k]
    by (auto simp: fun_eq_iff map_add_def split: option.splits)
  finally show ?case .
qed

lemma gm_copy_Nil [simp]: "gm_copy [] dst = dst"
  by (simp add: gm_copy_def)

lemma gm_get_push [gm_simps]:
  "gm_get_or [] (gm_push k v m) k' = (if k' = k then gm_get_or [] m k @ [v] else gm_get_or [] m k')"
  by (simp add: gm_push_def gm_get_or_set)

lemma gm_has_push [gm_simps]: "gm_has (gm_push k v m) k' \<longleftrightarrow> k' = k \<or> gm_has m k'"
  by (simp add: gm_push_def gm_has_set)

text \<open>Building an index \<open>key x \<mapsto> [x, \<dots>]\<close> with a loop of pushes.\<close>

definition gm_group :: "('a \<Rightarrow> 'k) \<Rightarrow> ('a \<Rightarrow> 'v) \<Rightarrow> 'a list \<Rightarrow> ('k, 'v list) gmap_of" where
  "gm_group key val xs = fold (\<lambda>x. gm_push (key x) (val x)) xs []"

lemma gm_get_fold_push:
  "gm_get_or [] (fold (\<lambda>x. gm_push (key x) (val x)) xs m) k =
     gm_get_or [] m k @ map val (filter (\<lambda>x. key x = k) xs)"
  by (induction xs arbitrary: m) (auto simp: gm_get_push)

lemma gm_get_group: "gm_get_or [] (gm_group key val xs) k = map val (filter (\<lambda>x. key x = k) xs)"
  by (simp add: gm_group_def gm_get_fold_push gm_get_or_def [of _ "[]"])

lemma gm_has_fold_push:
  "gm_has (fold (\<lambda>x. gm_push (key x) (val x)) xs m) k \<longleftrightarrow> gm_has m k \<or> k \<in> key ` set xs"
  by (induction xs arbitrary: m) (auto simp: gm_has_push)

lemma gm_has_group: "gm_has (gm_group key val xs) k \<longleftrightarrow> k \<in> key ` set xs"
  by (simp add: gm_group_def gm_has_fold_push) (simp add: gm_has_def)

lemma gm_get_or_has: "gm_get m k = (if gm_has m k then Some (gm_get_or z m k) else None)"
  by (auto simp: gm_has_def gm_get_or_def split: option.splits)

section \<open>Lists\<close>

lemma sorted_sort_key: "sorted (map f (sort_key f xs))"
  by (rule sorted_sort_key)

definition index_from :: "nat \<Rightarrow> 'a list \<Rightarrow> (nat \<times> 'a) list" where
  \<comment> \<open>\<open>for i, x := range xs\<close>\<close>
  "index_from n xs = zip [n..<n + length xs] xs"

abbreviation indexed :: "'a list \<Rightarrow> (nat \<times> 'a) list" where
  "indexed xs \<equiv> index_from 0 xs"

lemma index_from_simps [simp, code]:
  "index_from n [] = []"
  "index_from n (x # xs) = (n, x) # index_from (Suc n) xs"
  by (simp_all add: index_from_def upt_rec)

lemma in_index_from: "(i, x) \<in> set (index_from n xs) \<longleftrightarrow> n \<le> i \<and> i < n + length xs \<and> xs ! (i - n) = x"
  by (induction xs arbitrary: n) (auto simp: nth_Cons' less_Suc_eq_le split: nat.splits)

lemma in_indexed: "(i, x) \<in> set (indexed xs) \<longleftrightarrow> i < length xs \<and> xs ! i = x"
  by (simp add: in_index_from)

lemma map_snd_index_from [simp]: "map snd (index_from n xs) = xs"
  by (induction xs arbitrary: n) simp_all

lemma map_fst_index_from [simp]: "map fst (index_from n xs) = [n..<n + length xs]"
  by (simp add: index_from_def)

lemma set_index_from_snd: "(i, x) \<in> set (index_from n xs) \<Longrightarrow> x \<in> set xs"
  by (induction xs arbitrary: n) auto

end
