(* ===== verification/Go_Strings.thy ===== *)
theory Go_Strings
  imports Prelude "HOL-Library.Char_ord" "HOL-Library.List_Lexorder"
begin

text \<open>
  The parts of Go's \<open>strings\<close>, \<open>strconv\<close> and \<open>sort\<close> packages that the modelled code
  calls. A Go string is a sequence of bytes, and so is an Isabelle \<open>string\<close>; comparison
  (\<open>sort.Strings\<close>) is bytewise lexicographic, the order of \<open>List_Lexorder\<close> over
  \<open>Char_ord\<close>. Case conversion covers ASCII and the two code points whose lower case is an
  ASCII letter (U+212A and U+0130); the modelled code only compares converted strings with
  ASCII words, for which other code points make no difference.
\<close>

section \<open>Prefixes, suffixes, substrings\<close>

definition has_prefix :: "string \<Rightarrow> string \<Rightarrow> bool" where
  "has_prefix s p \<longleftrightarrow> take (length p) s = p"

definition has_suffix :: "string \<Rightarrow> string \<Rightarrow> bool" where
  "has_suffix s p \<longleftrightarrow> length p \<le> length s \<and> drop (length s - length p) s = p"

definition trim_prefix :: "string \<Rightarrow> string \<Rightarrow> string" where
  "trim_prefix s p = (if has_prefix s p then drop (length p) s else s)"

definition trim_suffix :: "string \<Rightarrow> string \<Rightarrow> string" where
  "trim_suffix s p = (if has_suffix s p then take (length s - length p) s else s)"

fun index_of :: "string \<Rightarrow> string \<Rightarrow> nat option" where
  \<comment> \<open>\<open>strings.Index(s, sub)\<close>; \<open>None\<close> is -1\<close>
  "index_of [] sub = (if sub = [] then Some 0 else None)"
| "index_of (c # s) sub =
     (if has_prefix (c # s) sub then Some 0 else map_option Suc (index_of s sub))"

definition contains_sub :: "string \<Rightarrow> string \<Rightarrow> bool" where
  "contains_sub s sub \<longleftrightarrow> index_of s sub \<noteq> None"

fun last_index_of_char :: "string \<Rightarrow> char \<Rightarrow> nat option" where
  "last_index_of_char [] c = None"
| "last_index_of_char (d # s) c =
     (case last_index_of_char s c of Some i \<Rightarrow> Some (Suc i)
      | None \<Rightarrow> if d = c then Some 0 else None)"

lemma has_prefix_append [simp]: "has_prefix (p @ s) p"
  by (simp add: has_prefix_def)

lemma has_prefix_iff: "has_prefix s p \<longleftrightarrow> (\<exists>r. s = p @ r)"
  unfolding has_prefix_def by (metis append_eq_conv_conj append_take_drop_id)

lemma has_suffix_iff: "has_suffix s p \<longleftrightarrow> (\<exists>r. s = r @ p)"
proof
  assume "has_suffix s p"
  then have "s = take (length s - length p) s @ p"
    unfolding has_suffix_def by (metis append_take_drop_id)
  then show "\<exists>r. s = r @ p" ..
qed (auto simp: has_suffix_def)

lemma trim_prefix_append [simp]: "trim_prefix (p @ s) p = s"
  by (simp add: trim_prefix_def)

lemma trim_suffix_append [simp]: "trim_suffix (s @ p) p = s"
  by (simp add: trim_suffix_def has_suffix_def)

section \<open>Splitting and joining\<close>

fun split_char :: "char \<Rightarrow> string \<Rightarrow> string list" where
  \<comment> \<open>\<open>strings.Split(s, sep)\<close> for a one-byte separator\<close>
  "split_char c [] = [[]]"
| "split_char c (x # s) =
     (if x = c then [] # split_char c s
      else (case split_char c s of [] \<Rightarrow> [[x]] | w # ws \<Rightarrow> (x # w) # ws))"

fun split_first :: "char \<Rightarrow> string \<Rightarrow> string \<times> string" where
  \<comment> \<open>\<open>strings.SplitN(s, sep, 2)\<close> of a string that contains the separator\<close>
  "split_first c [] = ([], [])"
| "split_first c (x # s) =
     (if x = c then ([], s) else (case split_first c s of (a, b) \<Rightarrow> (x # a, b)))"

fun join :: "string \<Rightarrow> string list \<Rightarrow> string" where
  \<comment> \<open>\<open>strings.Join\<close>\<close>
  "join sep [] = []"
| "join sep [w] = w"
| "join sep (w # ws) = w @ sep @ join sep ws"

lemma split_char_nonempty [simp]: "split_char c s \<noteq> []"
  by (induction s) (auto split: list.splits)

lemma split_char_free [simp]: "c \<notin> set s \<Longrightarrow> split_char c s = [s]"
  by (induction s) auto

lemma split_char_append: "c \<notin> set w \<Longrightarrow> split_char c (w @ c # s) = w # split_char c s"
  by (induction w) auto

lemma split_char_join:
  "ws \<noteq> [] \<Longrightarrow> \<forall>w \<in> set ws. c \<notin> set w \<Longrightarrow> split_char c (join [c] ws) = ws"
  by (induction "[c]" ws rule: join.induct) (auto simp: split_char_append)

lemma split_char_parts: "w \<in> set (split_char c s) \<Longrightarrow> c \<notin> set w"
proof (induction s arbitrary: w)
  case (Cons x s)
  obtain h t where ht: "split_char c s = h # t" by (cases "split_char c s") auto
  from Cons ht show ?case by (auto split: if_splits)
qed simp

lemma join_split_char: "join [c] (split_char c s) = s"
proof (induction s)
  case (Cons x s)
  obtain h t where ht: "split_char c s = h # t" by (cases "split_char c s") auto
  from Cons ht show ?case by (cases t) auto
qed simp

lemma split_first_append: "c \<notin> set w \<Longrightarrow> split_first c (w @ c # s) = (w, s)"
  by (induction w) auto

section \<open>Replacing\<close>

function (sequential) replace_all :: "string \<Rightarrow> string \<Rightarrow> string \<Rightarrow> string" where
  \<comment> \<open>\<open>strings.ReplaceAll(s, old, new)\<close> for a non-empty \<open>old\<close>\<close>
  "replace_all old new [] = []"
| "replace_all old new (c # s) =
     (if old \<noteq> [] \<and> has_prefix (c # s) old
      then new @ replace_all old new (drop (length old) (c # s))
      else c # replace_all old new s)"
  by pat_completeness auto
termination
  by (relation "measure (\<lambda>(old, new, s). length s)") auto

section \<open>White space\<close>

definition ascii_space :: "char \<Rightarrow> bool" where
  "ascii_space c \<longleftrightarrow> c = CHR '' '' \<or> (CHR 0x09 \<le> c \<and> c \<le> CHR 0x0D)"

definition space_len :: "string \<Rightarrow> nat" where
  \<comment> \<open>bytes of the white-space rune (\<open>unicode.IsSpace\<close>) a string starts with; 0 for none\<close>
  "space_len s = (case s of [] \<Rightarrow> 0 | c # r \<Rightarrow>
     if ascii_space c then 1
     else if c = CHR 0xC2 \<and> r \<noteq> [] \<and> hd r \<in> {CHR 0x85, CHR 0xA0} then 2
     else if take 3 s = [CHR 0xE1, CHR 0x9A, CHR 0x80] then 3
     else if take 3 s = [CHR 0xE3, CHR 0x80, CHR 0x80] then 3
     else if take 3 s = [CHR 0xE2, CHR 0x81, CHR 0x9F] then 3
     else if take 2 s = [CHR 0xE2, CHR 0x80] \<and> 3 \<le> length s \<and>
       (CHR 0x80 \<le> s ! 2 \<and> s ! 2 \<le> CHR 0x8A \<or> s ! 2 \<in> {CHR 0xA8, CHR 0xA9, CHR 0xAF}) then 3
     else 0)"

lemma space_len_Nil [simp]: "space_len [] = 0"
  by (simp add: space_len_def)

function trim_left :: "string \<Rightarrow> string" where
  "trim_left s = (if space_len s = 0 then s else trim_left (drop (space_len s) s))"
  by pat_completeness auto
termination
proof (relation "measure length", goal_cases)
  case (2 s)
  then have "s \<noteq> []" by auto
  with 2 show ?case by simp
qed simp

declare trim_left.simps [simp del]

definition rspace_len :: "string \<Rightarrow> nat" where
  \<comment> \<open>bytes of the white-space rune a string ends with, read from the reversed string\<close>
  "rspace_len s = (if s \<noteq> [] \<and> space_len (rev (take 1 s)) = 1 then 1
     else if space_len (rev (take 2 s)) = 2 then 2
     else if space_len (rev (take 3 s)) = 3 then 3 else 0)"

lemma rspace_len_Nil [simp]: "rspace_len [] = 0"
  by (simp add: rspace_len_def)

function rtrim_left :: "string \<Rightarrow> string" where
  "rtrim_left s = (if rspace_len s = 0 then s else rtrim_left (drop (rspace_len s) s))"
  by pat_completeness auto
termination
proof (relation "measure length", goal_cases)
  case (2 s)
  then have "s \<noteq> []" by auto
  with 2 show ?case by simp
qed simp

declare rtrim_left.simps [simp del]

definition trim_space :: "string \<Rightarrow> string" where
  \<comment> \<open>\<open>strings.TrimSpace\<close>\<close>
  "trim_space s = rev (rtrim_left (rev (trim_left s)))"

lemma trim_left_id: "space_len s = 0 \<Longrightarrow> trim_left s = s"
  by (simp add: trim_left.simps)

lemma rtrim_left_id: "rspace_len s = 0 \<Longrightarrow> rtrim_left s = s"
  by (simp add: rtrim_left.simps)

lemma trim_left_Nil [simp]: "trim_left [] = []"
  by (simp add: trim_left.simps)

lemma rtrim_left_Nil [simp]: "rtrim_left [] = []"
  by (simp add: rtrim_left.simps)

lemma trim_space_Nil [simp]: "trim_space [] = []"
  by (simp add: trim_space_def)

section \<open>Case conversion and digits\<close>

definition is_upper :: "char \<Rightarrow> bool" where
  "is_upper c \<longleftrightarrow> CHR ''A'' \<le> c \<and> c \<le> CHR ''Z''"

definition is_lower :: "char \<Rightarrow> bool" where
  "is_lower c \<longleftrightarrow> CHR ''a'' \<le> c \<and> c \<le> CHR ''z''"

definition is_digit :: "char \<Rightarrow> bool" where
  "is_digit c \<longleftrightarrow> CHR ''0'' \<le> c \<and> c \<le> CHR ''9''"

definition is_alpha :: "char \<Rightarrow> bool" where
  "is_alpha c \<longleftrightarrow> is_upper c \<or> is_lower c"

definition is_alnum :: "char \<Rightarrow> bool" where
  "is_alnum c \<longleftrightarrow> is_alpha c \<or> is_digit c"

definition char_lower :: "char \<Rightarrow> char" where
  "char_lower c = (if is_upper c then char_of (of_char c + (32::nat)) else c)"

definition char_upper :: "char \<Rightarrow> char" where
  "char_upper c = (if is_lower c then char_of (of_char c - (32::nat)) else c)"

fun to_lower :: "string \<Rightarrow> string" where
  \<comment> \<open>\<open>strings.ToLower\<close>: U+212A (Kelvin sign) is \<open>k\<close>, U+0130 is \<open>i\<close>\<close>
  "to_lower [] = []"
| "to_lower (a # s) =
     (if a = CHR 0xE2 \<and> take 2 s = [CHR 0x84, CHR 0xAA] then CHR ''k'' # to_lower (drop 2 s)
      else if a = CHR 0xC4 \<and> take 1 s = [CHR 0xB0] then CHR ''i'' # to_lower (drop 1 s)
      else char_lower a # to_lower s)"

definition to_upper :: "string \<Rightarrow> string" where
  "to_upper s = map char_upper s"

definition digit_char :: "nat \<Rightarrow> char" where
  "digit_char d = char_of (48 + d)"

fun itoa :: "nat \<Rightarrow> string" where
  \<comment> \<open>\<open>strconv.Itoa\<close> / \<open>%d\<close> of a non-negative integer\<close>
  "itoa n = (if n < 10 then [digit_char n] else itoa (n div 10) @ [digit_char (n mod 10)])"

declare itoa.simps [simp del]

definition digit_val :: "char \<Rightarrow> nat" where
  "digit_val c = of_char c - 48"

definition atoi :: "string \<Rightarrow> nat" where
  \<comment> \<open>\<open>strconv.Atoi\<close> of a string of digits\<close>
  "atoi s = foldl (\<lambda>n c. 10 * n + digit_val c) 0 s"

lemma of_char_less_eq: "c \<le> d \<longleftrightarrow> (of_char c :: nat) \<le> of_char d"
  by (simp add: less_eq_char_def)

lemma is_digit_digit_char [simp]: "d < 10 \<Longrightarrow> is_digit (digit_char d)"
  by (simp add: is_digit_def digit_char_def less_eq_char_def of_char_of)

lemma digit_val_digit_char [simp]: "d < 10 \<Longrightarrow> digit_val (digit_char d) = d"
  by (simp add: digit_val_def digit_char_def of_char_of)

lemma atoi_append: "atoi (s @ [c]) = 10 * atoi s + digit_val c"
  by (simp add: atoi_def)

lemma atoi_itoa [simp]: "atoi (itoa n) = n"
proof (induction n rule: itoa.induct)
  case (1 n)
  show ?case
  proof (cases "n < 10")
    case True
    then show ?thesis by (simp add: itoa.simps [of n] atoi_def)
  next
    case False
    with 1 show ?thesis by (simp add: itoa.simps [of n] atoi_append)
  qed
qed

lemma itoa_digits: "c \<in> set (itoa n) \<Longrightarrow> is_digit c"
proof (induction n rule: itoa.induct)
  case (1 n)
  then show ?case by (cases "n < 10") (auto simp: itoa.simps [of n])
qed

lemma itoa_nonempty [simp]: "itoa n \<noteq> []"
  by (simp add: itoa.simps [of n])

end
