(* ===== verification/Scope_Ref.thy ===== *)
theory Scope_Ref
  imports Go_Strings
begin

text \<open>
  Model of \<open>internal/scoperef/scoperef.go\<close> and its deprecated secret-only face
  \<open>internal/secretref/secretref.go\<close>: the grammar of scope references
  \<open><scheme>://[<workspace>/][<dim>:<value>/]*<KEY>[@<version>]\<close>, the only secret-shaped
  value a plan may carry.

  \<open>Scheme\<close> and \<open>Dimension\<close> are string types with a closed set of constants; here they
  are datatypes with their spelling. A parse error is its class together with the
  arguments its message formats in (the rest of the message is fixed text).
\<close>

section \<open>Data\<close>

datatype scheme = SchemeSecret | SchemeConfig | SchemeFlag

datatype dimension = DimProject | DimEnv | DimComponent

fun scheme_string :: "scheme \<Rightarrow> string" where
  "scheme_string SchemeSecret = ''secret''"
| "scheme_string SchemeConfig = ''config''"
| "scheme_string SchemeFlag = ''flag''"

definition schemes :: "scheme list" where
  "schemes = [SchemeSecret, SchemeConfig, SchemeFlag]"

fun dim_string :: "dimension \<Rightarrow> string" where
  "dim_string DimProject = ''project''"
| "dim_string DimEnv = ''env''"
| "dim_string DimComponent = ''component''"

definition Dimensions :: "dimension list" where
  "Dimensions = [DimProject, DimEnv, DimComponent]"

fun schemeDimensions :: "scheme \<Rightarrow> dimension list" where
  "schemeDimensions SchemeSecret = [DimProject, DimEnv, DimComponent]"
| "schemeDimensions SchemeConfig = [DimProject, DimEnv, DimComponent]"
| "schemeDimensions SchemeFlag = [DimProject, DimEnv]"

text \<open>The canonical render order of the dimensions is a linear order on the type.\<close>

instantiation dimension :: linorder
begin

fun dim_rank :: "dimension \<Rightarrow> nat" where
  "dim_rank DimProject = 0"
| "dim_rank DimEnv = 1"
| "dim_rank DimComponent = 2"

definition less_eq_dimension :: "dimension \<Rightarrow> dimension \<Rightarrow> bool" where
  "less_eq_dimension a b \<longleftrightarrow> dim_rank a \<le> dim_rank b"

definition less_dimension :: "dimension \<Rightarrow> dimension \<Rightarrow> bool" where
  "less_dimension a b \<longleftrightarrow> dim_rank a < dim_rank b"

instance
proof
  fix x y :: dimension
  assume "x \<le> y" and "y \<le> x"
  then show "x = y"
    by (cases x; cases y) (simp_all add: less_eq_dimension_def)
qed (auto simp: less_eq_dimension_def less_dimension_def)

end

definition schemeOf :: "string \<Rightarrow> scheme option" where
  "schemeOf s = find (\<lambda>c. scheme_string c = s) schemes"

definition dimOf :: "string \<Rightarrow> dimension option" where
  \<comment> \<open>\<open>knownDimension\<close>, returning the known dimension\<close>
  "dimOf s = find (\<lambda>d. dim_string d = s) Dimensions"

definition key_char :: "char \<Rightarrow> bool" where
  "key_char c \<longleftrightarrow> is_alnum c \<or> c \<in> {CHR ''.'', CHR ''_'', CHR ''-''}"

definition keyRE :: "string \<Rightarrow> bool" where
  "keyRE s \<longleftrightarrow> s \<noteq> [] \<and> is_alpha (hd s) \<and> list_all key_char (tl s) \<and> length s \<le> 128"

definition slugRE :: "string \<Rightarrow> bool" where
  "slugRE s \<longleftrightarrow> s \<noteq> [] \<and> is_alnum (hd s) \<and> list_all key_char (tl s) \<and> length s \<le> 128"

definition versionRE :: "string \<Rightarrow> bool" where
  "versionRE s \<longleftrightarrow> s \<noteq> [] \<and> is_digit (hd s) \<and> hd s \<noteq> CHR ''0'' \<and> list_all is_digit (tl s) \<and> length s \<le> 9"

record sref =
  r_scheme :: scheme
  r_workspace :: string
  r_project :: string
  r_env :: string
  r_component :: string
  r_key :: string
  r_version :: int

datatype error_class =
    ErrNotARef | ErrUnknownScheme | ErrUnknownDimension | ErrDuplicateDimension
  | ErrDimensionNotAllowed | ErrBadKey | ErrBadValue | ErrBadVersion | ErrBadShape

record parse_error =
  pe_class :: error_class
  pe_args :: "string list"

definition parseErr :: "error_class \<Rightarrow> string list \<Rightarrow> parse_error + 'a" where
  "parseErr c args = Inl \<lparr>pe_class = c, pe_args = args\<rparr>"

section \<open>Parsing\<close>

definition IsSchemeRef :: "string \<Rightarrow> scheme \<Rightarrow> bool" where
  "IsSchemeRef s sch \<longleftrightarrow> has_prefix s (scheme_string sch @ ''://'')"

definition IsRef :: "string \<Rightarrow> bool" where
  "IsRef s \<longleftrightarrow> list_ex (IsSchemeRef s) schemes"

definition assignWorkspace :: "string \<Rightarrow> sref \<Rightarrow> parse_error + sref" where
  \<comment> \<open>\<open>assignSlug(&ref.Workspace, "workspace", value)\<close>, the only use of \<open>assignSlug\<close>\<close>
  "assignWorkspace value r =
     (if \<not> slugRE value then parseErr ErrBadValue [''workspace'']
      else Inr (r\<lparr>r_workspace := value\<rparr>))"

fun set_dim :: "dimension \<Rightarrow> string \<Rightarrow> sref \<Rightarrow> sref" where
  "set_dim DimProject v r = r\<lparr>r_project := v\<rparr>"
| "set_dim DimEnv v r = r\<lparr>r_env := v\<rparr>"
| "set_dim DimComponent v r = r\<lparr>r_component := v\<rparr>"

fun get_dim :: "sref \<Rightarrow> dimension \<Rightarrow> string" where
  "get_dim r DimProject = r_project r"
| "get_dim r DimEnv = r_env r"
| "get_dim r DimComponent = r_component r"

definition assignDimension :: "scheme \<Rightarrow> dimension \<Rightarrow> string \<Rightarrow> sref \<Rightarrow> parse_error + sref" where
  "assignDimension sch dim value r =
     (if dim \<notin> set (schemeDimensions sch)
      then parseErr ErrDimensionNotAllowed [dim_string dim, scheme_string sch]
      else if \<not> slugRE value then parseErr ErrBadValue [dim_string dim]
      else Inr (set_dim dim value r))"

fun parse_named :: "scheme \<Rightarrow> string list \<Rightarrow> dimension list \<Rightarrow> sref \<Rightarrow> parse_error + sref" where
  \<comment> \<open>the loop over the named segments; the third argument is \<open>seen\<close>\<close>
  "parse_named sch [] seen r = Inr r"
| "parse_named sch (segment # rest) seen r =
     (let (dim, value) = split_first CHR '':'' segment in
      case dimOf dim of
        None \<Rightarrow> parseErr ErrUnknownDimension [dim]
      | Some d \<Rightarrow>
          if d \<in> set seen then parseErr ErrDuplicateDimension [dim]
          else bindR (assignDimension sch d value r) (parse_named sch rest (d # seen)))"

definition parse_version :: "string \<Rightarrow> parse_error + int \<times> string" where
  "parse_version body =
     (case last_index_of_char body CHR ''@'' of
        None \<Rightarrow> Inr (0, body)
      | Some i \<Rightarrow>
          if \<not> versionRE (drop (Suc i) body) then parseErr ErrBadVersion []
          else Inr (int (atoi (drop (Suc i) body)), take i body))"

definition parse_segments :: "string list \<Rightarrow> sref \<Rightarrow> parse_error + sref" where
  \<comment> \<open>the body of \<open>Parse\<close> from the split of the segments on\<close>
  "parse_segments segments r =
     (let sch = r_scheme r;
          named = filter (\<lambda>s. CHR '':'' \<in> set s) segments;
          bare = filter (\<lambda>s. CHR '':'' \<notin> set s) segments
      in if length bare = 3 \<and> named = [] then
           bindR (assignWorkspace (bare ! 0) r) (\<lambda>r.
           bindR (assignDimension sch DimProject (bare ! 1) r) (\<lambda>r.
           assignDimension sch DimEnv (bare ! 2) r))
         else if 1 < length bare then parseErr ErrBadShape []
         else bindR
           (if length bare = 1 then
              (if segments = [] \<or> hd segments \<noteq> hd bare then parseErr ErrBadShape []
               else assignWorkspace (hd bare) r)
            else Inr r)
           (parse_named sch named []))"

definition Parse :: "string \<Rightarrow> parse_error + sref" where
  "Parse input =
     (case index_of input ''://'' of
        None \<Rightarrow> parseErr ErrNotARef []
      | Some sep \<Rightarrow>
        (case schemeOf (take sep input) of
           None \<Rightarrow> parseErr ErrUnknownScheme []
         | Some sch \<Rightarrow>
           (let body = drop (sep + 3) input in
            if body = [] then parseErr ErrBadShape []
            else bindR (parse_version body) (\<lambda>(version, body).
              let segments = split_char CHR ''/'' body; key = last segments in
              if \<not> keyRE key then parseErr ErrBadKey []
              else parse_segments (butlast segments)
                \<lparr>r_scheme = sch, r_workspace = [], r_project = [], r_env = [],
                 r_component = [], r_key = key, r_version = version\<rparr>))))"

section \<open>Rendering\<close>

definition dim_part :: "sref \<Rightarrow> dimension \<Rightarrow> string list" where
  "dim_part r d = (if get_dim r d \<noteq> [] then [dim_string d @ '':'' @ get_dim r d] else [])"

definition ref_segments :: "sref \<Rightarrow> string list" where
  "ref_segments r = (if r_workspace r \<noteq> [] then [r_workspace r] else []) @ concat (map (dim_part r) Dimensions)"

definition ref_string :: "sref \<Rightarrow> string" where
  \<comment> \<open>\<open>Ref.String\<close>\<close>
  "ref_string r =
     scheme_string (r_scheme r) @ ''://'' @ join ''/'' (ref_segments r @ [r_key r]) @
     (if 0 < r_version r then ''@'' @ itoa (nat (r_version r)) else [])"

definition Canonicalize :: "string \<Rightarrow> parse_error + string" where
  "Canonicalize input = bindR (Parse input) (\<lambda>r. Inr (ref_string r))"

definition IsFullyContextual :: "sref \<Rightarrow> bool" where
  "IsFullyContextual r \<longleftrightarrow> r_workspace r = [] \<and> r_project r = [] \<and> r_env r = [] \<and> r_component r = []"

definition secret_Parse :: "string \<Rightarrow> parse_error + sref" where
  \<comment> \<open>\<open>secretref.Parse\<close>\<close>
  "secret_Parse s = bindR (Parse s) (\<lambda>r.
     if r_scheme r \<noteq> SchemeSecret then parseErr ErrUnknownScheme [] else Inr r)"

definition secret_IsRef :: "string \<Rightarrow> bool" where
  "secret_IsRef s = IsSchemeRef s SchemeSecret"

section \<open>Well-formed references\<close>

definition valid_ref :: "sref \<Rightarrow> bool" where
  "valid_ref r \<longleftrightarrow>
     keyRE (r_key r) \<and> (r_workspace r = [] \<or> slugRE (r_workspace r)) \<and>
     list_all (\<lambda>d. get_dim r d = [] \<or> slugRE (get_dim r d) \<and> d \<in> set (schemeDimensions (r_scheme r)))
       Dimensions \<and>
     0 \<le> r_version r \<and> r_version r < 10 ^ 9"

lemma all_Dimensions [simp]: "list_all P Dimensions \<longleftrightarrow> (\<forall>d. P d)"
  unfolding Dimensions_def list_all_iff by (metis dimension.exhaust list.set_intros(1,2))

lemma valid_ref_iff:
  "valid_ref r \<longleftrightarrow>
     keyRE (r_key r) \<and> (r_workspace r = [] \<or> slugRE (r_workspace r)) \<and>
     (\<forall>d. get_dim r d = [] \<or> slugRE (get_dim r d) \<and> d \<in> set (schemeDimensions (r_scheme r))) \<and>
     0 \<le> r_version r \<and> r_version r < 10 ^ 9"
  by (simp add: valid_ref_def)

section \<open>Characters of the grammar\<close>

lemma key_char_no_delim: "key_char c \<Longrightarrow> c \<notin> {CHR '':'', CHR ''/'', CHR ''@''}"
  by (auto simp: key_char_def is_alnum_def is_alpha_def is_upper_def is_lower_def is_digit_def
      less_eq_char_def)

lemma alnum_key_char: "is_alnum c \<Longrightarrow> key_char c"
  by (simp add: key_char_def)

lemma slugRE_chars: "slugRE s \<Longrightarrow> list_all key_char s"
  by (cases s) (auto simp: slugRE_def alnum_key_char)

lemma keyRE_chars: "keyRE s \<Longrightarrow> list_all key_char s"
  by (cases s) (auto simp: keyRE_def alnum_key_char is_alnum_def)

lemma key_chars_free:
  "list_all key_char s \<Longrightarrow> CHR '':'' \<notin> set s \<and> CHR ''/'' \<notin> set s \<and> CHR ''@'' \<notin> set s"
  using key_char_no_delim by (auto simp: list_all_iff)

lemmas slug_free = key_chars_free [OF slugRE_chars]
lemmas key_free = key_chars_free [OF keyRE_chars]

lemma slugRE_Nil [simp]: "\<not> slugRE []" and keyRE_Nil [simp]: "\<not> keyRE []"
  by (simp_all add: slugRE_def keyRE_def)

lemma dim_string_free:
  "CHR '':'' \<notin> set (dim_string d) \<and> CHR ''/'' \<notin> set (dim_string d) \<and> CHR ''@'' \<notin> set (dim_string d)"
  by (cases d) simp_all

lemma dimOf_dim_string [simp]: "dimOf (dim_string d) = Some d"
  by (cases d) (simp_all add: dimOf_def Dimensions_def)

lemma dimOf_Some: "dimOf s = Some d \<longleftrightarrow> s = dim_string d"
proof
  assume "dimOf s = Some d"
  then show "s = dim_string d" unfolding dimOf_def find_Some_iff by blast
qed simp

lemma schemeOf_scheme_string [simp]: "schemeOf (scheme_string s) = Some s"
  by (cases s) (simp_all add: schemeOf_def schemes_def)

lemma schemeOf_Some: "schemeOf s = Some c \<longleftrightarrow> s = scheme_string c"
proof
  assume "schemeOf s = Some c"
  then show "s = scheme_string c" unfolding schemeOf_def find_Some_iff by blast
qed simp

lemma set_get_dim: "get_dim (set_dim d v r) d' = (if d' = d then v else get_dim r d')"
  by (cases d; cases d') simp_all

lemma set_dim_frame [simp]:
  "r_scheme (set_dim d v r) = r_scheme r" "r_workspace (set_dim d v r) = r_workspace r"
  "r_key (set_dim d v r) = r_key r" "r_version (set_dim d v r) = r_version r"
  by (cases d; simp)+

section \<open>Parsing a rendered reference\<close>

lemma index_of_scheme: "index_of (scheme_string sch @ ''://'' @ s) ''://'' = Some (length (scheme_string sch))"
  by (cases sch) (simp_all add: has_prefix_def)

lemma last_index_none: "c \<notin> set s \<Longrightarrow> last_index_of_char s c = None"
  by (induction s) auto

lemma last_index_append: "c \<notin> set t \<Longrightarrow> last_index_of_char (s @ c # t) c = Some (length s)"
  by (induction s) (auto simp: last_index_none)

lemma itoa_version:
  assumes "0 < n" and "n < 10 ^ 9"
  shows "versionRE (itoa n)"
proof -
  have len: "n < 10 ^ k \<Longrightarrow> 0 < k \<Longrightarrow> length (itoa n) \<le> k" for k n
  proof (induction k arbitrary: n)
    case (Suc k)
    show ?case
    proof (cases "n < 10")
      case False
      then have "n div 10 < 10 ^ k" and "0 < k" using Suc.prems by (auto intro: gr0I)
      with Suc.IH [of "n div 10"] False show ?thesis by (simp add: itoa.simps [of n])
    qed (simp add: itoa.simps [of n])
  qed simp
  have hd0: "0 < n \<Longrightarrow> hd (itoa n) \<noteq> CHR ''0''" for n
  proof (induction n rule: itoa.induct)
    case (1 n)
    show ?case
    proof (cases "n < 10")
      case True
      have "digit_char n \<noteq> CHR ''0''"
        using True 1(2) digit_val_digit_char [of n] by (auto simp: digit_val_def)
      with True show ?thesis by (simp add: itoa.simps [of n])
    next
      case False
      with 1 show ?thesis by (simp add: itoa.simps [of n] hd_append)
    qed
  qed
  have "list_all is_digit (itoa n)" using itoa_digits by (auto simp: list_all_iff)
  then show ?thesis
    using len [of n 9] hd0 [of n] assms by (cases "itoa n") (auto simp: versionRE_def)
qed

lemma parse_version_render:
  assumes "CHR ''@'' \<notin> set body" and "0 \<le> v" and "v < 10 ^ 9"
  shows "parse_version (body @ (if 0 < v then ''@'' @ itoa (nat v) else [])) = Inr (v, body)"
proof (cases "0 < v")
  case True
  have free: "CHR ''@'' \<notin> set (itoa (nat v))"
    using itoa_digits [of "CHR ''@''"] by (auto simp: is_digit_def less_eq_char_def)
  have "versionRE (itoa (nat v))" using itoa_version [of "nat v"] True assms(3) by simp
  with True show ?thesis
    by (simp add: parse_version_def last_index_append [OF free])
next
  case False
  with assms show ?thesis by (simp add: parse_version_def last_index_none)
qed

text \<open>The named loop, over the dimensions a reference sets.\<close>

lemma parse_named_step:
  assumes "d \<notin> set seen" and "d \<in> set (schemeDimensions sch)" and "slugRE v"
  shows "parse_named sch ((dim_string d @ '':'' @ v) # rest) seen r =
    parse_named sch rest (d # seen) (set_dim d v r)"
  using assms split_first_append [of "CHR '':''" "dim_string d" v] dim_string_free [of d]
  by (simp add: assignDimension_def)

lemma parse_named_dims:
  assumes "distinct ds" and "set ds \<inter> set seen = {}"
    and "\<And>d. d \<in> set ds \<Longrightarrow> get_dim r d = [] \<or> slugRE (get_dim r d) \<and> d \<in> set (schemeDimensions sch)"
  shows "parse_named sch (concat (map (dim_part r) ds)) seen q =
    Inr (fold (\<lambda>d q. if get_dim r d \<noteq> [] then set_dim d (get_dim r d) q else q) ds q)"
  using assms
proof (induction ds arbitrary: seen q)
  case (Cons d ds)
  show ?case
  proof (cases "get_dim r d = []")
    case True
    then show ?thesis using Cons.IH [of seen q] Cons.prems by (simp add: dim_part_def)
  next
    case False
    with Cons.prems(3) [of d] have "slugRE (get_dim r d)" "d \<in> set (schemeDimensions sch)" by auto
    moreover have "d \<notin> set seen" using Cons.prems(2) by auto
    ultimately have "parse_named sch (concat (map (dim_part r) (d # ds))) seen q =
        parse_named sch (concat (map (dim_part r) ds)) (d # seen) (set_dim d (get_dim r d) q)"
      using False by (simp add: dim_part_def parse_named_step [simplified])
    also have "\<dots> = Inr (fold (\<lambda>d q. if get_dim r d \<noteq> [] then set_dim d (get_dim r d) q else q)
        ds (set_dim d (get_dim r d) q))"
      by (rule Cons.IH) (use Cons.prems in auto)
    finally show ?thesis using False by simp
  qed
qed simp

lemma ref_segments_free:
  assumes "valid_ref r" and "s \<in> set (ref_segments r)"
  shows "CHR ''/'' \<notin> set s \<and> CHR ''@'' \<notin> set s"
  using assms slug_free dim_string_free
  by (force simp: valid_ref_iff ref_segments_def dim_part_def split: if_splits)

lemma join_no_char: "c \<notin> set sep \<Longrightarrow> \<forall>w \<in> set ws. c \<notin> set w \<Longrightarrow> c \<notin> set (join sep ws)"
  by (induction sep ws rule: join.induct) auto

lemma parse_segments_render:
  assumes v: "valid_ref r"
  shows "parse_segments (ref_segments r)
    \<lparr>r_scheme = r_scheme r, r_workspace = [], r_project = [], r_env = [],
     r_component = [], r_key = r_key r, r_version = r_version r\<rparr> = Inr r"
proof -
  let ?q = "\<lparr>r_scheme = r_scheme r, r_workspace = [], r_project = [], r_env = [],
     r_component = [], r_key = r_key r, r_version = r_version r\<rparr>"
  let ?dims = "concat (map (dim_part r) Dimensions)"
  have ws: "r_workspace r = [] \<or> slugRE (r_workspace r)" using v by (simp add: valid_ref_iff)
  have named: "filter (\<lambda>s. CHR '':'' \<in> set s) ?dims = ?dims"
    and bare: "filter (\<lambda>s. CHR '':'' \<notin> set s) ?dims = []"
    by (auto simp: dim_part_def Dimensions_def)
  have loop: "parse_named (r_scheme r) ?dims [] (q\<lparr>r_workspace := w\<rparr>) =
      Inr (fold (\<lambda>d q. if get_dim r d \<noteq> [] then set_dim d (get_dim r d) q else q) Dimensions (q\<lparr>r_workspace := w\<rparr>))" for q w
    by (rule parse_named_dims) (use v in \<open>auto simp: Dimensions_def valid_ref_iff\<close>)
  show ?thesis
  proof (cases "r_workspace r = []")
    case True
    then have "parse_segments (ref_segments r) ?q = parse_named (r_scheme r) ?dims [] ?q"
      by (simp add: parse_segments_def ref_segments_def named bare Let_def)
    also have "\<dots> = Inr r"
      using loop [of "[]" ?q] True by (cases r) (simp add: Dimensions_def)
    finally show ?thesis .
  next
    case False
    with ws have s: "slugRE (r_workspace r)" by simp
    then have f: "CHR '':'' \<notin> set (r_workspace r)" using slug_free by blast
    have "parse_segments (ref_segments r) ?q = parse_named (r_scheme r) ?dims [] (?q\<lparr>r_workspace := r_workspace r\<rparr>)"
      using False s f by (simp add: parse_segments_def ref_segments_def named bare Let_def assignWorkspace_def)
    also have "\<dots> = Inr r"
      using loop [of "r_workspace r" ?q] by (cases r) (simp add: Dimensions_def)
    finally show ?thesis .
  qed
qed

lemma Parse_join:
  assumes k: "keyRE k" and free: "\<And>s. s \<in> set segs \<Longrightarrow> CHR ''/'' \<notin> set s \<and> CHR ''@'' \<notin> set s"
    and v: "0 \<le> v" "v < 10 ^ 9"
  shows "Parse (scheme_string sch @ ''://'' @ join ''/'' (segs @ [k]) @
      (if 0 < v then ''@'' @ itoa (nat v) else [])) =
    parse_segments segs \<lparr>r_scheme = sch, r_workspace = [], r_project = [], r_env = [],
      r_component = [], r_key = k, r_version = v\<rparr>"
proof -
  let ?body = "join ''/'' (segs @ [k])"
  let ?tail = "if 0 < v then ''@'' @ itoa (nat v) else []"
  have split: "split_char CHR ''/'' ?body = segs @ [k]"
    by (rule split_char_join) (use free key_free [OF k] in auto)
  have at: "CHR ''@'' \<notin> set ?body"
    by (rule join_no_char) (use free key_free [OF k] in auto)
  have ne: "?body \<noteq> []"
  proof
    assume "?body = []"
    with split have "segs @ [k] = [[]]" by simp
    then have "k = []" by (metis last_snoc last.simps)
    with k show False by simp
  qed
  show ?thesis
    using ne k split parse_version_render [OF at v] index_of_scheme [of sch "?body @ ?tail"]
    by (simp add: Parse_def Let_def)
qed

lemma Parse_ref_string: "valid_ref r \<Longrightarrow> Parse (ref_string r) = Inr r"
  unfolding ref_string_def
  by (subst Parse_join) (simp_all add: ref_segments_free parse_segments_render, simp_all add: valid_ref_iff)

section \<open>Every parsed reference is well formed\<close>

lemma atoi_bound: "list_all is_digit s \<Longrightarrow> atoi s < 10 ^ length s"
proof (induction s rule: rev_induct)
  case (snoc c s)
  then have "(of_char c :: nat) \<le> of_char CHR ''9''"
    by (simp add: is_digit_def of_char_less_eq)
  then have "digit_val c < 10" by (simp add: digit_val_def)
  with snoc show ?case by (simp add: atoi_append)
qed (simp add: atoi_def)

lemma parse_version_bounds:
  assumes "parse_version body = Inr (v, rest)"
  shows "0 \<le> v \<and> v < 10 ^ 9"
proof (cases "last_index_of_char body CHR ''@''")
  case None
  with assms show ?thesis by (simp add: parse_version_def)
next
  case (Some i)
  let ?raw = "drop (Suc i) body"
  from assms Some have v: "versionRE ?raw" "v = int (atoi ?raw)"
    by (auto simp: parse_version_def parseErr_def split: if_splits)
  from v(1) have "list_all is_digit ?raw" "length ?raw \<le> 9"
    by (cases ?raw; simp add: versionRE_def)+
  then have "atoi ?raw < 10 ^ 9"
    by (meson atoi_bound less_le_trans one_le_numeral power_increasing)
  then have "int (atoi ?raw) < 10 ^ 9" by (metis of_nat_less_iff of_nat_numeral of_nat_power)
  with v(2) show ?thesis by simp
qed

definition dims_ok :: "sref \<Rightarrow> bool" where
  "dims_ok r \<longleftrightarrow> (\<forall>d. get_dim r d = [] \<or> slugRE (get_dim r d) \<and> d \<in> set (schemeDimensions (r_scheme r)))"

lemma assignDimension_ok:
  assumes "assignDimension (r_scheme r) d v r = Inr r'" and "dims_ok r"
  shows "dims_ok r' \<and> r_scheme r' = r_scheme r \<and> r_workspace r' = r_workspace r \<and>
    r_key r' = r_key r \<and> r_version r' = r_version r"
proof -
  from assms(1) have "d \<in> set (schemeDimensions (r_scheme r))" "slugRE v" and r': "r' = set_dim d v r"
    by (auto simp: assignDimension_def parseErr_def split: if_splits)
  then have "dims_ok r'" using assms(2) by (simp add: dims_ok_def set_get_dim)
  then show ?thesis using r' by simp
qed

lemma parse_named_ok:
  assumes "parse_named (r_scheme r) named seen r = Inr r'" and "dims_ok r"
  shows "dims_ok r' \<and> r_scheme r' = r_scheme r \<and> r_workspace r' = r_workspace r \<and>
    r_key r' = r_key r \<and> r_version r' = r_version r"
  using assms
proof (induction named arbitrary: seen r)
  case (Cons s named)
  obtain dim v where s: "split_first CHR '':'' s = (dim, v)" by (cases "split_first CHR '':'' s")
  from Cons.prems(1) s obtain d q where
    q: "assignDimension (r_scheme r) d v r = Inr q" "parse_named (r_scheme r) named (d # seen) q = Inr r'"
    by (auto simp: parseErr_def bindR_Inr_iff split: option.splits if_splits)
  note q_ok = assignDimension_ok [OF q(1) Cons.prems(2)]
  with Cons.IH [of q "d # seen"] q(2) show ?case by simp
qed simp

lemma assignWorkspace_Inr: "assignWorkspace v r = Inr r' \<longleftrightarrow> slugRE v \<and> r' = r\<lparr>r_workspace := v\<rparr>"
  by (auto simp: assignWorkspace_def parseErr_def)

lemma dims_ok_workspace [simp]: "dims_ok (r\<lparr>r_workspace := w\<rparr>) = dims_ok r"
proof -
  have "get_dim (r\<lparr>r_workspace := w\<rparr>) d = get_dim r d" for d by (cases d) simp_all
  then show ?thesis by (simp add: dims_ok_def)
qed

lemma parse_segments_ok:
  assumes p: "parse_segments segs r = Inr r'" and ok: "dims_ok r" and ws: "r_workspace r = []"
  shows "dims_ok r' \<and> (r_workspace r' = [] \<or> slugRE (r_workspace r')) \<and>
    r_scheme r' = r_scheme r \<and> r_key r' = r_key r \<and> r_version r' = r_version r"
proof -
  let ?named = "filter (\<lambda>s. CHR '':'' \<in> set s) segs"
  let ?bare = "filter (\<lambda>s. CHR '':'' \<notin> set s) segs"
  consider (pos) "length ?bare = 3 \<and> ?named = []"
    | (one) "length ?bare = 1" | (none) "length ?bare = 0"
  proof (cases "1 < length ?bare")
    case True
    with p have "length ?bare = 3 \<and> ?named = []"
      by (simp add: parse_segments_def Let_def parseErr_def split: if_splits)
    then show thesis by (rule pos)
  next
    case False
    then have "length ?bare = 1 \<or> length ?bare = 0" by linarith
    then show thesis using one none by blast
  qed
  then show ?thesis
  proof cases
    case pos
    with p obtain q1 q2 where q: "assignWorkspace (?bare ! 0) r = Inr q1"
      "assignDimension (r_scheme r) DimProject (?bare ! 1) q1 = Inr q2"
      "assignDimension (r_scheme r) DimEnv (?bare ! 2) q2 = Inr r'"
      by (auto simp: parse_segments_def Let_def bindR_Inr_iff)
    from q(1) have q1: "r_scheme q1 = r_scheme r" "dims_ok q1" "slugRE (r_workspace q1)"
      "r_key q1 = r_key r" "r_version q1 = r_version r"
      using ok by (auto simp: assignWorkspace_Inr)
    from assignDimension_ok [of q1 DimProject] q(2) q1 have q2: "dims_ok q2" "r_scheme q2 = r_scheme r"
      "r_workspace q2 = r_workspace q1" "r_key q2 = r_key r" "r_version q2 = r_version r" by auto
    from assignDimension_ok [of q2 DimEnv] q(3) q2 q1(3) show ?thesis by auto
  next
    case one
    with p obtain q where "assignWorkspace (hd ?bare) r = Inr q" and n: "parse_named (r_scheme r) ?named [] q = Inr r'"
      by (auto simp: parse_segments_def Let_def bindR_Inr_iff parseErr_def split: if_splits)
    then have "r_scheme q = r_scheme r" "dims_ok q" "slugRE (r_workspace q)" "r_key q = r_key r" "r_version q = r_version r"
      using ok by (auto simp: assignWorkspace_Inr)
    with parse_named_ok [of q ?named "[]" r'] n show ?thesis by auto
  next
    case none
    with p have "parse_named (r_scheme r) ?named [] r = Inr r'"
      by (auto simp: parse_segments_def Let_def)
    with parse_named_ok [of r ?named "[]" r'] ok ws show ?thesis by auto
  qed
qed

lemma Parse_valid:
  assumes "Parse s = Inr r"
  shows "valid_ref r"
proof -
  from assms obtain sep sch where sep: "index_of s ''://'' = Some sep" and sch: "schemeOf (take sep s) = Some sch"
    by (auto simp: Parse_def parseErr_def split: option.splits)
  with assms obtain v body where pv: "parse_version (drop (sep + 3) s) = Inr (v, body)"
    and key: "keyRE (last (split_char CHR ''/'' body))"
    and seg: "parse_segments (butlast (split_char CHR ''/'' body))
        \<lparr>r_scheme = sch, r_workspace = [], r_project = [], r_env = [],
         r_component = [], r_key = last (split_char CHR ''/'' body), r_version = v\<rparr> = Inr r"
    by (auto simp: Parse_def parseErr_def bindR_Inr_iff Let_def split: if_splits)
  have "dims_ok \<lparr>r_scheme = sch, r_workspace = [], r_project = [], r_env = [],
         r_component = [], r_key = last (split_char CHR ''/'' body), r_version = v\<rparr>"
    unfolding dims_ok_def by (metis get_dim.elims sref.select_convs(3-5))
  from parse_segments_ok [OF seg this] have "dims_ok r" "r_workspace r = [] \<or> slugRE (r_workspace r)"
    "r_key r = last (split_char CHR ''/'' body)" "r_version r = v" by simp_all
  with key parse_version_bounds [OF pv] show ?thesis
    by (simp add: valid_ref_iff dims_ok_def)
qed

section \<open>The codec interface\<close>

text \<open>
  What the planner relies on when it renders, re-parses and compares references: printing
  and parsing invert each other on well-formed references.
\<close>

locale ref_codec =
  fixes parse :: "string \<Rightarrow> 'e + 'r" and render :: "'r \<Rightarrow> string" and valid :: "'r \<Rightarrow> bool"
  assumes parse_render: "valid r \<Longrightarrow> parse (render r) = Inr r"
    and parse_valid: "parse s = Inr r \<Longrightarrow> valid r"
begin

lemma reparse: "parse s = Inr r \<Longrightarrow> parse (render r) = Inr r"
  by (simp add: parse_render parse_valid)

lemma render_inject: "valid r \<Longrightarrow> valid q \<Longrightarrow> render r = render q \<longleftrightarrow> r = q"
  by (metis parse_render Inr_inject)

lemma canonical_idem:
  "bindR (parse s) (\<lambda>r. Inr (render r)) = Inr c \<Longrightarrow> bindR (parse c) (\<lambda>r. Inr (render r)) = Inr c"
  by (auto simp: bindR_Inr_iff reparse)

lemma canonical_eq_iff:
  assumes "bindR (parse s) (\<lambda>r. Inr (render r)) = Inr c" and "bindR (parse t) (\<lambda>r. Inr (render r)) = Inr d"
  shows "c = d \<longleftrightarrow> parse s = parse t"
  using assms by (auto simp: bindR_Inr_iff) (metis parse_valid render_inject)

end

interpretation scope_codec: ref_codec Parse ref_string valid_ref
  by unfold_locales (simp_all add: Parse_ref_string Parse_valid)

lemma secret_Parse_Inr: "secret_Parse s = Inr r \<longleftrightarrow> Parse s = Inr r \<and> r_scheme r = SchemeSecret"
  by (auto simp: secret_Parse_def bindR_Inr_iff parseErr_def)

interpretation secret_codec: ref_codec secret_Parse ref_string "\<lambda>r. valid_ref r \<and> r_scheme r = SchemeSecret"
  by unfold_locales (auto simp: secret_Parse_Inr Parse_ref_string Parse_valid)

section \<open>Properties\<close>

text \<open>C1: A reference is well-formed exactly when it is parsed back from its canonical string, and that string is
  then a fixed point of canonicalization; and every reference that the parser accepts, in whatever spelling, is
  well-formed and has that string as its canonical form.\<close>

theorem scoperef_roundtrip:
  "(valid_ref r \<longleftrightarrow> Parse (ref_string r) = Inr r) \<and>
   (valid_ref r \<longrightarrow> Canonicalize (ref_string r) = Inr (ref_string r)) \<and>
   (\<forall>s. Parse s = Inr r \<longrightarrow> valid_ref r \<and> Canonicalize s = Inr (ref_string r))"
  using scope_codec.parse_render [of r] Parse_valid by (auto simp: Canonicalize_def)

theorem scoperef_roundtrip_witness:
  "let r = \<lparr>r_scheme = SchemeSecret, r_workspace = ''acme'', r_project = ''shop'', r_env = ''prod'',
      r_component = ''api'', r_key = ''DB_URL'', r_version = 12\<rparr>
   in Parse (ref_string r) = Inr r \<and> Canonicalize (ref_string r) = Inr (ref_string r) \<and>
      Canonicalize ''secret://acme/env:prod/project:shop/component:api/DB_URL@12'' = Inr (ref_string r)"
proof -
  let ?r = "\<lparr>r_scheme = SchemeSecret, r_workspace = ''acme'', r_project = ''shop'', r_env = ''prod'',
      r_component = ''api'', r_key = ''DB_URL'', r_version = 12\<rparr>"
  have "valid_ref ?r" by code_simp
  moreover have "Parse ''secret://acme/env:prod/project:shop/component:api/DB_URL@12'' = Inr ?r" by code_simp
  ultimately show ?thesis using scoperef_roundtrip [of ?r] by simp
qed

text \<open>C24 (equivalence). Canonicalization decides sameness of references: two strings that both
  parse have one canonical form exactly when they parse to the same reference, and the canonical
  form is itself canonical.\<close>

theorem canonical_form_decides_sameness:
  assumes "Canonicalize s = Inr c" and "Canonicalize t = Inr d"
  shows "(c = d \<longleftrightarrow> Parse s = Parse t) \<and> Canonicalize c = Inr c"
  using assms scope_codec.canonical_eq_iff [of s c t d] scope_codec.canonical_idem [of s c]
  unfolding Canonicalize_def by simp

theorem canonical_form_decides_sameness_witness:
  "Parse ''secret://acme/shop/prod/DB'' = Parse ''secret://acme/env:prod/project:shop/DB''"
proof -
  have "Canonicalize ''secret://acme/shop/prod/DB'' = Inr ''secret://acme/project:shop/env:prod/DB''"
    and "Canonicalize ''secret://acme/env:prod/project:shop/DB'' = Inr ''secret://acme/project:shop/env:prod/DB''"
    by code_simp+
  from canonical_form_decides_sameness [OF this] show ?thesis by simp
qed

text \<open>The deprecated positional spelling
  \<open><scheme>://<workspace>/<project>/<env>/<KEY>\<close> means exactly what the named spelling means, on
  every plane.\<close>

theorem positional_means_named:
  assumes "slugRE w" and "slugRE p" and "slugRE e" and "keyRE k"
  shows "Parse (scheme_string sch @ ''://'' @ join ''/'' [w, p, e, k]) =
      Inr \<lparr>r_scheme = sch, r_workspace = w, r_project = p, r_env = e, r_component = [],
        r_key = k, r_version = 0\<rparr> \<and>
    Parse (scheme_string sch @ ''://'' @ join ''/'' [w, ''project:'' @ p, ''env:'' @ e, k]) =
      Parse (scheme_string sch @ ''://'' @ join ''/'' [w, p, e, k])"
proof (rule conjI)
  let ?r = "\<lparr>r_scheme = sch, r_workspace = w, r_project = p, r_env = e, r_component = [],
        r_key = k, r_version = 0\<rparr>"
  have dims: "DimProject \<in> set (schemeDimensions sch)" "DimEnv \<in> set (schemeDimensions sch)"
    by (cases sch; simp)+
  have free: "CHR '':'' \<notin> set w" "CHR '':'' \<notin> set p" "CHR '':'' \<notin> set e" "p \<noteq> []" "e \<noteq> []" "w \<noteq> []"
    using assms slug_free by (auto simp: slugRE_def)
  have "Parse (scheme_string sch @ ''://'' @ join ''/'' ([w, p, e] @ [k]) @ (if 0 < (0::int) then ''@'' @ itoa (nat 0) else [])) =
      parse_segments [w, p, e] \<lparr>r_scheme = sch, r_workspace = [], r_project = [], r_env = [],
      r_component = [], r_key = k, r_version = 0\<rparr>"
    by (rule Parse_join) (use assms slug_free in auto)
  also have "\<dots> = Inr ?r"
    using assms dims free
    by (simp add: parse_segments_def Let_def assignWorkspace_def assignDimension_def)
  finally have pos: "Parse (scheme_string sch @ ''://'' @ join ''/'' [w, p, e, k]) = Inr ?r" by simp
  then show "Parse (scheme_string sch @ ''://'' @ join ''/'' [w, p, e, k]) = Inr ?r" .
  have "get_dim ?r d = [] \<or> slugRE (get_dim ?r d) \<and> d \<in> set (schemeDimensions sch)" for d
    using assms dims by (cases d) simp_all
  then have "valid_ref ?r" using assms by (simp add: valid_ref_iff)
  from scope_codec.parse_render [OF this] pos free
  show "Parse (scheme_string sch @ ''://'' @ join ''/'' [w, ''project:'' @ p, ''env:'' @ e, k]) =
      Parse (scheme_string sch @ ''://'' @ join ''/'' [w, p, e, k])"
    by (simp add: ref_string_def ref_segments_def Dimensions_def dim_part_def)
qed

theorem positional_means_named_witness:
  "Parse ''config://acme/project:shop/env:prod/DB'' = Parse ''config://acme/shop/prod/DB''"
proof -
  have "slugRE ''acme''" "slugRE ''shop''" "slugRE ''prod''" "keyRE ''DB''" by code_simp+
  from positional_means_named [OF this, of SchemeConfig] show ?thesis by simp
qed

text \<open>The message of an unknown dimension carries the dimension's spelling as the
  author wrote it, so a value pasted before a colon is echoed by the parser.\<close>

theorem unknown_dimension_echoes_input:
  assumes "slugRE x" and "x \<notin> {''project'', ''env'', ''component''}"
  shows "Parse (''secret://'' @ x @ '':v/KEY'') =
    Inl \<lparr>pe_class = ErrUnknownDimension, pe_args = [x]\<rparr>"
proof -
  have unknown: "dimOf x = None"
  proof (cases "dimOf x")
    case (Some d)
    then have "x = dim_string d" by (simp add: dimOf_Some)
    with assms(2) show ?thesis by (cases d) simp_all
  qed
  have "Parse (scheme_string SchemeSecret @ ''://'' @ join ''/'' ([x @ '':v''] @ [''KEY'']) @
      (if 0 < (0::int) then ''@'' @ itoa (nat 0) else [])) =
      parse_segments [x @ '':v''] \<lparr>r_scheme = SchemeSecret, r_workspace = [], r_project = [], r_env = [],
      r_component = [], r_key = ''KEY'', r_version = 0\<rparr>"
  proof (rule Parse_join)
    show "keyRE ''KEY''" by code_simp
  qed (use slug_free [OF assms(1)] in auto)
  also have "\<dots> = Inl \<lparr>pe_class = ErrUnknownDimension, pe_args = [x]\<rparr>"
    using split_first_append [of "CHR '':''" x "''v''"] slug_free [OF assms(1)] unknown
    by (simp add: parse_segments_def Let_def parseErr_def)
  finally show ?thesis by simp
qed

theorem unknown_dimension_echoes_input_witness:
  "Parse ''secret://hunter2:v/KEY'' = Inl \<lparr>pe_class = ErrUnknownDimension, pe_args = [''hunter2'']\<rparr>"
proof -
  have "slugRE ''hunter2''" and "''hunter2'' \<notin> {''project'', ''env'', ''component''}" by code_simp+
  from unknown_dimension_echoes_input [OF this] show ?thesis by simp
qed

end
