(* ===== verification/Go_Path.thy ===== *)
theory Go_Path
  imports Go_Strings
begin

text \<open>
  \<open>path/filepath\<close> on Unix, as far as the modelled code uses it: \<open>Clean\<close> and \<open>Dir\<close>. Cleaning
  keeps a stack of path elements; its invariant gives idempotence.
\<close>

definition clean_push :: "bool \<Rightarrow> string \<Rightarrow> string list \<Rightarrow> string list" where
  \<comment> \<open>one path element onto the reversed list of kept elements\<close>
  "clean_push rooted e st =
     (if e = [] \<or> e = ''.'' then st
      else if e = ''..'' then
        (if st \<noteq> [] \<and> hd st \<noteq> ''..'' then tl st else if rooted then st else ''..'' # st)
      else e # st)"

definition path_clean :: "string \<Rightarrow> string" where
  \<comment> \<open>\<open>filepath.Clean\<close> (Unix)\<close>
  "path_clean p =
     (let rooted = has_prefix p ''/'';
          st = fold (clean_push rooted) (split_char CHR ''/'' p) [];
          body = join ''/'' (rev st)
      in if rooted then ''/'' @ body else if st = [] then ''.'' else body)"

definition path_dir :: "string \<Rightarrow> string" where
  \<comment> \<open>\<open>filepath.Dir\<close> (Unix)\<close>
  "path_dir p = (case last_index_of_char p CHR ''/'' of
      None \<Rightarrow> ''.'' | Some i \<Rightarrow> path_clean (take (Suc i) p))"

definition clean_stack :: "bool \<Rightarrow> string list \<Rightarrow> bool" where
  \<comment> \<open>reversed elements of a clean path: \<open>..\<close> only at the front of a relative path\<close>
  "clean_stack rooted st \<longleftrightarrow>
     (\<forall>e \<in> set st. e \<noteq> [] \<and> e \<noteq> ''.'' \<and> CHR ''/'' \<notin> set e \<and> (rooted \<longrightarrow> e \<noteq> ''..'')) \<and>
     sorted_wrt (\<lambda>a b. a = ''..'' \<longrightarrow> b = ''..'') st"

lemma clean_push_stack:
  assumes "clean_stack r st" and "CHR ''/'' \<notin> set e"
  shows "clean_stack r (clean_push r e st)"
  using assms by (cases st) (auto simp: clean_stack_def clean_push_def)

lemma clean_fold_stack:
  "clean_stack r st \<Longrightarrow> \<forall>e \<in> set es. CHR ''/'' \<notin> set e \<Longrightarrow> clean_stack r (fold (clean_push r) es st)"
  by (induction es arbitrary: st) (simp_all add: clean_push_stack)

lemma clean_refold: "clean_stack r st \<Longrightarrow> fold (clean_push r) (rev st) [] = st"
proof (induction st)
  case (Cons e st)
  from Cons.prems have "clean_stack r st" by (simp add: clean_stack_def)
  then have refold: "fold (clean_push r) (rev st) [] = st" by (rule Cons.IH)
  have e: "e \<noteq> []" "e \<noteq> ''.''" "e = ''..'' \<Longrightarrow> \<not> r" "e = ''..'' \<Longrightarrow> st \<noteq> [] \<Longrightarrow> hd st = ''..''"
    using Cons.prems hd_in_set [of st] by (auto simp: clean_stack_def)
  have "clean_push r e st = e # st"
    unfolding clean_push_def using e(1,2) e(3,4) by metis
  with refold show ?case by simp
qed simp

lemma path_clean_idem: "path_clean (path_clean p) = path_clean p"
proof -
  define r st where "r = has_prefix p ''/''" and "st = fold (clean_push r) (split_char CHR ''/'' p) []"
  have cs: "clean_stack r st"
    unfolding st_def by (rule clean_fold_stack) (auto simp: clean_stack_def dest: split_char_parts)
  have fold_body: "fold (clean_push r) (split_char CHR ''/'' (join ''/'' (rev st))) [] = st"
  proof (cases "st = []")
    case False
    then have "split_char CHR ''/'' (join ''/'' (rev st)) = rev st"
      using cs by (intro split_char_join) (auto simp: clean_stack_def)
    then show ?thesis by (simp add: clean_refold [OF cs])
  qed (simp add: clean_push_def)
  show ?thesis
  proof (cases r)
    case True
    then have "path_clean p = ''/'' @ join ''/'' (rev st)"
      unfolding path_clean_def Let_def r_def [symmetric] st_def [symmetric] by simp
    with True fold_body show ?thesis
      by (simp add: path_clean_def [of "CHR ''/'' # w" for w] Let_def has_prefix_def clean_push_def)
  next
    case False
    then have pc: "path_clean p = (if st = [] then ''.'' else join ''/'' (rev st))"
      unfolding path_clean_def Let_def r_def [symmetric] st_def [symmetric] by simp
    show ?thesis
    proof (cases "st = []")
      case True
      then show ?thesis unfolding pc by (simp add: path_clean_def has_prefix_def clean_push_def)
    next
      case ne: False
      then obtain w ws where w: "rev st = w # ws" by (cases "rev st") auto
      then have "w \<in> set st" by (metis list.set_intros(1) set_rev)
      then have "w \<noteq> []" "CHR ''/'' \<notin> set w" using cs by (auto simp: clean_stack_def)
      then have "\<not> has_prefix (join ''/'' (rev st)) ''/''"
        unfolding w by (cases w; cases ws) (auto simp: has_prefix_iff)
      then show ?thesis using pc ne fold_body False
        by (simp add: path_clean_def [of "join ''/'' (rev st)"] Let_def)
    qed
  qed
qed

end
