(* ===== verification/Job_Model.thy ===== *)
theory Job_Model
  imports Complex_Main Go_Path
begin

text \<open>
  The job side of \<open>internal/model\<close> (\<open>job.go\<close>): steps, job specifications, job
  instances, and the validation methods of a step. A struct is a record with a field per
  field, a pointer is an option, a Go map a \<open>gmap\<close>, a decoded YAML/JSON value a \<open>yval\<close>.
  \<open>float64\<close> fields are rationals (every finite float is one). The \<open>zero_\<close> constants are
  Go's zero values.
\<close>

section \<open>Decoded values\<close>

datatype yval =
    YNull | YBool bool | YInt int | YFloat rat | YStr string
  | YList "yval list" | YMap "(string \<times> yval) list"

definition str_val :: "yval \<Rightarrow> string option" where
  \<comment> \<open>the type assertion \<open>v.(string)\<close>\<close>
  "str_val v = (case v of YStr s \<Rightarrow> Some s | _ \<Rightarrow> None)"

lemma str_val_simps [simp]: "str_val (YStr s) = Some s" "str_val YNull = None"
  by (simp_all add: str_val_def)

section \<open>Structs\<close>

record job_resources =
  jr_cpu :: rat
  jr_memory :: string
  jr_estimated_seconds :: int

record cache_decl =
  cd_name :: string
  cd_path :: string

record step_approval =
  sa_prompt :: string
  sa_timeout :: string
  sa_on_timeout :: string

record step =
  s_id :: string
  s_name :: string
  s_capability :: string
  s_phase :: string
  s_order :: int
  s_scope :: string
  s_run :: string
  s_use :: string
  s_workflow :: string
  s_connections :: "string gmap gmap"
  s_with :: "yval gmap"
  s_env :: "yval gmap"
  s_shell :: string
  s_working_directory :: string
  s_timeout :: string
  s_retry :: int
  s_caches :: "cache_decl list"
  s_resume :: bool
  s_approval :: "step_approval option"
  s_on_failure :: string

definition zero_step :: step where
  "zero_step = \<lparr>s_id = [], s_name = [], s_capability = [], s_phase = [], s_order = 0, s_scope = [],
    s_run = [], s_use = [], s_workflow = [], s_connections = [], s_with = [], s_env = [],
    s_shell = [], s_working_directory = [], s_timeout = [], s_retry = 0, s_caches = [],
    s_resume = False, s_approval = None, s_on_failure = []\<rparr>"

record job_spec =
  js_name :: string
  js_description :: string
  js_resources :: "job_resources option"
  js_runs_on :: string
  js_timeout :: string
  js_retries :: int
  js_steps :: "step list"
  js_inputs :: "yval gmap"
  js_labels :: "string gmap"
  js_capabilities :: "string list"

record resolved_materialize =
  rm_target :: string
  rm_secrets :: "string list"

record resolved_secret_binding =
  rb_key :: string
  rb_as_env :: string
  rb_required :: bool

record promotion_gate =
  pg_type :: string
  pg_environment :: string
  pg_component :: string
  pg_condition :: string
  pg_match :: "string gmap"

record rendered_step =
  rs_id :: string
  rs_name :: string
  rs_phase :: string
  rs_order :: int
  rs_scope :: string
  rs_run :: string
  rs_use :: string
  rs_workflow :: string
  rs_workflow_digest :: string
  rs_connections :: "string gmap gmap"
  rs_with :: "yval gmap"
  rs_env :: "yval gmap"
  rs_shell :: string
  rs_working_directory :: string
  rs_timeout :: string
  rs_retry :: int
  rs_caches :: "cache_decl list"
  rs_resume :: bool
  rs_approval :: "step_approval option"
  rs_on_failure :: string

record job_instance =
  j_id :: string
  j_name :: string
  j_component :: string
  j_environment :: string
  j_composition :: string
  j_profile :: string
  j_profile_source :: string
  j_profile_rule_trigger_ref :: string
  j_runs_on :: string
  j_path :: string
  j_steps :: "rendered_step list"
  j_depends_on :: "string list"
  j_advisory_depends_on :: "string list"
  j_dependency_mode :: string
  j_dependency_source :: string
  j_dependency_rule_trigger_ref :: string
  j_gates :: "promotion_gate list"
  j_timeout :: string
  j_retries :: int
  j_resources :: "job_resources option"
  j_parameters :: "yval gmap"
  j_env :: "string gmap"
  j_optional_secret_refs :: "string gmap"
  j_secret_refs :: "string gmap"
  j_secret_bindings :: "resolved_secret_binding list"
  j_materialize :: "resolved_materialize option"
  j_labels :: "string gmap"

definition zero_job_instance :: job_instance where
  "zero_job_instance = \<lparr>j_id = [], j_name = [], j_component = [], j_environment = [],
    j_composition = [], j_profile = [], j_profile_source = [], j_profile_rule_trigger_ref = [],
    j_runs_on = [], j_path = [], j_steps = [], j_depends_on = [], j_advisory_depends_on = [],
    j_dependency_mode = [], j_dependency_source = [], j_dependency_rule_trigger_ref = [],
    j_gates = [], j_timeout = [], j_retries = 0, j_resources = None, j_parameters = [], j_env = [],
    j_optional_secret_refs = [], j_secret_refs = [], j_secret_bindings = [], j_materialize = None,
    j_labels = []\<rparr>"

section \<open>Step validation\<close>

datatype step_error =
    ApprovalNoTimeout string
  | ApprovalOnTimeout string string
  | ManyExecForms string "string list"
  | CacheBadName string string
  | CacheNoPath string string
  | CacheAbsolute string string string
  | CacheEscapes string string string
  | LaneScopeNotRun string
  | UnknownScope string string

definition approval_Validate :: "step_approval option \<Rightarrow> string \<Rightarrow> step_error option" where
  "approval_Validate ap stepName =
     (case ap of None \<Rightarrow> None
      | Some a \<Rightarrow>
          if trim_space (sa_timeout a) = [] then Some (ApprovalNoTimeout stepName)
          else if sa_on_timeout a \<in> {''fail'', ''proceed''} then None
          else Some (ApprovalOnTimeout stepName (sa_on_timeout a)))"

definition exec_forms :: "step \<Rightarrow> string list" where
  "exec_forms s =
     (if trim_space (s_run s) \<noteq> [] then [''run''] else []) @
     (if trim_space (s_use s) \<noteq> [] then [''use''] else []) @
     (if trim_space (s_workflow s) \<noteq> [] then [''workflow''] else [])"

definition ValidateExecForm :: "step \<Rightarrow> step_error option" where
  "ValidateExecForm s =
     (if 1 < length (exec_forms s) then Some (ManyExecForms (s_name s) (exec_forms s)) else None)"

definition cacheNamePattern :: "string \<Rightarrow> bool" where
  "cacheNamePattern s \<longleftrightarrow> s \<noteq> [] \<and> is_alnum (hd s) \<and>
     list_all (\<lambda>c. is_alnum c \<or> c \<in> {CHR ''.'', CHR ''_'', CHR ''-''}) (tl s)"

definition cache_Validate :: "string \<Rightarrow> cache_decl \<Rightarrow> step_error option" where
  "cache_Validate stepName c =
     (if \<not> cacheNamePattern (trim_space (cd_name c)) then Some (CacheBadName stepName (cd_name c))
      else let p = trim_space (cd_path c) in
      if p = [] then Some (CacheNoPath stepName (cd_name c))
      else if has_prefix p ''/'' \<or> has_prefix p [CHR 0x5C]
        then Some (CacheAbsolute stepName (cd_name c) (cd_path c))
      else let clean = path_clean p in
      if clean = ''.'' \<or> clean = ''..'' \<or> has_prefix clean ''../''
        then Some (CacheEscapes stepName (cd_name c) (cd_path c))
      else None)"

definition ValidateCaches :: "step \<Rightarrow> step_error option" where
  "ValidateCaches s = checkR (cache_Validate (s_name s)) (s_caches s)"

definition StepScopeJob :: string where "StepScopeJob = ''job''"
definition StepScopeLane :: string where "StepScopeLane = ''lane''"

definition NormalizeScope :: "string \<Rightarrow> string" where
  "NormalizeScope scope =
     (let s = to_lower (trim_space scope) in if s = [] then StepScopeJob else s)"

definition ValidateScope :: "step \<Rightarrow> step_error option" where
  "ValidateScope s =
     (if NormalizeScope (s_scope s) = StepScopeJob then None
      else if NormalizeScope (s_scope s) = StepScopeLane then
        (if trim_space (s_run s) = [] then Some (LaneScopeNotRun (s_name s)) else None)
      else Some (UnknownScope (s_name s) (s_scope s)))"

definition NormalizePhase :: "string \<Rightarrow> string" where
  "NormalizePhase phase =
     (let p = to_lower (trim_space phase) in if p = [] then ''main'' else p)"

definition IsValidPhase :: "string \<Rightarrow> bool" where
  "IsValidPhase phase \<longleftrightarrow> NormalizePhase phase \<in> {''pre'', ''main'', ''post''}"

end
