(* ===== verification/Intent_Model.thy ===== *)
theory Intent_Model
  imports Job_Model
begin

text \<open>
  The intent side of \<open>internal/model\<close>: \<open>intent.go\<close>, \<open>trigger.go\<close>, the compositions of
  \<open>composition.go\<close> that planning uses, \<open>preview.go\<close>, \<open>component_tree.go\<close>. A struct
  with one field is that field's type: \<open>PromotionMatch\<close>, \<open>EnvironmentActivation\<close>,
  \<open>EnvironmentPromotion\<close>, \<open>ComponentSubscribe\<close>, \<open>ComponentOverrides\<close>, \<open>Discovery\<close>,
  \<open>ProfileRuleWhen\<close>, \<open>DependencyRuleWhen\<close>, \<open>LaneGroup\<close> and \<open>ResourceRef\<close>. \<open>Intent.Work\<close>,
  which nothing reads, is left out.
\<close>

section \<open>Automation\<close>

record trigger_match =
  tm_provider :: string
  tm_event :: string
  tm_actions :: "string list"
  tm_branches :: "string list"
  tm_base_branches :: "string list"
  tm_tags :: "string list"

record trigger_plan_options =
  tp_scope :: string
  tp_base :: string
  tp_head :: string
  tp_components :: string
  tp_environments :: string
  tp_auto_push :: "bool option"
  tp_require_rule :: bool

record trigger_binding =
  tb_description :: string
  tb_on :: trigger_match
  tb_plan :: trigger_plan_options

record normalized_event =
  ev_provider :: string
  ev_event :: string
  ev_action :: string
  ev_ref :: string
  ev_ref_type :: string
  ev_branch :: string
  ev_tag :: string
  ev_base_branch :: string
  ev_base_sha :: string
  ev_head_sha :: string
  ev_repository :: string
  ev_actor :: string
  ev_raw :: "yval gmap"

record trigger_context =
  tc_mode :: string
  tc_trigger_name :: string
  tc_event :: "normalized_event option"

record trigger_resolution =
  tr_matched :: "string list"
  tr_active_environments :: "string list"
  tr_plan_scope :: string
  tr_base :: string
  tr_head :: string
  tr_selected_components :: "string list"
  tr_selected_environments :: "string list"
  tr_auto_push_disabled :: bool
  tr_require_rule_triggers :: "string list"

section \<open>Execution and lanes\<close>

type_synonym lane_concurrency = int

definition LaneConcurrencyAuto :: lane_concurrency where
  "LaneConcurrencyAuto = - (2 ^ 31)"

definition IsAuto :: "lane_concurrency \<Rightarrow> bool" where
  "IsAuto c \<longleftrightarrow> c = LaneConcurrencyAuto"

record rule_decl =
  \<comment> \<open>\<open>ProfileRule\<close>, \<open>DependencyRule\<close> and \<open>LaneRule\<close>: a choice under a trigger\<close>
  ru_choice :: string
  ru_trigger_ref :: string

record intent_lanes =
  il_mode :: string
  il_max_lanes :: int
  il_concurrency :: lane_concurrency
  il_on_cycle :: string
  il_upstream_wait :: string
  il_groups :: "lane_concurrency gmap"
  il_rules :: "rule_decl list"

record intent_execution_state =
  xs_mode :: string
  xs_backend_url :: string
  xs_workspace :: string
  xs_org :: string
  xs_project :: string
  xs_require_org :: bool
  xs_autopush_catalog :: bool

record intent_execution =
  ie_state :: intent_execution_state
  ie_default_timeout :: "string option"
  ie_lanes :: "intent_lanes option"

definition DefaultStepTimeout :: string where "DefaultStepTimeout = ''60m''"
definition DefaultLaneMaxLanes :: int where "DefaultLaneMaxLanes = 16"
definition DefaultLaneConcurrency :: int where "DefaultLaneConcurrency = 4"
definition LaneModeJob :: string where "LaneModeJob = ''job''"
definition LaneModeComponent :: string where "LaneModeComponent = ''component''"
definition LaneModeEnv :: string where "LaneModeEnv = ''env''"
definition LaneModeAuto :: string where "LaneModeAuto = ''auto''"
definition LaneIsolated :: string where "LaneIsolated = ''isolated''"
definition LaneOnCycleSplit :: string where "LaneOnCycleSplit = ''split''"
definition LaneOnCycleReject :: string where "LaneOnCycleReject = ''reject''"

lemmas lane_consts = LaneModeJob_def LaneModeComponent_def LaneModeEnv_def LaneModeAuto_def
  LaneIsolated_def LaneOnCycleSplit_def LaneOnCycleReject_def

definition IsValidLaneMode :: "string \<Rightarrow> bool" where
  "IsValidLaneMode mode \<longleftrightarrow>
     mode \<in> {[], LaneModeJob, LaneModeComponent, LaneModeEnv, LaneModeAuto}"

definition IsReservedLaneName :: "string \<Rightarrow> bool" where
  "IsReservedLaneName name \<longleftrightarrow> name \<in> {LaneModeJob, LaneModeAuto, LaneIsolated}"

section \<open>Groups and environments\<close>

record metadata =
  md_name :: string
  md_description :: string
  md_namespace :: string

record group_decl =
  grp_path :: string
  grp_policies :: "yval gmap"
  grp_parameter_defaults :: "yval gmap gmap"

record environment_link =
  el_title :: string
  el_url :: string
  el_icon :: string

record promotion_dependency =
  pd_environment :: string
  pd_strategy :: string
  pd_condition :: string
  pd_satisfy :: string
  pd_match :: string

record environment_selectors =
  es_components :: "string list"
  es_domains :: "string list"

record environment =
  env_path :: string
  env_description :: string
  env_url :: string
  env_links :: "environment_link list"
  env_trigger_refs :: "string list"
  env_promotion :: "promotion_dependency list"
  env_selectors :: environment_selectors
  env_parameter_defaults :: "yval gmap gmap"
  env_policies :: "yval gmap"
  env_env :: "string gmap"
  env_secret_env :: "string gmap"
  env_dependency_mode :: string

definition DependencyModeEnforced :: string where "DependencyModeEnforced = ''enforced''"
definition DependencyModeAdvisory :: string where "DependencyModeAdvisory = ''advisory''"
definition DependencyModeDisabled :: string where "DependencyModeDisabled = ''disabled''"

lemmas dependency_mode_consts =
  DependencyModeEnforced_def DependencyModeAdvisory_def DependencyModeDisabled_def

definition IsValidDependencyMode :: "string \<Rightarrow> bool" where
  "IsValidDependencyMode mode \<longleftrightarrow>
     mode \<in> {[], DependencyModeEnforced, DependencyModeAdvisory, DependencyModeDisabled}"

section \<open>Components\<close>

record environment_subscription =
  su_name :: string
  su_profile :: string
  su_profile_rules :: "rule_decl list"
  su_dependency_mode :: string
  su_dependency_rules :: "rule_decl list"
  su_env :: "string gmap"
  su_secret_env :: "string gmap"
  su_parameters :: "yval gmap"

record dependency =
  d_component :: string
  d_environment :: string
  d_scope :: string
  d_condition :: string
  d_include :: string
  d_reason :: string
  d_input :: bool
  d_mode :: string
  d_mode_rules :: "rule_decl list"

definition IncludeIfSelected :: string where "IncludeIfSelected = ''if-selected''"
definition IncludeAlways :: string where "IncludeAlways = ''always''"

definition IsValidInclude :: "string \<Rightarrow> bool" where
  "IsValidInclude s \<longleftrightarrow> s \<in> {IncludeIfSelected, IncludeAlways}"

record component_change =
  ch_watches :: "string list"
  ch_inputs :: "string list"

definition ValidWatchSections :: "string list" where
  "ValidWatchSections = [''automation'', ''compositions'', ''discovery'', ''env'',
     ''environments'', ''execution'', ''groups'']"

record component_composition_ref =
  cr_source :: string
  cr_name :: string

record component_preview =
  cp_run :: "string list"
  cp_port :: int
  cp_needs :: "string list"
  cp_path :: string
  cp_env :: "string gmap"

record component =
  c_name :: string
  c_type :: string
  c_domain :: string
  c_enabled :: bool
  c_path :: string
  c_subscribe :: "environment_subscription list"
  c_composition_ref :: "component_composition_ref option"
  c_parameters :: "yval gmap"
  c_overrides :: "step list"
  c_labels :: "string gmap"
  c_depends_on :: "dependency list"
  c_env :: "string gmap"
  c_secret_env :: "string gmap"
  c_optional_secret_env :: "string gmap"
  c_change :: component_change
  c_lane :: string
  c_preview :: "component_preview option"
  c_resolved_composition :: string
  c_resolved_composition_source :: string
  c_source_path :: string

definition EnvironmentNames :: "environment_subscription list \<Rightarrow> string list" where
  "EnvironmentNames subs = map su_name subs"

definition FindSubscription ::
    "environment_subscription list \<Rightarrow> string \<Rightarrow> environment_subscription option" where
  "FindSubscription subs envName = List.find (\<lambda>s. su_name s = envName) subs"

definition PreviewPortMin :: int where "PreviewPortMin = 1024"
definition PreviewPortMax :: int where "PreviewPortMax = 65535"

definition PreviewProblems :: "string list \<Rightarrow> int \<Rightarrow> string \<Rightarrow> string list" where
  "PreviewProblems run port path =
     (if run = [] then [''run must be a non-empty argv list'']
      else if hd run = [] then [''run[0] (the program) is empty''] else []) @
     (if port < PreviewPortMin \<or> PreviewPortMax < port
      then [''port must be an integer from 1024 to 65535''] else []) @
     (if path \<noteq> [] \<and> hd path \<noteq> CHR ''/'' then [''path must start with /''] else [])"

section \<open>Compositions\<close>

record verify_policy =
  vp_provider :: string
  vp_key_ref :: string
  vp_required :: bool

record composition_source =
  cs_name :: string
  cs_kind :: string
  cs_path :: string
  cs_ref :: string
  cs_digest :: string
  cs_pull_policy :: string
  cs_verify :: "verify_policy option"
  cs_metadata :: "string gmap"

record composition_config =
  cc_sources :: "composition_source list"
  cc_precedence :: "string list"
  cc_bindings :: "string gmap"

record composition_job_entry =
  je_name :: string
  je_template_ref :: "string option"
  je_description :: string
  je_runs_on :: string
  je_timeout :: string
  je_retries :: int
  je_steps :: "step list"
  je_inputs :: "yval gmap"
  je_labels :: "string gmap"
  je_capabilities :: "string list"

definition ToJobSpec :: "composition_job_entry \<Rightarrow> job_spec" where
  "ToJobSpec e = \<lparr>js_name = je_name e, js_description = je_description e, js_resources = None,
     js_runs_on = je_runs_on e, js_timeout = je_timeout e, js_retries = je_retries e,
     js_steps = je_steps e, js_inputs = je_inputs e, js_labels = je_labels e,
     js_capabilities = je_capabilities e\<rparr>"

record materialize_spec =
  ms_target :: string
  ms_secrets :: "string list"
  ms_on_rotate :: string

record secret_binding =
  sb_required :: bool
  sb_as_env :: string

record profile_policies =
  pp_require_clean_git_tree :: bool
  pp_require_pinned_terraform_version :: bool
  pp_require_approval :: bool

record profile_step_patch =
  sp_run :: string
  sp_with :: "yval gmap"
  sp_env :: "yval gmap"

record profile_job_spec =
  pj_steps_enabled :: "string list"
  pj_include_capabilities :: "string list"
  pj_step_overrides :: "profile_step_patch gmap"

record execution_profile =
  ep_description :: string
  ep_policies :: "profile_policies option"
  ep_jobs :: "profile_job_spec gmap"
  ep_secret_bindings :: "secret_binding gmap"
  ep_materialize :: "materialize_spec option"

section \<open>Intents and instances\<close>

record intent =
  in_api_version :: string
  in_kind :: string
  in_metadata :: metadata
  in_extends :: "(string \<times> string) list"
  in_discovery_roots :: "string list"
  in_compositions :: composition_config
  in_trigger_bindings :: "trigger_binding gmap"
  in_groups :: "group_decl gmap"
  in_environments :: "environment gmap"
  in_components :: "component list"
  in_execution :: intent_execution
  in_env :: "string gmap"
  in_secret_env :: "string gmap"
  in_preview :: "string option"

record normalized_intent =
  ni_metadata :: metadata
  ni_groups :: "group_decl gmap"
  ni_environments :: "environment gmap"
  ni_components :: "component gmap"
  ni_component_index :: "component gmap"
  ni_env :: "string gmap"
  ni_secret_env :: "string gmap"

record resolved_dependency =
  rd_component :: string
  rd_environment :: string
  rd_scope :: string
  rd_condition :: string
  rd_include :: string
  rd_reason :: string
  rd_mode :: string
  rd_mode_source :: string
  rd_mode_rule_trigger_ref :: string

record component_instance =
  ci_component :: string
  ci_environment :: string
  ci_type :: string
  ci_resolved_composition :: string
  ci_resolved_composition_source :: string
  ci_domain :: string
  ci_path :: string
  ci_source_path :: string
  ci_labels :: "string gmap"
  ci_parameters :: "yval gmap"
  ci_env :: "string gmap"
  ci_secret_env :: "string gmap"
  ci_optional_secret_env :: "string gmap"
  ci_step_overrides :: "step list"
  ci_policies :: "yval gmap"
  ci_depends_on :: "resolved_dependency list"
  ci_enabled :: bool
  ci_profile_ref :: string
  ci_profile_name :: string
  ci_profile_source :: string
  ci_profile_rule_trigger_ref :: string
  ci_dependency_mode :: string
  ci_dependency_source :: string
  ci_dependency_rule_trigger_ref :: string

section \<open>Zero values\<close>

definition zero_subscription :: environment_subscription where
  "zero_subscription = \<lparr>su_name = [], su_profile = [], su_profile_rules = [],
     su_dependency_mode = [], su_dependency_rules = [], su_env = [], su_secret_env = [],
     su_parameters = []\<rparr>"

definition zero_dependency :: dependency where
  "zero_dependency = \<lparr>d_component = [], d_environment = [], d_scope = [], d_condition = [],
     d_include = [], d_reason = [], d_input = False, d_mode = [], d_mode_rules = []\<rparr>"

definition zero_component :: component where
  "zero_component = \<lparr>c_name = [], c_type = [], c_domain = [], c_enabled = False, c_path = [],
     c_subscribe = [], c_composition_ref = None, c_parameters = [], c_overrides = [],
     c_labels = [], c_depends_on = [], c_env = [], c_secret_env = [], c_optional_secret_env = [],
     c_change = \<lparr>ch_watches = [], ch_inputs = []\<rparr>, c_lane = [], c_preview = None,
     c_resolved_composition = [], c_resolved_composition_source = [], c_source_path = []\<rparr>"

definition zero_environment :: environment where
  "zero_environment = \<lparr>env_path = [], env_description = [], env_url = [], env_links = [],
     env_trigger_refs = [], env_promotion = [],
     env_selectors = \<lparr>es_components = [], es_domains = []\<rparr>, env_parameter_defaults = [],
     env_policies = [], env_env = [], env_secret_env = [], env_dependency_mode = []\<rparr>"

definition zero_promotion :: promotion_dependency where
  "zero_promotion = \<lparr>pd_environment = [], pd_strategy = [], pd_condition = [], pd_satisfy = [],
     pd_match = []\<rparr>"

definition zero_intent :: intent where
  "zero_intent = \<lparr>in_api_version = [], in_kind = [],
     in_metadata = \<lparr>md_name = [], md_description = [], md_namespace = []\<rparr>, in_extends = [],
     in_discovery_roots = [],
     in_compositions = \<lparr>cc_sources = [], cc_precedence = [], cc_bindings = []\<rparr>,
     in_trigger_bindings = [], in_groups = [], in_environments = [], in_components = [],
     in_execution = \<lparr>ie_state = \<lparr>xs_mode = [], xs_backend_url = [], xs_workspace = [], xs_org = [],
        xs_project = [], xs_require_org = False, xs_autopush_catalog = False\<rparr>,
        ie_default_timeout = None, ie_lanes = None\<rparr>,
     in_env = [], in_secret_env = [], in_preview = None\<rparr>"

definition zero_instance :: component_instance where
  "zero_instance = \<lparr>ci_component = [], ci_environment = [], ci_type = [],
     ci_resolved_composition = [], ci_resolved_composition_source = [], ci_domain = [],
     ci_path = [], ci_source_path = [], ci_labels = [], ci_parameters = [], ci_env = [],
     ci_secret_env = [], ci_optional_secret_env = [], ci_step_overrides = [], ci_policies = [],
     ci_depends_on = [], ci_enabled = False, ci_profile_ref = [], ci_profile_name = [],
     ci_profile_source = [], ci_profile_rule_trigger_ref = [], ci_dependency_mode = [],
     ci_dependency_source = [], ci_dependency_rule_trigger_ref = []\<rparr>"

section \<open>Subscriptions\<close>

lemma FindSubscription_iff:
  "FindSubscription subs e \<noteq> None \<longleftrightarrow> e \<in> set (EnvironmentNames subs)"
  by (auto simp: FindSubscription_def EnvironmentNames_def find_None_iff)

lemma FindSubscription_Some:
  "FindSubscription subs e = Some s \<Longrightarrow> s \<in> set subs \<and> su_name s = e"
  by (auto simp: FindSubscription_def find_Some_iff)

end
