(* ===== verification/Loader.thy ===== *)
theory Loader
  imports Intent_Model "HOL-Library.Product_Lexorder"
begin

text \<open>
  \<open>internal/loader/loader.go\<close> and \<open>internal/model/component_tree.go\<close>: discovery of component
  manifests, the component-tree cache, and the merge of discovered components into the
  intent. Outside the model: the file system and the YAML decoder. They are parameters,
  bundled in \<open>load_env\<close>: what a discovery root is on disk, what a manifest decodes to,
  its size and modification time, and the decoded cache file if there is one.
  \<open>sort.Slice\<close> leaves the order of equal keys open; the model keeps their input order.
\<close>

section \<open>The component tree\<close>

record tree_component =
  t_name :: string
  t_type :: string
  t_domain :: string
  t_enabled :: bool
  t_path :: string
  t_subscribe :: "environment_subscription list"
  t_env :: "string gmap"
  t_secret_env :: "string gmap"
  t_optional_secret_env :: "string gmap"
  t_parameters :: "yval gmap"
  t_overrides :: "step list"
  t_labels :: "string gmap"
  t_depends_on :: "dependency list"
  t_change :: component_change
  t_lane :: string
  t_preview :: "component_preview option"
  t_source :: string
  t_source_path :: string
  t_file_size :: int
  t_file_mod_time :: string

record component_manifest =
  mf_api_version :: string
  mf_kind :: string
  mf_metadata :: metadata
  mf_spec :: component

record component_tree =
  ct_api_version :: string
  ct_kind :: string
  ct_intent :: string
  ct_generated_at :: string
  ct_format :: int
  ct_roots :: "string list"
  ct_components :: "tree_component list"

definition ToComponent :: "tree_component \<Rightarrow> component" where
  "ToComponent t = \<lparr>c_name = t_name t, c_type = t_type t, c_domain = t_domain t,
     c_enabled = t_enabled t, c_path = t_path t, c_subscribe = t_subscribe t,
     c_composition_ref = None, c_parameters = t_parameters t, c_overrides = t_overrides t,
     c_labels = t_labels t, c_depends_on = t_depends_on t, c_env = t_env t,
     c_secret_env = t_secret_env t, c_optional_secret_env = t_optional_secret_env t,
     c_change = t_change t, c_lane = t_lane t, c_preview = t_preview t,
     c_resolved_composition = [], c_resolved_composition_source = [],
     c_source_path = t_source_path t\<rparr>"

definition FromComponent :: "component \<Rightarrow> string \<Rightarrow> tree_component" where
  "FromComponent c source = \<lparr>t_name = c_name c, t_type = c_type c, t_domain = c_domain c,
     t_enabled = c_enabled c, t_path = c_path c, t_subscribe = c_subscribe c, t_env = c_env c,
     t_secret_env = c_secret_env c, t_optional_secret_env = c_optional_secret_env c,
     t_parameters = c_parameters c, t_overrides = c_overrides c, t_labels = c_labels c,
     t_depends_on = c_depends_on c, t_change = c_change c, t_lane = c_lane c,
     t_preview = c_preview c, t_source = source, t_source_path = c_source_path c,
     t_file_size = 0, t_file_mod_time = []\<rparr>"

section \<open>The file system as a parameter\<close>

datatype fs_node = FsFile | FsDir "(string \<times> fs_node) list"

record load_env =
  le_root :: "string \<Rightarrow> (string \<times> fs_node) option" \<comment> \<open>\<open>os.Stat\<close> of a root: its base name and contents\<close>
  le_manifest :: "string \<Rightarrow> component_manifest option option" \<comment> \<open>read (outer) and decoded (inner)\<close>
  le_stat :: "string \<Rightarrow> (int \<times> string) option" \<comment> \<open>size and formatted modification time\<close>
  le_cache :: "component_tree option" \<comment> \<open>the cache file, read and decoded\<close>

datatype load_error =
    RootInaccessible string
  | RootNotDirectory string
  | ManifestUnreadable string
  | ManifestMalformed string
  | ManifestBadKind string
  | ManifestNoName string
  | ManifestNoStat string

definition componentTreeCacheSource :: string where "componentTreeCacheSource = ''discovered''"
definition componentInlineSource :: string where "componentInlineSource = ''inline''"
definition componentTreeCacheFormat :: int where "componentTreeCacheFormat = 1"

section \<open>Discovery\<close>

definition insert_new :: "string \<Rightarrow> string list \<Rightarrow> string list" where
  \<comment> \<open>append unless \<open>seen\<close>\<close>
  "insert_new x xs = (if x \<in> set xs then xs else xs @ [x])"

definition normalize_root :: "string \<Rightarrow> string list \<Rightarrow> string list" where
  "normalize_root rt acc =
     (let r = trim_space rt in if r = [] then acc else insert_new (path_clean r) acc)"

definition normalizeDiscoveryRoots :: "string list \<Rightarrow> string list" where
  "normalizeDiscoveryRoots roots =
     (if roots = [] then [''.'']
      else let normalized = fold normalize_root roots []
           in if normalized = [] then [''.''] else sort normalized)"

definition shouldSkipDiscoveryDir :: "string \<Rightarrow> bool" where
  "shouldSkipDiscoveryDir name \<longleftrightarrow> name \<in> {''.git'', ''.orun'', ''node_modules''}"

fun walk_dir :: "string \<Rightarrow> string \<Rightarrow> fs_node \<Rightarrow> string list" where
  \<comment> \<open>\<open>filepath.WalkDir\<close> with the discovery callback: the manifest paths visited\<close>
  "walk_dir path name FsFile =
     (if name \<in> {''component.yaml'', ''component.yml''} then [path_clean path] else [])"
| "walk_dir path name (FsDir es) =
     (if shouldSkipDiscoveryDir name then []
      else concat (map (\<lambda>(n, e). walk_dir (path @ ''/'' @ n) n e) es))"

definition discover_root :: "load_env \<Rightarrow> string \<Rightarrow> string list \<Rightarrow> load_error + string list" where
  "discover_root env rt files =
     (case le_root env rt of
        None \<Rightarrow> Inl (RootInaccessible rt)
      | Some (name, FsFile) \<Rightarrow> Inl (RootNotDirectory rt)
      | Some (name, FsDir es) \<Rightarrow> Inr (fold insert_new (walk_dir rt name (FsDir es)) files))"

definition discoverComponentFiles :: "load_env \<Rightarrow> string list \<Rightarrow> load_error + string list" where
  "discoverComponentFiles env roots =
     bindR (foldR (discover_root env) roots []) (\<lambda>files. Inr (sort files))"

definition defaultComponentPath :: "string \<Rightarrow> string" where
  "defaultComponentPath relPath =
     (let dir = path_dir relPath in if dir = ''.'' \<or> dir = [] then ''./'' else dir)"

definition loadComponentTreeEntry :: "load_env \<Rightarrow> string \<Rightarrow> load_error + tree_component" where
  "loadComponentTreeEntry env relPath =
     (case le_manifest env relPath of
        None \<Rightarrow> Inl (ManifestUnreadable relPath)
      | Some None \<Rightarrow> Inl (ManifestMalformed relPath)
      | Some (Some manifest) \<Rightarrow>
          if mf_kind manifest \<noteq> ''Component'' then Inl (ManifestBadKind relPath)
          else if md_name (mf_metadata manifest) = [] then Inl (ManifestNoName relPath)
          else
            let c = (mf_spec manifest)\<lparr>c_name := md_name (mf_metadata manifest),
                      c_source_path := relPath\<rparr>;
                c = (if c_path c = [] then c\<lparr>c_path := defaultComponentPath relPath\<rparr> else c);
                entry = FromComponent c componentTreeCacheSource
            in (case le_stat env relPath of
                  None \<Rightarrow> Inl (ManifestNoStat relPath)
                | Some (sz, mtime) \<Rightarrow>
                    Inr (entry\<lparr>t_file_size := sz, t_file_mod_time := mtime\<rparr>)))"

definition parseDiscoveredComponentEntries ::
    "load_env \<Rightarrow> string list \<Rightarrow> load_error + tree_component list" where
  "parseDiscoveredComponentEntries env files = mapR (loadComponentTreeEntry env) files"

section \<open>The cache\<close>

definition buildInlineComponentEntries :: "component list \<Rightarrow> tree_component list" where
  "buildInlineComponentEntries cs =
     sort_key t_name (map (\<lambda>c. FromComponent c componentInlineSource) cs)"

definition tree_key :: "tree_component \<Rightarrow> string \<times> string \<times> string" where
  "tree_key t = (t_source t, t_source_path t, t_name t)"

definition buildComponentTree ::
    "string \<Rightarrow> string list \<Rightarrow> tree_component list \<Rightarrow> tree_component list \<Rightarrow> component_tree" where
  "buildComponentTree intentPath roots inlineEntries discoveredEntries =
     \<lparr>ct_api_version = ''sourceplane.io/v1'', ct_kind = ''ComponentTree'',
      ct_intent = path_clean intentPath, ct_generated_at = [],
      ct_format = componentTreeCacheFormat, ct_roots = roots,
      ct_components = sort_key tree_key (inlineEntries @ discoveredEntries)\<rparr>"

definition entry_fresh :: "load_env \<Rightarrow> tree_component \<Rightarrow> string \<Rightarrow> bool" where
  "entry_fresh env entry file \<longleftrightarrow> t_source_path entry = file \<and>
     (case le_stat env file of
        None \<Rightarrow> False
      | Some (sz, mtime) \<Rightarrow> t_file_size entry = sz \<and> t_file_mod_time entry = mtime)"

definition loadDiscoveredComponentEntriesFromCache ::
    "load_env \<Rightarrow> string \<Rightarrow> string list \<Rightarrow> string list \<Rightarrow> tree_component list option" where
  "loadDiscoveredComponentEntriesFromCache env intentPath roots files =
     (case le_cache env of
        None \<Rightarrow> None
      | Some tree \<Rightarrow>
          if path_clean (ct_intent tree) \<noteq> path_clean intentPath then None
          else if ct_format tree \<noteq> componentTreeCacheFormat then None
          else if ct_roots tree \<noteq> roots then None
          else
            let discovered = sort_key t_source_path
                  (filter (\<lambda>c. t_source c = componentTreeCacheSource) (ct_components tree))
            in if length discovered \<noteq> length files then None
               else if list_all2 (entry_fresh env) discovered files then Some discovered
               else None)"

definition LoadResolvedIntent ::
    "load_env \<Rightarrow> string \<Rightarrow> intent \<Rightarrow> load_error + intent \<times> component_tree" where
  \<comment> \<open>after \<open>LoadIntent\<close> has read and decoded the intent file\<close>
  "LoadResolvedIntent env path i =
     (let roots = normalizeDiscoveryRoots (in_discovery_roots i);
          inlineEntries = buildInlineComponentEntries (in_components i)
      in bindR (discoverComponentFiles env roots) (\<lambda>files.
         bindR (case loadDiscoveredComponentEntriesFromCache env path roots files of
                  Some es \<Rightarrow> Inr es
                | None \<Rightarrow> parseDiscoveredComponentEntries env files) (\<lambda>entries.
         Inr (i\<lparr>in_components := in_components i @ map ToComponent entries\<rparr>,
              buildComponentTree path roots inlineEntries entries))))"

section \<open>Facts\<close>

lemma loadComponentTreeEntry_Inr:
  assumes "loadComponentTreeEntry env f = Inr e"
  shows "t_source e = componentTreeCacheSource" and "t_source_path e = f" and "t_name e \<noteq> []"
    and "t_path e \<noteq> [] \<or> defaultComponentPath f = []"
    and "entry_fresh env e f"
  using assms
  by (auto simp: loadComponentTreeEntry_def FromComponent_def entry_fresh_def Let_def
      split: option.splits if_splits)

lemma parseDiscovered_Inr:
  assumes "parseDiscoveredComponentEntries env files = Inr es"
  shows "map t_source_path es = files" and "\<forall>e \<in> set es. t_source e = componentTreeCacheSource"
    and "list_all2 (entry_fresh env) es files"
proof -
  from assms have "list_all2 (\<lambda>f e. loadComponentTreeEntry env f = Inr e) files es"
    by (simp add: parseDiscoveredComponentEntries_def mapR_Inr_iff)
  then show "map t_source_path es = files" and "\<forall>e \<in> set es. t_source e = componentTreeCacheSource"
    and "list_all2 (entry_fresh env) es files"
    by (induction rule: list_all2_induct) (auto dest: loadComponentTreeEntry_Inr)
qed

lemma distinct_insert_new [simp]: "distinct xs \<Longrightarrow> distinct (insert_new x xs)"
  by (simp add: insert_new_def)

lemma distinct_fold_insert_new: "distinct xs \<Longrightarrow> distinct (fold insert_new ys xs)"
  by (induction ys arbitrary: xs) simp_all

lemma discoverComponentFiles_sorted:
  assumes "discoverComponentFiles env roots = Inr files"
  shows "sorted files" and "distinct files"
proof -
  from assms obtain fs where fs: "foldR (discover_root env) roots [] = Inr fs" "files = sort fs"
    by (auto simp: discoverComponentFiles_def bindR_Inr_iff)
  have "distinct fs"
    by (rule foldR_invariant [OF fs(1), of distinct])
      (auto simp: discover_root_def intro: distinct_fold_insert_new
        split: option.splits fs_node.splits)
  with fs(2) show "sorted files" and "distinct files" by simp_all
qed

lemma sort_key_of_sorted: "sorted (map k xs) \<Longrightarrow> sort_key k xs = xs"
  by (rule sort_key_id_if_sorted)

text \<open>Discovered entries come back from the tree exactly as they went in.\<close>

lemma tree_discovered:
  assumes inl: "\<forall>e \<in> set ins. t_source e = componentInlineSource"
    and src: "\<forall>e \<in> set es. t_source e = componentTreeCacheSource"
    and srt: "sorted (map t_source_path es)" and dst: "distinct (map t_source_path es)"
  shows "sort_key t_source_path (filter (\<lambda>c. t_source c = componentTreeCacheSource)
           (ct_components (buildComponentTree p r ins es))) = es"
proof -
  have "filter (\<lambda>c. t_source c = componentTreeCacheSource) (ins @ es) = es"
    using inl src
    by (simp add: componentTreeCacheSource_def componentInlineSource_def filter_empty_conv)
  then have "filter (\<lambda>c. t_source c = componentTreeCacheSource)
      (ct_components (buildComponentTree p r ins es)) = sort_key tree_key es"
    by (simp add: buildComponentTree_def filter_sort)
  also have "\<dots> = es"
  proof (rule sort_key_of_sorted)
    show "sorted (map tree_key es)"
      using src srt dst
    proof (induction es)
      case (Cons e es)
      have "tree_key e \<le> tree_key x" if "x \<in> set es" for x
      proof -
        have "t_source_path e < t_source_path x"
          using Cons.prems(2,3) that by (auto simp: order_less_le)
        then show ?thesis using Cons.prems(1) that by (simp add: tree_key_def)
      qed
      with Cons show ?case by simp
    qed simp
  qed
  finally show ?thesis using srt by (simp add: sort_key_of_sorted)
qed

lemma buildInline_source: "\<forall>e \<in> set (buildInlineComponentEntries cs). t_source e = componentInlineSource"
  by (auto simp: buildInlineComponentEntries_def FromComponent_def)

text \<open>Only the cache lookup reads the cache.\<close>

lemma cache_frame:
  "discoverComponentFiles (env\<lparr>le_cache := c\<rparr>) = discoverComponentFiles env"
  "parseDiscoveredComponentEntries (env\<lparr>le_cache := c\<rparr>) = parseDiscoveredComponentEntries env"
  "entry_fresh (env\<lparr>le_cache := c\<rparr>) = entry_fresh env"
proof -
  have "discover_root (env\<lparr>le_cache := c\<rparr>) = discover_root env"
    by (intro ext) (simp add: discover_root_def)
  then show "discoverComponentFiles (env\<lparr>le_cache := c\<rparr>) = discoverComponentFiles env"
    by (intro ext) (simp add: discoverComponentFiles_def)
  have "loadComponentTreeEntry (env\<lparr>le_cache := c\<rparr>) f = loadComponentTreeEntry env f" for f
    by (simp add: loadComponentTreeEntry_def Let_def split: option.split)
  then have "loadComponentTreeEntry (env\<lparr>le_cache := c\<rparr>) = loadComponentTreeEntry env" ..
  then show "parseDiscoveredComponentEntries (env\<lparr>le_cache := c\<rparr>) =
      parseDiscoveredComponentEntries env"
    by (intro ext) (simp add: parseDiscoveredComponentEntries_def)
  show "entry_fresh (env\<lparr>le_cache := c\<rparr>) = entry_fresh env"
    by (intro ext) (simp add: entry_fresh_def)
qed

lemma fresh_entry_reloads:
  assumes "loadComponentTreeEntry env0 f = Inr e" "entry_fresh env e f"
    and "\<And>s. le_stat env f = Some s \<Longrightarrow> le_stat env0 f = Some s \<Longrightarrow> le_manifest env f = le_manifest env0 f"
  shows "loadComponentTreeEntry env f = Inr e"
proof -
  have "entry_fresh env0 e f" by (rule loadComponentTreeEntry_Inr(5)[OF assms(1)])
  then obtain s where stat: "le_stat env f = Some s" "le_stat env0 f = Some s"
    using assms(2) by (auto simp: entry_fresh_def split: option.splits)
  show ?thesis using assms(1) unfolding loadComponentTreeEntry_def assms(3)[OF stat] stat .
qed

lemma fresh_entries_reload:
  assumes "list_all2 (\<lambda>f e. loadComponentTreeEntry env0 f = Inr e) files0 es" "list_all2 (entry_fresh env) es files"
    and "\<forall>f s. le_stat env f = Some s \<and> le_stat env0 f = Some s \<longrightarrow> le_manifest env f = le_manifest env0 f"
  shows "parseDiscoveredComponentEntries env files = Inr es"
proof -
  have "loadComponentTreeEntry env (files ! k) = Inr (es ! k)" if k: "k < length files" for k
  proof -
    have e: "loadComponentTreeEntry env0 (files0 ! k) = Inr (es ! k)" "entry_fresh env (es ! k) (files ! k)"
      using assms(1,2) k by (simp_all add: list_all2_conv_all_nth)
    have "files0 ! k = files ! k"
      using loadComponentTreeEntry_Inr(2)[OF e(1)] e(2) by (simp add: entry_fresh_def)
    then show ?thesis using fresh_entry_reloads[of env0 "files ! k" "es ! k" env] e assms(3) by simp
  qed
  then show ?thesis
    using assms(2) by (simp add: parseDiscoveredComponentEntries_def mapR_Inr_iff list_all2_conv_all_nth)
qed

text \<open>C35: The component-tree cache is transparent. Whatever has happened to the files since some earlier load wrote
  the cache - manifests edited, added or removed, another intent, other roots - loading with that cache gives
  exactly what loading without any cache gives now, errors included: the cache is used only where every discovered
  manifest still has the size and the modification time recorded for it. That rests on two things outside this
  code: a file whose size and modification time are unchanged has the content it had, and the YAML library gives
  the tree back as it was written (but for the time stamp of the writing).\<close>

theorem cache_is_transparent:
  assumes "LoadResolvedIntent (env0\<lparr>le_cache := None\<rparr>) path0 i0 = Inr (i0', tree)"
    and "\<forall>f s. le_stat env f = Some s \<and> le_stat env0 f = Some s \<longrightarrow> le_manifest env f = le_manifest env0 f"
    and "reread (tree\<lparr>ct_generated_at := now\<rparr>) = Some (tree\<lparr>ct_generated_at := now\<rparr>)"
  shows "LoadResolvedIntent (env\<lparr>le_cache := reread (tree\<lparr>ct_generated_at := now\<rparr>)\<rparr>) path i =
    LoadResolvedIntent (env\<lparr>le_cache := None\<rparr>) path i"
proof -
  let ?past = "normalizeDiscoveryRoots (in_discovery_roots i0)" and ?roots = "normalizeDiscoveryRoots (in_discovery_roots i)"
  let ?env = "env\<lparr>le_cache := Some (tree\<lparr>ct_generated_at := now\<rparr>)\<rparr>"
  note frames = cache_frame[where env = env] cache_frame[where env = env0]
  from assms(1) obtain files0 es where f: "discoverComponentFiles env0 ?past = Inr files0"
    and p: "parseDiscoveredComponentEntries env0 files0 = Inr es"
    and tr: "tree = buildComponentTree path0 ?past (buildInlineComponentEntries (in_components i0)) es"
    by (auto simp: LoadResolvedIntent_def frames Let_def bindR_Inr_iff loadDiscoveredComponentEntriesFromCache_def)
  note pf = parseDiscovered_Inr[OF p] and sf = discoverComponentFiles_sorted[OF f]
  have disc: "sort_key t_source_path (filter (\<lambda>c. t_source c = componentTreeCacheSource) (ct_components tree)) = es"
    unfolding tr by (rule tree_discovered[OF buildInline_source pf(2)]) (simp_all add: pf(1) sf)
  have loaded: "list_all2 (\<lambda>f e. loadComponentTreeEntry env0 f = Inr e) files0 es"
    using p by (simp add: parseDiscoveredComponentEntries_def mapR_Inr_iff)
  have "parseDiscoveredComponentEntries env files = Inr es'"
    if "loadDiscoveredComponentEntriesFromCache ?env path ?roots files = Some es'" for files es'
  proof -
    have "list_all2 (entry_fresh env) es files" "es' = es"
      using that by (auto simp: loadDiscoveredComponentEntriesFromCache_def disc frames Let_def split: if_splits)
    then show ?thesis using fresh_entries_reload[OF loaded _ assms(2)] by simp
  qed
  then have "(case loadDiscoveredComponentEntriesFromCache ?env path ?roots files of
        Some es \<Rightarrow> Inr es | None \<Rightarrow> parseDiscoveredComponentEntries env files) = parseDiscoveredComponentEntries env files" for files
    by (auto split: option.split)
  moreover have "loadDiscoveredComponentEntriesFromCache (env\<lparr>le_cache := None\<rparr>) path ?roots files = None" for files
    by (simp add: loadDiscoveredComponentEntriesFromCache_def)
  ultimately show ?thesis unfolding assms(3) LoadResolvedIntent_def Let_def frames by simp
qed

definition example_files :: "string \<Rightarrow> string \<Rightarrow> load_env" where
  \<comment> \<open>one manifest, of a component of this name, with this modification time\<close>
  "example_files name mtime = \<lparr>le_root = (\<lambda>_. Some (''.'', FsDir [(''api'', FsDir [(''component.yaml'', FsFile)])])),
     le_manifest = (\<lambda>_. Some (Some \<lparr>mf_api_version = [], mf_kind = ''Component'',
       mf_metadata = \<lparr>md_name = name, md_description = [], md_namespace = []\<rparr>, mf_spec = zero_component\<rparr>)),
     le_stat = (\<lambda>_. Some (120, mtime)), le_cache = None\<rparr>"

theorem cache_is_transparent_witness:
  "\<exists>i' tree. LoadResolvedIntent (example_files ''api'' ''t0'') ''intent.yaml'' zero_intent = Inr (i', tree) \<and>
     LoadResolvedIntent (example_files ''api'' ''t0''\<lparr>le_cache := Some (tree\<lparr>ct_generated_at := ''t1''\<rparr>)\<rparr>) ''intent.yaml'' zero_intent =
       LoadResolvedIntent (example_files ''api'' ''t0'') ''intent.yaml'' zero_intent \<and>
     (case LoadResolvedIntent (example_files ''web'' ''t2''\<lparr>le_cache := Some (tree\<lparr>ct_generated_at := ''t1''\<rparr>)\<rparr>) ''intent.yaml'' zero_intent of
        Inr (i, _) \<Rightarrow> map c_name (in_components i) = [''web''] | Inl _ \<Rightarrow> False)"
proof -
  have none: "example_files n m\<lparr>le_cache := None\<rparr> = example_files n m" for n m by (simp add: example_files_def)
  have web: "case LoadResolvedIntent (example_files ''web'' ''t2'') ''intent.yaml'' zero_intent of
      Inr (i, _) \<Rightarrow> map c_name (in_components i) = [''web''] | Inl _ \<Rightarrow> False" by code_simp
  have "\<not> isl (LoadResolvedIntent (example_files ''api'' ''t0'') ''intent.yaml'' zero_intent)" by code_simp
  then obtain i' tree where r: "LoadResolvedIntent (example_files ''api'' ''t0'') ''intent.yaml'' zero_intent = Inr (i', tree)"
    by (cases "LoadResolvedIntent (example_files ''api'' ''t0'') ''intent.yaml'' zero_intent") auto
  have stat: "\<forall>f s. le_stat (example_files n m) f = Some s \<and> le_stat (example_files ''api'' ''t0'') f = Some s \<longrightarrow>
      le_manifest (example_files n m) f = le_manifest (example_files ''api'' ''t0'') f" if "n = ''api'' \<or> m \<noteq> ''t0''" for n m
    using that by (auto simp: example_files_def)
  note c = cache_is_transparent[of "example_files ''api'' ''t0''" "''intent.yaml''" zero_intent i' tree _ Some "''t1''", unfolded none, OF r _ refl]
  show ?thesis using r c[OF stat[of "''api''" "''t0''"], of "''intent.yaml''" zero_intent]
      c[OF stat[of "''web''" "''t2''"], of "''intent.yaml''" zero_intent] web by (auto simp: none)
qed

text \<open>A discovered component is its manifest's \<open>spec\<close>, named after
  \<open>metadata.name\<close> and given the manifest's directory as default path, except for one field:
  the \<open>compositionRef\<close> it declares, which names the source its composition is taken from, is
  gone. The tree entry it passes through has no field for it.\<close>

theorem discovered_component_loses_composition_ref:
  assumes "loadComponentTreeEntry env f = Inr e" and "le_manifest env f = Some (Some m)"
  shows "ToComponent e = (mf_spec m)\<lparr>c_name := md_name (mf_metadata m), c_source_path := f,
    c_path := (if c_path (mf_spec m) = [] then defaultComponentPath f else c_path (mf_spec m)),
    c_composition_ref := None, c_resolved_composition := [],
    c_resolved_composition_source := []\<rparr>"
  using assms
  by (auto simp: loadComponentTreeEntry_def Let_def ToComponent_def FromComponent_def
      split: option.splits if_splits)

theorem discovered_component_loses_composition_ref_witness:
  "let m = \<lparr>mf_api_version = [], mf_kind = ''Component'',
        mf_metadata = \<lparr>md_name = ''api'', md_description = [], md_namespace = []\<rparr>,
        mf_spec = zero_component\<lparr>c_composition_ref := Some \<lparr>cr_source = ''pinned'', cr_name = ''web''\<rparr>\<rparr>\<rparr>;
      env = \<lparr>le_root = (\<lambda>_. None), le_manifest = (\<lambda>_. Some (Some m)),
        le_stat = (\<lambda>_. Some (120, ''t0'')), le_cache = None\<rparr>
   in \<exists>e. loadComponentTreeEntry env ''api/component.yaml'' = Inr e \<and>
        c_composition_ref (mf_spec m) \<noteq> None \<and> c_composition_ref (ToComponent e) = None \<and>
        c_path (ToComponent e) = ''api''"
proof -
  let ?m = "\<lparr>mf_api_version = [], mf_kind = ''Component'',
        mf_metadata = \<lparr>md_name = ''api'', md_description = [], md_namespace = []\<rparr>,
        mf_spec = zero_component\<lparr>c_composition_ref := Some \<lparr>cr_source = ''pinned'', cr_name = ''web''\<rparr>\<rparr>\<rparr>"
  let ?env = "\<lparr>le_root = (\<lambda>_. None), le_manifest = (\<lambda>_. Some (Some ?m)),
        le_stat = (\<lambda>_. Some (120, ''t0'')), le_cache = None\<rparr>"
  have path: "defaultComponentPath ''api/component.yaml'' = ''api''" by code_simp
  obtain e where e: "loadComponentTreeEntry ?env ''api/component.yaml'' = Inr e"
    by (simp add: loadComponentTreeEntry_def Let_def)
  from discovered_component_loses_composition_ref [OF e, of ?m] e path show ?thesis
    by (simp add: zero_component_def)
qed

end
