(* ===== verification/Composition.thy ===== *)
theory Composition
  imports Intent_Model
begin

text \<open>
  \<open>internal/composition\<close>: the resolved composition (\<open>registry.go\<close>), execution-profile
  resolution (\<open>profile.go\<close>) and dependency-mode resolution (\<open>dependency.go\<close>). The locale
  \<open>first_match\<close> is the contract the four rule lists of an intent share (profile rules,
  dependency rules, edge rules, lane rules): the first rule whose trigger is active decides.
\<close>

section \<open>Compositions\<close>

record composition =
  cm_key :: string
  cm_name :: string
  cm_description :: string
  cm_default_job_name :: string
  cm_default_profile :: string
  cm_execution_profiles :: "execution_profile gmap"
  cm_parameter_schema :: "yval gmap"
  cm_jobs :: "job_spec list"
  cm_job_map :: "job_spec gmap"
  cm_schema :: "yval gmap option" \<comment> \<open>the compiled schema, by the document it was compiled from\<close>
  cm_job_registry_name :: string
  cm_job_registry_desc :: string
  cm_source_name :: string
  cm_source_kind :: string
  cm_source_ref :: string
  cm_source_path :: string
  cm_export_path :: string
  cm_resolved_digest :: string

definition zero_composition :: composition where
  "zero_composition = \<lparr>cm_key = [], cm_name = [], cm_description = [], cm_default_job_name = [],
     cm_default_profile = [], cm_execution_profiles = [], cm_parameter_schema = [], cm_jobs = [],
     cm_job_map = [], cm_schema = None, cm_job_registry_name = [], cm_job_registry_desc = [],
     cm_source_name = [], cm_source_kind = [], cm_source_ref = [], cm_source_path = [],
     cm_export_path = [], cm_resolved_digest = []\<rparr>"

section \<open>Rule lists\<close>

definition active_rule :: "string list \<Rightarrow> rule_decl \<Rightarrow> bool" where
  "active_rule triggers r \<longleftrightarrow> ru_trigger_ref r \<in> set triggers"

locale first_match =
  fixes pick :: "rule_decl list \<Rightarrow> string list \<Rightarrow> rule_decl option"
    and usable :: "rule_decl list \<Rightarrow> bool"
  assumes pick_None: "usable rs \<Longrightarrow> pick rs ts = None \<longleftrightarrow> (\<forall>r \<in> set rs. \<not> active_rule ts r)"
    and pick_Some: "usable rs \<Longrightarrow> pick rs ts = Some r \<Longrightarrow>
      \<exists>as bs. rs = as @ r # bs \<and> active_rule ts r \<and> (\<forall>a \<in> set as. \<not> active_rule ts a)"
begin

lemma pick_eq_find:
  assumes "usable rs"
  shows "pick rs ts = List.find (active_rule ts) rs"
proof (cases "pick rs ts")
  case None
  then have "\<forall>r \<in> set rs. \<not> active_rule ts r" using pick_None [OF assms] by simp
  then have "List.find (active_rule ts) rs = None" by (simp add: find_None_iff)
  with None show ?thesis by simp
next
  case (Some r)
  from pick_Some [OF assms Some] obtain as bs where rs: "rs = as @ r # bs" "active_rule ts r"
    "\<forall>a \<in> set as. \<not> active_rule ts a" by blast
  have "List.find (active_rule ts) rs = Some r"
    using rs(2,3) unfolding rs(1) by (induction as) auto
  with Some show ?thesis by simp
qed

lemma no_trigger_no_rule: "usable rs \<Longrightarrow> pick rs [] = None"
  by (simp add: pick_None active_rule_def)

lemma find_append_Some: "List.find P xs = Some x \<Longrightarrow> List.find P (xs @ ys) = Some x"
  by (induction xs) (auto split: if_splits)

lemma later_rules_irrelevant:
  "usable rs \<Longrightarrow> usable (rs @ rs') \<Longrightarrow> pick rs ts = Some r \<Longrightarrow> pick (rs @ rs') ts = Some r"
  by (simp add: pick_eq_find find_append_Some)

lemma trigger_order_irrelevant:
  "usable rs \<Longrightarrow> set ts = set ts' \<Longrightarrow> pick rs ts = pick rs ts'"
  by (simp add: pick_eq_find active_rule_def [abs_def])

end

fun find_indexed :: "('a \<Rightarrow> bool) \<Rightarrow> nat \<Rightarrow> 'a list \<Rightarrow> (nat \<times> 'a) option" where
  \<comment> \<open>the first element that satisfies \<open>P\<close>, with its index\<close>
  "find_indexed P n [] = None"
| "find_indexed P n (x # xs) = (if P x then Some (n, x) else find_indexed P (Suc n) xs)"

lemma find_indexed_find: "map_option snd (find_indexed P n xs) = List.find P xs"
  by (induction xs arbitrary: n) auto

lemma find_split: "List.find P xs = Some x \<Longrightarrow> \<exists>as bs. xs = as @ x # bs \<and> P x \<and> (\<forall>a \<in> set as. \<not> P a)"
proof (induction xs)
  case (Cons y ys)
  show ?case
  proof (cases "P y")
    case True
    with Cons.prems have "y # ys = [] @ x # ys" "P x" by auto
    then show ?thesis by fastforce
  next
    case False
    with Cons.prems have "List.find P ys = Some x" by simp
    from Cons.IH [OF this] obtain as bs where "ys = as @ x # bs" "P x" "\<forall>a \<in> set as. \<not> P a" by blast
    then have "y # ys = (y # as) @ x # bs" "P x" "\<forall>a \<in> set (y # as). \<not> P a" using False by auto
    then show ?thesis by blast
  qed
qed simp

section \<open>Execution profiles\<close>

record resolved_profile =
  rp_ref :: string
  rp_name :: string
  rp_source :: string

record matched_profile_rule =
  mp_rule_index :: nat
  mp_profile :: string
  mp_trigger_ref :: string

datatype profile_error =
    NoDefaultProfile string
  | ProfileTypeMismatch string string
  | ProfileMissing string string

definition ResolveProfileRef ::
    "string \<Rightarrow> composition \<Rightarrow> environment_subscription option \<Rightarrow> profile_error + resolved_profile" where
  "ResolveProfileRef componentType c sub =
     (if cm_execution_profiles c = [] then Inr \<lparr>rp_ref = [], rp_name = [], rp_source = ''legacy-none''\<rparr>
      else
        let (rawProfile, source) =
              (case sub of
                 Some s \<Rightarrow> if su_profile s \<noteq> [] then (su_profile s, ''subscription'')
                           else (cm_default_profile c, ''composition-default'')
               | None \<Rightarrow> (cm_default_profile c, ''composition-default''))
        in if rawProfile = [] then Inl (NoDefaultProfile (cm_name c))
        else
          let dotted = contains_sub rawProfile ''.'';
              (typePrefix, profileName) =
                (if dotted then split_first CHR ''.'' rawProfile else (componentType, rawProfile))
          in if dotted \<and> typePrefix \<noteq> componentType
               then Inl (ProfileTypeMismatch componentType rawProfile)
             else if \<not> gm_has (cm_execution_profiles c) profileName
               then Inl (ProfileMissing profileName (cm_name c))
             else Inr \<lparr>rp_ref = typePrefix @ ''.'' @ profileName, rp_name = profileName,
                        rp_source = source\<rparr>)"

definition evaluateProfileRules ::
    "environment_subscription \<Rightarrow> string list \<Rightarrow> string \<times> matched_profile_rule option" where
  "evaluateProfileRules sub matchedTriggers =
     (if su_profile_rules sub = [] \<or> matchedTriggers = [] then ([], None)
      else case find_indexed (active_rule matchedTriggers) 0 (su_profile_rules sub) of
             None \<Rightarrow> ([], None)
           | Some (i, rule) \<Rightarrow>
               (ru_choice rule, Some \<lparr>mp_rule_index = i, mp_profile = ru_choice rule,
                  mp_trigger_ref = ru_trigger_ref rule\<rparr>))"

definition ResolveProfileWithRules ::
    "string \<Rightarrow> composition \<Rightarrow> environment_subscription option \<Rightarrow> string list \<Rightarrow>
      profile_error + resolved_profile \<times> matched_profile_rule option" where
  "ResolveProfileWithRules componentType c sub matchedTriggers =
     (case sub of
        None \<Rightarrow> bindR (ResolveProfileRef componentType c None) (\<lambda>r. Inr (r, None))
      | Some s \<Rightarrow>
          let (effectiveProfile, matchedRule) = evaluateProfileRules s matchedTriggers
          in if effectiveProfile \<noteq> [] then
               bindR (ResolveProfileRef componentType c (Some (s\<lparr>su_profile := effectiveProfile\<rparr>)))
                 (\<lambda>r. Inr (r\<lparr>rp_source := ''subscription-rule''\<rparr>, matchedRule))
             else bindR (ResolveProfileRef componentType c sub) (\<lambda>r. Inr (r, None)))"

section \<open>Dependency modes\<close>

record resolved_mode =
  \<comment> \<open>\<open>ResolvedDependencyMode\<close> and \<open>ResolvedEdgeDependencyMode\<close>\<close>
  dm_mode :: string
  dm_source :: string
  dm_rule_trigger_ref :: string

datatype mode_error =
    RuleModeInvalid nat string
  | SubscriptionModeInvalid string
  | EnvironmentModeInvalid string
  | EdgeRuleModeInvalid string nat string
  | EdgeModeInvalid string string

definition mode_ok :: "string \<Rightarrow> bool" where
  \<comment> \<open>a rule's mode: set and valid\<close>
  "mode_ok m \<longleftrightarrow> IsValidDependencyMode m \<and> m \<noteq> []"

fun dependency_rule_loop ::
    "string list \<Rightarrow> nat \<Rightarrow> rule_decl list \<Rightarrow> mode_error + rule_decl option" where
  \<comment> \<open>a rule is validated when it is reached, before it is matched\<close>
  "dependency_rule_loop ts i [] = Inr None"
| "dependency_rule_loop ts i (r # rs) =
     (if \<not> mode_ok (ru_choice r) then Inl (RuleModeInvalid i (ru_choice r))
      else if active_rule ts r then Inr (Some r)
      else dependency_rule_loop ts (Suc i) rs)"

definition ResolveDependencyMode ::
    "environment \<Rightarrow> environment_subscription option \<Rightarrow> string list \<Rightarrow> mode_error + resolved_mode" where
  "ResolveDependencyMode env sub matchedTriggers =
     bindR (case sub of
              None \<Rightarrow> Inr None
            | Some s \<Rightarrow>
                if su_dependency_rules s \<noteq> [] \<and> matchedTriggers \<noteq> []
                then dependency_rule_loop matchedTriggers 0 (su_dependency_rules s)
                else Inr None) (\<lambda>rule.
     case rule of
       Some r \<Rightarrow> Inr \<lparr>dm_mode = ru_choice r, dm_source = ''subscription-rule'',
                       dm_rule_trigger_ref = ru_trigger_ref r\<rparr>
     | None \<Rightarrow>
         let subMode = (case sub of None \<Rightarrow> [] | Some s \<Rightarrow> su_dependency_mode s)
         in if subMode \<noteq> [] then
              (if \<not> IsValidDependencyMode subMode then Inl (SubscriptionModeInvalid subMode)
               else Inr \<lparr>dm_mode = subMode, dm_source = ''subscription'', dm_rule_trigger_ref = []\<rparr>)
            else if env_dependency_mode env \<noteq> [] then
              (if \<not> IsValidDependencyMode (env_dependency_mode env)
               then Inl (EnvironmentModeInvalid (env_dependency_mode env))
               else Inr \<lparr>dm_mode = env_dependency_mode env, dm_source = ''environment'',
                          dm_rule_trigger_ref = []\<rparr>)
            else Inr \<lparr>dm_mode = DependencyModeEnforced, dm_source = ''default'',
                       dm_rule_trigger_ref = []\<rparr>)"

definition edge_rule_error :: "string \<Rightarrow> nat \<times> rule_decl \<Rightarrow> mode_error option" where
  "edge_rule_error cname = (\<lambda>(i, r).
     if \<not> mode_ok (ru_choice r) then Some (EdgeRuleModeInvalid cname i (ru_choice r)) else None)"

definition ResolveEdgeDependencyMode :: "dependency \<Rightarrow> string list \<Rightarrow> mode_error + resolved_mode" where
  "ResolveEdgeDependencyMode dep matchedTriggers =
     guardR (checkR (edge_rule_error (d_component dep)) (indexed (d_mode_rules dep)))
     (if \<not> IsValidDependencyMode (d_mode dep) then Inl (EdgeModeInvalid (d_component dep) (d_mode dep))
      else case (if d_mode_rules dep \<noteq> [] \<and> matchedTriggers \<noteq> []
                 then List.find (active_rule matchedTriggers) (d_mode_rules dep) else None) of
             Some r \<Rightarrow> Inr \<lparr>dm_mode = ru_choice r, dm_source = ''edge-rule'',
                             dm_rule_trigger_ref = ru_trigger_ref r\<rparr>
           | None \<Rightarrow>
               if d_mode dep \<noteq> [] then
                 Inr \<lparr>dm_mode = d_mode dep, dm_source = ''edge'', dm_rule_trigger_ref = []\<rparr>
               else Inr \<lparr>dm_mode = [], dm_source = [], dm_rule_trigger_ref = []\<rparr>)"

section \<open>The rule lists as first matches\<close>

definition profile_pick :: "rule_decl list \<Rightarrow> string list \<Rightarrow> rule_decl option" where
  "profile_pick rs ts = (case evaluateProfileRules (zero_subscription\<lparr>su_profile_rules := rs\<rparr>) ts of
     (_, None) \<Rightarrow> None
   | (_, Some m) \<Rightarrow> Some \<lparr>ru_choice = mp_profile m, ru_trigger_ref = mp_trigger_ref m\<rparr>)"

definition dependency_pick :: "rule_decl list \<Rightarrow> string list \<Rightarrow> rule_decl option" where
  "dependency_pick rs ts = (case dependency_rule_loop ts 0 rs of Inr r \<Rightarrow> r | Inl _ \<Rightarrow> None)"

lemma evaluate_find:
  "evaluateProfileRules sub ts = (case List.find (active_rule ts) (su_profile_rules sub) of
      None \<Rightarrow> ([], None)
    | Some r \<Rightarrow> (ru_choice r, Some \<lparr>mp_rule_index = fst (the (find_indexed (active_rule ts) 0 (su_profile_rules sub))),
        mp_profile = ru_choice r, mp_trigger_ref = ru_trigger_ref r\<rparr>))"
proof -
  have "List.find (active_rule []) rs = None" for rs
    by (simp add: find_None_iff active_rule_def)
  then show ?thesis
    using find_indexed_find [of "active_rule ts" 0 "su_profile_rules sub", symmetric]
    by (cases "find_indexed (active_rule ts) 0 (su_profile_rules sub)")
      (auto simp: evaluateProfileRules_def)
qed

lemma profile_pick_find: "profile_pick rs ts = List.find (active_rule ts) rs"
  by (simp add: profile_pick_def evaluate_find split: option.split)

interpretation profile_rules: first_match profile_pick "\<lambda>_. True"
proof unfold_locales
  fix rs :: "rule_decl list" and ts r
  show "(profile_pick rs ts = None) = (\<forall>r \<in> set rs. \<not> active_rule ts r)"
    by (auto simp: profile_pick_find find_None_iff)
  assume "profile_pick rs ts = Some r"
  then show "\<exists>as bs. rs = as @ r # bs \<and> active_rule ts r \<and> (\<forall>a \<in> set as. \<not> active_rule ts a)"
    unfolding profile_pick_find by (rule find_split)
qed

lemma dependency_rule_loop_find:
  "\<forall>r \<in> set rs. mode_ok (ru_choice r) \<Longrightarrow>
   dependency_rule_loop ts i rs = Inr (List.find (active_rule ts) rs)"
  by (induction rs arbitrary: i) auto

lemma dependency_rule_loop_Inr:
  "dependency_rule_loop ts i rs = Inr m \<Longrightarrow> m = List.find (active_rule ts) rs \<and>
     (\<forall>r. m = Some r \<longrightarrow> mode_ok (ru_choice r) \<and> active_rule ts r)"
  by (induction rs arbitrary: i) (auto split: if_splits)

interpretation dependency_rules: first_match dependency_pick "\<lambda>rs. \<forall>r \<in> set rs. mode_ok (ru_choice r)"
proof unfold_locales
  fix rs :: "rule_decl list" and ts r
  assume "\<forall>r \<in> set rs. mode_ok (ru_choice r)"
  then have pick: "dependency_pick rs ts = List.find (active_rule ts) rs"
    by (simp add: dependency_pick_def dependency_rule_loop_find)
  show "(dependency_pick rs ts = None) = (\<forall>r \<in> set rs. \<not> active_rule ts r)"
    by (auto simp: pick find_None_iff)
  assume "dependency_pick rs ts = Some r"
  then show "\<exists>as bs. rs = as @ r # bs \<and> active_rule ts r \<and> (\<forall>a \<in> set as. \<not> active_rule ts a)"
    unfolding pick by (rule find_split)
qed

lemma dependency_rule_loop_None:
  "dependency_rule_loop ts i rs = Inr None \<Longrightarrow>
   (\<forall>r \<in> set rs. mode_ok (ru_choice r)) \<and> (\<forall>r \<in> set rs. \<not> active_rule ts r)"
  by (induction rs arbitrary: i) (auto split: if_splits)

section \<open>What resolution returns\<close>

lemma bool_mode_ok: "mode_ok m \<longleftrightarrow>
    m \<in> {DependencyModeEnforced, DependencyModeAdvisory, DependencyModeDisabled}"
  by (auto simp: mode_ok_def IsValidDependencyMode_def dependency_mode_consts)

lemma ResolveProfileRef_Inr:
  assumes "ResolveProfileRef t c sub = Inr p"
  shows "cm_execution_profiles c = [] \<and> p = \<lparr>rp_ref = [], rp_name = [], rp_source = ''legacy-none''\<rparr> \<or>
    gm_has (cm_execution_profiles c) (rp_name p) \<and> rp_ref p = t @ ''.'' @ rp_name p \<and>
    rp_source p \<in> {''subscription'', ''composition-default''}"
  using assms
  by (auto simp: ResolveProfileRef_def Let_def split: if_splits option.splits prod.splits)

text \<open>The dependency mode of a lane is a concrete, valid mode, taken from the
  first layer that has one: the first dependency rule whose trigger is active, else the
  subscription's mode, else the environment's, else \<open>enforced\<close>; and the source recorded beside
  it names that layer.\<close>

theorem dependency_mode_precedence:
  assumes "ResolveDependencyMode env (Some s) ts = Inr m"
  shows "dm_mode m \<in> {DependencyModeEnforced, DependencyModeAdvisory, DependencyModeDisabled} \<and>
    (dm_mode m, dm_source m) =
      (case List.find (active_rule ts) (su_dependency_rules s) of
         Some r \<Rightarrow> (ru_choice r, ''subscription-rule'')
       | None \<Rightarrow> if su_dependency_mode s \<noteq> [] then (su_dependency_mode s, ''subscription'')
                 else if env_dependency_mode env \<noteq> [] then (env_dependency_mode env, ''environment'')
                 else (DependencyModeEnforced, ''default''))"
proof -
  have nil: "List.find (active_rule []) rs = None" for rs
    by (simp add: find_None_iff active_rule_def)
  obtain rule where rule: "(if su_dependency_rules s \<noteq> [] \<and> ts \<noteq> []
      then dependency_rule_loop ts 0 (su_dependency_rules s) else Inr None) = Inr rule"
    using assms by (auto simp: ResolveDependencyMode_def bindR_Inr_iff)
  then have found: "rule = List.find (active_rule ts) (su_dependency_rules s)"
    and ok: "\<And>r. rule = Some r \<Longrightarrow> mode_ok (ru_choice r)"
    using nil by (auto split: if_splits dest: dependency_rule_loop_Inr)
  note res = assms [unfolded ResolveDependencyMode_def option.case rule bindR_simps]
  show ?thesis
  proof (cases rule)
    case None
    with res found [symmetric] show ?thesis
      by (auto simp: IsValidDependencyMode_def dependency_mode_consts Let_def split: if_splits)
  next
    case (Some r)
    with res found [symmetric] ok [OF Some] show ?thesis
      by (auto simp: bool_mode_ok)
  qed
qed

theorem dependency_mode_precedence_witness:
  "let s = zero_subscription\<lparr>su_dependency_mode := ''advisory'',
        su_dependency_rules := [\<lparr>ru_choice = ''disabled'', ru_trigger_ref = ''nightly''\<rparr>]\<rparr>
   in \<exists>m. ResolveDependencyMode zero_environment (Some s) [''push''] = Inr m \<and>
        dm_mode m = ''advisory'' \<and> dm_source m = ''subscription''"
proof -
  let ?s = "zero_subscription\<lparr>su_dependency_mode := ''advisory'',
        su_dependency_rules := [\<lparr>ru_choice = ''disabled'', ru_trigger_ref = ''nightly''\<rparr>]\<rparr>"
  have "\<not> isl (ResolveDependencyMode zero_environment (Some ?s) [''push''])" by code_simp
  then obtain m where m: "ResolveDependencyMode zero_environment (Some ?s) [''push''] = Inr m"
    by (cases "ResolveDependencyMode zero_environment (Some ?s) [''push'']") auto
  from dependency_mode_precedence [OF m] m show ?thesis
    by (simp add: active_rule_def zero_subscription_def)
qed

text \<open>An edge's own mode override: with valid modes the first active mode rule
  decides, else the edge's mode, else there is no override (the empty mode); an override that is
  returned is always a concrete mode.\<close>

theorem edge_mode_precedence:
  "ResolveEdgeDependencyMode dep ts =
    (case checkR (edge_rule_error (d_component dep)) (indexed (d_mode_rules dep)) of
       Some e \<Rightarrow> Inl e
     | None \<Rightarrow>
        if \<not> IsValidDependencyMode (d_mode dep) then Inl (EdgeModeInvalid (d_component dep) (d_mode dep))
        else Inr (case List.find (active_rule ts) (d_mode_rules dep) of
            Some r \<Rightarrow> \<lparr>dm_mode = ru_choice r, dm_source = ''edge-rule'', dm_rule_trigger_ref = ru_trigger_ref r\<rparr>
          | None \<Rightarrow> \<lparr>dm_mode = d_mode dep, dm_source = (if d_mode dep = [] then [] else ''edge''),
                     dm_rule_trigger_ref = []\<rparr>))"
proof -
  have nil: "List.find (active_rule []) rs = None" for rs
    by (simp add: find_None_iff active_rule_def)
  have eq: "(if d_mode_rules dep \<noteq> [] \<and> ts \<noteq> [] then List.find (active_rule ts) (d_mode_rules dep) else None) =
      List.find (active_rule ts) (d_mode_rules dep)"
    by (auto simp: nil)
  show ?thesis
    unfolding ResolveEdgeDependencyMode_def guardR_def eq by (auto simp del: checkR_None_iff split: option.split)
qed

text \<open>Profile resolution never names a profile the composition does not have: on
  success the name is a key of the composition's execution profiles and the reference is the
  component's own type, a dot and that name; only a composition without profiles gives the
  empty \<open>legacy-none\<close> choice.\<close>

theorem resolved_profile_exists:
  assumes "ResolveProfileWithRules t c sub ts = Inr (p, rule)" and "cm_execution_profiles c \<noteq> []"
  shows "gm_has (cm_execution_profiles c) (rp_name p) \<and> rp_ref p = t @ ''.'' @ rp_name p \<and>
    (rule \<noteq> None \<longrightarrow> rp_source p = ''subscription-rule'' \<and>
      (\<exists>s r. sub = Some s \<and> rule = Some r \<and> mp_profile r \<noteq> [] \<and>
         List.find (active_rule ts) (su_profile_rules s) =
           Some \<lparr>ru_choice = mp_profile r, ru_trigger_ref = mp_trigger_ref r\<rparr>))"
proof (cases sub)
  case None
  with assms show ?thesis
    by (auto simp: ResolveProfileWithRules_def bindR_Inr_iff dest: ResolveProfileRef_Inr)
next
  case (Some s)
  obtain eff mr where ev: "evaluateProfileRules s ts = (eff, mr)" by fastforce
  show ?thesis
  proof (cases "eff = []")
    case True
    with assms Some ev show ?thesis
      by (auto simp: ResolveProfileWithRules_def bindR_Inr_iff dest: ResolveProfileRef_Inr)
  next
    case False
    with assms Some ev obtain q where
      q: "ResolveProfileRef t c (Some (s\<lparr>su_profile := eff\<rparr>)) = Inr q"
        "p = q\<lparr>rp_source := ''subscription-rule''\<rparr>" "rule = mr"
      by (auto simp: ResolveProfileWithRules_def bindR_Inr_iff)
    from ev False obtain r where r: "List.find (active_rule ts) (su_profile_rules s) = Some r"
      "eff = ru_choice r" "mr = Some \<lparr>mp_rule_index = fst (the (find_indexed (active_rule ts) 0 (su_profile_rules s))),
        mp_profile = ru_choice r, mp_trigger_ref = ru_trigger_ref r\<rparr>"
      by (auto simp: evaluate_find split: option.splits)
    with q False Some ResolveProfileRef_Inr [OF q(1)] assms(2) show ?thesis by simp
  qed
qed

theorem resolved_profile_exists_witness:
  "let c = zero_composition\<lparr>cm_default_profile := ''verify'',
         cm_execution_profiles := [(''verify'', \<lparr>ep_description = [], ep_policies = None, ep_jobs = [],
           ep_secret_bindings = [], ep_materialize = None\<rparr>)]\<rparr>;
       s = zero_subscription\<lparr>su_profile_rules := [\<lparr>ru_choice = ''terraform.verify'', ru_trigger_ref = ''pr''\<rparr>]\<rparr>
   in \<exists>p rule. ResolveProfileWithRules ''terraform'' c (Some s) [''pr''] = Inr (p, rule) \<and>
        rule \<noteq> None \<and> rp_name p = ''verify'' \<and> rp_ref p = ''terraform.verify'' \<and>
        rp_source p = ''subscription-rule''"
proof -
  let ?c = "zero_composition\<lparr>cm_default_profile := ''verify'',
         cm_execution_profiles := [(''verify'', \<lparr>ep_description = [], ep_policies = None, ep_jobs = [],
           ep_secret_bindings = [], ep_materialize = None\<rparr>)]\<rparr>"
  let ?s = "zero_subscription\<lparr>su_profile_rules := [\<lparr>ru_choice = ''terraform.verify'', ru_trigger_ref = ''pr''\<rparr>]\<rparr>"
  have ex: "(case ResolveProfileWithRules ''terraform'' ?c (Some ?s) [''pr''] of Inl _ \<Rightarrow> False
      | Inr (p, r) \<Rightarrow> r \<noteq> None \<and> rp_name p = ''verify'')"
    by code_simp
  then obtain p r where pr: "ResolveProfileWithRules ''terraform'' ?c (Some ?s) [''pr''] = Inr (p, r)"
    "r \<noteq> None" "rp_name p = ''verify''"
    by (auto split: sum.splits prod.splits)
  from resolved_profile_exists [OF pr(1)] pr show ?thesis
    by (simp add: zero_composition_def)
qed

end
