(* ===== verification/Registry.thy ===== *)
theory Registry
  imports Composition
begin

text \<open>
  The composition registry (\<open>internal/composition/registry.go\<close>): validation of the declared
  sources and of composition documents, the choice of one composition per type, and the
  annotation of components with the composition they resolve to. Reading a source from disk
  or a registry (\<open>resolveSourcePackage\<close>) and the JSON-schema library are outside the model:
  the packages come in as values, schema validation as a parameter.
\<close>

section \<open>Structs\<close>

record resolved_composition_source =
  rcs_name :: string
  rcs_kind :: string
  rcs_ref :: string
  rcs_path :: string
  rcs_resolved_digest :: string
  rcs_exports :: "string list"

record source_package =
  pk_declared :: composition_source
  pk_resolved_root :: string
  pk_resolved_metadata :: resolved_composition_source
  pk_compositions :: "composition gmap"

record registry =
  rg_types :: "composition gmap"
  rg_by_key :: "composition gmap"
  rg_jobs :: "job_spec list"
  rg_sources :: "resolved_composition_source list"
  rg_source_roots :: "string gmap"


record composition_package =
  cpk_kind :: string
  cpk_metadata :: metadata
  cpk_exports :: "(string \<times> string) list" \<comment> \<open>composition name, path\<close>

datatype registry_error =
    SourceNameRequired
  | DuplicateSource string
  | SourceNeedsPath string string
  | SourceNeedsRef string
  | UnsupportedSourceKind string string
  | PrecedenceUnknown string
  | BindingUnknown string string
  | BindingNotExported string string
  | TypeAmbiguous string "string list"
  | RefSourceMissing string
  | RefSourceUndeclared string string
  | RefExportMissing string string string
  | TypeNotFound string
  | SchemaNotLoaded string
  | SchemaRejected string string
  | NoCompositions
  | SourceUnreadable string
  | ManifestKind string
  | ManifestName string
  | ManifestNoExports string
  | ExportNoName string
  | ExportNoPath string string
  | ExportDuplicate string string
  | DocKind string string
  | DocNoName string string
  | DocNameMismatch string string
  | DocNoType string string
  | DocTypeMismatch string string
  | DocNoSchema string string
  | DocNoJobs string string
  | DocNoDefaultJob string string
  | DocDuplicateJob string string
  | DocDuplicateStep string string string
  | DocDefaultJobMissing string string string
  | ProfileDefaultEmpty string
  | ProfileDefaultMissing string string
  | ProfileSelectsNothing string string
  | ProfileUnknownJob string string string
  | ProfileJobEmpty string string string
  | ProfileUnknownStep string string string string
  | ProfileDuplicateStep string string string string

section \<open>Source configuration\<close>

definition source_shape :: "composition_source \<Rightarrow> registry_error option" where
  "source_shape s =
     (if cs_kind s \<in> {''dir'', ''archive''} then
        (if trim_space (cs_path s) = [] then Some (SourceNeedsPath (cs_name s) (cs_kind s)) else None)
      else if cs_kind s = ''oci'' then
        (if trim_space (cs_ref s) = [] then Some (SourceNeedsRef (cs_name s)) else None)
      else Some (UnsupportedSourceKind (cs_kind s) (cs_name s)))"

definition validate_source :: "composition_source \<Rightarrow> string list \<Rightarrow> registry_error + string list" where
  "validate_source s seen =
     (if trim_space (cs_name s) = [] then Inl SourceNameRequired
      else if cs_name s \<in> set seen then Inl (DuplicateSource (cs_name s))
      else guardR (source_shape s) (Inr (cs_name s # seen)))"

definition validateSourceConfiguration :: "composition_config \<Rightarrow> registry_error option" where
  "validateSourceConfiguration config =
     (case foldR validate_source (cc_sources config) [] of
        Inl e \<Rightarrow> Some e
      | Inr seen \<Rightarrow>
          (case checkR (\<lambda>n. if n \<in> set seen then None else Some (PrecedenceUnknown n))
                  (cc_precedence config) of
             Some e \<Rightarrow> Some e
           | None \<Rightarrow> checkR (\<lambda>(t, n). if n \<in> set seen then None else Some (BindingUnknown t n))
                  (cc_bindings config)))"

section \<open>Selection of default compositions\<close>

definition pk_name :: "source_package \<Rightarrow> string" where
  "pk_name p = cs_name (pk_declared p)"

definition compositionFromSource :: "composition list \<Rightarrow> string \<Rightarrow> composition option" where
  "compositionFromSource candidates src = List.find (\<lambda>c. cm_source_name c = src) candidates"

definition by_name :: "source_package list \<Rightarrow> source_package gmap" where
  "by_name packages = fold (\<lambda>p. gm_set (pk_name p) p) packages []"

definition order_step :: "source_package gmap \<Rightarrow> string \<Rightarrow> source_package list \<times> string list \<Rightarrow>
    registry_error + source_package list \<times> string list" where
  "order_step byName n st =
     (case gm_get byName n of
        None \<Rightarrow> Inl (PrecedenceUnknown n)
      | Some p \<Rightarrow>
          if n \<in> set (snd st) then Inr st else Inr (fst st @ [p], n # snd st))"

definition resolutionOrder ::
    "source_package list \<Rightarrow> string list \<Rightarrow> registry_error + source_package list" where
  "resolutionOrder packages precedence =
     bindR (foldR (order_step (by_name packages)) precedence ([], []))
       (\<lambda>(ordered, seen). Inr (ordered @ filter (\<lambda>p. pk_name p \<notin> set seen) packages))"

definition rank_by_source :: "source_package list \<Rightarrow> (string, nat) gmap_of" where
  "rank_by_source ordered = fold (\<lambda>(i, p). gm_set (pk_name p) i) (indexed ordered) []"

definition exports_by_type :: "source_package list \<Rightarrow> composition list gmap" where
  "exports_by_type packages = gm_group fst snd (concat (map pk_compositions packages))"

definition select_type :: "composition_config \<Rightarrow> (string, nat) gmap_of \<Rightarrow>
    string \<times> composition list \<Rightarrow> registry_error + composition" where
  "select_type config ranks = (\<lambda>(t, candidates).
     case gm_get (cc_bindings config) t of
       Some src \<Rightarrow>
         (case compositionFromSource candidates src of
            None \<Rightarrow> Inl (BindingNotExported t src)
          | Some c \<Rightarrow> Inr c)
     | None \<Rightarrow>
         if length candidates = 1 then Inr (hd candidates)
         else if cc_precedence config = [] then
           Inl (TypeAmbiguous t (sort (map cm_source_name candidates)))
         else Inr (hd (sort_key (\<lambda>c. gm_get_or 0 ranks (cm_source_name c)) candidates)))"

definition selectDefaultCompositions ::
    "source_package list \<Rightarrow> composition_config \<Rightarrow> registry_error + composition gmap" where
  "selectDefaultCompositions packages config =
     bindR (resolutionOrder packages (cc_precedence config)) (\<lambda>ordered.
       foldR (\<lambda>e selected. bindR (select_type config (rank_by_source ordered) e)
                 (\<lambda>c. Inr (gm_set (fst e) c selected)))
         (exports_by_type packages) [])"

section \<open>Components and their compositions\<close>

definition resolveComponentSelection ::
    "component \<Rightarrow> composition gmap \<Rightarrow> source_package gmap \<Rightarrow> registry option \<Rightarrow>
      registry_error + composition" where
  "resolveComponentSelection c selectedTypes packagesByName legacy =
     (case c_composition_ref c of
        Some ref \<Rightarrow>
          let sourceName = trim_space (cr_source ref) in
          if sourceName = [] then Inl (RefSourceMissing (c_name c))
          else (case gm_get packagesByName sourceName of
             None \<Rightarrow> Inl (RefSourceUndeclared (c_name c) sourceName)
           | Some p \<Rightarrow>
               let n = trim_space (cr_name ref);
                   compositionName = (if n = [] then c_type c else n)
               in (case gm_get (pk_compositions p) compositionName of
                     None \<Rightarrow> Inl (RefExportMissing (c_name c) compositionName sourceName)
                   | Some k \<Rightarrow> Inr k))
      | None \<Rightarrow>
          (case gm_get selectedTypes (c_type c) of
             Some k \<Rightarrow> Inr k
           | None \<Rightarrow>
               (case legacy of
                  Some reg \<Rightarrow>
                    (case gm_get (rg_types reg) (c_type c) of
                       Some k \<Rightarrow> Inr k
                     | None \<Rightarrow> Inl (TypeNotFound (c_type c)))
                | None \<Rightarrow> Inl (TypeNotFound (c_type c)))))"

definition annotate_component ::
    "source_package gmap \<Rightarrow> registry option \<Rightarrow> component \<Rightarrow> component list \<times> registry \<Rightarrow>
      registry_error + component list \<times> registry" where
  "annotate_component packagesByName legacy c = (\<lambda>(done, reg).
     bindR (resolveComponentSelection c (rg_types reg) packagesByName legacy) (\<lambda>k.
       let c' = c\<lparr>c_resolved_composition := cm_key k,
                  c_resolved_composition_source := cm_source_name k\<rparr>;
           reg1 = (if gm_has (rg_by_key reg) (cm_key k) then reg
                   else reg\<lparr>rg_by_key := gm_set (cm_key k) k (rg_by_key reg)\<rparr>);
           reg2 = (if \<not> gm_has (rg_types reg1) (c_type c) \<and> cm_name k = c_type c
                   then reg1\<lparr>rg_types := gm_set (c_type c) k (rg_types reg1)\<rparr> else reg1)
       in Inr (done @ [c'], reg2)))"

definition annotateIntentWithResolvedCompositions ::
    "component list \<Rightarrow> registry \<Rightarrow> source_package list \<Rightarrow> registry option \<Rightarrow>
      registry_error + component list \<times> registry" where
  "annotateIntentWithResolvedCompositions components reg packages legacy =
     foldR (annotate_component (by_name packages) legacy) components ([], reg)"

definition annotateIntentWithRegistry :: "component list \<Rightarrow> registry \<Rightarrow> component list" where
  "annotateIntentWithRegistry components reg = map (\<lambda>c.
     case gm_get (rg_types reg) (c_type c) of
       Some k \<Rightarrow> c\<lparr>c_resolved_composition := cm_key k,
                   c_resolved_composition_source := cm_source_name k\<rparr>
     | None \<Rightarrow> c) components"

definition resolveForComponent :: "registry \<Rightarrow> component \<Rightarrow> registry_error + composition" where
  "resolveForComponent reg c =
     (case (if c_resolved_composition c \<noteq> [] then gm_get (rg_by_key reg) (c_resolved_composition c)
            else None) of
        Some k \<Rightarrow> Inr k
      | None \<Rightarrow>
          (case gm_get (rg_types reg) (c_type c) of
             Some k \<Rightarrow> Inr k
           | None \<Rightarrow> Inl (TypeNotFound (c_type c))))"

definition validation_object :: "component \<Rightarrow> yval" where
  "validation_object c = YMap
     [(''name'', YStr (c_name c)), (''type'', YStr (c_type c)), (''parameters'', YMap (c_parameters c)),
      (''inputs'', YMap (c_parameters c)), (''domain'', YStr (c_domain c)),
      (''labels'', YMap (map (\<lambda>(k, v). (k, YStr v)) (c_labels c)))]"

definition ValidateComponentAgainstComposition ::
    "(yval gmap \<Rightarrow> yval \<Rightarrow> bool) \<Rightarrow> registry \<Rightarrow> component \<Rightarrow> registry_error option" where
  "ValidateComponentAgainstComposition conforms reg c =
     (case resolveForComponent reg c of
        Inl e \<Rightarrow> Some e
      | Inr k \<Rightarrow>
          (case cm_schema k of
             None \<Rightarrow> Some (SchemaNotLoaded (cm_name k))
           | Some schema \<Rightarrow>
               if conforms schema (validation_object c) then None
               else Some (SchemaRejected (c_name c) (c_type c))))"

definition ValidateAllComponents ::
    "(yval gmap \<Rightarrow> yval \<Rightarrow> bool) \<Rightarrow> registry \<Rightarrow> normalized_intent \<Rightarrow> registry_error option" where
  "ValidateAllComponents conforms reg ni =
     checkR (\<lambda>(_, c). ValidateComponentAgainstComposition conforms reg c) (ni_components ni)"

definition newRegistry :: registry where
  "newRegistry = \<lparr>rg_types = [], rg_by_key = [], rg_jobs = [], rg_sources = [], rg_source_roots = []\<rparr>"

definition LoadRegistry ::
    "(composition_source \<Rightarrow> source_package option) \<Rightarrow> registry option \<Rightarrow> intent \<Rightarrow>
      registry_error + intent \<times> registry" where
  \<comment> \<open>\<open>resolve\<close> reads a source (\<open>resolveSourcePackage\<close>), \<open>legacy\<close> is the \<open>--config-dir\<close> registry\<close>
  "LoadRegistry resolve legacy i =
     (let config = in_compositions i in
      if cc_sources config = [] then
        (case legacy of
           Some reg \<Rightarrow> Inr (i\<lparr>in_components := annotateIntentWithRegistry (in_components i) reg\<rparr>, reg)
         | None \<Rightarrow> Inl NoCompositions)
      else guardR (validateSourceConfiguration config)
        (bindR (mapR (\<lambda>s. case resolve s of None \<Rightarrow> Inl (SourceUnreadable (cs_name s)) | Some p \<Rightarrow> Inr p)
                 (cc_sources config)) (\<lambda>packages.
         bindR (selectDefaultCompositions packages config) (\<lambda>selected.
         let reg = newRegistry\<lparr>
               rg_sources := map pk_resolved_metadata packages @
                 (case legacy of Some l \<Rightarrow> rg_sources l | None \<Rightarrow> []),
               rg_source_roots := fold (\<lambda>p. gm_set (pk_name p) (pk_resolved_root p)) packages [],
               rg_types := gm_copy selected [],
               rg_by_key := fold (\<lambda>(_, k). gm_set (cm_key k) k) selected [],
               rg_jobs := concat (map (\<lambda>(_, k). cm_jobs k) selected)\<rparr>
         in bindR (annotateIntentWithResolvedCompositions (in_components i) reg packages legacy)
              (\<lambda>(cs, reg'). Inr (i\<lparr>in_components := cs\<rparr>, reg'))))))"

section \<open>Package manifests and composition documents\<close>

definition check_export :: "string \<Rightarrow> string \<times> string \<Rightarrow> string list \<Rightarrow> registry_error + string list" where
  "check_export src = (\<lambda>(n, path) seen.
     if trim_space n = [] then Inl (ExportNoName src)
     else if trim_space path = [] then Inl (ExportNoPath src n)
     else if n \<in> set seen then Inl (ExportDuplicate src n)
     else Inr (n # seen))"

definition validatePackageManifest :: "string \<Rightarrow> composition_package \<Rightarrow> registry_error option" where
  "validatePackageManifest src m =
     (if cpk_kind m \<noteq> ''CompositionPackage'' then Some (ManifestKind src)
      else if trim_space (md_name (cpk_metadata m)) = [] then Some (ManifestName src)
      else if cpk_exports m = [] then Some (ManifestNoExports src)
      else case foldR (check_export src) (cpk_exports m) [] of Inl e \<Rightarrow> Some e | Inr _ \<Rightarrow> None)"









definition compositionKey :: "string \<Rightarrow> string \<Rightarrow> string" where
  "compositionKey src n = src @ '':'' @ n"

definition resolveCompositionJobs ::
    "(string \<Rightarrow> string \<Rightarrow> job_spec option) \<Rightarrow> composition_job_entry list \<Rightarrow> job_spec list option" where
  \<comment> \<open>\<open>template\<close> reads a job template by name, for a job name\<close>
  "resolveCompositionJobs template entries = those (map (\<lambda>e.
     case je_template_ref e of Some t \<Rightarrow> template t (je_name e) | None \<Rightarrow> Some (ToJobSpec e)) entries)"

section \<open>Facts\<close>

lemma validate_source_Inr: "validate_source s seen = Inr seen' \<longleftrightarrow> trim_space (cs_name s) \<noteq> [] \<and>
    cs_name s \<notin> set seen \<and> source_shape s = None \<and> seen' = cs_name s # seen"
  by (auto simp: validate_source_def guardR_Inr_iff)






lemma validate_source_names:
  assumes "foldR validate_source ss seen = Inr seen'" and "distinct seen"
  shows "distinct seen' \<and> set seen' = set seen \<union> cs_name ` set ss \<and> distinct (map cs_name ss) \<and>
    cs_name ` set ss \<inter> set seen = {}"
  using assms
proof (induction ss arbitrary: seen)
  case (Cons s ss)
  from Cons.prems(1) have new: "cs_name s \<notin> set seen" and
    rest: "foldR validate_source ss (cs_name s # seen) = Inr seen'"
    by (auto simp: bindR_Inr_iff validate_source_Inr)
  from Cons.IH [OF rest] Cons.prems(2) new show ?case by auto
qed simp







section \<open>Selection\<close>

lemma sort_key_hd_least:
  fixes f :: "'a \<Rightarrow> 'b :: linorder"
  assumes "xs \<noteq> []"
  shows "hd (sort_key f xs) \<in> set xs" and "x \<in> set xs \<Longrightarrow> f (hd (sort_key f xs)) \<le> f x"
proof -
  obtain y ys where s: "sort_key f xs = y # ys"
    using assms by (cases "sort_key f xs") (auto dest: arg_cong [where f = length])
  then have set: "set xs = insert y (set ys)" by (metis list.simps(15) set_sort)
  then show "hd (sort_key f xs) \<in> set xs" by (simp add: s)
  have "sorted (map f (y # ys))" using sorted_sort_key [of f xs] s by simp
  then show "x \<in> set xs \<Longrightarrow> f (hd (sort_key f xs)) \<le> f x" using set by (auto simp: s)
qed

lemma exports_by_type_get:
  "gm_get (exports_by_type ps) t = (if t \<in> (\<Union>p \<in> set ps. set (gm_keys (pk_compositions p)))
    then Some (map snd (filter (\<lambda>e. fst e = t) (concat (map pk_compositions ps)))) else None)"
proof -
  have "t \<in> fst ` set (concat (map pk_compositions ps)) \<longleftrightarrow>
      t \<in> (\<Union>p \<in> set ps. set (gm_keys (pk_compositions p)))" by auto
  then show ?thesis
    unfolding exports_by_type_def
    by (subst gm_get_or_has [where z = "[]"]) (simp add: gm_has_group gm_get_group)
qed

lemma gm_ok_push: "gm_ok m \<Longrightarrow> gm_ok (gm_push k v m)"
  by (simp add: gm_push_def)

lemma gm_ok_group: "gm_ok (gm_group key val xs)"
proof -
  have "gm_ok m \<Longrightarrow> gm_ok (fold (\<lambda>x. gm_push (key x) (val x)) xs m)" for m
    by (induction xs arbitrary: m) (simp_all add: gm_ok_push)
  then show ?thesis by (simp add: gm_group_def)
qed

lemma select_fold:
  assumes "foldR (\<lambda>e sel. bindR (F e) (\<lambda>c. Inr (gm_set (fst e) c sel))) es sel0 = Inr sel"
    and "distinct (map fst es)"
  shows "gm_get sel t = (case gm_get es t of Some cs \<Rightarrow> (case F (t, cs) of Inr c \<Rightarrow> Some c | Inl _ \<Rightarrow> None)
           | None \<Rightarrow> gm_get sel0 t) \<and> (\<forall>e \<in> set es. \<exists>c. F e = Inr c)"
  using assms
proof (induction es arbitrary: sel0)
  case (Cons e es)
  obtain n cs where e: "e = (n, cs)" by (cases e)
  from Cons.prems(1) e obtain c where c: "F (n, cs) = Inr c"
    and rest: "foldR (\<lambda>e sel. bindR (F e) (\<lambda>c. Inr (gm_set (fst e) c sel))) es (gm_set n c sel0) = Inr sel"
    by (auto simp: bindR_Inr_iff)
  have "gm_get es n = None" using Cons.prems(2) e by (simp add: map_of_eq_None_iff)
  with Cons.IH [OF rest] Cons.prems(2) e c show ?case
    by (auto simp: gm_get_set split: option.splits)
qed simp

definition candidates_of :: "source_package list \<Rightarrow> string \<Rightarrow> composition list" where
  \<comment> \<open>every composition the packages export for a type, in package order\<close>
  "candidates_of ps t = map snd (filter (\<lambda>e. fst e = t) (concat (map pk_compositions ps)))"

text \<open>
  Which source comes first: the resolution order lists the sources of the precedence, then the others in the order
  in which they are declared.
\<close>

lemma by_name_get: "gm_get (by_name ps) n = Some p \<Longrightarrow> p \<in> set ps \<and> pk_name p = n"
proof -
  have "gm_get (fold (\<lambda>p. gm_set (pk_name p) p) ps m) n = Some p \<Longrightarrow>
      p \<in> set ps \<and> pk_name p = n \<or> gm_get m n = Some p" for m
    by (induction ps arbitrary: m) (fastforce simp: gm_get_set split: if_splits)+
  then show "gm_get (by_name ps) n = Some p \<Longrightarrow> p \<in> set ps \<and> pk_name p = n" by (fastforce simp: by_name_def)
qed

lemma find_append: "List.find P (xs @ ys) = (case List.find P xs of Some x \<Rightarrow> Some x | None \<Rightarrow> List.find P ys)"
  by (induction xs) auto

lemma find_skip_seen: "set L = S \<Longrightarrow> List.find P (L @ filter (\<lambda>n. n \<notin> S) N) = List.find P (L @ N)"
proof (cases "List.find P L")
  case None
  assume "set L = S"
  then have "List.find P (filter (\<lambda>n. n \<notin> S) N) = List.find P N" using None
    by (induction N) (auto simp: find_None_iff)
  then show ?thesis by (simp only: find_append)
qed (simp only: find_append option.case)

lemma order_steps:
  assumes "foldR (order_step (by_name ps)) prec (ord, seen) = Inr (ord', seen')"
    and "set (map pk_name ord) = set seen" "distinct (map pk_name ord)"
  shows "set (map pk_name ord') = set seen' \<and> distinct (map pk_name ord') \<and>
    List.find P (map pk_name ord') = List.find P (map pk_name ord @ prec)"
  using assms
proof (induction prec arbitrary: ord seen)
  case (Cons n prec)
  then obtain p where p: "gm_get (by_name ps) n = Some p"
    by (auto simp: order_step_def split: option.splits)
  note name = by_name_get[OF p]
  show ?case
  proof (cases "n \<in> set seen")
    case True
    then have "foldR (order_step (by_name ps)) prec (ord, seen) = Inr (ord', seen')"
      using Cons.prems(1) by (simp add: order_step_def[of _ n] p)
    from Cons.IH[OF this Cons.prems(2,3)] have "set (map pk_name ord') = set seen' \<and> distinct (map pk_name ord') \<and>
        List.find P (map pk_name ord') = List.find P (map pk_name ord @ prec)" .
    moreover have "List.find P (map pk_name ord @ n # prec) = List.find P (map pk_name ord @ prec)"
    proof (cases "List.find P (map pk_name ord)")
      case None
      then have "\<not> P n" using True Cons.prems(2) unfolding find_None_iff by blast
      then show ?thesis using None by (simp add: find_append)
    qed (simp add: find_append)
    ultimately show ?thesis by (simp only:)
  next
    case False
    then have "foldR (order_step (by_name ps)) prec (ord @ [p], n # seen) = Inr (ord', seen')"
      using Cons.prems(1) by (simp add: order_step_def[of _ n] p)
    from Cons.IH[OF this] show ?thesis using Cons.prems(2,3) False name by auto
  qed
qed simp

lemma resolution_order_names:
  assumes "resolutionOrder ps prec = Inr ordered" "distinct (map pk_name ps)"
  shows "distinct (map pk_name ordered)" "set (map pk_name ps) \<subseteq> set (map pk_name ordered)"
    and "List.find P (map pk_name ordered) = List.find P (prec @ map pk_name ps)"
proof -
  from assms(1) obtain ord seen where f: "foldR (order_step (by_name ps)) prec ([], []) = Inr (ord, seen)"
    and o: "ordered = ord @ filter (\<lambda>p. pk_name p \<notin> set seen) ps"
    by (auto simp: resolutionOrder_def bindR_Inr_iff)
  note s = order_steps[OF f, of P]
  have names: "map pk_name ordered = map pk_name ord @ filter (\<lambda>n. n \<notin> set seen) (map pk_name ps)"
    by (simp add: o filter_map comp_def)
  show "distinct (map pk_name ordered)" "set (map pk_name ps) \<subseteq> set (map pk_name ordered)"
    unfolding names using s assms(2) by auto
  have "List.find P (map pk_name ordered) = List.find P (map pk_name ord @ map pk_name ps)"
    unfolding names using s by (intro find_skip_seen) simp
  then show "List.find P (map pk_name ordered) = List.find P (prec @ map pk_name ps)"
    using s by (simp add: find_append)
qed

lemma rank_by_source_get:
  assumes "distinct (map pk_name ordered)" "i < length ordered"
  shows "gm_get (rank_by_source ordered) (pk_name (ordered ! i)) = Some i"
  using assms
proof (induction ordered arbitrary: i rule: rev_induct)
  case (snoc p ordered)
  have r: "rank_by_source (ordered @ [p]) = gm_set (pk_name p) (length ordered) (rank_by_source ordered)"
    by (simp add: rank_by_source_def index_from_def)
  show ?case
  proof (cases "i < length ordered")
    case True
    then have "ordered ! i \<in> set ordered" by simp
    then have "pk_name (ordered ! i) \<noteq> pk_name p" using snoc.prems(1) by (auto simp: image_iff)
    then show ?thesis using True snoc by (simp add: r gm_get_set nth_append)
  next
    case False
    then have "i = length ordered" using snoc.prems(2) by simp
    then show ?thesis by (simp add: r gm_get_set)
  qed
qed simp

lemma least_rank_first:
  assumes d: "distinct (map pk_name ordered)" and cs: "c \<in> set cs"
    and src: "\<forall>k \<in> set cs. cm_source_name k \<in> set (map pk_name ordered)"
    and least: "\<forall>k \<in> set cs. gm_get_or 0 (rank_by_source ordered) (cm_source_name c) \<le>
      gm_get_or 0 (rank_by_source ordered) (cm_source_name k)"
  shows "List.find (\<lambda>n. \<exists>k \<in> set cs. cm_source_name k = n) (map pk_name ordered) = Some (cm_source_name c)"
proof -
  from src cs obtain i where i: "i < length ordered" "cm_source_name c = pk_name (ordered ! i)"
    by (metis in_set_conv_nth length_map nth_map)
  have "\<not> (\<exists>k \<in> set cs. cm_source_name k = pk_name (ordered ! j))" if "j < i" for j
  proof
    assume "\<exists>k \<in> set cs. cm_source_name k = pk_name (ordered ! j)"
    then obtain k where "k \<in> set cs" "cm_source_name k = pk_name (ordered ! j)" by blast
    then have "i \<le> j" using least rank_by_source_get[OF d] i that by (auto simp: gm_get_or_def)
    with that show False by simp
  qed
  then show ?thesis unfolding find_Some_iff using i cs by (intro exI[of _ i]) auto
qed

text \<open>C37: When the choice of default compositions succeeds, exactly the exported types get one, and it is one of
  the type's candidates: the one from the source the type is bound to, if there is a binding; the only one, if
  there is one candidate; and otherwise, which needs a declared precedence, the one from the first source that
  exports the type, going through the precedence first and then through the sources in the order of their
  declaration. Sources have distinct names, and a composition carries the name of its source.\<close>

theorem selection_honours_bindings_and_precedence:
  assumes "selectDefaultCompositions ps config = Inr sel" and "distinct (map pk_name ps)"
    and "\<forall>p \<in> set ps. \<forall>(t, k) \<in> set (pk_compositions p). cm_source_name k = pk_name p"
  shows "(gm_has sel t \<longleftrightarrow> candidates_of ps t \<noteq> []) \<and>
    (\<forall>c. gm_get sel t = Some c \<longrightarrow> c \<in> set (candidates_of ps t) \<and>
      (case gm_get (cc_bindings config) t of
         Some src \<Rightarrow> cm_source_name c = src
       | None \<Rightarrow> candidates_of ps t = [c] \<or>
           cc_precedence config \<noteq> [] \<and>
           List.find (\<lambda>n. \<exists>d \<in> set (candidates_of ps t). cm_source_name d = n) (cc_precedence config @ map pk_name ps) =
             Some (cm_source_name c)))"
proof -
  from assms(1) obtain ordered where ord: "resolutionOrder ps (cc_precedence config) = Inr ordered"
    by (auto simp: selectDefaultCompositions_def bindR_Inr_iff)
  note names = resolution_order_names[OF ord assms(2)]
  let ?F = "select_type config (rank_by_source ordered)" and ?E = "exports_by_type ps"
  have "distinct (map fst ?E)"
    using gm_ok_group unfolding exports_by_type_def gm_ok_def by blast
  moreover have "foldR (\<lambda>e sel. bindR (?F e) (\<lambda>c. Inr (gm_set (fst e) c sel))) ?E [] = Inr sel"
    using assms(1) ord by (simp add: selectDefaultCompositions_def)
  ultimately have get: "gm_get sel t = (case gm_get ?E t of Some cs \<Rightarrow>
        (case ?F (t, cs) of Inr c \<Rightarrow> Some c | Inl _ \<Rightarrow> None) | None \<Rightarrow> None)"
    and ok: "\<forall>e \<in> set ?E. \<exists>c. ?F e = Inr c"
    using select_fold [of ?F ?E "[]" sel t] by (simp_all cong: option.case_cong)
  have E: "gm_get ?E t = (if candidates_of ps t \<noteq> [] then Some (candidates_of ps t) else None)"
    by (auto simp: exports_by_type_get candidates_of_def filter_empty_conv)
  have src: "\<forall>k \<in> set (candidates_of ps t). cm_source_name k \<in> set (map pk_name ordered)"
    using assms(3) names(2) by (fastforce simp: candidates_of_def)
  show ?thesis
  proof (cases "candidates_of ps t = []")
    case True
    then show ?thesis by (simp add: get E gm_has_def)
  next
    case False
    with E have "(t, candidates_of ps t) \<in> set ?E" by (simp add: map_of_SomeD)
    with ok obtain c where c: "?F (t, candidates_of ps t) = Inr c" by blast
    then have sel: "gm_get sel t = Some c" using get E False by simp
    have "c \<in> set (candidates_of ps t) \<and> (case gm_get (cc_bindings config) t of
         Some src \<Rightarrow> cm_source_name c = src
       | None \<Rightarrow> candidates_of ps t = [c] \<or> cc_precedence config \<noteq> [] \<and>
           List.find (\<lambda>n. \<exists>d \<in> set (candidates_of ps t). cm_source_name d = n) (cc_precedence config @ map pk_name ps) =
             Some (cm_source_name c))"
    proof (cases "gm_get (cc_bindings config) t")
      case None
      consider "candidates_of ps t = [c]" | "cc_precedence config \<noteq> []"
          "c = hd (sort_key (\<lambda>c. gm_get_or 0 (rank_by_source ordered) (cm_source_name c)) (candidates_of ps t))"
        using c None by (auto simp: select_type_def length_Suc_conv split: if_splits)
      then show ?thesis
      proof cases
        case 2
        note least = sort_key_hd_least[OF False, where f = "\<lambda>c. gm_get_or 0 (rank_by_source ordered) (cm_source_name c)"]
        have "c \<in> set (candidates_of ps t)" unfolding 2 by (rule least(1))
        moreover have "List.find (\<lambda>n. \<exists>d \<in> set (candidates_of ps t). cm_source_name d = n) (map pk_name ordered) =
            Some (cm_source_name c)"
          by (rule least_rank_first[OF names(1) \<open>c \<in> _\<close> src]) (use least(2) 2 in blast)
        ultimately show ?thesis using None 2(1) names(3) by simp
      qed (simp add: None)
    next
      case (Some src)
      with c have "compositionFromSource (candidates_of ps t) src = Some c"
        by (auto simp: select_type_def split: option.splits)
      with Some show ?thesis by (auto simp: compositionFromSource_def find_Some_iff)
    qed
    with sel False show ?thesis by (simp add: gm_has_def)
  qed
qed

definition ex_package :: "string \<Rightarrow> source_package" where
  "ex_package n = \<lparr>pk_declared = \<lparr>cs_name = n, cs_kind = ''dir'', cs_path = ''x'', cs_ref = [], cs_digest = [],
     cs_pull_policy = [], cs_verify = None, cs_metadata = []\<rparr>, pk_resolved_root = [],
     pk_resolved_metadata = \<lparr>rcs_name = n, rcs_kind = [], rcs_ref = [], rcs_path = [],
       rcs_resolved_digest = [], rcs_exports = []\<rparr>,
     pk_compositions = [(''helm'', zero_composition\<lparr>cm_source_name := n\<rparr>)]\<rparr>"

definition ex_precedence :: composition_config where
  "ex_precedence = \<lparr>cc_sources = [], cc_precedence = [''c'', ''b''], cc_bindings = []\<rparr>"

theorem selection_honours_bindings_and_precedence_witness:
  "\<exists>sel c. selectDefaultCompositions [ex_package ''a'', ex_package ''b'', ex_package ''c''] ex_precedence = Inr sel \<and>
     gm_get sel ''helm'' = Some c \<and> cm_source_name c = ''c''"
proof -
  let ?ps = "[ex_package ''a'', ex_package ''b'', ex_package ''c'']"
  have "(case selectDefaultCompositions ?ps ex_precedence of Inl _ \<Rightarrow> False
      | Inr sel \<Rightarrow> gm_get sel ''helm'' \<noteq> None)" by code_simp
  then obtain sel c where sel: "selectDefaultCompositions ?ps ex_precedence = Inr sel" "gm_get sel ''helm'' = Some c"
    by (auto split: sum.splits)
  have d: "distinct (map pk_name ?ps)" by (simp add: ex_package_def pk_name_def)
  have s: "\<forall>p \<in> set ?ps. \<forall>(t, k) \<in> set (pk_compositions p). cm_source_name k = pk_name p"
    by (simp add: ex_package_def pk_name_def zero_composition_def)
  show ?thesis
    using selection_honours_bindings_and_precedence[OF sel(1) d s, of "''helm''"] sel
    by (simp add: candidates_of_def ex_precedence_def ex_package_def pk_name_def zero_composition_def)
qed

section \<open>Annotation\<close>

definition keyed :: "registry \<Rightarrow> bool" where
  "keyed reg \<longleftrightarrow> (\<forall>k c. gm_get (rg_by_key reg) k = Some c \<longrightarrow> cm_key c = k)"

definition annotation_inv :: "component list \<times> registry \<Rightarrow> bool" where
  "annotation_inv = (\<lambda>(acc, reg). keyed reg \<and>
     (\<forall>c \<in> set acc. gm_has (rg_by_key reg) (c_resolved_composition c)))"

lemma annotate_component_inv:
  assumes "annotate_component ps legacy c st = Inr st'" and "annotation_inv st"
  shows "annotation_inv st'"
proof -
  obtain acc reg where st: "st = (acc, reg)" by (cases st)
  from assms(1) st obtain k where
    st': "st' = (let reg1 = (if gm_has (rg_by_key reg) (cm_key k) then reg
                   else reg\<lparr>rg_by_key := gm_set (cm_key k) k (rg_by_key reg)\<rparr>);
           reg2 = (if \<not> gm_has (rg_types reg1) (c_type c) \<and> cm_name k = c_type c
                   then reg1\<lparr>rg_types := gm_set (c_type c) k (rg_types reg1)\<rparr> else reg1)
       in (acc @ [c\<lparr>c_resolved_composition := cm_key k,
                  c_resolved_composition_source := cm_source_name k\<rparr>], reg2))"
    by (auto simp: annotate_component_def bindR_Inr_iff Let_def)
  show ?thesis
  proof (cases "gm_has (rg_by_key reg) (cm_key k)")
    case True
    with assms(2) st show ?thesis by (auto simp: st' annotation_inv_def keyed_def Let_def)
  next
    case False
    with assms(2) st show ?thesis
      by (auto simp: st' annotation_inv_def keyed_def Let_def gm_get_set gm_has_set)
  qed
qed

lemma annotate_step_names:
  assumes "foldR (annotate_component ps legacy) cs (acc, reg) = Inr (acc', reg')"
  shows "map c_name acc' = map c_name acc @ map c_name cs"
  using assms
proof (induction cs arbitrary: acc reg)
  case (Cons c cs)
  then obtain d r where step: "annotate_component ps legacy c (acc, reg) = Inr (d, r)"
    and rest: "foldR (annotate_component ps legacy) cs (d, r) = Inr (acc', reg')"
    by (auto simp: bindR_Inr_iff)
  from step have "map c_name d = map c_name acc @ [c_name c]"
    by (auto simp: annotate_component_def bindR_Inr_iff Let_def)
  with Cons.IH [OF rest] show ?case by simp
qed simp

text \<open>After the components are annotated the registry can resolve each of them:
  none is added, dropped or renamed, and looking up an annotated component by its key finds the
  composition with exactly that key, whatever its type would have selected.\<close>

theorem annotated_components_resolve:
  assumes "annotateIntentWithResolvedCompositions cs reg ps legacy = Inr (cs', reg')" and "keyed reg"
  shows "map c_name cs' = map c_name cs \<and> keyed reg' \<and>
    (\<forall>c \<in> set cs'. c_resolved_composition c \<noteq> [] \<longrightarrow>
       (\<exists>k. resolveForComponent reg' c = Inr k \<and> cm_key k = c_resolved_composition c))"
proof -
  have f: "foldR (annotate_component (by_name ps) legacy) cs ([], reg) = Inr (cs', reg')"
    using assms(1) by (simp add: annotateIntentWithResolvedCompositions_def)
  have inv: "annotation_inv (cs', reg')"
  proof (rule foldR_invariant [OF f, where P = annotation_inv])
    show "annotation_inv ([], reg)" using assms(2) by (simp add: annotation_inv_def)
  qed (rule annotate_component_inv)
  have "\<exists>k. resolveForComponent reg' c = Inr k \<and> cm_key k = c_resolved_composition c"
    if "c \<in> set cs'" "c_resolved_composition c \<noteq> []" for c
  proof -
    from inv that obtain k where "gm_get (rg_by_key reg') (c_resolved_composition c) = Some k"
      by (auto simp: annotation_inv_def gm_has_def)
    with inv that show ?thesis by (auto simp: resolveForComponent_def annotation_inv_def keyed_def)
  qed
  with inv annotate_step_names [OF f] show ?thesis by (simp add: annotation_inv_def)
qed

theorem annotated_components_resolve_witness:
  "let k = zero_composition\<lparr>cm_key := ''src:helm'', cm_name := ''helm''\<rparr>;
      reg = newRegistry\<lparr>rg_types := [(''helm'', k)]\<rparr>
   in \<exists>cs' reg'. annotateIntentWithResolvedCompositions [zero_component\<lparr>c_type := ''helm''\<rparr>] reg [] None =
        Inr (cs', reg') \<and> map c_resolved_composition cs' = [''src:helm''] \<and> keyed reg'"
proof -
  let ?k = "zero_composition\<lparr>cm_key := ''src:helm'', cm_name := ''helm''\<rparr>"
  let ?reg = "newRegistry\<lparr>rg_types := [(''helm'', ?k)]\<rparr>"
  have "(case annotateIntentWithResolvedCompositions [zero_component\<lparr>c_type := ''helm''\<rparr>] ?reg [] None of
      Inl _ \<Rightarrow> False | Inr (cs, _) \<Rightarrow> map c_resolved_composition cs = [''src:helm''])"
    by code_simp
  then obtain cs reg' where r: "annotateIntentWithResolvedCompositions [zero_component\<lparr>c_type := ''helm''\<rparr>] ?reg [] None = Inr (cs, reg')"
    and cs: "map c_resolved_composition cs = [''src:helm'']" by (auto split: sum.splits prod.splits)
  have "keyed ?reg" by (simp add: keyed_def newRegistry_def)
  from annotated_components_resolve [OF r this] r cs show ?thesis by (metis (no_types, lifting))
qed

end
