(* ===== verification/Input_Glob.thy ===== *)
theory Input_Glob
  imports Go_Strings
begin

text \<open>
  \<open>internal/inputglob/inputglob.go\<close>: which \<open>spec.change.inputs\<close> globs are accepted and what
  they match. The glob syntax itself is the doublestar library's: \<open>ValidatePattern\<close> and
  \<open>Match\<close> (\<open>None\<close> for its malformed-pattern error) are parameters.
\<close>

datatype glob_error =
    GlobEmpty
  | GlobSpace string
  | GlobBackslash string
  | GlobAbsolute string
  | GlobEmptySegment string
  | GlobDotSegment string
  | GlobMalformed string

definition hasDriveLetter :: "string \<Rightarrow> bool" where
  "hasDriveLetter p \<longleftrightarrow> (case p of a # b # _ \<Rightarrow> b = CHR '':'' \<and> is_alpha a | _ \<Rightarrow> False)"

definition glob_segment_error :: "string \<Rightarrow> string \<Rightarrow> glob_error option" where
  "glob_segment_error pattern seg =
     (if seg = [] then Some (GlobEmptySegment pattern)
      else if seg \<in> {''.'', ''..''} then Some (GlobDotSegment pattern) else None)"

definition glob_Validate :: "(string \<Rightarrow> bool) \<Rightarrow> string \<Rightarrow> glob_error option" where
  "glob_Validate validPattern pattern =
     (if trim_space pattern = [] then Some GlobEmpty
      else if trim_space pattern \<noteq> pattern then Some (GlobSpace pattern)
      else if CHR 0x5C \<in> set pattern then Some (GlobBackslash pattern)
      else if has_prefix pattern ''/'' \<or> hasDriveLetter pattern then Some (GlobAbsolute pattern)
      else case checkR (glob_segment_error pattern) (split_char CHR ''/'' pattern) of
             Some e \<Rightarrow> Some e
           | None \<Rightarrow> if validPattern pattern then None else Some (GlobMalformed pattern))"

definition glob_ValidateAll :: "(string \<Rightarrow> bool) \<Rightarrow> string list \<Rightarrow> (nat \<times> glob_error) option" where
  "glob_ValidateAll validPattern patterns =
     checkR (\<lambda>(i, p). map_option (Pair i) (glob_Validate validPattern p)) (indexed patterns)"

definition slash_char :: "char \<Rightarrow> char" where
  "slash_char c = (if c = CHR 0x5C then CHR ''/'' else c)"

definition glob_Match :: "(string \<Rightarrow> string \<Rightarrow> bool option) \<Rightarrow> string \<Rightarrow> string \<Rightarrow> bool" where
  "glob_Match match pattern path =
     (let p = trim_prefix (map slash_char path) ''./''
      in p \<noteq> [] \<and> match pattern p = Some True)"

definition MatchAny :: "(string \<Rightarrow> string \<Rightarrow> bool option) \<Rightarrow> string list \<Rightarrow> string \<Rightarrow> string option" where
  "MatchAny match patterns path = List.find (\<lambda>p. glob_Match match p path) patterns"

lemma glob_segments_ok:
  "checkR (glob_segment_error p) ss = None \<longleftrightarrow> (\<forall>s \<in> set ss. s \<notin> {[], ''.'', ''..''})"
  by (auto simp: glob_segment_error_def)

lemma glob_accepted:
  "glob_Validate vp p = None \<longleftrightarrow> p \<noteq> [] \<and> trim_space p = p \<and> CHR 0x5C \<notin> set p \<and>
     \<not> has_prefix p ''/'' \<and> \<not> hasDriveLetter p \<and>
     (\<forall>s \<in> set (split_char CHR ''/'' p). s \<notin> {[], ''.'', ''..''}) \<and> vp p"
  unfolding glob_segments_ok [of p, symmetric]
  by (auto simp: glob_Validate_def simp del: checkR_None_iff split: option.splits)

text \<open>A glob that may claim a file names it from the repository root down: it splits into segments
  none of which can leave the tree.\<close>

lemma accepted_glob_stays_inside:
  assumes "glob_Validate vp p = None"
  shows "join ''/'' (split_char CHR ''/'' p) = p" and "''..'' \<notin> set (split_char CHR ''/'' p)"
    and "hd p \<noteq> CHR ''/''"
proof -
  note a = assms [unfolded glob_accepted]
  show "join ''/'' (split_char CHR ''/'' p) = p" by (rule join_split_char)
  show "''..'' \<notin> set (split_char CHR ''/'' p)" using a by blast
  show "hd p \<noteq> CHR ''/''"
  proof
    assume "hd p = CHR ''/''"
    then have "has_prefix p ''/''" using a by (cases p) (auto simp: has_prefix_iff)
    with a show False by blast
  qed
qed

end
