(* ===== verification/Dfs.thy ===== *)
theory Dfs
  imports Prelude
begin

text \<open>
  Depth-first search with three colours, the cycle detection the program uses on promotion
  dependencies (\<open>internal/normalize\<close>) and on job dependencies (\<open>internal/planner\<close>), here
  over any successor function. The recursion takes fuel: one unit per nested call. \<open>None\<close> is
  out of fuel, \<open>Some (Inl cycle)\<close> a cycle found, \<open>Some (Inr colours)\<close> a finished visit. The
  facts: enough fuel always gives an answer, a reported cycle is a cycle, and a finished visit
  rules out cycles through everything visited.
\<close>

datatype color = White | Gray | Black

fun dfs :: "nat \<Rightarrow> ('a \<Rightarrow> 'a list) \<Rightarrow> 'a list \<Rightarrow> 'a \<Rightarrow> ('a \<Rightarrow> color) \<Rightarrow> ('a list + ('a \<Rightarrow> color)) option"
  and dfs_list :: "nat \<Rightarrow> ('a \<Rightarrow> 'a list) \<Rightarrow> 'a list \<Rightarrow> 'a list \<Rightarrow> ('a \<Rightarrow> color) \<Rightarrow> ('a list + ('a \<Rightarrow> color)) option"
where
  "dfs 0 succ path v c = None"
| "dfs (Suc n) succ path v c =
     (case dfs_list n succ (path @ [v]) (succ v) (c(v := Gray)) of
        None \<Rightarrow> None
      | Some (Inl cyc) \<Rightarrow> Some (Inl cyc)
      | Some (Inr c') \<Rightarrow> Some (Inr (c'(v := Black))))"
| "dfs_list n succ path [] c = Some (Inr c)"
| "dfs_list n succ path (t # ts) c =
     (case c t of
        Gray \<Rightarrow> Some (Inl (path @ [t]))
      | White \<Rightarrow>
          (case dfs n succ path t c of
             None \<Rightarrow> None
           | Some (Inl cyc) \<Rightarrow> Some (Inl cyc)
           | Some (Inr c') \<Rightarrow> dfs_list n succ path ts c')
      | Black \<Rightarrow> dfs_list n succ path ts c)"

fun dfs_all :: "nat \<Rightarrow> ('a \<Rightarrow> 'a list) \<Rightarrow> 'a list \<Rightarrow> ('a \<Rightarrow> color) \<Rightarrow> ('a list + ('a \<Rightarrow> color)) option" where
  \<comment> \<open>the outer loop: visit every node that is still white\<close>
  "dfs_all n succ [] c = Some (Inr c)"
| "dfs_all n succ (v # vs) c =
     (if c v = White then
        (case dfs n succ [] v c of
           None \<Rightarrow> None
         | Some (Inl cyc) \<Rightarrow> Some (Inl cyc)
         | Some (Inr c') \<Rightarrow> dfs_all n succ vs c')
      else dfs_all n succ vs c)"

definition edges :: "('a \<Rightarrow> 'a list) \<Rightarrow> ('a \<times> 'a) set" where
  "edges succ = {(u, v). v \<in> set (succ u)}"

definition whites :: "'a set \<Rightarrow> ('a \<Rightarrow> color) \<Rightarrow> nat" where
  "whites V c = card {v \<in> V. c v = White}"

definition darker :: "('a \<Rightarrow> color) \<Rightarrow> ('a \<Rightarrow> color) \<Rightarrow> bool" where
  \<comment> \<open>a visit only turns white nodes black\<close>
  "darker c c' \<longleftrightarrow> (\<forall>v. c v \<noteq> White \<longrightarrow> c' v = c v) \<and> (\<forall>v. c' v = Gray \<longrightarrow> c v = Gray)"

lemma darker_refl [simp]: "darker c c"
  by (simp add: darker_def)

lemma darker_trans: "darker c c' \<Longrightarrow> darker c' c'' \<Longrightarrow> darker c c''"
  by (metis color.distinct(1,3) darker_def)

lemma darker_black: "darker c c' \<Longrightarrow> c v = Black \<Longrightarrow> c' v = Black"
  by (simp add: darker_def)

lemma darker_gray: "darker c c' \<Longrightarrow> c' v = Gray \<longleftrightarrow> c v = Gray"
  by (metis color.distinct(1) darker_def)

lemma darker_finish: "c v = White \<Longrightarrow> darker (c(v := Gray)) c' \<Longrightarrow> darker c (c'(v := Black))"
  unfolding darker_def by (auto split: if_splits)

lemma whites_mono: "finite V \<Longrightarrow> darker c c' \<Longrightarrow> whites V c' \<le> whites V c"
  unfolding whites_def darker_def by (rule card_mono) auto

lemma whites_gray: "finite V \<Longrightarrow> v \<in> V \<Longrightarrow> c v = White \<Longrightarrow> whites V c = Suc (whites V (c(v := Gray)))"
proof -
  assume a: "finite V" "v \<in> V" "c v = White"
  have "{u \<in> V. c u = White} = insert v {u \<in> V. (c(v := Gray)) u = White}" using a by auto
  moreover have "card (insert v {u \<in> V. (c(v := Gray)) u = White}) =
      Suc (card {u \<in> V. (c(v := Gray)) u = White})"
    using a by (intro card_insert_disjoint) auto
  ultimately show ?thesis by (simp only: whites_def)
qed

lemma dfs_darker:
  "dfs n succ path v c = Some (Inr c') \<Longrightarrow> c v = White \<Longrightarrow> darker c c' \<and> c' v = Black"
  "dfs_list n succ path ts c = Some (Inr c') \<Longrightarrow> darker c c' \<and> (\<forall>t \<in> set ts. c' t = Black)"
proof (induction n succ path v c and n succ path ts c arbitrary: c' and c' rule: dfs_dfs_list.induct)
  case (2 n succ path v c)
  then obtain d where d: "dfs_list n succ (path @ [v]) (succ v) (c(v := Gray)) = Some (Inr d)"
    and c': "c' = d(v := Black)"
    by (auto split: option.splits sum.splits)
  from "2.IH" [OF d] have "darker (c(v := Gray)) d" by blast
  from darker_finish [OF "2.prems"(2) this] show ?case unfolding c' by (metis fun_upd_same)
next
  case (4 n succ path t ts c)
  show ?case
  proof (cases "c t")
    case White
    with "4.prems" obtain d where d: "dfs n succ path t c = Some (Inr d)"
      and rest: "dfs_list n succ path ts d = Some (Inr c')"
      by (auto split: option.splits sum.splits)
    have "darker c d" "d t = Black" using "4.IH"(1) [OF White d White] by blast+
    moreover have "darker d c'" "\<forall>t \<in> set ts. c' t = Black" using "4.IH"(2) [OF White d _ rest] by blast+
    ultimately show ?thesis
      using darker_trans [of c d c'] darker_black [of d c' t] by simp
  next
    case Black
    with "4.prems" have "dfs_list n succ path ts c = Some (Inr c')" by simp
    from "4.IH"(3) [OF Black this] darker_black [of c c' t] Black show ?thesis by simp
  qed (use "4.prems" in auto)
qed auto

text \<open>Fuel: one unit per white node suffices.\<close>

lemma dfs_enough:
  "finite V \<Longrightarrow> (\<And>u. u \<in> V \<Longrightarrow> set (succ u) \<subseteq> V) \<Longrightarrow> v \<in> V \<Longrightarrow> c v = White \<Longrightarrow> whites V c \<le> n \<Longrightarrow>
    dfs n succ path v c \<noteq> None"
  "finite V \<Longrightarrow> (\<And>u. u \<in> V \<Longrightarrow> set (succ u) \<subseteq> V) \<Longrightarrow> set ts \<subseteq> V \<Longrightarrow> whites V c \<le> n \<Longrightarrow>
    dfs_list n succ path ts c \<noteq> None"
proof (induction n succ path v c and n succ path ts c rule: dfs_dfs_list.induct)
  case (1 succ path v c)
  then show ?case using whites_gray [of V v c] by simp
next
  case (2 n succ path v c)
  have "whites V (c(v := Gray)) \<le> n" using whites_gray [of V v c] 2 by linarith
  with "2.IH" "2.prems" have "dfs_list n succ (path @ [v]) (succ v) (c(v := Gray)) \<noteq> None" by blast
  then show ?case by (auto split: sum.splits)
next
  case (4 n succ path t ts c)
  show ?case
  proof (cases "c t")
    case White
    with 4 have "dfs n succ path t c \<noteq> None" by simp
    moreover have "dfs_list n succ path ts d \<noteq> None" if d: "dfs n succ path t c = Some (Inr d)" for d
    proof -
      have "whites V d \<le> n"
        using dfs_darker(1) [OF d White] whites_mono [of V c d] "4.prems" by linarith
      then show ?thesis using "4.IH"(2) [OF White d] "4.prems" by auto
    qed
    ultimately show ?thesis using White by (auto split: sum.splits)
  qed (use 4 in auto)
qed simp

text \<open>A reported cycle is one.\<close>

fun chain :: "('a \<Rightarrow> 'a list) \<Rightarrow> 'a list \<Rightarrow> bool" where
  "chain succ (u # v # vs) \<longleftrightarrow> v \<in> set (succ u) \<and> chain succ (v # vs)"
| "chain succ vs \<longleftrightarrow> True"

definition is_cycle :: "('a \<Rightarrow> 'a list) \<Rightarrow> 'a list \<Rightarrow> bool" where
  \<comment> \<open>a path of edges whose last node occurs earlier on it\<close>
  "is_cycle succ p \<longleftrightarrow> p \<noteq> [] \<and> chain succ p \<and> last p \<in> set (butlast p)"

lemma chain_snoc: "chain succ p \<Longrightarrow> (p \<noteq> [] \<Longrightarrow> v \<in> set (succ (last p))) \<Longrightarrow> chain succ (p @ [v])"
  by (induction succ p rule: chain.induct) auto

lemma chain_reach:
  "chain succ p \<Longrightarrow> u \<in> set (butlast p) \<Longrightarrow> (u, last p) \<in> (edges succ)\<^sup>+"
proof (induction succ p arbitrary: u rule: chain.induct)
  case (1 succ a b vs)
  have e: "(a, b) \<in> edges succ" using "1.prems"(1) by (simp add: edges_def)
  show ?case
  proof (cases "u \<in> set (butlast (b # vs))")
    case True
    with 1 show ?thesis by simp
  next
    case False
    with "1.prems"(2) have u: "u = a" by simp
    show ?thesis
    proof (cases vs)
      case Nil
      with e u show ?thesis by auto
    next
      case (Cons w ws)
      then have "b \<in> set (butlast (b # vs))" by simp
      with "1.IH" "1.prems"(1) have "(b, last (b # vs)) \<in> (edges succ)\<^sup>+" by (metis chain.simps(1))
      with e u show ?thesis by (metis last_ConsR list.distinct(1) trancl_into_trancl2)
    qed
  qed
qed auto

lemma is_cycle_cyclic: "is_cycle succ p \<Longrightarrow> \<not> acyclic (edges succ)"
  unfolding is_cycle_def acyclic_def using chain_reach by metis

lemma dfs_cycle:
  "dfs n succ path v c = Some (Inl cyc) \<Longrightarrow> chain succ (path @ [v]) \<Longrightarrow> c v = White \<Longrightarrow>
    {u. c u = Gray} = set path \<Longrightarrow> is_cycle succ cyc"
  "dfs_list n succ path ts c = Some (Inl cyc) \<Longrightarrow> chain succ path \<Longrightarrow> path \<noteq> [] \<Longrightarrow>
    set ts \<subseteq> set (succ (last path)) \<Longrightarrow> {u. c u = Gray} = set path \<Longrightarrow> is_cycle succ cyc"
proof (induction n succ path v c and n succ path ts c rule: dfs_dfs_list.induct)
  case (2 n succ path v c)
  then have "dfs_list n succ (path @ [v]) (succ v) (c(v := Gray)) = Some (Inl cyc)"
    by (auto split: option.splits sum.splits)
  moreover have "{u. (c(v := Gray)) u = Gray} = set (path @ [v])" using "2.prems"(4) by auto
  moreover have "set (succ v) \<subseteq> set (succ (last (path @ [v])))" by simp
  ultimately show ?case using "2.IH" "2.prems"(2) by blast
next
  case (4 n succ path t ts c)
  have ch: "chain succ (path @ [t])" using "4.prems" by (auto intro: chain_snoc)
  show ?case
  proof (cases "c t")
    case White
    then consider "dfs n succ path t c = Some (Inl cyc)"
      | d where "dfs n succ path t c = Some (Inr d)" "dfs_list n succ path ts d = Some (Inl cyc)"
      using "4.prems"(1) by (auto split: option.splits sum.splits)
    then show ?thesis
    proof cases
      case 1
      then show ?thesis using "4.IH"(1) [OF White] ch White "4.prems" by blast
    next
      case (2 d)
      have "{u. d u = Gray} = set path"
        using dfs_darker(1) [OF 2(1) White] "4.prems"(5) darker_gray [of c d] by simp
      then show ?thesis using "4.IH"(2) [OF White 2(1) _ 2(2)] "4.prems" by auto
    qed
  next
    case Gray
    then have "t \<in> set path" "cyc = path @ [t]" using "4.prems" by auto
    with ch show ?thesis by (simp add: is_cycle_def)
  next
    case Black
    then show ?thesis using "4.IH"(3) [OF Black] "4.prems" by auto
  qed
qed auto

text \<open>A finished visit leaves black nodes closed under edges and on no cycle.\<close>

definition black_ok :: "('a \<Rightarrow> 'a list) \<Rightarrow> ('a \<Rightarrow> color) \<Rightarrow> bool" where
  "black_ok succ c \<longleftrightarrow>
     (\<forall>b. c b = Black \<longrightarrow> (\<forall>s \<in> set (succ b). c s = Black) \<and> (b, b) \<notin> (edges succ)\<^sup>+)"

lemma black_reach:
  "black_ok succ c \<Longrightarrow> c b = Black \<Longrightarrow> (b, x) \<in> (edges succ)\<^sup>* \<Longrightarrow> c x = Black"
  by (erule rtrancl_induct) (auto simp: black_ok_def edges_def)

lemma black_ok_finish:
  assumes "black_ok succ c" and "c v = Gray" and "\<forall>s \<in> set (succ v). c s = Black"
  shows "black_ok succ (c(v := Black))"
proof -
  have "(v, v) \<notin> (edges succ)\<^sup>+"
  proof
    assume "(v, v) \<in> (edges succ)\<^sup>+"
    then obtain s where s: "(v, s) \<in> edges succ" "(s, v) \<in> (edges succ)\<^sup>*" by (metis tranclD)
    then have "c s = Black" using assms(3) by (simp add: edges_def)
    from black_reach [OF assms(1) this s(2)] assms(2) show False by simp
  qed
  with assms show ?thesis by (auto simp: black_ok_def)
qed

lemma dfs_black_ok:
  "dfs n succ path v c = Some (Inr c') \<Longrightarrow> c v = White \<Longrightarrow> black_ok succ c \<Longrightarrow> black_ok succ c'"
  "dfs_list n succ path ts c = Some (Inr c') \<Longrightarrow> black_ok succ c \<Longrightarrow> black_ok succ c'"
proof (induction n succ path v c and n succ path ts c arbitrary: c' and c' rule: dfs_dfs_list.induct)
  case (2 n succ path v c)
  then obtain d where d: "dfs_list n succ (path @ [v]) (succ v) (c(v := Gray)) = Some (Inr d)"
    and c': "c' = d(v := Black)"
    by (auto split: option.splits sum.splits)
  have "black_ok succ (c(v := Gray))" using "2.prems" by (auto simp: black_ok_def)
  with "2.IH" [OF d] have ok: "black_ok succ d" by blast
  from dfs_darker(2) [OF d] have "d v = Gray" "\<forall>t \<in> set (succ v). d t = Black"
    by (auto simp: darker_def)
  with ok show ?case unfolding c' by (rule black_ok_finish)
next
  case (4 n succ path t ts c)
  show ?case
  proof (cases "c t")
    case White
    with "4.prems" obtain d where d: "dfs n succ path t c = Some (Inr d)"
      and rest: "dfs_list n succ path ts d = Some (Inr c')"
      by (auto split: option.splits sum.splits)
    from "4.IH"(1) [OF White d White] "4.IH"(2) [OF White d _ rest] "4.prems" show ?thesis by blast
  qed (use 4 in auto)
qed auto

section \<open>The outer loop\<close>

lemma dfs_all_enough:
  assumes "finite V" and "\<And>u. u \<in> V \<Longrightarrow> set (succ u) \<subseteq> V" and "set vs \<subseteq> V" and "whites V c \<le> n"
  shows "dfs_all n succ vs c \<noteq> None"
  using assms(3,4)
proof (induction vs arbitrary: c)
  case (Cons v vs)
  show ?case
  proof (cases "c v = White")
    case True
    have some: "dfs n succ [] v c \<noteq> None"
      by (rule dfs_enough(1) [OF assms(1,2)]) (use Cons.prems True in auto)
    have "dfs_all n succ vs d \<noteq> None" if d: "dfs n succ [] v c = Some (Inr d)" for d
    proof (rule Cons.IH)
      show "whites V d \<le> n"
        using dfs_darker(1) [OF d True] whites_mono [OF assms(1), of c d] Cons.prems by linarith
    qed (use Cons.prems in auto)
    with some True show ?thesis by (auto split: sum.splits)
  qed (use Cons in auto)
qed simp

lemma dfs_all_cycle:
  "dfs_all n succ vs c = Some (Inl cyc) \<Longrightarrow> \<forall>u. c u \<noteq> Gray \<Longrightarrow> is_cycle succ cyc"
proof (induction vs arbitrary: c)
  case (Cons v vs)
  show ?case
  proof (cases "c v = White")
    case True
    then consider "dfs n succ [] v c = Some (Inl cyc)"
      | d where "dfs n succ [] v c = Some (Inr d)" "dfs_all n succ vs d = Some (Inl cyc)"
      using Cons.prems(1) by (auto split: option.splits sum.splits)
    then show ?thesis
    proof cases
      case 1
      show ?thesis by (rule dfs_cycle(1) [OF 1]) (use True Cons.prems(2) in auto)
    next
      case (2 d)
      then show ?thesis using dfs_darker(1) [OF 2(1) True] Cons unfolding darker_def by blast
    qed
  qed (use Cons in auto)
qed simp

lemma dfs_all_ok:
  "dfs_all n succ vs c = Some (Inr c') \<Longrightarrow> black_ok succ c \<Longrightarrow> \<forall>u. c u \<noteq> Gray \<Longrightarrow>
    black_ok succ c' \<and> darker c c' \<and> (\<forall>v \<in> set vs. c' v = Black)"
proof (induction vs arbitrary: c)
  case (Cons v vs)
  show ?case
  proof (cases "c v = White")
    case True
    with Cons.prems obtain d where d: "dfs n succ [] v c = Some (Inr d)"
      and rest: "dfs_all n succ vs d = Some (Inr c')"
      by (auto split: option.splits sum.splits)
    note dd = dfs_darker(1) [OF d True] and ok = dfs_black_ok(1) [OF d True Cons.prems(2)]
    have "\<forall>u. d u \<noteq> Gray" using dd Cons.prems(3) by (auto simp: darker_def)
    from Cons.IH [OF rest ok this] dd show ?thesis
      using darker_trans [of c d c'] darker_black [of d c' v] by simp
  next
    case False
    then have black: "c v = Black" using Cons.prems(3) by (cases "c v") auto
    from False Cons.prems(1) have "dfs_all n succ vs c = Some (Inr c')" by simp
    from Cons.IH [OF this Cons.prems(2,3)] show ?thesis
      using darker_black [of c c' v] black by simp
  qed
qed simp

theorem dfs_all_decides:
  assumes "finite V" and "\<And>u. u \<in> V \<Longrightarrow> set (succ u) \<subseteq> V" and "\<And>u. u \<notin> set vs \<Longrightarrow> succ u = []"
    and "set vs \<subseteq> V" and "card V \<le> n"
  shows "(\<exists>cyc. dfs_all n succ vs (\<lambda>_. White) = Some (Inl cyc) \<and> is_cycle succ cyc) \<and> \<not> acyclic (edges succ) \<or>
    (\<exists>c. dfs_all n succ vs (\<lambda>_. White) = Some (Inr c)) \<and> acyclic (edges succ)"
proof -
  have "whites V (\<lambda>_. White) \<le> n" using assms(5) by (simp add: whites_def)
  from dfs_all_enough [where succ = succ, OF assms(1) assms(2) assms(4) this]
  obtain r where r: "dfs_all n succ vs (\<lambda>_. White) = Some r" by auto
  consider cyc where "dfs_all n succ vs (\<lambda>_. White) = Some (Inl cyc)"
    | c where "dfs_all n succ vs (\<lambda>_. White) = Some (Inr c)"
    using r by (cases r) auto
  then show ?thesis
  proof cases
    case (1 cyc)
    with dfs_all_cycle [OF 1] is_cycle_cyclic [of succ cyc] show ?thesis by auto
  next
    case (2 c)
    have "black_ok succ (\<lambda>_. White)" by (simp add: black_ok_def)
    from dfs_all_ok [OF 2 this] have ok: "black_ok succ c" and black: "\<forall>v \<in> set vs. c v = Black" by auto
    have "acyclic (edges succ)"
      unfolding acyclic_def
    proof
      fix x
      show "(x, x) \<notin> (edges succ)\<^sup>+"
      proof (cases "x \<in> set vs")
        case True
        then show ?thesis using ok black by (auto simp: black_ok_def)
      next
        case False
        then have "succ x = []" by (rule assms(3))
        then show ?thesis by (auto simp: edges_def dest!: tranclD)
      qed
    qed
    with 2 show ?thesis by blast
  qed
qed

end
