(* ===== verification/Normalize.thy ===== *)
theory Normalize
  imports Intent_Model Input_Glob Dfs
begin

text \<open>
  \<open>internal/normalize/intent.go\<close>: an intent is validated and brought into canonical form.
  Nil maps and slices are already empty lists here, so the code that replaces nil by empty is
  the identity. The glob library's \<open>ValidatePattern\<close> is the parameter \<open>vp\<close>.
\<close>

datatype normalize_error =
    ReservedEnvKey string string
  | ComponentUnnamed
  | ComponentDuplicate string
  | ComponentUntyped string
  | BadWatch string string
  | BadInputGlob string nat glob_error
  | BadInclude string nat string
  | BadEdgeMode string nat string
  | BadEdgeRuleMode string nat nat string
  | PromotionNoEnvironment string
  | PromotionSelf string
  | PromotionUnknown string string
  | PromotionCycle "string list"
  | NormalizeFuel \<comment> \<open>never returned: see \<open>detectPromotionCycles_decides\<close>\<close>

definition reserved_key :: "string \<Rightarrow> bool" where
  "reserved_key k \<longleftrightarrow> has_prefix (to_upper k) ''ORUN_''"

definition validateEnvKeys :: "'v gmap \<Rightarrow> string \<Rightarrow> normalize_error option" where
  "validateEnvKeys env ctx =
     checkR (\<lambda>k. if reserved_key k then Some (ReservedEnvKey ctx k) else None) (gm_keys env)"

definition isValidWatchSection :: "string \<Rightarrow> bool" where
  "isValidWatchSection s \<longleftrightarrow> s \<in> set ValidWatchSections"

definition contains :: "string list \<Rightarrow> string \<Rightarrow> bool" where
  "contains slice item \<longleftrightarrow> item \<in> set slice"

definition matchesWildcard :: "string \<Rightarrow> string \<Rightarrow> bool" where
  "matchesWildcard pattern name =
     (if pattern = ''*'' then True
      else if has_suffix pattern ''*'' then has_prefix name (trim_suffix pattern ''*'')
      else pattern = name)"

section \<open>Components\<close>

definition or_default :: "string \<Rightarrow> string \<Rightarrow> string" where
  "or_default d s = (if s = [] then d else s)"

definition default_dependency :: "dependency \<Rightarrow> dependency" where
  "default_dependency d = d\<lparr>d_environment := or_default ''__same__'' (d_environment d),
     d_scope := or_default ''same-environment'' (d_scope d),
     d_condition := or_default ''success'' (d_condition d),
     d_include := or_default IncludeIfSelected (d_include d)\<rparr>"

definition edge_rule_check :: "string \<Rightarrow> nat \<Rightarrow> nat \<times> rule_decl \<Rightarrow> normalize_error option" where
  "edge_rule_check cname i = (\<lambda>(j, r).
     if ru_choice r = [] \<or> \<not> IsValidDependencyMode (ru_choice r)
     then Some (BadEdgeRuleMode cname i j (ru_choice r)) else None)"

definition normalize_dependency :: "string \<Rightarrow> nat \<times> dependency \<Rightarrow> normalize_error + dependency" where
  "normalize_dependency cname = (\<lambda>(i, d).
     let d' = default_dependency d in
     if \<not> IsValidInclude (d_include d') then Inl (BadInclude cname i (d_include d'))
     else if \<not> IsValidDependencyMode (d_mode d') then Inl (BadEdgeMode cname i (d_mode d'))
     else guardR (checkR (edge_rule_check cname i) (indexed (d_mode_rules d'))) (Inr d'))"

definition check_component :: "(string \<Rightarrow> bool) \<Rightarrow> component \<Rightarrow> normalize_error option" where
  "check_component vp c =
     (case validateEnvKeys (c_env c) (''component '' @ c_name c @ '' root env'') of
        Some e \<Rightarrow> Some e
      | None \<Rightarrow>
     (case checkR (\<lambda>w. if isValidWatchSection w then None else Some (BadWatch (c_name c) w))
             (ch_watches (c_change c)) of
        Some e \<Rightarrow> Some e
      | None \<Rightarrow>
     (case glob_ValidateAll vp (ch_inputs (c_change c)) of
        Some (i, e) \<Rightarrow> Some (BadInputGlob (c_name c) i e)
      | None \<Rightarrow>
          checkR (\<lambda>s. validateEnvKeys (su_env s)
                   (''component '' @ c_name c @ '' subscription '' @ su_name s @ '' env''))
            (c_subscribe c))))"

definition normalize_component ::
    "(string \<Rightarrow> bool) \<Rightarrow> component \<Rightarrow> component gmap \<Rightarrow> normalize_error + component gmap" where
  "normalize_component vp c seen =
     (if c_name c = [] then Inl ComponentUnnamed
      else if gm_has seen (c_name c) then Inl (ComponentDuplicate (c_name c))
      else if c_type c = [] then Inl (ComponentUntyped (c_name c))
      else
        let c1 = (if \<not> c_enabled c \<and> c_enabled c \<noteq> True then c\<lparr>c_enabled := True\<rparr> else c)
        in guardR (check_component vp c1)
             (bindR (mapR (normalize_dependency (c_name c1)) (indexed (c_depends_on c1)))
               (\<lambda>deps. Inr (gm_set (c_name c1) (c1\<lparr>c_depends_on := deps\<rparr>) seen))))"

section \<open>Environments\<close>

definition normalize_promotion ::
    "string list \<Rightarrow> string \<Rightarrow> promotion_dependency \<Rightarrow> normalize_error + promotion_dependency" where
  "normalize_promotion envNames envName d =
     (if pd_environment d = [] then Inl (PromotionNoEnvironment envName)
      else if pd_environment d = envName then Inl (PromotionSelf envName)
      else if pd_environment d \<notin> set envNames then Inl (PromotionUnknown envName (pd_environment d))
      else Inr (d\<lparr>pd_strategy := or_default ''same-component'' (pd_strategy d),
                  pd_condition := or_default ''success'' (pd_condition d),
                  pd_satisfy := or_default ''same-plan-or-previous-success'' (pd_satisfy d),
                  pd_match := or_default ''source'' (pd_match d)\<rparr>))"

definition expand_wildcard :: "string list \<Rightarrow> environment_selectors \<Rightarrow> environment_selectors" where
  "expand_wildcard componentNames sel =
     (if contains (es_components sel) ''*'' then sel\<lparr>es_components := sort componentNames\<rparr> else sel)"

definition normalize_environment :: "string list \<Rightarrow> string list \<Rightarrow> string \<times> environment \<Rightarrow>
    normalize_error + string \<times> environment" where
  "normalize_environment envNames componentNames = (\<lambda>(envName, env).
     guardR (validateEnvKeys (env_env env) (''environment '' @ envName @ '' env''))
       (bindR (mapR (normalize_promotion envNames envName) (env_promotion env)) (\<lambda>deps.
         Inr (envName, env\<lparr>env_promotion := deps,
           env_selectors := expand_wildcard componentNames (env_selectors env)\<rparr>))))"

definition promotion_targets :: "environment gmap \<Rightarrow> string \<Rightarrow> string list" where
  \<comment> \<open>\<open>environments[name].Promotion.DependsOn\<close>, empty for an unknown name\<close>
  "promotion_targets envs n =
     (case gm_get envs n of None \<Rightarrow> [] | Some e \<Rightarrow> map pd_environment (env_promotion e))"

definition promotion_nodes :: "environment gmap \<Rightarrow> string list" where
  "promotion_nodes envs =
     gm_keys envs @ concat (map (\<lambda>(_, e). map pd_environment (env_promotion e)) envs)"

definition detectPromotionCycles :: "environment gmap \<Rightarrow> normalize_error option" where
  "detectPromotionCycles envs =
     (case dfs_all (length (promotion_nodes envs)) (promotion_targets envs) (gm_keys envs) (\<lambda>_. White) of
        None \<Rightarrow> Some NormalizeFuel
      | Some (Inl cyc) \<Rightarrow> Some (PromotionCycle cyc)
      | Some (Inr _) \<Rightarrow> None)"

section \<open>Intents\<close>

definition NormalizeIntent :: "(string \<Rightarrow> bool) \<Rightarrow> intent \<Rightarrow> normalize_error + normalized_intent" where
  "NormalizeIntent vp i =
     guardR (validateEnvKeys (in_env i) ''intent root env'')
     (bindR (foldR (normalize_component vp) (in_components i) []) (\<lambda>comps.
      bindR (mapR (normalize_environment (gm_keys (in_environments i)) (gm_keys comps))
              (in_environments i)) (\<lambda>envs.
      guardR (detectPromotionCycles envs)
        (Inr \<lparr>ni_metadata = in_metadata i, ni_groups = in_groups i, ni_environments = envs,
              ni_components = comps, ni_component_index = comps, ni_env = in_env i,
              ni_secret_env = in_secret_env i\<rparr>))))"

section \<open>Inversion\<close>

lemma validateEnvKeys_None: "validateEnvKeys env ctx = None \<longleftrightarrow> (\<forall>k \<in> set (gm_keys env). \<not> reserved_key k)"
  by (auto simp: validateEnvKeys_def)

lemma normalize_dependency_Inr: "normalize_dependency cname (i, d) = Inr d' \<longleftrightarrow>
    d' = default_dependency d \<and> IsValidInclude (d_include d') \<and> IsValidDependencyMode (d_mode d) \<and>
    (\<forall>r \<in> set (d_mode_rules d). ru_choice r \<noteq> [] \<and> IsValidDependencyMode (ru_choice r))"
proof -
  have rules: "checkR (edge_rule_check cname i) (index_from n rs) = None \<longleftrightarrow>
      (\<forall>r \<in> set rs. ru_choice r \<noteq> [] \<and> IsValidDependencyMode (ru_choice r))" for n rs
    by (induction rs arbitrary: n) (auto simp: edge_rule_check_def)
  show ?thesis
    by (auto simp: normalize_dependency_def Let_def guardR_Inr_iff rules default_dependency_def
        simp del: checkR_None_iff)
qed

lemma mapR_dependencies:
  "mapR (normalize_dependency cname) (index_from n ds) = Inr ds' \<longleftrightarrow>
    ds' = map default_dependency ds \<and>
    (\<forall>d \<in> set ds. IsValidInclude (d_include (default_dependency d)) \<and> IsValidDependencyMode (d_mode d) \<and>
       (\<forall>r \<in> set (d_mode_rules d). ru_choice r \<noteq> [] \<and> IsValidDependencyMode (ru_choice r)))"
  by (induction ds arbitrary: n ds') (auto simp: bindR_Inr_iff normalize_dependency_Inr)

definition canonical_component :: "component \<Rightarrow> component" where
  "canonical_component c =
     c\<lparr>c_enabled := True, c_depends_on := map default_dependency (c_depends_on c)\<rparr>"

definition component_valid :: "(string \<Rightarrow> bool) \<Rightarrow> component \<Rightarrow> bool" where
  "component_valid vp c \<longleftrightarrow> c_name c \<noteq> [] \<and> c_type c \<noteq> [] \<and> check_component vp c = None \<and>
     (\<forall>d \<in> set (c_depends_on c). IsValidInclude (d_include (default_dependency d)) \<and>
        IsValidDependencyMode (d_mode d) \<and>
        (\<forall>r \<in> set (d_mode_rules d). ru_choice r \<noteq> [] \<and> IsValidDependencyMode (ru_choice r)))"

lemma check_component_enabled [simp]: "check_component vp (c\<lparr>c_enabled := b\<rparr>) = check_component vp c"
proof -
  have "c_name (c\<lparr>c_enabled := b\<rparr>) = c_name c" "c_env (c\<lparr>c_enabled := b\<rparr>) = c_env c"
    "c_change (c\<lparr>c_enabled := b\<rparr>) = c_change c" "c_subscribe (c\<lparr>c_enabled := b\<rparr>) = c_subscribe c"
    by simp_all
  then show ?thesis unfolding check_component_def by (simp only:)
qed

lemma normalize_component_Inr: "normalize_component vp c seen = Inr seen' \<longleftrightarrow>
    component_valid vp c \<and> \<not> gm_has seen (c_name c) \<and>
    seen' = gm_set (c_name c) (canonical_component c) seen"
proof -
  have en: "(if \<not> c_enabled c \<and> c_enabled c \<noteq> True then c\<lparr>c_enabled := True\<rparr> else c) = c\<lparr>c_enabled := True\<rparr>"
    by (cases c) auto
  show ?thesis
    unfolding normalize_component_def en Let_def
    by (auto simp: guardR_Inr_iff bindR_Inr_iff mapR_dependencies component_valid_def
        canonical_component_def)
qed

lemma update_new: "k \<notin> set (gm_keys m) \<Longrightarrow> gm_set k v m = m @ [(k, v)]"
  by (induction m) auto

lemma fold_components_Inr: "foldR (normalize_component vp) cs seen = Inr seen' \<longleftrightarrow>
    (\<forall>c \<in> set cs. component_valid vp c) \<and> distinct (map c_name cs) \<and>
    set (map c_name cs) \<inter> set (gm_keys seen) = {} \<and>
    seen' = seen @ map (\<lambda>c. (c_name c, canonical_component c)) cs"
proof (induction cs arbitrary: seen)
  case (Cons c cs)
  have "foldR (normalize_component vp) (c # cs) seen = Inr seen' \<longleftrightarrow>
      component_valid vp c \<and> c_name c \<notin> set (gm_keys seen) \<and>
      foldR (normalize_component vp) cs (gm_set (c_name c) (canonical_component c) seen) = Inr seen'"
    by (auto simp: bindR_Inr_iff normalize_component_Inr gm_has_iff)
  also have "\<dots> \<longleftrightarrow> component_valid vp c \<and> c_name c \<notin> set (gm_keys seen) \<and>
      foldR (normalize_component vp) cs (seen @ [(c_name c, canonical_component c)]) = Inr seen'"
    by (auto simp: update_new)
  finally show ?case unfolding Cons.IH by auto
qed auto

lemma normalize_environment_Inr: "normalize_environment ens cns (n, e) = Inr r \<longleftrightarrow>
    (\<forall>k \<in> set (gm_keys (env_env e)). \<not> reserved_key k) \<and>
    (\<exists>ds. mapR (normalize_promotion ens n) (env_promotion e) = Inr ds \<and>
       r = (n, e\<lparr>env_promotion := ds, env_selectors := expand_wildcard cns (env_selectors e)\<rparr>))"
  by (auto simp: normalize_environment_def guardR_Inr_iff bindR_Inr_iff validateEnvKeys_None)

lemma normalize_promotions_targets:
  "mapR (normalize_promotion ens n) ps = Inr qs \<Longrightarrow>
    map pd_environment qs = map pd_environment ps \<and> (\<forall>q \<in> set qs. pd_environment q \<in> set ens \<and> pd_environment q \<noteq> n)"
  by (induction ps arbitrary: qs) (auto simp: bindR_Inr_iff normalize_promotion_def split: if_splits)

lemma NormalizeIntent_Inr: "NormalizeIntent vp i = Inr ni \<longleftrightarrow>
    (\<forall>k \<in> set (gm_keys (in_env i)). \<not> reserved_key k) \<and>
    (\<forall>c \<in> set (in_components i). component_valid vp c) \<and> distinct (map c_name (in_components i)) \<and>
    (\<exists>envs. mapR (normalize_environment (gm_keys (in_environments i)) (map c_name (in_components i)))
         (in_environments i) = Inr envs \<and> detectPromotionCycles envs = None \<and>
       ni = \<lparr>ni_metadata = in_metadata i, ni_groups = in_groups i, ni_environments = envs,
          ni_components = map (\<lambda>c. (c_name c, canonical_component c)) (in_components i),
          ni_component_index = map (\<lambda>c. (c_name c, canonical_component c)) (in_components i),
          ni_env = in_env i, ni_secret_env = in_secret_env i\<rparr>)"
  by (auto simp: NormalizeIntent_def guardR_Inr_iff bindR_Inr_iff validateEnvKeys_None
      fold_components_Inr comp_def)

section \<open>Properties\<close>

lemma normalize_component_alt: "normalize_component vp c seen =
    (if c_name c = [] then Inl ComponentUnnamed
     else if gm_has seen (c_name c) then Inl (ComponentDuplicate (c_name c))
     else if c_type c = [] then Inl (ComponentUntyped (c_name c))
     else guardR (check_component vp c)
       (bindR (mapR (normalize_dependency (c_name c)) (indexed (c_depends_on c)))
          (\<lambda>deps. Inr (gm_set (c_name c) (c\<lparr>c_enabled := True, c_depends_on := deps\<rparr>) seen))))"
proof -
  have en: "(if \<not> c_enabled c \<and> c_enabled c \<noteq> True then c\<lparr>c_enabled := True\<rparr> else c) = c\<lparr>c_enabled := True\<rparr>"
    by (cases c) auto
  show ?thesis unfolding normalize_component_def Let_def en by simp
qed

lemma or_default_nonempty [simp]: "d \<noteq> [] \<Longrightarrow> or_default d s \<noteq> []"
  by (simp add: or_default_def)

lemma promotion_targets_nodes: "set (promotion_targets envs u) \<subseteq> set (promotion_nodes envs)"
proof (cases "gm_get envs u")
  case (Some e)
  then have "(u, e) \<in> set envs" by (rule map_of_SomeD)
  with Some show ?thesis by (force simp: promotion_targets_def promotion_nodes_def)
qed (simp add: promotion_targets_def)

lemma detectPromotionCycles_edges:
  "(detectPromotionCycles envs = None \<longleftrightarrow> acyclic (edges (promotion_targets envs))) \<and>
   (detectPromotionCycles envs = None \<or>
     (\<exists>cyc. detectPromotionCycles envs = Some (PromotionCycle cyc) \<and>
        is_cycle (promotion_targets envs) cyc))"
proof -
  have "promotion_targets envs u = []" if "u \<notin> set (gm_keys envs)" for u
    using that by (simp add: promotion_targets_def map_of_eq_None_iff [THEN iffD2])
  then have d: "(\<exists>cyc. dfs_all (length (promotion_nodes envs)) (promotion_targets envs) (gm_keys envs) (\<lambda>_. White) =
          Some (Inl cyc) \<and> is_cycle (promotion_targets envs) cyc) \<and> \<not> acyclic (edges (promotion_targets envs)) \<or>
      (\<exists>c. dfs_all (length (promotion_nodes envs)) (promotion_targets envs) (gm_keys envs) (\<lambda>_. White) =
          Some (Inr c)) \<and> acyclic (edges (promotion_targets envs))"
  proof (intro dfs_all_decides [where V = "set (promotion_nodes envs)"])
    show "set (gm_keys envs) \<subseteq> set (promotion_nodes envs)" by (auto simp: promotion_nodes_def)
  qed (use promotion_targets_nodes card_length in auto)
  then show ?thesis by (auto simp: detectPromotionCycles_def)
qed

text \<open>C23 (functional). Promotion-cycle detection is exact, for every order in which the environments
  are visited: it reports no error if and only if the promotion relation between environments is
  acyclic, the error it reports is a real cycle (a path of promotion edges that comes back to a
  node on it), and the search always ends.\<close>

theorem detectPromotionCycles_decides:
  "(detectPromotionCycles envs = None \<longleftrightarrow> acyclic (edges (promotion_targets envs))) \<and>
   (detectPromotionCycles envs = None \<or>
     (\<exists>cyc. detectPromotionCycles envs = Some (PromotionCycle cyc) \<and>
        is_cycle (promotion_targets envs) cyc))"
  by (rule detectPromotionCycles_edges)

text \<open>The normalized components are exactly the intent's, keyed by their names, which
  are distinct and not empty; every one has a type, is enabled, and each of its dependencies has an
  environment, scope and condition, a recognised include policy and valid modes.\<close>

theorem normalized_components_canonical:
  assumes "NormalizeIntent vp i = Inr ni"
  shows "gm_keys (ni_components ni) = map c_name (in_components i) \<and> gm_ok (ni_components ni) \<and>
    ni_component_index ni = ni_components ni \<and>
    (\<forall>(n, c) \<in> set (ni_components ni). c_name c = n \<and> c_name c \<noteq> [] \<and> c_type c \<noteq> [] \<and> c_enabled c \<and>
      (\<forall>d \<in> set (c_depends_on c). d_environment d \<noteq> [] \<and> d_scope d \<noteq> [] \<and> d_condition d \<noteq> [] \<and>
         IsValidInclude (d_include d) \<and> IsValidDependencyMode (d_mode d) \<and>
         (\<forall>r \<in> set (d_mode_rules d). ru_choice r \<noteq> [] \<and> IsValidDependencyMode (ru_choice r))))"
  using assms unfolding NormalizeIntent_Inr
  by (auto simp: gm_ok_def comp_def canonical_component_def component_valid_def
      default_dependency_def)

theorem normalized_components_canonical_witness:
  "let i = zero_intent\<lparr>in_components := [zero_component\<lparr>c_name := ''api'', c_type := ''helm'',
         c_depends_on := [zero_dependency\<lparr>d_component := ''db''\<rparr>]\<rparr>]\<rparr>
   in \<exists>ni. NormalizeIntent (\<lambda>_. True) i = Inr ni \<and> gm_keys (ni_components ni) = [''api'']"
proof -
  let ?i = "zero_intent\<lparr>in_components := [zero_component\<lparr>c_name := ''api'', c_type := ''helm'',
         c_depends_on := [zero_dependency\<lparr>d_component := ''db''\<rparr>]\<rparr>]\<rparr>"
  have "\<not> isl (NormalizeIntent (\<lambda>_. True) ?i)" by code_simp
  then obtain ni where "NormalizeIntent (\<lambda>_. True) ?i = Inr ni"
    by (cases "NormalizeIntent (\<lambda>_. True) ?i") auto
  with normalized_components_canonical [OF this] show ?thesis by (simp add: zero_component_def)
qed

text \<open>The \<open>enabled\<close> flag an author writes has no effect: whatever the flags of the
  components are, the normalized intent (or the error) is the same.\<close>

theorem enabled_flag_ignored:
  "NormalizeIntent vp (i\<lparr>in_components := map (\<lambda>c. c\<lparr>c_enabled := flag (c_name c)\<rparr>) (in_components i)\<rparr>) =
   NormalizeIntent vp i"
proof -
  have step: "normalize_component vp (c\<lparr>c_enabled := b\<rparr>) seen = normalize_component vp c seen" for c b seen
    unfolding normalize_component_alt by simp
  have "foldR (normalize_component vp) (map (\<lambda>c. c\<lparr>c_enabled := flag (c_name c)\<rparr>) cs) seen =
      foldR (normalize_component vp) cs seen" for cs seen
  proof (induction cs arbitrary: seen)
    case (Cons c cs)
    show ?case unfolding list.map foldR.simps step by (intro bindR_cong refl Cons.IH)
  qed simp
  then show ?thesis by (simp add: NormalizeIntent_def)
qed

text \<open>No reserved environment key survives normalization: whenever an intent is accepted,
  no root, component, subscription or environment \<open>env\<close> map has a key that starts with
  \<open>ORUN_\<close> in any mix of upper and lower case.\<close>

theorem reserved_env_keys_rejected:
  assumes "NormalizeIntent vp i = Inr ni"
  shows "(\<forall>k \<in> set (gm_keys (ni_env ni)). \<not> has_prefix (to_upper k) ''ORUN_'') \<and>
    (\<forall>(n, c) \<in> set (ni_components ni).
      (\<forall>k \<in> set (gm_keys (c_env c)). \<not> has_prefix (to_upper k) ''ORUN_'') \<and>
      (\<forall>s \<in> set (c_subscribe c). \<forall>k \<in> set (gm_keys (su_env s)). \<not> has_prefix (to_upper k) ''ORUN_'')) \<and>
    (\<forall>(n, e) \<in> set (ni_environments ni). \<forall>k \<in> set (gm_keys (env_env e)).
       \<not> has_prefix (to_upper k) ''ORUN_'')"
proof -
  from assms obtain envs where root: "\<forall>k \<in> set (gm_keys (in_env i)). \<not> reserved_key k"
    and comps: "\<forall>c \<in> set (in_components i). component_valid vp c"
    and envs: "mapR (normalize_environment (gm_keys (in_environments i)) (map c_name (in_components i)))
         (in_environments i) = Inr envs"
    and ni: "ni_environments ni = envs" "ni_env ni = in_env i"
      "ni_components ni = map (\<lambda>c. (c_name c, canonical_component c)) (in_components i)"
    unfolding NormalizeIntent_Inr by auto
  have check: "(\<forall>k \<in> set (gm_keys (c_env c)). \<not> reserved_key k) \<and>
      (\<forall>s \<in> set (c_subscribe c). \<forall>k \<in> set (gm_keys (su_env s)). \<not> reserved_key k)"
    if "check_component vp c = None" for c
    using that by (auto simp: check_component_def validateEnvKeys_None split: option.splits prod.splits)
  have "list_all2 (\<lambda>x y. normalize_environment (gm_keys (in_environments i))
      (map c_name (in_components i)) x = Inr y) (in_environments i) envs"
    using envs by (simp add: mapR_Inr_iff)
  then have "\<forall>(n, e) \<in> set envs. \<forall>k \<in> set (gm_keys (env_env e)). \<not> reserved_key k"
    by (induction rule: list_all2_induct) (force simp: normalize_environment_Inr)+
  moreover have "(\<forall>k \<in> set (gm_keys (c_env c)). \<not> reserved_key k) \<and>
      (\<forall>s \<in> set (c_subscribe c). \<forall>k \<in> set (gm_keys (su_env s)). \<not> reserved_key k)"
    if "c \<in> set (in_components i)" for c
    using comps check that unfolding component_valid_def by blast
  ultimately show ?thesis
    using root unfolding ni reserved_key_def [symmetric] by (simp add: canonical_component_def)
qed

theorem reserved_env_keys_rejected_witness:
  "let i = zero_intent\<lparr>in_env := [(''LOG_LEVEL'', ''info'')]\<rparr>
   in \<exists>ni. NormalizeIntent (\<lambda>_. True) i = Inr ni \<and>
        (\<forall>k \<in> set (gm_keys (ni_env ni)). \<not> has_prefix (to_upper k) ''ORUN_'') \<and>
        isl (NormalizeIntent (\<lambda>_. True) (i\<lparr>in_env := [(''Orun_Mode'', ''x'')]\<rparr>))"
proof -
  let ?i = "zero_intent\<lparr>in_env := [(''LOG_LEVEL'', ''info'')]\<rparr>"
  have "\<not> isl (NormalizeIntent (\<lambda>_. True) ?i)"
    and bad: "isl (NormalizeIntent (\<lambda>_. True) (?i\<lparr>in_env := [(''Orun_Mode'', ''x'')]\<rparr>))" by code_simp+
  then obtain ni where "NormalizeIntent (\<lambda>_. True) ?i = Inr ni"
    by (cases "NormalizeIntent (\<lambda>_. True) ?i") auto
  with reserved_env_keys_rejected [OF this] bad show ?thesis unfolding Let_def by blast
qed

text \<open>The normalized environments keep their names and order; each promotion
  dependency names another existing environment and has every field filled, the promotion relation
  is acyclic, and a selector that contained the wildcard lists every component name, sorted.\<close>

theorem normalized_environments_canonical:
  assumes "NormalizeIntent vp i = Inr ni"
  shows "gm_keys (ni_environments ni) = gm_keys (in_environments i) \<and>
    acyclic (edges (promotion_targets (ni_environments ni))) \<and>
    (\<forall>(n, e) \<in> set (ni_environments ni).
      (\<forall>p \<in> set (env_promotion e). pd_environment p \<noteq> n \<and>
         pd_environment p \<in> set (gm_keys (ni_environments ni)) \<and>
         pd_strategy p \<noteq> [] \<and> pd_condition p \<noteq> [] \<and> pd_satisfy p \<noteq> [] \<and> pd_match p \<noteq> []) \<and>
      (''*'' \<in> set (es_components (env_selectors e)) \<longrightarrow>
         es_components (env_selectors e) = sort (gm_keys (ni_components ni))))"
proof -
  let ?ens = "gm_keys (in_environments i)" and ?cns = "map c_name (in_components i)"
  from assms obtain envs where
    envs: "mapR (normalize_environment ?ens ?cns) (in_environments i) = Inr envs"
    and det: "detectPromotionCycles envs = None"
    and ni: "ni_environments ni = envs" "gm_keys (ni_components ni) = ?cns"
    unfolding NormalizeIntent_Inr by (auto simp: comp_def)
  have sub: "normalize_environment ens cns (n, e) = Inr (n', e') \<Longrightarrow> n' = n \<and>
      (\<forall>p \<in> set (env_promotion e'). pd_environment p \<noteq> n \<and> pd_environment p \<in> set ens \<and>
         pd_strategy p \<noteq> [] \<and> pd_condition p \<noteq> [] \<and> pd_satisfy p \<noteq> [] \<and> pd_match p \<noteq> []) \<and>
      (''*'' \<in> set (es_components (env_selectors e')) \<longrightarrow> es_components (env_selectors e') = sort cns)"
    for ens cns n e n' e'
  proof -
    assume "normalize_environment ens cns (n, e) = Inr (n', e')"
    then obtain ds where ds: "mapR (normalize_promotion ens n) (env_promotion e) = Inr ds"
      and e': "n' = n" "env_promotion e' = ds"
        "env_selectors e' = expand_wildcard cns (env_selectors e)"
      by (auto simp: normalize_environment_Inr)
    have "list_all2 (\<lambda>x y. normalize_promotion ens n x = Inr y) (env_promotion e) ds"
      using ds by (simp add: mapR_Inr_iff)
    then have "\<forall>p \<in> set ds. pd_environment p \<noteq> n \<and> pd_environment p \<in> set ens \<and>
         pd_strategy p \<noteq> [] \<and> pd_condition p \<noteq> [] \<and> pd_satisfy p \<noteq> [] \<and> pd_match p \<noteq> []"
      by (induction rule: list_all2_induct)
        (auto simp: normalize_promotion_def or_default_def split: if_splits)
    with e' show ?thesis by (auto simp: expand_wildcard_def contains_def)
  qed
  have all2: "list_all2 (\<lambda>x y. normalize_environment ?ens ?cns x = Inr y) (in_environments i) envs"
    using envs by (simp add: mapR_Inr_iff)
  then have "list_all2 (\<lambda>x y. fst y = fst x) (in_environments i) envs"
    by (rule list_all2_mono) (use sub in \<open>auto\<close>)
  then have keys: "gm_keys envs = ?ens"
    by (induction rule: list_all2_induct) auto
  have all: "case y of (n, e) \<Rightarrow>
      (\<forall>p \<in> set (env_promotion e). pd_environment p \<noteq> n \<and> pd_environment p \<in> set ?ens \<and>
         pd_strategy p \<noteq> [] \<and> pd_condition p \<noteq> [] \<and> pd_satisfy p \<noteq> [] \<and> pd_match p \<noteq> []) \<and>
      (''*'' \<in> set (es_components (env_selectors e)) \<longrightarrow> es_components (env_selectors e) = sort ?cns)"
    if "y \<in> set envs" for y
  proof -
    from mapR_mem [OF envs that] obtain x where "normalize_environment ?ens ?cns x = Inr y" by blast
    with sub [of ?ens ?cns "fst x" "snd x" "fst y" "snd y"] show ?thesis
      by (simp add: case_prod_beta)
  qed
  have acyc: "acyclic (edges (promotion_targets envs))"
    using det detectPromotionCycles_edges by blast
  show ?thesis unfolding ni keys using acyc all by blast
qed

theorem normalized_environments_canonical_witness:
  "let i = zero_intent\<lparr>in_components := [zero_component\<lparr>c_name := ''web'', c_type := ''helm''\<rparr>,
           zero_component\<lparr>c_name := ''api'', c_type := ''helm''\<rparr>],
         in_environments := [(''prod'', zero_environment\<lparr>env_promotion := [zero_promotion\<lparr>pd_environment := ''dev''\<rparr>],
              env_selectors := \<lparr>es_components = [''*''], es_domains = []\<rparr>\<rparr>), (''dev'', zero_environment)]\<rparr>
   in \<exists>ni. NormalizeIntent (\<lambda>_. True) i = Inr ni \<and> gm_keys (ni_environments ni) = [''prod'', ''dev''] \<and>
        acyclic (edges (promotion_targets (ni_environments ni)))"
proof -
  let ?i = "zero_intent\<lparr>in_components := [zero_component\<lparr>c_name := ''web'', c_type := ''helm''\<rparr>,
           zero_component\<lparr>c_name := ''api'', c_type := ''helm''\<rparr>],
         in_environments := [(''prod'', zero_environment\<lparr>env_promotion := [zero_promotion\<lparr>pd_environment := ''dev''\<rparr>],
              env_selectors := \<lparr>es_components = [''*''], es_domains = []\<rparr>\<rparr>), (''dev'', zero_environment)]\<rparr>"
  have "\<not> isl (NormalizeIntent (\<lambda>_. True) ?i)" by code_simp
  then obtain ni where "NormalizeIntent (\<lambda>_. True) ?i = Inr ni"
    by (cases "NormalizeIntent (\<lambda>_. True) ?i") auto
  with normalized_environments_canonical [OF this] show ?thesis unfolding Let_def by simp
qed

end
