(* ===== verification/Expand.thy ===== *)
theory Expand
  imports Normalize Registry Scope_Ref
begin

text \<open>
  \<open>internal/expand/expander.go\<close>: the environment \<open>\<times>\<close> component expansion. Each applicable pair
  becomes a component instance with merged parameters, environment, secret references and
  policies, its execution profile and its dependency mode. An unset \<open>registry\<close> is \<open>None\<close>.
\<close>

record expander =
  ex_normalized :: normalized_intent
  ex_groups :: "group_decl gmap"
  ex_registry :: "registry option"
  ex_matched_triggers :: "string list"

datatype expand_error =
    ProfileFailed string string profile_error
  | ModeFailed string string mode_error
  | SecretMalformed string string string parse_error
  | SecretShadowed string string string
  | OptionalMalformed string string string parse_error
  | OptionalShadowed string string string
  | OptionalDuplicate string string string

definition NewExpander :: "normalized_intent \<Rightarrow> expander" where
  "NewExpander ni = \<lparr>ex_normalized = ni, ex_groups = ni_groups ni, ex_registry = None,
     ex_matched_triggers = []\<rparr>"

section \<open>Which components apply\<close>

definition matchesPattern :: "string \<Rightarrow> string \<Rightarrow> bool" where
  "matchesPattern pattern val =
     (if pattern = ''*'' then True
      else if has_suffix pattern ''*'' then has_prefix val (trim_suffix pattern ''*'')
      else pattern = val)"

definition matchesAny :: "string list \<Rightarrow> string \<Rightarrow> bool" where
  "matchesAny patterns val \<longleftrightarrow> list_ex (\<lambda>p. matchesPattern p val) patterns"

definition componentMatchesEnvironment :: "component \<Rightarrow> string \<Rightarrow> environment \<Rightarrow> bool" where
  "componentMatchesEnvironment c envName env =
     (let envNames = EnvironmentNames (c_subscribe c) in
      (if envNames \<noteq> [] then matchesAny envNames envName
       else matchesAny (es_components (env_selectors env)) (c_name c)) \<and>
      (es_domains (env_selectors env) = [] \<or>
       matchesAny (es_domains (env_selectors env)) (c_domain c)))"

definition getApplicableComponents :: "expander \<Rightarrow> string \<Rightarrow> environment \<Rightarrow> string list" where
  "getApplicableComponents ex envName env =
     filter (\<lambda>n. case gm_get (ni_component_index (ex_normalized ex)) n of
                   Some c \<Rightarrow> componentMatchesEnvironment c envName env | None \<Rightarrow> False)
       (sort (gm_keys (ni_component_index (ex_normalized ex))))"

section \<open>Interpolation\<close>

fun close_braces :: "string \<Rightarrow> string option" where
  \<comment> \<open>what follows the first \<open>}}\<close> of the line\<close>
  "close_braces [] = None"
| "close_braces (c # s) =
     (if has_prefix (c # s) ''}}'' then Some (tl s)
      else if c = CHR 0x0A then None
      else close_braces s)"

lemma close_braces_length: "close_braces s = Some r \<Longrightarrow> length r < length s"
  by (induction s arbitrary: r) (auto split: if_splits)

function (sequential) strip_braces :: "string \<Rightarrow> string" where
  \<comment> \<open>\<open>regexp.MustCompile(`{{.*?}}`).ReplaceAllString(s, "")\<close>\<close>
  "strip_braces [] = []"
| "strip_braces (c # s) =
     (if has_prefix (c # s) ''{{'' then
        (case close_braces (tl s) of
           Some r \<Rightarrow> strip_braces r
         | None \<Rightarrow> c # strip_braces s)
      else c # strip_braces s)"
  by pat_completeness auto
termination
  by (relation "measure length") (auto dest!: close_braces_length)

definition interpolateString :: "string \<Rightarrow> string \<Rightarrow> string \<Rightarrow> string \<Rightarrow> string" where
  "interpolateString s envName groupName compName =
     trim_space (strip_braces
       (replace_all ''{{ .component }}'' compName
       (replace_all ''{{.component}}'' compName
       (replace_all ''{{ .group }}'' groupName
       (replace_all ''{{.group}}'' groupName
       (replace_all ''{{ .environment }}'' envName
       (replace_all ''{{.environment}}'' envName s)))))))"

definition interpolate_value :: "string \<Rightarrow> string \<Rightarrow> string \<Rightarrow> yval \<Rightarrow> yval" where
  "interpolate_value envName groupName compName v =
     (case v of YStr s \<Rightarrow> YStr (interpolateString s envName groupName compName) | _ \<Rightarrow> v)"

definition interpolateProperties :: "yval gmap \<Rightarrow> string \<Rightarrow> string \<Rightarrow> string \<Rightarrow> yval gmap" where
  "interpolateProperties props envName groupName compName =
     map (\<lambda>(k, v). (k, interpolate_value envName groupName compName v)) props"

section \<open>Merging\<close>

definition merge_default :: "string \<times> yval \<Rightarrow> yval gmap \<times> string \<Rightarrow> yval gmap \<times> string" where
  "merge_default = (\<lambda>(k, v) (merged, path).
     if k = ''path'' then (merged, case str_val v of Some s \<Rightarrow> s | None \<Rightarrow> path)
     else (gm_set k v merged, path))"

definition merge_defaults :: "yval gmap gmap \<Rightarrow> string \<Rightarrow> yval gmap \<times> string \<Rightarrow> yval gmap \<times> string" where
  "merge_defaults defaults key st =
     (case gm_get defaults key of Some m \<Rightarrow> fold merge_default m st | None \<Rightarrow> st)"

definition group_of :: "expander \<Rightarrow> component \<Rightarrow> group_decl option" where
  "group_of ex c = (if c_domain c \<noteq> [] then gm_get (ex_groups ex) (c_domain c) else None)"

definition mergeProperties ::
    "expander \<Rightarrow> component \<Rightarrow> environment \<Rightarrow> string \<Rightarrow> string \<Rightarrow> yval gmap" where
  "mergeProperties ex c env envName compName =
     (let (m1, envPath) = merge_defaults (env_parameter_defaults env) (c_type c)
            (merge_defaults (env_parameter_defaults env) ''*'' ([], []));
          (m2, groupPath) = (case group_of ex c of
              Some g \<Rightarrow> merge_defaults (grp_parameter_defaults g) (c_type c)
                          (merge_defaults (grp_parameter_defaults g) ''*'' (m1, []))
            | None \<Rightarrow> (m1, []));
          m3 = gm_copy (c_parameters c) m2;
          m4 = (case FindSubscription (c_subscribe c) envName of
                  Some s \<Rightarrow> gm_copy (su_parameters s) m3 | None \<Rightarrow> m3);
          m5 = (if c_path c \<noteq> [] then gm_set ''path'' (YStr (c_path c)) m4
                else if groupPath \<noteq> [] then gm_set ''path'' (YStr groupPath) m4
                else if envPath \<noteq> [] then gm_set ''path'' (YStr envPath) m4
                else m4)
      in interpolateProperties m5 envName (c_domain c) compName)"

definition interpolate_env :: "string \<Rightarrow> component \<Rightarrow> string gmap \<Rightarrow> string gmap" where
  "interpolate_env envName c = map (\<lambda>(k, v). (k, interpolateString v envName (c_domain c) (c_name c)))"

definition layered :: "string gmap \<Rightarrow> string gmap \<Rightarrow> string gmap \<Rightarrow> string gmap option \<Rightarrow> string gmap" where
  \<comment> \<open>the four layers of \<open>mergeEnv\<close> and \<open>mergeSecretEnv\<close>, lowest first\<close>
  "layered intentLayer envLayer compLayer subLayer =
     (let m = gm_copy compLayer (gm_copy envLayer (gm_copy intentLayer []))
      in case subLayer of Some s \<Rightarrow> gm_copy s m | None \<Rightarrow> m)"

definition mergeEnv :: "expander \<Rightarrow> component \<Rightarrow> environment \<Rightarrow> string \<Rightarrow> string gmap" where
  "mergeEnv ex c env envName =
     interpolate_env envName c
       (layered (ni_env (ex_normalized ex)) (env_env env) (c_env c)
          (map_option su_env (FindSubscription (c_subscribe c) envName)))"

fun check_secret :: "component \<Rightarrow> string \<Rightarrow> string gmap \<Rightarrow> string \<times> string \<Rightarrow>
    expand_error + string \<times> string" where
  "check_secret c envName plainEnv (k, v) =
     (let interpolated = interpolateString v envName (c_domain c) (c_name c)
     in case secret_Parse interpolated of
          Inl e \<Rightarrow> Inl (SecretMalformed (c_name c) envName k e)
        | Inr _ \<Rightarrow>
            if gm_has plainEnv k then Inl (SecretShadowed (c_name c) envName k)
            else Inr (k, interpolated))"

definition mergeSecretEnv ::
    "expander \<Rightarrow> component \<Rightarrow> environment \<Rightarrow> string \<Rightarrow> expand_error + string gmap" where
  "mergeSecretEnv ex c env envName =
     (let merged = layered (ni_secret_env (ex_normalized ex)) (env_secret_env env) (c_secret_env c)
            (map_option su_secret_env (FindSubscription (c_subscribe c) envName))
      in if merged = [] then Inr []
         else mapR (check_secret c envName (mergeEnv ex c env envName)) merged)"

fun check_optional :: "component \<Rightarrow> string \<Rightarrow> string gmap \<Rightarrow> string gmap \<Rightarrow> string \<times> string \<Rightarrow>
    expand_error + string \<times> string" where
  "check_optional c envName plainEnv hard (k, v) =
     (let interpolated = interpolateString v envName (c_domain c) (c_name c)
     in case secret_Parse interpolated of
          Inl e \<Rightarrow> Inl (OptionalMalformed (c_name c) envName k e)
        | Inr _ \<Rightarrow>
            if gm_has plainEnv k then Inl (OptionalShadowed (c_name c) envName k)
            else if gm_has hard k then Inl (OptionalDuplicate (c_name c) envName k)
            else Inr (k, interpolated))"

declare check_secret.simps [simp del] check_optional.simps [simp del]

definition mergeOptionalSecretEnv :: "expander \<Rightarrow> component \<Rightarrow> environment \<Rightarrow> string \<Rightarrow>
    string gmap \<Rightarrow> expand_error + string gmap" where
  "mergeOptionalSecretEnv ex c env envName hard =
     (if c_optional_secret_env c = [] then Inr []
      else mapR (check_optional c envName (mergeEnv ex c env envName) hard) (c_optional_secret_env c))"

definition resolvePolicies :: "expander \<Rightarrow> component \<Rightarrow> string \<Rightarrow> yval gmap" where
  "resolvePolicies ex c envName =
     (let p1 = (case group_of ex c of Some g \<Rightarrow> gm_copy (grp_policies g) [] | None \<Rightarrow> [])
      in case gm_get (ni_environments (ex_normalized ex)) envName of
           Some env \<Rightarrow> gm_copy (env_policies env) p1 | None \<Rightarrow> p1)"

section \<open>Instances\<close>

definition resolve_dependency :: "expander \<Rightarrow> component \<Rightarrow> string \<Rightarrow> dependency \<Rightarrow>
    expand_error + resolved_dependency" where
  "resolve_dependency ex c envName d =
     (case ResolveEdgeDependencyMode d (ex_matched_triggers ex) of
        Inl e \<Rightarrow> Inl (ModeFailed (c_name c) envName e)
      | Inr m \<Rightarrow> Inr \<lparr>rd_component = d_component d,
          rd_environment = (if d_environment d = ''__same__'' then envName else d_environment d),
          rd_scope = d_scope d, rd_condition = d_condition d, rd_include = d_include d,
          rd_reason = d_reason d, rd_mode = dm_mode m, rd_mode_source = dm_source m,
          rd_mode_rule_trigger_ref = dm_rule_trigger_ref m\<rparr>)"

definition expand_resolveDependencies ::
    "expander \<Rightarrow> component \<Rightarrow> string \<Rightarrow> expand_error + resolved_dependency list" where
  "expand_resolveDependencies ex c envName =
     mapR (resolve_dependency ex c envName) (c_depends_on c)"

definition composition_for :: "registry \<Rightarrow> component \<Rightarrow> composition option" where
  "composition_for reg c =
     (case gm_get (rg_by_key reg)
             (if c_resolved_composition c = [] then c_type c else c_resolved_composition c) of
        Some k \<Rightarrow> Some k
      | None \<Rightarrow> gm_get (rg_types reg) (c_type c))"

definition resolveProfile :: "expander \<Rightarrow> component \<Rightarrow> string \<Rightarrow> component_instance \<Rightarrow>
    expand_error + component_instance" where
  "resolveProfile ex c envName inst =
     (case ex_registry ex of
        None \<Rightarrow> Inr inst
      | Some reg \<Rightarrow>
          (case composition_for reg c of
             None \<Rightarrow> Inr inst
           | Some k \<Rightarrow>
               (case ResolveProfileWithRules (c_type c) k (FindSubscription (c_subscribe c) envName)
                       (ex_matched_triggers ex) of
                  Inl e \<Rightarrow> Inl (ProfileFailed (c_name c) envName e)
                | Inr (p, rule) \<Rightarrow>
                    Inr (inst\<lparr>ci_profile_ref := rp_ref p, ci_profile_name := rp_name p,
                      ci_profile_source := rp_source p,
                      ci_profile_rule_trigger_ref :=
                        (case rule of Some r \<Rightarrow> mp_trigger_ref r
                         | None \<Rightarrow> ci_profile_rule_trigger_ref inst)\<rparr>))))"

definition expand_resolveDependencyMode :: "expander \<Rightarrow> component \<Rightarrow> environment \<Rightarrow> string \<Rightarrow>
    component_instance \<Rightarrow> expand_error + component_instance" where
  "expand_resolveDependencyMode ex c env envName inst =
     (case ResolveDependencyMode env (FindSubscription (c_subscribe c) envName) (ex_matched_triggers ex) of
        Inl e \<Rightarrow> Inl (ModeFailed (c_name c) envName e)
      | Inr m \<Rightarrow> Inr (inst\<lparr>ci_dependency_mode := dm_mode m, ci_dependency_source := dm_source m,
          ci_dependency_rule_trigger_ref := dm_rule_trigger_ref m\<rparr>))"

definition take_path :: "yval gmap \<Rightarrow> component_instance \<Rightarrow> component_instance" where
  \<comment> \<open>the path leaves the parameters when it is a string\<close>
  "take_path merged inst =
     (case gm_get merged ''path'' of
        Some v \<Rightarrow>
          (case str_val v of
             Some p \<Rightarrow> inst\<lparr>ci_path := p, ci_parameters := gm_del ''path'' merged\<rparr>
           | None \<Rightarrow> inst\<lparr>ci_parameters := merged\<rparr>)
      | None \<Rightarrow> inst\<lparr>ci_path := ''./'', ci_parameters := merged\<rparr>)"

definition new_instance :: "string \<Rightarrow> component \<Rightarrow> string \<Rightarrow> component_instance" where
  "new_instance compName c envName = zero_instance\<lparr>ci_component := compName,
     ci_environment := envName, ci_type := c_type c,
     ci_resolved_composition := c_resolved_composition c,
     ci_resolved_composition_source := c_resolved_composition_source c, ci_domain := c_domain c,
     ci_labels := c_labels c, ci_step_overrides := c_overrides c, ci_source_path := c_source_path c,
     ci_enabled := c_enabled c\<rparr>"

definition expand_component :: "expander \<Rightarrow> string \<Rightarrow> environment \<Rightarrow> string \<Rightarrow> component \<Rightarrow>
    expand_error + component_instance" where
  "expand_component ex envName env compName c =
     bindR (resolveProfile ex c envName (new_instance compName c envName)) (\<lambda>i1.
     bindR (expand_resolveDependencyMode ex c env envName i1) (\<lambda>i2.
     bindR (mergeSecretEnv ex c env envName) (\<lambda>secretEnv.
     bindR (mergeOptionalSecretEnv ex c env envName secretEnv) (\<lambda>optional.
     bindR (expand_resolveDependencies ex c envName) (\<lambda>deps.
       Inr ((take_path (mergeProperties ex c env envName compName) i2)\<lparr>
         ci_env := mergeEnv ex c env envName, ci_secret_env := secretEnv,
         ci_optional_secret_env := optional, ci_policies := resolvePolicies ex c envName,
         ci_depends_on := deps\<rparr>))))))"

definition enabled_components :: "expander \<Rightarrow> string \<Rightarrow> environment \<Rightarrow> (string \<times> component) list" where
  "enabled_components ex envName env =
     concat (map (\<lambda>n. case gm_get (ni_component_index (ex_normalized ex)) n of
         Some c \<Rightarrow> if c_enabled c then [(n, c)] else [] | None \<Rightarrow> [])
       (getApplicableComponents ex envName env))"

fun expand_entry :: "expander \<Rightarrow> string \<Rightarrow> environment \<Rightarrow> string \<times> component \<Rightarrow>
    expand_error + component_instance" where
  "expand_entry ex envName env (n, c) = expand_component ex envName env n c"

fun expand_environment :: "expander \<Rightarrow> string \<times> environment \<Rightarrow>
    expand_error + string \<times> component_instance list" where
  "expand_environment ex (envName, env) =
     bindR (mapR (expand_entry ex envName env) (enabled_components ex envName env))
       (\<lambda>instances. Inr (envName, instances))"

definition Expand :: "expander \<Rightarrow> expand_error + component_instance list gmap" where
  "Expand ex = mapR (expand_environment ex) (ni_environments (ex_normalized ex))"

definition GetComponentInstance ::
    "string \<Rightarrow> string \<Rightarrow> component_instance list gmap \<Rightarrow> component_instance option" where
  "GetComponentInstance envName compName instances =
     (case gm_get instances envName of
        Some is \<Rightarrow> List.find (\<lambda>i. ci_component i = compName) is
      | None \<Rightarrow> None)"

section \<open>Facts\<close>

lemma take_path_frame [simp]:
  "ci_component (take_path m i) = ci_component i" "ci_environment (take_path m i) = ci_environment i"
  "ci_type (take_path m i) = ci_type i" "ci_enabled (take_path m i) = ci_enabled i"
  "ci_dependency_mode (take_path m i) = ci_dependency_mode i"
  "ci_profile_name (take_path m i) = ci_profile_name i"
  by (auto simp: take_path_def split: option.split)

lemma resolveProfile_frame:
  "resolveProfile ex c e i = Inr j \<Longrightarrow> ci_component j = ci_component i \<and> ci_environment j = ci_environment i \<and>
     ci_type j = ci_type i \<and> ci_enabled j = ci_enabled i"
  by (auto simp: resolveProfile_def split: option.splits sum.splits prod.splits)

lemma resolveMode_frame:
  "expand_resolveDependencyMode ex c env e i = Inr j \<Longrightarrow> ci_component j = ci_component i \<and>
     ci_environment j = ci_environment i \<and> ci_type j = ci_type i \<and> ci_enabled j = ci_enabled i"
  by (auto simp: expand_resolveDependencyMode_def split: sum.splits)

lemma expand_component_Inr:
  assumes "expand_component ex envName env n c = Inr i"
  shows "ci_component i = n \<and> ci_environment i = envName \<and> ci_type i = c_type c \<and>
    ci_env i = mergeEnv ex c env envName \<and> mergeSecretEnv ex c env envName = Inr (ci_secret_env i) \<and>
    mergeOptionalSecretEnv ex c env envName (ci_secret_env i) = Inr (ci_optional_secret_env i) \<and>
    expand_resolveDependencies ex c envName = Inr (ci_depends_on i)"
proof -
  from assms obtain i1 i2 s opt d where
    "resolveProfile ex c envName (new_instance n c envName) = Inr i1"
    "expand_resolveDependencyMode ex c env envName i1 = Inr i2"
    "mergeSecretEnv ex c env envName = Inr s" "mergeOptionalSecretEnv ex c env envName s = Inr opt"
    "expand_resolveDependencies ex c envName = Inr d"
    "i = (take_path (mergeProperties ex c env envName n) i2)\<lparr>
         ci_env := mergeEnv ex c env envName, ci_secret_env := s,
         ci_optional_secret_env := opt, ci_policies := resolvePolicies ex c envName,
         ci_depends_on := d\<rparr>"
    by (auto simp: expand_component_def bindR_Inr_iff)
  with resolveProfile_frame resolveMode_frame show ?thesis
    by (fastforce simp: new_instance_def)
qed

lemma mapR_map: "mapR f xs = Inr ys \<Longrightarrow> (\<And>x y. x \<in> set xs \<Longrightarrow> f x = Inr y \<Longrightarrow> g y = h x) \<Longrightarrow> map g ys = map h xs"
  by (induction xs arbitrary: ys) (auto simp: bindR_Inr_iff)

lemma map_fst_interpolate [simp]:
  "map fst (interpolate_env e c m) = map fst m" "map fst (interpolateProperties p a b d) = map fst p"
  by (simp_all add: interpolate_env_def interpolateProperties_def comp_def case_prod_beta)

lemma get_map_values: "gm_get (map (\<lambda>(k, v). (k, f v)) m) k = map_option f (gm_get m k)"
  by (induction m) auto

text \<open>
  Which components belong to an environment, said without the expander's loops: a pattern is a name, or a stem and
  a star; a component is of the environments it subscribes to, or of those that select it when it subscribes to
  none; and of the selected domains where an environment selects domains.
\<close>

definition pattern_accepts :: "string \<Rightarrow> string \<Rightarrow> bool" where
  "pattern_accepts pattern v \<longleftrightarrow> pattern = v \<or> (\<exists>stem rest. pattern = stem @ ''*'' \<and> v = stem @ rest)"

definition belongs_to :: "component \<Rightarrow> string \<Rightarrow> environment \<Rightarrow> bool" where
  "belongs_to c envName env \<longleftrightarrow>
     (if c_subscribe c \<noteq> [] then \<exists>s \<in> set (c_subscribe c). pattern_accepts (su_name s) envName
      else \<exists>p \<in> set (es_components (env_selectors env)). pattern_accepts p (c_name c)) \<and>
     (es_domains (env_selectors env) \<noteq> [] \<longrightarrow>
        (\<exists>p \<in> set (es_domains (env_selectors env)). pattern_accepts p (c_domain c)))"

lemma pattern_accepts_iff: "matchesPattern p v \<longleftrightarrow> pattern_accepts p v"
proof (cases "has_suffix p ''*''")
  case True
  then obtain stem where p: "p = stem @ ''*''" by (auto simp: has_suffix_iff)
  have "matchesPattern p v \<longleftrightarrow> has_prefix v stem"
    by (auto simp: matchesPattern_def p has_suffix_iff has_prefix_iff)
  then show ?thesis by (auto simp: p pattern_accepts_def has_prefix_iff)
next
  case False
  then have "\<not> (\<exists>stem rest. p = stem @ ''*'' \<and> v = stem @ rest)" "p \<noteq> ''*''"
    by (auto simp: has_suffix_iff)
  moreover from this have "matchesPattern p v \<longleftrightarrow> p = v" using False by (simp add: matchesPattern_def)
  ultimately show ?thesis unfolding pattern_accepts_def by blast
qed

lemma belongs_to_iff: "componentMatchesEnvironment c envName env \<longleftrightarrow> belongs_to c envName env"
  by (auto simp: componentMatchesEnvironment_def belongs_to_def matchesAny_def list_ex_iff pattern_accepts_iff
      EnvironmentNames_def Let_def)

lemma enabled_components_mem:
  "(n, c) \<in> set (enabled_components ex envName env) \<longleftrightarrow>
     gm_get (ni_component_index (ex_normalized ex)) n = Some c \<and> c_enabled c \<and> belongs_to c envName env"
  using map_of_SomeD[of "ni_component_index (ex_normalized ex)" n c]
  by (auto simp: enabled_components_def getApplicableComponents_def belongs_to_iff split: option.splits if_splits
      intro!: bexI[of _ "(n, c)"])

lemma concat_map_fst:
  "(\<And>x. map fst (f x) = (if P x then [x] else [])) \<Longrightarrow> map fst (concat (map f xs)) = filter P xs"
  by (induction xs) auto

lemma enabled_components_names:
  "map fst (enabled_components ex envName env) =
     filter (\<lambda>n. \<exists>c. gm_get (ni_component_index (ex_normalized ex)) n = Some c \<and> c_enabled c)
       (getApplicableComponents ex envName env)"
  unfolding enabled_components_def by (rule concat_map_fst) (auto split: option.splits)

lemma enabled_components_sorted:
  "gm_ok (ni_component_index (ex_normalized ex)) \<Longrightarrow>
     sorted (map fst (enabled_components ex envName env)) \<and> distinct (map fst (enabled_components ex envName env))"
  unfolding enabled_components_names getApplicableComponents_def
  by (simp add: sorted_wrt_filter gm_ok_def)

text \<open>C25: Expansion yields exactly the environment \<open>\<times>\<close> component matrix of the applicable pairs: on success
  there is one entry per environment, in which the instances are, in strict name order and so once each, the
  components of the index that are enabled and belong to the environment - those with a subscription that accepts
  its name, or, without subscriptions, those its selectors accept, and in any case only those of a selected domain
  where domains are selected; each instance carries the pair it stands for and its component's type.\<close>

theorem expansion_is_the_applicable_matrix:
  assumes "Expand ex = Inr r" and "gm_ok (ni_component_index (ex_normalized ex))"
  shows "gm_keys r = gm_keys (ni_environments (ex_normalized ex)) \<and>
    (\<forall>(envName, instances) \<in> set r. \<exists>env. (envName, env) \<in> set (ni_environments (ex_normalized ex)) \<and>
       sorted (map ci_component instances) \<and> distinct (map ci_component instances) \<and>
       set (map ci_component instances) =
         {n. \<exists>c. gm_get (ni_component_index (ex_normalized ex)) n = Some c \<and> c_enabled c \<and> belongs_to c envName env} \<and>
       (\<forall>i \<in> set instances. ci_environment i = envName \<and>
          map_option c_type (gm_get (ni_component_index (ex_normalized ex)) (ci_component i)) = Some (ci_type i)))"
proof -
  have m: "mapR (expand_environment ex) (ni_environments (ex_normalized ex)) = Inr r"
    using assms(1) by (simp add: Expand_def)
  have "gm_keys r = gm_keys (ni_environments (ex_normalized ex))"
    by (rule mapR_map [OF m]) (auto simp: bindR_Inr_iff)
  moreover have "\<exists>env. (envName, env) \<in> set (ni_environments (ex_normalized ex)) \<and>
       sorted (map ci_component instances) \<and> distinct (map ci_component instances) \<and>
       set (map ci_component instances) =
         {n. \<exists>c. gm_get (ni_component_index (ex_normalized ex)) n = Some c \<and> c_enabled c \<and> belongs_to c envName env} \<and>
       (\<forall>i \<in> set instances. ci_environment i = envName \<and>
          map_option c_type (gm_get (ni_component_index (ex_normalized ex)) (ci_component i)) = Some (ci_type i))"
    if "(envName, instances) \<in> set r" for envName instances
  proof -
    from mapR_mem [OF m that] obtain env where env: "(envName, env) \<in> set (ni_environments (ex_normalized ex))"
      and insts: "mapR (expand_entry ex envName env) (enabled_components ex envName env) = Inr instances"
      by (auto simp: bindR_Inr_iff)
    have names: "map ci_component instances = map fst (enabled_components ex envName env)"
      by (rule mapR_map [OF insts]; force dest: expand_component_Inr)
    have "set (map fst (enabled_components ex envName env)) =
        {n. \<exists>c. gm_get (ni_component_index (ex_normalized ex)) n = Some c \<and> c_enabled c \<and> belongs_to c envName env}"
      by (auto simp: enabled_components_mem intro!: image_eqI[of _ fst "(_, _)"])
    moreover have "ci_environment i = envName \<and>
        map_option c_type (gm_get (ni_component_index (ex_normalized ex)) (ci_component i)) = Some (ci_type i)"
      if "i \<in> set instances" for i
    proof -
      from mapR_mem [OF insts that] obtain n c where "(n, c) \<in> set (enabled_components ex envName env)"
        "expand_component ex envName env n c = Inr i" by auto
      then show ?thesis using expand_component_Inr by (fastforce simp: enabled_components_mem)
    qed
    ultimately show ?thesis
      using env enabled_components_sorted[OF assms(2), of envName env] unfolding names by blast
  qed
  ultimately show ?thesis by blast
qed

definition ex_expander :: expander where
  \<comment> \<open>three components, one of which subscribes to one of the two environments and one of which is disabled\<close>
  "ex_expander = NewExpander \<lparr>ni_metadata = \<lparr>md_name = [], md_description = [], md_namespace = []\<rparr>,
     ni_groups = [], ni_environments = [(''dev'', zero_environment), (''prod'', zero_environment)],
     ni_components = [], ni_component_index =
       [(''web'', zero_component\<lparr>c_name := ''web'', c_type := ''helm'', c_enabled := True,
          c_subscribe := [zero_subscription\<lparr>su_name := ''prod''\<rparr>, zero_subscription\<lparr>su_name := ''dev''\<rparr>]\<rparr>),
        (''api'', zero_component\<lparr>c_name := ''api'', c_type := ''job'', c_enabled := True,
          c_subscribe := [zero_subscription\<lparr>su_name := ''pr*''\<rparr>]\<rparr>),
        (''old'', zero_component\<lparr>c_name := ''old'', c_type := ''job'',
          c_subscribe := [zero_subscription\<lparr>su_name := ''*''\<rparr>]\<rparr>)],
     ni_env = [], ni_secret_env = []\<rparr>"

theorem expansion_is_the_applicable_matrix_witness:
  "\<exists>r. Expand ex_expander = Inr r \<and> gm_keys r = [''dev'', ''prod''] \<and>
     (\<forall>(e, is) \<in> set r. \<forall>i \<in> set is. ci_environment i = e) \<and>
     map (\<lambda>(e, is). (e, map ci_component is)) r = [(''dev'', [''web'']), (''prod'', [''api'', ''web''])]"
proof -
  have "case Expand ex_expander of Inl _ \<Rightarrow> False
    | Inr r \<Rightarrow> map (\<lambda>(e, is). (e, map ci_component is)) r = [(''dev'', [''web'']), (''prod'', [''api'', ''web''])]"
    by code_simp
  then obtain r where r: "Expand ex_expander = Inr r"
    "map (\<lambda>(e, is). (e, map ci_component is)) r = [(''dev'', [''web'']), (''prod'', [''api'', ''web''])]"
    by (cases "Expand ex_expander") auto
  have "gm_ok (ni_component_index (ex_normalized ex_expander))"
    by (simp add: ex_expander_def NewExpander_def gm_ok_def)
  note m = expansion_is_the_applicable_matrix [OF r(1) this]
  have "gm_keys r = [''dev'', ''prod'']"
    using m [THEN conjunct1] by (simp add: ex_expander_def NewExpander_def)
  moreover have "\<forall>(e, is) \<in> set r. \<forall>i \<in> set is. ci_environment i = e"
  proof (rule ballI)
    fix p assume "p \<in> set r"
    with m [THEN conjunct2] show "case p of (e, is) \<Rightarrow> \<forall>i \<in> set is. ci_environment i = e"
      by (cases p) auto
  qed
  ultimately show ?thesis using r by (intro exI [of _ r] conjI)
qed

text \<open>The four layers of an environment, highest first.\<close>

lemma layered_get:
  assumes "gm_ok a" "gm_ok b" "gm_ok c" "\<And>m. s = Some m \<Longrightarrow> gm_ok m"
  shows "gm_get (layered a b c s) = gm_get a ++ gm_get b ++ gm_get c ++
    (case s of Some m \<Rightarrow> gm_get m | None \<Rightarrow> Map.empty)"
  using assms by (cases s) (simp_all add: layered_def gm_get_copy)

lemma gm_ok_layered [simp]: "gm_ok (layered a b c s)"
  by (cases s) (simp_all add: layered_def)

text \<open>The environment of an instance: a variable's value is the one of the innermost
  layer that sets it (subscription, then component, then environment, then intent root), with the
  template variables replaced; a variable no layer sets is absent.\<close>

theorem merged_env_precedence:
  assumes "gm_ok (ni_env (ex_normalized ex))" and "gm_ok (env_env env)" and "gm_ok (c_env c)"
    and "FindSubscription (c_subscribe c) envName = Some s" and "gm_ok (su_env s)"
  shows "gm_get (mergeEnv ex c env envName) k =
    map_option (\<lambda>v. interpolateString v envName (c_domain c) (c_name c))
      (case gm_get (su_env s) k of Some v \<Rightarrow> Some v | None \<Rightarrow>
       case gm_get (c_env c) k of Some v \<Rightarrow> Some v | None \<Rightarrow>
       case gm_get (env_env env) k of Some v \<Rightarrow> Some v | None \<Rightarrow> gm_get (ni_env (ex_normalized ex)) k)"
proof -
  have "gm_get (layered (ni_env (ex_normalized ex)) (env_env env) (c_env c) (Some (su_env s))) =
      gm_get (ni_env (ex_normalized ex)) ++ gm_get (env_env env) ++ gm_get (c_env c) ++ gm_get (su_env s)"
    using layered_get [of "ni_env (ex_normalized ex)" "env_env env" "c_env c" "Some (su_env s)"] assms by simp
  then show ?thesis
    unfolding mergeEnv_def interpolate_env_def get_map_values assms(4)
    by (simp add: map_add_def split: option.split)
qed

theorem merged_env_precedence_witness:
  "let ex = NewExpander \<lparr>ni_metadata = \<lparr>md_name = [], md_description = [], md_namespace = []\<rparr>,
         ni_groups = [], ni_environments = [], ni_components = [], ni_component_index = [],
         ni_env = [(''A'', ''root''), (''B'', ''root'')], ni_secret_env = []\<rparr>;
       c = zero_component\<lparr>c_subscribe := [zero_subscription\<lparr>su_name := ''dev'', su_env := [(''A'', ''{{ .environment }}-x'')]\<rparr>]\<rparr>
   in gm_get (mergeEnv ex c zero_environment ''dev'') ''A'' = Some ''dev-x'' \<and>
      gm_get (mergeEnv ex c zero_environment ''dev'') ''B'' = Some ''root''"
proof -
  let ?ex = "NewExpander \<lparr>ni_metadata = \<lparr>md_name = [], md_description = [], md_namespace = []\<rparr>,
         ni_groups = [], ni_environments = [], ni_components = [], ni_component_index = [],
         ni_env = [(''A'', ''root''), (''B'', ''root'')], ni_secret_env = []\<rparr>"
  let ?s = "zero_subscription\<lparr>su_name := ''dev'', su_env := [(''A'', ''{{ .environment }}-x'')]\<rparr>"
  let ?c = "zero_component\<lparr>c_subscribe := [?s]\<rparr>"
  have ok: "gm_ok (ni_env (ex_normalized ?ex))" "gm_ok (env_env zero_environment)" "gm_ok (c_env ?c)"
    "FindSubscription (c_subscribe ?c) ''dev'' = Some ?s" "gm_ok (su_env ?s)"
    by (simp_all add: gm_ok_def NewExpander_def zero_environment_def zero_component_def
        FindSubscription_def zero_subscription_def)
  have i: "interpolateString ''{{ .environment }}-x'' ''dev'' [] [] = ''dev-x''"
    "interpolateString ''root'' ''dev'' [] [] = ''root''" by code_simp+
  from merged_env_precedence [OF ok, of "''A''"] merged_env_precedence [OF ok, of "''B''"] i
  show ?thesis by (simp add: zero_component_def zero_subscription_def NewExpander_def zero_environment_def)
qed

lemma fold_merge_default:
  assumes "gm_ok m" and "k \<noteq> ''path''"
  shows "gm_get (fst (fold merge_default m st)) k = (gm_get (fst st) ++ gm_get m) k"
  using assms(1)
proof (induction m arbitrary: st)
  case (Cons e m)
  obtain n v where e: "e = (n, v)" by (cases e)
  from Cons.prems e have ok: "gm_ok m" and new: "gm_get m n = None"
    by (auto simp: gm_ok_def map_of_eq_None_iff)
  have "gm_get (fst (merge_default e st)) k = (if k = n then Some v else gm_get (fst st) k)"
    using e assms(2) by (cases st) (auto simp: merge_default_def gm_get_set)
  with Cons.IH [OF ok, of "merge_default e st"] e new show ?case
    by (auto simp: map_add_def split: option.split)
qed simp

definition defaults_at :: "yval gmap gmap \<Rightarrow> string \<Rightarrow> string \<Rightarrow> yval option" where
  "defaults_at d key = (case gm_get d key of Some m \<Rightarrow> gm_get m | None \<Rightarrow> Map.empty)"

definition defaults_ok :: "yval gmap gmap \<Rightarrow> bool" where
  "defaults_ok d \<longleftrightarrow> (\<forall>(k, m) \<in> set d. gm_ok m)"

lemma merge_defaults_get:
  assumes "defaults_ok d" and "k \<noteq> ''path''"
  shows "gm_get (fst (merge_defaults d key st)) k = (gm_get (fst st) ++ defaults_at d key) k"
proof (cases "gm_get d key")
  case (Some m)
  then have "gm_ok m" using assms(1) by (auto simp: defaults_ok_def dest: map_of_SomeD)
  with Some assms(2) show ?thesis by (simp add: merge_defaults_def defaults_at_def fold_merge_default)
qed (simp add: merge_defaults_def defaults_at_def)

text \<open>The parameters of an instance: apart from the path, a parameter's value is the
  one of the highest layer that sets it, from the highest: subscription parameters, component
  parameters, group defaults of the type, group defaults of every type, environment defaults of the
  type, environment defaults of every type. Whole values are taken: a map set by a higher layer
  replaces a lower one and is not merged with it. Template variables are replaced in strings.\<close>

theorem parameter_precedence:
  assumes "defaults_ok (env_parameter_defaults env)" and "group_of ex c = Some g"
    and "defaults_ok (grp_parameter_defaults g)" and "gm_ok (c_parameters c)"
    and "FindSubscription (c_subscribe c) envName = Some s" and "gm_ok (su_parameters s)"
    and "k \<noteq> ''path''"
  shows "gm_get (mergeProperties ex c env envName n) k =
    map_option (interpolate_value envName (c_domain c) n)
      ((defaults_at (env_parameter_defaults env) ''*'' ++ defaults_at (env_parameter_defaults env) (c_type c) ++
        defaults_at (grp_parameter_defaults g) ''*'' ++ defaults_at (grp_parameter_defaults g) (c_type c) ++
        gm_get (c_parameters c) ++ gm_get (su_parameters s)) k)"
proof -
  let ?E = "env_parameter_defaults env" and ?G = "grp_parameter_defaults g"
  obtain m1 p1 where m1: "merge_defaults ?E (c_type c) (merge_defaults ?E ''*'' ([], [])) = (m1, p1)" by fastforce
  obtain m2 p2 where m2: "merge_defaults ?G (c_type c) (merge_defaults ?G ''*'' (m1, [])) = (m2, p2)" by fastforce
  define m4 where "m4 = gm_copy (su_parameters s) (gm_copy (c_parameters c) m2)"
  have e1: "gm_get m1 k = (defaults_at ?E ''*'' ++ defaults_at ?E (c_type c)) k"
    using merge_defaults_get [OF assms(1,7), of "c_type c" "merge_defaults ?E ''*'' ([], [])"]
      merge_defaults_get [OF assms(1,7), of "''*''" "([], [])"] m1
    by (simp add: map_add_def split: option.splits)
  have e2: "gm_get m2 k = ((\<lambda>k. gm_get m1 k) ++ defaults_at ?G ''*'' ++ defaults_at ?G (c_type c)) k"
    using merge_defaults_get [OF assms(3,7), of "c_type c" "merge_defaults ?G ''*'' (m1, [])"]
      merge_defaults_get [OF assms(3,7), of "''*''" "(m1, [])"] m2
    by (simp add: map_add_def split: option.splits)
  have "gm_get m4 k = (gm_get m2 ++ gm_get (c_parameters c) ++ gm_get (su_parameters s)) k"
    using assms(4,6) by (simp add: m4_def gm_get_copy)
  also have "\<dots> = (defaults_at ?E ''*'' ++ defaults_at ?E (c_type c) ++ defaults_at ?G ''*'' ++
      defaults_at ?G (c_type c) ++ gm_get (c_parameters c) ++ gm_get (su_parameters s)) k"
    using e1 e2 by (simp add: map_add_def split: option.split)
  finally have m4: "gm_get m4 k = \<dots>" .
  have "gm_get (mergeProperties ex c env envName n) k =
      map_option (interpolate_value envName (c_domain c) n) (gm_get m4 k)"
    unfolding mergeProperties_def m1 Let_def prod.case assms(2) option.case m2 assms(5) m4_def [symmetric]
    using assms(7) by (simp add: interpolateProperties_def get_map_values gm_get_set)
  with m4 show ?thesis by simp
qed

theorem parameter_precedence_witness:
  "let g = \<lparr>grp_path = [], grp_policies = [], grp_parameter_defaults = [(''*'', [(''region'', YStr ''eu'')])]\<rparr>;
      ex = (NewExpander \<lparr>ni_metadata = \<lparr>md_name = [], md_description = [], md_namespace = []\<rparr>,
         ni_groups = [(''core'', g)], ni_environments = [], ni_components = [], ni_component_index = [],
         ni_env = [], ni_secret_env = []\<rparr>);
      env = zero_environment\<lparr>env_parameter_defaults := [(''helm'', [(''region'', YStr ''us'')])]\<rparr>;
      c = zero_component\<lparr>c_type := ''helm'', c_domain := ''core'', c_subscribe := [zero_subscription\<lparr>su_name := ''dev''\<rparr>]\<rparr>
   in gm_get (mergeProperties ex c env ''dev'' ''api'') ''region'' = Some (YStr ''eu'')"
proof -
  let ?g = "\<lparr>grp_path = [], grp_policies = [], grp_parameter_defaults = [(''*'', [(''region'', YStr ''eu'')])]\<rparr>"
  let ?ex = "(NewExpander \<lparr>ni_metadata = \<lparr>md_name = [], md_description = [], md_namespace = []\<rparr>,
         ni_groups = [(''core'', ?g)], ni_environments = [], ni_components = [], ni_component_index = [],
         ni_env = [], ni_secret_env = []\<rparr>)"
  let ?env = "zero_environment\<lparr>env_parameter_defaults := [(''helm'', [(''region'', YStr ''us'')])]\<rparr>"
  let ?s = "zero_subscription\<lparr>su_name := ''dev''\<rparr>"
  let ?c = "zero_component\<lparr>c_type := ''helm'', c_domain := ''core'', c_subscribe := [?s]\<rparr>"
  have ok: "defaults_ok (env_parameter_defaults ?env)" "group_of ?ex ?c = Some ?g"
    "defaults_ok (grp_parameter_defaults ?g)" "gm_ok (c_parameters ?c)"
    "FindSubscription (c_subscribe ?c) ''dev'' = Some ?s" "gm_ok (su_parameters ?s)" "''region'' \<noteq> ''path''"
    by (simp_all add: gm_ok_def NewExpander_def defaults_ok_def group_of_def zero_component_def
        FindSubscription_def zero_subscription_def)
  have i: "interpolateString ''eu'' ''dev'' ''core'' ''api'' = ''eu''" by code_simp
  from parameter_precedence [OF ok, of "''api''"] i show ?thesis
    by (simp add: zero_component_def zero_subscription_def NewExpander_def zero_environment_def
        defaults_at_def interpolate_value_def map_add_def)
qed

lemma keys_disjoint: "(\<And>k v. (k, v) \<in> set m \<Longrightarrow> k \<notin> A) \<Longrightarrow> A \<inter> set (gm_keys m) = {}"
  by force

lemma check_secret_Inr: "check_secret c e plain (k, v) = Inr x \<longleftrightarrow>
    (\<exists>ref. secret_Parse (interpolateString v e (c_domain c) (c_name c)) = Inr ref) \<and>
    \<not> gm_has plain k \<and> x = (k, interpolateString v e (c_domain c) (c_name c))"
  by (auto simp: check_secret.simps Let_def split: sum.splits)

lemma check_optional_Inr: "check_optional c e plain hard (k, v) = Inr x \<longleftrightarrow>
    (\<exists>ref. secret_Parse (interpolateString v e (c_domain c) (c_name c)) = Inr ref) \<and>
    \<not> gm_has plain k \<and> \<not> gm_has hard k \<and> x = (k, interpolateString v e (c_domain c) (c_name c))"
  by (auto simp: check_optional.simps Let_def split: sum.splits)

lemma mergeSecretEnv_mem:
  assumes "mergeSecretEnv ex c env e = Inr m" and "(k, v) \<in> set m"
  shows "(\<exists>ref. secret_Parse v = Inr ref) \<and> \<not> gm_has (mergeEnv ex c env e) k"
proof -
  from assms have "mapR (check_secret c e (mergeEnv ex c env e)) (layered (ni_secret_env (ex_normalized ex))
      (env_secret_env env) (c_secret_env c) (map_option su_secret_env (FindSubscription (c_subscribe c) e))) = Inr m"
    by (auto simp: mergeSecretEnv_def Let_def split: if_splits)
  from mapR_mem [OF this assms(2)] show ?thesis by (auto simp: check_secret_Inr)
qed

lemma mergeOptionalSecretEnv_mem:
  assumes "mergeOptionalSecretEnv ex c env e hard = Inr m" and "(k, v) \<in> set m"
  shows "(\<exists>ref. secret_Parse v = Inr ref) \<and> \<not> gm_has (mergeEnv ex c env e) k \<and> \<not> gm_has hard k"
proof -
  from assms have "mapR (check_optional c e (mergeEnv ex c env e) hard) (c_optional_secret_env c) = Inr m"
    by (auto simp: mergeOptionalSecretEnv_def split: if_splits)
  from mapR_mem [OF this assms(2)] show ?thesis by (auto simp: check_optional_Inr)
qed

lemma Expand_instance:
  assumes "Expand ex = Inr r" and "(e, insts) \<in> set r" and "i \<in> set insts"
  shows "\<exists>env n c. (e, env) \<in> set (ni_environments (ex_normalized ex)) \<and>
    (n, c) \<in> set (enabled_components ex e env) \<and> expand_component ex e env n c = Inr i"
proof -
  have "mapR (expand_environment ex) (ni_environments (ex_normalized ex)) = Inr r"
    using assms(1) by (simp add: Expand_def)
  from mapR_mem [OF this assms(2)] obtain env where env: "(e, env) \<in> set (ni_environments (ex_normalized ex))"
    and insts: "mapR (expand_entry ex e env) (enabled_components ex e env) = Inr insts"
    by (auto simp: bindR_Inr_iff)
  from mapR_mem [OF insts assms(3)] obtain p where
    p: "p \<in> set (enabled_components ex e env)" "expand_entry ex e env p = Inr i" by blast
  obtain n c where "p = (n, c)" by (cases p)
  with p env show ?thesis by (metis expand_entry.simps)
qed

text \<open>C22 (safety). The leak guard: in every instance that expansion produces, each value of the secret
  and optional-secret environments parses as a \<open>secret://\<close> reference, so no literal gets through,
  and no variable is at once plain and secret, or secret and optional.\<close>

theorem instance_secrets_are_references:
  assumes "Expand ex = Inr r" and "(envName, instances) \<in> set r" and "i \<in> set instances"
  shows "(\<forall>(k, v) \<in> set (ci_secret_env i) \<union> set (ci_optional_secret_env i).
      \<exists>ref. secret_Parse v = Inr ref \<and> r_scheme ref = SchemeSecret) \<and>
    set (gm_keys (ci_env i)) \<inter> set (gm_keys (ci_secret_env i)) = {} \<and>
    set (gm_keys (ci_env i)) \<inter> set (gm_keys (ci_optional_secret_env i)) = {} \<and>
    set (gm_keys (ci_secret_env i)) \<inter> set (gm_keys (ci_optional_secret_env i)) = {}"
proof -
  from Expand_instance [OF assms] obtain env n c where "expand_component ex envName env n c = Inr i" by blast
  note x = expand_component_Inr [OF this]
  have s: "(\<exists>ref. secret_Parse v = Inr ref) \<and> k \<notin> set (gm_keys (ci_env i))"
    if "(k, v) \<in> set (ci_secret_env i)" for k v
    using mergeSecretEnv_mem [OF _ that] x unfolding gm_has_iff by metis
  have opt: "(\<exists>ref. secret_Parse v = Inr ref) \<and> k \<notin> set (gm_keys (ci_env i)) \<and>
      k \<notin> set (gm_keys (ci_secret_env i))"
    if "(k, v) \<in> set (ci_optional_secret_env i)" for k v
    using mergeOptionalSecretEnv_mem [OF _ that] x unfolding gm_has_iff by metis
  have "\<exists>ref. secret_Parse v = Inr ref \<and> r_scheme ref = SchemeSecret"
    if "(k, v) \<in> set (ci_secret_env i) \<union> set (ci_optional_secret_env i)" for k v
    using that s opt secret_Parse_Inr by blast
  moreover have "set (gm_keys (ci_env i)) \<inter> set (gm_keys (ci_secret_env i)) = {}"
    by (rule keys_disjoint) (use s in blast)
  moreover have "set (gm_keys (ci_env i)) \<inter> set (gm_keys (ci_optional_secret_env i)) = {}"
    by (rule keys_disjoint) (use opt in blast)
  moreover have "set (gm_keys (ci_secret_env i)) \<inter> set (gm_keys (ci_optional_secret_env i)) = {}"
    by (rule keys_disjoint) (use opt in blast)
  ultimately show ?thesis by blast
qed

theorem instance_secrets_are_references_witness:
  "let c = zero_component\<lparr>c_name := ''api'', c_type := ''helm'', c_enabled := True,
         c_subscribe := [zero_subscription\<lparr>su_name := ''dev''\<rparr>],
         c_secret_env := [(''TOKEN'', ''secret://acme/shop/{{ .environment }}/TOKEN'')]\<rparr>;
      ex = NewExpander \<lparr>ni_metadata = \<lparr>md_name = [], md_description = [], md_namespace = []\<rparr>,
         ni_groups = [], ni_environments = [(''dev'', zero_environment)], ni_components = [(''api'', c)],
         ni_component_index = [(''api'', c)], ni_env = [], ni_secret_env = []\<rparr>
   in \<exists>i. Expand ex = Inr [(''dev'', [i])] \<and>
        ci_secret_env i = [(''TOKEN'', ''secret://acme/shop/dev/TOKEN'')] \<and>
        (\<exists>ref. secret_Parse ''secret://acme/shop/dev/TOKEN'' = Inr ref \<and> r_scheme ref = SchemeSecret)"
proof -
  define c where "c = zero_component\<lparr>c_name := ''api'', c_type := ''helm'', c_enabled := True,
         c_subscribe := [zero_subscription\<lparr>su_name := ''dev''\<rparr>],
         c_secret_env := [(''TOKEN'', ''secret://acme/shop/{{ .environment }}/TOKEN'')]\<rparr>"
  define ex where "ex = NewExpander \<lparr>ni_metadata = \<lparr>md_name = [], md_description = [], md_namespace = []\<rparr>,
         ni_groups = [], ni_environments = [(''dev'', zero_environment)], ni_components = [(''api'', c)],
         ni_component_index = [(''api'', c)], ni_env = [], ni_secret_env = []\<rparr>"
  have "(case Expand ex of Inl _ \<Rightarrow> False
      | Inr r \<Rightarrow> map (\<lambda>(e, is). (e, map ci_secret_env is)) r =
          [(''dev'', [[(''TOKEN'', ''secret://acme/shop/dev/TOKEN'')]])])"
    unfolding ex_def c_def by code_simp
  then obtain i where i: "Expand ex = Inr [(''dev'', [i])]"
    "ci_secret_env i = [(''TOKEN'', ''secret://acme/shop/dev/TOKEN'')]"
    by (cases "Expand ex") (auto simp: map_eq_Cons_conv)
  from instance_secrets_are_references [OF i(1), of "''dev''" "[i]" i] i show ?thesis
    unfolding c_def [symmetric] Let_def ex_def [symmetric] by auto
qed

text \<open>A component may subscribe to environments by a pattern such as \<open>prod*\<close>: the
  pattern decides that it is expanded into the matching environments, but its settings are looked up
  by the exact name, so in an environment it matches only as a pattern the subscription's own
  variables, secrets, parameters, profile and dependency mode have no effect.\<close>

theorem wildcard_subscription_settings_dropped:
  assumes "c_subscribe c = [s]" and "su_name s = p @ ''*''" and "su_name s \<noteq> p @ x"
    and "es_domains (env_selectors env) = []"
  shows "componentMatchesEnvironment c (p @ x) env \<and>
    FindSubscription (c_subscribe c) (p @ x) = None \<and>
    mergeEnv ex c env (p @ x) = mergeEnv ex (c\<lparr>c_subscribe := []\<rparr>) env (p @ x) \<and>
    mergeSecretEnv ex c env (p @ x) = mergeSecretEnv ex (c\<lparr>c_subscribe := []\<rparr>) env (p @ x) \<and>
    mergeProperties ex c env (p @ x) n = mergeProperties ex (c\<lparr>c_subscribe := []\<rparr>) env (p @ x) n \<and>
    resolveProfile ex c (p @ x) i = resolveProfile ex (c\<lparr>c_subscribe := []\<rparr>) (p @ x) i"
proof -
  have none: "FindSubscription (c_subscribe c) (p @ x) = None" "FindSubscription [] (p @ x) = None"
    using assms(1,3) by (simp_all add: FindSubscription_def)
  have "matchesPattern (p @ ''*'') (p @ x)"
    by (simp add: matchesPattern_def has_suffix_iff)
  then have app: "componentMatchesEnvironment c (p @ x) env"
    using assms by (simp add: componentMatchesEnvironment_def EnvironmentNames_def matchesAny_def)
  have env: "mergeEnv ex c env (p @ x) = mergeEnv ex (c\<lparr>c_subscribe := []\<rparr>) env (p @ x)"
    by (simp add: mergeEnv_def none interpolate_env_def)
  have "check_secret (c\<lparr>c_subscribe := []\<rparr>) = check_secret c"
    by (auto simp: fun_eq_iff check_secret.simps Let_def split: sum.split)
  with env none have sec: "mergeSecretEnv ex c env (p @ x) = mergeSecretEnv ex (c\<lparr>c_subscribe := []\<rparr>) env (p @ x)"
    by (simp add: mergeSecretEnv_def Let_def)
  have props: "mergeProperties ex c env (p @ x) n = mergeProperties ex (c\<lparr>c_subscribe := []\<rparr>) env (p @ x) n"
    by (simp add: mergeProperties_def none group_of_def Let_def cong: option.case_cong if_cong)
  have "composition_for reg (c\<lparr>c_subscribe := []\<rparr>) = composition_for reg c" for reg
    by (simp add: composition_for_def cong: option.case_cong)
  then have "resolveProfile ex c (p @ x) i = resolveProfile ex (c\<lparr>c_subscribe := []\<rparr>) (p @ x) i"
    by (simp add: resolveProfile_def none cong: option.case_cong sum.case_cong)
  with none app env sec props show ?thesis by blast
qed

theorem wildcard_subscription_settings_dropped_witness:
  "let s = zero_subscription\<lparr>su_name := ''prod*'', su_env := [(''LOG'', ''debug'')]\<rparr>;
      c = zero_component\<lparr>c_name := ''api'', c_subscribe := [s]\<rparr>
   in componentMatchesEnvironment c ''prod-eu'' zero_environment \<and>
      FindSubscription (c_subscribe c) ''prod-eu'' = None"
proof -
  let ?c = "zero_component\<lparr>c_name := ''api'', c_subscribe := [zero_subscription\<lparr>su_name := ''prod*'', su_env := [(''LOG'', ''debug'')]\<rparr>]\<rparr>"
  have "componentMatchesEnvironment ?c (''prod'' @ ''-eu'') zero_environment \<and>
      FindSubscription (c_subscribe ?c) (''prod'' @ ''-eu'') = None"
    using wildcard_subscription_settings_dropped [of ?c "zero_subscription\<lparr>su_name := ''prod*'', su_env := [(''LOG'', ''debug'')]\<rparr>" "''prod''" "''-eu''" zero_environment]
    by (simp add: zero_component_def zero_subscription_def zero_environment_def)
  then show ?thesis by simp
qed

end
