(* ===== verification/Dep_Resolver.thy ===== *)
theory Dep_Resolver
  imports Intent_Model
begin

text \<open>
  \<open>internal/expand/dependency_resolver.go\<close>: direct and transitive dependencies between
  components, and the component sets a selection grows to. Go sets are lists of names without
  order. The recursive \<open>traverse\<close> and the \<open>for changed\<close> loops take fuel; the locale
  \<open>finite_graph\<close> is what both need from a successor function, and gives that the fuel is
  enough and that the results are reachability. A Go \<open>range\<close> over a set that grows in the loop
  may or may not visit the additions; the model visits the members the pass started with, and
  the result, a least closed set, does not depend on that choice.
\<close>

section \<open>Graph searches\<close>

definition set_add :: "'a \<Rightarrow> 'a list \<Rightarrow> 'a list" where
  "set_add x xs = (if x \<in> set xs then xs else xs @ [x])"

lemma set_set_add [simp]: "set (set_add x xs) = insert x (set xs)"
  by (auto simp: set_add_def)

fun traverse :: "nat \<Rightarrow> ('a \<Rightarrow> 'a list) \<Rightarrow> 'a \<Rightarrow> 'a list \<times> 'a list \<Rightarrow> ('a list \<times> 'a list) option"
  and traverse_list :: "nat \<Rightarrow> ('a \<Rightarrow> 'a list) \<Rightarrow> 'a list \<Rightarrow> 'a list \<times> 'a list \<Rightarrow> ('a list \<times> 'a list) option"
where
  \<comment> \<open>state: visited, result\<close>
  "traverse 0 succ v st = None"
| "traverse (Suc n) succ v (visited, res) =
     (if v \<in> set visited then Some (visited, res)
      else traverse_list n succ (succ v) (set_add v visited, res))"
| "traverse_list n succ [] st = Some st"
| "traverse_list n succ (d # ds) (visited, res) =
     (case traverse n succ d (visited, set_add d res) of
        None \<Rightarrow> None
      | Some st \<Rightarrow> traverse_list n succ ds st)"

fun grow_pass :: "('a \<Rightarrow> 'a list) \<Rightarrow> 'a list \<Rightarrow> 'a list \<Rightarrow> 'a list" where
  \<comment> \<open>one round over the members: add every successor that is missing\<close>
  "grow_pass succ [] included = included"
| "grow_pass succ (c # cs) included = grow_pass succ cs (fold set_add (succ c) included)"

fun grow :: "nat \<Rightarrow> ('a \<Rightarrow> 'a list) \<Rightarrow> 'a list \<Rightarrow> 'a list option" where
  \<comment> \<open>\<open>changed := true; for changed { \<dots> }\<close>\<close>
  "grow 0 succ included = None"
| "grow (Suc n) succ included =
     (let next = grow_pass succ included included
      in if length next = length included then Some next else grow n succ next)"

definition arcs :: "('a \<Rightarrow> 'a list) \<Rightarrow> ('a \<times> 'a) set" where
  "arcs succ = {(u, v). v \<in> set (succ u)}"

lemma traverse_spec:
  "traverse n succ v st = Some st' \<Longrightarrow>
     set (fst st) \<subseteq> set (fst st') \<and> v \<in> set (fst st') \<and>
     set (fst st') \<subseteq> set (fst st) \<union> (arcs succ)\<^sup>* `` {v} \<and>
     (\<forall>u \<in> set (fst st') - set (fst st). set (succ u) \<subseteq> set (fst st')) \<and>
     set (snd st') = set (snd st) \<union> arcs succ `` (set (fst st') - set (fst st))"
  "traverse_list n succ ds st = Some st' \<Longrightarrow>
     set (fst st) \<subseteq> set (fst st') \<and> set ds \<subseteq> set (fst st') \<and>
     set (fst st') \<subseteq> set (fst st) \<union> (arcs succ)\<^sup>* `` set ds \<and>
     (\<forall>u \<in> set (fst st') - set (fst st). set (succ u) \<subseteq> set (fst st')) \<and>
     set (snd st') = set (snd st) \<union> set ds \<union> arcs succ `` (set (fst st') - set (fst st))"
proof (induction n succ v st and n succ ds st arbitrary: st' and st'
    rule: traverse_traverse_list.induct)
  case (2 n succ v vis res)
  show ?case
  proof (cases "v \<in> set vis")
    case False
    then have l: "traverse_list n succ (succ v) (set_add v vis, res) = Some st'"
      using "2.prems" by simp
    note ih = "2.IH" [OF False l]
    let ?W = "set (fst st') - set (set_add v vis)"
    have up: "insert v (set vis) \<subseteq> set (fst st')"
      and reach: "set (fst st') \<subseteq> insert v (set vis) \<union> (arcs succ)\<^sup>* `` set (succ v)"
      and closed: "\<forall>u \<in> ?W. set (succ u) \<subseteq> set (fst st')" "set (succ v) \<subseteq> set (fst st')"
      and result: "set (snd st') = set res \<union> set (succ v) \<union> arcs succ `` ?W"
      using ih by simp_all
    have new: "set (fst st') - set vis = insert v ?W" using up False by auto
    have arcs_v: "arcs succ `` insert v ?W = set (succ v) \<union> arcs succ `` ?W" by (auto simp: arcs_def)
    have "(arcs succ)\<^sup>* `` set (succ v) \<subseteq> (arcs succ)\<^sup>* `` {v}"
      by (auto simp: arcs_def intro: converse_rtrancl_into_rtrancl)
    then have "set (fst st') \<subseteq> set vis \<union> (arcs succ)\<^sup>* `` {v}" using reach by blast
    moreover have "\<forall>u \<in> insert v ?W. set (succ u) \<subseteq> set (fst st')" using closed by blast
    moreover have "set (snd st') = set res \<union> arcs succ `` insert v ?W"
      unfolding arcs_v result by blast
    ultimately show ?thesis using up unfolding fst_conv snd_conv new by blast
  qed (use 2 in auto)
next
  case (4 n succ d ds vis res)
  then obtain v1 r1 where t: "traverse n succ d (vis, set_add d res) = Some (v1, r1)"
    and l: "traverse_list n succ ds (v1, r1) = Some st'"
    by (auto split: option.splits)
  note a = "4.IH"(1) [OF t] and b = "4.IH"(2) [OF t l]
  have split: "set (fst st') - set vis = (set (fst st') - set v1) \<union> (set v1 - set vis)"
    using a b by auto
  have "set (snd st') = set res \<union> set (d # ds) \<union> arcs succ `` (set (fst st') - set vis)"
    using a b unfolding split by auto
  moreover have "\<forall>u \<in> set (fst st') - set vis. set (succ u) \<subseteq> set (fst st')"
  proof -
    have "\<forall>u \<in> set v1 - set vis. set (succ u) \<subseteq> set v1" "set v1 \<subseteq> set (fst st')"
      "\<forall>u \<in> set (fst st') - set v1. set (succ u) \<subseteq> set (fst st')"
      using a b by simp_all
    then show ?thesis unfolding split by blast
  qed
  moreover have "set (fst st') \<subseteq> set vis \<union> (arcs succ)\<^sup>* `` set (d # ds)"
  proof -
    have "set v1 \<subseteq> set vis \<union> (arcs succ)\<^sup>* `` {d}"
      "set (fst st') \<subseteq> set v1 \<union> (arcs succ)\<^sup>* `` set ds"
      using a b by simp_all
    then show ?thesis by auto
  qed
  moreover have "set vis \<subseteq> set (fst st')" "set (d # ds) \<subseteq> set (fst st')" using a b by auto
  ultimately show ?case by simp
qed auto

lemma traverse_enough:
  "finite U \<Longrightarrow> (\<And>u. u \<in> U \<Longrightarrow> set (succ u) \<subseteq> U) \<Longrightarrow> card (U - set (fst st)) < n \<Longrightarrow> v \<in> U \<Longrightarrow>
    traverse n succ v st \<noteq> None"
  "finite U \<Longrightarrow> (\<And>u. u \<in> U \<Longrightarrow> set (succ u) \<subseteq> U) \<Longrightarrow> card (U - set (fst st)) < n \<Longrightarrow> set ds \<subseteq> U \<Longrightarrow>
    traverse_list n succ ds st \<noteq> None"
proof (induction n succ v st and n succ ds st rule: traverse_traverse_list.induct)
  case (2 n succ v vis res)
  show ?case
  proof (cases "v \<in> set vis")
    case False
    have "U - set vis = insert v (U - set (set_add v vis))" using False "2.prems"(4) by auto
    moreover have "finite (U - set (set_add v vis))" "v \<notin> U - set (set_add v vis)"
      using "2.prems"(1) by auto
    ultimately have "card (U - set vis) = Suc (card (U - set (set_add v vis)))"
      by (metis card_insert_disjoint)
    then have lt: "card (U - set (fst (set_add v vis, res))) < n" using "2.prems"(3) by simp
    have "traverse_list n succ (succ v) (set_add v vis, res) \<noteq> None"
      by (rule "2.IH" [OF False "2.prems"(1) "2.prems"(2) lt "2.prems"(2) [OF "2.prems"(4)]])
    then show ?thesis using False by simp
  qed simp
next
  case (4 n succ d ds vis res)
  have d: "d \<in> U" "set ds \<subseteq> U" using "4.prems"(4) by auto
  have lt: "card (U - set (fst (vis, set_add d res))) < n" using "4.prems"(3) by simp
  have "traverse n succ d (vis, set_add d res) \<noteq> None"
    by (rule "4.IH"(1) [OF "4.prems"(1) "4.prems"(2) lt d(1)])
  then obtain v1 r1 where t1: "traverse n succ d (vis, set_add d res) = Some (v1, r1)" by auto
  have "card (U - set v1) \<le> card (U - set vis)"
    using traverse_spec(1) [OF t1] "4.prems"(1) by (intro card_mono) auto
  then have lt1: "card (U - set (fst (v1, r1))) < n" using "4.prems"(3) by simp
  have "traverse_list n succ ds (v1, r1) \<noteq> None"
    by (rule "4.IH"(2) [OF t1 "4.prems"(1) "4.prems"(2) lt1 d(2)])
  then show ?case by (simp add: t1)
qed simp_all

locale finite_graph =
  fixes succ :: "'a \<Rightarrow> 'a list" and nodes :: "'a list"
  assumes succ_nodes: "set (succ u) \<subseteq> set nodes"
begin

definition fuel :: "'a list \<Rightarrow> nat" where
  "fuel seeds = Suc (Suc (length (seeds @ nodes)))"

lemma rtrancl_closed: "(u, x) \<in> (arcs succ)\<^sup>* \<Longrightarrow> u \<in> S \<Longrightarrow> (\<And>w. w \<in> S \<Longrightarrow> set (succ w) \<subseteq> S) \<Longrightarrow> x \<in> S"
  by (induction rule: rtrancl_induct) (auto simp: arcs_def)

text \<open>Traversal from a node collects what is reachable in one step or more.\<close>

lemma traverse_reach:
  "\<exists>vis res. traverse (fuel [v]) succ v ([], []) = Some (vis, res) \<and> set res = (arcs succ)\<^sup>+ `` {v}"
proof -
  let ?U = "insert v (set nodes)"
  have "card (?U - set (fst ([] :: 'a list, [] :: 'a list))) < fuel [v]"
    using card_length [of "v # nodes"] by (simp add: fuel_def)
  then have "traverse (fuel [v]) succ v ([], []) \<noteq> None"
    by (intro traverse_enough(1) [where U = ?U]) (use succ_nodes in auto)
  then obtain vis res where t: "traverse (fuel [v]) succ v ([], []) = Some (vis, res)" by auto
  note s = traverse_spec(1) [OF t]
  have "set vis = (arcs succ)\<^sup>* `` {v}"
  proof
    show "(arcs succ)\<^sup>* `` {v} \<subseteq> set vis"
    proof
      fix x assume "x \<in> (arcs succ)\<^sup>* `` {v}"
      then have "(v, x) \<in> (arcs succ)\<^sup>*" by simp
      then show "x \<in> set vis" by (rule rtrancl_closed) (use s in auto)
    qed
  qed (use s in auto)
  then have "set res = arcs succ `` ((arcs succ)\<^sup>* `` {v})" using s by simp
  also have "\<dots> = (arcs succ)\<^sup>+ `` {v}" by (auto simp: trancl_unfold_right relcomp_unfold)
  finally show ?thesis using t by blast
qed

end

lemma set_fold_add: "set (fold set_add xs inc) = set inc \<union> set xs"
  by (induction xs arbitrary: inc) auto

lemma distinct_fold_add: "distinct inc \<Longrightarrow> distinct (fold set_add xs inc)"
  by (induction xs arbitrary: inc) (simp_all add: set_add_def)

lemma set_grow_pass: "set (grow_pass succ cs inc) = set inc \<union> arcs succ `` set cs"
  by (induction succ cs inc rule: grow_pass.induct) (auto simp: set_fold_add arcs_def)

lemma distinct_grow_pass: "distinct inc \<Longrightarrow> distinct (grow_pass succ cs inc)"
  by (induction succ cs inc rule: grow_pass.induct) (simp_all add: distinct_fold_add)

context finite_graph
begin

lemma grow_spec:
  assumes "grow n succ inc = Some r" and "distinct inc"
  shows "set r = (arcs succ)\<^sup>* `` set inc \<and> distinct r"
  using assms
proof (induction n arbitrary: inc)
  case (Suc n)
  let ?next = "grow_pass succ inc inc"
  have nx: "set ?next = set inc \<union> arcs succ `` set inc" and dn: "distinct ?next"
    using Suc.prems(2) by (simp_all add: set_grow_pass distinct_grow_pass)
  show ?case
  proof (cases "length ?next = length inc")
    case True
    then have "card (set ?next) = card (set inc)"
      using dn Suc.prems(2) by (simp add: distinct_card)
    then have same: "set ?next = set inc"
      using nx by (metis List.finite_set Un_upper1 card_subset_eq)
    then have closed: "set (succ w) \<subseteq> set inc" if "w \<in> set inc" for w
      using nx that by (auto simp: arcs_def)
    have "(arcs succ)\<^sup>* `` set inc \<subseteq> set inc"
    proof
      fix x assume "x \<in> (arcs succ)\<^sup>* `` set inc"
      then obtain w where "w \<in> set inc" "(w, x) \<in> (arcs succ)\<^sup>*" by auto
      then show "x \<in> set inc" using rtrancl_closed closed by metis
    qed
    then have "(arcs succ)\<^sup>* `` set inc = set inc" by auto
    moreover have "r = ?next" using Suc.prems(1) True by simp
    ultimately show ?thesis using same dn by simp
  next
    case False
    then have "grow n succ ?next = Some r" using Suc.prems(1) by (simp add: Let_def)
    from Suc.IH [OF this dn] have r: "set r = (arcs succ)\<^sup>* `` (set inc \<union> arcs succ `` set inc)"
      and dr: "distinct r" by (simp_all add: nx)
    have "(arcs succ)\<^sup>* `` (set inc \<union> arcs succ `` set inc) = (arcs succ)\<^sup>* `` set inc"
      by (auto intro: converse_rtrancl_into_rtrancl)
    with r dr show ?thesis by simp
  qed
qed simp

lemma grow_enough:
  assumes "distinct inc" and "set inc \<subseteq> U" and "finite U" and "set nodes \<subseteq> U"
    and "card U < n + length inc"
  shows "grow n succ inc \<noteq> None"
  using assms(1,2,5)
proof (induction n arbitrary: inc)
  case 0
  then have "length inc \<le> card U" using assms(3) by (metis card_mono distinct_card)
  with 0 show ?case by simp
next
  case (Suc n)
  let ?next = "grow_pass succ inc inc"
  have dn: "distinct ?next" and sub: "set ?next \<subseteq> U"
    using Suc.prems succ_nodes assms(4) by (auto simp: set_grow_pass distinct_grow_pass arcs_def)
  have "length inc \<le> length ?next"
    using Suc.prems(1) dn by (metis List.finite_set Un_upper1 card_mono distinct_card set_grow_pass)
  then have "length ?next = length inc \<or> card U < n + length ?next" using Suc.prems(3) by linarith
  with Suc.IH [OF dn sub] show ?case by (auto simp: Let_def)
qed

text \<open>Growing a set reaches the least superset closed under successors.\<close>

lemma grow_closure:
  assumes "distinct seeds"
  shows "\<exists>r. grow (fuel seeds) succ seeds = Some r \<and> distinct r \<and> set r = (arcs succ)\<^sup>* `` set seeds"
proof -
  have "card (set seeds \<union> set nodes) \<le> length (seeds @ nodes)"
    using card_length [of "seeds @ nodes"] by simp
  then have "card (set seeds \<union> set nodes) < fuel seeds + length seeds" by (simp add: fuel_def)
  then have "grow (fuel seeds) succ seeds \<noteq> None"
    by (intro grow_enough [where U = "set seeds \<union> set nodes"]) (use assms in auto)
  with grow_spec assms show ?thesis by blast
qed

lemma closure_least:
  assumes "set seeds \<subseteq> S" and "\<And>u. u \<in> S \<Longrightarrow> set (succ u) \<subseteq> S"
  shows "(arcs succ)\<^sup>* `` set seeds \<subseteq> S"
  using assms rtrancl_closed by blast

end

section \<open>The resolver\<close>

definition GetDependencies :: "component gmap \<Rightarrow> string \<Rightarrow> string list" where
  "GetDependencies comps n =
     (case gm_get comps n of None \<Rightarrow> [] | Some c \<Rightarrow> map d_component (c_depends_on c))"

definition depends_on :: "component \<Rightarrow> string \<Rightarrow> bool" where
  "depends_on c n \<longleftrightarrow> list_ex (\<lambda>d. d_component d = n) (c_depends_on c)"

fun GetDependents :: "component gmap \<Rightarrow> string \<Rightarrow> string list" where
  "GetDependents [] n = []"
| "GetDependents ((k, c) # comps) n =
     (if depends_on c n then k # GetDependents comps n else GetDependents comps n)"

lemma GetDependents_eq:
  "GetDependents comps n = map fst (filter (\<lambda>p. depends_on (snd p) n) comps)"
  by (induction comps n rule: GetDependents.induct) simp_all

definition graph_nodes :: "component gmap \<Rightarrow> string list" where
  \<comment> \<open>every name the declarations mention: only used to bound the searches\<close>
  "graph_nodes comps = gm_keys comps @ concat (map (\<lambda>(_, c). map d_component (c_depends_on c)) comps)"

definition search_fuel :: "component gmap \<Rightarrow> string list \<Rightarrow> nat" where
  "search_fuel comps seeds = Suc (Suc (length (seeds @ graph_nodes comps)))"

definition GetTransitiveDependencies :: "component gmap \<Rightarrow> string \<Rightarrow> string list option" where
  "GetTransitiveDependencies comps n =
     map_option snd (traverse (search_fuel comps [n]) (GetDependencies comps) n ([], []))"

definition GetTransitiveDependents :: "component gmap \<Rightarrow> string \<Rightarrow> string list option" where
  "GetTransitiveDependents comps n =
     map_option snd (traverse (search_fuel comps [n]) (GetDependents comps) n ([], []))"

definition dependencyForEdge :: "component gmap \<Rightarrow> string \<Rightarrow> string \<Rightarrow> dependency option" where
  "dependencyForEdge comps n dep =
     (case gm_get comps n of
        None \<Rightarrow> None | Some c \<Rightarrow> List.find (\<lambda>d. d_component d = dep) (c_depends_on c))"

definition always_targets :: "component gmap \<Rightarrow> string \<Rightarrow> string list" where
  "always_targets comps n =
     (case gm_get comps n of
        None \<Rightarrow> []
      | Some c \<Rightarrow> map d_component (filter (\<lambda>d. d_include d = IncludeAlways) (c_depends_on c)))"

definition ResolveComponentSet :: "component gmap \<Rightarrow> string list \<Rightarrow> string list option" where
  "ResolveComponentSet comps seeds = grow (search_fuel comps seeds) (always_targets comps) seeds"

definition ResolveComponentSetAll :: "component gmap \<Rightarrow> string list \<Rightarrow> string list option" where
  "ResolveComponentSetAll comps seeds = grow (search_fuel comps seeds) (GetDependencies comps) seeds"

definition collect :: "('a \<Rightarrow> 'a list option) \<Rightarrow> 'a list \<Rightarrow> 'a list \<Rightarrow> 'a list option" where
  \<comment> \<open>the union of \<open>f c\<close> over the changed members, less the changed members\<close>
  "collect f changed seeds =
     map_option (\<lambda>xs. fold set_add (filter (\<lambda>x. x \<notin> set changed) (concat xs)) [])
       (those (map f seeds))"

definition CategorizeDependencies ::
    "component gmap \<Rightarrow> string list \<Rightarrow> (string list \<times> string list \<times> string list) option" where
  "CategorizeDependencies comps changedComponents =
     (case (collect (GetTransitiveDependencies comps) changedComponents changedComponents,
            collect (GetTransitiveDependents comps) changedComponents changedComponents) of
        (Some dependencies, Some dependents) \<Rightarrow> Some (changedComponents, dependencies, dependents)
      | _ \<Rightarrow> None)"

section \<open>Closure properties\<close>

lemma GetDependencies_nodes: "set (GetDependencies comps u) \<subseteq> set (graph_nodes comps)"
proof (cases "gm_get comps u")
  case (Some c)
  then have "(u, c) \<in> set comps" by (rule gm_get_in)
  then show ?thesis using Some by (fastforce simp: GetDependencies_def graph_nodes_def)
qed (simp add: GetDependencies_def)

lemma always_targets_sub: "set (always_targets comps u) \<subseteq> set (GetDependencies comps u)"
  by (auto simp: GetDependencies_def always_targets_def split: option.splits)

interpretation deps: finite_graph "GetDependencies comps" "graph_nodes comps" for comps
  by unfold_locales (rule GetDependencies_nodes)

interpretation rdeps: finite_graph "GetDependents comps" "graph_nodes comps" for comps
  by unfold_locales (auto simp: GetDependents_eq graph_nodes_def)

interpretation always: finite_graph "always_targets comps" "graph_nodes comps" for comps
  by unfold_locales (use always_targets_sub GetDependencies_nodes in blast)

lemmas search_fuels = search_fuel_def deps.fuel_def rdeps.fuel_def always.fuel_def

lemma GetDependents_converse:
  assumes "gm_ok comps"
  shows "arcs (GetDependents comps) = (arcs (GetDependencies comps))\<inverse>"
proof -
  have "v \<in> set (GetDependents comps u) \<longleftrightarrow> u \<in> set (GetDependencies comps v)" for u v
  proof (cases "gm_get comps v")
    case None
    then have "v \<notin> fst ` set comps" by (simp add: map_of_eq_None_iff)
    then show ?thesis using None by (force simp: GetDependents_eq GetDependencies_def)
  next
    case (Some c)
    have "(v, c') \<in> set comps \<longleftrightarrow> c' = c" for c'
      using gm_in_get [OF assms] gm_get_in Some by (metis option.inject)
    then show ?thesis using Some
      by (force simp: GetDependents_eq depends_on_def GetDependencies_def list_ex_iff image_iff)
  qed
  then show ?thesis by (auto simp: arcs_def)
qed

lemma GetTransitiveDependencies_spec:
  "\<exists>ds. GetTransitiveDependencies comps n = Some ds \<and>
     set ds = (arcs (GetDependencies comps))\<^sup>+ `` {n}"
  using deps.traverse_reach [where comps = comps and v = n]
  by (auto simp: GetTransitiveDependencies_def search_fuels)

lemma GetTransitiveDependents_spec:
  "\<exists>ds. GetTransitiveDependents comps n = Some ds \<and>
     set ds = (arcs (GetDependents comps))\<^sup>+ `` {n}"
  using rdeps.traverse_reach [where comps = comps and v = n]
  by (auto simp: GetTransitiveDependents_def search_fuels)

definition ex_comps :: "component gmap" where
  \<comment> \<open>\<open>web\<close> needs \<open>api\<close> always and \<open>docs\<close> if selected; \<open>api\<close> needs \<open>db\<close> always\<close>
  "ex_comps =
     [(''web'', zero_component\<lparr>c_depends_on :=
         [zero_dependency\<lparr>d_component := ''api'', d_include := IncludeAlways\<rparr>,
          zero_dependency\<lparr>d_component := ''docs'', d_include := IncludeIfSelected\<rparr>]\<rparr>),
      (''api'', zero_component\<lparr>c_depends_on :=
         [zero_dependency\<lparr>d_component := ''db'', d_include := IncludeAlways\<rparr>]\<rparr>),
      (''db'', zero_component), (''docs'', zero_component)]"

lemma ex_comps_ok: "gm_ok ex_comps"
  by (simp add: gm_ok_def ex_comps_def)

text \<open>
  \<open>GetTransitiveDependencies\<close> and \<open>GetTransitiveDependents\<close> terminate on every graph,
  cyclic ones included; the first returns exactly the components reachable over one or more
  declared edges, and the second is its converse: \<open>n\<close> is among the dependents of \<open>m\<close> exactly
  when \<open>m\<close> is among the dependencies of \<open>n\<close>.
\<close>

theorem transitive_sets_are_reachability:
  assumes "gm_ok comps"
  shows "\<exists>D R. (\<forall>n. GetTransitiveDependencies comps n = Some (D n) \<and>
           GetTransitiveDependents comps n = Some (R n)) \<and>
         (\<forall>n m. m \<in> set (D n) \<longleftrightarrow> (n, m) \<in> (arcs (GetDependencies comps))\<^sup>+) \<and>
         (\<forall>n m. n \<in> set (R m) \<longleftrightarrow> m \<in> set (D n))"
proof -
  obtain D R where D: "\<forall>n. GetTransitiveDependencies comps n = Some (D n) \<and>
        set (D n) = (arcs (GetDependencies comps))\<^sup>+ `` {n}"
    and R: "\<forall>n. GetTransitiveDependents comps n = Some (R n) \<and>
        set (R n) = (arcs (GetDependents comps))\<^sup>+ `` {n}"
    using GetTransitiveDependencies_spec [of comps] GetTransitiveDependents_spec [of comps] by metis
  show ?thesis
    by (rule exI [of _ D], rule exI [of _ R])
      (use D R in \<open>simp add: GetDependents_converse [OF assms] trancl_converse\<close>)
qed

theorem transitive_sets_are_reachability_witness:
  "\<exists>D R. GetTransitiveDependencies ex_comps ''web'' = Some (D ''web'') \<and>
     (''web'' \<in> set (R ''db'') \<longleftrightarrow> ''db'' \<in> set (D ''web'')) \<and>
     GetTransitiveDependencies ex_comps ''web'' = Some [''api'', ''db'', ''docs'']"
proof -
  have "GetTransitiveDependencies ex_comps ''web'' = Some [''api'', ''db'', ''docs'']"
    by code_simp
  then show ?thesis using transitive_sets_are_reachability [OF ex_comps_ok] by blast
qed

text \<open>
  C34: \<open>ResolveComponentSet\<close> always returns, and what it returns is the least set that holds
  the seeds and the target of every \<open>include: always\<close> edge of a member; it lies within what
  \<open>ResolveComponentSetAll\<close> returns, and when no member of the seeds declares such an edge (the
  normalized default) it is the seeds.
\<close>

theorem selection_grows_to_least_closed_set:
  assumes "distinct seeds"
  shows "\<exists>sel all. ResolveComponentSet comps seeds = Some sel \<and> ResolveComponentSetAll comps seeds = Some all \<and>
     distinct sel \<and> set seeds \<subseteq> set sel \<and> set sel \<subseteq> set all \<and>
     (\<forall>c d. c \<in> set sel \<longrightarrow> d \<in> set (always_targets comps c) \<longrightarrow> d \<in> set sel) \<and>
     (\<forall>S. set seeds \<subseteq> S \<longrightarrow> (\<forall>c \<in> S. set (always_targets comps c) \<subseteq> S) \<longrightarrow> set sel \<subseteq> S) \<and>
     ((\<forall>c \<in> set seeds. always_targets comps c = []) \<longrightarrow> set sel = set seeds)"
proof -
  let ?A = "(arcs (always_targets comps))\<^sup>* `` set seeds"
  from always.grow_closure [OF assms] obtain sel where
    sel: "ResolveComponentSet comps seeds = Some sel" "distinct sel" "set sel = ?A"
    by (metis ResolveComponentSet_def search_fuel_def always.fuel_def)
  from deps.grow_closure [OF assms] obtain all where
    all: "ResolveComponentSetAll comps seeds = Some all"
      "set all = (arcs (GetDependencies comps))\<^sup>* `` set seeds"
    by (metis ResolveComponentSetAll_def search_fuel_def deps.fuel_def)
  have "arcs (always_targets comps) \<subseteq> arcs (GetDependencies comps)"
    using always_targets_sub by (fastforce simp: arcs_def)
  then have "?A \<subseteq> set all" unfolding all by (meson Image_mono order_refl rtrancl_mono)
  moreover have "\<forall>c d. c \<in> ?A \<longrightarrow> d \<in> set (always_targets comps c) \<longrightarrow> d \<in> ?A"
    by (auto simp: arcs_def intro: rtrancl_into_rtrancl)
  moreover have least: "?A \<subseteq> S" if "set seeds \<subseteq> S" "\<forall>c \<in> S. set (always_targets comps c) \<subseteq> S" for S
    using always.closure_least that by metis
  moreover have "?A = set seeds" if "\<forall>c \<in> set seeds. always_targets comps c = []"
    using least [of "set seeds"] that by auto
  moreover have "set seeds \<subseteq> ?A" by auto
  ultimately show ?thesis using sel all by metis
qed

theorem selection_grows_to_least_closed_set_witness:
  "\<exists>sel. ResolveComponentSet ex_comps [''web''] = Some sel \<and>
     (\<forall>S. {''web''} \<subseteq> S \<longrightarrow> (\<forall>c \<in> S. set (always_targets ex_comps c) \<subseteq> S) \<longrightarrow> set sel \<subseteq> S) \<and>
     sel = [''web'', ''api'', ''db'']"
proof -
  have "distinct [''web'']" by simp
  from selection_grows_to_least_closed_set [OF this, of ex_comps]
  obtain sel where "ResolveComponentSet ex_comps [''web''] = Some sel"
    "\<forall>S. {''web''} \<subseteq> S \<longrightarrow> (\<forall>c \<in> S. set (always_targets ex_comps c) \<subseteq> S) \<longrightarrow> set sel \<subseteq> S"
    by auto
  moreover have "ResolveComponentSet ex_comps [''web''] = Some [''web'', ''api'', ''db'']"
    by code_simp
  ultimately show ?thesis by auto
qed

lemma collect_spec:
  assumes "\<And>x. \<exists>ys. f x = Some ys \<and> set ys = F x"
  shows "\<exists>r. collect f changed seeds = Some r \<and> distinct r \<and>
     set r = (\<Union>x \<in> set seeds. F x) - set changed"
proof -
  obtain g where g: "\<And>x. f x = Some (g x)" "\<And>x. set (g x) = F x" using assms by metis
  have "those (map f seeds) = Some (map g seeds)"
    by (induction seeds) (simp_all add: g)
  then show ?thesis
    by (simp add: collect_def distinct_fold_add set_fold_add g(2)) auto
qed

text \<open>
  \<open>CategorizeDependencies\<close> returns the changed components, the components some changed one
  needs (over one or more edges) and the components that need some changed one, with the changed
  ones removed from the last two.
\<close>

theorem categories_of_changed_components:
  assumes "gm_ok comps"
  shows "\<exists>needs needed_by. CategorizeDependencies comps changed = Some (changed, needs, needed_by) \<and>
     distinct needs \<and> distinct needed_by \<and>
     (\<forall>x. x \<in> set needs \<longleftrightarrow> x \<notin> set changed \<and>
        (\<exists>c \<in> set changed. (c, x) \<in> (arcs (GetDependencies comps))\<^sup>+)) \<and>
     (\<forall>x. x \<in> set needed_by \<longleftrightarrow> x \<notin> set changed \<and>
        (\<exists>c \<in> set changed. (x, c) \<in> (arcs (GetDependencies comps))\<^sup>+))"
proof -
  obtain a where a: "collect (GetTransitiveDependencies comps) changed changed = Some a" "distinct a"
    "set a = (\<Union>x \<in> set changed. (arcs (GetDependencies comps))\<^sup>+ `` {x}) - set changed"
    using collect_spec [where f = "GetTransitiveDependencies comps" and changed = changed and seeds = changed,
      OF GetTransitiveDependencies_spec] by blast
  obtain b where b: "collect (GetTransitiveDependents comps) changed changed = Some b" "distinct b"
    "set b = (\<Union>x \<in> set changed. (arcs (GetDependents comps))\<^sup>+ `` {x}) - set changed"
    using collect_spec [where f = "GetTransitiveDependents comps" and changed = changed and seeds = changed,
      OF GetTransitiveDependents_spec] by blast
  have "CategorizeDependencies comps changed = Some (changed, a, b)"
    by (simp add: CategorizeDependencies_def a b)
  moreover have "\<forall>x. x \<in> set a \<longleftrightarrow> x \<notin> set changed \<and>
        (\<exists>c \<in> set changed. (c, x) \<in> (arcs (GetDependencies comps))\<^sup>+)"
    unfolding a(3) by auto
  moreover have "\<forall>x. x \<in> set b \<longleftrightarrow> x \<notin> set changed \<and>
        (\<exists>c \<in> set changed. (x, c) \<in> (arcs (GetDependencies comps))\<^sup>+)"
    unfolding b(3) GetDependents_converse [OF assms] trancl_converse by auto
  ultimately show ?thesis using a(2) b(2) by blast
qed

theorem categories_of_changed_components_witness:
  "CategorizeDependencies ex_comps [''api''] = Some ([''api''], [''db''], [''web'']) \<and>
   (\<exists>needs needed_by. CategorizeDependencies ex_comps [''api''] = Some ([''api''], needs, needed_by) \<and>
     distinct needs)"
proof -
  have "GetTransitiveDependencies ex_comps ''api'' = Some [''db'']" by code_simp
  moreover have "GetTransitiveDependents ex_comps ''api'' = Some [''web'']" by code_simp
  ultimately have "CategorizeDependencies ex_comps [''api''] = Some ([''api''], [''db''], [''web''])"
    by (simp add: CategorizeDependencies_def collect_def set_add_def)
  moreover obtain needs needed_by where
    "CategorizeDependencies ex_comps [''api''] = Some ([''api''], needs, needed_by)" "distinct needs"
    using categories_of_changed_components [OF ex_comps_ok, of "[''api'']"] by fast
  ultimately show ?thesis by metis
qed

end
