(* ===== verification/Job_Graph.thy ===== *)
theory Job_Graph
  imports Job_Model Dfs
begin

text \<open>
  \<open>internal/planner/graph.go\<close>: the graph of job instances. \<open>hasCycleDFS\<close> is the code's search
  with its \<open>visited\<close> and \<open>recStack\<close> sets (lists without order), under fuel; when every
  dependency is a job it is the three-colour search of \<open>Dfs\<close>. \<open>TopologicalSort\<close> is Kahn's
  algorithm: an invariant of its loop gives that the fuel is enough, that the result is a
  topological order exactly when there is one, and that it does not depend on the order in
  which Go visits the job map.
\<close>

section \<open>Cycle detection\<close>

definition set_put :: "'a \<Rightarrow> 'a list \<Rightarrow> 'a list" where
  \<comment> \<open>\<open>m[x] = true\<close>\<close>
  "set_put x xs = (if x \<in> set xs then xs else x # xs)"

lemma set_set_put [simp]: "set (set_put x xs) = insert x (set xs)"
  by (auto simp: set_put_def)

fun hasCycleDFS :: "nat \<Rightarrow> job_instance gmap \<Rightarrow> string \<Rightarrow> string list \<times> string list \<Rightarrow>
      (bool \<times> string list \<times> string list) option"
  and cycle_deps :: "nat \<Rightarrow> job_instance gmap \<Rightarrow> string list \<Rightarrow> string list \<times> string list \<Rightarrow>
      (bool \<times> string list \<times> string list) option"
where
  "hasCycleDFS 0 jobs node st = None"
| "hasCycleDFS (Suc n) jobs node (visited, recStack) =
     (case gm_get jobs node of
        None \<Rightarrow> Some (False, set_put node visited, set_put node recStack)
      | Some job \<Rightarrow>
          (case cycle_deps n jobs (j_depends_on job) (set_put node visited, set_put node recStack) of
             None \<Rightarrow> None
           | Some (found, visited', recStack') \<Rightarrow>
               if found then Some (True, visited', recStack')
               else Some (False, visited', removeAll node recStack')))"
| "cycle_deps n jobs [] (visited, recStack) = Some (False, visited, recStack)"
| "cycle_deps n jobs (dep # deps) (visited, recStack) =
     (if dep \<notin> set visited then
        (case hasCycleDFS n jobs dep (visited, recStack) of
           None \<Rightarrow> None
         | Some (found, visited', recStack') \<Rightarrow>
             if found then Some (True, visited', recStack')
             else cycle_deps n jobs deps (visited', recStack'))
      else if dep \<in> set recStack then Some (True, visited, recStack)
      else cycle_deps n jobs deps (visited, recStack))"

fun detect_from :: "nat \<Rightarrow> job_instance gmap \<Rightarrow> string list \<Rightarrow> string list \<times> string list \<Rightarrow> bool option" where
  "detect_from n jobs [] st = Some False"
| "detect_from n jobs (jobID # ids) (visited, recStack) =
     (if jobID \<notin> set visited then
        (case hasCycleDFS n jobs jobID (visited, recStack) of
           None \<Rightarrow> None
         | Some (found, visited', recStack') \<Rightarrow>
             if found then Some True else detect_from n jobs ids (visited', recStack'))
      else detect_from n jobs ids (visited, recStack))"

datatype graph_error = CycleDetected | PossibleCycle

definition search_depth :: "job_instance gmap \<Rightarrow> nat" where
  "search_depth jobs = Suc (length jobs)"

definition DetectCycles :: "job_instance gmap \<Rightarrow> graph_error option option" where
  \<comment> \<open>outer \<open>None\<close>: out of fuel\<close>
  "DetectCycles jobs =
     map_option (\<lambda>found. if found then Some CycleDetected else None)
       (detect_from (search_depth jobs) jobs (gm_keys jobs) ([], []))"

definition deps_of :: "job_instance gmap \<Rightarrow> string \<Rightarrow> string list" where
  "deps_of jobs n = (case gm_get jobs n of None \<Rightarrow> [] | Some j \<Rightarrow> j_depends_on j)"

definition closed_jobs :: "job_instance gmap \<Rightarrow> bool" where
  \<comment> \<open>every dependency is a job of the graph\<close>
  "closed_jobs jobs \<longleftrightarrow> (\<forall>n. set (deps_of jobs n) \<subseteq> set (gm_keys jobs))"

lemma gm_get_None: "gm_get m k = None \<longleftrightarrow> k \<notin> set (gm_keys m)"
  by (simp add: map_of_eq_None_iff)

lemma gm_get_key: "k \<in> set (gm_keys m) \<Longrightarrow> \<exists>v. gm_get m k = Some v"
  using gm_get_None [of m k] by auto

lemma deps_of_no_job: "n \<notin> set (gm_keys jobs) \<Longrightarrow> deps_of jobs n = []"
  by (simp add: deps_of_def gm_get_None [THEN iffD2])

text \<open>The colour a node has under the two sets.\<close>

definition paint :: "'a list \<Rightarrow> 'a list \<Rightarrow> 'a \<Rightarrow> color" where
  "paint visited recStack v =
     (if v \<notin> set visited then White else if v \<in> set recStack then Gray else Black)"

lemma paint_enter: "paint (set_put v vis) (set_put v rec) = (paint vis rec)(v := Gray)"
  by (auto simp: paint_def)

lemma paint_leave: "v \<in> set vis \<Longrightarrow> paint vis (removeAll v rec) = (paint vis rec)(v := Black)"
  by (auto simp: paint_def)

definition agrees :: "string list \<Rightarrow> (string list + (string \<Rightarrow> color)) option \<Rightarrow>
    (bool \<times> string list \<times> string list) option \<Rightarrow> bool" where
  \<comment> \<open>the answer of the coloured search against that of the code, which started at \<open>visited\<close>\<close>
  "agrees vis d h =
     (case (d, h) of
        (None, None) \<Rightarrow> True
      | (Some (Inl _), Some (True, _)) \<Rightarrow> True
      | (Some (Inr c), Some (False, vis', rec')) \<Rightarrow> c = paint vis' rec' \<and> set vis \<subseteq> set vis'
      | _ \<Rightarrow> False)"

lemma agrees_simps [simp]:
  "agrees vis None h \<longleftrightarrow> h = None"
  "agrees vis (Some (Inl p)) h \<longleftrightarrow> (\<exists>st. h = Some (True, st))"
  "agrees vis (Some (Inr c)) h \<longleftrightarrow>
     (\<exists>vis' rec'. h = Some (False, vis', rec') \<and> c = paint vis' rec' \<and> set vis \<subseteq> set vis')"
  by (auto simp: agrees_def split: option.splits bool.splits)

lemma answer_cases:
  obtains "d = None" | p where "d = Some (Inl p)" | c where "d = Some (Inr c)"
  by (metis option.exhaust sum.exhaust)

text \<open>When every dependency is a job, the code's search is the coloured one.\<close>

lemma hasCycleDFS_is_dfs:
  assumes "closed_jobs jobs"
  shows "v \<in> set (gm_keys jobs) \<Longrightarrow>
      agrees vis (dfs n (deps_of jobs) path v (paint vis rec)) (hasCycleDFS n jobs v (vis, rec))"
    and "set ts \<subseteq> set (gm_keys jobs) \<Longrightarrow>
      agrees vis (dfs_list n (deps_of jobs) path ts (paint vis rec)) (cycle_deps n jobs ts (vis, rec))"
proof (induction n "deps_of jobs" path v "paint vis rec" and n "deps_of jobs" path ts "paint vis rec"
    arbitrary: vis rec and vis rec rule: dfs_dfs_list.induct)
  case (2 n path v)
  then obtain job where job: "gm_get jobs v = Some job" using gm_get_key by fast
  then have deps: "deps_of jobs v = j_depends_on job" by (simp add: deps_of_def)
  have sub: "set (deps_of jobs v) \<subseteq> set (gm_keys jobs)" using assms by (simp add: closed_jobs_def)
  let ?d = "dfs_list n (deps_of jobs) (path @ [v]) (deps_of jobs v) ((paint vis rec)(v := Gray))"
  have ih: "agrees (set_put v vis) ?d
      (cycle_deps n jobs (j_depends_on job) (set_put v vis, set_put v rec))"
    using "2.hyps" [OF paint_enter [symmetric] sub] unfolding paint_enter deps .
  show ?case
  proof (cases ?d rule: answer_cases)
    case (3 c)
    with ih obtain vis' rec' where "cycle_deps n jobs (j_depends_on job) (set_put v vis, set_put v rec)
        = Some (False, vis', rec')" "c = paint vis' rec'" "insert v (set vis) \<subseteq> set vis'"
      by auto
    with 3 job show ?thesis by (auto simp: paint_leave)
  qed (use ih job in auto)
next
  case (4 n path t ts)
  show ?case
  proof (cases "paint vis rec t")
    case White
    let ?d = "dfs n (deps_of jobs) path t (paint vis rec)"
    have ih: "agrees vis ?d (hasCycleDFS n jobs t (vis, rec))"
      using "4.hyps"(1) [OF White refl] "4.prems" by simp
    from White have nv: "t \<notin> set vis" by (auto simp: paint_def split: if_splits)
    show ?thesis
    proof (cases ?d rule: answer_cases)
      case (3 c)
      with ih obtain vis' rec' where h: "hasCycleDFS n jobs t (vis, rec) = Some (False, vis', rec')"
        and c: "c = paint vis' rec'" and sub: "set vis \<subseteq> set vis'" by auto
      have "agrees vis' (dfs_list n (deps_of jobs) path ts c) (cycle_deps n jobs ts (vis', rec'))"
        using "4.hyps"(2) [OF White 3 _ _] "4.prems" by (simp add: c)
      then have "agrees vis (dfs_list n (deps_of jobs) path ts c) (cycle_deps n jobs ts (vis', rec'))"
        using sub by (auto simp: agrees_def split: option.splits sum.splits bool.splits)
      with 3 h nv White show ?thesis by simp
    qed (use ih nv White in auto)
  next
    case Gray
    then have "t \<in> set vis" "t \<in> set rec" by (auto simp: paint_def split: if_splits)
    with Gray show ?thesis by simp
  next
    case Black
    then have m: "t \<in> set vis" "t \<notin> set rec" by (auto simp: paint_def split: if_splits)
    have "agrees vis (dfs_list n (deps_of jobs) path ts (paint vis rec)) (cycle_deps n jobs ts (vis, rec))"
      using "4.hyps"(3) [OF Black refl] "4.prems" by simp
    with Black m show ?thesis by simp
  qed
qed auto

lemma detect_from_is_dfs_all:
  assumes "closed_jobs jobs" and "set vs \<subseteq> set (gm_keys jobs)"
  shows "detect_from n jobs vs (vis, rec) =
     map_option (\<lambda>r. case r of Inl _ \<Rightarrow> True | Inr _ \<Rightarrow> False) (dfs_all n (deps_of jobs) vs (paint vis rec))"
  using assms(2)
proof (induction vs arbitrary: vis rec)
  case (Cons v vs)
  let ?d = "dfs n (deps_of jobs) [] v (paint vis rec)"
  have white: "paint vis rec v = White \<longleftrightarrow> v \<notin> set vis" by (simp add: paint_def)
  have ag: "agrees vis ?d (hasCycleDFS n jobs v (vis, rec))"
    using hasCycleDFS_is_dfs(1) [OF assms(1)] Cons.prems by simp
  show ?case
    by (cases ?d rule: answer_cases) (use ag white Cons in auto)
qed simp

lemma deps_finite: "finite (edges (deps_of jobs))"
proof (rule finite_subset)
  show "edges (deps_of jobs) \<subseteq> Sigma (set (gm_keys jobs)) (\<lambda>u. set (deps_of jobs u))"
    using deps_of_no_job by (fastforce simp: edges_def)
qed simp

lemma DetectCycles_cases:
  assumes "closed_jobs jobs"
  shows "DetectCycles jobs = Some (if acyclic (edges (deps_of jobs)) then None else Some CycleDetected)"
proof -
  have start: "(\<lambda>_. White) = paint [] ([] :: string list)" by (rule ext) (simp add: paint_def)
  have V: "finite (set (gm_keys jobs))" "card (set (gm_keys jobs)) \<le> search_depth jobs"
    using card_length [of "gm_keys jobs"] by (simp_all add: search_depth_def le_SucI)
  have cl: "\<And>u. set (deps_of jobs u) \<subseteq> set (gm_keys jobs)" using assms by (simp add: closed_jobs_def)
  have "(\<exists>cyc. dfs_all (search_depth jobs) (deps_of jobs) (gm_keys jobs) (\<lambda>_. White) = Some (Inl cyc) \<and>
      is_cycle (deps_of jobs) cyc) \<and> \<not> acyclic (edges (deps_of jobs)) \<or>
    (\<exists>c. dfs_all (search_depth jobs) (deps_of jobs) (gm_keys jobs) (\<lambda>_. White) = Some (Inr c)) \<and>
      acyclic (edges (deps_of jobs))"
    by (rule dfs_all_decides [OF V(1) cl _ subset_refl V(2)]) (rule deps_of_no_job)
  note this [unfolded start]
  moreover have "DetectCycles jobs = map_option (\<lambda>found. if found then Some CycleDetected else None)
      (map_option (\<lambda>r. case r of Inl _ \<Rightarrow> True | Inr _ \<Rightarrow> False)
        (dfs_all (search_depth jobs) (deps_of jobs) (gm_keys jobs) (paint [] [])))"
    by (simp only: DetectCycles_def detect_from_is_dfs_all [OF assms subset_refl])
  ultimately show ?thesis by (elim disjE conjE exE) simp_all
qed

definition ex_job :: "string list \<Rightarrow> job_instance" where
  "ex_job ds = zero_job_instance\<lparr>j_depends_on := ds\<rparr>"

lemma ex_job_deps [simp]: "j_depends_on (ex_job ds) = ds"
  by (simp add: ex_job_def)

text \<open>
  C36: on a graph whose dependencies are all jobs, \<open>DetectCycles\<close> always answers (the search
  depth is bounded by the number of jobs), and it reports a cycle exactly when the dependency
  relation has one.
\<close>

theorem DetectCycles_decides:
  assumes "closed_jobs jobs"
  shows "(DetectCycles jobs = Some (Some CycleDetected) \<longleftrightarrow> \<not> acyclic (edges (deps_of jobs))) \<and>
    (DetectCycles jobs = Some None \<longleftrightarrow> acyclic (edges (deps_of jobs)))"
  using DetectCycles_cases [OF assms] by simp

lemma closed_by_keys:
  "list_all (\<lambda>p. list_all (\<lambda>d. d \<in> set (gm_keys jobs)) (j_depends_on (snd p))) jobs \<Longrightarrow> closed_jobs jobs"
  unfolding closed_jobs_def
proof
  fix n assume l: "list_all (\<lambda>p. list_all (\<lambda>d. d \<in> set (gm_keys jobs)) (j_depends_on (snd p))) jobs"
  show "set (deps_of jobs n) \<subseteq> set (gm_keys jobs)"
  proof (cases "gm_get jobs n")
    case (Some j)
    with l gm_get_in [OF Some] show ?thesis by (fastforce simp: deps_of_def list_all_iff)
  qed (simp add: deps_of_def)
qed

theorem DetectCycles_decides_witness:
  "DetectCycles [(''a'', ex_job [''b'']), (''b'', ex_job [''a''])] = Some (Some CycleDetected) \<and>
   \<not> acyclic (edges (deps_of [(''a'', ex_job [''b'']), (''b'', ex_job [''a''])]))"
proof -
  have "closed_jobs [(''a'', ex_job [''b'']), (''b'', ex_job [''a''])]"
    by (rule closed_by_keys) simp
  note DetectCycles_decides [OF this]
  moreover have "DetectCycles [(''a'', ex_job [''b'']), (''b'', ex_job [''a''])]
      = Some (Some CycleDetected)"
    by (simp add: DetectCycles_def search_depth_def set_put_def)
  ultimately show ?thesis by blast
qed

text \<open>
  A dependency that is no job of the graph makes \<open>DetectCycles\<close> report a cycle where there is
  none: the search leaves such a name on \<open>recStack\<close>, so the second job that needs it sees a
  back edge.
\<close>

theorem missing_dependency_reported_as_cycle:
  "DetectCycles [(''a'', ex_job [''x'']), (''b'', ex_job [''x''])] = Some (Some CycleDetected) \<and>
   acyclic (edges (deps_of [(''a'', ex_job [''x'']), (''b'', ex_job [''x''])]))"
proof
  let ?jobs = "[(''a'', ex_job [''x'']), (''b'', ex_job [''x''])]"
  show "DetectCycles ?jobs = Some (Some CycleDetected)"
    by (simp add: DetectCycles_def search_depth_def set_put_def)
  have "edges (deps_of ?jobs) \<subseteq> measure (\<lambda>v. if v = ''x'' then 1 else 0)"
    by (auto simp: edges_def deps_of_def split: if_splits)
  then show "acyclic (edges (deps_of ?jobs))"
    by (meson acyclic_subset wf_acyclic wf_measure)
qed

section \<open>Topological sort\<close>

definition add_edge :: "string \<Rightarrow> string \<Rightarrow> string list gmap \<times> int gmap \<Rightarrow> string list gmap \<times> int gmap" where
  "add_edge jobID dep st =
     (gm_push dep jobID (fst st), gm_set jobID (gm_get_or 0 (snd st) jobID + 1) (snd st))"

fun add_edges :: "job_instance gmap \<Rightarrow> string list gmap \<times> int gmap \<Rightarrow> string list gmap \<times> int gmap" where
  "add_edges [] st = st"
| "add_edges ((jobID, job) # jobs) st = add_edges jobs (fold (add_edge jobID) (j_depends_on job) st)"

definition initial_edges :: "job_instance gmap \<Rightarrow> string list gmap \<times> int gmap" where
  "initial_edges jobs = (map (\<lambda>p. (fst p, [])) jobs, map (\<lambda>p. (fst p, 0)) jobs)"

fun release :: "string list \<Rightarrow> int gmap \<times> string list \<Rightarrow> int gmap \<times> string list" where
  "release [] (inDegree, queue) = (inDegree, queue)"
| "release (d # ds) (inDegree, queue) =
     (let n = gm_get_or 0 inDegree d - 1
      in release ds (gm_set d n inDegree, if n = 0 then queue @ [d] else queue))"

fun kahn :: "nat \<Rightarrow> string list gmap \<Rightarrow> int gmap \<Rightarrow> string list \<Rightarrow> string list \<Rightarrow> string list option" where
  "kahn n dependents inDegree [] order = Some order"
| "kahn 0 dependents inDegree (current # queue) order = None"
| "kahn (Suc n) dependents inDegree (current # queue) order =
     (let st = release (gm_get_or [] dependents current) (inDegree, queue)
      in kahn n dependents (fst st) (snd st) (order @ [current]))"

definition TopologicalSort :: "job_instance gmap \<Rightarrow> (graph_error + string list) option" where
  \<comment> \<open>\<open>None\<close>: out of fuel\<close>
  "TopologicalSort jobs =
     (let st = add_edges jobs (initial_edges jobs);
          queue = sort (map fst (filter (\<lambda>p. snd p = 0) (snd st)));
          dependents = map (\<lambda>p. (fst p, sort (snd p))) (fst st)
      in map_option (\<lambda>order. if length order \<noteq> length jobs then Inl PossibleCycle else Inr order)
           (kahn (length jobs) dependents (snd st) queue []))"

lemma get_or_map: "gm_get_or z' (map (\<lambda>p. (fst p, f (snd p))) m) k =
    (case gm_get m k of None \<Rightarrow> z' | Some v \<Rightarrow> f v)"
  by (induction m) (auto simp: gm_get_or_def)

lemma add_edges_get:
  "fold (add_edge jobID) ds st = (deps', deg') \<Longrightarrow>
     gm_get_or [] deps' d = gm_get_or [] (fst st) d @ replicate (count_list ds d) jobID \<and>
     gm_get_or 0 deg' j = gm_get_or 0 (snd st) j + (if j = jobID then int (length ds) else 0)"
  by (induction ds arbitrary: st)
    (auto simp: add_edge_def gm_get_push gm_get_or_set replicate_append_same)

definition dependents_of :: "job_instance gmap \<Rightarrow> string \<Rightarrow> string list" where
  "dependents_of jobs d =
     concat (map (\<lambda>p. replicate (count_list (j_depends_on (snd p)) d) (fst p)) jobs)"

lemma count_list_append: "count_list (xs @ ys) x = count_list xs x + count_list ys x"
  by (induction xs) simp_all

lemma count_replicate: "count_list (replicate n y) x = (if x = y then n else 0)"
  by (induction n) auto

lemma deps_of_Cons: "deps_of ((k, j) # jobs) n = (if n = k then j_depends_on j else deps_of jobs n)"
  by (simp add: deps_of_def)

lemma count_dependents_of:
  "gm_ok jobs \<Longrightarrow> count_list (dependents_of jobs d) n = count_list (deps_of jobs n) d"
proof (induction jobs)
  case (Cons p jobs)
  obtain k j where p: "p = (k, j)" by (cases p)
  have "k \<notin> set (gm_keys jobs)" and ok: "gm_ok jobs" using Cons.prems by (simp_all add: gm_ok_def p)
  then have "deps_of jobs k = []" by (simp add: deps_of_no_job)
  then show ?case using Cons.IH [OF ok]
    by (auto simp: p dependents_of_def count_list_append count_replicate deps_of_Cons)
qed (simp add: dependents_of_def deps_of_def)

lemma add_edges_lookup:
  assumes "gm_ok jobs"
  shows "gm_get_or [] (fst (add_edges jobs st)) d = gm_get_or [] (fst st) d @ dependents_of jobs d \<and>
    gm_get_or 0 (snd (add_edges jobs st)) k = gm_get_or 0 (snd st) k + int (length (deps_of jobs k))"
  using assms
proof (induction jobs st rule: add_edges.induct)
  case (2 jobID job jobs st)
  have nk: "jobID \<notin> set (gm_keys jobs)" and ok: "gm_ok jobs" using "2.prems" by (simp_all add: gm_ok_def)
  then have none: "deps_of jobs jobID = []" by (simp add: deps_of_no_job)
  obtain deps1 deg1 where s: "fold (add_edge jobID) (j_depends_on job) st = (deps1, deg1)"
    by fastforce
  from "2.IH" [OF ok] add_edges_get [OF s, of d k] none show ?case
    by (auto simp: s dependents_of_def deps_of_Cons)
qed (simp add: dependents_of_def deps_of_def)

lemma fold_add_edge_keys:
  "gm_ok (snd st) \<Longrightarrow> jobID \<in> set (gm_keys (snd st)) \<Longrightarrow>
    gm_ok (snd (fold (add_edge jobID) ds st)) \<and>
    set (gm_keys (snd (fold (add_edge jobID) ds st))) = set (gm_keys (snd st))"
proof (induction ds arbitrary: st)
  case (Cons d ds)
  have "gm_ok (snd (add_edge jobID d st))" and
    "set (gm_keys (snd (add_edge jobID d st))) = set (gm_keys (snd st))"
    using Cons.prems set_keys_set [of jobID _ "snd st"] by (auto simp: add_edge_def)
  with Cons show ?case by simp
qed simp

lemma add_edges_keys:
  "gm_ok (snd st) \<Longrightarrow> set (gm_keys jobs) \<subseteq> set (gm_keys (snd st)) \<Longrightarrow>
    gm_ok (snd (add_edges jobs st)) \<and> set (gm_keys (snd (add_edges jobs st))) = set (gm_keys (snd st))"
proof (induction jobs st rule: add_edges.induct)
  case (2 jobID job jobs st)
  from fold_add_edge_keys [of st jobID "j_depends_on job"] 2 show ?case by simp
qed simp

lemma initial_lookup:
  "gm_get_or [] (fst (initial_edges jobs)) d = []" "gm_get_or 0 (snd (initial_edges jobs)) k = 0"
  by (induction jobs) (auto simp: initial_edges_def gm_get_or_def)

lemma initial_keys:
  "gm_keys (snd (initial_edges jobs)) = gm_keys jobs"
  by (simp add: initial_edges_def)

text \<open>Releasing the dependents of a job: degrees go down, those that reach zero are queued.\<close>

lemma release_spec:
  assumes "\<And>x. int (count_list ds x) \<le> gm_get_or 0 deg x"
  shows "(\<forall>x. gm_get_or 0 (fst (release ds (deg, q))) x = gm_get_or 0 deg x - int (count_list ds x)) \<and>
    (\<exists>new. snd (release ds (deg, q)) = q @ new \<and> distinct new \<and>
       set new = {x \<in> set ds. gm_get_or 0 deg x = int (count_list ds x)})"
  using assms
proof (induction ds arbitrary: deg q)
  case (Cons d ds)
  let ?n = "gm_get_or 0 deg d - 1"
  let ?deg = "gm_set d ?n deg" and ?q = "if ?n = 0 then q @ [d] else q"
  have le: "int (count_list ds x) \<le> gm_get_or 0 ?deg x" for x
    using Cons.prems [of x] by (auto simp: gm_get_or_set split: if_splits)
  have r: "release (d # ds) (deg, q) = release ds (?deg, ?q)" by (simp add: Let_def)
  from Cons.IH [OF le] obtain new where
    deg': "\<forall>x. gm_get_or 0 (fst (release ds (?deg, ?q))) x = gm_get_or 0 ?deg x - int (count_list ds x)"
    and new: "snd (release ds (?deg, ?q)) = ?q @ new" "distinct new"
      "set new = {x \<in> set ds. gm_get_or 0 ?deg x = int (count_list ds x)}"
    by blast
  have one: "\<forall>x. gm_get_or 0 (fst (release ds (?deg, ?q))) x = gm_get_or 0 deg x - int (count_list (d # ds) x)"
    using deg' by (simp add: gm_get_or_set)
  have cd: "int (count_list ds d) \<le> ?n" using Cons.prems [of d] by simp
  have notin: "d \<notin> set ds" if "?n = 0" using cd that by (simp add: count_list_0_iff)
  show ?case
  proof (cases "?n = 0")
    case True
    have "x \<in> set (d # new) \<longleftrightarrow> x \<in> {x \<in> set (d # ds). gm_get_or 0 deg x = int (count_list (d # ds) x)}"
      for x
    proof (cases "x = d")
      case True
      then show ?thesis using \<open>?n = 0\<close> notin by (simp add: count_notin)
    next
      case False
      then show ?thesis by (simp add: new(3) gm_get_or_set)
    qed
    then have "set (d # new) = {x \<in> set (d # ds). gm_get_or 0 deg x = int (count_list (d # ds) x)}"
      by blast
    moreover have "distinct (d # new)" using new notin [OF True] by auto
    ultimately show ?thesis unfolding r using one new(1) True by (intro conjI exI [of _ "d # new"]) simp_all
  next
    case False
    have "set new = {x \<in> set (d # ds). gm_get_or 0 deg x = int (count_list (d # ds) x)}"
    proof -
      have "gm_get_or 0 deg d \<noteq> 1 + int (count_list ds d)" if "d \<notin> set ds"
        using False that by (simp add: count_notin)
      then have "x \<in> {x \<in> set ds. gm_get_or 0 ?deg x = int (count_list ds x)} \<longleftrightarrow>
          x \<in> {x \<in> set (d # ds). gm_get_or 0 deg x = int (count_list (d # ds) x)}" for x
        by (cases "x = d"; cases "d \<in> set ds") (auto simp: gm_get_or_set)
      then show ?thesis unfolding new(3) by blast
    qed
    then show ?thesis unfolding r using one new(1,2) False by (intro conjI exI [of _ new]) simp_all
  qed
qed simp

section \<open>The invariant of Kahn's loop\<close>

definition waiting :: "job_instance gmap \<Rightarrow> string list \<Rightarrow> string \<Rightarrow> nat" where
  \<comment> \<open>dependencies of a job not yet in the order\<close>
  "waiting jobs order n = length (filter (\<lambda>d. d \<notin> set order) (deps_of jobs n))"

fun in_order :: "job_instance gmap \<Rightarrow> string list \<Rightarrow> string list \<Rightarrow> bool" where
  \<comment> \<open>every job of the list comes after all its dependencies, those before it being placed\<close>
  "in_order jobs before [] \<longleftrightarrow> True"
| "in_order jobs before (n # ns) \<longleftrightarrow>
     set (deps_of jobs n) \<subseteq> set before \<and> in_order jobs (before @ [n]) ns"

lemma in_order_snoc:
  "in_order jobs before (ns @ [n]) \<longleftrightarrow>
     in_order jobs before ns \<and> set (deps_of jobs n) \<subseteq> set before \<union> set ns"
  by (induction jobs before ns rule: in_order.induct) auto

definition kahn_inv :: "job_instance gmap \<Rightarrow> int gmap \<Rightarrow> string list \<Rightarrow> string list \<Rightarrow> bool" where
  "kahn_inv jobs deg queue order \<longleftrightarrow>
     distinct (order @ queue) \<and> in_order jobs [] order \<and>
     (\<forall>n. gm_get_or 0 deg n = int (waiting jobs order n)) \<and>
     (\<forall>n. n \<in> set (order @ queue) \<longleftrightarrow> n \<in> set (gm_keys jobs) \<and> gm_get_or 0 deg n = 0)"

lemma waiting_snoc:
  "c \<notin> set order \<Longrightarrow>
    waiting jobs order n = waiting jobs (order @ [c]) n + count_list (deps_of jobs n) c"
proof -
  assume "c \<notin> set order"
  then have "length (filter (\<lambda>d. d \<notin> set order) ds) =
      length (filter (\<lambda>d. d \<notin> set (order @ [c])) ds) + count_list ds c" for ds
    by (induction ds) auto
  then show ?thesis by (simp add: waiting_def)
qed

lemma waiting_0: "waiting jobs order n = 0 \<longleftrightarrow> set (deps_of jobs n) \<subseteq> set order"
  by (auto simp: waiting_def filter_empty_conv)

lemma kahn_inv_step:
  assumes inv: "kahn_inv jobs deg (c # queue) order"
    and ds: "\<And>n. count_list ds n = count_list (deps_of jobs n) c"
    and r: "release ds (deg, queue) = (deg', queue')"
  shows "kahn_inv jobs deg' queue' (order @ [c])"
proof -
  have nc: "c \<notin> set order" and dist: "distinct (order @ c # queue)"
    and deg: "\<And>n. gm_get_or 0 deg n = int (waiting jobs order n)"
    and mem: "\<And>n. n \<in> set (order @ c # queue) \<longleftrightarrow> n \<in> set (gm_keys jobs) \<and> gm_get_or 0 deg n = 0"
    and ord: "in_order jobs [] order"
    using inv by (auto simp: kahn_inv_def)
  note w = waiting_snoc [OF nc, where jobs = jobs]
  have le: "\<And>n. int (count_list ds n) \<le> gm_get_or 0 deg n" by (simp add: deg ds w)
  from release_spec [OF le, of queue] obtain new where
    deg': "\<And>n. gm_get_or 0 deg' n = gm_get_or 0 deg n - int (count_list ds n)"
    and new: "queue' = queue @ new" "distinct new"
      "set new = {x \<in> set ds. gm_get_or 0 deg x = int (count_list ds x)}"
    by (auto simp: r)
  have deg'': "gm_get_or 0 deg' n = int (waiting jobs (order @ [c]) n)" for n
    by (simp add: deg' deg ds w [of n])
  have pos: "0 < count_list ds x" if "x \<in> set ds" for x
    using that by (metis count_list_0_iff gr0I)
  have fresh: "x \<notin> set (order @ c # queue)" if "x \<in> set new" for x
    using that pos [of x] mem [of x] new(3) by auto
  have key: "x \<in> set (gm_keys jobs)" if "x \<in> set ds" for x
    using pos [OF that] deps_of_no_job [of x jobs] ds [of x] by fastforce
  have mem': "n \<in> set ((order @ [c]) @ queue') \<longleftrightarrow>
      n \<in> set (gm_keys jobs) \<and> gm_get_or 0 deg' n = 0" for n
  proof (cases "n \<in> set ds")
    case True
    have "n \<notin> set (order @ c # queue)" using mem [of n] le [of n] pos [OF True] by auto
    then show ?thesis using True key [OF True] new by (auto simp: deg')
  next
    case False
    then have "count_list ds n = 0" by (simp add: count_list_0_iff)
    then show ?thesis using False mem [of n] new by (auto simp: deg')
  qed
  have dist': "distinct ((order @ [c]) @ queue')" using dist fresh new by auto
  have "set (deps_of jobs c) \<subseteq> set order"
    using mem [of c] deg [of c] by (simp add: waiting_0)
  then have "in_order jobs [] (order @ [c])" using ord by (simp add: in_order_snoc)
  then show ?thesis unfolding kahn_inv_def using dist' deg'' mem' by blast
qed

lemma kahn_spec:
  assumes "kahn_inv jobs deg queue order" and "length (gm_keys jobs) \<le> n + length order"
    and ds: "\<And>c m. count_list (gm_get_or [] dependents c) m = count_list (deps_of jobs m) c"
  shows "\<exists>r deg'. kahn n dependents deg queue order = Some r \<and> kahn_inv jobs deg' [] r"
  using assms(1,2)
proof (induction n arbitrary: deg queue order)
  case 0
  show ?case
  proof (cases queue)
    case (Cons c q)
    have "set (order @ queue) \<subseteq> set (gm_keys jobs)" using "0.prems" by (auto simp: kahn_inv_def)
    then have "length (order @ queue) \<le> length (gm_keys jobs)"
      using "0.prems"(1) unfolding kahn_inv_def
      by (metis List.finite_set card_length card_mono distinct_card le_trans)
    with 0 Cons show ?thesis by simp
  qed (use 0 in auto)
next
  case (Suc n)
  show ?case
  proof (cases queue)
    case (Cons c q)
    obtain deg' q' where r: "release (gm_get_or [] dependents c) (deg, q) = (deg', q')" by fastforce
    have "kahn_inv jobs deg' q' (order @ [c])"
      using kahn_inv_step [OF _ ds r] Suc.prems(1) Cons by simp
    from Suc.IH [OF this] Suc.prems(2) show ?thesis by (simp add: Cons r)
  qed (use Suc in auto)
qed

lemma kahn_inv_start:
  assumes "gm_ok jobs" and "gm_ok deg" and "set (gm_keys deg) = set (gm_keys jobs)"
    and "\<And>k. gm_get_or 0 deg k = int (length (deps_of jobs k))"
  shows "kahn_inv jobs deg (sort (map fst (filter (\<lambda>p. snd p = 0) deg))) []"
proof -
  have "n \<in> fst ` {p \<in> set deg. snd p = 0} \<longleftrightarrow> n \<in> set (gm_keys jobs) \<and> gm_get_or 0 deg n = 0" for n
  proof -
    have "n \<in> fst ` {p \<in> set deg. snd p = 0} \<longleftrightarrow> gm_get deg n = Some 0"
      using gm_in_get [OF assms(2), of n 0] gm_get_in [of deg n 0] by (auto simp: image_iff)
    also have "\<dots> \<longleftrightarrow> n \<in> set (gm_keys deg) \<and> gm_get_or 0 deg n = 0"
      using gm_get_None [of deg n] by (auto simp: gm_get_or_def split: option.splits)
    finally show ?thesis using assms(3) by simp
  qed
  moreover have "distinct (map fst (filter (\<lambda>p. snd p = 0) deg))"
    using assms(2) by (auto simp: gm_ok_def distinct_map intro: inj_on_subset)
  ultimately show ?thesis
    by (simp add: kahn_inv_def waiting_def assms(4))
qed


lemma kahn_inv_start_edges:
  assumes "gm_ok jobs"
  shows "kahn_inv jobs (snd (add_edges jobs (initial_edges jobs)))
    (sort (map fst (filter (\<lambda>p. snd p = 0) (snd (add_edges jobs (initial_edges jobs)))))) []"
proof (rule kahn_inv_start [OF assms])
  have i: "gm_ok (snd (initial_edges jobs))" using assms initial_keys [of jobs] by (simp add: gm_ok_def)
  from add_edges_keys [OF i, of jobs] initial_keys [of jobs]
  show "gm_ok (snd (add_edges jobs (initial_edges jobs)))"
    "set (gm_keys (snd (add_edges jobs (initial_edges jobs)))) = set (gm_keys jobs)" by simp_all
  show "gm_get_or 0 (snd (add_edges jobs (initial_edges jobs))) k = int (length (deps_of jobs k))" for k
    using add_edges_lookup [OF assms, of "initial_edges jobs"] initial_lookup by simp
qed

lemma sorted_dependents:
  assumes "gm_ok jobs"
  shows "gm_get_or [] (map (\<lambda>p. (fst p, sort (snd p))) (fst (add_edges jobs (initial_edges jobs)))) c =
    sort (dependents_of jobs c)"
proof -
  have "gm_get_or [] (fst (add_edges jobs (initial_edges jobs))) c = dependents_of jobs c"
    using add_edges_lookup [OF assms, of "initial_edges jobs"] initial_lookup by simp
  note h = this [symmetric]
  show ?thesis by (simp add: get_or_map h) (simp add: gm_get_or_def split: option.split)
qed

lemma count_list_mset: "count_list xs x = count (mset xs) x"
  by (induction xs) simp_all

lemma count_sorted_dependents:
  assumes "gm_ok jobs"
  shows "count_list (gm_get_or []
      (map (\<lambda>p. (fst p, sort (snd p))) (fst (add_edges jobs (initial_edges jobs)))) c) m =
    count_list (deps_of jobs m) c"
  using count_dependents_of [OF assms, of c m] by (simp add: sorted_dependents [OF assms] count_list_mset)

lemma TopologicalSort_cases:
  assumes "gm_ok jobs"
  shows "\<exists>order deg. kahn_inv jobs deg [] order \<and>
    TopologicalSort jobs = Some (if length order \<noteq> length jobs then Inl PossibleCycle else Inr order)"
proof -
  let ?st = "add_edges jobs (initial_edges jobs)"
  let ?deps = "map (\<lambda>p. (fst p, sort (snd p))) (fst ?st)"
  have "length (gm_keys jobs) \<le> length jobs + length []" by simp
  from kahn_spec [where dependents = ?deps, OF kahn_inv_start_edges [OF assms] this
      count_sorted_dependents [OF assms]]
  show ?thesis by (auto simp: TopologicalSort_def Let_def)
qed

text \<open>Positions in a duplicate-free order.\<close>

definition position :: "'a list \<Rightarrow> 'a \<Rightarrow> nat" where
  "position xs x = length (takeWhile (\<lambda>y. y \<noteq> x) xs)"

lemma position_mem: "x \<in> set xs \<Longrightarrow> position (xs @ ys) x < length xs"
  by (induction xs) (auto simp: position_def)

lemma position_here: "x \<notin> set xs \<Longrightarrow> position (xs @ x # ys) x = length xs"
  by (induction xs) (auto simp: position_def)

lemma in_order_position:
  "in_order jobs before ns \<Longrightarrow> distinct (before @ ns) \<Longrightarrow> n \<in> set ns \<Longrightarrow> d \<in> set (deps_of jobs n) \<Longrightarrow>
    position (before @ ns) d < position (before @ ns) n"
proof (induction jobs before ns rule: in_order.induct)
  case (2 jobs before m ns)
  show ?case
  proof (cases "n = m")
    case True
    then have "d \<in> set before" using "2.prems" by auto
    then have "position (before @ m # ns) d < length before"
      by (rule position_mem)
    moreover have "position (before @ m # ns) n = length before"
      unfolding True by (rule position_here) (use "2.prems"(2) in simp)
    ultimately show ?thesis by simp
  next
    case False
    with 2 show ?thesis by simp
  qed
qed simp

lemma kahn_inv_all_acyclic:
  assumes "kahn_inv jobs deg [] order" and "set order = set (gm_keys jobs)"
  shows "acyclic (edges (deps_of jobs))" and "closed_jobs jobs"
proof -
  have ord: "in_order jobs [] order" "distinct order"
    and deg: "\<And>n. gm_get_or 0 deg n = int (waiting jobs order n)"
    and mem: "\<And>n. n \<in> set order \<Longrightarrow> gm_get_or 0 deg n = 0"
    using assms(1) by (auto simp: kahn_inv_def)
  have "edges (deps_of jobs) \<subseteq> (measure (position order))\<inverse>"
  proof (rule subrelI)
    fix u v assume e: "(u, v) \<in> edges (deps_of jobs)"
    then have "v \<in> set (deps_of jobs u)" by (simp add: edges_def)
    moreover have "u \<in> set order"
      using e deps_of_no_job [of u jobs] assms(2) by (force simp: edges_def)
    ultimately show "(u, v) \<in> (measure (position order))\<inverse>"
      using in_order_position [of jobs "[]" order u v] ord by simp
  qed
  then show "acyclic (edges (deps_of jobs))"
    by (meson acyclic_converse acyclic_subset wf_acyclic wf_measure)
  show "closed_jobs jobs"
    unfolding closed_jobs_def
  proof
    fix n
    show "set (deps_of jobs n) \<subseteq> set (gm_keys jobs)"
    proof (cases "n \<in> set order")
      case True
      then show ?thesis using mem [OF True] deg [of n] assms(2) by (simp add: waiting_0)
    next
      case False
      then show ?thesis using assms(2) deps_of_no_job [of n jobs] by simp
    qed
  qed
qed

lemma kahn_inv_stuck:
  assumes "kahn_inv jobs deg [] order" and "closed_jobs jobs" and "acyclic (edges (deps_of jobs))"
  shows "set order = set (gm_keys jobs)"
proof (rule ccontr)
  let ?R = "set (gm_keys jobs) - set order"
  have deg: "\<And>n. gm_get_or 0 deg n = int (waiting jobs order n)"
    and mem: "\<And>n. n \<in> set order \<longleftrightarrow> n \<in> set (gm_keys jobs) \<and> gm_get_or 0 deg n = 0"
    using assms(1) by (auto simp: kahn_inv_def)
  assume "set order \<noteq> set (gm_keys jobs)"
  then obtain x where x: "x \<in> ?R" using mem by blast
  have "wf ((edges (deps_of jobs))\<inverse>)"
    using finite_acyclic_wf_converse [OF deps_finite assms(3)] .
  from wfE_min [OF this x] obtain z where z: "z \<in> ?R"
    and min: "\<And>y. (z, y) \<in> edges (deps_of jobs) \<Longrightarrow> y \<notin> ?R" by (metis converse_iff)
  have "waiting jobs order z \<noteq> 0" using z mem [of z] deg [of z] by auto
  then obtain d where d: "d \<in> set (deps_of jobs z)" "d \<notin> set order" by (auto simp: waiting_0)
  then have "d \<in> ?R" using assms(2) by (auto simp: closed_jobs_def)
  moreover have "(z, d) \<in> edges (deps_of jobs)" using d by (simp add: edges_def)
  ultimately show False using min by blast
qed

lemma TopologicalSort_spec:
  assumes "gm_ok jobs"
  shows "\<exists>r. TopologicalSort jobs = Some r \<and>
    (case r of
       Inr order \<Rightarrow> closed_jobs jobs \<and> acyclic (edges (deps_of jobs)) \<and> distinct order \<and>
         set order = set (gm_keys jobs) \<and> in_order jobs [] order
     | Inl e \<Rightarrow> e = PossibleCycle \<and> \<not> (closed_jobs jobs \<and> acyclic (edges (deps_of jobs))))"
proof -
  from TopologicalSort_cases [OF assms] obtain order deg where inv: "kahn_inv jobs deg [] order"
    and r: "TopologicalSort jobs =
      Some (if length order \<noteq> length jobs then Inl PossibleCycle else Inr order)"
    by blast
  have d: "distinct order" "in_order jobs [] order" and sub: "set order \<subseteq> set (gm_keys jobs)"
    using inv by (auto simp: kahn_inv_def)
  have len: "length order = card (set order)" "length jobs = card (set (gm_keys jobs))"
    using d assms distinct_card [of order] distinct_card [of "gm_keys jobs"] by (simp_all add: gm_ok_def)
  have all: "length order = length jobs \<longleftrightarrow> set order = set (gm_keys jobs)"
    unfolding len using card_subset_eq [OF _ sub] by (metis List.finite_set)
  show ?thesis
  proof (cases "set order = set (gm_keys jobs)")
    case True
    with kahn_inv_all_acyclic [OF inv True] all r d show ?thesis by simp
  next
    case False
    with kahn_inv_stuck [OF inv] all r show ?thesis by auto
  qed
qed

text \<open>
  C2: \<open>TopologicalSort\<close> always returns. It succeeds exactly when every dependency is a job and
  the dependencies have no cycle, and then the order holds every job once, each after all the
  jobs it depends on.
\<close>

theorem TopologicalSort_correct:
  assumes "gm_ok jobs"
  shows "\<exists>r. TopologicalSort jobs = Some r \<and>
    (case r of
       Inr order \<Rightarrow> closed_jobs jobs \<and> acyclic (edges (deps_of jobs)) \<and> distinct order \<and>
         set order = set (gm_keys jobs) \<and> in_order jobs [] order
     | Inl e \<Rightarrow> e = PossibleCycle \<and> \<not> (closed_jobs jobs \<and> acyclic (edges (deps_of jobs))))"
  by (rule TopologicalSort_spec [OF assms])

definition ex_graph :: "job_instance gmap" where
  "ex_graph = [(''test'', ex_job [''build'']), (''build'', ex_job []), (''lint'', ex_job []),
     (''ship'', ex_job [''test'', ''lint''])]"

theorem TopologicalSort_correct_witness:
  "gm_ok ex_graph \<and>
   TopologicalSort ex_graph = Some (Inr [''build'', ''lint'', ''test'', ''ship'']) \<and>
   acyclic (edges (deps_of ex_graph)) \<and>
   in_order ex_graph [] [''build'', ''lint'', ''test'', ''ship'']"
proof -
  have ok: "gm_ok ex_graph" by (simp add: gm_ok_def ex_graph_def)
  moreover have t: "TopologicalSort ex_graph = Some (Inr [''build'', ''lint'', ''test'', ''ship''])"
    by code_simp
  ultimately show ?thesis using TopologicalSort_correct [OF ok] by (simp add: t)
qed

lemma release_cong:
  "(\<And>x. gm_get_or 0 deg x = gm_get_or 0 deg' x) \<Longrightarrow>
    snd (release ds (deg, q)) = snd (release ds (deg', q)) \<and>
    (\<forall>x. gm_get_or 0 (fst (release ds (deg, q))) x = gm_get_or 0 (fst (release ds (deg', q))) x)"
proof (induction ds arbitrary: deg deg' q)
  case (Cons d ds)
  have "gm_get_or 0 (gm_set d n deg) x = gm_get_or 0 (gm_set d n deg') x" for n x
    by (simp add: gm_get_or_set Cons.prems)
  from Cons.IH [OF this] show ?case by (simp add: Let_def Cons.prems [of d])
qed simp

lemma kahn_cong:
  "(\<And>x. gm_get_or 0 deg x = gm_get_or 0 deg' x) \<Longrightarrow>
    (\<And>x. gm_get_or [] dependents x = gm_get_or [] dependents' x) \<Longrightarrow>
    kahn n dependents deg queue order = kahn n dependents' deg' queue order"
proof (induction n arbitrary: deg deg' queue order)
  case 0
  then show ?case by (cases queue) simp_all
next
  case (Suc n)
  show ?case
  proof (cases queue)
    case (Cons c q)
    let ?r = "release (gm_get_or [] dependents c) (deg, q)"
    let ?r' = "release (gm_get_or [] dependents c) (deg', q)"
    have r: "snd ?r = snd ?r'" "\<And>x. gm_get_or 0 (fst ?r) x = gm_get_or 0 (fst ?r') x"
      using release_cong [OF Suc.prems(1)] by blast+
    have "kahn n dependents (fst ?r) (snd ?r) (order @ [c]) =
        kahn n dependents' (fst ?r') (snd ?r') (order @ [c])"
      unfolding r(1) by (rule Suc.IH [OF r(2) Suc.prems(2)])
    then show ?thesis by (simp add: Cons Let_def Suc.prems(2) [of c, symmetric])
  qed simp
qed

text \<open>
  The order is a function of the graph, not of the order in which Go visits the job map:
  whatever the visiting order, the result is the same list.
\<close>

theorem TopologicalSort_deterministic:
  assumes "gm_ok jobs" and "mset jobs = mset jobs'"
  shows "TopologicalSort jobs' = TopologicalSort jobs"
proof -
  have same: "set jobs = set jobs'" "length jobs = length jobs'"
    using assms(2) mset_eq_setD mset_eq_length by blast+
  have "mset (gm_keys jobs) = mset (gm_keys jobs')" using assms(2) by simp
  then have ok': "gm_ok jobs'" using assms(1) by (metis gm_ok_def mset_eq_imp_distinct_iff)
  let ?s = "add_edges jobs (initial_edges jobs)" and ?s' = "add_edges jobs' (initial_edges jobs')"
  have deps: "deps_of jobs = deps_of jobs'"
    using map_of_eqI [of jobs jobs'] same assms(1) ok'
    by (intro ext) (metis deps_of_def gm_ok_def map_of_inject_set)
  have deg: "gm_get_or 0 (snd ?s) k = gm_get_or 0 (snd ?s') k" for k
    using add_edges_lookup [OF assms(1), of "initial_edges jobs"]
      add_edges_lookup [OF ok', of "initial_edges jobs'"] initial_lookup deps by simp
  have dependents: "gm_get_or [] (map (\<lambda>p. (fst p, sort (snd p))) (fst ?s)) c =
      gm_get_or [] (map (\<lambda>p. (fst p, sort (snd p))) (fst ?s')) c" for c
  proof -
    have "count_list (dependents_of jobs c) x = count_list (dependents_of jobs' c) x" for x
      using count_dependents_of [OF assms(1), of c x] count_dependents_of [OF ok', of c x] deps by simp
    then have "mset (dependents_of jobs c) = mset (dependents_of jobs' c)"
      by (intro multiset_eqI) (simp add: count_list_mset)
    then show ?thesis
      using sorted_dependents [OF assms(1)] sorted_dependents [OF ok'] by (metis sorted_list_of_multiset_mset)
  qed
  have queue: "sort (map fst (filter (\<lambda>p. snd p = 0) (snd ?s))) = sort (map fst (filter (\<lambda>p. snd p = 0) (snd ?s')))"
  proof (rule sorted_distinct_set_unique)
    note inv = kahn_inv_start_edges [OF assms(1)] kahn_inv_start_edges [OF ok']
    show "distinct (sort (map fst (filter (\<lambda>p. snd p = 0) (snd ?s))))"
      "distinct (sort (map fst (filter (\<lambda>p. snd p = 0) (snd ?s'))))"
      using inv by (simp_all add: kahn_inv_def)
    have "set (gm_keys jobs) = set (gm_keys jobs')" using same by simp
    then show "set (sort (map fst (filter (\<lambda>p. snd p = 0) (snd ?s)))) =
        set (sort (map fst (filter (\<lambda>p. snd p = 0) (snd ?s'))))"
      using inv deg by (simp add: kahn_inv_def set_eq_iff)
  qed simp_all
  show ?thesis
    using kahn_cong [OF deg dependents] by (simp add: TopologicalSort_def Let_def same(2) queue)
qed

theorem TopologicalSort_deterministic_witness:
  "TopologicalSort (rev ex_graph) = Some (Inr [''build'', ''lint'', ''test'', ''ship''])"
proof -
  have "gm_ok ex_graph" "mset ex_graph = mset (rev ex_graph)" by (simp_all add: gm_ok_def ex_graph_def)
  from TopologicalSort_deterministic [OF this]
  have "TopologicalSort (rev ex_graph) = TopologicalSort ex_graph" .
  also have "\<dots> = Some (Inr [''build'', ''lint'', ''test'', ''ship''])" by code_simp
  finally show ?thesis .
qed

end
