(* ===== verification/Plan_Deps.thy ===== *)
theory Plan_Deps
  imports Job_Graph Normalize
begin

text \<open>
  How job instances come to depend on each other: \<open>JobPlanner.resolveDependencies\<close> of
  \<open>internal/planner/planner.go\<close> and \<open>ResolvePromotionDependencies\<close> of
  \<open>internal/planner/promotion.go\<close>. Both look jobs up under the text \<open>component.environment\<close> and
  append to the \<open>DependsOn\<close>, \<open>AdvisoryDependsOn\<close> and \<open>Gates\<close> of jobs they reach through
  pointers; here the job map is returned updated.
\<close>

section \<open>Jobs by name\<close>

definition job_key :: "string \<Rightarrow> string \<Rightarrow> string" where
  \<comment> \<open>\<open>fmt.Sprintf("%s.%s", component, environment)\<close>\<close>
  "job_key c e = c @ ''.'' @ e"

definition instance_key :: "job_instance \<Rightarrow> string" where
  "instance_key j = job_key (j_component j) (j_environment j)"

definition index_jobs :: "(job_instance \<Rightarrow> string) \<Rightarrow> job_instance gmap \<Rightarrow> string list gmap" where
  "index_jobs key jobs = gm_group (\<lambda>p. key (snd p)) fst jobs"

definition jobs_at :: "(job_instance \<Rightarrow> string) \<Rightarrow> job_instance gmap \<Rightarrow> string \<Rightarrow> string list" where
  \<comment> \<open>the names of the jobs with a key, in visiting order\<close>
  "jobs_at key jobs k = map fst (filter (\<lambda>p. key (snd p) = k) jobs)"

lemma index_jobs_get [gm_simps]: "gm_get_or [] (index_jobs key jobs) k = jobs_at key jobs k"
  by (simp add: index_jobs_def jobs_at_def gm_get_group)

lemma index_jobs_has [gm_simps]: "gm_has (index_jobs key jobs) k \<longleftrightarrow> jobs_at key jobs k \<noteq> []"
  by (auto simp: index_jobs_def jobs_at_def gm_has_group filter_empty_conv)

lemma jobs_at_distinct: "gm_ok jobs \<Longrightarrow> distinct (jobs_at key jobs k)"
  by (auto simp: jobs_at_def gm_ok_def distinct_map intro: inj_on_subset)

lemma in_jobs_at:
  "gm_ok jobs \<Longrightarrow> x \<in> set (jobs_at key jobs k) \<longleftrightarrow> (\<exists>j. gm_get jobs x = Some j \<and> key j = k)"
  by (force simp: jobs_at_def dest: gm_get_in intro: gm_in_get)

lemma jobs_at_keys: "set (jobs_at key jobs k) \<subseteq> set (gm_keys jobs)"
  by (auto simp: jobs_at_def)

definition update_job :: "(job_instance \<Rightarrow> job_instance) \<Rightarrow> string \<Rightarrow> job_instance gmap \<Rightarrow> job_instance gmap" where
  \<comment> \<open>an assignment through the pointer \<open>jobInstances[jobID]\<close>\<close>
  "update_job f jobID jobs =
     (case gm_get jobs jobID of None \<Rightarrow> jobs | Some j \<Rightarrow> gm_set jobID (f j) jobs)"

definition update_jobs :: "(job_instance \<Rightarrow> job_instance) \<Rightarrow> string list \<Rightarrow> job_instance gmap \<Rightarrow> job_instance gmap" where
  "update_jobs f ids jobs = fold (update_job f) ids jobs"

lemma keys_set_old: "k \<in> set (gm_keys m) \<Longrightarrow> gm_keys (gm_set k v m) = gm_keys m"
  by (induction m) auto

lemma update_job_keys [simp]: "gm_keys (update_job f i jobs) = gm_keys jobs"
proof (cases "gm_get jobs i")
  case (Some j)
  then have "i \<in> set (gm_keys jobs)" using gm_get_None [of jobs i] by auto
  with Some show ?thesis by (simp add: update_job_def keys_set_old)
qed (simp add: update_job_def)

lemma update_jobs_keys [simp]: "gm_keys (update_jobs f ids jobs) = gm_keys jobs"
  unfolding update_jobs_def by (induction ids arbitrary: jobs) simp_all

lemma update_job_get:
  "gm_get (update_job f i jobs) k = (if k = i then map_option f (gm_get jobs k) else gm_get jobs k)"
  by (cases "gm_get jobs i") (auto simp: update_job_def gm_get_set)

lemma update_jobs_get:
  "distinct ids \<Longrightarrow> gm_get (update_jobs f ids jobs) k =
     (if k \<in> set ids then map_option f (gm_get jobs k) else gm_get jobs k)"
  unfolding update_jobs_def by (induction ids arbitrary: jobs) (auto simp: update_job_get)

lemma gm_ok_keys: "gm_keys m = gm_keys m' \<Longrightarrow> gm_ok m \<longleftrightarrow> gm_ok m'"
  by (simp add: gm_ok_def)

section \<open>Component dependencies\<close>

datatype plan_dep_error = AlwaysDependencyMissing string string

definition edge_mode :: "resolved_dependency \<Rightarrow> job_instance \<Rightarrow> string" where
  "edge_mode d j =
     (let mode = (if rd_mode d = [] then j_dependency_mode j else rd_mode d)
      in if mode = [] then DependencyModeEnforced else mode)"

definition add_edges_by_mode :: "resolved_dependency \<Rightarrow> string list \<Rightarrow> job_instance \<Rightarrow> job_instance" where
  "add_edges_by_mode d depJobs j =
     (if edge_mode d j = DependencyModeAdvisory
        then j\<lparr>j_advisory_depends_on := j_advisory_depends_on j @ depJobs\<rparr>
      else if edge_mode d j = DependencyModeDisabled then j
      else j\<lparr>j_depends_on := j_depends_on j @ depJobs\<rparr>)"

definition resolve_edge :: "string list gmap \<Rightarrow> string \<Rightarrow> string list \<Rightarrow> resolved_dependency \<Rightarrow>
    job_instance gmap \<Rightarrow> plan_dep_error + job_instance gmap" where
  "resolve_edge compToJobs key myJobs d jobs =
     (let depKey = job_key (rd_component d) (rd_environment d)
      in if \<not> gm_has compToJobs depKey then
           (let policy = (if rd_include d = [] then IncludeIfSelected else rd_include d)
            in if policy = IncludeAlways then Inl (AlwaysDependencyMissing key depKey) else Inr jobs)
         else Inr (update_jobs (add_edges_by_mode d (gm_get_or [] compToJobs depKey)) myJobs jobs))"

definition resolve_instance :: "string list gmap \<Rightarrow> string \<Rightarrow> component_instance \<Rightarrow>
    job_instance gmap \<Rightarrow> plan_dep_error + job_instance gmap" where
  "resolve_instance compToJobs envName inst jobs =
     (let key = job_key (ci_component inst) envName
      in if \<not> gm_has compToJobs key then Inr jobs
         else foldR (resolve_edge compToJobs key (gm_get_or [] compToJobs key)) (ci_depends_on inst) jobs)"

fun resolve_environment :: "string list gmap \<Rightarrow> string \<times> component_instance list \<Rightarrow>
    job_instance gmap \<Rightarrow> plan_dep_error + job_instance gmap" where
  "resolve_environment compToJobs (envName, insts) jobs =
     foldR (resolve_instance compToJobs envName) insts jobs"

definition planner_resolveDependencies :: "job_instance gmap \<Rightarrow> component_instance list gmap \<Rightarrow>
    plan_dep_error + job_instance gmap" where
  "planner_resolveDependencies jobs compInstances =
     foldR (resolve_environment (index_jobs instance_key jobs)) compInstances jobs"

section \<open>Promotion dependencies\<close>

definition append_same_component :: "string list gmap \<Rightarrow> promotion_dependency \<Rightarrow> job_instance \<Rightarrow> job_instance" where
  "append_same_component compEnvToJobs d j =
     (let depJobs = gm_get_or [] compEnvToJobs (job_key (j_component j) (pd_environment d))
      in if depJobs = [] then j else j\<lparr>j_depends_on := j_depends_on j @ depJobs\<rparr>)"

definition addPromotionEdges :: "string list gmap \<Rightarrow> string list gmap \<Rightarrow> string \<Rightarrow> promotion_dependency \<Rightarrow>
    job_instance gmap \<Rightarrow> job_instance gmap" where
  "addPromotionEdges compEnvToJobs envToJobs envName d jobs =
     (if pd_strategy d = ''same-component'' then
        update_jobs (append_same_component compEnvToJobs d) (gm_get_or [] envToJobs envName) jobs
      else if pd_strategy d = ''environment-barrier'' then
        (let depJobs = gm_get_or [] envToJobs (pd_environment d)
         in if depJobs = [] then jobs
            else update_jobs (\<lambda>j. j\<lparr>j_depends_on := j_depends_on j @ depJobs\<rparr>)
                   (gm_get_or [] envToJobs envName) jobs)
      else jobs)"

definition promotion_gate_for :: "promotion_dependency \<Rightarrow> job_instance \<Rightarrow> promotion_gate" where
  "promotion_gate_for d j = \<lparr>pg_type = ''environment-promotion'', pg_environment = pd_environment d,
     pg_component = j_component j, pg_condition = pd_condition d,
     pg_match = [(''revision'', pd_match d)]\<rparr>"

definition addPromotionGates :: "string list gmap \<Rightarrow> string \<Rightarrow> promotion_dependency \<Rightarrow>
    job_instance gmap \<Rightarrow> job_instance gmap" where
  "addPromotionGates envToJobs envName d jobs =
     update_jobs (\<lambda>j. j\<lparr>j_gates := j_gates j @ [promotion_gate_for d j]\<rparr>)
       (gm_get_or [] envToJobs envName) jobs"

definition in_plan :: "promotion_dependency \<Rightarrow> bool" where
  "in_plan d \<longleftrightarrow> pd_satisfy d = ''same-plan'' \<or> pd_satisfy d = ''same-plan-or-previous-success''"

definition cross_plan :: "promotion_dependency \<Rightarrow> bool" where
  "cross_plan d \<longleftrightarrow> pd_satisfy d = ''previous-success'' \<or> pd_satisfy d = ''same-plan-or-previous-success''"

definition promote :: "string list \<Rightarrow> string list gmap \<Rightarrow> string list gmap \<Rightarrow> string \<Rightarrow>
    promotion_dependency \<Rightarrow> job_instance gmap \<Rightarrow> job_instance gmap" where
  "promote activeEnvs compEnvToJobs envToJobs envName d jobs =
     (let depActive = pd_environment d \<in> set activeEnvs
      in if depActive \<and> in_plan d then addPromotionEdges compEnvToJobs envToJobs envName d jobs
         else if \<not> depActive \<and> cross_plan d then addPromotionGates envToJobs envName d jobs
         else jobs)"

fun promote_environment :: "string list \<Rightarrow> string list gmap \<Rightarrow> string list gmap \<Rightarrow> string \<times> environment \<Rightarrow>
    job_instance gmap \<Rightarrow> job_instance gmap" where
  "promote_environment activeEnvs compEnvToJobs envToJobs (envName, env) jobs =
     (if envName \<notin> set activeEnvs then jobs
      else fold (promote activeEnvs compEnvToJobs envToJobs envName) (env_promotion env) jobs)"

definition ResolvePromotionDependencies :: "job_instance gmap \<Rightarrow> component_instance list gmap \<Rightarrow>
    environment gmap \<Rightarrow> job_instance gmap" where
  "ResolvePromotionDependencies jobs compInstances environments =
     fold (promote_environment (gm_keys compInstances) (index_jobs instance_key jobs)
             (index_jobs j_environment jobs)) environments jobs"

section \<open>What happens to one job\<close>

definition dependency_tasks :: "string list gmap \<Rightarrow> component_instance list gmap \<Rightarrow>
    (string \<times> resolved_dependency) list" where
  \<comment> \<open>the dependencies in the order the three loops visit them, with the dependent's key\<close>
  "dependency_tasks idx insts =
     concat (map (\<lambda>p. concat (map (\<lambda>i.
         let key = job_key (ci_component i) (fst p)
         in if gm_has idx key then map (Pair key) (ci_depends_on i) else []) (snd p))) insts)"

definition dependency_effect :: "job_instance gmap \<Rightarrow> string \<times> resolved_dependency \<Rightarrow> job_instance \<Rightarrow> job_instance" where
  "dependency_effect jobs t j =
     (if instance_key j = fst t
      then add_edges_by_mode (snd t)
             (jobs_at instance_key jobs (job_key (rd_component (snd t)) (rd_environment (snd t)))) j
      else j)"

lemma foldR_concat: "foldR f (concat xss) s = foldR (\<lambda>xs. foldR f xs) xss s"
  by (induction xss arbitrary: s) (auto simp: foldR_append bindR_def split: sum.split)

lemma foldR_map: "foldR f (map g xs) s = foldR (\<lambda>x. f (g x)) xs s"
  by (induction xs arbitrary: s) (auto simp: bindR_def split: sum.splits)

lemma foldR_cong: "(\<And>x s. x \<in> set xs \<Longrightarrow> f x s = g x s) \<Longrightarrow> foldR f xs s = foldR g xs s"
  by (induction xs arbitrary: s) (auto simp: bindR_def split: sum.splits)

definition task_step :: "string list gmap \<Rightarrow> string \<times> resolved_dependency \<Rightarrow>
    job_instance gmap \<Rightarrow> plan_dep_error + job_instance gmap" where
  "task_step idx t jobs = resolve_edge idx (fst t) (gm_get_or [] idx (fst t)) (snd t) jobs"

lemma task_step_pair: "(\<lambda>x. task_step idx (k, x)) = resolve_edge idx k (gm_get_or [] idx k)"
  by (rule ext, rule ext) (simp add: task_step_def)

lemma resolveDependencies_tasks:
  "planner_resolveDependencies jobs insts =
     foldR (task_step (index_jobs instance_key jobs)) (dependency_tasks (index_jobs instance_key jobs) insts) jobs"
proof -
  let ?idx = "index_jobs instance_key jobs"
  have i: "resolve_instance ?idx e i s = foldR (task_step ?idx)
      (let key = job_key (ci_component i) e
       in if gm_has ?idx key then map (Pair key) (ci_depends_on i) else []) s" for e i s
    by (simp add: resolve_instance_def Let_def foldR_map task_step_pair)
  have "resolve_environment ?idx p s = foldR (task_step ?idx) (concat (map (\<lambda>i.
         let key = job_key (ci_component i) (fst p)
         in if gm_has ?idx key then map (Pair key) (ci_depends_on i) else []) (snd p))) s" for p s
    by (cases p) (simp add: foldR_concat foldR_map i [abs_def])
  then show ?thesis
    unfolding planner_resolveDependencies_def dependency_tasks_def foldR_concat foldR_map by presburger
qed

lemma add_edges_by_mode_key [simp]:
  "instance_key (add_edges_by_mode d ds j) = instance_key j"
  "j_environment (add_edges_by_mode d ds j) = j_environment j"
  by (simp_all add: add_edges_by_mode_def instance_key_def)

lemma dependency_effect_key [simp]:
  "instance_key (dependency_effect jobs t j) = instance_key j"
  "j_environment (dependency_effect jobs t j) = j_environment j"
  by (simp_all add: dependency_effect_def)

definition same_keys :: "(job_instance \<Rightarrow> string) \<Rightarrow> job_instance gmap \<Rightarrow> job_instance gmap \<Rightarrow> bool" where
  \<comment> \<open>the same names, each with a job of the same key\<close>
  "same_keys key jobs jobs' \<longleftrightarrow> gm_keys jobs' = gm_keys jobs \<and>
     (\<forall>n. map_option key (gm_get jobs' n) = map_option key (gm_get jobs n))"

lemma same_keys_at:
  assumes "gm_ok jobs" and "same_keys key jobs jobs'" and "gm_get jobs' n = Some j"
  shows "n \<in> set (jobs_at key jobs k) \<longleftrightarrow> key j = k"
proof -
  have "map_option key (gm_get jobs' n) = map_option key (gm_get jobs n)"
    using assms(2) unfolding same_keys_def by blast
  then obtain j0 where "gm_get jobs n = Some j0" "key j0 = key j"
    using assms(3) by (cases "gm_get jobs n") auto
  then show ?thesis using in_jobs_at [OF assms(1), of n key k] by simp
qed

lemma update_at_get:
  assumes "gm_ok jobs" and "same_keys key jobs jobs'"
  shows "gm_get (update_jobs f (jobs_at key jobs k) jobs') n =
    map_option (\<lambda>j. if key j = k then f j else j) (gm_get jobs' n)"
proof (cases "gm_get jobs' n")
  case (Some j)
  then show ?thesis
    using same_keys_at [OF assms Some] by (simp add: update_jobs_get jobs_at_distinct [OF assms(1)])
qed (simp add: update_jobs_get jobs_at_distinct [OF assms(1)])

lemma same_keys_update:
  assumes "gm_ok jobs" and "same_keys key jobs jobs'" and "\<And>j. key (f j) = key j"
    and "gm_keys jobs'' = gm_keys jobs'" and "\<And>n. gm_get jobs'' n = map_option f (gm_get jobs' n)"
  shows "same_keys key jobs jobs''"
proof -
  have "key \<circ> f = key" using assms(3) by auto
  with assms(2,4,5) show ?thesis by (simp add: same_keys_def option.map_comp)
qed

lemma task_step_get:
  assumes "gm_ok jobs" and "same_keys instance_key jobs s"
    and "task_step (index_jobs instance_key jobs) t s = Inr s'"
  shows "gm_keys s' = gm_keys s \<and> (\<forall>n. gm_get s' n = map_option (dependency_effect jobs t) (gm_get s n))"
proof -
  obtain key d where t: "t = (key, d)" by (cases t)
  let ?dk = "job_key (rd_component d) (rd_environment d)"
  show ?thesis
  proof (cases "jobs_at instance_key jobs ?dk = []")
    case True
    then have "s' = s" using assms(3)
      by (auto simp: task_step_def resolve_edge_def t gm_simps Let_def split: if_splits)
    moreover have "dependency_effect jobs t j = j" for j
      using True by (simp add: dependency_effect_def t add_edges_by_mode_def)
    ultimately show ?thesis by (simp add: option.map_ident_strong)
  next
    case False
    then have s': "s' = update_jobs (add_edges_by_mode d (jobs_at instance_key jobs ?dk))
        (jobs_at instance_key jobs key) s"
      using assms(3) by (simp add: task_step_def resolve_edge_def t gm_simps Let_def)
    have "gm_get s' n = map_option (dependency_effect jobs t) (gm_get s n)" for n
      unfolding s' update_at_get [OF assms(1,2)]
      by (cases "gm_get s n") (simp_all add: dependency_effect_def t)
    then show ?thesis by (simp add: s')
  qed
qed

lemma tasks_get:
  assumes "gm_ok jobs"
  shows "same_keys instance_key jobs s \<Longrightarrow>
    foldR (task_step (index_jobs instance_key jobs)) ts s = Inr s' \<Longrightarrow>
    gm_keys s' = gm_keys s \<and> (\<forall>n. gm_get s' n = map_option (fold (dependency_effect jobs) ts) (gm_get s n))"
proof (induction ts arbitrary: s)
  case (Cons t ts)
  from Cons.prems(2) obtain s1 where 1: "task_step (index_jobs instance_key jobs) t s = Inr s1"
    and 2: "foldR (task_step (index_jobs instance_key jobs)) ts s1 = Inr s'"
    by (auto simp: bindR_Inr_iff)
  note st = task_step_get [OF assms Cons.prems(1) 1]
  have "same_keys instance_key jobs s1"
    by (rule same_keys_update [OF assms Cons.prems(1), where f = "dependency_effect jobs t"]) (use st in auto)
  from Cons.IH [OF this 2] st show ?case by (simp add: option.map_comp comp_def)
qed (simp add: option.map_ident_strong)

lemma same_keys_refl [simp]: "same_keys key jobs jobs"
  by (simp add: same_keys_def)

lemma resolveDependencies_get:
  assumes "gm_ok jobs" and "planner_resolveDependencies jobs insts = Inr jobs'"
  shows "gm_keys jobs' = gm_keys jobs \<and> (\<forall>n. gm_get jobs' n =
     map_option (fold (dependency_effect jobs) (dependency_tasks (index_jobs instance_key jobs) insts))
       (gm_get jobs n))"
  using tasks_get [OF assms(1) same_keys_refl] assms(2) by (simp add: resolveDependencies_tasks)


section \<open>Properties of component dependencies\<close>

definition deps_for :: "job_instance gmap \<Rightarrow> component_instance list gmap \<Rightarrow> (string \<Rightarrow> bool) \<Rightarrow>
    job_instance \<Rightarrow> string set" where
  \<comment> \<open>the jobs a job's component instance asks for by edges whose mode satisfies the predicate\<close>
  "deps_for jobs insts sel j =
     {x. \<exists>e is i d. (e, is) \<in> set insts \<and> i \<in> set is \<and> job_key (ci_component i) e = instance_key j \<and>
        d \<in> set (ci_depends_on i) \<and> sel (edge_mode d j) \<and>
        x \<in> set (jobs_at instance_key jobs (job_key (rd_component d) (rd_environment d)))}"

lemma edge_mode_effect [simp]:
  "edge_mode d (add_edges_by_mode d' ds j) = edge_mode d j"
  "edge_mode d (dependency_effect jobs t j) = edge_mode d j"
  by (simp_all add: edge_mode_def add_edges_by_mode_def dependency_effect_def)

definition task_targets :: "job_instance gmap \<Rightarrow> (string \<Rightarrow> bool) \<Rightarrow>
    (string \<times> resolved_dependency) list \<Rightarrow> job_instance \<Rightarrow> string set" where
  "task_targets jobs sel ts j =
     (\<Union>t \<in> {t \<in> set ts. fst t = instance_key j \<and> sel (edge_mode (snd t) j)}.
        set (jobs_at instance_key jobs (job_key (rd_component (snd t)) (rd_environment (snd t)))))"

lemma effect_fold:
  "set (j_depends_on (fold (dependency_effect jobs) ts j)) = set (j_depends_on j) \<union>
      task_targets jobs (\<lambda>m. m \<noteq> DependencyModeAdvisory \<and> m \<noteq> DependencyModeDisabled) ts j \<and>
    set (j_advisory_depends_on (fold (dependency_effect jobs) ts j)) = set (j_advisory_depends_on j) \<union>
      task_targets jobs (\<lambda>m. m = DependencyModeAdvisory) ts j \<and>
    instance_key (fold (dependency_effect jobs) ts j) = instance_key j"
proof (induction ts arbitrary: j)
  case (Cons t ts)
  let ?j = "dependency_effect jobs t j"
  have step: "set (j_depends_on ?j) = set (j_depends_on j) \<union>
      task_targets jobs (\<lambda>m. m \<noteq> DependencyModeAdvisory \<and> m \<noteq> DependencyModeDisabled) [t] j"
    "set (j_advisory_depends_on ?j) = set (j_advisory_depends_on j) \<union> task_targets jobs (\<lambda>m. m = DependencyModeAdvisory) [t] j"
    by (auto simp: task_targets_def dependency_effect_def add_edges_by_mode_def DependencyModeAdvisory_def DependencyModeDisabled_def)
  have same: "task_targets jobs sel ts ?j = task_targets jobs sel ts j" for sel by (simp add: task_targets_def)
  have split: "task_targets jobs sel (t # ts) j = task_targets jobs sel [t] j \<union> task_targets jobs sel ts j" for sel
    by (auto simp: task_targets_def)
  show ?case
    using Cons.IH [of ?j] unfolding split [of _] by (simp add: step same Un_assoc)
qed (simp add: task_targets_def)

lemma in_dependency_tasks:
  "t \<in> set (dependency_tasks (index_jobs instance_key jobs) insts) \<longleftrightarrow>
    (\<exists>e is i. (e, is) \<in> set insts \<and> i \<in> set is \<and> fst t = job_key (ci_component i) e \<and>
       snd t \<in> set (ci_depends_on i) \<and> jobs_at instance_key jobs (fst t) \<noteq> [])"
proof -
  let ?K = "\<lambda>p i. job_key (ci_component i) (fst p)"
  have "t \<in> set (dependency_tasks (index_jobs instance_key jobs) insts) \<longleftrightarrow>
      (\<exists>p \<in> set insts. \<exists>i \<in> set (snd p). jobs_at instance_key jobs (?K p i) \<noteq> [] \<and>
         t \<in> Pair (?K p i) ` set (ci_depends_on i))"
    unfolding dependency_tasks_def Let_def gm_simps by simp blast
  also have "\<dots> \<longleftrightarrow> (\<exists>p \<in> set insts. \<exists>i \<in> set (snd p). fst t = ?K p i \<and>
         snd t \<in> set (ci_depends_on i) \<and> jobs_at instance_key jobs (fst t) \<noteq> [])"
    by (cases t) (auto simp: image_iff)
  finally show ?thesis by (simp add: Bex_def split_paired_Ex)
qed

text \<open>
  When it succeeds, \<open>resolveDependencies\<close> keeps every job and gives a job exactly the enforced
  edges its component instance declares (every job of the target component and environment that is
  in the plan), and exactly its advisory edges; an edge's mode is its own, else the job's, else
  enforced; disabled edges give neither.
\<close>

theorem job_dependencies_as_declared:
  assumes "gm_ok jobs" and "planner_resolveDependencies jobs insts = Inr jobs'"
  shows "gm_keys jobs' = gm_keys jobs \<and>
    (\<forall>n j j'. gm_get jobs n = Some j \<longrightarrow> gm_get jobs' n = Some j' \<longrightarrow>
       set (j_depends_on j') = set (j_depends_on j) \<union>
         deps_for jobs insts (\<lambda>m. m \<noteq> DependencyModeAdvisory \<and> m \<noteq> DependencyModeDisabled) j \<and>
       set (j_advisory_depends_on j') = set (j_advisory_depends_on j) \<union>
         deps_for jobs insts (\<lambda>m. m = DependencyModeAdvisory) j \<and>
       instance_key j' = instance_key j)"
proof -
  let ?ts = "dependency_tasks (index_jobs instance_key jobs) insts"
  note get = resolveDependencies_get [OF assms]
  have hit: "task_targets jobs sel ?ts j = deps_for jobs insts sel j" if "gm_get jobs n = Some j" for n j sel
  proof -
    have "jobs_at instance_key jobs (instance_key j) \<noteq> []"
      using in_jobs_at [OF assms(1), of n instance_key "instance_key j"] that by force
    then show ?thesis by (fastforce simp: deps_for_def task_targets_def in_dependency_tasks)
  qed
  show ?thesis
    using get effect_fold [of jobs ?ts] hit by auto
qed


definition dep_on :: "string \<Rightarrow> string \<Rightarrow> string \<Rightarrow> resolved_dependency" where
  "dep_on c e mode = \<lparr>rd_component = c, rd_environment = e, rd_scope = [], rd_condition = [],
     rd_include = [], rd_reason = [], rd_mode = mode, rd_mode_source = [], rd_mode_rule_trigger_ref = []\<rparr>"

definition job_of :: "string \<Rightarrow> string \<Rightarrow> job_instance" where
  "job_of c e = zero_job_instance\<lparr>j_component := c, j_environment := e\<rparr>"

definition instance_of :: "string \<Rightarrow> resolved_dependency list \<Rightarrow> component_instance" where
  "instance_of c ds = zero_instance\<lparr>ci_component := c, ci_depends_on := ds\<rparr>"

lemmas example_defs = dep_on_def job_of_def instance_of_def zero_job_instance_def zero_instance_def
  planner_resolveDependencies_def resolve_instance_def resolve_edge_def index_jobs_def gm_group_def
  gm_push_def gm_get_or_def gm_has_def instance_key_def job_key_def update_jobs_def update_job_def
  add_edges_by_mode_def edge_mode_def DependencyModeAdvisory_def DependencyModeDisabled_def
  DependencyModeEnforced_def IncludeAlways_def IncludeIfSelected_def

definition ex_plan_jobs :: "job_instance gmap" where
  "ex_plan_jobs = [(''web.dev.deploy'', job_of ''web'' ''dev''), (''api.dev.deploy'', job_of ''api'' ''dev''),
     (''docs.dev.deploy'', job_of ''docs'' ''dev'')]"

definition ex_plan_instances :: "component_instance list gmap" where
  "ex_plan_instances = [(''dev'', [instance_of ''web''
      [dep_on ''api'' ''dev'' [], dep_on ''docs'' ''dev'' ''advisory'']])]"

theorem job_dependencies_as_declared_witness:
  "\<exists>jobs'. planner_resolveDependencies ex_plan_jobs ex_plan_instances = Inr jobs' \<and>
     gm_keys jobs' = gm_keys ex_plan_jobs \<and>
     (\<exists>j. gm_get jobs' ''web.dev.deploy'' = Some j \<and> j_depends_on j = [''api.dev.deploy''] \<and>
        j_advisory_depends_on j = [''docs.dev.deploy''])"
proof -
  have ok: "gm_ok ex_plan_jobs" by (simp add: gm_ok_def ex_plan_jobs_def)
  let ?r = "planner_resolveDependencies ex_plan_jobs ex_plan_instances"
  have "(case ?r of Inl _ \<Rightarrow> False | Inr jobs' \<Rightarrow>
      map_option (\<lambda>j. (j_depends_on j, j_advisory_depends_on j)) (gm_get jobs' ''web.dev.deploy'') =
        Some ([''api.dev.deploy''], [''docs.dev.deploy'']))"
    by code_simp
  then obtain jobs' where r: "?r = Inr jobs'"
    and j: "map_option (\<lambda>j. (j_depends_on j, j_advisory_depends_on j)) (gm_get jobs' ''web.dev.deploy'') =
        Some ([''api.dev.deploy''], [''docs.dev.deploy''])"
    by (cases ?r) auto
  from job_dependencies_as_declared [OF ok r] r j show ?thesis by auto
qed

text \<open>
  The key \<open>component.environment\<close> is ambiguous when names hold dots, which nothing rejects:
  here \<open>app\<close> in environment \<open>eu.west\<close> needs \<open>db\<close>, which has no job there, and gets the job of
  component \<open>db.eu\<close> in environment \<open>west\<close> as its dependency.
\<close>

theorem dotted_names_cross_wire_jobs:
  "let jobs = [(''app.eu.west.deploy'', job_of ''app'' ''eu.west''), (''db.eu.west.deploy'', job_of ''db.eu'' ''west'')];
       insts = [(''eu.west'', [instance_of ''app'' [dep_on ''db'' ''eu.west'' []]]), (''west'', [instance_of ''db.eu'' []])]
   in case planner_resolveDependencies jobs insts of
        Inl _ \<Rightarrow> False
      | Inr jobs' \<Rightarrow>
          map_option j_depends_on (gm_get jobs' ''app.eu.west.deploy'') = Some [''db.eu.west.deploy'']"
  by code_simp

section \<open>Properties of promotion dependencies\<close>

definition promotion_effect :: "job_instance gmap \<Rightarrow> string list \<Rightarrow> promotion_dependency \<Rightarrow>
    job_instance \<Rightarrow> job_instance" where
  "promotion_effect jobs activeEnvs d j =
     (if pd_environment d \<in> set activeEnvs then
        (if in_plan d then
           (if pd_strategy d = ''same-component'' then
              j\<lparr>j_depends_on := j_depends_on j @
                  jobs_at instance_key jobs (job_key (j_component j) (pd_environment d))\<rparr>
            else if pd_strategy d = ''environment-barrier'' then
              j\<lparr>j_depends_on := j_depends_on j @ jobs_at j_environment jobs (pd_environment d)\<rparr>
            else j)
         else j)
      else if cross_plan d then j\<lparr>j_gates := j_gates j @ [promotion_gate_for d j]\<rparr>
      else j)"

lemma promotion_effect_key [simp]:
  "j_environment (promotion_effect jobs act d j) = j_environment j"
  "j_component (promotion_effect jobs act d j) = j_component j"
  by (simp_all add: promotion_effect_def)

lemma fold_promotion_effect_key [simp]:
  "j_environment (fold (promotion_effect jobs act) ds j) = j_environment j"
  "j_component (fold (promotion_effect jobs act) ds j) = j_component j"
  by (induction ds arbitrary: j) simp_all

lemma promote_get:
  assumes "gm_ok jobs" and "same_keys j_environment jobs s"
  shows "gm_keys (promote act (index_jobs instance_key jobs) (index_jobs j_environment jobs) e d s) = gm_keys s \<and>
    gm_get (promote act (index_jobs instance_key jobs) (index_jobs j_environment jobs) e d s) n =
      map_option (\<lambda>j. if j_environment j = e then promotion_effect jobs act d j else j) (gm_get s n)"
proof -
  note u = update_at_get [OF assms, where k = e and n = n]
  have id: "map_option (\<lambda>j. if j_environment j = e then j else j) x = x" for x
    by (cases x) simp_all
  show ?thesis
  proof (cases "pd_environment d \<in> set act")
    case True
    then show ?thesis
      by (cases "gm_get s n")
        (auto simp: promote_def addPromotionEdges_def promotion_effect_def gm_simps u Let_def
          append_same_component_def)
  next
    case False
    then show ?thesis
      by (cases "gm_get s n")
        (auto simp: promote_def addPromotionGates_def promotion_effect_def gm_simps u Let_def)
  qed
qed

lemma fold_promote_get:
  assumes "gm_ok jobs"
  shows "same_keys j_environment jobs s \<Longrightarrow>
    gm_keys (fold (promote act (index_jobs instance_key jobs) (index_jobs j_environment jobs) e) ds s) = gm_keys s \<and>
    (\<forall>n. gm_get (fold (promote act (index_jobs instance_key jobs) (index_jobs j_environment jobs) e) ds s) n =
      map_option (\<lambda>j. if j_environment j = e then fold (promotion_effect jobs act) ds j else j) (gm_get s n))"
proof (induction ds arbitrary: s)
  case (Cons d ds)
  let ?s = "promote act (index_jobs instance_key jobs) (index_jobs j_environment jobs) e d s"
  note p = promote_get [OF assms Cons.prems, of act e d]
  have "same_keys j_environment jobs ?s"
    by (rule same_keys_update [OF assms Cons.prems, where
          f = "\<lambda>j. if j_environment j = e then promotion_effect jobs act d j else j"]) (use p in auto)
  from Cons.IH [OF this] p show ?case
    by (auto simp: option.map_comp comp_def intro!: option.map_cong0)
qed (simp add: option.map_ident_strong)

definition environment_effect :: "job_instance gmap \<Rightarrow> string list \<Rightarrow> string \<times> environment \<Rightarrow>
    job_instance \<Rightarrow> job_instance" where
  "environment_effect jobs act p j =
     (if fst p \<in> set act \<and> j_environment j = fst p
      then fold (promotion_effect jobs act) (env_promotion (snd p)) j else j)"

lemma environment_effect_key [simp]: "j_environment (environment_effect jobs act p j) = j_environment j"
  by (simp add: environment_effect_def)

lemma promote_environment_get:
  assumes "gm_ok jobs" and "same_keys j_environment jobs s"
  shows "gm_keys (promote_environment act (index_jobs instance_key jobs) (index_jobs j_environment jobs) p s) = gm_keys s \<and>
    (\<forall>n. gm_get (promote_environment act (index_jobs instance_key jobs) (index_jobs j_environment jobs) p s) n =
      map_option (environment_effect jobs act p) (gm_get s n))"
proof (cases p)
  case (Pair e env)
  show ?thesis
  proof (cases "e \<in> set act")
    case True
    with fold_promote_get [OF assms, of act e "env_promotion env"] show ?thesis
      by (auto simp: Pair environment_effect_def intro!: option.map_cong0)
  next
    case False
    then have "environment_effect jobs act p = id" by (auto simp: Pair environment_effect_def)
    with False show ?thesis by (simp add: Pair option.map_id)
  qed
qed

lemma fold_environments_get:
  assumes "gm_ok jobs"
  shows "same_keys j_environment jobs s \<Longrightarrow>
    gm_keys (fold (promote_environment act (index_jobs instance_key jobs) (index_jobs j_environment jobs)) envs s) = gm_keys s \<and>
    (\<forall>n. gm_get (fold (promote_environment act (index_jobs instance_key jobs) (index_jobs j_environment jobs)) envs s) n =
      map_option (fold (environment_effect jobs act) envs) (gm_get s n))"
proof (induction envs arbitrary: s)
  case (Cons p envs)
  note st = promote_environment_get [OF assms Cons.prems, of act p]
  have "same_keys j_environment jobs (promote_environment act (index_jobs instance_key jobs)
      (index_jobs j_environment jobs) p s)"
    by (rule same_keys_update [OF assms Cons.prems, where f = "environment_effect jobs act p"]) (use st in auto)
  from Cons.IH [OF this] st show ?case by (simp add: option.map_comp comp_def)
qed (simp add: option.map_ident_strong)

lemma environment_effects:
  assumes "gm_ok envs"
  shows "fold (environment_effect jobs act) envs j =
    (case gm_get envs (j_environment j) of
       Some env \<Rightarrow> if j_environment j \<in> set act then fold (promotion_effect jobs act) (env_promotion env) j else j
     | None \<Rightarrow> j)"
  using assms
proof (induction envs arbitrary: j)
  case (Cons p envs)
  obtain e env where p: "p = (e, env)" by (cases p)
  have ok: "gm_ok envs" and nk: "e \<notin> set (gm_keys envs)" using Cons.prems by (simp_all add: gm_ok_def p)
  show ?case
  proof (cases "j_environment j = e")
    case True
    then show ?thesis using nk Cons.IH [OF ok] gm_get_None [of envs e]
      by (simp add: p environment_effect_def)
  next
    case False
    then show ?thesis using Cons.IH [OF ok] by (simp add: p environment_effect_def)
  qed
qed simp

lemma promotion_per_job:
  assumes "gm_ok jobs" and "gm_ok envs"
  shows "gm_keys (ResolvePromotionDependencies jobs insts envs) = gm_keys jobs \<and>
    (\<forall>n. gm_get (ResolvePromotionDependencies jobs insts envs) n =
      map_option (\<lambda>j. case gm_get envs (j_environment j) of
          Some env \<Rightarrow> if j_environment j \<in> set (gm_keys insts)
            then fold (promotion_effect jobs (gm_keys insts)) (env_promotion env) j else j
        | None \<Rightarrow> j) (gm_get jobs n))"
proof -
  have "fold (environment_effect jobs (gm_keys insts)) envs = (\<lambda>j. case gm_get envs (j_environment j) of
      Some env \<Rightarrow> if j_environment j \<in> set (gm_keys insts)
        then fold (promotion_effect jobs (gm_keys insts)) (env_promotion env) j else j
    | None \<Rightarrow> j)"
    by (rule ext) (rule environment_effects [OF assms(2)])
  with fold_environments_get [OF assms(1) same_keys_refl, of "gm_keys insts" envs] show ?thesis
    unfolding ResolvePromotionDependencies_def by (simp only: simp_thms)
qed

text \<open>
  Promotion dependencies act on each job by its own environment alone. A job of an environment
  in the plan is extended, in declaration order, by each promotion of that environment: one whose
  prerequisite is in the plan adds the jobs of the same component there, or with
  \<open>environment-barrier\<close> all jobs there; one whose prerequisite is not adds a gate if a previous
  success satisfies it, and else nothing. Other jobs are unchanged and no job appears or
  disappears.
\<close>

theorem promotion_is_per_job:
  assumes "gm_ok jobs" and "gm_ok envs"
  shows "gm_keys (ResolvePromotionDependencies jobs insts envs) = gm_keys jobs \<and>
    (\<forall>n. gm_get (ResolvePromotionDependencies jobs insts envs) n =
      map_option (\<lambda>j. case gm_get envs (j_environment j) of
          Some env \<Rightarrow> if j_environment j \<in> set (gm_keys insts)
            then fold (promotion_effect jobs (gm_keys insts)) (env_promotion env) j else j
        | None \<Rightarrow> j) (gm_get jobs n))"
  by (rule promotion_per_job [OF assms])

definition promote_to :: "string \<Rightarrow> string \<Rightarrow> promotion_dependency" where
  "promote_to e satisfy = zero_promotion\<lparr>pd_environment := e, pd_strategy := ''same-component'',
     pd_satisfy := satisfy\<rparr>"

definition ex_promotion_jobs :: "job_instance gmap" where
  "ex_promotion_jobs = [(''api.prod.deploy'', job_of ''api'' ''prod''), (''api.dev.deploy'', job_of ''api'' ''dev'')]"

definition ex_promotion_envs :: "environment gmap" where
  "ex_promotion_envs = [(''dev'', zero_environment), (''prod'', zero_environment\<lparr>env_promotion :=
     [promote_to ''dev'' ''same-plan'', promote_to ''qa'' ''previous-success'']\<rparr>)]"

theorem promotion_is_per_job_witness:
  "(let jobs' = ResolvePromotionDependencies ex_promotion_jobs [(''dev'', []), (''prod'', [])] ex_promotion_envs
    in gm_keys jobs' = [''api.prod.deploy'', ''api.dev.deploy''] \<and>
       map_option j_depends_on (gm_get jobs' ''api.prod.deploy'') = Some [''api.dev.deploy''])"
proof -
  have ok: "gm_ok ex_promotion_jobs" "gm_ok ex_promotion_envs"
    by (simp_all add: gm_ok_def ex_promotion_jobs_def ex_promotion_envs_def)
  show ?thesis
    using promotion_is_per_job [OF ok, of "[(''dev'', []), (''prod'', [])]"]
    by (simp add: Let_def) (simp add: ex_promotion_jobs_def ex_promotion_envs_def example_defs
        promotion_effect_def promote_to_def zero_promotion_def in_plan_def cross_plan_def
        zero_environment_def jobs_at_def)
qed

section \<open>The planned graph has no cycle\<close>

lemma job_key_inj:
  assumes "job_key c e = job_key c' e'" and "CHR ''.'' \<notin> set e" and "CHR ''.'' \<notin> set e'"
  shows "c = c' \<and> e = e'"
proof -
  have tw: "takeWhile (\<lambda>x. x \<noteq> CHR ''.'') (rev (job_key c e)) = rev e" if "CHR ''.'' \<notin> set e" for c e
    using that by (simp add: job_key_def takeWhile_tail) (metis set_rev takeWhile_append2 takeWhile.simps(2) append_Nil2)
  have "rev e = rev e'" using tw [OF assms(2), of c] tw [OF assms(3), of c'] assms(1) by simp
  then show ?thesis using assms(1) by (simp add: job_key_def)
qed

lemma fold_promotion_deps:
  "set (j_depends_on (fold (promotion_effect jobs act) ds j)) \<subseteq> set (j_depends_on j) \<union>
     (\<Union>d \<in> set ds. set (jobs_at instance_key jobs (job_key (j_component j) (pd_environment d))) \<union>
        set (jobs_at j_environment jobs (pd_environment d)))"
proof (induction ds arbitrary: j)
  case (Cons d ds)
  have "set (j_depends_on (promotion_effect jobs act d j)) \<subseteq> set (j_depends_on j) \<union>
     (set (jobs_at instance_key jobs (job_key (j_component j) (pd_environment d))) \<union>
        set (jobs_at j_environment jobs (pd_environment d)))"
    by (auto simp: promotion_effect_def)
  with Cons.IH [of "promotion_effect jobs act d j"] show ?case by auto
qed simp


lemma promoted_job_deps:
  assumes "gm_ok jobs" and "gm_ok envs" and "gm_get jobs n = Some j"
    and "d \<in> set (deps_of (ResolvePromotionDependencies jobs insts envs) n)"
  shows "d \<in> set (j_depends_on j) \<or> (\<exists>env p. gm_get envs (j_environment j) = Some env \<and>
    p \<in> set (env_promotion env) \<and>
    (d \<in> set (jobs_at instance_key jobs (job_key (j_component j) (pd_environment p))) \<or>
     d \<in> set (jobs_at j_environment jobs (pd_environment p))))"
proof -
  have "gm_get (ResolvePromotionDependencies jobs insts envs) n = Some (case gm_get envs (j_environment j) of
      Some env \<Rightarrow> if j_environment j \<in> set (gm_keys insts)
        then fold (promotion_effect jobs (gm_keys insts)) (env_promotion env) j else j
    | None \<Rightarrow> j)"
    using promotion_per_job [OF assms(1,2), of insts] assms(3) by simp
  then show ?thesis using assms(4) fold_promotion_deps [of jobs "gm_keys insts" _ j]
    by (fastforce simp: deps_of_def split: option.splits if_splits)
qed

definition dotless :: "string \<Rightarrow> bool" where
  "dotless s \<longleftrightarrow> CHR ''.'' \<notin> set s"

definition within_environments :: "job_instance gmap \<Rightarrow> bool" where
  \<comment> \<open>every dependency is a job of the same environment\<close>
  "within_environments jobs \<longleftrightarrow> (\<forall>n j d. gm_get jobs n = Some j \<longrightarrow> d \<in> set (j_depends_on j) \<longrightarrow>
     (\<exists>j'. gm_get jobs d = Some j' \<and> j_environment j' = j_environment j))"

definition dotless_environments :: "job_instance gmap \<Rightarrow> environment gmap \<Rightarrow> bool" where
  "dotless_environments jobs envs \<longleftrightarrow> (\<forall>n j. gm_get jobs n = Some j \<longrightarrow> dotless (j_environment j)) \<and>
     (\<forall>e env p. gm_get envs e = Some env \<longrightarrow> p \<in> set (env_promotion env) \<longrightarrow> dotless (pd_environment p))"

lemma promoted_edge:
  assumes ok: "gm_ok jobs" "gm_ok envs" and dl: "dotless_environments jobs envs"
    and within: "within_environments jobs"
    and e: "(n, d) \<in> edges (deps_of (ResolvePromotionDependencies jobs insts envs))"
  shows "\<exists>j j'. gm_get jobs n = Some j \<and> gm_get jobs d = Some j' \<and>
    ((n, d) \<in> edges (deps_of jobs) \<and> j_environment j' = j_environment j \<or>
     (j_environment j, j_environment j') \<in> edges (promotion_targets envs))"
proof -
  let ?R = "ResolvePromotionDependencies jobs insts envs"
  have dn: "d \<in> set (deps_of ?R n)" using e by (simp add: edges_def)
  have "n \<in> set (gm_keys ?R)" using dn deps_of_no_job [of n ?R] by force
  then have "n \<in> set (gm_keys jobs)" using promotion_per_job [OF ok, of insts] by simp
  then obtain j where j: "gm_get jobs n = Some j" using gm_get_key by fast
  from promoted_job_deps [OF ok j dn] show ?thesis
  proof
    assume "d \<in> set (j_depends_on j)"
    moreover from this obtain j' where "gm_get jobs d = Some j'" "j_environment j' = j_environment j"
      using within j unfolding within_environments_def by blast
    moreover have "(n, d) \<in> edges (deps_of jobs)"
      using calculation(1) j by (simp add: edges_def deps_of_def)
    ultimately show ?thesis using j by blast
  next
    assume "\<exists>env p. gm_get envs (j_environment j) = Some env \<and> p \<in> set (env_promotion env) \<and>
      (d \<in> set (jobs_at instance_key jobs (job_key (j_component j) (pd_environment p))) \<or>
       d \<in> set (jobs_at j_environment jobs (pd_environment p)))"
    then obtain env p where p: "gm_get envs (j_environment j) = Some env" "p \<in> set (env_promotion env)"
      and at: "d \<in> set (jobs_at instance_key jobs (job_key (j_component j) (pd_environment p))) \<or>
       d \<in> set (jobs_at j_environment jobs (pd_environment p))" by blast
    obtain j' where j': "gm_get jobs d = Some j'" and
      k: "instance_key j' = job_key (j_component j) (pd_environment p) \<or> j_environment j' = pd_environment p"
      using at in_jobs_at [OF ok(1), of d instance_key] in_jobs_at [OF ok(1), of d j_environment] by auto
    have "CHR ''.'' \<notin> set (j_environment j')" "CHR ''.'' \<notin> set (pd_environment p)"
      using dl j' p unfolding dotless_environments_def dotless_def by blast+
    then have "j_environment j' = pd_environment p"
      using k job_key_inj [of "j_component j'" "j_environment j'" "j_component j" "pd_environment p"]
      unfolding instance_key_def by blast
    then have "(j_environment j, j_environment j') \<in> edges (promotion_targets envs)"
      using p by (auto simp: edges_def promotion_targets_def)
    with j j' show ?thesis by blast
  qed
qed

lemma promotion_targets_finite: "finite (edges (promotion_targets envs))"
proof (rule finite_subset)
  show "edges (promotion_targets envs) \<subseteq> Sigma (set (gm_keys envs)) (\<lambda>e. set (promotion_targets envs e))"
  proof (rule subrelI)
    fix e x assume "(e, x) \<in> edges (promotion_targets envs)"
    then have x: "x \<in> set (promotion_targets envs e)" by (simp add: edges_def)
    then have "gm_get envs e \<noteq> None" by (cases "gm_get envs e") (simp_all add: promotion_targets_def)
    then show "(e, x) \<in> Sigma (set (gm_keys envs)) (\<lambda>e. set (promotion_targets envs e))"
      using x gm_get_None [of envs e] by simp
  qed
qed simp

lemma promoted_graph_acyclic:
  assumes ok: "gm_ok jobs" "gm_ok envs" and dl: "dotless_environments jobs envs"
    and within: "within_environments jobs"
    and promo: "detectPromotionCycles envs = None" and acyc: "acyclic (edges (deps_of jobs))"
  shows "acyclic (edges (deps_of (ResolvePromotionDependencies jobs insts envs)))"
proof -
  let ?E = "edges (deps_of jobs)" and ?P = "edges (promotion_targets envs)"
  let ?env = "\<lambda>n. map_option j_environment (gm_get jobs n)"
  let ?Q = "{(Some a, Some b) | a b. (a, b) \<in> ?P}"
  have "acyclic ?P" using promo detectPromotionCycles_edges by blast
  then have wfP: "wf (?P\<inverse>)" by (rule finite_acyclic_wf_converse [OF promotion_targets_finite])
  have "?Q\<inverse> \<subseteq> inv_image (?P\<inverse>) the" by auto
  then have wfQ: "wf (?Q\<inverse>)" using wfP wf_inv_image wf_subset by blast
  have wfE: "wf (?E\<inverse>)" by (rule finite_acyclic_wf_converse [OF deps_finite acyc])
  have "(edges (deps_of (ResolvePromotionDependencies jobs insts envs)))\<inverse> \<subseteq>
      inv_image (?Q\<inverse> <*lex*> ?E\<inverse>) (\<lambda>n. (?env n, n))"
  proof (rule subrelI)
    fix d n assume "(d, n) \<in> (edges (deps_of (ResolvePromotionDependencies jobs insts envs)))\<inverse>"
    then obtain j j' where j: "gm_get jobs n = Some j" "gm_get jobs d = Some j'" and
      "(n, d) \<in> ?E \<and> j_environment j' = j_environment j \<or> (j_environment j, j_environment j') \<in> ?P"
      using promoted_edge [OF ok dl within] by blast
    then show "(d, n) \<in> inv_image (?Q\<inverse> <*lex*> ?E\<inverse>) (\<lambda>n. (?env n, n))"
      unfolding in_inv_image by (elim disjE conjE) (simp_all add: j)
  qed
  then have "wf ((edges (deps_of (ResolvePromotionDependencies jobs insts envs)))\<inverse>)"
    using wf_subset wf_inv_image wf_lex_prod wfQ wfE by meson
  then show ?thesis using wf_acyclic acyclic_converse by blast
qed

text \<open>
  C38: promotion never makes a plan cyclic. If the jobs' own dependencies stay within their
  environments and have no cycle, the promotion relation of the environments passes
  \<open>detectPromotionCycles\<close>, and environment names hold no dot, then after
  \<open>ResolvePromotionDependencies\<close> every dependency is a job and \<open>TopologicalSort\<close> succeeds.
\<close>

theorem promoted_plan_sorts:
  assumes "gm_ok jobs" and "gm_ok envs" and "dotless_environments jobs envs"
    and "within_environments jobs" and "detectPromotionCycles envs = None"
    and "acyclic (edges (deps_of jobs))"
  shows "closed_jobs (ResolvePromotionDependencies jobs insts envs) \<and>
    (\<exists>order. TopologicalSort (ResolvePromotionDependencies jobs insts envs) = Some (Inr order))"
proof -
  let ?R = "ResolvePromotionDependencies jobs insts envs"
  have keys: "gm_keys ?R = gm_keys jobs" using promotion_per_job [OF assms(1,2)] by blast
  have "closed_jobs ?R"
    unfolding closed_jobs_def
  proof (intro allI subsetI)
    fix n d assume "d \<in> set (deps_of ?R n)"
    then have "(n, d) \<in> edges (deps_of ?R)" by (simp add: edges_def)
    from promoted_edge [OF assms(1-4) this] show "d \<in> set (gm_keys ?R)"
      using gm_get_None [of jobs d] keys by auto
  qed
  moreover have "acyclic (edges (deps_of ?R))" by (rule promoted_graph_acyclic [OF assms])
  moreover have "gm_ok ?R" using assms(1) keys by (simp add: gm_ok_def)
  ultimately show ?thesis
    using TopologicalSort_spec [of ?R] by (fastforce split: sum.splits)
qed

theorem promoted_plan_sorts_witness:
  "\<exists>order. TopologicalSort (ResolvePromotionDependencies ex_promotion_jobs
      [(''dev'', []), (''prod'', [])] ex_promotion_envs) = Some (Inr order)"
proof -
  have j: "gm_get ex_promotion_jobs n = Some j \<Longrightarrow> j_depends_on j = [] \<and> j_environment j \<in> {''dev'', ''prod''}" for n j
    by (auto simp: ex_promotion_jobs_def job_of_def zero_job_instance_def split: if_splits)
  then have none: "deps_of ex_promotion_jobs n = []" for n
    by (cases "gm_get ex_promotion_jobs n") (auto simp: deps_of_def)
  then have "edges (deps_of ex_promotion_jobs) = {}" by (simp add: edges_def)
  moreover have "within_environments ex_promotion_jobs"
    using j by (auto simp: within_environments_def)
  moreover have "dotless_environments ex_promotion_jobs ex_promotion_envs"
    unfolding dotless_environments_def
  proof (intro conjI allI impI)
    fix n j' assume "gm_get ex_promotion_jobs n = Some j'"
    then have "j_environment j' \<in> {''dev'', ''prod''}" using j by blast
    then show "dotless (j_environment j')" by (auto simp: dotless_def)
  qed (auto simp: dotless_def ex_promotion_envs_def promote_to_def
        zero_promotion_def zero_environment_def split: if_splits)
  moreover have "detectPromotionCycles ex_promotion_envs = None" by code_simp
  moreover have "gm_ok ex_promotion_jobs" "gm_ok ex_promotion_envs"
    by (simp_all add: gm_ok_def ex_promotion_jobs_def ex_promotion_envs_def)
  ultimately show ?thesis
    using promoted_plan_sorts [of ex_promotion_jobs ex_promotion_envs] by (simp add: acyclic_def)
qed

end
