(* ===== verification/Secret_Bindings.thy ===== *)
theory Secret_Bindings
  imports Scope_Ref Intent_Model
begin

text \<open>
  \<open>internal/planner/secret_bindings.go\<close>: how the secret bindings of an execution profile and the
  secret environment of a component become the references of a job. Errors carry the binding's
  key; the emitted references are compared with \<open>Scope_Ref\<close>'s codec.
\<close>

record composition_info =
  nf_type :: string
  nf_default_job :: "job_spec option"
  nf_execution_profiles :: "execution_profile gmap"
  nf_job_map :: "job_spec gmap"
  nf_source_dir :: string

datatype binding_error =
    MaterializeNoTarget
  | MaterializeUnknownKey string
  | BindingUnmappable string
  | BindingMalformed string parse_error
  | BindingConflict string string
  | OptionalAlsoHard string

section \<open>Operations\<close>

definition profile_of :: "component_instance \<Rightarrow> composition_info \<Rightarrow> execution_profile option" where
  \<comment> \<open>the guards both profile lookups start with\<close>
  "profile_of inst info =
     (if nf_execution_profiles info = [] then None
      else if ci_profile_source inst = [] \<or> ci_profile_source inst = ''legacy-none'' then None
      else gm_get (nf_execution_profiles info) (ci_profile_name inst))"

definition resolved_binding :: "secret_binding gmap \<Rightarrow> string \<Rightarrow> resolved_secret_binding" where
  "resolved_binding bs key =
     (let b = gm_get_or \<lparr>sb_required = False, sb_as_env = []\<rparr> bs key
      in \<lparr>rb_key = key, rb_as_env = (if sb_as_env b = [] then key else sb_as_env b),
          rb_required = sb_required b\<rparr>)"

definition resolveProfileBindings :: "component_instance \<Rightarrow> composition_info \<Rightarrow> resolved_secret_binding list" where
  "resolveProfileBindings inst info =
     (case profile_of inst info of
        None \<Rightarrow> []
      | Some profile \<Rightarrow> map (resolved_binding (ep_secret_bindings profile))
                         (sort (gm_keys (ep_secret_bindings profile))))"

definition resolveProfileMaterialize :: "component_instance \<Rightarrow> composition_info \<Rightarrow> materialize_spec option" where
  "resolveProfileMaterialize inst info =
     (case profile_of inst info of None \<Rightarrow> None | Some profile \<Rightarrow> ep_materialize profile)"

definition materialize_name :: "string gmap \<Rightarrow> string gmap \<Rightarrow> string \<Rightarrow> binding_error + string" where
  "materialize_name bindingAsEnv secretEnv key =
     (case gm_get bindingAsEnv key of
        Some asEnv \<Rightarrow> Inr asEnv
      | None \<Rightarrow> if gm_has secretEnv key then Inr key else Inl (MaterializeUnknownKey key))"

definition binding_names :: "resolved_secret_binding list \<Rightarrow> string gmap" where
  "binding_names bindings = fold (\<lambda>b. gm_set (rb_key b) (rb_as_env b)) bindings []"

definition resolveMaterialize :: "materialize_spec option \<Rightarrow> resolved_secret_binding list \<Rightarrow>
    string gmap \<Rightarrow> binding_error + resolved_materialize option" where
  "resolveMaterialize spec bindings secretEnv =
     (case spec of
        None \<Rightarrow> Inr None
      | Some s \<Rightarrow>
          if trim_space (ms_target s) = [] then Inl MaterializeNoTarget
          else bindR (mapR (materialize_name (binding_names bindings) secretEnv) (ms_secrets s))
                 (\<lambda>names. Inr (Some \<lparr>rm_target = ms_target s, rm_secrets = sort names\<rparr>)))"

definition sameRef :: "string \<Rightarrow> string \<Rightarrow> bool" where
  "sameRef a b =
     (if a = b then True
      else (case Canonicalize a of
              Inl _ \<Rightarrow> False
            | Inr ca \<Rightarrow> (case Canonicalize b of Inl _ \<Rightarrow> False | Inr cb \<Rightarrow> ca = cb)))"

definition binding_ref :: "string \<Rightarrow> string \<Rightarrow> string \<Rightarrow> string \<Rightarrow> sref" where
  "binding_ref workspace project env key =
     \<lparr>r_scheme = SchemeSecret, r_workspace = workspace, r_project = project, r_env = env,
      r_component = [], r_key = key, r_version = 0\<rparr>"

definition merge_binding :: "string \<Rightarrow> string \<Rightarrow> string \<Rightarrow> resolved_secret_binding \<Rightarrow>
    string gmap \<Rightarrow> binding_error + string gmap" where
  "merge_binding workspace project env b merged =
     (if workspace = [] \<or> project = [] then
        (if rb_required b then Inl (BindingUnmappable (rb_key b)) else Inr merged)
      else
        let refStr = ref_string (binding_ref workspace project env (rb_key b))
        in case Parse refStr of
             Inl e \<Rightarrow> if rb_required b then Inl (BindingMalformed (rb_key b) e) else Inr merged
           | Inr _ \<Rightarrow>
               (case gm_get merged (rb_as_env b) of
                  Some existing \<Rightarrow>
                    if sameRef existing refStr then Inr merged
                    else Inl (BindingConflict (rb_key b) (rb_as_env b))
                | None \<Rightarrow> Inr (gm_set (rb_as_env b) refStr merged)))"

definition mergeBindingRefs :: "string gmap \<Rightarrow> resolved_secret_binding list \<Rightarrow> string \<Rightarrow> string \<Rightarrow>
    string \<Rightarrow> binding_error + string gmap" where
  "mergeBindingRefs secretEnv bindings workspace project env =
     (if secretEnv = [] \<and> bindings = [] then Inr []
      else foldR (merge_binding workspace project env) bindings (gm_copy secretEnv []))"

fun merge_optional :: "string gmap \<Rightarrow> string \<times> string \<Rightarrow> string gmap \<Rightarrow> binding_error + string gmap" where
  "merge_optional hardRefs (k, v) merged =
     (if gm_has hardRefs k then Inl (OptionalAlsoHard k) else Inr (gm_set k v merged))"

definition mergeOptionalRefs :: "string gmap \<Rightarrow> string gmap \<Rightarrow> binding_error + string gmap" where
  "mergeOptionalRefs optionalSecretEnv hardRefs =
     (if optionalSecretEnv = [] then Inr []
      else foldR (merge_optional hardRefs) optionalSecretEnv [])"

section \<open>References of a job\<close>

lemma sameRef_refl [simp]: "sameRef a a"
  by (simp add: sameRef_def)

lemma sameRef_parse:
  "sameRef a b \<Longrightarrow> Parse b = Inr r \<Longrightarrow> a = b \<or> Parse a = Inr r"
  using scope_codec.canonical_eq_iff [of a _ b]
  by (auto simp: sameRef_def Canonicalize_def split: if_splits sum.splits)

lemma merge_binding_Inr:
  assumes "merge_binding workspace project env b m = Inr m'"
  shows "m' = m \<or> (gm_get m (rb_as_env b) = None \<and>
      m' = gm_set (rb_as_env b) (ref_string (binding_ref workspace project env (rb_key b))) m \<and>
      (\<exists>r. Parse (ref_string (binding_ref workspace project env (rb_key b))) = Inr r))"
    and "rb_required b \<Longrightarrow> \<exists>v. gm_get m' (rb_as_env b) = Some v \<and>
      sameRef v (ref_string (binding_ref workspace project env (rb_key b)))"
  using assms
  by (auto simp: merge_binding_def Let_def gm_get_set split: if_splits sum.splits option.splits)

lemma merge_binding_keeps:
  "merge_binding workspace project env b m = Inr m' \<Longrightarrow> gm_get m k = Some v \<Longrightarrow> gm_get m' k = Some v"
  using merge_binding_Inr(1) [of workspace project env b m m'] by (auto simp: gm_get_set)

lemma merge_bindings_spec:
  assumes "foldR (merge_binding workspace project env) bs m = Inr m'"
  shows "(\<forall>k v. gm_get m k = Some v \<longrightarrow> gm_get m' k = Some v) \<and>
    (\<forall>b \<in> set bs. rb_required b \<longrightarrow> (\<exists>v. gm_get m' (rb_as_env b) = Some v \<and>
       sameRef v (ref_string (binding_ref workspace project env (rb_key b))))) \<and>
    (\<forall>k v. gm_get m' k = Some v \<longrightarrow> gm_get m k = Some v \<or>
       (\<exists>b \<in> set bs. rb_as_env b = k \<and> v = ref_string (binding_ref workspace project env (rb_key b)) \<and>
          (\<exists>r. Parse v = Inr r)))"
  using assms
proof (induction bs arbitrary: m)
  case (Cons b bs)
  from Cons.prems obtain m1 where 1: "merge_binding workspace project env b m = Inr m1"
    and 2: "foldR (merge_binding workspace project env) bs m1 = Inr m'"
    by (auto simp: bindR_Inr_iff)
  note ih = Cons.IH [OF 2] and st = merge_binding_Inr [OF 1]
  have a: "\<forall>k v. gm_get m k = Some v \<longrightarrow> gm_get m' k = Some v"
    using ih merge_binding_keeps [OF 1] by blast
  have b: "rb_required b \<longrightarrow> (\<exists>v. gm_get m' (rb_as_env b) = Some v \<and>
       sameRef v (ref_string (binding_ref workspace project env (rb_key b))))"
    using st(2) ih by blast
  have c: "gm_get m1 k = Some v \<Longrightarrow> gm_get m k = Some v \<or>
      rb_as_env b = k \<and> v = ref_string (binding_ref workspace project env (rb_key b)) \<and> (\<exists>r. Parse v = Inr r)" for k v
    using st(1) by (auto simp: gm_get_set split: if_splits)
  have "gm_get m k = Some v \<or> (\<exists>b \<in> set (b # bs). rb_as_env b = k \<and>
      v = ref_string (binding_ref workspace project env (rb_key b)) \<and> (\<exists>r. Parse v = Inr r))"
    if "gm_get m' k = Some v" for k v
    using ih [THEN conjunct2, THEN conjunct2, rule_format, OF that] c [of k v] by auto
  moreover have "\<forall>b \<in> set (b # bs). rb_required b \<longrightarrow> (\<exists>v. gm_get m' (rb_as_env b) = Some v \<and>
       sameRef v (ref_string (binding_ref workspace project env (rb_key b))))"
    using ih [THEN conjunct2, THEN conjunct1] b by simp
  ultimately show ?case using a by blast
qed simp

lemma merged_refs:
  assumes "gm_ok secretEnv" and "mergeBindingRefs secretEnv bindings workspace project env = Inr refs"
  shows "(\<forall>k v. gm_get secretEnv k = Some v \<longrightarrow> gm_get refs k = Some v) \<and>
    (\<forall>b \<in> set bindings. rb_required b \<longrightarrow> (\<exists>v. gm_get refs (rb_as_env b) = Some v \<and>
       sameRef v (ref_string (binding_ref workspace project env (rb_key b))))) \<and>
    (\<forall>k v. gm_get refs k = Some v \<longrightarrow> gm_get secretEnv k = Some v \<or>
       (\<exists>b \<in> set bindings. rb_as_env b = k \<and>
          v = ref_string (binding_ref workspace project env (rb_key b)) \<and> (\<exists>r. Parse v = Inr r)))"
proof (cases "secretEnv = [] \<and> bindings = []")
  case True
  then show ?thesis using assms(2) by (simp add: mergeBindingRefs_def)
next
  case False
  then have m: "foldR (merge_binding workspace project env) bindings (gm_copy secretEnv []) = Inr refs"
    using assms(2) by (simp only: mergeBindingRefs_def if_False)
  have "gm_get (gm_copy secretEnv []) = gm_get secretEnv"
    using gm_get_copy [OF assms(1), of "[]"] by (simp add: fun_eq_iff map_add_def split: option.split)
  then show ?thesis using merge_bindings_spec [OF m] by simp
qed

text \<open>
  The hard references of a job. When merging succeeds every reference of the component's
  \<open>secretEnv\<close> is kept as written; every required binding has a reference under its variable that
  is the one for its key and scope or denotes the same secret; and nothing else is added but
  references of bindings that parse.
\<close>

theorem merged_references_complete:
  assumes "gm_ok secretEnv" and "mergeBindingRefs secretEnv bindings workspace project env = Inr refs"
  shows "(\<forall>k v. gm_get secretEnv k = Some v \<longrightarrow> gm_get refs k = Some v) \<and>
    (\<forall>b \<in> set bindings. rb_required b \<longrightarrow> (\<exists>v. gm_get refs (rb_as_env b) = Some v \<and>
       sameRef v (ref_string (binding_ref workspace project env (rb_key b))))) \<and>
    (\<forall>k v. gm_get refs k = Some v \<longrightarrow> gm_get secretEnv k = Some v \<or>
       (\<exists>b \<in> set bindings. rb_as_env b = k \<and>
          v = ref_string (binding_ref workspace project env (rb_key b)) \<and> (\<exists>r. Parse v = Inr r)))"
  by (rule merged_refs [OF assms])

theorem merged_references_complete_witness:
  "let bs = [\<lparr>rb_key = ''API_TOKEN'', rb_as_env = ''TOKEN'', rb_required = True\<rparr>];
       r = mergeBindingRefs [(''DB'', ''secret://acme/shop/prod/DB'')] bs ''acme'' ''shop'' ''prod''
   in (\<exists>refs. r = Inr refs \<and> gm_get refs ''DB'' = Some ''secret://acme/shop/prod/DB'' \<and>
        (\<exists>v. gm_get refs ''TOKEN'' = Some v \<and>
           sameRef v (ref_string (binding_ref ''acme'' ''shop'' ''prod'' ''API_TOKEN''))))"
proof -
  let ?bs = "[\<lparr>rb_key = ''API_TOKEN'', rb_as_env = ''TOKEN'', rb_required = True\<rparr>]"
  let ?r = "mergeBindingRefs [(''DB'', ''secret://acme/shop/prod/DB'')] ?bs ''acme'' ''shop'' ''prod''"
  have "case ?r of Inl _ \<Rightarrow> False | Inr _ \<Rightarrow> True" by code_simp
  then obtain refs where r: "?r = Inr refs" by (auto split: sum.splits)
  have ok: "gm_ok [(''DB'', ''secret://acme/shop/prod/DB'')]" by (simp add: gm_ok_def)
  from merged_references_complete [OF ok r] r show ?thesis by (simp add: Let_def)
qed

section \<open>Materialized secrets\<close>

lemma binding_names_dom: "gm_has (binding_names bs) k \<longleftrightarrow> k \<in> rb_key ` set bs"
proof -
  have "gm_has (fold (\<lambda>b. gm_set (rb_key b) (rb_as_env b)) bs m) k \<longleftrightarrow> gm_has m k \<or> k \<in> rb_key ` set bs" for m
    by (induction bs arbitrary: m) (auto simp: gm_has_set)
  then show ?thesis by (simp add: binding_names_def) (simp add: gm_has_def)
qed

lemma binding_names_get:
  "gm_get (binding_names bs) k = Some v \<Longrightarrow> \<exists>b \<in> set bs. rb_key b = k \<and> rb_as_env b = v"
proof -
  have "gm_get (fold (\<lambda>b. gm_set (rb_key b) (rb_as_env b)) bs m) k = Some v \<Longrightarrow>
      gm_get m k = Some v \<or> (\<exists>b \<in> set bs. rb_key b = k \<and> rb_as_env b = v)" for m
    by (induction bs arbitrary: m) (fastforce simp: gm_get_set split: if_splits)+
  from this [of "[]"] show "gm_get (binding_names bs) k = Some v \<Longrightarrow> ?thesis"
    by (simp add: binding_names_def)
qed

lemma mapR_ok_iff: "(\<exists>ys. mapR f xs = Inr ys) \<longleftrightarrow> (\<forall>x \<in> set xs. \<exists>y. f x = Inr y)"
  by (induction xs) (auto simp: bindR_Inr_iff)

text \<open>
  A materialize block compiles exactly when it names a target and each of its keys is a binding
  of the profile or a variable of the component's \<open>secretEnv\<close>. Then its names are sorted, one per
  key, and each is a variable under which the job has a reference, unless it belongs to an optional
  binding that could not be mapped.
\<close>

theorem materialize_names_are_bound:
  assumes "gm_ok secretEnv" and "mergeBindingRefs secretEnv bindings workspace project env = Inr refs"
  shows "((\<exists>m. resolveMaterialize (Some spec) bindings secretEnv = Inr m) \<longleftrightarrow>
      trim_space (ms_target spec) \<noteq> [] \<and>
      (\<forall>k \<in> set (ms_secrets spec). k \<in> rb_key ` set bindings \<or> gm_has secretEnv k)) \<and>
    (\<forall>m. resolveMaterialize (Some spec) bindings secretEnv = Inr (Some m) \<longrightarrow>
      rm_target m = ms_target spec \<and> sorted (rm_secrets m) \<and>
      length (rm_secrets m) = length (ms_secrets spec) \<and>
      (\<forall>n \<in> set (rm_secrets m). gm_has refs n \<or>
         (\<exists>b \<in> set bindings. rb_as_env b = n \<and> \<not> rb_required b)))"
proof (intro conjI allI impI)
  let ?f = "materialize_name (binding_names bindings) secretEnv"
  have f: "(\<exists>y. ?f k = Inr y) \<longleftrightarrow> k \<in> rb_key ` set bindings \<or> gm_has secretEnv k" for k
    using binding_names_dom [of bindings k]
    by (auto simp: materialize_name_def gm_has_def split: option.splits)
  show "(\<exists>m. resolveMaterialize (Some spec) bindings secretEnv = Inr m) \<longleftrightarrow>
      trim_space (ms_target spec) \<noteq> [] \<and>
      (\<forall>k \<in> set (ms_secrets spec). k \<in> rb_key ` set bindings \<or> gm_has secretEnv k)"
    using mapR_ok_iff [of ?f "ms_secrets spec"] by (auto simp: resolveMaterialize_def bindR_Inr_iff f)
  fix m assume "resolveMaterialize (Some spec) bindings secretEnv = Inr (Some m)"
  then obtain names where names: "mapR ?f (ms_secrets spec) = Inr names"
    and m: "m = \<lparr>rm_target = ms_target spec, rm_secrets = sort names\<rparr>"
    by (auto simp: resolveMaterialize_def bindR_Inr_iff split: if_splits)
  show "rm_target m = ms_target spec" "sorted (rm_secrets m)"
    "length (rm_secrets m) = length (ms_secrets spec)"
    using mapR_length [OF names] by (simp_all add: m)
  note refs = merged_refs [OF assms]
  show "\<forall>n \<in> set (rm_secrets m). gm_has refs n \<or> (\<exists>b \<in> set bindings. rb_as_env b = n \<and> \<not> rb_required b)"
  proof
    fix n assume "n \<in> set (rm_secrets m)"
    then obtain k where "?f k = Inr n" using mapR_mem [OF names] by (auto simp: m)
    then have "gm_get (binding_names bindings) k = Some n \<or> gm_has secretEnv n"
      by (auto simp: materialize_name_def split: option.splits if_splits)
    then show "gm_has refs n \<or> (\<exists>b \<in> set bindings. rb_as_env b = n \<and> \<not> rb_required b)"
    proof
      assume "gm_get (binding_names bindings) k = Some n"
      then obtain b where "b \<in> set bindings" "rb_as_env b = n" using binding_names_get by fast
      with refs show ?thesis unfolding gm_has_def by fastforce
    next
      assume "gm_has secretEnv n"
      with refs show ?thesis unfolding gm_has_def by fastforce
    qed
  qed
qed

theorem materialize_names_are_bound_witness:
  "resolveMaterialize (Some \<lparr>ms_target = ''cloudflare-worker'', ms_secrets = [''API_TOKEN''], ms_on_rotate = []\<rparr>)
     [\<lparr>rb_key = ''API_TOKEN'', rb_as_env = ''TOKEN'', rb_required = True\<rparr>] [] =
     Inr (Some \<lparr>rm_target = ''cloudflare-worker'', rm_secrets = [''TOKEN'']\<rparr>) \<and>
   \<not> (\<exists>m. resolveMaterialize (Some \<lparr>ms_target = ''cloudflare-worker'', ms_secrets = [''OTHER''], ms_on_rotate = []\<rparr>)
     [\<lparr>rb_key = ''API_TOKEN'', rb_as_env = ''TOKEN'', rb_required = True\<rparr>] [] = Inr m)"
proof -
  let ?bs = "[\<lparr>rb_key = ''API_TOKEN'', rb_as_env = ''TOKEN'', rb_required = True\<rparr>]"
  have "case mergeBindingRefs [] ?bs ''acme'' ''shop'' ''prod'' of Inl _ \<Rightarrow> False | Inr _ \<Rightarrow> True" by code_simp
  then obtain refs where r: "mergeBindingRefs [] ?bs ''acme'' ''shop'' ''prod'' = Inr refs"
    by (auto split: sum.splits)
  have "\<not> (\<exists>m. resolveMaterialize (Some \<lparr>ms_target = ''cloudflare-worker'', ms_secrets = [''OTHER''],
      ms_on_rotate = []\<rparr>) ?bs [] = Inr m)"
    using materialize_names_are_bound [OF gm_ok_Nil r, of "\<lparr>ms_target = ''cloudflare-worker'',
      ms_secrets = [''OTHER''], ms_on_rotate = []\<rparr>"] by (simp add: gm_has_def)
  moreover have "resolveMaterialize (Some \<lparr>ms_target = ''cloudflare-worker'', ms_secrets = [''API_TOKEN''], ms_on_rotate = []\<rparr>)
     ?bs [] = Inr (Some \<lparr>rm_target = ''cloudflare-worker'', rm_secrets = [''TOKEN'']\<rparr>)" by code_simp
  ultimately show ?thesis by blast
qed

end
