(* ===== verification/Flow_Refs.thy ===== *)
theory Flow_Refs
  imports Go_Strings
begin

text \<open>
  \<open>internal/flow/outputs.go\<close> and \<open>grant.go\<close>: references to step outputs,
  \<open>${{ steps.<id>.outputs.<name> }}\<close>, found by a scan that does what the regular expression
  does (leftmost match, greedy groups with backtracking), their masking around the template pass,
  and the check of a connections grant.
\<close>

section \<open>Scanning\<close>

definition re_space :: "char \<Rightarrow> bool" where
  \<comment> \<open>\<open>\s\<close>\<close>
  "re_space c \<longleftrightarrow> c \<in> {CHR 0x09, CHR 0x0A, CHR 0x0C, CHR 0x0D, CHR '' ''}"

definition id_char :: "char \<Rightarrow> bool" where
  "id_char c \<longleftrightarrow> is_alnum c \<or> c \<in> {CHR ''_'', CHR ''.'', CHR ''@'', CHR ''-''}"

definition name_char :: "char \<Rightarrow> bool" where
  "name_char c \<longleftrightarrow> is_alnum c \<or> c \<in> {CHR ''_'', CHR ''-''}"

record output_ref =
  or_step_id :: string
  or_name :: string

definition ref_tail :: "string \<Rightarrow> (string \<times> string) option" where
  \<comment> \<open>\<open>\.outputs\.([A-Za-z0-9_-]+)\s*\}\}\<close>: the name and what follows\<close>
  "ref_tail s =
     (if \<not> has_prefix s ''.outputs.'' then None
      else
        let r = drop 9 s;
            name = takeWhile name_char r;
            r = dropWhile re_space (dropWhile name_char r)
        in if name = [] \<or> \<not> has_prefix r ''}}'' then None else Some (name, drop 2 r))"

fun ref_split :: "nat \<Rightarrow> string \<Rightarrow> (output_ref \<times> string) option" where
  \<comment> \<open>the longest step id, of at most the given length, that a tail follows\<close>
  "ref_split 0 s = None"
| "ref_split (Suc n) s =
     (case ref_tail (drop (Suc n) s) of
        Some (name, rest) \<Rightarrow> Some (\<lparr>or_step_id = take (Suc n) s, or_name = name\<rparr>, rest)
      | None \<Rightarrow> ref_split n s)"

definition match_ref :: "string \<Rightarrow> (output_ref \<times> string) option" where
  \<comment> \<open>a match of the pattern at the start of the text, and what follows it\<close>
  "match_ref s =
     (if \<not> has_prefix s ''${{'' then None
      else
        let r = dropWhile re_space (drop 3 s)
        in if \<not> has_prefix r ''steps.'' then None
           else let r = drop 6 r in ref_split (length (takeWhile id_char r)) r)"

text \<open>A match is a non-empty part at the front of the text, without NUL.\<close>

definition front :: "string \<Rightarrow> string \<Rightarrow> bool" where
  "front s rest \<longleftrightarrow> (\<exists>t. s = t @ rest \<and> CHR 0x00 \<notin> set t)"

lemma front_refl [simp]: "front s s"
  by (simp add: front_def)

lemma front_trans: "front s r \<Longrightarrow> front r q \<Longrightarrow> front s q"
  by (fastforce simp: front_def)

lemma front_prefix: "has_prefix s p \<Longrightarrow> CHR 0x00 \<notin> set p \<Longrightarrow> n = length p \<Longrightarrow> front s (drop n s)"
  by (auto simp: front_def has_prefix_iff)

lemma front_while:
  assumes "\<not> P (CHR 0x00)" shows "front s (dropWhile P s)"
  unfolding front_def
  by (rule exI [of _ "takeWhile P s"]) (use assms in \<open>auto dest: set_takeWhileD\<close>)

lemma front_length: "front s r \<Longrightarrow> length r \<le> length s"
  by (auto simp: front_def)

lemma no_nul [simp]: "\<not> re_space (CHR 0x00)" "\<not> id_char (CHR 0x00)" "\<not> name_char (CHR 0x00)"
  by code_simp+

lemma ref_tail_front: "ref_tail s = Some (name, rest) \<Longrightarrow> front s rest"
proof -
  assume a: "ref_tail s = Some (name, rest)"
  let ?r = "dropWhile re_space (dropWhile name_char (drop 9 s))"
  have p: "has_prefix s ''.outputs.''" "has_prefix ?r ''}}''" "rest = drop 2 ?r"
    using a by (auto simp: ref_tail_def Let_def split: if_splits)
  have "front s (drop 9 s)" by (rule front_prefix [OF p(1)]) simp_all
  moreover have "front (drop 9 s) (dropWhile name_char (drop 9 s))" by (rule front_while) simp
  moreover have "front (dropWhile name_char (drop 9 s)) ?r" by (rule front_while) simp
  moreover have "front ?r rest" unfolding p(3) by (rule front_prefix [OF p(2)]) simp_all
  ultimately show ?thesis using front_trans by meson
qed

lemma ref_split_front:
  "ref_split n s = Some (ref, rest) \<Longrightarrow> CHR 0x00 \<notin> set (take n s) \<Longrightarrow> front s rest"
proof (induction n)
  case (Suc n)
  have n: "CHR 0x00 \<notin> set (take n s)"
    using Suc.prems(2) set_take_subset_set_take [of n "Suc n" s] by auto
  show ?case
  proof (cases "ref_tail (drop (Suc n) s)")
    case (Some p)
    obtain name rest' where p: "p = (name, rest')" by (cases p)
    have "front s (drop (Suc n) s)"
      unfolding front_def using Suc.prems(2) by (intro exI [of _ "take (Suc n) s"]) simp
    moreover have "front (drop (Suc n) s) rest'" using ref_tail_front Some p by blast
    ultimately show ?thesis using front_trans Suc.prems(1) Some p by auto
  qed (use Suc n in auto)
qed simp

lemma match_ref_front:
  assumes "match_ref s = Some (ref, rest)"
  shows "front s rest" and "length rest < length s"
proof -
  let ?r = "dropWhile re_space (drop 3 s)"
  have p: "has_prefix s ''${{''" "has_prefix ?r ''steps.''"
    and rest: "ref_split (length (takeWhile id_char (drop 6 ?r))) (drop 6 ?r) = Some (ref, rest)"
    using assms by (auto simp: match_ref_def Let_def split: if_splits)
  have s: "front s (drop 3 s)" by (rule front_prefix [OF p(1)]) simp_all
  have r: "front (drop 3 s) ?r" by (rule front_while) simp
  have r6: "front ?r (drop 6 ?r)" by (rule front_prefix [OF p(2)]) simp_all
  have "take (length (takeWhile id_char u)) u = takeWhile id_char u" for u
    by (rule takeWhile_eq_take [symmetric])
  then have "CHR 0x00 \<notin> set (take (length (takeWhile id_char (drop 6 ?r))) (drop 6 ?r))"
    by (auto dest: set_takeWhileD)
  then have t: "front (drop 6 ?r) rest" using ref_split_front [OF rest] by blast
  show "front s rest" using front_trans [OF s front_trans [OF r front_trans [OF r6 t]]] .
  have "length rest \<le> length (drop 3 s)" using front_length [OF front_trans [OF r front_trans [OF r6 t]]] .
  moreover have "3 \<le> length s" using p(1) by (auto simp: has_prefix_iff)
  ultimately show "length rest < length s" by simp
qed

datatype piece = Lit char | Span output_ref string

function pieces :: "string \<Rightarrow> piece list" where
  \<comment> \<open>the text cut at the non-overlapping matches; a span keeps its text\<close>
  "pieces s =
     (case match_ref s of
        Some (ref, rest) \<Rightarrow> Span ref (take (length s - length rest) s) # pieces rest
      | None \<Rightarrow> (case s of [] \<Rightarrow> [] | c # r \<Rightarrow> Lit c # pieces r))"
  by pat_completeness auto
termination
  by (relation "measure length") (auto dest: match_ref_front)

declare pieces.simps [simp del]

fun piece_ref :: "piece \<Rightarrow> output_ref list" where
  "piece_ref (Lit c) = []"
| "piece_ref (Span ref t) = [ref]"

fun piece_text :: "piece \<Rightarrow> string" where
  "piece_text (Lit c) = [c]"
| "piece_text (Span ref t) = t"

section \<open>Operations\<close>

definition FindOutputRefs :: "string \<Rightarrow> output_ref list" where
  "FindOutputRefs s = concat (map piece_ref (pieces s))"

fun substitute_pieces :: "(string \<Rightarrow> string \<Rightarrow> string option) \<Rightarrow> piece list \<Rightarrow> output_ref + string" where
  \<comment> \<open>\<open>Inl\<close>: the first reference without a value\<close>
  "substitute_pieces look [] = Inr []"
| "substitute_pieces look (Lit c # ps) =
     (case substitute_pieces look ps of Inl e \<Rightarrow> Inl e | Inr s \<Rightarrow> Inr (c # s))"
| "substitute_pieces look (Span ref t # ps) =
     (case look (or_step_id ref) (or_name ref) of
        None \<Rightarrow> Inl ref
      | Some v \<Rightarrow> (case substitute_pieces look ps of Inl e \<Rightarrow> Inl e | Inr s \<Rightarrow> Inr (v @ s)))"

definition SubstituteOutputRefs :: "(string \<Rightarrow> string \<Rightarrow> string option) \<Rightarrow> string \<Rightarrow> output_ref + string" where
  "SubstituteOutputRefs look s = substitute_pieces look (pieces s)"

definition mask_token :: "nat \<Rightarrow> string" where
  "mask_token i = [CHR 0x00] @ ''wfout'' @ itoa i @ [CHR 0x00]"

fun mask_pieces :: "nat \<Rightarrow> piece list \<Rightarrow> string \<times> string list" where
  \<comment> \<open>the number is \<open>len(spans)\<close>\<close>
  "mask_pieces n [] = ([], [])"
| "mask_pieces n (Lit c # ps) = (case mask_pieces n ps of (m, spans) \<Rightarrow> (c # m, spans))"
| "mask_pieces n (Span ref t # ps) =
     (case mask_pieces (Suc n) ps of (m, spans) \<Rightarrow> (mask_token n @ m, t # spans))"

definition MaskOutputRefs :: "string \<Rightarrow> string \<times> string list" where
  "MaskOutputRefs s = mask_pieces 0 (pieces s)"

fun unmask_from :: "nat \<Rightarrow> string list \<Rightarrow> string \<Rightarrow> string" where
  "unmask_from n [] s = s"
| "unmask_from n (t # spans) s = unmask_from (Suc n) spans (replace_all (mask_token n) t s)"

definition UnmaskOutputRefs :: "string \<Rightarrow> string list \<Rightarrow> string" where
  "UnmaskOutputRefs s spans = unmask_from 0 spans s"

datatype grant_error =
    GrantMissing string "string list"
  | GrantUnknown string string

definition ValidateGrant :: "string \<Rightarrow> string list \<Rightarrow> string list \<Rightarrow> grant_error option" where
  \<comment> \<open>of the granted mappings only the names matter\<close>
  "ValidateGrant place declared granted =
     (let missing = filter (\<lambda>n. n \<notin> set granted) declared
      in if missing \<noteq> [] then Some (GrantMissing place (sort missing))
         else (case List.find (\<lambda>n. n \<notin> set declared) granted of
                 Some n \<Rightarrow> Some (GrantUnknown place n)
               | None \<Rightarrow> None))"

section \<open>Masking round trip\<close>

lemma pieces_Nil [simp]: "pieces [] = []"
  by (subst pieces.simps) (simp add: match_ref_def has_prefix_def)

lemma pieces_lit: "match_ref (c # r) = None \<Longrightarrow> pieces (c # r) = Lit c # pieces r"
  by (subst pieces.simps) simp

lemma pieces_span:
  "match_ref s = Some (ref, rest) \<Longrightarrow>
     pieces s = Span ref (take (length s - length rest) s) # pieces rest"
  by (subst pieces.simps) simp

lemma span_text:
  assumes "match_ref s = Some (ref, rest)"
  shows "take (length s - length rest) s @ rest = s" "CHR 0x00 \<notin> set (take (length s - length rest) s)"
  using match_ref_front(1) [OF assms] by (auto simp: front_def)

lemma pieces_induct [case_names Nil Lit Span]:
  assumes "P []" and "\<And>c r. match_ref (c # r) = None \<Longrightarrow> P r \<Longrightarrow> P (c # r)"
    and "\<And>s ref rest. match_ref s = Some (ref, rest) \<Longrightarrow> P rest \<Longrightarrow> P s"
  shows "P s"
proof (induction s rule: length_induct)
  case (1 s)
  show ?case
  proof (cases "match_ref s")
    case None
    then show ?thesis using 1 assms(1,2) by (cases s) auto
  next
    case (Some p)
    then show ?thesis using 1 assms(3) match_ref_front(2) by (cases p) blast
  qed
qed

lemma pieces_text: "concat (map piece_text (pieces s)) = s"
  by (induction s rule: pieces_induct) (simp_all add: pieces_lit pieces_span span_text)


fun lead :: "piece list \<Rightarrow> string" where
  \<comment> \<open>the literal text before the first span\<close>
  "lead (Lit c # ps) = c # lead ps"
| "lead _ = []"

fun unconfused :: "piece list \<Rightarrow> bool" where
  \<comment> \<open>no NUL, and nothing after a span reads like a mask token\<close>
  "unconfused [] \<longleftrightarrow> True"
| "unconfused (Lit c # ps) \<longleftrightarrow> c \<noteq> CHR 0x00 \<and> unconfused ps"
| "unconfused (Span ref t # ps) \<longleftrightarrow>
     CHR 0x00 \<notin> set t \<and> \<not> has_prefix (lead ps) ''wfout'' \<and> unconfused ps"

lemma replace_skip:
  "CHR 0x00 \<notin> set a \<Longrightarrow> replace_all (mask_token n) r (a @ b) = a @ replace_all (mask_token n) r b"
  by (induction a) (auto simp: mask_token_def has_prefix_def)

lemma replace_token: "replace_all (mask_token n) r (mask_token n @ b) = r @ replace_all (mask_token n) r b"
  using has_prefix_append [of "mask_token n" b] by (simp add: mask_token_def)

lemma itoa_no_nul: "CHR 0x00 \<notin> set (itoa n)"
  using itoa_digits [of "CHR 0x00" n] by (auto simp: is_digit_def less_eq_char_def)

lemma split_at_nul:
  assumes "a @ CHR 0x00 # x = b @ CHR 0x00 # y" and "CHR 0x00 \<notin> set a" and "CHR 0x00 \<notin> set b"
  shows "a = b"
proof -
  have "takeWhile (\<lambda>c. c \<noteq> CHR 0x00) (a @ CHR 0x00 # x) = a" using assms(2)
    by (subst takeWhile_append2) auto
  moreover have "takeWhile (\<lambda>c. c \<noteq> CHR 0x00) (b @ CHR 0x00 # y) = b" using assms(3)
    by (subst takeWhile_append2) auto
  ultimately show ?thesis using assms(1) by simp
qed

lemma other_token: "has_prefix (mask_token k @ b) (mask_token n) \<Longrightarrow> k = n"
proof -
  assume "has_prefix (mask_token k @ b) (mask_token n)"
  then obtain y where "itoa k @ CHR 0x00 # b = itoa n @ CHR 0x00 # y"
    by (auto simp: has_prefix_iff mask_token_def)
  then have "itoa k = itoa n" by (rule split_at_nul) (rule itoa_no_nul)+
  then show "k = n" by (metis atoi_itoa)
qed

lemma mask_lead:
  "\<exists>x. fst (mask_pieces k ps) = lead ps @ x \<and> (x = [] \<or> hd x = CHR 0x00)"
proof (induction ps arbitrary: k)
  case (Cons p ps)
  show ?case
  proof (cases p)
    case (Lit c)
    with Cons.IH [of k] show ?thesis by (auto split: prod.split)
  next
    case (Span ref t)
    then show ?thesis by (auto simp: mask_token_def split: prod.split)
  qed
qed simp

lemma prefix_lead:
  assumes "has_prefix (a @ x) p" and "x = [] \<or> hd x = CHR 0x00" and "CHR 0x00 \<notin> set p"
  shows "has_prefix a p"
proof -
  obtain y where y: "a @ x = p @ y" using assms(1) by (auto simp: has_prefix_iff)
  then consider u where "p = a @ u" "x = u @ y" | u where "a = p @ u"
    by (auto simp: append_eq_append_conv2)
  then show ?thesis
  proof cases
    case (1 u)
    then have "u = []" using assms(2,3) by (cases u) auto
    with 1 show ?thesis by (simp add: has_prefix_iff)
  qed (simp add: has_prefix_iff)
qed

lemma replace_other:
  "n < k \<Longrightarrow> unconfused ps \<Longrightarrow>
    replace_all (mask_token n) r (fst (mask_pieces k ps)) = fst (mask_pieces k ps)"
proof (induction ps arbitrary: k)
  case (Cons p ps)
  show ?case
  proof (cases p)
    case (Lit c)
    obtain m sp where m: "mask_pieces k ps = (m, sp)" by fastforce
    have "replace_all (mask_token n) r ([c] @ m) = [c] @ replace_all (mask_token n) r m"
      by (rule replace_skip) (use Cons.prems Lit in auto)
    with Cons.IH [of k] Cons.prems Lit m show ?thesis by simp
  next
    case (Span ref t)
    obtain m sp where m: "mask_pieces (Suc k) ps = (m, sp)" by fastforce
    let ?tail = "''wfout'' @ itoa k"
    have tok: "mask_token k @ m = CHR 0x00 # ?tail @ CHR 0x00 # m" by (simp add: mask_token_def)
    have "\<not> has_prefix (mask_token k @ m) (mask_token n)"
      using other_token Cons.prems(1) by blast
    then have 1: "replace_all (mask_token n) r (CHR 0x00 # ?tail @ CHR 0x00 # m) =
        CHR 0x00 # replace_all (mask_token n) r (?tail @ CHR 0x00 # m)"
      unfolding tok by simp
    have 2: "replace_all (mask_token n) r (?tail @ CHR 0x00 # m) =
        ?tail @ replace_all (mask_token n) r (CHR 0x00 # m)"
      by (rule replace_skip) (use itoa_no_nul in auto)
    have "\<not> has_prefix (CHR 0x00 # m) (mask_token n)"
    proof
      assume "has_prefix (CHR 0x00 # m) (mask_token n)"
      then have "has_prefix m ''wfout''" by (auto simp: has_prefix_iff mask_token_def)
      moreover obtain x where "m = lead ps @ x" "x = [] \<or> hd x = CHR 0x00"
        using mask_lead [of "Suc k" ps] m by auto
      ultimately have "has_prefix (lead ps) ''wfout''"
        using prefix_lead [of "lead ps" x "''wfout''"] by simp
      then show False using Cons.prems(2) Span by simp
    qed
    then have 3: "replace_all (mask_token n) r (CHR 0x00 # m) = CHR 0x00 # replace_all (mask_token n) r m"
      by simp
    have "replace_all (mask_token n) r m = m"
      using Cons.IH [of "Suc k"] Cons.prems Span m by simp
    then have "replace_all (mask_token n) r (mask_token k @ m) = mask_token k @ m"
      unfolding tok 1 2 3 by simp
    then show ?thesis by (simp add: Span m)
  qed
qed simp

lemma unmask_mask:
  "unconfused ps \<Longrightarrow> CHR 0x00 \<notin> set P \<Longrightarrow>
    unmask_from n (snd (mask_pieces n ps)) (P @ fst (mask_pieces n ps)) = P @ concat (map piece_text ps)"
proof (induction ps arbitrary: n P)
  case (Cons p ps)
  show ?case
  proof (cases p)
    case (Lit c)
    with Cons.IH [of "P @ [c]" n] Cons.prems show ?thesis by (auto split: prod.split)
  next
    case (Span ref t)
    obtain m sp where m: "mask_pieces (Suc n) ps = (m, sp)" by fastforce
    have "replace_all (mask_token n) t (P @ mask_token n @ m) = (P @ t) @ m"
      using replace_other [of n "Suc n" ps t] Cons.prems Span m
      by (simp add: replace_skip replace_token)
    moreover have "unmask_from (Suc n) sp ((P @ t) @ m) = (P @ t) @ concat (map piece_text ps)"
      using Cons.IH [of "P @ t" "Suc n"] Cons.prems Span m by simp
    ultimately show ?thesis by (simp add: Span m)
  qed
qed simp

lemma contains_sub_iff: "contains_sub s p \<longleftrightarrow> (\<exists>a b. s = a @ p @ b)"
proof
  show "contains_sub s p \<Longrightarrow> \<exists>a b. s = a @ p @ b"
  proof (induction s p rule: index_of.induct)
    case (2 c s p)
    show ?case
    proof (cases "has_prefix (c # s) p")
      case True
      then show ?thesis by (metis append_Nil has_prefix_iff)
    next
      case False
      then have "contains_sub s p" using "2.prems" by (auto simp: contains_sub_def split: option.splits if_splits)
      with "2.IH" False obtain a b where "s = a @ p @ b" by blast
      then show ?thesis by (intro exI [of _ "c # a"] exI [of _ b]) simp
    qed
  qed (auto simp: contains_sub_def split: if_splits)
  have "index_of (a @ p @ b) p \<noteq> None" for a b
  proof (induction a)
    case Nil
    have "has_prefix (p @ b) p" by simp
    then show ?case by (cases "p @ b") simp_all
  next
    case (Cons c a)
    then obtain i where "index_of (a @ p @ b) p = Some i" by blast
    then show ?case by simp
  qed
  then have "contains_sub (a @ p @ b) p" for a b by (simp add: contains_sub_def)
  then show "\<exists>a b. s = a @ p @ b \<Longrightarrow> contains_sub s p" by blast
qed


lemma lead_prefix: "has_prefix s (lead (pieces s))"
proof (induction s rule: pieces_induct)
  case (Lit c r)
  then show ?case by (simp add: pieces_lit has_prefix_iff)
next
  case (Span s ref rest)
  then show ?case by (simp add: pieces_span has_prefix_def)
qed (simp add: has_prefix_def)

lemma unconfused_pieces:
  "CHR 0x00 \<notin> set s \<Longrightarrow> \<not> contains_sub s ''wfout'' \<Longrightarrow> unconfused (pieces s)"
proof (induction s rule: pieces_induct)
  case (Lit c r)
  have "\<not> contains_sub r ''wfout''"
    using Lit.prems(2) unfolding contains_sub_iff by (metis append_Cons)
  with Lit show ?case by (auto simp: pieces_lit)
next
  case (Span s ref rest)
  note cut = span_text [OF Span.hyps(1)]
  let ?t = "take (length s - length rest) s"
  have sub: "\<not> contains_sub rest ''wfout''"
  proof
    assume "contains_sub rest ''wfout''"
    then obtain a b where "rest = a @ ''wfout'' @ b" by (auto simp: contains_sub_iff)
    then have "s = (?t @ a) @ ''wfout'' @ b" using cut(1) by simp
    then show False using Span.prems(2) contains_sub_iff by blast
  qed
  have "\<not> has_prefix (lead (pieces rest)) ''wfout''"
  proof
    assume "has_prefix (lead (pieces rest)) ''wfout''"
    then obtain r where "lead (pieces rest) = ''wfout'' @ r" by (auto simp: has_prefix_iff)
    then obtain q where "rest = [] @ ''wfout'' @ q"
      using lead_prefix [of rest] by (auto simp: has_prefix_iff)
    then show False using sub contains_sub_iff by blast
  qed
  moreover have "CHR 0x00 \<notin> set rest" using Span.prems(1) cut(1) by (metis UnCI set_append)
  ultimately show ?case using Span.IH sub cut(2) by (simp add: pieces_span [OF Span.hyps(1)])
qed simp

text \<open>
  C39: masking the output references of a text and restoring them gives the text back, whenever it
  holds no NUL and not the word \<open>wfout\<close> of the mask tokens.
\<close>

theorem mask_round_trip:
  assumes "CHR 0x00 \<notin> set s" and "\<not> contains_sub s ''wfout''"
  shows "UnmaskOutputRefs (fst (MaskOutputRefs s)) (snd (MaskOutputRefs s)) = s"
  using unmask_mask [OF unconfused_pieces [OF assms], of "[]" 0]
  by (simp add: UnmaskOutputRefs_def MaskOutputRefs_def pieces_text)

theorem mask_round_trip_witness:
  "UnmaskOutputRefs (fst (MaskOutputRefs ''a ${{ steps.x.outputs.y }} b ${{steps.v1.2.outputs.z}}''))
     (snd (MaskOutputRefs ''a ${{ steps.x.outputs.y }} b ${{steps.v1.2.outputs.z}}'')) =
   ''a ${{ steps.x.outputs.y }} b ${{steps.v1.2.outputs.z}}'' \<and>
   FindOutputRefs ''a ${{ steps.x.outputs.y }} b ${{steps.v1.2.outputs.z}}'' =
     [\<lparr>or_step_id = ''x'', or_name = ''y''\<rparr>, \<lparr>or_step_id = ''v1.2'', or_name = ''z''\<rparr>]"
proof
  show "UnmaskOutputRefs (fst (MaskOutputRefs ''a ${{ steps.x.outputs.y }} b ${{steps.v1.2.outputs.z}}''))
     (snd (MaskOutputRefs ''a ${{ steps.x.outputs.y }} b ${{steps.v1.2.outputs.z}}'')) =
   ''a ${{ steps.x.outputs.y }} b ${{steps.v1.2.outputs.z}}''"
    by (rule mask_round_trip) code_simp+
  show "FindOutputRefs ''a ${{ steps.x.outputs.y }} b ${{steps.v1.2.outputs.z}}'' =
     [\<lparr>or_step_id = ''x'', or_name = ''y''\<rparr>, \<lparr>or_step_id = ''v1.2'', or_name = ''z''\<rparr>]"
    by code_simp
qed

text \<open>
  Without those conditions the round trip can fail: a text in which \<open>wfout0\<close> stands between two
  references comes back with the first reference pasted between them and a stray mask token.
\<close>

theorem mask_collision:
  "let s = ''${{steps.a.outputs.x}} ${{steps.b.outputs.y}}wfout0${{steps.c.outputs.z}}''
   in UnmaskOutputRefs (fst (MaskOutputRefs s)) (snd (MaskOutputRefs s)) =
        ''${{steps.a.outputs.x}} '' @ [CHR 0x00] @ ''wfout1${{steps.a.outputs.x}}wfout2'' @ [CHR 0x00]"
  by code_simp

end
