(* ===== verification/Plan_Steps.thy ===== *)
theory Plan_Steps
  imports Secret_Bindings "HOL-Library.Product_Lexorder"
begin

text \<open>
  The pure step handling of \<open>internal/planner/planner.go\<close>: which jobs and steps a profile selects,
  how overrides patch them, how steps are ordered, and the check that lane-scoped steps lead.
\<close>

datatype step_select_error =
    NoDefaultJob string
  | ProfileNotFound string string
  | ProfileUnknownJob string string

definition planner_stepID :: "step \<Rightarrow> string" where
  \<comment> \<open>\<open>sid := step.ID; if sid == "" { sid = step.Name }\<close>\<close>
  "planner_stepID s = (if s_id s = [] then s_name s else s_id s)"

definition filterStepsByProfile :: "step list \<Rightarrow> string list \<Rightarrow> step list" where
  "filterStepsByProfile baseSteps stepsEnabled =
     filter (\<lambda>s. planner_stepID s \<in> set stepsEnabled) baseSteps"

definition filterStepsByCapability :: "step list \<Rightarrow> string list \<Rightarrow> step list" where
  "filterStepsByCapability baseSteps capabilities =
     filter (\<lambda>s. s_capability s = [] \<or> s_capability s \<in> set capabilities) baseSteps"

definition patch_step :: "profile_step_patch \<Rightarrow> step \<Rightarrow> step" where
  "patch_step p s =
     (let s = (if sp_run p \<noteq> [] then s\<lparr>s_run := sp_run p\<rparr> else s);
          s = (if sp_with p \<noteq> [] then s\<lparr>s_with := sp_with p\<rparr> else s)
      in if sp_env p \<noteq> [] then s\<lparr>s_env := sp_env p\<rparr> else s)"

definition applyProfileStepOverrides :: "step list \<Rightarrow> profile_step_patch gmap \<Rightarrow> step list" where
  "applyProfileStepOverrides steps overrides =
     map (\<lambda>s. case gm_get overrides (planner_stepID s) of Some p \<Rightarrow> patch_step p s | None \<Rightarrow> s) steps"

definition select_steps :: "profile_job_spec \<Rightarrow> job_spec \<Rightarrow> step list" where
  "select_steps pj baseJob =
     (let filtered = (if pj_include_capabilities pj \<noteq> []
            then filterStepsByCapability (js_steps baseJob) (pj_include_capabilities pj)
            else filterStepsByProfile (js_steps baseJob) (pj_steps_enabled pj))
      in if pj_step_overrides pj \<noteq> [] then applyProfileStepOverrides filtered (pj_step_overrides pj)
         else filtered)"

fun select_job :: "composition_info \<Rightarrow> component_instance \<Rightarrow> string \<times> profile_job_spec \<Rightarrow>
    step_select_error + job_spec \<times> step list" where
  "select_job info inst (jobName, pj) =
     (case gm_get (nf_job_map info) jobName of
        None \<Rightarrow> Inl (ProfileUnknownJob jobName (ci_type inst))
      | Some baseJob \<Rightarrow> Inr (baseJob, select_steps pj baseJob))"

definition default_entries :: "composition_info \<Rightarrow> component_instance \<Rightarrow>
    step_select_error + (job_spec \<times> step list) list" where
  "default_entries info inst =
     (case nf_default_job info of
        None \<Rightarrow> Inl (NoDefaultJob (ci_type inst))
      | Some j \<Rightarrow> Inr [(j, js_steps j)])"

definition resolveJobsForProfile :: "component_instance \<Rightarrow> composition_info \<Rightarrow>
    step_select_error + (job_spec \<times> step list) list" where
  "resolveJobsForProfile inst info =
     (if ci_profile_source inst = [] \<or> ci_profile_source inst = ''legacy-none''
      then default_entries info inst
      else if nf_execution_profiles info = [] then default_entries info inst
      else
        (case gm_get (nf_execution_profiles info) (ci_profile_name inst) of
           None \<Rightarrow> Inl (ProfileNotFound (ci_profile_name inst) (ci_type inst))
         | Some profile \<Rightarrow> mapR (select_job info inst) (ep_jobs profile)))"

fun override_base :: "step list \<Rightarrow> nat \<Rightarrow> (string, nat) gmap_of \<Rightarrow> (string, nat) gmap_of" where
  \<comment> \<open>\<open>indexByName\<close> after the first loop: the index of the last step of each name\<close>
  "override_base [] n idx = idx"
| "override_base (s # ss) n idx = override_base ss (Suc n) (gm_set (s_name s) n idx)"

fun override_loop :: "step list \<Rightarrow> step list \<Rightarrow> (string, nat) gmap_of \<Rightarrow> step list" where
  "override_loop [] result idx = result"
| "override_loop (ov # ovs) result idx =
     (case gm_get idx (s_name ov) of
        Some i \<Rightarrow> override_loop ovs (result[i := ov]) idx
      | None \<Rightarrow> override_loop ovs (result @ [ov]) (gm_set (s_name ov) (length result) idx))"

definition applyStepOverrides :: "step list \<Rightarrow> step list \<Rightarrow> step list" where
  "applyStepOverrides base overrides =
     (if overrides = [] then base else override_loop overrides base (override_base base 0 []))"

definition phaseRank :: "string \<Rightarrow> int" where
  "phaseRank phase =
     (let p = NormalizePhase phase
      in if p = ''pre'' then 0 else if p = ''main'' then 1 else if p = ''post'' then 2 else 99)"

definition normalized_phase :: "step \<Rightarrow> (string \<times> string) + step" where
  \<comment> \<open>\<open>Inl\<close>: the phase is not one of the three, with the step it was found in\<close>
  "normalized_phase s =
     (if \<not> IsValidPhase (NormalizePhase (s_phase s)) then Inl (s_phase s, s_name s)
      else Inr (s\<lparr>s_phase := NormalizePhase (s_phase s)\<rparr>))"

definition step_rank :: "nat \<times> step \<Rightarrow> int \<times> int \<times> nat" where
  "step_rank p = (phaseRank (s_phase (snd p)), s_order (snd p), fst p)"

definition sortStepsByPhaseAndOrder :: "step list \<Rightarrow> (string \<times> string) + step list" where
  "sortStepsByPhaseAndOrder steps =
     bindR (mapR normalized_phase steps) (\<lambda>ss. Inr (map snd (sort_key step_rank (indexed ss))))"

definition laneScope :: "string \<Rightarrow> string" where
  "laneScope scope = (if NormalizeScope scope = StepScopeLane then StepScopeLane else [])"

fun lane_steps_from :: "string \<Rightarrow> rendered_step list \<Rightarrow> (string \<times> string) option" where
  \<comment> \<open>the first argument is \<open>seenJob\<close>; \<open>Some\<close> is the offending step and the one before it\<close>
  "lane_steps_from seenJob [] = None"
| "lane_steps_from seenJob (s # ss) =
     (if rs_scope s = StepScopeLane then
        (if seenJob \<noteq> [] then Some (rs_name s, seenJob) else lane_steps_from seenJob ss)
      else if seenJob = [] \<and> rs_use s = [] then lane_steps_from (rs_name s) ss
      else lane_steps_from seenJob ss)"

definition validateLaneScopedStepsLead :: "rendered_step list \<Rightarrow> (string \<times> string) option" where
  "validateLaneScopedStepsLead steps = lane_steps_from [] steps"

section \<open>Sorting\<close>

lemma map_snd_index_sort:
  "mset (map snd (sort_key f (index_from n xs))) = mset xs"
proof -
  have "mset (map snd (sort_key f (index_from n xs))) = image_mset snd (mset (index_from n xs))"
    by (metis mset_map mset_sort)
  then show ?thesis by (metis mset_map map_snd_index_from)
qed

lemma mapR_normalized_Inl:
  "mapR normalized_phase xs = Inl e \<Longrightarrow>
   \<exists>s \<in> set xs. \<not> IsValidPhase (NormalizePhase (s_phase s)) \<and> e = (s_phase s, s_name s)"
proof (induction xs arbitrary: e)
  case (Cons x xs)
  have x: "normalized_phase x = Inl e' \<Longrightarrow>
      \<not> IsValidPhase (NormalizePhase (s_phase x)) \<and> e' = (s_phase x, s_name x)" for e'
    by (auto simp: normalized_phase_def split: if_splits)
  show ?case using Cons x
    by (cases "normalized_phase x"; cases "mapR normalized_phase xs") (auto simp: bindR_def)
qed simp

definition step_before :: "step \<Rightarrow> step \<Rightarrow> bool" where
  "step_before a b \<longleftrightarrow> (phaseRank (s_phase a), s_order a) \<le> (phaseRank (s_phase b), s_order b)"

lemma sort_steps_sorted: "sorted_wrt step_before (map snd (sort_key step_rank xs))"
proof -
  have "sorted (map step_rank (sort_key step_rank xs))" by simp
  then have "sorted_wrt (\<lambda>p q. step_rank p \<le> step_rank q) (sort_key step_rank xs)"
    by (simp add: sorted_wrt_map)
  then have "sorted_wrt (\<lambda>p q. step_before (snd p) (snd q)) (sort_key step_rank xs)"
    by (rule sorted_wrt_mono_rel [rotated]) (auto simp: step_rank_def step_before_def less_eq_prod_def)
  then show ?thesis by (simp add: sorted_wrt_map)
qed

lemma sort_steps_stable:
  "filter (\<lambda>s. (phaseRank (s_phase s), s_order s) = k) (map snd (sort_key step_rank (index_from n xs))) =
   filter (\<lambda>s. (phaseRank (s_phase s), s_order s) = k) xs"
proof -
  let ?P = "\<lambda>p :: nat \<times> step. (phaseRank (s_phase (snd p)), s_order (snd p)) = k"
  have "filter ?P (sort_key step_rank (index_from n xs)) = sort_key step_rank (filter ?P (index_from n xs))"
    by (rule filter_sort)
  also have "\<dots> = filter ?P (index_from n xs)"
  proof (rule sort_key_id_if_sorted)
    have "sorted_wrt (\<lambda>p q. fst p < fst q) (index_from n xs)" for n
      by (induction xs arbitrary: n) (auto simp: in_index_from)
    then have "sorted_wrt (\<lambda>p q. fst p < fst q) (filter ?P (index_from n xs))"
      by (rule sorted_wrt_filter)
    then show "sorted (map step_rank (filter ?P (index_from n xs)))"
      unfolding sorted_wrt_map
      by (rule sorted_wrt_mono_rel [rotated]) (auto simp: step_rank_def less_eq_prod_def)
  qed
  also have "map snd \<dots> = filter (\<lambda>s. (phaseRank (s_phase s), s_order s) = k) xs"
    by (induction xs arbitrary: n) auto
  finally show ?thesis by (simp add: filter_map comp_def)
qed

lemma normalized_phase_Inr_iff:
  "normalized_phase s = Inr s' \<longleftrightarrow>
   IsValidPhase (NormalizePhase (s_phase s)) \<and> s' = s\<lparr>s_phase := NormalizePhase (s_phase s)\<rparr>"
  by (auto simp: normalized_phase_def)

lemma mapR_normalized:
  "mapR normalized_phase xs = Inr ys \<longleftrightarrow>
   (\<forall>s \<in> set xs. IsValidPhase (NormalizePhase (s_phase s))) \<and>
   ys = map (\<lambda>s. s\<lparr>s_phase := NormalizePhase (s_phase s)\<rparr>) xs"
  by (auto simp: mapR_Inr_iff list_all2_conv_all_nth normalized_phase_Inr_iff all_set_conv_all_nth
      intro!: nth_equalityI)

text \<open>
  Ordering the steps of a job fails exactly when a step's phase is not pre, main or post (in any
  case, or empty for main); else the result holds the steps, with their phases normalized, sorted by
  phase and order, and steps of equal phase and order stay in the order they were declared.
\<close>

theorem steps_sorted_stably:
  "case sortStepsByPhaseAndOrder steps of
     Inl e \<Rightarrow> \<exists>s \<in> set steps. \<not> IsValidPhase (NormalizePhase (s_phase s)) \<and> e = (s_phase s, s_name s)
   | Inr out \<Rightarrow> (\<exists>norm. norm = map (\<lambda>s. s\<lparr>s_phase := NormalizePhase (s_phase s)\<rparr>) steps \<and>
       list_all (\<lambda>s. IsValidPhase (s_phase s)) norm \<and> mset out = mset norm \<and> sorted_wrt step_before out \<and>
       (\<forall>k. filter (\<lambda>s. (phaseRank (s_phase s), s_order s) = k) out =
            filter (\<lambda>s. (phaseRank (s_phase s), s_order s) = k) norm))"
proof (cases "mapR normalized_phase steps")
  case (Inl e)
  then show ?thesis by (auto simp: sortStepsByPhaseAndOrder_def dest: mapR_normalized_Inl)
next
  case (Inr ys)
  then have "list_all (\<lambda>s. IsValidPhase (s_phase s)) ys"
    "ys = map (\<lambda>s. s\<lparr>s_phase := NormalizePhase (s_phase s)\<rparr>) steps"
    by (auto simp: mapR_normalized list_all_iff)
  moreover have "sortStepsByPhaseAndOrder steps = Inr (map snd (sort_key step_rank (indexed ys)))"
    by (simp add: sortStepsByPhaseAndOrder_def Inr)
  ultimately show ?thesis
    using map_snd_index_sort[of step_rank 0 ys] sort_steps_sorted[of "indexed ys"] sort_steps_stable[of _ 0 ys]
    by (auto simp del: mset_map)
qed

section \<open>Overrides by name\<close>

definition upsert_step :: "step \<Rightarrow> step list \<Rightarrow> step list" where
  "upsert_step ov r =
     (if s_name ov \<in> s_name ` set r then map (\<lambda>s. if s_name s = s_name ov then ov else s) r else r @ [ov])"

definition index_ok :: "step list \<Rightarrow> (string, nat) gmap_of \<Rightarrow> bool" where
  "index_ok r idx \<longleftrightarrow> distinct (map s_name r) \<and>
     (\<forall>n i. gm_get idx n = Some i \<longleftrightarrow> i < length r \<and> s_name (r ! i) = n)"

lemma map_s_name_upsert:
  "map s_name (upsert_step ov r) =
   map s_name r @ (if s_name ov \<in> s_name ` set r then [] else [s_name ov])"
  by (auto simp: upsert_step_def)

lemma upsert_at:
  "\<lbrakk>distinct (map s_name r); i < length r; s_name (r ! i) = s_name ov\<rbrakk> \<Longrightarrow> upsert_step ov r = r[i := ov]"
proof (rule nth_equalityI)
  fix j assume d: "distinct (map s_name r)" and i: "i < length r" "s_name (r ! i) = s_name ov"
    and j: "j < length (upsert_step ov r)"
  have mem: "s_name ov \<in> s_name ` set r" using i by (metis image_eqI nth_mem)
  then have "j < length r" using j by (simp add: upsert_step_def)
  then have "s_name (r ! j) = s_name ov \<longleftrightarrow> j = i"
    using i nth_eq_iff_index_eq[OF d, of j i] by auto
  then show "upsert_step ov r ! j = r[i := ov] ! j"
    using mem \<open>j < length r\<close> by (simp add: upsert_step_def nth_list_update)
next
  assume "i < length r" "s_name (r ! i) = s_name ov"
  then have "s_name ov \<in> s_name ` set r" by (metis image_eqI nth_mem)
  then show "length (upsert_step ov r) = length (r[i := ov])" by (simp add: upsert_step_def)
qed

lemma override_loop_upserts:
  "index_ok r idx \<Longrightarrow> override_loop ovs r idx = fold upsert_step ovs r"
proof (induction ovs arbitrary: r idx)
  case (Cons ov ovs)
  show ?case
  proof (cases "gm_get idx (s_name ov)")
    case None
    then have none: "\<And>j. j < length r \<Longrightarrow> s_name (r ! j) \<noteq> s_name ov"
      using Cons.prems by (metis index_ok_def option.distinct(1))
    then have new: "s_name ov \<notin> s_name ` set r" by (metis image_iff in_set_conv_nth)
    have "index_ok (r @ [ov]) (gm_set (s_name ov) (length r) idx)"
      unfolding index_ok_def
    proof (intro conjI allI)
      show "distinct (map s_name (r @ [ov]))" using new Cons.prems by (simp add: index_ok_def)
      fix n i
      show "gm_get (gm_set (s_name ov) (length r) idx) n = Some i \<longleftrightarrow>
          i < length (r @ [ov]) \<and> s_name ((r @ [ov]) ! i) = n"
        using Cons.prems none by (cases "n = s_name ov")
          (auto simp: index_ok_def gm_simps nth_append less_Suc_eq)
    qed
    then show ?thesis using Cons.IH None new by (simp add: upsert_step_def)
  next
    case (Some i)
    then have i: "i < length r" "s_name (r ! i) = s_name ov" using Cons.prems by (auto simp: index_ok_def)
    then have up: "upsert_step ov r = r[i := ov]" using Cons.prems by (auto simp: index_ok_def upsert_at)
    have "map s_name (r[i := ov]) = map s_name r"
      using i by (metis list_update_id map_update nth_map)
    then have "index_ok (r[i := ov]) idx"
      using Cons.prems i by (auto simp: index_ok_def nth_list_update split: if_splits)
    then show ?thesis using Cons.IH Some up by simp
  qed
qed simp

lemma override_base_get:
  "distinct (map s_name ss) \<Longrightarrow> gm_get (override_base ss n idx) k = Some i \<longleftrightarrow>
     (if k \<in> s_name ` set ss then n \<le> i \<and> i < n + length ss \<and> s_name (ss ! (i - n)) = k
      else gm_get idx k = Some i)"
proof (induction ss arbitrary: n idx)
  case (Cons s ss)
  show ?case
  proof (cases "s_name s = k")
    case True
    then have "k \<notin> s_name ` set ss" using Cons.prems by auto
    moreover from this have "\<And>j. j < length ss \<Longrightarrow> s_name (ss ! j) \<noteq> k" by auto
    ultimately show ?thesis using Cons True
      by (auto simp: gm_simps nth_Cons split: nat.splits) 
  next
    case False
    have "(n \<le> i \<and> i < n + length (s # ss) \<and> s_name ((s # ss) ! (i - n)) = k) \<longleftrightarrow>
        (Suc n \<le> i \<and> i < Suc n + length ss \<and> s_name (ss ! (i - Suc n)) = k)"
      using False by (cases "i \<le> n") (auto simp: nth_Cons' le_less)
    then show ?thesis using Cons False by (simp add: gm_simps)
  qed
qed simp

lemma index_ok_base: "distinct (map s_name base) \<Longrightarrow> index_ok base (override_base base 0 [])"
  by (auto simp: index_ok_def override_base_get split: if_splits) 

lemma overrides_are_upserts:
  "distinct (map s_name base) \<Longrightarrow> applyStepOverrides base ovs = fold upsert_step ovs base"
  by (auto simp: applyStepOverrides_def index_ok_base override_loop_upserts)

definition step_named :: "string \<Rightarrow> step list \<Rightarrow> step option" where
  "step_named n ss = find (\<lambda>s. s_name s = n) ss"

lemma step_named_upsert:
  "step_named n (upsert_step ov r) = (if n = s_name ov then Some ov else step_named n r)"
proof -
  have "find (\<lambda>s. s_name s = n) (map (\<lambda>s. if s_name s = s_name ov then ov else s) r) =
      (if n = s_name ov \<and> n \<in> s_name ` set r then Some ov
       else find (\<lambda>s. s_name s = n) r)"
    by (induction r) auto
  moreover have "find (\<lambda>s. s_name s = n) (r @ [ov]) =
      (case find (\<lambda>s. s_name s = n) r of Some s \<Rightarrow> Some s | None \<Rightarrow> if s_name ov = n then Some ov else None)"
    by (induction r) auto
  moreover have "n \<notin> s_name ` set r \<Longrightarrow> find (\<lambda>s. s_name s = n) r = None"
    by (auto simp: find_None_iff)
  ultimately show ?thesis
    by (auto simp: step_named_def upsert_step_def split: option.splits)
qed

lemma step_named_fold:
  "step_named n (fold upsert_step ovs base) =
   (case step_named n (rev ovs) of Some ov \<Rightarrow> Some ov | None \<Rightarrow> step_named n base)"
proof (induction ovs rule: rev_induct)
  case (snoc ov ovs)
  then show ?case by (auto simp: step_named_upsert) (auto simp: step_named_def)
qed (simp add: step_named_def)

lemma names_fold:
  "distinct (map s_name base) \<Longrightarrow>
   distinct (map s_name (fold upsert_step ovs base)) \<and>
   (\<exists>added. map s_name (fold upsert_step ovs base) = map s_name base @ added \<and> set added \<subseteq> s_name ` set ovs)"
  by (induction ovs rule: rev_induct) (auto simp: map_s_name_upsert)

text \<open>
  A component's step overrides act by name: over a job whose step names are distinct, the step a
  name stands for afterwards is the last override of that name, or the job's own step when there is
  none; the job's steps keep their positions, overrides with new names follow them, and names stay
  distinct.
\<close>

theorem overrides_replace_by_name:
  assumes "distinct (map s_name base)"
  shows "step_named n (applyStepOverrides base ovs) =
      (case step_named n (rev ovs) of Some ov \<Rightarrow> Some ov | None \<Rightarrow> step_named n base) \<and>
    distinct (map s_name (applyStepOverrides base ovs)) \<and>
    (\<exists>added. map s_name (applyStepOverrides base ovs) = map s_name base @ added \<and>
       set added \<subseteq> s_name ` set ovs)"
  using overrides_are_upserts[OF assms] names_fold[OF assms] by (simp add: step_named_fold)

section \<open>Lane steps lead\<close>

definition job_run_step :: "rendered_step \<Rightarrow> bool" where
  "job_run_step s \<longleftrightarrow> rs_scope s \<noteq> StepScopeLane \<and> rs_use s = []"

lemma lane_steps_from_seen:
  "seen \<noteq> [] \<Longrightarrow> lane_steps_from seen ss = None \<longleftrightarrow> (\<forall>s \<in> set ss. rs_scope s \<noteq> StepScopeLane)"
  by (induction seen ss rule: lane_steps_from.induct) auto

lemma lane_steps_from_none: "\<forall>s \<in> set ss. rs_scope s \<noteq> StepScopeLane \<Longrightarrow> lane_steps_from seen ss = None"
  by (induction seen ss rule: lane_steps_from.induct) auto

lemma lane_steps_from_start:
  "\<forall>s \<in> set ss. rs_name s \<noteq> [] \<Longrightarrow> lane_steps_from [] ss = None \<longleftrightarrow>
   sorted_wrt (\<lambda>a b. \<not> (job_run_step a \<and> rs_scope b = StepScopeLane)) ss"
  by (induction ss) (auto simp: lane_steps_from_seen lane_steps_from_none job_run_step_def)

text \<open>
  For a job whose steps have names, the lane check accepts exactly when no lane-scoped step
  comes after a job-scoped step that is not a \<open>use:\<close> step.
\<close>

theorem lane_steps_lead:
  assumes "\<forall>s \<in> set steps. rs_name s \<noteq> []"
  shows "validateLaneScopedStepsLead steps = None \<longleftrightarrow>
    (\<forall>i j. i < j \<and> j < length steps \<and> rs_scope (steps ! j) = StepScopeLane \<longrightarrow>
       rs_scope (steps ! i) = StepScopeLane \<or> rs_use (steps ! i) \<noteq> [])"
  using lane_steps_from_start[OF assms]
  by (auto simp: validateLaneScopedStepsLead_def sorted_wrt_iff_nth_less job_run_step_def)

lemma overrides_replace_by_name_witness:
  "step_named ''plan'' (applyStepOverrides [zero_step\<lparr>s_name := ''init''\<rparr>, zero_step\<lparr>s_name := ''plan''\<rparr>]
      [zero_step\<lparr>s_name := ''plan'', s_run := ''make''\<rparr>, zero_step\<lparr>s_name := ''lint''\<rparr>]) =
   Some (zero_step\<lparr>s_name := ''plan'', s_run := ''make''\<rparr>)"
proof -
  have d: "distinct (map s_name [zero_step\<lparr>s_name := ''init''\<rparr>, zero_step\<lparr>s_name := ''plan''\<rparr>])" by simp
  show ?thesis
    using overrides_replace_by_name[OF d, of "''plan''"
        "[zero_step\<lparr>s_name := ''plan'', s_run := ''make''\<rparr>, zero_step\<lparr>s_name := ''lint''\<rparr>]"]
    by (simp add: step_named_def)
qed

definition zero_rendered_step :: rendered_step where
  "zero_rendered_step = \<lparr>rs_id = [], rs_name = [], rs_phase = ''main'', rs_order = 0, rs_scope = [],
     rs_run = [], rs_use = [], rs_workflow = [], rs_workflow_digest = [], rs_connections = [], rs_with = [],
     rs_env = [], rs_shell = [], rs_working_directory = [], rs_timeout = [], rs_retry = 0, rs_caches = [],
     rs_resume = False, rs_approval = None, rs_on_failure = []\<rparr>"

lemma lane_steps_lead_witness:
  "validateLaneScopedStepsLead
     [zero_rendered_step\<lparr>rs_name := ''test'', rs_run := ''make''\<rparr>,
      zero_rendered_step\<lparr>rs_name := ''install'', rs_scope := StepScopeLane\<rparr>] \<noteq> None"
proof -
  let ?s = "[zero_rendered_step\<lparr>rs_name := ''test'', rs_run := ''make''\<rparr>,
      zero_rendered_step\<lparr>rs_name := ''install'', rs_scope := StepScopeLane\<rparr>]"
  have n: "\<forall>s \<in> set ?s. rs_name s \<noteq> []" by simp
  have "\<exists>i j. i < j \<and> j < length ?s \<and> rs_scope (?s ! j) = StepScopeLane \<and>
      \<not> (rs_scope (?s ! i) = StepScopeLane \<or> rs_use (?s ! i) \<noteq> [])"
    by (rule exI[of _ 0], rule exI[of _ 1]) (simp add: zero_rendered_step_def StepScopeLane_def)
  then show ?thesis using lane_steps_lead[OF n] by blast
qed

text \<open>A step without a name does not count: a lane step after it is accepted.\<close>

lemma lane_step_after_unnamed_step:
  "validateLaneScopedStepsLead
     [zero_rendered_step\<lparr>rs_run := ''make''\<rparr>,
      zero_rendered_step\<lparr>rs_name := ''install'', rs_scope := StepScopeLane\<rparr>] = None"
  by (simp add: validateLaneScopedStepsLead_def zero_rendered_step_def StepScopeLane_def)

end
