(* ===== verification/Coord_Fold.thy ===== *)
theory Coord_Fold
  imports Go_Strings
begin

text \<open>
  \<open>internal/statebackend/fold.go\<close>, \<open>coordrunner.go\<close> and the loop of \<open>coordloop.go\<close>: the state of a
  coordinated run as a fold over its event stream. \<open>fold_event\<close> is the body of the loop of \<open>FoldFrom\<close>
  over the variables it updates (\<open>fold_acc\<close>); the kinds of events and the phases of jobs are the
  strings of the wire format. \<open>phase_step\<close> is the abstract state machine of one job; every event moves
  every job along it. \<open>RunLoop\<close> threads an abstract world through the calls of the coordination client.
\<close>

section \<open>The data\<close>

definition EventRunCreated :: string where "EventRunCreated = ''state.run.created''"
definition EventJobReady :: string where "EventJobReady = ''state.job.ready''"
definition EventJobClaimed :: string where "EventJobClaimed = ''state.job.claimed''"
definition EventLeaseRenewed :: string where "EventLeaseRenewed = ''state.job.lease_renewed''"
definition EventLeaseExpired :: string where "EventLeaseExpired = ''state.job.lease_expired''"
definition EventJobSucceeded :: string where "EventJobSucceeded = ''state.job.succeeded''"
definition EventJobMemoized :: string where "EventJobMemoized = ''state.job.memoized''"
definition EventJobFailed :: string where "EventJobFailed = ''state.job.failed''"
definition EventJobRetried :: string where "EventJobRetried = ''state.job.retried''"
definition EventRunCanceled :: string where "EventRunCanceled = ''state.run.canceled''"

lemmas event_kinds = EventRunCreated_def EventJobReady_def EventJobClaimed_def EventLeaseRenewed_def
  EventLeaseExpired_def EventJobSucceeded_def EventJobMemoized_def EventJobFailed_def
  EventJobRetried_def EventRunCanceled_def

record coordination_actor =
  ca_id :: string
  ca_type :: string

record coordination_event =
  ce_seq :: int
  ce_kind :: string
  ce_run_id :: string
  ce_job_id :: string
  ce_actor :: coordination_actor
  ce_at :: string
  ce_idempotency_key :: string
  ce_v :: int
  ce_plan_digest :: string
  ce_source_hash :: string
  ce_runner_id :: string
  ce_lease_epoch :: int
  ce_lease_expires_at :: string
  ce_attempt :: int
  ce_result_digest :: string
  ce_reason :: string
  ce_error_text :: string

record plan_node =
  pn_deps :: "string list"

record coordination_plan =
  cp_jobs :: "plan_node gmap"

record job_fold_state =
  jf_job_id :: string
  jf_phase :: string
  jf_holder :: string
  jf_lease_epoch :: int
  jf_lease_expires_at :: string
  jf_attempt :: int
  jf_result_digest :: string
  jf_error_text :: string

record run_fold_state =
  rf_run_id :: string
  rf_plan_digest :: string
  rf_source_hash :: string
  rf_phase :: string
  rf_jobs :: "job_fold_state gmap"
  rf_frontier :: "string list"
  rf_last_seq :: int

definition jobTerminal :: "string \<Rightarrow> bool" where
  "jobTerminal phase \<longleftrightarrow> phase \<in> {''succeeded'', ''memoized'', ''failed'', ''timed_out'', ''canceled''}"

definition jobSuccess :: "string \<Rightarrow> bool" where
  "jobSuccess phase \<longleftrightarrow> phase = ''succeeded'' \<or> phase = ''memoized''"

definition freshJob :: "string \<Rightarrow> job_fold_state" where
  "freshJob jobID = \<lparr>jf_job_id = jobID, jf_phase = ''queued'', jf_holder = [], jf_lease_epoch = 0,
     jf_lease_expires_at = [], jf_attempt = 1, jf_result_digest = [], jf_error_text = []\<rparr>"

section \<open>The fold\<close>

definition no_lease :: "job_fold_state \<Rightarrow> job_fold_state" where
  "no_lease j = j\<lparr>jf_holder := [], jf_lease_epoch := 0, jf_lease_expires_at := []\<rparr>"

definition cancel_job :: "job_fold_state \<Rightarrow> job_fold_state" where
  "cancel_job j = (if \<not> jobTerminal (jf_phase j) then no_lease (j\<lparr>jf_phase := ''canceled''\<rparr>) else j)"

definition job_switch :: "coordination_event \<Rightarrow> job_fold_state \<Rightarrow> job_fold_state" where
  "job_switch e j =
     (if ce_kind e = EventJobRetried then
        (if jf_phase j = ''failed'' \<or> jf_phase j = ''timed_out''
         then no_lease (j\<lparr>jf_phase := ''queued''\<rparr>) else j)
      else if ce_kind e = EventJobReady then
        (if \<not> jobTerminal (jf_phase j)
         then no_lease (j\<lparr>jf_phase := ''queued''\<rparr>)\<lparr>jf_attempt := ce_attempt e\<rparr> else j)
      else if ce_kind e = EventJobClaimed then
        j\<lparr>jf_phase := ''claimed'', jf_holder := ce_runner_id e, jf_lease_epoch := ce_lease_epoch e,
          jf_lease_expires_at := ce_lease_expires_at e, jf_attempt := ce_attempt e\<rparr>
      else if ce_kind e = EventLeaseRenewed then
        (if jf_holder j = ce_runner_id e \<and> jf_lease_epoch j = ce_lease_epoch e
         then j\<lparr>jf_lease_expires_at := ce_lease_expires_at e\<rparr> else j)
      else if ce_kind e = EventLeaseExpired then
        (if jf_phase j = ''claimed'' \<and> jf_lease_epoch j = ce_lease_epoch e
         then no_lease (j\<lparr>jf_phase := ''queued''\<rparr>)\<lparr>jf_attempt := jf_attempt j + 1\<rparr> else j)
      else if ce_kind e = EventJobSucceeded then
        no_lease (j\<lparr>jf_phase := ''succeeded'', jf_result_digest := ce_result_digest e\<rparr>)
      else if ce_kind e = EventJobMemoized then
        no_lease (j\<lparr>jf_phase := ''memoized'', jf_result_digest := ce_result_digest e\<rparr>)
      else if ce_kind e = EventJobFailed then
        no_lease (j\<lparr>jf_phase := (if ce_reason e = ''timed_out'' then ''timed_out'' else ''failed''),
                    jf_error_text := ce_error_text e\<rparr>)
      else j)"

definition job_event :: "coordination_event \<Rightarrow> job_fold_state \<Rightarrow> job_fold_state" where
  "job_event e j =
     (if jobTerminal (jf_phase j) \<and> ce_kind e \<noteq> EventJobReady \<and> ce_kind e \<noteq> EventJobRetried then j
      else job_switch e j)"

record fold_acc =
  fa_jobs :: "job_fold_state gmap"
  fa_plan_digest :: string
  fa_source_hash :: string
  fa_run_id :: string
  fa_last_seq :: int
  fa_canceled :: bool

definition note_event :: "coordination_event \<Rightarrow> fold_acc \<Rightarrow> fold_acc" where
  "note_event e a =
     (let a = (if ce_seq e > fa_last_seq a then a\<lparr>fa_last_seq := ce_seq e\<rparr> else a)
      in if fa_run_id a = [] then a\<lparr>fa_run_id := ce_run_id e\<rparr> else a)"

definition apply_event :: "coordination_event \<Rightarrow> fold_acc \<Rightarrow> fold_acc" where
  "apply_event e a =
     (if ce_kind e = EventRunCreated then a\<lparr>fa_plan_digest := ce_plan_digest e, fa_source_hash := ce_source_hash e\<rparr>
      else if ce_kind e = EventRunCanceled then
        a\<lparr>fa_canceled := True, fa_jobs := map (\<lambda>(id, j). (id, cancel_job j)) (fa_jobs a)\<rparr>
      else if ce_job_id e = [] then a
      else case gm_get (fa_jobs a) (ce_job_id e) of
             None \<Rightarrow> a
           | Some j \<Rightarrow> a\<lparr>fa_jobs := gm_set (ce_job_id e) (job_event e j) (fa_jobs a)\<rparr>)"

definition fold_event :: "coordination_event \<Rightarrow> fold_acc \<Rightarrow> fold_acc" where
  "fold_event e a = apply_event e (note_event e a)"

definition deriveRunPhase :: "job_fold_state gmap \<Rightarrow> bool \<Rightarrow> bool \<Rightarrow> string" where
  "deriveRunPhase jobs canceled created =
     (if canceled then ''canceled''
      else if jobs = [] then ''pending''
      else
        let phases = map (\<lambda>p. jf_phase (snd p)) jobs;
            anyFailed = list_ex (\<lambda>ph. ph = ''failed'' \<or> ph = ''timed_out'') phases;
            allSuccess = list_all jobSuccess phases;
            active = list_ex (\<lambda>p. jf_phase (snd p) \<noteq> ''queued'' \<or> jf_attempt (snd p) > 1) jobs
        in if anyFailed then ''failed''
           else if allSuccess then ''succeeded''
           else if created \<or> active then ''running''
           else ''pending'')"

definition plan_deps :: "coordination_plan \<Rightarrow> string \<Rightarrow> string list" where
  "plan_deps plan jobID = pn_deps (gm_get_or \<lparr>pn_deps = []\<rparr> (cp_jobs plan) jobID)"

definition dep_done :: "job_fold_state gmap \<Rightarrow> string \<Rightarrow> bool" where
  "dep_done jobs d = (case gm_get jobs d of None \<Rightarrow> False | Some dep \<Rightarrow> jobSuccess (jf_phase dep))"

definition computeFrontier :: "job_fold_state gmap \<Rightarrow> coordination_plan \<Rightarrow> string list" where
  "computeFrontier jobs plan =
     sort (map fst (filter (\<lambda>(jobID, job). jf_phase job = ''queued'' \<and>
        list_all (dep_done jobs) (plan_deps plan jobID)) jobs))"

definition start_acc :: "run_fold_state option \<Rightarrow> coordination_plan \<Rightarrow> fold_acc" where
  "start_acc prev plan =
     (let fresh = map (\<lambda>(jobID, _). (jobID, freshJob jobID)) (cp_jobs plan)
      in case prev of
           None \<Rightarrow> \<lparr>fa_jobs = fresh, fa_plan_digest = [], fa_source_hash = [], fa_run_id = [],
                    fa_last_seq = 0, fa_canceled = False\<rparr>
         | Some p \<Rightarrow> \<lparr>fa_jobs = gm_copy (rf_jobs p) fresh, fa_plan_digest = rf_plan_digest p,
                     fa_source_hash = rf_source_hash p, fa_run_id = rf_run_id p,
                     fa_last_seq = rf_last_seq p, fa_canceled = (rf_phase p = ''canceled'')\<rparr>)"

definition finish_acc :: "coordination_plan \<Rightarrow> fold_acc \<Rightarrow> run_fold_state" where
  "finish_acc plan a =
     \<lparr>rf_run_id = fa_run_id a, rf_plan_digest = fa_plan_digest a, rf_source_hash = fa_source_hash a,
      rf_phase = deriveRunPhase (fa_jobs a) (fa_canceled a) (fa_plan_digest a \<noteq> []),
      rf_jobs = fa_jobs a, rf_frontier = computeFrontier (fa_jobs a) plan, rf_last_seq = fa_last_seq a\<rparr>"

definition already_folded :: "run_fold_state option \<Rightarrow> coordination_event \<Rightarrow> bool" where
  "already_folded prev e = (case prev of None \<Rightarrow> False | Some p \<Rightarrow> ce_seq e \<le> rf_last_seq p)"

definition FoldFrom :: "run_fold_state option \<Rightarrow> coordination_event list \<Rightarrow> coordination_plan \<Rightarrow> run_fold_state" where
  "FoldFrom prev events plan =
     finish_acc plan
       (fold (\<lambda>e a. if already_folded prev e then a else fold_event e a) (sort_key ce_seq events)
         (start_acc prev plan))"

definition Fold :: "coordination_event list \<Rightarrow> coordination_plan \<Rightarrow> run_fold_state" where
  "Fold events plan = FoldFrom None events plan"

section \<open>Folding page by page\<close>

definition fold_all :: "coordination_event list \<Rightarrow> coordination_plan \<Rightarrow> fold_acc" where
  "fold_all events plan = fold fold_event (sort_key ce_seq events) (start_acc None plan)"

lemma Fold_fold_all: "Fold events plan = finish_acc plan (fold_all events plan)"
  by (simp add: Fold_def FoldFrom_def fold_all_def already_folded_def)

lemma keys_fold_event [simp]: "gm_keys (fa_jobs (fold_event e a)) = gm_keys (fa_jobs a)"
  by (auto simp: fold_event_def apply_event_def note_event_def update_keys Let_def comp_def case_prod_beta
      split: option.splits dest!: map_of_SomeD) (force simp: image_iff)?

lemma keys_fold: "gm_keys (fa_jobs (fold fold_event es a)) = gm_keys (fa_jobs a)"
  by (induction es arbitrary: a) auto

lemma keys_fold_all: "gm_keys (fa_jobs (fold_all es plan)) = gm_keys (cp_jobs plan)"
  by (simp add: fold_all_def keys_fold start_acc_def comp_def case_prod_beta)

lemma gm_copy_same_keys:
  "\<lbrakk>gm_keys src = gm_keys dst; gm_ok dst\<rbrakk> \<Longrightarrow> gm_copy src dst = src"
proof -
  have "gm_copy src (pre @ dst) = pre @ src"
    if "gm_keys src = gm_keys dst" "distinct (gm_keys (pre @ dst))" for pre :: "('a \<times> 'b) list"
    using that
  proof (induction src arbitrary: dst pre)
    case (Cons p src)
    then obtain q dst' where d: "dst = q # dst'" "fst q = fst p" "gm_keys src = gm_keys dst'" by auto
    have up: "gm_set (fst p) (snd p) (pre @ q # dst') = pre @ p # dst'"
      using Cons.prems d by (induction pre) (auto simp: prod_eq_iff)
    have "gm_copy (p # src) (pre @ dst) = gm_copy src ((pre @ [p]) @ dst')"
      by (simp add: gm_copy_def case_prod_beta d up)
    also have "\<dots> = (pre @ [p]) @ src" by (rule Cons.IH) (use Cons.prems d in auto)
    finally show ?case by simp
  qed simp
  from this[of "[]"] show "\<lbrakk>gm_keys src = gm_keys dst; gm_ok dst\<rbrakk> \<Longrightarrow> gm_copy src dst = src"
    by (simp add: gm_ok_def)
qed

lemma phase_canceled_iff: "rf_phase (finish_acc plan a) = ''canceled'' \<longleftrightarrow> fa_canceled a"
  by (simp add: finish_acc_def deriveRunPhase_def Let_def)

lemma resume_acc:
  assumes "gm_ok (cp_jobs plan)"
  shows "start_acc (Some (Fold es plan)) plan = fold_all es plan"
proof -
  have "gm_copy (fa_jobs (fold_all es plan)) (map (\<lambda>(jobID, _). (jobID, freshJob jobID)) (cp_jobs plan)) =
      fa_jobs (fold_all es plan)"
    using assms by (intro gm_copy_same_keys)
      (simp_all add: keys_fold_all gm_ok_def comp_def case_prod_beta)
  then show ?thesis
    unfolding start_acc_def Fold_fold_all by (simp add: phase_canceled_iff) (simp add: finish_acc_def)
qed

lemma last_seq_fold_event: "fa_last_seq (fold_event e a) = max (fa_last_seq a) (ce_seq e)"
  by (auto simp: fold_event_def apply_event_def note_event_def Let_def split: option.splits)

lemma last_seq_bounds: "e \<in> set es \<Longrightarrow> ce_seq e \<le> fa_last_seq (fold fold_event es a)"
proof (induction es arbitrary: a)
  case (Cons x es)
  have "fa_last_seq a \<le> fa_last_seq (fold fold_event es a)" for a es
    by (induction es arbitrary: a) (simp_all, metis last_seq_fold_event max.bounded_iff)
  from this[of "fold_event x a" es] Cons show ?case by (auto simp: last_seq_fold_event)
qed simp

lemma fold_skip: "fold (\<lambda>e a. if P e then a else f e a) es a = fold f (filter (\<lambda>e. \<not> P e) es) a"
  by (induction es arbitrary: a) auto

lemma sort_key_append_le:
  assumes "\<forall>x \<in> set xs. \<forall>y \<in> set ys. f x \<le> f y"
  shows "sort_key f (xs @ ys) = sort_key f xs @ sort_key f ys"
proof (rule properties_for_sort_key)
  show "sorted (map f (sort_key f xs @ sort_key f ys))" using assms by (simp add: sorted_append)
next
  fix k
  have "filter (\<lambda>x. f k = f x) (sort_key f zs) = filter (\<lambda>x. f k = f x) zs" for zs
    by (simp only: eq_commute[of "f k"] sort_key_stable)
  then show "filter (\<lambda>x. f k = f x) (sort_key f xs @ sort_key f ys) = filter (\<lambda>x. f k = f x) (xs @ ys)"
    by simp
qed simp

lemma FoldFrom_spec:
  assumes "gm_ok (cp_jobs plan)"
  shows "FoldFrom (Some (Fold es plan)) page plan =
    Fold (es @ filter (\<lambda>e. rf_last_seq (Fold es plan) < ce_seq e) page) plan"
proof -
  let ?last = "rf_last_seq (Fold es plan)" and ?new = "filter (\<lambda>e. rf_last_seq (Fold es plan) < ce_seq e) page"
  have "\<forall>x \<in> set es. ce_seq x \<le> ?last"
    by (simp add: Fold_fold_all finish_acc_def fold_all_def last_seq_bounds)
  then have srt: "sort_key ce_seq (es @ ?new) = sort_key ce_seq es @ sort_key ce_seq ?new"
    by (intro sort_key_append_le) force
  have "FoldFrom (Some (Fold es plan)) page plan =
      finish_acc plan (fold fold_event (filter (\<lambda>e. \<not> ce_seq e \<le> ?last) (sort_key ce_seq page)) (fold_all es plan))"
    by (simp add: FoldFrom_def already_folded_def fold_skip resume_acc[OF assms])
  also have "\<dots> = finish_acc plan (fold fold_event (sort_key ce_seq ?new) (fold_all es plan))"
    by (simp add: filter_sort not_le)
  also have "\<dots> = Fold (es @ ?new) plan"
    by (simp only: Fold_fold_all[of "es @ ?new"] fold_all_def srt fold_append comp_def)
  finally show ?thesis .
qed

text \<open>
  C6: folding a page of events onto a folded state gives what folding the whole stream would give: the
  stream so far followed by the events of the page that are new. Events up to the last folded sequence
  number may be delivered again without effect.
\<close>

theorem incremental_fold_is_whole_fold:
  assumes "gm_ok (cp_jobs plan)"
  shows "FoldFrom (Some (Fold es plan)) page plan =
    Fold (es @ filter (\<lambda>e. rf_last_seq (Fold es plan) < ce_seq e) page) plan"
  by (rule FoldFrom_spec[OF assms])


section \<open>The state machine of a job\<close>

inductive phase_step :: "string \<Rightarrow> string \<Rightarrow> bool" where
  claim: "phase_step ph ''claimed''" if "ph = ''queued'' \<or> ph = ''claimed''"
| release: "phase_step ''claimed'' ''queued''"
| finish: "phase_step ph ph'" if "ph = ''queued'' \<or> ph = ''claimed''" "jobTerminal ph'"
| retry: "phase_step ph ''queued''" if "ph = ''failed'' \<or> ph = ''timed_out''"

definition job_phase :: "string \<Rightarrow> bool" where
  "job_phase ph \<longleftrightarrow> ph = ''queued'' \<or> ph = ''claimed'' \<or> jobTerminal ph"

inductive_cases phase_step_from: "phase_step ph ph'"

definition final_phase :: "string \<Rightarrow> bool" where
  "final_phase ph \<longleftrightarrow> ph = ''succeeded'' \<or> ph = ''memoized'' \<or> ph = ''canceled''"

lemma phase_step_not_final: "phase_step ph ph' \<Longrightarrow> \<not> final_phase ph"
  by (auto simp: final_phase_def elim: phase_step_from)

text \<open>What one event does to one job: nothing, or a step of the machine.\<close>

definition job_moves :: "job_fold_state \<Rightarrow> job_fold_state \<Rightarrow> bool" where
  "job_moves j j' \<longleftrightarrow> (final_phase (jf_phase j) \<longrightarrow> j' = j) \<and> phase_step\<^sup>*\<^sup>* (jf_phase j) (jf_phase j') \<and>
     (job_phase (jf_phase j) \<longrightarrow> job_phase (jf_phase j')) \<and>
     (jf_phase j' = ''canceled'' \<longrightarrow> jf_phase j = ''canceled'')"

lemma job_moves_refl [simp]: "job_moves j j"
  by (simp add: job_moves_def)

lemma job_moves_trans: "job_moves i j \<Longrightarrow> job_moves j k \<Longrightarrow> job_moves i k"
  unfolding job_moves_def by (metis rtranclp_trans)

lemma no_lease_sel [simp]:
  "jf_phase (no_lease j) = jf_phase j" "jf_holder (no_lease j) = []" "jf_lease_epoch (no_lease j) = 0"
  "jf_lease_expires_at (no_lease j) = []" "jf_result_digest (no_lease j) = jf_result_digest j"
  by (simp_all add: no_lease_def)

lemma job_event_terminal:
  "jobTerminal (jf_phase j) \<Longrightarrow> job_event e j =
     (if ce_kind e = EventJobRetried \<and> (jf_phase j = ''failed'' \<or> jf_phase j = ''timed_out'')
      then no_lease (j\<lparr>jf_phase := ''queued''\<rparr>) else j)"
  by (simp add: job_event_def job_switch_def)

definition open_phases :: "string set" where "open_phases = {''queued'', ''claimed''}"

definition end_phases :: "string set" where
  "end_phases = {''succeeded'', ''memoized'', ''failed'', ''timed_out''}"

lemma job_event_open:
  "\<not> jobTerminal (jf_phase j) \<Longrightarrow>
     jf_phase (job_event e j) = jf_phase j \<or> jf_phase (job_event e j) \<in> open_phases \<union> end_phases"
  by (simp add: job_event_def job_switch_def open_phases_def end_phases_def)

lemma job_phase_sets: "job_phase ph \<longleftrightarrow> ph \<in> open_phases \<or> jobTerminal ph"
  by (simp add: job_phase_def open_phases_def)

lemma phase_steps:
  "ph \<in> open_phases \<Longrightarrow> ph' \<in> open_phases \<union> end_phases \<Longrightarrow> phase_step\<^sup>*\<^sup>* ph ph'"
proof (cases "ph' \<in> end_phases")
  case True
  assume "ph \<in> open_phases"
  moreover have "jobTerminal ph'" using True by (auto simp: end_phases_def jobTerminal_def)
  ultimately have "phase_step ph ph'" by (intro phase_step.finish) (auto simp: open_phases_def)
  then show ?thesis by simp
next
  case False
  assume "ph \<in> open_phases" "ph' \<in> open_phases \<union> end_phases"
  then show ?thesis using False by (auto simp: open_phases_def intro: phase_step.intros)
qed

lemma phases_apart:
  "ph \<in> open_phases \<Longrightarrow> \<not> final_phase ph" "ph \<in> open_phases \<union> end_phases \<Longrightarrow> job_phase ph"
  "ph \<in> open_phases \<union> end_phases \<Longrightarrow> ph \<noteq> ''canceled''"
  by (auto simp: open_phases_def end_phases_def final_phase_def job_phase_def jobTerminal_def)

lemma job_event_moves:
  assumes "job_phase (jf_phase j)"
  shows "job_moves j (job_event e j)"
proof (cases "jobTerminal (jf_phase j)")
  case True
  then show ?thesis
    by (auto simp: job_event_terminal job_moves_def final_phase_def job_phase_def intro: phase_step.intros)
next
  case False
  then have ph: "jf_phase j \<in> open_phases" using assms by (simp add: job_phase_sets)
  have "jf_phase (job_event e j) \<in> open_phases \<union> end_phases"
    using job_event_open[OF False, of e] ph by auto
  then show ?thesis
    unfolding job_moves_def using phase_steps[OF ph] phases_apart(1)[OF ph]
    by (simp add: phases_apart)
qed

lemma cancel_job_moves:
  assumes "job_phase (jf_phase j)"
  shows "final_phase (jf_phase j) \<Longrightarrow> cancel_job j = j" "phase_step\<^sup>*\<^sup>* (jf_phase j) (jf_phase (cancel_job j))"
    "job_phase (jf_phase (cancel_job j))"
  using assms
  by (auto simp: cancel_job_def final_phase_def job_phase_def jobTerminal_def
      intro!: r_into_rtranclp phase_step.finish)

text \<open>The jobs of a run, pointwise: each moves along the machine, or is cancelled with the run.\<close>

definition entry_moves :: "string \<times> job_fold_state \<Rightarrow> string \<times> job_fold_state \<Rightarrow> bool" where
  "entry_moves p p' \<longleftrightarrow> fst p' = fst p \<and>
     (job_phase (jf_phase (snd p)) \<longrightarrow> job_phase (jf_phase (snd p')) \<and>
        phase_step\<^sup>*\<^sup>* (jf_phase (snd p)) (jf_phase (snd p')) \<and>
        (final_phase (jf_phase (snd p)) \<longrightarrow> snd p' = snd p))"

definition jobs_move :: "job_fold_state gmap \<Rightarrow> job_fold_state gmap \<Rightarrow> bool" where
  "jobs_move js js' \<longleftrightarrow> list_all2 entry_moves js js'"

lemma entry_moves_refl [simp]: "entry_moves p p"
  by (simp add: entry_moves_def)

lemma entry_moves_trans: "entry_moves p q \<Longrightarrow> entry_moves q r \<Longrightarrow> entry_moves p r"
  unfolding entry_moves_def by (metis rtranclp_trans)

lemma jobs_move_refl [simp]: "jobs_move js js"
  by (auto simp: jobs_move_def intro!: list.rel_refl_strong)

lemma jobs_move_trans: "jobs_move xs ys \<Longrightarrow> jobs_move ys zs \<Longrightarrow> jobs_move xs zs"
  unfolding jobs_move_def by (rule list_all2_trans[OF entry_moves_trans])

lemma jobs_move_set:
  assumes "gm_get js k = Some j"
  shows "jobs_move js (gm_set k (job_event e j) js)"
  using assms
proof (induction js)
  case (Cons p js)
  then show ?case
    using job_event_moves[of j e]
    by (cases p) (auto simp: jobs_move_def entry_moves_def job_moves_def intro!: list.rel_refl_strong split: if_splits)
qed simp

lemma jobs_move_fold_event: "jobs_move (fa_jobs a) (fa_jobs (fold_event e a))"
proof -
  have "jobs_move js (map (\<lambda>(id, j). (id, cancel_job j)) js)" for js
    by (auto simp: jobs_move_def entry_moves_def list_all2_map2 cancel_job_moves intro!: list.rel_refl_strong)
  then show ?thesis
    by (auto simp: fold_event_def apply_event_def note_event_def Let_def jobs_move_set split: option.splits)
qed

lemma jobs_move_fold: "jobs_move (fa_jobs a) (fa_jobs (fold fold_event es a))"
  by (induction es arbitrary: a) (auto intro: jobs_move_trans jobs_move_fold_event)

lemma jobs_move_get:
  assumes "jobs_move js js'" "gm_get js k = Some j" "job_phase (jf_phase j)"
  shows "\<exists>j'. gm_get js' k = Some j' \<and> job_phase (jf_phase j') \<and>
    phase_step\<^sup>*\<^sup>* (jf_phase j) (jf_phase j') \<and> (final_phase (jf_phase j) \<longrightarrow> j' = j)"
proof -
  have "list_all2 entry_moves js js'" using assms(1) by (simp add: jobs_move_def)
  then show ?thesis using assms(2)
  proof (induction js js' rule: list_all2_induct)
    case (Cons p js p' js')
    then show ?case using assms(3) by (cases p; cases p') (auto simp: entry_moves_def split: if_splits)
  qed simp
qed

lemma jobs_move_phases:
  assumes "jobs_move js js'" "\<forall>p \<in> set js. job_phase (jf_phase (snd p))"
  shows "\<forall>p \<in> set js'. job_phase (jf_phase (snd p))"
proof -
  have "list_all2 entry_moves js js'" using assms(1) by (simp add: jobs_move_def)
  then show ?thesis using assms(2)
    by (induction js js' rule: list_all2_induct) (auto simp: entry_moves_def)
qed

lemma fold_all_phases: "\<forall>p \<in> set (fa_jobs (fold_all es plan)). job_phase (jf_phase (snd p))"
  unfolding fold_all_def
  by (rule jobs_move_phases[OF jobs_move_fold]) (auto simp: start_acc_def freshJob_def job_phase_def)

lemma rf_jobs_Fold: "rf_jobs (Fold es plan) = fa_jobs (fold_all es plan)"
  by (simp add: Fold_fold_all finish_acc_def)

lemma FoldFrom_jobs_move:
  assumes "gm_ok (cp_jobs plan)"
  shows "jobs_move (rf_jobs (Fold es plan)) (rf_jobs (FoldFrom (Some (Fold es plan)) page plan))"
  by (simp add: FoldFrom_def fold_skip resume_acc[OF assms] rf_jobs_Fold jobs_move_fold)
    (simp add: finish_acc_def jobs_move_fold)

subsection \<open>The machine, event by event\<close>

text \<open>
  The table of the machine, one rule for each kind of event: which events move a job, from which phases, and to what.
  \<open>e\<close> is the event, \<open>k\<close> the job's id. An event without a rule for the job leaves it as it is.
\<close>

inductive machine_move :: "string \<Rightarrow> coordination_event \<Rightarrow> job_fold_state \<Rightarrow> job_fold_state \<Rightarrow> bool" for k e j where
  ready: "machine_move k e j (j\<lparr>jf_phase := ''queued'', jf_holder := [], jf_lease_epoch := 0, jf_lease_expires_at := [],
      jf_attempt := ce_attempt e\<rparr>)"
    if "ce_kind e = EventJobReady" "ce_job_id e = k" "k \<noteq> []" "jf_phase j \<in> {''queued'', ''claimed''}"
| claimed: "machine_move k e j (j\<lparr>jf_phase := ''claimed'', jf_holder := ce_runner_id e, jf_lease_epoch := ce_lease_epoch e,
      jf_lease_expires_at := ce_lease_expires_at e, jf_attempt := ce_attempt e\<rparr>)"
    if "ce_kind e = EventJobClaimed" "ce_job_id e = k" "k \<noteq> []" "jf_phase j \<in> {''queued'', ''claimed''}"
| renewed: "machine_move k e j (j\<lparr>jf_lease_expires_at := ce_lease_expires_at e\<rparr>)"
    if "ce_kind e = EventLeaseRenewed" "ce_job_id e = k" "k \<noteq> []" "jf_phase j \<in> {''queued'', ''claimed''}"
      "jf_holder j = ce_runner_id e" "jf_lease_epoch j = ce_lease_epoch e"
| expired: "machine_move k e j (j\<lparr>jf_phase := ''queued'', jf_holder := [], jf_lease_epoch := 0, jf_lease_expires_at := [],
      jf_attempt := jf_attempt j + 1\<rparr>)"
    if "ce_kind e = EventLeaseExpired" "ce_job_id e = k" "k \<noteq> []" "jf_phase j = ''claimed''"
      "jf_lease_epoch j = ce_lease_epoch e"
| succeeded: "machine_move k e j (j\<lparr>jf_phase := ''succeeded'', jf_result_digest := ce_result_digest e, jf_holder := [], jf_lease_epoch := 0,
      jf_lease_expires_at := []\<rparr>)"
    if "ce_kind e = EventJobSucceeded" "ce_job_id e = k" "k \<noteq> []" "jf_phase j \<in> {''queued'', ''claimed''}"
| memoized: "machine_move k e j (j\<lparr>jf_phase := ''memoized'', jf_result_digest := ce_result_digest e, jf_holder := [], jf_lease_epoch := 0,
      jf_lease_expires_at := []\<rparr>)"
    if "ce_kind e = EventJobMemoized" "ce_job_id e = k" "k \<noteq> []" "jf_phase j \<in> {''queued'', ''claimed''}"
| failed: "machine_move k e j (j\<lparr>jf_phase := ''failed'', jf_error_text := ce_error_text e, jf_holder := [], jf_lease_epoch := 0,
      jf_lease_expires_at := []\<rparr>)"
    if "ce_kind e = EventJobFailed" "ce_job_id e = k" "k \<noteq> []" "jf_phase j \<in> {''queued'', ''claimed''}"
      "ce_reason e \<noteq> ''timed_out''"
| timed_out: "machine_move k e j (j\<lparr>jf_phase := ''timed_out'', jf_error_text := ce_error_text e, jf_holder := [], jf_lease_epoch := 0,
      jf_lease_expires_at := []\<rparr>)"
    if "ce_kind e = EventJobFailed" "ce_job_id e = k" "k \<noteq> []" "jf_phase j \<in> {''queued'', ''claimed''}"
      "ce_reason e = ''timed_out''"
| retried: "machine_move k e j (j\<lparr>jf_phase := ''queued'', jf_holder := [], jf_lease_epoch := 0, jf_lease_expires_at := []\<rparr>)"
    if "ce_kind e = EventJobRetried" "ce_job_id e = k" "k \<noteq> []" "jf_phase j \<in> {''failed'', ''timed_out''}"
| canceled: "machine_move k e j (j\<lparr>jf_phase := ''canceled'', jf_holder := [], jf_lease_epoch := 0, jf_lease_expires_at := []\<rparr>)"
    if "ce_kind e = EventRunCanceled" "jf_phase j \<in> {''queued'', ''claimed''}"

inductive_simps machine_move_iff: "machine_move k e j j'"

definition machine_step :: "string \<Rightarrow> coordination_event \<Rightarrow> job_fold_state \<Rightarrow> job_fold_state \<Rightarrow> bool" where
  "machine_step k e j j' \<longleftrightarrow> machine_move k e j j' \<or> ((\<forall>j''. \<not> machine_move k e j j'') \<and> j' = j)"

fun machine_path :: "string \<Rightarrow> coordination_event list \<Rightarrow> job_fold_state \<Rightarrow> job_fold_state \<Rightarrow> bool" where
  "machine_path k [] j j' \<longleftrightarrow> j' = j"
| "machine_path k (e # es) j j' \<longleftrightarrow> (\<exists>m. machine_step k e j m \<and> machine_path k es m j')"

definition event_effect :: "string \<Rightarrow> coordination_event \<Rightarrow> job_fold_state \<Rightarrow> job_fold_state" where
  "event_effect k e j =
     (if ce_kind e = EventRunCreated then j else if ce_kind e = EventRunCanceled then cancel_job j
      else if ce_job_id e = k \<and> k \<noteq> [] then job_event e j else j)"

lemma get_map_snd: "gm_get (map (\<lambda>(id, j). (id, f j)) m) k = map_option f (gm_get m k)"
  by (induction m) auto

lemma fold_event_get: "gm_get (fa_jobs (fold_event e a)) k = map_option (event_effect k e) (gm_get (fa_jobs a) k)"
proof -
  have jobs: "fa_jobs (note_event e a) = fa_jobs a" by (simp add: note_event_def Let_def)
  show ?thesis
    by (cases "gm_get (fa_jobs a) k")
      (auto simp: fold_event_def apply_event_def jobs event_effect_def get_map_snd gm_get_set split: option.splits)
qed

lemma open_not_terminal: "jf_phase j \<in> {''queued'', ''claimed''} \<Longrightarrow> \<not> jobTerminal (jf_phase j)"
  by (auto simp: jobTerminal_def)

lemma event_effect_open:
  assumes ph: "jf_phase j \<in> {''queued'', ''claimed''}"
  shows "machine_step k e j (event_effect k e j)"
proof -
  note t = open_not_terminal[OF ph]
  have move: "machine_step k e j j'" if "machine_move k e j j'" for j' using that by (simp add: machine_step_def)
  have stay: "machine_step k e j j" if "\<And>j'. \<not> machine_move k e j j'" using that by (simp add: machine_step_def)
  note distinct = event_kinds
  consider "ce_kind e = EventRunCanceled" | "ce_kind e \<noteq> EventRunCanceled" "\<not> (ce_job_id e = k \<and> k \<noteq> [])"
    | "ce_kind e \<noteq> EventRunCanceled" "ce_job_id e = k" "k \<noteq> []" by blast
  then show ?thesis
  proof cases
    case 1
    then show ?thesis using t machine_move.canceled[OF 1 ph, of k]
      by (intro move) (simp add: event_effect_def cancel_job_def no_lease_def event_kinds)
  next
    case 2
    then show ?thesis by (simp only: event_effect_def simp_thms if_False if_cancel) (intro stay, auto simp: machine_move_iff)
  next
    case 3
    show ?thesis
    proof (cases "ce_kind e = EventRunCreated")
      case True
      then show ?thesis by (simp add: event_effect_def) (intro stay, simp add: machine_move_iff event_kinds)
    next
      case False
      then have e: "event_effect k e j = job_switch e j" using 3 t by (simp add: event_effect_def job_event_def)
      consider "ce_kind e = EventJobReady" | "ce_kind e = EventJobClaimed" | "ce_kind e = EventLeaseRenewed"
        | "ce_kind e = EventLeaseExpired" | "ce_kind e = EventJobSucceeded" | "ce_kind e = EventJobMemoized"
        | "ce_kind e = EventJobFailed" | "ce_kind e = EventJobRetried"
        | "ce_kind e \<notin> {EventJobReady, EventJobClaimed, EventLeaseRenewed, EventLeaseExpired, EventJobSucceeded,
             EventJobMemoized, EventJobFailed, EventJobRetried}" by blast
      then have "machine_step k e j (job_switch e j)"
      proof cases
        case 1
        then show ?thesis using t machine_move.ready[OF 1 3(2,3) ph]
          by (intro move) (simp add: job_switch_def no_lease_def event_kinds)
      next
        case 2
        then show ?thesis using machine_move.claimed[OF 2 3(2,3) ph]
          by (intro move) (simp add: job_switch_def no_lease_def event_kinds)
      next
        case k: 3
        show ?thesis
        proof (cases "jf_holder j = ce_runner_id e \<and> jf_lease_epoch j = ce_lease_epoch e")
          case True
          then show ?thesis using k machine_move.renewed[OF k 3(2,3) ph]
            by (intro move) (simp add: job_switch_def event_kinds)
        next
          case False
          then have "job_switch e j = j" using k by (auto simp: job_switch_def event_kinds)
          then show ?thesis using k False by (simp only:) (intro stay, auto simp: machine_move_iff event_kinds)
        qed
      next
        case k: 4
        show ?thesis
        proof (cases "jf_phase j = ''claimed'' \<and> jf_lease_epoch j = ce_lease_epoch e")
          case True
          then show ?thesis using k machine_move.expired[OF k 3(2,3)]
            by (intro move) (simp add: job_switch_def no_lease_def event_kinds)
        next
          case False
          then have "job_switch e j = j" using k by (auto simp: job_switch_def event_kinds)
          then show ?thesis using k False by (simp only:) (intro stay, auto simp: machine_move_iff event_kinds)
        qed
      next
        case 5
        then show ?thesis using machine_move.succeeded[OF 5 3(2,3) ph]
          by (intro move) (simp add: job_switch_def no_lease_def event_kinds)
      next
        case 6
        then show ?thesis using machine_move.memoized[OF 6 3(2,3) ph]
          by (intro move) (simp add: job_switch_def no_lease_def event_kinds)
      next
        case 7
        then show ?thesis using machine_move.failed[OF 7 3(2,3) ph] machine_move.timed_out[OF 7 3(2,3) ph]
          by (intro move) (simp add: job_switch_def no_lease_def event_kinds)
      next
        case 8
        then have "job_switch e j = j" using ph by (auto simp: job_switch_def event_kinds)
        then show ?thesis using 8 ph by (simp only:) (intro stay, auto simp: machine_move_iff event_kinds)
      next
        case 9
        then have "job_switch e j = j" by (simp add: job_switch_def)
        then show ?thesis using 9 3(1) by (simp only:) (intro stay, auto simp: machine_move_iff)
      qed
      then show ?thesis unfolding e .
    qed
  qed
qed

lemma machine_move_from:
  "machine_move k e j j' \<Longrightarrow> jf_phase j \<in> {''queued'', ''claimed''} \<or>
     (ce_kind e = EventJobRetried \<and> ce_job_id e = k \<and> k \<noteq> [] \<and> jf_phase j \<in> {''failed'', ''timed_out''})"
  by (erule machine_move.cases) simp_all

lemma event_effect_terminal:
  assumes "jobTerminal (jf_phase j)"
  shows "event_effect k e j =
    (if ce_kind e = EventJobRetried \<and> ce_job_id e = k \<and> k \<noteq> [] \<and> jf_phase j \<in> {''failed'', ''timed_out''}
     then no_lease (j\<lparr>jf_phase := ''queued''\<rparr>) else j)"
  using assms by (auto simp: event_effect_def job_event_terminal cancel_job_def event_kinds)

lemma event_effect_step:
  assumes "job_phase (jf_phase j)"
  shows "machine_step k e j (event_effect k e j)"
proof (cases "jf_phase j \<in> {''queued'', ''claimed''}")
  case True
  then show ?thesis by (rule event_effect_open)
next
  case False
  then have t: "jobTerminal (jf_phase j)" using assms by (simp add: job_phase_def)
  show ?thesis
  proof (cases "ce_kind e = EventJobRetried \<and> ce_job_id e = k \<and> k \<noteq> [] \<and> jf_phase j \<in> {''failed'', ''timed_out''}")
    case True
    then have "event_effect k e j = no_lease (j\<lparr>jf_phase := ''queued''\<rparr>)" unfolding event_effect_terminal[OF t] by (rule if_P)
    moreover have "machine_move k e j (no_lease (j\<lparr>jf_phase := ''queued''\<rparr>))"
      using machine_move.retried[of e k j] True by (simp add: no_lease_def)
    ultimately show ?thesis by (simp add: machine_step_def)
  next
    case idle: False
    then have "event_effect k e j = j" unfolding event_effect_terminal[OF t] by (rule if_not_P)
    moreover have "\<not> machine_move k e j j'" for j' using machine_move_from[of k e j j'] idle False by blast
    ultimately show ?thesis by (simp add: machine_step_def)
  qed
qed

lemma fold_machine_path:
  assumes "gm_get (fa_jobs a) k = Some j" "\<forall>p \<in> set (fa_jobs a). job_phase (jf_phase (snd p))"
  shows "\<exists>j'. gm_get (fa_jobs (fold fold_event es a)) k = Some j' \<and> machine_path k es j j'"
  using assms
proof (induction es arbitrary: a j)
  case (Cons e es)
  have "machine_step k e j (event_effect k e j)"
    using event_effect_step Cons.prems gm_get_in[OF Cons.prems(1)] by fastforce
  moreover have "gm_get (fa_jobs (fold_event e a)) k = Some (event_effect k e j)"
    using Cons.prems(1) by (simp add: fold_event_get)
  ultimately show ?case
    using Cons.IH[OF _ jobs_move_phases[OF jobs_move_fold_event Cons.prems(2)]] by fastforce
qed simp

text \<open>
  C27: whatever events arrive, every job of the run follows its state machine event by event: the job as a page of
  events leaves it is reached by the machine's moves for the new events of the page, in the order of their sequence
  numbers - an event either makes the one move the table has for it, with the lease, the attempt and the result it
  carries, or leaves the job as it is. So a job that succeeded, was memoized or was cancelled never changes again,
  and one that failed or timed out only by being retried.
\<close>

theorem jobs_follow_their_state_machine:
  assumes "gm_ok (cp_jobs plan)" "gm_get (rf_jobs (Fold es plan)) k = Some j"
  shows "\<exists>j'. gm_get (rf_jobs (FoldFrom (Some (Fold es plan)) page plan)) k = Some j' \<and>
    machine_path k (sort_key ce_seq (filter (\<lambda>e. rf_last_seq (Fold es plan) < ce_seq e) page)) j j' \<and>
    phase_step\<^sup>*\<^sup>* (jf_phase j) (jf_phase j') \<and> (final_phase (jf_phase j) \<longrightarrow> j' = j)"
proof -
  let ?new = "sort_key ce_seq (filter (\<lambda>e. rf_last_seq (Fold es plan) < ce_seq e) page)"
  note phases = fold_all_phases[of es plan]
  have get: "gm_get (fa_jobs (fold_all es plan)) k = Some j" using assms(2) by (simp add: rf_jobs_Fold)
  have "job_phase (jf_phase j)" using phases gm_get_in[OF get] by force
  from jobs_move_get[OF FoldFrom_jobs_move[OF assms(1)] assms(2) this] obtain j' where
    j': "gm_get (rf_jobs (FoldFrom (Some (Fold es plan)) page plan)) k = Some j'"
      "phase_step\<^sup>*\<^sup>* (jf_phase j) (jf_phase j')" "final_phase (jf_phase j) \<longrightarrow> j' = j" by blast
  have "rf_jobs (FoldFrom (Some (Fold es plan)) page plan) = fa_jobs (fold fold_event ?new (fold_all es plan))"
    by (simp add: FoldFrom_def already_folded_def fold_skip resume_acc[OF assms(1)] filter_sort not_le finish_acc_def)
  then have "machine_path k ?new j j'" using fold_machine_path[OF get phases, of ?new] j'(1) by auto
  with j' show ?thesis by blast
qed

section \<open>Progress\<close>

definition no_canceled :: "fold_acc \<Rightarrow> bool" where
  "no_canceled a \<longleftrightarrow> fa_canceled a \<or> (\<forall>p \<in> set (fa_jobs a). jf_phase (snd p) \<noteq> ''canceled'')"

lemma set_gm_set: "set (gm_set k v m) \<subseteq> insert (k, v) (set m)"
  by (induction m) auto

lemma no_canceled_fold_event:
  assumes "no_canceled a" "\<forall>p \<in> set (fa_jobs a). job_phase (jf_phase (snd p))"
  shows "no_canceled (fold_event e a)"
proof -
  have "jf_phase (job_event e j) \<noteq> ''canceled''"
    if "gm_get (fa_jobs a) k = Some j" "jf_phase j \<noteq> ''canceled''" for k j
    using job_event_moves[of j e] assms(2) gm_get_in[OF that(1)] that(2) by (force simp: job_moves_def)
  moreover have "jf_phase j \<noteq> ''canceled''" if "gm_get (fa_jobs a) k = Some j" "\<not> fa_canceled a" for k j
    using assms(1) gm_get_in[OF that(1)] that(2) by (force simp: no_canceled_def)
  ultimately show ?thesis using assms(1)
    by (auto simp: no_canceled_def fold_event_def apply_event_def note_event_def Let_def
        split: option.splits dest!: set_gm_set[THEN subsetD])
qed

lemma no_canceled_fold_all: "no_canceled (fold_all es plan)"
proof -
  have "no_canceled a \<Longrightarrow> \<forall>p \<in> set (fa_jobs a). job_phase (jf_phase (snd p)) \<Longrightarrow>
      no_canceled (fold fold_event es' a)" for es' a
    by (induction es' arbitrary: a)
      (auto simp: no_canceled_fold_event jobs_move_phases[OF jobs_move_fold_event])
  then show ?thesis unfolding fold_all_def
    by (rule meta_mp[rotated]) (auto simp: no_canceled_def start_acc_def freshJob_def job_phase_def)
qed

lemma gm_ok_fold_all: "gm_ok (cp_jobs plan) \<Longrightarrow> gm_ok (fa_jobs (fold_all es plan))"
  by (simp add: gm_ok_def keys_fold_all)

lemma in_frontier:
  "gm_ok jobs \<Longrightarrow> k \<in> set (computeFrontier jobs plan) \<longleftrightarrow>
     (\<exists>j. gm_get jobs k = Some j \<and> jf_phase j = ''queued'' \<and> (\<forall>d \<in> set (plan_deps plan k). dep_done jobs d))"
  unfolding computeFrontier_def
  by (auto simp: list_all_iff image_iff dest: gm_get_in intro!: gm_in_get)

text \<open>
  C28: the frontier of a folded run holds, sorted and without repetition, exactly the queued jobs all of whose
  dependencies in the plan are jobs of the run that have succeeded or been memoized: a dependency that is no job of
  the run is never done.
\<close>

theorem frontier_is_the_runnable_jobs:
  assumes "gm_ok (cp_jobs plan)"
  shows "sorted (rf_frontier (Fold es plan)) \<and> distinct (rf_frontier (Fold es plan)) \<and>
    set (rf_frontier (Fold es plan)) = {k. \<exists>j. gm_get (rf_jobs (Fold es plan)) k = Some j \<and>
       jf_phase j = ''queued'' \<and> (\<forall>node d. gm_get (cp_jobs plan) k = Some node \<and> d \<in> set (pn_deps node) \<longrightarrow>
         (\<exists>dep. gm_get (rf_jobs (Fold es plan)) d = Some dep \<and> jf_phase dep \<in> {''succeeded'', ''memoized''}))}"
proof -
  have keys: "gm_get (cp_jobs plan) k \<noteq> None" if "gm_get (rf_jobs (Fold es plan)) k = Some j" for k j
    using gm_has_iff[of "cp_jobs plan" k] gm_has_iff[of "rf_jobs (Fold es plan)" k] that
    by (auto simp: gm_has_def rf_jobs_Fold keys_fold_all)
  have deps: "(\<forall>d \<in> set (plan_deps plan k). dep_done (rf_jobs (Fold es plan)) d) \<longleftrightarrow>
      (\<forall>node d. gm_get (cp_jobs plan) k = Some node \<and> d \<in> set (pn_deps node) \<longrightarrow>
         (\<exists>dep. gm_get (rf_jobs (Fold es plan)) d = Some dep \<and> jf_phase dep \<in> {''succeeded'', ''memoized''}))" for k
    by (cases "gm_get (cp_jobs plan) k")
      (auto simp: plan_deps_def gm_get_or_def dep_done_def jobSuccess_def split: option.splits)
  have ok: "gm_ok (rf_jobs (Fold es plan))" using assms by (simp add: rf_jobs_Fold gm_ok_fold_all)
  then have "distinct (computeFrontier (rf_jobs (Fold es plan)) plan)"
    by (simp add: computeFrontier_def gm_ok_def distinct_map_filter)
  moreover have "rf_frontier (Fold es plan) = computeFrontier (rf_jobs (Fold es plan)) plan"
    by (simp add: Fold_fold_all finish_acc_def)
  moreover have "set (computeFrontier (rf_jobs (Fold es plan)) plan) = {k. \<exists>j. gm_get (rf_jobs (Fold es plan)) k = Some j \<and>
       jf_phase j = ''queued'' \<and> (\<forall>d \<in> set (plan_deps plan k). dep_done (rf_jobs (Fold es plan)) d)}"
    using in_frontier[OF ok] by auto
  ultimately show ?thesis unfolding deps by (simp add: computeFrontier_def)
qed

definition plan_edges :: "coordination_plan \<Rightarrow> (string \<times> string) set" where
  "plan_edges plan = {(d, k). k \<in> set (gm_keys (cp_jobs plan)) \<and> d \<in> set (plan_deps plan k)}"

lemma finite_plan_edges: "finite (plan_edges plan)"
proof -
  have "plan_edges plan \<subseteq> (\<Union>k \<in> set (gm_keys (cp_jobs plan)). (\<lambda>d. (d, k)) ` set (plan_deps plan k))"
    by (auto simp: plan_edges_def)
  then show ?thesis by (rule finite_subset) simp
qed

text \<open>
  C7: a run cannot get stuck. When the plan's dependencies are jobs of the plan and have no cycle, a
  folded run that has not ended and in which no job is claimed has a job on its frontier.
\<close>

theorem run_is_never_stuck:
  assumes ok: "gm_ok (cp_jobs plan)" and acyc: "acyclic (plan_edges plan)"
    and closed: "\<forall>(d, k) \<in> plan_edges plan. d \<in> set (gm_keys (cp_jobs plan))"
    and jobs: "cp_jobs plan \<noteq> []"
    and live: "rf_phase (Fold es plan) = ''running'' \<or> rf_phase (Fold es plan) = ''pending''"
    and idle: "\<forall>p \<in> set (rf_jobs (Fold es plan)). jf_phase (snd p) \<noteq> ''claimed''"
  shows "rf_frontier (Fold es plan) \<noteq> []"
proof -
  let ?js = "rf_jobs (Fold es plan)"
  have keys: "gm_keys ?js = gm_keys (cp_jobs plan)" by (simp add: rf_jobs_Fold keys_fold_all)
  have jok: "gm_ok ?js" using ok by (simp add: gm_ok_def keys)
  have "\<not> fa_canceled (fold_all es plan)"
    using live phase_canceled_iff[of plan "fold_all es plan"] by (auto simp: Fold_fold_all)
  then have nc: "jf_phase (snd p) \<noteq> ''canceled''" if "p \<in> set ?js" for p
    using no_canceled_fold_all[of es plan] that by (auto simp: no_canceled_def rf_jobs_Fold)
  have phase: "rf_phase (Fold es plan) = deriveRunPhase ?js False (rf_plan_digest (Fold es plan) \<noteq> [])"
    using \<open>\<not> fa_canceled _\<close> by (simp add: Fold_fold_all finish_acc_def)
  have qs: "jf_phase (snd p) = ''queued'' \<or> jobSuccess (jf_phase (snd p))" if p: "p \<in> set ?js" for p
  proof -
    have "jf_phase (snd p) \<noteq> ''failed'' \<and> jf_phase (snd p) \<noteq> ''timed_out''"
      using live p by (auto simp: phase deriveRunPhase_def Let_def list_ex_iff split: if_splits)
    moreover have "job_phase (jf_phase (snd p))"
      using fold_all_phases p by (auto simp: rf_jobs_Fold)
    ultimately show ?thesis
      using nc[OF p] idle p by (auto simp: job_phase_def jobTerminal_def jobSuccess_def)
  qed
  have "?js \<noteq> []" using jobs keys by auto
  then have "\<not> list_all jobSuccess (map (\<lambda>p. jf_phase (snd p)) ?js)"
    using live by (auto simp: phase deriveRunPhase_def Let_def split: if_splits)
  then obtain p where "p \<in> set ?js" "\<not> jobSuccess (jf_phase (snd p))" by (auto simp: list_all_iff)
  define Q where "Q = {k. \<exists>j. gm_get ?js k = Some j \<and> jf_phase j = ''queued''}"
  have mem: "fst p \<in> Q"
    using \<open>p \<in> set ?js\<close> \<open>\<not> jobSuccess (jf_phase (snd p))\<close> qs[of p] gm_in_get[OF jok, of "fst p" "snd p"]
    by (simp add: Q_def)
  have "wf (plan_edges plan)"
    using acyc finite_plan_edges by (simp add: finite_acyclic_wf)
  from this mem obtain k where kQ: "k \<in> Q" and minQ: "\<And>d. (d, k) \<in> plan_edges plan \<Longrightarrow> d \<notin> Q"
    by (rule wfE_min) blast
  have k: "\<exists>j. gm_get ?js k = Some j \<and> jf_phase j = ''queued''" using kQ by (simp add: Q_def)
  have least: "\<not> (\<exists>j. gm_get ?js d = Some j \<and> jf_phase j = ''queued'')" if "(d, k) \<in> plan_edges plan" for d
    using minQ[OF that] by (simp add: Q_def)
  have "dep_done ?js d" if d: "d \<in> set (plan_deps plan k)" for d
  proof -
    have "k \<in> set (gm_keys (cp_jobs plan))" using k gm_get_in keys by (metis fst_conv image_eqI set_map)
    then have e: "(d, k) \<in> plan_edges plan" using d by (simp add: plan_edges_def)
    then have "d \<in> set (gm_keys ?js)" using closed keys by auto
    then obtain j where j: "gm_get ?js d = Some j" by (metis gm_has_def gm_has_iff not_None_eq)
    then show ?thesis using least[OF e] qs[OF gm_get_in[OF j]] by (auto simp: dep_done_def)
  qed
  then have "k \<in> set (computeFrontier ?js plan)" using k in_frontier[OF jok] by blast
  then show ?thesis by (auto simp: Fold_fold_all finish_acc_def)
qed

section \<open>The runner loop\<close>

datatype claim_outcome_kind = OutcomeClaimed | OutcomeCached | OutcomeRejected

record claim_outcome =
  co_kind :: claim_outcome_kind
  co_reason :: string
  co_lease_epoch :: int

datatype runner_action = ActionExecute | ActionAdoptCached | ActionWaitDeps | ActionSkip | ActionStop

definition ActionForClaim :: "claim_outcome \<Rightarrow> runner_action" where
  "ActionForClaim o' =
     (case co_kind o' of
        OutcomeClaimed \<Rightarrow> ActionExecute
      | OutcomeCached \<Rightarrow> ActionAdoptCached
      | OutcomeRejected \<Rightarrow> if co_reason o' = ''deps_not_ready'' then ActionWaitDeps else ActionSkip)"

definition ActionForHeartbeat :: "bool \<Rightarrow> runner_action" where
  "ActionForHeartbeat leaseLost = (if leaseLost then ActionStop else ActionExecute)"

definition ClaimableJobs :: "run_fold_state \<Rightarrow> string list" where
  "ClaimableJobs state = rf_frontier state"

text \<open>
  The coordination client and the executor are the record of the calls the loop makes, over the state
  \<open>'w\<close> of the rest of the system: each returns the new state and an error or a value.
\<close>

record complete_request =
  cr_runner_id :: string
  cr_lease_epoch :: int
  cr_outcome :: string
  cr_result_digest :: string
  cr_error_text :: string

record ('w, 'e) coord_client =
  cc_ctx_err :: "'w \<Rightarrow> 'e option"
  cc_read_log :: "'w \<Rightarrow> 'w \<times> ('e + coordination_event list)"
  cc_claim :: "string \<Rightarrow> 'w \<Rightarrow> 'w \<times> ('e + claim_outcome)"
  cc_execute :: "string \<Rightarrow> 'w \<Rightarrow> 'w \<times> (string + string)"
  cc_complete :: "string \<Rightarrow> complete_request \<Rightarrow> 'w \<Rightarrow> 'w \<times> 'e option"

datatype 'e loop_error = CallFailed 'e | NotConverged string | ExceededMaxTicks

definition runTerminal :: "string \<Rightarrow> bool" where
  "runTerminal phase \<longleftrightarrow> phase = ''succeeded'' \<or> phase = ''failed'' \<or> phase = ''canceled''"

definition executeAndComplete :: "('w, 'e) coord_client \<Rightarrow> string \<Rightarrow> string \<Rightarrow> int \<Rightarrow> 'w \<Rightarrow> 'w \<times> 'e option" where
  "executeAndComplete c runner jobID leaseEpoch w =
     (let (w, r) = cc_execute c jobID w;
          req = (case r of
            Inl execErr \<Rightarrow> \<lparr>cr_runner_id = runner, cr_lease_epoch = leaseEpoch, cr_outcome = ''failed'',
                cr_result_digest = [], cr_error_text = execErr\<rparr>
          | Inr digest \<Rightarrow> \<lparr>cr_runner_id = runner, cr_lease_epoch = leaseEpoch, cr_outcome = ''succeeded'',
                cr_result_digest = digest, cr_error_text = []\<rparr>)
      in cc_complete c jobID req w)"

fun claim_jobs :: "('w, 'e) coord_client \<Rightarrow> string \<Rightarrow> string list \<Rightarrow> bool \<Rightarrow> 'w \<Rightarrow> 'w \<times> ('e + bool)" where
  \<comment> \<open>the inner loop over the claimable jobs; the boolean is \<open>progressed\<close>\<close>
  "claim_jobs c runner [] progressed w = (w, Inr progressed)"
| "claim_jobs c runner (jobID # ids) progressed w =
     (case cc_claim c jobID w of
        (w, Inl err) \<Rightarrow> (w, Inl err)
      | (w, Inr outcome) \<Rightarrow>
          (case ActionForClaim outcome of
             ActionExecute \<Rightarrow>
               (case executeAndComplete c runner jobID (co_lease_epoch outcome) w of
                  (w, Some err) \<Rightarrow> (w, Inl err)
                | (w, None) \<Rightarrow> claim_jobs c runner ids True w)
           | ActionAdoptCached \<Rightarrow> claim_jobs c runner ids True w
           | _ \<Rightarrow> claim_jobs c runner ids progressed w))"

partial_function (option) run_loop :: "('w, 'e) coord_client \<Rightarrow> string \<Rightarrow> coordination_plan \<Rightarrow> nat \<Rightarrow> nat \<Rightarrow> 'w \<Rightarrow>
    ('w \<times> 'e loop_error option) option" where
  \<comment> \<open>\<open>for tick := 0; MaxTicks == 0 || tick < MaxTicks; tick++\<close>; the outer \<open>None\<close> is a loop without end\<close>
  "run_loop c runner plan maxTicks tick w =
     (if \<not> (maxTicks = 0 \<or> tick < maxTicks) then Some (w, Some ExceededMaxTicks)
      else case cc_ctx_err c w of
        Some err \<Rightarrow> Some (w, Some (CallFailed err))
      | None \<Rightarrow>
          (case cc_read_log c w of
             (w, Inl err) \<Rightarrow> Some (w, Some (CallFailed err))
           | (w, Inr events) \<Rightarrow>
               let state = Fold events plan
               in if runTerminal (rf_phase state) then Some (w, None)
                  else (case claim_jobs c runner (ClaimableJobs state) False w of
                          (w, Inl err) \<Rightarrow> Some (w, Some (CallFailed err))
                        | (w, Inr progressed) \<Rightarrow>
                            if \<not> progressed \<and> maxTicks \<noteq> 0 \<and> tick + 1 \<ge> maxTicks
                            then Some (w, Some (NotConverged (rf_phase state)))
                            else run_loop c runner plan maxTicks (tick + 1) w)))"

definition RunLoop :: "('w, 'e) coord_client \<Rightarrow> string \<Rightarrow> coordination_plan \<Rightarrow> nat \<Rightarrow> 'w \<Rightarrow>
    ('w \<times> 'e loop_error option) option" where
  "RunLoop c runner plan maxTicks w = run_loop c runner plan maxTicks 0 w"

lemma run_loop_returns:
  assumes "0 < maxTicks"
  shows "run_loop c runner plan maxTicks tick w \<noteq> None"
proof (induction "maxTicks - tick" arbitrary: tick w)
  case 0
  then show ?case using assms by (subst run_loop.simps) simp
next
  case (Suc n)
  have "run_loop c runner plan maxTicks (tick + 1) w' \<noteq> None" for w'
    using Suc.hyps(1)[of "tick + 1" w'] Suc.hyps(2) by simp
  then show ?case
    by (subst run_loop.simps) (auto simp: Let_def split: option.splits prod.splits sum.splits)
qed

text \<open>The log was read, with these events, at some point of a loop that ended without an error.\<close>

definition saw_terminal :: "('w, 'e) coord_client \<Rightarrow> coordination_plan \<Rightarrow> 'w \<times> 'e loop_error option \<Rightarrow> bool" where
  "saw_terminal c plan r \<longleftrightarrow> (snd r = None \<longrightarrow>
     (\<exists>w0 events. cc_read_log c w0 = (fst r, Inr events) \<and> runTerminal (rf_phase (Fold events plan))))"

lemma run_loop_ends_terminal:
  assumes "run_loop c runner plan maxTicks tick w = Some r"
  shows "saw_terminal c plan r"
  by (rule run_loop.raw_induct[of "\<lambda>c _ plan _ _ _ r. saw_terminal c plan r", OF _ assms])
    (force simp: saw_terminal_def Let_def split: option.splits prod.splits sum.splits if_splits)

text \<open>
  C29: with a bound on its ticks the runner loop always returns, and when it returns without an error the
  last log it read folds to a run that has ended.
\<close>

theorem bounded_run_loop_returns:
  assumes "0 < maxTicks"
  shows "\<exists>w' res. RunLoop c runner plan maxTicks w = Some (w', res) \<and>
    (res = None \<longrightarrow> (\<exists>w0 events. cc_read_log c w0 = (w', Inr events) \<and>
       runTerminal (rf_phase (Fold events plan))))"
proof -
  obtain r where r: "RunLoop c runner plan maxTicks w = Some r"
    using run_loop_returns[OF assms, of c runner plan 0 w] by (auto simp: RunLoop_def)
  then have "saw_terminal c plan r" unfolding RunLoop_def by (rule run_loop_ends_terminal)
  then show ?thesis using r by (cases r) (simp add: saw_terminal_def)
qed

section \<open>A run of two jobs\<close>

definition ex_plan :: coordination_plan where
  "ex_plan = \<lparr>cp_jobs = [(''a'', \<lparr>pn_deps = []\<rparr>), (''b'', \<lparr>pn_deps = [''a'']\<rparr>)]\<rparr>"

definition ex_event :: "int \<Rightarrow> string \<Rightarrow> string \<Rightarrow> coordination_event" where
  "ex_event n k job = \<lparr>ce_seq = n, ce_kind = k, ce_run_id = ''r'', ce_job_id = job,
     ce_actor = \<lparr>ca_id = ''u1'', ca_type = ''user''\<rparr>, ce_at = ''t'', ce_idempotency_key = [], ce_v = 1,
     ce_plan_digest = ''plan'', ce_source_hash = ''src'', ce_runner_id = ''r1'', ce_lease_epoch = 1,
     ce_lease_expires_at = ''t1'', ce_attempt = 1, ce_result_digest = ''res'', ce_reason = [], ce_error_text = []\<rparr>"

definition ex_events :: "coordination_event list" where
  "ex_events = [ex_event 2 EventJobClaimed ''a'', ex_event 1 EventRunCreated [], ex_event 3 EventJobSucceeded ''a'']"

lemma ex_fold_jobs: "rf_jobs (Fold ex_events ex_plan) =
    [(''a'', (freshJob ''a'')\<lparr>jf_phase := ''succeeded'', jf_result_digest := ''res''\<rparr>), (''b'', freshJob ''b'')]"
  by (simp add: Fold_def FoldFrom_def ex_events_def ex_plan_def ex_event_def start_acc_def already_folded_def
      finish_acc_def fold_event_def note_event_def apply_event_def event_kinds job_event_def job_switch_def
      no_lease_def freshJob_def jobTerminal_def)

lemma ex_plan_ok: "gm_ok (cp_jobs ex_plan)" "cp_jobs ex_plan \<noteq> []" "plan_edges ex_plan = {(''a'', ''b'')}"
  by (auto simp: gm_ok_def ex_plan_def plan_edges_def plan_deps_def gm_get_or_def split: if_splits)

lemma ex_fold_phase: "rf_phase (Fold ex_events ex_plan) = ''running''"
  using ex_fold_jobs
  by (simp add: Fold_fold_all finish_acc_def deriveRunPhase_def jobSuccess_def freshJob_def)
    (simp add: fold_all_def start_acc_def ex_events_def ex_plan_def ex_event_def fold_event_def note_event_def
      apply_event_def event_kinds)

lemma run_is_never_stuck_witness: "rf_frontier (Fold ex_events ex_plan) \<noteq> []"
proof (rule run_is_never_stuck)
  show "acyclic (plan_edges ex_plan)"
    unfolding ex_plan_ok(3) by (rule acyclicI_order[of _ "\<lambda>k. if k = ''a'' then 1 else 0 :: nat"]) auto
  show "\<forall>(d, k) \<in> plan_edges ex_plan. d \<in> set (gm_keys (cp_jobs ex_plan))"
    unfolding ex_plan_ok(3) by (simp add: ex_plan_def)
  show "\<forall>p \<in> set (rf_jobs (Fold ex_events ex_plan)). jf_phase (snd p) \<noteq> ''claimed''"
    by (simp add: ex_fold_jobs freshJob_def)
qed (simp_all add: ex_plan_ok ex_fold_phase)

lemma frontier_is_the_runnable_jobs_witness:
  "''b'' \<in> set (rf_frontier (Fold ex_events ex_plan)) \<and> ''a'' \<notin> set (rf_frontier (Fold ex_events ex_plan))"
proof -
  let ?js = "rf_jobs (Fold ex_events ex_plan)"
  have js: "gm_get ?js ''a'' = Some ((freshJob ''a'')\<lparr>jf_phase := ''succeeded'', jf_result_digest := ''res''\<rparr>)"
    "gm_get ?js ''b'' = Some (freshJob ''b'')"
    by (simp_all add: ex_fold_jobs)
  have plan: "gm_get (cp_jobs ex_plan) ''b'' = Some \<lparr>pn_deps = [''a'']\<rparr>" by (simp add: ex_plan_def)
  note f = frontier_is_the_runnable_jobs[OF ex_plan_ok(1), of ex_events, THEN conjunct2, THEN conjunct2]
  show ?thesis unfolding f mem_Collect_eq js plan by (simp add: freshJob_def js)
qed

lemma incremental_fold_is_whole_fold_witness:
  "FoldFrom (Some (Fold ex_events ex_plan)) (ex_events @ [ex_event 4 EventJobClaimed ''b'']) ex_plan =
   Fold (ex_events @ [ex_event 4 EventJobClaimed ''b'']) ex_plan"
proof -
  have "rf_last_seq (Fold ex_events ex_plan) = 3"
    by (simp add: Fold_fold_all finish_acc_def fold_all_def start_acc_def ex_events_def ex_plan_def ex_event_def
        fold_event_def note_event_def apply_event_def event_kinds)
  then show ?thesis
    using incremental_fold_is_whole_fold[OF ex_plan_ok(1), of ex_events
        "ex_events @ [ex_event 4 EventJobClaimed ''b'']"]
    by (simp add: ex_events_def ex_event_def)
qed

lemma jobs_follow_their_state_machine_witness:
  "\<exists>j'. gm_get (rf_jobs (FoldFrom (Some (Fold ex_events ex_plan)) [ex_event 9 EventJobClaimed ''b''] ex_plan)) ''b'' =
     Some j' \<and> jf_phase j' = ''claimed''"
proof -
  have "rf_last_seq (Fold ex_events ex_plan) = 3"
    by (simp add: Fold_fold_all finish_acc_def fold_all_def start_acc_def ex_events_def ex_plan_def ex_event_def
        fold_event_def note_event_def apply_event_def event_kinds)
  then show ?thesis
    using jobs_follow_their_state_machine[OF ex_plan_ok(1), of ex_events "''b''" "freshJob ''b''"
        "[ex_event 9 EventJobClaimed ''b'']"]
    by (auto simp: ex_fold_jobs ex_event_def machine_step_def machine_move_iff event_kinds freshJob_def)
qed

text \<open>A server that is the log itself: a claim is granted and recorded, a completion is recorded.\<close>

definition ex_client :: "(coordination_event list, unit) coord_client" where
  "ex_client = \<lparr>cc_ctx_err = \<lambda>_. None, cc_read_log = \<lambda>w. (w, Inr w),
     cc_claim = \<lambda>job w. (w @ [ex_event (int (length w) + 1) EventJobClaimed job],
       Inr \<lparr>co_kind = OutcomeClaimed, co_reason = [], co_lease_epoch = 1\<rparr>),
     cc_execute = \<lambda>job w. (w, Inr ''res''),
     cc_complete = \<lambda>job req w. (w @ [ex_event (int (length w) + 1) EventJobSucceeded job], None)\<rparr>"

lemma bounded_run_loop_returns_witness:
  "\<exists>w' res. RunLoop ex_client ''r1'' ex_plan 3 [] = Some (w', res) \<and>
    (res = None \<longrightarrow> runTerminal (rf_phase (Fold w' ex_plan)))"
  using bounded_run_loop_returns[of 3 ex_client "''r1''" ex_plan "[]"] by (auto simp: ex_client_def)

end
