(* ===== verification/Plan_Model.thy ===== *)
theory Plan_Model
  imports Registry
begin

text \<open>
  The plan structs of \<open>internal/model/plan.go\<close>: one record field per Go field, in the order of the
  source. A pointer is an option; a nil slice is the empty list.
\<close>

record plan_lane =
  ln_id :: string
  ln_name :: string
  ln_index :: nat
  ln_environment :: string
  ln_jobs :: "string list"
  ln_concurrency :: int
  ln_runs_on :: string
  ln_source :: string
  ln_group :: string
  ln_split_from :: string
  ln_reason :: string
  ln_level :: nat
  ln_upstream_lanes :: "string list"
  ln_upstream_jobs :: "string list"
  ln_estimated_seconds :: int
  ln_vcpu :: int

record plan_lanes_meta =
  lm_mode :: string
  lm_max_lanes :: int
  lm_max_lanes_from :: string
  lm_weights_from :: string
  lm_upstream_wait :: string

record plan_trigger =
  pt_type :: string
  pt_name :: string
  pt_mode :: string
  pt_provider :: string
  pt_event :: string
  pt_action :: string
  pt_matched_bindings :: "string list"
  pt_active_environments :: "string list"
  pt_scope :: string
  pt_base :: string
  pt_head :: string

record plan_revision_meta =
  pr_key :: string
  pr_plan_hash :: string

record plan_source_meta =
  ps_snapshot_key :: string
  ps_ref :: string
  ps_head_revision :: string
  ps_tree_hash :: string
  ps_working_tree :: string
  ps_dirty_hash :: string

record plan_catalog_meta =
  pc_snapshot_key :: string
  pc_catalog_hash :: string
  pc_source_snapshot_key :: string
  pc_skipped :: bool

record plan_scope =
  sc_detected_component :: string
  sc_components :: "string list"

record pruned_edge =
  ped_kind :: string
  ped_from :: string
  ped_to :: string
  ped_reason :: string

record plan_selection =
  sel_envs :: "string list"
  sel_components :: "string list"
  sel_mode :: string
  sel_all_envs :: bool
  sel_pruned_edges :: "pruned_edge list"

record plan_metadata =
  pm_name :: string
  pm_description :: string
  pm_namespace :: string
  pm_generated_at :: string
  pm_checksum :: string
  pm_scope :: "plan_scope option"
  pm_trigger :: "plan_trigger option"
  pm_revision :: "plan_revision_meta option"
  pm_source :: "plan_source_meta option"
  pm_catalog :: "plan_catalog_meta option"
  pm_selection :: "plan_selection option"
  pm_work_dir :: string
  pm_lanes :: "plan_lanes_meta option"

record plan_execution =
  px_concurrency :: int
  px_fail_fast :: bool
  px_state_file :: string
  px_timeout :: string

record plan_spec =
  psp_job_bindings :: "string gmap"
  psp_composition_sources :: "resolved_composition_source list"

record plan_materialize =
  pz_target :: string
  pz_secrets :: "string list"

record plan_secret_ref =
  sr_as_env :: string
  sr_ref :: string
  sr_optional :: bool

record plan_promotion_gate =
  ppg_type :: string
  ppg_environment :: string
  ppg_component :: string
  ppg_condition :: string
  ppg_match :: "string gmap"

record plan_step =
  pst_id :: string
  pst_name :: string
  pst_phase :: string
  pst_order :: int
  pst_scope :: string
  pst_run :: string
  pst_use :: string
  pst_workflow :: string
  pst_workflow_digest :: string
  pst_connections :: "string gmap gmap"
  pst_with :: "yval gmap"
  pst_env :: "yval gmap"
  pst_shell :: string
  pst_working_directory :: string
  pst_timeout :: string
  pst_retry :: int
  pst_caches :: "cache_decl list"
  pst_resume :: bool
  pst_approval :: "step_approval option"
  pst_on_failure :: string

record plan_job =
  pb_id :: string
  pb_uid :: string
  pb_display_name :: string
  pb_check_name :: string
  pb_name :: string
  pb_component :: string
  pb_environment :: string
  pb_composition :: string
  pb_profile :: string
  pb_profile_source :: string
  pb_profile_rule_trigger_ref :: string
  pb_job_registry :: string
  pb_job :: string
  pb_runs_on :: string
  pb_resources :: "job_resources option"
  pb_estimated_seconds :: int
  pb_index :: nat
  pb_lane :: string
  pb_path :: string
  pb_steps :: "plan_step list"
  pb_depends_on :: "string list"
  pb_advisory_depends_on :: "string list"
  pb_dependency_mode :: string
  pb_dependency_source :: string
  pb_dependency_rule_trigger_ref :: string
  pb_gates :: "plan_promotion_gate list"
  pb_timeout :: string
  pb_retries :: int
  pb_env :: "string gmap"
  pb_secret_refs :: "plan_secret_ref list"
  pb_materialize :: "plan_materialize option"
  pb_labels :: "string gmap"
  pb_parameters :: "yval gmap"

record plan =
  pl_api_version :: string
  pl_kind :: string
  pl_metadata :: plan_metadata
  pl_execution :: plan_execution
  pl_spec :: plan_spec
  pl_jobs :: "plan_job list"
  pl_lanes :: "plan_lane list"

definition zero_plan_job :: plan_job where
  "zero_plan_job = \<lparr>pb_id = [], pb_uid = [], pb_display_name = [], pb_check_name = [], pb_name = [],
     pb_component = [], pb_environment = [], pb_composition = [], pb_profile = [], pb_profile_source = [],
     pb_profile_rule_trigger_ref = [], pb_job_registry = [], pb_job = [], pb_runs_on = [],
     pb_resources = None, pb_estimated_seconds = 0, pb_index = 0, pb_lane = [], pb_path = [],
     pb_steps = [], pb_depends_on = [], pb_advisory_depends_on = [], pb_dependency_mode = [],
     pb_dependency_source = [], pb_dependency_rule_trigger_ref = [], pb_gates = [], pb_timeout = [],
     pb_retries = 0, pb_env = [], pb_secret_refs = [], pb_materialize = None, pb_labels = [],
     pb_parameters = []\<rparr>"

definition zero_plan :: plan where
  "zero_plan = \<lparr>pl_api_version = [], pl_kind = [],
     pl_metadata = \<lparr>pm_name = [], pm_description = [], pm_namespace = [], pm_generated_at = [],
       pm_checksum = [], pm_scope = None, pm_trigger = None, pm_revision = None, pm_source = None,
       pm_catalog = None, pm_selection = None, pm_work_dir = [], pm_lanes = None\<rparr>,
     pl_execution = \<lparr>px_concurrency = 0, px_fail_fast = False, px_state_file = [], px_timeout = []\<rparr>,
     pl_spec = \<lparr>psp_job_bindings = [], psp_composition_sources = []\<rparr>, pl_jobs = [], pl_lanes = []\<rparr>"

end
