(* ===== verification/Levels.thy ===== *)
theory Levels
  imports Prelude
begin

text \<open>
  The memoised level computation of \<open>internal/lanes\<close>: a node's level is 0 when it waits on nothing, else
  one more than the deepest node it waits on. The closure takes fuel; one more than the number of nodes
  is always enough, and on a graph with a rank (an acyclic one) the result satisfies the equation.
\<close>

section \<open>Levels\<close>

text \<open>
  The memoised closure \<open>visit\<close> that both \<open>newJobGraph\<close> and \<open>stampUpstreams\<close> define: over the slices
  \<open>done\<close> and \<open>level\<close>, with \<open>ups i\<close> the nodes \<open>i\<close> waits on.
\<close>

fun visit :: "nat \<Rightarrow> (nat \<Rightarrow> nat list) \<Rightarrow> nat \<Rightarrow> bool list \<times> nat list \<Rightarrow> (nat \<times> bool list \<times> nat list) option"
  and visit_ups :: "nat \<Rightarrow> (nat \<Rightarrow> nat list) \<Rightarrow> nat list \<Rightarrow> nat \<Rightarrow> bool list \<times> nat list \<Rightarrow>
      (nat \<times> bool list \<times> nat list) option"
where
  "visit 0 ups i st = None"
| "visit (Suc n) ups i (visited, level) =
     (if visited ! i then Some (level ! i, visited, level)
      else case visit_ups n ups (ups i) 0 (visited[i := True], level) of
             None \<Rightarrow> None
           | Some (l, visited, level) \<Rightarrow> Some (l, visited, level[i := l]))"
| "visit_ups n ups [] l st = Some (l, st)"
| "visit_ups n ups (d # ds) l st =
     (case visit n ups d st of
        None \<Rightarrow> None
      | Some (v, st) \<Rightarrow> visit_ups n ups ds (if v + 1 > l then v + 1 else l) st)"

fun visit_all :: "nat \<Rightarrow> (nat \<Rightarrow> nat list) \<Rightarrow> nat list \<Rightarrow> bool list \<times> nat list \<Rightarrow> (bool list \<times> nat list) option" where
  "visit_all n ups [] st = Some st"
| "visit_all n ups (i # is) st =
     (case visit n ups i st of None \<Rightarrow> None | Some (_, st) \<Rightarrow> visit_all n ups is st)"

definition levels :: "nat \<Rightarrow> (nat \<Rightarrow> nat list) \<Rightarrow> nat list option" where
  "levels m ups = map_option snd (visit_all (Suc m) ups [0..<m] (replicate m False, replicate m 0))"

section \<open>The search returns\<close>

definition undone :: "bool list \<Rightarrow> nat" where
  "undone xs = length (filter Not xs)"

lemma undone_set: "i < length xs \<Longrightarrow> \<not> xs ! i \<Longrightarrow> undone xs = Suc (undone (xs[i := True]))"
proof (induction xs arbitrary: i)
  case (Cons x xs)
  then show ?case by (cases i) (auto simp: undone_def)
qed (simp add: undone_def)

definition visits_more :: "bool list \<Rightarrow> bool list \<Rightarrow> bool" where
  \<comment> \<open>as many nodes, no fewer done\<close>
  "visits_more xs ys \<longleftrightarrow> length ys = length xs \<and> undone ys \<le> undone xs \<and> (\<forall>i < length xs. xs ! i \<longrightarrow> ys ! i)"

lemma visits_more_refl [simp]: "visits_more xs xs" by (simp add: visits_more_def)

lemma visits_more_trans: "visits_more xs ys \<Longrightarrow> visits_more ys zs \<Longrightarrow> visits_more xs zs"
  by (auto simp: visits_more_def)

lemma visits_more_set: "i < length xs \<Longrightarrow> visits_more xs (xs[i := True])"
  using undone_set[of i xs] list_update_id[of xs i]
  by (cases "xs ! i") (auto simp: visits_more_def nth_list_update)

definition inside :: "nat \<Rightarrow> (nat \<Rightarrow> nat list) \<Rightarrow> bool" where
  "inside m ups \<longleftrightarrow> (\<forall>i < m. set (ups i) \<subseteq> {..<m})"

definition ranked :: "nat \<Rightarrow> (nat \<Rightarrow> nat list) \<Rightarrow> (nat \<Rightarrow> nat) \<Rightarrow> bool" where
  "ranked m ups r \<longleftrightarrow> inside m ups \<and> (\<forall>i < m. \<forall>d \<in> set (ups i). r d < r i)"

lemma visit_returns:
  shows "\<lbrakk>inside m ups; undone (fst st) < n; i < m; length (fst st) = m\<rbrakk> \<Longrightarrow>
      \<exists>v st'. visit n ups i st = Some (v, st') \<and> visits_more (fst st) (fst st') \<and> length (snd st') = length (snd st)"
    and "\<lbrakk>inside m ups; undone (fst st) < n; set ds \<subseteq> {..<m}; length (fst st) = m\<rbrakk> \<Longrightarrow>
      \<exists>v st'. visit_ups n ups ds l st = Some (v, st') \<and> visits_more (fst st) (fst st') \<and> length (snd st') = length (snd st)"
proof (induction n ups i st and n ups ds l st rule: visit_visit_ups.induct)
  case (2 n ups i visited level)
  show ?case
  proof (cases "visited ! i")
    case True
    then show ?thesis by simp
  next
    case False
    have u: "undone visited = Suc (undone (visited[i := True]))"
      using undone_set[of i visited] 2(3,4) False "2.prems" by simp
    then have pre: "undone (fst (visited[i := True], level)) < n" "length (fst (visited[i := True], level)) = m"
      using "2.prems" by auto
    obtain v v1 l1 where "visit_ups n ups (ups i) 0 (visited[i := True], level) = Some (v, v1, l1)"
        "visits_more (visited[i := True]) v1" "length l1 = length level"
      using "2.IH"[OF False "2.prems"(1) pre(1) _ pre(2)] "2.prems" by (auto simp: inside_def)
    then show ?thesis using False visits_more_trans[OF visits_more_set] "2.prems" by fastforce
  qed
next
  case (4 n ups d ds l st)
  then obtain v st1 where v: "visit n ups d st = Some (v, st1)" and c: "visits_more (fst st) (fst st1)"
    and len: "length (snd st1) = length (snd st)" by auto
  then have "undone (fst st1) < n" "length (fst st1) = m" using "4.prems" by (auto simp: visits_more_def)
  then obtain v2 st2 where "visit_ups n ups ds (if v + 1 > l then v + 1 else l) st1 = Some (v2, st2)"
      "visits_more (fst st1) (fst st2)" "length (snd st2) = length (snd st1)"
    using "4.IH"(2)[OF v refl] "4.prems" by auto
  then show ?case using v c len by (auto intro: visits_more_trans)
qed auto

definition step_level :: "nat list \<Rightarrow> nat \<Rightarrow> nat \<Rightarrow> nat" where
  "step_level level d l = (if level ! d + 1 > l then level ! d + 1 else l)"

definition ups_level :: "nat list \<Rightarrow> nat list \<Rightarrow> nat" where
  "ups_level level ds = fold (step_level level) ds 0"

definition finished :: "(nat \<Rightarrow> nat list) \<Rightarrow> bool list \<times> nat list \<Rightarrow> nat \<Rightarrow> bool" where
  "finished ups st j \<longleftrightarrow> (\<forall>d \<in> set (ups j). fst st ! d) \<and> snd st ! j = ups_level (snd st) (ups j)"

definition keeps :: "nat \<Rightarrow> bool list \<times> nat list \<Rightarrow> bool list \<times> nat list \<Rightarrow> bool" where
  "keeps m st st' \<longleftrightarrow> (\<forall>j < m. fst st ! j \<longrightarrow> fst st' ! j \<and> snd st' ! j = snd st ! j)"

lemma keeps_refl [simp]: "keeps m st st" by (simp add: keeps_def)

lemma keeps_trans: "keeps m a b \<Longrightarrow> keeps m b c \<Longrightarrow> keeps m a c" by (auto simp: keeps_def)

lemma ups_level_cong:
  "(\<And>d. d \<in> set ds \<Longrightarrow> xs ! d = ys ! d) \<Longrightarrow> ups_level xs ds = ups_level ys ds"
  unfolding ups_level_def by (rule fold_cong) (auto simp: step_level_def)

lemma finished_keeps:
  assumes "keeps m st st'" "finished ups st j" "fst st ! j" "j < m" "set (ups j) \<subseteq> {..<m}"
  shows "finished ups st' j"
  using assms ups_level_cong[of "ups j" "snd st'" "snd st"]
  by (force simp: finished_def keeps_def)

definition sized :: "nat \<Rightarrow> bool list \<times> nat list \<Rightarrow> bool" where
  "sized m st \<longleftrightarrow> length (fst st) = m \<and> length (snd st) = m"

definition below :: "(nat \<Rightarrow> nat list) \<Rightarrow> nat \<Rightarrow> (nat \<Rightarrow> nat) \<Rightarrow> nat \<Rightarrow> bool list \<times> nat list \<Rightarrow> bool" where
  \<comment> \<open>every done node of rank under \<open>k\<close> is finished\<close>
  "below ups m r k st \<longleftrightarrow> sized m st \<and> (\<forall>j < m. r j < k \<and> fst st ! j \<longrightarrow> finished ups st j)"

definition newly :: "nat \<Rightarrow> (nat \<Rightarrow> nat) \<Rightarrow> nat \<Rightarrow> bool list \<times> nat list \<Rightarrow> bool list \<times> nat list \<Rightarrow> bool" where
  "newly m r k st st' \<longleftrightarrow> (\<forall>j < m. fst st' ! j \<longrightarrow> fst st ! j \<or> r j < k)"

lemma visit_levels:
  shows "\<lbrakk>ranked m ups r; visit n ups i st = Some (v, st'); i < m; below ups m r (Suc (r i)) st\<rbrakk> \<Longrightarrow>
      below ups m r (Suc (r i)) st' \<and> keeps m st st' \<and> newly m r (Suc (r i)) st st' \<and> fst st' ! i \<and> v = snd st' ! i"
    and "\<lbrakk>ranked m ups r; visit_ups n ups ds l st = Some (v, st'); set ds \<subseteq> {..<m}; \<forall>d \<in> set ds. r d < k; below ups m r k st\<rbrakk> \<Longrightarrow>
      below ups m r k st' \<and> keeps m st st' \<and> newly m r k st st' \<and> (\<forall>d \<in> set ds. fst st' ! d) \<and>
      v = fold (step_level (snd st')) ds l"
proof (induction n ups i st and n ups ds l st arbitrary: v st' and v st' k rule: visit_visit_ups.induct)
  case (2 n ups i visited level)
  note rk = "2.prems"(1)
  have ups: "\<And>i. i < m \<Longrightarrow> set (ups i) \<subseteq> {..<m}" and r: "\<And>i d. i < m \<Longrightarrow> d \<in> set (ups i) \<Longrightarrow> r d < r i"
    using rk by (auto simp: ranked_def inside_def)
  note prems = "2.prems"(2-)
  show ?case
  proof (cases "visited ! i")
    case True
    then show ?thesis using 2 by (auto simp: newly_def)
  next
    case False
    from False prems obtain w v1 l1 where w: "visit_ups n ups (ups i) 0 (visited[i := True], level) = Some (w, v1, l1)"
      and st': "v = w" "st' = (v1, l1[i := w])" by (auto split: option.splits)
    have sz: "length visited = m" "length level = m" using prems by (auto simp: below_def sized_def)
    have pre: "below ups m r (r i) (visited[i := True], level)"
    proof -
      have "finished ups (visited[i := True], level) j" if "j < m" "r j < r i" "visited[i := True] ! j" for j
      proof -
        have "visited ! j" using that sz prems(2) by (auto simp: nth_list_update split: if_splits)
        then have "finished ups (visited, level) j" using that prems(3) by (auto simp: below_def)
        then show ?thesis using sz prems(2) by (auto simp: finished_def nth_list_update)
      qed
      then show ?thesis using sz by (auto simp: below_def sized_def)
    qed
    have ih: "below ups m r (r i) (v1, l1)" "keeps m (visited[i := True], level) (v1, l1)"
      "newly m r (r i) (visited[i := True], level) (v1, l1)" "\<forall>d \<in> set (ups i). v1 ! d"
      "w = ups_level l1 (ups i)"
      using "2.IH"[OF False rk w ups[OF prems(2)] _ pre] r[OF prems(2)] by (auto simp: ups_level_def)
    have sz1: "length v1 = m" "length l1 = m" using ih(1) by (auto simp: below_def sized_def)
    have i: "v1 ! i" using ih(2) sz prems(2) by (auto simp: keeps_def)
    have notup: "i \<notin> set (ups i)" using r[OF prems(2)] by auto
    have fin_i: "finished ups st' i"
    proof -
      have "ups_level (l1[i := w]) (ups i) = ups_level l1 (ups i)"
        using notup by (intro ups_level_cong) (metis nth_list_update_neq)
      then show ?thesis using ih(4,5) sz1 prems(2) by (auto simp: finished_def st')
    qed
    have "finished ups st' j" if j: "j < m" "r j < Suc (r i)" "fst st' ! j" for j
    proof (cases "j = i")
      case True
      then show ?thesis using fin_i by simp
    next
      case ji: False
      have "finished ups (v1, l1) j"
      proof (cases "r j < r i")
        case True
        then show ?thesis using ih(1) j st' by (auto simp: below_def)
      next
        case False
        then have "visited ! j" using ih(3) j st' ji sz by (auto simp: newly_def nth_list_update)
        then have "finished ups (visited, level) j" using j prems(3) by (auto simp: below_def)
        then have "finished ups (visited[i := True], level) j"
          using sz prems(2) by (auto simp: finished_def nth_list_update)
        moreover have "fst (visited[i := True], level) ! j" using \<open>visited ! j\<close> j(1) sz by (cases "i = j") auto
        ultimately show ?thesis using finished_keeps[OF ih(2)] ups[OF j(1)] j(1) by blast
      qed
      moreover have "i \<notin> set (ups j)" using r[OF j(1)] j(2) by force
      then have "ups_level (l1[i := w]) (ups j) = ups_level l1 (ups j)"
        by (intro ups_level_cong) (metis nth_list_update_neq)
      ultimately show ?thesis using ji by (auto simp: finished_def st')
    qed
    moreover have "keeps m (visited, level) st'"
      using ih(2) False sz sz1 prems(2) by (auto simp: keeps_def st' nth_list_update)
    moreover have "newly m r (Suc (r i)) (visited, level) st'"
      using ih(3) sz prems(2) by (auto simp: newly_def st' nth_list_update less_Suc_eq split: if_splits)
    ultimately show ?thesis using sz1 i prems(2) by (auto simp: below_def sized_def st')
  qed
next
  case (4 n ups d ds l st)
  note rk = "4.prems"(1)
  have ups: "\<And>i. i < m \<Longrightarrow> set (ups i) \<subseteq> {..<m}" using rk by (auto simp: ranked_def inside_def)
  note prems = "4.prems"(2-)
  from prems(1) obtain w st1 where w: "visit n ups d st = Some (w, st1)"
    and rest: "visit_ups n ups ds (if w + 1 > l then w + 1 else l) st1 = Some (v, st')"
    by (auto split: option.splits)
  have pre: "below ups m r (Suc (r d)) st" using prems by (auto simp: below_def)
  then have 1: "below ups m r (Suc (r d)) st1" "keeps m st st1" "newly m r (Suc (r d)) st st1" "fst st1 ! d" "w = snd st1 ! d"
    using "4.IH"(1)[OF rk w] prems by auto
  have "finished ups st1 j" if j: "j < m" "r j < k" "fst st1 ! j" for j
  proof (cases "r j < Suc (r d)")
    case True
    then show ?thesis using 1 j by (auto simp: below_def)
  next
    case False
    then have "fst st ! j" using 1(3) j by (auto simp: newly_def)
    then show ?thesis using finished_keeps[OF 1(2)] prems(4) ups[OF j(1)] j by (auto simp: below_def)
  qed
  then have k: "below ups m r k st1" using 1(1) by (auto simp: below_def)
  have 2: "below ups m r k st'" "keeps m st1 st'" "newly m r k st1 st'" "\<forall>d \<in> set ds. fst st' ! d"
    "v = fold (step_level (snd st')) ds (if w + 1 > l then w + 1 else l)"
    using "4.IH"(2)[OF w refl rk rest] k prems by auto
  have d: "fst st' ! d" "snd st' ! d = w" using 2(2) 1(4,5) prems(2) by (auto simp: keeps_def)
  have "newly m r k st st'" using 1(3) 2(3) prems(3) by (fastforce simp: newly_def)
  then show ?case using 2 d keeps_trans[OF 1(2) 2(2)] step_level_def[of "snd st'" d l] by simp
qed (auto simp: newly_def)

lemma visit_all_returns:
  "\<lbrakk>inside m ups; undone (fst st) < n; set is \<subseteq> {..<m}; length (fst st) = m\<rbrakk> \<Longrightarrow>
   \<exists>st'. visit_all n ups is st = Some st'"
proof (induction "is" arbitrary: st)
  case (Cons i "is")
  then obtain v st' where v: "visit n ups i st = Some (v, st')" and c: "visits_more (fst st) (fst st')"
    using visit_returns(1)[of m ups st n i] by auto
  then have "undone (fst st') < n" "length (fst st') = m" using Cons.prems by (auto simp: visits_more_def)
  then show ?case using Cons v by auto
qed simp

definition all_finished :: "(nat \<Rightarrow> nat list) \<Rightarrow> nat \<Rightarrow> bool list \<times> nat list \<Rightarrow> bool" where
  "all_finished ups m st \<longleftrightarrow> sized m st \<and> (\<forall>j < m. fst st ! j \<longrightarrow> finished ups st j)"

lemma visit_all_levels:
  "\<lbrakk>ranked m ups r; visit_all n ups is st = Some st'; set is \<subseteq> {..<m}; all_finished ups m st\<rbrakk> \<Longrightarrow>
   all_finished ups m st' \<and> keeps m st st' \<and> (\<forall>i \<in> set is. fst st' ! i)"
proof (induction "is" arbitrary: st)
  case (Cons i "is")
  then obtain v st1 where v: "visit n ups i st = Some (v, st1)" and rest: "visit_all n ups is st1 = Some st'"
    by (auto split: option.splits)
  have i: "i < m" using Cons.prems by auto
  have b: "below ups m r (Suc (r i)) st" using Cons.prems by (auto simp: all_finished_def below_def)
  note 1 = visit_levels(1)[OF Cons.prems(1) v i b]
  have "finished ups st1 j" if j: "j < m" "fst st1 ! j" for j
  proof (cases "r j < Suc (r i)")
    case False
    then have "fst st ! j" using 1 j by (auto simp: newly_def)
    then show ?thesis using finished_keeps[of m st st1 ups j] 1 Cons.prems j
      by (auto simp: all_finished_def ranked_def inside_def)
  qed (use 1 j in \<open>auto simp: below_def\<close>)
  then have "all_finished ups m st1" using 1 by (auto simp: all_finished_def below_def)
  from Cons.IH[OF Cons.prems(1) rest _ this] Cons.prems 1 i show ?case
    by (auto simp: keeps_def)
qed simp

lemma upt_below: "set [0..<m] \<subseteq> {..<m}"
  by auto

lemma levels_returns:
  assumes "inside m ups"
  shows "levels m ups \<noteq> None"
proof -
  have "undone (replicate m False) < Suc m" by (simp add: undone_def)
  then show ?thesis
    using visit_all_returns[OF assms, of "(replicate m False, replicate m 0)" "Suc m", OF _ upt_below]
    by (auto simp: levels_def)
qed

lemma levels_correct:
  assumes "ranked m ups r" "levels m ups = Some level"
  shows "length level = m \<and> (\<forall>i < m. level ! i = ups_level level (ups i))"
proof -
  obtain st' where st': "visit_all (Suc m) ups [0..<m] (replicate m False, replicate m 0) = Some st'" "level = snd st'"
    using assms(2) by (auto simp: levels_def)
  have "all_finished ups m (replicate m False, replicate m 0)" by (simp add: all_finished_def sized_def)
  from visit_all_levels[OF assms(1) st'(1) upt_below this] st'(2) show ?thesis
    by (auto simp: all_finished_def sized_def finished_def)
qed

lemma fold_step_level: "fold (step_level level) ds l = Max (set (l # map (\<lambda>d. Suc (level ! d)) ds))"
proof -
  have "step_level level = (\<lambda>d. max (Suc (level ! d)))"
    by (auto simp: step_level_def fun_eq_iff)
  then have "fold (step_level level) ds l = fold max (map (\<lambda>d. Suc (level ! d)) ds) l"
    by (simp add: fold_map comp_def)
  then show ?thesis by (simp only: Max.set_eq_fold)
qed

lemma ups_level_less: "d \<in> set ds \<Longrightarrow> level ! d < ups_level level ds"
  unfolding ups_level_def fold_step_level by (rule less_le_trans[OF lessI Max_ge]) auto

end
