(* ===== verification/Tarjan.thy ===== *)
theory Tarjan
  imports Levels
begin

text \<open>
  Tarjan's search for strongly connected components as \<open>internal/lanes/graph.go\<close> has it (\<open>sccs\<close>), over
  adjacency lists without self-loops. The search always returns, and when it reports no component of
  more than one node the graph has no cycle.
\<close>

section \<open>Strongly connected components\<close>

record tarjan =
  tj_index :: "nat option list"    \<comment> \<open>\<open>-1\<close> is \<open>None\<close>\<close>
  tj_low :: "nat list"
  tj_on_stack :: "bool list"
  tj_stack :: "nat list"           \<comment> \<open>top first\<close>
  tj_out :: "nat list list"
  tj_next :: nat

definition enter :: "nat \<Rightarrow> tarjan \<Rightarrow> tarjan" where
  "enter v s = s\<lparr>tj_index := (tj_index s)[v := Some (tj_next s)], tj_low := (tj_low s)[v := tj_next s],
     tj_next := Suc (tj_next s), tj_stack := v # tj_stack s, tj_on_stack := (tj_on_stack s)[v := True]\<rparr>"

definition lower :: "nat \<Rightarrow> nat \<Rightarrow> tarjan \<Rightarrow> tarjan" where
  "lower v m s = (if m < tj_low s ! v then s\<lparr>tj_low := (tj_low s)[v := m]\<rparr> else s)"

definition pop_component :: "nat \<Rightarrow> tarjan \<Rightarrow> tarjan" where
  \<comment> \<open>the block under \<open>low[v] == index[v]\<close>\<close>
  "pop_component v s =
     (let c = takeWhile (\<lambda>w. w \<noteq> v) (tj_stack s) @ [v];
          s = s\<lparr>tj_stack := tl (dropWhile (\<lambda>w. w \<noteq> v) (tj_stack s)),
                tj_on_stack := fold (\<lambda>w xs. xs[w := False]) c (tj_on_stack s)\<rparr>
      in if length c > 1 then s\<lparr>tj_out := tj_out s @ [sort c]\<rparr> else s)"

fun strong :: "nat \<Rightarrow> nat list list \<Rightarrow> nat \<Rightarrow> tarjan \<Rightarrow> tarjan option"
  and strong_edges :: "nat \<Rightarrow> nat list list \<Rightarrow> nat \<Rightarrow> nat list \<Rightarrow> tarjan \<Rightarrow> tarjan option"
where
  "strong 0 adj v s = None"
| "strong (Suc n) adj v s =
     (case strong_edges n adj v (adj ! v) (enter v s) of
        None \<Rightarrow> None
      | Some s \<Rightarrow> if tj_index s ! v = Some (tj_low s ! v) then Some (pop_component v s) else Some s)"
| "strong_edges n adj v [] s = Some s"
| "strong_edges n adj v (w # ws) s =
     (case tj_index s ! w of
        None \<Rightarrow>
          (case strong n adj w s of
             None \<Rightarrow> None
           | Some s \<Rightarrow> strong_edges n adj v ws (lower v (tj_low s ! w) s))
      | Some i \<Rightarrow> strong_edges n adj v ws (if tj_on_stack s ! w then lower v i s else s))"

fun strong_all :: "nat \<Rightarrow> nat list list \<Rightarrow> nat list \<Rightarrow> tarjan \<Rightarrow> tarjan option" where
  "strong_all n adj [] s = Some s"
| "strong_all n adj (v # vs) s =
     (if tj_index s ! v = None then
        (case strong n adj v s of None \<Rightarrow> None | Some s \<Rightarrow> strong_all n adj vs s)
      else strong_all n adj vs s)"

definition tarjan_start :: "nat \<Rightarrow> tarjan" where
  "tarjan_start n = \<lparr>tj_index = replicate n None, tj_low = replicate n 0, tj_on_stack = replicate n False,
     tj_stack = [], tj_out = [], tj_next = 0\<rparr>"

definition sccs :: "nat list list \<Rightarrow> nat list list option" where
  "sccs adj =
     map_option (\<lambda>s. sort_key hd (tj_out s))
       (strong_all (Suc (length adj)) adj [0..<length adj] (tarjan_start (length adj)))"

section \<open>When the search finds no component\<close>

lemma lower_sel [simp]:
  "tj_index (lower v m s) = tj_index s" "tj_on_stack (lower v m s) = tj_on_stack s"
  "tj_stack (lower v m s) = tj_stack s" "tj_out (lower v m s) = tj_out s" "tj_next (lower v m s) = tj_next s"
  "length (tj_low (lower v m s)) = length (tj_low s)"
  by (simp_all add: lower_def)

lemma lower_low:
  "v < length (tj_low s) \<Longrightarrow> tj_low (lower v m s) ! v = min (tj_low s ! v) m"
  "u \<noteq> v \<Longrightarrow> tj_low (lower v m s) ! u = tj_low s ! u"
  by (simp_all add: lower_def min_def)

lemma strong_out:
  "strong n adj v s = Some s' \<Longrightarrow> \<exists>zs. tj_out s' = tj_out s @ zs"
  "strong_edges n adj v ws s = Some s' \<Longrightarrow> \<exists>zs. tj_out s' = tj_out s @ zs"
proof (induction n adj v s and n adj v ws s arbitrary: s' and s' rule: strong_strong_edges.induct)
  case (2 n adj v s)
  then obtain s1 where s1: "strong_edges n adj v (adj ! v) (enter v s) = Some s1"
    and s': "s' = (if tj_index s1 ! v = Some (tj_low s1 ! v) then pop_component v s1 else s1)"
    by (auto split: option.splits if_splits)
  from "2.IH"[OF s1] show ?case by (auto simp: s' pop_component_def enter_def Let_def)
next
  case (4 n adj v w ws s)
  then show ?case
    by (fastforce split: option.splits if_splits)
qed auto

definition idx :: "tarjan \<Rightarrow> nat \<Rightarrow> nat" where
  "idx s v = the (tj_index s ! v)"

definition fin :: "tarjan \<Rightarrow> nat set" where
  "fin s = {v. v < length (tj_index s) \<and> tj_index s ! v \<noteq> None \<and> v \<notin> set (tj_stack s)}"

definition simple_graph :: "nat list list \<Rightarrow> bool" where
  "simple_graph adj \<longleftrightarrow> (\<forall>v < length adj. set (adj ! v) \<subseteq> {..<length adj} - {v})"

definition adj_edges :: "nat list list \<Rightarrow> (nat \<times> nat) set" where
  "adj_edges adj = {(v, w). v < length adj \<and> w \<in> set (adj ! v)}"

definition good_comp :: "nat list list \<Rightarrow> nat list \<Rightarrow> bool" where
  \<comment> \<open>more than one node, each with an edge inside; what leaves the component never comes back\<close>
  "good_comp adj c \<longleftrightarrow> 1 < length c \<and> distinct c \<and> set c \<subseteq> {..<length adj} \<and>
     (\<forall>x \<in> set c. \<exists>y \<in> set c. y \<in> set (adj ! x)) \<and>
     (\<exists>F. set c \<inter> F = {} \<and> (\<forall>x \<in> set c. set (adj ! x) \<subseteq> set c \<union> F) \<and> (\<forall>x \<in> F. set (adj ! x) \<subseteq> F))"

definition done_part :: "nat list list \<Rightarrow> tarjan \<Rightarrow> bool" where
  \<comment> \<open>the finished part is closed, without a cycle as long as no component was found\<close>
  "done_part adj s \<longleftrightarrow> (\<forall>v \<in> fin s. set (adj ! v) \<subseteq> fin s) \<and> (\<forall>c \<in> set (tj_out s). good_comp adj c) \<and>
     (tj_out s = [] \<longrightarrow> acyclic {(v, w). v \<in> fin s \<and> w \<in> set (adj ! v)})"

definition stack_ok :: "nat list list \<Rightarrow> nat \<Rightarrow> tarjan \<Rightarrow> bool" where
  "stack_ok adj b s \<longleftrightarrow> length (tj_index s) = length adj \<and> length (tj_low s) = length adj \<and>
     length (tj_on_stack s) = length adj \<and> (\<forall>v < length adj. tj_on_stack s ! v \<longleftrightarrow> v \<in> set (tj_stack s)) \<and>
     sorted_wrt (\<lambda>x y. idx s y < idx s x) (tj_stack s) \<and> b \<le> tj_next s \<and>
     (\<forall>v \<in> set (tj_stack s). v < length adj \<and> tj_index s ! v \<noteq> None \<and> b \<le> idx s v \<and> idx s v < tj_next s \<and>
        b \<le> tj_low s ! v \<and> tj_low s ! v \<le> idx s v)"

definition tinv :: "nat list list \<Rightarrow> nat \<Rightarrow> tarjan \<Rightarrow> bool" where
  "tinv adj b s \<longleftrightarrow> stack_ok adj b s \<and> done_part adj s"

definition grows :: "tarjan \<Rightarrow> tarjan \<Rightarrow> bool" where
  "grows s s' \<longleftrightarrow> length (tj_index s') = length (tj_index s) \<and>
     (\<forall>v < length (tj_index s). tj_index s ! v \<noteq> None \<longrightarrow> tj_index s' ! v = tj_index s ! v) \<and> fin s \<subseteq> fin s'"

lemma grows_refl [simp]: "grows s s" by (simp add: grows_def)

lemma grows_trans: "grows a b \<Longrightarrow> grows b c \<Longrightarrow> grows a c"
  unfolding grows_def by (metis subset_trans)

lemma tinv_lower:
  assumes "tinv adj b s" "b \<le> m"
  shows "tinv adj b (lower v m s)"
proof -
  have "b \<le> tj_low (lower v m s) ! u \<and> tj_low (lower v m s) ! u \<le> idx s u" if "u \<in> set (tj_stack s)" for u
  proof (cases "u = v")
    case True
    then have "v < length (tj_low s)" "b \<le> tj_low s ! v" "tj_low s ! v \<le> idx s v" using assms that by (auto simp: tinv_def stack_ok_def)
    then show ?thesis using True lower_low(1)[of v s m] assms(2) by simp
  next
    case False
    then show ?thesis using assms that lower_low(2)[of u v m s] by (auto simp: tinv_def stack_ok_def)
  qed
  moreover have "fin (lower v m s) = fin s" "idx (lower v m s) = idx s" by (auto simp: fin_def idx_def)
  ultimately show ?thesis using assms(1)
    by (simp add: tinv_def stack_ok_def done_part_def)
qed

lemma tinv_enter:
  assumes "tinv adj b s" "v < length adj" "tj_index s ! v = None"
  shows "tinv adj b (enter v s)" "grows s (enter v s)" "tj_stack (enter v s) = v # tj_stack s"
    "tj_index (enter v s) ! v = Some (tj_next s)" "tj_low (enter v s) ! v = tj_next s"
proof -
  have out: "v \<notin> set (tj_stack s)" using assms by (auto simp: tinv_def stack_ok_def)
  have fin: "fin (enter v s) = fin s"
    using assms out by (auto simp: fin_def enter_def nth_list_update tinv_def stack_ok_def split: if_splits)
  have idx: "idx (enter v s) u = (if u = v then tj_next s else idx s u)" if "u < length adj" for u
    using assms that by (auto simp: idx_def enter_def tinv_def stack_ok_def)
  have "sorted_wrt (\<lambda>x y. idx (enter v s) y < idx (enter v s) x) (v # tj_stack s)"
  proof -
    have "sorted_wrt (\<lambda>x y. idx (enter v s) y < idx (enter v s) x) (tj_stack s)"
      by (rule sorted_wrt_mono_rel[of _ "\<lambda>x y. idx s y < idx s x"])
        (use assms out idx in \<open>auto simp: tinv_def stack_ok_def\<close>)
    moreover have "\<forall>u \<in> set (tj_stack s). idx (enter v s) u < idx (enter v s) v"
      using assms out idx by (auto simp: tinv_def stack_ok_def)
    ultimately show ?thesis by simp
  qed
  then have "stack_ok adj b (enter v s)"
    using assms idx out
    by (auto simp: tinv_def stack_ok_def) (auto simp: enter_def nth_list_update split: if_splits)
  then show "tinv adj b (enter v s)"
    using assms(1) by (simp add: tinv_def done_part_def fin) (simp add: enter_def)
  have "tj_index (enter v s) ! u = tj_index s ! u" if "tj_index s ! u \<noteq> None" for u
    using that assms(3) by (cases "u = v") (auto simp: enter_def)
  then show "grows s (enter v s)" by (simp add: grows_def fin) (simp add: enter_def)
  show "tj_stack (enter v s) = v # tj_stack s" "tj_index (enter v s) ! v = Some (tj_next s)"
    "tj_low (enter v s) ! v = tj_next s"
    using assms by (auto simp: enter_def tinv_def stack_ok_def)
qed

lemma fin_grows: "grows s s' \<Longrightarrow> w \<in> fin s \<Longrightarrow> w \<in> fin s'"
  by (auto simp: grows_def)

lemma acyclic_insert_source:
  assumes ac: "acyclic {(u, w). u \<in> F \<and> w \<in> set (adj ! u)}" and closed: "\<forall>u \<in> F. set (adj ! u) \<subseteq> F"
    and sub: "set (adj ! v) \<subseteq> F" and nv: "v \<notin> F"
  shows "acyclic {(u, w). u \<in> insert v F \<and> w \<in> set (adj ! u)}" (is "acyclic ?E'")
proof -
  let ?E = "{(u, w). u \<in> F \<and> w \<in> set (adj ! u)}"
  have tgt: "y \<in> F" if "(x, y) \<in> ?E'" for x y
  proof -
    from that have "x = v \<or> x \<in> F" and y: "y \<in> set (adj ! x)" by auto
    then have "set (adj ! x) \<subseteq> F" using closed sub by blast
    then show ?thesis using y by blast
  qed
  have reach: "y \<in> F \<and> (x = v \<or> (x, y) \<in> ?E\<^sup>+)" if "(x, y) \<in> ?E'\<^sup>+" for x y
    using that
  proof induction
    case (base y)
    then show ?case using tgt[OF base] by auto
  next
    case (step y z)
    then have "(y, z) \<in> ?E" using nv by auto
    then show ?case using step.IH tgt[OF step.hyps(2)] trancl_into_trancl[of x y ?E z] by blast
  qed
  show ?thesis unfolding acyclic_def
  proof (intro allI notI)
    fix x assume "(x, x) \<in> ?E'\<^sup>+"
    from reach[OF this] nv have "(x, x) \<in> ?E\<^sup>+" by blast
    then show False using ac unfolding acyclic_def by blast
  qed
qed

definition settled :: "nat list list \<Rightarrow> tarjan \<Rightarrow> nat \<Rightarrow> bool" where
  \<comment> \<open>every edge of \<open>y\<close> leads to the finished part or to a node its low value knows of\<close>
  "settled adj s y \<longleftrightarrow> (\<forall>w \<in> set (adj ! y). w \<in> fin s \<or> w \<in> set (tj_stack s) \<and> tj_low s ! y \<le> idx s w)"

definition onward :: "nat list list \<Rightarrow> tarjan \<Rightarrow> nat \<Rightarrow> bool" where
  "onward adj s y \<longleftrightarrow> (\<exists>w \<in> set (adj ! y). w \<in> set (tj_stack s))"

lemma fold_clear: "fold (\<lambda>w xs. xs[w := False]) c xs ! u \<longleftrightarrow> xs ! u \<and> u \<notin> set c" if "u < length xs"
  using that
proof (induction c arbitrary: xs)
  case (Cons a c)
  then show ?case by (cases "a = u") auto
qed simp

lemma fold_clear_length [simp]: "length (fold (\<lambda>w xs. xs[w := False]) c xs) = length xs"
  by (induction c arbitrary: xs) auto

lemma pop_sel:
  assumes "tj_stack s = ys @ v # st" "v \<notin> set ys"
  shows "tj_stack (pop_component v s) = st" "tj_index (pop_component v s) = tj_index s"
    "tj_low (pop_component v s) = tj_low s" "tj_next (pop_component v s) = tj_next s"
    "tj_on_stack (pop_component v s) = fold (\<lambda>w xs. xs[w := False]) (ys @ [v]) (tj_on_stack s)"
    "tj_out (pop_component v s) = tj_out s @ (if ys = [] then [] else [sort (ys @ [v])])"
proof -
  have tw: "takeWhile (\<lambda>w. w \<noteq> v) (ys @ v # st) = ys" "dropWhile (\<lambda>w. w \<noteq> v) (ys @ v # st) = v # st"
    using assms(2) by (induction ys) auto
  show "tj_stack (pop_component v s) = st" "tj_index (pop_component v s) = tj_index s"
    "tj_low (pop_component v s) = tj_low s" "tj_next (pop_component v s) = tj_next s"
    "tj_on_stack (pop_component v s) = fold (\<lambda>w xs. xs[w := False]) (ys @ [v]) (tj_on_stack s)"
    "tj_out (pop_component v s) = tj_out s @ (if ys = [] then [] else [sort (ys @ [v])])"
    by (auto simp: pop_component_def Let_def assms(1) tw simp del: takeWhile.simps dropWhile.simps)
qed

lemma sorted_wrt_distinct: "sorted_wrt (\<lambda>x y. f y < (f x :: nat)) xs \<Longrightarrow> distinct xs"
  by (induction xs) auto

text \<open>Popping the component of \<open>v\<close>.\<close>

lemma tinv_pop:
  assumes s: "tinv adj b s" and sg: "simple_graph adj" and st: "tj_stack s = ys @ v # st" and root: "tj_low s ! v = idx s v"
    and settled: "\<forall>y \<in> set (ys @ [v]). tj_low s ! v \<le> tj_low s ! y \<and> settled adj s y"
    and onward: "ys \<noteq> [] \<Longrightarrow> \<forall>y \<in> set (ys @ [v]). onward adj s y"
  shows "tinv adj b (pop_component v s) \<and> grows s (pop_component v s) \<and> v \<in> fin (pop_component v s)"
proof -
  let ?c = "ys @ [v]" and ?s = "pop_component v s"
  have srt: "sorted_wrt (\<lambda>x y. idx s y < idx s x) (ys @ v # st)" using s st by (simp add: tinv_def stack_ok_def)
  then have vys: "v \<notin> set ys" and below: "\<forall>w \<in> set st. idx s w < idx s v" and disj: "set ys \<inter> set st = {}" "v \<notin> set st"
    by (auto simp: sorted_wrt_append)
  have dist: "distinct ys" using srt sorted_wrt_distinct[of "idx s" ys] by (simp add: sorted_wrt_append)
  note pop = pop_sel[OF st vys]
  have ok: "stack_ok adj b s" using s by (simp add: tinv_def)
  have range: "\<forall>x \<in> set ?c. x < length adj \<and> tj_index s ! x \<noteq> None" using ok st by (auto simp: stack_ok_def)
  have lens: "length (tj_index s) = length adj" "length (tj_on_stack s) = length adj" using ok by (auto simp: stack_ok_def)
  have idx: "idx ?s = idx s" by (auto simp: pop idx_def)
  have fin: "fin ?s = set ?c \<union> fin s" using range lens disj by (auto simp: fin_def pop st)
  have on: "tj_on_stack ?s ! u \<longleftrightarrow> u \<in> set st" if "u < length adj" for u
  proof -
    have "tj_on_stack ?s ! u \<longleftrightarrow> tj_on_stack s ! u \<and> u \<notin> set ?c"
      unfolding pop(5) by (rule fold_clear) (use that lens in simp)
    then show ?thesis using ok that st disj by (auto simp: stack_ok_def)
  qed
  have "length (tj_on_stack ?s) = length adj" using lens by (simp add: pop(5))
  then have stk: "stack_ok adj b ?s"
    using ok srt on by (auto simp: stack_ok_def idx pop(1-4) st sorted_wrt_append)
  have inside: "w \<in> set ?c \<union> fin s" if "y \<in> set ?c" "w \<in> set (adj ! y)" for y w
  proof -
    have "w \<in> fin s \<or> w \<in> set (ys @ v # st) \<and> tj_low s ! y \<le> idx s w"
    proof -
      have "settled adj s y" using settled that(1) by blast
      then show ?thesis using that(2) st by (simp add: settled_def)
    qed
    moreover have "idx s v \<le> tj_low s ! y" using settled that root by auto
    ultimately show ?thesis using below by fastforce
  qed
  have closed: "\<forall>u \<in> fin s. set (adj ! u) \<subseteq> fin s" using s by (simp add: tinv_def done_part_def)
  have apart: "set ?c \<inter> fin s = {}" by (auto simp: fin_def st)
  have comp: "good_comp adj (sort ?c)" if "ys \<noteq> []"
  proof -
    have "\<exists>w \<in> set ?c. w \<in> set (adj ! y)" if y: "y \<in> set ?c" for y
    proof -
      obtain w where w: "w \<in> set (adj ! y)" "w \<in> set (tj_stack s)"
        using onward[OF \<open>ys \<noteq> []\<close>] y unfolding onward_def by blast
      then have "w \<notin> fin s" by (simp add: fin_def)
      then show ?thesis using inside[OF y w(1)] w(1) by blast
    qed
    moreover have "\<exists>F. set ?c \<inter> F = {} \<and> (\<forall>x \<in> set ?c. set (adj ! x) \<subseteq> set ?c \<union> F) \<and> (\<forall>x \<in> F. set (adj ! x) \<subseteq> F)"
      using apart closed inside by (intro exI[of _ "fin s"]) blast
    moreover have "1 < length (sort ?c)" using that by (cases ys) auto
    ultimately show ?thesis using range dist vys unfolding good_comp_def by (auto simp del: set_append)
  qed
  have ac: "acyclic {(u, w). u \<in> fin ?s \<and> w \<in> set (adj ! u)}" if "tj_out ?s = []"
  proof -
    have ys: "ys = []" and "tj_out s = []" using that by (auto simp: pop split: if_splits)
    then have "acyclic {(u, w). u \<in> fin s \<and> w \<in> set (adj ! u)}" using s by (simp add: tinv_def done_part_def)
    moreover have "set (adj ! v) \<subseteq> fin s"
      using inside[of v] ys sg range by (fastforce simp: simple_graph_def)
    ultimately show ?thesis
      using acyclic_insert_source[of "fin s" adj v] closed apart ys by (simp add: fin)
  qed
  have "\<forall>u \<in> fin ?s. set (adj ! u) \<subseteq> fin ?s" using closed inside by (auto simp: fin)
  then have "done_part adj ?s" using s comp ac by (auto simp: tinv_def done_part_def pop)
  then show ?thesis using stk by (auto simp: tinv_def grows_def fin pop)
qed

lemma idx_grows:
  "grows s s' \<Longrightarrow> v < length (tj_index s) \<Longrightarrow> tj_index s ! v \<noteq> None \<Longrightarrow> idx s' v = idx s v"
  by (auto simp: grows_def idx_def)

lemma tinv_len: "tinv adj b s \<Longrightarrow> length (tj_index s) = length adj \<and> length (tj_low s) = length adj"
  by (simp add: tinv_def stack_ok_def)

lemma tinv_stack: "tinv adj b s \<Longrightarrow> v \<in> set (tj_stack s) \<Longrightarrow>
    v < length adj \<and> tj_index s ! v \<noteq> None \<and> b \<le> idx s v \<and> b \<le> tj_low s ! v \<and>
    tj_low s ! v \<le> idx s v \<and> idx s v < tj_next s"
  by (simp add: tinv_def stack_ok_def)

definition left_open :: "nat list list \<Rightarrow> tarjan \<Rightarrow> nat \<Rightarrow> nat list \<Rightarrow> bool" where
  \<comment> \<open>the nodes a search from \<open>v\<close> leaves on the stack\<close>
  "left_open adj s v ys \<longleftrightarrow> (\<forall>y \<in> set ys. tj_low s ! v \<le> tj_low s ! y \<and> settled adj s y \<and> onward adj s y)"

text \<open>What was left open stays so while the stack only grows.\<close>

lemma left_open_keeps:
  assumes "left_open adj s v ys" "grows s s'" "set (tj_stack s) \<subseteq> set (tj_stack s')" "tinv adj b s"
    and "set ys \<subseteq> set (tj_stack s)" "\<forall>y \<in> set ys. tj_low s' ! y = tj_low s ! y" "tj_low s' ! u \<le> tj_low s ! v"
  shows "left_open adj s' u ys"
  unfolding left_open_def
proof
  fix y assume y: "y \<in> set ys"
  then have o: "tj_low s ! v \<le> tj_low s ! y" "settled adj s y" "onward adj s y" using assms(1) by (auto simp: left_open_def)
  have "settled adj s' y"
    unfolding settled_def
  proof
    fix w assume "w \<in> set (adj ! y)"
    then have "w \<in> fin s \<or> w \<in> set (tj_stack s) \<and> tj_low s ! y \<le> idx s w" using o(2) by (simp add: settled_def)
    then show "w \<in> fin s' \<or> w \<in> set (tj_stack s') \<and> tj_low s' ! y \<le> idx s' w"
      using assms y fin_grows[OF assms(2)] idx_grows[OF assms(2), of w] tinv_stack[OF assms(4), of w] tinv_len[OF assms(4)]
      by auto
  qed
  moreover have "onward adj s' y" using o(3) assms(3) by (auto simp: onward_def)
  ultimately show "tj_low s' ! u \<le> tj_low s' ! y \<and> settled adj s' y \<and> onward adj s' y" using o(1) assms y by auto
qed

lemma strong_spec:
  shows "\<lbrakk>strong n adj v s = Some s'; simple_graph adj; v < length adj; tj_index s ! v = None; tinv adj b s\<rbrakk> \<Longrightarrow>
    tinv adj b s' \<and> grows s s' \<and> tj_index s' ! v = Some (tj_next s) \<and> b \<le> tj_low s' ! v \<and>
    (\<forall>u < length adj. tj_index s ! u \<noteq> None \<longrightarrow> tj_low s' ! u = tj_low s ! u) \<and>
    (\<exists>ys. tj_stack s' = ys @ tj_stack s \<and> left_open adj s' v ys \<and> (ys = [] \<longrightarrow> v \<in> fin s' \<and> tj_low s' ! v = tj_next s) \<and>
      (ys \<noteq> [] \<longrightarrow> v \<in> set ys \<and> tj_low s' ! v < idx s' v))"
    and "\<lbrakk>strong_edges n adj v ws s = Some s'; simple_graph adj; set ws \<subseteq> {..<length adj} - {v};
      v \<in> set (tj_stack s); tinv adj b s\<rbrakk> \<Longrightarrow>
    tinv adj b s' \<and> grows s s' \<and> tj_low s' ! v \<le> tj_low s ! v \<and>
    (\<forall>u < length adj. u \<noteq> v \<and> tj_index s ! u \<noteq> None \<longrightarrow> tj_low s' ! u = tj_low s ! u) \<and>
    (\<exists>ys. tj_stack s' = ys @ tj_stack s \<and> left_open adj s' v ys \<and>
       (\<forall>w \<in> set ws. w \<in> fin s' \<or> w \<in> set (tj_stack s') \<and> tj_low s' ! v \<le> idx s' w) \<and>
       (ys \<noteq> [] \<or> tj_low s' ! v < tj_low s ! v \<longrightarrow> (\<exists>w \<in> set ws. w \<in> set (tj_stack s'))))"
proof (induction n adj v s and n adj v ws s arbitrary: s' and s' rule: strong_strong_edges.induct)
  case (2 n adj v s)
  let ?s0 = "enter v s"
  from "2.prems" obtain s1 where s1: "strong_edges n adj v (adj ! v) ?s0 = Some s1"
    and s': "s' = (if tj_index s1 ! v = Some (tj_low s1 ! v) then pop_component v s1 else s1)"
    by (auto split: option.splits if_splits)
  note e = tinv_enter[OF "2.prems"(5,3,4)]
  have adj: "set (adj ! v) \<subseteq> {..<length adj} - {v}" using "2.prems"(2,3) by (simp add: simple_graph_def)
  have vs: "v \<in> set (tj_stack ?s0)" by (simp add: e(3))
  from "2.IH"[OF s1 "2.prems"(2) adj vs e(1), unfolded e(3,5)] obtain ys where
    1: "tinv adj b s1" "grows ?s0 s1" "tj_low s1 ! v \<le> tj_next s" "tj_stack s1 = ys @ v # tj_stack s" "left_open adj s1 v ys"
    and frame: "\<forall>u < length adj. u \<noteq> v \<and> tj_index ?s0 ! u \<noteq> None \<longrightarrow> tj_low s1 ! u = tj_low ?s0 ! u"
    and ws: "\<forall>w \<in> set (adj ! v). w \<in> fin s1 \<or> w \<in> set (tj_stack s1) \<and> tj_low s1 ! v \<le> idx s1 w"
    and ow: "ys \<noteq> [] \<or> tj_low s1 ! v < tj_next s \<longrightarrow> (\<exists>w \<in> set (adj ! v). w \<in> set (tj_stack s1))"
    by blast
  have iv: "tj_index s1 ! v = Some (tj_next s)"
    using 1(2) e(4) "2.prems"(3) tinv_len[OF e(1)] by (auto simp: grows_def)
  have g: "grows s s1" using grows_trans[OF e(2) 1(2)] .
  have fr: "\<forall>u < length adj. tj_index s ! u \<noteq> None \<longrightarrow> tj_low s1 ! u = tj_low s ! u"
  proof (intro allI impI)
    fix u assume u: "u < length adj" "tj_index s ! u \<noteq> None"
    then have "u \<noteq> v" using "2.prems"(4) by auto
    then show "tj_low s1 ! u = tj_low s ! u" using frame u by (auto simp: enter_def)
  qed
  have blow: "b \<le> tj_low s1 ! v" using tinv_stack[OF 1(1), of v] 1(4) by simp
  have sv: "settled adj s1 v" using ws by (simp add: settled_def)
  show ?case
  proof (cases "tj_index s1 ! v = Some (tj_low s1 ! v)")
    case False
    then have lt: "tj_low s1 ! v < idx s1 v" using iv 1(3) by (simp add: idx_def)
    then have "onward adj s1 v" using ow iv by (auto simp: onward_def idx_def)
    then have "left_open adj s1 v (ys @ [v])" using 1(5) sv by (simp add: left_open_def)
    then show ?thesis using False 1 g fr blow iv lt by (auto simp: s' intro!: exI[of _ "ys @ [v]"])
  next
    case True
    then have s'': "s' = pop_component v s1" by (simp add: s')
    have root: "tj_low s1 ! v = idx s1 v" using True by (simp add: idx_def)
    have "v \<notin> set ys"
      using 1(1,4) sorted_wrt_distinct[of "idx s1" "tj_stack s1"] by (simp add: tinv_def stack_ok_def)
    note pop = pop_sel[OF 1(4) this]
    have "\<forall>y \<in> set (ys @ [v]). tj_low s1 ! v \<le> tj_low s1 ! y \<and> settled adj s1 y"
      using 1(5) sv by (auto simp: left_open_def)
    moreover have "\<forall>y \<in> set (ys @ [v]). onward adj s1 y" if "ys \<noteq> []"
      using 1(5) ow that by (auto simp: left_open_def onward_def)
    ultimately have "tinv adj b s' \<and> grows s1 s' \<and> v \<in> fin s'"
      unfolding s'' by (intro tinv_pop[OF 1(1) "2.prems"(2) 1(4) root]) auto
    moreover have "tj_low s1 ! v = tj_next s" using True iv by simp
    ultimately show ?thesis using grows_trans[OF g] fr blow iv pop by (auto simp: s'' left_open_def)
  qed
next
  case (4 n adj v w ws s)
  note sg = "4.prems"(2) and vst = "4.prems"(4) and inv = "4.prems"(5)
  have wl: "w < length adj" "w \<noteq> v" and wsl: "set ws \<subseteq> {..<length adj} - {v}" using "4.prems"(3) by auto
  have v: "v < length adj" "tj_index s ! v \<noteq> None" using tinv_stack[OF inv vst] by auto
  show ?case
  proof (cases "tj_index s ! w")
    case None
    with "4.prems"(1) obtain s1 where s1: "strong n adj w s = Some s1"
      and rest: "strong_edges n adj v ws (lower v (tj_low s1 ! w) s1) = Some s'"
      by (auto split: option.splits)
    from "4.IH"(1)[OF None s1 sg wl(1) None inv] obtain ys1 where
      1: "tinv adj b s1" "grows s s1" "tj_index s1 ! w = Some (tj_next s)" "b \<le> tj_low s1 ! w"
      "\<forall>u < length adj. tj_index s ! u \<noteq> None \<longrightarrow> tj_low s1 ! u = tj_low s ! u"
      "tj_stack s1 = ys1 @ tj_stack s" "left_open adj s1 w ys1" "ys1 = [] \<longrightarrow> w \<in> fin s1 \<and> tj_low s1 ! w = tj_next s"
      "ys1 \<noteq> [] \<longrightarrow> w \<in> set ys1 \<and> tj_low s1 ! w < idx s1 w" by blast
    let ?s2 = "lower v (tj_low s1 ! w) s1"
    have t2: "tinv adj b ?s2" using tinv_lower[OF 1(1,4)] .
    have g2: "grows s1 ?s2" "fin ?s2 = fin s1" "idx ?s2 = idx s1" by (auto simp: grows_def fin_def idx_def)
    have vs2: "v \<in> set (tj_stack ?s2)" using vst 1(6) by simp
    from "4.IH"(2)[OF None s1 rest sg wsl vs2 t2, unfolded lower_sel(3) 1(6)] obtain ys2 where
      2: "tinv adj b s'" "grows ?s2 s'" "tj_low s' ! v \<le> tj_low ?s2 ! v"
      "\<forall>u < length adj. u \<noteq> v \<and> tj_index ?s2 ! u \<noteq> None \<longrightarrow> tj_low s' ! u = tj_low ?s2 ! u"
      "tj_stack s' = ys2 @ ys1 @ tj_stack s" "left_open adj s' v ys2"
      "\<forall>x \<in> set ws. x \<in> fin s' \<or> x \<in> set (tj_stack s') \<and> tj_low s' ! v \<le> idx s' x"
      "ys2 \<noteq> [] \<or> tj_low s' ! v < tj_low ?s2 ! v \<longrightarrow> (\<exists>x \<in> set ws. x \<in> set (tj_stack s'))"
      by blast
    have low2: "tj_low ?s2 ! v = min (tj_low s ! v) (tj_low s1 ! w)"
      using lower_low(1)[of v s1 "tj_low s1 ! w"] tinv_len[OF 1(1)] v 1(5) by simp
    have gr1: "grows s1 s'" using grows_trans[OF g2(1) 2(2)] .
    have gr: "grows s s'" using grows_trans[OF 1(2) gr1] .
    have dist1: "distinct (tj_stack s1)" using 1(1) sorted_wrt_distinct[of "idx s1"] by (simp add: tinv_def stack_ok_def)
    have low_y: "tj_low s' ! y = tj_low s1 ! y" if "y \<in> set ys1" for y
    proof -
      have "y \<noteq> v" using that dist1 vst 1(6) by auto
      moreover have "y < length adj" "tj_index s1 ! y \<noteq> None" using tinv_stack[OF 1(1), of y] that 1(6) by auto
      ultimately show ?thesis using 2(4) lower_low(2)[of y v "tj_low s1 ! w" s1] by simp
    qed
    have lo1: "left_open adj s' v ys1"
      by (rule left_open_keeps[OF 1(7) gr1 _ 1(1)]) (use 2(3,5) 1(6) low_y low2 in auto)
    have wc: "w \<in> fin s' \<or> w \<in> set (tj_stack s') \<and> tj_low s' ! v \<le> idx s' w"
    proof (cases "ys1 = []")
      case True
      then show ?thesis using 1(8) fin_grows[OF gr1] by blast
    next
      case False
      have "idx s' w = idx s1 w" using idx_grows[OF gr1, of w] 1(3) wl tinv_len[OF 1(1)] by simp
      then show ?thesis using False 1(9) 2(3,5) low2 by auto
    qed
    have fr: "\<forall>u < length adj. u \<noteq> v \<and> tj_index s ! u \<noteq> None \<longrightarrow> tj_low s' ! u = tj_low s ! u"
    proof (intro allI impI)
      fix u assume u: "u < length adj" "u \<noteq> v \<and> tj_index s ! u \<noteq> None"
      have "tj_index ?s2 ! u \<noteq> None" using 1(2) u tinv_len[OF inv] by (auto simp: grows_def)
      then show "tj_low s' ! u = tj_low s ! u" using 2(4) 1(5) u lower_low(2)[of u v "tj_low s1 ! w" s1] by simp
    qed
    have ow: "\<exists>x \<in> set (w # ws). x \<in> set (tj_stack s')" if "ys2 @ ys1 \<noteq> [] \<or> tj_low s' ! v < tj_low s ! v"
    proof (cases "ys1 \<noteq> []")
      case True
      then show ?thesis using 1(9) 2(5) by auto
    next
      case False
      then have "tj_low s1 ! w = tj_next s" using 1(8) by simp
      then have "tj_low ?s2 ! v = tj_low s ! v" using low2 tinv_stack[OF inv vst] by simp
      then show ?thesis using 2(8) that False by auto
    qed
    have "left_open adj s' v (ys2 @ ys1)" using lo1 2(6) by (auto simp: left_open_def)
    moreover have "tj_low s' ! v \<le> tj_low s ! v" using 2(3) low2 by simp
    ultimately show ?thesis using 2(1,5,7) gr fr wc ow by (auto intro!: exI[of _ "ys2 @ ys1"])
  next
    case (Some i)
    let ?s1 = "if tj_on_stack s ! w then lower v i s else s"
    have on: "tj_on_stack s ! w \<longleftrightarrow> w \<in> set (tj_stack s)" using inv wl by (simp add: tinv_def stack_ok_def)
    have ii: "idx s w = i" using Some by (simp add: idx_def)
    have rest: "strong_edges n adj v ws ?s1 = Some s'" using "4.prems"(1) Some by simp
    have t1: "tinv adj b ?s1"
      using tinv_lower[OF inv, of i v] tinv_stack[OF inv, of w] inv on ii by auto
    have g1: "grows s ?s1" "fin ?s1 = fin s" "idx ?s1 = idx s" "tj_stack ?s1 = tj_stack s" "tj_index ?s1 = tj_index s"
      by (auto simp: grows_def fin_def idx_def)
    have "v \<in> set (tj_stack ?s1)" using vst g1(4) by simp
    from "4.IH"(3)[OF Some rest sg wsl this t1] obtain ys where
      2: "tinv adj b s'" "grows ?s1 s'" "tj_low s' ! v \<le> tj_low ?s1 ! v"
      "\<forall>u < length adj. u \<noteq> v \<and> tj_index ?s1 ! u \<noteq> None \<longrightarrow> tj_low s' ! u = tj_low ?s1 ! u"
      "tj_stack s' = ys @ tj_stack s" "left_open adj s' v ys"
      "\<forall>x \<in> set ws. x \<in> fin s' \<or> x \<in> set (tj_stack s') \<and> tj_low s' ! v \<le> idx s' x"
      "ys \<noteq> [] \<or> tj_low s' ! v < tj_low ?s1 ! v \<longrightarrow> (\<exists>x \<in> set ws. x \<in> set (tj_stack s'))"
      unfolding g1(3,4) by blast
    have lv: "tj_low ?s1 ! v \<le> tj_low s ! v" and lw: "tj_on_stack s ! w \<Longrightarrow> tj_low ?s1 ! v \<le> i"
      and same: "\<not> tj_on_stack s ! w \<Longrightarrow> tj_low ?s1 ! v = tj_low s ! v"
      using lower_low(1)[of v s i] tinv_len[OF inv] v by auto
    have idw: "idx s' w = i" using idx_grows[OF 2(2), of w] g1 Some wl tinv_len[OF inv] ii by auto
    have wc: "w \<in> fin s' \<or> w \<in> set (tj_stack s') \<and> tj_low s' ! v \<le> idx s' w"
    proof (cases "tj_on_stack s ! w")
      case True
      then show ?thesis using on lw 2(3,5) idw by auto
    next
      case False
      then have "w \<in> fin ?s1" using on Some wl tinv_len[OF inv] g1(2) by (simp add: fin_def)
      then show ?thesis using fin_grows[OF 2(2)] by blast
    qed
    have ow: "\<exists>x \<in> set (w # ws). x \<in> set (tj_stack s')" if "ys \<noteq> [] \<or> tj_low s' ! v < tj_low s ! v"
    proof (cases "tj_on_stack s ! w")
      case True
      then show ?thesis using on 2(5) by auto
    next
      case False
      then show ?thesis using 2(8) same that by auto
    qed
    have fr: "\<forall>u < length adj. u \<noteq> v \<and> tj_index s ! u \<noteq> None \<longrightarrow> tj_low s' ! u = tj_low s ! u"
      using 2(4) g1(5) lower_low(2)[of _ v i s] by auto
    have "tj_low s' ! v \<le> tj_low s ! v" using 2(3) lv by simp
    then show ?thesis using 2(1,5,6,7) grows_trans[OF g1(1) 2(2)] fr wc ow by (auto intro!: exI[of _ ys])
  qed
qed (auto simp: left_open_def)

lemma index_pop [simp]: "tj_index (pop_component v s) = tj_index s"
  by (simp add: pop_component_def Let_def)

definition unindexed :: "tarjan \<Rightarrow> nat" where
  "unindexed s = undone (map (\<lambda>x. x \<noteq> None) (tj_index s))"

lemma unindexed_enter:
  "v < length (tj_index s) \<Longrightarrow> tj_index s ! v = None \<Longrightarrow> unindexed s = Suc (unindexed (enter v s))"
  using undone_set[of v "map (\<lambda>x. x \<noteq> None) (tj_index s)"]
  by (simp add: unindexed_def enter_def map_update)

lemma unindexed_lower [simp]: "unindexed (lower v m s) = unindexed s"
  by (simp add: unindexed_def)

lemma strong_returns:
  shows "\<lbrakk>simple_graph adj; unindexed s < n; v < length adj; length (tj_index s) = length adj; tj_index s ! v = None\<rbrakk> \<Longrightarrow>
      \<exists>s'. strong n adj v s = Some s' \<and> unindexed s' \<le> unindexed s \<and> length (tj_index s') = length adj"
    and "\<lbrakk>simple_graph adj; unindexed s < n; set ws \<subseteq> {..<length adj}; length (tj_index s) = length adj\<rbrakk> \<Longrightarrow>
      \<exists>s'. strong_edges n adj v ws s = Some s' \<and> unindexed s' \<le> unindexed s \<and> length (tj_index s') = length adj"
proof (induction n adj v s and n adj v ws s rule: strong_strong_edges.induct)
  case (2 n adj v s)
  have u: "unindexed s = Suc (unindexed (enter v s))" using unindexed_enter "2.prems" by simp
  have "set (adj ! v) \<subseteq> {..<length adj}" using "2.prems" by (auto simp: simple_graph_def)
  moreover have "length (tj_index (enter v s)) = length adj" using "2.prems" by (simp add: enter_def)
  ultimately obtain s1 where "strong_edges n adj v (adj ! v) (enter v s) = Some s1"
    "unindexed s1 \<le> unindexed (enter v s)" "length (tj_index s1) = length adj"
    using "2.IH" "2.prems" u by (metis Suc_less_eq less_Suc_eq)
  then show ?case using u by (auto simp: unindexed_def)
next
  case (4 n adj v w ws s)
  have w: "w < length adj" using "4.prems" by auto
  show ?case
  proof (cases "tj_index s ! w")
    case None
    then obtain s1 where s1: "strong n adj w s = Some s1" "unindexed s1 \<le> unindexed s" "length (tj_index s1) = length adj"
      using "4.IH"(1) "4.prems" w by blast
    then show ?thesis using None "4.IH"(2)[OF None s1(1)] "4.prems" by fastforce
  next
    case (Some i)
    then show ?thesis using "4.IH"(3)[OF Some] "4.prems" by auto
  qed
qed auto

lemma strong_all_returns:
  "\<lbrakk>simple_graph adj; unindexed s < n; set vs \<subseteq> {..<length adj}; length (tj_index s) = length adj\<rbrakk> \<Longrightarrow>
   strong_all n adj vs s \<noteq> None"
proof (induction vs arbitrary: s)
  case (Cons v vs)
  show ?case
  proof (cases "tj_index s ! v")
    case None
    then obtain s1 where "strong n adj v s = Some s1" "unindexed s1 \<le> unindexed s" "length (tj_index s1) = length adj"
      using strong_returns(1)[of adj s n v] Cons.prems by auto
    then show ?thesis using Cons None by auto
  qed (use Cons in auto)
qed simp

lemma sccs_returns: "simple_graph adj \<Longrightarrow> sccs adj \<noteq> None"
  using strong_all_returns[OF _ _ upt_below, of adj "tarjan_start (length adj)" "Suc (length adj)"]
  by (auto simp: sccs_def tarjan_start_def unindexed_def undone_def)

lemma strong_all_spec:
  "\<lbrakk>strong_all n adj vs s = Some s'; simple_graph adj; set vs \<subseteq> {..<length adj}; tj_stack s = [];
    tinv adj (tj_next s) s\<rbrakk> \<Longrightarrow>
   tj_stack s' = [] \<and> tinv adj (tj_next s') s' \<and> fin s \<subseteq> fin s' \<and> set vs \<subseteq> fin s'"
proof (induction vs arbitrary: s)
  case (Cons v vs)
  have v: "v < length adj" using Cons.prems by auto
  show ?case
  proof (cases "tj_index s ! v")
    case None
    with Cons.prems obtain s1 where s1: "strong n adj v s = Some s1" and rest: "strong_all n adj vs s1 = Some s'"
      by (auto split: option.splits)
    from strong_spec(1)[OF s1 Cons.prems(2) v None Cons.prems(5)] Cons.prems(4) obtain ys where
      1: "tinv adj (tj_next s) s1" "grows s s1" "tj_index s1 ! v = Some (tj_next s)" "tj_next s \<le> tj_low s1 ! v"
      "tj_stack s1 = ys" "ys = [] \<longrightarrow> v \<in> fin s1" "ys \<noteq> [] \<longrightarrow> tj_low s1 ! v < idx s1 v"
      by auto
    have "ys = []" using 1(3,4,7) by (auto simp: idx_def)
    then have 2: "tj_stack s1 = []" "v \<in> fin s1" "tinv adj (tj_next s1) s1" using 1 by (auto simp: tinv_def stack_ok_def)
    have "set vs \<subseteq> {..<length adj}" using Cons.prems by simp
    from Cons.IH[OF rest Cons.prems(2) this 2(1,3)] 1(2) 2(2) show ?thesis
      by (auto simp: grows_def)
  next
    case (Some i)
    then have "v \<in> fin s" using v Cons.prems(4) tinv_len[OF Cons.prems(5)] by (simp add: fin_def)
    then show ?thesis using Cons Some by auto
  qed
qed simp

lemma sccs_done:
  assumes "simple_graph adj" "sccs adj = Some comps"
  shows "\<exists>s'. comps = sort_key hd (tj_out s') \<and> tinv adj (tj_next s') s' \<and> {..<length adj} \<subseteq> fin s'"
proof -
  let ?s = "tarjan_start (length adj)"
  obtain s' where s': "strong_all (Suc (length adj)) adj [0..<length adj] ?s = Some s'" "comps = sort_key hd (tj_out s')"
    using assms(2) by (auto simp: sccs_def)
  have "fin ?s = {}" by (simp add: fin_def tarjan_start_def)
  then have "tinv adj (tj_next ?s) ?s"
    by (simp add: tinv_def done_part_def acyclic_def) (simp add: stack_ok_def tarjan_start_def)
  moreover have "tj_stack ?s = []" by (simp add: tarjan_start_def)
  ultimately have "tinv adj (tj_next s') s'" "set [0..<length adj] \<subseteq> fin s'"
    using strong_all_spec[OF s'(1) assms(1) upt_below] by auto
  moreover have "set [0..<length adj] = {..<length adj}" by auto
  ultimately show ?thesis using s'(2) by auto
qed

lemma sccs_good: "simple_graph adj \<Longrightarrow> sccs adj = Some comps \<Longrightarrow> c \<in> set comps \<Longrightarrow> good_comp adj c"
  using sccs_done[of adj comps] by (auto simp: tinv_def done_part_def)

lemma no_sccs_acyclic:
  assumes "simple_graph adj" "sccs adj = Some []"
  shows "acyclic (adj_edges adj)"
proof -
  obtain s' where s': "[] = sort_key hd (tj_out s')" "tinv adj (tj_next s') s'" "{..<length adj} \<subseteq> fin s'"
    using sccs_done[OF assms] by blast
  then have "adj_edges adj \<subseteq> {(v, w). v \<in> fin s' \<and> w \<in> set (adj ! v)}" by (auto simp: adj_edges_def)
  moreover have "tj_out s' = []" using s'(1) by (metis length_0_conv length_sort)
  then have "acyclic {(v, w). v \<in> fin s' \<and> w \<in> set (adj ! v)}" using s'(2) by (simp add: tinv_def done_part_def)
  ultimately show ?thesis using acyclic_subset by blast
qed

end
