(* ===== verification/Lane_Graph.thy ===== *)
theory Lane_Graph
  imports Plan_Model Tarjan
begin

text \<open>
  \<open>internal/lanes/graph.go\<close>: the graph of a plan's jobs by index with each job's level, the graph of
  lanes it induces, and that no component found means no cycle between lanes. A Go slice indexed by job or lane is a list
  of that length; an answer \<open>None\<close> is running out of fuel, which the lemmas exclude.
\<close>

section \<open>The job graph\<close>

record job_graph =
  jg_index :: "(string, nat) gmap_of"
  jg_deps :: "nat list list"
  jg_level :: "nat list"
  jg_weight :: "int list"
  jg_weighted :: bool

definition job_index :: "plan_job list \<Rightarrow> (string, nat) gmap_of" where
  "job_index jobs = fold (\<lambda>(i, job). gm_set (pb_id job) i) (indexed jobs) []"

definition declared_weights :: "plan_job list \<Rightarrow> int list" where
  "declared_weights jobs = sort (filter (\<lambda>w. w > 0) (map pb_estimated_seconds jobs))"

definition default_weight :: "plan_job list \<Rightarrow> int" where
  "default_weight jobs =
     (let declared = declared_weights jobs
      in if declared = [] then 1 else declared ! (length declared div 2))"

definition job_deps :: "(string, nat) gmap_of \<Rightarrow> plan_job \<Rightarrow> nat list" where
  "job_deps index job = sort (List.map_filter (gm_get index) (pb_depends_on job))"

definition newJobGraph :: "plan_job list \<Rightarrow> job_graph option" where
  "newJobGraph jobs =
     (let index = job_index jobs;
          deps = map (job_deps index) jobs
      in map_option (\<lambda>level. \<lparr>jg_index = index, jg_deps = deps, jg_level = level,
           jg_weight = map (\<lambda>job. if pb_estimated_seconds job > 0 then pb_estimated_seconds job
                                  else default_weight jobs) jobs,
           jg_weighted = (declared_weights jobs \<noteq> [])\<rparr>)
         (levels (length jobs) (\<lambda>i. deps ! i)))"

section \<open>Drafts and the lane graph\<close>

record draft =
  dr_base_id :: string
  dr_env :: string
  dr_runs_on :: string
  dr_source :: string
  dr_group :: string
  dr_component :: string
  dr_concurrency :: int
  dr_jobs :: "nat list"
  dr_split_from :: string
  dr_id_suffix :: string
  dr_part :: nat
  dr_auto_k :: nat
  dr_auto_n :: nat

definition laneID :: "draft \<Rightarrow> string" where
  "laneID d =
     (if dr_part d > 0 then dr_base_id d @ dr_id_suffix d @ ''-'' @ itoa (dr_part d)
      else dr_base_id d @ dr_id_suffix d)"

definition lane_of :: "nat \<Rightarrow> draft list \<Rightarrow> nat list" where
  \<comment> \<open>the slice \<open>laneOf\<close>, for \<open>n\<close> jobs\<close>
  "lane_of n ds = fold (\<lambda>(li, d). fold (\<lambda>j xs. xs[j := li]) (dr_jobs d)) (indexed ds) (replicate n 0)"

definition job_edges :: "job_graph \<Rightarrow> (nat \<times> nat) list" where
  \<comment> \<open>the pairs \<open>(dep, j)\<close> in the order of the two loops\<close>
  "job_edges g = concat (map (\<lambda>(j, deps). map (\<lambda>dep. (dep, j)) deps) (indexed (jg_deps g)))"

definition add_lane_edge :: "nat list \<Rightarrow> nat \<times> nat \<Rightarrow>
    nat list list \<times> (nat \<times> nat, nat \<times> nat) gmap_of \<Rightarrow> nat list list \<times> (nat \<times> nat, nat \<times> nat) gmap_of" where
  "add_lane_edge laneOf e st =
     (let a = laneOf ! fst e; b = laneOf ! snd e
      in if a = b \<or> gm_has (snd st) (a, b) then st
         else ((fst st)[a := fst st ! a @ [b]], gm_set (a, b) e (snd st)))"

definition laneEdges :: "job_graph \<Rightarrow> draft list \<Rightarrow> nat list list \<times> (nat \<times> nat, nat \<times> nat) gmap_of" where
  "laneEdges g ds =
     (let st = fold (add_lane_edge (lane_of (length (jg_level g)) ds)) (job_edges g)
                 (replicate (length ds) [], [])
      in (map sort (fst st), snd st))"

definition lanes_acyclic :: "job_graph \<Rightarrow> draft list \<Rightarrow> bool option" where
  \<comment> \<open>\<open>acyclic\<close>\<close>
  "lanes_acyclic g ds = map_option (\<lambda>comps. comps = []) (sccs (fst (laneEdges g ds)))"


section \<open>The lane graph of a partition\<close>

definition job_lists :: "draft list \<Rightarrow> nat list" where
  "job_lists ds = concat (map dr_jobs ds)"

definition splits_jobs :: "nat \<Rightarrow> draft list \<Rightarrow> bool" where
  \<comment> \<open>every job is in exactly one draft\<close>
  "splits_jobs n ds \<longleftrightarrow> mset (job_lists ds) = mset [0..<n]"

lemma splits_jobs_distinct: "splits_jobs n ds \<Longrightarrow> distinct (job_lists ds)"
  unfolding splits_jobs_def using mset_eq_imp_distinct_iff by fastforce

lemma splits_jobs_set: "splits_jobs n ds \<Longrightarrow> set (job_lists ds) = {..<n}"
  unfolding splits_jobs_def by (metis atLeast_upt set_mset_mset)

lemma fold_update_other: "j \<notin> set js \<Longrightarrow> fold (\<lambda>j xs. xs[j := v]) js xs ! j = xs ! j"
  by (induction js arbitrary: xs) auto

lemma fold_update_length [simp]: "length (fold (\<lambda>j xs. xs[j := v]) js xs) = length xs"
  by (induction js arbitrary: xs) auto

lemma fold_update_mem: "j \<in> set js \<Longrightarrow> j < length xs \<Longrightarrow> fold (\<lambda>j xs. xs[j := v]) js xs ! j = v"
proof (induction js arbitrary: xs)
  case (Cons x js)
  then show ?case by (cases "j \<in> set js") (auto simp: fold_update_other)
qed simp

lemma lane_of_fold:
  assumes "distinct (job_lists ds)" "li < length ds" "j \<in> set (dr_jobs (ds ! li))" "j < length xs"
  shows "fold (\<lambda>(li, d). fold (\<lambda>j xs. xs[j := li]) (dr_jobs d)) (index_from k ds) xs ! j = k + li"
  using assms
proof (induction ds arbitrary: k li xs)
  case (Cons d ds)
  let ?xs = "fold (\<lambda>j xs. xs[j := k]) (dr_jobs d) xs"
  have other: "fold (\<lambda>(li, d). fold (\<lambda>j xs. xs[j := li]) (dr_jobs d)) (index_from m ds') ys ! j = ys ! j"
    if "j \<notin> set (job_lists ds')" for m ds' ys
    using that by (induction ds' arbitrary: m ys) (auto simp: job_lists_def fold_update_other)
  show ?case
  proof (cases li)
    case 0
    then have "j \<notin> set (job_lists ds)" using Cons.prems by (auto simp: job_lists_def)
    then show ?thesis using Cons.prems 0 other by (simp add: fold_update_mem)
  next
    case (Suc l)
    then show ?thesis using Cons.prems Cons.IH[of l ?xs "Suc k"] by (simp add: job_lists_def)
  qed
qed simp

lemma draft_jobs_below:
  "splits_jobs n ds \<Longrightarrow> d \<in> set ds \<Longrightarrow> set (dr_jobs d) \<subseteq> {..<n}"
  using splits_jobs_set[of n ds] by (auto simp: job_lists_def)

lemma lane_of_draft:
  assumes "splits_jobs n ds" "li < length ds" "j \<in> set (dr_jobs (ds ! li))"
  shows "lane_of n ds ! j = li"
proof -
  have "j < n" using draft_jobs_below[OF assms(1) nth_mem[OF assms(2)]] assms(3) by auto
  then show ?thesis
    using lane_of_fold[OF splits_jobs_distinct[OF assms(1)] assms(2,3), of "replicate n 0" 0]
    by (simp add: lane_of_def)
qed

lemma draft_of_job:
  assumes "splits_jobs n ds" "j < n"
  shows "\<exists>li < length ds. j \<in> set (dr_jobs (ds ! li)) \<and> lane_of n ds ! j = li"
proof -
  have "j \<in> set (job_lists ds)" using assms splits_jobs_set by blast
  then obtain d where "d \<in> set ds" "j \<in> set (dr_jobs d)" by (auto simp: job_lists_def)
  then obtain li where "li < length ds" "j \<in> set (dr_jobs (ds ! li))" by (auto simp: in_set_conv_nth[of d ds])
  then show ?thesis using lane_of_draft[OF assms(1)] by blast
qed

definition lane_edge :: "nat list \<Rightarrow> (nat \<times> nat) list \<Rightarrow> nat \<Rightarrow> nat \<Rightarrow> bool" where
  "lane_edge laneOf es a b \<longleftrightarrow> a \<noteq> b \<and> (\<exists>e \<in> set es. laneOf ! fst e = a \<and> laneOf ! snd e = b)"

lemma add_lane_edges:
  assumes "\<forall>e \<in> set es. laneOf ! fst e < m"
    and "length adj = m" and "\<And>a b. a < m \<Longrightarrow> b \<in> set (adj ! a) \<longleftrightarrow> lane_edge laneOf es0 a b"
    and "\<And>a b. a < m \<Longrightarrow> gm_has wit (a, b) \<longleftrightarrow> b \<in> set (adj ! a)"
  shows "length (fst (fold (add_lane_edge laneOf) es (adj, wit))) = m \<and>
    (\<forall>a < m. \<forall>b. b \<in> set (fst (fold (add_lane_edge laneOf) es (adj, wit)) ! a) \<longleftrightarrow> lane_edge laneOf (es0 @ es) a b)"
  using assms
proof (induction es arbitrary: adj wit es0)
  case (Cons e es)
  let ?a = "laneOf ! fst e" and ?b = "laneOf ! snd e"
  have a: "?a < m" using Cons.prems(1) by simp
  obtain adj' wit' where st: "add_lane_edge laneOf e (adj, wit) = (adj', wit')" by fastforce
  have step: "length adj' = m" "\<And>a b. a < m \<Longrightarrow> b \<in> set (adj' ! a) \<longleftrightarrow> lane_edge laneOf (es0 @ [e]) a b"
    "\<And>a b. a < m \<Longrightarrow> gm_has wit' (a, b) \<longleftrightarrow> b \<in> set (adj' ! a)"
  proof -
    have edge: "lane_edge laneOf (es0 @ [e]) a b \<longleftrightarrow> lane_edge laneOf es0 a b \<or> (?a \<noteq> ?b \<and> a = ?a \<and> b = ?b)" for a b
      by (auto simp: lane_edge_def)
    show "length adj' = m" using st Cons.prems(2) by (auto simp: add_lane_edge_def Let_def split: if_splits)
    show "b \<in> set (adj' ! a) \<longleftrightarrow> lane_edge laneOf (es0 @ [e]) a b" if "a < m" for a b
      using st Cons.prems(2-4) that a unfolding edge
      by (auto simp: add_lane_edge_def Let_def nth_list_update split: if_splits)
    show "gm_has wit' (a, b) \<longleftrightarrow> b \<in> set (adj' ! a)" if "a < m" for a b
      using st Cons.prems(2,4) that a
      by (auto simp: add_lane_edge_def Let_def nth_list_update gm_has_set split: if_splits)
  qed
  from Cons.IH[of adj' "es0 @ [e]" wit', OF _ step] Cons.prems(1) show ?case by (simp add: st)
qed (simp add: lane_edge_def)

definition graph_ok :: "nat \<Rightarrow> job_graph \<Rightarrow> bool" where
  \<comment> \<open>a graph of \<open>n\<close> jobs\<close>
  "graph_ok n g \<longleftrightarrow> length (jg_deps g) = n \<and> length (jg_level g) = n \<and> length (jg_weight g) = n \<and>
     (\<forall>j < n. set (jg_deps g ! j) \<subseteq> {..<n})"

lemma in_job_edges: "e \<in> set (job_edges g) \<longleftrightarrow> snd e < length (jg_deps g) \<and> fst e \<in> set (jg_deps g ! snd e)"
  by (cases e) (auto simp: job_edges_def in_indexed Bex_def; force)

lemma laneEdges_spec:
  assumes "graph_ok n g" "splits_jobs n ds"
  shows "length (fst (laneEdges g ds)) = length ds"
    and "a < length ds \<Longrightarrow> b \<in> set (fst (laneEdges g ds) ! a) \<longleftrightarrow> lane_edge (lane_of n ds) (job_edges g) a b"
    and "simple_graph (fst (laneEdges g ds))"
proof -
  have lt: "lane_of n ds ! j < length ds" if "j < n" for j using draft_of_job[OF assms(2) that] by auto
  have edges: "fst e < n \<and> snd e < n" if "e \<in> set (job_edges g)" for e
    using that assms(1) by (auto simp: in_job_edges graph_ok_def)
  have n: "length (jg_level g) = n" using assms(1) by (simp add: graph_ok_def)
  have spec: "length (fst (fold (add_lane_edge (lane_of n ds)) (job_edges g) (replicate (length ds) [], []))) = length ds \<and>
    (\<forall>a < length ds. \<forall>b. b \<in> set (fst (fold (add_lane_edge (lane_of n ds)) (job_edges g) (replicate (length ds) [], [])) ! a) \<longleftrightarrow>
       lane_edge (lane_of n ds) ([] @ job_edges g) a b)"
    by (rule add_lane_edges) (use lt edges in \<open>auto simp: lane_edge_def gm_has_def\<close>)
  then show 1: "length (fst (laneEdges g ds)) = length ds" by (simp add: laneEdges_def Let_def n)
  show 2: "b \<in> set (fst (laneEdges g ds) ! a) \<longleftrightarrow> lane_edge (lane_of n ds) (job_edges g) a b" if "a < length ds" for a b
    using spec that by (simp add: laneEdges_def Let_def n)
  show "simple_graph (fst (laneEdges g ds))"
    unfolding simple_graph_def using 1 2 lt edges by (auto simp: lane_edge_def)
qed

lemma no_cycles_left:
  assumes "graph_ok n g" "splits_jobs n ds" "sccs (fst (laneEdges g ds)) = Some []"
  shows "acyclic {(lane_of n ds ! d, lane_of n ds ! j) | d j. j < n \<and> d \<in> set (jg_deps g ! j) \<and>
    lane_of n ds ! d \<noteq> lane_of n ds ! j}" (is "acyclic ?E")
proof -
  note l = laneEdges_spec[OF assms(1,2)]
  have "?E \<subseteq> adj_edges (fst (laneEdges g ds))"
  proof
    fix e assume "e \<in> ?E"
    then obtain d j where e: "e = (lane_of n ds ! d, lane_of n ds ! j)" and j: "j < n" "d \<in> set (jg_deps g ! j)"
      "lane_of n ds ! d \<noteq> lane_of n ds ! j" by auto
    have "d < n" using assms(1) j by (auto simp: graph_ok_def)
    then have "lane_of n ds ! d < length ds" using draft_of_job[OF assms(2)] by auto
    moreover have "(d, j) \<in> set (job_edges g)" using assms(1) j by (simp add: in_job_edges graph_ok_def)
    ultimately show "e \<in> adj_edges (fst (laneEdges g ds))"
      using l(1,2) j(3) by (auto simp: e adj_edges_def lane_edge_def intro: bexI[of _ "(d, j)"])
  qed
  then show ?thesis using no_sccs_acyclic[OF l(3) assms(3)] acyclic_subset by blast
qed

end
