(* ===== verification/Lane_Repair.thy ===== *)
theory Lane_Repair
  imports Lane_Graph
begin

text \<open>
  The repair of cycles between lanes (\<open>internal/lanes/graph.go\<close> and \<open>renumberAuto\<close> of \<open>auto.go\<close>): auto
  lanes of one partition in a cycle are merged, any other lane in a cycle is split by level and its
  slices joined back while the lane graph stays without a cycle. The repair keeps every job in exactly
  one lane, and what it returns has no cycle between lanes.
\<close>

section \<open>Repairing cycles\<close>

record cycle_note =
  \<comment> \<open>what \<open>describeCycle\<close> prints: the lanes of the cycle and the job edge behind each hop\<close>
  cn_lanes :: "string list"
  cn_jobs :: "(string \<times> string) list"

record split_note =
  sn_base :: string
  sn_parts :: "string list"

datatype lanes_error =
    CycleRejected cycle_note
  | CannotBreak cycle_note
  | RepairDidNotConverge
  | LanesFuel   \<comment> \<open>out of fuel; never returned\<close>

function cycle_walk :: "nat list list \<Rightarrow> nat list \<Rightarrow> nat list \<Rightarrow> nat list" where
  "cycle_walk adj c path =
     (case find (\<lambda>w. w \<in> set c) (adj ! last path) of
        None \<Rightarrow> path
      | Some nxt \<Rightarrow>
          if nxt \<in> set path then dropWhile (\<lambda>v. v \<noteq> nxt) path @ [nxt]
          else cycle_walk adj c (path @ [nxt]))"
  by pat_completeness auto

termination
proof (relation "measure (\<lambda>(adj, c, path). card (set c - set path))")
  fix adj :: "nat list list" and c path nxt
  assume "find (\<lambda>w. w \<in> set c) (adj ! last path) = Some nxt" and new: "nxt \<notin> set path"
  then have "nxt \<in> set c" by (auto simp: find_Some_iff)
  then have "set c - set (path @ [nxt]) \<subset> set c - set path" using new by auto
  then show "((adj, c, path @ [nxt]), (adj, c, path)) \<in> measure (\<lambda>(adj, c, path). card (set c - set path))"
    by (simp add: psubset_card_mono)
qed simp

definition describeCycle :: "plan_job list \<Rightarrow> job_graph \<Rightarrow> draft list \<Rightarrow> nat list \<Rightarrow> cycle_note" where
  "describeCycle jobs g ds c =
     (let (adj, witness) = laneEdges g ds;
          path = cycle_walk adj c [hd c];
          hop = (\<lambda>(v, w). case gm_get_or (0, 0) witness (v, w) of (a, b) \<Rightarrow> (pb_id (jobs ! a), pb_id (jobs ! b)))
      in \<lparr>cn_lanes = map (\<lambda>v. laneID (ds ! v)) path, cn_jobs = map hop (zip path (tl path))\<rparr>)"

definition auto_key :: "draft \<Rightarrow> string \<times> string" where
  "auto_key d = (dr_env d, dr_runs_on d)"

definition auto_count :: "draft list \<Rightarrow> string \<times> string \<Rightarrow> nat" where
  "auto_count ds k = length (filter (\<lambda>d. dr_source d = ''auto'' \<and> auto_key d = k) ds)"

definition renumber_one :: "(string \<times> string \<Rightarrow> nat) \<Rightarrow> nat \<Rightarrow>
    (string \<times> string, nat) gmap_of \<times> draft list \<Rightarrow> (string \<times> string, nat) gmap_of \<times> draft list" where
  "renumber_one counts i st =
     (let d = snd st ! i; k = auto_key d; n = gm_get_or 0 (fst st) k + 1
      in (gm_set k n (fst st),
          (snd st)[i := d\<lparr>dr_auto_k := n, dr_auto_n := counts k,
             dr_base_id := dr_env d @ ''/auto-'' @ itoa n\<rparr>]))"

definition renumberAuto :: "draft list \<Rightarrow> draft list" where
  "renumberAuto ds =
     (let autos = filter (\<lambda>p. dr_source (snd p) = ''auto'') (indexed ds);
          sorted = sort_key (\<lambda>p. dr_auto_k (snd p)) autos
      in snd (fold (\<lambda>p. renumber_one (auto_count ds) (fst p)) sorted ([], ds)))"

definition mergeAuto :: "draft list \<Rightarrow> nat list \<Rightarrow> draft list option" where
  "mergeAuto ds c =
     (let first = ds ! hd c
      in if list_all (\<lambda>v. dr_source (ds ! v) = ''auto'' \<and> dr_env (ds ! v) = dr_env first \<and>
                         dr_runs_on (ds ! v) = dr_runs_on first) c
         then Some (renumberAuto
           (map snd (filter (\<lambda>p. fst p \<notin> set (tl c))
              (indexed (ds[hd c := first\<lparr>dr_jobs := sort (dr_jobs first @ concat (map (\<lambda>v. dr_jobs (ds ! v)) (tl c)))\<rparr>])))))
         else None)"

text \<open>
  In \<open>splitByLevel\<close> the slices are shared between \<open>out\<close>, \<open>trial\<close> and \<open>kept\<close> and changed through their
  pointers. Here every draft of \<open>out\<close> has a reference, the lane it comes from and its slice in it (0 for
  a lane left whole); \<open>kept\<close> is a list of references.
\<close>

type_synonym slice_ref = "nat \<times> nat"
type_synonym slices = "(slice_ref \<times> draft) list"

definition draft_levels :: "job_graph \<Rightarrow> draft \<Rightarrow> nat list" where
  "draft_levels g d = sort (remdups (map (\<lambda>j. jg_level g ! j) (dr_jobs d)))"

definition cut_lane :: "job_graph \<Rightarrow> nat list \<Rightarrow> nat \<times> draft \<Rightarrow> slices" where
  "cut_lane g c p =
     (let (i, d) = p
      in if i \<notin> set c \<or> length (draft_levels g d) < 2 then [((i, 0), d)]
         else map (\<lambda>(k, l). ((i, Suc k), d\<lparr>dr_jobs := filter (\<lambda>j. jg_level g ! j = l) (dr_jobs d),
                                       dr_split_from := laneID d\<rparr>)) (indexed (draft_levels g d)))"

definition lane_splits :: "job_graph \<Rightarrow> nat list \<Rightarrow> draft list \<Rightarrow> (string \<times> slice_ref list) list" where
  \<comment> \<open>\<open>splits\<close>: the base id and the slices of every lane that was cut\<close>
  "lane_splits g c ds =
     map (\<lambda>(i, d). (laneID d, map (\<lambda>k. (i, Suc k)) [0..<length (draft_levels g d)]))
       (filter (\<lambda>(i, d). i \<in> set c \<and> \<not> length (draft_levels g d) < 2) (indexed ds))"

definition join_pair :: "slice_ref \<Rightarrow> slice_ref \<Rightarrow> slices \<Rightarrow> slices" where
  \<comment> \<open>\<open>trial\<close>: the joined slice in the place of \<open>last\<close>, and \<open>nxt\<close> left out\<close>
  "join_pair lastr nxt out =
     map (\<lambda>(r, d). if r = lastr then (r, d\<lparr>dr_jobs := dr_jobs d @ concat (map (\<lambda>p. dr_jobs (snd p)) (filter (\<lambda>p. fst p = nxt) out))\<rparr>)
                   else (r, d))
       (filter (\<lambda>p. fst p \<noteq> nxt) out)"

fun join_slices :: "job_graph \<Rightarrow> slice_ref list \<Rightarrow> slice_ref list \<Rightarrow> slices \<Rightarrow> (slice_ref list \<times> slices) option" where
  \<comment> \<open>the loop over \<open>s.slices[1:]\<close>; the second argument is \<open>kept\<close>\<close>
  "join_slices g [] kept out = Some (kept, out)"
| "join_slices g (nxt # rest) kept out =
     (let trial = join_pair (last kept) nxt out
      in case lanes_acyclic g (map snd trial) of
           None \<Rightarrow> None
         | Some True \<Rightarrow> join_slices g rest kept trial
         | Some False \<Rightarrow> join_slices g rest (kept @ [nxt]) out)"

definition set_draft :: "slice_ref \<Rightarrow> (draft \<Rightarrow> draft) \<Rightarrow> slices \<Rightarrow> slices" where
  "set_draft r f = map (\<lambda>(r', d). if r' = r then (r', f d) else (r', d))"

definition number_parts :: "slice_ref list \<Rightarrow> slices \<Rightarrow> slices" where
  "number_parts kept out = fold (\<lambda>(k, r). set_draft r (\<lambda>d. d\<lparr>dr_part := Suc k\<rparr>)) (indexed kept) out"

definition part_ids :: "slice_ref list \<Rightarrow> slices \<Rightarrow> string list" where
  "part_ids kept out = map (\<lambda>r. case map_of out r of Some d \<Rightarrow> laneID d | None \<Rightarrow> []) kept"

fun join_splits :: "job_graph \<Rightarrow> (string \<times> slice_ref list) list \<Rightarrow> slices \<Rightarrow> split_note list \<Rightarrow>
    (slices \<times> split_note list) option" where
  "join_splits g [] out notes = Some (out, notes)"
| "join_splits g ((base, refs) # splits) out notes =
     (case join_slices g (tl refs) [hd refs] out of
        None \<Rightarrow> None
      | Some (kept, out) \<Rightarrow>
          if length kept = 1
          then join_splits g splits (set_draft (hd kept) (\<lambda>d. d\<lparr>dr_split_from := [], dr_part := 0\<rparr>) out) notes
          else let out = number_parts kept out
               in join_splits g splits out (notes @ [\<lparr>sn_base = base, sn_parts = part_ids kept out\<rparr>]))"

definition splitByLevel :: "job_graph \<Rightarrow> draft list \<Rightarrow> nat list \<Rightarrow> (draft list \<times> split_note list) option option" where
  \<comment> \<open>the outer \<open>None\<close> is fuel; \<open>Some None\<close> is the empty note: nothing left to split\<close>
  "splitByLevel g ds c =
     (let splits = lane_splits g c ds
      in if splits = [] then Some None
         else map_option (\<lambda>(out, notes). Some (map snd out, notes))
           (join_splits g splits (concat (map (cut_lane g c) (indexed ds))) []))"

fun repair_rounds :: "nat \<Rightarrow> plan_job list \<Rightarrow> job_graph \<Rightarrow> bool \<Rightarrow> draft list \<Rightarrow> (cycle_note \<times> split_note list) list \<Rightarrow>
    lanes_error + draft list \<times> (cycle_note \<times> split_note list) list" where
  "repair_rounds 0 jobs g reject ds repairs = Inl RepairDidNotConverge"
| "repair_rounds (Suc n) jobs g reject ds repairs =
     (case sccs (fst (laneEdges g ds)) of
        None \<Rightarrow> Inl LanesFuel
      | Some [] \<Rightarrow> Inr (ds, repairs)
      | Some (c # _) \<Rightarrow>
          (case mergeAuto ds c of
             Some merged \<Rightarrow> repair_rounds n jobs g reject merged repairs
           | None \<Rightarrow>
               if reject then Inl (CycleRejected (describeCycle jobs g ds c))
               else case splitByLevel g ds c of
                      None \<Rightarrow> Inl LanesFuel
                    | Some None \<Rightarrow> Inl (CannotBreak (describeCycle jobs g ds c))
                    | Some (Some (next, note)) \<Rightarrow>
                        repair_rounds n jobs g reject next (repairs @ [(describeCycle jobs g ds c, note)])))"

definition repairCycles :: "plan_job list \<Rightarrow> job_graph \<Rightarrow> draft list \<Rightarrow> intent_lanes \<Rightarrow> bool \<Rightarrow>
    lanes_error + draft list \<times> (cycle_note \<times> split_note list) list" where
  "repairCycles jobs g ds cfg strict =
     repair_rounds (length jobs + 1) jobs g (strict \<or> il_on_cycle cfg = LaneOnCycleReject) ds []"

section \<open>Every job stays in one lane\<close>

type_synonym place = "string \<times> string \<times> string \<times> string"

definition place :: "draft \<Rightarrow> place" where
  "place d = (dr_env d, dr_runs_on d, dr_source d, dr_component d)"

definition fits :: "plan_job list \<Rightarrow> place \<Rightarrow> nat \<Rightarrow> bool" where
  \<comment> \<open>the job may be in a lane at that place\<close>
  "fits jobs p j \<longleftrightarrow>
     (let (env, runsOn, source, component) = p
      in pb_environment (jobs ! j) = env \<and>
         (source \<noteq> ''isolated'' \<longrightarrow> pb_runs_on (jobs ! j) = runsOn) \<and>
         (source \<in> {''isolated'', ''component'', ''job''} \<longrightarrow> pb_component (jobs ! j) = component))"

definition draft_ok :: "plan_job list \<Rightarrow> draft \<Rightarrow> bool" where
  "draft_ok jobs d \<longleftrightarrow> dr_jobs d \<noteq> [] \<and> (\<forall>j \<in> set (dr_jobs d). fits jobs (place d) j)"

definition drafts_ok :: "plan_job list \<Rightarrow> draft list \<Rightarrow> bool" where
  "drafts_ok jobs ds \<longleftrightarrow> splits_jobs (length jobs) ds \<and> (\<forall>d \<in> set ds. draft_ok jobs d)"

definition draft_core :: "draft \<Rightarrow> place \<times> nat list" where
  "draft_core d = (place d, dr_jobs d)"

lemma drafts_ok_core:
  assumes "map draft_core ds' = map draft_core ds"
  shows "drafts_ok jobs ds' \<longleftrightarrow> drafts_ok jobs ds"
proof -
  have "map dr_jobs ds' = map dr_jobs ds"
    using arg_cong[OF assms, of "map snd"] by (simp add: draft_core_def comp_def)
  then have "splits_jobs n ds' \<longleftrightarrow> splits_jobs n ds" for n by (simp add: splits_jobs_def job_lists_def)
  moreover have "(\<forall>d \<in> set xs. draft_ok jobs d) \<longleftrightarrow>
      (\<forall>(p, js) \<in> set (map draft_core xs). js \<noteq> [] \<and> (\<forall>j \<in> set js. fits jobs p j))" for xs
    by (auto simp: draft_ok_def draft_core_def)
  ultimately show ?thesis unfolding drafts_ok_def by (simp only: assms)
qed

lemma renumberAuto_core: "map draft_core (renumberAuto ds) = map draft_core ds"
proof -
  have one: "map draft_core (snd (renumber_one c i st)) = map draft_core (snd st)" for c i st
  proof (cases "i < length (snd st)")
    case True
    then show ?thesis
      by (simp add: renumber_one_def Let_def map_update draft_core_def place_def list_update_same_conv)
  qed (simp add: renumber_one_def Let_def list_update_beyond)
  have "map draft_core (snd (fold (\<lambda>p. renumber_one c (fst p)) ps st)) = map draft_core (snd st)" for c st and ps :: "(nat \<times> draft) list"
    by (induction ps arbitrary: st) (auto simp: one)
  then show ?thesis by (simp add: renumberAuto_def Let_def)
qed

lemma mset_job_lists_update:
  "k < length ds \<Longrightarrow> mset (job_lists (ds[k := x])) + mset (dr_jobs (ds ! k)) = mset (job_lists ds) + mset (dr_jobs x)"
proof (induction ds arbitrary: k)
  case (Cons d ds)
  then show ?case by (cases k) (auto simp: job_lists_def)
qed simp

lemma mset_indexed_at:
  assumes "distinct c" "set c \<subseteq> {..<length xs}"
  shows "mset (filter (\<lambda>p. fst p \<in> set c) (indexed xs)) = mset (map (\<lambda>v. (v, xs ! v)) c)"
proof -
  have "distinct (indexed xs)" using distinct_map[of fst "indexed xs"] by simp
  then have "distinct (filter (\<lambda>p. fst p \<in> set c) (indexed xs))" by simp
  moreover have "distinct (map (\<lambda>v. (v, xs ! v)) c)" using assms(1) by (simp add: distinct_map inj_on_def)
  moreover have "set (filter (\<lambda>p. fst p \<in> set c) (indexed xs)) = set (map (\<lambda>v. (v, xs ! v)) c)"
    using assms(2) by (auto simp: in_indexed)
  ultimately show ?thesis by (metis set_eq_iff_mset_eq_distinct)
qed

lemma mset_concat_mset: "mset xs = mset ys \<Longrightarrow> mset (concat (map f xs)) = mset (concat (map f ys))"
  by (simp add: mset_concat flip: sum_mset_sum_list)

definition merge_lanes :: "draft list \<Rightarrow> nat list \<Rightarrow> draft list" where
  "merge_lanes ds c = (let first = ds ! hd c in map snd (filter (\<lambda>p. fst p \<notin> set (tl c))
     (indexed (ds[hd c := first\<lparr>dr_jobs := sort (dr_jobs first @ concat (map (\<lambda>v. dr_jobs (ds ! v)) (tl c)))\<rparr>]))))"

lemma mergeAuto_merge_lanes:
  "mergeAuto ds c = Some ds' \<Longrightarrow> ds' = renumberAuto (merge_lanes ds c) \<and>
     (\<forall>v \<in> set c. dr_source (ds ! v) = ''auto'' \<and> place (ds ! v) = (dr_env (ds ! hd c), dr_runs_on (ds ! hd c), ''auto'', dr_component (ds ! v)))"
  by (auto simp: mergeAuto_def merge_lanes_def Let_def list_all_iff place_def split: if_splits)

lemma merge_lanes_jobs:
  assumes "distinct c" "c \<noteq> []" "set c \<subseteq> {..<length ds}"
  shows "mset (job_lists (merge_lanes ds c)) = mset (job_lists ds)"
proof -
  let ?k = "hd c" and ?x = "(ds ! hd c)\<lparr>dr_jobs := sort (dr_jobs (ds ! hd c) @ concat (map (\<lambda>v. dr_jobs (ds ! v)) (tl c)))\<rparr>"
  let ?ds = "ds[?k := ?x]" and ?T = "mset (concat (map (\<lambda>v. dr_jobs (ds ! v)) (tl c)))"
  have c: "c = ?k # tl c" "?k < length ds" "distinct (tl c)" "set (tl c) \<subseteq> {..<length ?ds}" "?k \<notin> set (tl c)"
    using assms by (cases c; auto)+
  have "mset (job_lists ?ds) = mset (job_lists ds) + ?T"
    using mset_job_lists_update[OF c(2), of ?x] by simp
  moreover have "mset (job_lists ?ds) = mset (job_lists (merge_lanes ds c)) + ?T"
  proof -
    have f: "mset (concat (map (\<lambda>p. dr_jobs (snd p)) xs)) =
        mset (concat (map (\<lambda>p. dr_jobs (snd p)) (filter (\<lambda>p. fst p \<notin> set (tl c)) xs))) +
        mset (concat (map (\<lambda>p. dr_jobs (snd p)) (filter (\<lambda>p. fst p \<in> set (tl c)) xs)))" for xs :: "(nat \<times> draft) list"
      by (induction xs) auto
    have "mset (concat (map (\<lambda>p. dr_jobs (snd p)) (filter (\<lambda>p. fst p \<in> set (tl c)) (indexed ?ds)))) =
        mset (concat (map (\<lambda>p. dr_jobs (snd p)) (map (\<lambda>v. (v, ?ds ! v)) (tl c))))"
      by (rule mset_concat_mset[OF mset_indexed_at[OF c(3,4)]])
    also have "map (\<lambda>p. dr_jobs (snd p)) (map (\<lambda>v. (v, ?ds ! v)) (tl c)) = map (\<lambda>v. dr_jobs (ds ! v)) (tl c)"
    proof -
      have "?ds ! v = ds ! v" if "v \<in> set (tl c)" for v using c(5) that by (metis nth_list_update_neq)
      then show ?thesis by simp
    qed
    finally have g: "mset (concat (map (\<lambda>p. dr_jobs (snd p)) (filter (\<lambda>p. fst p \<in> set (tl c)) (indexed ?ds)))) = ?T" .
    have "job_lists ?ds = concat (map (\<lambda>p. dr_jobs (snd p)) (indexed ?ds))"
      by (metis (no_types, lifting) comp_def job_lists_def map_map map_snd_index_from map_eq_conv)
    then show ?thesis using f[of "indexed ?ds"] g
      by (simp add: merge_lanes_def Let_def job_lists_def comp_def)
  qed
  ultimately show ?thesis by simp
qed

lemma merge_lanes_mem:
  assumes "d \<in> set (merge_lanes ds c)" "c \<noteq> []" "set c \<subseteq> {..<length ds}"
  shows "d \<in> set ds \<or> place d = place (ds ! hd c) \<and> set (dr_jobs d) = (\<Union>v \<in> set c. set (dr_jobs (ds ! v)))"
proof -
  let ?x = "(ds ! hd c)\<lparr>dr_jobs := sort (dr_jobs (ds ! hd c) @ concat (map (\<lambda>v. dr_jobs (ds ! v)) (tl c)))\<rparr>"
  have "d \<in> set (ds[hd c := ?x])"
    using assms(1) by (auto simp: merge_lanes_def Let_def dest: set_index_from_snd)
  then have "d \<in> set ds \<or> d = ?x" using set_update_subset_insert[of ds "hd c" ?x] by auto
  moreover have "set c = insert (hd c) (set (tl c))" using assms(2) by (cases c) auto
  ultimately show ?thesis by (auto simp: place_def)
qed

lemma mergeAuto_ok:
  assumes "drafts_ok jobs ds" "good_comp adj c" "length adj = length ds" "mergeAuto ds c = Some ds'"
  shows "drafts_ok jobs ds'"
proof -
  have c: "distinct c" "c \<noteq> []" "set c \<subseteq> {..<length ds}" using assms(2,3) by (auto simp: good_comp_def)
  note m = mergeAuto_merge_lanes[OF assms(4)]
  have "draft_ok jobs d" if d: "d \<in> set (merge_lanes ds c)" for d
  proof (cases "d \<in> set ds")
    case False
    then have pl: "place d = place (ds ! hd c)" and js: "set (dr_jobs d) = (\<Union>v \<in> set c. set (dr_jobs (ds ! v)))"
      using merge_lanes_mem[OF d c(2,3)] by auto
    have ok: "draft_ok jobs (ds ! v)" if "v \<in> set c" for v using assms(1) c(3) that by (auto simp: drafts_ok_def)
    have hd: "hd c \<in> set c" using c(2) by simp
    have pv: "place (ds ! v) = (dr_env (ds ! hd c), dr_runs_on (ds ! hd c), ''auto'', dr_component (ds ! v))" if "v \<in> set c" for v
      using m that by blast
    have "fits jobs (place d) j" if j: "j \<in> set (dr_jobs d)" for j
    proof -
      obtain v where v: "v \<in> set c" "j \<in> set (dr_jobs (ds ! v))" using j js by auto
      then have "fits jobs (place (ds ! v)) j" using ok by (auto simp: draft_ok_def)
      then show ?thesis unfolding pl pv[OF v(1)] pv[OF hd] by (simp add: fits_def)
    qed
    moreover have "dr_jobs d \<noteq> []" using js ok[OF hd] hd by (force simp: draft_ok_def)
    ultimately show ?thesis by (simp add: draft_ok_def)
  qed (use assms(1) in \<open>auto simp: drafts_ok_def\<close>)
  then have "drafts_ok jobs (merge_lanes ds c)"
    using assms(1) merge_lanes_jobs[OF c] by (simp add: drafts_ok_def splits_jobs_def)
  then show ?thesis using m drafts_ok_core[OF renumberAuto_core] by simp
qed

end
