(* ===== verification/Lane_Split.thy ===== *)
theory Lane_Split
  imports Lane_Repair
begin

text \<open>
  What \<open>splitByLevel\<close> and \<open>repairCycles\<close> (\<open>internal/lanes/graph.go\<close>) keep: the slices of a lane hold its
  jobs, joining two slices loses none, and so every round leaves each job in exactly one lane that it
  fits.
\<close>

section \<open>The slices of a split\<close>

definition refs :: "slices \<Rightarrow> slice_ref set" where
  "refs out = fst ` set out"

definition slices_ok :: "plan_job list \<Rightarrow> draft list \<Rightarrow> slices \<Rightarrow> bool" where
  "slices_ok jobs ds out \<longleftrightarrow> distinct (map fst out) \<and> drafts_ok jobs (map snd out) \<and>
     (\<forall>(r, d) \<in> set out. place d = place (ds ! fst r))"

lemma mset_slices_by_key:
  "distinct ls \<Longrightarrow> mset (concat (map (\<lambda>l. filter (\<lambda>j. f j = l) xs) ls)) = mset (filter (\<lambda>j. f j \<in> set ls) xs)"
proof (induction ls)
  case (Cons l ls)
  have "mset (filter (\<lambda>j. f j = l) xs) + mset (filter (\<lambda>j. f j \<in> set ls) xs) = mset (filter (\<lambda>j. f j = l \<or> f j \<in> set ls) xs)"
    using Cons.prems by (induction xs) auto
  then show ?case using Cons by simp
qed simp

lemma draft_levels_distinct: "distinct (draft_levels g d)"
  by (simp add: draft_levels_def)

lemma draft_levels_set: "set (draft_levels g d) = (\<lambda>j. jg_level g ! j) ` set (dr_jobs d)"
  by (simp add: draft_levels_def)

lemma cut_lane_jobs: "mset (job_lists (map snd (cut_lane g c (i, d)))) = mset (dr_jobs d)"
proof (cases "i \<notin> set c \<or> length (draft_levels g d) < 2")
  case False
  have "job_lists (map snd (cut_lane g c (i, d))) =
      concat (map (\<lambda>l. filter (\<lambda>j. jg_level g ! j = l) (dr_jobs d)) (map snd (indexed (draft_levels g d))))"
    using False by (simp add: cut_lane_def job_lists_def comp_def case_prod_beta del: map_snd_index_from)
  then have "mset (job_lists (map snd (cut_lane g c (i, d)))) =
      mset (filter (\<lambda>j. jg_level g ! j \<in> set (draft_levels g d)) (dr_jobs d))"
    using mset_slices_by_key[OF draft_levels_distinct] by simp
  then show ?thesis by (simp add: draft_levels_set)
qed (auto simp: cut_lane_def job_lists_def)

lemma cut_lane_draft:
  assumes "(r, e) \<in> set (cut_lane g c (i, d))"
  shows "fst r = i \<and> place e = place d \<and> set (dr_jobs e) \<subseteq> set (dr_jobs d) \<and> (dr_jobs d \<noteq> [] \<longrightarrow> dr_jobs e \<noteq> [])"
proof (cases "i \<notin> set c \<or> length (draft_levels g d) < 2")
  case False
  then obtain k l where e: "r = (i, Suc k)" "e = d\<lparr>dr_jobs := filter (\<lambda>j. jg_level g ! j = l) (dr_jobs d), dr_split_from := laneID d\<rparr>"
    and "(k, l) \<in> set (indexed (draft_levels g d))" using assms by (auto simp: cut_lane_def)
  then have "l \<in> set (draft_levels g d)" using set_index_from_snd by metis
  then have "\<exists>j \<in> set (dr_jobs d). jg_level g ! j = l" by (auto simp: draft_levels_set)
  then show ?thesis by (auto simp: e place_def filter_empty_conv)
qed (use assms in \<open>auto simp: cut_lane_def\<close>)

lemma cut_refs:
  "map fst (map (\<lambda>(k, l). ((i, Suc k), F l)) (index_from n xs)) = map (\<lambda>k. (i, Suc k)) [n..<n + length xs]"
  by (induction xs arbitrary: n) (simp_all add: upt_rec)

lemma cut_lane_refs: "distinct (map fst (cut_lane g c p))"
proof (cases p)
  case (Pair i d)
  show ?thesis unfolding Pair cut_lane_def Let_def
    by (auto simp only: cut_refs prod.case split: if_splits) (auto simp: distinct_map inj_on_def)
qed

lemma cut_lanes_refs:
  "distinct (map fst (concat (map (cut_lane g c) (index_from k ds))))"
proof (induction ds arbitrary: k)
  case (Cons d ds)
  have "refs (cut_lane g c (k, d)) \<inter> refs (concat (map (cut_lane g c) (index_from (Suc k) ds))) = {}"
    by (fastforce simp: refs_def in_index_from dest: cut_lane_draft)
  then show ?case using Cons cut_lane_refs[of g c "(k, d)"] by (simp add: refs_def)
qed simp

lemma cut_lanes_jobs:
  "mset (job_lists (map snd (concat (map (cut_lane g c) (index_from k ds))))) = mset (job_lists ds)"
proof (induction ds arbitrary: k)
  case (Cons d ds)
  then show ?case using cut_lane_jobs[of g c k d] by (simp add: job_lists_def)
qed (simp add: job_lists_def)

lemma cut_lanes_ok:
  assumes "drafts_ok jobs ds"
  shows "slices_ok jobs ds (concat (map (cut_lane g c) (indexed ds)))"
proof -
  let ?out = "concat (map (cut_lane g c) (indexed ds))"
  have d: "place e = place (ds ! fst r) \<and> draft_ok jobs e" if e: "(r, e) \<in> set ?out" for r e
  proof -
    obtain i where i: "i < length ds" "(r, e) \<in> set (cut_lane g c (i, ds ! i))"
      using e by (auto simp: in_indexed)
    then have "draft_ok jobs (ds ! i)" using assms by (simp add: drafts_ok_def)
    then show ?thesis using cut_lane_draft[OF i(2)] by (auto simp: draft_ok_def)
  qed
  have "splits_jobs (length jobs) (map snd ?out)"
    using assms cut_lanes_jobs[of g c 0 ds] by (simp add: splits_jobs_def drafts_ok_def)
  then have "drafts_ok jobs (map snd ?out)" using d by (fastforce simp: drafts_ok_def)
  then show ?thesis using d cut_lanes_refs[of g c 0 ds] by (auto simp: slices_ok_def)
qed

section \<open>Joining two slices\<close>

lemma mset_add_jobs:
  "distinct (map fst xs) \<Longrightarrow> a \<in> refs xs \<Longrightarrow>
   mset (job_lists (map snd (map (\<lambda>(r, d). if r = a then (r, d\<lparr>dr_jobs := dr_jobs d @ js\<rparr>) else (r, d)) xs))) =
   mset (job_lists (map snd xs)) + mset js"
proof (induction xs)
  case (Cons p xs)
  obtain r d where p: "p = (r, d)" by (cases p)
  show ?case
  proof (cases "r = a")
    case True
    then have "map (\<lambda>(r, d). if r = a then (r, d\<lparr>dr_jobs := dr_jobs d @ js\<rparr>) else (r, d)) xs = xs"
      using Cons.prems by (intro map_idI) (force simp: p)
    then show ?thesis using True by (simp add: p job_lists_def)
  next
    case False
    then have "a \<in> refs xs" using Cons.prems by (auto simp: p refs_def)
    then show ?thesis using False Cons by (simp add: p job_lists_def)
  qed
qed (simp add: refs_def)

lemma join_pair_refs: "refs (join_pair a b out) = refs out - {b}"
  by (force simp: join_pair_def refs_def split: if_splits)

lemma join_pair_ok:
  assumes ok: "slices_ok jobs ds out" and ab: "fst a = fst b" "a \<noteq> b" "a \<in> refs out"
  shows "slices_ok jobs ds (join_pair a b out)"
proof -
  let ?js = "concat (map (\<lambda>p. dr_jobs (snd p)) (filter (\<lambda>p. fst p = b) out))"
  let ?rest = "filter (\<lambda>p. fst p \<noteq> b) out"
  have dist: "distinct (map fst ?rest)" using ok by (simp add: slices_ok_def distinct_map_filter)
  have "a \<in> refs ?rest" using ab by (auto simp: refs_def)
  then have m: "mset (job_lists (map snd (join_pair a b out))) = mset (job_lists (map snd ?rest)) + mset ?js"
    unfolding join_pair_def by (rule mset_add_jobs[OF dist])
  have "mset (job_lists (map snd out)) = mset (job_lists (map snd ?rest)) + mset ?js"
    by (induction out) (auto simp: job_lists_def)
  then have sp: "splits_jobs (length jobs) (map snd (join_pair a b out))"
    using ok m by (simp add: slices_ok_def drafts_ok_def splits_jobs_def)
  have each: "place e = place (ds ! fst r) \<and> draft_ok jobs e" if e: "(r, e) \<in> set out" for r e
    using ok e by (force simp: slices_ok_def drafts_ok_def)
  have "place e = place (ds ! fst r) \<and> draft_ok jobs e" if e: "(r, e) \<in> set (join_pair a b out)" for r e
  proof -
    obtain d where d: "(r, d) \<in> set out" "e = (if r = a then d\<lparr>dr_jobs := dr_jobs d @ ?js\<rparr> else d)"
      using e by (auto simp: join_pair_def split: if_splits)
    have p: "place e = place d" by (simp add: d(2) place_def)
    have "fits jobs (place d) j" if j: "j \<in> set ?js" "r = a" for j
    proof -
      obtain d' where "(b, d') \<in> set out" "j \<in> set (dr_jobs d')" using j by auto
      then have "fits jobs (place d') j" "place d' = place d"
        using each[of b d'] each[OF d(1)] ab(1) j(2) by (auto simp: draft_ok_def)
      then show ?thesis by simp
    qed
    then have "\<forall>j \<in> set (dr_jobs e). fits jobs (place e) j" unfolding p
      using each[OF d(1)] d(2) by (auto simp: draft_ok_def simp del: set_concat split: if_splits)
    then show ?thesis using each[OF d(1)] p by (auto simp: d(2) draft_ok_def)
  qed
  then have "drafts_ok jobs (map snd (join_pair a b out)) \<and> (\<forall>(r, d) \<in> set (join_pair a b out). place d = place (ds ! fst r))"
    using sp by (fastforce simp: drafts_ok_def)
  moreover have "map fst (join_pair a b out) = map fst ?rest"
    by (auto simp: join_pair_def)
  ultimately show ?thesis using dist by (simp add: slices_ok_def)
qed

lemma lanes_acyclic_returns:
  "graph_ok (length jobs) g \<Longrightarrow> drafts_ok jobs ds \<Longrightarrow> lanes_acyclic g ds \<noteq> None"
  using sccs_returns laneEdges_spec(3) by (simp add: lanes_acyclic_def drafts_ok_def)

definition settled :: "job_graph \<Rightarrow> slices \<Rightarrow> bool" where
  "settled g out \<longleftrightarrow> sccs (fst (laneEdges g (map snd out))) = Some []"

lemma join_slices_ok:
  assumes "graph_ok (length jobs) g" "slices_ok jobs ds out"
    and "kept \<noteq> []" "distinct (kept @ rest)" "\<forall>r \<in> set (kept @ rest). fst r = i" "last kept \<in> refs out"
    and "set rest \<subseteq> refs out"
  shows "\<exists>kept' out'. join_slices g rest kept out = Some (kept', out') \<and> slices_ok jobs ds out' \<and>
    kept' \<noteq> [] \<and> refs out - set rest \<subseteq> refs out' \<and> (out' = out \<or> settled g out')"
  using assms(2-)
proof (induction rest arbitrary: kept out)
  case (Cons nxt rest)
  let ?trial = "join_pair (last kept) nxt out"
  have l: "last kept \<in> set kept" using Cons.prems by simp
  then have ne: "last kept \<noteq> nxt" using Cons.prems(3) by auto
  have same: "fst (last kept) = fst nxt" using l Cons.prems(4) by simp
  have ok: "slices_ok jobs ds ?trial" using Cons.prems(1) same ne Cons.prems(5) by (rule join_pair_ok)
  then have "drafts_ok jobs (map snd ?trial)" by (simp add: slices_ok_def)
  then obtain b where b: "lanes_acyclic g (map snd ?trial) = Some b" using lanes_acyclic_returns[OF assms(1)] by blast
  have nl: "last kept \<notin> set rest" using l Cons.prems(3) by auto
  show ?case
  proof (cases b)
    case True
    have s: "settled g ?trial" using b True by (auto simp: settled_def lanes_acyclic_def)
    have "\<exists>kept' out'. join_slices g rest kept ?trial = Some (kept', out') \<and> slices_ok jobs ds out' \<and>
        kept' \<noteq> [] \<and> refs ?trial - set rest \<subseteq> refs out' \<and> (out' = ?trial \<or> settled g out')"
      by (rule Cons.IH[OF ok]) (use Cons.prems ne in \<open>auto simp: join_pair_refs\<close>)
    then obtain kept' out' where j: "join_slices g rest kept ?trial = Some (kept', out')" "slices_ok jobs ds out'"
      "kept' \<noteq> []" "refs ?trial - set rest \<subseteq> refs out'" "out' = ?trial \<or> settled g out'" by blast
    have "join_slices g (nxt # rest) kept out = Some (kept', out')" using b True j(1) by simp
    moreover have "refs out - set (nxt # rest) \<subseteq> refs out'" using j(4) by (auto simp: join_pair_refs)
    ultimately show ?thesis using s j by blast
  next
    case False
    have "\<exists>kept' out'. join_slices g rest (kept @ [nxt]) out = Some (kept', out') \<and> slices_ok jobs ds out' \<and>
        kept' \<noteq> [] \<and> refs out - set rest \<subseteq> refs out' \<and> (out' = out \<or> settled g out')"
      by (rule Cons.IH[OF Cons.prems(1)]) (use Cons.prems in auto)
    then obtain kept' out' where j: "join_slices g rest (kept @ [nxt]) out = Some (kept', out')" "slices_ok jobs ds out'"
      "kept' \<noteq> []" "refs out - set rest \<subseteq> refs out'" "out' = out \<or> settled g out'" by blast
    have "join_slices g (nxt # rest) kept out = Some (kept', out')" using b False j(1) by simp
    moreover have "refs out - set (nxt # rest) \<subseteq> refs out'" using j(4) by auto
    ultimately show ?thesis using j by blast
  qed
qed simp

section \<open>Joining the slices of every cut lane\<close>

lemma lane_of_cong: "map dr_jobs ds = map dr_jobs ds' \<Longrightarrow> lane_of n ds = lane_of n ds'"
proof -
  assume eq: "map dr_jobs ds = map dr_jobs ds'"
  have "fold (\<lambda>(li, d). fold (\<lambda>j xs. xs[j := li]) (dr_jobs d)) (index_from k es) xs =
      fold (\<lambda>(li, js). fold (\<lambda>j xs. xs[j := li]) js) (index_from k (map dr_jobs es)) xs" for k xs and es :: "draft list"
    by (induction es arbitrary: k xs) auto
  then show ?thesis unfolding lane_of_def by (simp only: eq)
qed

lemma laneEdges_cong: "map dr_jobs ds = map dr_jobs ds' \<Longrightarrow> laneEdges g ds = laneEdges g ds'"
  using lane_of_cong[of ds ds'] map_eq_imp_length_eq[of dr_jobs ds dr_jobs ds'] by (simp add: laneEdges_def)

definition same_core :: "slices \<Rightarrow> slices \<Rightarrow> bool" where
  "same_core a b \<longleftrightarrow> map fst a = map fst b \<and> map (draft_core \<circ> snd) a = map (draft_core \<circ> snd) b"

lemma same_core_refl: "same_core a a" and same_core_trans: "same_core a b \<Longrightarrow> same_core b c \<Longrightarrow> same_core a c"
  by (simp_all add: same_core_def)

lemma set_draft_core: "(\<And>d. draft_core (f d) = draft_core d) \<Longrightarrow> same_core (set_draft r f out) out"
  by (induction out) (auto simp: set_draft_def same_core_def)

lemma number_parts_core: "same_core (number_parts kept out) out"
proof -
  have "same_core (fold (\<lambda>(k, r). set_draft r (\<lambda>d. d\<lparr>dr_part := Suc k\<rparr>)) ps out) out" for ps
  proof (induction ps arbitrary: out)
    case (Cons p ps)
    have "same_core (set_draft (snd p) (\<lambda>d. d\<lparr>dr_part := Suc (fst p)\<rparr>) out) out"
      by (rule set_draft_core) (simp add: draft_core_def place_def)
    from same_core_trans[OF Cons this] show ?case by (simp add: case_prod_beta)
  qed (simp add: same_core_refl)
  then show ?thesis by (simp add: number_parts_def)
qed

lemma same_core_facts:
  assumes "same_core a b"
  shows "refs a = refs b" "map dr_jobs (map snd a) = map dr_jobs (map snd b)"
    "slices_ok jobs ds a \<longleftrightarrow> slices_ok jobs ds b" "settled g a \<longleftrightarrow> settled g b"
proof -
  have f: "map fst a = map fst b" and c: "map draft_core (map snd a) = map draft_core (map snd b)"
    using assms by (auto simp: same_core_def)
  show "refs a = refs b" using arg_cong[OF f, of set] by (simp add: refs_def)
  show j: "map dr_jobs (map snd a) = map dr_jobs (map snd b)"
    using arg_cong[OF c, of "map snd"] by (simp add: draft_core_def comp_def)
  have "map (fst \<circ> draft_core \<circ> snd) a = map (fst \<circ> draft_core \<circ> snd) b"
    using arg_cong[OF c, of "map fst"] by (simp add: comp_assoc)
  then have "map (\<lambda>(r, d). (r, place d)) a = map (\<lambda>(r, d). (r, place d)) b"
    using f by (induction a b rule: list_induct2') (auto simp: draft_core_def)
  then have "set (map (\<lambda>(r, d). (r, place d)) a) = set (map (\<lambda>(r, d). (r, place d)) b)" by simp
  moreover have "(\<forall>(r, d) \<in> set xs. place d = place (ds ! fst r)) \<longleftrightarrow>
      (\<forall>(r, p) \<in> set (map (\<lambda>(r, d). (r, place d)) xs). p = place (ds ! fst r))" for xs :: slices by auto
  ultimately have "(\<forall>(r, d) \<in> set a. place d = place (ds ! fst r)) \<longleftrightarrow> (\<forall>(r, d) \<in> set b. place d = place (ds ! fst r))"
    by (simp only:)
  then show "slices_ok jobs ds a \<longleftrightarrow> slices_ok jobs ds b"
    using f drafts_ok_core[OF c] by (simp add: slices_ok_def)
  show "settled g a \<longleftrightarrow> settled g b" using laneEdges_cong[OF j] by (simp add: settled_def)
qed

definition split_ok :: "slice_ref set \<Rightarrow> slice_ref list \<Rightarrow> bool" where
  "split_ok rs l \<longleftrightarrow> l \<noteq> [] \<and> distinct l \<and> set l \<subseteq> rs \<and> (\<forall>r \<in> set l. fst r = fst (hd l))"

definition splits_ok :: "(string \<times> slice_ref list) list \<Rightarrow> slice_ref set \<Rightarrow> bool" where
  \<comment> \<open>the slices of every lane still to be joined are there, and no two of them cut the same lane\<close>
  "splits_ok splits rs \<longleftrightarrow> distinct (map (\<lambda>s. fst (hd (snd s))) splits) \<and>
     (\<forall>s \<in> set splits. split_ok rs (snd s))"

lemma join_splits_ok:
  assumes "graph_ok (length jobs) g" "slices_ok jobs ds out" "splits_ok splits (refs out)"
  shows "\<exists>out' ns'. join_splits g splits out ns = Some (out', ns') \<and> slices_ok jobs ds out' \<and>
    (same_core out' out \<or> settled g out')"
  using assms(2-)
proof (induction splits arbitrary: out ns)
  case (Cons s splits)
  obtain base l where s: "s = (base, l)" by (cases s)
  have l: "l \<noteq> []" "distinct l" "set l \<subseteq> refs out" "\<forall>r \<in> set l. fst r = fst (hd l)"
  proof -
    have "split_ok (refs out) l" using Cons.prems(2) by (simp add: s splits_ok_def)
    then show "l \<noteq> []" "distinct l" "set l \<subseteq> refs out" "\<forall>r \<in> set l. fst r = fst (hd l)"
      unfolding split_ok_def by blast+
  qed
  have hl: "hd l \<in> set l" "hd l \<notin> set (tl l)" "set (tl l) \<subseteq> set l" using l(1,2) by (cases l; auto)+
  have lane: "\<forall>r \<in> set ([hd l] @ tl l). fst r = fst (hd l)" using l(1,4) by (cases l) auto
  have "\<exists>kept' out'. join_slices g (tl l) [hd l] out = Some (kept', out') \<and> slices_ok jobs ds out' \<and>
    kept' \<noteq> [] \<and> refs out - set (tl l) \<subseteq> refs out' \<and> (out' = out \<or> settled g out')"
    by (rule join_slices_ok[OF assms(1) Cons.prems(1) _ _ lane])
       (use l(1-3) hl in \<open>auto simp: distinct_tl\<close>)
  then obtain kept out1 where j: "join_slices g (tl l) [hd l] out = Some (kept, out1)" "slices_ok jobs ds out1"
    "refs out - set (tl l) \<subseteq> refs out1" "out1 = out \<or> settled g out1" by blast
  define out2 where "out2 = (if length kept = 1 then set_draft (hd kept) (\<lambda>d. d\<lparr>dr_split_from := [], dr_part := 0\<rparr>) out1
               else number_parts kept out1)"
  define ns2 where "ns2 = (if length kept = 1 then ns else ns @ [\<lparr>sn_base = base, sn_parts = part_ids kept out2\<rparr>])"
  have step: "join_splits g (s # splits) out ns = join_splits g splits out2 ns2"
    using j(1) by (simp add: s out2_def ns2_def Let_def)
  have core: "same_core out2 out1"
    unfolding out2_def by (auto intro: set_draft_core number_parts_core simp: draft_core_def place_def)
  have "split_ok (refs out1) (snd s')" if s': "s' \<in> set splits" for s'
  proof -
    have p: "split_ok (refs out) (snd s')" "fst (hd (snd s')) \<noteq> fst (hd l)"
      using Cons.prems(2) s' by (force simp: s splits_ok_def)+
    then have "set (snd s') \<inter> set (tl l) = {}" using l(4) hl(3) unfolding split_ok_def by (metis disjoint_iff subsetD)
    then show ?thesis using j(3) p(1) unfolding split_ok_def by blast
  qed
  then have "splits_ok splits (refs out2)"
    using Cons.prems(2) by (simp add: same_core_facts(1)[OF core] s splits_ok_def)
  moreover have "slices_ok jobs ds out2" using j(2) same_core_facts(3)[OF core] by blast
  ultimately obtain out' ns' where r: "join_splits g splits out2 ns2 = Some (out', ns')"
    "slices_ok jobs ds out'" "same_core out' out2 \<or> settled g out'" using Cons.IH by blast
  have "same_core out' out \<or> settled g out'"
  proof (cases "out1 = out")
    case True
    then show ?thesis using r(3) core same_core_trans by blast
  next
    case False
    then have "settled g out2" using j(4) same_core_facts(4)[OF core] by blast
    then show ?thesis using r(3) same_core_facts(4) by blast
  qed
  then show ?case using r(1,2) step by auto
qed (simp add: same_core_refl)

lemma lane_splits_at:
  "(base, l) \<in> set (lane_splits g c ds) \<Longrightarrow>
   \<exists>i < length ds. i \<in> set c \<and> 2 \<le> length (draft_levels g (ds ! i)) \<and>
     l = map (\<lambda>k. (i, Suc k)) [0..<length (draft_levels g (ds ! i))]"
  by (auto simp: lane_splits_def in_indexed)

lemma refs_concat: "xs \<in> set xss \<Longrightarrow> refs xs \<subseteq> refs (concat xss)"
  by (auto simp: refs_def)

lemma lane_splits_ok: "splits_ok (lane_splits g c ds) (refs (concat (map (cut_lane g c) (indexed ds))))"
proof -
  let ?out = "concat (map (cut_lane g c) (indexed ds))"
  have hd_up: "hd (map f [0..<n]) = f 0" if "2 \<le> n" for f :: "nat \<Rightarrow> slice_ref" and n
    using that by (simp add: upt_rec)
  have "map (\<lambda>s. fst (hd (snd s))) (lane_splits g c ds) =
      map fst (filter (\<lambda>(i, d). i \<in> set c \<and> \<not> length (draft_levels g d) < 2) (indexed ds))"
    by (auto simp: lane_splits_def hd_up)
  moreover have "distinct (map fst (filter P (indexed ds)))" for P :: "nat \<times> draft \<Rightarrow> bool"
    by (rule distinct_map_filter) simp
  ultimately have d: "distinct (map (\<lambda>s. fst (hd (snd s))) (lane_splits g c ds))" by simp
  have "split_ok (refs ?out) l"
    if bl: "(base, l) \<in> set (lane_splits g c ds)" for base l
  proof -
    obtain i where i: "i < length ds" "i \<in> set c" "2 \<le> length (draft_levels g (ds ! i))"
      and l: "l = map (\<lambda>k. (i, Suc k)) [0..<length (draft_levels g (ds ! i))]" using lane_splits_at[OF bl] by blast
    have "map fst (cut_lane g c (i, ds ! i)) = l"
      using i cut_refs[of i _ 0] by (auto simp: cut_lane_def Let_def l)
    then have "set l = refs (cut_lane g c (i, ds ! i))" by (metis list.set_map refs_def)
    moreover have "cut_lane g c (i, ds ! i) \<in> set (map (cut_lane g c) (indexed ds))"
      using i(1) by (auto simp: in_indexed)
    ultimately have "set l \<subseteq> refs ?out" using refs_concat by metis
    moreover have "l \<noteq> []" "distinct l" using i(3) by (auto simp: l distinct_map inj_on_def)
    moreover have "fst r = i" if "r \<in> set l" for r using that by (auto simp: l)
    ultimately show ?thesis unfolding split_ok_def using list.set_sel(1) by metis
  qed
  then show ?thesis using d by (auto simp: splits_ok_def)
qed

lemma splitByLevel_ok:
  assumes "graph_ok (length jobs) g" "drafts_ok jobs ds"
  shows "splitByLevel g ds c = Some None \<and> lane_splits g c ds = [] \<or>
    (\<exists>ds' ns. splitByLevel g ds c = Some (Some (ds', ns)) \<and> drafts_ok jobs ds' \<and>
      (map dr_jobs ds' = map dr_jobs (map snd (concat (map (cut_lane g c) (indexed ds)))) \<or>
       sccs (fst (laneEdges g ds')) = Some []))"
proof (cases "lane_splits g c ds = []")
  case False
  obtain out ns where o: "join_splits g (lane_splits g c ds) (concat (map (cut_lane g c) (indexed ds))) [] = Some (out, ns)"
    "slices_ok jobs ds out" "same_core out (concat (map (cut_lane g c) (indexed ds))) \<or> settled g out"
    using join_splits_ok[OF assms(1) cut_lanes_ok[OF assms(2)] lane_splits_ok] by blast
  have "splitByLevel g ds c = Some (Some (map snd out, ns))" using False o(1) by (simp add: splitByLevel_def)
  moreover have "drafts_ok jobs (map snd out)" using o(2) by (simp add: slices_ok_def)
  ultimately show ?thesis using o(3) same_core_facts(2) by (auto simp: settled_def)
qed (simp add: splitByLevel_def)

section \<open>The repair\<close>

lemma repair_rounds_ok:
  assumes "graph_ok (length jobs) g" "drafts_ok jobs ds"
  shows "case repair_rounds n jobs g reject ds ns of
      Inl e \<Rightarrow> e \<noteq> LanesFuel \<and> ((\<exists>c. e = CycleRejected c) \<longrightarrow> reject)
    | Inr (ds', _) \<Rightarrow> drafts_ok jobs ds' \<and> sccs (fst (laneEdges g ds')) = Some []"
  using assms(2)
proof (induction n arbitrary: ds ns)
  case (Suc n)
  let ?adj = "fst (laneEdges g ds)"
  have sp: "splits_jobs (length jobs) ds" using Suc.prems by (simp add: drafts_ok_def)
  note l = laneEdges_spec[OF assms(1) sp]
  obtain comps where comps: "sccs ?adj = Some comps" using sccs_returns[OF l(3)] by blast
  show ?case
  proof (cases comps)
    case Nil
    then show ?thesis using comps Suc.prems by simp
  next
    case (Cons c cs)
    then have good: "good_comp ?adj c" using sccs_good[OF l(3) comps] by simp
    show ?thesis
    proof (cases "mergeAuto ds c")
      case (Some merged)
      then have "drafts_ok jobs merged" using mergeAuto_ok[OF Suc.prems good l(1)] by simp
      from Suc.IH[OF this, of ns] show ?thesis using comps Cons Some by simp
    next
      case None
      from splitByLevel_ok[OF assms(1) Suc.prems, of c] Suc.IH show ?thesis
        using comps Cons None by auto
    qed
  qed
qed simp

end
