(* ===== verification/Lane_Converge.thy ===== *)
theory Lane_Converge
  imports Lane_Split
begin

text \<open>
  Why \<open>repairCycles\<close> (\<open>internal/lanes/graph.go\<close>) ends within its rounds: a repaired component is a whole
  strongly connected component, so no cycle runs through it afterwards and none appears elsewhere. Each
  round leaves fewer jobs in lanes that are on a cycle, and there are no more of those than jobs.
\<close>

section \<open>Relabelling a component\<close>

definition quot :: "(nat \<times> nat) set \<Rightarrow> (nat \<Rightarrow> 'l) \<Rightarrow> ('l \<times> 'l) set" where
  "quot es f = {(f d, f j) | d j. (d, j) \<in> es \<and> f d \<noteq> f j}"

definition on_cycle :: "nat set \<Rightarrow> (nat \<times> nat) set \<Rightarrow> (nat \<Rightarrow> 'l) \<Rightarrow> nat set" where
  "on_cycle N es f = {j \<in> N. (f j, f j) \<in> (quot es f)\<^sup>+}"

definition sink :: "nat set \<Rightarrow> (nat \<times> nat) set \<Rightarrow> (nat \<Rightarrow> 'l) \<Rightarrow> nat set \<Rightarrow> nat set \<Rightarrow> bool" where
  \<comment> \<open>what leaves \<open>C\<close> goes to \<open>U\<close>, a set of whole classes of \<open>f\<close> that nothing leaves\<close>
  "sink N es f C U \<longleftrightarrow> U \<subseteq> N \<and> C \<subseteq> N \<and> C \<inter> U = {} \<and> es \<subseteq> N \<times> N \<and>
     (\<forall>(d, j) \<in> es. (d \<in> C \<longrightarrow> j \<in> C \<union> U) \<and> (d \<in> U \<longrightarrow> j \<in> U)) \<and>
     (\<forall>j \<in> U. \<forall>k \<in> N - C. f j = f k \<longrightarrow> k \<in> U)"

definition relabels :: "nat set \<Rightarrow> nat set \<Rightarrow> (nat \<Rightarrow> 'l) \<Rightarrow> (nat \<Rightarrow> 'm) \<Rightarrow> bool" where
  \<comment> \<open>\<open>h\<close> has the classes of \<open>f\<close> outside \<open>C\<close> and separates \<open>C\<close> from them\<close>
  "relabels N C f h \<longleftrightarrow> (\<forall>j \<in> N - C. \<forall>k \<in> N - C. h j = h k \<longleftrightarrow> f j = f k) \<and>
     (\<forall>j \<in> C. \<forall>k \<in> N - C. h j \<noteq> h k)"

lemma quotI: "(a, b) \<in> es \<Longrightarrow> h a = x \<Longrightarrow> h b = y \<Longrightarrow> x \<noteq> y \<Longrightarrow> (x, y) \<in> quot es h"
  by (auto simp: quot_def)

lemma relabels_same: "relabels N C f h \<Longrightarrow> j \<in> N - C \<Longrightarrow> k \<in> N - C \<Longrightarrow> h j = h k \<Longrightarrow> f j = f k"
  and relabels_apart: "relabels N C f h \<Longrightarrow> j \<in> N - C \<Longrightarrow> k \<in> N - C \<Longrightarrow> f j = f k \<Longrightarrow> h j = h k"
  and relabels_out: "relabels N C f h \<Longrightarrow> a \<in> N \<Longrightarrow> k \<in> N - C \<Longrightarrow> h a = h k \<Longrightarrow> a \<in> N - C"
  unfolding relabels_def by blast+

lemma stays_in_sink:
  assumes s: "sink N es f C U" and r: "relabels N C f h" and "(h d, h j) \<in> quot es h" "d \<in> C \<or> d \<in> U"
  shows "(h d, h j) \<in> quot (es \<inter> C \<times> C) h \<or> h j \<in> h ` U"
proof -
  obtain a b where ab: "h a = h d" "h b = h j" "(a, b) \<in> es" "h a \<noteq> h b" using assms(3) by (auto simp: quot_def)
  have N: "a \<in> N" "b \<in> N" "d \<in> N" using s ab(3) assms(4) by (auto simp: sink_def)
  show ?thesis
  proof (cases "d \<in> C")
    case True
    then have a: "a \<in> C" using relabels_out[OF r N(3), of a] N ab(1) by auto
    then have "b \<in> C \<or> b \<in> U" using s ab(3) by (auto simp: sink_def)
    then show ?thesis
    proof
      assume "b \<in> C"
      then show ?thesis using a ab quotI[of a b "es \<inter> C \<times> C" h] by auto
    next
      assume "b \<in> U"
      then show ?thesis using ab(2) by (metis imageI)
    qed
  next
    case False
    then have d: "d \<in> U" using assms(4) by simp
    then have a: "a \<in> N - C" using relabels_out[OF r N(1), of d] N ab(1) False by auto
    then have "f d = f a" using relabels_same[OF r, of d a] N ab(1) False by auto
    then have "a \<in> U" using s d a unfolding sink_def by blast
    then have "b \<in> U" using s ab(3) unfolding sink_def by blast
    then show ?thesis using ab(2) by (metis imageI)
  qed
qed

lemma cycle_stays_inside:
  assumes s: "sink N es f C U" and r: "relabels N C f h" and j: "j \<in> C" and "(h j, y) \<in> (quot es h)\<^sup>+"
  shows "(h j, y) \<in> (quot (es \<inter> C \<times> C) h)\<^sup>+ \<or> y \<in> h ` U"
  using assms(4)
proof (induction rule: trancl_induct)
  case (base y)
  then obtain k where "y = h k" by (auto simp: quot_def)
  then show ?case using stays_in_sink[OF s r, of j k] base j by auto
next
  case (step y z)
  obtain k where k: "z = h k" using step(2) by (auto simp: quot_def)
  from step.IH show ?case
  proof
    assume y: "(h j, y) \<in> (quot (es \<inter> C \<times> C) h)\<^sup>+"
    then obtain d where d: "d \<in> C" "y = h d" by (auto simp: quot_def elim: tranclE)
    then show ?thesis using stays_in_sink[OF s r, of d k] step(2) k y by (auto intro: trancl_into_trancl)
  next
    assume "y \<in> h ` U"
    then obtain u where u: "u \<in> U" "y = h u" by auto
    then have "(h u, h k) \<in> quot (es \<inter> C \<times> C) h \<or> h k \<in> h ` U" using stays_in_sink[OF s r, of u k] step(2) k by auto
    moreover have "(h u, h k) \<notin> quot (es \<inter> C \<times> C) h"
    proof
      assume "(h u, h k) \<in> quot (es \<inter> C \<times> C) h"
      then obtain d where "d \<in> C" "h d = h u" by (auto simp: quot_def)
      moreover have "u \<in> N - C" using s u(1) by (auto simp: sink_def)
      ultimately show False using r by (auto simp: relabels_def)
    qed
    ultimately show ?thesis using k by simp
  qed
qed

lemma no_cycle_inside:
  assumes s: "sink N es f C U" and r: "relabels N C f h" and "acyclic (quot (es \<inter> C \<times> C) h)" and j: "j \<in> C"
  shows "(h j, h j) \<notin> (quot es h)\<^sup>+"
proof
  assume "(h j, h j) \<in> (quot es h)\<^sup>+"
  then have "h j \<in> h ` U" using cycle_stays_inside[OF s r j] assms(3) by (auto simp: acyclic_def)
  then obtain u where "u \<in> N - C" "h j = h u" using s by (auto simp: sink_def)
  then show False using r j by (auto simp: relabels_def)
qed

lemma cycle_stays_outside:
  assumes s: "sink N es f C U" and r: "relabels N C f h" and ac: "acyclic (quot (es \<inter> C \<times> C) h)"
    and j: "j \<in> N - C" and path: "(h j, y) \<in> (quot es h)\<^sup>+"
  shows "(y, h j) \<in> (quot es h)\<^sup>* \<Longrightarrow> k \<in> N - C \<Longrightarrow> h k = y \<Longrightarrow> (f j, f k) \<in> (quot es f)\<^sup>+"
  using path
proof (induction arbitrary: k rule: trancl_induct)
  case (base y)
  obtain a b where ab: "h a = h j" "h b = y" "(a, b) \<in> es" "h a \<noteq> h b" using base(1) by (auto simp: quot_def)
  have N: "a \<in> N" "b \<in> N" using s ab(3) by (auto simp: sink_def)
  have a: "a \<in> N - C" and b: "b \<in> N - C"
    using relabels_out[OF r N(1) j ab(1)] relabels_out[OF r N(2) base(3)] ab(2) base(4) by auto
  have "f a = f j" using relabels_same[OF r a j ab(1)] .
  moreover have "f b = f k" using relabels_same[OF r b base(3)] ab(2) base(4) by simp
  moreover have "f a \<noteq> f b" using relabels_apart[OF r a b] ab(4) by blast
  ultimately show ?case using quotI[OF ab(3), of f] by auto
next
  case (step y z)
  obtain a b where ab: "h a = y" "h b = z" "(a, b) \<in> es" "h a \<noteq> h b" using step(2) by (auto simp: quot_def)
  have N: "a \<in> N" "b \<in> N" using s ab(3) by (auto simp: sink_def)
  have ret: "(y, h j) \<in> (quot es h)\<^sup>*" using step(2,4) by (rule converse_rtrancl_into_rtrancl)
  have "(y, y) \<in> (quot es h)\<^sup>+" using ret step(1) by simp
  then have a: "a \<in> N - C" using no_cycle_inside[OF s r ac, of a] ab(1) N(1) by auto
  have b: "b \<in> N - C" using relabels_out[OF r N(2) step(5)] ab(2) step(6) by simp
  have "(f j, f a) \<in> (quot es f)\<^sup>+" using step.IH[OF ret a ab(1)] .
  moreover have "f b = f k" using relabels_same[OF r b step(5)] ab(2) step(6) by simp
  moreover have "f a \<noteq> f b" using relabels_apart[OF r a b] ab(4) by blast
  ultimately have "(f j, f a) \<in> (quot es f)\<^sup>+" "(f a, f k) \<in> quot es f" using quotI[OF ab(3), of f] by auto
  then show ?case by (rule trancl_into_trancl)
qed

lemma on_cycle_shrinks:
  assumes s: "sink N es f C U" and r: "relabels N C f h" and ac: "acyclic (quot (es \<inter> C \<times> C) h)"
  shows "on_cycle N es h \<subseteq> on_cycle N es f - C"
proof
  fix j assume "j \<in> on_cycle N es h"
  then have j: "j \<in> N" "(h j, h j) \<in> (quot es h)\<^sup>+" by (auto simp: on_cycle_def)
  then have "j \<in> N - C" using no_cycle_inside[OF assms] by auto
  then show "j \<in> on_cycle N es f - C" using cycle_stays_outside[OF assms _ j(2)] by (auto simp: on_cycle_def)
qed

section \<open>The lanes of a job graph\<close>

definition job_edge_set :: "nat \<Rightarrow> job_graph \<Rightarrow> (nat \<times> nat) set" where
  "job_edge_set n g = {(d, j). j < n \<and> d \<in> set (jg_deps g ! j)}"

abbreviation lane_label :: "nat \<Rightarrow> draft list \<Rightarrow> nat \<Rightarrow> nat" where
  "lane_label n ds \<equiv> \<lambda>j. lane_of n ds ! j"

definition climbing :: "nat \<Rightarrow> job_graph \<Rightarrow> bool" where
  \<comment> \<open>a job is above what it waits for\<close>
  "climbing n g \<longleftrightarrow> (\<forall>(d, j) \<in> job_edge_set n g. jg_level g ! d < jg_level g ! j)"

lemma job_edge_set_below: "graph_ok n g \<Longrightarrow> job_edge_set n g \<subseteq> {..<n} \<times> {..<n}"
  by (auto simp: job_edge_set_def graph_ok_def)

lemma job_edges_set: "graph_ok n g \<Longrightarrow> set (job_edges g) = job_edge_set n g"
  by (auto simp: job_edge_set_def graph_ok_def in_job_edges)

lemma lane_edge_quot: "lane_edge (lane_of n ds) es a b \<longleftrightarrow> (a, b) \<in> quot (set es) (lane_label n ds)"
  unfolding lane_edge_def quot_def by force

lemma adj_edges_quot:
  assumes "graph_ok n g" "splits_jobs n ds"
  shows "adj_edges (fst (laneEdges g ds)) = quot (job_edge_set n g) (lane_label n ds)"
proof -
  note l = laneEdges_spec[OF assms]
  have "a < length ds" if ab: "(a, b) \<in> quot (job_edge_set n g) (lane_label n ds)" for a b
  proof -
    obtain d j where "(d, j) \<in> job_edge_set n g" "lane_of n ds ! d = a" using ab by (auto simp: quot_def)
    moreover from this have "d < n" using job_edge_set_below[OF assms(1)] by auto
    ultimately show ?thesis using draft_of_job[OF assms(2)] by auto
  qed
  then show ?thesis
    using l(1,2) by (simp add: adj_edges_def lane_edge_quot job_edges_set[OF assms(1)]) blast
qed

lemma same_lane_iff:
  assumes "splits_jobs n ds" "j < n" "k < n"
  shows "lane_of n ds ! j = lane_of n ds ! k \<longleftrightarrow> (\<exists>d \<in> set ds. j \<in> set (dr_jobs d) \<and> k \<in> set (dr_jobs d))"
proof -
  obtain a b where a: "a < length ds" "j \<in> set (dr_jobs (ds ! a))" "lane_of n ds ! j = a"
    and b: "b < length ds" "k \<in> set (dr_jobs (ds ! b))" "lane_of n ds ! k = b"
    using draft_of_job[OF assms(1,2)] draft_of_job[OF assms(1,3)] by blast
  have "a = b" if d: "d \<in> set ds" "j \<in> set (dr_jobs d)" "k \<in> set (dr_jobs d)" for d
  proof -
    obtain i where "i < length ds" "d = ds ! i" using d(1) by (auto simp: in_set_conv_nth)
    then show ?thesis using lane_of_draft[OF assms(1), of i] d(2,3) a(3) b(3) by auto
  qed
  moreover have "\<exists>d \<in> set ds. j \<in> set (dr_jobs d) \<and> k \<in> set (dr_jobs d)" if "a = b"
    using a(2) b(2) nth_mem[OF a(1)] that by blast
  ultimately show ?thesis unfolding a(3) b(3) by blast
qed

definition comp_jobs :: "nat \<Rightarrow> draft list \<Rightarrow> nat list \<Rightarrow> nat set" where
  "comp_jobs n ds c = {j. j < n \<and> lane_of n ds ! j \<in> set c}"

lemma comp_jobs_drafts:
  assumes "splits_jobs n ds" "set c \<subseteq> {..<length ds}"
  shows "comp_jobs n ds c = (\<Union>v \<in> set c. set (dr_jobs (ds ! v)))"
proof -
  have "j < n \<and> lane_of n ds ! j = v" if "v \<in> set c" "j \<in> set (dr_jobs (ds ! v))" for v j
  proof -
    have "v < length ds" using that(1) assms(2) by auto
    then show ?thesis using draft_jobs_below[OF assms(1) nth_mem] lane_of_draft[OF assms(1)] that(2) by blast
  qed
  moreover have "\<exists>v \<in> set c. j \<in> set (dr_jobs (ds ! v))" if "j < n" "lane_of n ds ! j \<in> set c" for j
    using draft_of_job[OF assms(1) that(1)] that(2) by auto
  ultimately show ?thesis unfolding comp_jobs_def by blast
qed

lemma repaired_relabels:
  assumes sp: "splits_jobs n ds" and sp': "splits_jobs n ds'" and c: "set c \<subseteq> {..<length ds}"
    and drafts: "\<forall>e \<in> set ds'. set (dr_jobs e) \<subseteq> comp_jobs n ds c \<or>
      (\<exists>v < length ds. v \<notin> set c \<and> set (dr_jobs e) = set (dr_jobs (ds ! v)))"
  shows "relabels {..<n} (comp_jobs n ds c) (lane_label n ds) (lane_label n ds')"
proof -
  have out: "\<exists>v < length ds. v \<notin> set c \<and> set (dr_jobs e) = set (dr_jobs (ds ! v)) \<and> (\<forall>j \<in> set (dr_jobs e). lane_of n ds ! j = v)"
    if e: "e \<in> set ds'" "k \<in> set (dr_jobs e)" "k \<notin> comp_jobs n ds c" for e k
    using drafts e lane_of_draft[OF sp] by (auto simp: subset_iff) metis+
  have "lane_of n ds' ! j = lane_of n ds' ! k \<longleftrightarrow> lane_of n ds ! j = lane_of n ds ! k"
    if jk: "j < n" "j \<notin> comp_jobs n ds c" "k < n" "k \<notin> comp_jobs n ds c" for j k
  proof
    assume "lane_of n ds' ! j = lane_of n ds' ! k"
    then obtain e where "e \<in> set ds'" "j \<in> set (dr_jobs e)" "k \<in> set (dr_jobs e)"
      using same_lane_iff[OF sp' jk(1,3)] by auto
    then show "lane_of n ds ! j = lane_of n ds ! k" using out jk(4) by metis
  next
    assume eq: "lane_of n ds ! j = lane_of n ds ! k"
    obtain i where i: "i < length ds'" "j \<in> set (dr_jobs (ds' ! i))" using draft_of_job[OF sp' jk(1)] by auto
    then obtain v where v: "v < length ds" "set (dr_jobs (ds' ! i)) = set (dr_jobs (ds ! v))" "lane_of n ds ! j = v"
      using out[of "ds' ! i" j] jk(2) by auto
    then have "k \<in> set (dr_jobs (ds ! v))" using draft_of_job[OF sp jk(3)] eq by auto
    then show "lane_of n ds' ! j = lane_of n ds' ! k"
      using same_lane_iff[OF sp' jk(1,3)] i v(2) nth_mem by blast
  qed
  moreover have "lane_of n ds' ! j \<noteq> lane_of n ds' ! k"
    if jk: "j \<in> comp_jobs n ds c" "k < n" "k \<notin> comp_jobs n ds c" for j k
  proof
    have j: "j < n" using jk(1) by (simp add: comp_jobs_def)
    assume "lane_of n ds' ! j = lane_of n ds' ! k"
    then obtain e where e: "e \<in> set ds'" "j \<in> set (dr_jobs e)" "k \<in> set (dr_jobs e)"
      using same_lane_iff[OF sp' j jk(2)] by auto
    then show False using out[OF e(1,3) jk(3)] jk(1) by (auto simp: comp_jobs_def)
  qed
  ultimately show ?thesis by (auto simp: relabels_def)
qed

lemma component_sink:
  assumes "graph_ok n g" "splits_jobs n ds" "good_comp (fst (laneEdges g ds)) c"
  shows "\<exists>U. sink {..<n} (job_edge_set n g) (lane_label n ds) (comp_jobs n ds c) U"
proof -
  let ?adj = "fst (laneEdges g ds)" and ?f = "lane_label n ds"
  obtain F where F: "set c \<inter> F = {}" "\<forall>x \<in> set c. set (?adj ! x) \<subseteq> set c \<union> F" "\<forall>x \<in> F. set (?adj ! x) \<subseteq> F"
    using assms(3) by (auto simp: good_comp_def)
  have edge: "?f d = ?f j \<or> ?f j \<in> set (?adj ! ?f d)" if "(d, j) \<in> job_edge_set n g" for d j
    using adj_edges_quot[OF assms(1,2)] quotI[OF that, of ?f] by (auto simp: adj_edges_def)
  have "j \<in> comp_jobs n ds c \<union> {j. j < n \<and> ?f j \<in> F}" if "(d, j) \<in> job_edge_set n g" "d \<in> comp_jobs n ds c" for d j
    using that edge[OF that(1)] F(2) job_edge_set_below[OF assms(1)] by (auto simp: comp_jobs_def)
  moreover have "j < n \<and> ?f j \<in> F" if "(d, j) \<in> job_edge_set n g" "?f d \<in> F" for d j
    using that edge[OF that(1)] F(3) job_edge_set_below[OF assms(1)] by auto
  ultimately have "sink {..<n} (job_edge_set n g) ?f (comp_jobs n ds c) {j. j < n \<and> ?f j \<in> F}"
    using F(1) job_edge_set_below[OF assms(1)] by (auto simp: sink_def comp_jobs_def)
  then show ?thesis by blast
qed

lemma component_on_cycle:
  assumes "graph_ok n g" "splits_jobs n ds" "\<forall>d \<in> set ds. dr_jobs d \<noteq> []" "good_comp (fst (laneEdges g ds)) c"
  shows "\<exists>j \<in> comp_jobs n ds c. j \<in> on_cycle {..<n} (job_edge_set n g) (lane_label n ds)"
proof -
  let ?E = "adj_edges (fst (laneEdges g ds))"
  note q = adj_edges_quot[OF assms(1,2)] and l = laneEdges_spec[OF assms(1,2)]
  have c: "set c \<noteq> {}" "set c \<subseteq> {..<length ds}" "\<forall>x \<in> set c. \<exists>y \<in> set c. (x, y) \<in> ?E"
    using assms(4) l(1) by (auto simp: good_comp_def adj_edges_def)
  have "\<exists>x. (x, x) \<in> (?E \<inter> set c \<times> set c)\<^sup>+"
  proof (rule ccontr)
    assume "\<nexists>x. (x, x) \<in> (?E \<inter> set c \<times> set c)\<^sup>+"
    then have "acyclic (?E \<inter> set c \<times> set c)" by (simp add: acyclic_def)
    moreover have "finite (?E \<inter> set c \<times> set c)" by simp
    ultimately have "wf ((?E \<inter> set c \<times> set c)\<inverse>)" using finite_acyclic_wf_converse by blast
    then obtain z where z: "z \<in> set c" "\<And>y. (y, z) \<in> (?E \<inter> set c \<times> set c)\<inverse> \<Longrightarrow> y \<notin> set c"
      using wf_eq_minimal[THEN iffD1, rule_format, of _ _ "set c"] c(1) by (metis ex_in_conv)
    then obtain y where "y \<in> set c" "(z, y) \<in> ?E" using c(3) by blast
    then show False using z by blast
  qed
  then obtain x where x: "(x, x) \<in> (?E \<inter> set c \<times> set c)\<^sup>+" by blast
  then have xc: "x \<in> set c" by (auto elim: tranclE)
  have "(x, x) \<in> ?E\<^sup>+" using x trancl_mono[of "(x, x)" "?E \<inter> set c \<times> set c" ?E] by blast
  moreover have "x < length ds" using xc c(2) by auto
  then have "dr_jobs (ds ! x) \<noteq> []" using assms(3) by simp
  then obtain j where j: "j \<in> set (dr_jobs (ds ! x))" by (cases "dr_jobs (ds ! x)") auto
  have "lane_of n ds ! j = x" "j < n"
    using lane_of_draft[OF assms(2) \<open>x < length ds\<close> j] draft_jobs_below[OF assms(2) nth_mem[OF \<open>x < length ds\<close>]] j by auto
  ultimately show ?thesis using q xc by (auto simp: on_cycle_def comp_jobs_def)
qed

section \<open>Every round leaves fewer jobs on a cycle\<close>

definition cycle_jobs :: "nat \<Rightarrow> job_graph \<Rightarrow> draft list \<Rightarrow> nat set" where
  "cycle_jobs n g ds = on_cycle {..<n} (job_edge_set n g) (lane_label n ds)"

lemma merged_drafts:
  assumes "splits_jobs n ds" "c \<noteq> []" "set c \<subseteq> {..<length ds}" "e \<in> set (merge_lanes ds c)"
  shows "set (dr_jobs e) = comp_jobs n ds c \<or> (\<exists>v < length ds. v \<notin> set c \<and> e = ds ! v)"
proof -
  let ?x = "(ds ! hd c)\<lparr>dr_jobs := sort (dr_jobs (ds ! hd c) @ concat (map (\<lambda>v. dr_jobs (ds ! v)) (tl c)))\<rparr>"
  have c: "set c = insert (hd c) (set (tl c))" using assms(2) by (cases c) auto
  obtain i where i: "i < length ds" "i \<notin> set (tl c)" "e = ds[hd c := ?x] ! i"
    using assms(4) by (auto simp: merge_lanes_def Let_def in_indexed)
  show ?thesis
  proof (cases "i = hd c")
    case True
    then have "e = ?x" using i(1,3) by simp
    then show ?thesis using comp_jobs_drafts[OF assms(1,3)] c by simp
  next
    case False
    then show ?thesis using i c by auto
  qed
qed

lemma shrinks:
  assumes "graph_ok n g" "splits_jobs n ds" "\<forall>d \<in> set ds. dr_jobs d \<noteq> []" "good_comp (fst (laneEdges g ds)) c"
    and "relabels {..<n} (comp_jobs n ds c) (lane_label n ds) (lane_label n ds')"
    and "acyclic (quot (job_edge_set n g \<inter> comp_jobs n ds c \<times> comp_jobs n ds c) (lane_label n ds'))"
  shows "card (cycle_jobs n g ds') < card (cycle_jobs n g ds)"
proof -
  obtain U where "sink {..<n} (job_edge_set n g) (lane_label n ds) (comp_jobs n ds c) U"
    using component_sink[OF assms(1,2,4)] by blast
  then have "cycle_jobs n g ds' \<subseteq> cycle_jobs n g ds - comp_jobs n ds c"
    using on_cycle_shrinks assms(5,6) unfolding cycle_jobs_def by blast
  moreover obtain j where "j \<in> comp_jobs n ds c" "j \<in> cycle_jobs n g ds"
    using component_on_cycle[OF assms(1-4)] by (auto simp: cycle_jobs_def)
  ultimately have "cycle_jobs n g ds' \<subset> cycle_jobs n g ds" by blast
  moreover have "finite (cycle_jobs n g ds)" by (simp add: cycle_jobs_def on_cycle_def)
  ultimately show ?thesis by (rule psubset_card_mono[rotated])
qed

lemma merge_shrinks:
  assumes "graph_ok n g" "splits_jobs n ds" "\<forall>d \<in> set ds. dr_jobs d \<noteq> []" "good_comp (fst (laneEdges g ds)) c"
    and "splits_jobs n ds'" "mergeAuto ds c = Some ds'"
  shows "card (cycle_jobs n g ds') < card (cycle_jobs n g ds)"
proof -
  have c: "c \<noteq> []" "set c \<subseteq> {..<length ds}"
    using assms(4) laneEdges_spec(1)[OF assms(1,2)] by (auto simp: good_comp_def)
  have core: "map draft_core ds' = map draft_core (merge_lanes ds c)"
    using mergeAuto_merge_lanes[OF assms(6)] renumberAuto_core by simp
  have "map dr_jobs ds' = map dr_jobs (merge_lanes ds c)"
    using arg_cong[OF core, of "map snd"] by (simp add: draft_core_def comp_def)
  then have js: "dr_jobs ` set ds' = dr_jobs ` set (merge_lanes ds c)"
    by (metis list.set_map)
  have d: "set (dr_jobs e) = comp_jobs n ds c \<or> (\<exists>v < length ds. v \<notin> set c \<and> set (dr_jobs e) = set (dr_jobs (ds ! v)))"
    if "e \<in> set ds'" for e
  proof -
    obtain e' where "e' \<in> set (merge_lanes ds c)" "dr_jobs e = dr_jobs e'"
      using imageI[of e "set ds'" dr_jobs, OF \<open>e \<in> set ds'\<close>] unfolding js by auto
    then show ?thesis using merged_drafts[OF assms(2) c, of e'] by metis
  qed
  have "lane_of n ds' ! j = lane_of n ds' ! k" if jk: "j \<in> comp_jobs n ds c" "k \<in> comp_jobs n ds c" for j k
  proof -
    have lt: "j < n" "k < n" using jk by (auto simp: comp_jobs_def)
    obtain i where i: "i < length ds'" "j \<in> set (dr_jobs (ds' ! i))" using draft_of_job[OF assms(5) lt(1)] by auto
    have "set (dr_jobs (ds' ! i)) = comp_jobs n ds c"
      using d[OF nth_mem[OF i(1)]] i(2) jk(1) lane_of_draft[OF assms(2), of _ j] by (auto simp: comp_jobs_def)
    then show ?thesis using same_lane_iff[OF assms(5) lt] i jk(2) nth_mem by blast
  qed
  then have "quot (job_edge_set n g \<inter> comp_jobs n ds c \<times> comp_jobs n ds c) (lane_label n ds') = {}"
    unfolding quot_def by blast
  then show ?thesis
    by (intro shrinks[OF assms(1-4)] repaired_relabels[OF assms(2,5) c(2)]) (use d in \<open>auto simp: acyclic_def\<close>)
qed

lemma climbing_acyclic:
  assumes "climbing n g" "\<And>j k. j \<in> C \<Longrightarrow> k \<in> C \<Longrightarrow> h j = h k \<Longrightarrow> jg_level g ! j = jg_level g ! k"
  shows "acyclic (quot (job_edge_set n g \<inter> C \<times> C) h)"
proof -
  have "\<forall>j \<in> C. \<forall>k \<in> C. h j = x \<longrightarrow> h k = y \<longrightarrow> jg_level g ! j < jg_level g ! k"
    if "(x, y) \<in> (quot (job_edge_set n g \<inter> C \<times> C) h)\<^sup>+" for x y
    using that
  proof (induction rule: trancl_induct)
    case (base y)
    then obtain a b where ab: "a \<in> C" "b \<in> C" "(a, b) \<in> job_edge_set n g" "h a = x" "h b = y" by (auto simp: quot_def)
    then have "jg_level g ! a < jg_level g ! b" using assms(1) by (auto simp: climbing_def)
    then show ?case using assms(2) ab by metis
  next
    case (step y z)
    then obtain a b where ab: "a \<in> C" "b \<in> C" "(a, b) \<in> job_edge_set n g" "h a = y" "h b = z" by (auto simp: quot_def)
    then have "jg_level g ! a < jg_level g ! b" using assms(1) by (auto simp: climbing_def)
    then show ?case using assms(2) ab step.IH by (metis order_less_trans)
  qed
  moreover have "\<exists>j \<in> C. h j = x" if "(x, y) \<in> (quot (job_edge_set n g \<inter> C \<times> C) h)\<^sup>+" for x y
    using tranclD[OF that] by (auto simp: quot_def)
  ultimately show ?thesis unfolding acyclic_def by (metis less_irrefl)
qed

lemma one_level:
  "length (draft_levels g d) < 2 \<Longrightarrow> j \<in> set (dr_jobs d) \<Longrightarrow> k \<in> set (dr_jobs d) \<Longrightarrow> jg_level g ! j = jg_level g ! k"
proof -
  assume s: "length (draft_levels g d) < 2" and j: "j \<in> set (dr_jobs d)" "k \<in> set (dr_jobs d)"
  have "card (set (draft_levels g d)) < 2" using s card_length[of "draft_levels g d"] by linarith
  then have "card ((\<lambda>j. jg_level g ! j) ` set (dr_jobs d)) \<le> Suc 0" unfolding draft_levels_set by linarith
  then have "\<forall>x \<in> (\<lambda>j. jg_level g ! j) ` set (dr_jobs d). \<forall>y \<in> (\<lambda>j. jg_level g ! j) ` set (dr_jobs d). x = y"
    using card_le_Suc0_iff_eq[of "(\<lambda>j. jg_level g ! j) ` set (dr_jobs d)"] by blast
  then show ?thesis using j by blast
qed

lemma cut_lane_cases:
  assumes "(r, e) \<in> set (cut_lane g c (i, d))"
  shows "i \<notin> set c \<and> e = d \<or> i \<in> set c \<and> set (dr_jobs e) \<subseteq> set (dr_jobs d) \<and>
    (\<forall>j \<in> set (dr_jobs e). \<forall>k \<in> set (dr_jobs e). jg_level g ! j = jg_level g ! k)"
proof (cases "i \<notin> set c \<or> length (draft_levels g d) < 2")
  case True
  then have "e = d" using assms by (auto simp: cut_lane_def)
  then show ?thesis using True one_level by blast
qed (use assms in \<open>auto simp: cut_lane_def\<close>)

lemma split_shrinks:
  assumes "graph_ok n g" "splits_jobs n ds" "\<forall>d \<in> set ds. dr_jobs d \<noteq> []" "good_comp (fst (laneEdges g ds)) c"
    and "splits_jobs n ds'" "climbing n g"
    and js: "map dr_jobs ds' = map dr_jobs (map snd (concat (map (cut_lane g c) (indexed ds))))"
  shows "card (cycle_jobs n g ds') < card (cycle_jobs n g ds)"
proof -
  have c: "set c \<subseteq> {..<length ds}"
    using assms(4) laneEdges_spec(1)[OF assms(1,2)] by (auto simp: good_comp_def)
  have d: "(\<exists>v < length ds. v \<notin> set c \<and> set (dr_jobs e) = set (dr_jobs (ds ! v))) \<or>
      set (dr_jobs e) \<subseteq> comp_jobs n ds c \<and> (\<forall>j \<in> set (dr_jobs e). \<forall>k \<in> set (dr_jobs e). jg_level g ! j = jg_level g ! k)"
    if e: "e \<in> set ds'" for e
  proof -
    have "dr_jobs e \<in> set (map dr_jobs (map snd (concat (map (cut_lane g c) (indexed ds)))))" using e js by (metis image_eqI list.set_map)
    then obtain r e' i where "i < length ds" "(r, e') \<in> set (cut_lane g c (i, ds ! i))" "dr_jobs e = dr_jobs e'"
      by (auto simp: in_indexed)
    then show ?thesis using cut_lane_cases[of r e' g c i "ds ! i"] comp_jobs_drafts[OF assms(2) c] by auto
  qed
  have "jg_level g ! j = jg_level g ! k"
    if jk: "j \<in> comp_jobs n ds c" "k \<in> comp_jobs n ds c" "lane_of n ds' ! j = lane_of n ds' ! k" for j k
  proof -
    have lt: "j < n" "k < n" using jk by (auto simp: comp_jobs_def)
    obtain e where e: "e \<in> set ds'" "j \<in> set (dr_jobs e)" "k \<in> set (dr_jobs e)"
      using jk(3) same_lane_iff[OF assms(5) lt] by auto
    have "v \<in> set c" if "v < length ds" "j \<in> set (dr_jobs (ds ! v))" for v
      using lane_of_draft[OF assms(2) that] jk(1) by (simp add: comp_jobs_def)
    then show ?thesis using d[OF e(1)] e(2,3) by auto
  qed
  from climbing_acyclic[OF assms(6) this]
  show ?thesis by (intro shrinks[OF assms(1-4)] repaired_relabels[OF assms(2,5) c]) (use d in blast)+
qed

lemma something_to_split:
  assumes "graph_ok n g" "splits_jobs n ds" "\<forall>d \<in> set ds. dr_jobs d \<noteq> []" "good_comp (fst (laneEdges g ds)) c" "climbing n g"
  shows "lane_splits g c ds \<noteq> []"
proof
  assume none: "lane_splits g c ds = []"
  have c: "set c \<subseteq> {..<length ds}"
    using assms(4) laneEdges_spec(1)[OF assms(1,2)] by (auto simp: good_comp_def)
  have single: "length (draft_levels g (ds ! v)) < 2" if "v \<in> set c" for v
    using none that c by (force simp: lane_splits_def filter_empty_conv in_indexed)
  have "jg_level g ! j = jg_level g ! k"
    if jk: "j \<in> comp_jobs n ds c" "k \<in> comp_jobs n ds c" "lane_of n ds ! j = lane_of n ds ! k" for j k
  proof -
    have lt: "j < n" "k < n" using jk by (auto simp: comp_jobs_def)
    then have "j \<in> set (dr_jobs (ds ! (lane_of n ds ! j)))" "k \<in> set (dr_jobs (ds ! (lane_of n ds ! j)))"
      using draft_of_job[OF assms(2) lt(1)] draft_of_job[OF assms(2) lt(2)] jk(3) by auto
    moreover have "length (draft_levels g (ds ! (lane_of n ds ! j))) < 2" using single jk(1) by (simp add: comp_jobs_def)
    ultimately show ?thesis using one_level by blast
  qed
  from climbing_acyclic[OF assms(5) this]
  have ac: "acyclic (quot (job_edge_set n g \<inter> comp_jobs n ds c \<times> comp_jobs n ds c) (lane_label n ds))" .
  obtain U where s: "sink {..<n} (job_edge_set n g) (lane_label n ds) (comp_jobs n ds c) U"
    using component_sink[OF assms(1,2,4)] by blast
  have "relabels {..<n} (comp_jobs n ds c) (lane_label n ds) (lane_label n ds)"
    by (auto simp: relabels_def comp_jobs_def)
  then show False using no_cycle_inside[OF s _ ac] component_on_cycle[OF assms(1-4)] by (auto simp: on_cycle_def)
qed

theorem repair_rounds_succeed:
  assumes "graph_ok (length jobs) g" "climbing (length jobs) g"
  shows "drafts_ok jobs ds \<Longrightarrow> card (cycle_jobs (length jobs) g ds) < n \<Longrightarrow>
    \<exists>r. repair_rounds n jobs g False ds ns = Inr r"
proof (induction n arbitrary: ds ns)
  case (Suc n)
  let ?adj = "fst (laneEdges g ds)"
  have sp: "splits_jobs (length jobs) ds" and ne: "\<forall>d \<in> set ds. dr_jobs d \<noteq> []"
    using Suc.prems(1) by (auto simp: drafts_ok_def draft_ok_def)
  note l = laneEdges_spec[OF assms(1) sp]
  obtain comps where comps: "sccs ?adj = Some comps" using sccs_returns[OF l(3)] by blast
  show ?case
  proof (cases comps)
    case Nil
    then show ?thesis using comps by simp
  next
    case (Cons c cs)
    then have good: "good_comp ?adj c" using sccs_good[OF l(3) comps] by simp
    show ?thesis
    proof (cases "mergeAuto ds c")
      case (Some merged)
      then have ok: "drafts_ok jobs merged" using mergeAuto_ok[OF Suc.prems(1) good l(1)] by simp
      then have "card (cycle_jobs (length jobs) g merged) < card (cycle_jobs (length jobs) g ds)"
        using merge_shrinks[OF assms(1) sp ne good _ Some] by (simp add: drafts_ok_def)
      then show ?thesis using Suc.IH[OF ok, of ns] Suc.prems(2) comps Cons Some by simp
    next
      case None
      obtain ds' s where s: "splitByLevel g ds c = Some (Some (ds', s))" "drafts_ok jobs ds'"
        "map dr_jobs ds' = map dr_jobs (map snd (concat (map (cut_lane g c) (indexed ds)))) \<or>
         sccs (fst (laneEdges g ds')) = Some []"
        using splitByLevel_ok[OF assms(1) Suc.prems(1), of c] something_to_split[OF assms(1) sp ne good assms(2)] by blast
      have sp': "splits_jobs (length jobs) ds'" using s(2) by (simp add: drafts_ok_def)
      have "\<exists>j. j \<in> cycle_jobs (length jobs) g ds"
        using component_on_cycle[OF assms(1) sp ne good] by (auto simp: cycle_jobs_def)
      moreover have "finite (cycle_jobs (length jobs) g ds)" by (simp add: cycle_jobs_def on_cycle_def)
      ultimately have pos: "0 < card (cycle_jobs (length jobs) g ds)" by (auto simp: card_gt_0_iff)
      have "card (cycle_jobs (length jobs) g ds') < card (cycle_jobs (length jobs) g ds)" using s(3)
      proof
        assume "sccs (fst (laneEdges g ds')) = Some []"
        then have "acyclic (quot (job_edge_set (length jobs) g) (lane_label (length jobs) ds'))"
          using no_sccs_acyclic[OF laneEdges_spec(3)[OF assms(1) sp']] adj_edges_quot[OF assms(1) sp'] by simp
        then have "cycle_jobs (length jobs) g ds' = {}" by (auto simp: cycle_jobs_def on_cycle_def acyclic_def)
        then show ?thesis using pos by simp
      qed (rule split_shrinks[OF assms(1) sp ne good sp' assms(2)])
      then show ?thesis using Suc.IH[OF s(2)] Suc.prems(2) comps Cons None s(1) by simp
    qed
  qed
qed simp

end
