(* ===== verification/Go_Float.thy ===== *)
theory Go_Float
  imports Complex_Main
begin

text \<open>
  Go's \<open>float64\<close> arithmetic on the numbers that the modelled code computes with: \<open>f64\<close> is the rounding of an
  exact rational to the nearest double (ties to even), which each operation applies to its exact result. The
  numbers are neither negative, subnormal nor too large, so no other case of IEEE 754 arises.
\<close>

function bit_count :: "int \<Rightarrow> int" where
  \<comment> \<open>the number of binary digits of a positive integer\<close>
  "bit_count n = (if n \<le> 0 then 0 else bit_count (n div 2) + 1)"
  by pat_completeness auto

termination
  by (relation "measure nat") auto

declare bit_count.simps [simp del]

definition exponent :: "rat \<Rightarrow> int" where
  \<comment> \<open>\<open>e\<close> with \<open>2\<^sup>e \<le> x < 2\<^sup>e\<^sup>+\<^sup>1\<close>\<close>
  "exponent x =
     (let (p, q) = quotient_of x;
          e = bit_count p - bit_count q
      in if 2 powi e \<le> x then e else e - 1)"

definition round_even :: "rat \<Rightarrow> int" where
  "round_even x =
     (let n = \<lfloor>x\<rfloor>; r = x - of_int n
      in if r < 1/2 \<or> r = 1/2 \<and> even n then n else n + 1)"

definition f64 :: "rat \<Rightarrow> rat" where
  "f64 x = (if x = 0 then 0 else let s = 2 powi (52 - exponent x) in of_int (round_even (x * s)) / s)"

end
