(* ===== verification/Lane_Alloc.thy ===== *)
theory Lane_Alloc
  imports Lane_Converge Go_Float
begin

text \<open>
  \<open>allocateLanes\<close> (\<open>internal/lanes/auto.go\<close>): how auto mode shares its lane budget between the partitions.
  The shares are computed in \<open>float64\<close>, by the rounding \<open>f64\<close>.
\<close>

section \<open>Sharing the budget\<close>

definition share :: "int \<Rightarrow> int \<Rightarrow> int \<Rightarrow> rat" where
  \<comment> \<open>\<open>exact\<close>, three roundings after the two conversions\<close>
  "share budget tot n = f64 (f64 (f64 (of_int budget) * f64 (of_int n)) / f64 (of_int tot))"

definition first_share :: "int \<Rightarrow> int \<Rightarrow> int \<Rightarrow> int" where
  "first_share budget tot n =
     (let a = \<lfloor>share budget tot n\<rfloor>; a = (if a < 1 then 1 else a)
      in if a > n then n else a)"

fun alloc_pass :: "int \<Rightarrow> int list \<Rightarrow> nat list \<Rightarrow> int list \<times> int \<times> bool \<Rightarrow> int list \<times> int \<times> bool" where
  \<comment> \<open>\<open>for _, r := range rems\<close>, with the break once the budget is used\<close>
  "alloc_pass budget sizes [] st = st"
| "alloc_pass budget sizes (k # ks) (alloc, used, progressed) =
     (if used \<ge> budget then (alloc, used, progressed)
      else if alloc ! k < sizes ! k
           then alloc_pass budget sizes ks (alloc[k := alloc ! k + 1], used + 1, True)
           else alloc_pass budget sizes ks (alloc, used, progressed))"

lemma alloc_pass_used:
  "alloc_pass budget sizes ks (alloc, used, progressed) = (alloc', used', progressed') \<Longrightarrow>
   used \<le> used' \<and> (progressed' \<and> \<not> progressed \<longrightarrow> used < used')"
  by (induction budget sizes ks "(alloc, used, progressed)" arbitrary: alloc used progressed rule: alloc_pass.induct)
     (fastforce split: if_splits)+

function alloc_rounds :: "int \<Rightarrow> int list \<Rightarrow> nat list \<Rightarrow> int list \<times> int \<Rightarrow> int list \<times> int" where
  "alloc_rounds budget sizes ks (alloc, used) =
     (if used < budget
      then case alloc_pass budget sizes ks (alloc, used, False) of
             (alloc', used', progressed) \<Rightarrow>
               if progressed then alloc_rounds budget sizes ks (alloc', used') else (alloc', used')
      else (alloc, used))"
  by pat_completeness auto

termination
  by (relation "measure (\<lambda>(budget, _, _, _, used). nat (budget - used))") (auto dest!: alloc_pass_used[OF sym])

declare alloc_rounds.simps [simp del]

definition rems :: "int \<Rightarrow> int \<Rightarrow> int list \<Rightarrow> nat list" where
  \<comment> \<open>the partitions by decreasing fraction, stably\<close>
  "rems tot budget sizes =
     map fst (sort_key (\<lambda>p. - snd p)
       (map (\<lambda>(k, n). let exact = share budget tot n in (k, exact - of_int \<lfloor>exact\<rfloor>)) (indexed sizes)))"

definition allocateLanes :: "int \<Rightarrow> int \<Rightarrow> int list \<Rightarrow> int list" where
  "allocateLanes tot budget sizes =
     (let budget = (if budget < int (length sizes) then int (length sizes) else budget);
          alloc = map (first_share budget tot) sizes
      in fst (alloc_rounds budget sizes (rems tot budget sizes) (alloc, sum_list alloc)))"

section \<open>Bounds\<close>

definition shares_ok :: "int list \<Rightarrow> int list \<Rightarrow> bool" where
  \<comment> \<open>at least one lane each, at most the size\<close>
  "shares_ok sizes alloc \<longleftrightarrow> length alloc = length sizes \<and> (\<forall>k < length sizes. 1 \<le> alloc ! k \<and> alloc ! k \<le> sizes ! k)"

lemma sum_list_update_int: "k < length xs \<Longrightarrow> sum_list (xs[k := v]) = sum_list xs + v - (xs ! k :: int)"
  by (induction xs arbitrary: k) (auto split: nat.splits)

lemma alloc_pass_ok:
  "\<lbrakk>alloc_pass budget sizes ks (alloc, used, progressed) = (alloc', used', progressed'); set ks \<subseteq> {..<length sizes};
    shares_ok sizes alloc; used = sum_list alloc\<rbrakk> \<Longrightarrow>
   shares_ok sizes alloc' \<and> used' = sum_list alloc' \<and> used' \<le> max used budget \<and>
   (\<not> progressed' \<longrightarrow> alloc' = alloc \<and> (used < budget \<longrightarrow> (\<forall>k \<in> set ks. alloc ! k = sizes ! k)))"
proof (induction budget sizes ks "(alloc, used, progressed)" arbitrary: alloc used progressed rule: alloc_pass.induct)
  case (2 budget sizes k ks alloc used progressed)
  have k: "k < length sizes" "k < length alloc" using 2(4,5) by (auto simp: shares_ok_def)
  show ?case
  proof (cases "used \<ge> budget")
    case False
    note nb = False
    show ?thesis
    proof (cases "alloc ! k < sizes ! k")
      case True
      have w: "shares_ok sizes (alloc[k := alloc ! k + 1])" using 2(5) True k by (auto simp: shares_ok_def nth_list_update)
      have s: "used + 1 = sum_list (alloc[k := alloc ! k + 1])" using 2(6) sum_list_update_int[OF k(2)] by simp
      have r: "alloc_pass budget sizes ks (alloc[k := alloc ! k + 1], used + 1, True) = (alloc', used', progressed')"
        using 2(3) True nb by simp
      have p: "progressed'"
      proof -
        have "alloc_pass b z ks (a, u, True) = (a', u', p') \<Longrightarrow> p'" for b z a u a' u' p'
          by (induction b z ks "(a, u, True)" arbitrary: a u rule: alloc_pass.induct) (auto split: if_splits)
        then show ?thesis using r by blast
      qed
      from 2(1)[OF nb True r _ w s] 2(4) nb p show ?thesis by auto
    next
      case False
      then have "alloc_pass budget sizes ks (alloc, used, progressed) = (alloc', used', progressed')" using 2(3) nb by simp
      from 2(2)[OF nb False this _ 2(5,6)] 2(4) False 2(5) k(1) show ?thesis by (auto simp: shares_ok_def)
    qed
  next
    case True
    then show ?thesis using 2(3,5,6) by auto
  qed
qed simp

lemma alloc_rounds_ok:
  "\<lbrakk>alloc_rounds budget sizes ks (alloc, used) = (alloc', used'); set ks = {..<length sizes};
    shares_ok sizes alloc; used = sum_list alloc\<rbrakk> \<Longrightarrow>
   shares_ok sizes alloc' \<and> used' = sum_list alloc' \<and> used' \<le> max used budget \<and> (budget \<le> used' \<or> alloc' = sizes)"
proof (induction budget sizes ks "(alloc, used)" arbitrary: alloc used rule: alloc_rounds.induct)
  case (1 budget sizes ks alloc used)
  show ?case
  proof (cases "used < budget")
    case True
    obtain a u p where p: "alloc_pass budget sizes ks (alloc, used, False) = (a, u, p)" using prod_cases3 by blast
    have ok: "shares_ok sizes a \<and> u = sum_list a \<and> u \<le> max used budget \<and>
        (\<not> p \<longrightarrow> a = alloc \<and> (used < budget \<longrightarrow> (\<forall>k \<in> set ks. alloc ! k = sizes ! k)))"
      using alloc_pass_ok[OF p _ 1(4,5)] 1(3) by simp
    show ?thesis
    proof (cases p)
      case t: True
      have "alloc_rounds budget sizes ks (a, u) = (alloc', used')"
        using 1(2) True p t by (simp add: alloc_rounds.simps[of budget sizes ks alloc used])
      from 1(1)[OF True p[symmetric] refl t this 1(3)] ok True show ?thesis by auto
    next
      case False
      then have eq: "alloc' = a" "used' = u"
        using 1(2) True p by (auto simp: alloc_rounds.simps[of budget sizes ks alloc used])
      have "alloc = sizes" using ok False True 1(3,4) by (auto simp: shares_ok_def intro!: nth_equalityI)
      then show ?thesis using ok eq False by auto
    qed
  next
    case False
    then have eq: "alloc' = alloc" "used' = used" using 1(2) by (auto simp: alloc_rounds.simps[of budget sizes ks alloc used])
    then show ?thesis using 1(4,5) False by auto
  qed
qed

lemma rems_set: "set (rems tot budget sizes) = {..<length sizes}"
proof -
  have "set (rems tot budget sizes) = fst ` set (indexed sizes)"
    by (auto simp: rems_def image_iff Let_def case_prod_beta Bex_def)
  also have "\<dots> = set [0..<length sizes]" by (metis list.set_map map_fst_index_from add_0)
  finally show ?thesis by (simp add: atLeast0LessThan)
qed

lemma allocateLanes_within:
  assumes "\<forall>n \<in> set sizes. 1 \<le> n"
  shows "shares_ok sizes (allocateLanes tot budget sizes) \<and>
    min (max budget (int (length sizes))) (sum_list sizes) \<le> sum_list (allocateLanes tot budget sizes)"
proof -
  let ?b = "if budget < int (length sizes) then int (length sizes) else budget"
  let ?a = "map (first_share ?b tot) sizes"
  obtain alloc used where r: "alloc_rounds ?b sizes (rems tot ?b sizes) (?a, sum_list ?a) = (alloc, used)" by force
  have "shares_ok sizes ?a" using assms by (auto simp: shares_ok_def first_share_def Let_def)
  note ok = alloc_rounds_ok[OF r rems_set this refl]
  have "allocateLanes tot budget sizes = alloc" using r by (simp add: allocateLanes_def Let_def)
  moreover have "?b = max budget (int (length sizes))" by simp
  ultimately show ?thesis using ok by (auto simp: min_le_iff_disj)
qed

text \<open>The lanes a partition is owed as a minimum can exceed the budget.\<close>

lemma first_share_7_1: "first_share 4 9 7 = 3" "first_share 4 9 1 = 1"
  by code_simp+

lemma allocation_over_budget: "allocateLanes 9 4 [7, 1, 1] = [3, 1, 1]"
  by (simp add: allocateLanes_def first_share_7_1 alloc_rounds.simps)

end
