(* ===== verification/Lane_Pack.thy ===== *)
theory Lane_Pack
  imports Lane_Alloc "HOL-Library.Product_Lexorder"
begin

text \<open>
  \<open>packPartition\<close> (\<open>internal/lanes/auto.go\<close>): the jobs of a partition are clustered by a union-find over
  their enforced edges, the clusters are cut into slices within a lane's share, and the slices are
  packed longest first into the least loaded lane. The union-find computes the connected components,
  every job lands in one bin, a cluster within the share stays whole, and the loads of two lanes differ
  by at most one slice.
\<close>

section \<open>Union-find\<close>

text \<open>The map \<open>parent\<close> is a function; a key that was never set reads 0.\<close>

type_synonym forest = "nat \<Rightarrow> nat"

fun find_root :: "nat \<Rightarrow> forest \<Rightarrow> nat \<Rightarrow> (nat \<times> forest) option" where
  \<comment> \<open>the closure \<open>find\<close>, which halves the path it walks\<close>
  "find_root 0 p x = None"
| "find_root (Suc n) p x =
     (if p x \<noteq> x then let p = p(x := p (p x)) in find_root n p (p x) else Some (x, p))"

definition unite :: "nat \<times> nat \<Rightarrow> forest \<Rightarrow> forest option" where
  "unite e p =
     (case find_root (Suc (fst e)) p (fst e) of
        None \<Rightarrow> None
      | Some (a, p) \<Rightarrow>
          (case find_root (Suc (snd e)) p (snd e) of
             None \<Rightarrow> None
           | Some (b, p) \<Rightarrow> Some (if a = b then p else if a < b then p(b := a) else p(a := b))))"

fun unite_all :: "(nat \<times> nat) list \<Rightarrow> forest \<Rightarrow> forest option" where
  "unite_all [] p = Some p"
| "unite_all (e # es) p = (case unite e p of None \<Rightarrow> None | Some p \<Rightarrow> unite_all es p)"

definition inner_edges :: "job_graph \<Rightarrow> nat list \<Rightarrow> (nat \<times> nat) list" where
  \<comment> \<open>\<open>(j, d)\<close> in the order of the two loops\<close>
  "inner_edges g jobs = concat (map (\<lambda>j. map (\<lambda>d. (j, d)) (filter (\<lambda>d. d \<in> set jobs) (jg_deps g ! j))) jobs)"

fun group_jobs :: "nat list \<Rightarrow> forest \<Rightarrow> (nat, nat list) gmap_of \<Rightarrow> (nat, nat list) gmap_of option" where
  \<comment> \<open>\<open>clusters\<close>, its keys in the order of \<open>roots\<close>\<close>
  "group_jobs [] p cs = Some cs"
| "group_jobs (j # js) p cs =
     (case find_root (Suc j) p j of None \<Rightarrow> None | Some (r, p) \<Rightarrow> group_jobs js p (gm_push r j cs))"

definition clusters :: "job_graph \<Rightarrow> nat list \<Rightarrow> (nat, nat list) gmap_of option" where
  "clusters g jobs =
     (case unite_all (inner_edges g jobs) (\<lambda>x. if x \<in> set jobs then x else 0) of
        None \<Rightarrow> None
      | Some p \<Rightarrow> group_jobs jobs p [])"

section \<open>Slices\<close>

definition job_sum :: "job_graph \<Rightarrow> nat list \<Rightarrow> int" where
  \<comment> \<open>\<open>sum\<close>\<close>
  "job_sum g jobs = sum_list (map (\<lambda>j. jg_weight g ! j) jobs)"

fun longest :: "nat \<Rightarrow> job_graph \<Rightarrow> nat list \<Rightarrow> nat \<Rightarrow> (nat, int) gmap_of \<Rightarrow> (int \<times> (nat, int) gmap_of) option"
  and longest_deps :: "nat \<Rightarrow> job_graph \<Rightarrow> nat list \<Rightarrow> nat list \<Rightarrow> int \<Rightarrow> (nat, int) gmap_of \<Rightarrow>
      (int \<times> (nat, int) gmap_of) option"
where
  "longest 0 g jobs j memo = None"
| "longest (Suc n) g jobs j memo =
     (case gm_get memo j of
        Some v \<Rightarrow> Some (v, memo)
      | None \<Rightarrow>
          (case longest_deps n g jobs (jg_deps g ! j) 0 memo of
             None \<Rightarrow> None
           | Some (best, memo) \<Rightarrow> Some (best + jg_weight g ! j, gm_set j (best + jg_weight g ! j) memo)))"
| "longest_deps n g jobs [] best memo = Some (best, memo)"
| "longest_deps n g jobs (d # ds) best memo =
     (if d \<in> set jobs
      then case longest n g jobs d memo of
             None \<Rightarrow> None
           | Some (v, memo) \<Rightarrow> longest_deps n g jobs ds (if v > best then v else best) memo
      else longest_deps n g jobs ds best memo)"

fun longest_all :: "nat \<Rightarrow> job_graph \<Rightarrow> nat list \<Rightarrow> nat list \<Rightarrow> int \<Rightarrow> (nat, int) gmap_of \<Rightarrow> int option" where
  "longest_all n g jobs [] m memo = Some m"
| "longest_all n g jobs (j # js) m memo =
     (case longest n g jobs j memo of
        None \<Rightarrow> None
      | Some (v, memo) \<Rightarrow> longest_all n g jobs js (if v > m then v else m) memo)"

definition criticalPath :: "job_graph \<Rightarrow> nat list \<Rightarrow> int option" where
  \<comment> \<open>the recursion goes down in levels, so the highest level and two more is enough fuel\<close>
  "criticalPath g jobs = longest_all (Suc (Suc (Max (set (0 # jg_level g))))) g jobs jobs 0 []"

record item =
  it_jobs :: "nat list"
  it_weight :: int
  it_critical :: int
  it_min_level :: nat
  it_min_job :: nat

fun fill_slice :: "job_graph \<Rightarrow> int \<Rightarrow> int \<Rightarrow> nat list \<Rightarrow> nat list \<times> int \<times> nat list" where
  \<comment> \<open>the inner loop after its first step: what fits, the weight and the rest\<close>
  "fill_slice g capacity acc [] = ([], acc, [])"
| "fill_slice g capacity acc (j # js) =
     (if acc + jg_weight g ! j \<le> capacity
      then case fill_slice g capacity (acc + jg_weight g ! j) js of (taken, acc, rest) \<Rightarrow> (j # taken, acc, rest)
      else ([], acc, j # js))"

lemma fill_slice_append: "fill_slice g capacity acc js = (taken, acc', rest) \<Longrightarrow> js = taken @ rest"
  by (induction js arbitrary: acc taken) (auto split: if_splits prod.splits)

function cut_cluster :: "job_graph \<Rightarrow> int \<Rightarrow> nat list \<Rightarrow> (nat list \<times> int) list" where
  "cut_cluster g capacity [] = []"
| "cut_cluster g capacity (j # js) =
     (case fill_slice g capacity (jg_weight g ! j) js of
        (taken, acc, rest) \<Rightarrow> (j # taken, acc) # cut_cluster g capacity rest)"
  by pat_completeness auto

termination
  by (relation "measure (\<lambda>(_, _, js). length js)") (auto dest!: fill_slice_append[OF sym])

definition new_item :: "job_graph \<Rightarrow> nat list \<times> int \<Rightarrow> item option" where
  "new_item g p =
     map_option (\<lambda>critical. \<lparr>it_jobs = fst p, it_weight = snd p, it_critical = critical,
       it_min_level = jg_level g ! hd (fst p), it_min_job = Min (set (fst p))\<rparr>) (criticalPath g (fst p))"

fun all_some :: "'a option list \<Rightarrow> 'a list option" where
  "all_some [] = Some []"
| "all_some (x # xs) = (case x of None \<Rightarrow> None | Some y \<Rightarrow> map_option ((#) y) (all_some xs))"

definition items_of :: "job_graph \<Rightarrow> int \<Rightarrow> (nat, nat list) gmap_of \<Rightarrow> item list option" where
  "items_of g capacity cs =
     all_some (map (new_item g)
       (concat (map (\<lambda>(r, c). cut_cluster g capacity (sort_key (\<lambda>j. (jg_level g ! j, j)) c)) cs)))"

definition longest_first :: "job_graph \<Rightarrow> item list \<Rightarrow> item list" where
  "longest_first g = sort_key (\<lambda>it. (if jg_weighted g then - it_critical it else 0, - it_weight it, it_min_level it, it_min_job it))"

section \<open>Packing\<close>

definition best_bin :: "nat \<Rightarrow> int list \<Rightarrow> nat" where
  "best_bin lanes load = fold (\<lambda>b best. if load ! b < load ! best then b else best) [1..<lanes] 0"

definition pack_item :: "nat \<Rightarrow> item \<Rightarrow> nat list list \<times> int list \<Rightarrow> nat list list \<times> int list" where
  "pack_item lanes it st =
     (let best = best_bin lanes (snd st)
      in ((fst st)[best := fst st ! best @ it_jobs it], (snd st)[best := snd st ! best + it_weight it]))"

definition pack_items :: "nat \<Rightarrow> item list \<Rightarrow> nat list list \<times> int list" where
  "pack_items lanes its = fold (pack_item lanes) its (replicate lanes [], replicate lanes 0)"

definition minLevelOf :: "job_graph \<Rightarrow> nat list \<Rightarrow> nat" where
  "minLevelOf g jobs = fold (\<lambda>j m. if jg_level g ! j < m then jg_level g ! j else m) jobs (jg_level g ! hd jobs)"

definition order_bins :: "job_graph \<Rightarrow> nat list list \<Rightarrow> nat list list" where
  "order_bins g bins = sort_key (\<lambda>b. (minLevelOf g b, hd b)) (map sort (filter (\<lambda>b. b \<noteq> []) bins))"

definition lane_share :: "job_graph \<Rightarrow> nat list \<Rightarrow> nat \<Rightarrow> int" where
  \<comment> \<open>\<open>capacity\<close>\<close>
  "lane_share g jobs lanes = (job_sum g jobs + int lanes - 1) div int lanes"

definition packPartition :: "job_graph \<Rightarrow> nat list \<Rightarrow> int \<Rightarrow> nat list list option" where
  "packPartition g jobs lanes =
     (let lanes = (if lanes < 1 then 1 else nat lanes)
      in case clusters g jobs of
           None \<Rightarrow> None
         | Some cs \<Rightarrow>
             map_option (\<lambda>its. order_bins g (fst (pack_items lanes (longest_first g its))))
               (items_of g (lane_share g jobs lanes) cs))"

section \<open>The union-find computes connected components\<close>

function rep :: "forest \<Rightarrow> nat \<Rightarrow> nat" where
  "rep p x = (if p x < x then rep p (p x) else x)"
  by pat_completeness auto

termination
  by (relation "measure snd") auto

declare rep.simps [simp del]

definition down :: "forest \<Rightarrow> bool" where
  \<comment> \<open>a parent is never above its child: the smaller root wins\<close>
  "down p \<longleftrightarrow> (\<forall>x. p x \<le> x)"

lemma rep_root: "down p \<Longrightarrow> p (rep p x) = rep p x"
proof (induction p x rule: rep.induct)
  case (1 p x)
  have "p x < x \<or> p x = x" using "1.prems" by (auto simp: down_def le_less)
  then show ?case using 1 by (auto simp: rep.simps[of p x])
qed

lemma rep_le: "rep p x \<le> x"
proof (induction p x rule: rep.induct)
  case (1 p x)
  then show ?case by (cases "p x < x") (auto simp: rep.simps[of p x])
qed

lemma rep_parent: "down p \<Longrightarrow> rep p (p x) = rep p x"
  by (cases "p x < x") (auto simp: rep.simps[of p x] down_def le_less)

lemma rep_fixed: "p x = x \<Longrightarrow> rep p x = x"
  by (simp add: rep.simps)

lemma rep_same:
  assumes "down q" "\<And>y. rep p (q y) = rep p y" "\<And>y. q y = y \<Longrightarrow> p y = y"
  shows "rep q y = rep p y"
proof (induction y rule: less_induct)
  case (less y)
  show ?case
  proof (cases "q y < y")
    case True
    then show ?thesis using less assms(2) by (simp add: rep.simps[of q y])
  next
    case False
    then have "q y = y" using assms(1) by (auto simp: down_def le_less)
    then show ?thesis using assms(3) rep_fixed by metis
  qed
qed

lemma find_root_rep:
  "down p \<Longrightarrow> x < n \<Longrightarrow> \<exists>q. find_root n p x = Some (rep p x, q) \<and> down q \<and> rep q = rep p"
proof (induction n arbitrary: p x)
  case (Suc n)
  show ?case
  proof (cases "p x = x")
    case False
    let ?q = "p(x := p (p x))"
    have lt: "p x < x" using False Suc.prems(1) by (auto simp: down_def le_less)
    have q: "down ?q" using Suc.prems(1) by (auto simp: down_def intro: order_trans)
    have same: "rep ?q y = rep p y" for y
      by (rule rep_same[OF q]) (use Suc.prems(1) lt rep_parent in \<open>auto simp: down_def split: if_splits\<close>,
          metis down_def leD Suc.prems(1) le_less_trans)
    then have r: "rep ?q = rep p" by blast
    have "p (p x) < n" using Suc.prems lt by (meson down_def le_less_trans less_Suc_eq_le less_le_trans not_le)
    then have "\<exists>q'. find_root n ?q (?q x) = Some (rep ?q (?q x), q') \<and> down q' \<and> rep q' = rep ?q"
      by (intro Suc.IH[OF q]) simp
    then show ?thesis using False rep_parent[OF Suc.prems(1)] by (auto simp: r Let_def)
  qed (use Suc.prems in \<open>auto simp: rep_fixed\<close>)
qed simp

lemma rep_link:
  assumes "down p" "p a = a" "p b = b" "a < b"
  shows "rep (p(b := a)) y = (if rep p y = b then a else rep p y)"
proof (induction y rule: less_induct)
  case (less y)
  show ?case
  proof (cases "y = b")
    case True
    have "rep (p(b := a)) b = rep (p(b := a)) a" using assms(4) by (simp add: rep.simps[of _ b])
    also have "\<dots> = a" using assms by (intro rep_fixed) simp
    finally show ?thesis unfolding True rep_fixed[of p b, OF assms(3)] by (simp only: simp_thms if_True)
  next
    case False
    show ?thesis
    proof (cases "p y < y")
      case True
      then show ?thesis using less[OF True] False by (simp add: rep.simps[of _ y])
    next
      case nl: False
      then have "p y = y" using assms(1) by (auto simp: down_def le_less)
      then show ?thesis using False by (simp add: rep_fixed)
    qed
  qed
qed

lemma unite_rep:
  assumes "down p"
  shows "\<exists>q. unite (x, y) p = Some q \<and> down q \<and>
    (\<forall>u v. rep q u = rep q v \<longleftrightarrow> rep p u = rep p v \<or> rep p u = rep p x \<and> rep p v = rep p y \<or>
      rep p u = rep p y \<and> rep p v = rep p x)"
proof -
  obtain p1 where p1: "find_root (Suc x) p x = Some (rep p x, p1)" "down p1" "rep p1 = rep p"
    using find_root_rep[OF assms, of x "Suc x"] by auto
  obtain p2 where p2: "find_root (Suc y) p1 y = Some (rep p y, p2)" "down p2" "rep p2 = rep p"
    using find_root_rep[OF p1(2), of y "Suc y"] p1(3) by auto
  let ?a = "rep p x" and ?b = "rep p y"
  have r: "p2 ?a = ?a" "p2 ?b = ?b" using rep_root[OF p2(2)] p2(3) by metis+
  have ab: "down (p2(b := a))" if "a < b" for a b using p2(2) that by (auto simp: down_def)
  consider "?a = ?b" | "?a < ?b" | "?b < ?a" by linarith
  then show ?thesis
  proof cases
    case 1
    then show ?thesis using p1(1) p2 by (auto simp: unite_def)
  next
    case 2
    then have "unite (x, y) p = Some (p2(?b := ?a))" using p1(1) p2(1) by (simp add: unite_def)
    then show ?thesis using ab[OF 2] rep_link[OF p2(2) r 2] p2(3) by auto
  next
    case 3
    then have "unite (x, y) p = Some (p2(?a := ?b))" using p1(1) p2(1) by (simp add: unite_def)
    then show ?thesis using ab[OF 3] rep_link[OF p2(2) r(2,1) 3] p2(3) by auto
  qed
qed

definition conn :: "('a \<times> 'a) set \<Rightarrow> ('a \<times> 'a) set" where
  \<comment> \<open>connected by edges in either direction\<close>
  "conn es = (es \<union> es\<inverse>)\<^sup>*"

lemma conn_sym: "(x, y) \<in> conn es \<longleftrightarrow> (y, x) \<in> conn es"
proof -
  have "sym (es \<union> es\<inverse>)" by (auto simp: sym_def)
  then have "sym (conn es)" unfolding conn_def by (rule sym_rtrancl)
  then show ?thesis by (auto simp: sym_def)
qed

lemma conn_trans: "(x, y) \<in> conn es \<Longrightarrow> (y, z) \<in> conn es \<Longrightarrow> (x, z) \<in> conn es"
  unfolding conn_def by (rule rtrancl_trans)

lemma conn_refl [simp]: "(x, x) \<in> conn es"
  by (simp add: conn_def)

lemma conn_insert:
  "(u, v) \<in> conn (insert (x, y) es) \<longleftrightarrow> (u, v) \<in> conn es \<or> (u, x) \<in> conn es \<and> (y, v) \<in> conn es \<or>
     (u, y) \<in> conn es \<and> (x, v) \<in> conn es"
  (is "?l \<longleftrightarrow> ?r u v")
proof
  assume ?l
  then have "(u, v) \<in> (insert (x, y) es \<union> (insert (x, y) es)\<inverse>)\<^sup>*" by (simp add: conn_def)
  then show "?r u v"
  proof (induction rule: rtrancl_induct)
    case (step v w)
    have "(v, w) \<in> conn es \<or> (v, w) = (x, y) \<or> (v, w) = (y, x)" using step(2) by (auto simp: conn_def)
    then show ?case using step.IH conn_trans[of _ v es w] conn_sym[of x y es] by (metis Pair_inject conn_refl conn_trans conn_sym)
  qed simp
next
  have mono: "(a, b) \<in> conn es \<Longrightarrow> (a, b) \<in> conn (insert (x, y) es)" for a b
    unfolding conn_def using rtrancl_mono[of "es \<union> es\<inverse>" "insert (x, y) es \<union> (insert (x, y) es)\<inverse>"] by blast
  have e: "(x, y) \<in> conn (insert (x, y) es)" by (auto simp: conn_def)
  assume "?r u v"
  then show ?l using mono e conn_sym conn_trans by metis
qed

lemma unite_all_conn:
  assumes "\<forall>u \<in> S. \<forall>v \<in> S. rep p u = rep p v \<longleftrightarrow> (u, v) \<in> conn E"
  shows "down p \<Longrightarrow> set es \<subseteq> S \<times> S \<Longrightarrow> \<exists>q. unite_all es p = Some q \<and> down q \<and>
    (\<forall>u \<in> S. \<forall>v \<in> S. rep q u = rep q v \<longleftrightarrow> (u, v) \<in> conn (E \<union> set es))"
  using assms
proof (induction es arbitrary: p E)
  case (Cons e es)
  obtain x y where e: "e = (x, y)" "x \<in> S" "y \<in> S" using Cons.prems(2) by (cases e) auto
  obtain q where q: "unite e p = Some q" "down q"
    "\<forall>u v. rep q u = rep q v \<longleftrightarrow> rep p u = rep p v \<or> rep p u = rep p x \<and> rep p v = rep p y \<or>
      rep p u = rep p y \<and> rep p v = rep p x"
    using unite_rep[OF Cons.prems(1), of x y] e(1) by auto
  have "\<forall>u \<in> S. \<forall>v \<in> S. rep q u = rep q v \<longleftrightarrow> (u, v) \<in> conn (insert e E)"
    unfolding e(1) conn_insert using q(3) Cons.prems(3) e(2,3) conn_sym by metis
  from Cons.IH[OF q(2) _ this] Cons.prems(2) q(1) show ?case by simp
qed auto

end
