(* ===== verification/Lane_Bins.thy ===== *)
theory Lane_Bins
  imports Lane_Pack
begin

text \<open>
  What \<open>packPartition\<close> (\<open>internal/lanes/auto.go\<close>) promises: \<open>packed\<close> is the contract, and
  \<open>packPartition_packed\<close> shows the routine meets it on every partition of an acyclic job graph.
\<close>

section \<open>Clusters\<close>

definition job_component :: "job_graph \<Rightarrow> nat list \<Rightarrow> nat \<Rightarrow> nat list" where
  \<comment> \<open>the jobs joined to \<open>j\<close> by enforced edges inside the partition\<close>
  "job_component g jobs j = filter (\<lambda>k. (j, k) \<in> conn (set (inner_edges g jobs))) jobs"

lemma inner_edges_inside: "set (inner_edges g jobs) \<subseteq> set jobs \<times> set jobs"
  by (auto simp: inner_edges_def)

lemma group_jobs_group:
  "down p \<Longrightarrow> group_jobs js p cs = Some (fold (\<lambda>j. gm_push (rep p j) j) js cs)"
proof (induction js arbitrary: p cs)
  case (Cons j js)
  obtain q where "find_root (Suc j) p j = Some (rep p j, q)" "down q" "rep q = rep p"
    using find_root_rep[OF Cons.prems, of j "Suc j"] by auto
  then show ?case using Cons.IH[of q] by simp
qed simp

lemma mset_push: "mset (concat (map snd (gm_push k v m))) = add_mset v (mset (concat (map snd m)))"
proof (induction m)
  case (Cons p m)
  have eq: "gm_push k v (p # m) = (if fst p = k then (k, snd p @ [v]) # m else p # gm_push k v m)"
    by (cases p) (auto simp: gm_push_def gm_get_or_def)
  show ?case using Cons by (simp add: eq)
qed (simp add: gm_push_def gm_get_or_def)

lemma mset_group: "mset (concat (map snd (gm_group key id xs))) = mset xs"
proof -
  have "mset (concat (map snd (fold (\<lambda>x. gm_push (key x) x) xs m))) = mset (concat (map snd m)) + mset xs" for m
    by (induction xs arbitrary: m) (auto simp: mset_push)
  then show ?thesis by (simp add: gm_group_def)
qed

lemma group_entry:
  assumes "(r, c) \<in> set (gm_group key id xs)"
  shows "c = filter (\<lambda>x. key x = r) xs \<and> r \<in> key ` set xs"
proof -
  have g: "gm_get (gm_group key id xs) r = Some c" using gm_in_get[OF gm_ok_group assms] .
  then have "gm_has (gm_group key id xs) r" by (simp add: gm_has_def)
  moreover have "gm_get_or [] (gm_group key id xs) r = c" using g by (simp add: gm_get_or_def)
  ultimately show ?thesis using gm_get_group[of key id xs r] gm_has_group[of key id xs r] by simp
qed

lemma clusters_spec:
  "\<exists>cs. clusters g jobs = Some cs \<and> mset (concat (map snd cs)) = mset jobs \<and>
    (\<forall>(r, c) \<in> set cs. \<exists>j \<in> set jobs. c = job_component g jobs j) \<and>
    (\<forall>j \<in> set jobs. \<exists>r. (r, job_component g jobs j) \<in> set cs)"
proof -
  let ?p = "\<lambda>x. if x \<in> set jobs then x else (0::nat)"
  have d: "down ?p" by (simp add: down_def)
  have "rep ?p x = x" if "x \<in> set jobs" for x using that by (simp add: rep_fixed)
  then have init: "\<forall>u \<in> set jobs. \<forall>v \<in> set jobs. rep ?p u = rep ?p v \<longleftrightarrow> (u, v) \<in> conn {}"
    by (simp add: conn_def)
  obtain q where q: "unite_all (inner_edges g jobs) ?p = Some q" "down q"
    "\<forall>u \<in> set jobs. \<forall>v \<in> set jobs. rep q u = rep q v \<longleftrightarrow> (u, v) \<in> conn (set (inner_edges g jobs))"
    using unite_all_conn[OF init d inner_edges_inside[of g jobs]] by auto
  let ?cs = "gm_group (rep q) id jobs"
  have c: "clusters g jobs = Some ?cs"
    using q(1) group_jobs_group[OF q(2)] by (simp add: clusters_def gm_group_def)
  have comp: "filter (\<lambda>x. rep q x = rep q j) jobs = job_component g jobs j" if "j \<in> set jobs" for j
    unfolding job_component_def using q(3) that by (intro filter_cong) metis+
  have "\<exists>j \<in> set jobs. c = job_component g jobs j" if "(r, c) \<in> set ?cs" for r c
    using group_entry[OF that] comp by auto
  moreover have "\<exists>r. (r, job_component g jobs j) \<in> set ?cs" if j: "j \<in> set jobs" for j
  proof -
    have "gm_has ?cs (rep q j)" using j by (simp add: gm_has_group)
    then obtain c where "gm_get ?cs (rep q j) = Some c" by (auto simp: gm_has_def)
    then have "(rep q j, c) \<in> set ?cs" by (rule gm_get_in)
    then show ?thesis using group_entry comp[OF j] by metis
  qed
  ultimately show ?thesis using c mset_group[of "rep q" jobs] by blast
qed

section \<open>Slices\<close>

lemma job_sum_append [simp]: "job_sum g (xs @ ys) = job_sum g xs + job_sum g ys"
  and job_sum_Cons [simp]: "job_sum g (j # js) = jg_weight g ! j + job_sum g js"
  and job_sum_Nil [simp]: "job_sum g [] = 0"
  by (simp_all add: job_sum_def)

lemma job_sum_mset: "mset xs = mset ys \<Longrightarrow> job_sum g xs = job_sum g ys"
  unfolding job_sum_def by (metis mset_map sum_mset_sum_list)

lemma fill_slice_sum: "fill_slice g capacity acc js = (taken, acc', rest) \<Longrightarrow> acc' = acc + job_sum g taken"
  by (induction js arbitrary: acc taken) (fastforce split: if_splits prod.splits)+

lemma fill_slice_within: "fill_slice g capacity acc js = (taken, acc', rest) \<Longrightarrow> taken = [] \<or> acc' \<le> capacity"
proof (induction js arbitrary: acc taken)
  case (Cons j js)
  show ?case
  proof (cases "acc + jg_weight g ! j \<le> capacity")
    case True
    then obtain t where t: "fill_slice g capacity (acc + jg_weight g ! j) js = (t, acc', rest)"
      using Cons.prems by (auto split: prod.splits)
    then show ?thesis using Cons.IH[OF t] fill_slice_sum[OF t] True by (cases t) simp_all
  qed (use Cons.prems in simp)
qed simp

lemma fill_slice_all:
  "\<lbrakk>fill_slice g capacity acc js = (taken, acc', rest); acc + job_sum g js \<le> capacity; \<forall>j \<in> set js. 0 \<le> jg_weight g ! j\<rbrakk>
   \<Longrightarrow> rest = []"
proof (induction js arbitrary: acc taken)
  case (Cons j js)
  have "0 \<le> job_sum g js" unfolding job_sum_def using Cons.prems(3) by (intro sum_list_nonneg) auto
  then have "acc + jg_weight g ! j \<le> capacity" using Cons.prems(2) by simp
  then obtain t where t: "fill_slice g capacity (acc + jg_weight g ! j) js = (t, acc', rest)"
    using Cons.prems(1) by (auto split: prod.splits)
  show ?case by (rule Cons.IH[OF t]) (use Cons.prems in simp_all)
qed simp

lemma cut_cluster_step:
  "fill_slice g capacity (jg_weight g ! j) js = (taken, acc, rest) \<Longrightarrow>
   cut_cluster g capacity (j # js) = (j # taken, acc) # cut_cluster g capacity rest"
  by simp

lemma cut_cluster_concat: "concat (map fst (cut_cluster g capacity c)) = c"
proof (induction g capacity c rule: cut_cluster.induct)
  case (2 g capacity j js)
  obtain taken acc rest where f: "fill_slice g capacity (jg_weight g ! j) js = (taken, acc, rest)" using prod_cases3 by blast
  show ?case using 2[OF f[symmetric] refl] fill_slice_append[OF f] cut_cluster_step[OF f] by simp
qed simp

lemma cut_cluster_slice:
  "p \<in> set (cut_cluster g capacity c) \<Longrightarrow>
   fst p \<noteq> [] \<and> snd p = job_sum g (fst p) \<and> (snd p \<le> capacity \<or> length (fst p) = 1)"
proof (induction g capacity c rule: cut_cluster.induct)
  case (2 g capacity j js)
  obtain taken acc rest where f: "fill_slice g capacity (jg_weight g ! j) js = (taken, acc, rest)" using prod_cases3 by blast
  show ?case
  proof (cases "p = (j # taken, acc)")
    case True
    then show ?thesis using fill_slice_sum[OF f] fill_slice_within[OF f] by auto
  next
    case False
    then have "p \<in> set (cut_cluster g capacity rest)" using "2.prems" unfolding cut_cluster_step[OF f] by simp
    then show ?thesis using "2.IH"[OF f[symmetric] refl] by blast
  qed
qed simp

lemma cut_cluster_whole:
  assumes "c \<noteq> []" "job_sum g c \<le> capacity" "\<forall>j \<in> set c. 0 \<le> jg_weight g ! j"
  shows "cut_cluster g capacity c = [(c, job_sum g c)]"
proof -
  obtain j js where c: "c = j # js" using assms(1) by (cases c) auto
  obtain taken acc rest where f: "fill_slice g capacity (jg_weight g ! j) js = (taken, acc, rest)" using prod_cases3 by blast
  have "rest = []" by (rule fill_slice_all[OF f]) (use assms in \<open>simp_all add: c\<close>)
  then show ?thesis using fill_slice_append[OF f] fill_slice_sum[OF f] cut_cluster_step[OF f] by (simp add: c)
qed

section \<open>The heaviest chain\<close>

lemma longest_returns:
  assumes "climbing n g" "length (jg_deps g) = n"
  shows "\<lbrakk>j < n; jg_level g ! j < f; set jobs \<subseteq> {..<n}\<rbrakk> \<Longrightarrow> longest f g jobs j memo \<noteq> None"
    and "\<lbrakk>\<forall>d \<in> set ds. jg_level g ! d < f; set jobs \<subseteq> {..<n}\<rbrakk> \<Longrightarrow> longest_deps f g jobs ds best memo \<noteq> None"
  using assms
proof (induction f g jobs j memo and f g jobs ds best memo rule: longest_longest_deps.induct)
  case (2 f g jobs j memo)
  have "\<forall>d \<in> set (jg_deps g ! j). jg_level g ! d < f"
    using 2(2-) by (fastforce simp: climbing_def job_edge_set_def)
  then have "longest_deps f g jobs (jg_deps g ! j) 0 memo \<noteq> None" if "gm_get memo j = None" using 2 that by blast
  then show ?case by (cases "gm_get memo j") (auto split: option.splits)
next
  case (4 f g jobs d ds best memo)
  then show ?case by (auto split: option.splits if_splits)
qed auto

lemma criticalPath_returns:
  assumes "climbing n g" "length (jg_deps g) = n" "length (jg_level g) = n" "set jobs \<subseteq> {..<n}"
  shows "criticalPath g jobs \<noteq> None"
proof -
  let ?f = "Suc (Suc (Max (set (0 # jg_level g))))"
  have "longest_all ?f g jobs js m memo \<noteq> None" if "set js \<subseteq> {..<n}" for js m memo
    using that
  proof (induction js arbitrary: m memo)
    case (Cons j js)
    then have j: "j < n" by simp
    then have "jg_level g ! j \<le> Max (set (0 # jg_level g))" using assms(3) by (intro Max_ge) auto
    then have "longest ?f g jobs j memo \<noteq> None" using longest_returns(1)[OF assms(1,2) j] assms(4) by (simp del: longest.simps)
    then obtain v memo' where "longest ?f g jobs j memo = Some (v, memo')" by (auto simp del: longest.simps)
    then show ?case using Cons by (simp del: longest.simps)
  qed simp
  then show ?thesis using assms(4) by (simp add: criticalPath_def)
qed

section \<open>The items\<close>

lemma all_some_Some: "all_some xs = Some ys \<longleftrightarrow> xs = map Some ys"
proof (induction xs arbitrary: ys)
  case (Cons x xs)
  then show ?case by (cases x; cases ys) auto
qed auto

lemma all_some_returns: "\<forall>x \<in> set xs. x \<noteq> None \<Longrightarrow> \<exists>ys. all_some xs = Some ys"
  by (induction xs) auto

lemma map_Some_fields: "map f ps = map Some ys \<Longrightarrow> (\<And>p y. f p = Some y \<Longrightarrow> h y = k p) \<Longrightarrow> map h ys = map k ps"
  by (induction ps ys rule: list_induct2') auto

definition item_ok :: "job_graph \<Rightarrow> int \<Rightarrow> item \<Rightarrow> bool" where
  "item_ok g capacity it \<longleftrightarrow> it_jobs it \<noteq> [] \<and> it_weight it = job_sum g (it_jobs it) \<and>
     (it_weight it \<le> capacity \<or> length (it_jobs it) = 1)"

definition item_jobs :: "item list \<Rightarrow> nat list" where
  "item_jobs its = concat (map it_jobs its)"

abbreviation by_level :: "job_graph \<Rightarrow> nat list \<Rightarrow> nat list" where
  "by_level g \<equiv> sort_key (\<lambda>j. (jg_level g ! j, j))"

definition slices_of :: "job_graph \<Rightarrow> int \<Rightarrow> (nat, nat list) gmap_of \<Rightarrow> (nat list \<times> int) list" where
  "slices_of g capacity cs = concat (map (\<lambda>(r, c). cut_cluster g capacity (by_level g c)) cs)"

lemma slices_of_jobs: "mset (concat (map fst (slices_of g capacity cs))) = mset (concat (map snd cs))"
  by (induction cs) (auto simp: slices_of_def cut_cluster_concat)

lemma items_of_spec:
  assumes "climbing n g" "length (jg_deps g) = n" "length (jg_level g) = n"
    and "set (concat (map snd cs)) \<subseteq> {..<n}"
  shows "\<exists>its. items_of g capacity cs = Some its \<and> mset (item_jobs its) = mset (concat (map snd cs)) \<and>
    (\<forall>it \<in> set its. item_ok g capacity it) \<and>
    (\<forall>p \<in> set (slices_of g capacity cs). \<exists>it \<in> set its. it_jobs it = fst p)"
proof -
  let ?ps = "slices_of g capacity cs"
  have below: "set (fst p) \<subseteq> {..<n}" if "p \<in> set ?ps" for p
    using slices_of_jobs[of g capacity cs, THEN mset_eq_setD] assms(4) that by auto
  have "new_item g p \<noteq> None" if "p \<in> set ?ps" for p
    using criticalPath_returns[OF assms(1-3) below[OF that]] by (auto simp: new_item_def)
  then obtain its where its: "all_some (map (new_item g) ?ps) = Some its" using all_some_returns[of "map (new_item g) ?ps"] by auto
  then have m: "map (new_item g) ?ps = map Some its" by (simp add: all_some_Some)
  have item: "it_jobs it = fst p \<and> it_weight it = snd p" if "new_item g p = Some it" for p it
    using that by (auto simp: new_item_def)
  have "map it_jobs its = map fst ?ps"
    using map_Some_fields[OF m] item by blast
  then have jobs: "item_jobs its = concat (map fst ?ps)" by (simp add: item_jobs_def)
  have "\<exists>p \<in> set ?ps. new_item g p = Some it" if "it \<in> set its" for it
    using that m by (metis (no_types, opaque_lifting) imageE imageI list.set_map)
  then have ok: "item_ok g capacity it" if "it \<in> set its" for it
    using that item cut_cluster_slice by (fastforce simp: item_ok_def slices_of_def)
  have "\<exists>it \<in> set its. it_jobs it = fst p" if "p \<in> set ?ps" for p
    using that m item by (metis (no_types, opaque_lifting) imageE imageI list.set_map)
  moreover have "items_of g capacity cs = Some its" using its by (simp add: items_of_def slices_of_def)
  ultimately show ?thesis using jobs ok slices_of_jobs[of g capacity cs] by auto
qed

section \<open>Packing\<close>

lemma best_bin_least:
  assumes "0 < lanes"
  shows "best_bin lanes load < lanes \<and> (\<forall>b < lanes. load ! best_bin lanes load \<le> load ! b)"
proof -
  have "fold (\<lambda>b best. if load ! b < load ! best then b else best) bs k \<in> insert k (set bs) \<and>
      (\<forall>b \<in> insert k (set bs). load ! fold (\<lambda>b best. if load ! b < load ! best then b else best) bs k \<le> load ! b)" for bs k
  proof (induction bs arbitrary: k)
    case (Cons a bs)
    show ?case using Cons[of a] Cons[of k] by (cases "load ! a < load ! k") (auto intro: less_imp_le order_trans)
  qed simp
  moreover have "b \<in> insert 0 (set [1..<lanes])" if "b < lanes" for b using that by auto
  ultimately have "best_bin lanes load \<in> insert 0 (set [1..<lanes])" "\<forall>b < lanes. load ! best_bin lanes load \<le> load ! b"
    unfolding best_bin_def by blast+
  then show ?thesis using assms by auto
qed

definition packing :: "job_graph \<Rightarrow> nat \<Rightarrow> int \<Rightarrow> item list \<Rightarrow> nat list list \<times> int list \<Rightarrow> bool" where
  \<comment> \<open>the bins hold the packed items whole, and no bin is ahead of another by more than \<open>M\<close>\<close>
  "packing g lanes M its st \<longleftrightarrow> length (fst st) = lanes \<and> snd st = map (job_sum g) (fst st) \<and>
     mset (concat (fst st)) = mset (item_jobs its) \<and>
     (\<forall>it \<in> set its. \<exists>b \<in> set (fst st). set (it_jobs it) \<subseteq> set b) \<and>
     (\<forall>b < lanes. \<forall>c < lanes. snd st ! b \<le> snd st ! c + M)"

lemma mset_concat_update:
  "k < length xss \<Longrightarrow> mset (concat (xss[k := xss ! k @ ys])) = mset (concat xss) + mset ys"
proof (induction xss arbitrary: k)
  case (Cons xs xss)
  then show ?case by (cases k) auto
qed simp

lemma pack_item_packing:
  assumes "packing g lanes M its st" "0 < lanes" "item_ok g capacity it" "it_weight it \<le> M" "0 \<le> it_weight it"
  shows "packing g lanes M (its @ [it]) (pack_item lanes it st)"
proof -
  obtain bins load where st: "st = (bins, load)" by (cases st)
  let ?b = "best_bin lanes load"
  have b: "?b < lanes" "\<forall>c < lanes. load ! ?b \<le> load ! c" using best_bin_least[OF assms(2)] by auto
  have p: "length bins = lanes" "load = map (job_sum g) bins" "mset (concat bins) = mset (item_jobs its)"
    "\<forall>it \<in> set its. \<exists>b \<in> set bins. set (it_jobs it) \<subseteq> set b" "\<forall>b < lanes. \<forall>c < lanes. load ! b \<le> load ! c + M"
    using assms(1) by (auto simp: packing_def st)
  let ?bins = "bins[?b := bins ! ?b @ it_jobs it]" and ?load = "load[?b := load ! ?b + it_weight it]"
  have step: "pack_item lanes it st = (?bins, ?load)" by (simp add: pack_item_def st Let_def)
  have "?load = map (job_sum g) ?bins"
    using assms(3) b(1) p(1) by (simp add: p(2) map_update item_ok_def)
  moreover have "mset (concat ?bins) = mset (item_jobs (its @ [it]))"
    using mset_concat_update[of ?b bins "it_jobs it"] b(1) p(1,3) by (simp add: item_jobs_def)
  moreover have "\<exists>b \<in> set ?bins. set (it_jobs i) \<subseteq> set b" if i: "i \<in> set (its @ [it])" for i
  proof (cases "i \<in> set its")
    case True
    then obtain k where k: "k < lanes" "set (it_jobs i) \<subseteq> set (bins ! k)" using p(1,4) by (metis in_set_conv_nth)
    then have "set (it_jobs i) \<subseteq> set (?bins ! k)" using p(1) by (cases "k = ?b") auto
    then show ?thesis using k(1) p(1) nth_mem[of k ?bins] by auto
  next
    case False
    then have "set (it_jobs i) \<subseteq> set (?bins ! ?b)" using i b(1) p(1) by auto
    moreover have "?bins ! ?b \<in> set ?bins" using b(1) p(1) by (intro nth_mem) simp
    ultimately show ?thesis by blast
  qed
  moreover have "?load ! x \<le> ?load ! y + M" if xy: "x < lanes" "y < lanes" for x y
  proof -
    have l: "length load = lanes" using p(1,2) by simp
    have "load ! x \<le> load ! y + M" "load ! ?b \<le> load ! y" using p(5) b(2) xy by auto
    then show ?thesis using xy assms(4,5) l by (cases "x = ?b"; cases "y = ?b") auto
  qed
  ultimately show ?thesis using p(1) by (auto simp: packing_def step)
qed

lemma pack_items_packing:
  assumes "0 < lanes" "0 \<le> M" "\<forall>it \<in> set its. item_ok g capacity it \<and> it_weight it \<le> M \<and> 0 \<le> it_weight it"
  shows "packing g lanes M its (pack_items lanes its)"
proof -
  have "packing g lanes M (done @ its) (fold (pack_item lanes) its st)"
    if "packing g lanes M done st" "\<forall>it \<in> set its. item_ok g capacity it \<and> it_weight it \<le> M \<and> 0 \<le> it_weight it" for "done" its st
    using that
  proof (induction its arbitrary: "done" st)
    case (Cons it its)
    then have "packing g lanes M (done @ [it]) (pack_item lanes it st)"
      using pack_item_packing[OF Cons.prems(1) assms(1)] by auto
    from Cons.IH[OF this] Cons.prems show ?case by simp
  qed simp
  moreover have "packing g lanes M [] (replicate lanes [], replicate lanes 0)"
    using assms(2) by (auto simp: packing_def item_jobs_def map_replicate_const)
  ultimately show ?thesis using assms(3) unfolding pack_items_def by force
qed

section \<open>The contract\<close>

definition packed :: "job_graph \<Rightarrow> nat list \<Rightarrow> nat \<Rightarrow> nat list list \<Rightarrow> bool" where
  "packed g jobs lanes bins \<longleftrightarrow> mset (concat bins) = mset jobs \<and> length bins \<le> lanes \<and>
     (\<forall>b \<in> set bins. b \<noteq> [] \<and> sorted b) \<and>
     (\<forall>j \<in> set jobs. job_sum g (job_component g jobs j) \<le> lane_share g jobs lanes \<longrightarrow>
        (\<exists>b \<in> set bins. set (job_component g jobs j) \<subseteq> set b)) \<and>
     (\<forall>b \<in> set bins. \<forall>c \<in> set bins. job_sum g b \<le> job_sum g c + Max (insert (lane_share g jobs lanes) (set (jg_weight g))))"

lemma order_bins_props:
  "mset (concat (order_bins g bins)) = mset (concat bins)" "length (order_bins g bins) \<le> length bins"
  "b \<in> set (order_bins g bins) \<longleftrightarrow> (\<exists>b0 \<in> set bins. b0 \<noteq> [] \<and> b = sort b0)"
proof -
  have "mset (concat (map sort (filter (\<lambda>b. b \<noteq> []) bins))) = mset (concat bins)"
    by (induction bins) auto
  moreover have "mset (concat (order_bins g bins)) = mset (concat (map sort (filter (\<lambda>b. b \<noteq> []) bins)))"
    unfolding order_bins_def by (rule mset_concat_mset[of _ _ id, simplified]) simp
  ultimately show "mset (concat (order_bins g bins)) = mset (concat bins)" by simp
qed (auto simp: order_bins_def length_filter_le)

theorem packPartition_packed:
  assumes "graph_ok n g" "climbing n g" "set jobs \<subseteq> {..<n}" "\<forall>w \<in> set (jg_weight g). 0 < w"
  shows "\<exists>bins. packPartition g jobs lanes = Some bins \<and> packed g jobs (if lanes < 1 then 1 else nat lanes) bins"
proof -
  let ?l = "if lanes < 1 then 1 else nat lanes" and ?cap = "lane_share g jobs (if lanes < 1 then 1 else nat lanes)"
  let ?M = "Max (insert ?cap (set (jg_weight g)))"
  have len: "length (jg_deps g) = n" "length (jg_level g) = n" "length (jg_weight g) = n" using assms(1) by (auto simp: graph_ok_def)
  have w: "0 < jg_weight g ! j \<and> jg_weight g ! j \<le> ?M" if "j < n" for j
    using that assms(4) len(3) by (auto intro!: Max_ge)
  obtain cs where cs: "clusters g jobs = Some cs" "mset (concat (map snd cs)) = mset jobs"
    "\<forall>(r, c) \<in> set cs. \<exists>j \<in> set jobs. c = job_component g jobs j" "\<forall>j \<in> set jobs. \<exists>r. (r, job_component g jobs j) \<in> set cs"
    using clusters_spec by blast
  have sub: "set (concat (map snd cs)) \<subseteq> {..<n}" using cs(2)[THEN mset_eq_setD] assms(3) by simp
  obtain its where its: "items_of g ?cap cs = Some its" "mset (item_jobs its) = mset (concat (map snd cs))"
    "\<forall>it \<in> set its. item_ok g ?cap it" "\<forall>p \<in> set (slices_of g ?cap cs). \<exists>it \<in> set its. it_jobs it = fst p"
    using items_of_spec[OF assms(2) len(1,2) sub] by blast
  let ?its = "longest_first g its"
  have its': "set ?its = set its" "mset (item_jobs ?its) = mset jobs"
    using its(2) cs(2) by (simp_all add: longest_first_def item_jobs_def mset_concat_mset[of "sort_key _ its" its])
  have below: "set (it_jobs it) \<subseteq> {..<n}" if "it \<in> set its" for it
    using that its'(2)[THEN mset_eq_setD] its'(1) assms(3) by (auto simp: item_jobs_def)
  have good: "item_ok g ?cap it \<and> it_weight it \<le> ?M \<and> 0 \<le> it_weight it" if it: "it \<in> set ?its" for it
  proof -
    have ok: "item_ok g ?cap it" using it its(3) its'(1) by simp
    have b: "\<forall>j \<in> set (it_jobs it). j < n" using below it its'(1) by auto
    have "0 \<le> job_sum g (it_jobs it)" unfolding job_sum_def using b w by (intro sum_list_nonneg) (auto simp: less_imp_le)
    moreover have "it_weight it \<le> ?M"
    proof (cases "it_weight it \<le> ?cap")
      case True
      then show ?thesis by (rule order_trans) simp
    next
      case False
      then obtain j where j: "it_jobs it = [j]" using ok by (auto simp: item_ok_def length_Suc_conv)
      then show ?thesis using ok w b by (simp add: item_ok_def)
    qed
    moreover have "it_weight it = job_sum g (it_jobs it)" using ok by (simp add: item_ok_def)
    ultimately show ?thesis using ok by metis
  qed
  have "0 \<le> job_sum g jobs" unfolding job_sum_def using assms(3) w by (intro sum_list_nonneg) (auto simp: less_imp_le subset_iff)
  then have "0 \<le> ?cap" unfolding lane_share_def by (intro pos_imp_zdiv_nonneg_iff[THEN iffD2]) auto
  then have M: "0 \<le> ?M" by (rule order_trans) simp
  obtain bins load where bl: "pack_items ?l ?its = (bins, load)" by force
  have "packing g ?l ?M ?its (bins, load)"
    using pack_items_packing[of ?l ?M ?its g ?cap] M good bl by auto
  then have p: "length bins = ?l" "load = map (job_sum g) bins" "mset (concat bins) = mset jobs"
    "\<forall>it \<in> set its. \<exists>b \<in> set bins. set (it_jobs it) \<subseteq> set b" "\<forall>b < ?l. \<forall>c < ?l. load ! b \<le> load ! c + ?M"
    using its' by (auto simp: packing_def)
  have run: "packPartition g jobs lanes = Some (order_bins g bins)"
    using cs(1) its(1) bl by (simp add: packPartition_def Let_def)
  have whole: "\<exists>b \<in> set (order_bins g bins). set (job_component g jobs j) \<subseteq> set b"
    if j: "j \<in> set jobs" "job_sum g (job_component g jobs j) \<le> ?cap" for j
  proof -
    obtain r where r: "(r, job_component g jobs j) \<in> set cs" using cs(4) j(1) by blast
    let ?c = "by_level g (job_component g jobs j)"
    have jc: "j \<in> set (job_component g jobs j)" using j(1) by (simp add: job_component_def)
    have "cut_cluster g ?cap ?c = [(?c, job_sum g ?c)]"
    proof (rule cut_cluster_whole)
      show "?c \<noteq> []" using jc by (metis emptyE set_empty2 set_sort)
      show "job_sum g ?c \<le> ?cap" using j(2) job_sum_mset[of ?c "job_component g jobs j"] by simp
      show "\<forall>j \<in> set ?c. 0 \<le> jg_weight g ! j" using w assms(3) by (auto simp: job_component_def subset_iff less_imp_le)
    qed
    then have "(?c, job_sum g ?c) \<in> set (slices_of g ?cap cs)" using r by (force simp: slices_of_def)
    then obtain it where "it \<in> set its" "it_jobs it = ?c" using its(4) by force
    then obtain b where b: "b \<in> set bins" "set ?c \<subseteq> set b" using p(4) by metis
    then have "b \<noteq> []" using jc by auto
    then have "sort b \<in> set (order_bins g bins)" using b(1) order_bins_props(3) by blast
    then show ?thesis using b(2) by (intro bexI[of _ "sort b"]) simp_all
  qed
  have balance: "job_sum g b \<le> job_sum g c + ?M" if bc: "b \<in> set (order_bins g bins)" "c \<in> set (order_bins g bins)" for b c
  proof -
    have s: "job_sum g (sort xs) = job_sum g xs" for xs by (rule job_sum_mset) simp
    obtain b0 c0 where "b0 \<in> set bins" "b = sort b0" "c0 \<in> set bins" "c = sort c0" using bc order_bins_props(3) by blast
    then obtain x y where "x < length bins" "y < length bins" "job_sum g b = load ! x" "job_sum g c = load ! y"
      using p(2) s by (auto simp: in_set_conv_nth)
    then show ?thesis using p(1,5) by simp
  qed
  have "packed g jobs ?l (order_bins g bins)"
    unfolding packed_def
  proof (intro conjI ballI impI)
    show "mset (concat (order_bins g bins)) = mset jobs" using order_bins_props(1) p(3) by metis
    show "length (order_bins g bins) \<le> ?l" using order_bins_props(2)[of g bins] p(1) by metis
    fix b assume "b \<in> set (order_bins g bins)"
    then obtain b0 where "b0 \<noteq> []" "b = sort b0" using order_bins_props(3) by blast
    then show "b \<noteq> []" "sorted b" by (metis set_empty2 set_sort, simp)
  qed (use whole balance in blast)+
  then show ?thesis using run by blast
qed

end
