(* ===== verification/Lane_Drafts.thy ===== *)
theory Lane_Drafts
  imports Lane_Bins
begin

text \<open>
  The first layout (\<open>initialDrafts\<close> and \<open>autoDrafts\<close>, \<open>internal/lanes\<close>): a lane per job in job mode,
  annotations before the mode otherwise, and auto mode for what is left. Two Go maps job_rows by strings
  collect the jobs; the locale \<open>keyed_jobs\<close> is what they share, and its two interpretations give that
  every job goes to one lane that it fits.
\<close>

section \<open>Collecting jobs by key\<close>

definition add_keyed :: "(nat \<Rightarrow> 'v \<Rightarrow> 'v) \<Rightarrow> string \<Rightarrow> 'v \<Rightarrow> nat \<Rightarrow> 'v gmap \<Rightarrow> 'v gmap" where
  \<comment> \<open>the entry is made when absent, then takes the job; the keys stay in the order of their first job\<close>
  "add_keyed upd key mk i m = gm_set key (upd i (gm_get_or mk m key)) m"

definition job_rows :: "('v \<Rightarrow> nat list) \<Rightarrow> ('v \<Rightarrow> 'a) \<Rightarrow> (nat \<Rightarrow> (string \<times> 'v) option) \<Rightarrow> 'v gmap \<Rightarrow> nat list \<Rightarrow> bool" where
  \<comment> \<open>\<open>m\<close> holds each of \<open>js\<close> once, under its key, in an entry made for some job with that key\<close>
  "job_rows J A mk m js \<longleftrightarrow> gm_ok m \<and> mset (concat (map (J \<circ> snd) m)) = mset js \<and>
     (\<forall>(k, v) \<in> set m. J v \<noteq> [] \<and> (\<forall>j \<in> set (J v). map_option fst (mk j) = Some k) \<and>
        (\<exists>i d. mk i = Some (k, d) \<and> i \<in> set js \<and> A v = A d))"

lemma job_rows_entry:
  assumes "job_rows J A mk m js" "(k, v) \<in> set m"
  shows "J v \<noteq> []" "set (J v) \<subseteq> set js" "j \<in> set (J v) \<Longrightarrow> map_option fst (mk j) = Some k"
    "\<exists>i d. mk i = Some (k, d) \<and> i \<in> set js \<and> A v = A d"
proof -
  have "set (J v) \<subseteq> set (concat (map (J \<circ> snd) m))" using assms(2) by auto
  then show "set (J v) \<subseteq> set js" using assms(1) mset_eq_setD unfolding job_rows_def by blast
qed (use assms in \<open>fastforce simp: job_rows_def\<close>)+

locale keyed_jobs =
  fixes J :: "'v \<Rightarrow> nat list" and A :: "'v \<Rightarrow> 'a" and upd :: "nat \<Rightarrow> 'v \<Rightarrow> 'v"
  assumes J_upd: "J (upd i v) = J v @ [i]"
    and A_upd: "A (upd i v) = A v"
begin

lemma jobs_set:
  assumes "J d = []"
  shows "mset (concat (map (J \<circ> snd) (add_keyed upd k d i m))) = add_mset i (mset (concat (map (J \<circ> snd) m)))"
proof (induction m)
  case (Cons p m)
  have eq: "add_keyed upd k d i (p # m) = (if fst p = k then (k, upd i (snd p)) # m else p # add_keyed upd k d i m)"
    by (cases p) (auto simp: add_keyed_def gm_get_or_def)
  show ?case using Cons by (simp add: eq J_upd)
qed (simp add: add_keyed_def gm_get_or_def J_upd assms)

lemma add_entry:
  assumes "(k', v) \<in> set (add_keyed upd k d i m)" "gm_ok m"
  shows "(k', v) \<in> set m \<or> k' = k \<and> v = upd i (gm_get_or d m k)"
proof -
  have "gm_get (add_keyed upd k d i m) k' = Some v"
    using assms gm_in_get[of "add_keyed upd k d i m"] by (simp add: add_keyed_def)
  then show ?thesis by (auto simp: add_keyed_def gm_get_set split: if_splits dest: gm_get_in)
qed

lemma rows_add:
  assumes m: "job_rows J A mk m js" and d: "mk i = Some (k, d)" "J d = []"
  shows "job_rows J A mk (add_keyed upd k d i m) (js @ [i])"
proof -
  have ok: "gm_ok m" using m by (simp add: job_rows_def)
  have "J v \<noteq> [] \<and> (\<forall>j \<in> set (J v). map_option fst (mk j) = Some k') \<and> (\<exists>i' d'. mk i' = Some (k', d') \<and> i' \<in> set (js @ [i]) \<and> A v = A d')"
    if kv: "(k', v) \<in> set (add_keyed upd k d i m)" for k' v
    using add_entry[OF kv ok]
  proof
    assume "(k', v) \<in> set m"
    then show ?thesis using m by (fastforce simp: job_rows_def)
  next
    assume new: "k' = k \<and> v = upd i (gm_get_or d m k)"
    show ?thesis
    proof (cases "gm_get m k")
      case None
      then show ?thesis using new d by (auto simp: gm_get_or_def J_upd A_upd)
    next
      case (Some w)
      then have "(k, w) \<in> set m" by (rule gm_get_in)
      then have w: "\<forall>j \<in> set (J w). map_option fst (mk j) = Some k" "\<exists>i d. mk i = Some (k, d) \<and> i \<in> set js \<and> A w = A d"
        using m by (auto simp: job_rows_def)
      show ?thesis using new Some d w by (auto simp: gm_get_or_def J_upd A_upd)
    qed
  qed
  then show ?thesis
    using m jobs_set[OF d(2), of k i m] ok unfolding job_rows_def by (auto simp: add_keyed_def)
qed

lemma rows_empty: "job_rows J A mk [] []"
  by (simp add: job_rows_def)

end

section \<open>Auto mode\<close>

record partition =
  ap_env :: string
  ap_runs_on :: string
  ap_jobs :: "nat list"

definition add_to_partition :: "nat \<Rightarrow> partition \<Rightarrow> partition" where
  "add_to_partition i p = p\<lparr>ap_jobs := ap_jobs p @ [i]\<rparr>"

definition nul :: string where "nul = [CHR 0x00]"

definition partition_for :: "plan_job list \<Rightarrow> nat \<Rightarrow> (string \<times> partition) option" where
  "partition_for jobs i = Some (pb_environment (jobs ! i) @ nul @ pb_runs_on (jobs ! i),
     \<lparr>ap_env = pb_environment (jobs ! i), ap_runs_on = pb_runs_on (jobs ! i), ap_jobs = []\<rparr>)"

definition partitions :: "plan_job list \<Rightarrow> nat list \<Rightarrow> partition list" where
  "partitions jobs pending =
     map snd (fold (\<lambda>i m. case partition_for jobs i of Some (k, p) \<Rightarrow> add_keyed add_to_partition k p i m | None \<Rightarrow> m)
       pending [])"

definition empty_draft :: "string \<Rightarrow> string \<Rightarrow> string \<Rightarrow> string \<Rightarrow> int \<Rightarrow> draft" where
  "empty_draft baseID env runsOn source concurrency =
     \<lparr>dr_base_id = baseID, dr_env = env, dr_runs_on = runsOn, dr_source = source, dr_group = [],
      dr_component = [], dr_concurrency = concurrency, dr_jobs = [], dr_split_from = [],
      dr_id_suffix = [], dr_part = 0, dr_auto_k = 0, dr_auto_n = 0\<rparr>"

definition job_draft :: "plan_job \<Rightarrow> draft" where
  "job_draft job = (empty_draft (pb_id job) (pb_environment job) (pb_runs_on job) ''job'' 1)
     \<lparr>dr_component := pb_component job\<rparr>"

definition concurrencyOf :: "lane_concurrency \<Rightarrow> int \<Rightarrow> int" where
  "concurrencyOf c fallback = (if IsAuto c then - 1 else if c > 0 then c else fallback)"

definition laneConcurrency :: "intent_lanes \<Rightarrow> int" where
  "laneConcurrency cfg = concurrencyOf (il_concurrency cfg) DefaultLaneConcurrency"

definition auto_lanes :: "int \<Rightarrow> partition \<Rightarrow> nat list list \<Rightarrow> draft list" where
  "auto_lanes conc p bins =
     map (\<lambda>(k, js). (empty_draft (ap_env p @ ''/auto-'' @ itoa (k + 1)) (ap_env p) (ap_runs_on p) ''auto'' conc)
            \<lparr>dr_jobs := js, dr_auto_k := k + 1, dr_auto_n := length bins\<rparr>) (indexed bins)"

definition partition_lanes :: "int list \<Rightarrow> partition list \<Rightarrow> int list" where
  \<comment> \<open>the callback \<open>set\<close>: never more lanes than jobs\<close>
  "partition_lanes alloc parts =
     map (\<lambda>(n, p). if n > int (length (ap_jobs p)) then int (length (ap_jobs p)) else n) (zip alloc parts)"

definition autoDrafts :: "plan_job list \<Rightarrow> intent_lanes \<Rightarrow> nat list \<Rightarrow> int \<Rightarrow> job_graph \<Rightarrow> draft list option" where
  "autoDrafts jobs cfg pending fixd g =
     (let maxLanes = (if il_max_lanes cfg \<le> 0 then DefaultLaneMaxLanes else il_max_lanes cfg)
      in if int (length pending) \<le> maxLanes
         then Some (map (\<lambda>i. (job_draft (jobs ! i))\<lparr>dr_jobs := [i]\<rparr>) pending)
         else
           let budget = (if maxLanes - fixd < 1 then 1 else maxLanes - fixd);
               parts = partitions jobs pending;
               sizes = map (\<lambda>p. job_sum g (ap_jobs p)) parts;
               lanes = partition_lanes (allocateLanes (sum_list sizes) budget sizes) parts
           in map_option concat (all_some (map (\<lambda>(p, n). map_option (auto_lanes (laneConcurrency cfg) p)
                (packPartition g (ap_jobs p) n)) (zip parts lanes))))"

section \<open>The first layout\<close>

definition draft_for :: "intent_lanes \<Rightarrow> string \<Rightarrow> string gmap \<Rightarrow> plan_job \<Rightarrow> (string \<times> draft) option" where
  \<comment> \<open>the key and the lane of a job; \<open>None\<close> leaves it to auto mode\<close>
  "draft_for cfg mode compLanes job =
     (let env = pb_environment job; runsOn = pb_runs_on job; cmp = pb_component job; conc = laneConcurrency cfg;
          ann = gm_get_or [] compLanes cmp
      in if mode = LaneModeJob then Some (''job'' @ nul @ pb_id job, job_draft job)
         else if ann = LaneIsolated
         then Some (''iso'' @ nul @ env @ nul @ cmp,
                (empty_draft (env @ ''/'' @ cmp) env runsOn ''isolated'' conc)\<lparr>dr_component := cmp\<rparr>)
         else if ann \<noteq> []
         then Some (''grp'' @ nul @ env @ nul @ ann @ nul @ runsOn,
                (empty_draft (env @ ''/'' @ ann) env runsOn ''group''
                   (case gm_get (il_groups cfg) ann of
                      Some c \<Rightarrow> if c \<noteq> 0 then concurrencyOf c conc else conc
                    | None \<Rightarrow> conc))\<lparr>dr_group := ann\<rparr>)
         else if mode = LaneModeComponent
         then Some (''cmp'' @ nul @ env @ nul @ cmp @ nul @ runsOn,
                (empty_draft (env @ ''/'' @ cmp) env runsOn ''component'' conc)\<lparr>dr_component := cmp\<rparr>)
         else if mode = LaneModeEnv
         then Some (''env'' @ nul @ env @ nul @ runsOn, empty_draft env env runsOn ''env'' conc)
         else None)"

definition add_job :: "nat \<Rightarrow> draft \<Rightarrow> draft" where
  "add_job i d = d\<lparr>dr_jobs := dr_jobs d @ [i]\<rparr>"

definition initial_step :: "intent_lanes \<Rightarrow> string \<Rightarrow> string gmap \<Rightarrow> plan_job list \<Rightarrow> nat \<Rightarrow>
    draft gmap \<times> nat list \<Rightarrow> draft gmap \<times> nat list" where
  "initial_step cfg mode compLanes jobs i st =
     (case draft_for cfg mode compLanes (jobs ! i) of
        Some (k, d) \<Rightarrow> (add_keyed add_job k d i (fst st), snd st)
      | None \<Rightarrow> (fst st, snd st @ [i]))"

fun slug_runs :: "bool \<Rightarrow> string \<Rightarrow> string" where
  "slug_runs dash [] = []"
| "slug_runs dash (c # s) =
     (if is_lower c \<or> is_digit c then c # slug_runs False s
      else if dash then slug_runs True s else CHR ''-'' # slug_runs True s)"

definition slug :: "string \<Rightarrow> string" where
  \<comment> \<open>over bytes: a rune beyond ASCII is a run of bytes that are no letters, so one dash as in the source\<close>
  "slug s = rev (dropWhile (\<lambda>c. c = CHR ''-'') (rev (dropWhile (\<lambda>c. c = CHR ''-'') (slug_runs False (to_lower s)))))"

definition disambiguateRunsOn :: "draft list \<Rightarrow> draft list" where
  "disambiguateRunsOn ds =
     map (\<lambda>d. if length (filter (\<lambda>e. dr_base_id e = dr_base_id d) ds) < 2 then d
              else d\<lparr>dr_id_suffix := ''-'' @ slug (if dr_runs_on d = [] then ''default'' else dr_runs_on d)\<rparr>) ds"

definition initialDrafts :: "plan_job list \<Rightarrow> intent_lanes \<Rightarrow> string \<Rightarrow> string gmap \<Rightarrow> job_graph \<Rightarrow> draft list option" where
  "initialDrafts jobs cfg mode compLanes g =
     (let (m, pending) = fold (initial_step cfg mode compLanes jobs) [0..<length jobs] ([], []);
          out = map snd m
      in map_option (\<lambda>ds. disambiguateRunsOn (out @ ds))
           (if pending = [] then Some [] else autoDrafts jobs cfg pending (int (length out)) g))"

interpretation part_jobs: keyed_jobs ap_jobs "\<lambda>p. (ap_env p, ap_runs_on p)" add_to_partition
  by unfold_locales (simp_all add: add_to_partition_def)

interpretation lane_jobs: keyed_jobs dr_jobs place add_job
  by unfold_locales (simp_all add: add_job_def place_def)

section \<open>Each job gets one lane that it fits\<close>

definition laid_out :: "plan_job list \<Rightarrow> nat list \<Rightarrow> draft list \<Rightarrow> bool" where
  \<comment> \<open>the jobs \<open>js\<close>, each in one draft\<close>
  "laid_out jobs js ds \<longleftrightarrow> mset (job_lists ds) = mset js \<and> (\<forall>d \<in> set ds. draft_ok jobs d)"

lemma laid_out_all: "laid_out jobs [0..<length jobs] ds \<longleftrightarrow> drafts_ok jobs ds"
  by (simp add: laid_out_def drafts_ok_def splits_jobs_def)

lemma laid_out_append:
  "laid_out jobs js ds \<Longrightarrow> laid_out jobs js' ds' \<Longrightarrow> mset (js @ js') = mset ks \<Longrightarrow> laid_out jobs ks (ds @ ds')"
  by (auto simp: laid_out_def job_lists_def)

lemma nul_split:
  assumes "CHR 0x00 \<notin> set x" "CHR 0x00 \<notin> set x'"
  shows "x @ nul @ y = x' @ nul @ y' \<longleftrightarrow> x = x' \<and> y = y'"
  using assms
proof (induction x arbitrary: x')
  case Nil
  then show ?case by (cases x') (auto simp: nul_def)
next
  case (Cons c x)
  then show ?case by (cases x') (auto simp: nul_def)
qed

definition plain_names :: "plan_job list \<Rightarrow> string gmap \<Rightarrow> bool" where
  \<comment> \<open>no environment, component or lane name holds the separator of the map keys\<close>
  "plain_names jobs compLanes \<longleftrightarrow>
     (\<forall>job \<in> set jobs. CHR 0x00 \<notin> set (pb_environment job) \<and> CHR 0x00 \<notin> set (pb_component job)) \<and>
     (\<forall>(c, l) \<in> set compLanes. CHR 0x00 \<notin> set l)"

lemma partitions_spec:
  assumes "\<forall>i \<in> set pending. i < length jobs" "plain_names jobs compLanes"
  shows "mset (concat (map ap_jobs (partitions jobs pending))) = mset pending \<and>
    (\<forall>p \<in> set (partitions jobs pending). ap_jobs p \<noteq> [] \<and>
       (\<forall>j \<in> set (ap_jobs p). pb_environment (jobs ! j) = ap_env p \<and> pb_runs_on (jobs ! j) = ap_runs_on p))"
proof -
  let ?add = "\<lambda>i m. case partition_for jobs i of Some (k, p) \<Rightarrow> add_keyed add_to_partition k p i m | None \<Rightarrow> m"
  let ?A = "\<lambda>p. (ap_env p, ap_runs_on p)"
  have "job_rows ap_jobs ?A (partition_for jobs) (fold ?add js m) (before @ js)"
    if "job_rows ap_jobs ?A (partition_for jobs) m before" for js m before
    using that
  proof (induction js arbitrary: m before)
    case (Cons i js)
    have "job_rows ap_jobs ?A (partition_for jobs) (?add i m) (before @ [i])"
    proof -
      obtain k d where kd: "partition_for jobs i = Some (k, d)" "ap_jobs d = []" by (simp add: partition_for_def)
      show ?thesis using part_jobs.rows_add[OF Cons.prems kd] kd(1) by simp
    qed
    from Cons.IH[OF this] show ?case by simp
  qed simp
  from this[OF part_jobs.rows_empty, of pending]
  have k: "job_rows ap_jobs ?A (partition_for jobs) (fold ?add pending []) pending" by simp
  have same: "pb_environment (jobs ! j) = pb_environment (jobs ! i) \<and> pb_runs_on (jobs ! j) = pb_runs_on (jobs ! i)"
    if "i \<in> set pending" "j \<in> set pending" "map_option fst (partition_for jobs j) = map_option fst (partition_for jobs i)" for i j
    using that assms nul_split[of "pb_environment (jobs ! j)" "pb_environment (jobs ! i)"]
    by (auto simp: partition_for_def plain_names_def)
  have "set (ap_jobs p) \<subseteq> set pending \<and> ap_jobs p \<noteq> [] \<and> (\<exists>i \<in> set pending. ?A p = (pb_environment (jobs ! i), pb_runs_on (jobs ! i)) \<and>
      (\<forall>j \<in> set (ap_jobs p). map_option fst (partition_for jobs j) = map_option fst (partition_for jobs i)))"
    if p: "p \<in> set (partitions jobs pending)" for p
  proof -
    obtain key where kp: "(key, p) \<in> set (fold ?add pending [])" using p by (auto simp: partitions_def)
    obtain i d where "partition_for jobs i = Some (key, d)" "i \<in> set pending" "?A p = ?A d"
      using job_rows_entry(4)[OF k kp] by blast
    then show ?thesis using job_rows_entry(1-3)[OF k kp] by (auto simp: partition_for_def)
  qed
  then have "ap_jobs p \<noteq> [] \<and> (\<forall>j \<in> set (ap_jobs p). pb_environment (jobs ! j) = ap_env p \<and> pb_runs_on (jobs ! j) = ap_runs_on p)"
    if "p \<in> set (partitions jobs pending)" for p using that same by (metis Pair_inject subsetD)
  moreover have "mset (concat (map ap_jobs (partitions jobs pending))) = mset pending"
    using k by (simp add: job_rows_def partitions_def comp_def)
  ultimately show ?thesis by blast
qed

lemma partition_lanes_length: "length alloc = length parts \<Longrightarrow> length (partition_lanes alloc parts) = length parts"
  by (simp add: partition_lanes_def)

lemma auto_lanes_ok:
  assumes "packed g (ap_jobs p) n bins"
    and "\<forall>j \<in> set (ap_jobs p). pb_environment (jobs ! j) = ap_env p \<and> pb_runs_on (jobs ! j) = ap_runs_on p"
  shows "laid_out jobs (ap_jobs p) (auto_lanes conc p bins)"
proof -
  have "map dr_jobs (auto_lanes conc p bins) = map snd (indexed bins)"
    unfolding auto_lanes_def by (auto simp del: map_snd_index_from)
  then have js: "job_lists (auto_lanes conc p bins) = concat bins" by (simp add: job_lists_def)
  have "draft_ok jobs d" if d: "d \<in> set (auto_lanes conc p bins)" for d
  proof -
    obtain k b where b: "b \<in> set bins" "dr_jobs d = b" "place d = (ap_env p, ap_runs_on p, ''auto'', [])"
      using d by (auto simp: auto_lanes_def place_def empty_draft_def dest: set_index_from_snd)
    have "set b \<subseteq> set (concat bins)" using b(1) by auto
    also have "\<dots> = set (ap_jobs p)" using assms(1) mset_eq_setD unfolding packed_def by blast
    finally show ?thesis using b assms by (auto simp: draft_ok_def fits_def packed_def)
  qed
  then show ?thesis using assms(1) js by (simp add: laid_out_def packed_def)
qed

lemma autoDrafts_ok:
  assumes "graph_ok (length jobs) g" "climbing (length jobs) g" "\<forall>w \<in> set (jg_weight g). 0 < w"
    and "\<forall>i \<in> set pending. i < length jobs" "plain_names jobs compLanes"
  shows "\<exists>ds. autoDrafts jobs cfg pending fixd g = Some ds \<and> laid_out jobs pending ds"
proof (cases "int (length pending) \<le> (if il_max_lanes cfg \<le> 0 then DefaultLaneMaxLanes else il_max_lanes cfg)")
  case True
  have "laid_out jobs js (map (\<lambda>i. (job_draft (jobs ! i))\<lparr>dr_jobs := [i]\<rparr>) js)" for js
    by (induction js) (auto simp: laid_out_def job_lists_def draft_ok_def fits_def place_def job_draft_def empty_draft_def)
  then show ?thesis using True by (auto simp: autoDrafts_def Let_def)
next
  case False
  let ?parts = "partitions jobs pending"
  note ps = partitions_spec[OF assms(4,5)]
  define pns where "pns = zip ?parts (partition_lanes (allocateLanes (sum_list (map (\<lambda>p. job_sum g (ap_jobs p)) ?parts))
      (if (if il_max_lanes cfg \<le> 0 then DefaultLaneMaxLanes else il_max_lanes cfg) - fixd < 1 then 1
       else (if il_max_lanes cfg \<le> 0 then DefaultLaneMaxLanes else il_max_lanes cfg) - fixd)
      (map (\<lambda>p. job_sum g (ap_jobs p)) ?parts)) ?parts)"
  have below: "set (ap_jobs p) \<subseteq> {..<length jobs}" if "p \<in> set ?parts" for p
    using ps mset_eq_setD[of "concat (map ap_jobs ?parts)" pending] that assms(4) by auto
  have pos: "1 \<le> job_sum g (ap_jobs p)" if p: "p \<in> set ?parts" for p
  proof -
    obtain j js where j: "ap_jobs p = j # js" using ps p by (cases "ap_jobs p") auto
    have w: "0 < jg_weight g ! k" if "k \<in> set (ap_jobs p)" for k
      using below[OF p] that assms(1,3) by (auto simp: graph_ok_def)
    have "0 \<le> job_sum g js" unfolding job_sum_def using w j by (intro sum_list_nonneg) (auto simp: less_imp_le)
    then show ?thesis using w j by (simp add: int_one_le_iff_zero_less add_pos_nonneg)
  qed
  have "shares_ok (map (\<lambda>p. job_sum g (ap_jobs p)) ?parts) (allocateLanes tot b (map (\<lambda>p. job_sum g (ap_jobs p)) ?parts))" for tot b
    using allocateLanes_within[of "map (\<lambda>p. job_sum g (ap_jobs p)) ?parts"] pos by auto
  then have fst: "map fst pns = ?parts" by (simp add: pns_def partition_lanes_length shares_ok_def)
  have each: "\<exists>dss. all_some (map (\<lambda>(p, n). map_option (auto_lanes (laneConcurrency cfg) p) (packPartition g (ap_jobs p) n)) xs) = Some dss \<and>
      laid_out jobs (concat (map ap_jobs (map fst xs))) (concat dss)"
    if "set (map fst xs) \<subseteq> set ?parts" for xs :: "(partition \<times> int) list"
    using that
  proof (induction xs)
    case (Cons x xs)
    obtain p n where x: "x = (p, n)" by (cases x)
    have p: "p \<in> set ?parts" using Cons.prems by (simp add: x)
    obtain bins where bins: "packPartition g (ap_jobs p) n = Some bins" "packed g (ap_jobs p) (if n < 1 then 1 else nat n) bins"
      using packPartition_packed[OF assms(1,2) below[OF p] assms(3)] by blast
    have "laid_out jobs (ap_jobs p) (auto_lanes (laneConcurrency cfg) p bins)"
      using auto_lanes_ok[OF bins(2)] ps p by blast
    moreover obtain dss where "all_some (map (\<lambda>(p, n). map_option (auto_lanes (laneConcurrency cfg) p) (packPartition g (ap_jobs p) n)) xs) = Some dss"
      "laid_out jobs (concat (map ap_jobs (map fst xs))) (concat dss)" using Cons by auto
    ultimately show ?case using bins(1) laid_out_append by (auto simp: x)
  qed (simp add: laid_out_def job_lists_def)
  obtain dss where dss: "all_some (map (\<lambda>(p, n). map_option (auto_lanes (laneConcurrency cfg) p) (packPartition g (ap_jobs p) n)) pns) = Some dss"
    "laid_out jobs (concat (map ap_jobs ?parts)) (concat dss)"
    using each[of pns] unfolding fst by blast
  have "autoDrafts jobs cfg pending fixd g = Some (concat dss)"
    using False dss(1) unfolding pns_def autoDrafts_def by (simp add: Let_def)
  moreover have "laid_out jobs pending (concat dss)" using dss(2) ps by (simp add: laid_out_def)
  ultimately show ?thesis by blast
qed

section \<open>The first layout is complete\<close>

definition good_ids :: "string \<Rightarrow> plan_job list \<Rightarrow> bool" where
  \<comment> \<open>job mode makes a lane per job id\<close>
  "good_ids mode jobs \<longleftrightarrow> mode = LaneModeJob \<longrightarrow> distinct (map pb_id jobs)"

abbreviation row_for :: "intent_lanes \<Rightarrow> string \<Rightarrow> string gmap \<Rightarrow> plan_job list \<Rightarrow> nat \<Rightarrow> (string \<times> draft) option" where
  "row_for cfg mode compLanes jobs \<equiv> \<lambda>i. draft_for cfg mode compLanes (jobs ! i)"

lemma draft_for_empty: "draft_for cfg mode compLanes job = Some (k, d) \<Longrightarrow> dr_jobs d = []"
  by (auto simp: draft_for_def Let_def job_draft_def empty_draft_def split: if_splits)

lemma nul_free_ann:
  assumes "plain_names jobs compLanes"
  shows "CHR 0x00 \<notin> set (gm_get_or [] compLanes c)"
proof (cases "gm_get compLanes c")
  case (Some l)
  then have "(c, l) \<in> set compLanes" by (rule gm_get_in)
  then show ?thesis using assms Some by (auto simp: plain_names_def gm_get_or_def)
qed (simp add: gm_get_or_def)

lemma key_fits:
  assumes "draft_for cfg mode compLanes (jobs ! i) = Some (k, d)" "draft_for cfg mode compLanes (jobs ! j) = Some (k, e)"
    and "i < length jobs" "j < length jobs" "plain_names jobs compLanes" "good_ids mode jobs"
  shows "fits jobs (place d) j"
proof (cases "mode = LaneModeJob")
  case True
  then have "pb_id (jobs ! i) = pb_id (jobs ! j)" using assms(1,2) by (auto simp: draft_for_def nul_def)
  then have "i = j" using True assms(3,4,6) by (simp add: good_ids_def distinct_conv_nth) blast
  then show ?thesis using True assms(1) by (auto simp: draft_for_def fits_def place_def job_draft_def empty_draft_def)
next
  case False
  have n: "CHR 0x00 \<notin> set (pb_environment (jobs ! x)) \<and> CHR 0x00 \<notin> set (pb_component (jobs ! x))" if "x < length jobs" for x
    using that assms(5) by (simp add: plain_names_def)
  have nul: "nul @ x = CHR 0x00 # x" for x by (simp add: nul_def)
  have s: "x @ CHR 0x00 # y = x' @ CHR 0x00 # y' \<longleftrightarrow> x = x' \<and> y = y'"
    if "x \<in> A" "x' \<in> A" "A = {pb_environment (jobs ! i), pb_environment (jobs ! j), pb_component (jobs ! i),
      pb_component (jobs ! j)} \<union> range (gm_get_or [] compLanes)" for x x' y y' A
    using that n[OF assms(3)] n[OF assms(4)] nul_free_ann[OF assms(5)] nul_split[of x x' y y'] by (auto simp: nul)
  show ?thesis using assms(1,2) False
    by (auto simp: draft_for_def Let_def fits_def place_def empty_draft_def nul lane_consts s[OF _ _ refl] split: if_splits)
qed

lemma initial_steps_rows:
  assumes "job_rows dr_jobs place (row_for cfg mode compLanes jobs) m js" "fold (initial_step cfg mode compLanes jobs) is (m, pending) = (m', pending')"
  shows "job_rows dr_jobs place (row_for cfg mode compLanes jobs) m' (js @ filter (\<lambda>i. row_for cfg mode compLanes jobs i \<noteq> None) is) \<and>
    pending' = pending @ filter (\<lambda>i. row_for cfg mode compLanes jobs i = None) is"
  using assms
proof (induction "is" arbitrary: m js pending)
  case (Cons i "is")
  show ?case
  proof (cases "draft_for cfg mode compLanes (jobs ! i)")
    case None
    then show ?thesis using Cons.IH[OF Cons.prems(1), of "pending @ [i]"] Cons.prems(2) by (simp add: initial_step_def)
  next
    case (Some kd)
    obtain k d where kd: "kd = (k, d)" by (cases kd)
    then have r: "draft_for cfg mode compLanes (jobs ! i) = Some (k, d)" using Some by simp
    have "job_rows dr_jobs place (row_for cfg mode compLanes jobs) (add_keyed add_job k d i m) (js @ [i])"
      by (rule lane_jobs.rows_add[OF Cons.prems(1) r draft_for_empty[OF r]])
    from Cons.IH[OF this, of pending] Cons.prems(2) r show ?thesis by (simp add: initial_step_def)
  qed
qed simp

lemma disambiguateRunsOn_core: "map draft_core (disambiguateRunsOn ds) = map draft_core ds"
  by (simp add: disambiguateRunsOn_def draft_core_def place_def)

theorem initialDrafts_ok:
  assumes "graph_ok (length jobs) g" "climbing (length jobs) g" "\<forall>w \<in> set (jg_weight g). 0 < w"
    and "plain_names jobs compLanes" "good_ids mode jobs"
  shows "\<exists>ds. initialDrafts jobs cfg mode compLanes g = Some ds \<and> drafts_ok jobs ds"
proof -
  let ?row = "row_for cfg mode compLanes jobs" and ?all = "[0..<length jobs]"
  obtain m pending where f: "fold (initial_step cfg mode compLanes jobs) ?all ([], []) = (m, pending)" by force
  have rows: "job_rows dr_jobs place ?row m (filter (\<lambda>i. ?row i \<noteq> None) ?all)" and
    pend: "pending = filter (\<lambda>i. ?row i = None) ?all"
    using initial_steps_rows[OF lane_jobs.rows_empty f] by simp_all
  have "draft_ok jobs d" if d: "(k, d) \<in> set m" for k d
  proof -
    note e = job_rows_entry[OF rows d]
    obtain i d0 where i: "?row i = Some (k, d0)" "i < length jobs" "place d = place d0" using e(4) by auto
    have "fits jobs (place d) j" if j: "j \<in> set (dr_jobs d)" for j
    proof -
      have "map_option fst (?row j) = Some k" using e(3)[OF j] .
      then obtain e' where "?row j = Some (k, e')" by (cases "?row j") auto
      moreover have "j < length jobs" using e(2) j by auto
      ultimately show ?thesis using key_fits[OF i(1) _ i(2) _ assms(4,5)] i(3) by simp
    qed
    then show ?thesis using e(1) by (simp add: draft_ok_def)
  qed
  then have "laid_out jobs (filter (\<lambda>i. ?row i \<noteq> None) ?all) (map snd m)"
    using rows by (auto simp: laid_out_def job_lists_def job_rows_def comp_def)
  moreover have "\<exists>ds. (if pending = [] then Some [] else autoDrafts jobs cfg pending (int (length (map snd m))) g) = Some ds \<and>
      laid_out jobs pending ds"
    using autoDrafts_ok[OF assms(1-3) _ assms(4), of pending] pend
    by (cases "pending = []") (auto simp: laid_out_def job_lists_def)
  moreover have "mset (filter (\<lambda>i. ?row i \<noteq> None) ?all @ pending) = mset ?all"
  proof -
    have "mset (filter (\<lambda>i. r i \<noteq> None) xs @ filter (\<lambda>i. r i = None) xs) = mset xs" for r :: "nat \<Rightarrow> 'b option" and xs
      by (induction xs) auto
    then show ?thesis unfolding pend .
  qed
  ultimately obtain ds where ds: "(if pending = [] then Some [] else autoDrafts jobs cfg pending (int (length (map snd m))) g) = Some ds"
    "laid_out jobs ?all (map snd m @ ds)" using laid_out_append by blast
  have "initialDrafts jobs cfg mode compLanes g = Some (disambiguateRunsOn (map snd m @ ds))"
    using f ds(1) by (simp add: initialDrafts_def)
  then show ?thesis
    using ds(2) drafts_ok_core[OF disambiguateRunsOn_core, of jobs "map snd m @ ds"] by (auto simp: laid_out_all)
qed

end
