(* ===== verification/Go_Runes.thy ===== *)
theory Go_Runes
  imports Go_Strings
begin

text \<open>
  UTF-8 as Go decodes it (\<open>unicode/utf8\<close>): the length of the first rune of a byte string and its runes.
\<close>

definition byte_in :: "nat \<Rightarrow> nat \<Rightarrow> string \<Rightarrow> nat \<Rightarrow> bool" where
  "byte_in lo hi s k \<longleftrightarrow> k < length s \<and> lo \<le> of_char (s ! k) \<and> of_char (s ! k) \<le> hi"

definition rune_len :: "string \<Rightarrow> nat" where
  \<comment> \<open>bytes of the first rune of a nonempty string, by Go's UTF-8 table; 0 when it is invalid\<close>
  "rune_len s =
     (if byte_in 0 0x7F s 0 then 1
      else if byte_in 0xC2 0xDF s 0 \<and> byte_in 0x80 0xBF s 1 then 2
      else if byte_in 0x80 0xBF s 2 \<and>
              (byte_in 0xE0 0xE0 s 0 \<and> byte_in 0xA0 0xBF s 1 \<or>
               byte_in 0xED 0xED s 0 \<and> byte_in 0x80 0x9F s 1 \<or>
               (byte_in 0xE1 0xEC s 0 \<or> byte_in 0xEE 0xEF s 0) \<and> byte_in 0x80 0xBF s 1) then 3
      else if byte_in 0x80 0xBF s 2 \<and> byte_in 0x80 0xBF s 3 \<and>
              (byte_in 0xF0 0xF0 s 0 \<and> byte_in 0x90 0xBF s 1 \<or>
               byte_in 0xF1 0xF3 s 0 \<and> byte_in 0x80 0xBF s 1 \<or>
               byte_in 0xF4 0xF4 s 0 \<and> byte_in 0x80 0x8F s 1) then 4
      else 0)"

function runes :: "string \<Rightarrow> string list" where
  \<comment> \<open>\<open>[]rune(s)\<close>, each rune as its bytes; an invalid byte becomes U+FFFD\<close>
  "runes [] = []"
| "runes (c # s) =
     (if rune_len (c # s) = 0 then [CHR 0xEF, CHR 0xBF, CHR 0xBD] # runes s
      else take (rune_len (c # s)) (c # s) # runes (drop (rune_len (c # s)) (c # s)))"
  by pat_completeness auto

termination
  by (relation "measure length") auto

definition rune_start :: "char \<Rightarrow> bool" where
  \<comment> \<open>\<open>utf8.RuneStart\<close>\<close>
  "rune_start c \<longleftrightarrow> \<not> (0x80 \<le> (of_char c :: nat) \<and> (of_char c :: nat) < 0xC0)"

end
