(* ===== verification/Lanes.thy ===== *)
theory Lanes
  imports Lane_Drafts Go_Runes
begin

text \<open>
  \<open>internal/lanes\<close>, the component as a whole: \<open>Assign\<close> chooses the mode and the budget, lays the jobs
  out, repairs cycles and writes the lanes of the plan (\<open>finalize\<close>, \<open>stampUpstreams\<close>). The theorems are
  about \<open>Assign\<close> itself. A plan is a value here, so a call that returns an error leaves no trace, where
  the Go function has by then set the plan's lane metadata and weights.
\<close>

section \<open>Options\<close>

record options =
  lo_config :: "intent_lanes option"
  lo_component_lanes :: "string gmap"
  lo_matched_triggers :: "string list"
  lo_strict :: bool
  lo_check_name :: "(plan_job \<Rightarrow> string) option"
  lo_max_lanes :: int
  lo_max_lanes_from :: string
  lo_weights :: "int gmap"
  lo_weights_from :: string

record assign_result =
  ar_mode :: string
  ar_repairs :: "(cycle_note \<times> split_note list) list"

definition EffectiveMode :: "intent_lanes option \<Rightarrow> string list \<Rightarrow> string" where
  "EffectiveMode cfg matched =
     (case cfg of
        None \<Rightarrow> []
      | Some cfg \<Rightarrow>
          (case find (\<lambda>r. ru_trigger_ref r \<in> set matched \<and> ru_choice r \<noteq> []) (il_rules cfg) of
             Some r \<Rightarrow> ru_choice r
           | None \<Rightarrow> if il_mode cfg = [] then LaneModeJob else il_mode cfg))"

definition applyWeights :: "plan_job list \<Rightarrow> options \<Rightarrow> plan_job list \<times> string" where
  "applyWeights jobs opts =
     (if lo_weights opts \<noteq> []
      then (map (\<lambda>job. case gm_get (lo_weights opts) (pb_id job) of
                   Some w \<Rightarrow> if w > 0 then job\<lparr>pb_estimated_seconds := w\<rparr> else job
                 | None \<Rightarrow> job) jobs,
            if lo_weights_from opts \<noteq> [] then lo_weights_from opts else ''file'')
      else (jobs, if list_ex (\<lambda>j. pb_estimated_seconds j > 0) jobs then ''declared'' else []))"

definition ForIntent :: "intent option \<Rightarrow> string list \<Rightarrow> bool \<Rightarrow> (plan_job \<Rightarrow> string) option \<Rightarrow> options" where
  "ForIntent intent matchedTriggers strict checkName =
     (let opts = \<lparr>lo_config = None, lo_component_lanes = [], lo_matched_triggers = matchedTriggers, lo_strict = strict,
                  lo_check_name = checkName, lo_max_lanes = 0, lo_max_lanes_from = [], lo_weights = [],
                  lo_weights_from = []\<rparr>
      in case intent of
           None \<Rightarrow> opts
         | Some i \<Rightarrow> opts\<lparr>lo_config := ie_lanes (in_execution i),
             lo_component_lanes := fold (\<lambda>c m. if c_lane c = [] then m else gm_set (c_name c) (c_lane c) m)
               (in_components i) []\<rparr>)"

section \<open>Names of lanes\<close>

definition middot :: string where "middot = [CHR 0xC2, CHR 0xB7]"
definition ellipsis :: string where "ellipsis = [CHR 0xE2, CHR 0x80, CHR 0xA6]"
definition dot_sep :: string where "dot_sep = '' '' @ middot @ '' ''"

definition maxNameLen :: nat where "maxNameLen = 80"

fun label_of :: "plan_job list \<Rightarrow> nat list \<Rightarrow> string \<Rightarrow> string" where
  "label_of jobs [] label = (if label = [] then ''auto'' else label)"
| "label_of jobs (j # js) label =
     (if label = [] then label_of jobs js (pb_composition (jobs ! j))
      else if pb_composition (jobs ! j) \<noteq> label then ''auto''
      else label_of jobs js label)"

definition autoLabel :: "plan_job list \<Rightarrow> draft \<Rightarrow> string" where
  "autoLabel jobs d = label_of jobs (dr_jobs d) []"

fun drop_suffix :: "string list \<Rightarrow> string list \<Rightarrow> string list" where
  "drop_suffix [] names = names"
| "drop_suffix (suffix # rest) names =
     (if length names > 1 \<and> list_all (\<lambda>n. has_suffix n suffix) names
      then map (\<lambda>n. trim_suffix n suffix) names
      else drop_suffix rest names)"

definition listComponents :: "plan_job list \<Rightarrow> draft \<Rightarrow> string" where
  "listComponents jobs d =
     (let names = drop_suffix [''-worker'', ''-service'', ''-app'']
            (sort (fold (\<lambda>j names. let c = pb_component (jobs ! j) in if c \<in> set names then names else names @ [c])
               (dr_jobs d) []))
      in if length names \<le> 3 then join '', '' names
         else join '', '' (take 3 names) @ '' +'' @ itoa (length names - 3))"

definition full_name :: "plan_job list \<Rightarrow> draft \<Rightarrow> (plan_job \<Rightarrow> string) option \<Rightarrow> string" where
  "full_name jobs d checkName =
     (let part = (if dr_part d > 0 then middot @ itoa (dr_part d) else []);
          n = length (dr_jobs d);
          count = (if n = 1 then ''1 job'' else itoa n @ '' jobs'')
      in if dr_source d = ''job''
         then let job = jobs ! hd (dr_jobs d); name = (case checkName of Some f \<Rightarrow> f job | None \<Rightarrow> [])
              in if name = [] then pb_id job else name
         else if dr_source d = ''component'' then dr_env d @ dot_sep @ dr_component d @ part
         else if dr_source d = ''group'' then dr_env d @ dot_sep @ dr_group d @ part @ dot_sep @ count
         else if dr_source d = ''env'' then dr_env d @ dot_sep @ ''all'' @ part @ dot_sep @ count
         else if dr_source d = ''isolated'' then dr_env d @ dot_sep @ dr_component d @ part @ dot_sep @ ''isolated''
         else if dr_source d = ''auto''
         then dr_env d @ dot_sep @ autoLabel jobs d @ '' '' @ itoa (dr_auto_k d) @ ''/'' @ itoa (dr_auto_n d) @ part @
              dot_sep @ listComponents jobs d
         else [])"

definition laneName :: "plan_job list \<Rightarrow> draft \<Rightarrow> (plan_job \<Rightarrow> string) option \<Rightarrow> string" where
  "laneName jobs d checkName =
     (let name = full_name jobs d checkName; r = runes name
      in if length r > maxNameLen then concat (take (maxNameLen - 1) r) @ ellipsis else name)"

section \<open>Writing the lanes\<close>

definition env_ranks :: "plan_job list \<Rightarrow> nat gmap" where
  "env_ranks jobs =
     fold (\<lambda>job m. if gm_has m (pb_environment job) then m else gm_set (pb_environment job) (length m) m) jobs []"

definition minLevel :: "job_graph \<Rightarrow> draft \<Rightarrow> int" where
  "minLevel g d =
     fold (\<lambda>j m. if m < 0 \<or> int (jg_level g ! j) < m then int (jg_level g ! j) else m) (dr_jobs d) (- 1)"

definition order_drafts :: "plan_job list \<Rightarrow> job_graph \<Rightarrow> draft list \<Rightarrow> draft list" where
  "order_drafts jobs g =
     sort_key (\<lambda>d. (gm_get_or 0 (env_ranks jobs) (dr_env d), minLevel g d, laneID d))"

definition jobVCPU :: "plan_job \<Rightarrow> int" where
  "jobVCPU job =
     (case pb_resources job of
        None \<Rightarrow> 0
      | Some r \<Rightarrow> if jr_cpu r \<le> 0 then 0
                  else let n = \<lfloor>jr_cpu r\<rfloor> in if of_int n < jr_cpu r then n + 1 else n)"

definition stamp_jobs :: "string \<Rightarrow> nat list \<Rightarrow> plan_job list \<Rightarrow> plan_job list" where
  "stamp_jobs lane js jobs = fold (\<lambda>j jobs. jobs[j := (jobs ! j)\<lparr>pb_lane := lane\<rparr>]) js jobs"

definition draft_lane :: "job_graph \<Rightarrow> (plan_job \<Rightarrow> string) option \<Rightarrow> plan_job list \<Rightarrow> nat \<Rightarrow> draft \<Rightarrow> plan_lane" where
  "draft_lane g checkName jobs i d =
     \<lparr>ln_id = laneID d, ln_name = laneName jobs d checkName, ln_index = i, ln_environment = dr_env d,
      ln_jobs = map (\<lambda>j. pb_id (jobs ! j)) (dr_jobs d),
      ln_concurrency = (if dr_concurrency d < 0 then 0 else if dr_concurrency d = 0 then 1 else dr_concurrency d),
      ln_runs_on = dr_runs_on d, ln_source = dr_source d, ln_group = dr_group d,
      ln_split_from = dr_split_from d, ln_reason = (if dr_split_from d \<noteq> [] then ''cycle'' else []),
      ln_level = 0, ln_upstream_lanes = [], ln_upstream_jobs = [],
      ln_estimated_seconds = (if jg_weighted g then job_sum g (dr_jobs d) else 0),
      ln_vcpu = fold (\<lambda>j m. if jobVCPU (jobs ! j) > m then jobVCPU (jobs ! j) else m) (dr_jobs d) 0\<rparr>"

fun write_lanes :: "job_graph \<Rightarrow> (plan_job \<Rightarrow> string) option \<Rightarrow> (nat \<times> draft) list \<Rightarrow> plan_job list \<Rightarrow>
    plan_job list \<times> plan_lane list" where
  "write_lanes g checkName [] jobs = (jobs, [])"
| "write_lanes g checkName ((i, d) # ds) jobs =
     (let jobs = stamp_jobs (laneID d) (dr_jobs d) jobs;
          lane = draft_lane g checkName jobs i d
      in case write_lanes g checkName ds jobs of (jobs, lanes) \<Rightarrow> (jobs, lane # lanes))"

definition outside_deps :: "job_graph \<Rightarrow> nat list \<Rightarrow> nat \<Rightarrow> draft \<Rightarrow> nat list" where
  \<comment> \<open>the jobs of other lanes that lane \<open>li\<close> waits on: the keys of \<open>upJobs[li]\<close>\<close>
  "outside_deps g laneOf li d =
     remdups (concat (map (\<lambda>j. filter (\<lambda>dep. laneOf ! dep \<noteq> li) (jg_deps g ! j)) (dr_jobs d)))"

definition up_lanes :: "job_graph \<Rightarrow> nat list \<Rightarrow> nat \<Rightarrow> draft \<Rightarrow> nat list" where
  "up_lanes g laneOf li d = remdups (map (\<lambda>dep. laneOf ! dep) (outside_deps g laneOf li d))"

definition stampUpstreams :: "plan_job list \<Rightarrow> job_graph \<Rightarrow> draft list \<Rightarrow> plan_lane list \<Rightarrow> plan_lane list option" where
  "stampUpstreams jobs g ds lanes =
     (let laneOf = lane_of (length jobs) ds
      in map_option (\<lambda>level. map (\<lambda>(li, lane). lane\<lparr>ln_level := level ! li,
             ln_upstream_lanes := sort (map (\<lambda>up. ln_id (lanes ! up)) (up_lanes g laneOf li (ds ! li))),
             ln_upstream_jobs := sort (map (\<lambda>j. pb_id (jobs ! j)) (outside_deps g laneOf li (ds ! li)))\<rparr>) (indexed lanes))
           (levels (length ds) (\<lambda>li. up_lanes g laneOf li (ds ! li))))"

definition finalize :: "plan \<Rightarrow> job_graph \<Rightarrow> draft list \<Rightarrow> (plan_job \<Rightarrow> string) option \<Rightarrow> plan option" where
  "finalize plan g drafts checkName =
     (let ds = map (\<lambda>d. d\<lparr>dr_jobs := sort (dr_jobs d)\<rparr>) (order_drafts (pl_jobs plan) g drafts);
          (jobs, lanes) = write_lanes g checkName (indexed ds) (pl_jobs plan)
      in map_option (\<lambda>lanes. plan\<lparr>pl_jobs := jobs, pl_lanes := lanes\<rparr>) (stampUpstreams jobs g ds lanes))"

section \<open>Assign\<close>

definition lanes_meta :: "intent_lanes \<Rightarrow> options \<Rightarrow> string \<Rightarrow> string \<Rightarrow> plan_lanes_meta" where
  "lanes_meta cfg opts mode weightsFrom =
     (let m = \<lparr>lm_mode = mode, lm_max_lanes = il_max_lanes cfg, lm_max_lanes_from = ''intent'',
               lm_weights_from = weightsFrom, lm_upstream_wait = il_upstream_wait cfg\<rparr>
      in if lo_max_lanes opts > 0
         then m\<lparr>lm_max_lanes := lo_max_lanes opts,
                lm_max_lanes_from := (if lo_max_lanes_from opts = [] then ''flag'' else lo_max_lanes_from opts)\<rparr>
         else if il_max_lanes cfg \<le> 0 then m\<lparr>lm_max_lanes := DefaultLaneMaxLanes, lm_max_lanes_from := ''default''\<rparr>
         else m)"

definition Assign :: "plan \<Rightarrow> options \<Rightarrow> lanes_error + plan \<times> assign_result" where
  "Assign plan opts =
     (case lo_config opts of
        None \<Rightarrow> Inr (plan, \<lparr>ar_mode = [], ar_repairs = []\<rparr>)
      | Some cfg0 \<Rightarrow>
          let mode = EffectiveMode (Some cfg0) (lo_matched_triggers opts)
          in if pl_jobs plan = [] then Inr (plan\<lparr>pl_lanes := []\<rparr>, \<lparr>ar_mode = mode, ar_repairs = []\<rparr>)
             else
               let cfg = (if lo_max_lanes opts > 0 then cfg0\<lparr>il_max_lanes := lo_max_lanes opts\<rparr> else cfg0);
                   (jobs, weightsFrom) = applyWeights (pl_jobs plan) opts;
                   plan = plan\<lparr>pl_metadata := (pl_metadata plan)\<lparr>pm_lanes := Some (lanes_meta cfg0 opts mode weightsFrom)\<rparr>,
                               pl_jobs := jobs\<rparr>
               in case newJobGraph jobs of
                    None \<Rightarrow> Inl LanesFuel
                  | Some g \<Rightarrow>
                      (case initialDrafts jobs cfg mode (lo_component_lanes opts) g of
                         None \<Rightarrow> Inl LanesFuel
                       | Some drafts \<Rightarrow>
                           (case repairCycles jobs g drafts cfg (lo_strict opts) of
                              Inl e \<Rightarrow> Inl e
                            | Inr (drafts, repairs) \<Rightarrow>
                                (case finalize plan g drafts (lo_check_name opts) of
                                   None \<Rightarrow> Inl LanesFuel
                                 | Some plan \<Rightarrow> Inr (plan, \<lparr>ar_mode = mode, ar_repairs = repairs\<rparr>)))))"

section \<open>The job graph of a plan\<close>

lemma finite_acyclic_rank:
  fixes E :: "('a \<times> 'a) set"
  assumes "finite E" "acyclic E"
  shows "\<exists>r :: 'a \<Rightarrow> nat. \<forall>(a, b) \<in> E. r a < r b"
proof -
  let ?r = "\<lambda>b. card {x. (x, b) \<in> E\<^sup>+}"
  have fin: "finite {x. (x, b) \<in> E\<^sup>+}" for b
  proof (rule finite_subset)
    show "{x. (x, b) \<in> E\<^sup>+} \<subseteq> fst ` E" by (auto dest!: tranclD intro: rev_image_eqI)
  qed (use assms(1) in simp)
  have "?r a < ?r b" if ab: "(a, b) \<in> E" for a b
  proof (rule psubset_card_mono[OF fin])
    have "a \<notin> {x. (x, a) \<in> E\<^sup>+}" using assms(2) by (auto simp: acyclic_def)
    then show "{x. (x, a) \<in> E\<^sup>+} \<subset> {x. (x, b) \<in> E\<^sup>+}" using ab by (auto intro: trancl_into_trancl)
  qed
  then show ?thesis by (intro exI[of _ ?r]) auto
qed

lemma levels_length: "inside m ups \<Longrightarrow> levels m ups = Some level \<Longrightarrow> length level = m"
proof -
  have "visit_all n ups is st = Some st' \<Longrightarrow> inside m ups \<Longrightarrow> undone (fst st) < n \<Longrightarrow> set is \<subseteq> {..<m} \<Longrightarrow> length (fst st) = m \<Longrightarrow>
      length (snd st') = length (snd st)" for n "is" st st'
  proof (induction "is" arbitrary: st)
    case (Cons i "is")
    then obtain v st1 where v: "visit n ups i st = Some (v, st1)" "visits_more (fst st) (fst st1)" "length (snd st1) = length (snd st)"
      using visit_returns(1)[of m ups st n i] by auto
    moreover have "undone (fst st1) < n" "length (fst st1) = m" using v(2) Cons.prems by (auto simp: visits_more_def)
    ultimately show ?case using Cons by auto
  qed simp
  from this[of "Suc m" "[0..<m]" "(replicate m False, replicate m 0)"]
  show "inside m ups \<Longrightarrow> levels m ups = Some level \<Longrightarrow> length level = m"
    using upt_below[of m] by (auto simp: levels_def undone_def)
qed

lemma job_index_spec:
  "gm_get (job_index jobs) k = Some i \<Longrightarrow> i < length jobs \<and> pb_id (jobs ! i) = k"
proof -
  have "gm_get (fold (\<lambda>(i, job). gm_set (pb_id job) i) ps m) k = Some i \<Longrightarrow>
      (\<exists>job. (i, job) \<in> set ps \<and> pb_id job = k) \<or> gm_get m k = Some i" for ps and m :: "(string, nat) gmap_of"
    by (induction ps arbitrary: m) (fastforce simp: gm_get_set split: if_splits)+
  from this[of "indexed jobs" "[]"] show "gm_get (job_index jobs) k = Some i \<Longrightarrow> i < length jobs \<and> pb_id (jobs ! i) = k"
    by (auto simp: job_index_def in_indexed)
qed

lemma job_index_distinct:
  assumes "distinct (map pb_id jobs)" "i < length jobs"
  shows "gm_get (job_index jobs) (pb_id (jobs ! i)) = Some i"
proof -
  have "gm_has (fold (\<lambda>(i, job). gm_set (pb_id job) i) ps m) k \<longleftrightarrow> gm_has m k \<or> k \<in> (pb_id \<circ> snd) ` set ps"
    for ps :: "(nat \<times> plan_job) list" and k and m :: "(string, nat) gmap_of"
    by (induction ps arbitrary: m) (auto simp: gm_has_set)
  moreover have "pb_id (jobs ! i) \<in> (pb_id \<circ> snd) ` set (indexed jobs)" using assms(2) 
  proof -
    have "(i, jobs ! i) \<in> set (indexed jobs)" using assms(2) by (simp add: in_indexed)
    then show ?thesis by force
  qed
  ultimately have "gm_has (job_index jobs) (pb_id (jobs ! i))" by (simp add: job_index_def)
  then obtain k where k: "gm_get (job_index jobs) (pb_id (jobs ! i)) = Some k" by (auto simp: gm_has_def)
  then have "k = i" using job_index_spec[OF k] assms by (auto simp: distinct_conv_nth)
  then show ?thesis using k by simp
qed

lemma job_deps_set: "d \<in> set (job_deps index job) \<longleftrightarrow> (\<exists>dep \<in> set (pb_depends_on job). gm_get index dep = Some d)"
  by (auto simp: job_deps_def List.map_filter_def image_iff)

definition plan_acyclic :: "plan_job list \<Rightarrow> bool" where
  \<comment> \<open>no cycle of enforced dependencies, which the planner refuses\<close>
  "plan_acyclic jobs \<longleftrightarrow> acyclic {(dep, pb_id job) | dep job. job \<in> set jobs \<and> dep \<in> set (pb_depends_on job)}"

lemma newJobGraph_ok:
  assumes "newJobGraph jobs = Some g"
  shows "graph_ok (length jobs) g" "\<forall>w \<in> set (jg_weight g). 0 < w"
    "jg_deps g = map (job_deps (job_index jobs)) jobs"
    "levels (length jobs) (\<lambda>i. jg_deps g ! i) = Some (jg_level g)"
proof -
  have "set (job_deps (job_index jobs) job) \<subseteq> {..<length jobs}" for job
    using job_index_spec by (auto simp: job_deps_set)
  then have ins: "inside (length jobs) (\<lambda>i. map (job_deps (job_index jobs)) jobs ! i)" by (auto simp: inside_def)
  show d: "jg_deps g = map (job_deps (job_index jobs)) jobs"
    and l: "levels (length jobs) (\<lambda>i. jg_deps g ! i) = Some (jg_level g)"
    using assms by (auto simp: newJobGraph_def Let_def)
  show "graph_ok (length jobs) g"
  proof -
    have "length (jg_weight g) = length jobs" using assms by (auto simp: newJobGraph_def Let_def)
    then show ?thesis using levels_length[OF ins] ins d l by (auto simp: graph_ok_def inside_def)
  qed
  have "0 < default_weight jobs"
  proof (cases "declared_weights jobs = []")
    case False
    have "declared_weights jobs ! (length (declared_weights jobs) div 2) \<in> set (declared_weights jobs)"
      using False by (intro nth_mem) (simp add: div_less_dividend)
    moreover have "\<forall>w \<in> set (declared_weights jobs). 0 < w" by (simp add: declared_weights_def)
    ultimately show ?thesis using False by (simp add: default_weight_def Let_def)
  qed (simp add: default_weight_def)
  then show "\<forall>w \<in> set (jg_weight g). 0 < w" using assms by (auto simp: newJobGraph_def Let_def)
qed

lemma newJobGraph_returns: "newJobGraph jobs \<noteq> None"
proof -
  have "set (job_deps (job_index jobs) job) \<subseteq> {..<length jobs}" for job
    using job_index_spec by (auto simp: job_deps_set)
  then have "inside (length jobs) (\<lambda>i. map (job_deps (job_index jobs)) jobs ! i)" by (auto simp: inside_def)
  from levels_returns[OF this] show ?thesis by (simp add: newJobGraph_def Let_def)
qed

lemma newJobGraph_climbing:
  assumes "newJobGraph jobs = Some g" "plan_acyclic jobs"
  shows "climbing (length jobs) g"
proof -
  let ?E = "job_edge_set (length jobs) g" and ?id = "\<lambda>i. pb_id (jobs ! i)"
  let ?I = "{(dep, pb_id job) | dep job. job \<in> set jobs \<and> dep \<in> set (pb_depends_on job)}"
  note g = newJobGraph_ok[OF assms(1)]
  have e: "(?id d, ?id j) \<in> ?I" if "(d, j) \<in> ?E" for d j
  proof -
    have j: "j < length jobs" "d \<in> set (job_deps (job_index jobs) (jobs ! j))" using that g(3) by (auto simp: job_edge_set_def)
    then obtain dep where "dep \<in> set (pb_depends_on (jobs ! j))" "gm_get (job_index jobs) dep = Some d" by (auto simp: job_deps_set)
    then have "?id d \<in> set (pb_depends_on (jobs ! j))" using job_index_spec by metis
    then show ?thesis using j(1) by (force simp: in_set_conv_nth)
  qed
  have path: "(?id d, ?id j) \<in> ?I\<^sup>+" if "(d, j) \<in> ?E\<^sup>+" for d j
    using that
  proof (induction rule: trancl_induct)
    case (step j k)
    show ?case using step.IH e[OF step(2)] by (rule trancl_into_trancl)
  qed (use e in blast)
  have "(x, x) \<notin> ?E\<^sup>+" for x using path assms(2) unfolding plan_acyclic_def acyclic_def by blast
  then have ac: "acyclic ?E" by (simp add: acyclic_def)
  moreover have sub: "?E \<subseteq> {..<length jobs} \<times> {..<length jobs}" by (rule job_edge_set_below[OF g(1)])
  then have "finite ?E" by (rule finite_subset) simp
  ultimately obtain r :: "nat \<Rightarrow> nat" where r: "\<forall>(a, b) \<in> ?E. r a < r b" using finite_acyclic_rank by blast
  have "ranked (length jobs) (\<lambda>i. jg_deps g ! i) r"
    using g(1) r by (auto simp: ranked_def inside_def graph_ok_def job_edge_set_def)
  from levels_correct[OF this g(4)] show ?thesis
    using ups_level_less by (fastforce simp: climbing_def job_edge_set_def)
qed

end
