(* ===== verification/Lanes_Correct.thy ===== *)
theory Lanes_Correct
  imports Lanes
begin

text \<open>
  The theorems about \<open>lanes.Assign\<close>: what a returned layout satisfies, that one is returned for every
  acyclic plan unless cycles are to be rejected, and the bounds of packing and of names.
\<close>

section \<open>Names\<close>

lemma rune_len_prefix:
  assumes "rune_len s \<noteq> 0"
  shows "rune_len s \<le> length s \<and> rune_len (take (rune_len s) s @ t) = rune_len s"
proof -
  have b: "byte_in lo hi (take n s @ t) k \<longleftrightarrow> byte_in lo hi s k" if "k < n" "n \<le> length s" for lo hi n k
    using that by (simp add: byte_in_def nth_append)
  have long: "byte_in lo hi s k \<Longrightarrow> Suc k \<le> length s" for lo hi k by (simp add: byte_in_def)
  consider "rune_len s = 1" "byte_in 0 0x7F s 0"
    | "rune_len s = 2" "byte_in 0x80 0xBF s 1"
    | "rune_len s = 3" "byte_in 0x80 0xBF s 2"
    | "rune_len s = 4" "byte_in 0x80 0xBF s 3"
    using assms by (auto simp: rune_len_def split: if_splits)
  then show ?thesis
  proof cases
    case 1
    then show ?thesis using long[OF 1(2)] b[of _ 1] by (simp add: rune_len_def)
  next
    case 2
    have n: "2 \<le> length s" using long[OF 2(2)] by simp
    then show ?thesis using 2(1) b[of 0 2] b[of 1 2] by (auto simp: rune_len_def split: if_splits)
  next
    case 3
    have n: "3 \<le> length s" using long[OF 3(2)] by simp
    then show ?thesis using 3(1) b[of 0 3] b[of 1 3] b[of 2 3] by (auto simp: rune_len_def split: if_splits)
  next
    case 4
    have n: "4 \<le> length s" using long[OF 4(2)] by simp
    then show ?thesis using 4(1) b[of 0 4] b[of 1 4] b[of 2 4] b[of 3 4] by (auto simp: rune_len_def split: if_splits)
  qed
qed

definition whole_rune :: "string \<Rightarrow> bool" where
  "whole_rune r \<longleftrightarrow> r \<noteq> [] \<and> (\<forall>t. runes (r @ t) = r # runes t)"

lemma whole_runeI:
  assumes "r \<noteq> []" "\<And>t. rune_len (r @ t) = length r"
  shows "whole_rune r"
proof -
  have "runes (r @ t) = r # runes t" for t
    using assms assms(2)[of t] by (cases r) (auto simp del: rune_len_def)
  then show ?thesis using assms(1) by (simp add: whole_rune_def)
qed

lemma runes_whole: "\<forall>r \<in> set (runes s). whole_rune r"
proof (induction s rule: runes.induct)
  case (2 c s)
  have fffd: "whole_rune [CHR 0xEF, CHR 0xBF, CHR 0xBD]"
    by (rule whole_runeI) (simp_all add: rune_len_def byte_in_def)
  show ?case
  proof (cases "rune_len (c # s) = 0")
    case False
    note p = rune_len_prefix[OF False]
    have "whole_rune (take (rune_len (c # s)) (c # s))"
      by (rule whole_runeI) (use p False in \<open>auto simp del: take_Suc_Cons\<close>)
    then show ?thesis using 2(2)[OF False] False by simp
  qed (use 2 fffd in simp)
qed simp

lemma runes_concat: "\<forall>r \<in> set rs. whole_rune r \<Longrightarrow> runes (concat rs @ t) = rs @ runes t"
  by (induction rs) (auto simp: whole_rune_def)

lemma laneName_short: "length (runes (laneName jobs d checkName)) \<le> maxNameLen"
proof -
  let ?r = "runes (full_name jobs d checkName)"
  have "runes ellipsis = [ellipsis]" by code_simp
  moreover have "\<forall>r \<in> set (take (maxNameLen - 1) ?r). whole_rune r"
    using runes_whole[of "full_name jobs d checkName"] by (meson in_set_takeD)
  ultimately have "runes (concat (take (maxNameLen - 1) ?r) @ ellipsis) = take (maxNameLen - 1) ?r @ [ellipsis]"
    using runes_concat[of "take (maxNameLen - 1) ?r" ellipsis] by (simp only:)
  then have "length (runes (concat (take (maxNameLen - 1) ?r) @ ellipsis)) \<le> maxNameLen"
    by (simp add: maxNameLen_def)
  then show ?thesis unfolding laneName_def Let_def by (simp split: if_splits)
qed

section \<open>Weights and stamps leave the jobs as they are\<close>

definition same_job :: "plan_job \<Rightarrow> plan_job \<Rightarrow> bool" where
  \<comment> \<open>equal but for the weight and the lane\<close>
  "same_job a b \<longleftrightarrow> (\<exists>s l. b = a\<lparr>pb_estimated_seconds := s, pb_lane := l\<rparr>)"

lemma same_job_refl: "same_job a a"
proof -
  have "a = a\<lparr>pb_estimated_seconds := pb_estimated_seconds a, pb_lane := pb_lane a\<rparr>" by simp
  then show ?thesis unfolding same_job_def by blast
qed

lemma same_job_trans: "same_job a b \<Longrightarrow> same_job b c \<Longrightarrow> same_job a c"
proof -
  assume "same_job a b" "same_job b c"
  then obtain s l s' l' where "b = a\<lparr>pb_estimated_seconds := s, pb_lane := l\<rparr>"
    "c = b\<lparr>pb_estimated_seconds := s', pb_lane := l'\<rparr>" by (auto simp: same_job_def)
  then have "c = a\<lparr>pb_estimated_seconds := s', pb_lane := l'\<rparr>" by simp
  then show ?thesis unfolding same_job_def by blast
qed

lemma same_jobs_trans: "list_all2 same_job a b \<Longrightarrow> list_all2 same_job b c \<Longrightarrow> list_all2 same_job a c"
  unfolding list_all2_conv_all_nth using same_job_trans by metis

lemma same_job_fields:
  assumes "same_job a b"
  shows "pb_id b = pb_id a" "pb_environment b = pb_environment a" "pb_runs_on b = pb_runs_on a"
    "pb_component b = pb_component a" "pb_depends_on b = pb_depends_on a"
  using assms by (auto simp: same_job_def)

lemma same_job_weight: "same_job a (a\<lparr>pb_estimated_seconds := w\<rparr>)"
proof -
  have "a\<lparr>pb_estimated_seconds := w\<rparr> = a\<lparr>pb_estimated_seconds := w, pb_lane := pb_lane a\<rparr>" by simp
  then show ?thesis unfolding same_job_def by blast
qed

lemma same_job_lane: "same_job a (a\<lparr>pb_lane := l\<rparr>)"
proof -
  have "a\<lparr>pb_lane := l\<rparr> = a\<lparr>pb_estimated_seconds := pb_estimated_seconds a, pb_lane := l\<rparr>" by simp
  then show ?thesis unfolding same_job_def by blast
qed

lemma applyWeights_same: "list_all2 same_job jobs (fst (applyWeights jobs opts))"
  by (auto simp: applyWeights_def list_all2_conv_all_nth same_job_refl same_job_weight split: option.splits)

lemma stamp_jobs_nth:
  "length (stamp_jobs l js jobs) = length jobs \<and>
   (k < length jobs \<longrightarrow> stamp_jobs l js jobs ! k = (if k \<in> set js then (jobs ! k)\<lparr>pb_lane := l\<rparr> else jobs ! k))"
proof (induction js arbitrary: jobs)
  case (Cons j js)
  have "stamp_jobs l (j # js) jobs = stamp_jobs l js (jobs[j := (jobs ! j)\<lparr>pb_lane := l\<rparr>])" by (simp add: stamp_jobs_def)
  then show ?case
    using Cons[of "jobs[j := (jobs ! j)\<lparr>pb_lane := l\<rparr>]"] by (cases "k = j") auto
qed (simp add: stamp_jobs_def)

lemma stamp_jobs_same: "list_all2 same_job jobs (stamp_jobs l js jobs)"
  using stamp_jobs_nth[of l js jobs] by (auto simp: list_all2_conv_all_nth same_job_refl same_job_lane)

lemma drafts_ok_same:
  assumes "list_all2 same_job jobs jobs'"
  shows "drafts_ok jobs' ds \<longleftrightarrow> drafts_ok jobs ds"
proof -
  have len: "length jobs' = length jobs" using list_all2_lengthD[OF assms] by simp
  have fits: "fits jobs' p j \<longleftrightarrow> fits jobs p j" if "j < length jobs" for p j
    using list_all2_nthD[OF assms that] by (auto simp: fits_def same_job_fields split: prod.splits)
  have "draft_ok jobs' d \<longleftrightarrow> draft_ok jobs d" if "set (dr_jobs d) \<subseteq> {..<length jobs}" for d
  proof -
    have "(\<forall>j \<in> set (dr_jobs d). fits jobs' (place d) j) \<longleftrightarrow> (\<forall>j \<in> set (dr_jobs d). fits jobs (place d) j)"
      by (rule ball_cong[OF refl]) (use that fits in blast)
    then show ?thesis by (simp add: draft_ok_def)
  qed
  then show ?thesis
    using draft_jobs_below[of "length jobs" ds] unfolding drafts_ok_def len by blast
qed

section \<open>Writing the lanes\<close>

definition lane_of_draft_ok :: "plan_job list \<Rightarrow> plan_lane \<Rightarrow> draft \<Rightarrow> bool" where
  "lane_of_draft_ok jobs l d \<longleftrightarrow> ln_id l = laneID d \<and> ln_jobs l = map (\<lambda>j. pb_id (jobs ! j)) (dr_jobs d) \<and>
     ln_environment l = dr_env d \<and> ln_runs_on l = dr_runs_on d \<and> ln_source l = dr_source d \<and>
     0 \<le> ln_concurrency l \<and> (\<exists>js d' f. ln_name l = laneName js d' f)"

lemma write_lanes_spec:
  assumes "write_lanes g checkName ds jobs = (jobs', lanes)"
    and "\<forall>(i, d) \<in> set ds. set (dr_jobs d) \<subseteq> {..<length jobs}" "distinct (job_lists (map snd ds))"
  shows "list_all2 same_job jobs jobs' \<and> list_all2 (lane_of_draft_ok jobs) lanes (map snd ds) \<and>
    (\<forall>(i, d) \<in> set ds. \<forall>j \<in> set (dr_jobs d). pb_lane (jobs' ! j) = laneID d) \<and>
    (\<forall>j < length jobs. j \<notin> set (job_lists (map snd ds)) \<longrightarrow> jobs' ! j = jobs ! j)"
  using assms
proof (induction g checkName ds jobs arbitrary: lanes rule: write_lanes.induct)
  case (1 g checkName jobs)
  then show ?case by (auto simp: list_all2_conv_all_nth same_job_refl)
next
  case (2 g checkName i d ds jobs)
  let ?jobs = "stamp_jobs (laneID d) (dr_jobs d) jobs"
  obtain lanes' where w: "write_lanes g checkName ds ?jobs = (jobs', lanes')" "lanes = draft_lane g checkName ?jobs i d # lanes'"
    using 2(2) by (auto simp: Let_def split: prod.splits)
  have s: "list_all2 same_job jobs ?jobs" by (rule stamp_jobs_same)
  have len: "length ?jobs = length jobs" using list_all2_lengthD[OF s] by simp
  have id: "pb_id (?jobs ! j) = pb_id (jobs ! j)" if "j < length jobs" for j
    using list_all2_nthD[OF s that] by (rule same_job_fields)
  have below: "set (dr_jobs e) \<subseteq> {..<length jobs}" if "(k, e) \<in> insert (i, d) (set ds)" for k e using 2(3) that by auto
  have fresh: "j \<notin> set (job_lists (map snd ds))" if "j \<in> set (dr_jobs d)" for j
    using 2(4) that by (auto simp: job_lists_def)
  have IH: "list_all2 same_job ?jobs jobs' \<and> list_all2 (lane_of_draft_ok ?jobs) lanes' (map snd ds) \<and>
      (\<forall>(i, d) \<in> set ds. \<forall>j \<in> set (dr_jobs d). pb_lane (jobs' ! j) = laneID d) \<and>
      (\<forall>j < length ?jobs. j \<notin> set (job_lists (map snd ds)) \<longrightarrow> jobs' ! j = ?jobs ! j)"
    using 2(1)[OF refl refl w(1)] 2(3,4) by (simp add: len job_lists_def)
  have cong: "lane_of_draft_ok ?jobs l e \<Longrightarrow> lane_of_draft_ok jobs l e" if "set (dr_jobs e) \<subseteq> {..<length jobs}" for l e
    using id that by (auto simp: lane_of_draft_ok_def subset_iff)
  have "list_all2 (lane_of_draft_ok jobs) lanes' (map snd ds)"
  proof (rule list_all2_all_nthI)
    show "length lanes' = length (map snd ds)" using IH list_all2_lengthD by blast
    fix k assume "k < length lanes'"
    then have "lane_of_draft_ok ?jobs (lanes' ! k) (map snd ds ! k)" using IH list_all2_nthD by blast
    moreover have "map snd ds ! k \<in> set (map snd ds)" using \<open>k < length lanes'\<close> IH list_all2_lengthD by (metis nth_mem)
    then obtain i' where "(i', map snd ds ! k) \<in> set ds" by auto
    then have "set (dr_jobs (map snd ds ! k)) \<subseteq> {..<length jobs}" using below by blast
    ultimately show "lane_of_draft_ok jobs (lanes' ! k) (map snd ds ! k)" using cong by blast
  qed
  moreover have "lane_of_draft_ok jobs (draft_lane g checkName ?jobs i d) d"
    using below[of i d] id by (auto simp: lane_of_draft_ok_def draft_lane_def)
  moreover have "list_all2 same_job jobs jobs'"
    using same_jobs_trans[OF s] IH by blast
  moreover have "pb_lane (jobs' ! j) = laneID d" if j: "j \<in> set (dr_jobs d)" for j
  proof -
    have "j < length jobs" using below[of i d] j by auto
    then have "jobs' ! j = ?jobs ! j" "?jobs ! j = (jobs ! j)\<lparr>pb_lane := laneID d\<rparr>"
      using IH fresh[OF j] stamp_jobs_nth[of "laneID d" "dr_jobs d" jobs j] j by (auto simp: len)
    then show ?thesis by simp
  qed
  moreover have "jobs' ! j = jobs ! j" if "j < length jobs" "j \<notin> set (dr_jobs d)" "j \<notin> set (job_lists (map snd ds))" for j
    using IH that stamp_jobs_nth[of "laneID d" "dr_jobs d" jobs j] by (simp add: len)
  ultimately show ?case using IH w(2) by (auto simp: job_lists_def)
qed

section \<open>Levels of lanes\<close>

lemma same_partition_acyclic:
  assumes "graph_ok n g" "splits_jobs n ds" "splits_jobs n ds'"
    and "(\<lambda>d. set (dr_jobs d)) ` set ds' = (\<lambda>d. set (dr_jobs d)) ` set ds"
    and "acyclic (quot (job_edge_set n g) (lane_label n ds))"
  shows "acyclic (quot (job_edge_set n g) (lane_label n ds'))"
proof -
  have "(\<exists>d \<in> set ds'. j \<in> set (dr_jobs d) \<and> k \<in> set (dr_jobs d)) \<longleftrightarrow> (\<exists>d \<in> set ds. j \<in> set (dr_jobs d) \<and> k \<in> set (dr_jobs d))" for j k
  proof -
    have "(\<exists>S \<in> (\<lambda>d. set (dr_jobs d)) ` set ds'. j \<in> S \<and> k \<in> S) \<longleftrightarrow> (\<exists>S \<in> (\<lambda>d. set (dr_jobs d)) ` set ds. j \<in> S \<and> k \<in> S)"
      by (simp only: assms(4))
    then show ?thesis by simp
  qed
  then have rl: "relabels {..<n} {} (lane_label n ds) (lane_label n ds')"
    using same_lane_iff[OF assms(2)] same_lane_iff[OF assms(3)] by (simp add: relabels_def)
  have "sink {..<n} (job_edge_set n g) (lane_label n ds) {} {}"
    using job_edge_set_below[OF assms(1)] by (simp add: sink_def)
  moreover have "acyclic (quot (job_edge_set n g \<inter> {} \<times> {}) (lane_label n ds'))" by (simp add: quot_def acyclic_def)
  ultimately have sub: "on_cycle {..<n} (job_edge_set n g) (lane_label n ds') \<subseteq> on_cycle {..<n} (job_edge_set n g) (lane_label n ds)"
    using on_cycle_shrinks rl by fastforce
  have "(x, x) \<notin> (quot (job_edge_set n g) (lane_label n ds'))\<^sup>+" for x
  proof
    assume x: "(x, x) \<in> (quot (job_edge_set n g) (lane_label n ds'))\<^sup>+"
    then obtain y where "(x, y) \<in> quot (job_edge_set n g) (lane_label n ds')" by (metis tranclD)
    then obtain j where "j < n" "lane_of n ds' ! j = x" using job_edge_set_below[OF assms(1)] by (auto simp: quot_def)
    then have "j \<in> on_cycle {..<n} (job_edge_set n g) (lane_label n ds')" using x by (simp add: on_cycle_def)
    then show False using sub assms(5) by (auto simp: on_cycle_def acyclic_def)
  qed
  then show ?thesis by (simp add: acyclic_def)
qed

lemma outside_deps_set:
  "dep \<in> set (outside_deps g laneOf li d) \<longleftrightarrow> (\<exists>j \<in> set (dr_jobs d). dep \<in> set (jg_deps g ! j) \<and> laneOf ! dep \<noteq> li)"
  by (auto simp: outside_deps_def)

lemma up_lanes_quot:
  assumes "graph_ok n g" "splits_jobs n ds" "li < length ds"
  shows "up \<in> set (up_lanes g (lane_of n ds) li (ds ! li)) \<longleftrightarrow> (up, li) \<in> quot (job_edge_set n g) (lane_label n ds)"
proof -
  have j: "j < n \<and> lane_of n ds ! j = li" if "j \<in> set (dr_jobs (ds ! li))" for j
    using that draft_jobs_below[OF assms(2) nth_mem[OF assms(3)]] lane_of_draft[OF assms(2,3)] by auto
  have at: "j \<in> set (dr_jobs (ds ! li))" if "j < n" "lane_of n ds ! j = li" for j
    using draft_of_job[OF assms(2) that(1)] that(2) by auto
  show ?thesis
  proof
    assume "up \<in> set (up_lanes g (lane_of n ds) li (ds ! li))"
    then obtain dep k where k: "up = lane_of n ds ! dep" "k \<in> set (dr_jobs (ds ! li))" "dep \<in> set (jg_deps g ! k)"
      "lane_of n ds ! dep \<noteq> li" by (auto simp: up_lanes_def outside_deps_set)
    then have "(dep, k) \<in> job_edge_set n g" using j by (auto simp: job_edge_set_def)
    then show "(up, li) \<in> quot (job_edge_set n g) (lane_label n ds)" using k j[OF k(2)] by (auto intro: quotI)
  next
    assume "(up, li) \<in> quot (job_edge_set n g) (lane_label n ds)"
    then obtain dep k where "up = lane_of n ds ! dep" "lane_of n ds ! k = li" "(dep, k) \<in> job_edge_set n g"
      "lane_of n ds ! dep \<noteq> lane_of n ds ! k" by (auto simp: quot_def)
    moreover from this have "dep \<in> set (outside_deps g (lane_of n ds) li (ds ! li))"
      using at by (auto simp: outside_deps_set job_edge_set_def)
    ultimately show "up \<in> set (up_lanes g (lane_of n ds) li (ds ! li))" by (simp add: up_lanes_def)
  qed
qed

lemma lane_levels:
  assumes "graph_ok n g" "splits_jobs n ds" "acyclic (quot (job_edge_set n g) (lane_label n ds))"
  shows "\<exists>level. levels (length ds) (\<lambda>li. up_lanes g (lane_of n ds) li (ds ! li)) = Some level \<and> length level = length ds \<and>
    (\<forall>li < length ds. \<forall>up \<in> set (up_lanes g (lane_of n ds) li (ds ! li)). up < length ds \<and> level ! up < level ! li)"
proof -
  let ?Q = "quot (job_edge_set n g) (lane_label n ds)" and ?ups = "\<lambda>li. up_lanes g (lane_of n ds) li (ds ! li)"
  have lt: "lane_of n ds ! j < length ds" if "j < n" for j using draft_of_job[OF assms(2) that] by auto
  have sub: "?Q \<subseteq> {..<length ds} \<times> {..<length ds}" using job_edge_set_below[OF assms(1)] lt by (force simp: quot_def)
  then have "finite ?Q" by (rule finite_subset) simp
  then obtain r :: "nat \<Rightarrow> nat" where r: "\<forall>(a, b) \<in> ?Q. r a < r b" using finite_acyclic_rank assms(3) by blast
  have rk: "ranked (length ds) ?ups r"
    using up_lanes_quot[OF assms(1,2)] sub r by (auto simp: ranked_def inside_def)
  then obtain level where l: "levels (length ds) ?ups = Some level" using levels_returns[of "length ds" ?ups] by (auto simp: ranked_def)
  from levels_correct[OF rk l] show ?thesis
    using l rk ups_level_less by (fastforce simp: ranked_def inside_def)
qed

section \<open>Assign\<close>

lemma finalize_spec:
  assumes "newJobGraph jobs0 = Some g" "length jobs0 = length (pl_jobs p)" "drafts_ok (pl_jobs p) drafts"
    and "acyclic (quot (job_edge_set (length (pl_jobs p)) g) (lane_label (length (pl_jobs p)) drafts))"
  shows "\<exists>p' ds. finalize p g drafts checkName = Some p' \<and> drafts_ok (pl_jobs p) ds \<and>
    (\<forall>d \<in> set ds. sorted (dr_jobs d)) \<and> list_all2 same_job (pl_jobs p) (pl_jobs p') \<and>
    list_all2 (lane_of_draft_ok (pl_jobs p)) (pl_lanes p') ds \<and>
    (\<forall>d \<in> set ds. \<forall>j \<in> set (dr_jobs d). pb_lane (pl_jobs p' ! j) = laneID d) \<and>
    (\<forall>b < length ds. \<forall>j \<in> set (dr_jobs (ds ! b)). \<forall>dep \<in> set (jg_deps g ! j). \<forall>a < length ds.
       dep \<in> set (dr_jobs (ds ! a)) \<longrightarrow> a \<noteq> b \<longrightarrow>
         ln_id (pl_lanes p' ! a) \<in> set (ln_upstream_lanes (pl_lanes p' ! b)) \<and>
         pb_id (pl_jobs p' ! dep) \<in> set (ln_upstream_jobs (pl_lanes p' ! b)) \<and>
         ln_level (pl_lanes p' ! a) < ln_level (pl_lanes p' ! b))"
proof -
  let ?n = "length (pl_jobs p)" and ?ord = "order_drafts (pl_jobs p) g drafts"
  define ds where "ds = map (\<lambda>d. d\<lparr>dr_jobs := sort (dr_jobs d)\<rparr>) ?ord"
  have g: "graph_ok ?n g" using newJobGraph_ok(1)[OF assms(1)] assms(2) by simp
  have set_ord: "set ?ord = set drafts" and mset_ord: "mset ?ord = mset drafts" by (simp_all add: order_drafts_def)
  have "mset (job_lists ds) = mset (job_lists ?ord)" by (simp add: ds_def job_lists_def comp_def mset_concat_mset mset_concat)
  moreover have "mset (job_lists ?ord) = mset (job_lists drafts)"
    unfolding job_lists_def by (rule mset_concat_mset[OF mset_ord])
  ultimately have sp: "splits_jobs ?n ds" using assms(3) by (simp add: drafts_ok_def splits_jobs_def)
  have "draft_ok (pl_jobs p) d" if d: "d \<in> set ds" for d
  proof -
    obtain d0 where d0: "d0 \<in> set drafts" "d = d0\<lparr>dr_jobs := sort (dr_jobs d0)\<rparr>" using d set_ord by (auto simp: ds_def)
    then have "draft_ok (pl_jobs p) d0" using assms(3) by (simp add: drafts_ok_def)
    moreover have "sort (dr_jobs d0) \<noteq> []" if "dr_jobs d0 \<noteq> []" using that by (metis set_empty2 set_sort)
    ultimately show ?thesis by (auto simp: d0(2) draft_ok_def place_def)
  qed
  then have ok: "drafts_ok (pl_jobs p) ds" using sp by (simp add: drafts_ok_def)
  have "(\<lambda>d. set (dr_jobs d)) ` set ds = (\<lambda>d. set (dr_jobs d)) ` set drafts"
    using set_ord by (auto simp: ds_def image_image)
  then have ac: "acyclic (quot (job_edge_set ?n g) (lane_label ?n ds))"
    using same_partition_acyclic[OF g _ sp _ assms(4)] assms(3) by (simp add: drafts_ok_def)
  obtain jobs lanes where w: "write_lanes g checkName (indexed ds) (pl_jobs p) = (jobs, lanes)" by force
  have below: "\<forall>(i, d) \<in> set (indexed ds). set (dr_jobs d) \<subseteq> {..<?n}"
    using draft_jobs_below[OF sp] set_index_from_snd by fast
  note ws = write_lanes_spec[OF w below, simplified, OF splits_jobs_distinct[OF sp]]
  have same: "list_all2 same_job (pl_jobs p) jobs" and lok: "list_all2 (lane_of_draft_ok (pl_jobs p)) lanes ds"
    and lane: "\<forall>(i, d) \<in> set (indexed ds). \<forall>j \<in> set (dr_jobs d). pb_lane (jobs ! j) = laneID d"
    using ws by blast+
  have len: "length jobs = ?n" "length lanes = length ds" using list_all2_lengthD[OF same] list_all2_lengthD[OF lok] by simp_all
  obtain level where l: "levels (length ds) (\<lambda>li. up_lanes g (lane_of ?n ds) li (ds ! li)) = Some level" "length level = length ds"
    "\<forall>li < length ds. \<forall>up \<in> set (up_lanes g (lane_of ?n ds) li (ds ! li)). up < length ds \<and> level ! up < level ! li"
    using lane_levels[OF g sp ac] by blast
  define lanes' where "lanes' = map (\<lambda>(li, lane). lane\<lparr>ln_level := level ! li,
     ln_upstream_lanes := sort (map (\<lambda>up. ln_id (lanes ! up)) (up_lanes g (lane_of ?n ds) li (ds ! li))),
     ln_upstream_jobs := sort (map (\<lambda>j. pb_id (jobs ! j)) (outside_deps g (lane_of ?n ds) li (ds ! li)))\<rparr>) (indexed lanes)"
  have nth: "lanes' ! k = (lanes ! k)\<lparr>ln_level := level ! k,
     ln_upstream_lanes := sort (map (\<lambda>up. ln_id (lanes ! up)) (up_lanes g (lane_of ?n ds) k (ds ! k))),
     ln_upstream_jobs := sort (map (\<lambda>j. pb_id (jobs ! j)) (outside_deps g (lane_of ?n ds) k (ds ! k)))\<rparr>" if "k < length ds" for k
    using that by (simp add: lanes'_def len index_from_def)
  have f: "finalize p g drafts checkName = Some (p\<lparr>pl_jobs := jobs, pl_lanes := lanes'\<rparr>)"
    using w l(1) by (simp add: finalize_def ds_def[symmetric] stampUpstreams_def lanes'_def len Let_def)
  have lens': "length lanes' = length ds" by (simp add: lanes'_def len index_from_def)
  have "list_all2 (lane_of_draft_ok (pl_jobs p)) lanes' ds"
    using lok nth lens' by (auto simp: list_all2_conv_all_nth lane_of_draft_ok_def)
  moreover have "\<forall>d \<in> set ds. \<forall>j \<in> set (dr_jobs d). pb_lane (jobs ! j) = laneID d"
  proof (intro ballI)
    fix d j assume "d \<in> set ds" "j \<in> set (dr_jobs d)"
    moreover obtain k where "(k, d) \<in> set (indexed ds)" using \<open>d \<in> set ds\<close> in_indexed by (metis in_set_conv_nth)
    ultimately show "pb_lane (jobs ! j) = laneID d" using lane by auto
  qed
  moreover have "ln_id (lanes' ! a) \<in> set (ln_upstream_lanes (lanes' ! b)) \<and>
       pb_id (jobs ! dep) \<in> set (ln_upstream_jobs (lanes' ! b)) \<and> ln_level (lanes' ! a) < ln_level (lanes' ! b)"
    if b: "b < length ds" "j \<in> set (dr_jobs (ds ! b))" "dep \<in> set (jg_deps g ! j)" "a < length ds"
      "dep \<in> set (dr_jobs (ds ! a))" "a \<noteq> b" for a b j dep
  proof -
    have la: "lane_of ?n ds ! dep = a" by (rule lane_of_draft[OF sp b(4,5)])
    then have "dep \<in> set (outside_deps g (lane_of ?n ds) b (ds ! b))" using b by (auto simp: outside_deps_set)
    moreover from this have "a \<in> set (up_lanes g (lane_of ?n ds) b (ds ! b))" using la by (auto simp: up_lanes_def)
    ultimately show ?thesis using l(3) b(1,4) by (simp add: nth)
  qed
  moreover have "\<forall>d \<in> set ds. sorted (dr_jobs d)" by (auto simp: ds_def)
  ultimately show ?thesis using f ok same by (intro exI[of _ "p\<lparr>pl_jobs := jobs, pl_lanes := lanes'\<rparr>"] exI[of _ ds]) simp
qed

lemma repairCycles_ok:
  assumes "newJobGraph jobs = Some g" "drafts_ok jobs ds"
  shows "case repairCycles jobs g ds cfg strict of
      Inl e \<Rightarrow> e \<noteq> LanesFuel \<and> ((\<exists>c. e = CycleRejected c) \<longrightarrow> strict \<or> il_on_cycle cfg = LaneOnCycleReject)
    | Inr (ds', _) \<Rightarrow> drafts_ok jobs ds' \<and> acyclic (quot (job_edge_set (length jobs) g) (lane_label (length jobs) ds'))"
proof -
  note g = newJobGraph_ok(1)[OF assms(1)]
  have "acyclic (quot (job_edge_set (length jobs) g) (lane_label (length jobs) ds'))"
    if "drafts_ok jobs ds'" "sccs (fst (laneEdges g ds')) = Some []" for ds'
  proof -
    have sp: "splits_jobs (length jobs) ds'" using that(1) by (simp add: drafts_ok_def)
    show ?thesis using no_sccs_acyclic[OF laneEdges_spec(3)[OF g sp] that(2)] adj_edges_quot[OF g sp] by simp
  qed
  then show ?thesis
    using repair_rounds_ok[OF g assms(2), where n = "length jobs + 1" and ns = "[]" and
      reject = "strict \<or> il_on_cycle cfg = LaneOnCycleReject"]
    by (auto simp: repairCycles_def split: sum.splits)
qed

lemma repairCycles_succeeds:
  assumes "newJobGraph jobs = Some g" "drafts_ok jobs ds" "climbing (length jobs) g" "\<not> strict" "il_on_cycle cfg \<noteq> LaneOnCycleReject"
  shows "\<exists>r. repairCycles jobs g ds cfg strict = Inr r"
proof -
  have "card (cycle_jobs (length jobs) g ds) \<le> card {..<length jobs}"
    by (rule card_mono) (auto simp: cycle_jobs_def on_cycle_def)
  then show ?thesis
    using repair_rounds_succeed[OF newJobGraph_ok(1)[OF assms(1)] assms(3,2), where n = "length jobs + 1" and ns = "[]"] assms(4,5)
    by (simp add: repairCycles_def)
qed

definition plan_ready :: "plan \<Rightarrow> options \<Rightarrow> bool" where
  \<comment> \<open>what \<open>Assign\<close> may rely on: an acyclic plan, names without NUL, distinct job ids\<close>
  "plan_ready p opts \<longleftrightarrow> plan_acyclic (pl_jobs p) \<and> plain_names (pl_jobs p) (lo_component_lanes opts) \<and>
     distinct (map pb_id (pl_jobs p))"

lemma plan_ready_same:
  assumes "list_all2 same_job jobs jobs'"
  shows "map pb_id jobs' = map pb_id jobs" "plan_acyclic jobs' \<longleftrightarrow> plan_acyclic jobs"
    "plain_names jobs' cl \<longleftrightarrow> plain_names jobs cl" "good_ids mode jobs' \<longleftrightarrow> good_ids mode jobs"
proof -
  show id: "map pb_id jobs' = map pb_id jobs"
    using assms by (induction rule: list_all2_induct) (auto simp: same_job_fields)
  have "map (\<lambda>j. (pb_id j, pb_depends_on j)) jobs' = map (\<lambda>j. (pb_id j, pb_depends_on j)) jobs"
    using assms by (induction rule: list_all2_induct) (auto simp: same_job_fields)
  then have s: "(\<lambda>j. (pb_id j, pb_depends_on j)) ` set jobs' = (\<lambda>j. (pb_id j, pb_depends_on j)) ` set jobs"
    by (metis list.set_map)
  have "{(dep, pb_id job) | dep job. job \<in> set js \<and> dep \<in> set (pb_depends_on job)} =
      {(dep, i) | dep i ds. (i, ds) \<in> (\<lambda>j. (pb_id j, pb_depends_on j)) ` set js \<and> dep \<in> set ds}" for js :: "plan_job list"
    by (auto simp: image_iff)
  then show "plan_acyclic jobs' \<longleftrightarrow> plan_acyclic jobs" unfolding plan_acyclic_def by (simp only: s)
  have "map (\<lambda>j. (pb_environment j, pb_component j)) jobs' = map (\<lambda>j. (pb_environment j, pb_component j)) jobs"
    using assms by (induction rule: list_all2_induct) (auto simp: same_job_fields)
  then have s: "(\<lambda>j. (pb_environment j, pb_component j)) ` set jobs' = (\<lambda>j. (pb_environment j, pb_component j)) ` set jobs"
    by (metis list.set_map)
  have "(\<forall>j \<in> set js. CHR 0x00 \<notin> set (pb_environment j) \<and> CHR 0x00 \<notin> set (pb_component j)) \<longleftrightarrow>
      (\<forall>(e, c) \<in> (\<lambda>j. (pb_environment j, pb_component j)) ` set js. CHR 0x00 \<notin> set e \<and> CHR 0x00 \<notin> set c)" for js :: "plan_job list"
    by auto
  then show "plain_names jobs' cl \<longleftrightarrow> plain_names jobs cl" unfolding plain_names_def by (simp only: s)
  show "good_ids mode jobs' \<longleftrightarrow> good_ids mode jobs" by (simp only: good_ids_def id)
qed

text \<open>Everything \<open>Assign\<close> goes through before its result, as one fact.\<close>

lemma assign_run:
  assumes ready: "plan_ready p opts" and cfg: "lo_config opts = Some cfg" and jobs: "pl_jobs p \<noteq> []"
  shows "(\<exists>p' res ds. Assign p opts = Inr (p', res) \<and> drafts_ok (pl_jobs p) ds \<and>
      (\<forall>d \<in> set ds. sorted (dr_jobs d)) \<and> list_all2 same_job (pl_jobs p) (pl_jobs p') \<and>
      list_all2 (lane_of_draft_ok (pl_jobs p)) (pl_lanes p') ds \<and>
      (\<forall>d \<in> set ds. \<forall>j \<in> set (dr_jobs d). pb_lane (pl_jobs p' ! j) = laneID d) \<and>
      (\<forall>b < length ds. \<forall>j \<in> set (dr_jobs (ds ! b)). \<forall>dep < length (pl_jobs p).
         pb_id (pl_jobs p ! dep) \<in> set (pb_depends_on (pl_jobs p ! j)) \<longrightarrow> (\<forall>a < length ds.
         dep \<in> set (dr_jobs (ds ! a)) \<longrightarrow> a \<noteq> b \<longrightarrow>
           ln_id (pl_lanes p' ! a) \<in> set (ln_upstream_lanes (pl_lanes p' ! b)) \<and>
           pb_id (pl_jobs p ! dep) \<in> set (ln_upstream_jobs (pl_lanes p' ! b)) \<and>
           ln_level (pl_lanes p' ! a) < ln_level (pl_lanes p' ! b)))) \<or>
    (\<exists>c. Assign p opts = Inl c) \<and> (lo_strict opts \<or> il_on_cycle cfg = LaneOnCycleReject) \<and> Assign p opts \<noteq> Inl LanesFuel"
proof -
  let ?mode = "EffectiveMode (Some cfg) (lo_matched_triggers opts)" and ?jobs = "fst (applyWeights (pl_jobs p) opts)"
    and ?cfg = "if lo_max_lanes opts > 0 then cfg\<lparr>il_max_lanes := lo_max_lanes opts\<rparr> else cfg"
  define q where "q = p\<lparr>pl_metadata := (pl_metadata p)\<lparr>pm_lanes := Some (lanes_meta cfg opts ?mode (snd (applyWeights (pl_jobs p) opts)))\<rparr>,
    pl_jobs := ?jobs\<rparr>"
  have qj: "pl_jobs q = ?jobs" by (simp add: q_def)
  have same: "list_all2 same_job (pl_jobs p) ?jobs" by (rule applyWeights_same)
  note keep = plan_ready_same[OF same]
  have len: "length ?jobs = length (pl_jobs p)" using list_all2_lengthD[OF same] by simp
  obtain g where g: "newJobGraph ?jobs = Some g" using newJobGraph_returns by blast
  note gok = newJobGraph_ok[OF g]
  have climb: "climbing (length ?jobs) g" using newJobGraph_climbing[OF g] ready keep by (simp add: plan_ready_def)
  obtain ds0 where ds0: "initialDrafts ?jobs ?cfg ?mode (lo_component_lanes opts) g = Some ds0" "drafts_ok ?jobs ds0"
    using initialDrafts_ok[OF gok(1) climb gok(2), of "lo_component_lanes opts" ?mode ?cfg] ready keep
    by (auto simp: plan_ready_def good_ids_def)
  have run: "Assign p opts = (case repairCycles ?jobs g ds0 ?cfg (lo_strict opts) of Inl e \<Rightarrow> Inl e
      | Inr (drafts, repairs) \<Rightarrow> (case finalize q g drafts (lo_check_name opts) of None \<Rightarrow> Inl LanesFuel
           | Some plan \<Rightarrow> Inr (plan, \<lparr>ar_mode = ?mode, ar_repairs = repairs\<rparr>)))"
    using jobs g ds0(1) unfolding q_def by (simp add: Assign_def cfg Let_def case_prod_beta split del: if_split)
  have oc: "il_on_cycle ?cfg = il_on_cycle cfg" by simp
  show ?thesis
  proof (cases "repairCycles ?jobs g ds0 ?cfg (lo_strict opts)")
    case (Inl e)
    moreover have "lo_strict opts \<or> il_on_cycle cfg = LaneOnCycleReject"
      using repairCycles_succeeds[OF g ds0(2) climb, of "lo_strict opts" ?cfg] Inl oc by fastforce
    ultimately show ?thesis using repairCycles_ok[OF g ds0(2), where cfg = ?cfg and strict = "lo_strict opts"] run by auto
  next
    case (Inr r)
    obtain drafts repairs where r: "r = (drafts, repairs)" by (cases r)
    have "drafts_ok ?jobs drafts" "acyclic (quot (job_edge_set (length ?jobs) g) (lane_label (length ?jobs) drafts))"
      using repairCycles_ok[OF g ds0(2), where cfg = ?cfg and strict = "lo_strict opts"] Inr by (auto simp: r)
    from finalize_spec[OF g _ , of q drafts "lo_check_name opts"] this
    obtain p' ds where f: "finalize q g drafts (lo_check_name opts) = Some p'" "drafts_ok ?jobs ds"
      "\<forall>d \<in> set ds. sorted (dr_jobs d)" "list_all2 same_job ?jobs (pl_jobs p')"
      "list_all2 (lane_of_draft_ok ?jobs) (pl_lanes p') ds"
      "\<forall>d \<in> set ds. \<forall>j \<in> set (dr_jobs d). pb_lane (pl_jobs p' ! j) = laneID d"
      "\<forall>b < length ds. \<forall>j \<in> set (dr_jobs (ds ! b)). \<forall>dep \<in> set (jg_deps g ! j). \<forall>a < length ds.
       dep \<in> set (dr_jobs (ds ! a)) \<longrightarrow> a \<noteq> b \<longrightarrow>
         ln_id (pl_lanes p' ! a) \<in> set (ln_upstream_lanes (pl_lanes p' ! b)) \<and>
         pb_id (pl_jobs p' ! dep) \<in> set (ln_upstream_jobs (pl_lanes p' ! b)) \<and>
         ln_level (pl_lanes p' ! a) < ln_level (pl_lanes p' ! b)"
      unfolding qj by blast
    have ids: "map pb_id (pl_jobs p') = map pb_id (pl_jobs p)" using plan_ready_same(1)[OF f(4)] keep(1) by simp
    have id: "pb_id (?jobs ! j) = pb_id (pl_jobs p ! j) \<and> pb_id (pl_jobs p' ! j) = pb_id (pl_jobs p ! j) \<and>
        pb_depends_on (?jobs ! j) = pb_depends_on (pl_jobs p ! j)" if "j < length (pl_jobs p)" for j
      using same_job_fields[OF list_all2_nthD[OF same that]]
        same_job_fields[OF list_all2_nthD[OF same_jobs_trans[OF same f(4)] that]] by simp
    have below: "j < length (pl_jobs p)" if "d \<in> set ds" "j \<in> set (dr_jobs d)" for d j
      using draft_jobs_below[of "length ?jobs" ds d] f(2) that len by (auto simp: drafts_ok_def)
    have dep: "dep \<in> set (jg_deps g ! j)"
      if "j < length (pl_jobs p)" "dep < length (pl_jobs p)" "pb_id (pl_jobs p ! dep) \<in> set (pb_depends_on (pl_jobs p ! j))" for j dep
    proof -
      have "gm_get (job_index ?jobs) (pb_id (?jobs ! dep)) = Some dep"
        using job_index_distinct[of ?jobs dep] ready keep(1) that(2) len by (simp add: plan_ready_def)
      then show ?thesis using that id len by (auto simp: gok(3) job_deps_set)
    qed
    have lanes: "list_all2 (lane_of_draft_ok (pl_jobs p)) (pl_lanes p') ds"
    proof (rule list_all2_all_nthI)
      show l: "length (pl_lanes p') = length ds" using f(5) by (rule list_all2_lengthD)
      fix k assume k: "k < length (pl_lanes p')"
      then have "lane_of_draft_ok ?jobs (pl_lanes p' ! k) (ds ! k)" using f(5) list_all2_nthD by blast
      moreover have "map (\<lambda>j. pb_id (?jobs ! j)) (dr_jobs (ds ! k)) = map (\<lambda>j. pb_id (pl_jobs p ! j)) (dr_jobs (ds ! k))"
        using id below[of "ds ! k"] k l by auto
      ultimately show "lane_of_draft_ok (pl_jobs p) (pl_lanes p' ! k) (ds ! k)" by (simp add: lane_of_draft_ok_def)
    qed
    have "Assign p opts = Inr (p', \<lparr>ar_mode = ?mode, ar_repairs = repairs\<rparr>)" using run Inr f(1) by (simp add: r)
    moreover have "drafts_ok (pl_jobs p) ds" using drafts_ok_same[OF same] f(2) by simp
    moreover have "ln_id (pl_lanes p' ! a) \<in> set (ln_upstream_lanes (pl_lanes p' ! b)) \<and>
           pb_id (pl_jobs p ! dep) \<in> set (ln_upstream_jobs (pl_lanes p' ! b)) \<and>
           ln_level (pl_lanes p' ! a) < ln_level (pl_lanes p' ! b)"
      if "b < length ds" "j \<in> set (dr_jobs (ds ! b))" "dep0 < length (pl_jobs p)" "dep0 = dep"
        "pb_id (pl_jobs p ! dep) \<in> set (pb_depends_on (pl_jobs p ! j))" "a < length ds" "dep \<in> set (dr_jobs (ds ! a))" "a \<noteq> b" for a b j dep dep0
      using f(7) dep[of j dep] id[of dep] that below[of "ds ! b" j] by (metis nth_mem)
    ultimately show ?thesis using f(3,6) lanes same_jobs_trans[OF same f(4)] by (intro disjI1 exI[of _ p'] exI exI[of _ ds]) blast
  qed
qed

lemma plan_acyclic_rank:
  fixes r :: "string \<Rightarrow> nat"
  assumes "\<forall>job \<in> set jobs. \<forall>dep \<in> set (pb_depends_on job). r dep < r (pb_id job)"
  shows "plan_acyclic jobs"
proof -
  have "{(dep, pb_id job) | dep job. job \<in> set jobs \<and> dep \<in> set (pb_depends_on job)} \<subseteq> measure r"
    using assms by auto
  then show ?thesis unfolding plan_acyclic_def by (rule acyclic_subset[OF wf_acyclic[OF wf_measure]])
qed

section \<open>An example plan\<close>

text \<open>
  Component lanes \<open>x = {a, c}\<close> and \<open>y = {b}\<close> with \<open>a \<rightarrow> b \<rightarrow> c\<close> wait on each other, so \<open>x\<close> is split.
\<close>

definition example_job :: "string \<Rightarrow> string \<Rightarrow> string list \<Rightarrow> plan_job" where
  "example_job i c deps = zero_plan_job\<lparr>pb_id := i, pb_environment := ''dev'', pb_component := c, pb_depends_on := deps\<rparr>"

definition example_plan :: plan where
  "example_plan = zero_plan\<lparr>pl_jobs := [example_job ''a'' ''x'' [], example_job ''b'' ''y'' [''a''], example_job ''c'' ''x'' [''b'']]\<rparr>"

definition example_lanes :: intent_lanes where
  "example_lanes = \<lparr>il_mode = ''component'', il_max_lanes = 0, il_concurrency = 0, il_on_cycle = [],
     il_upstream_wait = [], il_groups = [], il_rules = []\<rparr>"

definition example_options :: options where
  "example_options = \<lparr>lo_config = Some example_lanes, lo_component_lanes = [], lo_matched_triggers = [],
     lo_strict = False, lo_check_name = None, lo_max_lanes = 0, lo_max_lanes_from = [], lo_weights = [],
     lo_weights_from = []\<rparr>"

lemma example_run:
  "case Assign example_plan example_options of
     Inl _ \<Rightarrow> False
   | Inr (p', _) \<Rightarrow> map ln_jobs (pl_lanes p') = [[''a''], [''b''], [''c'']]"
  by code_simp

lemma example_ready: "plan_ready example_plan example_options"
proof -
  let ?r = "\<lambda>i. if i = ''a'' then 0 else if i = ''b'' then 1 else (2::nat)"
  have "\<forall>job \<in> set (pl_jobs example_plan). \<forall>dep \<in> set (pb_depends_on job). ?r dep < ?r (pb_id job)"
    by (simp add: example_plan_def example_job_def zero_plan_job_def)
  then have "plan_acyclic (pl_jobs example_plan)" by (rule plan_acyclic_rank)
  then show ?thesis
    by (simp add: plan_ready_def plain_names_def example_plan_def example_options_def example_job_def zero_plan_job_def)
qed

lemma example_config: "lo_config example_options = Some example_lanes"
  by (simp add: example_options_def)

section \<open>The theorems\<close>

definition lane_holds :: "plan_job list \<Rightarrow> plan_lane \<Rightarrow> nat list \<Rightarrow> bool" where
  \<comment> \<open>the lane consists of the jobs \<open>js\<close> (indexes in plan order) and is a lane they may share\<close>
  "lane_holds jobs l js \<longleftrightarrow> js \<noteq> [] \<and> sorted js \<and> ln_jobs l = map (\<lambda>j. pb_id (jobs ! j)) js \<and>
     (\<forall>j \<in> set js. pb_lane (jobs ! j) = ln_id l \<and> pb_environment (jobs ! j) = ln_environment l \<and>
        (ln_source l \<noteq> ''isolated'' \<longrightarrow> pb_runs_on (jobs ! j) = ln_runs_on l)) \<and>
     (ln_source l \<in> {''isolated'', ''component'', ''job''} \<longrightarrow>
        (\<forall>j \<in> set js. \<forall>k \<in> set js. pb_component (jobs ! j) = pb_component (jobs ! k)))"

lemma held_lanes:
  assumes "drafts_ok (pl_jobs p) ds" "\<forall>d \<in> set ds. sorted (dr_jobs d)" "list_all2 same_job (pl_jobs p) (pl_jobs p')"
    and "list_all2 (lane_of_draft_ok (pl_jobs p)) (pl_lanes p') ds"
    and "\<forall>d \<in> set ds. \<forall>j \<in> set (dr_jobs d). pb_lane (pl_jobs p' ! j) = laneID d"
  shows "list_all2 (lane_holds (pl_jobs p')) (pl_lanes p') (map dr_jobs ds)"
proof (rule list_all2_all_nthI)
  show len: "length (pl_lanes p') = length (map dr_jobs ds)" using list_all2_lengthD[OF assms(4)] by simp
  fix k assume k: "k < length (pl_lanes p')"
  let ?d = "ds ! k" and ?l = "pl_lanes p' ! k"
  have d: "?d \<in> set ds" using k len by simp
  have ok: "draft_ok (pl_jobs p) ?d" using assms(1) d by (simp add: drafts_ok_def)
  have l: "lane_of_draft_ok (pl_jobs p) ?l ?d" using assms(4) k list_all2_nthD by blast
  have below: "j < length (pl_jobs p)" if "j \<in> set (dr_jobs ?d)" for j
    using draft_jobs_below[of "length (pl_jobs p)" ds, OF _ d] assms(1) that by (auto simp: drafts_ok_def)
  note same = same_job_fields[OF list_all2_nthD[OF assms(3) below]]
  have "fits (pl_jobs p) (place ?d) j" if "j \<in> set (dr_jobs ?d)" for j using ok that by (simp add: draft_ok_def)
  then have f: "pb_environment (pl_jobs p ! j) = ln_environment ?l \<and> (ln_source ?l \<noteq> ''isolated'' \<longrightarrow> pb_runs_on (pl_jobs p ! j) = ln_runs_on ?l) \<and>
      (ln_source ?l \<in> {''isolated'', ''component'', ''job''} \<longrightarrow> pb_component (pl_jobs p ! j) = dr_component ?d)"
    if "j \<in> set (dr_jobs ?d)" for j
    using that l by (simp add: fits_def place_def lane_of_draft_ok_def)
  have "lane_holds (pl_jobs p') ?l (dr_jobs ?d)"
    unfolding lane_holds_def
  proof (intro conjI ballI impI)
    show "dr_jobs ?d \<noteq> []" "sorted (dr_jobs ?d)" using ok assms(2) d by (simp_all add: draft_ok_def)
    show "ln_jobs ?l = map (\<lambda>j. pb_id (pl_jobs p' ! j)) (dr_jobs ?d)" using l same by (simp add: lane_of_draft_ok_def)
    fix j assume j: "j \<in> set (dr_jobs ?d)"
    show "pb_lane (pl_jobs p' ! j) = ln_id ?l" using assms(5) d j l by (simp add: lane_of_draft_ok_def)
    show "pb_environment (pl_jobs p' ! j) = ln_environment ?l" using f[OF j] same(2)[OF j] by simp
    show "pb_runs_on (pl_jobs p' ! j) = ln_runs_on ?l" if "ln_source ?l \<noteq> ''isolated''" using f[OF j] same(3)[OF j] that by simp
    fix i assume i: "i \<in> set (dr_jobs ?d)"
    show "pb_component (pl_jobs p' ! j) = pb_component (pl_jobs p' ! i)" if "ln_source ?l \<in> {''isolated'', ''component'', ''job''}"
      using f[OF j] f[OF i] same(4)[OF j] same(4)[OF i] that by metis
  qed
  then show "lane_holds (pl_jobs p') ?l (map dr_jobs ds ! k)" using k len by simp
qed

text \<open>
  C12: A layout that \<open>lanes.Assign\<close> returns changes nothing in the jobs but their weights and lanes, and
  its lanes divide the jobs: every job is in exactly one lane, in plan order and stamped with its id; all
  jobs of a lane have the lane's environment and, unless it is an isolated lane, its runner; and an
  isolated, component or job lane holds the jobs of one component only.
\<close>

theorem assign_divides_the_jobs:
  assumes "plan_ready p opts" "lo_config opts = Some cfg" "Assign p opts = Inr (p', res)"
  shows "list_all2 same_job (pl_jobs p) (pl_jobs p') \<and>
    (\<exists>jss. mset (concat jss) = mset [0..<length (pl_jobs p')] \<and> list_all2 (lane_holds (pl_jobs p')) (pl_lanes p') jss)"
proof (cases "pl_jobs p = []")
  case True
  then have "p' = p\<lparr>pl_lanes := []\<rparr>" using assms(2,3) by (auto simp: Assign_def Let_def)
  then show ?thesis using True by (auto intro: exI[of _ "[]"])
next
  case False
  then obtain ds where ds: "drafts_ok (pl_jobs p) ds" "\<forall>d \<in> set ds. sorted (dr_jobs d)" "list_all2 same_job (pl_jobs p) (pl_jobs p')"
    "list_all2 (lane_of_draft_ok (pl_jobs p)) (pl_lanes p') ds" "\<forall>d \<in> set ds. \<forall>j \<in> set (dr_jobs d). pb_lane (pl_jobs p' ! j) = laneID d"
    using assign_run[OF assms(1,2)] assms(3) by auto
  have "mset (concat (map dr_jobs ds)) = mset [0..<length (pl_jobs p')]"
    using ds(1) list_all2_lengthD[OF ds(3)] by (simp add: drafts_ok_def splits_jobs_def job_lists_def)
  then show ?thesis using held_lanes[OF ds] ds(3) by blast
qed

theorem assign_divides_the_jobs_witness:
  "\<exists>p' res. Assign example_plan example_options = Inr (p', res) \<and>
     (\<exists>jss. mset (concat jss) = mset [0..<length (pl_jobs p')] \<and> list_all2 (lane_holds (pl_jobs p')) (pl_lanes p') jss)"
proof -
  obtain p' res where r: "Assign example_plan example_options = Inr (p', res)"
    using example_run by (auto split: sum.splits)
  show ?thesis using assign_divides_the_jobs[OF example_ready example_config r] r by blast
qed

text \<open>
  C13: \<open>lanes.Assign\<close> always succeeds on an acyclic plan when cycles between lanes may be split: neither of
  the two errors its comments call impossible is returned, and its repair ends within the rounds it is given.
\<close>

theorem assign_succeeds:
  assumes "plan_ready p opts" "\<not> lo_strict opts" "\<forall>cfg. lo_config opts = Some cfg \<longrightarrow> il_on_cycle cfg \<noteq> LaneOnCycleReject"
  shows "\<exists>r. Assign p opts = Inr r"
proof (cases "lo_config opts")
  case (Some cfg)
  show ?thesis
  proof (cases "pl_jobs p = []")
    case False
    then show ?thesis using assign_run[OF assms(1) Some] assms(2,3) Some by blast
  qed (simp add: Assign_def Some Let_def)
qed (simp add: Assign_def)

theorem assign_succeeds_witness: "\<exists>r. Assign example_plan example_options = Inr r"
  by (rule assign_succeeds[OF example_ready])
     (simp_all add: example_options_def example_lanes_def LaneOnCycleReject_def)

text \<open>
  C14: The lanes of a returned layout can run in the order of their levels: when a job of one lane depends
  on a job of another, the other lane and that job are listed as its upstreams and the other lane's level
  is lower. So no two lanes wait on each other, whatever cuts that took.
\<close>

theorem lane_waits_go_up:
  assumes "plan_ready p opts" "lo_config opts = Some cfg" "Assign p opts = Inr (p', res)"
    and "a < length (pl_lanes p')" "b < length (pl_lanes p')" "a \<noteq> b"
    and "dep \<in> set (ln_jobs (pl_lanes p' ! a))" "pb_id job \<in> set (ln_jobs (pl_lanes p' ! b))"
    and "job \<in> set (pl_jobs p)" "dep \<in> set (pb_depends_on job)"
  shows "ln_id (pl_lanes p' ! a) \<in> set (ln_upstream_lanes (pl_lanes p' ! b)) \<and>
    dep \<in> set (ln_upstream_jobs (pl_lanes p' ! b)) \<and> ln_level (pl_lanes p' ! a) < ln_level (pl_lanes p' ! b)"
proof -
  have ne: "pl_jobs p \<noteq> []" using assms(9) by auto
  obtain ds where ds: "drafts_ok (pl_jobs p) ds" "list_all2 (lane_of_draft_ok (pl_jobs p)) (pl_lanes p') ds"
    and up: "\<forall>b < length ds. \<forall>j \<in> set (dr_jobs (ds ! b)). \<forall>dep < length (pl_jobs p).
         pb_id (pl_jobs p ! dep) \<in> set (pb_depends_on (pl_jobs p ! j)) \<longrightarrow> (\<forall>a < length ds.
         dep \<in> set (dr_jobs (ds ! a)) \<longrightarrow> a \<noteq> b \<longrightarrow>
           ln_id (pl_lanes p' ! a) \<in> set (ln_upstream_lanes (pl_lanes p' ! b)) \<and>
           pb_id (pl_jobs p ! dep) \<in> set (ln_upstream_jobs (pl_lanes p' ! b)) \<and>
           ln_level (pl_lanes p' ! a) < ln_level (pl_lanes p' ! b))"
    using assign_run[OF assms(1,2) ne] assms(3) by auto
  have len: "length (pl_lanes p') = length ds" using ds(2) by (rule list_all2_lengthD)
  have jobs: "ln_jobs (pl_lanes p' ! k) = map (\<lambda>j. pb_id (pl_jobs p ! j)) (dr_jobs (ds ! k))" if "k < length ds" for k
    using list_all2_nthD[OF ds(2)] that len by (simp add: lane_of_draft_ok_def)
  have below: "j < length (pl_jobs p)" if "k < length ds" "j \<in> set (dr_jobs (ds ! k))" for j k
    using draft_jobs_below[of "length (pl_jobs p)" ds "ds ! k"] ds(1) that by (auto simp: drafts_ok_def)
  obtain x where x: "x \<in> set (dr_jobs (ds ! a))" "dep = pb_id (pl_jobs p ! x)" using assms(4,7) jobs len by auto
  obtain y where y: "y \<in> set (dr_jobs (ds ! b))" "pb_id job = pb_id (pl_jobs p ! y)" using assms(5,8) jobs len by auto
  have "pl_jobs p ! y = job"
    using assms(1,9) y(2) below[of b y] y(1) assms(5) len by (auto simp: plan_ready_def distinct_map inj_on_def)
  then show ?thesis using up below[of a x] x y(1) assms(4-6,10) len by auto
qed

theorem lane_waits_go_up_witness:
  "\<exists>p' res. Assign example_plan example_options = Inr (p', res) \<and> length (pl_lanes p') = 3 \<and>
     ln_id (pl_lanes p' ! 0) \<in> set (ln_upstream_lanes (pl_lanes p' ! 1)) \<and> ln_level (pl_lanes p' ! 0) < ln_level (pl_lanes p' ! 1)"
proof -
  obtain p' res where r: "Assign example_plan example_options = Inr (p', res)"
    and l: "map ln_jobs (pl_lanes p') = [[''a''], [''b''], [''c'']]"
    using example_run by (auto split: sum.splits)
  have len: "length (pl_lanes p') = 3" using arg_cong[OF l, of length] by simp
  have "ln_jobs (pl_lanes p' ! 0) = map ln_jobs (pl_lanes p') ! 0" "ln_jobs (pl_lanes p' ! 1) = map ln_jobs (pl_lanes p') ! 1"
    using len by simp_all
  then have "ln_jobs (pl_lanes p' ! 0) = [''a'']" "ln_jobs (pl_lanes p' ! 1) = [''b'']" by (simp_all only: l) simp_all
  then show ?thesis
    using lane_waits_go_up[OF example_ready example_config r, of 0 1 "''a''" "example_job ''b'' ''y'' [''a'']"] r len
    by (simp add: example_plan_def example_job_def)
qed

text \<open>A lane's name has at most eighty runes.\<close>

theorem lane_names_fit:
  "length (runes (laneName jobs d checkName)) \<le> maxNameLen"
  by (rule laneName_short)

text \<open>
  \<open>allocateLanes\<close> gives every partition at least one lane and no more than its size, and spends the
  whole budget (or all that the sizes allow), whatever the rounding of the shares in \<open>float64\<close> does.
\<close>

theorem lane_budget_is_shared:
  assumes "\<forall>n \<in> set sizes. 1 \<le> n"
  shows "length (allocateLanes tot budget sizes) = length sizes \<and>
    (\<forall>k < length sizes. 1 \<le> allocateLanes tot budget sizes ! k \<and> allocateLanes tot budget sizes ! k \<le> sizes ! k) \<and>
    min (max budget (int (length sizes))) (sum_list sizes) \<le> sum_list (allocateLanes tot budget sizes)"
  using allocateLanes_within[OF assms] by (simp add: shares_ok_def)

theorem lane_budget_is_shared_witness:
  "3 \<le> sum_list (allocateLanes 9 3 [7, 1, 1]) \<and> 1 \<le> allocateLanes 9 3 [7, 1, 1] ! 2"
  using lane_budget_is_shared[of "[7, 1, 1]" 9 3] by auto

text \<open>
  \<open>packPartition\<close> splits a partition of an acyclic job graph into at most the given number of nonempty
  sorted bins; a cluster of jobs joined by enforced edges whose weight is within a lane's share stays in
  one bin; and the loads of two bins differ by at most that share or, when larger, the heaviest job.
\<close>

theorem partition_is_packed:
  assumes "newJobGraph jobs = Some g" "plan_acyclic jobs" "set js \<subseteq> {..<length jobs}"
  shows "\<exists>bins. packPartition g js lanes = Some bins \<and> packed g js (if lanes < 1 then 1 else nat lanes) bins"
  using packPartition_packed[OF newJobGraph_ok(1)[OF assms(1)] newJobGraph_climbing[OF assms(1,2)] assms(3) newJobGraph_ok(2)[OF assms(1)]] .

theorem partition_is_packed_witness:
  "\<exists>g bins. newJobGraph (pl_jobs example_plan) = Some g \<and> packPartition g [0, 1, 2] 2 = Some bins \<and> packed g [0, 1, 2] 2 bins"
proof -
  obtain g where g: "newJobGraph (pl_jobs example_plan) = Some g" using newJobGraph_returns by blast
  have "plan_acyclic (pl_jobs example_plan)" using example_ready by (simp add: plan_ready_def)
  moreover have "set [0, 1, 2] \<subseteq> {..<length (pl_jobs example_plan)}" by (simp add: example_plan_def)
  ultimately show ?thesis using partition_is_packed[OF g, of "[0, 1, 2]" 2] g by auto
qed

section \<open>Two surprises\<close>

text \<open>
  A component and a lane group may have the same name; in component mode their lanes then get the same id,
  as the suffix that should tell them apart names the runner, which they share.
\<close>

lemma lane_ids_collide:
  "case Assign (zero_plan\<lparr>pl_jobs := [example_job ''a'' ''x'' [], example_job ''b'' ''y'' []]\<rparr>)
          (example_options\<lparr>lo_component_lanes := [(''y'', ''x'')]\<rparr>) of
     Inl _ \<Rightarrow> False
   | Inr (p', _) \<Rightarrow> map (\<lambda>l. (ln_id l, ln_jobs l)) (pl_lanes p') = [(''dev/x-default'', [''a'']), (''dev/x-default'', [''b''])]"
  by code_simp

text \<open>The jobs of an isolated component share one lane even when they need different runners.\<close>

lemma isolated_lane_mixes_runners:
  "case Assign (zero_plan\<lparr>pl_jobs := [(example_job ''a'' ''x'' [])\<lparr>pb_runs_on := ''linux''\<rparr>, (example_job ''b'' ''x'' [])\<lparr>pb_runs_on := ''mac''\<rparr>]\<rparr>)
          (example_options\<lparr>lo_component_lanes := [(''x'', ''isolated'')]\<rparr>) of
     Inl _ \<Rightarrow> False
   | Inr (p', _) \<Rightarrow> map (\<lambda>l. (ln_runs_on l, ln_jobs l)) (pl_lanes p') = [(''linux'', [''a'', ''b''])]"
  by code_simp

end
