(* ===== verification/Trigger_Match.thy ===== *)
theory Trigger_Match
  imports Intent_Model
begin

text \<open>
  \<open>internal/trigger/match.go\<close> and \<open>normalize.go\<close>: a CI event in the provider-neutral form and the
  test whether it fires a trigger binding. \<open>encoding/json\<close> is the parameter \<open>unmarshal\<close> (\<open>None\<close> is its
  error); the decoded object is a \<open>yval gmap\<close>.
\<close>

section \<open>Patterns\<close>

definition containsString :: "string list \<Rightarrow> string \<Rightarrow> bool" where
  "containsString slice item \<longleftrightarrow> list_ex (\<lambda>s. s = item) slice"

definition matchGlob :: "string \<Rightarrow> string \<Rightarrow> bool" where
  "matchGlob pattern v =
     (if pattern = ''*'' then v \<noteq> []
      else if contains_sub pattern ''*'' then
        (case split_first (CHR ''*'') pattern of (pre, suf) \<Rightarrow>
           if \<not> has_prefix v pre then False
           else if suf \<noteq> [] \<and> \<not> has_suffix v suf then False
           else True)
      else pattern = v)"

definition MatchAnyPattern :: "string \<Rightarrow> string list \<Rightarrow> bool" where
  "MatchAnyPattern v patterns =
     (if v = [] then False else list_ex (\<lambda>pattern. matchGlob pattern v) patterns)"

section \<open>Matching an event\<close>

definition MatchTrigger :: "trigger_binding \<Rightarrow> normalized_event \<Rightarrow> bool" where
  "MatchTrigger binding event =
     (let on = tb_on binding in
      if tm_provider on \<noteq> ev_provider event then False
      else if tm_event on \<noteq> ev_event event then False
      else if tm_actions on \<noteq> [] \<and> \<not> containsString (tm_actions on) (ev_action event) then False
      else if tm_branches on \<noteq> [] \<and>
          (ev_branch event = [] \<or> \<not> MatchAnyPattern (ev_branch event) (tm_branches on)) then False
      else if tm_base_branches on \<noteq> [] \<and>
          (ev_base_branch event = [] \<or> \<not> MatchAnyPattern (ev_base_branch event) (tm_base_branches on)) then False
      else if tm_tags on \<noteq> [] \<and> (ev_tag event = [] \<or> \<not> MatchAnyPattern (ev_tag event) (tm_tags on)) then False
      else True)"

section \<open>GitHub events\<close>

definition map_val :: "yval \<Rightarrow> yval gmap option" where
  \<comment> \<open>the type assertion \<open>v.(map[string]any)\<close>\<close>
  "map_val v = (case v of YMap m \<Rightarrow> Some m | _ \<Rightarrow> None)"

definition map_at :: "yval gmap \<Rightarrow> string \<Rightarrow> yval gmap option" where
  \<comment> \<open>\<open>m[key].(map[string]any)\<close>\<close>
  "map_at m key = (case gm_get m key of Some v \<Rightarrow> map_val v | None \<Rightarrow> None)"

definition getString :: "yval gmap \<Rightarrow> string \<Rightarrow> string" where
  "getString m key =
     (case gm_get m key of
        Some v \<Rightarrow> (case str_val v of Some s \<Rightarrow> s | None \<Rightarrow> [])
      | None \<Rightarrow> [])"

fun getNestedString :: "yval gmap \<Rightarrow> string list \<Rightarrow> string" where
  "getNestedString current [] = []"
| "getNestedString current [key] = getString current key"
| "getNestedString current (key # keys) =
     (case map_at current key of
        Some nested \<Rightarrow> getNestedString nested keys
      | None \<Rightarrow> [])"

definition zero_event :: normalized_event where
  "zero_event = \<lparr>ev_provider = [], ev_event = [], ev_action = [], ev_ref = [], ev_ref_type = [],
     ev_branch = [], ev_tag = [], ev_base_branch = [], ev_base_sha = [], ev_head_sha = [],
     ev_repository = [], ev_actor = [], ev_raw = []\<rparr>"

definition pull_request_refs :: "yval gmap \<Rightarrow> normalized_event \<Rightarrow> normalized_event" where
  "pull_request_refs raw ev =
     (case map_at raw ''pull_request'' of
        None \<Rightarrow> ev
      | Some pr \<Rightarrow>
          (let ev = (case map_at pr ''base'' of
                 Some b \<Rightarrow> ev\<lparr>ev_base_branch := getString b ''ref'', ev_base_sha := getString b ''sha''\<rparr>
               | None \<Rightarrow> ev)
           in case map_at pr ''head'' of
                Some h \<Rightarrow> ev\<lparr>ev_branch := getString h ''ref'', ev_head_sha := getString h ''sha''\<rparr>
              | None \<Rightarrow> ev))"

definition with_origin :: "yval gmap \<Rightarrow> normalized_event \<Rightarrow> normalized_event" where
  "with_origin raw ev = ev\<lparr>ev_repository := getNestedString raw [''repository'', ''full_name''],
     ev_actor := getNestedString raw [''sender'', ''login'']\<rparr>"

definition NormalizeGitHubEvent :: "string \<Rightarrow> yval gmap \<Rightarrow> normalized_event" where
  "NormalizeGitHubEvent eventName raw =
     (let ev = zero_event\<lparr>ev_provider := ''github'', ev_event := eventName, ev_raw := raw\<rparr> in
      if eventName \<in> {''pull_request'', ''pull_request_target''} then
        with_origin raw (pull_request_refs raw
          (ev\<lparr>ev_action := getString raw ''action'', ev_ref_type := ''pull_request''\<rparr>))
      else if eventName = ''push'' then
        (let ref = getString raw ''ref'';
             ev = with_origin raw (ev\<lparr>ev_ref := ref, ev_base_sha := getString raw ''before'',
                    ev_head_sha := getString raw ''after''\<rparr>)
         in if has_prefix ref ''refs/tags/'' then
              ev\<lparr>ev_ref_type := ''tag'', ev_tag := trim_prefix ref ''refs/tags/''\<rparr>
            else if has_prefix ref ''refs/heads/'' then
              ev\<lparr>ev_ref_type := ''branch'', ev_branch := trim_prefix ref ''refs/heads/''\<rparr>
            else ev\<lparr>ev_ref_type := ''unknown''\<rparr>)
      else if eventName = ''workflow_dispatch'' then
        (let ref = getString raw ''ref'';
             ev = ev\<lparr>ev_ref := ref\<rparr>;
             ev = (if has_prefix ref ''refs/heads/'' then
                     ev\<lparr>ev_ref_type := ''branch'', ev_branch := trim_prefix ref ''refs/heads/''\<rparr>
                   else ev)
         in with_origin raw ev)
      else ev\<lparr>ev_ref_type := ''unknown''\<rparr>)"

datatype event_error = UnsupportedProvider string | EventNotJSON

definition inferGitHubEventName :: "yval gmap \<Rightarrow> string" where
  "inferGitHubEventName raw =
     (if gm_has raw ''pull_request'' then ''pull_request''
      else if gm_has raw ''before'' \<and> gm_has raw ''after'' then ''push''
      else if gm_has raw ''workflow'' then ''workflow_dispatch''
      else ''unknown'')"

definition ParseEventFile ::
  "(string \<Rightarrow> yval gmap option) \<Rightarrow> string \<Rightarrow> string \<Rightarrow> event_error + normalized_event" where
  "ParseEventFile unmarshal provider eventData =
     (if provider = ''github'' then
        (case unmarshal eventData of
           None \<Rightarrow> Inl EventNotJSON
         | Some raw \<Rightarrow> Inr (NormalizeGitHubEvent (inferGitHubEventName raw) raw))
      else Inl (UnsupportedProvider provider))"

definition ParseEventFileWithName ::
  "(string \<Rightarrow> yval gmap option) \<Rightarrow> string \<Rightarrow> string \<Rightarrow> string \<Rightarrow> event_error + normalized_event" where
  "ParseEventFileWithName unmarshal provider eventName eventData =
     (if provider = ''github'' then
        (case unmarshal eventData of
           None \<Rightarrow> Inl EventNotJSON
         | Some raw \<Rightarrow> Inr (NormalizeGitHubEvent eventName raw))
      else Inl (UnsupportedProvider provider))"

section \<open>What a pattern matches\<close>

lemma contains_star: "contains_sub s ''*'' \<longleftrightarrow> CHR ''*'' \<in> set s"
  unfolding contains_sub_def by (induction s) (auto simp: has_prefix_def)

text \<open>
  A pattern with a star matches every text that starts with what is before the first star and ends
  with what is after it, overlaps included; the plain star needs a non-empty text.
\<close>

lemma matchGlob_star:
  assumes "CHR ''*'' \<notin> set pre" "pre @ suf \<noteq> []"
  shows "matchGlob (pre @ CHR ''*'' # suf) v \<longleftrightarrow> has_prefix v pre \<and> has_suffix v suf"
proof -
  have "pre @ CHR ''*'' # suf \<noteq> ''*''" using assms by (cases pre) auto
  moreover have "has_suffix v []" by (simp add: has_suffix_def)
  ultimately show ?thesis
    unfolding matchGlob_def contains_star using assms(1) by (auto simp: split_first_append)
qed

lemma matchGlob_plain: "CHR ''*'' \<notin> set pattern \<Longrightarrow> matchGlob pattern v \<longleftrightarrow> pattern = v"
  by (auto simp: matchGlob_def contains_star)

lemma prefix_and_suffix:
  assumes "length pre + length suf \<le> length v"
  shows "has_prefix v pre \<and> has_suffix v suf \<longleftrightarrow> (\<exists>mid. v = pre @ mid @ suf)"
proof
  assume a: "has_prefix v pre \<and> has_suffix v suf"
  then obtain r where r: "v = pre @ r" by (auto simp: has_prefix_iff)
  obtain t where t: "v = t @ suf" using a by (auto simp: has_suffix_iff)
  have "length pre \<le> length t" using assms t by simp
  then obtain mid where "t = pre @ mid" using r t by (metis append_eq_append_conv_if append_eq_conv_conj)
  with t show "\<exists>mid. v = pre @ mid @ suf" by simp
next
  assume "\<exists>mid. v = pre @ mid @ suf"
  then obtain mid where v: "v = pre @ mid @ suf" by auto
  show "has_prefix v pre \<and> has_suffix v suf"
    by (simp add: v has_suffix_iff)
qed

lemma matchGlob_overlap: "matchGlob ''a*a'' ''a''"
  by (simp add: matchGlob_def contains_sub_def has_prefix_def has_suffix_def)

text \<open>A binding matches an event when every filter it declares does.\<close>

definition filter_passes :: "string list \<Rightarrow> string \<Rightarrow> bool" where
  "filter_passes patterns v \<longleftrightarrow> patterns = [] \<or> v \<noteq> [] \<and> (\<exists>p \<in> set patterns. matchGlob p v)"

lemma MatchTrigger_iff:
  "MatchTrigger b ev \<longleftrightarrow>
     tm_provider (tb_on b) = ev_provider ev \<and> tm_event (tb_on b) = ev_event ev \<and>
     (tm_actions (tb_on b) = [] \<or> ev_action ev \<in> set (tm_actions (tb_on b))) \<and>
     filter_passes (tm_branches (tb_on b)) (ev_branch ev) \<and>
     filter_passes (tm_base_branches (tb_on b)) (ev_base_branch ev) \<and>
     filter_passes (tm_tags (tb_on b)) (ev_tag ev)"
  unfolding MatchTrigger_def Let_def filter_passes_def MatchAnyPattern_def containsString_def
  by (auto simp: list_ex_iff)

end
