(* ===== verification/Trigger_Resolve.thy ===== *)
theory Trigger_Resolve
  imports Trigger_Match
begin

text \<open>
  \<open>internal/trigger/resolve.go\<close> and \<open>selection.go\<close>: which environments a trigger activates, with
  what plan scope and, for a selected plan, which components and environments the event names. The
  text that \<open>fmt\<close> prints for a decoded value that is no string (\<open>%v\<close>) is the parameter \<open>fmt_v\<close>.
\<close>

datatype trigger_error =
    UnknownTriggerMode string
  | BindingNotFound string
  | NothingActivated "string list"
  | SelectedNeedsFlags string
  | EnvironmentNotActivated string "string option"
  | NilEvent
  | NoBindings
  | ErrNoTriggerMatch string string string
  | ConflictingScopes "(string \<times> string) list"
  | NoSelectionPaths "string list"
  | SelectionPath string string "selection_error"
  and selection_error =
    NoEventValue string | ItemNotString string nat | NotAList string | EmptyEventValue string

section \<open>Names\<close>

definition parseCommaSeparated :: "string \<Rightarrow> string list" where
  "parseCommaSeparated s = filter (\<lambda>p. p \<noteq> []) (map trim_space (split_char (CHR '','') s))"

definition filterEnvs :: "string list \<Rightarrow> string \<Rightarrow> string list" where
  "filterEnvs envs flt = (let filters = parseCommaSeparated flt in
     filter (\<lambda>env. list_ex (\<lambda>f. f = env) filters) envs)"

definition intersectEnvs :: "string list \<Rightarrow> string \<Rightarrow> string list" where
  "intersectEnvs envs flt = (let filterSet = parseCommaSeparated flt in
     filter (\<lambda>env. env \<in> set filterSet) envs)"

definition allEnvironmentNames :: "intent \<Rightarrow> string list" where
  "allEnvironmentNames i = sort (gm_keys (in_environments i))"

definition environmentsForTrigger :: "intent \<Rightarrow> string \<Rightarrow> string list" where
  "environmentsForTrigger i triggerName =
     sort (map fst (filter (\<lambda>(_, env). triggerName \<in> set (env_trigger_refs env)) (in_environments i)))"

definition environmentsForTriggers :: "intent \<Rightarrow> string list \<Rightarrow> string list" where
  \<comment> \<open>\<open>envSet\<close> has the names of a map, which are distinct\<close>
  "environmentsForTriggers i triggerNames =
     sort (map fst (filter (\<lambda>(_, env). list_ex (\<lambda>ref. ref \<in> set triggerNames) (env_trigger_refs env))
       (in_environments i)))"

definition binding_of :: "intent \<Rightarrow> string \<Rightarrow> trigger_plan_options" where
  \<comment> \<open>\<open>intent.Automation.TriggerBindings[name].Plan\<close>, the zero value for a missing name\<close>
  "binding_of i name = (case gm_get (in_trigger_bindings i) name of
     Some b \<Rightarrow> tb_plan b
   | None \<Rightarrow> \<lparr>tp_scope = [], tp_base = [], tp_head = [], tp_components = [], tp_environments = [],
       tp_auto_push = None, tp_require_rule = False\<rparr>)"

definition autoPushDisabled :: "intent \<Rightarrow> string list \<Rightarrow> bool" where
  "autoPushDisabled i matchedNames = list_ex (\<lambda>name. tp_auto_push (binding_of i name) = Some False) matchedNames"

definition requireRuleTriggers :: "intent \<Rightarrow> string list \<Rightarrow> string list" where
  "requireRuleTriggers i matchedNames = sort (filter (\<lambda>name. tp_require_rule (binding_of i name)) matchedNames)"

section \<open>Paths into the event\<close>

fun walk_path :: "yval \<Rightarrow> string list \<Rightarrow> yval option" where
  \<comment> \<open>the loops of \<open>lookupPath\<close> and \<open>ResolvePath\<close>\<close>
  "walk_path current [] = Some current"
| "walk_path current (part # parts) =
     (case map_val current of
        None \<Rightarrow> None
      | Some m \<Rightarrow> (case gm_get m part of None \<Rightarrow> None | Some v \<Rightarrow> walk_path v parts))"

definition lookupPath :: "yval gmap \<Rightarrow> string \<Rightarrow> yval option" where
  "lookupPath raw path = (if path = [] then None else walk_path (YMap raw) (split_char (CHR ''.'') path))"

definition ResolvePath :: "(yval \<Rightarrow> string) \<Rightarrow> yval gmap \<Rightarrow> string \<Rightarrow> string option" where
  "ResolvePath fmt_v raw path =
     (if path = [] then None
      else case walk_path (YMap raw) (split_char (CHR ''.'') path) of
        None \<Rightarrow> None
      | Some v \<Rightarrow> (case str_val v of Some s \<Rightarrow> Some s | None \<Rightarrow> Some (fmt_v v)))"

fun list_items :: "string \<Rightarrow> (nat \<times> yval) list \<Rightarrow> selection_error + string list" where
  "list_items path [] = Inr []"
| "list_items path ((i, item) # rest) =
     (case str_val item of
        None \<Rightarrow> Inl (ItemNotString path i)
      | Some s \<Rightarrow> bindR (list_items path rest) (\<lambda>out.
          Inr (if trim_space s \<noteq> [] then trim_space s # out else out)))"

definition dedupe :: "string list \<Rightarrow> string list" where
  "dedupe items = fold (\<lambda>s out. if s \<in> set out then out else out @ [s]) items []"

definition ResolveList :: "yval gmap \<Rightarrow> string \<Rightarrow> selection_error + string list" where
  "ResolveList raw path =
     (case lookupPath raw path of
        None \<Rightarrow> Inl (NoEventValue path)
      | Some v \<Rightarrow>
          if v = YNull then Inl (NoEventValue path)
          else bindR (case v of
                 YStr s \<Rightarrow> Inr (parseCommaSeparated s)
               | YList items \<Rightarrow> list_items path (indexed items)
               | _ \<Rightarrow> Inl (NotAList path)) (\<lambda>out.
            if out = [] then Inl (EmptyEventValue path) else Inr (dedupe out)))"

section \<open>Selected plans\<close>

fun first_selection :: "intent \<Rightarrow> string list \<Rightarrow> string \<times> string \<times> string" where
  "first_selection i [] = ([], [], [])"
| "first_selection i (name # names) =
     (let b = binding_of i name in
      if tp_components b \<noteq> [] \<or> tp_environments b \<noteq> [] then (name, tp_components b, tp_environments b)
      else first_selection i names)"

definition selectionPaths :: "intent \<Rightarrow> string list \<Rightarrow> string \<times> string \<times> string" where
  "selectionPaths i matchedNames = first_selection i (sort matchedNames)"

definition wrap_selection :: "string \<Rightarrow> string \<Rightarrow> selection_error + 'a \<Rightarrow> trigger_error + 'a" where
  "wrap_selection name field r = (case r of Inl e \<Rightarrow> Inl (SelectionPath name field e) | Inr x \<Rightarrow> Inr x)"

definition resolveSelection ::
  "intent \<Rightarrow> string list \<Rightarrow> normalized_event \<Rightarrow> string list \<Rightarrow> trigger_error + string list \<times> string list" where
  "resolveSelection i matchedNames event activated =
     (case selectionPaths i matchedNames of (name, compPath, envPath) \<Rightarrow>
        if name = [] then Inl (NoSelectionPaths matchedNames)
        else bindR (wrap_selection name ''plan.components'' (ResolveList (ev_raw event) compPath)) (\<lambda>components.
          bindR (wrap_selection name ''plan.environments'' (ResolveList (ev_raw event) envPath)) (\<lambda>envs.
          guardR (checkR (\<lambda>e. if e \<in> set activated then None else Some (EnvironmentNotActivated e (Some name))) envs)
            (Inr (components, envs)))))"

section \<open>Resolution\<close>

definition resolvePlanScope :: "intent \<Rightarrow> string list \<Rightarrow> trigger_error + string" where
  "resolvePlanScope i matchedNames =
     (case filter (\<lambda>s. s \<noteq> []) (map (\<lambda>name. tp_scope (binding_of i name)) matchedNames) of
        [] \<Rightarrow> Inr ''full''
      | first # others \<Rightarrow>
          if list_ex (\<lambda>s. s \<noteq> first) others
          then Inl (ConflictingScopes (map (\<lambda>name. (name, tp_scope (binding_of i name))) matchedNames))
          else Inr first)"

definition read_revision ::
  "(yval \<Rightarrow> string) \<Rightarrow> normalized_event \<Rightarrow> string \<Rightarrow> string \<Rightarrow> string" where
  \<comment> \<open>a base or head that is still empty is read from the event\<close>
  "read_revision fmt_v event path cur =
     (if path \<noteq> [] \<and> cur = [] then (case ResolvePath fmt_v (ev_raw event) path of Some r \<Rightarrow> r | None \<Rightarrow> cur)
      else cur)"

definition resolveBaseHead ::
  "(yval \<Rightarrow> string) \<Rightarrow> intent \<Rightarrow> string list \<Rightarrow> normalized_event \<Rightarrow> string \<times> string" where
  "resolveBaseHead fmt_v i matchedNames event =
     (let (base, head) = fold (\<lambda>name (base, head).
            (read_revision fmt_v event (tp_base (binding_of i name)) base,
             read_revision fmt_v event (tp_head (binding_of i name)) head)) matchedNames ([], [])
      in (if base = [] then ev_base_sha event else base, if head = [] then ev_head_sha event else head))"

type_synonym resolved = "trigger_error + string list \<times> trigger_resolution option"

definition resolveNoTrigger :: "intent \<Rightarrow> string \<Rightarrow> resolved" where
  "resolveNoTrigger i explicitEnv =
     (let envs = allEnvironmentNames i in
      Inr (if explicitEnv \<noteq> [] then filterEnvs envs explicitEnv else envs, None))"

definition explicit_envs :: "string list \<Rightarrow> string \<Rightarrow> string option \<Rightarrow> trigger_error + string list" where
  \<comment> \<open>\<open>if explicitEnv != "" { activated = intersectEnvs(\<dots>) }\<close>\<close>
  "explicit_envs activated explicitEnv trigger =
     (if explicitEnv \<noteq> [] then
        (let filtered = intersectEnvs activated explicitEnv in
         if filtered = [] then Inl (EnvironmentNotActivated explicitEnv trigger) else Inr filtered)
      else Inr activated)"

definition resolveNamedTrigger :: "intent \<Rightarrow> string \<Rightarrow> string \<Rightarrow> resolved" where
  "resolveNamedTrigger i triggerName explicitEnv =
     (case gm_get (in_trigger_bindings i) triggerName of
        None \<Rightarrow> Inl (BindingNotFound triggerName)
      | Some binding \<Rightarrow>
          let activated = environmentsForTrigger i triggerName in
          if activated = [] then Inl (NothingActivated [triggerName])
          else if tp_scope (tb_plan binding) = ''selected'' \<and> explicitEnv = [] then Inl (SelectedNeedsFlags triggerName)
          else bindR (explicit_envs activated explicitEnv (Some triggerName)) (\<lambda>activated.
            let activated = sort activated in
            Inr (activated, Some \<lparr>tr_matched = [triggerName], tr_active_environments = activated,
              tr_plan_scope = tp_scope (tb_plan binding), tr_base = tp_base (tb_plan binding),
              tr_head = tp_head (tb_plan binding), tr_selected_components = [], tr_selected_environments = [],
              tr_auto_push_disabled = autoPushDisabled i [triggerName],
              tr_require_rule_triggers = requireRuleTriggers i [triggerName]\<rparr>)))"

definition resolve_matched ::
  "(yval \<Rightarrow> string) \<Rightarrow> intent \<Rightarrow> normalized_event \<Rightarrow> string list \<Rightarrow> string \<Rightarrow> resolved" where
  \<comment> \<open>\<open>resolveEventFile\<close> once the matching bindings are found\<close>
  "resolve_matched fmt_v i event matchedNames explicitEnv =
     (if matchedNames = [] then Inl (ErrNoTriggerMatch (ev_provider event) (ev_event event) (ev_action event))
      else bindR (resolvePlanScope i matchedNames) (\<lambda>scope.
        let activated = environmentsForTriggers i matchedNames in
        if activated = [] then Inl (NothingActivated matchedNames)
        else bindR (if scope = ''selected'' then resolveSelection i matchedNames event activated
                    else Inr ([], [])) (\<lambda>(selectedComponents, selectedEnvs).
          let activated = (if scope = ''selected'' then selectedEnvs else activated) in
          bindR (explicit_envs activated explicitEnv None) (\<lambda>activated.
          let activated = sort activated;
              (base, head) = resolveBaseHead fmt_v i matchedNames event in
          Inr (activated, Some \<lparr>tr_matched = matchedNames, tr_active_environments = activated,
            tr_plan_scope = scope, tr_base = base, tr_head = head,
            tr_selected_components = selectedComponents, tr_selected_environments = selectedEnvs,
            tr_auto_push_disabled = autoPushDisabled i matchedNames,
            tr_require_rule_triggers = requireRuleTriggers i matchedNames\<rparr>)))))"

definition matched_names :: "intent \<Rightarrow> normalized_event \<Rightarrow> string list" where
  "matched_names i event = sort (map fst (filter (\<lambda>(_, binding). MatchTrigger binding event) (in_trigger_bindings i)))"

definition resolveEventFile :: "(yval \<Rightarrow> string) \<Rightarrow> intent \<Rightarrow> normalized_event option \<Rightarrow> string \<Rightarrow> resolved" where
  "resolveEventFile fmt_v i ev explicitEnv =
     (case ev of
        None \<Rightarrow> Inl NilEvent
      | Some event \<Rightarrow>
          if in_trigger_bindings i = [] then Inl NoBindings
          else resolve_matched fmt_v i event (matched_names i event) explicitEnv)"

definition ResolveActiveEnvironments ::
  "(yval \<Rightarrow> string) \<Rightarrow> intent \<Rightarrow> trigger_context \<Rightarrow> string \<Rightarrow> resolved" where
  "ResolveActiveEnvironments fmt_v i triggerCtx explicitEnv =
     (if tc_mode triggerCtx \<in> {''none'', []} then resolveNoTrigger i explicitEnv
      else if tc_mode triggerCtx = ''named-trigger'' then resolveNamedTrigger i (tc_trigger_name triggerCtx) explicitEnv
      else if tc_mode triggerCtx = ''event-file'' then resolveEventFile fmt_v i (tc_event triggerCtx) explicitEnv
      else Inl (UnknownTriggerMode (tc_mode triggerCtx)))"

section \<open>What a resolution says\<close>

definition activates :: "intent \<Rightarrow> string set \<Rightarrow> string \<Rightarrow> bool" where
  \<comment> \<open>the environment \<open>e\<close> refers to one of the triggers\<close>
  "activates i names e \<longleftrightarrow>
     (\<exists>env. gm_get (in_environments i) e = Some env \<and> (\<exists>n \<in> names. n \<in> set (env_trigger_refs env)))"

definition explicitly_chosen :: "string \<Rightarrow> string \<Rightarrow> bool" where
  "explicitly_chosen explicitEnv e \<longleftrightarrow> explicitEnv = [] \<or> e \<in> set (parseCommaSeparated explicitEnv)"

definition fired :: "intent \<Rightarrow> normalized_event \<Rightarrow> string set" where
  \<comment> \<open>the bindings whose filters the event passes\<close>
  "fired i event = {n. \<exists>b. gm_get (in_trigger_bindings i) n = Some b \<and> MatchTrigger b event}"

lemma filtered_keys:
  "gm_ok m \<Longrightarrow> set (map fst (filter (\<lambda>(_, v). P v) m)) = {k. \<exists>v. gm_get m k = Some v \<and> P v}"
  by (force simp: gm_ok_def)

lemma filtered_keys_distinct: "gm_ok m \<Longrightarrow> distinct (map fst (filter Q m))"
  unfolding gm_ok_def by (rule distinct_map_filter)

lemma environmentsForTriggers_set:
  "gm_ok (in_environments i) \<Longrightarrow> set (environmentsForTriggers i names) = {e. activates i (set names) e}"
  unfolding environmentsForTriggers_def set_sort
  by (subst filtered_keys, assumption, unfold activates_def list_ex_iff) blast

lemma environmentsForTrigger_set:
  "gm_ok (in_environments i) \<Longrightarrow> set (environmentsForTrigger i n) = {e. activates i {n} e}"
  unfolding environmentsForTrigger_def set_sort
  by (subst filtered_keys) (auto simp: activates_def)

lemma explicit_envs_Inr:
  "explicit_envs activated x t = Inr envs \<longleftrightarrow>
     envs = (if x = [] then activated else filter (\<lambda>e. e \<in> set (parseCommaSeparated x)) activated) \<and>
     (x \<noteq> [] \<longrightarrow> envs \<noteq> [])"
  by (auto simp: explicit_envs_def intersectEnvs_def Let_def)

lemma explicit_envs_set:
  "explicit_envs activated x t = Inr envs \<Longrightarrow> set envs = {e \<in> set activated. explicitly_chosen x e}"
  by (auto simp: explicit_envs_Inr explicitly_chosen_def)

lemma resolvePlanScope_Inr:
  assumes "resolvePlanScope i names = Inr scope"
  shows "\<forall>n \<in> set names. tp_scope (binding_of i n) \<in> {[], scope}"
    and "scope = ''full'' \<or> (\<exists>n \<in> set names. tp_scope (binding_of i n) = scope)"
proof -
  let ?s = "filter (\<lambda>s. s \<noteq> []) (map (\<lambda>name. tp_scope (binding_of i name)) names)"
  have mem: "s \<in> set ?s \<longleftrightarrow> s \<noteq> [] \<and> (\<exists>n \<in> set names. tp_scope (binding_of i n) = s)" for s by auto
  show "\<forall>n \<in> set names. tp_scope (binding_of i n) \<in> {[], scope}"
  proof (cases ?s)
    case Nil
    then show ?thesis using mem by auto
  next
    case (Cons f r)
    then have "set ?s = {scope}" using assms by (auto simp: resolvePlanScope_def list_ex_iff split: if_splits)
    then show ?thesis using mem by blast
  qed
  show "scope = ''full'' \<or> (\<exists>n \<in> set names. tp_scope (binding_of i n) = scope)"
  proof (cases ?s)
    case Nil
    then show ?thesis using assms by (simp add: resolvePlanScope_def)
  next
    case (Cons f r)
    then have "scope = f" using assms by (auto simp: resolvePlanScope_def split: if_splits)
    then have "scope \<in> set ?s" using Cons by simp
    then show ?thesis using mem by blast
  qed
qed

lemma dedupe_set: "set (dedupe xs) = set xs"
proof -
  have "set (fold (\<lambda>s out. if s \<in> set out then out else out @ [s]) xs acc) = set acc \<union> set xs" for acc
    by (induction xs arbitrary: acc) auto
  then show ?thesis by (simp add: dedupe_def)
qed

lemma dedupe_distinct: "distinct (dedupe xs)"
proof -
  have "distinct acc \<Longrightarrow> distinct (fold (\<lambda>s out. if s \<in> set out then out else out @ [s]) xs acc)" for acc
    by (induction xs arbitrary: acc) auto
  then show ?thesis by (simp add: dedupe_def)
qed

lemma ResolveList_Inr: "ResolveList raw path = Inr xs \<Longrightarrow> xs \<noteq> [] \<and> distinct xs"
  using dedupe_distinct dedupe_set
  by (auto simp: ResolveList_def bindR_Inr_iff split: option.splits if_splits)
    (metis empty_set set_empty)

lemma wrap_selection_Inr [simp]: "wrap_selection n f r = Inr x \<longleftrightarrow> r = Inr x"
  by (cases r) (simp_all add: wrap_selection_def)

lemma resolveSelection_Inr:
  assumes "resolveSelection i names event activated = Inr (comps, envs)"
  shows "comps \<noteq> [] \<and> distinct comps \<and> envs \<noteq> [] \<and> distinct envs \<and> set envs \<subseteq> set activated"
  using assms ResolveList_Inr
  by (auto simp: resolveSelection_def bindR_Inr_iff guardR_Inr_iff split: prod.splits if_splits)

lemma fired_names: "gm_ok (in_trigger_bindings i) \<Longrightarrow> set (matched_names i event) = fired i event"
  unfolding matched_names_def set_sort by (subst filtered_keys) (auto simp: fired_def)

lemma matched_names_sorted:
  "gm_ok (in_trigger_bindings i) \<Longrightarrow> sorted (matched_names i event) \<and> distinct (matched_names i event)"
  unfolding matched_names_def by (simp add: filtered_keys_distinct)

lemma resolve_matched_Inr:
  assumes "resolve_matched fmt_v i event names explicitEnv = Inr (envs, res)"
  obtains scope comps sel act where "names \<noteq> []" "resolvePlanScope i names = Inr scope"
    "if scope = ''selected'' then resolveSelection i names event (environmentsForTriggers i names) = Inr (comps, sel)
     else comps = [] \<and> sel = []"
    "explicit_envs (if scope = ''selected'' then sel else environmentsForTriggers i names) explicitEnv None = Inr act"
    "environmentsForTriggers i names \<noteq> []" "envs = sort act"
    "res = Some \<lparr>tr_matched = names, tr_active_environments = envs, tr_plan_scope = scope,
       tr_base = fst (resolveBaseHead fmt_v i names event), tr_head = snd (resolveBaseHead fmt_v i names event),
       tr_selected_components = comps, tr_selected_environments = sel,
       tr_auto_push_disabled = autoPushDisabled i names, tr_require_rule_triggers = requireRuleTriggers i names\<rparr>"
proof -
  let ?envs = "environmentsForTriggers i names"
  have ne: "names \<noteq> []" using assms by (auto simp: resolve_matched_def)
  obtain scope where scope: "resolvePlanScope i names = Inr scope"
    using assms ne by (auto simp: resolve_matched_def bindR_Inr_iff)
  have ae: "?envs \<noteq> []" using assms ne scope by (auto simp: resolve_matched_def)
  have "\<exists>p. (if scope = ''selected'' then resolveSelection i names event ?envs else Inr ([], [])) = Inr p"
    using assms unfolding resolve_matched_def if_not_P[OF ne] scope bindR_simps Let_def if_not_P[OF ae] bindR_Inr_iff by blast
  then obtain comps sel where p: "(if scope = ''selected'' then resolveSelection i names event ?envs else Inr ([], [])) = Inr (comps, sel)"
    by auto
  note run = assms[unfolded resolve_matched_def if_not_P[OF ne] scope bindR_simps Let_def if_not_P[OF ae] p prod.case]
  then obtain act where act: "explicit_envs (if scope = ''selected'' then sel else ?envs) explicitEnv None = Inr act"
    unfolding bindR_Inr_iff by blast
  show ?thesis
    by (rule that[OF ne scope _ act ae, of comps])
      (use run[unfolded act bindR_simps] p in \<open>auto simp: case_prod_unfold split: if_splits\<close>)
qed

end
