(* ===== verification/Go_Duration.thy ===== *)
theory Go_Duration
  imports Go_Strings Go_Float
begin

text \<open>
  Go's \<open>time.ParseDuration\<close>, which the code calls on the durations of an intent. A duration is a number
  of nanoseconds; the \<open>uint64\<close> sum is kept modulo \<open>2 ^ 64\<close>, and the fraction of a unit is computed as in the
  library, in \<open>float64\<close>.
\<close>

definition unit_ns :: "string \<Rightarrow> int option" where
  "unit_ns u =
     (if u = ''ns'' then Some 1
      else if u = ''us'' \<or> u = [CHR 0xC2, CHR 0xB5, CHR ''s''] \<or> u = [CHR 0xCE, CHR 0xBC, CHR ''s''] then Some 1000
      else if u = ''ms'' then Some 1000000
      else if u = ''s'' then Some 1000000000
      else if u = ''m'' then Some 60000000000
      else if u = ''h'' then Some 3600000000000
      else None)"

fun leading_int :: "int \<Rightarrow> string \<Rightarrow> (int \<times> string) option" where
  "leading_int x [] = Some (x, [])"
| "leading_int x (c # s) =
     (if \<not> is_digit c then Some (x, c # s)
      else if x > 2 ^ 63 div 10 then None
      else let y = x * 10 + int (digit_val c) in if y > 2 ^ 63 then None else leading_int y s)"

fun leading_fraction :: "bool \<Rightarrow> int \<Rightarrow> rat \<Rightarrow> string \<Rightarrow> int \<times> rat \<times> string" where
  "leading_fraction overflow x scale [] = (x, scale, [])"
| "leading_fraction overflow x scale (c # s) =
     (if \<not> is_digit c then (x, scale, c # s)
      else if overflow then leading_fraction overflow x scale s
      else if x > (2 ^ 63 - 1) div 10 then leading_fraction True x scale s
      else let y = x * 10 + int (digit_val c) in
           if y > 2 ^ 63 then leading_fraction True x scale s else leading_fraction overflow y (scale * 10) s)"

definition number_char :: "char \<Rightarrow> bool" where
  "number_char c \<longleftrightarrow> c = CHR ''.'' \<or> is_digit c"

definition duration_item :: "string \<Rightarrow> (int \<times> string) option" where
  \<comment> \<open>one number with its unit, and what follows it\<close>
  "duration_item s =
     (if s = [] \<or> \<not> number_char (hd s) then None
      else case leading_int 0 s of
        None \<Rightarrow> None
      | Some (v, s1) \<Rightarrow>
          (let pre = length s1 \<noteq> length s;
               (f, scale, s2, post) =
                 (if s1 \<noteq> [] \<and> hd s1 = CHR ''.''
                  then (case leading_fraction False 0 1 (tl s1) of (f, scale, r) \<Rightarrow>
                          (f, scale, r, length r \<noteq> length (tl s1)))
                  else (0, 1, s1, False))
           in if \<not> pre \<and> \<not> post then None
              else let u = takeWhile (\<lambda>c. \<not> number_char c) s2;
                       rest = dropWhile (\<lambda>c. \<not> number_char c) s2
                   in if u = [] then None
                      else case unit_ns u of
                        None \<Rightarrow> None
                      | Some unit \<Rightarrow>
                          if v > 2 ^ 63 div unit then None
                          else let v1 = v * unit;
                                   v2 = (if f > 0 then v1 + \<lfloor>f64 (f64 (of_int f) * f64 (of_int unit / scale))\<rfloor> else v1)
                               in if f > 0 \<and> v2 > 2 ^ 63 then None else Some (v2, rest)))"

lemma leading_int_length: "leading_int x s = Some (v, r) \<Longrightarrow> length r \<le> length s"
proof (induction x s rule: leading_int.induct)
  case (2 x c s)
  then show ?case by (auto simp: Let_def split: if_splits)
qed simp

lemma leading_fraction_length: "leading_fraction ov x sc s = (v, sc', r) \<Longrightarrow> length r \<le> length s"
proof (induction ov x sc s rule: leading_fraction.induct)
  case (2 ov x sc c s)
  then show ?case by (auto simp: Let_def split: if_splits)
qed simp

lemma dropWhile_shorter: "takeWhile P s \<noteq> [] \<Longrightarrow> length (dropWhile P s) < length s"
  using arg_cong[OF takeWhile_dropWhile_id[of P s], of length] by (cases "takeWhile P s") auto

lemma duration_item_shorter:
  assumes "duration_item s = Some (v, r)"
  shows "length r < length s"
proof -
  obtain v1 s1 where l: "leading_int 0 s = Some (v1, s1)"
    using assms by (auto simp: duration_item_def split: if_splits option.splits)
  obtain f sc s2 post where q: "(if s1 \<noteq> [] \<and> hd s1 = CHR ''.''
      then (case leading_fraction False 0 1 (tl s1) of (f, scale, r) \<Rightarrow> (f, scale, r, length r \<noteq> length (tl s1)))
      else (0, 1, s1, False)) = (f, sc, s2, post)"
    by (cases "if s1 \<noteq> [] \<and> hd s1 = CHR ''.''
      then (case leading_fraction False 0 1 (tl s1) of (f, scale, r) \<Rightarrow> (f, scale, r, length r \<noteq> length (tl s1)))
      else (0, 1, s1, False)")
  let ?P = "\<lambda>c. \<not> number_char c"
  have "takeWhile ?P s2 \<noteq> [] \<and> r = dropWhile ?P s2"
    using assms unfolding duration_item_def l option.case prod.case Let_def q
    by (auto split: if_splits option.splits)
  then have "length r < length s2" using dropWhile_shorter by blast
  moreover have "length s2 \<le> length s1"
    using q leading_fraction_length[of False 0 1 "tl s1"] by (cases s1) (auto split: if_splits prod.splits)
  ultimately show ?thesis using leading_int_length[OF l] by simp
qed

function duration_items :: "int \<Rightarrow> string \<Rightarrow> int option" where
  "duration_items d s =
     (if s = [] then Some d
      else case duration_item s of
        None \<Rightarrow> None
      | Some (v, rest) \<Rightarrow>
          let d' = (d + v) mod 2 ^ 64 in if d' > 2 ^ 63 then None else duration_items d' rest)"
  by pat_completeness auto
termination
  by (relation "measure (\<lambda>(d, s). length s)") (auto dest: duration_item_shorter)

declare duration_items.simps [simp del]

definition ParseDuration :: "string \<Rightarrow> int option" where
  "ParseDuration s =
     (let neg = (s \<noteq> [] \<and> hd s = CHR ''-'');
          s = (if s \<noteq> [] \<and> (hd s = CHR ''-'' \<or> hd s = CHR ''+'') then tl s else s)
      in if s = ''0'' then Some 0
         else if s = [] then None
         else case duration_items 0 s of
           None \<Rightarrow> None
         | Some d \<Rightarrow> if neg then Some (- d) else if d > 2 ^ 63 - 1 then None else Some d)"

definition positive_duration :: "string \<Rightarrow> bool" where
  \<comment> \<open>not \<open>err != nil || v <= 0\<close>\<close>
  "positive_duration s \<longleftrightarrow> (case ParseDuration s of None \<Rightarrow> False | Some v \<Rightarrow> v > 0)"

end
