(* ===== verification/Trigger_Validate.thy ===== *)
theory Trigger_Validate
  imports Trigger_Resolve Composition Go_Duration
begin

text \<open>
  \<open>internal/trigger/validate.go\<close>, \<open>validate_lanes.go\<close> and \<open>validate_plan.go\<close>: the static checks of an
  intent's trigger bindings, rules, lanes and plan options. A validator returns the list of the errors it
  found. The rule lists of profiles, dependency modes, edges and lanes are checked alike, by
  \<open>rule_errors\<close>; \<open>rule_owner\<close> says whose list an error is about.
\<close>

datatype rule_owner =
    ProfileRules string string
  | DependencyRules string string
  | EdgeRules string nat string
  | LaneRules

datatype rule_problem = ChoiceRequired | ChoiceInvalid string | TriggerRequired | TriggerUnknown string

datatype intent_error =
    EmptyBindingName
  | ProviderRequired string
  | EventRequired string
  | ScopeInvalid string string
  | UnknownTriggerRef string string
  | DuplicateTriggerRef string string
  | DefaultProfileRequired string string
  | EnvironmentMode string string
  | SubscriptionMode string string string
  | EdgeMode string nat string string
  | RuleError rule_owner nat rule_problem
  | DurationInvalid string string
  | LaneModeInvalid string
  | MaxLanesInvalid int
  | ConcurrencyInvalid "string option" int
  | OnCycleInvalid string
  | LaneGroupReserved string
  | LaneGroupName string
  | LaneUnknown string string
  | PathRequired string string
  | PathForbidden string string
  | PathInvalid string string string

definition when_err :: "bool \<Rightarrow> 'e \<Rightarrow> 'e list" where
  "when_err b e = (if b then [e] else [])"

lemma when_err_Nil [simp]: "when_err b e = [] \<longleftrightarrow> \<not> b"
  by (simp add: when_err_def)

section \<open>Bindings and references\<close>

definition binding_errors :: "string \<Rightarrow> trigger_binding \<Rightarrow> intent_error list" where
  "binding_errors name b =
     when_err (name = []) EmptyBindingName @
     when_err (tm_provider (tb_on b) = []) (ProviderRequired name) @
     when_err (tm_event (tb_on b) = []) (EventRequired name) @
     when_err (tp_scope (tb_plan b) \<noteq> [] \<and> tp_scope (tb_plan b) \<noteq> ''full'' \<and> tp_scope (tb_plan b) \<noteq> ''changed'')
       (ScopeInvalid name (tp_scope (tb_plan b)))"

fun ref_errors :: "string list \<Rightarrow> string \<Rightarrow> string list \<Rightarrow> string list \<Rightarrow> intent_error list" where
  "ref_errors names envName seen [] = []"
| "ref_errors names envName seen (ref # refs) =
     when_err (ref \<notin> set names) (UnknownTriggerRef envName ref) @
     when_err (ref \<in> set seen) (DuplicateTriggerRef envName ref) @
     ref_errors names envName (ref # seen) refs"

definition ValidateIntent :: "intent \<Rightarrow> intent_error list" where
  \<comment> \<open>a nil map is empty\<close>
  "ValidateIntent i =
     (if in_trigger_bindings i = [] then []
      else concat (map (\<lambda>(name, b). binding_errors name b) (in_trigger_bindings i)) @
           concat (map (\<lambda>(envName, env). ref_errors (gm_keys (in_trigger_bindings i)) envName [] (env_trigger_refs env))
             (in_environments i)))"

definition ValidateWarnings :: "intent \<Rightarrow> string list" where
  \<comment> \<open>the bindings that are defined but not referenced\<close>
  "ValidateWarnings i =
     filter (\<lambda>name. \<not> list_ex (\<lambda>(_, env). list_ex (\<lambda>ref. ref = name) (env_trigger_refs env)) (in_environments i))
       (gm_keys (in_trigger_bindings i))"

datatype context_error = ContextBindingNotFound string | EventDataRequired | EventProviderRequired

definition ValidateTriggerContext :: "intent \<Rightarrow> trigger_context \<Rightarrow> context_error option" where
  "ValidateTriggerContext i ctx =
     (if tc_mode ctx = ''named-trigger'' then
        (if \<not> gm_has (in_trigger_bindings i) (tc_trigger_name ctx)
         then Some (ContextBindingNotFound (tc_trigger_name ctx)) else None)
      else if tc_mode ctx = ''event-file'' then
        (case tc_event ctx of
           None \<Rightarrow> Some EventDataRequired
         | Some ev \<Rightarrow> if ev_provider ev = [] then Some EventProviderRequired else None)
      else None)"

section \<open>Rules\<close>

definition rule_errors ::
  "rule_owner \<Rightarrow> (string \<Rightarrow> bool) \<Rightarrow> string list \<Rightarrow> rule_decl list \<Rightarrow> intent_error list" where
  "rule_errors owner valid names rules = concat (map (\<lambda>(i, rule).
     (if ru_choice rule = [] then [RuleError owner i ChoiceRequired]
      else when_err (\<not> valid (ru_choice rule)) (RuleError owner i (ChoiceInvalid (ru_choice rule)))) @
     (if ru_trigger_ref rule = [] then [RuleError owner i TriggerRequired]
      else when_err (ru_trigger_ref rule \<notin> set names) (RuleError owner i (TriggerUnknown (ru_trigger_ref rule)))))
     (indexed rules))"

definition ValidateProfileRules :: "intent \<Rightarrow> intent_error list" where
  "ValidateProfileRules i = concat (map (\<lambda>c. concat (map (\<lambda>sub.
     if su_profile_rules sub = [] then []
     else when_err (su_profile sub = []) (DefaultProfileRequired (c_name c) (su_name sub)) @
          rule_errors (ProfileRules (c_name c) (su_name sub)) (\<lambda>_. True)
            (gm_keys (in_trigger_bindings i)) (su_profile_rules sub))
     (c_subscribe c))) (in_components i))"

definition edge_errors :: "string list \<Rightarrow> string \<Rightarrow> nat \<times> dependency \<Rightarrow> intent_error list" where
  "edge_errors names c = (\<lambda>(d, dep).
     when_err (d_mode dep \<noteq> [] \<and> \<not> IsValidDependencyMode (d_mode dep)) (EdgeMode c d (d_component dep) (d_mode dep)) @
     rule_errors (EdgeRules c d (d_component dep)) IsValidDependencyMode names (d_mode_rules dep))"

definition subscription_errors :: "string list \<Rightarrow> string \<Rightarrow> environment_subscription \<Rightarrow> intent_error list" where
  "subscription_errors names c sub =
     when_err (su_dependency_mode sub \<noteq> [] \<and> \<not> IsValidDependencyMode (su_dependency_mode sub))
       (SubscriptionMode c (su_name sub) (su_dependency_mode sub)) @
     rule_errors (DependencyRules c (su_name sub)) IsValidDependencyMode names (su_dependency_rules sub)"

definition ValidateDependencyRules :: "intent \<Rightarrow> intent_error list" where
  "ValidateDependencyRules i =
     (let names = gm_keys (in_trigger_bindings i) in
      concat (map (\<lambda>(envName, env).
        when_err (env_dependency_mode env \<noteq> [] \<and> \<not> IsValidDependencyMode (env_dependency_mode env))
          (EnvironmentMode envName (env_dependency_mode env))) (in_environments i)) @
      concat (map (\<lambda>c.
        concat (map (edge_errors names (c_name c)) (indexed (c_depends_on c))) @
        concat (map (subscription_errors names (c_name c)) (c_subscribe c))) (in_components i)))"

section \<open>Lanes\<close>

definition laneGroupNameRE :: "string \<Rightarrow> bool" where
  \<comment> \<open>\<open>^[a-z0-9][a-z0-9-]*$\<close>\<close>
  "laneGroupNameRE s \<longleftrightarrow> s \<noteq> [] \<and> (is_lower (hd s) \<or> is_digit (hd s)) \<and>
     list_all (\<lambda>c. is_lower c \<or> is_digit c \<or> c = CHR ''-'') s"

definition duration_errors :: "string \<Rightarrow> string \<Rightarrow> intent_error list" where
  "duration_errors field v = when_err (trim_space v \<noteq> [] \<and> \<not> positive_duration (trim_space v)) (DurationInvalid field v)"

definition group_name_errors :: "string \<Rightarrow> intent_error list" where
  "group_name_errors name =
     (if IsReservedLaneName name then [LaneGroupReserved name]
      else if \<not> laneGroupNameRE name then [LaneGroupName name]
      else [])"

definition lane_errors :: "string list \<Rightarrow> intent_lanes \<Rightarrow> intent_error list" where
  "lane_errors bindings lanes =
     when_err (\<not> IsValidLaneMode (il_mode lanes)) (LaneModeInvalid (il_mode lanes)) @
     when_err (il_max_lanes lanes < 0) (MaxLanesInvalid (il_max_lanes lanes)) @
     when_err (il_concurrency lanes < 0 \<and> \<not> IsAuto (il_concurrency lanes)) (ConcurrencyInvalid None (il_concurrency lanes)) @
     when_err (il_on_cycle lanes \<notin> {[], LaneOnCycleSplit, LaneOnCycleReject}) (OnCycleInvalid (il_on_cycle lanes)) @
     concat (map (\<lambda>name. group_name_errors name @
       (let g = gm_get_or 0 (il_groups lanes) name in
        when_err (g < 0 \<and> \<not> IsAuto g) (ConcurrencyInvalid (Some name) g))) (sort (gm_keys (il_groups lanes)))) @
     rule_errors LaneRules IsValidLaneMode bindings (il_rules lanes)"

definition valid_groups :: "intent_lanes option \<Rightarrow> string list" where
  \<comment> \<open>the map \<open>groups\<close>: the declared names that pass\<close>
  "valid_groups lanes = (case lanes of
     None \<Rightarrow> []
   | Some l \<Rightarrow> filter (\<lambda>name. group_name_errors name = []) (sort (gm_keys (il_groups l))))"

definition ValidateLanes :: "intent \<Rightarrow> intent_error list" where
  "ValidateLanes i =
     (let lanes = ie_lanes (in_execution i) in
      (case ie_default_timeout (in_execution i) of
         None \<Rightarrow> [] | Some d \<Rightarrow> duration_errors ''execution.defaults.timeout'' d) @
      (case lanes of
         None \<Rightarrow> [] | Some l \<Rightarrow> duration_errors ''execution.lanes.upstreamWait'' (il_upstream_wait l)) @
      (case lanes of None \<Rightarrow> [] | Some l \<Rightarrow> lane_errors (gm_keys (in_trigger_bindings i)) l) @
      concat (map (\<lambda>c.
        if c_lane c = [] \<or> c_lane c = LaneIsolated then []
        else when_err (c_lane c \<notin> set (valid_groups lanes)) (LaneUnknown (c_name c) (c_lane c)))
        (in_components i)))"

section \<open>Plan options\<close>

definition validEventPath :: "string \<Rightarrow> bool" where
  "validEventPath path \<longleftrightarrow>
     list_all (\<lambda>part. \<not> (trim_space part = [] \<or> part \<noteq> trim_space part)) (split_char (CHR ''.'') path)"

definition path_errors :: "string \<Rightarrow> bool \<Rightarrow> string \<times> string \<Rightarrow> intent_error list" where
  "path_errors name selected = (\<lambda>(field, path).
     if selected \<and> path = [] then [PathRequired name field]
     else if \<not> selected \<and> path \<noteq> [] then [PathForbidden name field]
     else if path \<noteq> [] \<and> \<not> validEventPath path then [PathInvalid name field path]
     else [])"

definition ValidatePlanOptions :: "intent \<Rightarrow> intent_error list" where
  "ValidatePlanOptions i = concat (map (\<lambda>name.
     let pl = binding_of i name; selected = (tp_scope pl = ''selected'') in
     when_err (tp_scope pl \<notin> {[], ''full'', ''changed'', ''selected''}) (ScopeInvalid name (tp_scope pl)) @
     concat (map (path_errors name selected)
       [(''plan.components'', tp_components pl), (''plan.environments'', tp_environments pl)]))
     (sort (gm_keys (in_trigger_bindings i))))"

section \<open>What passing the checks means\<close>

lemma all_indexed: "(\<forall>p \<in> set (index_from n xs). Q (snd p)) \<longleftrightarrow> (\<forall>x \<in> set xs. Q x)"
  by (induction xs arbitrary: n) auto

lemma rule_errors_Nil:
  "rule_errors owner valid names rules = [] \<longleftrightarrow>
     (\<forall>r \<in> set rules. ru_choice r \<noteq> [] \<and> valid (ru_choice r) \<and> ru_trigger_ref r \<noteq> [] \<and> ru_trigger_ref r \<in> set names)"
  using all_indexed[of 0 rules "\<lambda>r. ru_choice r \<noteq> [] \<and> valid (ru_choice r) \<and> ru_trigger_ref r \<noteq> [] \<and> ru_trigger_ref r \<in> set names"]
  unfolding rule_errors_def by (auto simp: case_prod_unfold)

lemma ValidateDependencyRules_Nil:
  "ValidateDependencyRules i = [] \<longleftrightarrow>
     (\<forall>(n, env) \<in> set (in_environments i). env_dependency_mode env = [] \<or> IsValidDependencyMode (env_dependency_mode env)) \<and>
     (\<forall>c \<in> set (in_components i).
        (\<forall>(d, dep) \<in> set (indexed (c_depends_on c)). edge_errors (gm_keys (in_trigger_bindings i)) (c_name c) (d, dep) = []) \<and>
        (\<forall>sub \<in> set (c_subscribe c). subscription_errors (gm_keys (in_trigger_bindings i)) (c_name c) sub = []))"
  unfolding ValidateDependencyRules_def Let_def by (simp add: ball_conj_distrib case_prod_unfold)

lemma mode_ok_iff: "mode_ok m \<longleftrightarrow> m \<noteq> [] \<and> IsValidDependencyMode m"
  by (auto simp: mode_ok_def)

lemma dependency_rule_loop_ok:
  "\<forall>r \<in> set rs. mode_ok (ru_choice r) \<Longrightarrow> \<exists>x. dependency_rule_loop ts n rs = Inr x"
  by (induction rs arbitrary: n) auto

lemma ResolveDependencyMode_ok:
  assumes "env_dependency_mode env = [] \<or> IsValidDependencyMode (env_dependency_mode env)"
    and "\<And>s. sub = Some s \<Longrightarrow> (su_dependency_mode s = [] \<or> IsValidDependencyMode (su_dependency_mode s)) \<and>
      (\<forall>r \<in> set (su_dependency_rules s). mode_ok (ru_choice r))"
  shows "\<exists>m. ResolveDependencyMode env sub ts = Inr m"
proof -
  have "\<exists>x. (case sub of None \<Rightarrow> Inr None
     | Some s \<Rightarrow> if su_dependency_rules s \<noteq> [] \<and> ts \<noteq> [] then dependency_rule_loop ts 0 (su_dependency_rules s)
                 else Inr None) = (Inr x :: mode_error + rule_decl option)"
  proof (cases sub)
    case (Some s)
    then show ?thesis using dependency_rule_loop_ok[of "su_dependency_rules s" ts 0] assms(2)[OF Some] by auto
  qed simp
  then obtain x where x: "(case sub of None \<Rightarrow> Inr None
     | Some s \<Rightarrow> if su_dependency_rules s \<noteq> [] \<and> ts \<noteq> [] then dependency_rule_loop ts 0 (su_dependency_rules s)
                 else Inr None) = (Inr x :: mode_error + rule_decl option)" ..
  show ?thesis
    unfolding ResolveDependencyMode_def x using assms
    by (auto simp: Let_def split: option.splits)
qed

lemma ResolveEdgeDependencyMode_ok:
  assumes "d_mode dep = [] \<or> IsValidDependencyMode (d_mode dep)" "IsValidDependencyMode []"
    and "\<forall>r \<in> set (d_mode_rules dep). mode_ok (ru_choice r)"
  shows "\<exists>m. ResolveEdgeDependencyMode dep ts = Inr m"
proof -
  have c: "checkR (edge_rule_error (d_component dep)) (indexed (d_mode_rules dep)) = None"
    using assms(3) all_indexed[of 0 "d_mode_rules dep" "\<lambda>r. mode_ok (ru_choice r)"]
    by (auto simp: edge_rule_error_def)
  have m: "IsValidDependencyMode (d_mode dep)" using assms(1,2) by auto
  show ?thesis unfolding ResolveEdgeDependencyMode_def c guardR_simps using m by (auto split: option.splits)
qed

end
