(* ===== verification/Trigger_Correct.thy ===== *)
theory Trigger_Correct
  imports Trigger_Validate
begin

text \<open>
  What the trigger package guarantees: what an event resolves to, that this does not depend on the order
  in which Go visits the maps, when a named trigger resolves, and what passing the validators rules out.
\<close>

section \<open>Resolution of an event\<close>

text \<open>What an event names: the value at a dotted path of its payload, read as a list of names.\<close>

inductive value_at :: "yval \<Rightarrow> string list \<Rightarrow> yval \<Rightarrow> bool" where
  here: "value_at v [] v"
| below: "gm_get m part = Some u \<Longrightarrow> value_at u parts v \<Longrightarrow> value_at (YMap m) (part # parts) v"

inductive_simps value_at_simps: "value_at u [] v" "value_at (YMap m) (part # parts) v"

inductive_cases value_below: "value_at u (part # parts) v"

definition lists_name :: "yval \<Rightarrow> string \<Rightarrow> bool" where
  \<comment> \<open>a name of a comma-separated text, or of a list of texts\<close>
  "lists_name v x \<longleftrightarrow> x \<noteq> [] \<and>
     ((\<exists>s item. v = YStr s \<and> item \<in> set (split_char (CHR '','') s) \<and> x = trim_space item) \<or>
      (\<exists>items s. v = YList items \<and> YStr s \<in> set items \<and> x = trim_space s))"

definition event_names :: "normalized_event \<Rightarrow> string \<Rightarrow> string set" where
  "event_names event path = {x. path \<noteq> [] \<and>
     (\<exists>v. value_at (YMap (ev_raw event)) (split_char (CHR ''.'') path) v \<and> lists_name v x)}"

definition declares_selection :: "intent \<Rightarrow> string \<Rightarrow> string \<Rightarrow> string \<Rightarrow> bool" where
  \<comment> \<open>the binding with this name declares these paths, at least one of them\<close>
  "declares_selection i n compPath envPath \<longleftrightarrow> (\<exists>b. gm_get (in_trigger_bindings i) n = Some b \<and>
     tp_components (tb_plan b) = compPath \<and> tp_environments (tb_plan b) = envPath \<and> (compPath \<noteq> [] \<or> envPath \<noteq> []))"

definition selects :: "intent \<Rightarrow> normalized_event \<Rightarrow> string list \<Rightarrow> string list \<Rightarrow> bool" where
  \<comment> \<open>these are the components and environments that the event names at the paths of the first binding, by name,
    that it passes and that declares any\<close>
  "selects i event comps envs \<longleftrightarrow> (\<exists>n compPath envPath. n \<in> fired i event \<and> declares_selection i n compPath envPath \<and>
     (\<forall>n' \<in> fired i event. (\<exists>c e. declares_selection i n' c e) \<longrightarrow> n \<le> n') \<and>
     set comps = event_names event compPath \<and> set envs = event_names event envPath)"

lemma walk_value: "walk_path u parts = Some v \<longleftrightarrow> value_at u parts v"
proof (induction parts arbitrary: u)
  case (Cons part parts)
  show ?case
  proof (cases "\<exists>m. u = YMap m")
    case True
    then obtain m where m: "u = YMap m" by blast
    show ?thesis
    proof (cases "gm_get m part")
      case None
      then show ?thesis unfolding m value_at_simps(2) by (simp add: map_val_def)
    next
      case (Some w)
      then show ?thesis unfolding m value_at_simps(2) using Cons[of w] by (simp add: map_val_def)
    qed
  next
    case False
    then have "\<not> value_at u (part # parts) v" by (auto elim: value_below)
    moreover have "map_val u = None" using False by (cases u) (auto simp: map_val_def)
    ultimately show ?thesis by simp
  qed
qed (auto simp: value_at_simps)

lemma list_items_set:
  "list_items path items = Inr out \<Longrightarrow>
     set out = {x. x \<noteq> [] \<and> (\<exists>s. YStr s \<in> set (map snd items) \<and> x = trim_space s)}"
proof (induction path items arbitrary: out rule: list_items.induct)
  case (2 path i item rest)
  then obtain s o' where "item = YStr s" "list_items path rest = Inr o'"
    "out = (if trim_space s \<noteq> [] then trim_space s # o' else o')"
    by (cases item) (auto simp: bindR_Inr_iff str_val_def)
  with 2 show ?case by auto
qed simp

lemma ResolveList_names:
  assumes "ResolveList (ev_raw event) path = Inr xs"
  shows "set xs = event_names event path"
proof -
  from assms obtain v where v: "path \<noteq> []" "walk_path (YMap (ev_raw event)) (split_char (CHR ''.'') path) = Some v"
    by (auto simp: ResolveList_def lookupPath_def split: option.splits if_splits)
  have "set xs = {x. lists_name v x}"
  proof (cases v)
    case (YStr s)
    then have "xs = dedupe (parseCommaSeparated s)"
      using assms v by (auto simp: ResolveList_def lookupPath_def split: if_splits)
    then show ?thesis using YStr by (auto simp: dedupe_set parseCommaSeparated_def lists_name_def)
  next
    case (YList items)
    then obtain out where "list_items path (indexed items) = Inr out" "xs = dedupe out"
      using assms v by (auto simp: ResolveList_def lookupPath_def bindR_Inr_iff split: if_splits)
    then show ?thesis using YList list_items_set[of path "indexed items" out] by (auto simp: dedupe_set lists_name_def)
  qed (use assms v in \<open>auto simp: ResolveList_def lookupPath_def\<close>)
  moreover have "value_at (YMap (ev_raw event)) parts u \<Longrightarrow> value_at (YMap (ev_raw event)) parts u' \<Longrightarrow> u = u'" for parts u u'
    unfolding walk_value[symmetric] by simp
  ultimately show ?thesis using v unfolding event_names_def walk_value by blast
qed

lemma first_selection_least:
  assumes "sorted names" "first_selection i names = (n, c, e)" "n \<noteq> []"
  shows "n \<in> set names \<and> c = tp_components (binding_of i n) \<and> e = tp_environments (binding_of i n) \<and> (c \<noteq> [] \<or> e \<noteq> []) \<and>
    (\<forall>n' \<in> set names. tp_components (binding_of i n') \<noteq> [] \<or> tp_environments (binding_of i n') \<noteq> [] \<longrightarrow> n \<le> n')"
  using assms by (induction names) (auto simp: Let_def split: if_splits)

lemma resolveSelection_selects:
  assumes "resolveSelection i (matched_names i event) event activated = Inr (comps, envs)" "gm_ok (in_trigger_bindings i)"
  shows "selects i event comps envs"
proof -
  note fired = fired_names[OF assms(2), of event] and srt = matched_names_sorted[OF assms(2), of event]
  from assms(1) obtain n c e where s: "first_selection i (matched_names i event) = (n, c, e)" "n \<noteq> []"
    "ResolveList (ev_raw event) c = Inr comps" "ResolveList (ev_raw event) e = Inr envs"
    using srt by (auto simp: resolveSelection_def selectionPaths_def sort_key_id_if_sorted bindR_Inr_iff guardR_Inr_iff
        split: prod.splits if_splits)
  note first = first_selection_least[OF conjunct1[OF srt] s(1,2), unfolded fired]
  have b: "declares_selection i n' c' e' \<longleftrightarrow> c' = tp_components (binding_of i n') \<and> e' = tp_environments (binding_of i n') \<and>
      (c' \<noteq> [] \<or> e' \<noteq> [])" if "n' \<in> fired i event" for n' c' e'
    using that by (auto simp: fired_def declares_selection_def binding_of_def)
  have "n \<in> fired i event" "declares_selection i n c e" using first b by auto
  moreover have "n \<le> n'" if "n' \<in> fired i event" "declares_selection i n' c' e'" for n' c' e'
    using first b[OF that(1)] that by auto
  moreover have "set comps = event_names event c" "set envs = event_names event e"
    using ResolveList_names s(3,4) by blast+
  ultimately show ?thesis unfolding selects_def by blast
qed

text \<open>
  C21: When an event resolves, the matched triggers are exactly the bindings the event passes, in name order;
  they agree on the plan scope wherever they set one; and the active environments are, in order and without
  repetition, those that refer to a matched trigger - for a selected plan those that the event names, all of
  them activated - less what an explicit \<open>--env\<close> leaves out. There is at least one. The components and the
  environments of a selected plan are the names that the event's payload has at the \<open>plan.components\<close> and at the
  \<open>plan.environments\<close> path of the first matched binding, by name, that declares such paths.
\<close>

theorem event_resolution:
  assumes "gm_ok (in_trigger_bindings i)" "gm_ok (in_environments i)" "tc_mode ctx = ''event-file''"
    and "ResolveActiveEnvironments fmt_v i ctx explicitEnv = Inr (envs, res)"
  shows "\<exists>event r. tc_event ctx = Some event \<and> res = Some r \<and> tr_active_environments r = envs \<and>
     set (tr_matched r) = fired i event \<and> sorted (tr_matched r) \<and> distinct (tr_matched r) \<and> tr_matched r \<noteq> [] \<and>
     (\<forall>n \<in> fired i event. tp_scope (binding_of i n) \<in> {[], tr_plan_scope r}) \<and>
     envs \<noteq> [] \<and> sorted envs \<and> distinct envs \<and> (\<forall>e \<in> set envs. activates i (fired i event) e) \<and>
     set envs = {e. explicitly_chosen explicitEnv e \<and>
       (if tr_plan_scope r = ''selected'' then e \<in> set (tr_selected_environments r) else activates i (fired i event) e)} \<and>
     (tr_plan_scope r = ''selected'' \<longrightarrow> tr_selected_components r \<noteq> [] \<and> distinct (tr_selected_components r) \<and>
        selects i event (tr_selected_components r) (tr_selected_environments r))"
proof -
  obtain event where ev: "tc_event ctx = Some event"
    and run: "resolve_matched fmt_v i event (matched_names i event) explicitEnv = Inr (envs, res)"
    using assms(3,4) by (auto simp: ResolveActiveEnvironments_def resolveEventFile_def split: option.splits if_splits)
  let ?names = "matched_names i event" and ?act = "environmentsForTriggers i (matched_names i event)"
  from run obtain scope comps sel act where m: "?names \<noteq> []" "resolvePlanScope i ?names = Inr scope"
    "if scope = ''selected'' then resolveSelection i ?names event ?act = Inr (comps, sel) else comps = [] \<and> sel = []"
    "explicit_envs (if scope = ''selected'' then sel else ?act) explicitEnv None = Inr act" "?act \<noteq> []" "envs = sort act"
    and res: "res = Some \<lparr>tr_matched = ?names, tr_active_environments = envs, tr_plan_scope = scope,
       tr_base = fst (resolveBaseHead fmt_v i ?names event), tr_head = snd (resolveBaseHead fmt_v i ?names event),
       tr_selected_components = comps, tr_selected_environments = sel,
       tr_auto_push_disabled = autoPushDisabled i ?names, tr_require_rule_triggers = requireRuleTriggers i ?names\<rparr>"
    by (rule resolve_matched_Inr)
  note names = fired_names[OF assms(1), of event] and ns = matched_names_sorted[OF assms(1), of event]
  have act_set: "set ?act = {e. activates i (fired i event) e}" "distinct ?act"
    using environmentsForTriggers_set[OF assms(2), of ?names] names filtered_keys_distinct[OF assms(2)]
    by (simp_all add: environmentsForTriggers_def)
  have sel: "comps \<noteq> [] \<and> distinct comps \<and> sel \<noteq> [] \<and> distinct sel \<and> set sel \<subseteq> set ?act \<and> selects i event comps sel"
    if "scope = ''selected''"
    using m(3) that resolveSelection_Inr resolveSelection_selects[OF _ assms(1)] by simp
  let ?from = "if scope = ''selected'' then sel else ?act"
  have from_ok: "?from \<noteq> []" "distinct ?from" "set ?from \<subseteq> set ?act" using sel m(5) act_set by auto
  have envs: "set envs = {e \<in> set ?from. explicitly_chosen explicitEnv e}" using explicit_envs_set[OF m(4)] m(6) by simp
  have "act \<noteq> [] \<and> distinct act" using m(4) from_ok by (auto simp: explicit_envs_Inr split: if_splits)
  then have e: "envs \<noteq> []" "sorted envs" "distinct envs" using m(6) by (auto dest: arg_cong[of _ _ set])
  have "\<forall>e \<in> set envs. activates i (fired i event) e" using envs from_ok(3) act_set by auto
  moreover have "\<forall>n \<in> fired i event. tp_scope (binding_of i n) \<in> {[], scope}"
    using resolvePlanScope_Inr(1)[OF m(2)] names by simp
  moreover have "set envs = {e. explicitly_chosen explicitEnv e \<and>
       (if scope = ''selected'' then e \<in> set sel else activates i (fired i event) e)}"
    using envs act_set by auto
  ultimately show ?thesis using ev res e names ns m(1) sel by auto
qed

section \<open>Map order\<close>

definition same_map :: "'v gmap \<Rightarrow> 'v gmap \<Rightarrow> bool" where
  \<comment> \<open>one Go map, visited in two orders\<close>
  "same_map m m' \<longleftrightarrow> gm_ok m \<and> gm_ok m' \<and> set m = set m'"

lemma same_map_mset: "same_map m m' \<Longrightarrow> mset m = mset m'"
  unfolding same_map_def gm_ok_def distinct_map by (blast intro: set_eq_iff_mset_eq_distinct[THEN iffD1])

lemma same_map_get: "same_map m m' \<Longrightarrow> gm_get m = gm_get m'"
  by (simp add: same_map_def gm_ok_def map_of_inject_set)

lemma sort_mset: "mset xs = mset ys \<Longrightarrow> sort xs = (sort ys :: string list)"
  by (metis sorted_list_of_multiset_mset)

lemma sorted_names: "same_map m m' \<Longrightarrow> sort (map fst (filter P m)) = sort (map fst (filter P m'))"
  by (rule sort_mset) (simp only: mset_map mset_filter same_map_mset)

lemma sorted_keys: "same_map m m' \<Longrightarrow> sort (gm_keys m) = sort (gm_keys m')"
  using sorted_names[of m m' "\<lambda>_. True"] by simp

text \<open>
  C31: What a trigger resolves to - the environments, the matched triggers, the scope, the revisions, or the
  error - does not depend on the order in which Go visits the maps of bindings and environments.
\<close>

theorem resolution_ignores_map_order:
  assumes "same_map (in_trigger_bindings i) bs" "same_map (in_environments i) es"
  shows "ResolveActiveEnvironments fmt_v (i\<lparr>in_trigger_bindings := bs, in_environments := es\<rparr>) ctx explicitEnv =
    ResolveActiveEnvironments fmt_v i ctx explicitEnv"
proof -
  let ?i = "i\<lparr>in_trigger_bindings := bs, in_environments := es\<rparr>"
  have b: "binding_of ?i = binding_of i"
    using same_map_get[OF assms(1)] by (simp add: binding_of_def fun_eq_iff)
  have names: "allEnvironmentNames ?i = allEnvironmentNames i" "matched_names ?i = matched_names i"
    "environmentsForTrigger ?i = environmentsForTrigger i" "environmentsForTriggers ?i = environmentsForTriggers i"
    using sorted_keys[OF assms(2)] sorted_names[OF assms(1)] sorted_names[OF assms(2)]
    by (simp_all add: allEnvironmentNames_def matched_names_def environmentsForTrigger_def
        environmentsForTriggers_def fun_eq_iff)
  have first: "first_selection ?i ns = first_selection i ns" for ns by (induction ns) (simp_all add: b Let_def)
  have fns: "autoPushDisabled ?i = autoPushDisabled i" "requireRuleTriggers ?i = requireRuleTriggers i"
    "resolvePlanScope ?i = resolvePlanScope i" "resolveBaseHead fmt_v ?i = resolveBaseHead fmt_v i"
    "resolveSelection ?i = resolveSelection i"
    unfolding autoPushDisabled_def fun_eq_iff requireRuleTriggers_def resolvePlanScope_def
      resolveBaseHead_def resolveSelection_def selectionPaths_def first b by (rule allI refl)+
  have m: "(in_trigger_bindings ?i = []) = (in_trigger_bindings i = [])"
    "gm_get (in_trigger_bindings ?i) = gm_get (in_trigger_bindings i)"
    using assms(1) same_map_get[OF assms(1)] by (auto simp: same_map_def)
  show ?thesis
    unfolding ResolveActiveEnvironments_def resolveNoTrigger_def resolveNamedTrigger_def resolveEventFile_def
      resolve_matched_def names fns m by (rule refl)
qed

section \<open>Named triggers\<close>

text \<open>
  C33: A trigger named on the command line resolves exactly when the binding exists, some environment refers
  to it, a selected scope comes with an explicit \<open>--env\<close>, and what is left of the activated environments is
  not empty; then the environments are the activated ones, in order, and the plan options are the binding's.
\<close>

theorem named_trigger_resolution:
  assumes "gm_ok (in_environments i)" "tc_mode ctx = ''named-trigger''" "tc_trigger_name ctx = t"
  shows "((\<exists>x. ResolveActiveEnvironments fmt_v i ctx explicitEnv = Inr x) \<longleftrightarrow>
      gm_has (in_trigger_bindings i) t \<and> {e. activates i {t} e \<and> explicitly_chosen explicitEnv e} \<noteq> {} \<and>
      (tp_scope (binding_of i t) = ''selected'' \<longrightarrow> explicitEnv \<noteq> [])) \<and>
    (\<forall>envs res. ResolveActiveEnvironments fmt_v i ctx explicitEnv = Inr (envs, res) \<longrightarrow>
      sorted envs \<and> distinct envs \<and> set envs = {e. activates i {t} e \<and> explicitly_chosen explicitEnv e} \<and>
      (\<exists>r. res = Some r \<and> tr_active_environments r = envs \<and> tr_matched r = [t] \<and>
        tr_plan_scope r = tp_scope (binding_of i t)))"
proof -
  let ?act = "environmentsForTrigger i t" and ?want = "{e. activates i {t} e \<and> explicitly_chosen explicitEnv e}"
  have run: "ResolveActiveEnvironments fmt_v i ctx explicitEnv = resolveNamedTrigger i t explicitEnv"
    using assms(2,3) by (simp add: ResolveActiveEnvironments_def)
  have act: "set ?act = {e. activates i {t} e}" "distinct ?act"
    using environmentsForTrigger_set[OF assms(1)] filtered_keys_distinct[OF assms(1)]
    by (simp_all add: environmentsForTrigger_def)
  have empty: "?act = [] \<Longrightarrow> ?want = {}" using act(1) by auto
  have got: "set a = ?want \<and> distinct a" if "explicit_envs ?act explicitEnv (Some t) = Inr a" for a
    using explicit_envs_set[OF that] act that by (auto simp: explicit_envs_Inr)
  have gets: "(\<exists>a. explicit_envs ?act explicitEnv (Some t) = Inr a) \<longleftrightarrow> ?want \<noteq> {}" if "?act \<noteq> []"
  proof -
    have "(\<exists>a. explicit_envs ?act explicitEnv (Some t) = Inr a) \<longleftrightarrow>
        explicitEnv = [] \<or> filter (\<lambda>e. e \<in> set (parseCommaSeparated explicitEnv)) ?act \<noteq> []"
      by (auto simp: explicit_envs_Inr)
    moreover have "?want \<noteq> {} \<longleftrightarrow> (\<exists>e \<in> set ?act. explicitly_chosen explicitEnv e)" using act(1) by auto
    ultimately show ?thesis using that by (auto simp: explicitly_chosen_def filter_empty_conv)
  qed
  show ?thesis
  proof (cases "gm_get (in_trigger_bindings i) t")
    case None
    then show ?thesis by (simp add: run resolveNamedTrigger_def gm_has_def)
  next
    case (Some b)
    then have b: "binding_of i t = tb_plan b" and h: "gm_has (in_trigger_bindings i) t"
      by (simp_all add: binding_of_def gm_has_def)
    show ?thesis
    proof (cases "?act = [] \<or> tp_scope (tb_plan b) = ''selected'' \<and> explicitEnv = []")
      case True
      then show ?thesis using empty by (auto simp: run resolveNamedTrigger_def Some b h Let_def)
    next
      case False
      then show ?thesis using gets got
        by (auto simp: run resolveNamedTrigger_def Some b h Let_def bindR_Inr_iff)
    qed
  qed
qed

section \<open>Validated intents\<close>

text \<open>
  Once \<open>ValidateDependencyRules\<close> reports nothing, no dependency mode is left to fail at planning: for
  every component, each of its subscriptions, every environment and every set of matched triggers, the
  dependency mode and the mode of each of its edges resolve.
\<close>

theorem validated_modes_resolve:
  assumes "ValidateDependencyRules i = []" and "c \<in> set (in_components i)"
  shows "(\<forall>(n, env) \<in> set (in_environments i). \<forall>sub \<in> insert None (Some ` set (c_subscribe c)).
      \<exists>m. ResolveDependencyMode env sub ts = Inr m) \<and>
    (\<forall>dep \<in> set (c_depends_on c). \<exists>m. ResolveEdgeDependencyMode dep ts = Inr m)"
proof (intro conjI)
  note v = assms(1)[unfolded ValidateDependencyRules_Nil]
  have sub: "(su_dependency_mode s = [] \<or> IsValidDependencyMode (su_dependency_mode s)) \<and>
      (\<forall>r \<in> set (su_dependency_rules s). mode_ok (ru_choice r))" if "s \<in> set (c_subscribe c)" for s
    using v assms(2) that by (fastforce simp: subscription_errors_def rule_errors_Nil mode_ok_iff)
  show "\<forall>(n, env) \<in> set (in_environments i). \<forall>sub \<in> insert None (Some ` set (c_subscribe c)).
      \<exists>m. ResolveDependencyMode env sub ts = Inr m"
  proof (intro ballI, clarify)
    fix n env s
    assume e: "(n, env) \<in> set (in_environments i)" and s: "s \<in> insert None (Some ` set (c_subscribe c))"
    show "\<exists>m. ResolveDependencyMode env s ts = Inr m"
      by (rule ResolveDependencyMode_ok) (use v e s sub in auto)
  qed
  have all: "\<forall>dep \<in> set (c_depends_on c). (d_mode dep = [] \<or> IsValidDependencyMode (d_mode dep)) \<and>
      (\<forall>r \<in> set (d_mode_rules dep). mode_ok (ru_choice r))"
    using v assms(2) all_indexed[of 0 "c_depends_on c" "\<lambda>dep. (d_mode dep = [] \<or> IsValidDependencyMode (d_mode dep)) \<and>
      (\<forall>r \<in> set (d_mode_rules dep). mode_ok (ru_choice r))"]
    by (fastforce simp: edge_errors_def rule_errors_Nil mode_ok_iff)
  have "IsValidDependencyMode []" by (simp add: IsValidDependencyMode_def)
  then show "\<forall>dep \<in> set (c_depends_on c). \<exists>m. ResolveEdgeDependencyMode dep ts = Inr m"
    using all ResolveEdgeDependencyMode_ok by blast
qed

lemma ValidatePlanOptions_path:
  assumes "ValidatePlanOptions i = []" "tp_scope (binding_of i n) = ''selected''"
  shows "tp_components (binding_of i n) \<noteq> []" "n \<in> set (gm_keys (in_trigger_bindings i))"
proof -
  show n: "n \<in> set (gm_keys (in_trigger_bindings i))"
    using assms(2) unfolding gm_has_iff[symmetric] by (auto simp: binding_of_def gm_has_def split: option.splits)
  then show "tp_components (binding_of i n) \<noteq> []"
    using assms by (fastforce simp: ValidatePlanOptions_def Let_def path_errors_def)
qed

lemma first_selection_found:
  "\<exists>n \<in> set names. tp_components (binding_of i n) \<noteq> [] \<or> tp_environments (binding_of i n) \<noteq> [] \<Longrightarrow>
    fst (first_selection i names) \<in> set names"
  by (induction names) (auto simp: Let_def)

lemma resolveSelection_paths:
  assumes "fst (selectionPaths i names) \<noteq> []"
  shows "resolveSelection i names event act \<noteq> Inl (NoSelectionPaths ms)"
proof -
  obtain name cp ep where p: "selectionPaths i names = (name, cp, ep)" by (cases "selectionPaths i names")
  show ?thesis
    using assms unfolding resolveSelection_def p
    by (cases "ResolveList (ev_raw event) cp"; cases "ResolveList (ev_raw event) ep")
      (auto simp: wrap_selection_def guardR_def split: option.splits dest!: checkR_Some split: if_splits)
qed

text \<open>
  When \<open>ValidatePlanOptions\<close> reports nothing (and no binding has an empty name), an event that asks
  for a selected plan always finds where the selection is: the error that no matched binding says where its
  components and environments are never occurs.
\<close>

theorem validated_selection_has_paths:
  assumes "ValidatePlanOptions i = []" "gm_ok (in_trigger_bindings i)" "\<not> gm_has (in_trigger_bindings i) []"
  shows "ResolveActiveEnvironments fmt_v i ctx explicitEnv \<noteq> Inl (NoSelectionPaths names)"
proof
  assume run: "ResolveActiveEnvironments fmt_v i ctx explicitEnv = Inl (NoSelectionPaths names)"
  have expl: "explicit_envs a x t \<noteq> Inl (NoSelectionPaths names)" for a x t
    by (simp add: explicit_envs_def Let_def)
  obtain event where m: "resolve_matched fmt_v i event (matched_names i event) explicitEnv = Inl (NoSelectionPaths names)"
    using run expl
    by (auto simp: ResolveActiveEnvironments_def resolveNoTrigger_def resolveNamedTrigger_def resolveEventFile_def
        bindR_Inl_iff Let_def split: if_splits option.splits)
  let ?names = "matched_names i event"
  have ps: "resolvePlanScope i ?names \<noteq> Inl (NoSelectionPaths names)"
    by (auto simp: resolvePlanScope_def split: list.splits)
  obtain act where sel: "resolvePlanScope i ?names = Inr ''selected''"
    "resolveSelection i ?names event act = Inl (NoSelectionPaths names)"
    using m expl ps
    by (auto simp: resolve_matched_def bindR_Inl_iff Let_def case_prod_unfold split: if_splits)
  obtain n where n: "n \<in> set ?names" "tp_scope (binding_of i n) = ''selected''"
    using resolvePlanScope_Inr(2)[OF sel(1)] by auto
  let ?found = "fst (selectionPaths i ?names)"
  have "?found \<in> set ?names"
    unfolding selectionPaths_def
    using first_selection_found[of "sort ?names" i] n ValidatePlanOptions_path(1)[OF assms(1) n(2)] by auto
  then have "?found \<noteq> []"
    using assms(3) fired_names[OF assms(2), of event] by (auto simp: fired_def gm_has_def)
  then show False using resolveSelection_paths sel(2) by blast
qed

section \<open>Examples\<close>

definition example_binding :: "string \<Rightarrow> string \<Rightarrow> string list \<Rightarrow> trigger_binding" where
  "example_binding event scope branches = \<lparr>tb_description = [],
     tb_on = \<lparr>tm_provider = ''github'', tm_event = event, tm_actions = [], tm_branches = [],
       tm_base_branches = branches, tm_tags = []\<rparr>,
     tb_plan = \<lparr>tp_scope = scope, tp_base = [], tp_head = [],
       tp_components = (if scope = ''selected'' then ''inputs.component'' else []),
       tp_environments = (if scope = ''selected'' then ''inputs.env'' else []),
       tp_auto_push = None, tp_require_rule = False\<rparr>\<rparr>"

definition example_component :: component where
  "example_component = zero_component\<lparr>c_name := ''api'',
     c_subscribe := [zero_subscription\<lparr>su_name := ''dev'', su_dependency_rules := [\<lparr>ru_choice = ''advisory'', ru_trigger_ref = ''pr''\<rparr>]\<rparr>],
     c_depends_on := [zero_dependency\<lparr>d_component := ''db'', d_mode := ''enforced''\<rparr>]\<rparr>"

definition example_intent :: intent where
  "example_intent = zero_intent\<lparr>
     in_trigger_bindings := [(''pr'', example_binding ''pull_request'' ''changed'' [''main'', ''release/*'']),
       (''manual'', example_binding ''workflow_dispatch'' ''selected'' [])],
     in_environments := [(''prod'', zero_environment\<lparr>env_trigger_refs := [''manual'']\<rparr>),
       (''dev'', zero_environment\<lparr>env_trigger_refs := [''pr'', ''manual'']\<rparr>)],
     in_components := [example_component]\<rparr>"

definition dispatch_event :: normalized_event where
  \<comment> \<open>a manual run that names one component and two environments\<close>
  "dispatch_event = NormalizeGitHubEvent ''workflow_dispatch''
     [(''ref'', YStr ''refs/heads/main''),
      (''inputs'', YMap [(''component'', YStr ''api''), (''env'', YList [YStr ''prod'', YStr '' dev''])])]"

definition example_context :: trigger_context where
  "example_context = \<lparr>tc_mode = ''event-file'', tc_trigger_name = [], tc_event = Some dispatch_event\<rparr>"

definition named_context :: trigger_context where
  "named_context = \<lparr>tc_mode = ''named-trigger'', tc_trigger_name = ''pr'', tc_event = None\<rparr>"

lemma example_maps: "gm_ok (in_trigger_bindings example_intent)" "gm_ok (in_environments example_intent)"
  "\<not> gm_has (in_trigger_bindings example_intent) []"
  by (simp_all add: example_intent_def gm_ok_def gm_has_def)

lemma example_event_run:
  "case ResolveActiveEnvironments (\<lambda>_. []) example_intent example_context [] of
     Inr (envs, Some r) \<Rightarrow> envs = [''dev'', ''prod''] \<and> tr_selected_environments r = [''prod'', ''dev'']
   | _ \<Rightarrow> False"
  by code_simp

theorem event_resolution_witness:
  "\<exists>envs r. ResolveActiveEnvironments (\<lambda>_. []) example_intent example_context [] = Inr (envs, Some r) \<and>
     sorted envs \<and> set envs = {''prod'', ''dev''} \<and> tr_selected_components r \<noteq> []"
proof -
  obtain envs r where run: "ResolveActiveEnvironments (\<lambda>_. []) example_intent example_context [] = Inr (envs, Some r)"
    and r: "envs = [''dev'', ''prod'']"
    using example_event_run by (auto split: sum.splits option.splits)
  have sc: "tr_plan_scope r = ''selected''"
  proof -
    have "case ResolveActiveEnvironments (\<lambda>_. []) example_intent example_context [] of
       Inr (envs, Some r) \<Rightarrow> tr_plan_scope r = ''selected'' | _ \<Rightarrow> False" by code_simp
    then show ?thesis by (simp add: run)
  qed
  have "sorted envs \<and> tr_selected_components r \<noteq> []"
    using event_resolution[OF example_maps(1,2) _ run] sc by (auto simp: example_context_def)
  then show ?thesis using run r by auto
qed

text \<open>
  The base of a named trigger is the binding's path into an event, though there is no event to read: the
  caller takes the text of the path for a git revision.
\<close>

lemma named_trigger_base_is_the_path:
  "case ResolveActiveEnvironments (\<lambda>_. []) (example_intent\<lparr>in_trigger_bindings :=
       [(''pr'', (example_binding ''pull_request'' ''changed'' [])\<lparr>tb_plan := \<lparr>tp_scope = ''changed'',
          tp_base = ''pull_request.base.sha'', tp_head = [], tp_components = [], tp_environments = [],
          tp_auto_push = None, tp_require_rule = False\<rparr>\<rparr>)]\<rparr>) named_context [] of
     Inr (envs, Some r) \<Rightarrow> tr_base r = ''pull_request.base.sha''
   | _ \<Rightarrow> False"
  by code_simp

theorem resolution_ignores_map_order_witness:
  "ResolveActiveEnvironments (\<lambda>_. []) (example_intent\<lparr>in_trigger_bindings := rev (in_trigger_bindings example_intent),
      in_environments := rev (in_environments example_intent)\<rparr>) example_context [] =
    ResolveActiveEnvironments (\<lambda>_. []) example_intent example_context []"
  by (rule resolution_ignores_map_order) (simp_all add: same_map_def example_intent_def gm_ok_def insert_commute)

theorem named_trigger_resolution_witness:
  "\<exists>x. ResolveActiveEnvironments (\<lambda>_. []) example_intent named_context [] = Inr x"
proof -
  have "activates example_intent {''pr''} ''dev'' \<and> explicitly_chosen [] ''dev''"
    by (simp add: activates_def explicitly_chosen_def example_intent_def)
  then show ?thesis
    using named_trigger_resolution[OF example_maps(2), of named_context "''pr''" "\<lambda>_. []" "[]"]
    by (auto simp: named_context_def gm_has_def binding_of_def example_intent_def example_binding_def)
qed

theorem validated_modes_resolve_witness:
  "\<exists>m. ResolveEdgeDependencyMode (hd (c_depends_on example_component)) [''pr''] = Inr m"
proof -
  have "ValidateDependencyRules example_intent = []" by code_simp
  then show ?thesis
    using validated_modes_resolve[of example_intent example_component "[''pr'']"]
    by (simp add: example_intent_def example_component_def)
qed

theorem validated_selection_has_paths_witness:
  "ResolveActiveEnvironments (\<lambda>_. []) example_intent example_context [] \<noteq> Inl (NoSelectionPaths [''manual''])"
proof -
  have "ValidatePlanOptions example_intent = []" by code_simp
  then show ?thesis using validated_selection_has_paths[OF _ example_maps(1,3)] by blast
qed

end
