(* ===== verification/Git_Changes.thy ===== *)
theory Git_Changes
  imports Trigger_Match
begin

text \<open>
  \<open>internal/git\<close>: the changed files of a repository (\<open>changes.go\<close>) and the comparison of two versions of
  an intent document (\<open>intentdiff.go\<close>). The \<open>git\<close> program is the parameter \<open>git\<close>, from its arguments to
  its output (\<open>None\<close> when it fails); decoding YAML is the parameter \<open>unmarshal\<close>.
\<close>

section \<open>Changed files\<close>

record change_options =
  co_base :: string
  co_head :: string
  co_files :: "string list"
  co_uncommitted :: bool
  co_untracked :: bool

type_synonym git_program = "string list \<Rightarrow> string option"

definition runGitOutput :: "git_program \<Rightarrow> string list \<Rightarrow> string" where
  "runGitOutput git args = (case git args of None \<Rightarrow> [] | Some output \<Rightarrow> output)"

definition parseGitOutput :: "git_program \<Rightarrow> string list \<Rightarrow> string list" where
  "parseGitOutput git args =
     (let output = runGitOutput git args in
      if trim_space output = [] then []
      else filter (\<lambda>line. line \<noteq> []) (map trim_space (split_char (CHR 0x0A) (trim_space output))))"

definition normalizeFiles :: "string list \<Rightarrow> string list" where
  "normalizeFiles files = sort (remdups (filter (\<lambda>file. file \<noteq> []) (map trim_space files)))"

definition getUncommittedFiles :: "git_program \<Rightarrow> string list" where
  "getUncommittedFiles git =
     parseGitOutput git [''diff'', ''--name-only'', ''--no-renames'', ''--relative'', ''HEAD'', ''.''] @
     parseGitOutput git [''diff'', ''--cached'', ''--name-only'', ''--no-renames'', ''--relative'']"

definition getUntrackedFiles :: "git_program \<Rightarrow> string list" where
  "getUntrackedFiles git = parseGitOutput git [''ls-files'', ''--others'', ''--exclude-standard'']"

definition getMergeBase :: "git_program \<Rightarrow> string \<Rightarrow> string \<Rightarrow> string" where
  "getMergeBase git base head =
     (let mergeBase = trim_space (runGitOutput git [''merge-base'', base, head]);
          forkPoint = trim_space (runGitOutput git [''merge-base'', ''--fork-point'', base, head]) in
      if mergeBase \<noteq> [] then mergeBase
      else if forkPoint \<noteq> [] then forkPoint
      else if \<not> has_prefix base ''origin/'' then
        (let originBase = ''origin/'' @ base;
             mergeBase = trim_space (runGitOutput git [''merge-base'', originBase, head]);
             forkPoint = trim_space (runGitOutput git [''merge-base'', ''--fork-point'', originBase, head]) in
         if mergeBase \<noteq> [] then mergeBase else if forkPoint \<noteq> [] then forkPoint else base)
      else base)"

definition getFilesUsingBaseAndHead :: "git_program \<Rightarrow> string \<Rightarrow> string \<Rightarrow> string list" where
  "getFilesUsingBaseAndHead git base head =
     (let resolvedBase = getMergeBase git base head;
          resolvedBase = (if resolvedBase = [] then base else resolvedBase)
      in parseGitOutput git [''diff'', ''--name-only'', ''--no-renames'', ''--relative'', resolvedBase, head])"

definition GetChangedFiles :: "git_program \<Rightarrow> change_options \<Rightarrow> string list" where
  \<comment> \<open>it never returns an error; an empty base is \<open>main\<close>, so its last \<open>return\<close> is not reached\<close>
  "GetChangedFiles git options =
     (if co_files options \<noteq> [] then normalizeFiles (co_files options)
      else if co_uncommitted options then normalizeFiles (getUncommittedFiles git)
      else if co_untracked options then normalizeFiles (getUntrackedFiles git)
      else
        let base = (if co_base options = [] then ''main'' else co_base options) in
        if base \<noteq> [] \<and> co_head options \<noteq> [] then normalizeFiles (getFilesUsingBaseAndHead git base (co_head options))
        else if base \<noteq> [] then
          normalizeFiles (getFilesUsingBaseAndHead git base ''HEAD'' @ getUncommittedFiles git @ getUntrackedFiles git)
        else [])"

definition under_path :: "string \<Rightarrow> string \<Rightarrow> bool" where
  "under_path path file \<longleftrightarrow> has_prefix file (path @ ''/'') \<or> file = path"

definition GetChangedFilesUnderPath :: "git_program \<Rightarrow> change_options \<Rightarrow> string \<Rightarrow> string list" where
  "GetChangedFilesUnderPath git options path =
     (if path = [] \<or> path = ''./'' then GetChangedFiles git options
      else filter (under_path (trim_suffix path ''/'')) (GetChangedFiles git options))"

definition IsPathChanged :: "git_program \<Rightarrow> change_options \<Rightarrow> string \<Rightarrow> bool" where
  "IsPathChanged git options path =
     (if path = [] \<or> path = ''./'' then GetChangedFiles git options \<noteq> []
      else list_ex (under_path (trim_suffix path ''/'')) (GetChangedFiles git options))"

definition IsAnyPathChanged :: "git_program \<Rightarrow> change_options \<Rightarrow> string list \<Rightarrow> bool" where
  "IsAnyPathChanged git options paths =
     list_ex (\<lambda>path. \<not> (path = [] \<or> path = ''./'') \<and> IsPathChanged git options path) paths"

datatype options_error = FilesConflict | UncommittedConflict | UntrackedConflict | HeadNeedsBase

definition ValidateOptions :: "change_options \<Rightarrow> options_error option" where
  "ValidateOptions options =
     (if co_files options \<noteq> [] then
        (if co_uncommitted options \<or> co_untracked options \<or> co_base options \<noteq> [] \<or> co_head options \<noteq> []
         then Some FilesConflict else None)
      else if co_uncommitted options \<and> (co_untracked options \<or> co_base options \<noteq> [] \<or> co_head options \<noteq> [])
      then Some UncommittedConflict
      else if co_untracked options \<and> (co_uncommitted options \<or> co_base options \<noteq> [] \<or> co_head options \<noteq> [])
      then Some UntrackedConflict
      else if co_head options \<noteq> [] \<and> co_base options = [] then Some HeadNeedsBase
      else None)"

lemma GetChangedFiles_sorted: "sorted (GetChangedFiles git options) \<and> distinct (GetChangedFiles git options)"
  by (simp add: GetChangedFiles_def Let_def normalizeFiles_def)

lemma normalizeFiles_set: "set (normalizeFiles files) = trim_space ` set files - {[]}"
  by (auto simp: normalizeFiles_def)

section \<open>Comparing documents\<close>

lemma size_map_entry: "(k, v) \<in> set m \<Longrightarrow> size v \<le> size_list (\<lambda>x. Suc (size (snd x))) m"
  by (rule size_list_estimation'[of "(k, v)"]) auto

function (sequential) deep_equal :: "yval \<Rightarrow> yval \<Rightarrow> bool" where
  \<comment> \<open>\<open>reflect.DeepEqual\<close> on decoded values\<close>
  "deep_equal (YList xs) w = (case w of
     YList ys \<Rightarrow> length xs = length ys \<and> list_all (\<lambda>(x, y). deep_equal x y) (zip xs ys)
   | _ \<Rightarrow> False)"
| "deep_equal (YMap m) w = (case w of
     YMap m' \<Rightarrow> length m = length m' \<and>
       list_all (\<lambda>(k, x). case gm_get m' k of Some y \<Rightarrow> deep_equal x y | None \<Rightarrow> False) m
   | _ \<Rightarrow> False)"
| "deep_equal v w = (v = w)"
  by pat_completeness auto
termination
  by (relation "measure (size \<circ> fst)")
    (auto dest!: set_zip_leftD simp: less_Suc_eq_le intro: size_list_estimation' dest: size_map_entry)

definition maps_equal :: "yval gmap \<Rightarrow> yval gmap \<Rightarrow> bool" where
  "maps_equal m m' = deep_equal (YMap m) (YMap m')"

definition optional_equal :: "yval option \<Rightarrow> yval option \<Rightarrow> bool" where
  \<comment> \<open>both absent, or both present and equal\<close>
  "optional_equal a b = (case (a, b) of
     (None, None) \<Rightarrow> True | (Some x, Some y) \<Rightarrow> deep_equal x y | _ \<Rightarrow> False)"

datatype diff_reason =
    BaseUnparsed | HeadUnparsed | OutsideComponents | NoSemanticChange | ReorderedComponents | OnlyComponents
  | BytesUnavailable

record intent_diff =
  df_mode :: string
  df_changed_sections :: "string list"
  df_added :: "string list"
  df_modified :: "string list"
  df_removed :: "string list"
  df_reason :: diff_reason

definition plain_diff :: "string \<Rightarrow> diff_reason \<Rightarrow> intent_diff" where
  "plain_diff mode reason = \<lparr>df_mode = mode, df_changed_sections = [], df_added = [], df_modified = [],
     df_removed = [], df_reason = reason\<rparr>"

definition ignoredIntentKeys :: "string list" where
  "ignoredIntentKeys = [''apiVersion'', ''kind'', ''metadata'', ''components'']"

definition doc_keys :: "'v gmap \<Rightarrow> 'v gmap \<Rightarrow> string list" where
  \<comment> \<open>the keys of both documents, each once\<close>
  "doc_keys a b = gm_keys a @ filter (\<lambda>k. \<not> gm_has a k) (gm_keys b)"

definition findChangedSections :: "yval gmap \<Rightarrow> yval gmap \<Rightarrow> string list" where
  "findChangedSections baseDoc headDoc =
     sort (filter (\<lambda>k. k \<notin> set ignoredIntentKeys \<and> \<not> optional_equal (gm_get baseDoc k) (gm_get headDoc k))
       (doc_keys baseDoc headDoc))"

definition component_name :: "yval gmap \<Rightarrow> string" where
  \<comment> \<open>\<open>componentName\<close>\<close>
  "component_name c =
     (case (case gm_get c ''name'' of Some v \<Rightarrow> str_val v | None \<Rightarrow> None) of
        Some s \<Rightarrow> if trim_space s \<noteq> [] then s else getNestedString c [''metadata'', ''name'']
      | None \<Rightarrow> getNestedString c [''metadata'', ''name''])"

definition list_val :: "yval \<Rightarrow> yval list option" where
  "list_val v = (case v of YList xs \<Rightarrow> Some xs | _ \<Rightarrow> None)"

definition add_component :: "yval \<Rightarrow> yval gmap gmap \<Rightarrow> yval gmap gmap" where
  "add_component item result =
     (case map_val item of
        None \<Rightarrow> result
      | Some c \<Rightarrow> if component_name c = [] then result else gm_set (component_name c) c result)"

definition extractComponentMap :: "yval gmap \<Rightarrow> yval gmap gmap" where
  "extractComponentMap doc =
     (case gm_get doc ''components'' of
        None \<Rightarrow> []
      | Some raw \<Rightarrow> (case list_val raw of None \<Rightarrow> [] | Some items \<Rightarrow> fold add_component items []))"

definition same_components :: "yval gmap gmap \<Rightarrow> yval gmap gmap \<Rightarrow> bool" where
  \<comment> \<open>\<open>reflect.DeepEqual\<close> of the component maps\<close>
  "same_components a b \<longleftrightarrow> length a = length b \<and>
     list_all (\<lambda>(n, c). case gm_get b n of Some c' \<Rightarrow> maps_equal c c' | None \<Rightarrow> False) a"

definition DiffIntent :: "(string \<Rightarrow> yval gmap option) \<Rightarrow> string \<Rightarrow> string \<Rightarrow> intent_diff" where
  "DiffIntent unmarshal baseYAML headYAML =
     (case unmarshal baseYAML of
        None \<Rightarrow> plain_diff ''global'' BaseUnparsed
      | Some baseDoc \<Rightarrow>
          (case unmarshal headYAML of
             None \<Rightarrow> plain_diff ''global'' HeadUnparsed
           | Some headDoc \<Rightarrow>
               let changedSections = findChangedSections baseDoc headDoc in
               if changedSections \<noteq> []
               then (plain_diff ''global'' OutsideComponents)\<lparr>df_changed_sections := changedSections\<rparr>
               else
                 let baseComps = extractComponentMap baseDoc; headComps = extractComponentMap headDoc in
                 if same_components baseComps headComps then plain_diff ''none'' NoSemanticChange
                 else
                   let added = sort (filter (\<lambda>n. \<not> gm_has baseComps n) (gm_keys headComps));
                       removed = sort (filter (\<lambda>n. \<not> gm_has headComps n) (gm_keys baseComps));
                       modified = sort (map fst (filter (\<lambda>(n, headComp). case gm_get baseComps n of
                         Some baseComp \<Rightarrow> \<not> maps_equal baseComp headComp | None \<Rightarrow> False) headComps)) in
                   if added = [] \<and> modified = [] \<and> removed = [] then plain_diff ''none'' ReorderedComponents
                   else (plain_diff ''components'' OnlyComponents)\<lparr>df_added := added, df_modified := modified,
                          df_removed := removed\<rparr>))"

section \<open>What the comparison says\<close>

lemma filtered_entries:
  "gm_ok m \<Longrightarrow> set (map fst (filter (\<lambda>(k, v). P k v) m)) = {k. \<exists>v. gm_get m k = Some v \<and> P k v}"
  by (force simp: gm_ok_def)

lemma key_has: "k \<in> fst ` set m \<longleftrightarrow> gm_has m k"
  using gm_has_iff[of m k] by simp

lemma extractComponentMap_ok: "gm_ok (extractComponentMap doc)"
proof -
  have "gm_ok r \<Longrightarrow> gm_ok (fold add_component items r)" for items r
    by (induction items arbitrary: r) (auto simp: add_component_def split: option.splits)
  then show ?thesis by (simp add: extractComponentMap_def split: option.splits)
qed

definition component_differs :: "yval gmap gmap \<Rightarrow> yval gmap gmap \<Rightarrow> string \<Rightarrow> bool" where
  "component_differs a b n \<longleftrightarrow> (case (gm_get a n, gm_get b n) of
     (None, None) \<Rightarrow> False | (Some c, Some c') \<Rightarrow> \<not> maps_equal c c' | _ \<Rightarrow> True)"

lemma same_components_iff:
  assumes "gm_ok a" "gm_ok b"
  shows "same_components a b \<longleftrightarrow> (\<forall>n. \<not> component_differs a b n)"
proof
  assume s: "same_components a b"
  have each: "\<exists>c'. gm_get b n = Some c' \<and> maps_equal c c'" if "gm_get a n = Some c" for n c
    using s gm_get_in[OF that] by (auto simp: same_components_def list_all_iff split: option.splits)
  have sub: "set (gm_keys a) \<subseteq> set (gm_keys b)"
    using each unfolding subset_iff gm_has_iff[symmetric] gm_has_def by fastforce
  have "card (set (gm_keys a)) = card (set (gm_keys b))"
    using assms s distinct_card[of "gm_keys a"] distinct_card[of "gm_keys b"]
    by (simp add: gm_ok_def same_components_def)
  then have "set (gm_keys a) = set (gm_keys b)" using sub by (simp add: card_subset_eq)
  then have "gm_get a n = None \<longleftrightarrow> gm_get b n = None" for n by (metis map_of_eq_None_iff list.set_map)
  note none = this
  show "\<forall>n. \<not> component_differs a b n"
  proof
    fix n
    show "\<not> component_differs a b n"
      using each[of n] none[of n] by (cases "gm_get a n") (auto simp: component_differs_def)
  qed
next
  assume d: "\<forall>n. \<not> component_differs a b n"
  have "gm_get a n = None \<longleftrightarrow> gm_get b n = None" for n
    using d[rule_format, of n] by (cases "gm_get a n"; cases "gm_get b n") (simp_all add: component_differs_def)
  then have "set (gm_keys a) = set (gm_keys b)" by (metis subsetI subset_antisym gm_has_def gm_has_iff)
  then have "length a = length b" using assms by (metis distinct_card gm_ok_def length_map)
  moreover have "case gm_get b n of Some c' \<Rightarrow> maps_equal c c' | None \<Rightarrow> False" if "(n, c) \<in> set a" for n c
    using d[rule_format, of n] gm_in_get[OF assms(1) that] by (auto simp: component_differs_def split: option.splits)
  ultimately show "same_components a b" by (auto simp: same_components_def list_all_iff)
qed

lemma findChangedSections_set:
  "set (findChangedSections a b) = {k. k \<notin> set ignoredIntentKeys \<and> \<not> optional_equal (gm_get a k) (gm_get b k)}"
proof -
  have "\<not> gm_has a k \<Longrightarrow> \<not> gm_has b k \<Longrightarrow> optional_equal (gm_get a k) (gm_get b k)" for k
    by (simp add: gm_has_def optional_equal_def)
  then show ?thesis unfolding findChangedSections_def doc_keys_def
    by (auto simp: key_has)
qed

text \<open>
  C30: \<open>DiffIntent\<close> on two documents that decode reports a global change exactly when a top-level section
  other than \<open>apiVersion\<close>, \<open>kind\<close>, \<open>metadata\<close> and \<open>components\<close> differs, and then the sections that do;
  otherwise it names exactly the components that were added, removed or differ, and reports no change
  exactly when there are none.
\<close>

theorem intent_diff_is_exact:
  assumes "unmarshal baseYAML = Some a" "unmarshal headYAML = Some b"
  defines "d \<equiv> DiffIntent unmarshal baseYAML headYAML"
  defines "sections \<equiv> {k. k \<notin> set ignoredIntentKeys \<and> \<not> optional_equal (gm_get a k) (gm_get b k)}"
  defines "ca \<equiv> extractComponentMap a" and "cb \<equiv> extractComponentMap b"
  shows "set (df_changed_sections d) = sections \<and> (df_mode d = ''global'' \<longleftrightarrow> sections \<noteq> {}) \<and>
    (sections = {} \<longrightarrow>
      set (df_added d) = {n. \<not> gm_has ca n \<and> gm_has cb n} \<and>
      set (df_removed d) = {n. gm_has ca n \<and> \<not> gm_has cb n} \<and>
      set (df_modified d) = {n. gm_has ca n \<and> gm_has cb n \<and> component_differs ca cb n} \<and>
      (df_mode d = ''none'' \<longleftrightarrow> (\<forall>n. \<not> component_differs ca cb n)) \<and>
      df_mode d \<in> {''none'', ''components''} \<and> df_reason d \<noteq> ReorderedComponents)"
proof -
  let ?sec = "findChangedSections a b"
  have sec: "set ?sec = sections" by (simp add: sections_def findChangedSections_set)
  have ok: "gm_ok ca" "gm_ok cb" by (simp_all add: ca_def cb_def extractComponentMap_ok)
  note same = same_components_iff[OF ok]
  let ?add = "sort (filter (\<lambda>n. \<not> gm_has ca n) (gm_keys cb))" and ?rem = "sort (filter (\<lambda>n. \<not> gm_has cb n) (gm_keys ca))"
    and ?mod = "sort (map fst (filter (\<lambda>(n, headComp). case gm_get ca n of
         Some baseComp \<Rightarrow> \<not> maps_equal baseComp headComp | None \<Rightarrow> False) cb))"
  have d: "d = (if ?sec \<noteq> [] then (plain_diff ''global'' OutsideComponents)\<lparr>df_changed_sections := ?sec\<rparr>
      else if same_components ca cb then plain_diff ''none'' NoSemanticChange
      else if ?add = [] \<and> ?mod = [] \<and> ?rem = [] then plain_diff ''none'' ReorderedComponents
      else (plain_diff ''components'' OnlyComponents)\<lparr>df_added := ?add, df_modified := ?mod, df_removed := ?rem\<rparr>)"
    unfolding d_def DiffIntent_def assms(1,2) option.case Let_def ca_def cb_def by (rule refl)
  have add: "set ?add = {n. \<not> gm_has ca n \<and> gm_has cb n}" and rem: "set ?rem = {n. gm_has ca n \<and> \<not> gm_has cb n}"
    by (auto simp: key_has)
  have mod: "set ?mod = {n. gm_has ca n \<and> gm_has cb n \<and> component_differs ca cb n}"
  proof -
    have "set ?mod = {n. \<exists>v. gm_get cb n = Some v \<and> (case gm_get ca n of Some c \<Rightarrow> \<not> maps_equal c v | None \<Rightarrow> False)}"
      unfolding set_sort by (rule filtered_entries[OF ok(2)])
    also have "\<dots> = {n. gm_has ca n \<and> gm_has cb n \<and> component_differs ca cb n}"
      by (auto simp: gm_has_def component_differs_def split: option.splits)
    finally show ?thesis .
  qed
  have all: "set ?add \<union> set ?rem \<union> set ?mod = {n. component_differs ca cb n}"
    unfolding add rem mod by (rule set_eqI, unfold gm_has_def component_differs_def Un_iff mem_Collect_eq)
      (auto split: option.splits)
  show ?thesis
  proof (cases "?sec = []")
    case False
    then have "sections \<noteq> {}" using sec by auto
    with False sec show ?thesis by (simp add: d plain_diff_def)
  next
    case True
    then have empty: "sections = {}" using sec by auto
    show ?thesis
    proof (cases "same_components ca cb")
      case same': True
      then have none: "\<forall>n. \<not> component_differs ca cb n" using same by simp
      then have "{n. \<not> gm_has ca n \<and> gm_has cb n} = {}" "{n. gm_has ca n \<and> \<not> gm_has cb n} = {}"
        using all unfolding add[symmetric] rem[symmetric] by auto
      then show ?thesis using True same' none empty by (auto simp: d plain_diff_def)
    next
      case diff: False
      then obtain n where n: "component_differs ca cb n" using same by auto
      then have nz: "\<not> (?add = [] \<and> ?mod = [] \<and> ?rem = [])" using all by (metis Un_empty empty_iff list.set(1) mem_Collect_eq)
      have ns: "\<not> ?sec \<noteq> []" using True by simp
      have d': "d = (plain_diff ''components'' OnlyComponents)\<lparr>df_added := ?add, df_modified := ?mod, df_removed := ?rem\<rparr>"
        unfolding d if_not_P[OF ns] if_not_P[OF diff] if_not_P[OF nz] by (rule refl)
      show ?thesis using n empty unfolding d' by (auto simp: plain_diff_def simp del: set_sort simp: add rem mod)
    qed
  qed
qed

theorem intent_diff_is_exact_witness:
  "let doc = \<lambda>s. if s = ''base'' then Some [(''env'', YMap []), (''components'', YList [YMap [(''name'', YStr ''api'')]])]
       else Some [(''env'', YMap []), (''components'', YList [YMap [(''name'', YStr ''db'')]])] in
   df_mode (DiffIntent doc ''base'' ''head'') = ''components'' \<and>
   set (df_added (DiffIntent doc ''base'' ''head'')) = {n. n = ''db''}"
proof -
  let ?a = "[(''env'', YMap []), (''components'', YList [YMap [(''name'', YStr ''api'')]])]"
  let ?b = "[(''env'', YMap []), (''components'', YList [YMap [(''name'', YStr ''db'')]])]"
  let ?doc = "\<lambda>s. if s = ''base'' then Some ?a else Some ?b"
  have "df_mode (DiffIntent ?doc ''base'' ''head'') = ''components''" by code_simp
  moreover have e: "set (findChangedSections ?a ?b) = {}" by code_simp
  moreover have "extractComponentMap ?a = [(''api'', [(''name'', YStr ''api'')])]"
    "extractComponentMap ?b = [(''db'', [(''name'', YStr ''db'')])]" by code_simp+
  moreover note intent_diff_is_exact[of ?doc "''base''" ?a "''head''" ?b]
  ultimately show ?thesis
    unfolding findChangedSections_set[symmetric] e by (auto simp: gm_has_def Let_def)
qed

end
