(* ===== verification/Affected_Index.thy ===== *)
theory Affected_Index
  imports Git_Changes Dep_Resolver Input_Glob
begin

text \<open>
  \<open>internal/affected/index.go\<close>: the change engine's view of a catalog. The catalog read view
  (\<open>internal/objcatalog\<close>) is modelled by the fields the engine reads. A Go set is a list of its members.
  The glob library is two parameters, \<open>valid_pattern\<close> and \<open>match\<close>, as in \<open>Input_Glob\<close>.
\<close>

section \<open>The catalog view\<close>

record catalog_component =
  cv_key :: string
  cv_name :: string
  cv_path :: string
  cv_spec :: "yval gmap"

record relation_edge =
  \<comment> \<open>\<open>RelationEdgeView\<close>; a \<open>GraphEdgeView\<close> has no kinds\<close>
  re_from :: string
  re_type :: string
  re_to :: string
  re_to_kind :: string
  re_optional :: bool
  re_include :: string
  re_input :: bool

record ownership_view =
  ow_components :: "string gmap"
  ow_global_paths :: "string list"
  ow_structural_filenames :: "string list"
  ow_ignore_dirs :: "string list"

record fingerprint_view =
  fp_subtree :: string
  fp_global_digest :: string

record catalog_view =
  cat_components :: "catalog_component list"
  cat_graph :: "relation_edge list gmap"
  cat_relations :: "relation_edge list"
  cat_ownership :: "ownership_view option"
  cat_fingerprints :: "fingerprint_view gmap"

section \<open>The index\<close>

record component_entry =
  ce_key :: string
  ce_name :: string
  ce_watches :: "string list"
  ce_inputs :: "string list"

record catalog_index =
  ix_dirs :: "string list"
  ix_dir_to_key :: "string gmap"
  ix_global_paths :: "string list"
  ix_structural :: "string list"
  ix_ignore_dirs :: "string list"
  ix_components :: "component_entry list"
  ix_name_to_key :: "string gmap"
  ix_input_rules :: "component_entry list"
  ix_deps :: "string list gmap"
  ix_deps_always :: "string list gmap"
  ix_dependents :: "string list gmap"
  ix_input_dependents :: "string list gmap"
  ix_all_comps :: "string list"

definition zero_index :: catalog_index where
  "zero_index = \<lparr>ix_dirs = [], ix_dir_to_key = [], ix_global_paths = [], ix_structural = [],
     ix_ignore_dirs = [], ix_components = [], ix_name_to_key = [], ix_input_rules = [], ix_deps = [],
     ix_deps_always = [], ix_dependents = [], ix_input_dependents = [], ix_all_comps = []\<rparr>"

definition change_list :: "yval gmap \<Rightarrow> string \<Rightarrow> string list" where
  \<comment> \<open>the strings of the list \<open>spec.change.<field>\<close>\<close>
  "change_list spec field =
     (case map_at spec ''change'' of
        None \<Rightarrow> []
      | Some change \<Rightarrow>
          (case (case gm_get change field of Some v \<Rightarrow> list_val v | None \<Rightarrow> None) of
             None \<Rightarrow> []
           | Some raw \<Rightarrow> List.map_filter str_val raw))"

definition componentWatches :: "catalog_component \<Rightarrow> string list" where
  "componentWatches c = change_list (cv_spec c) ''watches''"

definition componentInputs :: "(string \<Rightarrow> bool) \<Rightarrow> catalog_component \<Rightarrow> string list" where
  "componentInputs valid_pattern c =
     filter (\<lambda>s. glob_Validate valid_pattern s = None) (change_list (cv_spec c) ''inputs'')"

definition deepest_first :: "string list \<Rightarrow> string list" where
  \<comment> \<open>longest first, equal lengths in descending order\<close>
  "deepest_first dirs = rev (sort_key length (sort dirs))"

definition component_entry_of :: "(string \<Rightarrow> bool) \<Rightarrow> catalog_component \<Rightarrow> component_entry" where
  "component_entry_of valid_pattern c = \<lparr>ce_key = cv_key c, ce_name = cv_name c,
     ce_watches = componentWatches c, ce_inputs = componentInputs valid_pattern c\<rparr>"

definition dependency_edges :: "catalog_view \<Rightarrow> relation_edge list" where
  \<comment> \<open>the typed relations, or the older dependency graph when there are none\<close>
  "dependency_edges cat =
     (if cat_relations cat \<noteq> []
      then filter (\<lambda>e. \<not> (re_type e \<noteq> ''dependsOn'' \<or> re_to_kind e \<noteq> ''Component'')) (cat_relations cat)
      else gm_get_or [] (cat_graph cat) ''dependencies'')"

definition index_edge :: "relation_edge \<Rightarrow> catalog_index \<Rightarrow> catalog_index" where
  "index_edge e idx =
     (let idx = idx\<lparr>ix_deps := gm_push (re_from e) (re_to e) (ix_deps idx)\<rparr>;
          idx = idx\<lparr>ix_dependents := gm_push (re_to e) (re_from e) (ix_dependents idx)\<rparr>;
          idx = (if re_include e = ''always''
                 then idx\<lparr>ix_deps_always := gm_push (re_from e) (re_to e) (ix_deps_always idx)\<rparr> else idx)
      in if re_input e
         then idx\<lparr>ix_input_dependents := gm_push (re_to e) (re_from e) (ix_input_dependents idx)\<rparr> else idx)"

definition ownership_index :: "ownership_view \<Rightarrow> catalog_index \<Rightarrow> catalog_index" where
  "ownership_index o' idx = idx\<lparr>ix_dir_to_key := ow_components o', ix_dirs := gm_keys (ow_components o'),
     ix_global_paths := ow_global_paths o', ix_structural := ow_structural_filenames o',
     ix_ignore_dirs := ow_ignore_dirs o'\<rparr>"

definition names_index :: "catalog_component list \<Rightarrow> string gmap" where
  \<comment> \<open>the last component of a name wins\<close>
  "names_index cs = fold (\<lambda>c m. if cv_name c \<noteq> [] then gm_set (cv_name c) (cv_key c) m else m) cs []"

definition catalog_index_of :: "(string \<Rightarrow> bool) \<Rightarrow> catalog_view option \<Rightarrow> catalog_index" where
  \<comment> \<open>the method \<open>index\<close>\<close>
  "catalog_index_of valid_pattern catalog =
     (case catalog of
        None \<Rightarrow> zero_index
      | Some cat \<Rightarrow>
          let idx = (case cat_ownership cat of None \<Rightarrow> zero_index | Some o' \<Rightarrow> ownership_index o' zero_index);
              idx = idx\<lparr>ix_dirs := deepest_first (ix_dirs idx)\<rparr>;
              entries = map (component_entry_of valid_pattern) (cat_components cat);
              idx = idx\<lparr>ix_components := entries, ix_name_to_key := names_index (cat_components cat),
                      ix_input_rules := sort_key ce_key (filter (\<lambda>e. ce_inputs e \<noteq> []) entries),
                      ix_all_comps := map cv_key (cat_components cat)\<rparr>
          in fold index_edge (dependency_edges cat) idx)"

section \<open>Files\<close>

definition baseName :: "string \<Rightarrow> string" where
  "baseName path = (case last_index_of_char path (CHR ''/'') of Some i \<Rightarrow> drop (i + 1) path | None \<Rightarrow> path)"

definition pathUnderDir :: "string \<Rightarrow> string \<Rightarrow> bool" where
  "pathUnderDir path dir \<longleftrightarrow> path = dir \<or> has_prefix path (dir @ ''/'')"

fun owner_loop :: "catalog_index \<Rightarrow> string \<Rightarrow> string list \<Rightarrow> string" where
  "owner_loop idx path [] = []"
| "owner_loop idx path (dir # dirs) =
     (if dir = ''.'' \<or> pathUnderDir path dir then
        (if dir = ''.'' \<and> contains_sub path ''/'' then owner_loop idx path dirs
         else gm_get_or [] (ix_dir_to_key idx) dir)
      else owner_loop idx path dirs)"

definition ownerOf :: "catalog_index \<Rightarrow> string \<Rightarrow> string" where
  "ownerOf idx path = owner_loop idx path (ix_dirs idx)"

datatype classification = Ignored | OfComponent string | Structural | Global

definition classify :: "catalog_index \<Rightarrow> string \<Rightarrow> classification" where
  "classify idx path =
     (if path \<in> set (ix_global_paths idx) then Global
      else if baseName path \<in> set (ix_structural idx) then Structural
      else if list_ex (\<lambda>seg. seg \<in> set (ix_ignore_dirs idx)) (split_char (CHR ''/'') path) then Ignored
      else if ownerOf idx path \<noteq> [] then OfComponent (ownerOf idx path)
      else Ignored)"

definition inputMatches ::
  "(string \<Rightarrow> string \<Rightarrow> bool option) \<Rightarrow> catalog_index \<Rightarrow> string \<Rightarrow> (string \<times> string) list" where
  \<comment> \<open>component key and the pattern that matched\<close>
  "inputMatches match idx path = List.map_filter (\<lambda>r.
     case MatchAny match (ce_inputs r) path of Some p \<Rightarrow> Some (ce_key r, p) | None \<Rightarrow> None) (ix_input_rules idx)"

definition keyForName :: "catalog_index \<Rightarrow> string \<Rightarrow> string" where
  "keyForName idx name = gm_get_or [] (ix_name_to_key idx) name"

definition allKeys :: "catalog_index \<Rightarrow> string list" where
  "allKeys idx = sort (ix_all_comps idx)"

section \<open>Closures\<close>

definition visit_next :: "'a \<Rightarrow> 'a list \<times> 'a list \<Rightarrow> 'a list \<times> 'a list" where
  "visit_next nxt = (\<lambda>(visited, stack).
     if nxt \<in> set visited then (visited, stack) else (visited @ [nxt], stack @ [nxt]))"

lemma visit_all:
  "\<exists>new. fold visit_next xs (vis, stk) = (vis @ new, stk @ new) \<and> set new = set xs - set vis \<and> distinct new"
proof (induction xs arbitrary: vis stk)
  case (Cons x xs)
  show ?case
  proof (cases "x \<in> set vis")
    case True
    then show ?thesis using Cons[of vis stk] by (simp add: visit_next_def insert_absorb)
  next
    case False
    obtain new where n: "fold visit_next xs (vis @ [x], stk @ [x]) = ((vis @ [x]) @ new, (stk @ [x]) @ new)"
      "set new = set xs - set (vis @ [x])" "distinct new"
      using Cons[of "vis @ [x]" "stk @ [x]"] by blast
    have "fold visit_next (x # xs) (vis, stk) = (vis @ x # new, stk @ x # new)"
      using n(1) False by (simp add: visit_next_def)
    moreover have "set (x # new) = set (x # xs) - set vis" "distinct (x # new)" using n(2,3) False by auto
    ultimately show ?thesis by blast
  qed
qed simp

definition adj_targets :: "('a, 'a list) gmap_of \<Rightarrow> 'a set" where
  "adj_targets adj = (\<Union>p \<in> set adj. set (snd p))"

lemma adj_targets_get: "set (gm_get_or [] adj k) \<subseteq> adj_targets adj"
proof (cases "gm_get adj k")
  case (Some vs)
  then have "(k, vs) \<in> set adj" by (rule gm_get_in)
  then show ?thesis using Some by (auto simp: gm_get_or_def adj_targets_def intro: bexI[of _ "(k, vs)"])
qed (simp add: gm_get_or_def)

function closure_loop :: "('a, 'a list) gmap_of \<Rightarrow> 'a list \<Rightarrow> 'a list \<Rightarrow> 'a list" where
  \<comment> \<open>the loop of \<open>closure\<close>: the visited keys and the stack\<close>
  "closure_loop adj visited stack =
     (if stack = [] then visited
      else let cur = last stack;
               (visited', stack') = fold visit_next (gm_get_or [] adj cur) (visited, butlast stack)
           in closure_loop adj visited' stack')"
  by pat_completeness auto
termination
proof (relation "measure (\<lambda>(adj, vis, stk). card (adj_targets adj - set vis) + length stk)", goal_cases)
  case (2 adj vis stk cur p vis' stk')
  let ?xs = "gm_get_or [] adj cur"
  obtain new where n: "fold visit_next ?xs (vis, butlast stk) = (vis @ new, butlast stk @ new)"
    "set new = set ?xs - set vis" "distinct new"
    using visit_all[of ?xs vis "butlast stk"] by auto
  then have v: "vis' = vis @ new" "stk' = butlast stk @ new" using 2 by simp_all
  have fin: "finite (adj_targets adj)" by (auto simp: adj_targets_def)
  have sub: "set new \<subseteq> adj_targets adj - set vis" using n(2) adj_targets_get[of adj cur] by auto
  have "adj_targets adj - set vis' = (adj_targets adj - set vis) - set new" using v by auto
  then have "card (adj_targets adj - set vis') = card (adj_targets adj - set vis) - length new"
    using card_Diff_subset[OF _ sub] n(3) by (simp add: distinct_card)
  moreover have "length new \<le> card (adj_targets adj - set vis)"
    using card_mono[OF _ sub] fin n(3) by (simp add: distinct_card)
  moreover have "length stk' + 1 = length stk + length new" using 2(1) v by simp
  ultimately show ?case by simp
qed simp

declare closure_loop.simps [simp del]

definition closure :: "string list \<Rightarrow> string list gmap \<Rightarrow> string list" where
  "closure seed adj = sort (filter (\<lambda>k. k \<notin> set seed) (closure_loop adj [] seed))"

definition forwardClosure :: "catalog_index \<Rightarrow> string list \<Rightarrow> string list" where
  "forwardClosure idx seed = closure seed (ix_deps idx)"

definition reverseClosure :: "catalog_index \<Rightarrow> string list \<Rightarrow> string list" where
  "reverseClosure idx seed = closure seed (ix_dependents idx)"

definition includeAlwaysClosure :: "catalog_index \<Rightarrow> string list \<Rightarrow> string list" where
  "includeAlwaysClosure idx seed = closure seed (ix_deps_always idx)"

definition inputDependentsClosure :: "catalog_index \<Rightarrow> string list \<Rightarrow> string list" where
  "inputDependentsClosure idx seed = closure seed (ix_input_dependents idx)"

section \<open>What a closure holds\<close>

definition key_edges :: "('a, 'a list) gmap_of \<Rightarrow> ('a \<times> 'a) set" where
  "key_edges adj = {(u, v). v \<in> set (gm_get_or [] adj u)}"

lemma closure_loop_spec:
  assumes "set vis \<subseteq> (key_edges adj)\<^sup>+ `` S" "set stk \<subseteq> S \<union> set vis" "distinct vis"
    and "\<And>u. u \<in> S \<union> set vis \<Longrightarrow> u \<in> set stk \<or> set (gm_get_or [] adj u) \<subseteq> set vis"
  shows "set (closure_loop adj vis stk) = (key_edges adj)\<^sup>+ `` S \<and> distinct (closure_loop adj vis stk)"
  using assms
proof (induction adj vis stk rule: closure_loop.induct)
  case (1 adj vis stk)
  let ?E = "key_edges adj"
  show ?case
  proof (cases "stk = []")
    case True
    have "w \<in> set vis" if "(u, w) \<in> ?E\<^sup>+" "u \<in> S" for u w
      using that
    proof (induction rule: trancl_induct)
      case (base y)
      then show ?case using 1(5)[of u] True by (auto simp: key_edges_def)
    next
      case (step y z)
      then show ?case using 1(5)[of y] True by (auto simp: key_edges_def)
    qed
    then have "set vis = ?E\<^sup>+ `` S" using 1(2) by auto
    then show ?thesis using True 1(4) by (simp add: closure_loop.simps)
  next
    case False
    let ?cur = "last stk" and ?xs = "gm_get_or [] adj (last stk)"
    obtain new where n: "fold visit_next ?xs (vis, butlast stk) = (vis @ new, butlast stk @ new)"
      "set new = set ?xs - set vis" "distinct new"
      using visit_all[of ?xs vis "butlast stk"] by auto
    have split: "set stk = insert ?cur (set (butlast stk))"
      using False by (metis append_butlast_last_id list.simps(15) rotate1.simps(2) set_rotate1)
    have cur: "?cur \<in> S \<union> set vis" using 1(3) False by (auto dest: last_in_set)
    have reach: "set ?xs \<subseteq> ?E\<^sup>+ `` S"
    proof
      fix x assume x: "x \<in> set ?xs"
      then have e: "(?cur, x) \<in> ?E" by (simp add: key_edges_def)
      then show "x \<in> ?E\<^sup>+ `` S" using cur 1(2) by (auto intro: trancl_into_trancl)
    qed
    have "set (closure_loop adj (vis @ new) (butlast stk @ new)) = ?E\<^sup>+ `` S \<and>
        distinct (closure_loop adj (vis @ new) (butlast stk @ new))"
    proof (rule 1(1)[OF False refl n(1)[symmetric] refl])
      show "set (vis @ new) \<subseteq> ?E\<^sup>+ `` S" using 1(2) reach n(2) by auto
      show "set (butlast stk @ new) \<subseteq> S \<union> set (vis @ new)" using 1(3) split by auto
      show "distinct (vis @ new)" using 1(4) n(2,3) by auto
      show "u \<in> set (butlast stk @ new) \<or> set (gm_get_or [] adj u) \<subseteq> set (vis @ new)" if "u \<in> S \<union> set (vis @ new)" for u
      proof (cases "u = ?cur \<or> u \<in> set new")
        case True
        then show ?thesis using n(2) by auto
      next
        case False
        then show ?thesis using 1(5)[of u] that split by auto
      qed
    qed
    then show ?thesis using False n(1) by (simp add: closure_loop.simps[of adj vis stk] Let_def)
  qed
qed

lemma closure_set: "set (closure seed adj) = (key_edges adj)\<^sup>+ `` set seed - set seed"
  and closure_sorted: "sorted (closure seed adj) \<and> distinct (closure seed adj)"
  using closure_loop_spec[of "[]" adj "set seed" seed] by (auto simp: closure_def)

lemma closure_with_seeds: "set seed \<union> set (closure seed adj) = (key_edges adj)\<^sup>* `` set seed"
  by (auto simp: closure_set rtrancl_eq_or_trancl)

end
