(* ===== verification/Affected.thy ===== *)
theory Affected
  imports Affected_Index
begin

text \<open>
  \<open>internal/affected\<close>: the change engine (\<open>affected.go\<close>) and its two sources of changed files
  (\<open>git_source.go\<close>, \<open>fingerprint_source.go\<close>). The \<open>git\<close> program, the YAML decoder and the glob library
  are parameters; so are the digests of files on disk that the fingerprint source recomputes.
\<close>

section \<open>Change sources\<close>

record intent_change =
  ic_changed :: bool
  ic_base :: "string option"
  ic_head :: "string option"

definition no_intent_change :: intent_change where
  "no_intent_change = \<lparr>ic_changed = False, ic_base = None, ic_head = None\<rparr>"

definition normPath :: "string \<Rightarrow> string" where
  "normPath p = trim_prefix (replace_all [CHR 0x5C] ''/'' (trim_space p)) ''./''"

definition intentInFiles :: "string list \<Rightarrow> string \<Rightarrow> bool" where
  "intentInFiles files normIntent =
     (if normIntent = [] then False
      else let base = baseName normIntent in
        list_ex (\<lambda>f. let nf = normPath f in nf = normIntent \<or> nf = base \<or> has_suffix nf (''/'' @ base)) files)"

definition GetFileAtRef :: "git_program \<Rightarrow> string \<Rightarrow> string \<Rightarrow> string option" where
  \<comment> \<open>\<open>None\<close> is a nil slice: after an error, and for a file without bytes\<close>
  "GetFileAtRef git ref path =
     (case git [''show'', ref @ '':'' @ path] of
        None \<Rightarrow> None
      | Some output \<Rightarrow> if output = [] then None else Some output)"

definition git_ChangedPaths :: "git_program \<Rightarrow> change_options \<Rightarrow> string \<Rightarrow> string list \<times> intent_change" where
  \<comment> \<open>\<open>GitChangeSource.ChangedPaths\<close>\<close>
  "git_ChangedPaths git options intentPath =
     (let files = GetChangedFiles git options;
          normIntent = normPath (if intentPath = [] then ''intent.yaml'' else intentPath)
      in if intentInFiles files normIntent then
           (files, if co_files options = [] then
              \<lparr>ic_changed = True,
                ic_base = GetFileAtRef git (if co_base options = [] then ''main'' else co_base options) normIntent,
                ic_head = GetFileAtRef git (if co_head options = [] then ''HEAD'' else co_head options) normIntent\<rparr>
              else \<lparr>ic_changed = True, ic_base = None, ic_head = None\<rparr>)
         else (files, no_intent_change))"

record fingerprint_state =
  fs_changed :: "string list"
  fs_stored_global :: string
  fs_have_stored :: bool

definition fingerprint_step ::
  "(string \<Rightarrow> string \<Rightarrow> string \<Rightarrow> string) \<Rightarrow> string \<Rightarrow> fingerprint_view gmap \<Rightarrow> catalog_component \<Rightarrow>
     fingerprint_state \<Rightarrow> fingerprint_state" where
  "fingerprint_step subtree currentGlobal stored c st =
     (if cv_path c = [] then st
      else let dir = path_dir (cv_path c) in
        case gm_get stored (cv_key c) of
          None \<Rightarrow> st\<lparr>fs_changed := fs_changed st @ [dir]\<rparr>
        | Some fp \<Rightarrow>
            let st = (if \<not> fs_have_stored st
                      then st\<lparr>fs_stored_global := fp_global_digest fp, fs_have_stored := True\<rparr> else st)
            in if subtree dir (cv_key c) (fp_global_digest fp) \<noteq> fp_subtree fp
               then st\<lparr>fs_changed := fs_changed st @ [dir]\<rparr> else st)"

definition fingerprint_ChangedPaths ::
  "(string \<Rightarrow> string \<Rightarrow> string \<Rightarrow> string) \<Rightarrow> string \<Rightarrow> catalog_view option \<Rightarrow> string list \<times> intent_change" where
  \<comment> \<open>\<open>FingerprintChangeSource.ChangedPaths\<close>\<close>
  "fingerprint_ChangedPaths subtree currentGlobal catalog =
     (case catalog of
        None \<Rightarrow> ([], no_intent_change)
      | Some cat \<Rightarrow>
          let st = fold (fingerprint_step subtree currentGlobal (cat_fingerprints cat)) (cat_components cat)
                \<lparr>fs_changed = [], fs_stored_global = [], fs_have_stored = False\<rparr>
          in (fs_changed st,
              if fs_have_stored st \<and> currentGlobal \<noteq> fs_stored_global st
              then no_intent_change\<lparr>ic_changed := True\<rparr> else no_intent_change))"

section \<open>The detector\<close>

record change_result =
  rs_directly_changed :: "string list"
  rs_dependencies :: "string list"
  rs_dependents :: "string list"
  rs_affected :: "string list"
  rs_selection :: "string list"
  rs_intent_mode :: string
  rs_confidence :: string
  rs_needs_full :: bool
  rs_explain :: "(string \<times> string) list"

record detect_state =
  ds_directly :: "string list"
  ds_confidence :: string
  ds_needs_full :: bool
  ds_explain :: "(string \<times> string) list"

definition detector_policy :: "string \<Rightarrow> string" where
  \<comment> \<open>\<open>NewDetector\<close>: an unknown policy is \<open>watch\<close>\<close>
  "detector_policy policy = (if policy \<in> {''all'', ''watch'', ''none''} then policy else ''watch'')"

definition mark :: "string \<Rightarrow> string \<Rightarrow> detect_state \<Rightarrow> detect_state" where
  \<comment> \<open>\<open>if !directly[key] { directly[key] = true; explain = append(\<dots>) }\<close>\<close>
  "mark key reason st =
     (if key \<in> set (ds_directly st) then st
      else st\<lparr>ds_directly := ds_directly st @ [key], ds_explain := ds_explain st @ [(key, reason)]\<rparr>)"

definition low_confidence :: "detect_state \<Rightarrow> detect_state" where
  "low_confidence st = st\<lparr>ds_confidence := ''low'', ds_needs_full := True\<rparr>"

definition note_reason :: "string \<Rightarrow> detect_state \<Rightarrow> detect_state" where
  "note_reason reason st = st\<lparr>ds_explain := ds_explain st @ [([], reason)]\<rparr>"

definition classify_step :: "catalog_index \<Rightarrow> string \<Rightarrow> detect_state \<Rightarrow> detect_state" where
  "classify_step idx f st =
     (case classify idx f of
        OfComponent key \<Rightarrow> mark key (''input file changed: '' @ f) st
      | Structural \<Rightarrow>
          let st = note_reason (''structural change: '' @ f) (low_confidence st); key = ownerOf idx f
          in if key \<noteq> [] then mark key (''structural change in component dir: '' @ f) st else st
      | Global \<Rightarrow> st
      | Ignored \<Rightarrow> st)"

definition file_step ::
  "(string \<Rightarrow> string \<Rightarrow> bool option) \<Rightarrow> catalog_index \<Rightarrow> string \<Rightarrow> detect_state \<Rightarrow> detect_state" where
  "file_step match idx f st =
     fold (\<lambda>(key, pattern). mark key (''change.inputs glob '' @ pattern @ '' matched: '' @ f))
       (inputMatches match idx (normPath f)) (classify_step idx f st)"

definition watchesIntersect :: "string list \<Rightarrow> string list \<Rightarrow> bool" where
  "watchesIntersect watches sections = list_ex (\<lambda>w. list_ex (\<lambda>s. w = s) sections) watches"

definition diff_of_change :: "(string \<Rightarrow> yval gmap option) \<Rightarrow> intent_change \<Rightarrow> intent_diff" where
  \<comment> \<open>a change whose bytes are not available counts as global\<close>
  "diff_of_change unmarshal ic =
     (case (ic_base ic, ic_head ic) of
        (Some base, Some head) \<Rightarrow> DiffIntent unmarshal base head
      | _ \<Rightarrow> plain_diff ''global'' BytesUnavailable)"

definition applyIntent ::
  "string \<Rightarrow> catalog_index \<Rightarrow> intent_diff \<Rightarrow> string \<times> string list \<times> bool \<times> (string \<times> string) list" where
  \<comment> \<open>the mode, the components, whether a full resolve is due, and what is added to \<open>explain\<close>\<close>
  "applyIntent policy idx diff =
     (if df_mode diff = ''global'' then
        (let global = ([], ''intent.yaml global change: '' @ join '','' (df_changed_sections diff)) in
         if policy = ''all'' then (''global'', allKeys idx, True, [global])
         else if policy = ''none'' then (''global'', [], True, [global])
         else let keys = map ce_key (filter (\<lambda>c. watchesIntersect (ce_watches c) (df_changed_sections diff)) (ix_components idx))
              in (''global'', keys, True, global # map (\<lambda>k. (k, ''watches a changed intent section'')) keys))
      else if df_mode diff = ''components'' then
        (let keys = filter (\<lambda>k. k \<noteq> []) (map (keyForName idx) (df_added diff @ df_modified diff @ df_removed diff))
         in (''components'', keys, False, map (\<lambda>k. (k, ''intent.yaml component block changed'')) keys))
      else (''none'', [], False, []))"

definition intent_stage ::
  "(string \<Rightarrow> yval gmap option) \<Rightarrow> string \<Rightarrow> catalog_index \<Rightarrow> intent_change \<Rightarrow> detect_state \<Rightarrow> string \<times> detect_state" where
  "intent_stage unmarshal policy idx ic st =
     (if ic_changed ic then
        (case applyIntent policy idx (diff_of_change unmarshal ic) of (mode, intentKeys, needsFull, ex) \<Rightarrow>
           let st = st\<lparr>ds_explain := ds_explain st @ ex\<rparr>;
               st = (if needsFull then low_confidence st else st)
           in (mode, st\<lparr>ds_directly := fold set_add intentKeys (ds_directly st)\<rparr>))
      else (''none'', st))"

definition rescope :: "catalog_index \<Rightarrow> detect_state \<Rightarrow> detect_state" where
  \<comment> \<open>stage 2b: components whose build inputs changed\<close>
  "rescope idx st =
     fold (\<lambda>key. mark key ''build input changed (dependsOn input:true)'') (inputDependentsClosure idx (ds_directly st)) st"

definition start_state :: detect_state where
  "start_state = \<lparr>ds_directly = [], ds_confidence = ''high'', ds_needs_full = False, ds_explain = []\<rparr>"

definition sortedKeys :: "string list \<Rightarrow> string list" where
  "sortedKeys members = sort (remdups members)"

definition finish :: "catalog_index \<Rightarrow> string \<Rightarrow> detect_state \<Rightarrow> change_result" where
  "finish idx mode st =
     (let directly = ds_directly st; dependents = reverseClosure idx directly in
      \<lparr>rs_directly_changed = sortedKeys directly, rs_dependencies = forwardClosure idx directly,
       rs_dependents = dependents, rs_affected = sortedKeys (directly @ dependents),
       rs_selection = sortedKeys (directly @ includeAlwaysClosure idx directly),
       rs_intent_mode = mode, rs_confidence = ds_confidence st, rs_needs_full = ds_needs_full st,
       rs_explain = ds_explain st\<rparr>)"

definition Detect ::
  "(string \<Rightarrow> bool) \<Rightarrow> (string \<Rightarrow> string \<Rightarrow> bool option) \<Rightarrow> (string \<Rightarrow> yval gmap option) \<Rightarrow>
     catalog_view option \<Rightarrow> string \<Rightarrow> 'e + string list \<times> intent_change \<Rightarrow> 'e + change_result" where
  "Detect valid_pattern match unmarshal catalog policy src =
     bindR src (\<lambda>(files, ic).
       let idx = catalog_index_of valid_pattern catalog;
           st = fold (file_step match idx) files start_state;
           (mode, st) = intent_stage unmarshal (detector_policy policy) idx ic st
       in Inr (finish idx mode (rescope idx st)))"

section \<open>What a run marks\<close>

definition owners :: "catalog_index \<Rightarrow> string \<Rightarrow> string set" where
  "owners idx f = (case classify idx f of
     OfComponent key \<Rightarrow> {key} | Structural \<Rightarrow> {ownerOf idx f} - {[]} | _ \<Rightarrow> {})"

definition touched :: "(string \<Rightarrow> string \<Rightarrow> bool option) \<Rightarrow> catalog_index \<Rightarrow> string \<Rightarrow> string set" where
  \<comment> \<open>the components a changed file touches: its owner, and those that claim it as an input\<close>
  "touched match idx f = owners idx f \<union> fst ` set (inputMatches match idx (normPath f))"

lemma mark_sel [simp]:
  "set (ds_directly (mark k r st)) = insert k (set (ds_directly st))"
  "ds_confidence (mark k r st) = ds_confidence st" "ds_needs_full (mark k r st) = ds_needs_full st"
  by (auto simp: mark_def)

lemma fold_mark [simp]:
  "set (ds_directly (fold (\<lambda>x. mark (key x) (reason x)) xs st)) = set (ds_directly st) \<union> key ` set xs"
  "ds_confidence (fold (\<lambda>x. mark (key x) (reason x)) xs st) = ds_confidence st"
  "ds_needs_full (fold (\<lambda>x. mark (key x) (reason x)) xs st) = ds_needs_full st"
  by (induction xs arbitrary: st) auto

lemma classify_step_sel:
  "set (ds_directly (classify_step idx f st)) = set (ds_directly st) \<union> owners idx f"
  "ds_needs_full (classify_step idx f st) \<longleftrightarrow> ds_needs_full st \<or> classify idx f = Structural"
  "(ds_confidence (classify_step idx f st) = ''low'') \<longleftrightarrow> (ds_confidence st = ''low'' \<or> classify idx f = Structural)"
  by (auto simp: classify_step_def owners_def note_reason_def low_confidence_def Let_def split: classification.splits)

lemma file_step_sel:
  "set (ds_directly (file_step match idx f st)) = set (ds_directly st) \<union> touched match idx f"
  "ds_needs_full (file_step match idx f st) \<longleftrightarrow> ds_needs_full st \<or> classify idx f = Structural"
  "(ds_confidence (file_step match idx f st) = ''low'') \<longleftrightarrow> (ds_confidence st = ''low'' \<or> classify idx f = Structural)"
  unfolding file_step_def case_prod_unfold
  by (simp_all add: classify_step_sel touched_def Un_assoc)

lemma files_sel:
  "set (ds_directly (fold (file_step match idx) files st)) = set (ds_directly st) \<union> (\<Union>f \<in> set files. touched match idx f)"
  "ds_needs_full (fold (file_step match idx) files st) \<longleftrightarrow> ds_needs_full st \<or> (\<exists>f \<in> set files. classify idx f = Structural)"
  "(ds_confidence (fold (file_step match idx) files st) = ''low'') \<longleftrightarrow>
     (ds_confidence st = ''low'' \<or> (\<exists>f \<in> set files. classify idx f = Structural))"
  by (induction files arbitrary: st) (auto simp: file_step_sel)

definition intent_keys ::
  "(string \<Rightarrow> yval gmap option) \<Rightarrow> string \<Rightarrow> catalog_index \<Rightarrow> intent_change \<Rightarrow> string set" where
  \<comment> \<open>the components an intent change touches under the policy\<close>
  "intent_keys unmarshal policy idx ic =
     (if ic_changed ic then set (fst (snd (applyIntent policy idx (diff_of_change unmarshal ic)))) else {})"

definition intent_is_global :: "(string \<Rightarrow> yval gmap option) \<Rightarrow> intent_change \<Rightarrow> bool" where
  "intent_is_global unmarshal ic \<longleftrightarrow> ic_changed ic \<and> df_mode (diff_of_change unmarshal ic) = ''global''"

lemma applyIntent_full: "fst (snd (snd (applyIntent policy idx d))) \<longleftrightarrow> df_mode d = ''global''"
  by (simp add: applyIntent_def Let_def)

lemma intent_stage_sel:
  assumes "intent_stage unmarshal policy idx ic st = (mode, st')"
  shows "set (ds_directly st') = set (ds_directly st) \<union> intent_keys unmarshal policy idx ic"
    and "ds_needs_full st' \<longleftrightarrow> ds_needs_full st \<or> intent_is_global unmarshal ic"
    and "(ds_confidence st' = ''low'') \<longleftrightarrow> (ds_confidence st = ''low'' \<or> intent_is_global unmarshal ic)"
  using assms applyIntent_full[of policy idx "diff_of_change unmarshal ic"]
  by (auto simp: intent_stage_def intent_keys_def intent_is_global_def set_fold_add low_confidence_def Let_def
      split: prod.splits if_splits)

section \<open>The edges of the index\<close>

definition depends :: "(relation_edge \<Rightarrow> bool) \<Rightarrow> catalog_view option \<Rightarrow> (string \<times> string) set" where
  \<comment> \<open>(component, dependency), over the edges that satisfy \<open>P\<close>\<close>
  "depends P catalog = (case catalog of
     None \<Rightarrow> {} | Some cat \<Rightarrow> {(re_from e, re_to e) | e. e \<in> set (dependency_edges cat) \<and> P e})"

lemma key_edges_push: "key_edges (gm_push k v m) = insert (k, v) (key_edges m)"
  by (auto simp: key_edges_def gm_get_push split: if_splits)

lemma index_edges_sel:
  "key_edges (ix_deps (fold index_edge es idx)) = key_edges (ix_deps idx) \<union> {(re_from e, re_to e) | e. e \<in> set es}"
  "key_edges (ix_dependents (fold index_edge es idx)) = key_edges (ix_dependents idx) \<union> {(re_to e, re_from e) | e. e \<in> set es}"
  "key_edges (ix_deps_always (fold index_edge es idx)) =
     key_edges (ix_deps_always idx) \<union> {(re_from e, re_to e) | e. e \<in> set es \<and> re_include e = ''always''}"
  "key_edges (ix_input_dependents (fold index_edge es idx)) =
     key_edges (ix_input_dependents idx) \<union> {(re_to e, re_from e) | e. e \<in> set es \<and> re_input e}"
  by (induction es arbitrary: idx) (auto simp: index_edge_def Let_def key_edges_push)

lemma index_edge_files [simp]:
  "ix_dirs (fold index_edge es idx) = ix_dirs idx" "ix_dir_to_key (fold index_edge es idx) = ix_dir_to_key idx"
  by (induction es arbitrary: idx) (auto simp: index_edge_def Let_def)

lemma key_edges_Nil [simp]: "key_edges [] = {}"
  by (simp add: key_edges_def gm_get_or_def)

lemma index_edges:
  "key_edges (ix_deps (catalog_index_of vp catalog)) = depends (\<lambda>_. True) catalog"
  "key_edges (ix_dependents (catalog_index_of vp catalog)) = (depends (\<lambda>_. True) catalog)\<inverse>"
  "key_edges (ix_deps_always (catalog_index_of vp catalog)) = depends (\<lambda>e. re_include e = ''always'') catalog"
  "key_edges (ix_input_dependents (catalog_index_of vp catalog)) = (depends re_input catalog)\<inverse>"
  by (auto simp: catalog_index_of_def depends_def zero_index_def ownership_index_def index_edges_sel Let_def
      split: option.splits)

section \<open>The change engine\<close>

text \<open>
  What a change touches is said over the catalog itself, without the index: which directory of the ownership map
  holds a file, which components claim it, and which components an intent change concerns.
\<close>

definition file_name :: "string \<Rightarrow> string \<Rightarrow> bool" where
  \<comment> \<open>the last segment of a path\<close>
  "file_name path base \<longleftrightarrow> CHR ''/'' \<notin> set base \<and> (path = base \<or> (\<exists>dir. path = dir @ ''/'' @ base))"

definition in_directory :: "string \<Rightarrow> string \<Rightarrow> bool" where
  \<comment> \<open>the root directory holds the files of the root only\<close>
  "in_directory dir path \<longleftrightarrow>
     (if dir = ''.'' then CHR ''/'' \<notin> set path else path = dir \<or> (\<exists>rest. path = dir @ ''/'' @ rest))"

definition deepest_directory :: "ownership_view \<Rightarrow> string \<Rightarrow> string \<Rightarrow> bool" where
  \<comment> \<open>the longest mapped directory that holds the file, the greatest of equally long ones\<close>
  "deepest_directory own dir path \<longleftrightarrow> gm_has (ow_components own) dir \<and> in_directory dir path \<and>
     (\<forall>d. gm_has (ow_components own) d \<and> in_directory d path \<longrightarrow>
        length d < length dir \<or> (length d = length dir \<and> d \<le> dir))"

definition structural_file :: "catalog_view \<Rightarrow> string \<Rightarrow> bool" where
  "structural_file cat f \<longleftrightarrow> (\<exists>own base. cat_ownership cat = Some own \<and> f \<notin> set (ow_global_paths own) \<and>
     file_name f base \<and> base \<in> set (ow_structural_filenames own))"

definition owned_file :: "catalog_view \<Rightarrow> string \<Rightarrow> string \<Rightarrow> bool" where
  \<comment> \<open>the file counts for the component that owns its directory\<close>
  "owned_file cat f key \<longleftrightarrow> key \<noteq> [] \<and> (\<exists>own dir. cat_ownership cat = Some own \<and>
     deepest_directory own dir f \<and> gm_get (ow_components own) dir = Some key \<and> f \<notin> set (ow_global_paths own) \<and>
     (structural_file cat f \<or> (\<forall>seg \<in> set (split_char CHR ''/'' f). seg \<notin> set (ow_ignore_dirs own))))"

definition claimed_file ::
  "(string \<Rightarrow> bool) \<Rightarrow> (string \<Rightarrow> string \<Rightarrow> bool option) \<Rightarrow> catalog_view \<Rightarrow> string \<Rightarrow> string \<Rightarrow> bool" where
  \<comment> \<open>an accepted pattern of the component's \<open>spec.change.inputs\<close> matches the file\<close>
  "claimed_file vp match cat f key \<longleftrightarrow> (\<exists>c \<in> set (cat_components cat). cv_key c = key \<and>
     (\<exists>pattern \<in> set (change_list (cv_spec c) ''inputs'').
        glob_Validate vp pattern = None \<and> glob_Match match pattern (normPath f)))"

definition compared :: "(string \<Rightarrow> yval gmap option) \<Rightarrow> intent_change \<Rightarrow> intent_diff option" where
  \<comment> \<open>the comparison of the two versions of the intent, where both are at hand\<close>
  "compared unmarshal ic = (if ic_base ic = None \<or> ic_head ic = None then None
     else Some (DiffIntent unmarshal (the (ic_base ic)) (the (ic_head ic))))"

definition global_change :: "(string \<Rightarrow> yval gmap option) \<Rightarrow> intent_change \<Rightarrow> bool" where
  "global_change unmarshal ic \<longleftrightarrow> ic_changed ic \<and>
     (\<forall>d. compared unmarshal ic = Some d \<longrightarrow> df_mode d = ''global'')"

definition intent_touches ::
  "(string \<Rightarrow> yval gmap option) \<Rightarrow> string \<Rightarrow> catalog_view \<Rightarrow> intent_change \<Rightarrow> string \<Rightarrow> bool" where
  "intent_touches unmarshal policy cat ic key \<longleftrightarrow>
     (global_change unmarshal ic \<and> policy = ''all'' \<and> key \<in> cv_key ` set (cat_components cat)) \<or>
     (global_change unmarshal ic \<and> policy \<notin> {''all'', ''none''} \<and>
        (\<exists>c \<in> set (cat_components cat). \<exists>d. cv_key c = key \<and> compared unmarshal ic = Some d \<and>
           set (change_list (cv_spec c) ''watches'') \<inter> set (df_changed_sections d) \<noteq> {})) \<or>
     (ic_changed ic \<and> key \<noteq> [] \<and>
        (\<exists>d name cs c cs'. compared unmarshal ic = Some d \<and> df_mode d = ''components'' \<and>
           name \<in> set (df_added d) \<union> set (df_modified d) \<union> set (df_removed d) \<and> name \<noteq> [] \<and>
           cat_components cat = cs @ c # cs' \<and> cv_name c = name \<and> cv_key c = key \<and>
           (\<forall>c' \<in> set cs'. cv_name c' \<noteq> name)))"

definition first_touched ::
  "(string \<Rightarrow> bool) \<Rightarrow> (string \<Rightarrow> string \<Rightarrow> bool option) \<Rightarrow> (string \<Rightarrow> yval gmap option) \<Rightarrow>
     catalog_view option \<Rightarrow> string \<Rightarrow> string list \<Rightarrow> intent_change \<Rightarrow> string set" where
  \<comment> \<open>the components that a changed file or the intent change touches\<close>
  "first_touched vp match unmarshal catalog policy files ic =
     {key. \<exists>cat. catalog = Some cat \<and>
        ((\<exists>f \<in> set files. owned_file cat f key \<or> claimed_file vp match cat f key) \<or>
         intent_touches unmarshal policy cat ic key)}"

definition full_resolve ::
  "(string \<Rightarrow> yval gmap option) \<Rightarrow> catalog_view option \<Rightarrow> string list \<Rightarrow> intent_change \<Rightarrow> bool" where
  "full_resolve unmarshal catalog files ic \<longleftrightarrow>
     (\<exists>cat. catalog = Some cat \<and> (\<exists>f \<in> set files. structural_file cat f)) \<or> global_change unmarshal ic"

subsection \<open>The index finds them\<close>

lemma index_fields:
  "ix_global_paths (fold index_edge es idx) = ix_global_paths idx"
  "ix_structural (fold index_edge es idx) = ix_structural idx"
  "ix_ignore_dirs (fold index_edge es idx) = ix_ignore_dirs idx"
  "ix_components (fold index_edge es idx) = ix_components idx"
  "ix_name_to_key (fold index_edge es idx) = ix_name_to_key idx"
  "ix_input_rules (fold index_edge es idx) = ix_input_rules idx"
  "ix_all_comps (fold index_edge es idx) = ix_all_comps idx"
  by (induction es arbitrary: idx) (auto simp: index_edge_def Let_def)

lemma catalog_fields:
  "ix_components (catalog_index_of vp (Some cat)) = map (component_entry_of vp) (cat_components cat)"
  "ix_name_to_key (catalog_index_of vp (Some cat)) = names_index (cat_components cat)"
  "ix_input_rules (catalog_index_of vp (Some cat)) =
     sort_key ce_key (filter (\<lambda>e. ce_inputs e \<noteq> []) (map (component_entry_of vp) (cat_components cat)))"
  "ix_all_comps (catalog_index_of vp (Some cat)) = map cv_key (cat_components cat)"
  by (simp_all add: catalog_index_of_def index_fields Let_def)

lemma ownership_fields:
  "cat_ownership cat = Some own \<Longrightarrow> ix_dirs (catalog_index_of vp (Some cat)) = deepest_first (gm_keys (ow_components own))"
  "cat_ownership cat = Some own \<Longrightarrow> ix_dir_to_key (catalog_index_of vp (Some cat)) = ow_components own"
  "cat_ownership cat = Some own \<Longrightarrow> ix_global_paths (catalog_index_of vp (Some cat)) = ow_global_paths own"
  "cat_ownership cat = Some own \<Longrightarrow> ix_structural (catalog_index_of vp (Some cat)) = ow_structural_filenames own"
  "cat_ownership cat = Some own \<Longrightarrow> ix_ignore_dirs (catalog_index_of vp (Some cat)) = ow_ignore_dirs own"
  by (simp_all add: catalog_index_of_def index_fields ownership_index_def zero_index_def deepest_first_def Let_def)

lemma no_ownership_fields:
  "cat_ownership cat = None \<Longrightarrow> ix_dirs (catalog_index_of vp (Some cat)) = []"
  "cat_ownership cat = None \<Longrightarrow> ix_structural (catalog_index_of vp (Some cat)) = []"
  by (simp_all add: catalog_index_of_def index_fields ownership_index_def zero_index_def deepest_first_def Let_def)

lemma last_index_None: "last_index_of_char s c = None \<longleftrightarrow> c \<notin> set s"
  by (induction s) (auto split: option.splits)

lemma last_index_Some: "last_index_of_char s c = Some i \<Longrightarrow> s = take i s @ c # drop (Suc i) s \<and> c \<notin> set (drop (Suc i) s)"
  by (induction s arbitrary: i) (auto split: option.splits if_splits simp: last_index_None)

lemma last_split_unique: "a @ c # b = a' @ c # b' \<Longrightarrow> c \<notin> set b \<Longrightarrow> c \<notin> set b' \<Longrightarrow> b = b'"
  by (auto simp: append_eq_append_conv2 append_eq_Cons_conv Cons_eq_append_conv)

lemma file_name_iff: "file_name path base \<longleftrightarrow> base = baseName path"
proof (cases "last_index_of_char path (CHR ''/'')")
  case None
  have "CHR ''/'' \<notin> set path" using None last_index_None by metis
  moreover have "baseName path = path" using None by (simp add: baseName_def)
  ultimately show ?thesis by (auto simp: file_name_def)
next
  case (Some i)
  note s = last_index_Some[OF Some]
  have b: "baseName path = drop (Suc i) path" using Some by (simp add: baseName_def)
  have in': "CHR ''/'' \<in> set path" using s by (metis in_set_conv_decomp)
  show ?thesis
  proof
    assume "file_name path base"
    then obtain dir where d: "CHR ''/'' \<notin> set base" "path = dir @ CHR ''/'' # base" using in' by (auto simp: file_name_def)
    show "base = baseName path" unfolding b
      by (rule last_split_unique[OF trans[OF d(2)[symmetric] conjunct1[OF s]] d(1) conjunct2[OF s]])
  next
    assume "base = baseName path"
    then show "file_name path base" unfolding file_name_def b using s by auto
  qed
qed

lemma insort_key_ties:
  fixes f :: "'a::linorder \<Rightarrow> 'b::linorder"
  assumes "sorted_wrt (\<lambda>a b. f a < f b \<or> f a = f b \<and> a \<le> b) ys" "\<forall>y \<in> set ys. x \<le> y"
  shows "sorted_wrt (\<lambda>a b. f a < f b \<or> f a = f b \<and> a \<le> b) (insort_key f x ys)"
  using assms by (induction ys) (auto simp: set_insort_key)

lemma sort_key_ties:
  fixes f :: "'a::linorder \<Rightarrow> 'b::linorder"
  shows "sorted_wrt (\<lambda>a b. f a < f b \<or> f a = f b \<and> a \<le> b) (sort_key f (sort xs))"
proof -
  have "sorted ys \<Longrightarrow> sorted_wrt (\<lambda>a b. f a < f b \<or> f a = f b \<and> a \<le> b) (sort_key f ys)" for ys
    by (induction ys) (simp_all add: insort_key_ties)
  then show ?thesis by simp
qed

lemma deepest_first_sorted:
  "sorted_wrt (\<lambda>a b. length b < length a \<or> length b = length a \<and> b \<le> a) (deepest_first dirs)"
  using sort_key_ties[of length dirs] by (simp add: deepest_first_def sorted_wrt_rev)

lemma deepest_first_set [simp]: "set (deepest_first dirs) = set dirs"
  by (simp add: deepest_first_def)

lemma contains_slash: "contains_sub s ''/'' \<longleftrightarrow> CHR ''/'' \<in> set s"
  unfolding contains_sub_def by (induction s) (auto simp: has_prefix_def)

lemma owner_loop_find:
  "owner_loop idx path dirs = (case List.find (\<lambda>dir. in_directory dir path) dirs of
     None \<Rightarrow> [] | Some dir \<Rightarrow> gm_get_or [] (ix_dir_to_key idx) dir)"
  by (induction dirs) (auto simp: in_directory_def pathUnderDir_def has_prefix_iff contains_slash)

lemma find_first: "sorted_wrt R xs \<Longrightarrow> List.find P xs = Some x \<Longrightarrow> x \<in> set xs \<and> P x \<and> (\<forall>y \<in> set xs. P y \<longrightarrow> y = x \<or> R x y)"
  by (induction xs) (auto split: if_splits)

lemma deepest_unique: "deepest_directory own d f \<Longrightarrow> deepest_directory own d' f \<Longrightarrow> d = d'"
  unfolding deepest_directory_def by (metis less_asym' order_antisym_conv)

lemma ownerOf_iff:
  assumes "cat_ownership cat = Some own"
  shows "ownerOf (catalog_index_of vp (Some cat)) f = key \<and> key \<noteq> [] \<longleftrightarrow>
    key \<noteq> [] \<and> (\<exists>dir. deepest_directory own dir f \<and> gm_get (ow_components own) dir = Some key)"
proof -
  let ?ds = "deepest_first (gm_keys (ow_components own))"
  have o: "ownerOf (catalog_index_of vp (Some cat)) f = (case List.find (\<lambda>dir. in_directory dir f) ?ds of
     None \<Rightarrow> [] | Some dir \<Rightarrow> gm_get_or [] (ow_components own) dir)"
    unfolding ownerOf_def owner_loop_find ownership_fields(1,2)[OF assms] by (rule refl)
  show ?thesis
  proof (cases "List.find (\<lambda>dir. in_directory dir f) ?ds")
    case None
    then have "\<not> deepest_directory own dir f" for dir
      by (auto simp: deepest_directory_def find_None_iff gm_has_iff)
    then show ?thesis using o None by auto
  next
    case (Some dir)
    have d: "deepest_directory own dir f"
      using find_first[OF deepest_first_sorted Some] by (auto simp: deepest_directory_def gm_has_iff)
    have k: "ownerOf (catalog_index_of vp (Some cat)) f = gm_get_or [] (ow_components own) dir" using o Some by simp
    obtain key' where g: "gm_get (ow_components own) dir = Some key'"
      using d by (auto simp: deepest_directory_def gm_has_def)
    have "(\<exists>dir. deepest_directory own dir f \<and> gm_get (ow_components own) dir = Some key) \<longleftrightarrow> key' = key"
      using d g deepest_unique[OF d] by (metis option.inject)
    then show ?thesis unfolding k by (auto simp: gm_get_or_def g)
  qed
qed

lemma ownerOf_none: "cat_ownership cat = None \<Longrightarrow> ownerOf (catalog_index_of vp (Some cat)) f = []"
  by (simp add: ownerOf_def no_ownership_fields)

lemma classify_structural:
  "classify (catalog_index_of vp (Some cat)) f = Structural \<longleftrightarrow> structural_file cat f"
  by (cases "cat_ownership cat") (auto simp: classify_def structural_file_def file_name_iff ownership_fields no_ownership_fields)

lemma owners_owned: "key \<in> owners (catalog_index_of vp (Some cat)) f \<longleftrightarrow> owned_file cat f key"
proof (cases "cat_ownership cat")
  case None
  then show ?thesis
    by (simp add: owners_def owned_file_def classify_def ownerOf_none no_ownership_fields split: classification.splits)
next
  case (Some own)
  let ?idx = "catalog_index_of vp (Some cat)"
  have "key \<in> owners ?idx f \<longleftrightarrow> f \<notin> set (ow_global_paths own) \<and>
      (structural_file cat f \<or> (\<forall>seg \<in> set (split_char CHR ''/'' f). seg \<notin> set (ow_ignore_dirs own))) \<and>
      ownerOf ?idx f = key \<and> key \<noteq> []"
    by (auto simp: owners_def classify_def structural_file_def file_name_iff ownership_fields[OF Some] Some list_ex_iff)
  then show ?thesis unfolding ownerOf_iff[OF Some] by (auto simp: owned_file_def Some)
qed

lemma claimed_matches:
  "key \<in> fst ` set (inputMatches match (catalog_index_of vp (Some cat)) (normPath f)) \<longleftrightarrow> claimed_file vp match cat f key"
proof -
  have m: "MatchAny match ps p \<noteq> None \<longleftrightarrow> (\<exists>x \<in> set ps. glob_Match match x p)" for ps p
    by (auto simp: MatchAny_def find_None_iff)
  have "key \<in> fst ` set (inputMatches match idx p) \<longleftrightarrow>
      (\<exists>r \<in> set (ix_input_rules idx). ce_key r = key \<and> MatchAny match (ce_inputs r) p \<noteq> None)" for idx p
    by (force simp: inputMatches_def map_filter_def split: option.splits)
  moreover have "(\<exists>r \<in> set (ix_input_rules (catalog_index_of vp (Some cat))). ce_key r = key \<and> (\<exists>x \<in> set (ce_inputs r). Q x)) \<longleftrightarrow>
      (\<exists>c \<in> set (cat_components cat). cv_key c = key \<and> (\<exists>x \<in> set (componentInputs vp c). Q x))" for Q
    unfolding catalog_fields by (force simp: component_entry_of_def)
  ultimately show ?thesis unfolding m by (auto simp: claimed_file_def componentInputs_def)
qed

lemma names_index_get:
  "gm_get (names_index cs) name = Some key \<longleftrightarrow>
     name \<noteq> [] \<and> (\<exists>xs c ys. cs = xs @ c # ys \<and> cv_name c = name \<and> cv_key c = key \<and> (\<forall>c' \<in> set ys. cv_name c' \<noteq> name))"
proof (induction cs rule: rev_induct)
  case Nil
  then show ?case by (simp add: names_index_def)
next
  case (snoc c cs)
  have s: "names_index (cs @ [c]) = (if cv_name c \<noteq> [] then gm_set (cv_name c) (cv_key c) (names_index cs) else names_index cs)"
    by (simp add: names_index_def)
  show ?case
  proof (cases "name \<noteq> [] \<and> cv_name c = name")
    case True
    have "(\<exists>xs d ys. cs @ [c] = xs @ d # ys \<and> cv_name d = name \<and> cv_key d = key \<and> (\<forall>c' \<in> set ys. cv_name c' \<noteq> name)) \<longleftrightarrow>
        cv_key c = key" (is "?L = ?R")
    proof
      assume ?L
      then obtain xs d ys where d: "cs @ [c] = xs @ d # ys" "cv_key d = key" "\<forall>c' \<in> set ys. cv_name c' \<noteq> name" by blast
      have "ys = []" using d(1,3) True by (cases ys rule: rev_cases) auto
      then show ?R using d by simp
    qed (use True in fastforce)
    then show ?thesis using True by (auto simp: s gm_get_set)
  next
    case False
    have same: "(\<exists>xs d ys. cs @ [c] = xs @ d # ys \<and> cv_name d = name \<and> cv_key d = key \<and> (\<forall>c' \<in> set ys. cv_name c' \<noteq> name)) \<longleftrightarrow>
        (\<exists>xs d ys. cs = xs @ d # ys \<and> cv_name d = name \<and> cv_key d = key \<and> (\<forall>c' \<in> set ys. cv_name c' \<noteq> name))"
      (is "?L = ?R") if named: "name \<noteq> []"
    proof
      assume ?L
      then obtain xs d ys where d: "cs @ [c] = xs @ d # ys" "cv_name d = name" "cv_key d = key" "\<forall>c' \<in> set ys. cv_name c' \<noteq> name"
        by blast
      obtain zs where "ys = zs @ [c]" "cs = xs @ d # zs"
        using d(1,2) False named by (cases ys rule: rev_cases) auto
      then show ?R using d by auto
    next
      assume ?R
      then obtain xs d ys where "cs = xs @ d # ys" "cv_name d = name" "cv_key d = key" "\<forall>c' \<in> set ys. cv_name c' \<noteq> name"
        by blast
      then show ?L using False named by (intro exI[of _ xs] exI[of _ d] exI[of _ "ys @ [c]"]) auto
    qed
    have "gm_get (names_index (cs @ [c])) name = gm_get (names_index cs) name" using False by (auto simp: s gm_get_set)
    then have "gm_get (names_index (cs @ [c])) name = Some key \<longleftrightarrow> gm_get (names_index cs) name = Some key" by simp
    also note snoc
    also have "name \<noteq> [] \<and> (\<exists>xs d ys. cs = xs @ d # ys \<and> cv_name d = name \<and> cv_key d = key \<and> (\<forall>c' \<in> set ys. cv_name c' \<noteq> name)) \<longleftrightarrow>
        name \<noteq> [] \<and> (\<exists>xs d ys. cs @ [c] = xs @ d # ys \<and> cv_name d = name \<and> cv_key d = key \<and> (\<forall>c' \<in> set ys. cv_name c' \<noteq> name))"
      by (rule conj_cong[OF refl]) (rule same[symmetric])
    finally show ?thesis .
  qed
qed

lemma diff_modes: "df_mode (DiffIntent unmarshal base head) \<in> {''global'', ''components'', ''none''}"
  by (simp add: DiffIntent_def plain_diff_def Let_def split: option.splits)

lemma applyIntent_keys:
  "set (fst (snd (applyIntent policy idx d))) =
     (if df_mode d = ''global'' then
        (if policy = ''all'' then set (ix_all_comps idx) else if policy = ''none'' then {}
         else ce_key ` {c \<in> set (ix_components idx). set (ce_watches c) \<inter> set (df_changed_sections d) \<noteq> {}})
      else if df_mode d = ''components'' then
        keyForName idx ` (set (df_added d) \<union> set (df_modified d) \<union> set (df_removed d)) - {[]}
      else {})"
proof -
  have watch: "watchesIntersect ws ss \<longleftrightarrow> set ws \<inter> set ss \<noteq> {}" for ws ss
    by (auto simp: watchesIntersect_def list_ex_iff)
  show ?thesis by (auto simp: applyIntent_def Let_def allKeys_def watch)
qed

lemma intent_keys_touches:
  "key \<in> intent_keys um policy (catalog_index_of vp (Some cat)) ic \<longleftrightarrow> intent_touches um policy cat ic key"
proof (cases "ic_changed ic")
  case True
  let ?idx = "catalog_index_of vp (Some cat)"
  have nk: "keyForName ?idx name = key \<and> key \<noteq> [] \<longleftrightarrow> gm_get (names_index (cat_components cat)) name = Some key \<and> key \<noteq> []" for name
    by (auto simp: keyForName_def catalog_fields gm_get_or_def split: option.splits)
  show ?thesis
  proof (cases "compared um ic")
    case None
    then have d: "diff_of_change um ic = plain_diff ''global'' BytesUnavailable"
      by (auto simp: compared_def diff_of_change_def split: if_splits option.splits)
    have "global_change um ic" using True None by (simp add: global_change_def)
    then show ?thesis unfolding intent_keys_def d using True None
      by (auto simp: applyIntent_keys plain_diff_def intent_touches_def catalog_fields)
  next
    case (Some d)
    then have d: "diff_of_change um ic = d" "df_mode d \<in> {''global'', ''components'', ''none''}"
      using diff_modes by (auto simp: compared_def diff_of_change_def split: if_splits option.splits)
    consider "df_mode d = ''global''" | "df_mode d = ''components''" | "df_mode d = ''none''" using d(2) by blast
    then show ?thesis
    proof cases
      case 1
      then have "global_change um ic" using True Some by (simp add: global_change_def)
      moreover have "ce_key ` {c \<in> set (ix_components ?idx). set (ce_watches c) \<inter> S \<noteq> {}} =
          cv_key ` {c \<in> set (cat_components cat). set (change_list (cv_spec c) ''watches'') \<inter> S \<noteq> {}}" for S
        unfolding catalog_fields by (force simp: component_entry_of_def componentWatches_def)
      ultimately show ?thesis unfolding intent_keys_def d(1) applyIntent_keys using True Some 1
        by (auto simp: intent_touches_def catalog_fields)
    next
      case 2
      have "key \<in> intent_keys um policy ?idx ic \<longleftrightarrow>
          (\<exists>name \<in> set (df_added d) \<union> set (df_modified d) \<union> set (df_removed d). keyForName ?idx name = key \<and> key \<noteq> [])"
        using True 2 by (auto simp: intent_keys_def d(1) applyIntent_keys)
      then show ?thesis unfolding nk names_index_get
        using True Some 2 by (auto simp: intent_touches_def global_change_def)
    next
      case 3
      then show ?thesis using True Some d(1) by (simp add: intent_keys_def applyIntent_keys intent_touches_def global_change_def)
    qed
  qed
qed (simp add: intent_keys_def intent_touches_def global_change_def)

lemma no_catalog:
  "owners (catalog_index_of vp None) f = {}" "inputMatches match (catalog_index_of vp None) p = []"
  "classify (catalog_index_of vp None) f \<noteq> Structural" "intent_keys um policy (catalog_index_of vp None) ic = {}"
  by (auto simp: catalog_index_of_def zero_index_def owners_def classify_def ownerOf_def inputMatches_def map_filter_def
      intent_keys_def applyIntent_def keyForName_def gm_get_or_def allKeys_def Let_def)

lemma index_touches:
  "(\<Union>f \<in> set files. touched match (catalog_index_of vp catalog) f) \<union>
     intent_keys um (detector_policy policy) (catalog_index_of vp catalog) ic =
   first_touched vp match um catalog policy files ic"
proof (cases catalog)
  case None
  then show ?thesis by (auto simp: touched_def no_catalog first_touched_def)
next
  case (Some cat)
  have p: "intent_touches um (detector_policy policy) cat ic key \<longleftrightarrow> intent_touches um policy cat ic key" for key
    by (auto simp: intent_touches_def detector_policy_def)
  show ?thesis unfolding Some first_touched_def touched_def
    by (rule set_eqI) (simp only: Un_iff UN_iff owners_owned claimed_matches intent_keys_touches p mem_Collect_eq, blast)
qed

lemma index_full_resolve:
  "(\<exists>f \<in> set files. classify (catalog_index_of vp catalog) f = Structural) \<or> intent_is_global um ic \<longleftrightarrow>
     full_resolve um catalog files ic"
proof -
  have "intent_is_global um ic \<longleftrightarrow> global_change um ic"
    by (auto simp: intent_is_global_def global_change_def compared_def diff_of_change_def plain_diff_def split: option.splits)
  then show ?thesis by (cases catalog) (simp_all add: no_catalog full_resolve_def classify_structural)
qed

subsection \<open>A run\<close>

lemma sortedKeys_set [simp]: "set (sortedKeys xs) = set xs"
  and sortedKeys_sorted [simp]: "sorted (sortedKeys xs)" "distinct (sortedKeys xs)"
  by (simp_all add: sortedKeys_def)

lemma detect_run:
  obtains mode st where
    "Detect vp match um catalog policy (Inr (files, ic)) = Inr (finish (catalog_index_of vp catalog) mode st)"
    "set (ds_directly st) = ((depends re_input catalog)\<inverse>)\<^sup>* `` first_touched vp match um catalog policy files ic"
    "ds_needs_full st \<longleftrightarrow> full_resolve um catalog files ic"
    "(ds_confidence st = ''low'') = ds_needs_full st"
proof -
  let ?idx = "catalog_index_of vp catalog"
  let ?st1 = "fold (file_step match ?idx) files start_state"
  obtain mode st2 where i: "intent_stage um (detector_policy policy) ?idx ic ?st1 = (mode, st2)"
    by (cases "intent_stage um (detector_policy policy) ?idx ic ?st1")
  note s1 = files_sel[of match ?idx files start_state] and s2 = intent_stage_sel[OF i]
  have seeds: "set (ds_directly st2) = first_touched vp match um catalog policy files ic"
    unfolding index_touches[symmetric] using s1(1) by (simp add: s2 start_state_def)
  let ?st3 = "rescope ?idx st2"
  have d: "set (ds_directly ?st3) = ((depends re_input catalog)\<inverse>)\<^sup>* `` first_touched vp match um catalog policy files ic"
    using closure_with_seeds[of "ds_directly st2" "ix_input_dependents ?idx"]
    by (simp add: rescope_def inputDependentsClosure_def index_edges seeds)
  show ?thesis
  proof (rule that[of mode ?st3])
    show "Detect vp match um catalog policy (Inr (files, ic)) = Inr (finish ?idx mode ?st3)"
      unfolding Detect_def bindR_simps prod.case Let_def i by (rule refl)
    show "ds_needs_full ?st3 \<longleftrightarrow> full_resolve um catalog files ic"
      using s1 s2 index_full_resolve[of files vp catalog um ic] by (auto simp: rescope_def start_state_def)
    show "(ds_confidence ?st3 = ''low'') = ds_needs_full ?st3" using s1 s2 by (auto simp: rescope_def start_state_def)
  qed (rule d)
qed

lemma detect_spec:
  "\<exists>r. Detect vp match um catalog policy (Inr (files, ic)) = (Inr r :: 'e + change_result) \<and>
    set (rs_directly_changed r) = ((depends re_input catalog)\<inverse>)\<^sup>* `` first_touched vp match um catalog policy files ic \<and>
    set (rs_selection r) = (depends (\<lambda>e. re_include e = ''always'') catalog)\<^sup>* `` set (rs_directly_changed r) \<and>
    set (rs_affected r) = ((depends (\<lambda>_. True) catalog)\<inverse>)\<^sup>* `` set (rs_directly_changed r) \<and>
    set (rs_dependencies r) = (depends (\<lambda>_. True) catalog)\<^sup>+ `` set (rs_directly_changed r) - set (rs_directly_changed r) \<and>
    set (rs_dependents r) = set (rs_affected r) - set (rs_directly_changed r) \<and>
    (\<forall>l \<in> {rs_directly_changed r, rs_selection r, rs_affected r, rs_dependencies r, rs_dependents r}. sorted l \<and> distinct l) \<and>
    (rs_needs_full r \<longleftrightarrow> full_resolve um catalog files ic) \<and>
    (rs_confidence r = ''low'') = rs_needs_full r"
proof -
  let ?idx = "catalog_index_of vp catalog"
  obtain mode st where d: "Detect vp match um catalog policy (Inr (files, ic)) = (Inr (finish ?idx mode st) :: 'e + change_result)"
    "set (ds_directly st) = ((depends re_input catalog)\<inverse>)\<^sup>* `` first_touched vp match um catalog policy files ic"
    "ds_needs_full st \<longleftrightarrow> full_resolve um catalog files ic"
    "(ds_confidence st = ''low'') = ds_needs_full st"
    by (rule detect_run)
  let ?D = "ds_directly st"
  have sel: "set ?D \<union> set (includeAlwaysClosure ?idx ?D) = (depends (\<lambda>e. re_include e = ''always'') catalog)\<^sup>* `` set ?D"
    using closure_with_seeds[of ?D "ix_deps_always ?idx"] by (simp add: includeAlwaysClosure_def index_edges)
  have aff: "set ?D \<union> set (reverseClosure ?idx ?D) = ((depends (\<lambda>_. True) catalog)\<inverse>)\<^sup>* `` set ?D"
    using closure_with_seeds[of ?D "ix_dependents ?idx"] by (simp add: reverseClosure_def index_edges)
  have dep: "set (forwardClosure ?idx ?D) = (depends (\<lambda>_. True) catalog)\<^sup>+ `` set ?D - set ?D"
    by (simp add: forwardClosure_def closure_set index_edges)
  have rev: "set (reverseClosure ?idx ?D) = (set ?D \<union> set (reverseClosure ?idx ?D)) - set ?D"
    by (auto simp: reverseClosure_def closure_set)
  let ?r = "finish ?idx mode st"
  have f: "set (rs_directly_changed ?r) = set ?D" "set (rs_selection ?r) = set ?D \<union> set (includeAlwaysClosure ?idx ?D)"
    "set (rs_affected ?r) = set ?D \<union> set (reverseClosure ?idx ?D)" "rs_dependencies ?r = forwardClosure ?idx ?D"
    "rs_dependents ?r = reverseClosure ?idx ?D" "rs_needs_full ?r = ds_needs_full st" "rs_confidence ?r = ds_confidence st"
    by (simp_all add: finish_def Let_def)
  have s: "\<forall>l \<in> {rs_directly_changed ?r, rs_selection ?r, rs_affected ?r, rs_dependencies ?r, rs_dependents ?r}.
      sorted l \<and> distinct l"
    using closure_sorted by (simp add: finish_def Let_def forwardClosure_def reverseClosure_def)
  have "set (rs_directly_changed ?r) = ((depends re_input catalog)\<inverse>)\<^sup>* `` first_touched vp match um catalog policy files ic"
    unfolding f by (rule d(2))
  moreover have "set (rs_selection ?r) = (depends (\<lambda>e. re_include e = ''always'') catalog)\<^sup>* `` set (rs_directly_changed ?r)"
    unfolding f by (rule sel)
  moreover have "set (rs_affected ?r) = ((depends (\<lambda>_. True) catalog)\<inverse>)\<^sup>* `` set (rs_directly_changed ?r)"
    unfolding f by (rule aff)
  moreover have "set (rs_dependencies ?r) =
      (depends (\<lambda>_. True) catalog)\<^sup>+ `` set (rs_directly_changed ?r) - set (rs_directly_changed ?r)"
    unfolding f by (rule dep)
  moreover have "set (rs_dependents ?r) = set (rs_affected ?r) - set (rs_directly_changed ?r)" unfolding f by (rule rev)
  moreover have "rs_needs_full ?r \<longleftrightarrow> full_resolve um catalog files ic"
    "(rs_confidence ?r = ''low'') = rs_needs_full ?r"
    unfolding f by (rule d(3), rule d(4))
  ultimately show ?thesis using d(1) s by (intro exI[of _ ?r] conjI) assumption+
qed

lemma detect_sets:
  assumes "Detect vp match um catalog policy (Inr (files, ic)) = (Inr r :: 'e + change_result)"
  shows "set (rs_directly_changed r) = ((depends re_input catalog)\<inverse>)\<^sup>* `` first_touched vp match um catalog policy files ic"
    and "set (rs_selection r) = (depends (\<lambda>e. re_include e = ''always'') catalog)\<^sup>* `` set (rs_directly_changed r)"
    and "set (rs_affected r) = ((depends (\<lambda>_. True) catalog)\<inverse>)\<^sup>* `` set (rs_directly_changed r)"
    and "rs_needs_full r \<longleftrightarrow> full_resolve um catalog files ic"
  using detect_spec[where ?'e = 'e, of vp match um catalog policy files ic] assms by simp_all

text \<open>
  C16: The result of the change engine: directly changed are exactly the components that a changed file or the
  intent change touches, and those that build from a directly changed one. A file touches the component of the
  deepest mapped directory that holds it, unless it is a global path or lies in an ignored directory (structural
  files count there too), and every component with an accepted \<open>change.inputs\<close> pattern for it. An intent change
  outside the components touches all of them, those that watch a changed section, or none, as the policy says; one
  inside touches the components added, modified or removed; \<open>Selection\<close> is these and all they
  need through \<open>include: always\<close>; \<open>Affected\<close> is these and all that depend on them, at any distance; and
  every list is in name order without repetition. A full resolve is asked for exactly when a structural file
  changed or the intent changed outside its components.
\<close>

theorem change_sets_are_closures:
  "\<exists>r. Detect vp match um catalog policy (Inr (files, ic)) = (Inr r :: 'e + change_result) \<and>
    set (rs_directly_changed r) = ((depends re_input catalog)\<inverse>)\<^sup>* `` first_touched vp match um catalog policy files ic \<and>
    set (rs_selection r) = (depends (\<lambda>e. re_include e = ''always'') catalog)\<^sup>* `` set (rs_directly_changed r) \<and>
    set (rs_affected r) = ((depends (\<lambda>_. True) catalog)\<inverse>)\<^sup>* `` set (rs_directly_changed r) \<and>
    set (rs_dependencies r) = (depends (\<lambda>_. True) catalog)\<^sup>+ `` set (rs_directly_changed r) - set (rs_directly_changed r) \<and>
    set (rs_dependents r) = set (rs_affected r) - set (rs_directly_changed r) \<and>
    (\<forall>l \<in> {rs_directly_changed r, rs_selection r, rs_affected r, rs_dependencies r, rs_dependents r}. sorted l \<and> distinct l) \<and>
    (rs_needs_full r \<longleftrightarrow> full_resolve um catalog files ic) \<and>
    (rs_confidence r = ''low'') = rs_needs_full r"
  by (rule detect_spec)

text \<open>
  A longer list of changed files never makes the engine report less: with the same intent change, what
  was directly changed, selected or affected for some files still is when more files are given.
\<close>

theorem more_files_change_more:
  assumes "set files \<subseteq> set files'"
    and "Detect vp match um catalog policy (Inr (files, ic)) = (Inr r :: 'e + change_result)"
    and "Detect vp match um catalog policy (Inr (files', ic)) = (Inr r' :: 'e + change_result)"
  shows "set (rs_directly_changed r) \<subseteq> set (rs_directly_changed r') \<and>
    set (rs_selection r) \<subseteq> set (rs_selection r') \<and> set (rs_affected r) \<subseteq> set (rs_affected r') \<and>
    (rs_needs_full r \<longrightarrow> rs_needs_full r')"
proof -
  note r = detect_sets[OF assms(2)] and r' = detect_sets[OF assms(3)]
  have up: "E `` A \<subseteq> E `` B" if "A \<subseteq> B" for E :: "(string \<times> string) set" and A B using that by blast
  have "first_touched vp match um catalog policy files ic \<subseteq> first_touched vp match um catalog policy files' ic"
    using assms(1) by (auto simp: first_touched_def)
  then have d: "set (rs_directly_changed r) \<subseteq> set (rs_directly_changed r')" unfolding r(1) r'(1) by (rule up)
  then have "set (rs_selection r) \<subseteq> set (rs_selection r')" "set (rs_affected r) \<subseteq> set (rs_affected r')"
    unfolding r(2,3) r'(2,3) by (rule up)+
  moreover have "rs_needs_full r \<longrightarrow> rs_needs_full r'" using assms(1) unfolding r(4) r'(4) full_resolve_def by blast
  ultimately show ?thesis using d by blast
qed

section \<open>Examples\<close>

text \<open>
  A file given with a leading dot, as in \<open>orun plan --changed --files ./api/main.go\<close>, is not normalised before
  it is classified, so no component owns it; only the input globs see the normalised name.
\<close>

definition example_ownership :: ownership_view where
  "example_ownership = \<lparr>ow_components = [(''api'', ''k/api''), (''api/gen'', ''k/db''), (''db'', ''k/db'')],
     ow_global_paths = [''intent.yaml''], ow_structural_filenames = [''component.yaml''],
     ow_ignore_dirs = [''node_modules'']\<rparr>"

definition example_catalog :: catalog_view where
  "example_catalog = \<lparr>cat_components =
       [\<lparr>cv_key = ''k/api'', cv_name = ''api'', cv_path = ''api/component.yaml'', cv_spec = []\<rparr>,
        \<lparr>cv_key = ''k/db'', cv_name = ''db'', cv_path = ''db/component.yaml'', cv_spec = []\<rparr>],
     cat_graph = [],
     cat_relations = [\<lparr>re_from = ''k/api'', re_type = ''dependsOn'', re_to = ''k/db'', re_to_kind = ''Component'',
        re_optional = False, re_include = ''always'', re_input = False\<rparr>],
     cat_ownership = Some example_ownership,
     cat_fingerprints = []\<rparr>"

definition example_index :: catalog_index where
  "example_index = catalog_index_of (\<lambda>_. True) (Some example_catalog)"

lemma dotted_file_has_no_owner:
  "classify example_index ''api/main.go'' = OfComponent ''k/api'' \<and> classify example_index ''./api/main.go'' = Ignored"
  by code_simp

theorem change_sets_are_closures_witness:
  "\<exists>r. Detect (\<lambda>_. True) (\<lambda>_ _. None) (\<lambda>_. None) (Some example_catalog) [] (Inr ([''db/x.go''], no_intent_change)) =
      (Inr r :: string + change_result) \<and> rs_affected r = [''k/api'', ''k/db''] \<and> rs_selection r = [''k/db''] \<and>
    set (rs_affected r) = ((depends (\<lambda>_. True) (Some example_catalog))\<inverse>)\<^sup>* `` set (rs_directly_changed r)"
proof -
  let ?d = "Detect (\<lambda>_. True) (\<lambda>_ _. None) (\<lambda>_. None) (Some example_catalog) [] (Inr ([''db/x.go''], no_intent_change)) :: string + _"
  obtain r where r: "?d = Inr r"
    "set (rs_affected r) = ((depends (\<lambda>_. True) (Some example_catalog))\<inverse>)\<^sup>* `` set (rs_directly_changed r)"
    using change_sets_are_closures[where ?'e = string and files = "[''db/x.go'']" and ic = no_intent_change and
        vp = "\<lambda>_. True" and match = "\<lambda>_ _. None" and um = "\<lambda>_. None" and catalog = "Some example_catalog" and policy = "[]"]
    by blast
  have "case ?d of Inr r \<Rightarrow> rs_selection r = [''k/db''] \<and> rs_affected r = [''k/api'', ''k/db''] | _ \<Rightarrow> False"
    by code_simp
  then show ?thesis using r by simp
qed

theorem more_files_change_more_witness:
  "case (Detect (\<lambda>_. True) (\<lambda>_ _. None) (\<lambda>_. None) (Some example_catalog) [] (Inr ([''db/x.go''], no_intent_change)) :: string + _,
         Detect (\<lambda>_. True) (\<lambda>_ _. None) (\<lambda>_. None) (Some example_catalog) [] (Inr ([''api/y.go'', ''db/x.go''], no_intent_change)) :: string + _) of
     (Inr r, Inr r') \<Rightarrow> rs_selection r = [''k/db''] \<and> rs_affected r = [''k/api'', ''k/db''] \<and>
       set (rs_selection r) \<subseteq> set (rs_selection r')
   | _ \<Rightarrow> False"
proof -
  let ?d = "\<lambda>files. Detect (\<lambda>_. True) (\<lambda>_ _. None) (\<lambda>_. None) (Some example_catalog) [] (Inr (files, no_intent_change)) :: string + _"
  obtain r r' where r: "?d [''db/x.go''] = Inr r" "?d [''api/y.go'', ''db/x.go''] = Inr r'"
    using detect_spec[where ?'e = string] by metis
  have "case ?d [''db/x.go''] of Inr r \<Rightarrow> rs_selection r = [''k/db''] \<and> rs_affected r = [''k/api'', ''k/db''] | _ \<Rightarrow> False"
    by code_simp
  moreover have "set (rs_selection r) \<subseteq> set (rs_selection r')" using more_files_change_more[OF _ r] by simp
  ultimately show ?thesis by (simp add: r)
qed

end
