(* ===== verification/Plan_Render.thy ===== *)
theory Plan_Render
  imports Lanes_Correct Job_Graph
begin

text \<open>
  \<open>internal/render/plan.go\<close>: rendering the job instances of a planning run into a plan. JSON encoding and
  SHA-256 are the parameters \<open>marshal\<close> (\<open>None\<close> is its error) and \<open>sha256\<close> (the digest in lower-case hex).
  Writing the plan to a file and its debug dump are not modelled.
\<close>

definition planAPIVersion :: string where "planAPIVersion = ''orun.io/v1''"

section \<open>Job names\<close>

definition upper_first :: "char \<Rightarrow> string" where
  \<comment> \<open>\<open>strings.ToUpper\<close> of a single byte; a byte that is no rune becomes U+FFFD\<close>
  "upper_first c = (if of_char c < (128 :: nat) then [char_upper c] else [CHR 0xEF, CHR 0xBF, CHR 0xBD])"

definition jobDisplayNameFromKey :: "string \<Rightarrow> string" where
  "jobDisplayNameFromKey name =
     (let s = replace_all ''-'' '' '' name in if s = [] then [] else upper_first (hd s) @ tl s)"

definition jobCheckName :: "string \<Rightarrow> string \<Rightarrow> string \<Rightarrow> string" where
  "jobCheckName c env displayName = c @ dot_sep @ env @ dot_sep @ displayName"

definition PlanJobCheckName :: "plan_job \<Rightarrow> string" where
  "PlanJobCheckName job = jobCheckName (pb_component job) (pb_environment job) (jobDisplayNameFromKey (pb_name job))"

section \<open>Parts of a job\<close>

definition sortedStrings :: "string list \<Rightarrow> string list" where
  "sortedStrings xs = sort xs"

definition buildPlanJobEnv :: "job_instance \<Rightarrow> string gmap" where
  \<comment> \<open>a copy, its entries in key order\<close>
  "buildPlanJobEnv job = map (\<lambda>k. (k, gm_get_or [] (j_env job) k)) (sort (gm_keys (j_env job)))"

definition buildPlanJobSecretRefs :: "job_instance \<Rightarrow> plan_secret_ref list" where
  "buildPlanJobSecretRefs job = map (\<lambda>k.
     case gm_get (j_secret_refs job) k of
       Some ref \<Rightarrow> \<lparr>sr_as_env = k, sr_ref = ref, sr_optional = False\<rparr>
     | None \<Rightarrow> \<lparr>sr_as_env = k, sr_ref = gm_get_or [] (j_optional_secret_refs job) k, sr_optional = True\<rparr>)
     (sort (gm_keys (j_secret_refs job) @ gm_keys (j_optional_secret_refs job)))"

definition buildPlanJobMaterialize :: "job_instance \<Rightarrow> plan_materialize option" where
  "buildPlanJobMaterialize job = map_option (\<lambda>m. \<lparr>pz_target = rm_target m, pz_secrets = rm_secrets m\<rparr>) (j_materialize job)"

definition declaredEstimate :: "job_resources option \<Rightarrow> int" where
  "declaredEstimate res = (case res of None \<Rightarrow> 0 | Some r \<Rightarrow> if jr_estimated_seconds r \<le> 0 then 0 else jr_estimated_seconds r)"

definition convert_step :: "nat \<times> rendered_step \<Rightarrow> plan_step" where
  "convert_step = (\<lambda>(i, s). \<lparr>pst_id = (if rs_name s = [] then ''step-'' @ itoa (i + 1) else rs_name s),
     pst_name = rs_name s, pst_phase = rs_phase s, pst_order = rs_order s, pst_scope = rs_scope s,
     pst_run = rs_run s, pst_use = rs_use s, pst_workflow = rs_workflow s,
     pst_workflow_digest = rs_workflow_digest s, pst_connections = rs_connections s, pst_with = rs_with s,
     pst_env = rs_env s, pst_shell = rs_shell s, pst_working_directory = rs_working_directory s,
     pst_timeout = rs_timeout s, pst_retry = rs_retry s, pst_caches = rs_caches s, pst_resume = rs_resume s,
     pst_approval = rs_approval s, pst_on_failure = rs_on_failure s\<rparr>)"

definition convertSteps :: "rendered_step list \<Rightarrow> plan_step list" where
  "convertSteps steps = map convert_step (indexed steps)"

definition plan_gate :: "promotion_gate \<Rightarrow> plan_promotion_gate" where
  "plan_gate g = \<lparr>ppg_type = pg_type g, ppg_environment = pg_environment g, ppg_component = pg_component g,
     ppg_condition = pg_condition g, ppg_match = pg_match g\<rparr>"

definition plan_job_of :: "string gmap \<Rightarrow> nat \<Rightarrow> job_instance \<Rightarrow> plan_job" where
  \<comment> \<open>the body of the loop; the lane and the identity are filled in later\<close>
  "plan_job_of jobBindings index job = \<lparr>pb_id = j_id job, pb_uid = [], pb_display_name = [], pb_check_name = [],
     pb_name = j_name job, pb_component = j_component job, pb_environment = j_environment job,
     pb_composition = j_composition job, pb_profile = j_profile job, pb_profile_source = j_profile_source job,
     pb_profile_rule_trigger_ref = j_profile_rule_trigger_ref job,
     pb_job_registry = gm_get_or [] jobBindings (j_composition job), pb_job = j_name job,
     pb_runs_on = j_runs_on job, pb_resources = j_resources job,
     pb_estimated_seconds = declaredEstimate (j_resources job), pb_index = index, pb_lane = [],
     pb_path = j_path job, pb_steps = convertSteps (j_steps job), pb_depends_on = j_depends_on job,
     pb_advisory_depends_on = sortedStrings (j_advisory_depends_on job),
     pb_dependency_mode = j_dependency_mode job, pb_dependency_source = j_dependency_source job,
     pb_dependency_rule_trigger_ref = j_dependency_rule_trigger_ref job, pb_gates = map plan_gate (j_gates job),
     pb_timeout = j_timeout job, pb_retries = j_retries job, pb_env = buildPlanJobEnv job,
     pb_secret_refs = buildPlanJobSecretRefs job, pb_materialize = buildPlanJobMaterialize job,
     pb_labels = j_labels job, pb_parameters = j_parameters job\<rparr>"

definition render_job :: "job_instance gmap \<Rightarrow> string gmap \<Rightarrow> string \<Rightarrow> plan_job list \<Rightarrow> plan_job list" where
  "render_job jobInstances jobBindings jobID jobs =
     (case gm_get jobInstances jobID of
        None \<Rightarrow> jobs
      | Some job \<Rightarrow> jobs @ [plan_job_of jobBindings (length jobs) job])"

section \<open>The plan\<close>

definition new_plan :: "metadata \<Rightarrow> string gmap \<Rightarrow> plan_job list \<Rightarrow> plan" where
  "new_plan metadata jobBindings jobs = zero_plan\<lparr>pl_api_version := planAPIVersion, pl_kind := ''Plan'',
     pl_metadata := (pl_metadata zero_plan)\<lparr>pm_name := md_name metadata, pm_description := md_description metadata,
       pm_namespace := md_namespace metadata\<rparr>,
     pl_execution := (pl_execution zero_plan)\<lparr>px_concurrency := 4, px_fail_fast := True\<rparr>,
     pl_spec := (pl_spec zero_plan)\<lparr>psp_job_bindings := jobBindings\<rparr>, pl_jobs := jobs\<rparr>"

definition attachChecksum :: "(plan \<Rightarrow> string option) \<Rightarrow> (string \<Rightarrow> string) \<Rightarrow> plan \<Rightarrow> plan" where
  \<comment> \<open>over the plan without its checksum and time stamp\<close>
  "attachChecksum marshal sha256 p =
     (case marshal (p\<lparr>pl_metadata := (pl_metadata p)\<lparr>pm_checksum := [], pm_generated_at := []\<rparr>\<rparr>) of
        None \<Rightarrow> p
      | Some payload \<Rightarrow> p\<lparr>pl_metadata := (pl_metadata p)\<lparr>pm_checksum := ''sha256-'' @ sha256 payload\<rparr>\<rparr>)"

definition computeJobUID :: "(string \<Rightarrow> string) \<Rightarrow> string \<Rightarrow> string \<Rightarrow> string \<Rightarrow> string" where
  "computeJobUID sha256 planShort jobKey planDigest =
     ''job_'' @ planShort @ ''_'' @ take 12 (sha256 (planDigest @ [CHR 0x00] @ jobKey))"

definition fillJobIdentity :: "(string \<Rightarrow> string) \<Rightarrow> plan \<Rightarrow> plan" where
  "fillJobIdentity sha256 p =
     (let digest = trim_prefix (pm_checksum (pl_metadata p)) ''sha256-''; planShort = take 7 digest in
      p\<lparr>pl_jobs := map (\<lambda>job. job\<lparr>pb_uid := computeJobUID sha256 planShort (pb_id job) digest,
         pb_display_name := jobDisplayNameFromKey (pb_name job),
         pb_check_name := PlanJobCheckName job\<rparr>) (pl_jobs p)\<rparr>)"

definition RenderPlanWithLanes ::
  "(plan \<Rightarrow> string option) \<Rightarrow> (string \<Rightarrow> string) \<Rightarrow> metadata \<Rightarrow> job_instance gmap \<Rightarrow> string gmap \<Rightarrow>
     string list \<Rightarrow> (plan \<Rightarrow> 'e + plan) option \<Rightarrow> 'e + plan" where
  "RenderPlanWithLanes marshal sha256 metadata jobInstances jobBindings jobOrder assign =
     (let p = new_plan metadata jobBindings (fold (render_job jobInstances jobBindings) jobOrder []) in
      bindR (case assign of None \<Rightarrow> Inr p | Some f \<Rightarrow> f p) (\<lambda>p.
        Inr (fillJobIdentity sha256 (attachChecksum marshal sha256 p))))"

definition RenderPlanWithOrder ::
  "(plan \<Rightarrow> string option) \<Rightarrow> (string \<Rightarrow> string) \<Rightarrow> metadata \<Rightarrow> job_instance gmap \<Rightarrow> string gmap \<Rightarrow>
     string list \<Rightarrow> plan option" where
  \<comment> \<open>\<open>None\<close> is the nil plan of an error, which does not occur\<close>
  "RenderPlanWithOrder marshal sha256 metadata jobInstances jobBindings jobOrder =
     (case RenderPlanWithLanes marshal sha256 metadata jobInstances jobBindings jobOrder None :: unit + plan of
        Inl _ \<Rightarrow> None | Inr p \<Rightarrow> Some p)"

definition RenderPlan ::
  "(plan \<Rightarrow> string option) \<Rightarrow> (string \<Rightarrow> string) \<Rightarrow> metadata \<Rightarrow> job_instance gmap \<Rightarrow> string gmap \<Rightarrow> plan option" where
  "RenderPlan marshal sha256 metadata jobInstances jobBindings =
     RenderPlanWithOrder marshal sha256 metadata jobInstances jobBindings (sort (gm_keys jobInstances))"

section \<open>The rendered jobs\<close>



lemma plan_job_of_sel [simp]:
  "pb_id (plan_job_of jb i j) = j_id j" "pb_name (plan_job_of jb i j) = j_name j"
  "pb_component (plan_job_of jb i j) = j_component j" "pb_environment (plan_job_of jb i j) = j_environment j"
  "pb_depends_on (plan_job_of jb i j) = j_depends_on j" "pb_index (plan_job_of jb i j) = i"
  by (simp_all add: plan_job_of_def)

















lemma attachChecksum_jobs [simp]: "pl_jobs (attachChecksum marshal sha256 p) = pl_jobs p"
  by (simp add: attachChecksum_def split: option.splits)



section \<open>An example\<close>



section \<open>Determinism, and what is rendered of secrets\<close>

text \<open>Rendering in id order does not depend on the order in which Go visits the job map.\<close>

lemma render_ignores_map_order:
  assumes "gm_ok jobs" "gm_ok jobs'" "set jobs = set jobs'"
  shows "RenderPlan marshal sha256 md jobs jb = RenderPlan marshal sha256 md jobs' jb"
proof -
  have g: "gm_get jobs = gm_get jobs'" using assms by (simp add: gm_ok_def map_of_inject_set)
  have "mset jobs = mset jobs'"
    using assms unfolding gm_ok_def distinct_map by (blast intro: set_eq_iff_mset_eq_distinct[THEN iffD1])
  then have "sort (gm_keys jobs) = sort (gm_keys jobs')" by (metis mset_map sorted_list_of_multiset_mset)
  moreover have "render_job jobs jb = render_job jobs' jb" by (simp add: render_job_def g fun_eq_iff)
  ultimately show ?thesis by (simp add: RenderPlan_def RenderPlanWithOrder_def RenderPlanWithLanes_def)
qed

lemma in_keyed_image: "(\<And>k. g (f k) = k) \<Longrightarrow> r \<in> f ` K \<longleftrightarrow> g r \<in> K \<and> r = f (g r)"
  by force

text \<open>
  When no variable is both a required and an optional secret, a job's plan has one reference per variable, in
  name order: the required ones as such, the others marked optional.
\<close>

lemma secret_refs_rendered:
  assumes "gm_ok (j_secret_refs j)" "gm_ok (j_optional_secret_refs j)"
    and "set (gm_keys (j_secret_refs j)) \<inter> set (gm_keys (j_optional_secret_refs j)) = {}"
  shows "sorted (map sr_as_env (buildPlanJobSecretRefs j)) \<and> distinct (map sr_as_env (buildPlanJobSecretRefs j)) \<and>
    (r \<in> set (buildPlanJobSecretRefs j) \<longleftrightarrow>
      gm_get (if sr_optional r then j_optional_secret_refs j else j_secret_refs j) (sr_as_env r) = Some (sr_ref r))"
proof -
  let ?keys = "sort (gm_keys (j_secret_refs j) @ gm_keys (j_optional_secret_refs j))"
  let ?f = "\<lambda>k. case gm_get (j_secret_refs j) k of
       Some ref \<Rightarrow> \<lparr>sr_as_env = k, sr_ref = ref, sr_optional = False\<rparr>
     | None \<Rightarrow> \<lparr>sr_as_env = k, sr_ref = gm_get_or [] (j_optional_secret_refs j) k, sr_optional = True\<rparr>"
  have b: "buildPlanJobSecretRefs j = map ?f ?keys" by (simp add: buildPlanJobSecretRefs_def)
  have env: "sr_as_env (?f k) = k" for k by (simp split: option.splits)
  have m: "map sr_as_env (buildPlanJobSecretRefs j) = ?keys" unfolding b map_map comp_def env by simp
  have d: "distinct ?keys" using assms by (auto simp: gm_ok_def)
  have k: "k \<in> set ?keys \<longleftrightarrow> gm_has (j_secret_refs j) k \<or> gm_has (j_optional_secret_refs j) k" for k
    unfolding gm_has_iff by auto
  have apart: "\<not> (gm_has (j_secret_refs j) k \<and> gm_has (j_optional_secret_refs j) k)" for k
    using assms(3) unfolding gm_has_iff by blast
  have "r \<in> set (buildPlanJobSecretRefs j) \<longleftrightarrow> sr_as_env r \<in> set ?keys \<and> r = ?f (sr_as_env r)"
    unfolding b set_map by (rule in_keyed_image) (rule env)
  also have "\<dots> \<longleftrightarrow> gm_get (if sr_optional r then j_optional_secret_refs j else j_secret_refs j) (sr_as_env r) = Some (sr_ref r)"
  proof (cases r)
    case (fields e ref opt)
    show ?thesis
      using apart[of e] unfolding k fields gm_has_def gm_get_or_def
      by (cases "gm_get (j_secret_refs j) e"; cases "gm_get (j_optional_secret_refs j) e"; cases opt) auto
  qed
  finally show ?thesis using m d by simp
qed

text \<open>A job whose key starts with a letter outside ASCII gets a display name that starts with U+FFFD.\<close>

lemma display_name_breaks_utf8:
  "jobDisplayNameFromKey ([CHR 0xC3, CHR 0xA9] @ ''tape'') = [CHR 0xEF, CHR 0xBF, CHR 0xBD, CHR 0xA9] @ ''tape''"
  by code_simp

end
