(* ===== verification/Secret_Policy.thy ===== *)
theory Secret_Policy
  imports Go_Strings
begin

text \<open>
  Secret policies (\<open>internal/secretpolicy/model.go\<close>, \<open>parse.go\<close>): the documents, their rules and the locked
  vocabulary of predicates, the parser of a predicate, and the scoping of a composition's fragment to its
  own component type. The regular expressions are matched by hand: \<open>\s\<close>, \<open>\w\<close> and \<open>.\<close> are those of
  \<open>regexp\<close>, and every expression is tried on a trimmed string. Decoded YAML and \<open>%q\<close> (\<open>strconv.Quote\<close>, a
  parameter \<open>quote\<close>) come from libraries.
\<close>

section \<open>The documents\<close>

datatype policy_tier = TierComposition | TierStack | TierIntent

definition EffectAllow :: string where
  "EffectAllow = ''allow''"

definition EffectDeny :: string where
  "EffectDeny = ''deny''"

datatype predicate_kind = PredEquals | PredIn | PredMatches | PredBool | PredTeam | PredPlatform

record policy_scope =
  ps_env :: string
  ps_key :: string

record policy_predicate =
  pq_kind :: predicate_kind
  pq_fact :: string
  pq_value :: string
  pq_values :: "string list"
  pq_glob :: string
  pq_bool_want :: bool
  pq_team :: string
  pq_text :: string

record policy_rule =
  rl_id :: string
  rl_effect :: string
  rl_subjects :: "string list"
  rl_scope :: policy_scope
  rl_when :: "policy_predicate list"

record policy_document =
  dc_name :: string
  dc_tier :: policy_tier
  dc_source :: string
  dc_path :: string
  dc_rules :: "policy_rule list"

record raw_rule =
  rw_id :: string
  rw_effect :: string
  rw_subjects :: "string list"
  rw_scope :: policy_scope
  rw_when :: "string list"

record raw_document =
  rwd_api_version :: string
  rwd_kind :: string
  rwd_name :: string
  rwd_rules :: "raw_rule list"

definition zero_predicate :: policy_predicate where
  "zero_predicate = \<lparr>pq_kind = PredEquals, pq_fact = [], pq_value = [], pq_values = [], pq_glob = [],
     pq_bool_want = False, pq_team = [], pq_text = []\<rparr>"

datatype policy_error =
    InvalidYAML string
  | WrongAPIVersion string
  | WrongKind string
  | NameRequired
  | DuplicateRuleID string
  | BadEffect string
  | EmptySubject
  | SubjectWithoutID string
  | UnknownSubject string
  | EmptyPredicate
  | EmptyTeam string
  | UnknownPlatform string string
  | UnknownField string string
  | BadListElement string
  | EmptyList
  | EmptyGlob string
  | BadLiteral string
  | NotBooleanFact string string
  | NotInVocabulary string
  | ForeignComponentType string string
  | ComponentTypeByIn string
  | ComponentTypeByMatches string
  | Unreadable string
  | InPredicate string policy_error
  | InRule string policy_error
  | InFile string policy_error

section \<open>The vocabulary\<close>

definition stringFacts :: "string list" where
  "stringFacts = [''env'', ''servesFrom'', ''subject.id'', ''subject.kind'', ''component.type'', ''component.domain'',
     ''component.name'', ''trigger.event'', ''trigger.action'', ''trigger.branch'', ''trigger.baseBranch'',
     ''trigger.tag'', ''trigger.actor'', ''trigger.repository'']"

definition boolFacts :: "string list" where
  "boolFacts = [''trigger.declared'']"

definition platformValues :: "string list" where
  "platformValues = [''local-cli'', ''ci-oidc'', ''service'']"

definition kindLiterals :: "string list" where
  "kindLiterals = [''workflow'', ''user'', ''service_principal'']"

definition isLabelFact :: "string \<Rightarrow> bool" where
  "isLabelFact axis \<longleftrightarrow> has_prefix axis ''component.labels.'' \<and> length ''component.labels.'' < length axis"

definition requireStringFact :: "string \<Rightarrow> string \<Rightarrow> policy_error option" where
  "requireStringFact axis expr =
     (if axis \<notin> set stringFacts \<and> \<not> isLabelFact axis then Some (UnknownField expr axis) else None)"

definition after_colon :: "string \<Rightarrow> string" where
  \<comment> \<open>\<open>trimmed[strings.IndexByte(trimmed, ':')+1:]\<close>\<close>
  "after_colon s = tl (dropWhile (\<lambda>c. c \<noteq> CHR '':'') s)"

definition validateSubject :: "string \<Rightarrow> policy_error option" where
  "validateSubject s =
     (let trimmed = trim_space s
      in if trimmed = [] then Some EmptySubject
         else if trimmed = ''*authenticated'' then None
         else if trimmed \<in> set kindLiterals then None
         else if has_prefix trimmed ''user:'' \<or> has_prefix trimmed ''team:'' \<or> has_prefix trimmed ''service_principal:''
           then (if trim_space (after_colon trimmed) = [] then Some (SubjectWithoutID s) else None)
         else Some (UnknownSubject s))"

section \<open>Literals and lists\<close>

definition no_newline :: "string \<Rightarrow> bool" where
  "no_newline s \<longleftrightarrow> CHR 0x0A \<notin> set s"

definition inner_of :: "char \<Rightarrow> string \<Rightarrow> string option" where
  "inner_of q s =
     (if 2 \<le> length s \<and> hd s = q \<and> last s = q \<and> no_newline (butlast (tl s)) then Some (butlast (tl s)) else None)"

definition string_literal :: "string \<Rightarrow> string option" where
  \<comment> \<open>\<open>stringLiteralRE\<close>, with its one non-empty group\<close>
  "string_literal s = (case inner_of (CHR 0x22) s of Some v \<Rightarrow> Some v | None \<Rightarrow> inner_of (CHR 0x27) s)"

definition unquote :: "string \<Rightarrow> string" where
  "unquote s = (case string_literal s of Some v \<Rightarrow> v | None \<Rightarrow> s)"

definition number_literal :: "string \<Rightarrow> bool" where
  \<comment> \<open>\<open>^-?\d+(\.\d+)?$\<close>\<close>
  "number_literal s =
     (let s = trim_prefix s ''-''; r = dropWhile is_digit s
      in takeWhile is_digit s \<noteq> [] \<and> (r = [] \<or> hd r = CHR ''.'' \<and> tl r \<noteq> [] \<and> list_all is_digit (tl r)))"

definition coerceLiteral :: "string \<Rightarrow> string option" where
  "coerceLiteral s =
     (case string_literal s of
        Some v \<Rightarrow> Some v
      | None \<Rightarrow> if s = ''true'' \<or> s = ''false'' then Some s else if number_literal s then Some s else None)"

definition list_element :: "string \<Rightarrow> string list \<Rightarrow> policy_error + string list" where
  "list_element p out =
     (let p = trim_space p
      in if p = [] then Inr out
         else (case coerceLiteral p of None \<Rightarrow> Inl (BadListElement p) | Some v \<Rightarrow> Inr (out @ [v])))"

definition parseList :: "string \<Rightarrow> policy_error + string list" where
  "parseList inner =
     bindR (foldR list_element (split_char (CHR '','') inner) [])
       (\<lambda>out. if out = [] then Inl EmptyList else Inr out)"

section \<open>The shapes of a predicate\<close>

definition ws_byte :: "char \<Rightarrow> bool" where
  "ws_byte c \<longleftrightarrow> c \<in> {CHR 0x09, CHR 0x0A, CHR 0x0C, CHR 0x0D, CHR '' ''}"

definition fact_char :: "char \<Rightarrow> bool" where
  \<comment> \<open>\<open>[\w.]\<close>\<close>
  "fact_char c \<longleftrightarrow> is_alnum c \<or> c = CHR ''_'' \<or> c = CHR ''.''"

definition re_spaces :: "string \<Rightarrow> string option" where
  \<comment> \<open>\<open>\s+\<close>\<close>
  "re_spaces s = (if s \<noteq> [] \<and> ws_byte (hd s) then Some (dropWhile ws_byte s) else None)"

definition re_lit :: "string \<Rightarrow> string \<Rightarrow> string option" where
  "re_lit p s = (if has_prefix s p then Some (drop (length p) s) else None)"

definition re_rest :: "string \<Rightarrow> string option" where
  \<comment> \<open>\<open>(.+)$\<close>\<close>
  "re_rest s = (if s \<noteq> [] \<and> no_newline s then Some s else None)"

definition team_shape :: "string \<Rightarrow> string option" where
  \<comment> \<open>\<open>^subject\s+in\s+team[:\s]\s*(.+)$\<close>\<close>
  "team_shape s =
     Option.bind (re_lit ''subject'' s) (\<lambda>s. Option.bind (re_spaces s) (\<lambda>s. Option.bind (re_lit ''in'' s) (\<lambda>s.
     Option.bind (re_spaces s) (\<lambda>s. Option.bind (re_lit ''team'' s) (\<lambda>s.
       if s \<noteq> [] \<and> (hd s = CHR '':'' \<or> ws_byte (hd s)) then re_rest (dropWhile ws_byte (tl s)) else None)))))"

definition fact_shape :: "string \<Rightarrow> (string \<times> string) option" where
  \<comment> \<open>\<open>^([\w.]+)\<close> and what follows\<close>
  "fact_shape s =
     (if takeWhile fact_char s = [] then None else Some (takeWhile fact_char s, dropWhile fact_char s))"

definition in_shape :: "string \<Rightarrow> (string \<times> string) option" where
  \<comment> \<open>\<open>^([\w.]+)\s+in\s+\[(.*)\]$\<close>\<close>
  "in_shape s =
     Option.bind (fact_shape s) (\<lambda>(axis, s). Option.bind (re_spaces s) (\<lambda>s. Option.bind (re_lit ''in'' s) (\<lambda>s.
     Option.bind (re_spaces s) (\<lambda>s. Option.bind (re_lit ''['' s) (\<lambda>s.
       if s \<noteq> [] \<and> last s = CHR '']'' \<and> no_newline (butlast s) then Some (axis, butlast s) else None)))))"

definition matches_shape :: "string \<Rightarrow> (string \<times> string) option" where
  \<comment> \<open>\<open>^([\w.]+)\s+matches\s+(.+)$\<close>\<close>
  "matches_shape s =
     Option.bind (fact_shape s) (\<lambda>(axis, s). Option.bind (re_spaces s) (\<lambda>s. Option.bind (re_lit ''matches'' s) (\<lambda>s.
     Option.bind (re_spaces s) (\<lambda>s. map_option (Pair axis) (re_rest s)))))"

definition equals_shape :: "string \<Rightarrow> (string \<times> string) option" where
  \<comment> \<open>\<open>^([\w.]+)\s*==\s*(.+)$\<close>\<close>
  "equals_shape s =
     Option.bind (fact_shape s) (\<lambda>(axis, s). Option.bind (re_lit ''=='' (dropWhile ws_byte s)) (\<lambda>s.
       map_option (Pair axis) (re_rest (dropWhile ws_byte s))))"

section \<open>Parsing a predicate\<close>

definition team_predicate :: "(string \<Rightarrow> string) \<Rightarrow> string \<Rightarrow> string \<Rightarrow> policy_error + policy_predicate" where
  "team_predicate quote expr m =
     (let team = unquote (trim_space m)
      in if team = [] then Inl (EmptyTeam expr)
         else Inr (zero_predicate\<lparr>pq_kind := PredTeam, pq_team := team, pq_text := ''subject in team '' @ quote team\<rparr>))"

definition in_predicate :: "string \<Rightarrow> string \<Rightarrow> string \<Rightarrow> string \<Rightarrow> policy_error + policy_predicate" where
  "in_predicate expr s axis inner =
     (case parseList inner of
        Inl e \<Rightarrow> Inl (InPredicate expr e)
      | Inr values \<Rightarrow>
          if axis = ''platform''
          then (case find (\<lambda>v. v \<notin> set platformValues) values of
                  Some v \<Rightarrow> Inl (UnknownPlatform expr v)
                | None \<Rightarrow> Inr (zero_predicate\<lparr>pq_kind := PredPlatform, pq_values := values, pq_text := s\<rparr>))
          else guardR (requireStringFact axis expr)
            (Inr (zero_predicate\<lparr>pq_kind := PredIn, pq_fact := axis, pq_values := values, pq_text := s\<rparr>)))"

definition matches_predicate ::
  "(string \<Rightarrow> string) \<Rightarrow> string \<Rightarrow> string \<Rightarrow> string \<Rightarrow> policy_error + policy_predicate" where
  "matches_predicate quote expr axis m =
     (let glob = unquote (trim_space m)
      in if glob = [] then Inl (EmptyGlob expr)
         else guardR (requireStringFact axis expr)
           (Inr (zero_predicate\<lparr>pq_kind := PredMatches, pq_fact := axis, pq_glob := glob,
              pq_text := axis @ '' matches '' @ quote glob\<rparr>)))"

definition equals_predicate :: "string \<Rightarrow> string \<Rightarrow> string \<Rightarrow> string \<Rightarrow> policy_error + policy_predicate" where
  "equals_predicate expr s axis m =
     (let literal = trim_space m
      in if axis = ''platform''
         then (let v = unquote literal
               in if v \<notin> set platformValues then Inl (UnknownPlatform expr v)
                  else Inr (zero_predicate\<lparr>pq_kind := PredPlatform, pq_value := v, pq_values := [v], pq_text := s\<rparr>))
         else (case coerceLiteral literal of
                 None \<Rightarrow> Inl (BadLiteral expr)
               | Some value \<Rightarrow>
                   if axis \<notin> set stringFacts \<and> axis \<notin> set boolFacts \<and> \<not> isLabelFact axis
                   then Inl (UnknownField expr axis)
                   else Inr (zero_predicate\<lparr>pq_kind := PredEquals, pq_fact := axis, pq_value := value, pq_text := s\<rparr>)))"

definition bool_predicate :: "string \<Rightarrow> string \<Rightarrow> policy_error + policy_predicate" where
  "bool_predicate expr s =
     (let want = \<not> has_prefix s ''!''; axis = (if want then s else trim_space (tl s))
      in if axis \<noteq> [] \<and> list_all fact_char axis
         then (if axis \<notin> set boolFacts then Inl (NotBooleanFact expr axis)
               else Inr (zero_predicate\<lparr>pq_kind := PredBool, pq_fact := axis, pq_bool_want := want, pq_text := s\<rparr>))
         else Inl (NotInVocabulary expr))"

definition parsePredicate :: "(string \<Rightarrow> string) \<Rightarrow> string \<Rightarrow> policy_error + policy_predicate" where
  "parsePredicate quote expr =
     (let s = trim_space expr
      in if s = [] then Inl EmptyPredicate
         else (case team_shape s of Some m \<Rightarrow> team_predicate quote expr m | None \<Rightarrow>
               (case in_shape s of Some (axis, inner) \<Rightarrow> in_predicate expr s axis inner | None \<Rightarrow>
               (case matches_shape s of Some (axis, m) \<Rightarrow> matches_predicate quote expr axis m | None \<Rightarrow>
               (case equals_shape s of Some (axis, m) \<Rightarrow> equals_predicate expr s axis m | None \<Rightarrow>
                bool_predicate expr s)))))"

section \<open>Rules and documents\<close>

definition star_if_empty :: "string \<Rightarrow> string" where
  "star_if_empty s = (if s = [] then ''*'' else s)"

definition parseRule :: "(string \<Rightarrow> string) \<Rightarrow> raw_rule \<Rightarrow> string \<Rightarrow> nat \<Rightarrow> policy_error + policy_rule" where
  "parseRule quote rr docName index =
     (let trimmed = trim_space (rw_id rr);
          ruleID = (if trimmed = [] then docName @ ''-rule-'' @ itoa index else trimmed);
          effect = trim_space (rw_effect rr)
      in if effect \<noteq> EffectAllow \<and> effect \<noteq> EffectDeny then Inl (InRule ruleID (BadEffect (rw_effect rr)))
         else (case checkR validateSubject (rw_subjects rr) of
             Some e \<Rightarrow> Inl (InRule ruleID e)
           | None \<Rightarrow> (case mapR (parsePredicate quote) (rw_when rr) of
               Inl e \<Rightarrow> Inl (InRule ruleID e)
             | Inr preds \<Rightarrow> Inr \<lparr>rl_id = ruleID, rl_effect = effect, rl_subjects = rw_subjects rr,
                 rl_scope = \<lparr>ps_env = star_if_empty (ps_env (rw_scope rr)), ps_key = star_if_empty (ps_key (rw_scope rr))\<rparr>,
                 rl_when = preds\<rparr>)))"

definition add_rule ::
  "(string \<Rightarrow> string) \<Rightarrow> string \<Rightarrow> string \<Rightarrow> nat \<times> raw_rule \<Rightarrow> policy_rule list \<Rightarrow> policy_error + policy_rule list" where
  "add_rule quote path name ir rules =
     (case parseRule quote (snd ir) name (fst ir) of
        Inl e \<Rightarrow> Inl (InFile path e)
      | Inr rule \<Rightarrow> if rl_id rule \<in> rl_id ` set rules then Inl (InFile path (DuplicateRuleID (rl_id rule)))
                    else Inr (rules @ [rule]))"

definition ParseDocument ::
  "(string \<Rightarrow> string) \<Rightarrow> (string \<Rightarrow> string + raw_document) \<Rightarrow> string \<Rightarrow> policy_tier \<Rightarrow> string \<Rightarrow> string \<Rightarrow>
     policy_error + policy_document" where
  "ParseDocument quote unmarshal data tier source path =
     (case unmarshal data of
        Inl e \<Rightarrow> Inl (InFile path (InvalidYAML e))
      | Inr raw \<Rightarrow>
          if rwd_api_version raw \<noteq> ''orun.io/v1'' then Inl (InFile path (WrongAPIVersion (rwd_api_version raw)))
          else if rwd_kind raw \<noteq> ''SecretPolicy'' then Inl (InFile path (WrongKind (rwd_kind raw)))
          else (let name = trim_space (rwd_name raw)
                in if name = [] then Inl (InFile path NameRequired)
                   else bindR (foldR (add_rule quote path name) (indexed (rwd_rules raw)) [])
                     (\<lambda>rules. Inr \<lparr>dc_name = name, dc_tier = tier, dc_source = source, dc_path = path, dc_rules = rules\<rparr>)))"

section \<open>Scoping a composition's fragment\<close>

definition type_constraint :: "string \<Rightarrow> string \<Rightarrow> policy_predicate \<Rightarrow> policy_error option" where
  \<comment> \<open>a predicate that constrains the component type other than to the fragment's own\<close>
  "type_constraint typ ruleID p =
     (if pq_fact p \<noteq> ''component.type'' then None
      else if pq_kind p = PredEquals \<and> pq_value p \<noteq> typ then Some (InRule ruleID (ForeignComponentType (pq_value p) typ))
      else if pq_kind p = PredIn then Some (ComponentTypeByIn ruleID)
      else if pq_kind p = PredMatches then Some (ComponentTypeByMatches ruleID)
      else None)"

definition type_predicate :: "(string \<Rightarrow> string) \<Rightarrow> string \<Rightarrow> policy_predicate" where
  "type_predicate quote typ = zero_predicate\<lparr>pq_kind := PredEquals, pq_fact := ''component.type'', pq_value := typ,
     pq_text := ''component.type == '' @ quote typ\<rparr>"

definition names_type :: "policy_predicate \<Rightarrow> bool" where
  "names_type p \<longleftrightarrow> pq_kind p = PredEquals \<and> pq_fact p = ''component.type''"

definition inject_rule :: "(string \<Rightarrow> string) \<Rightarrow> string \<Rightarrow> string \<Rightarrow> policy_rule \<Rightarrow> policy_error + policy_rule" where
  "inject_rule quote path typ rule =
     (case checkR (type_constraint typ (rl_id rule)) (rl_when rule) of
        Some e \<Rightarrow> Inl (InFile path e)
      | None \<Rightarrow> if list_ex names_type (rl_when rule) then Inr rule
                else Inr (rule\<lparr>rl_when := rl_when rule @ [type_predicate quote typ]\<rparr>))"

definition InjectComponentType :: "(string \<Rightarrow> string) \<Rightarrow> string \<Rightarrow> policy_document \<Rightarrow> policy_error + policy_document" where
  "InjectComponentType quote typ d =
     bindR (mapR (inject_rule quote (dc_path d) typ) (dc_rules d)) (\<lambda>rules. Inr (d\<lparr>dc_rules := rules\<rparr>))"

end
