(* ===== verification/Policy_Narrow.thy ===== *)
theory Policy_Narrow
  imports Secret_Policy
begin

text \<open>
  The narrow-only rule of secret policies (\<open>internal/secretpolicy/narrow.go\<close>): an intent overlay may only
  tighten what a stack or a composition grants. The check is compared with what rules mean:
  \<open>glob_spec\<close> says which strings a glob stands for, \<open>trusts\<close> which principals a subject list names
  (\<open>specs/orun-secrets/policy-model.md\<close>, section 2) and \<open>grants\<close> which requests a rule is about.
\<close>

section \<open>Globs\<close>

fun glob_loop :: "bool \<Rightarrow> string list \<Rightarrow> string \<Rightarrow> bool" where
  \<comment> \<open>the third argument is \<open>value[pos:]\<close>; the first tells the part with index 0\<close>
  "glob_loop first [] v = True"
| "glob_loop first (p # ps) v =
     (if p = [] then glob_loop False ps v
      else (case index_of v p of
              None \<Rightarrow> False
            | Some idx \<Rightarrow> if first \<and> idx \<noteq> 0 then False else glob_loop False ps (drop (idx + length p) v)))"

definition globMatch :: "string \<Rightarrow> string \<Rightarrow> bool" where
  "globMatch glob v =
     (if glob = ''*'' then True
      else if CHR ''*'' \<notin> set glob then glob = v
      else (let parts = split_char (CHR ''*'') glob
            in glob_loop True parts v \<and>
               (if \<not> has_suffix glob ''*'' then has_suffix v (last parts) else True)))"

definition globFrameCovers :: "string \<Rightarrow> string \<Rightarrow> bool" where
  "globFrameCovers broad narrow =
     (if count_list broad (CHR ''*'') \<noteq> 1 then False
      else if has_suffix broad ''*'' \<and> \<not> has_prefix broad ''*'' then
        (let prefix = trim_suffix broad ''*'';
             head = (case index_of narrow ''*'' of Some i \<Rightarrow> take i narrow | None \<Rightarrow> narrow)
         in has_prefix head prefix)
      else if has_prefix broad ''*'' \<and> \<not> has_suffix broad ''*'' then
        (let suffix = trim_prefix broad ''*'';
             tail = (case last_index_of_char narrow (CHR ''*'') of Some i \<Rightarrow> drop (i + 1) narrow | None \<Rightarrow> narrow)
         in has_suffix tail suffix)
      else False)"

definition globCovers :: "string \<Rightarrow> string \<Rightarrow> bool" where
  "globCovers broad narrow =
     (if broad = ''*'' \<or> broad = narrow then True
      else if CHR ''*'' \<notin> set broad then False
      else if CHR ''*'' \<notin> set narrow then globMatch broad narrow
      else globFrameCovers broad narrow)"

section \<open>Subjects and conditions\<close>

definition subject_covers :: "string \<Rightarrow> string \<Rightarrow> bool" where
  "subject_covers s b \<longleftrightarrow> b = ''*authenticated'' \<or> b = s \<or> b = ''user'' \<and> has_prefix s ''user:'' \<or>
     b = ''service_principal'' \<and> has_prefix s ''service_principal:''"

definition subjectCoveredBy :: "string \<Rightarrow> string list \<Rightarrow> bool" where
  "subjectCoveredBy s broad = list_ex (subject_covers s) broad"

definition subjectsCovered :: "string list \<Rightarrow> string list \<Rightarrow> bool" where
  "subjectsCovered narrow broad =
     (let broadAny = (broad = [] \<or> ''*authenticated'' \<in> set broad)
      in if narrow = [] then broadAny else if broadAny then True else list_all (\<lambda>s. subjectCoveredBy s broad) narrow)"

definition conditionsCovered :: "policy_predicate list \<Rightarrow> policy_predicate list \<Rightarrow> bool" where
  "conditionsCovered narrow broad = list_all (\<lambda>p. pq_text p \<in> pq_text ` set narrow) broad"

section \<open>The check\<close>

record policy_tiers =
  ti_composition :: "policy_document list"
  ti_stack :: "policy_document list"
  ti_intent :: "policy_document list"

record policy_finding =
  pf_severity :: string
  pf_tier :: "policy_tier option"
  pf_source :: string
  pf_path :: string
  pf_rule_id :: string
  pf_kind :: string
  pf_reason :: "policy_error option"

definition tiers_Ordered :: "policy_tiers \<Rightarrow> policy_document list" where
  "tiers_Ordered t = ti_composition t @ ti_stack t @ ti_intent t"

definition covers :: "policy_rule \<Rightarrow> policy_rule \<Rightarrow> bool" where
  "covers h narrow =
     (if \<not> globCovers (ps_env (rl_scope h)) (ps_env (rl_scope narrow)) then False
      else if \<not> globCovers (ps_key (rl_scope h)) (ps_key (rl_scope narrow)) then False
      else if \<not> subjectsCovered (rl_subjects narrow) (rl_subjects h) then False
      else conditionsCovered (rl_when narrow) (rl_when h))"

definition allows_of :: "policy_document list \<Rightarrow> policy_rule list" where
  "allows_of docs = filter (\<lambda>r. rl_effect r = EffectAllow) (concat (map dc_rules docs))"

definition higherTierAllows :: "policy_tiers \<Rightarrow> policy_rule list" where
  "higherTierAllows tiers = allows_of (ti_composition tiers) @ allows_of (ti_stack tiers)"

definition coveredByHigher :: "policy_rule \<Rightarrow> policy_rule list \<Rightarrow> bool" where
  "coveredByHigher rule higher = list_ex (\<lambda>h. covers h rule) higher"

definition too_broad :: "policy_document \<Rightarrow> policy_rule \<Rightarrow> policy_finding" where
  "too_broad doc rule = \<lparr>pf_severity = ''error'', pf_tier = Some TierIntent, pf_source = dc_source doc, pf_path = dc_path doc,
     pf_rule_id = rl_id rule, pf_kind = ''narrow-only'', pf_reason = None\<rparr>"

definition Lint :: "policy_tiers \<Rightarrow> policy_finding list" where
  "Lint tiers =
     (let higher = higherTierAllows tiers
      in concat (map (\<lambda>doc. concat (map (\<lambda>rule.
           if rl_effect rule \<noteq> EffectAllow then []
           else if \<not> coveredByHigher rule higher then [too_broad doc rule] else []) (dc_rules doc))) (ti_intent tiers)))"

definition policy_Validate :: "policy_tiers \<Rightarrow> policy_finding list option" where
  \<comment> \<open>the violations the error lists\<close>
  "policy_Validate tiers = (let findings = Lint tiers in if findings = [] then None else Some findings)"

section \<open>What a glob stands for\<close>

primrec glob_spec :: "string \<Rightarrow> string \<Rightarrow> bool" where
  \<comment> \<open>\<open>*\<close> stands for any string, every other character for itself\<close>
  "glob_spec [] = (\<lambda>v. v = [])"
| "glob_spec (c # g) = (\<lambda>v.
     if c = CHR ''*'' then list_ex (\<lambda>k. glob_spec g (drop k v)) [0..<Suc (length v)]
     else v \<noteq> [] \<and> hd v = c \<and> glob_spec g (tl v))"

lemma glob_star: "glob_spec (CHR ''*'' # g) v \<longleftrightarrow> (\<exists>a r. v = a @ r \<and> glob_spec g r)"
proof
  assume "glob_spec (CHR ''*'' # g) v"
  then obtain k where "glob_spec g (drop k v)" by (auto simp: list_ex_iff simp del: upt_Suc)
  then show "\<exists>a r. v = a @ r \<and> glob_spec g r" by (metis append_take_drop_id)
next
  assume "\<exists>a r. v = a @ r \<and> glob_spec g r"
  then obtain a r where "v = a @ r" "glob_spec g r" by blast
  then have "length a \<in> set [0..<Suc (length v)]" "glob_spec g (drop (length a) v)" by auto
  then show "glob_spec (CHR ''*'' # g) v" unfolding glob_spec.simps list_ex_iff by auto
qed

lemma glob_literal: "CHR ''*'' \<notin> set w \<Longrightarrow> glob_spec (w @ g) v \<longleftrightarrow> (\<exists>r. v = w @ r \<and> glob_spec g r)"
proof (induction w arbitrary: v)
  case (Cons c w)
  then show ?case by (cases v) auto
qed simp

declare glob_spec.simps(2) [simp del]

lemma glob_exact: "CHR ''*'' \<notin> set g \<Longrightarrow> glob_spec g v \<longleftrightarrow> g = v"
  using glob_literal[of g "[]" v] by auto

definition stars :: "string list \<Rightarrow> string" where
  \<comment> \<open>the glob \<open>*p1*p2...\<close>\<close>
  "stars ps = concat (map (\<lambda>p. CHR ''*'' # p) ps)"

lemma stars_simps [simp]: "stars [] = []" "stars (p # ps) = CHR ''*'' # p @ stars ps"
  by (simp_all add: stars_def)

lemma split_stars: "split_char (CHR ''*'') g = p # ps \<Longrightarrow> g = p @ stars ps"
proof (induction g arbitrary: p ps)
  case (Cons x g)
  obtain q qs where "split_char (CHR ''*'') g = q # qs" by (cases "split_char (CHR ''*'') g") auto
  then have "g = q @ stars qs" by (rule Cons.IH)
  moreover have "if x = CHR ''*'' then p = [] \<and> ps = q # qs else p = x # q \<and> ps = qs"
    using Cons.prems \<open>split_char _ g = _\<close> by (auto split: if_splits)
  ultimately show ?case by (simp split: if_splits)
qed simp

lemma stars_step:
  "CHR ''*'' \<notin> set p \<Longrightarrow> glob_spec (stars (p # ps)) v \<longleftrightarrow> (\<exists>a r. v = a @ p @ r \<and> glob_spec (stars ps) r)"
  by (simp add: glob_star glob_literal) blast

lemma stars_up: "ps \<noteq> [] \<Longrightarrow> \<forall>p \<in> set ps. CHR ''*'' \<notin> set p \<Longrightarrow> glob_spec (stars ps) r \<Longrightarrow> glob_spec (stars ps) (x @ r)"
proof (cases ps)
  case (Cons p qs)
  assume free: "\<forall>p \<in> set ps. CHR ''*'' \<notin> set p" and r: "glob_spec (stars ps) r"
  have p: "CHR ''*'' \<notin> set p" using free Cons by simp
  from r obtain a s where "r = a @ p @ s" "glob_spec (stars qs) s" unfolding Cons stars_step[OF p] by blast
  then have "x @ r = (x @ a) @ p @ s \<and> glob_spec (stars qs) s" by simp
  then show ?thesis unfolding Cons stars_step[OF p] by blast
qed simp

section \<open>The first occurrence\<close>

lemma index_of_found: "index_of v p = Some i \<Longrightarrow> \<exists>a r. v = a @ p @ r \<and> length a = i"
proof (induction v p arbitrary: i rule: index_of.induct)
  case (2 c s sub)
  show ?case
  proof (cases "has_prefix (c # s) sub")
    case True
    with 2 show ?thesis by (auto simp: has_prefix_iff)
  next
    case False
    then obtain j where "index_of s sub = Some j" "i = Suc j" using 2 by (auto split: if_splits)
    then obtain a r where "s = a @ sub @ r \<and> length a = j" using "2.IH" False by blast
    then have "c # s = (c # a) @ sub @ r \<and> length (c # a) = i" using \<open>i = Suc j\<close> by simp
    then show ?thesis by blast
  qed
qed (auto split: if_splits)

lemma index_of_first: "v = a @ p @ r \<Longrightarrow> \<exists>i. index_of v p = Some i \<and> i \<le> length a"
proof (induction a arbitrary: v)
  case Nil
  then have "has_prefix v p" by simp
  then have "index_of v p = Some 0" by (cases v) (auto simp: has_prefix_def)
  then show ?case by simp
next
  case (Cons c a)
  from Cons.IH[OF refl] obtain i where "index_of (a @ p @ r) p = Some i" "i \<le> length a" by blast
  then show ?case using Cons.prems by auto
qed

lemma index_of_0: "index_of v p = Some 0 \<longleftrightarrow> has_prefix v p"
  by (cases v) (auto simp: has_prefix_def)

lemma index_of_nil: "index_of v [] = Some i \<longleftrightarrow> i = 0"
  by (cases v) (auto simp: has_prefix_def)

lemma stars_greedy:
  assumes "CHR ''*'' \<notin> set p" "ps \<noteq> []" "\<forall>q \<in> set ps. CHR ''*'' \<notin> set q"
  shows "glob_spec (stars (p # ps)) v \<longleftrightarrow> (\<exists>i. index_of v p = Some i \<and> glob_spec (stars ps) (drop (i + length p) v))"
proof
  assume "glob_spec (stars (p # ps)) v"
  then obtain a r where v: "v = a @ p @ r" and r: "glob_spec (stars ps) r"
    unfolding stars_step[OF assms(1)] by blast
  obtain i where i: "index_of v p = Some i" "i \<le> length a" using index_of_first[OF v] by blast
  have "drop (i + length p) v = drop (i + length p) (a @ p) @ r" using i(2) v by simp
  then have "glob_spec (stars ps) (drop (i + length p) v)" using stars_up[OF assms(2,3) r] by metis
  with i show "\<exists>i. index_of v p = Some i \<and> glob_spec (stars ps) (drop (i + length p) v)" by blast
next
  assume "\<exists>i. index_of v p = Some i \<and> glob_spec (stars ps) (drop (i + length p) v)"
  then obtain i a r where "v = a @ p @ r" "length a = i" "glob_spec (stars ps) (drop (i + length p) v)"
    using index_of_found by blast
  then have "v = a @ p @ r \<and> glob_spec (stars ps) r" by simp
  then show "glob_spec (stars (p # ps)) v" unfolding stars_step[OF assms(1)] by blast
qed

lemma glob_loop_length: "glob_loop first ps v \<Longrightarrow> ps \<noteq> [] \<Longrightarrow> length (last ps) \<le> length v"
proof (induction first ps v rule: glob_loop.induct)
  case (2 first p ps v)
  show ?case
  proof (cases "p = []")
    case True
    then show ?thesis using 2 by (cases ps) auto
  next
    case False
    then obtain i where i: "index_of v p = Some i" "glob_loop False ps (drop (i + length p) v)"
      using "2.prems"(1) by (auto split: option.splits if_splits)
    have "length p \<le> length v" using index_of_found[OF i(1)] by auto
    moreover have "length (last ps) \<le> length v" if "ps \<noteq> []"
      using "2.IH"(2)[OF False i(1)] i that "2.prems" False by (auto split: if_splits)
    ultimately show ?thesis by simp
  qed
qed simp

lemma has_suffix_drop: "has_suffix v p \<Longrightarrow> length p \<le> length (drop n v) \<Longrightarrow> has_suffix (drop n v) p"
  unfolding has_suffix_def by (cases "n \<le> length v") (simp_all add: algebra_simps)

lemma has_suffix_of_drop: "has_suffix (drop n v) p \<Longrightarrow> has_suffix v p"
  by (metis append_take_drop_id append.assoc has_suffix_iff)

lemma stars_loop:
  "ps \<noteq> [] \<Longrightarrow> \<forall>p \<in> set ps. CHR ''*'' \<notin> set p \<Longrightarrow>
     glob_spec (stars ps) v \<longleftrightarrow> glob_loop False ps v \<and> has_suffix v (last ps)"
proof (induction ps arbitrary: v)
  case (Cons p ps)
  have p: "CHR ''*'' \<notin> set p" using Cons.prems by simp
  show ?case
  proof (cases "ps = []")
    case True
    have "has_suffix v p \<Longrightarrow> index_of v p \<noteq> None" using index_of_first[of v _ p "[]"] by (auto simp: has_suffix_iff)
    moreover have "glob_spec (stars [p]) v \<longleftrightarrow> has_suffix v p" unfolding stars_step[OF p] by (simp add: has_suffix_iff)
    ultimately show ?thesis unfolding True by (auto split: option.splits)
  next
    case ps: False
    have IH: "glob_spec (stars ps) v \<longleftrightarrow> glob_loop False ps v \<and> has_suffix v (last ps)" for v
      using Cons ps by simp
    have "glob_spec (stars (p # ps)) v \<longleftrightarrow>
        (\<exists>i. index_of v p = Some i \<and> glob_loop False ps (drop (i + length p) v) \<and> has_suffix (drop (i + length p) v) (last ps))"
      using stars_greedy[OF p ps] Cons.prems IH by auto
    also have "\<dots> \<longleftrightarrow>
        (\<exists>i. index_of v p = Some i \<and> glob_loop False ps (drop (i + length p) v)) \<and> has_suffix v (last ps)"
      using glob_loop_length[OF _ ps] has_suffix_drop has_suffix_of_drop by blast
    also have "(\<exists>i. index_of v p = Some i \<and> glob_loop False ps (drop (i + length p) v)) \<longleftrightarrow> glob_loop False (p # ps) v"
      by (cases "p = []") (auto simp: index_of_nil split: option.splits)
    finally show ?thesis using ps by simp
  qed
qed simp

lemma split_free: "\<forall>p \<in> set (split_char c g). c \<notin> set p"
  using split_char_parts by blast

lemma split_single: "split_char c g = [p] \<Longrightarrow> c \<notin> set g"
  using join_split_char[of c g] split_free[of c g] by auto

theorem globMatch_spec: "globMatch g v \<longleftrightarrow> glob_spec g v"
proof (cases "CHR ''*'' \<in> set g")
  case False
  then show ?thesis by (auto simp: globMatch_def glob_exact)
next
  case star: True
  obtain p ps where parts: "split_char (CHR ''*'') g = p # ps" by (cases "split_char (CHR ''*'') g") auto
  have p: "CHR ''*'' \<notin> set p" and ps: "\<forall>q \<in> set ps. CHR ''*'' \<notin> set q"
    using split_free[of "CHR ''*''" g] parts by auto
  have ne: "ps \<noteq> []" using split_single[of "CHR ''*''" g p] parts star by auto
  have g: "g = p @ stars ps" by (rule split_stars[OF parts])
  obtain ps' l where l: "ps = ps' @ [l]" using ne by (metis rev_exhaust)
  have suf: "has_suffix g ''*'' \<longleftrightarrow> l = []"
  proof -
    have "g = (p @ stars ps') @ CHR ''*'' # l" by (simp add: g l stars_def)
    moreover have "CHR ''*'' \<notin> set l" using ps l by simp
    ultimately show ?thesis by (cases l rule: rev_cases) (auto simp: has_suffix_iff)
  qed
  have last: "(if \<not> has_suffix g ''*'' then has_suffix v (last (p # ps)) else True) \<longleftrightarrow> has_suffix v (last ps)"
    using suf l by (auto simp: has_suffix_iff)
  have first: "glob_loop True (p # ps) v \<longleftrightarrow> has_prefix v p \<and> glob_loop False ps (drop (length p) v)"
    by (cases "p = []") (auto simp: index_of_0[symmetric] index_of_nil split: option.splits)
  have "glob_spec g v \<longleftrightarrow> has_prefix v p \<and> glob_spec (stars ps) (drop (length p) v)"
    unfolding g glob_literal[OF p] by (auto simp: has_prefix_iff)
  also have "\<dots> \<longleftrightarrow> has_prefix v p \<and> glob_loop False ps (drop (length p) v) \<and> has_suffix v (last ps)"
    unfolding stars_loop[OF ne ps] using glob_loop_length[OF _ ne] has_suffix_drop has_suffix_of_drop by blast
  also have "\<dots> \<longleftrightarrow> globMatch g v"
  proof (cases "g = ''*''")
    case True
    then have "p = [] \<and> ps = [[]]" using parts by simp
    then show ?thesis by (simp add: globMatch_def True has_prefix_def has_suffix_def)
  qed (use star parts last first in \<open>simp add: globMatch_def Let_def\<close>)
  finally show ?thesis by simp
qed

section \<open>A covering glob matches more\<close>

lemma glob_head: "glob_spec g v \<Longrightarrow> g = h @ CHR ''*'' # t \<Longrightarrow> CHR ''*'' \<notin> set h \<Longrightarrow> has_prefix v h"
  by (auto simp: glob_literal)

lemma glob_append: "glob_spec (g @ h) v \<Longrightarrow> \<exists>a r. v = a @ r \<and> glob_spec g a \<and> glob_spec h r"
proof (induction g arbitrary: v)
  case Nil
  then show ?case by (metis append_Nil glob_spec.simps(1))
next
  case (Cons c g)
  show ?case
  proof (cases "c = CHR ''*''")
    case True
    then obtain a r where v: "v = a @ r" "glob_spec (g @ h) r" using Cons.prems by (auto simp: glob_star)
    obtain b s where "r = b @ s" "glob_spec g b" "glob_spec h s" using Cons.IH[OF v(2)] by blast
    then have "v = (a @ b) @ s \<and> glob_spec (c # g) (a @ b) \<and> glob_spec h s" using v True by (auto simp: glob_star)
    then show ?thesis by blast
  next
    case False
    then obtain w where w: "v = c # w" "glob_spec (g @ h) w" using Cons.prems
      by (cases v) (auto simp: glob_spec.simps(2))
    obtain b s where "w = b @ s" "glob_spec g b" "glob_spec h s" using Cons.IH[OF w(2)] by blast
    then have "v = (c # b) @ s \<and> glob_spec (c # g) (c # b) \<and> glob_spec h s" using w False by (simp add: glob_spec.simps(2))
    then show ?thesis by blast
  qed
qed

lemma last_char_none: "last_index_of_char s c = None \<longleftrightarrow> c \<notin> set s"
  by (induction s) (auto split: option.splits)

lemma last_index_split: "last_index_of_char s c = Some i \<Longrightarrow> s = take i s @ c # drop (i + 1) s \<and> c \<notin> set (drop (i + 1) s)"
proof (induction s arbitrary: i)
  case (Cons d s)
  then show ?case by (cases "last_index_of_char s c") (auto simp: last_char_none split: if_splits)
qed simp

lemma glob_tail: "glob_spec (g @ CHR ''*'' # t) v \<Longrightarrow> CHR ''*'' \<notin> set t \<Longrightarrow> has_suffix v t"
proof -
  assume "glob_spec (g @ CHR ''*'' # t) v" "CHR ''*'' \<notin> set t"
  then obtain a r where "v = a @ r" "glob_spec (CHR ''*'' # t) r" using glob_append by blast
  then show ?thesis using glob_exact[OF \<open>CHR ''*'' \<notin> set t\<close>] by (auto simp: glob_star has_suffix_iff)
qed

lemma one_star: "count_list b c = 1 \<Longrightarrow> b = p @ [c] \<or> b = c # p \<Longrightarrow> c \<notin> set p"
  by (auto simp: count_list_0_iff)

lemma frame_covers_sound:
  assumes "globFrameCovers broad narrow" "glob_spec narrow v"
  shows "glob_spec broad v"
proof -
  have one: "count_list broad (CHR ''*'') = 1" using assms(1) by (auto simp: globFrameCovers_def split: if_splits)
  consider (pre) "has_suffix broad ''*''" "\<not> has_prefix broad ''*''"
    | (suf) "has_prefix broad ''*''" "\<not> has_suffix broad ''*''"
    using assms(1) by (auto simp: globFrameCovers_def split: if_splits)
  then show ?thesis
  proof cases
    case pre
    obtain p where b: "broad = p @ ''*''" using pre(1) by (auto simp: has_suffix_iff)
    have free: "CHR ''*'' \<notin> set p" using one_star[OF one, of p] b by simp
    define head where "head = (case index_of narrow ''*'' of Some i \<Rightarrow> take i narrow | None \<Rightarrow> narrow)"
    have "has_prefix head p" using assms(1) one pre b by (auto simp: globFrameCovers_def head_def)
    moreover have "has_prefix v head"
    proof (cases "index_of narrow ''*''")
      case None
      then have "CHR ''*'' \<notin> set narrow"
        using index_of_first[of narrow _ "''*''"] by (metis append_Cons append_Nil in_set_conv_decomp option.distinct(1))
      then show ?thesis using assms(2) None by (simp add: head_def glob_exact has_prefix_def)
    next
      case (Some i)
      obtain a r where a: "narrow = a @ ''*'' @ r" "length a = i" using index_of_found[OF Some] by blast
      have "CHR ''*'' \<notin> set a"
      proof
        assume "CHR ''*'' \<in> set a"
        then obtain a1 a2 where "a = a1 @ CHR ''*'' # a2" by (metis in_set_conv_decomp)
        then have n: "narrow = a1 @ ''*'' @ (a2 @ ''*'' @ r)" "length a1 < i" using a by auto
        show False using index_of_first[OF n(1)] n(2) Some by auto
      qed
      then show ?thesis using glob_head[OF assms(2), of a r] a Some by (simp add: head_def)
    qed
    ultimately have "has_prefix v p" by (auto simp: has_prefix_iff)
    then show ?thesis unfolding b using glob_literal[OF free] by (auto simp: has_prefix_iff glob_star)
  next
    case suf
    obtain p where b: "broad = CHR ''*'' # p" using suf(1) by (auto simp: has_prefix_iff)
    have free: "CHR ''*'' \<notin> set p" using one_star[OF one, of p] b by simp
    define tl' where "tl' = (case last_index_of_char narrow (CHR ''*'') of Some i \<Rightarrow> drop (i + 1) narrow | None \<Rightarrow> narrow)"
    have "trim_prefix broad ''*'' = p" using trim_prefix_append[of "''*''" p] b by simp
    then have "has_suffix tl' p" using assms(1) one suf by (auto simp: globFrameCovers_def tl'_def)
    moreover have "has_suffix v tl'"
    proof (cases "last_index_of_char narrow (CHR ''*'')")
      case None
      have "tl' = narrow" unfolding tl'_def None by simp
      moreover have "CHR ''*'' \<notin> set narrow" using None by (simp add: last_char_none)
      ultimately show ?thesis using assms(2) by (simp add: glob_exact has_suffix_def)
    next
      case (Some i)
      then show ?thesis using last_index_split[OF Some] glob_tail assms(2) by (metis tl'_def option.simps(5))
    qed
    ultimately have "has_suffix v p" by (auto simp: has_suffix_iff)
    then show ?thesis unfolding b by (auto simp: has_suffix_iff glob_star glob_exact[OF free])
  qed
qed

theorem globCovers_sound:
  assumes "globCovers broad narrow" "glob_spec narrow v"
  shows "glob_spec broad v"
proof -
  consider "broad = ''*''" | "broad = narrow" | "CHR ''*'' \<notin> set narrow" "globMatch broad narrow" | "globFrameCovers broad narrow"
    using assms(1) by (auto simp: globCovers_def split: if_splits)
  then show ?thesis
  proof cases
    case 1
    then show ?thesis by (simp add: glob_star)
  next
    case 3
    then show ?thesis using assms(2) by (simp add: glob_exact globMatch_spec)
  qed (use assms(2) frame_covers_sound in auto)
qed

section \<open>What a rule grants\<close>

record policy_request =
  rq_kind :: string
  rq_subject :: string
  rq_teams :: "string list"
  rq_env :: string
  rq_key :: string

definition subject_names :: "string \<Rightarrow> policy_request \<Rightarrow> bool" where
  "subject_names s q \<longleftrightarrow> s = ''*authenticated'' \<or>
     s \<in> set kindLiterals \<and> rq_kind q = s \<or>
     rq_kind q = ''user'' \<and> s = ''user:'' @ rq_subject q \<or>
     rq_kind q = ''service_principal'' \<and> s = ''service_principal:'' @ rq_subject q \<or>
     (\<exists>t \<in> set (rq_teams q). s = ''team:'' @ t)"

definition trusts :: "string list \<Rightarrow> policy_request \<Rightarrow> bool" where
  "trusts subjects q \<longleftrightarrow> subjects = [] \<or> (\<exists>s \<in> set subjects. subject_names s q)"

definition grants :: "(policy_predicate \<Rightarrow> policy_request \<Rightarrow> bool) \<Rightarrow> policy_rule \<Rightarrow> policy_request \<Rightarrow> bool" where
  \<comment> \<open>\<open>holds\<close> says which requests a predicate is true of\<close>
  "grants holds r q \<longleftrightarrow> glob_spec (ps_env (rl_scope r)) (rq_env q) \<and> glob_spec (ps_key (rl_scope r)) (rq_key q) \<and>
     trusts (rl_subjects r) q \<and> (\<forall>p \<in> set (rl_when r). holds p q)"

lemma subject_covers_sound: "subject_covers s b \<Longrightarrow> subject_names s q \<Longrightarrow> subject_names b q"
proof -
  assume c: "subject_covers s b" and n: "subject_names s q"
  consider "b = ''*authenticated''" | "b = s" | r where "b = ''user''" "s = ''user:'' @ r"
    | r where "b = ''service_principal''" "s = ''service_principal:'' @ r"
    using c unfolding subject_covers_def has_prefix_iff by blast
  then show ?thesis
  proof cases
    case 3
    then have "rq_kind q = ''user''" using n by (auto simp: subject_names_def kindLiterals_def)
    then show ?thesis using 3 by (simp add: subject_names_def kindLiterals_def)
  next
    case 4
    then have "rq_kind q = ''service_principal''" using n by (auto simp: subject_names_def kindLiterals_def)
    then show ?thesis using 4 by (simp add: subject_names_def kindLiterals_def)
  qed (use n in \<open>simp_all add: subject_names_def\<close>)
qed

lemma subjectsCovered_sound: "subjectsCovered narrow broad \<Longrightarrow> trusts narrow q \<Longrightarrow> trusts broad q"
proof -
  assume c: "subjectsCovered narrow broad" and t: "trusts narrow q"
  show ?thesis
  proof (cases "broad = [] \<or> ''*authenticated'' \<in> set broad")
    case True
    then show ?thesis by (auto simp: trusts_def subject_names_def)
  next
    case False
    then have "narrow \<noteq> []" "\<forall>s \<in> set narrow. \<exists>b \<in> set broad. subject_covers s b"
      using c by (auto simp: subjectsCovered_def subjectCoveredBy_def list_all_iff list_ex_iff split: if_splits)
    then show ?thesis using t subject_covers_sound unfolding trusts_def by blast
  qed
qed

lemma covers_sound:
  assumes "covers h r" "grants holds r q"
    and "\<forall>p \<in> set (rl_when h). \<forall>p' \<in> set (rl_when r). pq_text p = pq_text p' \<longrightarrow> p = p'"
  shows "grants holds h q"
proof -
  have c: "globCovers (ps_env (rl_scope h)) (ps_env (rl_scope r))" "globCovers (ps_key (rl_scope h)) (ps_key (rl_scope r))"
    "subjectsCovered (rl_subjects r) (rl_subjects h)" "conditionsCovered (rl_when r) (rl_when h)"
    using assms(1) by (auto simp: covers_def split: if_splits)
  have "\<forall>p \<in> set (rl_when h). holds p q"
  proof
    fix p assume p: "p \<in> set (rl_when h)"
    then obtain p' where "p' \<in> set (rl_when r)" "pq_text p = pq_text p'" using c(4) by (auto simp: conditionsCovered_def list_all_iff)
    then show "holds p q" using assms(2,3) p by (auto simp: grants_def)
  qed
  then show ?thesis using assms(2) globCovers_sound c subjectsCovered_sound by (auto simp: grants_def)
qed

lemma Validate_covered:
  assumes "policy_Validate tiers = None" "doc \<in> set (ti_intent tiers)" "r \<in> set (dc_rules doc)" "rl_effect r = EffectAllow"
  shows "\<exists>d \<in> set (ti_composition tiers @ ti_stack tiers). \<exists>h \<in> set (dc_rules d). rl_effect h = EffectAllow \<and> covers h r"
proof -
  have "Lint tiers = []" using assms(1) by (simp add: policy_Validate_def Let_def split: if_splits)
  then have "coveredByHigher r (higherTierAllows tiers)" using assms(2-4) by (fastforce simp: Lint_def Let_def split: if_splits)
  then show ?thesis by (fastforce simp: coveredByHigher_def higherTierAllows_def allows_of_def list_ex_iff)
qed

end
