(* ===== verification/Policy_Load.thy ===== *)
theory Policy_Load
  imports Policy_Narrow Go_Path
begin

text \<open>
  Loading secret policies (\<open>internal/secretpolicy/loader.go\<close> and the tier loader of
  \<open>cmd/orun/command_policy.go\<close>): discovery of the files of a stack and of an intent, strict and lenient
  loading, and the guarantee of the narrow-only check over what was loaded. A file system is given by its
  directory listings and file contents; the decoders of the policy files and of \<open>stack.yaml\<close> are
  parameters.
\<close>

section \<open>Discovery\<close>

record policy_fs =
  fs_dir :: "string \<Rightarrow> (string \<times> bool) list option"
  fs_file :: "string \<Rightarrow> string option"

record file_spec =
  fp_tier :: policy_tier
  fp_source :: string
  fp_component_type :: string
  fp_path :: string
  fp_data :: string

definition path_join :: "string list \<Rightarrow> string" where
  \<comment> \<open>\<open>path.Join\<close>\<close>
  "path_join parts = (let ps = filter (\<lambda>p. p \<noteq> []) parts in if ps = [] then [] else path_clean (join ''/'' ps))"

definition stackPolicyExts :: "string list" where
  "stackPolicyExts = [''.SecretPolicy.yaml'', ''.secretpolicy.yaml'', ''.SecretPolicy.yml'', ''.secretpolicy.yml'']"

definition hasPolicyExt :: "string \<Rightarrow> bool" where
  "hasPolicyExt name = list_ex (has_suffix name) stackPolicyExts"

definition stackSource :: "string \<Rightarrow> string \<Rightarrow> string" where
  "stackSource name version =
     (let name = (if name = [] then ''stack'' else name)
      in if version = [] then ''stack:'' @ name else ''stack:'' @ name @ ''@'' @ version)"

definition stackIdentity :: "(string \<Rightarrow> (string \<times> string) option) \<Rightarrow> policy_fs \<Rightarrow> string \<times> string" where
  "stackIdentity stack_meta fsys =
     (case fs_file fsys ''stack.yaml'' of
        None \<Rightarrow> ([], [])
      | Some data \<Rightarrow> (case stack_meta data of None \<Rightarrow> ([], []) | Some nv \<Rightarrow> nv))"

definition policy_file :: "policy_fs \<Rightarrow> string \<Rightarrow> policy_tier \<Rightarrow> string \<Rightarrow> string \<Rightarrow> policy_error + file_spec" where
  "policy_file fsys dir tier source n =
     (let p = path_join [dir, n]
      in case fs_file fsys p of
           None \<Rightarrow> Inl (Unreadable p)
         | Some data \<Rightarrow> Inr \<lparr>fp_tier = tier, fp_source = source, fp_component_type = [], fp_path = p, fp_data = data\<rparr>)"

definition discoverPolicyDir :: "policy_fs \<Rightarrow> string \<Rightarrow> policy_tier \<Rightarrow> string \<Rightarrow> policy_error + file_spec list" where
  "discoverPolicyDir fsys dir tier source =
     (case fs_dir fsys dir of
        None \<Rightarrow> Inr []
      | Some entries \<Rightarrow>
          mapR (policy_file fsys dir tier source) (sort (map fst (filter (\<lambda>(n, isdir). \<not> isdir \<and> hasPolicyExt n) entries))))"

definition composition_types :: "policy_fs \<Rightarrow> string list" where
  "composition_types fsys =
     (case fs_dir fsys ''compositions'' of None \<Rightarrow> [] | Some entries \<Rightarrow> sort (map fst (filter snd entries)))"

definition composition_file :: "policy_fs \<Rightarrow> string \<Rightarrow> file_spec list" where
  "composition_file fsys typ =
     (let p = path_join [''compositions'', typ, ''secret-policy.yaml'']
      in case fs_file fsys p of
           None \<Rightarrow> []
         | Some data \<Rightarrow> [\<lparr>fp_tier = TierComposition, fp_source = ''composition:'' @ typ, fp_component_type = typ,
             fp_path = p, fp_data = data\<rparr>])"

definition discoverStack :: "policy_fs \<Rightarrow> string \<Rightarrow> string \<Rightarrow> policy_error + file_spec list" where
  "discoverStack fsys stackName stackVersion =
     bindR (discoverPolicyDir fsys ''policies'' TierStack (stackSource stackName stackVersion))
       (\<lambda>stackSpecs. Inr (concat (map (composition_file fsys) (composition_types fsys)) @ stackSpecs))"

definition discoverIntent :: "policy_fs \<Rightarrow> policy_error + file_spec list" where
  "discoverIntent fsys = discoverPolicyDir fsys ''policies'' TierIntent ''intent''"

section \<open>Loading\<close>

type_synonym policy_decoder = "string \<Rightarrow> string + raw_document"

definition parseSpec :: "(string \<Rightarrow> string) \<Rightarrow> policy_decoder \<Rightarrow> file_spec \<Rightarrow> policy_error + policy_document" where
  "parseSpec quote unmarshal spec =
     bindR (ParseDocument quote unmarshal (fp_data spec) (fp_tier spec) (fp_source spec) (fp_path spec))
       (\<lambda>doc. if fp_tier spec = TierComposition then InjectComponentType quote (fp_component_type spec) doc else Inr doc)"

definition load_specs :: "(string \<Rightarrow> string) \<Rightarrow> policy_decoder \<Rightarrow> file_spec list \<Rightarrow>
    policy_error + (policy_tier \<times> policy_document) list" where
  "load_specs quote unmarshal specs =
     mapR (\<lambda>spec. bindR (parseSpec quote unmarshal spec) (\<lambda>doc. Inr (fp_tier spec, doc))) specs"

definition of_tier :: "policy_tier \<Rightarrow> (policy_tier \<times> policy_document) list \<Rightarrow> policy_document list" where
  "of_tier t docs = map snd (filter (\<lambda>d. fst d = t) docs)"

definition LoadStackRoot ::
  "(string \<Rightarrow> string) \<Rightarrow> policy_decoder \<Rightarrow> (string \<Rightarrow> (string \<times> string) option) \<Rightarrow> policy_fs \<Rightarrow>
     policy_error + policy_document list \<times> policy_document list" where
  "LoadStackRoot quote unmarshal stack_meta fsys =
     (let (name, version) = stackIdentity stack_meta fsys
      in bindR (discoverStack fsys name version) (\<lambda>specs. bindR (load_specs quote unmarshal specs) (\<lambda>docs.
           Inr (of_tier TierComposition docs, of_tier TierStack docs))))"

definition LoadIntentPolicies :: "(string \<Rightarrow> string) \<Rightarrow> policy_decoder \<Rightarrow> policy_fs \<Rightarrow> policy_error + policy_document list" where
  "LoadIntentPolicies quote unmarshal fsys =
     bindR (discoverIntent fsys) (\<lambda>specs. bindR (load_specs quote unmarshal specs) (\<lambda>docs. Inr (map snd docs)))"

definition io_finding :: "policy_error \<Rightarrow> policy_finding" where
  "io_finding e = \<lparr>pf_severity = ''error'', pf_tier = None, pf_source = [], pf_path = [], pf_rule_id = [],
     pf_kind = ''io'', pf_reason = Some e\<rparr>"

definition vocabulary_finding :: "policy_tier \<Rightarrow> file_spec \<Rightarrow> policy_error \<Rightarrow> policy_finding" where
  "vocabulary_finding tier spec e = \<lparr>pf_severity = ''error'', pf_tier = Some tier, pf_source = fp_source spec,
     pf_path = fp_path spec, pf_rule_id = [], pf_kind = ''vocabulary'', pf_reason = Some e\<rparr>"

definition lenient_specs :: "(string \<Rightarrow> string) \<Rightarrow> policy_decoder \<Rightarrow> file_spec list \<Rightarrow>
    (policy_tier \<times> policy_document) list \<times> policy_finding list" where
  "lenient_specs quote unmarshal specs =
     (concat (map (\<lambda>s. case parseSpec quote unmarshal s of Inl _ \<Rightarrow> [] | Inr doc \<Rightarrow> [(fp_tier s, doc)]) specs),
      concat (map (\<lambda>s. case parseSpec quote unmarshal s of Inl e \<Rightarrow> [vocabulary_finding (fp_tier s) s e] | Inr _ \<Rightarrow> []) specs))"

definition LoadStackRootLenient ::
  "(string \<Rightarrow> string) \<Rightarrow> policy_decoder \<Rightarrow> (string \<Rightarrow> (string \<times> string) option) \<Rightarrow> policy_fs \<Rightarrow>
     policy_document list \<times> policy_document list \<times> policy_finding list" where
  "LoadStackRootLenient quote unmarshal stack_meta fsys =
     (let (name, version) = stackIdentity stack_meta fsys
      in case discoverStack fsys name version of
           Inl e \<Rightarrow> ([], [], [io_finding e])
         | Inr specs \<Rightarrow> (let (docs, findings) = lenient_specs quote unmarshal specs
                         in (of_tier TierComposition docs, of_tier TierStack docs, findings)))"

definition LoadIntentPoliciesLenient ::
  "(string \<Rightarrow> string) \<Rightarrow> policy_decoder \<Rightarrow> policy_fs \<Rightarrow> policy_document list \<times> policy_finding list" where
  "LoadIntentPoliciesLenient quote unmarshal fsys =
     (case discoverIntent fsys of
        Inl e \<Rightarrow> ([], [io_finding e])
      | Inr specs \<Rightarrow> (let (docs, findings) = lenient_specs quote unmarshal specs in (map snd docs, findings)))"

definition stackRoots :: "string list \<Rightarrow> string list" where
  \<comment> \<open>of the source roots of the composition registry\<close>
  "stackRoots roots = sort (remdups (filter (\<lambda>r. r \<noteq> []) (map trim_space roots)))"

definition loadPolicyTiersStrict ::
  "(string \<Rightarrow> string) \<Rightarrow> policy_decoder \<Rightarrow> (string \<Rightarrow> (string \<times> string) option) \<Rightarrow> (string \<Rightarrow> policy_fs) \<Rightarrow>
     string list \<Rightarrow> string \<Rightarrow> policy_error + policy_tiers" where
  \<comment> \<open>\<open>dirFS root\<close> is \<open>os.DirFS(root)\<close>; \<open>roots\<close> are the source roots the registry resolved\<close>
  "loadPolicyTiersStrict quote unmarshal stack_meta dirFS roots repoRoot =
     bindR (mapR (\<lambda>root. LoadStackRoot quote unmarshal stack_meta (dirFS root)) (stackRoots roots)) (\<lambda>loaded.
     bindR (if repoRoot \<noteq> [] then LoadIntentPolicies quote unmarshal (dirFS repoRoot) else Inr []) (\<lambda>intentDocs.
       Inr \<lparr>ti_composition = concat (map fst loaded), ti_stack = concat (map snd loaded), ti_intent = intentDocs\<rparr>))"

definition loadPolicyTiersLenient ::
  "(string \<Rightarrow> string) \<Rightarrow> policy_decoder \<Rightarrow> (string \<Rightarrow> (string \<times> string) option) \<Rightarrow> (string \<Rightarrow> policy_fs) \<Rightarrow>
     string list \<Rightarrow> string \<Rightarrow> policy_tiers \<times> policy_finding list" where
  "loadPolicyTiersLenient quote unmarshal stack_meta dirFS roots repoRoot =
     (let loaded = map (\<lambda>root. LoadStackRootLenient quote unmarshal stack_meta (dirFS root)) (stackRoots roots);
          (intentDocs, found) = (if repoRoot \<noteq> [] then LoadIntentPoliciesLenient quote unmarshal (dirFS repoRoot) else ([], []))
      in (\<lparr>ti_composition = concat (map fst loaded), ti_stack = concat (map (fst \<circ> snd) loaded), ti_intent = intentDocs\<rparr>,
          concat (map (snd \<circ> snd) loaded) @ found))"

section \<open>The text of a predicate\<close>

definition go_quoting :: "(string \<Rightarrow> string) \<Rightarrow> bool" where
  \<comment> \<open>what is used of \<open>strconv.Quote\<close>: it can be undone, and gives a quoted text on one line\<close>
  "go_quoting quote \<longleftrightarrow> inj quote \<and> (\<forall>s. \<exists>r. quote s = CHR 0x22 # r) \<and> (\<forall>s. no_newline (quote s))"

definition team_of :: "(string \<Rightarrow> string) \<Rightarrow> string \<Rightarrow> policy_predicate" where
  "team_of quote team = zero_predicate\<lparr>pq_kind := PredTeam, pq_team := team, pq_text := ''subject in team '' @ quote team\<rparr>"

definition matches_of :: "(string \<Rightarrow> string) \<Rightarrow> string \<Rightarrow> string \<Rightarrow> policy_predicate" where
  "matches_of quote axis glob = zero_predicate\<lparr>pq_kind := PredMatches, pq_fact := axis, pq_glob := glob,
     pq_text := axis @ '' matches '' @ quote glob\<rparr>"

lemma team_of_text [simp]: "pq_text (team_of quote t) = ''subject in team '' @ quote t"
  by (simp add: team_of_def)

lemma matches_of_text [simp]: "pq_text (matches_of quote a g) = a @ '' matches '' @ quote g"
  by (simp add: matches_of_def)

definition plain_predicate :: "string \<Rightarrow> policy_error + policy_predicate" where
  \<comment> \<open>the predicates whose text is what was written\<close>
  "plain_predicate s =
     (case in_shape s of Some (axis, inner) \<Rightarrow> in_predicate [] s axis inner | None \<Rightarrow>
     (case equals_shape s of Some (axis, m) \<Rightarrow> equals_predicate [] s axis m | None \<Rightarrow> bool_predicate [] s))"

lemma in_predicate_text: "in_predicate expr s axis inner = Inr p \<Longrightarrow> pq_text p = s \<and> in_predicate [] s axis inner = Inr p"
  by (auto simp: in_predicate_def requireStringFact_def res_elims split: sum.splits option.splits if_splits)

lemma equals_predicate_text: "equals_predicate expr s axis m = Inr p \<Longrightarrow> pq_text p = s \<and> equals_predicate [] s axis m = Inr p"
  by (auto simp: equals_predicate_def Let_def split: option.splits if_splits)

lemma bool_predicate_text: "bool_predicate expr s = Inr p \<Longrightarrow> pq_text p = s \<and> bool_predicate [] s = Inr p"
  by (auto simp: bool_predicate_def Let_def split: if_splits)

lemma parsed_predicate_cases:
  assumes "parsePredicate quote e = Inr p"
  obtains (team) t where "p = team_of quote t"
  | (glob) axis g where "p = matches_of quote axis g" "axis \<noteq> []" "list_all fact_char axis"
  | (plain) "team_shape (pq_text p) = None" "in_shape (pq_text p) \<noteq> None \<or> matches_shape (pq_text p) = None"
      "plain_predicate (pq_text p) = Inr p"
proof -
  let ?s = "trim_space e"
  show thesis
  proof (cases "team_shape ?s")
    case (Some m)
    then show ?thesis using assms team
      by (auto simp: parsePredicate_def Let_def team_predicate_def team_of_def split: if_splits)
  next
    case none: None
    show ?thesis
    proof (cases "in_shape ?s")
      case (Some ai)
      then have "in_predicate e ?s (fst ai) (snd ai) = Inr p" using assms none
        by (auto simp: parsePredicate_def Let_def split: if_splits prod.splits)
      from in_predicate_text[OF this] show ?thesis using plain Some none
        by (cases ai) (auto simp: plain_predicate_def)
    next
      case no_in: None
      show ?thesis
      proof (cases "matches_shape ?s")
        case (Some am)
        obtain a m where am: "am = (a, m)" by (cases am)
        then have "a \<noteq> []" "list_all fact_char a" using Some
          by (auto simp: matches_shape_def fact_shape_def bind_eq_Some_conv list_all_iff dest: set_takeWhileD split: if_splits)
        moreover have "matches_predicate quote e a m = Inr p" using Some am assms none no_in
          by (auto simp: parsePredicate_def Let_def split: if_splits)
        ultimately show ?thesis using glob
          by (auto simp: matches_predicate_def matches_of_def Let_def res_elims split: if_splits)
      next
        case no_match: None
        show ?thesis
        proof (cases "equals_shape ?s")
          case (Some am)
          then have "equals_predicate e ?s (fst am) (snd am) = Inr p" using assms none no_in no_match
            by (auto simp: parsePredicate_def Let_def split: if_splits prod.splits)
          from equals_predicate_text[OF this] show ?thesis using plain Some none no_in no_match
            by (cases am) (auto simp: plain_predicate_def)
        next
          case None
          then have "bool_predicate e ?s = Inr p" using assms none no_in no_match
            by (auto simp: parsePredicate_def Let_def split: if_splits)
          from bool_predicate_text[OF this] show ?thesis using plain None none no_in no_match
            by (auto simp: plain_predicate_def)
        qed
      qed
    qed
  qed
qed

lemma team_text_shape: "go_quoting quote \<Longrightarrow> team_shape (''subject in team '' @ quote t) \<noteq> None"
proof -
  assume q: "go_quoting quote"
  obtain r where r: "quote t = CHR 0x22 # r" "no_newline (CHR 0x22 # r)" using q unfolding go_quoting_def by metis
  then show ?thesis by (simp add: team_shape_def re_lit_def re_spaces_def has_prefix_def ws_byte_def re_rest_def)
qed

lemma take_fact: "list_all fact_char a \<Longrightarrow> \<not> fact_char c \<Longrightarrow> takeWhile fact_char (a @ c # r) = a \<and> dropWhile fact_char (a @ c # r) = c # r"
  by (induction a) auto

lemma matches_text_shape:
  assumes "go_quoting quote" "axis \<noteq> []" "list_all fact_char axis"
  shows "fact_shape (axis @ '' matches '' @ quote g) = Some (axis, '' matches '' @ quote g)"
    and "matches_shape (axis @ '' matches '' @ quote g) \<noteq> None" and "in_shape (axis @ '' matches '' @ quote g) = None"
proof -
  have sp: "\<not> fact_char (CHR '' '')" by (simp add: fact_char_def is_alnum_def is_alpha_def is_digit_def is_upper_def is_lower_def)
  show f: "fact_shape (axis @ '' matches '' @ quote g) = Some (axis, '' matches '' @ quote g)"
    using take_fact[OF assms(3) sp, of "''matches '' @ quote g"] assms(2) by (simp add: fact_shape_def)
  obtain r where r: "quote g = CHR 0x22 # r" "no_newline (CHR 0x22 # r)" using assms(1) unfolding go_quoting_def by metis
  show "matches_shape (axis @ '' matches '' @ quote g) \<noteq> None"
    unfolding matches_shape_def f by (simp add: re_spaces_def re_lit_def has_prefix_def ws_byte_def re_rest_def r)
  show "in_shape (axis @ '' matches '' @ quote g) = None"
    unfolding in_shape_def f by (simp add: re_spaces_def re_lit_def has_prefix_def ws_byte_def)
qed

lemma team_fact: "fact_shape (''subject in team '' @ r) = Some (''subject'', '' in team '' @ r)"
  by (simp add: fact_shape_def fact_char_def is_alnum_def is_alpha_def is_digit_def is_upper_def is_lower_def)

lemma text_determines_predicate:
  assumes q: "go_quoting quote" and p: "parsePredicate quote e = Inr p" and p': "parsePredicate quote e' = Inr p'"
    and t: "pq_text p = pq_text p'"
  shows "p = p'"
proof -
  have inj: "quote a = quote b \<Longrightarrow> a = b" for a b using q by (auto simp: go_quoting_def inj_def)
  note team_txt = team_text_shape[OF q] and glob_txt = matches_text_shape[OF q]
  have differ: "''subject in team '' @ quote a \<noteq> axis @ '' matches '' @ quote b"
    if "axis \<noteq> []" "list_all fact_char axis" for a b axis
    using team_fact[of "quote a"] glob_txt(1)[OF that, of b] by auto
  from p show ?thesis
  proof (cases rule: parsed_predicate_cases)
    case a: (team t1)
    from p' show ?thesis
    proof (cases rule: parsed_predicate_cases)
      case (team t2)
      then have "quote t1 = quote t2" using t a by simp
      then show ?thesis using a team inj by metis
    next
      case plain
      then show ?thesis using team_text_shape[OF q, of t1] t a by (metis team_of_text)
    qed (use t a differ in \<open>metis team_of_text matches_of_text\<close>)
  next
    case a: (glob axis g)
    from p' show ?thesis
    proof (cases rule: parsed_predicate_cases)
      case (glob axis' g')
      have "axis @ '' matches '' @ quote g = axis' @ '' matches '' @ quote g'"
        using t unfolding a(1) glob(1) matches_of_text .
      then have "Some (axis, '' matches '' @ quote g) = Some (axis', '' matches '' @ quote g')"
        unfolding glob_txt(1)[OF a(2,3), symmetric] glob_txt(1)[OF glob(2,3), symmetric] by (rule arg_cong)
      then have "axis = axis'" "quote g = quote g'" by simp_all
      then show ?thesis using a(1) glob(1) inj by metis
    next
      case (team t2)
      then show ?thesis using t a differ by (metis team_of_text matches_of_text)
    next
      case plain
      then show ?thesis using glob_txt[OF a(2,3), of g] t a by (metis matches_of_text)
    qed
  next
    case a: plain
    from p' show ?thesis
    proof (cases rule: parsed_predicate_cases)
      case plain
      then show ?thesis using a t by simp
    next
      case (team t2)
      then show ?thesis using team_txt[of t2] t a by (metis team_of_text)
    next
      case (glob axis g)
      then show ?thesis using glob_txt[OF glob(2,3), of g] t a by (metis matches_of_text)
    qed
  qed
qed

section \<open>What was loaded\<close>

definition plain_name :: "(string \<Rightarrow> string) \<Rightarrow> string \<Rightarrow> bool" where
  \<comment> \<open>a name that quoting only puts between quotes\<close>
  "plain_name quote typ \<longleftrightarrow> quote typ = CHR 0x22 # typ @ [CHR 0x22]"

definition authored :: "(string \<Rightarrow> string) \<Rightarrow> policy_document \<Rightarrow> bool" where
  "authored quote d \<longleftrightarrow> (\<forall>r \<in> set (dc_rules d). \<forall>p \<in> set (rl_when r). \<exists>e. parsePredicate quote e = Inr p)"

lemma trim_ascii_ends:
  assumes "s = a # m @ [b]" "a \<notin> {CHR 0xC2, CHR 0xE1, CHR 0xE2, CHR 0xE3}" "\<not> ascii_space a" "b = CHR 0x22"
  shows "trim_space s = s"
proof -
  have "space_len s = 0" using assms(2,3) unfolding assms(1) by (simp add: space_len_def)
  moreover have "rspace_len (rev s) = 0"
    unfolding assms(1,4) rspace_len_def
    by (cases "rev m"; cases "tl (rev m)") (auto simp: space_len_def ascii_space_def split: if_splits)
  ultimately show ?thesis by (simp add: trim_space_def trim_left_id rtrim_left_id)
qed

lemma type_predicate_authored:
  assumes q: "go_quoting quote" and pn: "plain_name quote typ"
  shows "parsePredicate quote (''component.type == '' @ quote typ) = Inr (type_predicate quote typ)"
proof -
  let ?s = "''component.type == '' @ quote typ"
  have nl: "no_newline (quote typ)" using q by (simp add: go_quoting_def)
  have s: "?s = CHR ''c'' # (''omponent.type == '' @ CHR 0x22 # typ) @ [CHR 0x22]" using pn by (simp add: plain_name_def)
  have trim: "trim_space ?s = ?s" by (rule trim_ascii_ends[OF s]) (simp_all add: ascii_space_def)
  have f: "fact_shape ?s = Some (''component.type'', '' == '' @ quote typ)"
    by (simp add: fact_shape_def fact_char_def is_alnum_def is_alpha_def is_digit_def is_upper_def is_lower_def)
  have shapes: "team_shape ?s = None" "in_shape ?s = None" "matches_shape ?s = None"
    "equals_shape ?s = Some (''component.type'', quote typ)"
    using nl pn unfolding in_shape_def matches_shape_def equals_shape_def f
    by (simp_all add: team_shape_def re_lit_def has_prefix_def re_spaces_def ws_byte_def re_rest_def plain_name_def)
  have lit: "trim_space (quote typ) = quote typ" "string_literal (quote typ) = Some typ"
  proof -
    have e: "quote typ = CHR 0x22 # typ @ [CHR 0x22]" using pn by (simp add: plain_name_def)
    show "trim_space (quote typ) = quote typ" by (rule trim_ascii_ends[OF e]) (simp_all add: ascii_space_def)
    show "string_literal (quote typ) = Some typ" using nl unfolding e by (simp add: string_literal_def inner_of_def no_newline_def)
  qed
  show ?thesis unfolding parsePredicate_def trim Let_def shapes
    by (simp add: equals_predicate_def lit coerceLiteral_def stringFacts_def type_predicate_def)
qed

lemma add_rule_authored:
  assumes "add_rule quote path name ir rules = Inr rules'"
    "\<forall>r \<in> set rules. \<forall>p \<in> set (rl_when r). \<exists>e. parsePredicate quote e = Inr p"
  shows "\<forall>r \<in> set rules'. \<forall>p \<in> set (rl_when r). \<exists>e. parsePredicate quote e = Inr p"
proof -
  obtain rule where r: "parseRule quote (snd ir) name (fst ir) = Inr rule" "rules' = rules @ [rule]"
    using assms(1) by (auto simp: add_rule_def split: sum.splits if_splits)
  obtain preds where "mapR (parsePredicate quote) (rw_when (snd ir)) = Inr preds" "rl_when rule = preds"
    using r(1) by (auto simp: parseRule_def Let_def split: if_splits option.splits sum.splits)
  then show ?thesis using r(2) assms(2) mapR_mem by fastforce
qed

lemma ParseDocument_authored:
  assumes "ParseDocument quote unmarshal data tier source path = Inr d"
  shows "authored quote d \<and> dc_source d = source \<and> dc_tier d = tier"
proof -
  obtain name raw rules where f: "foldR (add_rule quote path name) (indexed raw) [] = Inr rules"
    "d = \<lparr>dc_name = name, dc_tier = tier, dc_source = source, dc_path = path, dc_rules = rules\<rparr>"
    using assms by (auto simp: ParseDocument_def Let_def res_elims split: sum.splits if_splits)
  have "\<forall>r \<in> set rules. \<forall>p \<in> set (rl_when r). \<exists>e. parsePredicate quote e = Inr p"
    by (rule foldR_invariant[OF f(1)]) (use add_rule_authored in \<open>auto\<close>)
  then show ?thesis using f(2) by (simp add: authored_def)
qed

lemma inject_rule_when:
  assumes "inject_rule quote path typ r = Inr r'"
  shows "(rl_when r' = rl_when r \<or> rl_when r' = rl_when r @ [type_predicate quote typ]) \<and>
    (\<exists>p \<in> set (rl_when r'). names_type p) \<and> (\<forall>p \<in> set (rl_when r'). names_type p \<longrightarrow> pq_value p = typ) \<and> rl_effect r' = rl_effect r"
proof -
  have c: "\<forall>p \<in> set (rl_when r). type_constraint typ (rl_id r) p = None"
    using assms by (auto simp: inject_rule_def split: option.splits)
  have t: "names_type (type_predicate quote typ)" "pq_value (type_predicate quote typ) = typ"
    by (simp_all add: names_type_def type_predicate_def zero_predicate_def)
  have "\<forall>p \<in> set (rl_when r). names_type p \<longrightarrow> pq_value p = typ"
    using c by (auto simp: type_constraint_def names_type_def split: if_splits)
  then show ?thesis using assms t by (auto simp: inject_rule_def list_ex_iff split: option.splits if_splits)
qed

lemma InjectComponentType_rules:
  assumes "InjectComponentType quote typ d = Inr d'"
  shows "dc_source d' = dc_source d \<and> dc_tier d' = dc_tier d \<and>
    (\<forall>r' \<in> set (dc_rules d'). \<exists>r \<in> set (dc_rules d). inject_rule quote (dc_path d) typ r = Inr r')"
  using assms mapR_mem by (fastforce simp: InjectComponentType_def res_elims)

definition fragment_of :: "string \<Rightarrow> policy_document \<Rightarrow> bool" where
  \<comment> \<open>every rule is about components of this type and no other\<close>
  "fragment_of typ d \<longleftrightarrow> dc_source d = ''composition:'' @ typ \<and>
     (\<forall>r \<in> set (dc_rules d). (\<exists>p \<in> set (rl_when r). names_type p) \<and> (\<forall>p \<in> set (rl_when r). names_type p \<longrightarrow> pq_value p = typ))"

lemma parseSpec_ok:
  assumes "parseSpec quote unmarshal spec = Inr d" "go_quoting quote"
    and "fp_tier spec = TierComposition \<Longrightarrow> plain_name quote (fp_component_type spec)"
  shows "authored quote d \<and> dc_tier d = fp_tier spec \<and> dc_source d = fp_source spec"
proof -
  obtain d0 where d0: "ParseDocument quote unmarshal (fp_data spec) (fp_tier spec) (fp_source spec) (fp_path spec) = Inr d0"
    "(if fp_tier spec = TierComposition then InjectComponentType quote (fp_component_type spec) d0 else Inr d0) = Inr d"
    using assms(1) by (auto simp: parseSpec_def res_elims)
  note a = ParseDocument_authored[OF d0(1)]
  show ?thesis
  proof (cases "fp_tier spec = TierComposition")
    case True
    then have i: "InjectComponentType quote (fp_component_type spec) d0 = Inr d" using d0(2) by simp
    have "authored quote d"
      unfolding authored_def
    proof (intro ballI)
      fix r' p assume r': "r' \<in> set (dc_rules d)" and p: "p \<in> set (rl_when r')"
      obtain r where r: "r \<in> set (dc_rules d0)" "inject_rule quote (dc_path d0) (fp_component_type spec) r = Inr r'"
        using InjectComponentType_rules[OF i] r' by blast
      then have "p \<in> set (rl_when r) \<or> p = type_predicate quote (fp_component_type spec)"
        using inject_rule_when[OF r(2)] p by auto
      then show "\<exists>e. parsePredicate quote e = Inr p"
        using a r(1) type_predicate_authored[OF assms(2) assms(3)[OF True]] by (auto simp: authored_def)
    qed
    then show ?thesis using InjectComponentType_rules[OF i] a by simp
  qed (use d0(2) a in auto)
qed

lemma parseSpec_fragment:
  assumes "parseSpec quote unmarshal spec = Inr d" "fp_tier spec = TierComposition"
    "fp_source spec = ''composition:'' @ fp_component_type spec"
  shows "fragment_of (fp_component_type spec) d"
proof -
  obtain d0 where d0: "ParseDocument quote unmarshal (fp_data spec) (fp_tier spec) (fp_source spec) (fp_path spec) = Inr d0"
    "InjectComponentType quote (fp_component_type spec) d0 = Inr d"
    using assms(1,2) by (auto simp: parseSpec_def res_elims)
  show ?thesis
    using InjectComponentType_rules[OF d0(2)] ParseDocument_authored[OF d0(1)] assms(3) inject_rule_when
    unfolding fragment_of_def by metis
qed

lemma policy_dir_tier: "discoverPolicyDir fsys dir tier source = Inr specs \<Longrightarrow> s \<in> set specs \<Longrightarrow> fp_tier s = tier"
proof -
  assume "discoverPolicyDir fsys dir tier source = Inr specs" "s \<in> set specs"
  then obtain n where "policy_file fsys dir tier source n = Inr s"
    by (auto simp: discoverPolicyDir_def dest!: mapR_mem split: option.splits)
  then show ?thesis by (auto simp: policy_file_def Let_def split: option.splits)
qed

lemma discoverStack_specs:
  assumes "discoverStack fsys name version = Inr specs" "s \<in> set specs" "fp_tier s = TierComposition"
  shows "fp_component_type s \<in> set (composition_types fsys) \<and> fp_source s = ''composition:'' @ fp_component_type s"
proof -
  obtain st where st: "discoverPolicyDir fsys ''policies'' TierStack (stackSource name version) = Inr st"
    "specs = concat (map (composition_file fsys) (composition_types fsys)) @ st"
    using assms(1) by (auto simp: discoverStack_def res_elims)
  then have "s \<notin> set st" using policy_dir_tier[OF st(1)] assms(3) by auto
  then obtain c where "c \<in> set (composition_types fsys)" "s \<in> set (composition_file fsys c)" using st(2) assms(2) by auto
  then show ?thesis by (auto simp: composition_file_def Let_def split: option.splits)
qed

lemma load_specs_mem:
  assumes "load_specs quote unmarshal specs = Inr docs" "(tier, d) \<in> set docs"
  shows "\<exists>s \<in> set specs. fp_tier s = tier \<and> parseSpec quote unmarshal s = Inr d"
  using mapR_mem[OF assms(1)[unfolded load_specs_def] assms(2)] by (auto simp: res_elims)

lemma of_tier_mem: "d \<in> set (of_tier tier docs) \<longleftrightarrow> (tier, d) \<in> set docs"
  by (force simp: of_tier_def)

lemma LoadStackRoot_docs:
  assumes "LoadStackRoot quote unmarshal stack_meta fsys = Inr (composition, stack)"
  obtains specs docs name version where "discoverStack fsys name version = Inr specs" "load_specs quote unmarshal specs = Inr docs"
    "composition = of_tier TierComposition docs" "stack = of_tier TierStack docs"
  using assms by (auto simp: LoadStackRoot_def res_elims split: prod.splits)

text \<open>
  C26: A composition's policy fragment stays within the composition's own type: every rule that
  \<open>LoadStackRoot\<close> returns for the composition tier carries a predicate that the component type is the name
  of the directory the fragment was found in, and none that it is another.
\<close>

theorem fragments_are_scoped:
  assumes "LoadStackRoot quote unmarshal stack_meta fsys = Inr (composition, stack)" "d \<in> set composition"
  shows "\<exists>typ \<in> set (composition_types fsys). dc_source d = ''composition:'' @ typ \<and>
    (\<forall>r \<in> set (dc_rules d). (\<exists>p \<in> set (rl_when r). names_type p) \<and> (\<forall>p \<in> set (rl_when r). names_type p \<longrightarrow> pq_value p = typ))"
proof -
  obtain specs docs name version where l: "discoverStack fsys name version = Inr specs"
    "load_specs quote unmarshal specs = Inr docs" "composition = of_tier TierComposition docs"
    using LoadStackRoot_docs[OF assms(1)] by metis
  then obtain s where s: "s \<in> set specs" "fp_tier s = TierComposition" "parseSpec quote unmarshal s = Inr d"
    using load_specs_mem[OF l(2)] assms(2) unfolding l(3) of_tier_mem by blast
  note c = discoverStack_specs[OF l(1) s(1,2)]
  show ?thesis using parseSpec_fragment[OF s(3,2)] c unfolding fragment_of_def by blast
qed

lemma stack_docs_authored:
  assumes "LoadStackRoot quote unmarshal stack_meta fsys = Inr (composition, stack)" "go_quoting quote"
    "\<forall>typ \<in> set (composition_types fsys). plain_name quote typ" "d \<in> set composition \<union> set stack"
  shows "authored quote d"
proof -
  obtain specs docs name version where l: "discoverStack fsys name version = Inr specs"
    "load_specs quote unmarshal specs = Inr docs" "composition = of_tier TierComposition docs" "stack = of_tier TierStack docs"
    using LoadStackRoot_docs[OF assms(1)] by metis
  obtain tier where "(tier, d) \<in> set docs" using assms(4) unfolding l(3,4) Un_iff of_tier_mem by blast
  then obtain s where s: "s \<in> set specs" "parseSpec quote unmarshal s = Inr d" using load_specs_mem[OF l(2)] by blast
  show ?thesis using parseSpec_ok[OF s(2) assms(2)] discoverStack_specs[OF l(1) s(1)] assms(3) by blast
qed

lemma intent_docs_authored:
  assumes "LoadIntentPolicies quote unmarshal fsys = Inr docs" "go_quoting quote" "d \<in> set docs"
  shows "authored quote d"
proof -
  obtain specs ds where l: "discoverIntent fsys = Inr specs" "load_specs quote unmarshal specs = Inr ds" "docs = map snd ds"
    using assms(1) by (auto simp: LoadIntentPolicies_def res_elims)
  obtain tier where "(tier, d) \<in> set ds" using assms(3) l(3) by auto
  then obtain s where s: "s \<in> set specs" "parseSpec quote unmarshal s = Inr d" using load_specs_mem[OF l(2)] by blast
  have "fp_tier s = TierIntent" using policy_dir_tier l(1) s(1) unfolding discoverIntent_def by blast
  then show ?thesis using parseSpec_ok[OF s(2) assms(2)] by simp
qed

lemma loaded_tiers_authored:
  assumes load: "loadPolicyTiersStrict quote unmarshal stack_meta dirFS roots repoRoot = Inr tiers" and q: "go_quoting quote"
    and names: "\<forall>root \<in> set (stackRoots roots). \<forall>typ \<in> set (composition_types (dirFS root)). plain_name quote typ"
    and d: "d \<in> set (tiers_Ordered tiers)"
  shows "authored quote d"
proof -
  obtain loaded docs where l: "mapR (\<lambda>root. LoadStackRoot quote unmarshal stack_meta (dirFS root)) (stackRoots roots) = Inr loaded"
    "(if repoRoot \<noteq> [] then LoadIntentPolicies quote unmarshal (dirFS repoRoot) else Inr []) = Inr docs"
    "tiers = \<lparr>ti_composition = concat (map fst loaded), ti_stack = concat (map snd loaded), ti_intent = docs\<rparr>"
    using load by (auto simp: loadPolicyTiersStrict_def res_elims)
  show ?thesis
  proof (cases "d \<in> set docs")
    case True
    then show ?thesis using intent_docs_authored[OF _ q] l(2) by (auto split: if_splits)
  next
    case False
    then obtain cs where cs: "cs \<in> set loaded" "d \<in> set (fst cs) \<union> set (snd cs)" using d l(3) by (auto simp: tiers_Ordered_def)
    then obtain root where "root \<in> set (stackRoots roots)" "LoadStackRoot quote unmarshal stack_meta (dirFS root) = Inr cs"
      using mapR_mem[OF l(1)] by blast
    then show ?thesis using stack_docs_authored[OF _ q, of unmarshal stack_meta "dirFS root" "fst cs" "snd cs" d] names cs by simp
  qed
qed

text \<open>
  C4: An intent overlay never widens access. When the three tiers load and the narrow-only check passes,
  every request that an allow rule of an intent document grants is also granted by an allow rule of a stack
  or of a composition - whatever the predicates mean, since the comparison of predicates by their text is
  exact for parsed rules (for composition directories whose names need no escaping).
\<close>

theorem overlays_only_narrow:
  assumes "go_quoting quote"
    and "\<forall>root \<in> set (stackRoots roots). \<forall>typ \<in> set (composition_types (dirFS root)). plain_name quote typ"
    and "loadPolicyTiersStrict quote unmarshal stack_meta dirFS roots repoRoot = Inr tiers"
    and "policy_Validate tiers = None"
    and "doc \<in> set (ti_intent tiers)" "r \<in> set (dc_rules doc)" "rl_effect r = EffectAllow" "grants holds r q"
  shows "\<exists>d \<in> set (ti_composition tiers @ ti_stack tiers). \<exists>h \<in> set (dc_rules d). rl_effect h = EffectAllow \<and> grants holds h q"
proof -
  obtain d h where h: "d \<in> set (ti_composition tiers @ ti_stack tiers)" "h \<in> set (dc_rules d)" "rl_effect h = EffectAllow" "covers h r"
    using Validate_covered[OF assms(4-7)] by blast
  have "authored quote d" "authored quote doc"
    using loaded_tiers_authored[OF assms(3,1,2)] h(1) assms(5) by (auto simp: tiers_Ordered_def)
  then have "\<forall>p \<in> set (rl_when h). \<forall>p' \<in> set (rl_when r). pq_text p = pq_text p' \<longrightarrow> p = p'"
    using text_determines_predicate[OF assms(1)] h(2) assms(6) unfolding authored_def by blast
  then show ?thesis using covers_sound[OF h(4) assms(8)] h by blast
qed

section \<open>Examples\<close>

definition example_quote :: "string \<Rightarrow> string" where
  "example_quote s = CHR 0x22 # concat (map (\<lambda>c. if c = CHR 0x0A then [CHR 0x5C, CHR ''n''] else
     if c = CHR 0x5C \<or> c = CHR 0x22 then [CHR 0x5C, c] else [c]) s) @ [CHR 0x22]"

lemma go_quoting_example: "go_quoting example_quote"
proof -
  let ?f = "\<lambda>c. if c = CHR 0x0A then [CHR 0x5C, CHR ''n''] else if c = CHR 0x5C \<or> c = CHR 0x22 then [CHR 0x5C, c] else [c]"
  have c: "s = t" if "concat (map ?f s) = concat (map ?f t)" for s t
    using that
  proof (induction s arbitrary: t)
    case Nil
    then show ?case by (cases t) (auto split: if_splits)
  next
    case (Cons c s)
    then show ?case by (cases t) (auto split: if_splits)
  qed
  have n: "CHR 0x0A \<notin> set (concat (map ?f s))" for s by (induction s) auto
  have "inj example_quote"
  proof (rule injI)
    fix s t assume "example_quote s = example_quote t"
    then have "concat (map ?f s) = concat (map ?f t)" unfolding example_quote_def by (simp only: list.inject append_same_eq)
    then show "s = t" by (rule c)
  qed
  moreover have "no_newline (example_quote s)" for s
    using n[of s] unfolding example_quote_def no_newline_def by (simp del: set_concat)
  moreover have "\<exists>r. example_quote s = CHR 0x22 # r" for s unfolding example_quote_def by blast
  ultimately show ?thesis unfolding go_quoting_def by blast
qed

definition example_rule :: "string list \<Rightarrow> string \<Rightarrow> string \<Rightarrow> string list \<Rightarrow> raw_rule" where
  "example_rule subjects env key conds = \<lparr>rw_id = ''r'', rw_effect = ''allow'', rw_subjects = subjects,
     rw_scope = \<lparr>ps_env = env, ps_key = key\<rparr>, rw_when = conds\<rparr>"

definition example_decoder :: policy_decoder where
  "example_decoder data = Inr \<lparr>rwd_api_version = ''orun.io/v1'', rwd_kind = ''SecretPolicy'', rwd_name = data,
     rwd_rules = (if data = ''stack'' then [example_rule [''workflow'', ''user''] ''prod*'' [] []]
       else if data = ''fragment'' then [example_rule [] [] [] [''trigger.declared'']]
       else [example_rule [''user:u1''] ''prod-eu'' ''DB_*'' [''trigger.branch == '' @ example_quote ''main'']])\<rparr>"

definition example_fs :: "string \<Rightarrow> policy_fs" where
  "example_fs root =
     (if root = ''/stack''
      then \<lparr>fs_dir = (\<lambda>d. if d = ''policies'' then Some [(''base.SecretPolicy.yaml'', False)]
              else if d = ''compositions'' then Some [(''web'', True)] else None),
            fs_file = (\<lambda>f. if f = ''policies/base.SecretPolicy.yaml'' then Some ''stack''
              else if f = ''compositions/web/secret-policy.yaml'' then Some ''fragment'' else None)\<rparr>
      else \<lparr>fs_dir = (\<lambda>d. if d = ''policies'' then Some [(''db.SecretPolicy.yaml'', False)] else None),
            fs_file = (\<lambda>f. if f = ''policies/db.SecretPolicy.yaml'' then Some ''overlay'' else None)\<rparr>)"

definition example_request :: policy_request where
  "example_request = \<lparr>rq_kind = ''user'', rq_subject = ''u1'', rq_teams = [], rq_env = ''prod-eu'', rq_key = ''DB_URL''\<rparr>"

lemma example_load:
  "case loadPolicyTiersStrict example_quote example_decoder (\<lambda>_. None) example_fs [''/stack''] ''/repo'' of
     Inr t \<Rightarrow> policy_Validate t = None \<and> ti_intent t \<noteq> [] \<and> dc_rules (hd (ti_intent t)) \<noteq> [] \<and>
       rl_effect (hd (dc_rules (hd (ti_intent t)))) = EffectAllow \<and>
       grants (\<lambda>_ _. True) (hd (dc_rules (hd (ti_intent t)))) example_request
   | Inl _ \<Rightarrow> False"
  by code_simp

theorem overlays_only_narrow_witness:
  "\<exists>tiers. loadPolicyTiersStrict example_quote example_decoder (\<lambda>_. None) example_fs [''/stack''] ''/repo'' = Inr tiers \<and>
     (\<exists>d \<in> set (ti_composition tiers @ ti_stack tiers). \<exists>h \<in> set (dc_rules d).
        rl_effect h = EffectAllow \<and> grants (\<lambda>_ _. True) h example_request)"
proof -
  obtain t where t: "loadPolicyTiersStrict example_quote example_decoder (\<lambda>_. None) example_fs [''/stack''] ''/repo'' = Inr t"
    "policy_Validate t = None" "ti_intent t \<noteq> []" "dc_rules (hd (ti_intent t)) \<noteq> []"
    "rl_effect (hd (dc_rules (hd (ti_intent t)))) = EffectAllow"
    "grants (\<lambda>_ _. True) (hd (dc_rules (hd (ti_intent t)))) example_request"
    using example_load by (auto split: sum.splits)
  have "\<forall>root \<in> set (stackRoots [''/stack'']). \<forall>typ \<in> set (composition_types (example_fs root)). plain_name example_quote typ"
    by code_simp
  from overlays_only_narrow[OF go_quoting_example this t(1,2) hd_in_set[OF t(3)] hd_in_set[OF t(4)] t(5,6)] t(1)
  show ?thesis by blast
qed

lemma example_fragment:
  "case LoadStackRoot example_quote example_decoder (\<lambda>_. None) (example_fs ''/stack'') of
     Inr (composition, stack) \<Rightarrow> map dc_source composition = [''composition:web''] | Inl _ \<Rightarrow> False"
  by code_simp

lemma case_Inr_pair: "(case x of Inr (a, b) \<Rightarrow> P a b | Inl _ \<Rightarrow> False) \<Longrightarrow> \<exists>a b. x = Inr (a, b) \<and> P a b"
  by (cases x) auto

theorem fragments_are_scoped_witness:
  "\<exists>d :: policy_document. \<exists>typ \<in> set (composition_types (example_fs ''/stack'')). dc_source d = ''composition:'' @ typ \<and> dc_source d = ''composition:web'' \<and>
    (\<forall>r \<in> set (dc_rules d). \<exists>p \<in> set (rl_when r). names_type p)"
proof -
  obtain cs where cs: "LoadStackRoot example_quote example_decoder (\<lambda>_. None) (example_fs ''/stack'') = Inr cs"
    "map dc_source (fst cs) = [''composition:web'']"
    using case_Inr_pair[OF example_fragment] by (metis fst_conv)
  then obtain d where d: "d \<in> set (fst cs)" "dc_source d = ''composition:web''" by (cases "fst cs") auto
  have "LoadStackRoot example_quote example_decoder (\<lambda>_. None) (example_fs ''/stack'') = Inr (fst cs, snd cs)" using cs by simp
  from fragments_are_scoped[OF this d(1)] obtain c where "c \<in> set (composition_types (example_fs ''/stack''))"
    "dc_source d = ''composition:'' @ c" "\<forall>r \<in> set (dc_rules d). \<exists>p \<in> set (rl_when r). names_type p" by blast
  with d(2) show ?thesis by (intro exI[of _ d] bexI[of _ c] conjI)
qed

end
