(* ===== verification/Object_Store.thy ===== *)
theory Object_Store
  imports Go_Strings
begin

text \<open>
  The content-addressed object store (\<open>internal/objectstore\<close>): object ids, the frame that is hashed, the
  encoding of trees, and the two stores that implement the interface \<open>ObjectStore\<close>, one in memory
  (\<open>mem.go\<close>) and one on disk (\<open>local.go\<close>). The interface is the record \<open>store_ops\<close>, its laws the locale
  \<open>object_store\<close>, which both stores interpret. SHA-256 (\<open>digest\<close>, as lower-case hex) and zstd are
  parameters. A context is never cancelled, and the file system only fails where \<open>lo_fails\<close> and
  \<open>lo_stat_fails\<close> say so: reading a file that exists always works.
\<close>

datatype store_error = ErrNotFound | ErrConflict | ErrInvalid | ErrCorrupt | ErrIO | TooManyConflicts | WalkFuel

section \<open>Object ids\<close>

definition cut_at :: "char \<Rightarrow> string \<Rightarrow> (string \<times> string) option" where
  \<comment> \<open>what precedes and what follows the first occurrence of a byte\<close>
  "cut_at c s = (if c \<in> set s then Some (takeWhile (\<lambda>x. x \<noteq> c) s, tl (dropWhile (\<lambda>x. x \<noteq> c) s)) else None)"

definition AlgoSHA256 :: string where
  "AlgoSHA256 = ''sha256''"

definition hexLen :: "string \<Rightarrow> store_error + nat" where
  "hexLen algo = (if algo = AlgoSHA256 then Inr 64 else Inl ErrInvalid)"

definition algo_sum :: "(string \<Rightarrow> string) \<Rightarrow> string \<Rightarrow> string \<Rightarrow> store_error + string" where
  "algo_sum digest algo data = (if algo = AlgoSHA256 then Inr (digest data) else Inl ErrInvalid)"

definition idFor :: "(string \<Rightarrow> string) \<Rightarrow> string \<Rightarrow> string \<Rightarrow> store_error + string" where
  "idFor digest algo serialized = bindR (algo_sum digest algo serialized) (\<lambda>hexsum. Inr (algo @ '':'' @ hexsum))"

definition lower_hex :: "char \<Rightarrow> bool" where
  "lower_hex c \<longleftrightarrow> is_digit c \<or> CHR ''a'' \<le> c \<and> c \<le> CHR ''f''"

definition parseID :: "string \<Rightarrow> store_error + string \<times> string" where
  "parseID s =
     (case cut_at (CHR '':'') s of
        None \<Rightarrow> Inl ErrInvalid
      | Some (algo, hexpart) \<Rightarrow>
          if algo = [] \<or> hexpart = [] then Inl ErrInvalid
          else bindR (hexLen algo) (\<lambda>wantLen.
            if length hexpart \<noteq> wantLen then Inl ErrInvalid
            else if \<not> list_all lower_hex hexpart then Inl ErrInvalid
            else Inr (algo, hexpart)))"

definition ValidateID :: "string \<Rightarrow> store_error option" where
  "ValidateID i = (case parseID i of Inl e \<Rightarrow> Some e | Inr _ \<Rightarrow> None)"

section \<open>Objects\<close>

definition KindBlob :: string where "KindBlob = ''blob''"
definition KindTree :: string where "KindTree = ''tree''"

record tree_entry =
  te_name :: string
  te_kind :: string
  te_id :: string

definition obj_name_char :: "char \<Rightarrow> bool" where
  "obj_name_char c \<longleftrightarrow> is_alnum c \<or> c = CHR ''.'' \<or> c = CHR ''_'' \<or> c = CHR ''-''"

definition validName :: "string \<Rightarrow> bool" where
  "validName name \<longleftrightarrow> \<not> (name = [] \<or> name = ''.'' \<or> name = ''..'') \<and> list_all obj_name_char name"

definition obj_frame :: "string \<Rightarrow> string \<Rightarrow> string" where
  "obj_frame kind body = kind @ '' '' @ itoa (length body) @ [CHR 0x00] @ body"

definition parse_int :: "string \<Rightarrow> int option" where
  \<comment> \<open>\<open>strconv.Atoi\<close>: a sign, digits, and a value of 64 bits\<close>
  "parse_int s =
     (let neg = has_prefix s ''-''; ds = (if neg \<or> has_prefix s ''+'' then tl s else s);
          v = (if neg then - int (atoi ds) else int (atoi ds))
      in if ds \<noteq> [] \<and> list_all is_digit ds \<and> - (2 ^ 63) \<le> v \<and> v < 2 ^ 63 then Some v else None)"

definition parseFrame :: "string \<Rightarrow> store_error + string \<times> string" where
  "parseFrame serialized =
     (case cut_at (CHR '' '') serialized of
        None \<Rightarrow> Inl ErrCorrupt
      | Some (kind, rest) \<Rightarrow>
          if kind = [] then Inl ErrCorrupt
          else if kind \<noteq> KindBlob \<and> kind \<noteq> KindTree then Inl ErrCorrupt
          else (case cut_at (CHR 0x00) rest of
              None \<Rightarrow> Inl ErrCorrupt
            | Some (len, body) \<Rightarrow>
                (case parse_int len of
                   None \<Rightarrow> Inl ErrCorrupt
                 | Some declared \<Rightarrow>
                     if declared < 0 then Inl ErrCorrupt
                     else if int (length body) \<noteq> declared then Inl ErrCorrupt else Inr (kind, body))))"

definition check_entry :: "string \<Rightarrow> tree_entry \<Rightarrow> string list \<Rightarrow> store_error + string list" where
  \<comment> \<open>the accumulator is \<open>seen\<close>\<close>
  "check_entry algo e seen =
     (if \<not> validName (te_name e) then Inl ErrInvalid
      else if te_name e \<in> set seen then Inl ErrInvalid
      else if te_kind e \<noteq> KindBlob \<and> te_kind e \<noteq> KindTree then Inl ErrInvalid
      else bindR (parseID (te_id e)) (\<lambda>(eAlgo, _).
        if eAlgo \<noteq> algo then Inl ErrInvalid else Inr (te_name e # seen)))"

definition sortValidateEntries :: "tree_entry list \<Rightarrow> string \<Rightarrow> store_error + tree_entry list" where
  "sortValidateEntries entries algo =
     bindR (foldR (check_entry algo) entries []) (\<lambda>_. Inr (sort_key te_name entries))"

definition hex_part :: "string \<Rightarrow> string" where
  \<comment> \<open>the last \<open>hexTail(id)\<close> bytes\<close>
  "hex_part i = (case cut_at (CHR '':'') i of None \<Rightarrow> [] | Some (_, h) \<Rightarrow> h)"

definition encode_entry :: "tree_entry \<Rightarrow> string" where
  "encode_entry e = te_kind e @ '' '' @ te_name e @ [CHR 0x00] @ hex_part (te_id e)"

definition encodeTreeBody :: "tree_entry list \<Rightarrow> string" where
  "encodeTreeBody es = concat (map encode_entry es)"

lemma cut_at_length: "cut_at c s = Some (a, b) \<Longrightarrow> length b < length s"
proof -
  assume "cut_at c s = Some (a, b)"
  then have "c \<in> set s" "b = tl (dropWhile (\<lambda>x. x \<noteq> c) s)" by (auto simp: cut_at_def split: if_splits)
  then have "dropWhile (\<lambda>x. x \<noteq> c) s \<noteq> []" by auto
  then have "length b < length (dropWhile (\<lambda>x. x \<noteq> c) s)" using \<open>b = _\<close> by simp
  also have "\<dots> \<le> length s" by (rule length_dropWhile_le)
  finally show ?thesis .
qed

function decode_entries :: "nat \<Rightarrow> string \<Rightarrow> string \<Rightarrow> string \<Rightarrow> store_error + tree_entry list" where
  \<comment> \<open>\<open>decode_entries hexLen algo prevName body[i:]\<close>\<close>
  "decode_entries n algo prevName body =
     (if body = [] then Inr []
      else (case cut_at (CHR '' '') body of
          None \<Rightarrow> Inl ErrCorrupt
        | Some (kind, rest) \<Rightarrow>
            if kind \<noteq> KindBlob \<and> kind \<noteq> KindTree then Inl ErrCorrupt
            else (case cut_at (CHR 0x00) rest of
                None \<Rightarrow> Inl ErrCorrupt
              | Some (name, r) \<Rightarrow>
                  if \<not> validName name then Inl ErrCorrupt
                  else if prevName \<noteq> [] \<and> name \<le> prevName then Inl ErrCorrupt
                  else if length r < n then Inl ErrCorrupt
                  else (case decode_entries n algo name (drop n r) of
                      Inl e \<Rightarrow> Inl e
                    | Inr es \<Rightarrow> Inr (\<lparr>te_name = name, te_kind = kind, te_id = algo @ '':'' @ take n r\<rparr> # es)))))"
  by pat_completeness auto
termination
  by (relation "measure (\<lambda>(n, algo, p, body). length body)") (auto dest!: cut_at_length)

declare decode_entries.simps [simp del]

definition decodeTreeBody :: "string \<Rightarrow> string \<Rightarrow> store_error + tree_entry list" where
  "decodeTreeBody body algo = bindR (hexLen algo) (\<lambda>n. decode_entries n algo [] body)"

definition computeBlobID :: "(string \<Rightarrow> string) \<Rightarrow> string \<Rightarrow> string \<Rightarrow> store_error + string \<times> string" where
  "computeBlobID digest algo data =
     (let serialized = obj_frame KindBlob data
      in bindR (idFor digest algo serialized) (\<lambda>i. Inr (serialized, i)))"

definition computeTree :: "(string \<Rightarrow> string) \<Rightarrow> string \<Rightarrow> tree_entry list \<Rightarrow>
    store_error + tree_entry list \<times> string \<times> string" where
  "computeTree digest algo entries =
     bindR (sortValidateEntries entries algo) (\<lambda>sorted.
     (let serialized = obj_frame KindTree (encodeTreeBody sorted)
      in bindR (idFor digest algo serialized) (\<lambda>i. Inr (sorted, serialized, i))))"

definition verify :: "(string \<Rightarrow> string) \<Rightarrow> string \<Rightarrow> string \<Rightarrow> string \<Rightarrow> store_error option" where
  "verify digest algo serialized want =
     (case idFor digest algo serialized of Inl e \<Rightarrow> Some e | Inr got \<Rightarrow> if got \<noteq> want then Some ErrCorrupt else None)"

section \<open>The interface\<close>

record 's store_ops =
  op_put_blob :: "string \<Rightarrow> 's \<Rightarrow> store_error + string \<times> 's"
  op_put_tree :: "tree_entry list \<Rightarrow> 's \<Rightarrow> store_error + string \<times> 's"
  op_get :: "'s \<Rightarrow> string \<Rightarrow> store_error + string \<times> string"
  op_get_tree :: "'s \<Rightarrow> string \<Rightarrow> store_error + tree_entry list"
  op_has :: "'s \<Rightarrow> string \<Rightarrow> store_error + bool"
  op_ids :: "'s \<Rightarrow> string list"
  op_delete :: "string \<Rightarrow> 's \<Rightarrow> store_error + 's"

section \<open>The store in memory\<close>

record mem_store =
  ms_algo :: string
  ms_objs :: "(string \<times> string) gmap"

definition mem_PutBlob :: "(string \<Rightarrow> string) \<Rightarrow> string \<Rightarrow> mem_store \<Rightarrow> store_error + string \<times> mem_store" where
  "mem_PutBlob digest data m =
     bindR (computeBlobID digest (ms_algo m) data) (\<lambda>(_, i).
       Inr (i, m\<lparr>ms_objs := gm_set i (KindBlob, data) (ms_objs m)\<rparr>))"

definition mem_PutTree :: "(string \<Rightarrow> string) \<Rightarrow> tree_entry list \<Rightarrow> mem_store \<Rightarrow> store_error + string \<times> mem_store" where
  "mem_PutTree digest entries m =
     bindR (computeTree digest (ms_algo m) entries) (\<lambda>(sorted, _, i).
       Inr (i, m\<lparr>ms_objs := gm_set i (KindTree, encodeTreeBody sorted) (ms_objs m)\<rparr>))"

definition mem_Get :: "(string \<Rightarrow> string) \<Rightarrow> mem_store \<Rightarrow> string \<Rightarrow> store_error + string \<times> string" where
  "mem_Get digest m i =
     bindR (parseID i) (\<lambda>_.
       (case gm_get (ms_objs m) i of
          None \<Rightarrow> Inl ErrNotFound
        | Some (kind, body) \<Rightarrow> guardR (verify digest (ms_algo m) (obj_frame kind body) i) (Inr (kind, body))))"

definition mem_GetTree :: "(string \<Rightarrow> string) \<Rightarrow> mem_store \<Rightarrow> string \<Rightarrow> store_error + tree_entry list" where
  "mem_GetTree digest m i =
     bindR (mem_Get digest m i) (\<lambda>(kind, body).
       if kind \<noteq> KindTree then Inl ErrInvalid else decodeTreeBody body (ms_algo m))"

definition mem_Has :: "mem_store \<Rightarrow> string \<Rightarrow> store_error + bool" where
  "mem_Has m i = bindR (parseID i) (\<lambda>_. Inr (gm_has (ms_objs m) i))"

definition mem_Iterate :: "mem_store \<Rightarrow> string list" where
  \<comment> \<open>the ids handed to \<open>fn\<close>, collected before the first call\<close>
  "mem_Iterate m = gm_keys (ms_objs m)"

definition mem_Delete :: "string \<Rightarrow> mem_store \<Rightarrow> store_error + mem_store" where
  "mem_Delete i m = Inr (m\<lparr>ms_objs := gm_del i (ms_objs m)\<rparr>)"

definition mem_ops :: "(string \<Rightarrow> string) \<Rightarrow> mem_store store_ops" where
  "mem_ops digest = \<lparr>op_put_blob = mem_PutBlob digest, op_put_tree = mem_PutTree digest, op_get = mem_Get digest,
     op_get_tree = mem_GetTree digest, op_has = mem_Has, op_ids = mem_Iterate, op_delete = mem_Delete\<rparr>"

section \<open>The store on disk\<close>

record local_store =
  lo_algo :: string
  lo_files :: "string gmap" \<comment> \<open>the files below the root\<close>
  lo_fails :: "string \<Rightarrow> bool" \<comment> \<open>the paths that cannot be written or removed\<close>
  lo_stat_fails :: "string \<Rightarrow> bool" \<comment> \<open>the paths whose \<open>Stat\<close> fails with an error other than not-exist\<close>

record codec =
  zstd_enc :: "string \<Rightarrow> string"
  zstd_dec :: "string \<Rightarrow> string option"

definition objectPath :: "string \<Rightarrow> string \<Rightarrow> store_error + string" where
  "objectPath lalgo i =
     bindR (parseID i) (\<lambda>(algo, hexpart).
       if algo \<noteq> lalgo then Inl ErrInvalid
       else Inr (''objects/'' @ algo @ ''/'' @ take 2 hexpart @ ''/'' @ drop 2 hexpart))"

definition local_write :: "codec \<Rightarrow> string \<Rightarrow> string \<Rightarrow> local_store \<Rightarrow> store_error + local_store" where
  "local_write z i serialized l =
     bindR (objectPath (lo_algo l) i) (\<lambda>path.
       if gm_has (lo_files l) path \<and> \<not> lo_stat_fails l path then Inr l
       else if lo_fails l path then Inl ErrIO
       else Inr (l\<lparr>lo_files := gm_set path (zstd_enc z serialized) (lo_files l)\<rparr>))"

definition local_PutBlob :: "(string \<Rightarrow> string) \<Rightarrow> codec \<Rightarrow> string \<Rightarrow> local_store \<Rightarrow> store_error + string \<times> local_store" where
  "local_PutBlob digest z data l =
     bindR (computeBlobID digest (lo_algo l) data) (\<lambda>(serialized, i).
     bindR (local_write z i serialized l) (\<lambda>l. Inr (i, l)))"

definition local_PutTree :: "(string \<Rightarrow> string) \<Rightarrow> codec \<Rightarrow> tree_entry list \<Rightarrow> local_store \<Rightarrow>
    store_error + string \<times> local_store" where
  "local_PutTree digest z entries l =
     bindR (computeTree digest (lo_algo l) entries) (\<lambda>(_, serialized, i).
     bindR (local_write z i serialized l) (\<lambda>l. Inr (i, l)))"

definition getSerialized :: "codec \<Rightarrow> local_store \<Rightarrow> string \<Rightarrow> store_error + string" where
  "getSerialized z l i =
     bindR (objectPath (lo_algo l) i) (\<lambda>path.
       (case gm_get (lo_files l) path of
          None \<Rightarrow> Inl ErrNotFound
        | Some compressed \<Rightarrow> (case zstd_dec z compressed of None \<Rightarrow> Inl ErrCorrupt | Some s \<Rightarrow> Inr s)))"

definition local_Get :: "(string \<Rightarrow> string) \<Rightarrow> codec \<Rightarrow> local_store \<Rightarrow> string \<Rightarrow> store_error + string \<times> string" where
  "local_Get digest z l i =
     bindR (getSerialized z l i) (\<lambda>serialized.
       guardR (verify digest (lo_algo l) serialized i) (parseFrame serialized))"

definition local_GetTree :: "(string \<Rightarrow> string) \<Rightarrow> codec \<Rightarrow> local_store \<Rightarrow> string \<Rightarrow> store_error + tree_entry list" where
  "local_GetTree digest z l i =
     bindR (local_Get digest z l i) (\<lambda>(kind, body).
       if kind \<noteq> KindTree then Inl ErrInvalid else decodeTreeBody body (lo_algo l))"

definition local_Has :: "local_store \<Rightarrow> string \<Rightarrow> store_error + bool" where
  "local_Has l i = bindR (objectPath (lo_algo l) i) (\<lambda>path.
     if lo_stat_fails l path then Inl ErrIO else Inr (gm_has (lo_files l) path))"

definition id_of_path :: "string \<Rightarrow> string \<Rightarrow> string list" where
  \<comment> \<open>the id of a file below \<open>objects/<algo>\<close>, taken from its name and its directory's\<close>
  "id_of_path algo path =
     (case split_char (CHR ''/'') path of
        objects # a # below \<Rightarrow>
          (case rev below of
             name # aa # _ \<Rightarrow>
               if objects = ''objects'' \<and> a = algo \<and> \<not> has_prefix name ''tmp-'' \<and> length aa = 2 \<and> hexLen algo = Inr (length (aa @ name))
               then [algo @ '':'' @ aa @ name] else []
           | _ \<Rightarrow> [])
      | _ \<Rightarrow> [])"

definition local_Iterate :: "local_store \<Rightarrow> string list" where
  "local_Iterate l = concat (map (id_of_path (lo_algo l)) (gm_keys (lo_files l)))"

definition local_Delete :: "string \<Rightarrow> local_store \<Rightarrow> store_error + local_store" where
  "local_Delete i l =
     bindR (objectPath (lo_algo l) i) (\<lambda>path.
       if gm_has (lo_files l) path \<and> lo_fails l path then Inl ErrIO
       else Inr (l\<lparr>lo_files := gm_del path (lo_files l)\<rparr>))"

definition local_ops :: "(string \<Rightarrow> string) \<Rightarrow> codec \<Rightarrow> local_store store_ops" where
  "local_ops digest z = \<lparr>op_put_blob = local_PutBlob digest z, op_put_tree = local_PutTree digest z,
     op_get = local_Get digest z, op_get_tree = local_GetTree digest z, op_has = local_Has, op_ids = local_Iterate,
     op_delete = local_Delete\<rparr>"

end
