(* ===== verification/Object_Laws.thy ===== *)
theory Object_Laws
  imports Object_Store
begin

text \<open>
  The laws of the object store: frames and trees can be read back, and both stores satisfy the contract
  \<open>object_store\<close> - what is stored hashes to its id, and deleting one object leaves the others.
\<close>

section \<open>Cutting\<close>

lemma cut_at_append: "c \<notin> set a \<Longrightarrow> cut_at c (a @ c # b) = Some (a, b)"
  by (induction a) (auto simp: cut_at_def)

lemma cut_at_Some: "cut_at c s = Some (a, b) \<longleftrightarrow> s = a @ c # b \<and> c \<notin> set a"
proof
  assume s: "cut_at c s = Some (a, b)"
  then have c: "c \<in> set s" "a = takeWhile (\<lambda>x. x \<noteq> c) s" "b = tl (dropWhile (\<lambda>x. x \<noteq> c) s)"
    by (auto simp: cut_at_def split: if_splits)
  have "dropWhile (\<lambda>x. x \<noteq> c) s \<noteq> []" using c(1) by auto
  then have "dropWhile (\<lambda>x. x \<noteq> c) s = c # b" using hd_dropWhile[of "\<lambda>x. x \<noteq> c" s] c(3) by (metis list.collapse)
  then have "s = a @ c # b" using takeWhile_dropWhile_id[of "\<lambda>x. x \<noteq> c" s] c(2) by metis
  moreover have "c \<notin> set a" using c(2) by (auto dest: set_takeWhileD)
  ultimately show "s = a @ c # b \<and> c \<notin> set a" by blast
qed (auto intro: cut_at_append)

section \<open>Ids\<close>

lemma parseID_iff:
  "parseID i = Inr (algo, h) \<longleftrightarrow> algo = AlgoSHA256 \<and> i = AlgoSHA256 @ '':'' @ h \<and> length h = 64 \<and> list_all lower_hex h"
proof
  assume "parseID i = Inr (algo, h)"
  then show "algo = AlgoSHA256 \<and> i = AlgoSHA256 @ '':'' @ h \<and> length h = 64 \<and> list_all lower_hex h"
    by (auto simp: parseID_def hexLen_def cut_at_Some res_elims split: option.splits if_splits)
next
  assume r: "algo = AlgoSHA256 \<and> i = AlgoSHA256 @ '':'' @ h \<and> length h = 64 \<and> list_all lower_hex h"
  then have "cut_at (CHR '':'') i = Some (AlgoSHA256, h)" by (auto simp: cut_at_Some AlgoSHA256_def)
  then show "parseID i = Inr (algo, h)" using r by (auto simp: parseID_def hexLen_def) (auto simp: AlgoSHA256_def)
qed

definition good_digest :: "(string \<Rightarrow> string) \<Rightarrow> bool" where
  \<comment> \<open>the shape of a digest in lower-case hex\<close>
  "good_digest digest \<longleftrightarrow> (\<forall>b. length (digest b) = 64 \<and> list_all lower_hex (digest b))"

lemma idFor_iff: "idFor digest algo s = Inr i \<longleftrightarrow> algo = AlgoSHA256 \<and> i = AlgoSHA256 @ '':'' @ digest s"
  by (auto simp: idFor_def algo_sum_def)

lemma parseID_idFor: "good_digest digest \<Longrightarrow> idFor digest algo s = Inr i \<Longrightarrow> parseID i = Inr (AlgoSHA256, digest s)"
  by (auto simp: idFor_iff parseID_iff good_digest_def)

section \<open>Frames\<close>

lemma itoa_free: "\<not> is_digit c \<Longrightarrow> c \<notin> set (itoa n)"
  using itoa_digits by blast

lemma parse_int_itoa: "n < 2 ^ 63 \<Longrightarrow> parse_int (itoa n) = Some (int n)"
proof -
  assume n: "n < 2 ^ 63"
  have "\<not> is_digit (CHR ''-'')" "\<not> is_digit (CHR ''+'')" by (simp_all add: is_digit_def)
  then have "hd (itoa n) \<noteq> CHR ''-''" "hd (itoa n) \<noteq> CHR ''+''" using itoa_digits[of "hd (itoa n)" n] by auto
  then have "\<not> has_prefix (itoa n) ''-''" "\<not> has_prefix (itoa n) ''+''"
    by (cases "itoa n"; simp add: has_prefix_def)+
  moreover have "int n < 2 ^ 63" using n by (metis of_nat_less_iff of_nat_numeral of_nat_power)
  ultimately show ?thesis using itoa_digits by (auto simp: parse_int_def Let_def list_all_iff)
qed

definition object_kind :: "string \<Rightarrow> bool" where
  "object_kind k \<longleftrightarrow> k = KindBlob \<or> k = KindTree"

lemma object_kind_free: "object_kind k \<Longrightarrow> k \<noteq> [] \<and> CHR '' '' \<notin> set k"
  by (auto simp: object_kind_def KindBlob_def KindTree_def)

lemma parseFrame_frame:
  assumes "object_kind kind" "length body < 2 ^ 63"
  shows "parseFrame (obj_frame kind body) = Inr (kind, body)"
proof -
  have "cut_at (CHR '' '') (obj_frame kind body) = Some (kind, itoa (length body) @ CHR 0x00 # body)"
    unfolding cut_at_Some obj_frame_def using object_kind_free[OF assms(1)] by simp
  moreover have "\<not> is_digit (CHR 0x00)" by (simp add: is_digit_def)
  then have "cut_at (CHR 0x00) (itoa (length body) @ CHR 0x00 # body) = Some (itoa (length body), body)"
    by (intro cut_at_append itoa_free)
  ultimately show ?thesis
    using object_kind_free[OF assms(1)] assms(1) parse_int_itoa[OF assms(2)]
    by (auto simp: parseFrame_def object_kind_def)
qed

lemma parseFrame_Inr:
  "parseFrame s = Inr (kind, body) \<Longrightarrow> object_kind kind"
  by (auto simp: parseFrame_def object_kind_def split: option.splits if_splits)

section \<open>Trees\<close>

definition good_entry :: "tree_entry \<Rightarrow> bool" where
  "good_entry e \<longleftrightarrow> validName (te_name e) \<and> object_kind (te_kind e) \<and> (\<exists>h. parseID (te_id e) = Inr (AlgoSHA256, h))"

definition tree_ok :: "tree_entry list \<Rightarrow> bool" where
  "tree_ok es \<longleftrightarrow> list_all good_entry es \<and> sorted (map te_name es) \<and> distinct (map te_name es)"

lemma name_free: "validName n \<Longrightarrow> n \<noteq> [] \<and> CHR 0x00 \<notin> set n \<and> CHR '' '' \<notin> set n"
  by (auto simp: validName_def list_all_iff obj_name_char_def is_alnum_def is_alpha_def is_digit_def is_upper_def is_lower_def)

lemma decode_encode_from:
  "list_all good_entry es \<Longrightarrow> sorted (map te_name es) \<Longrightarrow> distinct (map te_name es) \<Longrightarrow>
     (prev = [] \<or> (\<forall>e \<in> set es. prev < te_name e)) \<Longrightarrow>
     decode_entries 64 AlgoSHA256 prev (encodeTreeBody es) = Inr es"
proof (induction es arbitrary: prev)
  case Nil
  then show ?case by (simp add: encodeTreeBody_def decode_entries.simps)
next
  case (Cons e es)
  obtain h where h: "te_id e = AlgoSHA256 @ '':'' @ h" "length h = 64"
    using Cons.prems(1) by (auto simp: good_entry_def parseID_iff)
  have n: "validName (te_name e)" and k: "object_kind (te_kind e)" using Cons.prems(1) by (auto simp: good_entry_def)
  have hp: "hex_part (te_id e) = h"
    unfolding hex_part_def h(1) using cut_at_append[of "CHR '':''" AlgoSHA256 h] by (simp add: AlgoSHA256_def)
  have body: "encodeTreeBody (e # es) = te_kind e @ CHR '' '' # te_name e @ CHR 0x00 # h @ encodeTreeBody es"
    by (simp add: encodeTreeBody_def encode_entry_def hp)
  have c1: "cut_at (CHR '' '') (encodeTreeBody (e # es)) = Some (te_kind e, te_name e @ CHR 0x00 # h @ encodeTreeBody es)"
    unfolding body using object_kind_free[OF k] by (intro cut_at_append) simp
  have c2: "cut_at (CHR 0x00) (te_name e @ CHR 0x00 # h @ encodeTreeBody es) = Some (te_name e, h @ encodeTreeBody es)"
    using name_free[OF n] by (intro cut_at_append) simp
  have "\<forall>x \<in> set es. te_name e < te_name x" using Cons.prems(2,3) by (auto simp: order_less_le)
  then have IH: "decode_entries 64 AlgoSHA256 (te_name e) (encodeTreeBody es) = Inr es"
    using Cons.IH[of "te_name e"] Cons.prems by simp
  have "\<not> (prev \<noteq> [] \<and> te_name e \<le> prev)" using Cons.prems(4) by auto
  moreover have "encodeTreeBody (e # es) \<noteq> []" unfolding body by simp
  moreover have "\<lparr>te_name = te_name e, te_kind = te_kind e, te_id = AlgoSHA256 @ '':'' @ h\<rparr> = e" using h(1) by simp
  ultimately show ?case
    unfolding decode_entries.simps[of _ _ _ "encodeTreeBody (e # es)"] using c1 c2 k n IH h(2)
    by (simp add: object_kind_def)
qed

theorem decode_encode: "tree_ok es \<Longrightarrow> decodeTreeBody (encodeTreeBody es) AlgoSHA256 = Inr es"
  using decode_encode_from[of es "[]"] by (simp add: tree_ok_def decodeTreeBody_def hexLen_def)

lemma check_entries:
  "foldR (check_entry algo) es seen = Inr seen' \<Longrightarrow>
     (\<forall>e \<in> set es. validName (te_name e) \<and> object_kind (te_kind e) \<and> (\<exists>h. parseID (te_id e) = Inr (algo, h)) \<and>
        te_name e \<notin> set seen) \<and> distinct (map te_name es)"
proof (induction es arbitrary: seen)
  case (Cons e es)
  obtain s where s: "check_entry algo e seen = Inr s" "foldR (check_entry algo) es s = Inr seen'"
    using Cons.prems by (auto simp: res_elims)
  then have "s = te_name e # seen" "validName (te_name e)" "object_kind (te_kind e)" "\<exists>h. parseID (te_id e) = Inr (algo, h)"
    "te_name e \<notin> set seen"
    by (auto simp: check_entry_def object_kind_def res_elims split: if_splits)
  then show ?case using Cons.IH[OF s(2)] by auto
qed simp

lemma sortValidate_ok:
  assumes "sortValidateEntries entries algo = Inr es"
  shows "es = sort_key te_name entries" "distinct (map te_name entries)" "es \<noteq> [] \<Longrightarrow> algo = AlgoSHA256"
    "algo = AlgoSHA256 \<Longrightarrow> tree_ok es"
proof -
  obtain seen where f: "foldR (check_entry algo) entries [] = Inr seen" "es = sort_key te_name entries"
    using assms by (auto simp: sortValidateEntries_def res_elims)
  note c = check_entries[OF f(1)]
  show "es = sort_key te_name entries" "distinct (map te_name entries)" using f c by simp_all
  show "algo = AlgoSHA256" if "es \<noteq> []"
  proof -
    from that f(2) obtain e where "e \<in> set entries" by (metis length_sort list.set_intros(1) length_0_conv neq_Nil_conv)
    then show ?thesis using c by (auto simp: parseID_iff)
  qed
  have "distinct (map te_name es)" using c f(2) by (metis distinct_map distinct_sort set_sort)
  then show "tree_ok es" if "algo = AlgoSHA256"
    using c f(2) sorted_sort_key[of te_name entries] that by (auto simp: tree_ok_def good_entry_def list_all_iff)
qed

section \<open>The contract of a store\<close>

definition added :: "(string \<Rightarrow> string) \<Rightarrow> 's store_ops \<Rightarrow> ('s \<Rightarrow> bool) \<Rightarrow> 's \<Rightarrow> 's \<Rightarrow> string \<Rightarrow> string \<Rightarrow> string \<Rightarrow> bool" where
  \<comment> \<open>the object got its content's id, and, where that was new, the store holds it and all it held\<close>
  "added digest ops valid s s' i kind body \<longleftrightarrow> idFor digest AlgoSHA256 (obj_frame kind body) = Inr i \<and>
     (i \<notin> set (op_ids ops s) \<longrightarrow> valid s' \<and> set (op_ids ops s') = insert i (set (op_ids ops s)) \<and>
        op_get ops s' i = Inr (kind, body) \<and> (\<forall>j. j \<noteq> i \<longrightarrow> op_get ops s' j = op_get ops s j))"

locale object_store =
  fixes digest :: "string \<Rightarrow> string" and ops :: "'s store_ops" and valid :: "'s \<Rightarrow> bool"
  assumes delete_valid: "valid s \<Longrightarrow> op_delete ops i s = Inr s' \<Longrightarrow> valid s'"
    and delete_other: "valid s \<Longrightarrow> op_delete ops i s = Inr s' \<Longrightarrow> j \<noteq> i \<Longrightarrow> op_get ops s' j = op_get ops s j"
    and delete_ids: "valid s \<Longrightarrow> op_delete ops i s = Inr s' \<Longrightarrow> set (op_ids ops s') = set (op_ids ops s) - {i}"
    and has_ids: "valid s \<Longrightarrow> op_has ops s i = Inr has \<Longrightarrow> has \<longleftrightarrow> i \<in> set (op_ids ops s)"
    and ids_distinct: "valid s \<Longrightarrow> distinct (op_ids ops s)"
    and get_present: "valid s \<Longrightarrow> i \<in> set (op_ids ops s) \<Longrightarrow>
      \<exists>kind body. op_get ops s i = Inr (kind, body) \<and> object_kind kind \<and> idFor digest AlgoSHA256 (obj_frame kind body) = Inr i"
    and get_absent: "valid s \<Longrightarrow> i \<notin> set (op_ids ops s) \<Longrightarrow> op_get ops s i \<in> {Inl ErrNotFound, Inl ErrInvalid}"
    and get_tree: "valid s \<Longrightarrow> op_get_tree ops s i = bindR (op_get ops s i) (\<lambda>(kind, body).
      if kind \<noteq> KindTree then Inl ErrInvalid else decodeTreeBody body AlgoSHA256)"
    and put_blob: "valid s \<Longrightarrow> op_put_blob ops data s = Inr (i, s') \<Longrightarrow> length data < 2 ^ 63 \<Longrightarrow>
      added digest ops valid s s' i KindBlob data"
    and put_tree: "valid s \<Longrightarrow> op_put_tree ops entries s = Inr (i, s') \<Longrightarrow> length (encodeTreeBody (sort_key te_name entries)) < 2 ^ 63 \<Longrightarrow>
      tree_ok (sort_key te_name entries) \<and> added digest ops valid s s' i KindTree (encodeTreeBody (sort_key te_name entries))"
    and has_error: "valid s \<Longrightarrow> op_has ops s i = Inl e \<Longrightarrow> e \<noteq> ErrIO \<Longrightarrow> i \<notin> set (op_ids ops s)"
begin

lemma get_iff: "valid s \<Longrightarrow> (\<exists>x. op_get ops s i = Inr x) \<longleftrightarrow> i \<in> set (op_ids ops s)"
  using get_present get_absent by fastforce

lemma never_corrupt: "valid s \<Longrightarrow> op_get ops s i \<noteq> Inl ErrCorrupt"
  using get_present[of s i] get_absent[of s i] by (cases "i \<in> set (op_ids ops s)") auto

end

section \<open>The store in memory keeps the contract\<close>

definition mem_valid :: "(string \<Rightarrow> string) \<Rightarrow> mem_store \<Rightarrow> bool" where
  "mem_valid digest m \<longleftrightarrow> good_digest digest \<and> ms_algo m = AlgoSHA256 \<and> gm_ok (ms_objs m) \<and>
     (\<forall>i k b. gm_get (ms_objs m) i = Some (k, b) \<longrightarrow> object_kind k \<and> idFor digest AlgoSHA256 (obj_frame k b) = Inr i)"

lemma mem_stored:
  assumes "mem_valid digest m" "gm_get (ms_objs m) i = Some (k, b)"
  shows "object_kind k" "idFor digest AlgoSHA256 (obj_frame k b) = Inr i" "\<exists>x. parseID i = Inr x" "mem_Get digest m i = Inr (k, b)"
proof -
  show k: "object_kind k" and i: "idFor digest AlgoSHA256 (obj_frame k b) = Inr i" using assms by (auto simp: mem_valid_def)
  show p: "\<exists>x. parseID i = Inr x" using parseID_idFor[OF _ i] assms(1) by (auto simp: mem_valid_def)
  have "ms_algo m = AlgoSHA256" using assms(1) by (simp add: mem_valid_def)
  then show "mem_Get digest m i = Inr (k, b)" using p i assms(2) by (auto simp: mem_Get_def verify_def)
qed

lemma mem_algo: "mem_valid digest m \<Longrightarrow> ms_algo m = AlgoSHA256"
  by (simp add: mem_valid_def)

lemma mem_added:
  assumes v: "mem_valid digest m" and k: "object_kind k" and i: "idFor digest AlgoSHA256 (obj_frame k b) = Inr i"
  shows "added digest (mem_ops digest) (mem_valid digest) m (m\<lparr>ms_objs := gm_set i (k, b) (ms_objs m)\<rparr>) i k b"
proof -
  let ?m = "m\<lparr>ms_objs := gm_set i (k, b) (ms_objs m)\<rparr>"
  have v': "mem_valid digest ?m" using assms by (auto simp: mem_valid_def gm_simps split: if_splits)
  have "mem_Get digest ?m i = Inr (k, b)" using mem_stored(4)[OF v', of i k b] by (simp add: gm_simps)
  moreover have "mem_Get digest ?m j = mem_Get digest m j" if "j \<noteq> i" for j
    using that by (auto simp: mem_Get_def gm_simps cong: option.case_cong)
  moreover have "set (mem_Iterate ?m) = insert i (set (mem_Iterate m))"
    unfolding mem_Iterate_def by (auto simp: gm_simps simp del: set_map)
  ultimately show ?thesis using v' i by (simp add: added_def mem_ops_def)
qed

interpretation mem: object_store digest "mem_ops digest" "mem_valid digest" for digest
proof (unfold_locales, goal_cases)
  case (1 s i s')
  then show ?case by (auto simp: mem_ops_def mem_Delete_def mem_valid_def gm_simps split: if_splits)
next
  case (2 s i s' j)
  then show ?case by (auto simp: mem_ops_def mem_Delete_def mem_Get_def gm_simps cong: option.case_cong)
next
  case (3 s i s')
  then show ?case by (auto simp: mem_ops_def mem_Delete_def mem_Iterate_def delete_keys simp del: set_map)
next
  case (4 s i has)
  then show ?case by (auto simp: mem_ops_def mem_Has_def mem_Iterate_def gm_has_iff res_elims simp del: set_map)
next
  case (5 s)
  then show ?case by (simp add: mem_ops_def mem_Iterate_def mem_valid_def gm_ok_def)
next
  case (6 s i)
  then obtain k b where "gm_get (ms_objs s) i = Some (k, b)"
    unfolding mem_ops_def mem_Iterate_def by (auto simp: gm_has_iff[symmetric] gm_has_def simp del: set_map)
  then show ?case using mem_stored[OF 6(1)] by (auto simp: mem_ops_def)
next
  case (7 s i)
  then have "gm_get (ms_objs s) i = None"
    unfolding mem_ops_def mem_Iterate_def
    by (cases "gm_get (ms_objs s) i") (auto simp: gm_has_iff[symmetric] gm_has_def simp del: set_map)
  then show ?case by (auto simp: mem_ops_def mem_Get_def parseID_def hexLen_def split: option.splits)
next
  case (8 s i)
  then have "mem_GetTree digest s i = bindR (mem_Get digest s i) (\<lambda>(kind, body).
      if kind \<noteq> KindTree then Inl ErrInvalid else decodeTreeBody body AlgoSHA256)"
    unfolding mem_GetTree_def by (simp only: mem_algo)
  then show ?case by (simp add: mem_ops_def)
next
  case (9 s data i s')
  then show ?case using mem_added[OF 9(1), of KindBlob data i]
    by (auto simp: mem_ops_def mem_PutBlob_def computeBlobID_def mem_algo object_kind_def Let_def res_elims)
next
  case (10 s entries i s')
  then obtain es where es: "sortValidateEntries entries AlgoSHA256 = Inr es"
    "idFor digest AlgoSHA256 (obj_frame KindTree (encodeTreeBody es)) = Inr i"
    "s' = s\<lparr>ms_objs := gm_set i (KindTree, encodeTreeBody es) (ms_objs s)\<rparr>"
    by (auto simp: mem_ops_def mem_PutTree_def computeTree_def mem_algo Let_def res_elims)
  then show ?case using sortValidate_ok[OF es(1)] mem_added[OF 10(1) _ es(2)] by (simp add: object_kind_def)
next
  case (11 s i e)
  have "gm_has (ms_objs s) i \<Longrightarrow> \<exists>x. parseID i = Inr x"
    using mem_stored(3)[OF 11(1)] by (auto simp: gm_has_def)
  then show ?case using 11(2)
    by (cases "parseID i") (auto simp: mem_ops_def mem_Has_def mem_Iterate_def gm_has_iff simp del: set_map)
qed

section \<open>The store on disk keeps the contract\<close>

definition good_codec :: "codec \<Rightarrow> bool" where
  \<comment> \<open>decompression undoes compression\<close>
  "good_codec z \<longleftrightarrow> (\<forall>s. zstd_dec z (zstd_enc z s) = Some s)"

definition stored_as :: "(string \<Rightarrow> string) \<Rightarrow> codec \<Rightarrow> string \<Rightarrow> string \<Rightarrow> string \<Rightarrow> string \<Rightarrow> bool" where
  \<comment> \<open>the file holds this object\<close>
  "stored_as digest z c i kind body \<longleftrightarrow> object_kind kind \<and> zstd_dec z c = Some (obj_frame kind body) \<and>
     parseFrame (obj_frame kind body) = Inr (kind, body) \<and> idFor digest AlgoSHA256 (obj_frame kind body) = Inr i"

definition local_valid :: "(string \<Rightarrow> string) \<Rightarrow> codec \<Rightarrow> local_store \<Rightarrow> bool" where
  \<comment> \<open>a file is an object at its path, or stray\<close>
  "local_valid digest z l \<longleftrightarrow> good_digest digest \<and> good_codec z \<and> lo_algo l = AlgoSHA256 \<and> gm_ok (lo_files l) \<and>
     (\<forall>p c. gm_get (lo_files l) p = Some c \<longrightarrow> id_of_path AlgoSHA256 p = [] \<or>
        (\<exists>i kind body. objectPath AlgoSHA256 i = Inr p \<and> stored_as digest z c i kind body))"

lemma hex_no_slash: "lower_hex c \<Longrightarrow> c \<noteq> CHR ''/'' \<and> c \<noteq> CHR ''t''"
  by (auto simp: lower_hex_def is_digit_def)

lemma objectPath_iff:
  "objectPath AlgoSHA256 i = Inr p \<longleftrightarrow> (\<exists>h. i = AlgoSHA256 @ '':'' @ h \<and> length h = 64 \<and> list_all lower_hex h \<and>
     p = ''objects/'' @ AlgoSHA256 @ ''/'' @ take 2 h @ ''/'' @ drop 2 h)"
  by (auto simp: objectPath_def parseID_iff res_elims)

lemma id_of_objectPath:
  assumes "objectPath AlgoSHA256 i = Inr p"
  shows "id_of_path AlgoSHA256 p = [i]"
proof -
  obtain h where h: "i = AlgoSHA256 @ '':'' @ h" "length h = 64" "list_all lower_hex h"
    "p = ''objects/'' @ AlgoSHA256 @ ''/'' @ take 2 h @ ''/'' @ drop 2 h"
    using assms by (auto simp: objectPath_iff)
  have free: "CHR ''/'' \<notin> set h" using h(3) hex_no_slash by (auto simp: list_all_iff)
  then have f: "CHR ''/'' \<notin> set (take 2 h)" "CHR ''/'' \<notin> set (drop 2 h)" by (auto dest: in_set_takeD in_set_dropD)
  have p: "p = ''objects'' @ CHR ''/'' # (AlgoSHA256 @ CHR ''/'' # (take 2 h @ CHR ''/'' # drop 2 h))" by (simp add: h(4))
  have "split_char (CHR ''/'') p = [''objects'', AlgoSHA256, take 2 h, drop 2 h]"
    unfolding p using f by (simp only: split_char_append split_char_free simp_thms list.set AlgoSHA256_def) (simp add: split_char_append)
  moreover have "\<not> has_prefix (drop 2 h) ''tmp-''"
  proof
    assume "has_prefix (drop 2 h) ''tmp-''"
    then have "CHR ''t'' \<in> set (drop 2 h)" by (auto simp: has_prefix_iff)
    then show False using h(3) hex_no_slash by (auto simp: list_all_iff dest: in_set_dropD)
  qed
  ultimately show ?thesis using h(1,2) by (simp add: id_of_path_def hexLen_def)
qed

lemma objectPath_inj: "objectPath AlgoSHA256 i = Inr p \<Longrightarrow> objectPath AlgoSHA256 j = Inr p \<Longrightarrow> i = j"
proof -
  assume "objectPath AlgoSHA256 i = Inr p" "objectPath AlgoSHA256 j = Inr p"
  from this[THEN id_of_objectPath] show "i = j" by simp
qed

lemma local_ids:
  assumes "local_valid digest z l"
  shows "i \<in> set (local_Iterate l) \<longleftrightarrow> (\<exists>p. objectPath AlgoSHA256 i = Inr p \<and> gm_has (lo_files l) p)"
proof
  assume "i \<in> set (local_Iterate l)"
  then obtain p where p: "p \<in> set (gm_keys (lo_files l))" "i \<in> set (id_of_path AlgoSHA256 p)"
    using assms by (auto simp: local_Iterate_def local_valid_def)
  then have has: "gm_has (lo_files l) p" by (simp only: gm_has_iff)
  then obtain c where "gm_get (lo_files l) p = Some c" by (auto simp: gm_has_def)
  then obtain i' where i': "objectPath AlgoSHA256 i' = Inr p" using assms p(2) unfolding local_valid_def by (metis empty_iff empty_set)
  then have "i' = i" using id_of_objectPath p(2) by simp
  then show "\<exists>p. objectPath AlgoSHA256 i = Inr p \<and> gm_has (lo_files l) p" using i' has by blast
next
  assume "\<exists>p. objectPath AlgoSHA256 i = Inr p \<and> gm_has (lo_files l) p"
  then obtain p where p: "objectPath AlgoSHA256 i = Inr p" "p \<in> set (gm_keys (lo_files l))" by (auto simp: gm_has_iff simp del: set_map)
  then have "i \<in> set (id_of_path (lo_algo l) p)" using id_of_objectPath assms by (simp add: local_valid_def)
  then show "i \<in> set (local_Iterate l)" using p(2) by (auto simp: local_Iterate_def)
qed

lemma local_stored:
  assumes "local_valid digest z l" "objectPath AlgoSHA256 i = Inr p" "gm_get (lo_files l) p = Some c"
  shows "\<exists>kind body. stored_as digest z c i kind body \<and> local_Get digest z l i = Inr (kind, body)"
proof -
  have "id_of_path AlgoSHA256 p \<noteq> []" using id_of_objectPath[OF assms(2)] by simp
  then obtain i' kind body where s: "objectPath AlgoSHA256 i' = Inr p" "stored_as digest z c i' kind body"
    using assms(1,3) unfolding local_valid_def by blast
  then have "i' = i" using objectPath_inj assms(2) by blast
  moreover have "lo_algo l = AlgoSHA256" using assms(1) by (simp add: local_valid_def)
  ultimately show ?thesis using s(2) assms(2,3)
    by (intro exI[of _ kind] exI[of _ body]) (simp add: local_Get_def getSerialized_def stored_as_def verify_def)
qed

lemma distinct_concat_small:
  "distinct xs \<Longrightarrow> (\<And>x. x \<in> set xs \<Longrightarrow> length (f x) \<le> 1) \<Longrightarrow>
     (\<And>x y i. x \<in> set xs \<Longrightarrow> y \<in> set xs \<Longrightarrow> i \<in> set (f x) \<Longrightarrow> i \<in> set (f y) \<Longrightarrow> x = y) \<Longrightarrow> distinct (concat (map f xs))"
proof (induction xs)
  case (Cons x xs)
  have "distinct (f x)" using Cons.prems(2)[of x] by (cases "f x") auto
  moreover have "set (f x) \<inter> set (concat (map f xs)) = {}" using Cons.prems(1,3) by fastforce
  ultimately show ?case using Cons by simp
qed simp

lemma id_of_path_length: "length (id_of_path a p) \<le> 1"
  by (auto simp: id_of_path_def split: list.splits)

lemma local_algo: "local_valid digest z l \<Longrightarrow> lo_algo l = AlgoSHA256"
  by (simp add: local_valid_def)

lemma local_deleted:
  assumes "local_valid digest z l" "local_Delete i l = Inr l'"
  obtains p where "objectPath AlgoSHA256 i = Inr p" "l' = l\<lparr>lo_files := gm_del p (lo_files l)\<rparr>"
  using assms local_algo[OF assms(1)] by (auto simp: local_Delete_def res_elims split: if_splits)

lemma local_valid_del: "local_valid digest z l \<Longrightarrow> local_valid digest z (l\<lparr>lo_files := gm_del p (lo_files l)\<rparr>)"
  by (auto simp: local_valid_def gm_simps)

lemma local_added:
  assumes v: "local_valid digest z l" and s: "stored_as digest z (zstd_enc z (obj_frame kind body)) i kind body"
    and w: "local_write z i (obj_frame kind body) l = Inr l'"
  shows "added digest (local_ops digest z) (local_valid digest z) l l' i kind body"
proof -
  have i: "idFor digest AlgoSHA256 (obj_frame kind body) = Inr i" using s by (simp add: stored_as_def)
  show ?thesis
  proof (cases "i \<in> set (local_Iterate l)")
    case False
    then obtain p where p: "objectPath AlgoSHA256 i = Inr p" "l' = l\<lparr>lo_files := gm_set p (zstd_enc z (obj_frame kind body)) (lo_files l)\<rparr>"
      using w local_algo[OF v] local_ids[OF v] by (auto simp: local_write_def res_elims split: if_splits)
    have "id_of_path AlgoSHA256 q = [] \<or> (\<exists>i kind body. objectPath AlgoSHA256 i = Inr q \<and> stored_as digest z c i kind body)"
      if "gm_get (lo_files l') q = Some c" for q c
    proof (cases "q = p")
      case True
      then show ?thesis using that s p by (auto simp: gm_simps)
    next
      case False
      then have "gm_get (lo_files l) q = Some c" using that p(2) by (simp add: gm_simps)
      then show ?thesis using v unfolding local_valid_def by blast
    qed
    then have v': "local_valid digest z l'" using v p(2) unfolding local_valid_def by simp
    have "set (local_Iterate l') = insert i (set (local_Iterate l))"
      using p local_ids[OF v] local_ids[OF v'] objectPath_inj by (auto simp: gm_simps)
    moreover have "local_Get digest z l' i = Inr (kind, body)"
    proof -
      have "gm_get (lo_files l') p = Some (zstd_enc z (obj_frame kind body))" using p(2) by (simp add: gm_simps)
      then show ?thesis using s p(1) local_algo[OF v']
        by (simp add: local_Get_def getSerialized_def stored_as_def verify_def)
    qed
    moreover have "local_Get digest z l' j = local_Get digest z l j" if "j \<noteq> i" for j
    proof -
      have "objectPath AlgoSHA256 j \<noteq> Inr p" using objectPath_inj[OF p(1)] that by blast
      then have "getSerialized z l' j = getSerialized z l j"
        using p(2) local_algo[OF v] by (cases "objectPath AlgoSHA256 j") (auto simp: getSerialized_def gm_simps)
      then show ?thesis using p(2) by (simp add: local_Get_def)
    qed
    ultimately show ?thesis using v' i by (simp add: added_def local_ops_def)
  qed (simp add: added_def i local_ops_def)
qed

interpretation loc: object_store digest "local_ops digest z" "local_valid digest z" for digest z
proof (unfold_locales, goal_cases)
  case (1 s i s')
  then obtain p where "s' = s\<lparr>lo_files := gm_del p (lo_files s)\<rparr>" by (auto simp: local_ops_def elim: local_deleted)
  then show ?case using local_valid_del[OF 1(1)] by simp
next
  case (2 s i s' j)
  then obtain p where p: "objectPath AlgoSHA256 i = Inr p" "s' = s\<lparr>lo_files := gm_del p (lo_files s)\<rparr>"
    by (auto simp: local_ops_def elim: local_deleted)
  have "objectPath AlgoSHA256 j \<noteq> Inr p" using objectPath_inj[OF p(1)] 2(3) by blast
  then have "getSerialized z s' j = getSerialized z s j"
    using p(2) local_algo[OF 2(1)] by (cases "objectPath AlgoSHA256 j") (auto simp: getSerialized_def gm_simps)
  then show ?case using p(2) by (simp add: local_ops_def local_Get_def)
next
  case (3 s i s')
  then obtain p where p: "objectPath AlgoSHA256 i = Inr p" "s' = s\<lparr>lo_files := gm_del p (lo_files s)\<rparr>"
    by (auto simp: local_ops_def elim: local_deleted)
  have v: "local_valid digest z s'" using 3 p(2) by (simp add: local_valid_del)
  have "j \<in> set (local_Iterate s') \<longleftrightarrow> j \<in> set (local_Iterate s) - {i}" for j
    unfolding local_ids[OF v] Diff_iff local_ids[OF 3(1)] using p objectPath_inj[OF p(1), of j]
    by (cases "objectPath AlgoSHA256 j") (auto simp: gm_has_def gm_simps)
  then show ?case by (auto simp: local_ops_def)
next
  case (4 s i has)
  then show ?case using local_ids[OF 4(1)] local_algo[OF 4(1)]
    by (auto simp: local_ops_def local_Has_def res_elims split: if_splits)
next
  case (5 s)
  have "distinct (concat (map (id_of_path AlgoSHA256) (gm_keys (lo_files s))))"
  proof (rule distinct_concat_small)
    show "distinct (gm_keys (lo_files s))" using 5 by (simp add: local_valid_def gm_ok_def)
    fix p p' i assume a: "p \<in> set (gm_keys (lo_files s))" "p' \<in> set (gm_keys (lo_files s))"
      "i \<in> set (id_of_path AlgoSHA256 p)" "i \<in> set (id_of_path AlgoSHA256 p')"
    have "objectPath AlgoSHA256 i = Inr q" if "q \<in> set (gm_keys (lo_files s))" "i \<in> set (id_of_path AlgoSHA256 q)" for q
    proof -
      have "gm_has (lo_files s) q" using that(1) by (simp only: gm_has_iff)
      then obtain c where c: "gm_get (lo_files s) q = Some c" by (auto simp: gm_has_def)
      have "id_of_path AlgoSHA256 q \<noteq> []" using that(2) by auto
      then obtain i' where i': "objectPath AlgoSHA256 i' = Inr q" using 5 c unfolding local_valid_def by blast
      then show ?thesis using id_of_objectPath that(2) by simp
    qed
    from this[OF a(1,3)] this[OF a(2,4)] show "p = p'" by simp
  qed (rule id_of_path_length)
  then show ?case using local_algo[OF 5] by (simp add: local_ops_def local_Iterate_def)
next
  case (6 s i)
  then obtain p where p: "objectPath AlgoSHA256 i = Inr p" "gm_has (lo_files s) p" using local_ids[OF 6(1)] by (auto simp: local_ops_def)
  then obtain c where "gm_get (lo_files s) p = Some c" by (auto simp: gm_has_def)
  from local_stored[OF 6(1) p(1) this] show ?case by (auto simp: local_ops_def stored_as_def)
next
  case (7 s i)
  show ?case
  proof (cases "objectPath AlgoSHA256 i")
    case (Inl e)
    then have "e = ErrInvalid"
      by (auto simp: objectPath_def parseID_def hexLen_def bindR_Inl_iff split: option.splits if_splits)
    then show ?thesis using Inl local_algo[OF 7(1)] by (simp add: local_ops_def local_Get_def getSerialized_def)
  next
    case (Inr p)
    then have "\<not> gm_has (lo_files s) p" using 7 local_ids[OF 7(1)] by (auto simp: local_ops_def)
    then show ?thesis using Inr local_algo[OF 7(1)]
      by (cases "gm_get (lo_files s) p") (auto simp: local_ops_def local_Get_def getSerialized_def gm_has_def)
  qed
next
  case (8 s i)
  then have "local_GetTree digest z s i = bindR (local_Get digest z s i) (\<lambda>(kind, body).
      if kind \<noteq> KindTree then Inl ErrInvalid else decodeTreeBody body AlgoSHA256)"
    unfolding local_GetTree_def by (simp only: local_algo)
  then show ?case by (simp add: local_ops_def)
next
  case (9 s data i s')
  then have w: "idFor digest AlgoSHA256 (obj_frame KindBlob data) = Inr i" "local_write z i (obj_frame KindBlob data) s = Inr s'"
    by (auto simp: local_ops_def local_PutBlob_def computeBlobID_def local_algo Let_def res_elims)
  then have "stored_as digest z (zstd_enc z (obj_frame KindBlob data)) i KindBlob data"
    using 9 by (simp add: stored_as_def object_kind_def parseFrame_frame local_valid_def good_codec_def)
  then show ?case using local_added[OF 9(1) _ w(2)] by simp
next
  case (10 s entries i s')
  let ?b = "encodeTreeBody (sort_key te_name entries)"
  obtain es where es: "sortValidateEntries entries AlgoSHA256 = Inr es"
    "idFor digest AlgoSHA256 (obj_frame KindTree (encodeTreeBody es)) = Inr i"
    "local_write z i (obj_frame KindTree (encodeTreeBody es)) s = Inr s'"
    using 10 by (auto simp: local_ops_def local_PutTree_def computeTree_def local_algo Let_def res_elims)
  have e: "es = sort_key te_name entries" by (rule sortValidate_ok(1)[OF es(1)])
  have "stored_as digest z (zstd_enc z (obj_frame KindTree ?b)) i KindTree ?b"
    using 10 es(2) unfolding e by (simp add: stored_as_def object_kind_def parseFrame_frame local_valid_def good_codec_def)
  then show ?case using local_added[OF 10(1)] es(3) sortValidate_ok(4)[OF es(1)] unfolding e by blast
next
  case (11 s i e)
  then have "\<not> (\<exists>p. objectPath AlgoSHA256 i = Inr p)" using local_algo[OF 11(1)]
    by (auto simp: local_ops_def local_Has_def split: if_splits)
  then show ?case using local_ids[OF 11(1)] by (simp add: local_ops_def)
qed

end
