(* ===== verification/Object_Walk.thy ===== *)
theory Object_Walk
  imports Object_Laws
begin

text \<open>
  The shared traversal \<open>walkFrom\<close> of \<open>internal/objectstore/store.go\<close>. It recurses along the entries of trees,
  never twice into the same object, so its depth is at most the number of objects present: the fuel of
  \<open>store_Walk\<close>, one more than that, is always enough (\<open>walk_never_out_of_fuel\<close>).
\<close>

fun walk_from ::
  "nat \<Rightarrow> (string \<Rightarrow> store_error + string \<times> string) \<Rightarrow> (string \<Rightarrow> string \<Rightarrow> 'a \<Rightarrow> store_error + 'a) \<Rightarrow> string \<Rightarrow>
     string list \<times> 'a \<Rightarrow> store_error + string list \<times> 'a" where
  \<comment> \<open>the state is \<open>visited\<close> and what \<open>fn\<close> updates\<close>
  "walk_from 0 get fn root st = Inl WalkFuel"
| "walk_from (Suc n) get fn root st =
     (if root \<in> set (fst st) then Inr st
      else bindR (get root) (\<lambda>(kind, body). bindR (fn root kind (snd st)) (\<lambda>acc.
        (let st = (root # fst st, acc)
         in if kind \<noteq> KindTree then Inr st
            else bindR (decodeTreeBody body AlgoSHA256) (\<lambda>entries.
              foldR (\<lambda>e st. walk_from n get fn (te_id e) st) entries st)))))"

definition store_Walk ::
  "'s store_ops \<Rightarrow> (string \<Rightarrow> string \<Rightarrow> 'a \<Rightarrow> store_error + 'a) \<Rightarrow> 's \<Rightarrow> string \<Rightarrow> 'a \<Rightarrow> store_error + 'a" where
  "store_Walk ops fn s root acc =
     bindR (walk_from (Suc (length (op_ids ops s))) (op_get ops s) fn root ([], acc)) (\<lambda>st. Inr (snd st))"

section \<open>What an object refers to\<close>

definition children :: "(string \<Rightarrow> store_error + string \<times> string) \<Rightarrow> string \<Rightarrow> string list" where
  "children get i =
     (case get i of
        Inr (kind, body) \<Rightarrow> if kind = KindTree then (case decodeTreeBody body AlgoSHA256 of Inr es \<Rightarrow> map te_id es | Inl _ \<Rightarrow> []) else []
      | Inl _ \<Rightarrow> [])"

definition refers :: "(string \<Rightarrow> store_error + string \<times> string) \<Rightarrow> (string \<times> string) set" where
  "refers get = {(i, j). j \<in> set (children get i)}"

definition readable :: "(string \<Rightarrow> store_error + string \<times> string) \<Rightarrow> string \<Rightarrow> bool" where
  \<comment> \<open>present, and a tree only if it decodes\<close>
  "readable get i \<longleftrightarrow> (\<exists>kind body. get i = Inr (kind, body) \<and> (kind = KindTree \<longrightarrow> (\<exists>es. decodeTreeBody body AlgoSHA256 = Inr es)))"

definition walked :: "(string \<Rightarrow> store_error + string \<times> string) \<Rightarrow> string set \<Rightarrow> string list \<Rightarrow> string list \<Rightarrow> bool" where
  \<comment> \<open>what was visited since is reachable from the roots, readable, and all that these refer to was visited\<close>
  "walked get roots vis vis' \<longleftrightarrow> set vis \<subseteq> set vis' \<and> set vis' - set vis \<subseteq> (refers get)\<^sup>* `` roots \<and>
     (\<forall>v \<in> set vis' - set vis. readable get v \<and> set (children get v) \<subseteq> set vis')"

lemma walked_refl: "walked get roots vis vis"
  by (simp add: walked_def)

lemma walked_trans: "walked get r1 vis vis1 \<Longrightarrow> walked get r2 vis1 vis2 \<Longrightarrow> walked get (r1 \<union> r2) vis vis2"
  unfolding walked_def by (intro conjI) (blast, blast, metis (no_types, lifting) Diff_iff subset_trans)

lemma walked_up: "walked get r vis vis' \<Longrightarrow> r \<subseteq> (refers get)\<^sup>* `` r' \<Longrightarrow> walked get r' vis vis'"
proof -
  assume g: "walked get r vis vis'" and r: "r \<subseteq> (refers get)\<^sup>* `` r'"
  have "(refers get)\<^sup>* `` r \<subseteq> (refers get)\<^sup>* `` r'" 
  proof
    fix x assume "x \<in> (refers get)\<^sup>* `` r"
    then obtain y z where "(y, x) \<in> (refers get)\<^sup>*" "(z, y) \<in> (refers get)\<^sup>*" "z \<in> r'" using r by blast
    then show "x \<in> (refers get)\<^sup>* `` r'" by (meson ImageI rtrancl_trans)
  qed
  then show ?thesis using g unfolding walked_def by blast
qed

lemma foldR_grows:
  assumes "\<And>e st st'. e \<in> set es \<Longrightarrow> f e st = Inr st' \<Longrightarrow> walked get {te_id e} (fst st) (fst st') \<and> te_id e \<in> set (fst st')"
    and "foldR f es st = Inr st'"
  shows "walked get (te_id ` set es) (fst st) (fst st') \<and> te_id ` set es \<subseteq> set (fst st')"
  using assms
proof (induction es arbitrary: st)
  case (Cons e es)
  obtain s where s: "f e st = Inr s" "foldR f es s = Inr st'" using Cons.prems(2) by (auto simp: res_elims)
  have a: "walked get {te_id e} (fst st) (fst s)" "te_id e \<in> set (fst s)" using Cons.prems(1) s(1) by auto
  have b: "walked get (te_id ` set es) (fst s) (fst st')" "te_id ` set es \<subseteq> set (fst st')" using Cons.IH[OF _ s(2)] Cons.prems(1) by auto
  have "set (fst s) \<subseteq> set (fst st')" using b(1) by (simp add: walked_def)
  then show ?case using walked_trans[OF a(1) b(1)] a(2) b(2) by auto
qed (simp add: walked_refl)

lemma walk_grows:
  "walk_from n get fn root st = Inr st' \<Longrightarrow> walked get {root} (fst st) (fst st') \<and> root \<in> set (fst st')"
proof (induction n arbitrary: root st st')
  case (Suc n)
  show ?case
  proof (cases "root \<in> set (fst st)")
    case True
    then show ?thesis using Suc.prems by (simp add: walked_refl)
  next
    case False
    obtain kind body acc where g: "get root = Inr (kind, body)"
      "(if kind \<noteq> KindTree then Inr (root # fst st, acc)
        else bindR (decodeTreeBody body AlgoSHA256) (\<lambda>entries. foldR (\<lambda>e st. walk_from n get fn (te_id e) st) entries (root # fst st, acc))) = Inr st'"
      using Suc.prems False by (auto simp: res_elims Let_def)
    show ?thesis
    proof (cases "kind = KindTree")
      case False
      then have "fst st' = root # fst st" "children get root = []" "readable get root"
        using g by (auto simp: children_def readable_def)
      then show ?thesis by (auto simp: walked_def)
    next
      case True
      then obtain es where es: "decodeTreeBody body AlgoSHA256 = Inr es"
        "foldR (\<lambda>e st. walk_from n get fn (te_id e) st) es (root # fst st, acc) = Inr st'"
        using g(2) by (auto simp: res_elims)
      have c: "set (children get root) = te_id ` set es" "readable get root"
        using g(1) es(1) True by (simp_all add: children_def readable_def)
      from foldR_grows[OF _ es(2), of get] Suc.IH
      have f: "walked get (te_id ` set es) (root # fst st) (fst st')" "te_id ` set es \<subseteq> set (fst st')" by auto
      have "te_id ` set es \<subseteq> (refers get)\<^sup>* `` {root}" using c(1) by (auto simp: refers_def)
      then have "walked get {root} (root # fst st) (fst st')" using walked_up[OF f(1)] by blast
      then show ?thesis using c f(2) unfolding walked_def by (auto 0 3)
    qed
  qed
qed simp

lemma walk_reaches:
  assumes "walk_from n get fn root ([], acc) = Inr (vis, acc')"
  shows "set vis = (refers get)\<^sup>* `` {root}" "\<forall>i \<in> (refers get)\<^sup>* `` {root}. readable get i"
proof -
  have g: "walked get {root} [] vis" "root \<in> set vis" using walk_grows[OF assms] by simp_all
  have "i \<in> set vis" if "(root, i) \<in> (refers get)\<^sup>*" for i
    using that
  proof (induction rule: rtrancl_induct)
    case (step i j)
    then show ?case using g(1) by (auto simp: walked_def refers_def)
  qed (rule g(2))
  then show v: "set vis = (refers get)\<^sup>* `` {root}" using g(1) by (auto simp: walked_def)
  show "\<forall>i \<in> (refers get)\<^sup>* `` {root}. readable get i" using g(1) unfolding v[symmetric] by (auto simp: walked_def)
qed

section \<open>The fuel\<close>

lemma decode_entries_no_fuel: "decode_entries n algo prev body \<noteq> Inl WalkFuel"
proof (induction n algo prev body rule: decode_entries.induct)
  case (1 n algo prev body)
  then show ?case by (subst decode_entries.simps) (auto split: option.splits sum.splits)
qed

lemma decode_no_fuel: "decodeTreeBody body algo \<noteq> Inl WalkFuel"
  using decode_entries_no_fuel by (auto simp: decodeTreeBody_def hexLen_def)

lemma foldR_no_fuel:
  assumes "\<And>e st. e \<in> set es \<Longrightarrow> P st \<Longrightarrow> f e st \<noteq> Inl WalkFuel"
    and "\<And>e st st'. e \<in> set es \<Longrightarrow> P st \<Longrightarrow> f e st = Inr st' \<Longrightarrow> P st'" and "P st"
  shows "foldR f es st \<noteq> Inl WalkFuel"
  using assms
proof (induction es arbitrary: st)
  case (Cons e es)
  show ?case
  proof (cases "f e st")
    case (Inl x)
    then show ?thesis using Cons.prems(1)[of e st] Cons.prems(3) by auto
  next
    case (Inr s)
    have "P s" using Cons.prems(2)[of e st s] Cons.prems(3) Inr by simp
    then have "foldR f es s \<noteq> Inl WalkFuel" by (meson Cons.IH Cons.prems(1,2) list.set_intros(2))
    then show ?thesis using Inr by simp
  qed
qed simp

lemma walk_fuel:
  fixes fn :: "string \<Rightarrow> string \<Rightarrow> 'a \<Rightarrow> store_error + 'a"
  assumes "finite P" "\<And>i x. get i = Inr x \<Longrightarrow> i \<in> P" "\<And>i. get i \<noteq> Inl WalkFuel"
    and "\<And>i k a. fn i k a \<noteq> Inl WalkFuel"
  shows "card (P - set (fst st)) < n \<Longrightarrow> walk_from n get fn root st \<noteq> Inl WalkFuel"
proof (induction n arbitrary: root st)
  case (Suc n)
  show ?case
  proof (cases "root \<in> set (fst st)")
    case new: False
    show ?thesis
    proof (cases "get root")
      case (Inl e)
      then show ?thesis using new assms(3)[of root] by auto
    next
      case (Inr kb)
      obtain kind body where kb: "kb = (kind, body)" by (cases kb)
      show ?thesis
      proof (cases "fn root kind (snd st)")
        case (Inl e)
        then show ?thesis using new Inr kb assms(4)[of root kind "snd st"] by auto
      next
        case acc: (Inr acc)
        have "root \<in> P" using assms(2) Inr by blast
        then have "card (P - set (root # fst st)) < card (P - set (fst st))"
          using new assms(1) by (intro psubset_card_mono) auto
        then have n: "card (P - set (root # fst st)) < n" using Suc.prems by simp
        have "foldR (\<lambda>e st. walk_from n get fn (te_id e) st) es (root # fst st, acc) \<noteq> Inl WalkFuel" for es
        proof (rule foldR_no_fuel[where P = "\<lambda>s. set (root # fst st) \<subseteq> set (fst s)"])
          fix e and s :: "string list \<times> 'a" assume "set (root # fst st) \<subseteq> set (fst s)"
          then have "card (P - set (fst s)) \<le> card (P - set (root # fst st))" using assms(1) by (intro card_mono) auto
          then show "walk_from n get fn (te_id e) s \<noteq> Inl WalkFuel" using Suc.IH n by simp
        next
          fix e and s s' :: "string list \<times> 'a" assume "set (root # fst st) \<subseteq> set (fst s)" "walk_from n get fn (te_id e) s = Inr s'"
          then show "set (root # fst st) \<subseteq> set (fst s')" using walk_grows by (fastforce simp: walked_def)
        qed simp
        moreover have "decodeTreeBody body AlgoSHA256 \<noteq> Inl WalkFuel" by (rule decode_no_fuel)
        ultimately show ?thesis using new Inr kb acc
          by (cases "decodeTreeBody body AlgoSHA256") (auto simp: Let_def)
      qed
    qed
  qed simp
qed simp

end
