(* ===== verification/Ref_Store.thy ===== *)
theory Ref_Store
  imports Object_Laws
begin

text \<open>
  The mutable references over the object store (\<open>internal/objectstore/refstore\<close>): names, compare-and-swap
  and listing of the store on disk, whose lock makes \<open>Update\<close> one step, and the bounded retry with which
  \<open>nodewriter\<close> moves a reference. A reference file holds a decodable record; \<open>now\<close> is the clock.
\<close>

record ref_record =
  rr_kind :: string
  rr_target :: string
  rr_updated_at :: int
  rr_writer :: string

record ref_store =
  rt_writer :: string
  rt_refs :: "ref_record gmap"
  rt_fails :: "string \<Rightarrow> bool" \<comment> \<open>the names whose file cannot be written or removed\<close>

definition ref_segment :: "string \<Rightarrow> bool" where
  "ref_segment seg \<longleftrightarrow> \<not> (seg = [] \<or> seg = ''.'' \<or> seg = ''..'') \<and> list_all obj_name_char seg"

definition validRefName :: "string \<Rightarrow> bool" where
  "validRefName name \<longleftrightarrow> \<not> (name = [] \<or> has_prefix name ''/'' \<or> has_suffix name ''/'') \<and>
     list_all ref_segment (split_char (CHR ''/'') name)"

definition ref_read :: "ref_store \<Rightarrow> string \<Rightarrow> store_error + ref_record" where
  "ref_read st name = (case gm_get (rt_refs st) name of None \<Rightarrow> Inl ErrNotFound | Some r \<Rightarrow> Inr r)"

definition ref_Read :: "ref_store \<Rightarrow> string \<Rightarrow> store_error + ref_record" where
  "ref_Read st name = (if \<not> validRefName name then Inl ErrInvalid else ref_read st name)"

definition ref_Update :: "int \<Rightarrow> string \<Rightarrow> string \<Rightarrow> string \<Rightarrow> ref_store \<Rightarrow> store_error + ref_store" where
  "ref_Update now name oldTarget newTarget st =
     (if \<not> validRefName name then Inl ErrInvalid
      else (case ValidateID newTarget of
          Some e \<Rightarrow> Inl e
        | None \<Rightarrow>
            bindR (case ref_read st name of Inr r \<Rightarrow> Inr (rr_target r)
                   | Inl e \<Rightarrow> if e = ErrNotFound then Inr [] else Inl e) (\<lambda>cur.
              if cur \<noteq> oldTarget then Inl ErrConflict
              else if rt_fails st name then Inl ErrIO
              else Inr (st\<lparr>rt_refs := gm_set name \<lparr>rr_kind = ''Ref'', rr_target = newTarget, rr_updated_at = now,
                     rr_writer = rt_writer st\<rparr> (rt_refs st)\<rparr>))))"

definition ref_file :: "string \<Rightarrow> string" where
  \<comment> \<open>the base name of a reference's file\<close>
  "ref_file name = last (split_char (CHR ''/'') name) @ ''.json''"

definition listed :: "string \<Rightarrow> bool" where
  "listed name \<longleftrightarrow> \<not> (has_prefix (ref_file name) ''tmp-'' \<or> has_suffix (ref_file name) ''.lock'' \<or>
     \<not> has_suffix (ref_file name) ''.json'')"

definition ref_List :: "string \<Rightarrow> ref_store \<Rightarrow> string list" where
  "ref_List prefix st =
     sort (filter (\<lambda>name. listed name \<and> (prefix = [] \<or> has_prefix name prefix)) (gm_keys (rt_refs st)))"

definition ref_Delete :: "string \<Rightarrow> ref_store \<Rightarrow> store_error + ref_store" where
  "ref_Delete name st =
     (if \<not> validRefName name then Inl ErrInvalid
      else if gm_has (rt_refs st) name \<and> rt_fails st name then Inl ErrIO
      else Inr (st\<lparr>rt_refs := gm_del name (rt_refs st)\<rparr>))"

section \<open>Moving a reference\<close>

fun move_attempts :: "(nat \<Rightarrow> ref_store \<Rightarrow> ref_store) \<Rightarrow> int \<Rightarrow> nat \<Rightarrow> string \<Rightarrow> string \<Rightarrow> ref_store \<Rightarrow>
    (store_error + bool) \<times> ref_store" where
  \<comment> \<open>\<open>others n\<close> is what other writers do between the read and the update of an attempt; the result tells
    whether the reference was moved\<close>
  "move_attempts others now 0 name target st = (Inl TooManyConflicts, st)"
| "move_attempts others now (Suc n) name target st =
     (case (case ref_Read st name of Inr r \<Rightarrow> Inr (rr_target r)
            | Inl e \<Rightarrow> if e = ErrNotFound then Inr [] else Inl e) of
        Inl e \<Rightarrow> (Inl e, st)
      | Inr cur \<Rightarrow>
          if cur = target then (Inr False, st)
          else (let st = others n st
                in case ref_Update now name cur target st of
                     Inr st' \<Rightarrow> (Inr True, st')
                   | Inl e \<Rightarrow> if e = ErrConflict then move_attempts others now n name target st else (Inl e, st)))"

definition moveRef :: "(nat \<Rightarrow> ref_store \<Rightarrow> ref_store) \<Rightarrow> int \<Rightarrow> string \<Rightarrow> string \<Rightarrow> ref_store \<Rightarrow>
    (store_error + bool) \<times> ref_store" where
  "moveRef others now name target st = move_attempts others now 8 name target st"

definition node_moveRef :: "(nat \<Rightarrow> ref_store \<Rightarrow> ref_store) \<Rightarrow> int \<Rightarrow> string \<Rightarrow> string \<Rightarrow> ref_store \<Rightarrow>
    store_error option \<times> ref_store" where
  "node_moveRef others now name target st =
     (case moveRef others now name target st of (Inl e, st) \<Rightarrow> (Some e, st) | (Inr _, st) \<Rightarrow> (None, st))"

fun moveRefs :: "(nat \<Rightarrow> ref_store \<Rightarrow> ref_store) \<Rightarrow> int \<Rightarrow> string list \<Rightarrow> string \<Rightarrow> ref_store \<Rightarrow>
    store_error option \<times> ref_store" where
  "moveRefs others now [] target st = (None, st)"
| "moveRefs others now (n # ns) target st =
     (case node_moveRef others now n target st of
        (Some e, st) \<Rightarrow> (Some e, st)
      | (None, st) \<Rightarrow> moveRefs others now ns target st)"

section \<open>Laws\<close>

definition target_of :: "ref_store \<Rightarrow> string \<Rightarrow> string" where
  \<comment> \<open>the target, or empty for no reference\<close>
  "target_of st name = (case gm_get (rt_refs st) name of Some r \<Rightarrow> rr_target r | None \<Rightarrow> [])"

lemma ref_read_target:
  "(case ref_read st name of Inr r \<Rightarrow> Inr (rr_target r) | Inl e \<Rightarrow> if e = ErrNotFound then Inr [] else Inl e) = Inr (target_of st name)"
  by (auto simp: ref_read_def target_of_def split: option.splits)

lemma ref_Update_Inr:
  "ref_Update now name old new st = Inr st' \<longleftrightarrow> validRefName name \<and> ValidateID new = None \<and> target_of st name = old \<and>
     \<not> rt_fails st name \<and> st' = st\<lparr>rt_refs := gm_set name \<lparr>rr_kind = ''Ref'', rr_target = new, rr_updated_at = now,
       rr_writer = rt_writer st\<rparr> (rt_refs st)\<rparr>"
  unfolding ref_Update_def ref_read_target by (auto split: option.splits if_splits)

lemma update_target:
  assumes "ref_Update now name old new st = Inr st'"
  shows "target_of st' name = new" "n \<noteq> name \<Longrightarrow> target_of st' n = target_of st n" "gm_ok (rt_refs st) \<Longrightarrow> gm_ok (rt_refs st')"
    "n \<noteq> name \<Longrightarrow> gm_get (rt_refs st') n = gm_get (rt_refs st) n"
  using assms by (auto simp: ref_Update_Inr target_of_def gm_simps)

text \<open>
  Compare-and-swap has one winner: of two updates that expect the same target and set another one, in
  whatever order they get the lock, the second fails with a conflict and changes nothing.
\<close>

lemma cas_one_winner:
  assumes "ref_Update t1 name old a st = Inr st1" "a \<noteq> old" "ValidateID b = None"
  shows "ref_Update t2 name old b st1 = Inl ErrConflict"
  using assms update_target(1)[OF assms(1)] unfolding ref_Update_def ref_read_target
  by (auto simp: ref_Update_Inr[unfolded ref_Update_def ref_read_target])

lemma move_attempts_moved:
  "move_attempts others now n name target st = (Inr b, st') \<Longrightarrow> target_of st' name = target"
proof (induction n arbitrary: st)
  case (Suc n)
  have "(case ref_Read st name of Inr r \<Rightarrow> Inr (rr_target r) | Inl e \<Rightarrow> if e = ErrNotFound then Inr [] else Inl e) = Inr (target_of st name)
    \<or> ref_Read st name = Inl ErrInvalid"
    using ref_read_target[of st name] by (auto simp: ref_Read_def)
  then show ?case using Suc update_target(1)
    by (auto simp: Let_def split: if_splits sum.splits)
qed simp

text \<open>What holds of every target holds after a move, if the other writers keep it.\<close>

definition refs_all :: "(string \<Rightarrow> bool) \<Rightarrow> ref_store \<Rightarrow> bool" where
  "refs_all P st \<longleftrightarrow> (\<forall>n r. gm_get (rt_refs st) n = Some r \<longrightarrow> P (rr_target r))"

lemma refs_allD: "refs_all P st \<Longrightarrow> ref_Read st n = Inr r \<Longrightarrow> P (rr_target r)"
  by (auto simp: refs_all_def ref_Read_def ref_read_def split: if_splits option.splits)

lemma refs_all_mono: "refs_all P st \<Longrightarrow> (\<And>t. P t \<Longrightarrow> Q t) \<Longrightarrow> refs_all Q st"
  unfolding refs_all_def by blast

lemma update_refs_all: "ref_Update now name old new st = Inr st' \<Longrightarrow> refs_all P st \<Longrightarrow> P new \<Longrightarrow> refs_all P st'"
  by (auto simp: ref_Update_Inr refs_all_def gm_simps split: if_splits)

lemma move_attempts_refs_all:
  assumes "\<And>k st. refs_all P st \<Longrightarrow> refs_all P (others k st)" "P target"
  shows "move_attempts others now n name target st = (out, st') \<Longrightarrow> refs_all P st \<Longrightarrow> refs_all P st'"
proof (induction n arbitrary: st)
  case (Suc n)
  show ?case
  proof (cases "case ref_Read st name of Inr r \<Rightarrow> Inr (rr_target r) | Inl e \<Rightarrow> if e = ErrNotFound then Inr [] else Inl e")
    case (Inl e)
    then show ?thesis using Suc.prems by simp
  next
    case (Inr cur)
    have o: "refs_all P (others n st)" using assms(1) Suc.prems(2) by blast
    show ?thesis
    proof (cases "cur = target")
      case True
      then show ?thesis using Suc.prems Inr by simp
    next
      case False
      show ?thesis
      proof (cases "ref_Update now name cur target (others n st)")
        case (Inl e)
        then show ?thesis using Suc.prems(1) Suc.IH o Inr False by (cases "e = ErrConflict") (auto simp: Let_def)
      next
        case u: (Inr u)
        then have "st' = u" using Suc.prems(1) Inr False by (simp add: Let_def)
        then show ?thesis using update_refs_all[OF u o assms(2)] by simp
      qed
    qed
  qed
qed simp

end
