(* ===== verification/Object_GC.thy ===== *)
theory Object_GC
  imports Object_Walk Ref_Store
begin

text \<open>
  The garbage collector of the object store (\<open>internal/objgc\<close>) and the index of executions it reads
  (\<open>internal/objindex\<close>). \<open>Collect\<close> works over the interface \<open>store_ops\<close>; its theorems are proved in the locale
  \<open>object_store\<close> and hold for both stores. \<open>decode_exec\<close> decodes an execution record, with its times as
  formatted; \<open>modTime\<close> gives the age of an object, or \<open>None\<close> when the store has none.
\<close>

section \<open>The index of executions\<close>

record exec_run =
  er_execution_id :: string
  er_revision_id :: string
  er_trigger_id :: string
  er_status :: string
  er_started_at :: string
  er_finished_at :: string

record exec_entry = \<comment> \<open>the summary of a run, which is only copied, is left out\<close>
  ee_execution_id :: string
  ee_object_id :: string
  ee_revision_id :: string
  ee_trigger_id :: string
  ee_status :: string
  ee_started_at :: string
  ee_finished_at :: string

definition execByIDPrefix :: string where
  "execByIDPrefix = ''executions/by-id/''"

definition readExecution :: "'s store_ops \<Rightarrow> (string \<Rightarrow> store_error + exec_run) \<Rightarrow> 's \<Rightarrow> string \<Rightarrow> store_error + exec_run" where
  "readExecution ops decode_exec s i =
     bindR (op_get_tree ops s i) (\<lambda>entries.
       (case find (\<lambda>e. te_name e = ''execution.json'') entries of
          None \<Rightarrow> Inl ErrInvalid
        | Some e \<Rightarrow> bindR (op_get ops s (te_id e)) (\<lambda>(_, body). decode_exec body)))"

definition exec_before :: "exec_entry \<Rightarrow> exec_entry \<Rightarrow> bool" where
  "exec_before a b \<longleftrightarrow>
     (if ee_started_at a \<noteq> ee_started_at b then ee_started_at b < ee_started_at a
      else ee_execution_id b < ee_execution_id a)"

fun insert_exec :: "exec_entry \<Rightarrow> exec_entry list \<Rightarrow> exec_entry list" where
  "insert_exec x [] = [x]"
| "insert_exec x (y # ys) = (if exec_before y x then y # insert_exec x ys else x # y # ys)"

definition sortExecEntries :: "exec_entry list \<Rightarrow> exec_entry list" where
  \<comment> \<open>\<open>sort.SliceStable\<close>\<close>
  "sortExecEntries entries = foldr insert_exec entries []"

definition exec_entry_of ::
  "'s store_ops \<Rightarrow> (string \<Rightarrow> store_error + exec_run) \<Rightarrow> 's \<Rightarrow> ref_store \<Rightarrow> string \<Rightarrow> store_error + exec_entry" where
  "exec_entry_of ops decode_exec s refs name =
     bindR (ref_Read refs name) (\<lambda>ref. bindR (readExecution ops decode_exec s (rr_target ref)) (\<lambda>exec.
       Inr \<lparr>ee_execution_id = er_execution_id exec, ee_object_id = rr_target ref, ee_revision_id = er_revision_id exec,
         ee_trigger_id = er_trigger_id exec, ee_status = er_status exec, ee_started_at = er_started_at exec,
         ee_finished_at = er_finished_at exec\<rparr>))"

definition BuildExecutions ::
  "'s store_ops \<Rightarrow> (string \<Rightarrow> store_error + exec_run) \<Rightarrow> 's \<Rightarrow> ref_store \<Rightarrow> store_error + exec_entry list" where
  "BuildExecutions ops decode_exec s refs =
     bindR (mapR (exec_entry_of ops decode_exec s refs) (ref_List execByIDPrefix refs)) (\<lambda>entries. Inr (sortExecEntries entries))"

section \<open>Collecting\<close>

record gc_options =
  go_keep_executions :: int
  go_grace_period :: int
  go_dry_run :: bool
  go_now :: int

record gc_result =
  gr_scanned :: nat
  gr_marked :: nat
  gr_pruned_exec_refs :: nat
  gr_swept :: nat
  gr_skipped :: nat
  gr_dry_run :: bool

fun prune_loop :: "string list \<Rightarrow> bool \<Rightarrow> string list \<Rightarrow> nat \<Rightarrow> ref_store \<Rightarrow> (store_error + nat) \<times> ref_store" where
  "prune_loop keepSet dryRun [] pruned refs = (Inr pruned, refs)"
| "prune_loop keepSet dryRun (n # ns) pruned refs =
     (case ref_Read refs n of
        Inl e \<Rightarrow> (Inl e, refs)
      | Inr ref \<Rightarrow>
          if rr_target ref \<in> set keepSet then prune_loop keepSet dryRun ns pruned refs
          else if dryRun then prune_loop keepSet dryRun ns (pruned + 1) refs
          else (case ref_Delete n refs of
              Inl e \<Rightarrow> (Inl e, refs)
            | Inr refs \<Rightarrow> prune_loop keepSet dryRun ns (pruned + 1) refs))"

definition pruneExecutions ::
  "'s store_ops \<Rightarrow> (string \<Rightarrow> store_error + exec_run) \<Rightarrow> 's \<Rightarrow> int \<Rightarrow> bool \<Rightarrow> ref_store \<Rightarrow> (store_error + nat) \<times> ref_store" where
  "pruneExecutions ops decode_exec s keep dryRun refs =
     (case BuildExecutions ops decode_exec s refs of
        Inl e \<Rightarrow> (Inl e, refs)
      | Inr entries \<Rightarrow>
          if int (length entries) \<le> keep then (Inr 0, refs)
          else prune_loop (map ee_object_id (take (nat keep) entries)) dryRun (ref_List execByIDPrefix refs) 0 refs)"

definition mark_object :: "string \<Rightarrow> string \<Rightarrow> string list \<Rightarrow> store_error + string list" where
  \<comment> \<open>\<open>marked[id] = struct{}{}\<close>\<close>
  "mark_object i kind marked = Inr (List.insert i marked)"

definition mark_ref :: "'s store_ops \<Rightarrow> 's \<Rightarrow> ref_store \<Rightarrow> string \<Rightarrow> string list \<Rightarrow> store_error + string list" where
  "mark_ref ops s refs name marked =
     bindR (ref_Read refs name) (\<lambda>ref.
       if op_has ops s (rr_target ref) \<noteq> Inr True then Inr marked
       else store_Walk ops mark_object s (rr_target ref) marked)"

fun sweep_loop ::
  "'s store_ops \<Rightarrow> (string \<Rightarrow> int option) \<Rightarrow> gc_options \<Rightarrow> string list \<Rightarrow> string list \<Rightarrow> gc_result \<Rightarrow> 's \<Rightarrow>
     (store_error + gc_result) \<times> 's" where
  "sweep_loop ops modTime opts marked [] res s = (Inr res, s)"
| "sweep_loop ops modTime opts marked (i # ids) res s =
     (let res = res\<lparr>gr_scanned := gr_scanned res + 1\<rparr>
      in if i \<in> set marked then sweep_loop ops modTime opts marked ids res s
         else if 0 < go_grace_period opts \<and> (case modTime i of Some mt \<Rightarrow> go_now opts - mt < go_grace_period opts | None \<Rightarrow> False)
           then sweep_loop ops modTime opts marked ids (res\<lparr>gr_skipped := gr_skipped res + 1\<rparr>) s
         else if go_dry_run opts then sweep_loop ops modTime opts marked ids (res\<lparr>gr_swept := gr_swept res + 1\<rparr>) s
         else (case op_delete ops i s of
             Inl e \<Rightarrow> (Inl e, s)
           | Inr s \<Rightarrow> sweep_loop ops modTime opts marked ids (res\<lparr>gr_swept := gr_swept res + 1\<rparr>) s))"

definition Collect_garbage ::
  "'s store_ops \<Rightarrow> (string \<Rightarrow> int option) \<Rightarrow> (string \<Rightarrow> store_error + exec_run) option \<Rightarrow> gc_options \<Rightarrow> 's \<Rightarrow> ref_store \<Rightarrow>
     (store_error + gc_result) \<times> 's \<times> ref_store" where
  \<comment> \<open>the indexer is \<open>nil\<close> when \<open>ix\<close> is \<open>None\<close>\<close>
  "Collect_garbage ops modTime ix opts s refs =
     (case (case ix of
              Some decode_exec \<Rightarrow> if 0 < go_keep_executions opts
                then pruneExecutions ops decode_exec s (go_keep_executions opts) (go_dry_run opts) refs else (Inr 0, refs)
            | None \<Rightarrow> (Inr 0, refs)) of
        (Inl e, refs) \<Rightarrow> (Inl e, s, refs)
      | (Inr pruned, refs) \<Rightarrow>
          (case foldR (mark_ref ops s refs) (ref_List [] refs) [] of
             Inl e \<Rightarrow> (Inl e, s, refs)
           | Inr marked \<Rightarrow>
               (let (out, s) = sweep_loop ops modTime opts marked (op_ids ops s)
                      \<lparr>gr_scanned = 0, gr_marked = length marked, gr_pruned_exec_refs = pruned, gr_swept = 0, gr_skipped = 0,
                       gr_dry_run = go_dry_run opts\<rparr> s
                in (out, s, refs))))"

section \<open>Correctness over any store\<close>

definition live :: "'s store_ops \<Rightarrow> 's \<Rightarrow> ref_store \<Rightarrow> string set" where
  \<comment> \<open>what can be reached from the listed references\<close>
  "live ops s refs = {i. \<exists>name \<in> set (ref_List [] refs). target_of refs name \<in> set (op_ids ops s) \<and>
     (target_of refs name, i) \<in> (refers (op_get ops s))\<^sup>*}"

lemma mark_bind: "mark_object i kind marked = Inr m \<longleftrightarrow> m = List.insert i marked"
  by (auto simp: mark_object_def)

lemma mark_walk: "walk_from n get mark_object root st = Inr st' \<Longrightarrow> set (snd st') = set (snd st) \<union> (set (fst st') - set (fst st)) \<and>
    set (fst st) \<subseteq> set (fst st') \<and> (distinct (snd st) \<longrightarrow> distinct (snd st'))"
proof (induction n arbitrary: root st st')
  case (Suc n)
  have f: "foldR (\<lambda>e st. walk_from n get mark_object (te_id e) st) es s = Inr s' \<Longrightarrow>
      set (snd s') = set (snd s) \<union> (set (fst s') - set (fst s)) \<and> set (fst s) \<subseteq> set (fst s') \<and> (distinct (snd s) \<longrightarrow> distinct (snd s'))" for es s s'
  proof (induction es arbitrary: s)
    case (Cons e es)
    obtain u where u: "walk_from n get mark_object (te_id e) s = Inr u" "foldR (\<lambda>e st. walk_from n get mark_object (te_id e) st) es u = Inr s'"
      using Cons.prems by (auto simp: res_elims)
    from Suc.IH[OF u(1)] Cons.IH[OF u(2)] show ?case by blast
  qed simp
  show ?case
  proof (cases "root \<in> set (fst st)")
    case False
    then obtain kind body where g: "get root = Inr (kind, body)"
      "(if kind \<noteq> KindTree then Inr (root # fst st, List.insert root (snd st))
        else bindR (decodeTreeBody body AlgoSHA256) (\<lambda>entries. foldR (\<lambda>e st. walk_from n get mark_object (te_id e) st) entries
          (root # fst st, List.insert root (snd st)))) = Inr st'"
      using Suc.prems by (auto simp: res_elims Let_def mark_bind)
    then show ?thesis
    proof (cases "kind = KindTree")
      case True
      then obtain es where "decodeTreeBody body AlgoSHA256 = Inr es"
        and es: "foldR (\<lambda>e st. walk_from n get mark_object (te_id e) st) es (root # fst st, List.insert root (snd st)) = Inr st'"
        using g(2) by (auto simp: res_elims)
      from f[OF es] False show ?thesis by auto
    qed (use False in auto)
  qed (use Suc.prems in auto)
qed simp

lemma store_Walk_marks:
  assumes "store_Walk ops mark_object s root marked = Inr marked'"
  shows "set marked' = set marked \<union> (refers (op_get ops s))\<^sup>* `` {root}"
    "\<forall>i \<in> (refers (op_get ops s))\<^sup>* `` {root}. readable (op_get ops s) i"
proof -
  obtain st where st: "walk_from (Suc (length (op_ids ops s))) (op_get ops s) mark_object root ([], marked) = Inr st" "marked' = snd st"
    using assms by (auto simp: store_Walk_def res_elims)
  then have w: "walk_from (Suc (length (op_ids ops s))) (op_get ops s) mark_object root ([], marked) = Inr (fst st, snd st)" by simp
  show "set marked' = set marked \<union> (refers (op_get ops s))\<^sup>* `` {root}"
    using mark_walk[OF w] walk_reaches(1)[OF w] st(2) by simp
  show "\<forall>i \<in> (refers (op_get ops s))\<^sup>* `` {root}. readable (op_get ops s) i" by (rule walk_reaches(2)[OF w])
qed

context object_store
begin

lemma walk_never_out_of_fuel:
  assumes "valid s" "\<And>i k a. fn i k a \<noteq> Inl WalkFuel"
  shows "store_Walk ops fn s root acc \<noteq> Inl WalkFuel"
proof -
  have "walk_from (Suc (length (op_ids ops s))) (op_get ops s) fn root ([], acc) \<noteq> Inl WalkFuel"
  proof (rule walk_fuel[where P = "set (op_ids ops s)"])
    show "op_get ops s i \<noteq> Inl WalkFuel" for i
      using get_present[OF assms(1), of i] get_absent[OF assms(1), of i] by (cases "i \<in> set (op_ids ops s)") auto
    show "i \<in> set (op_ids ops s)" if "op_get ops s i = Inr x" for i x using get_iff[OF assms(1)] that by blast
    show "card (set (op_ids ops s) - set (fst ([], acc))) < Suc (length (op_ids ops s))" by (simp add: card_length less_Suc_eq_le)
  qed (use assms(2) in auto)
  then show ?thesis by (auto simp: store_Walk_def bindR_def split: sum.splits)
qed

lemma readable_present: "valid s \<Longrightarrow> readable (op_get ops s) i \<Longrightarrow> i \<in> set (op_ids ops s)"
  using get_iff unfolding readable_def by blast

lemma marks_live:
  assumes v: "valid s" and m: "foldR (mark_ref ops s refs) (ref_List [] refs) [] = Inr marked"
    and io: "\<forall>name \<in> set (ref_List [] refs). op_has ops s (target_of refs name) \<noteq> Inl ErrIO"
  shows "set marked = live ops s refs" "live ops s refs \<subseteq> set (op_ids ops s)"
proof -
  let ?T = "\<lambda>name. {i. target_of refs name \<in> set (op_ids ops s) \<and> (target_of refs name, i) \<in> (refers (op_get ops s))\<^sup>*}"
  have step: "set m' = set m \<union> ?T name \<and> ?T name \<subseteq> set (op_ids ops s)"
    if a: "mark_ref ops s refs name m = Inr m'" and n: "op_has ops s (target_of refs name) \<noteq> Inl ErrIO" for name m m'
  proof -
    have has: "op_has ops s (target_of refs name) = Inr True \<longleftrightarrow> target_of refs name \<in> set (op_ids ops s)"
      using has_ids[OF v, of "target_of refs name"] has_error[OF v, of "target_of refs name"] n
      by (cases "op_has ops s (target_of refs name)") auto
    obtain ref where r: "ref_Read refs name = Inr ref" using a by (auto simp: mark_ref_def res_elims)
    then have t: "rr_target ref = target_of refs name"
      by (auto simp: ref_Read_def ref_read_def target_of_def split: if_splits option.splits)
    show ?thesis
    proof (cases "target_of refs name \<in> set (op_ids ops s)")
      case False
      then show ?thesis using a r t has by (auto simp: mark_ref_def split: if_splits)
    next
      case True
      then have "store_Walk ops mark_object s (target_of refs name) m = Inr m'"
        using a r t has by (auto simp: mark_ref_def split: if_splits)
      from store_Walk_marks[OF this] show ?thesis using True readable_present[OF v] by auto
    qed
  qed
  have "set m' = set m \<union> (\<Union>n \<in> set ns. ?T n) \<and> (\<Union>n \<in> set ns. ?T n) \<subseteq> set (op_ids ops s)"
    if "foldR (mark_ref ops s refs) ns m = Inr m'" "\<forall>name \<in> set ns. op_has ops s (target_of refs name) \<noteq> Inl ErrIO" for ns m m'
    using that
  proof (induction ns arbitrary: m)
    case (Cons n ns)
    then obtain u where u: "mark_ref ops s refs n m = Inr u" "foldR (mark_ref ops s refs) ns u = Inr m'" by (auto simp: res_elims)
    from step[OF u(1)] Cons.IH[OF u(2)] Cons.prems(2) show ?case by auto
  qed simp
  from this[OF m io] show "set marked = live ops s refs" "live ops s refs \<subseteq> set (op_ids ops s)" by (auto simp: live_def)
qed

lemma sweep_keeps:
  assumes "valid s" "sweep_loop ops modTime opts marked ids res s = (out, s')"
  shows "valid s' \<and> (\<forall>i \<in> set marked. op_get ops s' i = op_get ops s i) \<and> set (op_ids ops s') \<subseteq> set (op_ids ops s) \<and>
    set (op_ids ops s) \<inter> set marked \<subseteq> set (op_ids ops s') \<and> (go_dry_run opts \<longrightarrow> s' = s) \<and>
    (\<forall>r. out = Inr r \<and> \<not> go_dry_run opts \<and> go_grace_period opts \<le> 0 \<longrightarrow>
       set (op_ids ops s') = set (op_ids ops s) - (set ids - set marked))"
  using assms
proof (induction ids arbitrary: res s)
  case (Cons i ids)
  show ?case
  proof (cases "i \<in> set marked")
    case True
    then show ?thesis using Cons by (auto simp: Let_def insert_Diff_if)
  next
    case new: False
    show ?thesis
    proof (cases "0 < go_grace_period opts \<and> (case modTime i of Some mt \<Rightarrow> go_now opts - mt < go_grace_period opts | None \<Rightarrow> False)")
      case True
      then show ?thesis using Cons.prems Cons.IH[OF Cons.prems(1)] new by (auto simp: Let_def)
    next
      case old: False
      show ?thesis
      proof (cases "go_dry_run opts")
        case True
        then show ?thesis using Cons.prems Cons.IH[OF Cons.prems(1)] new old by (auto simp: Let_def)
      next
        case wet: False
        show ?thesis
        proof (cases "op_delete ops i s")
          case (Inl e)
          then have "s' = s" "out = Inl e" using Cons.prems(2) new old wet by (simp_all add: Let_def)
          then show ?thesis using Cons.prems(1) by simp
        next
          case (Inr u)
          note d = delete_valid[OF Cons.prems(1) Inr] delete_other[OF Cons.prems(1) Inr] delete_ids[OF Cons.prems(1) Inr]
          have w: "sweep_loop ops modTime opts marked ids (res\<lparr>gr_scanned := gr_scanned res + 1, gr_swept := gr_swept res + 1\<rparr>) u = (out, s')"
            using Cons.prems(2) new old wet Inr by (simp add: Let_def)
          moreover have "\<forall>j \<in> set marked. op_get ops u j = op_get ops s j" using d(2) new by metis
          ultimately show ?thesis using Cons.IH[OF d(1) w] d(3) new wet by auto
        qed
      qed
    qed
  qed
qed simp

lemma collect_safe:
  assumes v: "valid s" and c: "Collect_garbage ops modTime ix opts s refs = (out, s', refs')"
    and io: "\<forall>name \<in> set (ref_List [] refs'). op_has ops s (target_of refs' name) \<noteq> Inl ErrIO"
  shows "valid s' \<and> (\<forall>i \<in> live ops s refs'. i \<in> set (op_ids ops s) \<longrightarrow> i \<in> set (op_ids ops s') \<and> op_get ops s' i = op_get ops s i) \<and>
    set (op_ids ops s') \<subseteq> set (op_ids ops s) \<and> (go_dry_run opts \<longrightarrow> s' = s) \<and>
    (\<forall>r. out = Inr r \<longrightarrow> live ops s refs' \<subseteq> set (op_ids ops s')) \<and>
    (\<forall>r. out = Inr r \<and> \<not> go_dry_run opts \<and> go_grace_period opts \<le> 0 \<longrightarrow> set (op_ids ops s') = live ops s refs')"
proof -
  obtain o1 refs1 where p: "(case ix of
              Some decode_exec \<Rightarrow> if 0 < go_keep_executions opts
                then pruneExecutions ops decode_exec s (go_keep_executions opts) (go_dry_run opts) refs else (Inr 0, refs)
            | None \<Rightarrow> (Inr 0, refs)) = (o1, refs1)" by fastforce
  show ?thesis
  proof (cases o1)
    case (Inl e)
    then show ?thesis using c v unfolding Collect_garbage_def p by auto
  next
    case (Inr pruned)
    show ?thesis
    proof (cases "foldR (mark_ref ops s refs1) (ref_List [] refs1) []")
      case Inl': (Inl e)
      then show ?thesis using c v Inr unfolding Collect_garbage_def p by auto
    next
      case m: (Inr marked)
      let ?r = "\<lparr>gr_scanned = 0, gr_marked = length marked, gr_pruned_exec_refs = pruned, gr_swept = 0, gr_skipped = 0,
                       gr_dry_run = go_dry_run opts\<rparr>"
      have w: "sweep_loop ops modTime opts marked (op_ids ops s) ?r s = (out, s')" "refs' = refs1"
        using c Inr m unfolding Collect_garbage_def p by (auto simp: Let_def split: prod.splits)
      note l = marks_live[OF v m io[unfolded w(2)]]
      from sweep_keeps[OF v w(1)] l show ?thesis unfolding w(2) by (auto 0 3)
    qed
  qed
qed

end

section \<open>Retention\<close>

lemma insert_exec_mset: "mset (insert_exec x ys) = add_mset x (mset ys)"
  by (induction x ys rule: insert_exec.induct) auto

lemma sortExecEntries_mset: "mset (sortExecEntries es) = mset es"
  by (induction es) (auto simp: sortExecEntries_def insert_exec_mset)

lemma exec_before_trans: "\<not> exec_before b a \<Longrightarrow> \<not> exec_before c b \<Longrightarrow> \<not> exec_before c a"
  by (auto simp: exec_before_def split: if_splits)

lemma insert_exec_sorted:
  "sorted_wrt (\<lambda>a b. \<not> exec_before b a) ys \<Longrightarrow> sorted_wrt (\<lambda>a b. \<not> exec_before b a) (insert_exec x ys)"
proof (induction x ys rule: insert_exec.induct)
  case (2 x y ys)
  have s: "set (insert_exec x ys) = insert x (set ys)" by (metis insert_exec_mset set_mset_add_mset_insert set_mset_mset)
  show ?case
  proof (cases "exec_before y x")
    case True
    then have "\<not> exec_before x y" by (auto simp: exec_before_def split: if_splits)
    then show ?thesis using 2 True s by simp
  next
    case False
    then show ?thesis using "2.prems" exec_before_trans by auto
  qed
qed simp

lemma sortExecEntries_sorted: "sorted_wrt (\<lambda>a b. \<not> exec_before b a) (sortExecEntries es)"
  unfolding sortExecEntries_def by (induction es) (auto intro: insert_exec_sorted)

lemma prune_loop_keeps:
  "prune_loop keepSet dry ns k refs = (out, refs') \<Longrightarrow>
     (n \<notin> set ns \<or> target_of refs n \<in> set keepSet \<or> dry \<longrightarrow> gm_get (rt_refs refs') n = gm_get (rt_refs refs) n) \<and>
     (\<forall>r. out = Inr r \<and> \<not> dry \<and> n \<in> set ns \<and> target_of refs n \<notin> set keepSet \<longrightarrow> gm_get (rt_refs refs') n = None)"
proof (induction ns arbitrary: k refs)
  case (Cons m ns)
  show ?case
  proof (cases "ref_Read refs m")
    case (Inl e)
    then show ?thesis using Cons.prems by auto
  next
    case (Inr ref)
    then have m: "target_of refs m = rr_target ref" "gm_get (rt_refs refs) m = Some ref"
      by (auto simp: ref_Read_def ref_read_def target_of_def split: if_splits option.splits)
    show ?thesis
    proof (cases "rr_target ref \<in> set keepSet \<or> dry")
      case True
      then obtain k' where "prune_loop keepSet dry ns k' refs = (out, refs')" using Cons.prems Inr by (auto split: if_splits)
      from Cons.IH[OF this] True m show ?thesis by auto
    next
      case False
      show ?thesis
      proof (cases "ref_Delete m refs")
        case Inl': (Inl e)
        then have "refs' = refs" "out = Inl e" using Cons.prems Inr False by auto
        then show ?thesis by simp
      next
        case u: (Inr u)
        then have "prune_loop keepSet dry ns (k + 1) u = (out, refs')" using Cons.prems Inr False by auto
        note IH = Cons.IH[OF this]
        have del: "gm_get (rt_refs u) x = (if x = m then None else gm_get (rt_refs refs) x)" for x
          using u by (auto simp: ref_Delete_def gm_simps split: if_splits)
        then have "target_of u x = (if x = m then [] else target_of refs x)" for x by (simp add: target_of_def)
        then show ?thesis using IH del[of n] m False by (cases "n = m"; cases "n \<in> set ns") auto
      qed
    qed
  qed
qed auto

lemma collect_refs:
  assumes "Collect_garbage ops modTime ix opts s refs = (out, s', refs')" "\<not> has_prefix n execByIDPrefix"
  shows "gm_get (rt_refs refs') n = gm_get (rt_refs refs) n"
proof -
  have "n \<notin> set (ref_List execByIDPrefix refs)" using assms(2) by (auto simp: ref_List_def execByIDPrefix_def)
  then have p: "pruneExecutions ops d s k dry refs = (o1, refs1) \<Longrightarrow> gm_get (rt_refs refs1) n = gm_get (rt_refs refs) n" for d k dry o1 refs1
    using prune_loop_keeps[of _ dry "ref_List execByIDPrefix refs" 0 refs o1 refs1 n]
    by (auto simp: pruneExecutions_def split: sum.splits if_splits)
  obtain o1 refs1 where q: "(case ix of
              Some decode_exec \<Rightarrow> if 0 < go_keep_executions opts
                then pruneExecutions ops decode_exec s (go_keep_executions opts) (go_dry_run opts) refs else (Inr 0, refs)
            | None \<Rightarrow> (Inr 0, refs)) = (o1, refs1)" by fastforce
  then have "gm_get (rt_refs refs1) n = gm_get (rt_refs refs) n" using p by (auto split: option.splits if_splits)
  moreover have "refs' = refs1" using assms(1) unfolding Collect_garbage_def q by (auto simp: Let_def split: sum.splits prod.splits)
  ultimately show ?thesis by simp
qed

text \<open>
  Retention prunes exactly the references of the oldest executions: the index is sorted newest first, and a
  listed execution reference survives if and only if its target is one of the newest \<open>keep\<close> entries.
\<close>

lemma retention_keeps_the_newest:
  assumes "pruneExecutions ops decode_exec s keep False refs = (Inr pruned, refs')"
    and "BuildExecutions ops decode_exec s refs = Inr entries" "keep < int (length entries)"
    and "name \<in> set (ref_List execByIDPrefix refs)"
  shows "gm_has (rt_refs refs') name \<longleftrightarrow> target_of refs name \<in> ee_object_id ` set (take (nat keep) entries)"
    "sorted_wrt (\<lambda>a b. \<not> exec_before b a) entries"
proof -
  have l: "prune_loop (map ee_object_id (take (nat keep) entries)) False (ref_List execByIDPrefix refs) 0 refs = (Inr pruned, refs')"
    using assms(1-3) by (simp add: pruneExecutions_def)
  have "gm_has (rt_refs refs) name" using assms(4) unfolding ref_List_def by (auto simp: gm_has_iff)
  then show "gm_has (rt_refs refs') name \<longleftrightarrow> target_of refs name \<in> ee_object_id ` set (take (nat keep) entries)"
    using prune_loop_keeps[OF l, of name] assms(4) by (auto simp: gm_has_def)
  show "sorted_wrt (\<lambda>a b. \<not> exec_before b a) entries"
    using assms(2) sortExecEntries_sorted by (auto simp: BuildExecutions_def res_elims)
qed

section \<open>The theorems\<close>

text \<open>
  C5: Garbage collection of the store on disk never loses an object that a listed reference reaches, however the
  run ends - also when a file cannot be removed half-way or a referenced object turns out to be missing: what
  the remaining references that \<open>List\<close> lists reach stays present with its content, the store stays valid,
  references other than those of executions are untouched, and a dry run changes nothing. A run that succeeds
  without a grace period leaves exactly what is reachable. The presence of the referenced objects must be
  readable: a \<open>Stat\<close> that fails counts as an object that is not there, and \<open>List\<close> leaves out some references;
  what is lost then is shown by \<open>failed_stat_loses_objects\<close> and \<open>tmp_reference_is_collected\<close>.
\<close>

theorem gc_keeps_reachable:
  assumes "local_valid digest z l"
    and "\<forall>name \<in> set (ref_List [] refs'). local_Has l (target_of refs' name) \<noteq> Inl ErrIO"
    and "Collect_garbage (local_ops digest z) modTime ix opts l refs = (out, l', refs')"
  shows "local_valid digest z l' \<and>
    (\<forall>i \<in> live (local_ops digest z) l refs'. i \<in> set (local_Iterate l) \<longrightarrow>
       i \<in> set (local_Iterate l') \<and> local_Get digest z l' i = local_Get digest z l i) \<and>
    (\<forall>n. \<not> has_prefix n execByIDPrefix \<longrightarrow> gm_get (rt_refs refs') n = gm_get (rt_refs refs) n) \<and>
    (go_dry_run opts \<longrightarrow> l' = l) \<and>
    (\<forall>r. out = Inr r \<and> \<not> go_dry_run opts \<and> go_grace_period opts \<le> 0 \<longrightarrow>
       set (local_Iterate l') = live (local_ops digest z) l refs')"
proof -
  have ops: "op_get (local_ops digest z) = local_Get digest z" "op_ids (local_ops digest z) = local_Iterate"
    "op_has (local_ops digest z) = local_Has"
    by (simp_all add: local_ops_def)
  show ?thesis using loc.collect_safe[OF assms(1,3)] assms(2) collect_refs[OF assms(3)] unfolding ops by blast
qed

section \<open>Examples\<close>

definition example_digest :: "string \<Rightarrow> string" where
  "example_digest b = take 64 (filter lower_hex b @ replicate 64 (CHR ''0''))"

lemma good_example_digest: "good_digest example_digest"
proof -
  have "lower_hex c" if "c \<in> set (filter lower_hex b @ replicate 64 (CHR ''0''))" for c b
    using that by (auto simp: lower_hex_def is_digit_def)
  then have "list_all lower_hex (example_digest b)" for b
    unfolding example_digest_def list_all_iff by (blast dest: in_set_takeD)
  moreover have "length (example_digest b) = 64" for b by (simp add: example_digest_def)
  ultimately show ?thesis by (simp add: good_digest_def)
qed

definition plain_codec :: codec where
  "plain_codec = \<lparr>zstd_enc = (\<lambda>s. s), zstd_dec = Some\<rparr>"

definition empty_local :: local_store where
  "empty_local = \<lparr>lo_algo = AlgoSHA256, lo_files = [], lo_fails = (\<lambda>_. False),
     lo_stat_fails = (\<lambda>_. False)\<rparr>"

definition put_text :: "string \<Rightarrow> local_store \<Rightarrow> local_store" where
  "put_text s l = (case local_PutBlob example_digest plain_codec s l of Inr (_, l) \<Rightarrow> l | Inl _ \<Rightarrow> l)"

definition id_text :: "string \<Rightarrow> string" where
  "id_text s = AlgoSHA256 @ '':'' @ example_digest (obj_frame KindBlob s)"

lemma empty_local_valid: "local_valid example_digest plain_codec empty_local"
  by (simp add: local_valid_def empty_local_def good_example_digest good_codec_def plain_codec_def)

lemma put_text_valid:
  assumes v: "local_valid example_digest plain_codec l" and n: "id_text s \<notin> set (local_Iterate l)" and len: "length s < 2 ^ 63"
  shows "local_valid example_digest plain_codec (put_text s l)"
proof (cases "local_PutBlob example_digest plain_codec s l")
  case (Inr il)
  obtain i l' where il: "il = (i, l')" by (cases il)
  then have "op_put_blob (local_ops example_digest plain_codec) s l = Inr (i, l')" using Inr by (simp add: local_ops_def)
  from loc.put_blob[OF v this len] n show ?thesis
    using Inr il by (auto simp: added_def put_text_def id_text_def idFor_iff local_ops_def)
qed (use v in \<open>simp add: put_text_def\<close>)

definition example_local :: local_store where
  "example_local = put_text ''dead'' (put_text ''cafe'' empty_local)"

definition example_refs :: ref_store where
  "example_refs = \<lparr>rt_writer = ''cli'', rt_refs = [(''catalogs/main'',
     \<lparr>rr_kind = ''Ref'', rr_target = id_text ''cafe'', rr_updated_at = 0, rr_writer = ''cli''\<rparr>)], rt_fails = (\<lambda>_. False)\<rparr>"

definition example_gc_options :: gc_options where
  "example_gc_options = \<lparr>go_keep_executions = 0, go_grace_period = 0, go_dry_run = False, go_now = 0\<rparr>"

lemma example_local_valid: "local_valid example_digest plain_codec example_local"
proof -
  have "id_text ''cafe'' \<notin> set (local_Iterate empty_local)" by code_simp
  moreover have "id_text ''dead'' \<notin> set (local_Iterate (put_text ''cafe'' empty_local))" by code_simp
  ultimately show ?thesis unfolding example_local_def
    by (intro put_text_valid empty_local_valid) simp_all
qed

lemma put_text_stat: "lo_stat_fails (put_text s l) = lo_stat_fails l"
  by (auto simp: put_text_def local_PutBlob_def local_write_def res_elims split: sum.splits if_splits)

lemma example_local_stat: "lo_stat_fails example_local p = False"
  by (simp add: example_local_def put_text_stat empty_local_def)

theorem gc_keeps_reachable_witness:
  "\<exists>l' refs' r. Collect_garbage (local_ops example_digest plain_codec) (\<lambda>_. None) None example_gc_options example_local example_refs =
      (Inr r, l', refs') \<and> length (local_Iterate example_local) = 2 \<and> local_Iterate l' = [id_text ''cafe''] \<and>
    set (local_Iterate l') = live (local_ops example_digest plain_codec) example_local refs'"
proof -
  let ?c = "Collect_garbage (local_ops example_digest plain_codec) (\<lambda>_. None) None example_gc_options example_local example_refs"
  have run: "case ?c of (Inr r, l', refs') \<Rightarrow> local_Iterate l' = [id_text ''cafe''] | _ \<Rightarrow> False"
    and two: "length (local_Iterate example_local) = 2" by code_simp+
  obtain out l' refs' where c: "?c = (out, l', refs')" by (metis prod_cases3)
  then obtain r where r: "out = Inr r" "local_Iterate l' = [id_text ''cafe'']" using run by (auto split: sum.splits)
  have "\<not> go_dry_run example_gc_options \<and> go_grace_period example_gc_options \<le> 0" by (simp add: example_gc_options_def)
  moreover have "local_Has example_local i \<noteq> Inl ErrIO" for i
    using example_local_stat
    by (auto simp: local_Has_def objectPath_def parseID_def hexLen_def bindR_Inl_iff split: option.splits if_splits)
  ultimately have "set (local_Iterate l') = live (local_ops example_digest plain_codec) example_local refs'"
    using gc_keeps_reachable[OF example_local_valid _ c] r(1) by blast
  then show ?thesis using c r two by blast
qed

text \<open>
  A reference whose last segment starts with \<open>tmp-\<close> - for instance that of a branch \<open>tmp-fix\<close>, under
  \<open>sources/branches/\<close> - is accepted by \<open>Update\<close> and found by \<open>Read\<close>, but \<open>List\<close> takes its file for a
  left-over temporary file: the collector does not see the reference and removes what only it reaches.
\<close>

lemma tmp_reference_is_collected:
  "case ref_Update 0 ''sources/branches/tmp-fix'' [] (id_text ''cafe'') (example_refs\<lparr>rt_refs := []\<rparr>) of
     Inr refs \<Rightarrow> (case ref_Read refs ''sources/branches/tmp-fix'' of
         Inr r \<Rightarrow> rr_target r = id_text ''cafe'' \<and>
           (case Collect_garbage (local_ops example_digest plain_codec) (\<lambda>_. None) None example_gc_options example_local refs of
              (Inr _, l', _) \<Rightarrow> local_Get example_digest plain_codec l' (rr_target r) = Inl ErrNotFound
            | _ \<Rightarrow> False)
       | Inl _ \<Rightarrow> False)
   | Inl _ \<Rightarrow> False"
  by code_simp

text \<open>
  When the \<open>Stat\<close> of a referenced object fails with an error, \<open>Collect\<close> ignores the error and takes the reference
  for a dangling one: it removes the object, though the reference is there and the object can be read.
\<close>

lemma failed_stat_loses_objects:
  "case Collect_garbage (local_ops example_digest plain_codec) (\<lambda>_. None) None example_gc_options
       (put_text ''cafe'' (empty_local\<lparr>lo_stat_fails := (\<lambda>_. True)\<rparr>)) example_refs of
     (Inr r, l', _) \<Rightarrow> gr_swept r = 1 \<and> local_Iterate l' = [] | _ \<Rightarrow> False"
  by code_simp


definition example_exec :: "string \<Rightarrow> local_store \<Rightarrow> string \<times> local_store" where
  "example_exec s l =
     (case local_PutTree example_digest plain_codec [\<lparr>te_name = ''execution.json'', te_kind = KindBlob, te_id = id_text s\<rparr>]
          (put_text s l) of Inr x \<Rightarrow> x | Inl _ \<Rightarrow> ([], l))"

definition example_decode_exec :: "string \<Rightarrow> store_error + exec_run" where
  "example_decode_exec body = Inr \<lparr>er_execution_id = body, er_revision_id = [], er_trigger_id = [], er_status = ''succeeded'',
     er_started_at = body, er_finished_at = []\<rparr>"

definition example_retention :: "bool \<Rightarrow> (store_error + gc_result) \<times> local_store \<times> ref_store" where
  "example_retention dry =
     (let (t1, l1) = example_exec ''aaaa'' empty_local; (t2, l2) = example_exec ''bbbb'' l1;
          r = (\<lambda>t. \<lparr>rr_kind = ''Ref'', rr_target = t, rr_updated_at = 0, rr_writer = ''cli''\<rparr>);
          refs = example_refs\<lparr>rt_refs := [(''executions/by-id/a'', r t1), (''executions/by-id/b'', r t2)]\<rparr>
      in Collect_garbage (local_ops example_digest plain_codec) (\<lambda>_. None) (Some example_decode_exec)
           \<lparr>go_keep_executions = 1, go_grace_period = 0, go_dry_run = dry, go_now = 0\<rparr> l2 refs)"

text \<open>
  A dry run with retention does not report what would be removed: the references it would prune are still
  there when it marks, so the objects of the pruned executions count as reachable.
\<close>

lemma dry_run_underreports:
  "case (example_retention True, example_retention False) of
     ((Inr dry, _), (Inr wet, _)) \<Rightarrow> gr_pruned_exec_refs dry = 1 \<and> gr_swept dry = 0 \<and> gr_pruned_exec_refs wet = 1 \<and> gr_swept wet = 2
   | _ \<Rightarrow> False"
  by code_simp

end
