(* ===== verification/Object_Sync.thy ===== *)
theory Object_Sync
  imports Object_GC
begin

text \<open>
  Synchronising two stores (\<open>internal/objremote\<close>): the closure of a reference is copied, then the
  destination's reference is moved. The copies run in parallel; each is one step on the destination, and
  \<open>schedule\<close> is the order in which they happen to run. The batched presence query of a hosted store is the
  parameter \<open>missing_filter\<close>.
\<close>

definition collect_id :: "string \<Rightarrow> string \<Rightarrow> string list \<Rightarrow> store_error + string list" where
  "collect_id i kind ids = Inr (ids @ [i])"

datatype sync_error = StoreError store_error | CopyMismatch string string

record sync_result =
  sy_closure :: nat
  sy_copied :: nat
  sy_skipped :: nat
  sy_ref_moved :: bool

definition missing_step :: "'d store_ops \<Rightarrow> 'd \<Rightarrow> string \<Rightarrow> string list \<Rightarrow> store_error + string list" where
  "missing_step dops d i missing = bindR (op_has dops d i) (\<lambda>has. Inr (if \<not> has then missing @ [i] else missing))"

definition missingObjects ::
  "'d store_ops \<Rightarrow> ('d \<Rightarrow> string list \<Rightarrow> store_error + string list) option \<Rightarrow> 'd \<Rightarrow> string list \<Rightarrow> store_error + string list" where
  "missingObjects dops missing_filter d ids =
     (case missing_filter of Some f \<Rightarrow> f d ids | None \<Rightarrow> foldR (missing_step dops d) ids [])"

definition verifyCopied :: "string \<Rightarrow> string \<Rightarrow> sync_error option" where
  "verifyCopied want got = (if want \<noteq> got then Some (CopyMismatch want got) else None)"

definition copyObject :: "'s store_ops \<Rightarrow> 'd store_ops \<Rightarrow> 's \<Rightarrow> string \<Rightarrow> 'd \<Rightarrow> sync_error option \<times> 'd" where
  "copyObject sops dops s i d =
     (case op_get sops s i of
        Inl e \<Rightarrow> (Some (StoreError e), d)
      | Inr (kind, body) \<Rightarrow>
          (case (if kind = KindBlob then op_put_blob dops body d
                 else bindR (op_get_tree sops s i) (\<lambda>entries. op_put_tree dops entries d)) of
             Inl e \<Rightarrow> (Some (StoreError e), d)
           | Inr (got, d) \<Rightarrow> (verifyCopied i got, d)))"

fun copy_all :: "'s store_ops \<Rightarrow> 'd store_ops \<Rightarrow> (string \<Rightarrow> bool) \<Rightarrow> 's \<Rightarrow> string list \<Rightarrow> nat \<times> sync_error option \<times> 'd \<Rightarrow>
    nat \<times> sync_error option \<times> 'd" where
  \<comment> \<open>the group of copies: after the first error only those already \<open>started\<close> still run\<close>
  "copy_all sops dops started s [] st = st"
| "copy_all sops dops started s (i # is) (copied, err, d) =
     (if err \<noteq> None \<and> \<not> started i then copy_all sops dops started s is (copied, err, d)
      else (case copyObject sops dops s i d of
          (Some e, d) \<Rightarrow> copy_all sops dops started s is (copied, Some (case err of None \<Rightarrow> e | Some e0 \<Rightarrow> e0), d)
        | (None, d) \<Rightarrow> copy_all sops dops started s is (copied + 1, err, d)))"

record sync_env =
  se_schedule :: "string list \<Rightarrow> string list" \<comment> \<open>the order in which the copies take effect\<close>
  se_started :: "string \<Rightarrow> bool"
  se_others :: "nat \<Rightarrow> ref_store \<Rightarrow> ref_store"
  se_now :: int

definition Sync ::
  "'s store_ops \<Rightarrow> 'd store_ops \<Rightarrow> ('d \<Rightarrow> string list \<Rightarrow> store_error + string list) option \<Rightarrow> sync_env \<Rightarrow> string \<Rightarrow>
     's \<times> ref_store \<Rightarrow> 'd \<times> ref_store \<Rightarrow> (sync_result \<times> sync_error option) \<times> 'd \<times> ref_store" where
  "Sync sops dops missing_filter env refName from dest =
     (let (s, srefs) = from; (d, drefs) = dest;
          res = \<lparr>sy_closure = 0, sy_copied = 0, sy_skipped = 0, sy_ref_moved = False\<rparr>
      in case ref_Read srefs refName of
           Inl e \<Rightarrow> ((res, Some (StoreError e)), d, drefs)
         | Inr ref \<Rightarrow>
             (case store_Walk sops collect_id s (rr_target ref) [] of
                Inl e \<Rightarrow> ((res, Some (StoreError e)), d, drefs)
              | Inr ids \<Rightarrow>
                  (let res = res\<lparr>sy_closure := length ids\<rparr>
                   in if (case ref_Read drefs refName of Inr cur \<Rightarrow> rr_target cur = rr_target ref | Inl _ \<Rightarrow> False)
                      then ((res\<lparr>sy_skipped := length ids\<rparr>, None), d, drefs)
                      else (case missingObjects dops missing_filter d ids of
                          Inl e \<Rightarrow> ((res, Some (StoreError e)), d, drefs)
                        | Inr missing \<Rightarrow>
                            (case copy_all sops dops (se_started env) s (se_schedule env missing) (0, None, d) of
                               (copied, err, d) \<Rightarrow>
                                 (let res = res\<lparr>sy_skipped := length ids - length missing, sy_copied := copied\<rparr>
                                  in case err of
                                       Some e \<Rightarrow> ((res, Some e), d, drefs)
                                     | None \<Rightarrow>
                                         (case moveRef (se_others env) (se_now env) refName (rr_target ref) drefs of
                                            (Inl e, drefs) \<Rightarrow> ((res, Some (StoreError e)), d, drefs)
                                          | (Inr moved, drefs) \<Rightarrow> ((res\<lparr>sy_ref_moved := moved\<rparr>, None), d, drefs))))))))"

definition Push ::
  "'s store_ops \<Rightarrow> 'd store_ops \<Rightarrow> ('d \<Rightarrow> string list \<Rightarrow> store_error + string list) option \<Rightarrow> sync_env \<Rightarrow>
     's \<times> ref_store \<Rightarrow> 'd \<times> ref_store \<Rightarrow> string \<Rightarrow> (sync_result \<times> sync_error option) \<times> 'd \<times> ref_store" where
  "Push lops rops missing_filter env loc_end remote refName = Sync lops rops missing_filter env refName loc_end remote"

definition Pull ::
  "'d store_ops \<Rightarrow> 's store_ops \<Rightarrow> ('d \<Rightarrow> string list \<Rightarrow> store_error + string list) option \<Rightarrow> sync_env \<Rightarrow>
     'd \<times> ref_store \<Rightarrow> 's \<times> ref_store \<Rightarrow> string \<Rightarrow> (sync_result \<times> sync_error option) \<times> 'd \<times> ref_store" where
  "Pull lops rops missing_filter env loc_end remote refName = Sync rops lops missing_filter env refName remote loc_end"

section \<open>Decoded trees re-encode\<close>

lemma decode_entries_encode:
  "decode_entries n AlgoSHA256 prev body = Inr es \<Longrightarrow>
     encodeTreeBody es = body \<and> sorted (map te_name es) \<and> (prev \<noteq> [] \<longrightarrow> (\<forall>e \<in> set es. prev < te_name e)) \<and>
     (\<forall>e \<in> set es. te_name e \<noteq> [])"
proof (induction n AlgoSHA256 prev body arbitrary: es rule: decode_entries.induct)
  case (1 n prev body)
  show ?case
  proof (cases "body = []")
    case True
    then have "es = []" using "1.prems" by (simp add: decode_entries.simps[of n AlgoSHA256 prev "[]"])
    then show ?thesis using True by (simp add: encodeTreeBody_def)
  next
    case False
    obtain kind rest name r es' where d: "cut_at (CHR '' '') body = Some (kind, rest)" "cut_at (CHR 0x00) rest = Some (name, r)"
      "validName name" "\<not> (prev \<noteq> [] \<and> name \<le> prev)" "n \<le> length r" "\<not> (kind \<noteq> KindBlob \<and> kind \<noteq> KindTree)"
      "decode_entries n AlgoSHA256 name (drop n r) = Inr es'"
      "es = \<lparr>te_name = name, te_kind = kind, te_id = AlgoSHA256 @ '':'' @ take n r\<rparr> # es'"
      using "1.prems" False
      by (auto simp: decode_entries.simps[of n AlgoSHA256 prev body] split: option.splits if_splits sum.splits)
    have IH: "encodeTreeBody es' = drop n r \<and> sorted (map te_name es') \<and> (name \<noteq> [] \<longrightarrow> (\<forall>e \<in> set es'. name < te_name e)) \<and>
        (\<forall>e \<in> set es'. te_name e \<noteq> [])"
      using "1.hyps"[OF False d(1) refl d(6) d(2) refl _ _ _ d(7)] d(3-5) by simp
    have "hex_part (AlgoSHA256 @ '':'' @ take n r) = take n r"
      unfolding hex_part_def using cut_at_append[of "CHR '':''" AlgoSHA256 "take n r"] by (simp add: AlgoSHA256_def)
    moreover have "body = kind @ CHR '' '' # name @ CHR 0x00 # r" using d(1,2) by (auto simp: cut_at_Some)
    moreover have "name \<noteq> []" using d(3) name_free by blast
    ultimately show ?thesis using IH d(4) by (auto simp: d(8) encodeTreeBody_def encode_entry_def)
  qed
qed

lemma decode_encodes: "decodeTreeBody body AlgoSHA256 = Inr es \<Longrightarrow> encodeTreeBody es = body \<and> sort_key te_name es = es"
  using decode_entries_encode[of 64 "[]" body es] by (auto simp: decodeTreeBody_def hexLen_def sort_key_id_if_sorted)

section \<open>Complete objects\<close>

definition complete :: "(string \<Rightarrow> store_error + string \<times> string) \<Rightarrow> string \<Rightarrow> bool" where
  \<comment> \<open>everything the object reaches can be read\<close>
  "complete get i \<longleftrightarrow> (\<forall>j \<in> (refers get)\<^sup>* `` {i}. readable get j)"

lemma collect_bind: "collect_id i kind ids = Inr m \<longleftrightarrow> m = ids @ [i]"
  by (auto simp: collect_id_def)

lemma collect_walk: "walk_from n get collect_id root st = Inr st' \<Longrightarrow> snd st = rev (fst st) \<Longrightarrow> snd st' = rev (fst st') \<and>
   (distinct (fst st) \<longrightarrow> distinct (fst st'))"
proof (induction n arbitrary: root st st')
  case (Suc n)
  have f: "foldR (\<lambda>e st. walk_from n get collect_id (te_id e) st) es s = Inr s' \<Longrightarrow> snd s = rev (fst s) \<Longrightarrow>
      snd s' = rev (fst s') \<and> (distinct (fst s) \<longrightarrow> distinct (fst s'))" for es s s'
  proof (induction es arbitrary: s)
    case (Cons e es)
    obtain u where u: "walk_from n get collect_id (te_id e) s = Inr u" "foldR (\<lambda>e st. walk_from n get collect_id (te_id e) st) es u = Inr s'"
      using Cons.prems(1) by (auto simp: res_elims)
    from Suc.IH[OF u(1) Cons.prems(2)] Cons.IH[OF u(2)] show ?case by blast
  qed simp
  show ?case
  proof (cases "root \<in> set (fst st)")
    case False
    then obtain kind body where g: "get root = Inr (kind, body)"
      "(if kind \<noteq> KindTree then Inr (root # fst st, snd st @ [root])
        else bindR (decodeTreeBody body AlgoSHA256) (\<lambda>entries. foldR (\<lambda>e st. walk_from n get collect_id (te_id e) st) entries
          (root # fst st, snd st @ [root]))) = Inr st'"
      using Suc.prems(1) by (auto simp: res_elims Let_def collect_bind)
    then show ?thesis
    proof (cases "kind = KindTree")
      case True
      then obtain es where "decodeTreeBody body AlgoSHA256 = Inr es"
        and es: "foldR (\<lambda>e st. walk_from n get collect_id (te_id e) st) es (root # fst st, snd st @ [root]) = Inr st'"
        using g(2) by (auto simp: res_elims)
      from f[OF es] False Suc.prems(2) show ?thesis by auto
    qed (use False Suc.prems(2) in auto)
  qed (use Suc.prems in auto)
qed simp

lemma store_Walk_collects:
  assumes "store_Walk ops collect_id s root [] = Inr ids"
  shows "set ids = (refers (op_get ops s))\<^sup>* `` {root}" "distinct ids" "complete (op_get ops s) root"
proof -
  obtain vis acc where w: "walk_from (Suc (length (op_ids ops s))) (op_get ops s) collect_id root ([], []) = Inr (vis, acc)" "ids = acc"
    using assms by (auto simp: store_Walk_def res_elims)
  have "acc = rev vis" "distinct vis" using collect_walk[OF w(1)] by simp_all
  then show "set ids = (refers (op_get ops s))\<^sup>* `` {root}" "distinct ids" using walk_reaches(1)[OF w(1)] w(2) by simp_all
  show "complete (op_get ops s) root" using walk_reaches(2)[OF w(1)] by (simp add: complete_def)
qed

text \<open>What agrees with a readable object has the same children, so completeness carries over.\<close>

definition holds_as :: "(string \<Rightarrow> store_error + string \<times> string) \<Rightarrow> (string \<Rightarrow> store_error + string \<times> string) \<Rightarrow> string \<Rightarrow> bool" where
  "holds_as get get' i \<longleftrightarrow> readable get' i \<and> set (children get' i) = set (children get i)"

lemma complete_carries:
  assumes "complete get t" "\<And>i. (t, i) \<in> (refers get)\<^sup>* \<Longrightarrow> holds_as get get' i"
  shows "complete get' t"
proof -
  have "(t, i) \<in> (refers get)\<^sup>*" if "(t, i) \<in> (refers get')\<^sup>*" for i
    using that
  proof (induction rule: rtrancl_induct)
    case (step i j)
    have "(i, j) \<in> refers get" using assms(2)[OF step.IH] step.hyps(2) by (auto simp: holds_as_def refers_def)
    with step.IH show ?case by (rule rtrancl.rtrancl_into_rtrancl)
  qed simp
  then show ?thesis using assms(2) by (auto simp: complete_def holds_as_def)
qed

lemma same_holds: "get' i = get i \<Longrightarrow> readable get i \<Longrightarrow> holds_as get get' i"
  unfolding holds_as_def readable_def children_def by presburger

section \<open>Copying\<close>

locale store_pair = src: object_store digest sops svalid + dst: object_store digest dops dvalid
  for digest :: "string \<Rightarrow> string" and sops :: "'s store_ops" and svalid :: "'s \<Rightarrow> bool"
    and dops :: "'d store_ops" and dvalid :: "'d \<Rightarrow> bool" +
  assumes small: "svalid s \<Longrightarrow> op_get sops s i = Inr (kind, body) \<Longrightarrow> length body < 2 ^ 63"
begin

lemma copyObject_adds:
  assumes "svalid s" "dvalid d" "copyObject sops dops s i d = (err, d')" "i \<notin> set (op_ids dops d)"
    and "op_get sops s i = Inr (kind, body)"
  shows "d' = d \<and> err \<noteq> None \<or> err = None \<and> dvalid d' \<and> set (op_ids dops d') = insert i (set (op_ids dops d)) \<and>
    op_get dops d' i = Inr (kind, body) \<and> (\<forall>j. j \<noteq> i \<longrightarrow> op_get dops d' j = op_get dops d j)"
proof -
  have i: "i \<in> set (op_ids sops s)" using src.get_iff[OF assms(1)] assms(5) by blast
  then have k: "object_kind kind" "idFor digest AlgoSHA256 (obj_frame kind body) = Inr i"
    using src.get_present[OF assms(1) i] assms(5) by auto
  note len = small[OF assms(1,5)]
  have fin: ?thesis if "added digest dops dvalid d d1 got kind body" "(err, d') = (verifyCopied i got, d1)" for d1 got
  proof -
    have "got = i" using that(1) k(2) by (simp add: added_def)
    then have "err = None" "d' = d1" using that(2) by (simp_all add: verifyCopied_def)
    have "added digest dops dvalid d d1 i kind body" using that(1) \<open>got = i\<close> by (simp only:)
    note f = this[unfolded added_def, THEN conjunct2, THEN mp, OF assms(4)]
    show ?thesis unfolding \<open>err = None\<close> \<open>d' = d1\<close> by (rule disjI2, rule conjI, rule refl, rule f)
  qed
  show ?thesis
  proof (cases "kind = KindBlob")
    case True
    show ?thesis
    proof (cases "op_put_blob dops body d")
      case (Inr x)
      obtain got d1 where x: "x = (got, d1)" by (cases x)
      have "op_put_blob dops body d = Inr (got, d1)" using Inr x by simp
      from dst.put_blob[OF assms(2) this len] have "added digest dops dvalid d d1 got kind body" unfolding True .
      moreover have "(err, d') = (verifyCopied i got, d1)" using Inr x True assms(3,5) by (simp add: copyObject_def)
      ultimately show ?thesis by (rule fin)
    qed (use assms(3,5) True in \<open>auto simp: copyObject_def\<close>)
  next
    case False
    then have tree: "kind = KindTree" using k(1) by (simp add: object_kind_def)
    show ?thesis
    proof (cases "bindR (op_get_tree sops s i) (\<lambda>entries. op_put_tree dops entries d)")
      case (Inr x)
      obtain got d1 where x: "x = (got, d1)" by (cases x)
      obtain es where es: "decodeTreeBody body AlgoSHA256 = Inr es" "op_put_tree dops es d = Inr (got, d1)"
        using Inr x tree assms(5) by (auto simp: src.get_tree[OF assms(1)] res_elims)
      have "added digest dops dvalid d d1 got kind body"
        using dst.put_tree[OF assms(2) es(2)] decode_encodes[OF es(1)] len tree by simp
      moreover have "(err, d') = (verifyCopied i got, d1)" using Inr x False assms(3,5) by (simp add: copyObject_def)
      ultimately show ?thesis by (rule fin)
    qed (use assms(3,5) False in \<open>auto simp: copyObject_def\<close>)
  qed
qed

definition copied_from :: "'s \<Rightarrow> 'd \<Rightarrow> string set \<Rightarrow> 'd \<Rightarrow> bool" where
  \<comment> \<open>the destination holds what it held, and these objects as the source has them\<close>
  "copied_from s d new d' \<longleftrightarrow> dvalid d' \<and> set (op_ids dops d') = set (op_ids dops d) \<union> new \<and>
     (\<forall>i \<in> new. op_get dops d' i = op_get sops s i) \<and> (\<forall>i. i \<notin> new \<longrightarrow> op_get dops d' i = op_get dops d i)"

lemma copy_all_adds:
  assumes "svalid s" "copy_all sops dops started s is (n, err, d1) = (n', err', d')" "copied_from s d new d1"
    and "distinct is" "set is \<inter> (set (op_ids dops d) \<union> new) = {}" "set is \<subseteq> set (op_ids sops s)"
  shows "\<exists>new'. copied_from s d (new \<union> new') d' \<and> new' \<subseteq> set is \<and> n' = n + card new' \<and> (err' = None \<longrightarrow> err = None \<and> new' = set is)"
  using assms(2-)
proof (induction "is" arbitrary: n err d1 new)
  case Nil
  then show ?case by (intro exI[of _ "{}"]) simp
next
  case (Cons i "is")
  obtain kind body where g: "op_get sops s i = Inr (kind, body)" using src.get_present[OF assms(1)] Cons.prems(5) by fastforce
  obtain e d2 where c: "copyObject sops dops s i d1 = (e, d2)" by fastforce
  have v: "dvalid d1" and fresh: "i \<notin> set (op_ids dops d1)" using Cons.prems(2,4) by (auto simp: copied_from_def)
  note step = copyObject_adds[OF assms(1) v c fresh g]
  consider (same) n2 err2 where "copy_all sops dops started s is (n, err2, d1) = (n', err', d')" "n2 = n" "err2 \<noteq> None"
    | (copied) "e = None" "copy_all sops dops started s is (n + 1, err, d2) = (n', err', d')"
    using Cons.prems(1) c step by (auto split: if_splits option.splits)
  then show ?case
  proof cases
    case same
    then obtain new' where "copied_from s d (new \<union> new') d'" "new' \<subseteq> set is" "n' = n + card new'" "err' \<noteq> None"
      using Cons.IH[OF same(1) Cons.prems(2)] Cons.prems(3-5) by auto
    then show ?thesis by auto
  next
    case copied
    then have d2: "copied_from s d (insert i new) d2" using step Cons.prems(2,4) g by (auto simp: copied_from_def)
    obtain new' where n: "copied_from s d (insert i new \<union> new') d'" "new' \<subseteq> set is" "n' = n + 1 + card new'"
      "err' = None \<longrightarrow> err = None \<and> new' = set is"
      using Cons.IH[OF copied(2) d2] Cons.prems(3-5) by auto
    have "finite new'" "i \<notin> new'" using n(2) Cons.prems(3) by (auto intro: finite_subset)
    then show ?thesis using n by (intro exI[of _ "insert i new'"]) auto
  qed
qed

lemma copied_complete:
  assumes "svalid s" "dvalid d" "copied_from s d new d'" "new \<subseteq> set (op_ids sops s) - set (op_ids dops d)"
  shows "complete (op_get dops d) t \<Longrightarrow> complete (op_get dops d') t"
proof -
  assume c: "complete (op_get dops d) t"
  show ?thesis
  proof (rule complete_carries[OF c])
    fix i assume "(t, i) \<in> (refers (op_get dops d))\<^sup>*"
    then have r: "readable (op_get dops d) i" using c by (auto simp: complete_def)
    then have "i \<in> set (op_ids dops d)" using dst.get_iff[OF assms(2)] by (auto simp: readable_def)
    then have "op_get dops d' i = op_get dops d i" using assms(3,4) by (auto simp: copied_from_def)
    then show "holds_as (op_get dops d) (op_get dops d') i" using r by (rule same_holds)
  qed
qed

lemma missing_objects:
  assumes "dvalid d" "foldR (missing_step dops d) ids acc = Inr missing"
  shows "missing = acc @ filter (\<lambda>i. i \<notin> set (op_ids dops d)) ids"
  using assms(2)
proof (induction ids arbitrary: acc)
  case (Cons i ids)
  obtain has where h: "op_has dops d i = Inr has"
    "foldR (missing_step dops d) ids (if \<not> has then acc @ [i] else acc) = Inr missing"
  proof -
    obtain a where a: "missing_step dops d i acc = Inr a" "foldR (missing_step dops d) ids a = Inr missing"
      using Cons.prems by (auto simp: res_elims)
    then show thesis using that by (auto simp: missing_step_def[of _ _ i] res_elims)
  qed
  have "has \<longleftrightarrow> i \<in> set (op_ids dops d)" by (rule dst.has_ids[OF assms(1) h(1)])
  then show ?case using Cons.IH[OF h(2)] by simp
qed simp

definition agree :: "'s \<Rightarrow> 'd \<Rightarrow> bool" where
  \<comment> \<open>no object has a different content in the two stores\<close>
  "agree s d \<longleftrightarrow> (\<forall>i \<in> set (op_ids sops s) \<inter> set (op_ids dops d). op_get dops d i = op_get sops s i)"

lemma same_closure:
  assumes "svalid s" "dvalid d" "complete (op_get sops s) t" "complete (op_get dops d) t" "agree s d"
  shows "(t, i) \<in> (refers (op_get sops s))\<^sup>* \<Longrightarrow> (t, i) \<in> (refers (op_get dops d))\<^sup>* \<and> op_get dops d i = op_get sops s i"
proof -
  have same: "op_get dops d i = op_get sops s i" if "(t, i) \<in> (refers (op_get sops s))\<^sup>*" "(t, i) \<in> (refers (op_get dops d))\<^sup>*" for i
  proof -
    have "readable (op_get sops s) i" "readable (op_get dops d) i" using that assms(3,4) by (auto simp: complete_def)
    then have "i \<in> set (op_ids sops s)" "i \<in> set (op_ids dops d)"
      using src.get_iff[OF assms(1)] dst.get_iff[OF assms(2)] by (auto simp: readable_def)
    then show ?thesis using assms(5) by (simp add: agree_def)
  qed
  show "(t, i) \<in> (refers (op_get sops s))\<^sup>* \<Longrightarrow> (t, i) \<in> (refers (op_get dops d))\<^sup>* \<and> op_get dops d i = op_get sops s i"
  proof (induction rule: rtrancl_induct)
    case base
    then show ?case using same by blast
  next
    case (step i j)
    then have "children (op_get dops d) i = children (op_get sops s) i" unfolding children_def by presburger
    then have "(i, j) \<in> refers (op_get dops d)" using step.hyps(2) by (simp add: refers_def)
    then have "(t, j) \<in> (refers (op_get dops d))\<^sup>*" using step.IH by (meson rtrancl.rtrancl_into_rtrancl)
    moreover have "(t, j) \<in> (refers (op_get sops s))\<^sup>*" using step.hyps by (rule rtrancl.rtrancl_into_rtrancl)
    ultimately show ?case using same by blast
  qed
qed

lemma copies_complete:
  assumes "svalid s" "dvalid d" "agree s d" "complete (op_get sops s) t" "copied_from s d new d'"
    and "new = (refers (op_get sops s))\<^sup>* `` {t} - set (op_ids dops d)"
  shows "\<forall>i \<in> (refers (op_get sops s))\<^sup>* `` {t}. op_get dops d' i = op_get sops s i" "complete (op_get dops d') t"
proof -
  show all: "\<forall>i \<in> (refers (op_get sops s))\<^sup>* `` {t}. op_get dops d' i = op_get sops s i"
  proof
    fix i assume i: "i \<in> (refers (op_get sops s))\<^sup>* `` {t}"
    then have "readable (op_get sops s) i" using assms(4) by (simp add: complete_def)
    then have "i \<in> set (op_ids sops s)" using src.get_iff[OF assms(1)] by (auto simp: readable_def)
    then show "op_get dops d' i = op_get sops s i" using i assms(3,5,6) by (auto simp: copied_from_def agree_def)
  qed
  show "complete (op_get dops d') t"
  proof (rule complete_carries[OF assms(4)])
    fix i assume "(t, i) \<in> (refers (op_get sops s))\<^sup>*"
    then show "holds_as (op_get sops s) (op_get dops d') i"
      using all assms(4) by (intro same_holds) (auto simp: complete_def)
  qed
qed

definition replicated :: "'s \<Rightarrow> 'd \<Rightarrow> string \<Rightarrow> bool" where
  \<comment> \<open>all that the source reaches from the target is there, with the same content\<close>
  "replicated s d t \<longleftrightarrow> complete (op_get dops d) t \<and>
     (\<forall>i \<in> (refers (op_get sops s))\<^sup>* `` {t}. op_get dops d i = op_get sops s i)"

lemma reached_present: "svalid s \<Longrightarrow> complete (op_get sops s) t \<Longrightarrow> (refers (op_get sops s))\<^sup>* `` {t} \<subseteq> set (op_ids sops s)"
  using src.get_iff by (fastforce simp: complete_def readable_def)

text \<open>The cases of a synchronisation: nothing was done, copying failed, or the reference was to be moved.\<close>

definition exact_filter :: "('d \<Rightarrow> string list \<Rightarrow> store_error + string list) option \<Rightarrow> bool" where
  \<comment> \<open>a batched presence query that fails or gives what is absent, in any order\<close>
  "exact_filter missing_filter \<longleftrightarrow> (\<forall>f d ids missing. missing_filter = Some f \<and> f d ids = Inr missing \<longrightarrow>
     mset missing = mset (filter (\<lambda>i. i \<notin> set (op_ids dops d)) ids))"

lemma missing_exact:
  assumes "dvalid d" "exact_filter missing_filter" "missingObjects dops missing_filter d ids = Inr missing"
  shows "mset missing = mset (filter (\<lambda>i. i \<notin> set (op_ids dops d)) ids)"
proof (cases missing_filter)
  case None
  then show ?thesis using missing_objects[OF assms(1), of ids "[]" missing] assms(3) by (simp add: missingObjects_def)
next
  case (Some f)
  then show ?thesis using assms(2,3) by (auto simp: exact_filter_def missingObjects_def)
qed

lemma sync_cases:
  assumes "svalid s" "dvalid d" "exact_filter missing_filter" "\<And>xs. mset (se_schedule env xs) = mset xs"
    and "Sync sops dops missing_filter env refName (s, srefs) (d, drefs) = ((res, err), d', drefs')"
  shows "(err \<noteq> None \<and> d' = d \<and> drefs' = drefs) \<or>
    (\<exists>ref new. ref_Read srefs refName = Inr ref \<and> complete (op_get sops s) (rr_target ref) \<and>
       ((err = None \<and> d' = d \<and> drefs' = drefs \<and> target_of drefs refName = rr_target ref \<and> (\<exists>cur. ref_Read drefs refName = Inr cur)) \<or>
        (copied_from s d new d' \<and> new \<subseteq> (refers (op_get sops s))\<^sup>* `` {rr_target ref} - set (op_ids dops d) \<and> sy_copied res = card new \<and>
          ((err \<noteq> None \<and> drefs' = drefs) \<or>
           (new = (refers (op_get sops s))\<^sup>* `` {rr_target ref} - set (op_ids dops d) \<and>
            (\<exists>out. moveRef (se_others env) (se_now env) refName (rr_target ref) drefs = (out, drefs') \<and> (err = None \<longleftrightarrow> (\<exists>b. out = Inr b))))))))"
proof (cases "ref_Read srefs refName")
  case (Inl e)
  then show ?thesis using assms(5) by (auto simp: Sync_def)
next
  case ref: (Inr ref)
  show ?thesis
  proof (cases "store_Walk sops collect_id s (rr_target ref) []")
    case (Inl e)
    then show ?thesis using ref assms(5) by (auto simp: Sync_def)
  next
    case walk: (Inr ids)
    note w = store_Walk_collects[OF walk]
    show ?thesis
    proof (cases "case ref_Read drefs refName of Inr cur \<Rightarrow> rr_target cur = rr_target ref | Inl _ \<Rightarrow> False")
      case True
      then obtain cur where c: "ref_Read drefs refName = Inr cur" "rr_target cur = rr_target ref" by (auto split: sum.splits)
      then have "target_of drefs refName = rr_target ref"
        by (auto simp: ref_Read_def ref_read_def target_of_def split: if_splits option.splits)
      then show ?thesis using True ref walk w(3) c assms(5) by (auto simp: Sync_def Let_def)
    next
      case False
      show ?thesis
      proof (cases "missingObjects dops missing_filter d ids")
        case (Inl e)
        then show ?thesis using ref walk False assms(5) by (auto simp: Sync_def Let_def)
      next
        case miss: (Inr missing)
        let ?sch = "se_schedule env missing"
        have m: "mset ?sch = mset (filter (\<lambda>i. i \<notin> set (op_ids dops d)) ids)"
          using missing_exact[OF assms(2,3) miss] assms(4) by simp
        have sch: "distinct ?sch" "set ?sch = (refers (op_get sops s))\<^sup>* `` {rr_target ref} - set (op_ids dops d)"
          using mset_eq_imp_distinct_iff[OF m] mset_eq_setD[OF m] w(2) unfolding w(1)[symmetric] by auto
        obtain n' err' d1 where c: "copy_all sops dops (se_started env) s ?sch (0, None, d) = (n', err', d1)"
          by (metis prod_cases3)
        have "copied_from s d {} d" using assms(2) by (simp add: copied_from_def)
        moreover have "set ?sch \<inter> (set (op_ids dops d) \<union> {}) = {}" "set ?sch \<subseteq> set (op_ids sops s)"
          using sch(2) reached_present[OF assms(1) w(3)] by auto
        ultimately obtain new where n: "copied_from s d new d1" "new \<subseteq> set ?sch" "n' = card new" "err' = None \<longrightarrow> new = set ?sch"
          using copy_all_adds[OF assms(1) c _ sch(1), of d "{}"] by auto
        show ?thesis
        proof (cases err')
          case (Some e)
          then have "err \<noteq> None" "d' = d1" "drefs' = drefs" "sy_copied res = card new"
            using ref walk False miss c n(3) assms(5) by (auto simp: Sync_def Let_def)
          then show ?thesis using ref w(3) n sch(2) by blast
        next
          case None
          obtain out r where mv: "moveRef (se_others env) (se_now env) refName (rr_target ref) drefs = (out, r)" by fastforce
          have "d' = d1 \<and> drefs' = r \<and> sy_copied res = card new \<and> (err = None \<longleftrightarrow> (\<exists>b. out = Inr b))"
            using ref walk False miss c n(3) None mv assms(5) by (cases out) (auto simp: Sync_def Let_def)
          then show ?thesis using ref w(3) n sch(2) None mv by blast
        qed
      qed
    qed
  qed
qed

lemma copied_keeps:
  assumes "copied_from s d new d'" "new \<subseteq> A - set (op_ids dops d)"
  shows "dvalid d' \<and> (\<forall>i. i \<in> set (op_ids dops d) \<longrightarrow> i \<in> set (op_ids dops d') \<and> op_get dops d' i = op_get dops d i)"
proof (intro conjI allI impI)
  fix i assume "i \<in> set (op_ids dops d)"
  then show "i \<in> set (op_ids dops d')" "op_get dops d' i = op_get dops d i" using assms by (auto simp: copied_from_def)
qed (use assms(1) in \<open>simp add: copied_from_def\<close>)

lemma sync_safe:
  assumes "svalid s" "dvalid d" "agree s d" "exact_filter missing_filter" "\<And>xs. mset (se_schedule env xs) = mset xs"
    and "refs_all (complete (op_get dops d)) drefs"
    and others: "\<forall>k st n r. gm_get (rt_refs (se_others env k st)) n = Some r \<longrightarrow>
      gm_get (rt_refs st) n = Some r \<or> complete (op_get dops d) (rr_target r)"
    and run: "Sync sops dops missing_filter env refName (s, srefs) (d, drefs) = ((res, err), d', drefs')"
  shows "dvalid d'" "\<And>i. i \<in> set (op_ids dops d) \<Longrightarrow> i \<in> set (op_ids dops d') \<and> op_get dops d' i = op_get dops d i"
    "refs_all (complete (op_get dops d')) drefs'"
    "err = None \<Longrightarrow> \<exists>ref. ref_Read srefs refName = Inr ref \<and> target_of drefs' refName = rr_target ref \<and> replicated s d' (rr_target ref)"
proof -
  from sync_cases[OF assms(1,2,4,5) run] consider
    (failed) "err \<noteq> None" "d' = d" "drefs' = drefs"
    | (fast) ref cur where "ref_Read srefs refName = Inr ref" "complete (op_get sops s) (rr_target ref)" "d' = d" "drefs' = drefs"
        "target_of drefs refName = rr_target ref" "ref_Read drefs refName = Inr cur"
    | (part) ref new where "ref_Read srefs refName = Inr ref" "copied_from s d new d'"
        "new \<subseteq> (refers (op_get sops s))\<^sup>* `` {rr_target ref} - set (op_ids dops d)" "complete (op_get sops s) (rr_target ref)"
        "err \<noteq> None" "drefs' = drefs"
    | (all) ref out where "ref_Read srefs refName = Inr ref" "complete (op_get sops s) (rr_target ref)"
        "copied_from s d ((refers (op_get sops s))\<^sup>* `` {rr_target ref} - set (op_ids dops d)) d'"
        "moveRef (se_others env) (se_now env) refName (rr_target ref) drefs = (out, drefs')" "err = None \<longleftrightarrow> (\<exists>b. out = Inr b)"
    by (elim disjE exE conjE) simp_all
  then have "dvalid d' \<and> (\<forall>i. i \<in> set (op_ids dops d) \<longrightarrow> i \<in> set (op_ids dops d') \<and> op_get dops d' i = op_get dops d i) \<and>
    refs_all (complete (op_get dops d')) drefs' \<and>
    (err = None \<longrightarrow> (\<exists>ref. ref_Read srefs refName = Inr ref \<and> target_of drefs' refName = rr_target ref \<and> replicated s d' (rr_target ref)))"
  proof cases
    case failed
    then show ?thesis using assms(2,6) by auto
  next
    case fast
    have t: "rr_target cur = rr_target ref"
      using fast(5,6) by (auto simp: ref_Read_def ref_read_def target_of_def split: if_splits option.splits)
    have c: "complete (op_get dops d) (rr_target ref)" using refs_allD[OF assms(6) fast(6)] t by simp
    have "replicated s d (rr_target ref)" using c same_closure[OF assms(1,2) fast(2) c assms(3)] by (auto simp: replicated_def)
    then show ?thesis using fast assms(2,6) by simp
  next
    case part
    have "new \<subseteq> set (op_ids sops s) - set (op_ids dops d)" using part(3) reached_present[OF assms(1) part(4)] by blast
    note up = copied_complete[OF assms(1,2) part(2) this]
    have "refs_all (complete (op_get dops d')) drefs'" unfolding part(6) by (rule refs_all_mono[OF assms(6) up])
    then show ?thesis using copied_keeps[OF part(2,3)] part(5) by blast
  next
    case all
    let ?new = "(refers (op_get sops s))\<^sup>* `` {rr_target ref} - set (op_ids dops d)"
    have "?new \<subseteq> set (op_ids sops s) - set (op_ids dops d)" using reached_present[OF assms(1) all(2)] by blast
    note up = copied_complete[OF assms(1,2) all(3) this]
    note c = copies_complete[OF assms(1-3) all(2,3) refl]
    have "refs_all (complete (op_get dops d')) (se_others env k st)" if "refs_all (complete (op_get dops d')) st" for k st
      using that others up unfolding refs_all_def by blast
    from move_attempts_refs_all[OF this c(2) all(4)[unfolded moveRef_def] refs_all_mono[OF assms(6) up]]
    have "refs_all (complete (op_get dops d')) drefs'" by blast
    moreover have "target_of drefs' refName = rr_target ref" if "err = None"
      using all(4,5) that move_attempts_moved unfolding moveRef_def by blast
    moreover note copied_keeps[OF all(3) subset_refl]
    ultimately show ?thesis using all(1) c unfolding replicated_def by blast
  qed
  then show "dvalid d'" "\<And>i. i \<in> set (op_ids dops d) \<Longrightarrow> i \<in> set (op_ids dops d') \<and> op_get dops d' i = op_get dops d i"
    "refs_all (complete (op_get dops d')) drefs'"
    "err = None \<Longrightarrow> \<exists>ref. ref_Read srefs refName = Inr ref \<and> target_of drefs' refName = rr_target ref \<and> replicated s d' (rr_target ref)"
    by simp_all
qed

end

section \<open>Between two directories\<close>

lemma parseFrame_small: "parseFrame s = Inr (kind, body) \<Longrightarrow> length body < 2 ^ 63"
  by (auto simp: parseFrame_def parse_int_def Let_def nat_less_iff split: option.splits if_splits)

lemma local_small: "local_valid digest z l \<Longrightarrow> local_Get digest z l i = Inr (kind, body) \<Longrightarrow> length body < 2 ^ 63"
  by (auto simp: local_Get_def res_elims dest: parseFrame_small split: option.splits if_splits)

interpretation dirs: store_pair digest "local_ops digest z" "local_valid digest z" "local_ops digest z'" "local_valid digest z'" for digest z z'
  by unfold_locales (auto simp: local_ops_def dest: local_small)

interpretation from_mem: store_pair digest "local_ops digest z" "local_valid digest z" "mem_ops digest" "mem_valid digest" for digest z
  by unfold_locales (auto simp: local_ops_def dest: local_small)

definition no_collision :: "(string \<Rightarrow> string) \<Rightarrow> codec \<Rightarrow> local_store \<Rightarrow> codec \<Rightarrow> local_store \<Rightarrow> bool" where
  \<comment> \<open>no two different objects of the two stores have the same digest\<close>
  "no_collision digest z s z' d \<longleftrightarrow> (\<forall>i j k b k' b'. local_Get digest z s i = Inr (k, b) \<and> local_Get digest z' d j = Inr (k', b') \<and>
     digest (obj_frame k b) = digest (obj_frame k' b') \<longrightarrow> obj_frame k b = obj_frame k' b')"

lemma local_parses: "local_valid digest z l \<Longrightarrow> i \<in> set (local_Iterate l) \<Longrightarrow>
   \<exists>k b. local_Get digest z l i = Inr (k, b) \<and> idFor digest AlgoSHA256 (obj_frame k b) = Inr i \<and> parseFrame (obj_frame k b) = Inr (k, b)"
  using loc.get_present[of digest z l i] local_small[of digest z l i] parseFrame_frame by (fastforce simp: local_ops_def)

lemma no_collision_agree:
  assumes "local_valid digest z s" "local_valid digest z' d" "no_collision digest z s z' d"
  shows "dirs.agree digest z z' s d"
  unfolding dirs.agree_def
proof
  fix i assume "i \<in> set (op_ids (local_ops digest z) s) \<inter> set (op_ids (local_ops digest z') d)"
  then have i: "i \<in> set (local_Iterate s) \<inter> set (local_Iterate d)" by (simp add: local_ops_def)
  obtain k b where s: "local_Get digest z s i = Inr (k, b)" "idFor digest AlgoSHA256 (obj_frame k b) = Inr i" "parseFrame (obj_frame k b) = Inr (k, b)"
    using local_parses[OF assms(1)] i by blast
  obtain k' b' where d: "local_Get digest z' d i = Inr (k', b')" "idFor digest AlgoSHA256 (obj_frame k' b') = Inr i"
    "parseFrame (obj_frame k' b') = Inr (k', b')"
    using local_parses[OF assms(2)] i by blast
  have "digest (obj_frame k b) = digest (obj_frame k' b')" using s(2) d(2) by (simp add: idFor_iff)
  then have "obj_frame k b = obj_frame k' b'" using assms(3) s(1) d(1) unfolding no_collision_def by blast
  with s(3) d(3) have "(k, b) = (k', b')" by (metis sum.inject(2))
  with s(1) d(1) have "local_Get digest z' d i = local_Get digest z s i" by (simp only:)
  then show "op_get (local_ops digest z') d i = op_get (local_ops digest z) s i" by (simp add: local_ops_def)
qed

section \<open>The theorem\<close>

text \<open>
  C15: Synchronising between two stores on disk never leaves a reference whose objects are not all there.
  Whatever the order in which the copies take effect, wherever one of them fails and whichever are still
  running then, and whatever other writers do to the references meanwhile (as long as they point them at
  complete objects): the destination stays valid, keeps every object it had with its content, and each of
  its references is complete. A run that succeeds has the reference at the source's target, and every
  object the source reaches from it is at the destination with the same content.
\<close>

theorem sync_replicates:
  assumes "local_valid digest z s" "local_valid digest z' d" "no_collision digest z s z' d"
    and "\<And>xs. mset (se_schedule env xs) = mset xs"
    and "\<And>n r. gm_get (rt_refs drefs) n = Some r \<Longrightarrow> complete (local_Get digest z' d) (rr_target r)"
    and "\<And>k st n r. gm_get (rt_refs (se_others env k st)) n = Some r \<Longrightarrow>
      gm_get (rt_refs st) n = Some r \<or> complete (local_Get digest z' d) (rr_target r)"
    and "Sync (local_ops digest z) (local_ops digest z') None env refName (s, srefs) (d, drefs) = ((res, err), d', drefs')"
  shows "local_valid digest z' d' \<and>
    (\<forall>i \<in> set (local_Iterate d). i \<in> set (local_Iterate d') \<and> local_Get digest z' d' i = local_Get digest z' d i) \<and>
    (\<forall>n r. gm_get (rt_refs drefs') n = Some r \<longrightarrow> complete (local_Get digest z' d') (rr_target r)) \<and>
    (err = None \<longrightarrow> (\<exists>ref. ref_Read srefs refName = Inr ref \<and> target_of drefs' refName = rr_target ref \<and>
       (\<forall>i \<in> (refers (local_Get digest z s))\<^sup>* `` {rr_target ref}. local_Get digest z' d' i = local_Get digest z s i)))"
proof -
  have ops: "op_get (local_ops digest z) = local_Get digest z" "op_ids (local_ops digest z) = local_Iterate" for z
    by (simp_all add: local_ops_def)
  have e: "dirs.exact_filter digest z' None" by (simp add: dirs.exact_filter_def)
  have a: "refs_all (complete (op_get (local_ops digest z') d)) drefs" using assms(5) by (simp add: refs_all_def ops)
  have o: "\<forall>k st n r. gm_get (rt_refs (se_others env k st)) n = Some r \<longrightarrow>
      gm_get (rt_refs st) n = Some r \<or> complete (op_get (local_ops digest z') d) (rr_target r)"
    using assms(6) unfolding ops by blast
  note safe = dirs.sync_safe[OF assms(1,2) no_collision_agree[OF assms(1-3)] e assms(4) a o assms(7), unfolded ops]
  have "(\<forall>n r. gm_get (rt_refs drefs') n = Some r \<longrightarrow> complete (local_Get digest z' d') (rr_target r))"
    using safe(3) by (simp add: refs_all_def)
  then show ?thesis using safe(1,2,4) unfolding dirs.replicated_def ops by blast
qed

definition example_sync_env :: sync_env where
  "example_sync_env = \<lparr>se_schedule = rev, se_started = (\<lambda>_. False), se_others = (\<lambda>_ st. st), se_now = 7\<rparr>"

theorem sync_replicates_witness:
  "\<exists>res d' drefs'. Sync (local_ops example_digest plain_codec) (local_ops example_digest plain_codec) None example_sync_env ''catalogs/main''
      (example_local, example_refs) (empty_local, example_refs\<lparr>rt_refs := []\<rparr>) = ((res, None), d', drefs') \<and>
     sy_copied res = 1 \<and> local_valid example_digest plain_codec d' \<and> target_of drefs' ''catalogs/main'' = id_text ''cafe''"
proof -
  let ?c = "Sync (local_ops example_digest plain_codec) (local_ops example_digest plain_codec) None example_sync_env ''catalogs/main''
      (example_local, example_refs) (empty_local, example_refs\<lparr>rt_refs := []\<rparr>)"
  have run: "case ?c of ((res, None), d', drefs') \<Rightarrow> sy_copied res = 1 | _ \<Rightarrow> False" by code_simp
  obtain res err d' drefs' where c: "?c = ((res, err), d', drefs')" by (metis surj_pair)
  have n: "no_collision example_digest plain_codec example_local plain_codec empty_local"
    by (auto simp: no_collision_def empty_local_def local_Get_def getSerialized_def res_elims split: option.splits)
  have m: "mset (se_schedule example_sync_env xs) = mset xs" for xs by (simp add: example_sync_env_def)
  have r: "ref_Read example_refs ''catalogs/main'' = Inr ref \<Longrightarrow> rr_target ref = id_text ''cafe''" for ref
  proof -
    have "case ref_Read example_refs ''catalogs/main'' of Inr ref \<Rightarrow> rr_target ref = id_text ''cafe'' | Inl _ \<Rightarrow> False" by code_simp
    then show "ref_Read example_refs ''catalogs/main'' = Inr ref \<Longrightarrow> rr_target ref = id_text ''cafe''" by simp
  qed
  show ?thesis
    using sync_replicates[OF example_local_valid empty_local_valid n m _ _ c] run r unfolding c
    by (auto simp: example_sync_env_def split: option.splits)
qed

end
