(* ===== verification/Object_Trees.thy ===== *)
theory Object_Trees
  imports Object_GC
begin

text \<open>
  Trees in the store on disk: what \<open>PutTree\<close> stores, \<open>GetTree\<close> gives back sorted by name, under an id that
  does not depend on the order of the entries.
\<close>

definition fits :: "string \<Rightarrow> tree_entry \<Rightarrow> bool" where
  "fits algo e \<longleftrightarrow> validName (te_name e) \<and> object_kind (te_kind e) \<and> (\<exists>h. parseID (te_id e) = Inr (algo, h))"

lemma check_entries_iff:
  "(\<exists>seen'. foldR (check_entry algo) es seen = Inr seen') \<longleftrightarrow>
     (\<forall>e \<in> set es. fits algo e \<and> te_name e \<notin> set seen) \<and> distinct (map te_name es)"
proof (induction es arbitrary: seen)
  case (Cons e es)
  have s: "check_entry algo e seen = Inr s \<longleftrightarrow> s = te_name e # seen \<and> fits algo e \<and> te_name e \<notin> set seen" for s
    by (auto simp: check_entry_def fits_def object_kind_def res_elims split: if_splits)
  have h: "(\<exists>seen'. foldR (check_entry algo) (e # es) seen = Inr seen') \<longleftrightarrow>
      (fits algo e \<and> te_name e \<notin> set seen) \<and> (\<exists>seen'. foldR (check_entry algo) es (te_name e # seen) = Inr seen')"
    using s by (auto simp: res_elims)
  show ?case unfolding h Cons.IH by (auto simp: image_iff)
qed simp

lemma sort_key_perm:
  assumes "mset es' = mset es" "distinct (map f es)"
  shows "sort_key f es' = sort_key f es"
proof (rule map_sorted_distinct_set_unique)
  have m: "mset (map f es') = mset (map f es)" using assms(1) by (metis mset_map)
  have s: "set es' = set es" using assms(1) by (rule mset_eq_setD)
  show "inj_on f (set (sort_key f es') \<union> set (sort_key f es))" using assms(2) s by (simp add: distinct_map)
  show "distinct (map f (sort_key f es))" using assms(2) by (simp add: distinct_map)
  show "distinct (map f (sort_key f es'))" using mset_eq_imp_distinct_iff[OF m] assms(2) by (simp add: distinct_map)
  show "set (sort_key f es') = set (sort_key f es)" using s by simp
qed simp_all

lemma sortValidate_perm:
  assumes "mset es' = mset es" "sortValidateEntries es algo = Inr srt"
  shows "sortValidateEntries es' algo = Inr srt"
proof -
  have ok: "\<exists>seen. foldR (check_entry algo) es [] = Inr seen" using assms(2) by (auto simp: sortValidateEntries_def res_elims)
  have m: "mset (map te_name es') = mset (map te_name es)" using assms(1) by (metis mset_map)
  have "\<exists>seen. foldR (check_entry algo) es' [] = Inr seen"
    using ok mset_eq_imp_distinct_iff[OF m] mset_eq_setD[OF assms(1)] unfolding check_entries_iff by simp
  moreover have "srt = sort_key te_name es" "distinct (map te_name es)" using sortValidate_ok[OF assms(2)] by simp_all
  ultimately show ?thesis using sort_key_perm[OF assms(1)] by (auto simp: sortValidateEntries_def res_elims)
qed

lemma put_tree_perm:
  assumes "mset es' = mset es" "local_PutTree digest z es l = Inr x"
  shows "local_PutTree digest z es' l = Inr x"
proof -
  obtain srt where "sortValidateEntries es (lo_algo l) = Inr srt"
    using assms(2) by (auto simp: local_PutTree_def computeTree_def res_elims)
  with sortValidate_perm[OF assms(1) this] assms(2) show ?thesis by (simp add: local_PutTree_def computeTree_def)
qed

text \<open>
  C32: A tree that the store on disk did not hold reads back after \<open>PutTree\<close>: \<open>GetTree\<close> returns exactly the
  entries that were put, sorted by name. Putting the same entries in another order gives the same id and the
  same store, and putting them again changes nothing.
\<close>

theorem stored_tree_reads_back:
  assumes "local_valid digest z l" "local_PutTree digest z entries l = Inr (i, l')" "i \<notin> set (local_Iterate l)"
    and "length (encodeTreeBody (sort_key te_name entries)) < 2 ^ 63" "mset entries' = mset entries"
  shows "local_GetTree digest z l' i = Inr (sort_key te_name entries) \<and>
    local_PutTree digest z entries' l = Inr (i, l') \<and> local_PutTree digest z entries' l' = Inr (i, l')"
proof -
  have p: "op_put_tree (local_ops digest z) entries l = Inr (i, l')" using assms(2) by (simp add: local_ops_def)
  from loc.put_tree[OF assms(1) this assms(4)] assms(3) have t: "tree_ok (sort_key te_name entries)" "local_valid digest z l'"
    "set (local_Iterate l') = insert i (set (local_Iterate l))"
    "local_Get digest z l' i = Inr (KindTree, encodeTreeBody (sort_key te_name entries))"
    by (simp_all add: added_def local_ops_def)
  have "local_GetTree digest z l' i = Inr (sort_key te_name entries)"
    using t(4) decode_encode[OF t(1)] local_algo[OF t(2)] by (simp add: local_GetTree_def)
  moreover have "local_PutTree digest z entries l' = Inr (i, l')"
  proof -
    obtain x where w: "local_write z i x l = Inr l'" "computeTree digest AlgoSHA256 entries = Inr (sort_key te_name entries, x, i)"
      using assms(1,2) by (auto simp: local_PutTree_def computeTree_def local_algo Let_def res_elims dest: sortValidate_ok(1))
    obtain q where q: "objectPath AlgoSHA256 i = Inr q" "\<not> gm_has (lo_files l) q"
      using w(1) assms(3) local_ids[OF assms(1)] local_algo[OF assms(1)] by (auto simp: local_write_def res_elims)
    then have l': "l' = l\<lparr>lo_files := gm_set q (zstd_enc z x) (lo_files l)\<rparr>" "\<not> lo_fails l q"
      using w(1) local_algo[OF assms(1)] by (auto simp: local_write_def res_elims split: if_splits)
    have "gm_set q c (gm_set q c m) = gm_set q c m" for c and m :: "string gmap" by (induction m) auto
    then have "local_write z i x l' = Inr l'" using q(1) l' local_algo[OF assms(1)] by (simp add: local_write_def)
    then show ?thesis using w(2) local_algo[OF t(2)] by (simp add: local_PutTree_def)
  qed
  ultimately show ?thesis using put_tree_perm[OF assms(5)] assms(2) by blast
qed

definition example_tree :: "tree_entry list" where
  "example_tree = [\<lparr>te_name = ''plan.json'', te_kind = KindBlob, te_id = id_text ''cafe''\<rparr>,
     \<lparr>te_name = ''jobs'', te_kind = KindTree, te_id = id_text ''dead''\<rparr>]"

theorem stored_tree_reads_back_witness:
  "\<exists>i l'. local_PutTree example_digest plain_codec example_tree example_local = Inr (i, l') \<and>
     local_GetTree example_digest plain_codec l' i = Inr (rev example_tree) \<and>
     local_PutTree example_digest plain_codec (rev example_tree) example_local = Inr (i, l')"
proof -
  let ?p = "local_PutTree example_digest plain_codec example_tree example_local"
  have run: "case ?p of Inr (i, l') \<Rightarrow> i \<notin> set (local_Iterate example_local) | Inl _ \<Rightarrow> False" by code_simp
  then obtain i l' where p: "?p = Inr (i, l')" "i \<notin> set (local_Iterate example_local)" by (auto split: sum.splits)
  have s: "sort_key te_name example_tree = rev example_tree" by code_simp
  have "length (encodeTreeBody (sort_key te_name example_tree)) < 200" by code_simp
  then have len: "length (encodeTreeBody (sort_key te_name example_tree)) < 2 ^ 63" by simp
  from stored_tree_reads_back[OF example_local_valid p len, of "rev example_tree"] p(1) s show ?thesis by simp
qed

end
