(* ===== verification/Redact.thy ===== *)
theory Redact
  imports Go_Runes
begin

text \<open>
  Masking of secret values in step output (\<open>internal/redact\<close>): the registered values with their encodings,
  the replacement, and the offsets at which a stream may be cut. Strings are bytes; \<open>encoding/base64\<close>,
  \<open>net/url\<close> and the string form of \<open>encoding/json\<close> are written out. A redactor is its pattern list: the
  replacer is built from it.
\<close>

section \<open>Encodings\<close>

definition b64_alphabet :: string where
  "b64_alphabet = ''ABCDEFGHIJKLMNOPQRSTUVWXYZabcdefghijklmnopqrstuvwxyz0123456789+/''"

definition b64 :: "nat \<Rightarrow> char" where
  "b64 n = b64_alphabet ! (n mod 64)"

fun base64 :: "string \<Rightarrow> string" where
  "base64 [] = []"
| "base64 [a] = (let x = of_char a in [b64 (x div 4), b64 (x * 16), CHR ''='', CHR ''=''])"
| "base64 [a, b] =
     (let x = of_char a; y = of_char b in [b64 (x div 4), b64 (x * 16 + y div 16), b64 (y * 4), CHR ''=''])"
| "base64 (a # b # c # s) =
     (let x = of_char a; y = of_char b; z = of_char c
      in [b64 (x div 4), b64 (x * 16 + y div 16), b64 (y * 4 + z div 64), b64 z] @ base64 s)"

definition hex_digit :: "string \<Rightarrow> nat \<Rightarrow> char" where
  "hex_digit digits n = digits ! (n mod 16)"

definition hex_byte :: "string \<Rightarrow> char \<Rightarrow> string" where
  "hex_byte digits c = (let n = of_char c in [hex_digit digits (n div 16), hex_digit digits n])"

definition query_byte :: "char \<Rightarrow> string" where
  "query_byte c =
     (if is_alnum c \<or> c \<in> {CHR ''-'', CHR ''_'', CHR ''.'', CHR ''~''} then [c]
      else if c = CHR '' '' then ''+'' else CHR ''%'' # hex_byte ''0123456789ABCDEF'' c)"

definition QueryEscape :: "string \<Rightarrow> string" where
  "QueryEscape s = concat (map query_byte s)"

definition json_byte :: "char \<Rightarrow> string" where
  "json_byte c =
     (if c = CHR 0x5C \<or> c = CHR 0x22 then [CHR 0x5C, c]
      else if c = CHR 0x08 then [CHR 0x5C, CHR ''b'']
      else if c = CHR 0x0C then [CHR 0x5C, CHR ''f'']
      else if c = CHR 0x0A then [CHR 0x5C, CHR ''n'']
      else if c = CHR 0x0D then [CHR 0x5C, CHR ''r'']
      else if c = CHR 0x09 then [CHR 0x5C, CHR ''t'']
      else if (of_char c :: nat) < 0x20 \<or> c \<in> {CHR ''<'', CHR ''>'', CHR ''&''}
        then CHR 0x5C # ''u00'' @ hex_byte ''0123456789abcdef'' c
      else [c])"

function json_escape :: "string \<Rightarrow> string" where
  "json_escape [] = []"
| "json_escape (c # s) =
     (let n = rune_len (c # s); r = take n (c # s)
      in if n = 0 then CHR 0x5C # ''ufffd'' @ json_escape s
         else (if n = 1 then json_byte c
               else if r = [CHR 0xE2, CHR 0x80, CHR 0xA8] then CHR 0x5C # ''u2028''
               else if r = [CHR 0xE2, CHR 0x80, CHR 0xA9] then CHR 0x5C # ''u2029'' else r) @
              json_escape (drop n (c # s)))"
  by pat_completeness auto
termination by (relation "measure length") auto

section \<open>The redactor\<close>

definition Mask :: string where "Mask = ''***''"

definition minLength :: nat where "minLength = 4"

record redactor =
  rd_patterns :: "string list"

definition forms_of :: "string \<Rightarrow> string list" where
  "forms_of v =
     (if length v < minLength then []
      else [v, base64 v] @ (if QueryEscape v \<noteq> v then [QueryEscape v] else []) @
           (if json_escape v \<noteq> v then [json_escape v] else []))"

definition add_form :: "string \<Rightarrow> string list \<Rightarrow> string list" where
  "add_form f patterns = (if f \<notin> set patterns \<and> minLength \<le> length f then patterns @ [f] else patterns)"

definition longest_pattern_first :: "string list \<Rightarrow> string list" where
  \<comment> \<open>\<open>sort.Slice\<close> is not stable; patterns of one length never match at the same place, so their order is
    of no consequence\<close>
  "longest_pattern_first ps = sort_key (\<lambda>p. - int (length p)) ps"

definition redact_Add :: "string list \<Rightarrow> redactor \<Rightarrow> redactor" where
  "redact_Add values r =
     (let forms = concat (map forms_of values)
      in if forms = [] then r else r\<lparr>rd_patterns := longest_pattern_first (fold add_form forms (rd_patterns r))\<rparr>)"

function replace_first :: "string list \<Rightarrow> string \<Rightarrow> string" where
  \<comment> \<open>\<open>strings.Replacer\<close> with every old string nonempty and replaced by \<open>Mask\<close>: at each place the first
    pattern that matches\<close>
  "replace_first ps [] = []"
| "replace_first ps (c # s) =
     (case find (\<lambda>p. p \<noteq> [] \<and> has_prefix (c # s) p) ps of
        Some p \<Rightarrow> if p = [] then [] else Mask @ replace_first ps (drop (length p) (c # s))
      | None \<Rightarrow> c # replace_first ps s)"
  by pat_completeness auto
termination by (relation "measure (\<lambda>(ps, s). length s)") auto

definition redact_Filter :: "redactor \<Rightarrow> string \<Rightarrow> string" where
  "redact_Filter r s = (if rd_patterns r = [] then s else replace_first (rd_patterns r) s)"

definition MaxLen :: "redactor \<Rightarrow> nat" where
  "MaxLen r = (case rd_patterns r of [] \<Rightarrow> 0 | p # _ \<Rightarrow> length p)"

section \<open>Where a stream may be cut\<close>

fun rune_back :: "string \<Rightarrow> nat \<Rightarrow> nat" where
  "rune_back s at = (if 0 < at \<and> at < length s \<and> \<not> rune_start (s ! at) then rune_back s (at - 1) else at)"

declare rune_back.simps [simp del]

definition spanning :: "string \<Rightarrow> nat \<Rightarrow> string \<Rightarrow> nat option" where
  \<comment> \<open>where the first occurrence of the pattern in the window starts that spans \<open>at\<close>\<close>
  "spanning s at p =
     (let lo = at + 1 - length p; hi = min (at + length p - 1) (length s)
      in if hi < lo + length p then None
         else find (\<lambda>i. take (length p) (drop i s) = p \<and> i < at \<and> at < i + length p) [lo..<hi - length p + 1])"

fun first_spanning :: "string list \<Rightarrow> string \<Rightarrow> nat \<Rightarrow> nat option" where
  "first_spanning [] s at = None"
| "first_spanning (p # ps) s at = (case spanning s at p of Some i \<Rightarrow> Some i | None \<Rightarrow> first_spanning ps s at)"

lemma find_Some_in: "find P xs = Some x \<Longrightarrow> x \<in> set xs \<and> P x"
  by (induction xs) (auto split: if_splits)

lemma if_None_Some: "(if c then None else x) = Some i \<Longrightarrow> x = Some i"
  by (simp split: if_splits)

lemma spanning_less: "spanning s at p = Some i \<Longrightarrow> i < at"
  unfolding spanning_def Let_def by (drule if_None_Some, drule find_Some_in, elim conjE)

lemma first_spanning_less: "first_spanning ps s at = Some i \<Longrightarrow> i < at"
  by (induction ps) (auto split: option.splits dest: spanning_less)

lemma rune_back_le: "rune_back s at \<le> at"
proof (induction s at rule: rune_back.induct)
  case (1 s at)
  then show ?case by (subst rune_back.simps) auto
qed

function cut_loop :: "string list \<Rightarrow> string \<Rightarrow> nat \<Rightarrow> nat" where
  "cut_loop ps s at =
     (case first_spanning ps s (rune_back s at) of
        None \<Rightarrow> rune_back s at
      | Some start \<Rightarrow> cut_loop ps s start)"
  by pat_completeness auto
termination
proof (relation "measure (\<lambda>(ps, s, at). at)", simp)
  fix ps s at start assume "first_spanning ps s (rune_back s at) = Some start"
  from first_spanning_less[OF this] rune_back_le[of s at]
  show "((ps, s, start), ps, s, at) \<in> measure (\<lambda>(ps, s, at). at)" by simp
qed

declare cut_loop.simps [simp del]

definition SafeCut :: "redactor \<Rightarrow> string \<Rightarrow> int \<Rightarrow> nat" where
  "SafeCut r s at = cut_loop (rd_patterns r) s (nat (if int (length s) < at then int (length s) else at))"

section \<open>Occurrences\<close>

definition occurs :: "string \<Rightarrow> string \<Rightarrow> nat \<Rightarrow> bool" where
  \<comment> \<open>the value stands at this offset\<close>
  "occurs s p i \<longleftrightarrow> i + length p \<le> length s \<and> take (length p) (drop i s) = p"

definition spans :: "string list \<Rightarrow> string \<Rightarrow> nat \<Rightarrow> bool" where
  \<comment> \<open>an occurrence of a pattern begins before the offset and ends after it\<close>
  "spans ps s at \<longleftrightarrow> (\<exists>p \<in> set ps. \<exists>i. occurs s p i \<and> i < at \<and> at < i + length p)"

lemma occurs_prefix: "occurs s p i \<Longrightarrow> occurs (s @ t) p i"
  by (simp add: occurs_def)

lemma occurs_in_prefix: "occurs (s @ t) p i \<Longrightarrow> i + length p \<le> length s \<Longrightarrow> occurs s p i"
  by (simp add: occurs_def)

lemma occurs_shift: "occurs (w @ s) p (length w + i) \<longleftrightarrow> occurs s p i"
  by (simp add: occurs_def)

lemma occurs_0: "p \<noteq> [] \<Longrightarrow> occurs s p 0 \<longleftrightarrow> has_prefix s p"
  unfolding occurs_def has_prefix_def by (auto dest: arg_cong[of _ _ length])

lemma has_prefix_length: "has_prefix s p \<Longrightarrow> length p \<le> length s"
  unfolding has_prefix_def by (auto dest: arg_cong[of _ _ length])

lemma has_prefix_within: "length p \<le> length s \<Longrightarrow> has_prefix (s @ t) p \<longleftrightarrow> has_prefix s p"
  by (simp add: has_prefix_def)

lemma spanning_iff:
  assumes "at \<le> length s"
  shows "spanning s at p = None \<longleftrightarrow> \<not> (\<exists>i. occurs s p i \<and> i < at \<and> at < i + length p)"
    "spanning s at p = Some i \<Longrightarrow> occurs s p i \<and> i < at \<and> at < i + length p"
proof -
  let ?lo = "at + 1 - length p" and ?hi = "min (at + length p - 1) (length s)"
  have range: "occurs s p i \<and> i < at \<and> at < i + length p \<longleftrightarrow>
      \<not> ?hi < ?lo + length p \<and> i \<in> set [?lo..<?hi - length p + 1] \<and> take (length p) (drop i s) = p \<and> i < at \<and> at < i + length p" for i
    using assms by (auto simp: occurs_def min_def)
  show "spanning s at p = None \<longleftrightarrow> \<not> (\<exists>i. occurs s p i \<and> i < at \<and> at < i + length p)"
    unfolding range by (auto simp: spanning_def Let_def find_None_iff)
  assume "spanning s at p = Some i"
  then have "\<not> ?hi < ?lo + length p"
    "find (\<lambda>i. take (length p) (drop i s) = p \<and> i < at \<and> at < i + length p) [?lo..<?hi - length p + 1] = Some i"
    by (auto simp: spanning_def Let_def split: if_splits)
  then show "occurs s p i \<and> i < at \<and> at < i + length p" unfolding range using find_Some_in by fastforce
qed

lemma first_spanning_iff:
  assumes "at \<le> length s"
  shows "first_spanning ps s at = None \<longleftrightarrow> \<not> spans ps s at"
    "first_spanning ps s at = Some i \<Longrightarrow> \<exists>p \<in> set ps. occurs s p i \<and> i < at \<and> at < i + length p"
proof -
  show "first_spanning ps s at = None \<longleftrightarrow> \<not> spans ps s at"
  proof (induction ps)
    case (Cons p ps)
    then show ?case using spanning_iff[OF assms, of p] by (cases "spanning s at p") (auto simp: spans_def)
  qed (simp add: spans_def)
  show "first_spanning ps s at = Some i \<Longrightarrow> \<exists>p \<in> set ps. occurs s p i \<and> i < at \<and> at < i + length p"
  proof (induction ps)
    case (Cons p ps)
    then show ?case using spanning_iff(2)[OF assms, of p] by (cases "spanning s at p") auto
  qed simp
qed

definition cut_ok :: "string list \<Rightarrow> string \<Rightarrow> nat \<Rightarrow> bool" where
  \<comment> \<open>no occurrence spans the offset, and it does not split a rune\<close>
  "cut_ok ps s c \<longleftrightarrow> \<not> spans ps s c \<and> (c = 0 \<or> length s \<le> c \<or> rune_start (s ! c))"

lemma rune_back_ok: "rune_back s at = 0 \<or> length s \<le> rune_back s at \<or> rune_start (s ! rune_back s at)"
proof (induction s at rule: rune_back.induct)
  case (1 s at)
  then show ?case by (subst (1 2 3) rune_back.simps) auto
qed

lemma rune_back_largest: "rune_back s at < c \<Longrightarrow> c \<le> at \<Longrightarrow> \<not> (c = 0 \<or> length s \<le> c \<or> rune_start (s ! c))"
proof (induction s at rule: rune_back.induct)
  case (1 s at)
  show ?case
  proof (cases "0 < at \<and> at < length s \<and> \<not> rune_start (s ! at)")
    case True
    then have "rune_back s at = rune_back s (at - 1)" by (subst rune_back.simps) simp
    then show ?thesis using "1.IH"[OF True] "1.prems" True by (cases "c = at") auto
  next
    case False
    then have "rune_back s at = at" by (subst rune_back.simps) auto
    then show ?thesis using "1.prems" by simp
  qed
qed

lemma cut_loop_ok:
  "at \<le> length s \<Longrightarrow> cut_loop ps s at \<le> at \<and> cut_ok ps s (cut_loop ps s at) \<and>
     (\<forall>c. cut_loop ps s at < c \<and> c \<le> at \<longrightarrow> \<not> cut_ok ps s c)"
proof (induction ps s at rule: cut_loop.induct)
  case (1 ps s at)
  let ?b = "rune_back s at"
  have b: "?b \<le> at" "?b \<le> length s" using rune_back_le[of s at] "1.prems" by simp_all
  have skip: "\<not> cut_ok ps s c" if "?b < c" "c \<le> at" for c
    using rune_back_largest[OF that] by (simp add: cut_ok_def)
  show ?case
  proof (cases "first_spanning ps s ?b")
    case None
    then have "cut_loop ps s at = ?b" by (subst cut_loop.simps) simp
    moreover have "cut_ok ps s ?b" using None first_spanning_iff(1)[OF b(2)] rune_back_ok[of s at] by (simp add: cut_ok_def)
    ultimately show ?thesis using b skip by simp
  next
    case (Some i)
    obtain p where p: "p \<in> set ps" "occurs s p i" "i < ?b" "?b < i + length p" using first_spanning_iff(2)[OF b(2) Some] by blast
    have eq: "cut_loop ps s at = cut_loop ps s i" using Some by (subst cut_loop.simps) simp
    have near: "\<not> cut_ok ps s c" if "i < c" "c \<le> ?b" for c
    proof -
      have "c < i + length p" using that(2) p(4) by simp
      then have "spans ps s c" using p(1,2) that(1) unfolding spans_def by blast
      then show ?thesis by (simp add: cut_ok_def)
    qed
    have IH: "cut_loop ps s i \<le> i" "cut_ok ps s (cut_loop ps s i)" "\<And>c. cut_loop ps s i < c \<Longrightarrow> c \<le> i \<Longrightarrow> \<not> cut_ok ps s c"
      using "1.IH"[OF Some] p(3) b(2) by simp_all
    have "\<not> cut_ok ps s c" if "cut_loop ps s i < c" "c \<le> at" for c
      using IH(3)[of c] near[of c] skip[of c] that by linarith
    then show ?thesis unfolding eq using IH(1,2) p(3) b(1) by simp
  qed
qed

section \<open>Masking in pieces\<close>

lemma replace_first_Cons:
  "replace_first ps (c # s) = (case find (\<lambda>p. p \<noteq> [] \<and> has_prefix (c # s) p) ps of
     Some p \<Rightarrow> Mask @ replace_first ps (drop (length p) (c # s)) | None \<Rightarrow> c # replace_first ps s)"
proof (cases "find (\<lambda>p. p \<noteq> [] \<and> has_prefix (c # s) p) ps")
  case (Some p)
  then have "p \<noteq> []" using find_Some_in by fastforce
  then show ?thesis unfolding replace_first.simps(2) Some by (simp only: option.case if_False)
qed simp

declare replace_first.simps(2) [simp del]

lemma find_cong_set: "(\<And>x. x \<in> set xs \<Longrightarrow> P x = Q x) \<Longrightarrow> find P xs = find Q xs"
  by (induction xs) auto

lemma spans_Cons: "spans ps s at \<Longrightarrow> spans ps (c # s) (Suc at)"
proof -
  assume "spans ps s at"
  then obtain p i where "p \<in> set ps" "occurs s p i" "i < at" "at < i + length p" by (auto simp: spans_def)
  moreover from this(2) have "occurs (c # s) p (Suc i)" using occurs_shift[of "[c]" s p i] by simp
  ultimately show ?thesis unfolding spans_def by (intro bexI[of _ p] exI[of _ "Suc i"]) simp_all
qed

lemma replace_split: "\<not> spans ps (a @ b) (length a) \<Longrightarrow> replace_first ps (a @ b) = replace_first ps a @ replace_first ps b"
proof (induction ps a rule: replace_first.induct)
  case (2 ps c s)
  have same: "find (\<lambda>p. p \<noteq> [] \<and> has_prefix (c # s @ b) p) ps = find (\<lambda>p. p \<noteq> [] \<and> has_prefix (c # s) p) ps" (is "?l = ?r")
  proof (rule find_cong_set)
    fix p assume p: "p \<in> set ps"
    have len: "length p \<le> length (c # s)" if "p \<noteq> []" "has_prefix ((c # s) @ b) p"
    proof (rule ccontr)
      assume "\<not> length p \<le> length (c # s)"
      moreover have "occurs ((c # s) @ b) p 0" using that occurs_0 by blast
      ultimately have "spans ps ((c # s) @ b) (length (c # s))"
        using p unfolding spans_def by (intro bexI[of _ p] exI[of _ 0]) simp_all
      then show False using "2.prems" by contradiction
    qed
    then show "(p \<noteq> [] \<and> has_prefix (c # s @ b) p) = (p \<noteq> [] \<and> has_prefix (c # s) p)"
      using has_prefix_within[of p "c # s" b] has_prefix_length[of "c # s" p] by auto
  qed
  show ?case
  proof (cases ?r)
    case None
    then have "\<not> spans ps (s @ b) (length s)" using "2.prems" spans_Cons[of ps "s @ b" "length s" c] by auto
    then show ?thesis using "2.IH"(1)[OF None] None same by (simp add: replace_first_Cons)
  next
    case (Some p)
    have p: "p \<in> set ps" "p \<noteq> []" "has_prefix (c # s) p" using find_Some_in[OF Some] by simp_all
    then obtain t where t: "c # s = p @ t" by (auto simp: has_prefix_iff)
    have "\<not> spans ps (t @ b) (length t)"
    proof
      assume "spans ps (t @ b) (length t)"
      then obtain q i where q: "q \<in> set ps" "occurs (t @ b) q i" "i < length t" "length t < i + length q" by (auto simp: spans_def)
      have "occurs (p @ (t @ b)) q (length p + i)" using q(2) by (simp only: occurs_shift)
      then have "spans ps ((c # s) @ b) (length (c # s))" using q unfolding t spans_def
        by (intro bexI[of _ q] exI[of _ "length p + i"]) simp_all
      then show False using "2.prems" by contradiction
    qed
    moreover have "drop (length p) (c # s) = t" "drop (length p) ((c # s) @ b) = t @ b" by (simp_all add: t)
    ultimately show ?thesis using "2.IH"(2)[OF Some p(2)] Some same by (simp add: replace_first_Cons)
  qed
qed simp

lemma Filter_split: "\<not> spans (rd_patterns r) (a @ b) (length a) \<Longrightarrow> redact_Filter r (a @ b) = redact_Filter r a @ redact_Filter r b"
  by (simp add: redact_Filter_def replace_split)

section \<open>What remains of a registered value\<close>

datatype piece = Copied char | Masked string

fun piece_src :: "piece \<Rightarrow> string" where
  "piece_src (Copied c) = [c]"
| "piece_src (Masked p) = p"

fun piece_out :: "piece \<Rightarrow> string" where
  "piece_out (Copied c) = [c]"
| "piece_out (Masked p) = Mask"

definition masks :: "string list \<Rightarrow> piece list \<Rightarrow> bool" where
  \<comment> \<open>only patterns are masked, and no run of copied bytes contains one\<close>
  "masks ps tr \<longleftrightarrow> (\<forall>p. Masked p \<in> set tr \<longrightarrow> p \<in> set ps) \<and>
     (\<forall>a w b p i. tr = a @ map Copied w @ b \<and> p \<in> set ps \<and> p \<noteq> [] \<longrightarrow> \<not> occurs w p i)"

lemma masks_Masked: "p \<in> set ps \<Longrightarrow> masks ps tr \<Longrightarrow> masks ps (Masked p # tr)"
proof -
  assume p: "p \<in> set ps" "masks ps tr"
  have "\<not> occurs w q i" if "Masked p # tr = a @ map Copied w @ b" "q \<in> set ps" "q \<noteq> []" for a w b q i
  proof (cases a)
    case Nil
    then have "w = []" using that(1) by (cases w) auto
    then show ?thesis using that(3) by (auto simp: occurs_def)
  next
    case (Cons x a')
    then have "tr = a' @ map Copied w @ b" using that(1) by simp
    then show ?thesis using p(2) that(2,3) unfolding masks_def by blast
  qed
  then show ?thesis using p unfolding masks_def by auto
qed

lemma masks_Copied:
  assumes "masks ps tr" "\<And>p. p \<in> set ps \<Longrightarrow> p \<noteq> [] \<Longrightarrow> \<not> has_prefix (c # concat (map piece_src tr)) p"
  shows "masks ps (Copied c # tr)"
proof -
  have "\<not> occurs w q i" if e: "Copied c # tr = a @ map Copied w @ b" and q: "q \<in> set ps" "q \<noteq> []" for a w b q i
  proof (cases a)
    case (Cons x a')
    then have "tr = a' @ map Copied w @ b" using e by simp
    then show ?thesis using assms(1) q unfolding masks_def by blast
  next
    case Nil
    show ?thesis
    proof (cases w)
      case Nil
      then show ?thesis using q(2) by (auto simp: occurs_def)
    next
      case (Cons d w')
      then have tr: "tr = [] @ map Copied w' @ b" "d = c" using e \<open>a = []\<close> by simp_all
      have src: "concat (map piece_src tr) = w' @ concat (map piece_src b)"
      proof -
        have "concat (map piece_src (map Copied w')) = w'" by (induction w') auto
        then show ?thesis by (simp add: tr(1))
      qed
      show ?thesis
      proof (cases i)
        case 0
        have "\<not> has_prefix (w @ concat (map piece_src b)) q" using assms(2)[OF q] by (simp add: src Cons tr(2))
        then show ?thesis using 0 occurs_0[OF q(2)] occurs_prefix by blast
      next
        case (Suc k)
        have "\<not> occurs w' q k" using assms(1) tr(1) q unfolding masks_def by blast
        then show ?thesis using occurs_shift[of "[d]" w' q k] Suc Cons by simp
      qed
    qed
  qed
  then show ?thesis using assms(1) unfolding masks_def by auto
qed

lemma replace_first_masks:
  "\<exists>tr. s = concat (map piece_src tr) \<and> replace_first ps s = concat (map piece_out tr) \<and> masks ps tr"
proof (induction ps s rule: replace_first.induct)
  case (1 ps)
  have "masks ps []" by (auto simp: masks_def occurs_def)
  then show ?case by (intro exI[of _ "[]"]) simp
next
  case (2 ps c s)
  show ?case
  proof (cases "find (\<lambda>p. p \<noteq> [] \<and> has_prefix (c # s) p) ps")
    case None
    obtain tr where tr: "s = concat (map piece_src tr)" "replace_first ps s = concat (map piece_out tr)" "masks ps tr"
      using "2.IH"(1)[OF None] by blast
    have "masks ps (Copied c # tr)" using None tr by (intro masks_Copied) (auto simp: find_None_iff)
    then show ?thesis using tr None by (intro exI[of _ "Copied c # tr"]) (simp add: replace_first_Cons)
  next
    case (Some p)
    have p: "p \<in> set ps" "p \<noteq> []" "has_prefix (c # s) p" using find_Some_in[OF Some] by simp_all
    obtain tr where tr: "drop (length p) (c # s) = concat (map piece_src tr)"
      "replace_first ps (drop (length p) (c # s)) = concat (map piece_out tr)" "masks ps tr"
      using "2.IH"(2)[OF Some p(2)] by blast
    have "replace_first ps (c # s) = Mask @ concat (map piece_out tr)" using Some tr(2) by (simp add: replace_first_Cons)
    moreover have "c # s = p @ concat (map piece_src tr)" using p(3) tr(1) unfolding has_prefix_def by (metis append_take_drop_id)
    ultimately show ?thesis using masks_Masked[OF p(1) tr(3)]
      by (intro exI[of _ "Masked p # tr"]) simp
  qed
qed

lemma query_length: "length v \<le> length (QueryEscape v)"
  unfolding QueryEscape_def
proof (induction v)
  case (Cons c v)
  have "1 \<le> length (query_byte c)" by (simp add: query_byte_def)
  then show ?case using Cons.IH by simp
qed simp

lemma base64_length: "length v \<le> length (base64 v)"
proof (induction v rule: base64.induct)
  case (4 a b c s)
  from 4[OF refl refl refl] show ?case by (simp add: Let_def)
qed (simp_all add: Let_def)

lemma json_length: "length v \<le> length (json_escape v)"
proof (induction v rule: json_escape.induct)
  case (2 c s)
  let ?n = "rune_len (c # s)"
  show ?case
  proof (cases "?n = 0")
    case True
    then show ?thesis using "2.IH"(1)[OF refl refl True] by (simp add: Let_def)
  next
    case False
    have byte: "1 \<le> length (json_byte c)" by (simp add: json_byte_def)
    have "length (drop ?n (c # s)) \<le> length (json_escape (drop ?n (c # s)))" using "2.IH"(2)[OF refl refl False] .
    then have "length (c # s) \<le> ?n + length (json_escape (drop ?n (c # s)))" "length (take ?n (c # s)) = min ?n (length (c # s))" by auto
    then show ?thesis using False byte
      by (cases "?n = 1"; cases "take ?n (c # s) = [CHR 0xE2, CHR 0x80, CHR 0xA8]"; cases "take ?n (c # s) = [CHR 0xE2, CHR 0x80, CHR 0xA9]")
        (auto simp: Let_def simp del: take_Suc_Cons)
  qed
qed simp

lemma longest_pattern_set: "set (longest_pattern_first ps) = set ps"
  by (simp add: longest_pattern_first_def)

lemma longest_pattern_MaxLen: "rd_patterns r = longest_pattern_first ps \<Longrightarrow> p \<in> set ps \<Longrightarrow> length p \<le> MaxLen r"
proof -
  assume r: "rd_patterns r = longest_pattern_first ps" and p: "p \<in> set ps"
  obtain q qs where q: "longest_pattern_first ps = q # qs" using p longest_pattern_set[of ps] by (cases "longest_pattern_first ps") auto
  have "sorted (map (\<lambda>p. - int (length p)) (longest_pattern_first ps))" by (simp add: longest_pattern_first_def)
  moreover have "p \<in> set (q # qs)" using p longest_pattern_set[of ps] q by simp
  ultimately have "length p \<le> length q" unfolding q by auto
  then show ?thesis by (simp add: MaxLen_def r q)
qed

lemma add_forms_set: "set (fold add_form fs ps) = set ps \<union> {f \<in> set fs. minLength \<le> length f}"
  by (induction fs arbitrary: ps) (auto simp: add_form_def)

lemma redact_Add_set:
  "set (rd_patterns (redact_Add values r)) = set (rd_patterns r) \<union> {f \<in> set (concat (map forms_of values)). minLength \<le> length f}"
  by (auto simp: redact_Add_def Let_def longest_pattern_set add_forms_set)

definition encodings :: "string \<Rightarrow> string set" where
  "encodings v = {v, base64 v, QueryEscape v, json_escape v}"

lemma registered: "v \<in> set values \<Longrightarrow> minLength \<le> length v \<Longrightarrow> e \<in> encodings v \<Longrightarrow>
   e \<in> set (rd_patterns (redact_Add values r)) \<and> e \<noteq> []"
proof -
  assume v: "v \<in> set values" "minLength \<le> length v" and e: "e \<in> encodings v"
  have "length v \<le> length e" using e query_length base64_length json_length by (auto simp: encodings_def)
  moreover have "e \<in> set (forms_of v)" using v(2) e by (auto simp: forms_of_def encodings_def)
  ultimately show ?thesis using v by (auto simp: redact_Add_set minLength_def)
qed

lemma safe_cut_split_facts:
  "SafeCut r s at \<le> min (nat at) (length s)" "cut_ok (rd_patterns r) s (SafeCut r s at)"
  "d \<le> min (nat at) (length s) \<Longrightarrow> SafeCut r s at < d \<Longrightarrow> \<not> cut_ok (rd_patterns r) s d"
proof -
  have "nat (if int (length s) < at then int (length s) else at) = min (nat at) (length s)" by auto
  then have "SafeCut r s at = cut_loop (rd_patterns r) s (min (nat at) (length s))" unfolding SafeCut_def by simp
  then show "SafeCut r s at \<le> min (nat at) (length s)" "cut_ok (rd_patterns r) s (SafeCut r s at)"
    "d \<le> min (nat at) (length s) \<Longrightarrow> SafeCut r s at < d \<Longrightarrow> \<not> cut_ok (rd_patterns r) s d"
    using cut_loop_ok[of "min (nat at) (length s)" s "rd_patterns r"] by auto
qed

section \<open>The theorems\<close>

text \<open>
  C18: After a value of at least four bytes has been registered, no output contains it as it was written: the
  filtered text is the input with whole patterns masked, and no run of bytes that were copied through
  contains the value, its base64, its URL encoding or its JSON encoding.
\<close>

theorem registered_values_are_masked:
  assumes "v \<in> set values" "minLength \<le> length v" "e \<in> encodings v"
  shows "\<exists>pieces. s = concat (map piece_src pieces) \<and>
    redact_Filter (redact_Add values r) s = concat (map piece_out pieces) \<and>
    (\<forall>p. Masked p \<in> set pieces \<longrightarrow> p \<in> set (rd_patterns (redact_Add values r))) \<and>
    (\<forall>a w b i. pieces = a @ map Copied w @ b \<longrightarrow> \<not> occurs w e i)"
proof -
  note e = registered[OF assms, of r]
  then have "rd_patterns (redact_Add values r) \<noteq> []" by auto
  then show ?thesis
    using replace_first_masks[of s "rd_patterns (redact_Add values r)"] e unfolding redact_Filter_def masks_def by auto
qed

definition example_redactor :: redactor where
  "example_redactor = redact_Add [''hunter2'', ''a&b c''] \<lparr>rd_patterns = []\<rparr>"

theorem registered_values_are_masked_witness:
  "redact_Filter example_redactor ''pw=hunter2 aHVudGVyMg== q=a%26b+c'' = ''pw=*** *** q=***'' \<and>
   (\<exists>pieces. concat (map piece_src pieces) = ''pw=hunter2'' \<and> (\<forall>a w b i. pieces = a @ map Copied w @ b \<longrightarrow> \<not> occurs w ''hunter2'' i))"
proof
  show "redact_Filter example_redactor ''pw=hunter2 aHVudGVyMg== q=a%26b+c'' = ''pw=*** *** q=***''" by code_simp
  have "minLength \<le> length ''hunter2''" "''hunter2'' \<in> encodings ''hunter2''" by (simp_all add: minLength_def encodings_def)
  from registered_values_are_masked[of "''hunter2''" "[''hunter2'', ''a&b c'']", OF _ this, of "''pw=hunter2''" "\<lparr>rd_patterns = []\<rparr>"]
  show "\<exists>pieces. concat (map piece_src pieces) = ''pw=hunter2'' \<and> (\<forall>a w b i. pieces = a @ map Copied w @ b \<longrightarrow> \<not> occurs w ''hunter2'' i)"
    by (metis list.set_intros(1))
qed

text \<open>
  C20: A text may be split at a safe cut: filtering the two sides gives what filtering the whole gives. The cut
  is at or before the offset asked for, at the start of a rune, and it is the largest such offset that no
  occurrence of a pattern spans. An offset outside the text counts as its nearest end.
\<close>

theorem safe_cut_splits:
  fixes r :: redactor and s :: string and at :: int
  defines "c \<equiv> SafeCut r s at" and "limit \<equiv> min (nat at) (length s)"
  shows "redact_Filter r (take c s) @ redact_Filter r (drop c s) = redact_Filter r s \<and> c \<le> limit \<and>
    cut_ok (rd_patterns r) s c \<and> \<not> (\<exists>d. c < d \<and> d \<le> limit \<and> cut_ok (rd_patterns r) s d)"
proof -
  have c: "c \<le> limit" "cut_ok (rd_patterns r) s c" "\<not> (\<exists>d. c < d \<and> d \<le> limit \<and> cut_ok (rd_patterns r) s d)"
    using safe_cut_split_facts(1,2)[of r s at] safe_cut_split_facts(3)[of _ at s r] unfolding c_def limit_def by auto
  have "c \<le> length s" using c(1) by (simp add: limit_def)
  then have "\<not> spans (rd_patterns r) (take c s @ drop c s) (length (take c s))" using c(2) by (simp add: cut_ok_def min_def)
  from Filter_split[OF this] show ?thesis using c by simp
qed

end
