(* ===== verification/Step_Stream.thy ===== *)
theory Step_Stream
  imports Redact
begin

text \<open>
  A running step's output on its way to the remote log (\<open>internal/remotestate/logpipe/stepstream.go\<close>): what
  arrives is sent in masked pieces, cut only where no secret spans the cut, with a hold-back of one byte
  less than the longest pattern. A stream is a state with the operations that its lock makes atomic:
  \<open>Write\<close>, a tick of the timer, \<open>Finish\<close>. The redactor does not change meanwhile.
\<close>

record step_stream =
  ss_redact :: "redactor option"
  ss_max_bytes :: int
  ss_raw :: string
  ss_sent :: string
  ss_emitted :: "string list"
  ss_finished :: bool

definition NewStepStream :: "redactor option \<Rightarrow> int \<Rightarrow> step_stream" where
  "NewStepStream redact maxBytes =
     \<lparr>ss_redact = redact, ss_max_bytes = (if maxBytes \<le> 0 then 64 * 1024 else maxBytes), ss_raw = [], ss_sent = [],
      ss_emitted = [], ss_finished = False\<rparr>"

definition runeCut :: "string \<Rightarrow> int \<Rightarrow> nat" where
  "runeCut s at = rune_back s (nat at)"

definition mask_with :: "redactor option \<Rightarrow> string \<Rightarrow> string" where
  "mask_with redact s = (case redact of Some r \<Rightarrow> redact_Filter r s | None \<Rightarrow> s)"

definition hold_back :: "redactor option \<Rightarrow> nat" where
  "hold_back redact = (case redact of Some r \<Rightarrow> if 1 < MaxLen r then MaxLen r - 1 else 0 | None \<Rightarrow> 0)"

definition send_at :: "int \<Rightarrow> step_stream \<Rightarrow> step_stream" where
  "send_at at s =
     (let text = ss_raw s; c = (case ss_redact s of Some r \<Rightarrow> SafeCut r text at | None \<Rightarrow> runeCut text at)
      in if c = 0 then s
         else (let piece = mask_with (ss_redact s) (take c text)
               in s\<lparr>ss_raw := drop c text, ss_sent := ss_sent s @ piece, ss_emitted := ss_emitted s @ [piece]\<rparr>))"

definition flushLocked :: "bool \<Rightarrow> step_stream \<Rightarrow> step_stream" where
  "flushLocked linesOnly s =
     (if ss_raw s = [] then s
      else (let text = ss_raw s; limit = int (length text) - int (hold_back (ss_redact s))
            in if limit \<le> 0 then s
               else (case last_index_of_char (take (nat limit) text) (CHR 0x0A) of
                   Some nl \<Rightarrow> send_at (int nl + 1) s
                 | None \<Rightarrow> if linesOnly then s else send_at limit s)))"

definition stream_Write :: "string \<Rightarrow> step_stream \<Rightarrow> step_stream" where
  "stream_Write p s =
     (if ss_finished s then s
      else (let s = s\<lparr>ss_raw := ss_raw s @ p\<rparr>
            in if ss_max_bytes s \<le> int (length (ss_raw s)) then flushLocked False s else s))"

definition stream_tick :: "step_stream \<Rightarrow> step_stream" where
  "stream_tick s = (if \<not> ss_finished s then flushLocked True s else s)"

definition stream_Finish :: "step_stream \<Rightarrow> string \<times> step_stream" where
  "stream_Finish s = (ss_sent s, s\<lparr>ss_finished := True\<rparr>)"

definition FinishRest :: "step_stream \<Rightarrow> (string \<times> string) \<times> step_stream" where
  "FinishRest s =
     (let (sent, s) = stream_Finish s in ((sent, mask_with (ss_redact s) (ss_raw s)), s\<lparr>ss_raw := []\<rparr>))"

fun trim_right_nl :: "string \<Rightarrow> string" where
  \<comment> \<open>\<open>strings.TrimRight(s, newline)\<close>\<close>
  "trim_right_nl [] = []"
| "trim_right_nl (c # s) = (let t = trim_right_nl s in if t = [] \<and> c = CHR 0x0A then [] else c # t)"

fun drop_newlines :: "nat \<Rightarrow> string \<Rightarrow> string" where
  "drop_newlines (Suc n) (c # s) = (if c = CHR 0x0A then drop_newlines n s else c # s)"
| "drop_newlines n s = s"

definition recorded_marker :: string where
  "recorded_marker = ''--- orun: the step'' @ [CHR 0x27] @ ''s recorded output ---'' @ [CHR 0x0A]"

definition StepTail :: "string \<Rightarrow> string \<Rightarrow> string" where
  "StepTail sent final =
     (if sent = [] then final
      else if has_prefix final sent then drop (length sent) final
      else (let trimmed = trim_right_nl sent
            in if has_prefix final trimmed
               then drop_newlines (length sent - length trimmed) (drop (length trimmed) final)
               else (if \<not> has_suffix sent [CHR 0x0A] then [CHR 0x0A] else []) @ recorded_marker @ final))"

section \<open>What was sent\<close>

datatype stream_event = Wrote string | Ticked

fun stream_step :: "stream_event \<Rightarrow> step_stream \<Rightarrow> step_stream" where
  "stream_step (Wrote p) s = stream_Write p s"
| "stream_step Ticked s = stream_tick s"

fun written :: "stream_event list \<Rightarrow> string" where
  "written [] = []"
| "written (Wrote p # es) = p @ written es"
| "written (Ticked # es) = written es"

definition patterns_of :: "redactor option \<Rightarrow> string list" where
  "patterns_of redact = (case redact of Some r \<Rightarrow> rd_patterns r | None \<Rightarrow> [])"

definition stream_inv :: "redactor option \<Rightarrow> step_stream \<Rightarrow> string \<Rightarrow> bool" where
  \<comment> \<open>the text is what was sent and what is held, and no occurrence will ever span the place between them\<close>
  "stream_inv redact s w \<longleftrightarrow> ss_redact s = redact \<and> \<not> ss_finished s \<and> concat (ss_emitted s) = ss_sent s \<and>
     (\<exists>v. w = v @ ss_raw s \<and> ss_sent s = mask_with redact v \<and> (\<forall>f. \<not> spans (patterns_of redact) (w @ f) (length v)))"

definition sorted_redactor :: "redactor option \<Rightarrow> bool" where
  \<comment> \<open>patterns are kept longest first\<close>
  "sorted_redactor redact \<longleftrightarrow> (\<forall>r. redact = Some r \<longrightarrow> (\<forall>p \<in> set (rd_patterns r). length p \<le> MaxLen r))"

lemma mask_split: "\<not> spans (patterns_of redact) (a @ b) (length a) \<Longrightarrow> mask_with redact (a @ b) = mask_with redact a @ mask_with redact b"
  by (cases redact) (auto simp: mask_with_def patterns_of_def Filter_split)

lemma send_inv:
  assumes "stream_inv redact s w" "sorted_redactor redact" "0 \<le> at" "at + int (hold_back redact) \<le> int (length (ss_raw s))"
  shows "stream_inv redact (send_at at s) w"
proof -
  let ?ps = "patterns_of redact" and ?raw = "ss_raw s"
  obtain v where v: "w = v @ ?raw" "ss_sent s = mask_with redact v" "\<And>f. \<not> spans ?ps (w @ f) (length v)"
    and st: "ss_redact s = redact" "\<not> ss_finished s" "concat (ss_emitted s) = ss_sent s"
    using assms(1) unfolding stream_inv_def by blast
  define c where "c = (case redact of Some r \<Rightarrow> SafeCut r ?raw at | None \<Rightarrow> runeCut ?raw at)"
  have c: "int c \<le> at" "\<not> spans ?ps ?raw c"
  proof -
    have "int c \<le> at \<and> \<not> spans ?ps ?raw c"
    proof (cases redact)
      case None
      then show ?thesis using rune_back_le[of ?raw "nat at"] assms(3)
        by (simp add: c_def runeCut_def patterns_of_def spans_def)
    next
      case (Some r)
      then show ?thesis using safe_cut_split_facts(1,2)[of r ?raw at] assms(3) by (auto simp: c_def patterns_of_def cut_ok_def)
    qed
    then show "int c \<le> at" "\<not> spans ?ps ?raw c" by simp_all
  qed
  have len: "c \<le> length ?raw" using c(1) assms(4) by simp
  show ?thesis
  proof (cases "c = 0")
    case True
    then have "send_at at s = s" by (simp add: send_at_def c_def st(1) Let_def)
    then show ?thesis using assms(1) by simp
  next
    case False
    let ?piece = "mask_with redact (take c ?raw)"
    have s': "send_at at s = s\<lparr>ss_raw := drop c ?raw, ss_sent := ss_sent s @ ?piece, ss_emitted := ss_emitted s @ [?piece]\<rparr>"
      using False by (simp add: send_at_def c_def st(1) Let_def)
    have far: "\<not> spans ?ps (w @ f) (length (v @ take c ?raw))" for f
    proof
      assume "spans ?ps (w @ f) (length (v @ take c ?raw))"
      then obtain p i where p: "p \<in> set ?ps" "occurs (w @ f) p i" "i < length v + c" "length v + c < i + length p"
        using len by (auto simp: spans_def)
      show False
      proof (cases "i < length v")
        case True
        then show False using p v(3)[of f] unfolding spans_def by (meson le_less_trans le_add1)
      next
        case False
        then obtain k where k: "i = length v + k" using le_Suc_ex not_less by blast
        then have o: "occurs (?raw @ f) p k" using p(2) occurs_shift[of v "?raw @ f" p k] by (simp add: v(1))
        have "length p \<le> hold_back redact + 1"
        proof -
          obtain r where r: "redact = Some r" using p(1) by (cases redact) (auto simp: patterns_of_def)
          then have "length p \<le> MaxLen r" using assms(2) p(1) by (auto simp: sorted_redactor_def patterns_of_def)
          then show ?thesis using r by (simp add: hold_back_def)
        qed
        then have "int (k + length p) \<le> at + int (hold_back redact)" using p(3) k c(1) by linarith
        then have "k + length p \<le> length ?raw" using assms(4) by linarith
        then have "occurs ?raw p k" using occurs_in_prefix o by blast
        then show False using c(2) p(1,3,4) k unfolding spans_def by auto
      qed
    qed
    have "\<not> spans ?ps (v @ take c ?raw) (length v)"
    proof
      assume "spans ?ps (v @ take c ?raw) (length v)"
      then have "spans ?ps ((v @ take c ?raw) @ drop c ?raw) (length v)" using occurs_prefix unfolding spans_def by blast
      then show False using v(3)[of "[]"] by (simp add: v(1))
    qed
    from mask_split[OF this] have "ss_sent (send_at at s) = mask_with redact (v @ take c ?raw)" by (simp add: s' v(2))
    moreover have "w = (v @ take c ?raw) @ ss_raw (send_at at s)" by (simp add: s' v(1))
    ultimately show ?thesis unfolding stream_inv_def using st far s' by (auto intro!: exI[of _ "v @ take c ?raw"])
  qed
qed

lemma last_index_less: "last_index_of_char s c = Some i \<Longrightarrow> i < length s"
  by (induction s arbitrary: i) (auto split: option.splits if_splits)

lemma flush_inv:
  assumes "stream_inv redact s w" "sorted_redactor redact"
  shows "stream_inv redact (flushLocked linesOnly s) w"
proof -
  let ?h = "hold_back redact" and ?raw = "ss_raw s"
  let ?limit = "int (length ?raw) - int ?h"
  have r: "ss_redact s = redact" using assms(1) by (simp add: stream_inv_def)
  show ?thesis
  proof (cases "?raw = [] \<or> ?limit \<le> 0")
    case True
    then show ?thesis using assms(1) r by (auto simp: flushLocked_def Let_def)
  next
    case False
    then have l: "0 < ?limit" "?raw \<noteq> []" by auto
    show ?thesis
    proof (cases "last_index_of_char (take (nat ?limit) ?raw) (CHR 0x0A)")
      case None
      then show ?thesis using assms l r send_inv[OF assms, of ?limit] by (simp add: flushLocked_def Let_def)
    next
      case (Some nl)
      have "int nl + 1 \<le> ?limit" using last_index_less[OF Some] l by simp
      then show ?thesis using assms l r Some send_inv[OF assms, of "int nl + 1"] by (simp add: flushLocked_def Let_def)
    qed
  qed
qed

lemma receive_inv: "stream_inv redact s w \<Longrightarrow> stream_inv redact (s\<lparr>ss_raw := ss_raw s @ p\<rparr>) (w @ p)"
  unfolding stream_inv_def by auto

lemma step_inv: "stream_inv redact s w \<Longrightarrow> sorted_redactor redact \<Longrightarrow> stream_inv redact (stream_step e s) (w @ written [e])"
proof (cases e)
  case (Wrote p)
  assume i: "stream_inv redact s w" "sorted_redactor redact"
  then have "\<not> ss_finished s" by (simp add: stream_inv_def)
  then show ?thesis using receive_inv[OF i(1), of p] flush_inv[OF receive_inv[OF i(1), of p] i(2)] Wrote
    by (simp add: stream_Write_def Let_def)
next
  case Ticked
  assume i: "stream_inv redact s w" "sorted_redactor redact"
  then have "\<not> ss_finished s" by (simp add: stream_inv_def)
  then show ?thesis using Ticked flush_inv[OF i] by (simp add: stream_tick_def)
qed

lemma run_inv: "stream_inv redact s w \<Longrightarrow> sorted_redactor redact \<Longrightarrow> stream_inv redact (fold stream_step es s) (w @ written es)"
proof (induction es arbitrary: s w)
  case (Cons e es)
  have "written [e] @ written es = written (e # es)" by (cases e) simp_all
  then show ?case using Cons.IH[OF step_inv[OF Cons.prems]] Cons.prems(2) by (metis append_assoc fold_simps(2))
qed simp

lemma new_inv: "stream_inv redact (NewStepStream redact m) []"
  by (auto simp: stream_inv_def NewStepStream_def mask_with_def redact_Filter_def spans_def occurs_def split: option.splits)

definition redactor_of :: "string list list \<Rightarrow> redactor" where
  \<comment> \<open>an empty redactor to which these values have been added\<close>
  "redactor_of vss = fold redact_Add vss \<lparr>rd_patterns = []\<rparr>"

lemma redactor_of_sorted: "sorted_redactor (map_option redactor_of vs)"
proof -
  have "\<exists>ps. rd_patterns (fold redact_Add vss r) = longest_pattern_first ps" if "\<exists>ps. rd_patterns r = longest_pattern_first ps" for vss r
    using that
  proof (induction vss arbitrary: r)
    case (Cons v vss)
    have "\<exists>ps. rd_patterns (redact_Add v r) = longest_pattern_first ps" using Cons.prems by (auto simp: redact_Add_def Let_def)
    then show ?case using Cons.IH by simp
  qed simp
  moreover have "\<exists>ps. rd_patterns \<lparr>rd_patterns = []\<rparr> = longest_pattern_first ps" by (auto simp: longest_pattern_first_def intro: exI[of _ "[]"])
  ultimately have "\<exists>ps. rd_patterns (redactor_of vss) = longest_pattern_first ps" for vss unfolding redactor_of_def by blast
  then have "\<forall>p \<in> set (rd_patterns (redactor_of vss)). length p \<le> MaxLen (redactor_of vss)" for vss
    using longest_pattern_MaxLen longest_pattern_set by metis
  then show ?thesis by (auto simp: sorted_redactor_def)
qed

section \<open>What the end of the step adds\<close>

lemma trim_decomp: "\<exists>n. s = trim_right_nl s @ replicate n (CHR 0x0A)"
proof (induction s)
  case (Cons c s)
  then obtain n where n: "s = trim_right_nl s @ replicate n (CHR 0x0A)" by blast
  show ?case
  proof (cases "trim_right_nl s = [] \<and> c = CHR 0x0A")
    case True
    then have "c # s = replicate (Suc n) (CHR 0x0A)" using n by simp
    then show ?thesis using True by (intro exI[of _ "Suc n"]) simp
  next
    case False
    then show ?thesis using n by (intro exI[of _ n]) (auto simp: Let_def)
  qed
qed simp

lemma trim_newlines: "trim_right_nl (replicate n (CHR 0x0A)) = []"
  by (induction n) auto

lemma trim_append_nl: "trim_right_nl (s @ replicate n (CHR 0x0A)) = trim_right_nl s"
  by (induction s) (simp_all add: trim_newlines Let_def)

lemma trim_idem: "trim_right_nl (trim_right_nl s) = trim_right_nl s"
  using trim_decomp[of s] trim_append_nl by metis

lemma tail_completes:
  assumes "whole = sent @ rest"
  shows "trim_right_nl (sent @ StepTail sent (trim_right_nl whole)) = trim_right_nl whole"
proof -
  let ?t = "trim_right_nl whole"
  obtain n where n: "whole = ?t @ replicate n (CHR 0x0A)" using trim_decomp by blast
  show ?thesis
  proof (cases "sent = [] \<or> has_prefix ?t sent")
    case True
    then have "sent @ StepTail sent ?t = ?t"
    proof (cases "sent = []")
      case False
      then have p: "take (length sent) ?t = sent" using True by (simp add: has_prefix_def)
      then have "StepTail sent ?t = drop (length sent) ?t" using False by (simp add: StepTail_def has_prefix_def)
      then show ?thesis by (metis append_take_drop_id p)
    qed (simp add: StepTail_def)
    then show ?thesis by (simp add: trim_idem)
  next
    case False
    have longer: "length ?t < length sent"
    proof (rule ccontr)
      assume "\<not> length ?t < length sent"
      then have "take (length sent) ?t = take (length sent) whole" by (subst n) simp
      then show False using False assms by (simp add: has_prefix_def)
    qed
    from n have "take (length sent) whole = take (length sent) (?t @ replicate n (CHR 0x0A))" by (rule arg_cong)
    then have "sent = ?t @ replicate (min (length sent - length ?t) n) (CHR 0x0A)" using assms longer by (simp add: take_replicate)
    then obtain k where k: "sent = ?t @ replicate k (CHR 0x0A)" by blast
    then have "trim_right_nl sent = ?t" using trim_append_nl trim_idem by metis
    then have "StepTail sent ?t = drop_newlines (length sent - length ?t) []" using False by (simp add: StepTail_def has_prefix_def)
    then have "StepTail sent ?t = []" by (cases "length sent - length ?t") simp_all
    then show ?thesis using k trim_append_nl trim_idem by (metis append_Nil2)
  qed
qed

section \<open>The theorem\<close>

text \<open>
  C19: A step's output is masked as a whole although it is sent in pieces while it arrives. However the output
  is cut into writes, whenever the timer ticks and whatever values the redactor was given: the pieces
  emitted are what is recorded as sent, and what was sent followed by the masked rest is the masking of
  everything written. When the step's record is that text without its trailing newlines, the tail sent with
  the end of the step completes the log to exactly the record, up to trailing newlines.
\<close>

theorem stream_masks_the_whole:
  fixes vs :: "string list list option" and es :: "stream_event list" and maxBytes :: int
  defines "redact \<equiv> map_option redactor_of vs"
    and "s \<equiv> fold stream_step es (NewStepStream (map_option redactor_of vs) maxBytes)"
    and "whole \<equiv> mask_with (map_option redactor_of vs) (written es)"
  shows "concat (ss_emitted s) = ss_sent s \<and> ss_sent s @ mask_with redact (ss_raw s) = whole \<and>
    fst (FinishRest s) = (ss_sent s, mask_with redact (ss_raw s)) \<and>
    trim_right_nl (ss_sent s @ StepTail (ss_sent s) (trim_right_nl whole)) = trim_right_nl whole"
proof -
  have "stream_inv redact s ([] @ written es)"
    unfolding redact_def s_def by (rule run_inv[OF new_inv redactor_of_sorted])
  then obtain v where v: "written es = v @ ss_raw s" "ss_sent s = mask_with redact v"
    "\<not> spans (patterns_of redact) (v @ ss_raw s) (length v)"
    and st: "concat (ss_emitted s) = ss_sent s" "ss_redact s = redact"
    unfolding stream_inv_def by (auto, metis append_Nil2)
  have w: "whole = ss_sent s @ mask_with redact (ss_raw s)"
    using mask_split[OF v(3)] v(1,2) by (simp add: whole_def redact_def)
  then show ?thesis using st tail_completes[OF w] by (simp add: FinishRest_def stream_Finish_def)
qed

end
