(* ===== verification/Slot_Gate.thy ===== *)
theory Slot_Gate
  imports Plan_Model
begin

text \<open>
  The gate that hands out a lane's slots (\<open>internal/runner/lane_gate.go\<close>) and the cap on components in flight
  (\<open>componentGate\<close> of \<open>lane.go\<close>). Every operation runs under the gate's lock, so each is one function on the
  gate's state; a call that blocks is split at the point where it waits. A ticket is named by its place in
  the lane, its \<open>order\<close>.
\<close>

section \<open>Slots\<close>

record slot_gate =
  sg_free :: int
  sg_unsettled :: int
  sg_waiting :: "nat list"
  sg_prio :: "int list"
  sg_settled :: "bool list"
  sg_granted :: "bool list"

definition newSlotGate :: "int \<Rightarrow> int list \<Rightarrow> slot_gate" where
  \<comment> \<open>with the tickets of the jobs, whose priorities are given in order\<close>
  "newSlotGate slots prios =
     \<lparr>sg_free = slots, sg_unsettled = int (length prios), sg_waiting = [], sg_prio = prios,
      sg_settled = map (\<lambda>_. False) prios, sg_granted = map (\<lambda>_. False) prios\<rparr>"

definition settleLocked :: "nat \<Rightarrow> slot_gate \<Rightarrow> slot_gate" where
  "settleLocked t g =
     (if \<not> sg_settled g ! t then g\<lparr>sg_settled := (sg_settled g)[t := True], sg_unsettled := sg_unsettled g - 1\<rparr> else g)"

definition goes_before :: "slot_gate \<Rightarrow> nat \<Rightarrow> nat \<Rightarrow> bool" where
  "goes_before g w b \<longleftrightarrow> sg_prio g ! b < sg_prio g ! w \<or> sg_prio g ! w = sg_prio g ! b \<and> w < b"

fun best_of :: "slot_gate \<Rightarrow> nat \<Rightarrow> nat list \<Rightarrow> nat" where
  "best_of g b [] = b"
| "best_of g b (w # ws) = best_of g (if goes_before g w b then w else b) ws"

lemma best_of_mem: "best_of g b ws \<in> set (b # ws)"
  by (induction ws arbitrary: b) (auto split: if_splits)

function dispatch_loop :: "slot_gate \<Rightarrow> slot_gate" where
  "dispatch_loop g =
     (case sg_waiting g of
        [] \<Rightarrow> g
      | b # ws \<Rightarrow>
          if 0 < sg_free g
          then (let w = best_of g b ws
                in dispatch_loop (g\<lparr>sg_waiting := remove1 w (b # ws), sg_free := sg_free g - 1,
                     sg_granted := (sg_granted g)[w := True]\<rparr>))
          else g)"
  by pat_completeness auto
termination
proof (relation "measure (\<lambda>g. length (sg_waiting g))", simp)
  fix g b ws w assume "sg_waiting g = b # ws" "w = best_of g b ws"
  then have "length (remove1 w (b # ws)) < length (sg_waiting g)"
    using best_of_mem[of g b ws] length_pos_if_in_set[of w "b # ws"] by (simp add: length_remove1 del: remove1.simps)
  then show "(g\<lparr>sg_waiting := remove1 w (b # ws), sg_free := sg_free g - 1, sg_granted := (sg_granted g)[w := True]\<rparr>, g)
      \<in> measure (\<lambda>g. length (sg_waiting g))"
    by (simp del: remove1.simps)
qed

declare dispatch_loop.simps [simp del]

definition dispatchLocked :: "slot_gate \<Rightarrow> slot_gate" where
  "dispatchLocked g = (if 0 < sg_unsettled g then g else dispatch_loop g)"

definition gate_settle :: "nat \<Rightarrow> slot_gate \<Rightarrow> slot_gate" where
  "gate_settle t g = dispatchLocked (settleLocked t g)"

definition gate_acquire :: "nat \<Rightarrow> slot_gate \<Rightarrow> slot_gate" where
  \<comment> \<open>up to the wait for \<open>granted\<close>\<close>
  "gate_acquire t g = (let g = settleLocked t g in dispatchLocked (g\<lparr>sg_waiting := sg_waiting g @ [t]\<rparr>))"

definition gate_release :: "slot_gate \<Rightarrow> slot_gate" where
  "gate_release g = dispatchLocked (g\<lparr>sg_free := sg_free g + 1\<rparr>)"

section \<open>Components\<close>

record component_gate =
  cg_cap :: int
  cg_active :: "nat gmap"

definition newComponentGate :: "int \<Rightarrow> component_gate" where
  "newComponentGate cap = \<lparr>cg_cap = cap, cg_active = []\<rparr>"

definition must_wait :: "string \<Rightarrow> component_gate \<Rightarrow> bool" where
  "must_wait component g \<longleftrightarrow>
     0 < cg_cap g \<and> gm_get_or 0 (cg_active g) component = 0 \<and> cg_cap g \<le> int (length (cg_active g))"

definition component_enter :: "string \<Rightarrow> component_gate \<Rightarrow> component_gate" where
  \<comment> \<open>once there is no reason to wait\<close>
  "component_enter component g =
     (if cg_cap g \<le> 0 then g
      else g\<lparr>cg_active := gm_set component (gm_get_or 0 (cg_active g) component + 1) (cg_active g)\<rparr>)"

definition component_leave :: "string \<Rightarrow> component_gate \<Rightarrow> component_gate" where
  "component_leave component g =
     (if cg_cap g \<le> 0 then g
      else (let n = int (gm_get_or 0 (cg_active g) component) - 1
            in g\<lparr>cg_active := (if n \<le> 0 then gm_del component (cg_active g) else gm_set component (nat n) (cg_active g))\<rparr>))"

section \<open>Laws of the gate\<close>

lemma best_of_best:
  "\<forall>x \<in> set (b # ws). x = best_of g b ws \<or> goes_before g (best_of g b ws) x"
proof (induction ws arbitrary: b)
  case (Cons w ws)
  let ?b = "if goes_before g w b then w else b"
  have tr: "goes_before g x y \<Longrightarrow> goes_before g y z \<Longrightarrow> goes_before g x z" for x y z by (auto simp: goes_before_def)
  have tot: "x = y \<or> goes_before g x y \<or> goes_before g y x" for x y by (auto simp: goes_before_def)
  have IH: "x = best_of g ?b ws \<or> goes_before g (best_of g ?b ws) x" if "x \<in> set (?b # ws)" for x using Cons.IH[of ?b] that by blast
  have "x = best_of g ?b ws \<or> goes_before g (best_of g ?b ws) x" if x: "x = b \<or> x = w" for x
  proof (cases "x = ?b")
    case True
    then show ?thesis using IH by simp
  next
    case False
    then have b: "goes_before g ?b x" using x tot[of w b] by (auto split: if_splits)
    have "?b = best_of g ?b ws \<or> goes_before g (best_of g ?b ws) ?b" by (rule IH) simp
    then show ?thesis using b tr[of "best_of g ?b ws" ?b x] by metis
  qed
  then show ?case using IH by simp
qed simp

definition gate_frame :: "slot_gate \<Rightarrow> slot_gate \<Rightarrow> bool" where
  \<comment> \<open>what dispatching does not change\<close>
  "gate_frame g g' \<longleftrightarrow> sg_unsettled g' = sg_unsettled g \<and> sg_prio g' = sg_prio g \<and> sg_settled g' = sg_settled g \<and>
     length (sg_granted g') = length (sg_granted g)"

definition new_grants :: "slot_gate \<Rightarrow> slot_gate \<Rightarrow> nat set" where
  "new_grants g g' = set (sg_waiting g) - set (sg_waiting g')"

text \<open>
  Dispatching grants the best waiting tickets and leaves no free slot while a ticket waits. No slot is
  created or lost: as many slots are taken as tickets are granted.
\<close>

lemma dispatch_loop_spec:
  assumes "distinct (sg_waiting g)" "\<And>w. w \<in> set (sg_waiting g) \<Longrightarrow> w < length (sg_granted g) \<and> \<not> sg_granted g ! w" "0 \<le> sg_free g"
  shows "gate_frame g (dispatch_loop g) \<and> 0 \<le> sg_free (dispatch_loop g) \<and>
    distinct (sg_waiting (dispatch_loop g)) \<and> set (sg_waiting (dispatch_loop g)) \<subseteq> set (sg_waiting g) \<and>
    sg_free g = sg_free (dispatch_loop g) + int (card (new_grants g (dispatch_loop g))) \<and>
    (\<forall>i < length (sg_granted g). sg_granted (dispatch_loop g) ! i \<longleftrightarrow> sg_granted g ! i \<or> i \<in> new_grants g (dispatch_loop g)) \<and>
    (sg_free (dispatch_loop g) = 0 \<or> sg_waiting (dispatch_loop g) = []) \<and>
    (\<forall>w \<in> new_grants g (dispatch_loop g). \<forall>x \<in> set (sg_waiting (dispatch_loop g)). goes_before g w x)"
  using assms
proof (induction g rule: dispatch_loop.induct)
  case (1 g)
  show ?case
  proof (cases "sg_waiting g")
    case Nil
    then have "dispatch_loop g = g" by (subst dispatch_loop.simps) simp
    then show ?thesis using Nil "1.prems" by (simp add: gate_frame_def new_grants_def)
  next
    case (Cons b ws)
    show ?thesis
    proof (cases "0 < sg_free g")
      case False
      then have "dispatch_loop g = g" using Cons by (subst dispatch_loop.simps) simp
      then show ?thesis using False "1.prems" by (simp add: gate_frame_def new_grants_def)
    next
      case True
      let ?w = "best_of g b ws"
      let ?g = "g\<lparr>sg_waiting := remove1 ?w (b # ws), sg_free := sg_free g - 1, sg_granted := (sg_granted g)[?w := True]\<rparr>"
      have eq: "dispatch_loop g = dispatch_loop ?g" using Cons True by (subst dispatch_loop.simps) (simp add: Let_def)
      have w: "?w \<in> set (sg_waiting g)" "?w < length (sg_granted g)" "\<not> sg_granted g ! ?w"
        using best_of_mem[of g b ws] "1.prems"(2) unfolding Cons by auto
      have d: "distinct (b # ws)" using "1.prems"(1) Cons by simp
      have sub: "set (sg_waiting ?g) = set (sg_waiting g) - {?w}" using set_remove1_eq[OF d] Cons by (simp del: remove1.simps)
      have IH: "gate_frame ?g (dispatch_loop ?g) \<and> 0 \<le> sg_free (dispatch_loop ?g) \<and>
          distinct (sg_waiting (dispatch_loop ?g)) \<and> set (sg_waiting (dispatch_loop ?g)) \<subseteq> set (sg_waiting ?g) \<and>
          sg_free ?g = sg_free (dispatch_loop ?g) + int (card (new_grants ?g (dispatch_loop ?g))) \<and>
          (\<forall>i < length (sg_granted ?g). sg_granted (dispatch_loop ?g) ! i \<longleftrightarrow> sg_granted ?g ! i \<or> i \<in> new_grants ?g (dispatch_loop ?g)) \<and>
          (sg_free (dispatch_loop ?g) = 0 \<or> sg_waiting (dispatch_loop ?g) = []) \<and>
          (\<forall>w \<in> new_grants ?g (dispatch_loop ?g). \<forall>x \<in> set (sg_waiting (dispatch_loop ?g)). goes_before ?g w x)"
      proof (rule "1.IH"[OF Cons True refl])
        show "distinct (sg_waiting ?g)" using d by (simp add: distinct_remove1)
        show "0 \<le> sg_free ?g" using True by simp
        fix v assume "v \<in> set (sg_waiting ?g)"
        then have "v \<in> set (sg_waiting g)" "v \<noteq> ?w" using sub by auto
        then show "v < length (sg_granted ?g) \<and> \<not> sg_granted ?g ! v" using "1.prems"(2)[of v] by simp
      qed
      have ng: "new_grants g (dispatch_loop ?g) = insert ?w (new_grants ?g (dispatch_loop ?g))" "?w \<notin> new_grants ?g (dispatch_loop ?g)"
        using IH w(1) sub unfolding new_grants_def by auto
      have card: "card (new_grants g (dispatch_loop ?g)) = Suc (card (new_grants ?g (dispatch_loop ?g)))"
        using ng by (simp add: new_grants_def)
      have gb: "goes_before ?g = goes_before g" by (simp add: goes_before_def fun_eq_iff)
      have "goes_before g ?w x" if "x \<in> set (sg_waiting (dispatch_loop ?g))" for x
      proof -
        have "x \<in> set (b # ws)" "x \<noteq> ?w" using IH that sub Cons by auto
        then show ?thesis using best_of_best[of b ws g] by blast
      qed
      then have best: "\<forall>v \<in> new_grants g (dispatch_loop ?g). \<forall>x \<in> set (sg_waiting (dispatch_loop ?g)). goes_before g v x"
        using IH unfolding ng(1) gb by blast
      have granted: "sg_granted (dispatch_loop ?g) ! i \<longleftrightarrow> sg_granted g ! i \<or> i \<in> new_grants g (dispatch_loop ?g)"
        if "i < length (sg_granted g)" for i
        using IH that unfolding ng(1) by (cases "i = ?w") simp_all
      have "gate_frame g (dispatch_loop ?g)" "set (sg_waiting (dispatch_loop ?g)) \<subseteq> set (sg_waiting g)"
        "sg_free g = sg_free (dispatch_loop ?g) + int (card (new_grants g (dispatch_loop ?g)))"
        using IH sub card by (auto simp: gate_frame_def)
      then show ?thesis unfolding eq using IH best granted by blast
    qed
  qed
qed

end
