(* ===== verification/Run_Priority.thy ===== *)
theory Run_Priority
  imports Slot_Gate
begin

text \<open>
  The priority of a job in a run (\<open>criticalPath\<close> in \<open>internal/runner/lane_gate.go\<close>): the length of the longest chain
  of jobs that starts at it and follows dependents. The search is recursive with a memo and takes fuel; one more
  than the number of jobs is enough, as \<open>visiting\<close> stops it on a cycle.
\<close>

section \<open>The search\<close>

definition dependents_map :: "plan_job list \<Rightarrow> (string, string list) gmap_of" where
  "dependents_map jobs =
     fold (\<lambda>(dep, id). gm_push dep id) (concat (map (\<lambda>j. map (\<lambda>dep. (dep, pb_id j)) (pb_depends_on j)) jobs)) []"

type_synonym walk_memo = "(string, nat) gmap_of"

fun longest_of :: "(string \<Rightarrow> walk_memo \<Rightarrow> (nat \<times> walk_memo) option) \<Rightarrow> string list \<Rightarrow> nat \<Rightarrow> walk_memo \<Rightarrow> (nat \<times> walk_memo) option" where
  \<comment> \<open>the loop over the dependents\<close>
  "longest_of walk [] longest memo = Some (longest, memo)"
| "longest_of walk (d # ds) longest memo =
     (case walk d memo of
        None \<Rightarrow> None
      | Some (n, memo) \<Rightarrow> longest_of walk ds (if longest < n then n else longest) memo)"

fun chain_walk :: "nat \<Rightarrow> (string, string list) gmap_of \<Rightarrow> string set \<Rightarrow> string \<Rightarrow> walk_memo \<Rightarrow> (nat \<times> walk_memo) option" where
  "chain_walk 0 dependents visiting i memo = None"
| "chain_walk (Suc fuel) dependents visiting i memo =
     (case gm_get memo i of
        Some n \<Rightarrow> Some (n, memo)
      | None \<Rightarrow>
          if i \<in> visiting then Some (1, memo)
          else (case longest_of (chain_walk fuel dependents (insert i visiting)) (gm_get_or [] dependents i) 0 memo of
              None \<Rightarrow> None
            | Some (longest, memo) \<Rightarrow> Some (longest + 1, gm_set i (longest + 1) memo)))"

fun walk_jobs :: "nat \<Rightarrow> (string, string list) gmap_of \<Rightarrow> plan_job list \<Rightarrow> walk_memo \<Rightarrow> walk_memo option" where
  "walk_jobs fuel dependents [] memo = Some memo"
| "walk_jobs fuel dependents (j # js) memo =
     (case chain_walk fuel dependents {} (pb_id j) memo of
        None \<Rightarrow> None
      | Some (n, memo) \<Rightarrow> walk_jobs fuel dependents js memo)"

definition job_chains :: "plan_job list \<Rightarrow> walk_memo option" where
  "job_chains jobs = walk_jobs (length jobs + 2) (dependents_map jobs) jobs []"

definition job_priority :: "plan_job list \<Rightarrow> string \<Rightarrow> int" where
  \<comment> \<open>an entry of \<open>criticalPath(jobs)\<close>\<close>
  "job_priority jobs i = (case job_chains jobs of Some memo \<Rightarrow> int (gm_get_or 0 memo i) | None \<Rightarrow> 0)"

text \<open>The fuel is enough, on a cycle too.\<close>

lemma longest_of_returns: "(\<And>d memo. d \<in> set ds \<Longrightarrow> walk d memo \<noteq> None) \<Longrightarrow> longest_of walk ds l memo \<noteq> None"
proof (induction ds arbitrary: l memo)
  case (Cons d ds)
  then obtain n memo1 where "walk d memo = Some (n, memo1)" by (metis list.set_intros(1) not_Some_eq surj_pair)
  then show ?case using Cons.IH[of "if l < n then n else l" memo1] Cons.prems by simp
qed simp

lemma chain_walk_returns:
  assumes "finite N" "\<And>u. set (gm_get_or [] deps u) \<subseteq> N"
  shows "i \<in> N \<Longrightarrow> card (N - visiting) < fuel \<Longrightarrow> chain_walk fuel deps visiting i memo \<noteq> None"
proof (induction fuel arbitrary: visiting i memo)
  case (Suc fuel)
  show ?case
  proof (cases "i \<in> visiting")
    case False
    then have "N - insert i visiting \<subset> N - visiting" using Suc.prems(1) by blast
    then have "card (N - insert i visiting) < fuel" using psubset_card_mono[of "N - visiting"] assms(1) Suc.prems(2) by fastforce
    then have "longest_of (chain_walk fuel deps (insert i visiting)) (gm_get_or [] deps i) 0 memo \<noteq> None"
      using Suc.IH assms(2) by (intro longest_of_returns) blast
    then show ?thesis by (auto split: option.splits)
  qed (auto split: option.splits)
qed simp

lemma walk_jobs_returns:
  assumes "\<And>i memo. i \<in> pb_id ` set js \<Longrightarrow> chain_walk fuel deps {} i memo \<noteq> None"
  shows "walk_jobs fuel deps js memo \<noteq> None"
  using assms
proof (induction js arbitrary: memo)
  case (Cons j js)
  then obtain n memo1 where "chain_walk fuel deps {} (pb_id j) memo = Some (n, memo1)"
    by (metis image_eqI list.set_intros(1) not_Some_eq surj_pair)
  then show ?case using Cons.IH[of memo1] Cons.prems by simp
qed simp

section \<open>Chains\<close>

definition waits_edges :: "plan_job list \<Rightarrow> (string \<times> string) set" where
  \<comment> \<open>from a job to one that depends on it\<close>
  "waits_edges jobs = {(u, pb_id j) | u j. j \<in> set jobs \<and> u \<in> set (pb_depends_on j)}"

fun chain :: "(string \<times> string) set \<Rightarrow> string list \<Rightarrow> bool" where
  "chain E [] \<longleftrightarrow> False"
| "chain E [x] \<longleftrightarrow> True"
| "chain E (x # y # zs) \<longleftrightarrow> (x, y) \<in> E \<and> chain E (y # zs)"

definition is_longest :: "(string \<times> string) set \<Rightarrow> string \<Rightarrow> nat \<Rightarrow> bool" where
  "is_longest E i n \<longleftrightarrow> (\<exists>xs. chain E (i # xs) \<and> length (i # xs) = n) \<and> (\<forall>xs. chain E (i # xs) \<longrightarrow> length (i # xs) \<le> n)"

lemma chain_Cons: "chain E (i # xs) \<longleftrightarrow> xs = [] \<or> (\<exists>d zs. xs = d # zs \<and> (i, d) \<in> E \<and> chain E (d # zs))"
  by (cases xs) auto

lemma dependents_edges: "d \<in> set (gm_get_or [] (dependents_map jobs) u) \<longleftrightarrow> (u, d) \<in> waits_edges jobs"
proof -
  have "gm_get_or [] (dependents_map jobs) u =
      map snd (filter (\<lambda>x. fst x = u) (concat (map (\<lambda>j. map (\<lambda>dep. (dep, pb_id j)) (pb_depends_on j)) jobs)))"
    unfolding dependents_map_def split_def gm_get_fold_push by (simp add: gm_get_or_def)
  then show ?thesis by (force simp: waits_edges_def)
qed

lemma job_chains_returns: "job_chains jobs \<noteq> None"
proof -
  let ?N = "pb_id ` set jobs"
  have "card ?N \<le> length jobs" by (metis card_length length_map list.set_map)
  then have fuel: "card (?N - {}) < length jobs + 2" by simp
  have "set (gm_get_or [] (dependents_map jobs) u) \<subseteq> ?N" for u by (auto simp: dependents_edges waits_edges_def)
  then show ?thesis unfolding job_chains_def using fuel by (intro walk_jobs_returns chain_walk_returns[of ?N]) auto
qed

definition memo_ok :: "(string \<times> string) set \<Rightarrow> walk_memo \<Rightarrow> bool" where
  "memo_ok E memo \<longleftrightarrow> (\<forall>i n. gm_get memo i = Some n \<longrightarrow> is_longest E i n)"

lemma is_longest_unique: "is_longest E i n \<Longrightarrow> is_longest E i m \<Longrightarrow> n = m"
  unfolding is_longest_def by (metis le_antisym)

definition grown :: "walk_memo \<Rightarrow> walk_memo \<Rightarrow> bool" where
  "grown memo memo' \<longleftrightarrow> set (gm_keys memo) \<subseteq> set (gm_keys memo')"

lemma grown_simps [simp]: "grown m m" "grown m m' \<Longrightarrow> grown m (gm_set k v m')"
  by (auto simp: grown_def set_keys_set simp del: set_map)

lemma grown_trans: "grown a b \<Longrightarrow> grown b c \<Longrightarrow> grown a c"
  by (simp add: grown_def)

definition walk_ok :: "(string \<times> string) set \<Rightarrow> (walk_memo \<Rightarrow> (nat \<times> walk_memo) option) \<Rightarrow> string \<Rightarrow> bool" where
  "walk_ok E walk i \<longleftrightarrow> (\<forall>memo. memo_ok E memo \<longrightarrow>
     (\<exists>n memo'. walk memo = Some (n, memo') \<and> is_longest E i n \<and> memo_ok E memo' \<and> grown memo memo'))"

lemma longest_step:
  assumes "\<forall>d. (i, d) \<in> E \<longrightarrow> (\<exists>k \<le> n. is_longest E d k)" "n = 0 \<or> (\<exists>d. (i, d) \<in> E \<and> is_longest E d n)"
  shows "is_longest E i (n + 1)"
proof -
  have "length (i # xs) \<le> n + 1" if "chain E (i # xs)" for xs
  proof (cases xs)
    case (Cons d zs)
    then have "(i, d) \<in> E" "chain E (d # zs)" using that by simp_all
    then have "length (d # zs) \<le> n" using assms(1) unfolding is_longest_def by (meson le_trans)
    then show ?thesis using Cons by simp
  qed simp
  moreover have "\<exists>xs. chain E (i # xs) \<and> length (i # xs) = n + 1"
  proof (cases "n = 0")
    case True
    then show ?thesis by (intro exI[of _ "[]"]) simp
  next
    case False
    then obtain d zs where "(i, d) \<in> E" "chain E (d # zs)" "length (d # zs) = n" using assms(2) unfolding is_longest_def by blast
    then show ?thesis by (intro exI[of _ "d # zs"]) simp
  qed
  ultimately show ?thesis unfolding is_longest_def by blast
qed

lemma longest_of_spec:
  assumes "\<forall>d \<in> set ds. walk_ok E (walk d) d" "memo_ok E memo"
  shows "\<exists>n memo'. longest_of walk ds l memo = Some (n, memo') \<and> memo_ok E memo' \<and> grown memo memo' \<and> l \<le> n \<and>
    (\<forall>d \<in> set ds. \<exists>k \<le> n. is_longest E d k) \<and> (n = l \<or> (\<exists>d \<in> set ds. is_longest E d n))"
  using assms
proof (induction ds arbitrary: l memo)
  case (Cons d ds)
  have "walk_ok E (walk d) d" using Cons.prems(1) by simp
  then obtain n memo1 where w: "walk d memo = Some (n, memo1)" "is_longest E d n" "memo_ok E memo1" "grown memo memo1"
    using Cons.prems(2) unfolding walk_ok_def by blast
  define l' where "l' = (if l < n then n else l)"
  have "\<forall>d \<in> set ds. walk_ok E (walk d) d" using Cons.prems(1) by simp
  from Cons.IH[OF this w(3)] obtain r memo2 where r: "longest_of walk ds l' memo1 = Some (r, memo2)" "memo_ok E memo2" "grown memo1 memo2"
    "l' \<le> r" "\<forall>d \<in> set ds. \<exists>k \<le> r. is_longest E d k" "r = l' \<or> (\<exists>d \<in> set ds. is_longest E d r)" by blast
  have le: "n \<le> r" "l \<le> r" using r(4) by (simp_all add: l'_def split: if_splits)
  have "r = l \<or> (\<exists>d' \<in> set (d # ds). is_longest E d' r)"
  proof (cases "r = l'")
    case True
    then show ?thesis using w(2) by (simp add: l'_def split: if_splits)
  next
    case False
    then show ?thesis using r(6) by simp
  qed
  moreover have "\<forall>d' \<in> set (d # ds). \<exists>k \<le> r. is_longest E d' k" using r(5) w(2) le(1) by auto
  moreover have "longest_of walk (d # ds) l memo = Some (r, memo2)" using w(1) r(1) by (simp add: l'_def)
  ultimately show ?case using r(2) le(2) grown_trans[OF w(4) r(3)] by blast
qed simp

lemma chain_walk_spec:
  assumes "finite N" "\<And>u d. (u, d) \<in> waits_edges jobs \<Longrightarrow> d \<in> N" "acyclic (waits_edges jobs)"
    and "i \<in> N" "card (N - visiting) < fuel" "\<And>v. v \<in> visiting \<Longrightarrow> (v, i) \<in> (waits_edges jobs)\<^sup>+"
  shows "walk_ok (waits_edges jobs) (chain_walk fuel (dependents_map jobs) visiting i) i"
  using assms(4-)
proof (induction fuel arbitrary: visiting i)
  case (Suc fuel)
  let ?E = "waits_edges jobs" and ?ds = "gm_get_or [] (dependents_map jobs) i"
  let ?walk = "chain_walk fuel (dependents_map jobs) (insert i visiting)"
  have nv: "i \<notin> visiting" using Suc.prems(3)[of i] assms(3) by (auto simp: acyclic_def)
  have "N - insert i visiting \<subset> N - visiting" using Suc.prems(1) nv by blast
  then have fuel: "card (N - insert i visiting) < fuel" using psubset_card_mono[of "N - visiting"] assms(1) Suc.prems(2) by fastforce
  have walk: "\<forall>d \<in> set ?ds. walk_ok ?E (?walk d) d"
  proof
    fix d assume "d \<in> set ?ds"
    then have e: "(i, d) \<in> ?E" using dependents_edges by simp
    have "(v, d) \<in> ?E\<^sup>+" if "v \<in> insert i visiting" for v
      using that Suc.prems(3)[of v] e by (auto intro: trancl_into_trancl)
    then show "walk_ok ?E (?walk d) d" using Suc.IH[of d "insert i visiting"] assms(2)[OF e] fuel by blast
  qed
  show ?case unfolding walk_ok_def
  proof (intro allI impI)
    fix memo assume memo: "memo_ok ?E memo"
    show "\<exists>n memo'. chain_walk (Suc fuel) (dependents_map jobs) visiting i memo = Some (n, memo') \<and> is_longest ?E i n \<and> memo_ok ?E memo' \<and> grown memo memo'"
    proof (cases "gm_get memo i")
      case (Some n)
      then show ?thesis using memo by (auto simp: memo_ok_def)
    next
      case None
      obtain n memo' where l: "longest_of ?walk ?ds 0 memo = Some (n, memo')" "memo_ok ?E memo'" "grown memo memo'"
        "\<forall>d \<in> set ?ds. \<exists>k \<le> n. is_longest ?E d k" "n = 0 \<or> (\<exists>d \<in> set ?ds. is_longest ?E d n)"
        using longest_of_spec[OF walk memo, of 0] by blast
      have n: "is_longest ?E i (n + 1)" by (rule longest_step) (use l(4,5) dependents_edges in auto)
      have "chain_walk (Suc fuel) (dependents_map jobs) visiting i memo = Some (n + 1, gm_set i (n + 1) memo')"
        using None nv l(1) by simp
      moreover have "memo_ok ?E (gm_set i (n + 1) memo')" using l(2) n by (simp add: memo_ok_def gm_get_set)
      ultimately show ?thesis using n l(3) by auto
    qed
  qed
qed simp

lemma walk_has:
  "chain_walk (Suc fuel) deps {} i memo = Some (n, memo') \<Longrightarrow> gm_has memo' i"
  by (auto simp: gm_has_def gm_get_set split: option.splits prod.splits)

lemma walk_jobs_spec:
  assumes "acyclic (waits_edges jobs)" "set js \<subseteq> set jobs" "memo_ok (waits_edges jobs) memo" "length jobs < fuel"
  shows "\<exists>memo'. walk_jobs fuel (dependents_map jobs) js memo = Some memo' \<and> memo_ok (waits_edges jobs) memo' \<and> grown memo memo' \<and>
    (\<forall>j \<in> set js. gm_has memo' (pb_id j))"
  using assms(2,3)
proof (induction js arbitrary: memo)
  case (Cons j js)
  have "card (pb_id ` set jobs) \<le> length jobs" by (metis card_length length_map list.set_map)
  then have fuel: "card (pb_id ` set jobs - {}) < fuel" using assms(4) by simp
  have "walk_ok (waits_edges jobs) (chain_walk fuel (dependents_map jobs) {} (pb_id j)) (pb_id j)"
    by (rule chain_walk_spec[where N = "pb_id ` set jobs"]) (use assms(1) Cons.prems fuel in \<open>auto simp: waits_edges_def\<close>)
  then obtain n memo1 where w: "chain_walk fuel (dependents_map jobs) {} (pb_id j) memo = Some (n, memo1)"
    "memo_ok (waits_edges jobs) memo1" "grown memo memo1" using Cons.prems(2) unfolding walk_ok_def by blast
  have has: "gm_has memo1 (pb_id j)" using walk_has[of "fuel - 1"] w(1) assms(4) by (cases fuel) auto
  have "set js \<subseteq> set jobs" using Cons.prems(1) by simp
  from Cons.IH[OF this w(2)] obtain memo2 where r: "walk_jobs fuel (dependents_map jobs) js memo1 = Some memo2"
    "memo_ok (waits_edges jobs) memo2" "grown memo1 memo2" "\<forall>j \<in> set js. gm_has memo2 (pb_id j)" by blast
  have "gm_has memo2 (pb_id j)" using has r(3) by (auto simp: gm_has_iff grown_def)
  then show ?case using w(1) r grown_trans[OF w(3) r(3)] by simp
qed simp

text \<open>
  The priority of every job of an acyclic plan is the length of the longest chain of jobs that starts at it and
  follows dependents.
\<close>

theorem priority_is_the_longest_chain:
  assumes "acyclic (waits_edges jobs)" "j \<in> set jobs"
  shows "\<exists>n. job_priority jobs (pb_id j) = int n \<and> is_longest (waits_edges jobs) (pb_id j) n"
proof -
  obtain memo where m: "walk_jobs (length jobs + 2) (dependents_map jobs) jobs [] = Some memo" "memo_ok (waits_edges jobs) memo"
    "\<forall>j \<in> set jobs. gm_has memo (pb_id j)"
    using walk_jobs_spec[OF assms(1) subset_refl, of "[]" "length jobs + 2"] by (auto simp: memo_ok_def)
  then obtain n where "gm_get memo (pb_id j) = Some n" using assms(2) by (auto simp: gm_has_def)
  then show ?thesis using m by (auto simp: job_priority_def job_chains_def memo_ok_def gm_get_or_def)
qed

end
