(* ===== verification/Run_Schedule.thy ===== *)
theory Run_Schedule
  imports Run_Priority
begin

text \<open>
  The scheduler of a run (\<open>runScheduled\<close> in \<open>internal/runner/lane.go\<close>): one goroutine per job. A goroutine is a
  program counter, and \<open>job_step\<close> its next atomic action - a section under one lock, or the end of a wait - with
  \<open>None\<close> while it has to wait. The deferred calls at the end of a goroutine are steps of their own, in the order
  in which Go runs them. A run is any interleaving of these steps; an interrupt may come at any time. What the
  hooks and the job itself do are parameters: each is asked at most once per job. Dry runs, printing, check
  runs and timing are left out.
\<close>

section \<open>A run\<close>

datatype before_job = Proceed | SkipJob | HookError

record run_env =
  re_slots :: int
  re_cap :: int
  re_fail_fast :: bool
  re_lane_mode :: bool
  re_await :: "(string \<Rightarrow> string list \<Rightarrow> bool) option" \<comment> \<open>the hook \<open>AwaitUpstream\<close>; \<open>False\<close> is an error\<close>
  re_job_selected :: bool \<comment> \<open>\<open>JobID\<close> is set\<close>
  re_skip_local_deps :: bool
  re_before :: "string \<Rightarrow> before_job"
  re_exec :: "string \<Rightarrow> bool" \<comment> \<open>whether the job succeeds\<close>
  re_jobs :: "plan_job list"
  re_plan_jobs :: "plan_job list" \<comment> \<open>the jobs of the whole plan, for the priorities\<close>

datatype lane_status = LaneNotRun | LaneResumed | LaneBlocked | LaneFailed | LaneSucceeded

datatype job_pc =
    PUp nat \<comment> \<open>about to look at this upstream\<close>
  | PAwaitUp nat \<comment> \<open>waiting for it to end\<close>
  | PCheck
  | POutside
  | PStop1
  | PEnter
  | PEnterWait
  | PAcquire
  | PWaitSlot
  | PStop2
  | PBefore
  | PExec
  | PRelease
  | PLeave
  | PClose
  | PSettle
  | PDone

record sched =
  sd_gate :: slot_gate
  sd_components :: component_gate
  sd_pc :: "job_pc list"
  sd_status :: "lane_status list"
  sd_first_err :: bool
  sd_interrupted :: bool
  sd_completed :: "string list" \<comment> \<open>the jobs with status completed in the execution's state\<close>

definition outsideUpstreams :: "plan_job list \<Rightarrow> plan_job \<Rightarrow> string list" where
  \<comment> \<open>the entry of the map for this job\<close>
  "outsideUpstreams jobs job = filter (\<lambda>dep. dep \<notin> pb_id ` set jobs) (pb_depends_on job)"

definition unresolvedDependencies :: "plan_job \<Rightarrow> string list \<Rightarrow> string list" where
  "unresolvedDependencies job completed = filter (\<lambda>dep. dep \<notin> set completed) (pb_depends_on job)"

definition outcome_of :: "plan_job list \<Rightarrow> string \<Rightarrow> nat option" where
  \<comment> \<open>\<open>outcomes[dep]\<close>: the job with this id, the last one if several have it\<close>
  "outcome_of jobs dep = find (\<lambda>i. pb_id (jobs ! i) = dep) (rev [0..<length jobs])"

definition closed_pc :: "job_pc \<Rightarrow> bool" where
  \<comment> \<open>the job's \<open>done\<close> channel is closed\<close>
  "closed_pc pc \<longleftrightarrow> pc = PSettle \<or> pc = PDone"

definition outcome_ok :: "lane_status \<Rightarrow> bool" where
  "outcome_ok st \<longleftrightarrow> st = LaneSucceeded \<or> st = LaneResumed"

definition init_sched :: "run_env \<Rightarrow> string list \<Rightarrow> sched" where
  "init_sched env completed =
     (let jobs = re_jobs env; slots = (if re_slots env < 1 then 1 else re_slots env)
      in \<lparr>sd_gate = newSlotGate slots (map (\<lambda>j. job_priority (re_plan_jobs env) (pb_id j)) jobs), sd_components = newComponentGate (re_cap env),
          sd_pc = map (\<lambda>_. PUp 0) jobs, sd_status = map (\<lambda>_. LaneNotRun) jobs, sd_first_err = False,
          sd_interrupted = False, sd_completed = completed\<rparr>)"

section \<open>The steps of a job\<close>

definition goto :: "nat \<Rightarrow> job_pc \<Rightarrow> sched \<Rightarrow> sched" where
  "goto i pc st = st\<lparr>sd_pc := (sd_pc st)[i := pc]\<rparr>"

definition ended :: "nat \<Rightarrow> lane_status \<Rightarrow> sched \<Rightarrow> sched" where
  \<comment> \<open>\<open>rec.status = ...\<close>\<close>
  "ended i status st = st\<lparr>sd_status := (sd_status st)[i := status]\<rparr>"

definition failed_run :: "sched \<Rightarrow> sched" where
  "failed_run st = st\<lparr>sd_first_err := True\<rparr>"

definition with_gate :: "(slot_gate \<Rightarrow> slot_gate) \<Rightarrow> sched \<Rightarrow> sched" where
  "with_gate f st = st\<lparr>sd_gate := f (sd_gate st)\<rparr>"

definition stopped :: "run_env \<Rightarrow> sched \<Rightarrow> bool" where
  "stopped env st \<longleftrightarrow> re_fail_fast env \<and> sd_first_err st"

definition upstream_step :: "run_env \<Rightarrow> nat \<Rightarrow> nat \<Rightarrow> sched \<Rightarrow> sched" where
  "upstream_step env i k st =
     (let deps = pb_depends_on (re_jobs env ! i)
      in if length deps \<le> k then goto i PCheck st
         else (case outcome_of (re_jobs env) (deps ! k) of
             None \<Rightarrow> goto i (PUp (k + 1)) st
           | Some _ \<Rightarrow> goto i (PAwaitUp k) (with_gate (gate_settle i) st)))"

definition await_step :: "run_env \<Rightarrow> nat \<Rightarrow> nat \<Rightarrow> sched \<Rightarrow> sched option" where
  "await_step env i k st =
     (let deps = pb_depends_on (re_jobs env ! i)
      in if length deps \<le> k then None
         else (case outcome_of (re_jobs env) (deps ! k) of
             None \<Rightarrow> None
           | Some d \<Rightarrow>
               if \<not> closed_pc (sd_pc st ! d) then None
               else Some (if outcome_ok (sd_status st ! d) then goto i (PUp (k + 1)) st
                          else goto i PClose (ended i LaneBlocked st))))"

definition resumed_step :: "run_env \<Rightarrow> nat \<Rightarrow> sched \<Rightarrow> sched" where
  "resumed_step env i st =
     (if pb_id (re_jobs env ! i) \<in> set (sd_completed st) then goto i PClose (ended i LaneResumed st) else goto i POutside st)"

definition outside_step :: "run_env \<Rightarrow> nat \<Rightarrow> sched \<Rightarrow> sched" where
  "outside_step env i st =
     (let j = re_jobs env ! i; deps = outsideUpstreams (re_jobs env) j
      in if deps = [] then goto i PStop1 st
         else (case (if re_lane_mode env then re_await env else None) of
             Some await \<Rightarrow>
               (let st = with_gate (gate_settle i) st
                in if await (pb_id j) deps then goto i PStop1 st
                   else goto i PClose (failed_run (ended i LaneBlocked st)))
           | None \<Rightarrow>
               if re_lane_mode env \<or> re_job_selected env \<and> re_skip_local_deps env then goto i PStop1 st
               else (let unmet = unresolvedDependencies j (sd_completed st)
                     in if unmet = [] then goto i PStop1 st
                        else (let st = ended i LaneNotRun st
                              in goto i PClose (if re_job_selected env then failed_run st else st)))))"

definition enter_step :: "run_env \<Rightarrow> nat \<Rightarrow> sched \<Rightarrow> sched" where
  "enter_step env i st =
     (let c = pb_component (re_jobs env ! i)
      in if must_wait c (sd_components st) then goto i PEnterWait (with_gate (gate_settle i) st)
         else goto i PAcquire (st\<lparr>sd_components := component_enter c (sd_components st)\<rparr>))"

definition enter_wait_step :: "run_env \<Rightarrow> nat \<Rightarrow> sched \<Rightarrow> sched option" where
  "enter_wait_step env i st =
     (let c = pb_component (re_jobs env ! i)
      in if must_wait c (sd_components st) then None
         else Some (goto i PAcquire (st\<lparr>sd_components := component_enter c (sd_components st)\<rparr>)))"

definition before_step :: "run_env \<Rightarrow> nat \<Rightarrow> sched \<Rightarrow> sched" where
  "before_step env i st =
     (let job = pb_id (re_jobs env ! i)
      in case re_before env job of
           Proceed \<Rightarrow> goto i PExec st
         | SkipJob \<Rightarrow> goto i PRelease (ended i LaneResumed (st\<lparr>sd_completed := job # sd_completed st\<rparr>))
         | HookError \<Rightarrow> goto i PRelease (failed_run (ended i LaneFailed st)))"

definition exec_step :: "run_env \<Rightarrow> nat \<Rightarrow> sched \<Rightarrow> sched" where
  "exec_step env i st =
     (let job = pb_id (re_jobs env ! i)
      in if re_exec env job then goto i PRelease (ended i LaneSucceeded (st\<lparr>sd_completed := job # sd_completed st\<rparr>))
         else goto i PRelease (failed_run (ended i LaneFailed st)))"

fun job_step :: "run_env \<Rightarrow> nat \<Rightarrow> job_pc \<Rightarrow> sched \<Rightarrow> sched option" where
  "job_step env i (PUp k) st = Some (upstream_step env i k st)"
| "job_step env i (PAwaitUp k) st = await_step env i k st"
| "job_step env i PCheck st = Some (resumed_step env i st)"
| "job_step env i POutside st = Some (outside_step env i st)"
| "job_step env i PStop1 st = Some (goto i (if stopped env st \<or> sd_interrupted st then PClose else PEnter) st)"
| "job_step env i PEnter st = Some (enter_step env i st)"
| "job_step env i PEnterWait st = enter_wait_step env i st"
| "job_step env i PAcquire st = Some (goto i PWaitSlot (with_gate (gate_acquire i) st))"
| "job_step env i PWaitSlot st = (if sg_granted (sd_gate st) ! i then Some (goto i PStop2 st) else None)"
| "job_step env i PStop2 st = Some (goto i (if stopped env st \<or> sd_interrupted st then PRelease else PBefore) st)"
| "job_step env i PBefore st = Some (before_step env i st)"
| "job_step env i PExec st = Some (exec_step env i st)"
| "job_step env i PRelease st = Some (goto i PLeave (with_gate gate_release st))"
| "job_step env i PLeave st =
     Some (goto i PClose (st\<lparr>sd_components := component_leave (pb_component (re_jobs env ! i)) (sd_components st)\<rparr>))"
| "job_step env i PClose st = Some (goto i PSettle st)"
| "job_step env i PSettle st = Some (goto i PDone (with_gate (gate_settle i) st))"
| "job_step env i PDone st = None"

inductive sched_step :: "run_env \<Rightarrow> sched \<Rightarrow> sched \<Rightarrow> bool" for env where
  Job: "i < length (re_jobs env) \<Longrightarrow> job_step env i (sd_pc st ! i) st = Some st' \<Longrightarrow> sched_step env st st'"
| Interrupt: "\<not> sd_interrupted st \<Longrightarrow> sched_step env st (st\<lparr>sd_interrupted := True\<rparr>)"

inductive run_reaches :: "run_env \<Rightarrow> string list \<Rightarrow> sched \<Rightarrow> bool" for env completed where
  Start: "run_reaches env completed (init_sched env completed)"
| Step: "run_reaches env completed st \<Longrightarrow> sched_step env st st' \<Longrightarrow> run_reaches env completed st'"

inductive_cases sched_step_cases: "sched_step env st st'"

end
