(* ===== verification/Run_Gate.thy ===== *)
theory Run_Gate
  imports Run_Schedule
begin

text \<open>
  Invariants of the scheduler's two gates, over the program counters of the jobs: which jobs hold a slot or
  wait for one, and how many jobs of each component are in flight.
\<close>

definition has_slot :: "job_pc \<Rightarrow> bool" where
  "has_slot pc \<longleftrightarrow> pc \<in> {PStop2, PBefore, PExec, PRelease}"

definition late_pc :: "job_pc \<Rightarrow> bool" where
  \<comment> \<open>a slot has been asked for\<close>
  "late_pc pc \<longleftrightarrow> has_slot pc \<or> pc \<in> {PWaitSlot, PLeave, PClose, PSettle, PDone}"

definition settled_pc :: "job_pc \<Rightarrow> bool" where
  "settled_pc pc \<longleftrightarrow> (\<exists>k. pc = PAwaitUp k) \<or> pc \<in> {PEnterWait, PWaitSlot, PDone}"

definition in_flight :: "job_pc \<Rightarrow> bool" where
  "in_flight pc \<longleftrightarrow> has_slot pc \<or> pc \<in> {PAcquire, PWaitSlot, PLeave}"

definition waits :: "slot_gate \<Rightarrow> job_pc list \<Rightarrow> nat \<Rightarrow> bool" where
  "waits g pcs i \<longleftrightarrow> i < length pcs \<and> pcs ! i = PWaitSlot \<and> \<not> sg_granted g ! i"

definition holds_slot :: "slot_gate \<Rightarrow> job_pc list \<Rightarrow> nat \<Rightarrow> bool" where
  "holds_slot g pcs i \<longleftrightarrow> i < length pcs \<and> sg_granted g ! i \<and> (has_slot (pcs ! i) \<or> pcs ! i = PWaitSlot)"

definition gate_pre :: "int \<Rightarrow> job_pc list \<Rightarrow> slot_gate \<Rightarrow> bool" where
  "gate_pre slots pcs g \<longleftrightarrow>
     length (sg_settled g) = length pcs \<and> length (sg_granted g) = length pcs \<and>
     sg_unsettled g = int (card {i. i < length pcs \<and> \<not> sg_settled g ! i}) \<and>
     distinct (sg_waiting g) \<and> set (sg_waiting g) = {i. waits g pcs i} \<and>
     0 \<le> sg_free g \<and> sg_free g + int (card {i. holds_slot g pcs i}) = slots \<and>
     (\<forall>i < length pcs. (settled_pc (pcs ! i) \<longrightarrow> sg_settled g ! i) \<and> (has_slot (pcs ! i) \<longrightarrow> sg_granted g ! i) \<and>
        (sg_granted g ! i \<longrightarrow> late_pc (pcs ! i)))"

definition gate_inv :: "int \<Rightarrow> job_pc list \<Rightarrow> slot_gate \<Rightarrow> bool" where
  \<comment> \<open>and once every job has settled, no free slot is left while a job waits\<close>
  "gate_inv slots pcs g \<longleftrightarrow> gate_pre slots pcs g \<and> (sg_unsettled g = 0 \<longrightarrow> sg_free g = 0 \<or> sg_waiting g = [])"

lemma holds_finite: "finite {i. holds_slot g pcs i}"
  by (rule finite_subset[of _ "{..<length pcs}"]) (auto simp: holds_slot_def)

lemma int_card_minus: "finite A \<Longrightarrow> i \<in> A \<Longrightarrow> int (card (A - {i})) = int (card A) - 1"
  using card.remove[of A i] by simp

lemma dispatch_inv:
  assumes "gate_pre slots pcs g"
  shows "gate_inv slots pcs (dispatchLocked g)" "sg_settled (dispatchLocked g) = sg_settled g"
proof -
  have "gate_inv slots pcs (dispatchLocked g) \<and> sg_settled (dispatchLocked g) = sg_settled g"
  proof (cases "0 < sg_unsettled g")
    case True
    then show ?thesis using assms by (simp add: gate_inv_def dispatchLocked_def)
  next
    case False
    let ?g = "dispatch_loop g"
    have pre: "distinct (sg_waiting g)" "\<And>w. w \<in> set (sg_waiting g) \<Longrightarrow> w < length (sg_granted g) \<and> \<not> sg_granted g ! w" "0 \<le> sg_free g"
      using assms by (auto simp: gate_pre_def waits_def)
    from dispatch_loop_spec[OF pre] have fr: "gate_frame g ?g" and free: "0 \<le> sg_free ?g" and d: "distinct (sg_waiting ?g)"
      and sub: "set (sg_waiting ?g) \<subseteq> set (sg_waiting g)" and cnt: "sg_free g = sg_free ?g + int (card (new_grants g ?g))"
      and gr: "\<And>i. i < length (sg_granted g) \<Longrightarrow> sg_granted ?g ! i \<longleftrightarrow> sg_granted g ! i \<or> i \<in> new_grants g ?g"
      and fin: "sg_free ?g = 0 \<or> sg_waiting ?g = []"
      by simp_all
    have w: "set (sg_waiting g) = {i. waits g pcs i}" and len: "length (sg_granted g) = length pcs"
      using assms by (simp_all add: gate_pre_def)
    have gr': "sg_granted ?g ! i \<longleftrightarrow> sg_granted g ! i \<or> i \<in> new_grants g ?g" if "i < length pcs" for i
      using gr that len by simp
    have new: "i \<in> new_grants g ?g \<longleftrightarrow> waits g pcs i \<and> i \<notin> set (sg_waiting ?g)" for i
      unfolding new_grants_def w by simp
    have "set (sg_waiting ?g) = {i. waits ?g pcs i}"
      using sub new gr' unfolding w waits_def by blast
    moreover have "{i. holds_slot ?g pcs i} = {i. holds_slot g pcs i} \<union> new_grants g ?g"
      using gr' new by (auto simp: holds_slot_def waits_def)
    moreover have "{i. holds_slot g pcs i} \<inter> new_grants g ?g = {}"
      using new by (auto simp: holds_slot_def waits_def)
    moreover have "finite (new_grants g ?g)" by (simp add: new_grants_def)
    ultimately have "set (sg_waiting ?g) = {i. waits ?g pcs i}"
      and c: "int (card {i. holds_slot ?g pcs i}) = int (card {i. holds_slot g pcs i}) + int (card (new_grants g ?g))"
      using holds_finite[of g pcs] by (simp_all add: card_Un_disjoint)
    moreover have "(settled_pc (pcs ! i) \<longrightarrow> sg_settled ?g ! i) \<and> (has_slot (pcs ! i) \<longrightarrow> sg_granted ?g ! i) \<and>
        (sg_granted ?g ! i \<longrightarrow> late_pc (pcs ! i))" if i: "i < length pcs" for i
    proof -
      have "waits g pcs i \<longrightarrow> late_pc (pcs ! i)" by (simp add: waits_def late_pc_def)
      then show ?thesis using assms i gr'[OF i] new[of i] fr unfolding gate_pre_def gate_frame_def by auto
    qed
    ultimately have "gate_pre slots pcs ?g"
      using assms fr free d cnt unfolding gate_pre_def gate_frame_def by simp
    then show ?thesis using fin fr False by (simp add: gate_inv_def dispatchLocked_def gate_frame_def)
  qed
  then show "gate_inv slots pcs (dispatchLocked g)" "sg_settled (dispatchLocked g) = sg_settled g" by simp_all
qed

lemma settleLocked_pre:
  assumes "gate_pre slots pcs g" "i < length pcs"
  shows "gate_pre slots pcs (settleLocked i g)" "sg_settled (settleLocked i g) = (sg_settled g)[i := True]"
proof -
  have len: "length (sg_settled g) = length pcs" using assms(1) by (simp add: gate_pre_def)
  show s: "sg_settled (settleLocked i g) = (sg_settled g)[i := True]"
    by (auto simp: settleLocked_def) (metis (full_types) list_update_id)
  show "gate_pre slots pcs (settleLocked i g)"
  proof (cases "sg_settled g ! i")
    case True
    then show ?thesis using assms(1) by (simp add: settleLocked_def)
  next
    case False
    let ?U = "{j. j < length pcs \<and> \<not> sg_settled g ! j}"
    have "{j. j < length pcs \<and> \<not> (sg_settled g)[i := True] ! j} = ?U - {i}" using len assms(2) by (auto simp: nth_list_update)
    moreover have "i \<in> ?U" "finite ?U" using False assms(2) by simp_all
    ultimately have "int (card {j. j < length pcs \<and> \<not> (sg_settled g)[i := True] ! j}) = int (card ?U) - 1"
      by (simp only: int_card_minus)
    then show ?thesis using assms False
      by (auto simp: gate_pre_def settleLocked_def waits_def holds_slot_def nth_list_update)
  qed
qed

lemma settle_inv:
  assumes "gate_inv slots pcs g" "i < length pcs"
  shows "gate_inv slots pcs (gate_settle i g)" "sg_settled (gate_settle i g) ! i"
proof -
  have "gate_pre slots pcs g" using assms(1) by (simp add: gate_inv_def)
  note s = settleLocked_pre[OF this assms(2)]
  show "gate_inv slots pcs (gate_settle i g)" unfolding gate_settle_def by (rule dispatch_inv(1)[OF s(1)])
  have "i < length (sg_settled g)" using assms by (simp add: gate_inv_def gate_pre_def)
  then show "sg_settled (gate_settle i g) ! i" unfolding gate_settle_def dispatch_inv(2)[OF s(1)] s(2) by simp
qed

lemma pc_inv:
  assumes "gate_inv slots pcs g" "i < length pcs"
    and "pc \<noteq> PWaitSlot" "pcs ! i = PWaitSlot \<longrightarrow> sg_granted g ! i \<and> has_slot pc" "has_slot pc \<longrightarrow> pcs ! i = PWaitSlot \<or> has_slot (pcs ! i)"
    and "has_slot (pcs ! i) \<longrightarrow> has_slot pc" "late_pc (pcs ! i) \<longrightarrow> late_pc pc" "settled_pc pc \<longrightarrow> sg_settled g ! i"
  shows "gate_inv slots (pcs[i := pc]) g"
proof -
  have pre: "gate_pre slots pcs g" using assms(1) by (simp add: gate_inv_def)
  then have g: "has_slot (pcs ! i) \<longrightarrow> sg_granted g ! i" using assms(2) by (simp add: gate_pre_def)
  have "waits g (pcs[i := pc]) j \<longleftrightarrow> waits g pcs j" for j
    using assms(2-4) by (auto simp: waits_def nth_list_update)
  moreover have "holds_slot g (pcs[i := pc]) j \<longleftrightarrow> holds_slot g pcs j" for j
    using assms(2-6) g by (auto simp: holds_slot_def nth_list_update)
  ultimately have "gate_pre slots (pcs[i := pc]) g"
    using pre assms(2-8) g by (auto simp: gate_pre_def nth_list_update)
  then show ?thesis using assms(1) by (simp add: gate_inv_def)
qed

definition acquire_base :: "nat \<Rightarrow> slot_gate \<Rightarrow> slot_gate" where
  \<comment> \<open>the gate as \<open>acquire\<close> leaves it to \<open>dispatchLocked\<close>\<close>
  "acquire_base i g = (let g = settleLocked i g in g\<lparr>sg_waiting := sg_waiting g @ [i]\<rparr>)"

lemma acquire_pre:
  assumes "gate_inv slots pcs g" "i < length pcs" "pcs ! i = PAcquire"
  shows "gate_pre slots (pcs[i := PWaitSlot]) (acquire_base i g)"
proof -
  have pre: "gate_pre slots pcs g" using assms(1) by (simp add: gate_inv_def)
  let ?s = "settleLocked i g"
  note s = settleLocked_pre[OF pre assms(2)]
  have l: "length (sg_settled ?s) = length pcs" "length (sg_granted ?s) = length pcs" using s(1) by (simp_all add: gate_pre_def)
  have ng: "\<not> sg_granted ?s ! i" using s(1) assms(2,3) by (auto simp: gate_pre_def late_pc_def has_slot_def)
  have st: "sg_settled ?s ! i" using s(2) l(1) assms(2) by simp
  let ?g = "?s\<lparr>sg_waiting := sg_waiting ?s @ [i]\<rparr>"
  have nw: "i \<notin> set (sg_waiting ?s)" using s(1) assms(3) by (auto simp: gate_pre_def waits_def)
  have "waits ?g (pcs[i := PWaitSlot]) j \<longleftrightarrow> waits ?s pcs j \<or> j = i" for j
    using ng assms(2,3) by (auto simp: waits_def nth_list_update)
  moreover have "holds_slot ?g (pcs[i := PWaitSlot]) j \<longleftrightarrow> holds_slot ?s pcs j" for j
    using ng assms(2,3) by (auto simp: holds_slot_def nth_list_update)
  ultimately show ?thesis
    using s(1) nw st ng assms(2) by (auto simp: acquire_base_def Let_def gate_pre_def nth_list_update has_slot_def)
qed

lemma acquire_inv:
  "gate_inv slots pcs g \<Longrightarrow> i < length pcs \<Longrightarrow> pcs ! i = PAcquire \<Longrightarrow> gate_inv slots (pcs[i := PWaitSlot]) (gate_acquire i g)"
  using dispatch_inv(1)[OF acquire_pre] by (simp add: gate_acquire_def acquire_base_def Let_def)

lemma release_pre:
  assumes "gate_inv slots pcs g" "i < length pcs" "pcs ! i = PRelease"
  shows "gate_pre slots (pcs[i := PLeave]) (g\<lparr>sg_free := sg_free g + 1\<rparr>)"
proof -
  have pre: "gate_pre slots pcs g" using assms(1) by (simp add: gate_inv_def)
  have gi: "sg_granted g ! i" using pre assms(2,3) by (simp add: gate_pre_def has_slot_def)
  let ?g = "g\<lparr>sg_free := sg_free g + 1\<rparr>"
  have "waits ?g (pcs[i := PLeave]) j \<longleftrightarrow> waits g pcs j" for j
    using assms(2,3) by (auto simp: waits_def nth_list_update)
  moreover have h: "{j. holds_slot ?g (pcs[i := PLeave]) j} = {j. holds_slot g pcs j} - {i}"
    using assms(2) by (auto simp: holds_slot_def nth_list_update has_slot_def)
  moreover have "i \<in> {j. holds_slot g pcs j}" using gi assms(2,3) by (simp add: holds_slot_def has_slot_def)
  then have "int (card ({j. holds_slot g pcs j} - {i})) = int (card {j. holds_slot g pcs j}) - 1"
    using holds_finite[of g pcs] by (simp only: int_card_minus)
  ultimately show ?thesis
    using pre assms(2) by (auto simp: gate_pre_def nth_list_update has_slot_def settled_pc_def late_pc_def)
qed

lemma release_inv:
  "gate_inv slots pcs g \<Longrightarrow> i < length pcs \<Longrightarrow> pcs ! i = PRelease \<Longrightarrow> gate_inv slots (pcs[i := PLeave]) (gate_release g)"
  using dispatch_inv(1)[OF release_pre] by (simp add: gate_release_def)

text \<open>Dispatching gives the slots to the waiting tickets that go first.\<close>

lemma dispatch_best:
  assumes "gate_pre slots pcs g" "i < length pcs" "sg_granted (dispatchLocked g) ! i" "\<not> sg_granted g ! i"
    and "j \<in> set (sg_waiting (dispatchLocked g))"
  shows "goes_before g i j"
proof -
  have u: "\<not> 0 < sg_unsettled g" using assms(3,4) by (auto simp: dispatchLocked_def)
  have pre: "distinct (sg_waiting g)" "\<And>w. w \<in> set (sg_waiting g) \<Longrightarrow> w < length (sg_granted g) \<and> \<not> sg_granted g ! w" "0 \<le> sg_free g"
    using assms(1) by (auto simp: gate_pre_def waits_def)
  have "i < length (sg_granted g)" using assms(1,2) by (simp add: gate_pre_def)
  then show ?thesis using dispatch_loop_spec[OF pre] assms(3-) u by (auto simp: dispatchLocked_def)
qed

lemma dispatch_loop_prio: "sg_prio (dispatch_loop g) = sg_prio g"
proof (induction g rule: dispatch_loop.induct)
  case (1 g)
  then show ?case by (subst dispatch_loop.simps) (simp add: Let_def split: list.split)
qed

lemma gate_prio:
  "sg_prio (dispatchLocked g) = sg_prio g" "sg_prio (settleLocked i g) = sg_prio g" "sg_prio (gate_settle i g) = sg_prio g"
  "sg_prio (gate_acquire i g) = sg_prio g" "sg_prio (gate_release g) = sg_prio g" "sg_prio (acquire_base i g) = sg_prio g"
  by (simp_all add: dispatchLocked_def dispatch_loop_prio settleLocked_def gate_settle_def gate_acquire_def gate_release_def acquire_base_def Let_def)

lemma base_granted: "sg_granted (settleLocked i g) = sg_granted g" "sg_granted (acquire_base i g) = sg_granted g"
  by (simp_all add: settleLocked_def acquire_base_def Let_def)

end
