(* ===== verification/Run_Limits.thy ===== *)
theory Run_Limits
  imports Run_Gate
begin

text \<open>
  What one step of a job does to the program counters (\<open>moves\<close>), and the invariant of the scheduler's two gates
  along a run: \<open>gate_inv\<close> of the slots and \<open>comp_inv\<close> of the components in flight.
\<close>

section \<open>Components in flight\<close>

definition flying :: "(nat \<Rightarrow> string) \<Rightarrow> job_pc list \<Rightarrow> string \<Rightarrow> nat set" where
  "flying comp_of pcs c = {i. i < length pcs \<and> comp_of i = c \<and> in_flight (pcs ! i)}"

definition comp_inv :: "int \<Rightarrow> (nat \<Rightarrow> string) \<Rightarrow> job_pc list \<Rightarrow> component_gate \<Rightarrow> bool" where
  "comp_inv cap comp_of pcs g \<longleftrightarrow> cg_cap g = cap \<and>
     (0 < cap \<longrightarrow> gm_ok (cg_active g) \<and> int (length (cg_active g)) \<le> cap \<and>
        (\<forall>c. gm_get (cg_active g) c = (if flying comp_of pcs c = {} then None else Some (card (flying comp_of pcs c)))))"

lemma flying_finite: "finite (flying comp_of pcs c)"
  by (rule finite_subset[of _ "{..<length pcs}"]) (auto simp: flying_def)

lemma flying_same: "i < length pcs \<Longrightarrow> in_flight pc = in_flight (pcs ! i) \<Longrightarrow> flying comp_of (pcs[i := pc]) c = flying comp_of pcs c"
  by (auto simp: flying_def nth_list_update)

lemma comp_pc_inv:
  "comp_inv cap comp_of pcs g \<Longrightarrow> i < length pcs \<Longrightarrow> in_flight pc = in_flight (pcs ! i) \<Longrightarrow> comp_inv cap comp_of (pcs[i := pc]) g"
  by (simp add: comp_inv_def flying_same)

lemma gm_length: "gm_ok m \<Longrightarrow> length m = card (set (gm_keys m))"
  unfolding gm_ok_def by (metis distinct_card length_map)

lemma gm_length_set: "gm_ok m \<Longrightarrow> length (gm_set k v m) = (if gm_has m k then length m else length m + 1)"
  by (simp add: gm_length set_keys_set gm_has_iff card_insert_if del: set_map)

lemma gm_length_del: "gm_ok m \<Longrightarrow> length (gm_del k m) \<le> length m"
  by (simp add: AList.delete_eq)

lemma enter_inv:
  assumes "comp_inv cap comp_of pcs g" "i < length pcs" "\<not> in_flight (pcs ! i)" "\<not> must_wait (comp_of i) g"
  shows "comp_inv cap comp_of (pcs[i := PAcquire]) (component_enter (comp_of i) g)"
proof (cases "0 < cap")
  case False
  then show ?thesis using assms(1) by (simp add: comp_inv_def component_enter_def)
next
  case True
  let ?f = "flying comp_of pcs" and ?a = "cg_active g" and ?c = "comp_of i"
  have g: "cg_cap g = cap" "gm_ok ?a" "int (length ?a) \<le> cap" "\<And>c. gm_get ?a c = (if ?f c = {} then None else Some (card (?f c)))"
    using assms(1) True by (simp_all add: comp_inv_def)
  have f: "flying comp_of (pcs[i := PAcquire]) c = (if c = ?c then insert i (?f c) else ?f c)" for c
    using assms(2,3) by (auto simp: flying_def nth_list_update in_flight_def)
  have ni: "i \<notin> ?f ?c" using assms(3) by (simp add: flying_def)
  have n: "gm_get_or 0 ?a ?c = card (?f ?c)" by (simp add: gm_get_or_def g(4))
  have "int (length (gm_set ?c (card (?f ?c) + 1) ?a)) \<le> cap"
  proof (cases "gm_has ?a ?c")
    case True
    then show ?thesis using g by (simp add: gm_length_set)
  next
    case False
    then have "gm_get_or 0 ?a ?c = 0" by (simp add: gm_has_def gm_get_or_def)
    then show ?thesis using assms(4) g False \<open>0 < cap\<close> by (simp add: must_wait_def gm_length_set)
  qed
  moreover have "gm_get (gm_set ?c (card (?f ?c) + 1) ?a) c =
      (if flying comp_of (pcs[i := PAcquire]) c = {} then None else Some (card (flying comp_of (pcs[i := PAcquire]) c)))" for c
    using g(4) ni flying_finite by (simp add: gm_simps f)
  ultimately show ?thesis using True g(1,2) n by (simp add: comp_inv_def component_enter_def)
qed

lemma leave_inv:
  assumes "comp_inv cap comp_of pcs g" "i < length pcs" "pcs ! i = PLeave"
  shows "comp_inv cap comp_of (pcs[i := PClose]) (component_leave (comp_of i) g)"
proof (cases "0 < cap")
  case False
  then show ?thesis using assms(1) by (simp add: comp_inv_def component_leave_def)
next
  case True
  let ?f = "flying comp_of pcs" and ?a = "cg_active g" and ?c = "comp_of i"
  have g: "cg_cap g = cap" "gm_ok ?a" "int (length ?a) \<le> cap" "\<And>c. gm_get ?a c = (if ?f c = {} then None else Some (card (?f c)))"
    using assms(1) True by (simp_all add: comp_inv_def)
  have f: "flying comp_of (pcs[i := PClose]) c = (if c = ?c then ?f c - {i} else ?f c)" for c
    using assms(2,3) by (auto simp: flying_def nth_list_update in_flight_def has_slot_def)
  have i: "i \<in> ?f ?c" using assms(2,3) by (simp add: flying_def in_flight_def)
  have n: "gm_get_or 0 ?a ?c = card (?f ?c)" by (simp add: gm_get_or_def g(4))
  have m: "int (card (?f ?c)) - 1 = int (card (?f ?c - {i}))" using int_card_minus[OF flying_finite i] by simp
  have z: "int (card (?f ?c - {i})) \<le> 0 \<longleftrightarrow> ?f ?c - {i} = {}" using flying_finite[of comp_of pcs ?c] by simp
  have has: "gm_has ?a ?c" using g(4)[of ?c] i by (auto simp: gm_has_def)
  let ?b = "if int (card (?f ?c)) - 1 \<le> 0 then gm_del ?c ?a else gm_set ?c (nat (int (card (?f ?c)) - 1)) ?a"
  have ok: "gm_ok ?b" using g(2) by simp
  have len: "int (length ?b) \<le> cap" using g(3) gm_length_del[OF g(2), of ?c] gm_length_set[OF g(2), of ?c] has by simp
  have get: "gm_get ?b c = (if flying comp_of (pcs[i := PClose]) c = {} then None else Some (card (flying comp_of (pcs[i := PClose]) c)))" for c
    unfolding m using g(4) z by (simp add: gm_simps f)
  have "component_leave ?c g = g\<lparr>cg_active := ?b\<rparr>" using True g(1) n by (simp add: component_leave_def Let_def)
  then show ?thesis using True g(1) ok len get by (simp add: comp_inv_def)
qed

section \<open>The invariant of a run\<close>

definition comp_name :: "run_env \<Rightarrow> nat \<Rightarrow> string" where
  "comp_name env i = pb_component (re_jobs env ! i)"

definition slots_of :: "run_env \<Rightarrow> int" where
  "slots_of env = (if re_slots env < 1 then 1 else re_slots env)"

definition gates_inv :: "run_env \<Rightarrow> sched \<Rightarrow> bool" where
  "gates_inv env st \<longleftrightarrow> length (sd_pc st) = length (re_jobs env) \<and> length (sd_status st) = length (re_jobs env) \<and>
     gate_inv (slots_of env) (sd_pc st) (sd_gate st) \<and> comp_inv (re_cap env) (comp_name env) (sd_pc st) (sd_components st)"

lemmas pc_simps = in_flight_def has_slot_def late_pc_def settled_pc_def

lemmas step_defs = goto_def ended_def failed_run_def with_gate_def upstream_step_def await_step_def resumed_step_def
  outside_step_def enter_step_def enter_wait_step_def before_step_def exec_step_def Let_def

lemma gates_goto:
  assumes "gates_inv env st" "i < length (re_jobs env)" "sd_gate st' = sd_gate st" "sd_components st' = sd_components st"
    and "sd_pc st' = (sd_pc st)[i := pc]" "length (sd_status st') = length (sd_status st)"
    and "\<not> settled_pc pc \<or> sg_settled (sd_gate st) ! i" "in_flight pc = in_flight (sd_pc st ! i)" "has_slot pc = has_slot (sd_pc st ! i)"
    and "sd_pc st ! i \<noteq> PWaitSlot" "pc \<noteq> PWaitSlot" "late_pc (sd_pc st ! i) \<longrightarrow> late_pc pc"
  shows "gates_inv env st'"
  using assms unfolding gates_inv_def by (auto intro!: pc_inv comp_pc_inv)

lemma gates_settle:
  assumes "gates_inv env st" "i < length (re_jobs env)"
  shows "gates_inv env (with_gate (gate_settle i) st)" "sg_settled (sd_gate (with_gate (gate_settle i) st)) ! i"
  using assms settle_inv[of "slots_of env" "sd_pc st" "sd_gate st" i] by (simp_all add: gates_inv_def with_gate_def)

lemma init_gates: "gates_inv env (init_sched env completed)"
proof -
  let ?p = "map (\<lambda>_. PUp 0) (re_jobs env)"
  have none: "\<not> waits g ?p i" "\<not> holds_slot g ?p i" for g i
    by (auto simp: waits_def holds_slot_def has_slot_def)
  have "{i. i < length (re_jobs env) \<and> \<not> (map (\<lambda>_. False) (re_jobs env)) ! i} = {..<length (re_jobs env)}" by auto
  then have "gate_inv (slots_of env) ?p (newSlotGate (slots_of env) (map (\<lambda>j. job_priority (re_plan_jobs env) (pb_id j)) (re_jobs env)))"
    using none by (auto simp: gate_inv_def gate_pre_def newSlotGate_def slots_of_def settled_pc_def has_slot_def comp_def)
  moreover have "comp_inv (re_cap env) (comp_name env) ?p (newComponentGate (re_cap env))"
    by (auto simp: comp_inv_def newComponentGate_def flying_def in_flight_def has_slot_def)
  ultimately show ?thesis by (simp add: gates_inv_def init_sched_def slots_of_def Let_def)
qed

lemma gates_settle_goto:
  assumes "gates_inv env st" "i < length (re_jobs env)" "in_flight pc = in_flight (sd_pc st ! i)" "has_slot pc = has_slot (sd_pc st ! i)"
    and "sd_pc st ! i \<noteq> PWaitSlot" "pc \<noteq> PWaitSlot" "late_pc (sd_pc st ! i) \<longrightarrow> late_pc pc"
    and "sd_gate st' = gate_settle i (sd_gate st)" "sd_components st' = sd_components st" "sd_pc st' = (sd_pc st)[i := pc]"
    and "length (sd_status st') = length (sd_status st)"
  shows "gates_inv env st'"
  by (rule gates_goto[OF gates_settle(1)[OF assms(1,2)] assms(2), of _ pc])
    (use assms gates_settle(2)[OF assms(1,2)] in \<open>simp_all add: with_gate_def\<close>)

text \<open>How a goroutine moves on.\<close>

fun moves :: "job_pc \<Rightarrow> job_pc \<Rightarrow> bool" where
  "moves (PUp k) pc \<longleftrightarrow> pc = PUp (k + 1) \<or> pc = PAwaitUp k \<or> pc = PCheck"
| "moves (PAwaitUp k) pc \<longleftrightarrow> pc = PUp (k + 1) \<or> pc = PClose"
| "moves PCheck pc \<longleftrightarrow> pc = POutside \<or> pc = PClose"
| "moves POutside pc \<longleftrightarrow> pc = PStop1 \<or> pc = PClose"
| "moves PStop1 pc \<longleftrightarrow> pc = PEnter \<or> pc = PClose"
| "moves PEnter pc \<longleftrightarrow> pc = PEnterWait \<or> pc = PAcquire"
| "moves PEnterWait pc \<longleftrightarrow> pc = PAcquire"
| "moves PAcquire pc \<longleftrightarrow> pc = PWaitSlot"
| "moves PWaitSlot pc \<longleftrightarrow> pc = PStop2"
| "moves PStop2 pc \<longleftrightarrow> pc = PBefore \<or> pc = PRelease"
| "moves PBefore pc \<longleftrightarrow> pc = PExec \<or> pc = PRelease"
| "moves PExec pc \<longleftrightarrow> pc = PRelease"
| "moves PRelease pc \<longleftrightarrow> pc = PLeave"
| "moves PLeave pc \<longleftrightarrow> pc = PClose"
| "moves PClose pc \<longleftrightarrow> pc = PSettle"
| "moves PSettle pc \<longleftrightarrow> pc = PDone"
| "moves PDone pc \<longleftrightarrow> False"

lemmas step_splits = if_splits option.splits before_job.splits

lemma upstream_step_cases:
  "upstream_step env i k st \<in> {goto i PCheck st, goto i (PUp (k + 1)) st, goto i (PAwaitUp k) (with_gate (gate_settle i) st)}"
  by (simp add: upstream_step_def Let_def split: option.split)

lemma await_step_cases:
  "await_step env i k st = Some st' \<Longrightarrow> st' \<in> {goto i (PUp (k + 1)) st, goto i PClose (ended i LaneBlocked st)}"
  by (simp add: await_step_def Let_def split: option.split_asm if_split_asm)

lemma outside_step_cases:
  "outside_step env i st \<in> {goto i PStop1 st, goto i PStop1 (with_gate (gate_settle i) st),
     goto i PClose (failed_run (ended i LaneBlocked (with_gate (gate_settle i) st))),
     goto i PClose (ended i LaneNotRun st), goto i PClose (failed_run (ended i LaneNotRun st))}"
  by (simp add: outside_step_def Let_def split: option.split)

lemma before_step_cases:
  "before_step env i st \<in> {goto i PExec st, goto i PRelease (failed_run (ended i LaneFailed st)),
     goto i PRelease (ended i LaneResumed (st\<lparr>sd_completed := pb_id (re_jobs env ! i) # sd_completed st\<rparr>))}"
  by (simp add: before_step_def Let_def split: before_job.split)

lemma step_cases:
  \<comment> \<open>the outcomes of a step\<close>
  assumes "job_step env i pc st = Some st'"
  shows "case pc of
      PUp k \<Rightarrow> st' \<in> {goto i PCheck st, goto i (PUp (k + 1)) st, goto i (PAwaitUp k) (with_gate (gate_settle i) st)}
    | PAwaitUp k \<Rightarrow> st' \<in> {goto i (PUp (k + 1)) st, goto i PClose (ended i LaneBlocked st)}
    | PCheck \<Rightarrow> st' \<in> {goto i POutside st, goto i PClose (ended i LaneResumed st)}
    | POutside \<Rightarrow> st' \<in> {goto i PStop1 st, goto i PStop1 (with_gate (gate_settle i) st),
        goto i PClose (failed_run (ended i LaneBlocked (with_gate (gate_settle i) st))),
        goto i PClose (ended i LaneNotRun st), goto i PClose (failed_run (ended i LaneNotRun st))}
    | PStop1 \<Rightarrow> st' \<in> {goto i PClose st, goto i PEnter st}
    | PEnter \<Rightarrow> st' \<in> {goto i PEnterWait (with_gate (gate_settle i) st),
        goto i PAcquire (st\<lparr>sd_components := component_enter (pb_component (re_jobs env ! i)) (sd_components st)\<rparr>)}
    | PEnterWait \<Rightarrow> st' = goto i PAcquire (st\<lparr>sd_components := component_enter (pb_component (re_jobs env ! i)) (sd_components st)\<rparr>)
    | PAcquire \<Rightarrow> st' = goto i PWaitSlot (with_gate (gate_acquire i) st)
    | PWaitSlot \<Rightarrow> st' = goto i PStop2 st
    | PStop2 \<Rightarrow> st' \<in> {goto i PRelease st, goto i PBefore st}
    | PBefore \<Rightarrow> st' \<in> {goto i PExec st, goto i PRelease (failed_run (ended i LaneFailed st)),
        goto i PRelease (ended i LaneResumed (st\<lparr>sd_completed := pb_id (re_jobs env ! i) # sd_completed st\<rparr>))}
    | PExec \<Rightarrow> st' \<in> {goto i PRelease (failed_run (ended i LaneFailed st)),
        goto i PRelease (ended i LaneSucceeded (st\<lparr>sd_completed := pb_id (re_jobs env ! i) # sd_completed st\<rparr>))}
    | PRelease \<Rightarrow> st' = goto i PLeave (with_gate gate_release st)
    | PLeave \<Rightarrow> st' = goto i PClose (st\<lparr>sd_components := component_leave (pb_component (re_jobs env ! i)) (sd_components st)\<rparr>)
    | PClose \<Rightarrow> st' = goto i PSettle st
    | PSettle \<Rightarrow> st' = goto i PDone (with_gate (gate_settle i) st)
    | PDone \<Rightarrow> False"
proof (cases pc)
  case (PUp k)
  then show ?thesis using assms upstream_step_cases[of env i k st] by simp
next
  case (PAwaitUp k)
  then show ?thesis using assms await_step_cases[of env i k st st'] by simp
next
  case POutside
  then show ?thesis using assms outside_step_cases[of env i st] by simp
next
  case PBefore
  then show ?thesis using assms before_step_cases[of env i st] by simp
qed (use assms in \<open>auto simp: resumed_step_def enter_step_def enter_wait_step_def exec_step_def Let_def split: if_splits\<close>)

lemmas effect_defs = goto_def ended_def failed_run_def with_gate_def

lemma step_moves:
  "job_step env i pc st = Some st' \<Longrightarrow> i < length (sd_pc st) \<Longrightarrow>
     moves pc (sd_pc st' ! i) \<and> sd_pc st' = (sd_pc st)[i := sd_pc st' ! i]"
  by (drule step_cases, cases pc) (auto simp: effect_defs)

lemma step_frame:
  "job_step env i pc st = Some st' \<Longrightarrow>
     length (sd_status st') = length (sd_status st) \<and> (\<forall>j. j \<noteq> i \<longrightarrow> sd_status st' ! j = sd_status st ! j) \<and>
     sd_interrupted st' = sd_interrupted st \<and> (sd_first_err st \<longrightarrow> sd_first_err st')"
  by (drule step_cases, cases pc) (auto simp: effect_defs)

definition quiet_pc :: "job_pc \<Rightarrow> bool" where
  \<comment> \<open>the next step gives and takes neither a slot nor a place for a component\<close>
  "quiet_pc pc \<longleftrightarrow> pc \<notin> {PEnter, PEnterWait, PAcquire, PWaitSlot, PRelease, PLeave}"

lemma quiet_effect:
  "job_step env i pc st = Some st' \<Longrightarrow> quiet_pc pc \<Longrightarrow> i < length (sd_pc st) \<Longrightarrow>
     sd_components st' = sd_components st \<and>
     (sd_gate st' = gate_settle i (sd_gate st) \<or> sd_gate st' = sd_gate st \<and> \<not> settled_pc (sd_pc st' ! i))"
  by (drule step_cases, cases pc) (auto simp: effect_defs quiet_pc_def settled_pc_def)

lemma quiet_moves:
  "quiet_pc pc \<Longrightarrow> moves pc pc' \<Longrightarrow>
     in_flight pc' = in_flight pc \<and> has_slot pc' = has_slot pc \<and> pc \<noteq> PWaitSlot \<and> pc' \<noteq> PWaitSlot \<and> (late_pc pc \<longrightarrow> late_pc pc')"
  by (cases pc) (auto simp: quiet_pc_def pc_simps)

lemma gates_quiet:
  assumes "gates_inv env st" "i < length (re_jobs env)" "job_step env i (sd_pc st ! i) st = Some st'" "quiet_pc (sd_pc st ! i)"
  shows "gates_inv env st'"
proof -
  let ?pc = "sd_pc st' ! i"
  have i: "i < length (sd_pc st)" using assms(1,2) by (simp add: gates_inv_def)
  note pc = step_moves[OF assms(3) i, THEN conjunct1] step_moves[OF assms(3) i, THEN conjunct2]
  note facts = quiet_moves[OF assms(4) pc(1)] step_frame[OF assms(3)] pc(2) quiet_effect[OF assms(3,4) i, THEN conjunct1]
  from quiet_effect[OF assms(3,4) i, THEN conjunct2] show ?thesis
  proof
    assume "sd_gate st' = gate_settle i (sd_gate st)"
    then show ?thesis using facts by (intro gates_settle_goto[OF assms(1,2), of ?pc]) simp_all
  next
    assume "sd_gate st' = sd_gate st \<and> \<not> settled_pc ?pc"
    then show ?thesis using facts by (intro gates_goto[OF assms(1,2), of _ ?pc]) simp_all
  qed
qed

text \<open>The steps that do.\<close>

lemma gates_enter:
  assumes "gates_inv env st" "i < length (re_jobs env)" "\<not> must_wait (comp_name env i) (sd_components st)"
    and "sd_pc st ! i = PEnter \<or> sd_pc st ! i = PEnterWait"
  shows "gates_inv env (goto i PAcquire (st\<lparr>sd_components := component_enter (comp_name env i) (sd_components st)\<rparr>))"
proof -
  have i: "i < length (sd_pc st)" using assms by (simp add: gates_inv_def)
  have "gate_inv (slots_of env) ((sd_pc st)[i := PAcquire]) (sd_gate st)"
    by (rule pc_inv) (use assms i in \<open>auto simp: gates_inv_def pc_simps\<close>)
  moreover have "comp_inv (re_cap env) (comp_name env) ((sd_pc st)[i := PAcquire]) (component_enter (comp_name env i) (sd_components st))"
    by (rule enter_inv) (use assms i in \<open>auto simp: gates_inv_def pc_simps\<close>)
  ultimately show ?thesis using assms(1) by (simp add: gates_inv_def goto_def)
qed

lemma gates_gate:
  \<comment> \<open>a step of the slot gate that leaves the components alone\<close>
  assumes "gates_inv env st" "i < length (re_jobs env)" "in_flight pc = in_flight (sd_pc st ! i)"
    and "gate_inv (slots_of env) ((sd_pc st)[i := pc]) (f (sd_gate st))"
  shows "gates_inv env (goto i pc (with_gate f st))"
proof -
  have "i < length (sd_pc st)" using assms by (simp add: gates_inv_def)
  then have "comp_inv (re_cap env) (comp_name env) ((sd_pc st)[i := pc]) (sd_components st)"
    using comp_pc_inv assms by (simp add: gates_inv_def)
  then show ?thesis using assms(1,4) by (simp add: gates_inv_def step_defs)
qed

lemma gates_leave:
  assumes "gates_inv env st" "i < length (re_jobs env)" "sd_pc st ! i = PLeave"
  shows "gates_inv env (goto i PClose (st\<lparr>sd_components := component_leave (comp_name env i) (sd_components st)\<rparr>))"
proof -
  have i: "i < length (sd_pc st)" using assms by (simp add: gates_inv_def)
  have "gate_inv (slots_of env) ((sd_pc st)[i := PClose]) (sd_gate st)"
    by (rule pc_inv) (use assms i in \<open>auto simp: gates_inv_def pc_simps\<close>)
  moreover have "comp_inv (re_cap env) (comp_name env) ((sd_pc st)[i := PClose]) (component_leave (comp_name env i) (sd_components st))"
    by (rule leave_inv) (use assms i in \<open>auto simp: gates_inv_def\<close>)
  ultimately show ?thesis using assms(1) by (simp add: gates_inv_def goto_def)
qed

lemma gates_step:
  assumes "gates_inv env st" "i < length (re_jobs env)" "job_step env i (sd_pc st ! i) st = Some st'"
  shows "gates_inv env st'"
proof (cases "quiet_pc (sd_pc st ! i)")
  case True
  then show ?thesis using gates_quiet[OF assms] by blast
next
  case False
  have i: "i < length (sd_pc st)" and gi: "gate_inv (slots_of env) (sd_pc st) (sd_gate st)"
    using assms by (simp_all add: gates_inv_def)
  consider (enter) "sd_pc st ! i = PEnter" | (wait) "sd_pc st ! i = PEnterWait" | (acquire) "sd_pc st ! i = PAcquire"
    | (slot) "sd_pc st ! i = PWaitSlot" | (release) "sd_pc st ! i = PRelease" | (leave) "sd_pc st ! i = PLeave"
    using False by (auto simp: quiet_pc_def)
  then show ?thesis
  proof cases
    case enter
    show ?thesis
    proof (cases "must_wait (comp_name env i) (sd_components st)")
      case True
      then show ?thesis using assms(3) enter
        by (intro gates_settle_goto[OF assms(1,2), of PEnterWait]) (auto simp: step_defs pc_simps comp_name_def)
    next
      case False
      then show ?thesis using gates_enter[OF assms(1,2) False] assms(3) enter by (auto simp: enter_step_def comp_name_def Let_def)
    qed
  next
    case wait
    then have "\<not> must_wait (comp_name env i) (sd_components st)"
      using assms(3) by (auto simp: enter_wait_step_def Let_def comp_name_def split: if_splits)
    from gates_enter[OF assms(1,2) this] show ?thesis
      using assms(3) wait by (auto simp: enter_wait_step_def Let_def comp_name_def split: if_splits)
  next
    case acquire
    then show ?thesis using gates_gate[OF assms(1,2), of PWaitSlot "gate_acquire i"] acquire_inv[OF gi i acquire] assms(3)
      by (auto simp: pc_simps)
  next
    case slot
    then have g: "sg_granted (sd_gate st) ! i" "st' = goto i PStop2 st" using assms(3) by (auto split: if_splits)
    have "gate_inv (slots_of env) ((sd_pc st)[i := PStop2]) (sd_gate st)"
      by (rule pc_inv[OF gi i]) (use slot g in \<open>auto simp: pc_simps\<close>)
    then show ?thesis using gates_gate[OF assms(1,2), of PStop2 id] slot g by (auto simp: with_gate_def pc_simps)
  next
    case release
    then show ?thesis using gates_gate[OF assms(1,2), of PLeave gate_release] release_inv[OF gi i release] assms(3)
      by (auto simp: pc_simps)
  next
    case leave
    then show ?thesis using gates_leave[OF assms(1,2) leave] assms(3) by (auto simp: comp_name_def)
  qed
qed

lemma gates_sched_step: "gates_inv env st \<Longrightarrow> sched_step env st st' \<Longrightarrow> gates_inv env st'"
proof (erule sched_step_cases)
  fix i assume "gates_inv env st" "i < length (re_jobs env)" "job_step env i (sd_pc st ! i) st = Some st'"
  then show ?thesis by (rule gates_step)
qed (simp add: gates_inv_def)

lemma reach_gates: "run_reaches env completed st \<Longrightarrow> gates_inv env st"
  by (induction rule: run_reaches.induct) (auto intro: init_gates gates_sched_step)

end
