(* ===== verification/Run_Invariant.thy ===== *)
theory Run_Invariant
  imports Run_Limits
begin

text \<open>
  What is known of a job at each of its program points (\<open>at_pc\<close>), and that it stays true whatever the other jobs
  do. \<open>settled_outcome\<close> says how a job ends, given which of its upstreams ended well.
\<close>

section \<open>Upstreams\<close>

definition upstream_ok :: "run_env \<Rightarrow> sched \<Rightarrow> string \<Rightarrow> bool" where
  "upstream_ok env st dep \<longleftrightarrow>
     (\<forall>d. outcome_of (re_jobs env) dep = Some d \<longrightarrow> closed_pc (sd_pc st ! d) \<and> outcome_ok (sd_status st ! d))"

definition upstream_failed :: "run_env \<Rightarrow> sched \<Rightarrow> string \<Rightarrow> bool" where
  "upstream_failed env st dep \<longleftrightarrow>
     (\<exists>d. outcome_of (re_jobs env) dep = Some d \<and> closed_pc (sd_pc st ! d) \<and> \<not> outcome_ok (sd_status st ! d))"

abbreviation deps_at :: "run_env \<Rightarrow> nat \<Rightarrow> string list" where
  "deps_at env i \<equiv> pb_depends_on (re_jobs env ! i)"

abbreviation id_at :: "run_env \<Rightarrow> nat \<Rightarrow> string" where
  "id_at env i \<equiv> pb_id (re_jobs env ! i)"

definition ups_ok :: "run_env \<Rightarrow> sched \<Rightarrow> nat \<Rightarrow> nat \<Rightarrow> bool" where
  \<comment> \<open>the first upstreams are done and succeeded\<close>
  "ups_ok env st i k \<longleftrightarrow> (\<forall>j < k. upstream_ok env st (deps_at env i ! j))"

lemma outcome_of_Some: "outcome_of jobs dep = Some d \<Longrightarrow> d < length jobs \<and> pb_id (jobs ! d) = dep"
  by (auto simp: outcome_of_def find_Some_iff rev_nth)

lemma outcome_of_None: "outcome_of jobs dep = None \<longleftrightarrow> dep \<notin> pb_id ` set jobs"
proof -
  have "pb_id ` set jobs = {pb_id (jobs ! i) | i. i < length jobs}" by (auto simp: set_conv_nth)
  then show ?thesis by (auto simp: outcome_of_def find_None_iff)
qed

section \<open>How a job ends\<close>

definition outside_verdict :: "run_env \<Rightarrow> string list \<Rightarrow> plan_job \<Rightarrow> lane_status option" where
  \<comment> \<open>how the upstreams outside the run end the job, if they do\<close>
  "outside_verdict env completed j =
     (let deps = outsideUpstreams (re_jobs env) j
      in if deps = [] then None
         else (case (if re_lane_mode env then re_await env else None) of
             Some await \<Rightarrow> if await (pb_id j) deps then None else Some LaneBlocked
           | None \<Rightarrow>
               if re_lane_mode env \<or> re_job_selected env \<and> re_skip_local_deps env \<or> set deps \<subseteq> set completed then None
               else Some LaneNotRun))"

definition job_result :: "run_env \<Rightarrow> string \<Rightarrow> lane_status" where
  "job_result env job =
     (case re_before env job of
        Proceed \<Rightarrow> if re_exec env job then LaneSucceeded else LaneFailed
      | SkipJob \<Rightarrow> LaneResumed
      | HookError \<Rightarrow> LaneFailed)"

definition settled_outcome :: "run_env \<Rightarrow> string list \<Rightarrow> (nat \<Rightarrow> bool) \<Rightarrow> nat \<Rightarrow> lane_status" where
  \<comment> \<open>given which jobs of the run ended well\<close>
  "settled_outcome env completed ok i =
     (if \<exists>dep \<in> set (deps_at env i). \<exists>d. outcome_of (re_jobs env) dep = Some d \<and> \<not> ok d then LaneBlocked
      else if id_at env i \<in> set completed then LaneResumed
      else (case outside_verdict env completed (re_jobs env ! i) of
          Some status \<Rightarrow> status
        | None \<Rightarrow> job_result env (id_at env i)))"

definition halted :: "run_env \<Rightarrow> sched \<Rightarrow> bool" where
  "halted env st \<longleftrightarrow> stopped env st \<or> sd_interrupted st"

section \<open>What is known at each point of a job\<close>

definition cleared :: "run_env \<Rightarrow> string list \<Rightarrow> sched \<Rightarrow> nat \<Rightarrow> bool" where
  "cleared env completed st i \<longleftrightarrow> ups_ok env st i (length (deps_at env i)) \<and> id_at env i \<notin> set completed \<and>
     outside_verdict env completed (re_jobs env ! i) = None"

definition ran :: "run_env \<Rightarrow> string list \<Rightarrow> sched \<Rightarrow> nat \<Rightarrow> lane_status \<Rightarrow> bool" where
  "ran env completed st i s \<longleftrightarrow> cleared env completed st i \<and> (s = job_result env (id_at env i) \<or> s = LaneNotRun \<and> halted env st)"

definition closing :: "run_env \<Rightarrow> string list \<Rightarrow> sched \<Rightarrow> nat \<Rightarrow> lane_status \<Rightarrow> bool" where
  "closing env completed st i s \<longleftrightarrow>
     s = LaneBlocked \<and> (\<exists>dep \<in> set (deps_at env i). upstream_failed env st dep) \<or>
     ups_ok env st i (length (deps_at env i)) \<and> id_at env i \<in> set completed \<and> s = LaneResumed \<or>
     ups_ok env st i (length (deps_at env i)) \<and> id_at env i \<notin> set completed \<and>
       outside_verdict env completed (re_jobs env ! i) = Some s \<or>
     ran env completed st i s"

fun at_pc :: "run_env \<Rightarrow> string list \<Rightarrow> sched \<Rightarrow> nat \<Rightarrow> job_pc \<Rightarrow> lane_status \<Rightarrow> bool" where
  "at_pc env completed st i (PUp k) s \<longleftrightarrow> s = LaneNotRun \<and> k \<le> length (deps_at env i) \<and> ups_ok env st i k"
| "at_pc env completed st i (PAwaitUp k) s \<longleftrightarrow> s = LaneNotRun \<and> k < length (deps_at env i) \<and> ups_ok env st i k \<and>
     outcome_of (re_jobs env) (deps_at env i ! k) \<noteq> None"
| "at_pc env completed st i PCheck s \<longleftrightarrow> s = LaneNotRun \<and> ups_ok env st i (length (deps_at env i))"
| "at_pc env completed st i POutside s \<longleftrightarrow> s = LaneNotRun \<and> ups_ok env st i (length (deps_at env i)) \<and> id_at env i \<notin> set completed"
| "at_pc env completed st i PExec s \<longleftrightarrow> s = LaneNotRun \<and> cleared env completed st i \<and> re_before env (id_at env i) = Proceed"
| "at_pc env completed st i PRelease s \<longleftrightarrow> ran env completed st i s"
| "at_pc env completed st i PLeave s \<longleftrightarrow> ran env completed st i s"
| "at_pc env completed st i PClose s \<longleftrightarrow> closing env completed st i s"
| "at_pc env completed st i PSettle s \<longleftrightarrow> closing env completed st i s"
| "at_pc env completed st i PDone s \<longleftrightarrow> closing env completed st i s"
| "at_pc env completed st i _ s \<longleftrightarrow> s = LaneNotRun \<and> cleared env completed st i"

definition stable :: "run_env \<Rightarrow> sched \<Rightarrow> sched \<Rightarrow> bool" where
  \<comment> \<open>what ended stays as it is\<close>
  "stable env st st' \<longleftrightarrow> (halted env st \<longrightarrow> halted env st') \<and>
     (\<forall>d < length (re_jobs env). closed_pc (sd_pc st ! d) \<longrightarrow> closed_pc (sd_pc st' ! d) \<and> sd_status st' ! d = sd_status st ! d)"

lemma stable_upstream:
  assumes "stable env st st'"
  shows "upstream_ok env st dep \<Longrightarrow> upstream_ok env st' dep" "upstream_failed env st dep \<Longrightarrow> upstream_failed env st' dep"
  using assms by (auto simp: stable_def upstream_ok_def upstream_failed_def dest: outcome_of_Some)

lemma stable_ups: "stable env st st' \<Longrightarrow> ups_ok env st i k \<Longrightarrow> ups_ok env st' i k"
  by (auto simp: ups_ok_def stable_upstream(1))

lemma stable_ran: "stable env st st' \<Longrightarrow> ran env completed st i s \<Longrightarrow> ran env completed st' i s"
  unfolding ran_def cleared_def using stable_ups by (auto simp: stable_def)

lemma stable_closing: "stable env st st' \<Longrightarrow> closing env completed st i s \<Longrightarrow> closing env completed st' i s"
  unfolding closing_def using stable_ups stable_ran stable_upstream(2) by blast

lemma stable_at_pc: "stable env st st' \<Longrightarrow> at_pc env completed st i pc s \<Longrightarrow> at_pc env completed st' i pc s"
  by (cases pc) (auto simp: cleared_def intro: stable_ups stable_ran stable_closing)

section \<open>The invariant of a run\<close>

definition recorded_pc :: "job_pc \<Rightarrow> bool" where
  "recorded_pc pc \<longleftrightarrow> closed_pc pc \<or> pc \<in> {PRelease, PLeave, PClose}"

definition completed_inv :: "run_env \<Rightarrow> string list \<Rightarrow> sched \<Rightarrow> bool" where
  \<comment> \<open>the completed jobs are those at the start and those of the run that ended well\<close>
  "completed_inv env completed st \<longleftrightarrow> set completed \<subseteq> set (sd_completed st) \<and>
     (\<forall>x \<in> set (sd_completed st). x \<in> set completed \<or> (\<exists>d < length (re_jobs env). id_at env d = x \<and> recorded_pc (sd_pc st ! d))) \<and>
     (\<forall>d < length (re_jobs env). recorded_pc (sd_pc st ! d) \<and> outcome_ok (sd_status st ! d) \<longrightarrow> id_at env d \<in> set (sd_completed st))"

definition run_inv :: "run_env \<Rightarrow> string list \<Rightarrow> sched \<Rightarrow> bool" where
  "run_inv env completed st \<longleftrightarrow> length (sd_pc st) = length (re_jobs env) \<and> length (sd_status st) = length (re_jobs env) \<and>
     completed_inv env completed st \<and> (\<forall>i < length (re_jobs env). at_pc env completed st i (sd_pc st ! i) (sd_status st ! i))"

definition distinct_jobs :: "run_env \<Rightarrow> bool" where
  "distinct_jobs env \<longleftrightarrow> distinct (map pb_id (re_jobs env))"

lemma same_job_id: "distinct_jobs env \<Longrightarrow> i < length (re_jobs env) \<Longrightarrow> j < length (re_jobs env) \<Longrightarrow> id_at env i = id_at env j \<Longrightarrow> i = j"
  unfolding distinct_jobs_def distinct_conv_nth by (metis length_map nth_map)

lemma completed_own:
  assumes "run_inv env completed st" "distinct_jobs env" "i < length (re_jobs env)" "\<not> recorded_pc (sd_pc st ! i)"
  shows "id_at env i \<in> set (sd_completed st) \<longleftrightarrow> id_at env i \<in> set completed"
proof
  assume "id_at env i \<in> set (sd_completed st)"
  then have "id_at env i \<in> set completed \<or> (\<exists>d < length (re_jobs env). id_at env d = id_at env i \<and> recorded_pc (sd_pc st ! d))"
    using assms(1) by (simp add: run_inv_def completed_inv_def)
  then show "id_at env i \<in> set completed" using same_job_id[OF assms(2,3)] assms(4) by metis
next
  assume "id_at env i \<in> set completed"
  then show "id_at env i \<in> set (sd_completed st)" using assms(1) by (auto simp: run_inv_def completed_inv_def)
qed

lemma outside_not_in_run: "x \<in> set (outsideUpstreams jobs j) \<Longrightarrow> d < length jobs \<Longrightarrow> pb_id (jobs ! d) \<noteq> x"
  by (auto simp: outsideUpstreams_def)

lemma unresolved_outside:
  assumes "run_inv env completed st" "i < length (re_jobs env)" "ups_ok env st i (length (deps_at env i))"
  shows "unresolvedDependencies (re_jobs env ! i) (sd_completed st) = [] \<longleftrightarrow>
    set (outsideUpstreams (re_jobs env) (re_jobs env ! i)) \<subseteq> set completed"
proof -
  have c: "completed_inv env completed st" using assms(1) by (simp add: run_inv_def)
  have inside: "dep \<in> set (sd_completed st)" if dep: "dep \<in> set (deps_at env i)" "dep \<in> pb_id ` set (re_jobs env)" for dep
  proof -
    obtain d where d: "outcome_of (re_jobs env) dep = Some d" using dep(2) outcome_of_None by blast
    obtain k where "k < length (deps_at env i)" "deps_at env i ! k = dep" using dep(1) by (auto simp: in_set_conv_nth)
    then have "closed_pc (sd_pc st ! d)" "outcome_ok (sd_status st ! d)"
      using assms(3) d by (auto simp: ups_ok_def upstream_ok_def)
    then show ?thesis using c outcome_of_Some[OF d] by (auto simp: completed_inv_def recorded_pc_def)
  qed
  have outside: "x \<in> set (sd_completed st) \<longleftrightarrow> x \<in> set completed" if "x \<in> set (outsideUpstreams (re_jobs env) (re_jobs env ! i))" for x
    using c outside_not_in_run[OF that] unfolding completed_inv_def by blast
  have "unresolvedDependencies (re_jobs env ! i) (sd_completed st) = [] \<longleftrightarrow> (\<forall>dep \<in> set (deps_at env i). dep \<in> set (sd_completed st))"
    by (auto simp: unresolvedDependencies_def filter_empty_conv)
  also have "\<dots> \<longleftrightarrow> (\<forall>x \<in> set (outsideUpstreams (re_jobs env) (re_jobs env ! i)). x \<in> set (sd_completed st))"
    using inside by (auto simp: outsideUpstreams_def)
  finally show ?thesis using outside by auto
qed

section \<open>Steps keep the invariant\<close>

lemma step_stable:
  assumes "job_step env i (sd_pc st ! i) st = Some st'" "i < length (sd_pc st)" "length (sd_pc st) = length (re_jobs env)"
  shows "stable env st st'"
proof -
  obtain pc where pc: "moves (sd_pc st ! i) pc" "sd_pc st' = (sd_pc st)[i := pc]" using step_moves[OF assms(1,2)] by blast
  have "sd_status st' ! d = sd_status st ! d \<and> closed_pc (sd_pc st' ! d)" if "closed_pc (sd_pc st ! d)" for d
  proof (cases "d = i")
    case True
    then have "sd_pc st ! i = PSettle" using that pc(1) by (auto simp: closed_pc_def)
    then show ?thesis using assms(1,2) True by (auto simp: step_defs closed_pc_def)
  next
    case False
    then show ?thesis using step_frame[OF assms(1)] pc(2) that by simp
  qed
  moreover have "halted env st \<longrightarrow> halted env st'"
    using step_frame[OF assms(1)] by (auto simp: halted_def stopped_def)
  ultimately show ?thesis by (simp add: stable_def)
qed

lemma own_upstream_step:
  assumes "run_inv env completed st" "i < length (re_jobs env)" "job_step env i (sd_pc st ! i) st = Some st'"
    and "sd_pc st ! i = PUp k \<or> sd_pc st ! i = PAwaitUp k"
  shows "at_pc env completed st i (sd_pc st' ! i) (sd_status st' ! i)"
proof -
  have len: "i < length (sd_pc st)" "i < length (sd_status st)" and own: "at_pc env completed st i (sd_pc st ! i) (sd_status st ! i)"
    using assms(1,2) by (simp_all add: run_inv_def)
  have next_up: "ups_ok env st i (Suc k)" if "ups_ok env st i k" "upstream_ok env st (deps_at env i ! k)"
    using that by (auto simp: ups_ok_def less_Suc_eq)
  from assms(4) show ?thesis
  proof
    assume pc: "sd_pc st ! i = PUp k"
    show ?thesis
    proof (cases "outcome_of (re_jobs env) (deps_at env i ! k)")
      case None
      then have "upstream_ok env st (deps_at env i ! k)" by (simp add: upstream_ok_def)
      then show ?thesis using own assms(3) pc len next_up None by (auto simp: step_defs split: if_splits)
    next
      case (Some d)
      then show ?thesis using own assms(3) pc len by (auto simp: step_defs split: if_splits)
    qed
  next
    assume pc: "sd_pc st ! i = PAwaitUp k"
    then obtain d where d: "outcome_of (re_jobs env) (deps_at env i ! k) = Some d" and k: "k < length (deps_at env i)"
      and ups: "ups_ok env st i k" "sd_status st ! i = LaneNotRun" using own by auto
    have closed: "closed_pc (sd_pc st ! d)" using assms(3) pc d by (auto simp: await_step_def Let_def split: if_splits)
    show ?thesis
    proof (cases "outcome_ok (sd_status st ! d)")
      case True
      then have "upstream_ok env st (deps_at env i ! k)" using d closed by (simp add: upstream_ok_def)
      then show ?thesis using assms(3) pc len next_up[OF ups(1)] True d closed k ups(2) by (auto simp: step_defs)
    next
      case False
      then have "upstream_failed env st (deps_at env i ! k)" using d closed by (simp add: upstream_failed_def)
      then have "\<exists>dep \<in> set (deps_at env i). upstream_failed env st dep" using k nth_mem by blast
      then show ?thesis using assms(3) pc len False d closed k by (auto simp: step_defs closing_def)
    qed
  qed
qed

lemma outside_step_effect:
  assumes "unresolvedDependencies (re_jobs env ! i) (sd_completed st) = [] \<longleftrightarrow>
    set (outsideUpstreams (re_jobs env) (re_jobs env ! i)) \<subseteq> set completed"
  shows "case outside_verdict env completed (re_jobs env ! i) of
      None \<Rightarrow> sd_pc (outside_step env i st) = (sd_pc st)[i := PStop1] \<and> sd_status (outside_step env i st) = sd_status st
    | Some s \<Rightarrow> sd_pc (outside_step env i st) = (sd_pc st)[i := PClose] \<and> sd_status (outside_step env i st) = (sd_status st)[i := s]"
  using assms by (auto simp: step_defs outside_verdict_def split: option.splits)

lemma own_step:
  assumes "run_inv env completed st" "distinct_jobs env" "i < length (re_jobs env)" "job_step env i (sd_pc st ! i) st = Some st'"
  shows "at_pc env completed st i (sd_pc st' ! i) (sd_status st' ! i)"
proof -
  have len: "i < length (sd_pc st)" "i < length (sd_status st)" and own: "at_pc env completed st i (sd_pc st ! i) (sd_status st ! i)"
    using assms(1,3) by (simp_all add: run_inv_def)
  show ?thesis
  proof (cases "sd_pc st ! i")
    case PCheck
    then have "id_at env i \<in> set (sd_completed st) \<longleftrightarrow> id_at env i \<in> set completed"
      using completed_own[OF assms(1-3)] by (simp add: recorded_pc_def closed_pc_def)
    then show ?thesis using own assms(4) PCheck len by (auto simp: step_defs closing_def split: if_splits)
  next
    case POutside
    then have "ups_ok env st i (length (deps_at env i))" using own by simp
    note outside_step_effect[OF unresolved_outside[OF assms(1,3) this]]
    then show ?thesis using own assms(4) POutside len
      by (cases "outside_verdict env completed (re_jobs env ! i)") (auto simp: cleared_def closing_def)
  next
    case PStop1
    then show ?thesis using own assms(4) len by (auto simp: step_defs closing_def ran_def halted_def)
  next
    case PStop2
    then show ?thesis using own assms(4) len by (auto simp: step_defs ran_def halted_def)
  next
    case PBefore
    then show ?thesis using own assms(4) len by (auto simp: step_defs ran_def job_result_def split: before_job.splits)
  next
    case PExec
    then show ?thesis using own assms(4) len by (auto simp: step_defs ran_def job_result_def split: if_splits)
  next
    case PLeave
    then show ?thesis using own assms(4) len by (auto simp: step_defs closing_def)
  next
    case (PUp k)
    then show ?thesis using own_upstream_step[OF assms(1,3,4)] by blast
  next
    case (PAwaitUp k)
    then show ?thesis using own_upstream_step[OF assms(1,3,4)] by blast
  qed (use own assms(4) len in \<open>auto simp: step_defs split: if_splits\<close>)
qed

definition adds_completed :: "run_env \<Rightarrow> nat \<Rightarrow> sched \<Rightarrow> sched \<Rightarrow> bool" where
  \<comment> \<open>a step records at most its own job, and then it has ended well\<close>
  "adds_completed env i st st' \<longleftrightarrow>
     sd_completed st' = sd_completed st \<or>
     sd_completed st' = id_at env i # sd_completed st \<and> recorded_pc (sd_pc st' ! i)"

lemma step_completed:
  "job_step env i pc st = Some st' \<Longrightarrow> i < length (sd_pc st) \<Longrightarrow> adds_completed env i st st'"
  by (drule step_cases, cases pc) (auto simp: effect_defs adds_completed_def recorded_pc_def)

lemma moves_recorded: "moves pc pc' \<Longrightarrow> recorded_pc pc \<Longrightarrow> recorded_pc pc'"
  by (cases pc) (auto simp: recorded_pc_def closed_pc_def)

lemma step_records:
  \<comment> \<open>a job that ends well is recorded\<close>
  assumes "job_step env i (sd_pc st ! i) st = Some st'" "i < length (sd_pc st)" "i < length (sd_status st)"
    and "recorded_pc (sd_pc st ! i) \<and> outcome_ok (sd_status st ! i) \<longrightarrow> id_at env i \<in> set (sd_completed st)"
    and "\<not> recorded_pc (sd_pc st ! i) \<longrightarrow> \<not> outcome_ok (sd_status st ! i)"
    and "sd_pc st ! i \<noteq> POutside" "recorded_pc (sd_pc st' ! i)" "outcome_ok (sd_status st' ! i)"
  shows "id_at env i \<in> set (sd_completed st')"
proof (cases "sd_pc st ! i = PCheck")
  case True
  then show ?thesis using assms by (auto simp: resumed_step_def effect_defs recorded_pc_def closed_pc_def split: if_splits)
next
  case False
  then show ?thesis using step_cases[OF assms(1)] assms(2-)
    by (cases "sd_pc st ! i") (auto simp: effect_defs recorded_pc_def closed_pc_def outcome_ok_def)
qed

lemma at_pc_not_ok:
  "at_pc env completed st i pc s \<Longrightarrow> \<not> recorded_pc pc \<Longrightarrow> s = LaneNotRun"
  by (cases pc) (auto simp: recorded_pc_def closed_pc_def)

lemma outside_not_ok:
  assumes "sd_status st ! i = LaneNotRun" "i < length (sd_status st)"
  shows "\<not> outcome_ok (sd_status (outside_step env i st) ! i)"
  using assms by (auto simp: step_defs outcome_ok_def split: step_splits)

lemma completed_step:
  assumes "run_inv env completed st" "i < length (re_jobs env)" "job_step env i (sd_pc st ! i) st = Some st'"
  shows "completed_inv env completed st'"
proof -
  have len: "i < length (sd_pc st)" "i < length (sd_status st)" and c: "completed_inv env completed st"
    and own: "at_pc env completed st i (sd_pc st ! i) (sd_status st ! i)"
    using assms(1,2) by (simp_all add: run_inv_def)
  obtain pc where pc: "moves (sd_pc st ! i) pc" "sd_pc st' = (sd_pc st)[i := pc]" using step_moves[OF assms(3) len(1)] by blast
  have add: "adds_completed env i st st'" by (rule step_completed[OF assms(3) len(1)])
  have rec: "recorded_pc (sd_pc st ! d) \<Longrightarrow> recorded_pc (sd_pc st' ! d)" for d
    using pc moves_recorded[OF pc(1)] len(1) by (cases "d = i") simp_all
  have own': "id_at env i \<in> set (sd_completed st')" if r: "recorded_pc (sd_pc st' ! i)" "outcome_ok (sd_status st' ! i)"
  proof (rule step_records[OF assms(3) len _ _ _ r])
    show "recorded_pc (sd_pc st ! i) \<and> outcome_ok (sd_status st ! i) \<longrightarrow> id_at env i \<in> set (sd_completed st)"
      using c assms(2) by (simp add: completed_inv_def)
    show "\<not> recorded_pc (sd_pc st ! i) \<longrightarrow> \<not> outcome_ok (sd_status st ! i)"
      using at_pc_not_ok[OF own] by (auto simp: outcome_ok_def)
    show "sd_pc st ! i \<noteq> POutside" using outside_not_ok[OF _ len(2)] own assms(3) r(2) by auto
  qed
  have "id_at env d \<in> set (sd_completed st')"
    if d: "d < length (re_jobs env)" "recorded_pc (sd_pc st' ! d)" "outcome_ok (sd_status st' ! d)" for d
  proof (cases "d = i")
    case True
    then show ?thesis using own' d by simp
  next
    case False
    then have "recorded_pc (sd_pc st ! d)" "outcome_ok (sd_status st ! d)" using d pc(2) step_frame[OF assms(3)] by auto
    then show ?thesis using c add d(1) by (auto simp: completed_inv_def adds_completed_def)
  qed
  moreover have "x \<in> set completed \<or> (\<exists>d < length (re_jobs env). id_at env d = x \<and> recorded_pc (sd_pc st' ! d))"
    if "x \<in> set (sd_completed st')" for x
  proof (cases "x \<in> set (sd_completed st)")
    case True
    then have "x \<in> set completed \<or> (\<exists>d < length (re_jobs env). id_at env d = x \<and> recorded_pc (sd_pc st ! d))"
      using c by (simp add: completed_inv_def)
    then show ?thesis using rec by blast
  next
    case False
    then have "x = id_at env i \<and> recorded_pc (sd_pc st' ! i)" using that add by (auto simp: adds_completed_def)
    then show ?thesis using assms(2) by blast
  qed
  ultimately show ?thesis using c add by (auto simp: completed_inv_def adds_completed_def)
qed

lemma run_inv_step:
  assumes "run_inv env completed st" "distinct_jobs env" "i < length (re_jobs env)" "job_step env i (sd_pc st ! i) st = Some st'"
  shows "run_inv env completed st'"
proof -
  have len: "length (sd_pc st) = length (re_jobs env)" "length (sd_status st) = length (re_jobs env)"
    using assms(1) by (simp_all add: run_inv_def)
  obtain pc where pc: "sd_pc st' = (sd_pc st)[i := pc]" using step_moves[OF assms(4)] len(1) assms(3) by auto
  have st: "stable env st st'" by (rule step_stable[OF assms(4)]) (simp_all add: len assms(3))
  have "at_pc env completed st j (sd_pc st' ! j) (sd_status st' ! j)" if "j < length (re_jobs env)" for j
  proof (cases "j = i")
    case True
    then show ?thesis using own_step[OF assms] by simp
  next
    case False
    then have "sd_pc st' ! j = sd_pc st ! j" "sd_status st' ! j = sd_status st ! j" using pc step_frame[OF assms(4)] by simp_all
    then show ?thesis using assms(1) that by (simp add: run_inv_def)
  qed
  then show ?thesis using completed_step[OF assms(1,3,4)] stable_at_pc[OF st] pc len step_frame[OF assms(4)]
    by (simp add: run_inv_def)
qed

lemma run_inv_interrupt: "run_inv env completed st \<Longrightarrow> run_inv env completed (st\<lparr>sd_interrupted := True\<rparr>)"
proof -
  assume inv: "run_inv env completed st"
  let ?st = "st\<lparr>sd_interrupted := True\<rparr>"
  have "stable env st ?st" by (simp add: stable_def halted_def)
  then have "at_pc env completed ?st i (sd_pc st ! i) (sd_status st ! i)" if "i < length (re_jobs env)" for i
    using inv that stable_at_pc by (simp add: run_inv_def)
  then show "run_inv env completed ?st" using inv by (simp add: run_inv_def completed_inv_def)
qed

lemma reach_inv: "run_reaches env completed st \<Longrightarrow> distinct_jobs env \<Longrightarrow> run_inv env completed st"
proof (induction rule: run_reaches.induct)
  case Start
  then show ?case by (auto simp: run_inv_def init_sched_def completed_inv_def recorded_pc_def closed_pc_def ups_ok_def Let_def)
next
  case (Step st st')
  from Step.hyps(2) show ?case
    by (rule sched_step_cases) (auto intro: run_inv_step[OF Step.IH] run_inv_interrupt[OF Step.IH] simp: Step.prems)
qed

end
