(* ===== verification/Run_Correct.thy ===== *)
theory Run_Correct
  imports Run_Invariant
begin

text \<open>
  The scheduler's theorems: the limits on slots and components hold in every interleaving, a job runs only
  after its upstreams succeeded, no run gets stuck and every run ends, and how the jobs end does not depend on
  the interleaving.
\<close>

section \<open>Progress\<close>

definition upstream_rel :: "run_env \<Rightarrow> (nat \<times> nat) set" where
  \<comment> \<open>the first job waits on the second\<close>
  "upstream_rel env = {(i, d). i < length (re_jobs env) \<and> (\<exists>dep \<in> set (deps_at env i). outcome_of (re_jobs env) dep = Some d)}"

lemma upstream_rel_finite: "finite (upstream_rel env)"
proof (rule finite_subset)
  show "upstream_rel env \<subseteq> {..<length (re_jobs env)} \<times> {..<length (re_jobs env)}"
    by (auto simp: upstream_rel_def dest: outcome_of_Some)
qed simp

lemma upstream_rel_wf: "acyclic (upstream_rel env) \<Longrightarrow> wf ((upstream_rel env)\<inverse>)"
  by (rule finite_acyclic_wf_converse[OF upstream_rel_finite])

definition blocked_pc :: "job_pc \<Rightarrow> bool" where
  "blocked_pc pc \<longleftrightarrow> (\<exists>k. pc = PAwaitUp k) \<or> pc = PEnterWait \<or> pc = PWaitSlot"

lemma step_possible: "\<not> blocked_pc pc \<Longrightarrow> pc \<noteq> PDone \<Longrightarrow> job_step env i pc st \<noteq> None"
  by (cases pc) (auto simp: blocked_pc_def)

lemma all_settled:
  assumes "gate_inv slots pcs g" "\<forall>i < length pcs. settled_pc (pcs ! i)"
  shows "sg_unsettled g = 0"
  using assms by (simp add: gate_inv_def gate_pre_def)

lemma slot_free:
  \<comment> \<open>when every job has settled and none holds a slot, none waits for one\<close>
  assumes "gate_inv slots pcs g" "sg_unsettled g = 0" "\<forall>i < length pcs. \<not> holds_slot g pcs i" "0 < slots" "i < length pcs"
  shows "pcs ! i \<noteq> PWaitSlot"
proof
  assume w: "pcs ! i = PWaitSlot"
  then have "waits g pcs i" using assms(3,5) by (auto simp: holds_slot_def waits_def)
  then have "sg_waiting g \<noteq> []" using assms(1) by (auto simp: gate_inv_def gate_pre_def)
  then have "sg_free g = 0" using assms(1,2) by (simp add: gate_inv_def)
  moreover have "{i. holds_slot g pcs i} = {}" using assms(3) by (auto simp: holds_slot_def)
  ultimately show False using assms(1,4) by (simp add: gate_inv_def gate_pre_def)
qed

lemma no_wait_when_none_flies:
  assumes "comp_inv cap comp_of pcs g" "\<forall>i < length pcs. \<not> in_flight (pcs ! i)"
  shows "\<not> must_wait c g"
proof (cases "0 < cap")
  case True
  have "flying comp_of pcs c = {}" for c using assms(2) by (auto simp: flying_def)
  then have "gm_get (cg_active g) c = None" for c using assms(1) True by (simp add: comp_inv_def)
  then have "k \<notin> set (gm_keys (cg_active g))" for k using gm_has_iff[of "cg_active g" k] by (simp add: gm_has_def)
  then have "cg_active g = []" by (cases "cg_active g") fastforce+
  then show ?thesis using assms(1) True by (simp add: comp_inv_def must_wait_def)
qed (use assms(1) in \<open>simp add: comp_inv_def must_wait_def\<close>)

lemma stuck_all_await:
  \<comment> \<open>in a state without a step every job is done or waits for an upstream\<close>
  assumes "gates_inv env st" "\<forall>i < length (re_jobs env). job_step env i (sd_pc st ! i) st = None" "i < length (re_jobs env)"
  shows "sd_pc st ! i = PDone \<or> (\<exists>k. sd_pc st ! i = PAwaitUp k)"
proof -
  let ?pcs = "sd_pc st" and ?g = "sd_gate st"
  have len: "length ?pcs = length (re_jobs env)" and g: "gate_inv (slots_of env) ?pcs ?g"
    and c: "comp_inv (re_cap env) (comp_name env) ?pcs (sd_components st)"
    using assms(1) by (simp_all add: gates_inv_def)
  have b: "blocked_pc (?pcs ! j) \<or> ?pcs ! j = PDone" if "j < length ?pcs" for j
    using step_possible assms(2) that len by metis
  then have "\<forall>j < length ?pcs. settled_pc (?pcs ! j)" by (auto simp: blocked_pc_def settled_pc_def)
  note un = all_settled[OF g this]
  have no: "\<not> holds_slot ?g ?pcs j" if j: "j < length ?pcs" for j
  proof
    assume "holds_slot ?g ?pcs j"
    then have "?pcs ! j = PWaitSlot" "sg_granted ?g ! j" using b[OF j] by (auto simp: holds_slot_def has_slot_def blocked_pc_def)
    then show False using assms(2) j len by (metis job_step.simps(9) option.distinct(1))
  qed
  have nw: "?pcs ! j \<noteq> PWaitSlot" if "j < length ?pcs" for j
    using slot_free[OF g un _ _ that] no by (simp add: slots_of_def)
  then have "\<forall>j < length ?pcs. \<not> in_flight (?pcs ! j)" using b by (fastforce simp: in_flight_def has_slot_def blocked_pc_def)
  note nf = no_wait_when_none_flies[OF c this]
  have "?pcs ! i \<noteq> PEnterWait"
  proof
    assume "?pcs ! i = PEnterWait"
    then have "enter_wait_step env i st = None" using assms(2,3) by (metis job_step.simps(7))
    then show False using nf by (simp add: enter_wait_step_def Let_def)
  qed
  then show ?thesis using b[of i] nw[of i] assms(3) len by (auto simp: blocked_pc_def)
qed

fun pc_rank :: "nat \<Rightarrow> job_pc \<Rightarrow> nat" where
  \<comment> \<open>a bound on the steps left to a job with this number of upstreams\<close>
  "pc_rank n (PUp k) = 2 * (n - k) + 16"
| "pc_rank n (PAwaitUp k) = 2 * (n - k) + 15"
| "pc_rank n PCheck = 14"
| "pc_rank n POutside = 13"
| "pc_rank n PStop1 = 12"
| "pc_rank n PEnter = 11"
| "pc_rank n PEnterWait = 10"
| "pc_rank n PAcquire = 9"
| "pc_rank n PWaitSlot = 8"
| "pc_rank n PStop2 = 7"
| "pc_rank n PBefore = 6"
| "pc_rank n PExec = 5"
| "pc_rank n PRelease = 4"
| "pc_rank n PLeave = 3"
| "pc_rank n PClose = 2"
| "pc_rank n PSettle = 1"
| "pc_rank n PDone = 0"

definition run_rank :: "run_env \<Rightarrow> sched \<Rightarrow> nat" where
  "run_rank env st = (\<Sum>i < length (sd_pc st). pc_rank (length (deps_at env i)) (sd_pc st ! i)) + (if sd_interrupted st then 0 else 1)"

lemma moves_rank:
  assumes "job_step env i pc st = Some st'" "sd_pc st' = (sd_pc st)[i := pc']" "moves pc pc'" "i < length (sd_pc st)"
  shows "pc_rank (length (deps_at env i)) pc' < pc_rank (length (deps_at env i)) pc"
proof (cases pc)
  case (PUp k)
  have "k < length (deps_at env i)" if "pc' = PUp (k + 1)"
  proof -
    have "sd_pc st' ! i = PUp (k + 1)" using assms(2,4) that by simp
    then show ?thesis using assms(1,4) PUp by (auto simp: step_defs split: if_splits option.splits)
  qed
  then show ?thesis using assms(3) PUp by auto
next
  case (PAwaitUp k)
  then have "k < length (deps_at env i)" using assms(1) by (auto simp: step_defs split: if_splits)
  then show ?thesis using assms(3) PAwaitUp by auto
qed (use assms(3) in auto)

lemma step_rank:
  assumes "sched_step env st st'" "length (sd_pc st) = length (re_jobs env)"
  shows "run_rank env st' < run_rank env st \<and> length (sd_pc st') = length (sd_pc st)"
  using assms(1)
proof (rule sched_step_cases)
  fix i assume i: "i < length (re_jobs env)" and step: "job_step env i (sd_pc st ! i) st = Some st'"
  have il: "i < length (sd_pc st)" using i assms(2) by simp
  obtain pc where pc: "moves (sd_pc st ! i) pc" "sd_pc st' = (sd_pc st)[i := pc]" using step_moves[OF step il] by blast
  let ?f = "\<lambda>pcs j. pc_rank (length (deps_at env j)) (pcs ! j)" and ?N = "{..<length (sd_pc st)}"
  have "sum (?f (sd_pc st')) ?N < sum (?f (sd_pc st)) ?N"
  proof (rule sum_strict_mono_ex1)
    have "?f (sd_pc st') i < ?f (sd_pc st) i" using moves_rank[OF step pc(2,1) il] pc(2) il by simp
    moreover have "?f (sd_pc st') j = ?f (sd_pc st) j" if "j \<noteq> i" for j using that pc(2) by simp
    ultimately show "\<forall>j \<in> ?N. ?f (sd_pc st') j \<le> ?f (sd_pc st) j" "\<exists>j \<in> ?N. ?f (sd_pc st') j < ?f (sd_pc st) j"
      using il by (auto intro: less_imp_le) (metis less_imp_le order_refl)
  qed simp
  then show ?thesis using pc(2) step_frame[OF step] by (simp add: run_rank_def)
qed (auto simp: run_rank_def)

section \<open>Errors\<close>

lemma step_failed:
  "job_step env i pc st = Some st' \<Longrightarrow> sd_status st' ! j = LaneFailed \<Longrightarrow> sd_status st ! j = LaneFailed \<or> sd_first_err st'"
  by (drule step_cases, cases pc; cases "j = i"; cases "i < length (sd_status st)") (auto simp: effect_defs list_update_beyond)

lemma reach_failed: "run_reaches env completed st \<Longrightarrow> i < length (re_jobs env) \<Longrightarrow> sd_status st ! i = LaneFailed \<Longrightarrow> sd_first_err st"
proof (induction rule: run_reaches.induct)
  case (Step st st')
  from Step.hyps(2) show ?case
  proof (rule sched_step_cases)
    fix j assume "job_step env j (sd_pc st ! j) st = Some st'"
    then show ?thesis using step_failed[of env j _ st st' i] step_frame[of env j _ st st'] Step.IH Step.prems by blast
  qed (use Step.IH Step.prems in simp)
qed (simp add: init_sched_def Let_def)

section \<open>Theorems\<close>

definition finished :: "run_env \<Rightarrow> sched \<Rightarrow> bool" where
  \<comment> \<open>every goroutine has returned\<close>
  "finished env st \<longleftrightarrow> (\<forall>i < length (re_jobs env). sd_pc st ! i = PDone)"

lemma slots_limit:
  assumes "gates_inv env st"
  shows "int (card {i. i < length (re_jobs env) \<and> has_slot (sd_pc st ! i)}) \<le> slots_of env"
proof -
  have g: "gate_pre (slots_of env) (sd_pc st) (sd_gate st)" and len: "length (sd_pc st) = length (re_jobs env)"
    using assms by (simp_all add: gates_inv_def gate_inv_def)
  have "{i. i < length (re_jobs env) \<and> has_slot (sd_pc st ! i)} \<subseteq> {i. holds_slot (sd_gate st) (sd_pc st) i}"
    using g len by (auto simp: gate_pre_def holds_slot_def)
  from card_mono[OF holds_finite this] show ?thesis using g by (simp add: gate_pre_def)
qed

lemma slots_full:
  assumes "gates_inv env st" "sg_unsettled (sd_gate st) = 0" "waits (sd_gate st) (sd_pc st) i"
  shows "int (card {i. holds_slot (sd_gate st) (sd_pc st) i}) = slots_of env"
proof -
  have g: "gate_inv (slots_of env) (sd_pc st) (sd_gate st)" using assms(1) by (simp add: gates_inv_def)
  then have "i \<in> set (sg_waiting (sd_gate st))" using assms(3) by (simp add: gate_inv_def gate_pre_def)
  then have "sg_free (sd_gate st) = 0" using g assms(2) by (auto simp: gate_inv_def)
  then show ?thesis using g by (simp add: gate_inv_def gate_pre_def)
qed

lemma components_limit:
  assumes "gates_inv env st" "0 < re_cap env"
  shows "int (card (comp_name env ` {i. i < length (re_jobs env) \<and> in_flight (sd_pc st ! i)})) \<le> re_cap env"
proof -
  let ?a = "cg_active (sd_components st)"
  have c: "comp_inv (re_cap env) (comp_name env) (sd_pc st) (sd_components st)" and len: "length (sd_pc st) = length (re_jobs env)"
    using assms by (simp_all add: gates_inv_def)
  have "comp_name env ` {i. i < length (re_jobs env) \<and> in_flight (sd_pc st ! i)} \<subseteq> set (gm_keys ?a)"
  proof
    fix c' assume "c' \<in> comp_name env ` {i. i < length (re_jobs env) \<and> in_flight (sd_pc st ! i)}"
    then have "flying (comp_name env) (sd_pc st) c' \<noteq> {}" using len by (auto simp: flying_def)
    then have "gm_has ?a c'" using c assms(2) by (simp add: comp_inv_def gm_has_def)
    then show "c' \<in> set (gm_keys ?a)" by (simp add: gm_has_iff)
  qed
  from card_mono[OF finite_set this] show ?thesis
    using c assms(2) gm_length[of ?a] by (simp add: comp_inv_def)
qed

lemma stuck_finished:
  assumes "run_inv env completed st" "gates_inv env st" "acyclic (upstream_rel env)"
    and "\<forall>i < length (re_jobs env). job_step env i (sd_pc st ! i) st = None"
  shows "\<forall>i < length (re_jobs env). sd_pc st ! i = PDone"
proof -
  have "i < length (re_jobs env) \<longrightarrow> sd_pc st ! i = PDone" for i
  proof (induction i rule: wf_induct[OF upstream_rel_wf[OF assms(3)]])
    case (1 i)
    show ?case
    proof
      assume i: "i < length (re_jobs env)"
      show "sd_pc st ! i = PDone"
      proof (rule ccontr)
        assume "sd_pc st ! i \<noteq> PDone"
        then obtain k where k: "sd_pc st ! i = PAwaitUp k" using stuck_all_await[OF assms(2,4) i] by blast
        then have "at_pc env completed st i (PAwaitUp k) (sd_status st ! i)" using assms(1) i by (metis run_inv_def)
        then obtain d where d: "k < length (deps_at env i)" "outcome_of (re_jobs env) (deps_at env i ! k) = Some d" by auto
        then have "(i, d) \<in> upstream_rel env" using i nth_mem by (auto simp: upstream_rel_def)
        then have "sd_pc st ! d = PDone" using 1 outcome_of_Some[OF d(2)] by simp
        then have "await_step env i k st \<noteq> None" using d by (simp add: await_step_def closed_pc_def Let_def)
        then show False using assms(4) i k by (metis job_step.simps(2))
      qed
    qed
  qed
  then show ?thesis by blast
qed

lemma outcome_unblocked:
  assumes "\<not> (\<exists>dep \<in> set (deps_at env i). \<exists>d. outcome_of (re_jobs env) dep = Some d \<and> \<not> ok d)"
  shows "settled_outcome env completed ok i =
    (if id_at env i \<in> set completed then LaneResumed
     else (case outside_verdict env completed (re_jobs env ! i) of Some status \<Rightarrow> status | None \<Rightarrow> job_result env (id_at env i)))"
  unfolding settled_outcome_def if_not_P[OF assms] ..

lemma closing_outcome:
  assumes "closing env completed st i s" "i < length (re_jobs env)"
  shows "s = settled_outcome env completed (\<lambda>d. outcome_ok (sd_status st ! d)) i \<or> s = LaneNotRun \<and> halted env st"
proof -
  have none: "\<not> (\<exists>dep \<in> set (deps_at env i). \<exists>d. outcome_of (re_jobs env) dep = Some d \<and> \<not> outcome_ok (sd_status st ! d))"
    if "ups_ok env st i (length (deps_at env i))"
    using that by (auto simp: ups_ok_def upstream_ok_def in_set_conv_nth)
  from assms(1) consider (blocked) "s = LaneBlocked" "\<exists>dep \<in> set (deps_at env i). upstream_failed env st dep"
    | (resumed) "ups_ok env st i (length (deps_at env i))" "id_at env i \<in> set completed" "s = LaneResumed"
    | (outside) "ups_ok env st i (length (deps_at env i))" "id_at env i \<notin> set completed"
        "outside_verdict env completed (re_jobs env ! i) = Some s"
    | (ran) "ran env completed st i s"
    unfolding closing_def by blast
  then show ?thesis
  proof cases
    case blocked
    then show ?thesis by (auto simp: settled_outcome_def upstream_failed_def)
  next
    case resumed
    then show ?thesis by (simp add: outcome_unblocked[OF none])
  next
    case outside
    then show ?thesis by (simp add: outcome_unblocked[OF none])
  next
    case ran
    then have "ups_ok env st i (length (deps_at env i))" by (simp add: ran_def cleared_def)
    then show ?thesis using ran by (auto simp: outcome_unblocked[OF none] ran_def cleared_def)
  qed
qed

lemma outcome_cong:
  assumes "\<And>d. (i, d) \<in> upstream_rel env \<Longrightarrow> ok d = ok' d" "i < length (re_jobs env)"
  shows "settled_outcome env completed ok i = settled_outcome env completed ok' i"
proof -
  have "(\<exists>dep \<in> set (deps_at env i). \<exists>d. outcome_of (re_jobs env) dep = Some d \<and> \<not> ok d) \<longleftrightarrow>
      (\<exists>dep \<in> set (deps_at env i). \<exists>d. outcome_of (re_jobs env) dep = Some d \<and> \<not> ok' d)"
    using assms unfolding upstream_rel_def by blast
  then show ?thesis by (simp add: settled_outcome_def)
qed

definition solves :: "run_env \<Rightarrow> string list \<Rightarrow> lane_status list \<Rightarrow> bool" where
  "solves env completed ss \<longleftrightarrow> length ss = length (re_jobs env) \<and>
     (\<forall>i < length (re_jobs env). ss ! i = settled_outcome env completed (\<lambda>d. outcome_ok (ss ! d)) i)"

lemma solves_unique:
  assumes "acyclic (upstream_rel env)" "solves env completed ss" "solves env completed ss'"
  shows "ss = ss'"
proof (rule nth_equalityI)
  show "length ss = length ss'" using assms(2,3) by (simp add: solves_def)
  have "i < length (re_jobs env) \<longrightarrow> ss ! i = ss' ! i" for i
  proof (induction i rule: wf_induct[OF upstream_rel_wf[OF assms(1)]])
    case (1 i)
    have "ss ! d = ss' ! d" if "(i, d) \<in> upstream_rel env" for d
      using 1 that outcome_of_Some by (auto simp: upstream_rel_def)
    then have "settled_outcome env completed (\<lambda>d. outcome_ok (ss ! d)) i = settled_outcome env completed (\<lambda>d. outcome_ok (ss' ! d)) i"
      if "i < length (re_jobs env)" using that by (intro outcome_cong) auto
    then show ?case using assms(2,3) by (auto simp: solves_def)
  qed
  then show "\<And>i. i < length ss \<Longrightarrow> ss ! i = ss' ! i" using assms(2) by (simp add: solves_def)
qed

lemma solves_ok:
  assumes "acyclic (upstream_rel env)" "solves env completed ss" "LaneFailed \<notin> set ss"
    and "\<forall>j \<in> set (re_jobs env). outsideUpstreams (re_jobs env) j = []"
  shows "list_all outcome_ok ss"
proof -
  have "i < length (re_jobs env) \<longrightarrow> outcome_ok (ss ! i)" for i
  proof (induction i rule: wf_induct[OF upstream_rel_wf[OF assms(1)]])
    case (1 i)
    show ?case
    proof
      assume i: "i < length (re_jobs env)"
      then have "outcome_ok (ss ! d)" if "(i, d) \<in> upstream_rel env" for d
        using 1 that outcome_of_Some by (auto simp: upstream_rel_def)
      then have nb: "\<not> (\<exists>dep \<in> set (deps_at env i). \<exists>d. outcome_of (re_jobs env) dep = Some d \<and> \<not> outcome_ok (ss ! d))"
        using i by (auto simp: upstream_rel_def)
      have "outside_verdict env completed (re_jobs env ! i) = None" using assms(4) i by (simp add: outside_verdict_def)
      then have "ss ! i = (if id_at env i \<in> set completed then LaneResumed else job_result env (id_at env i))"
        using assms(2) i by (simp add: solves_def outcome_unblocked[OF nb])
      moreover have "ss ! i \<noteq> LaneFailed" using assms(2,3) i by (metis nth_mem solves_def)
      ultimately show "outcome_ok (ss ! i)" by (auto simp: outcome_ok_def job_result_def split: if_splits before_job.splits)
    qed
  qed
  then show ?thesis using assms(2) by (simp add: list_all_length solves_def)
qed

lemma every_job_ends:
  assumes "run_reaches env completed st" "distinct_jobs env" "finished env st" "i < length (re_jobs env)"
  shows "sd_status st ! i = settled_outcome env completed (\<lambda>d. outcome_ok (sd_status st ! d)) i \<or>
    sd_status st ! i = LaneNotRun \<and> (re_fail_fast env \<and> sd_first_err st \<or> sd_interrupted st)"
proof -
  have "at_pc env completed st i (sd_pc st ! i) (sd_status st ! i)" using reach_inv[OF assms(1,2)] assms(4) by (simp add: run_inv_def)
  then have "closing env completed st i (sd_status st ! i)" using assms(3,4) by (simp add: finished_def)
  then show ?thesis using closing_outcome[OF _ assms(4)] by (fastforce simp: halted_def stopped_def)
qed

fun drive :: "run_env \<Rightarrow> nat list \<Rightarrow> nat \<Rightarrow> sched \<Rightarrow> sched" where
  \<comment> \<open>one interleaving: always the first job, in this order, that can move\<close>
  "drive env order 0 st = st"
| "drive env order (Suc n) st =
     (case find (\<lambda>i. i < length (re_jobs env) \<and> \<not> Option.is_none (job_step env i (sd_pc st ! i) st)) order of
        None \<Rightarrow> st
      | Some i \<Rightarrow> (case job_step env i (sd_pc st ! i) st of None \<Rightarrow> st | Some st' \<Rightarrow> drive env order n st'))"

lemma drive_reaches: "run_reaches env completed st \<Longrightarrow> run_reaches env completed (drive env order n st)"
proof (induction env order n st rule: drive.induct)
  case (2 env order n st)
  let ?f = "find (\<lambda>i. i < length (re_jobs env) \<and> \<not> Option.is_none (job_step env i (sd_pc st ! i) st)) order"
  show ?case
  proof (cases ?f)
    case None
    then show ?thesis using "2.prems" by simp
  next
    case (Some i)
    then have i: "i < length (re_jobs env)" by (auto simp: find_Some_iff)
    show ?thesis
    proof (cases "job_step env i (sd_pc st ! i) st")
      case None
      then show ?thesis using "2.prems" Some by simp
    next
      case (Some st')
      with \<open>?f = Some i\<close> show ?thesis
        using "2.IH"[OF \<open>?f = Some i\<close> Some] run_reaches.Step[OF "2.prems" sched_step.Job[OF i Some]] by simp
    qed
  qed
qed simp

definition example_jobs :: "plan_job list" where
  \<comment> \<open>\<open>b\<close> waits on \<open>a\<close>; \<open>c\<close> is on its own\<close>
  "example_jobs = [zero_plan_job\<lparr>pb_id := ''a'', pb_component := ''x''\<rparr>,
     zero_plan_job\<lparr>pb_id := ''b'', pb_component := ''x'', pb_depends_on := [''a'']\<rparr>,
     zero_plan_job\<lparr>pb_id := ''c'', pb_component := ''y''\<rparr>]"

definition example_run :: run_env where
  \<comment> \<open>\<open>a\<close> fails\<close>
  "example_run = \<lparr>re_slots = 1, re_cap = 1, re_fail_fast = False, re_lane_mode = True, re_await = None, re_job_selected = False,
     re_skip_local_deps = False, re_before = (\<lambda>_. Proceed), re_exec = (\<lambda>j. j \<noteq> ''a''), re_jobs = example_jobs,
     re_plan_jobs = example_jobs\<rparr>"

definition example_at :: "nat list \<Rightarrow> nat \<Rightarrow> sched" where
  "example_at order n = drive example_run order n (init_sched example_run [])"

definition example_middle :: sched where "example_middle = example_at [0, 1, 2] 15"
definition example_first :: sched where "example_first = example_at [0, 1, 2] 100"
definition example_second :: sched where "example_second = example_at [2, 1, 0] 100"

lemma example_reaches:
  "run_reaches example_run [] example_middle" "run_reaches example_run [] example_first" "run_reaches example_run [] example_second"
  unfolding example_middle_def example_first_def example_second_def example_at_def by (rule drive_reaches[OF run_reaches.Start])+

lemma example_distinct: "distinct_jobs example_run"
  by (simp add: distinct_jobs_def example_run_def example_jobs_def zero_plan_job_def)

lemma example_acyclic: "acyclic (upstream_rel example_run)"
proof -
  have "outcome_of (re_jobs example_run) ''a'' = Some 0" by code_simp
  then have "upstream_rel example_run \<subseteq> {(1, 0)}"
    by (auto simp: upstream_rel_def example_run_def example_jobs_def zero_plan_job_def less_Suc_eq numeral_3_eq_3 nth_Cons split: nat.splits)
  moreover have "acyclic {(1::nat, 0::nat)}" by (rule acyclicI_order[of _ id]) auto
  ultimately show ?thesis by (rule acyclic_subset[rotated])
qed

lemma example_ends:
  "sd_pc example_first = [PDone, PDone, PDone]" "sd_pc example_second = [PDone, PDone, PDone]"
  by code_simp+

lemma example_statuses: "sd_status example_first = [LaneFailed, LaneBlocked, LaneSucceeded]"
  by code_simp

lemma example_finished: "finished example_run example_first" "finished example_run example_second"
  by (auto simp: finished_def example_ends example_run_def example_jobs_def less_Suc_eq numeral_3_eq_3)

lemma example_not_halted: "\<not> halted example_run example_first" "\<not> halted example_run example_second"
  by code_simp+

lemma example_running: "sd_pc example_middle ! 0 = PExec"
  by code_simp

lemma step_gate:
  assumes "gates_inv env st" "k < length (re_jobs env)" "job_step env k (sd_pc st ! k) st = Some st'"
  shows "sd_gate st' = sd_gate st \<or> (\<exists>g pcs. sd_gate st' = dispatchLocked g \<and> gate_pre (slots_of env) pcs g \<and>
    length pcs = length (re_jobs env) \<and> sg_granted g = sg_granted (sd_gate st) \<and> sg_prio g = sg_prio (sd_gate st))"
proof -
  let ?g = "sd_gate st" and ?pcs = "sd_pc st"
  have i: "k < length ?pcs" "length ?pcs = length (re_jobs env)" and g: "gate_inv (slots_of env) ?pcs ?g"
    using assms(1,2) by (simp_all add: gates_inv_def)
  have cases: "sd_gate st' \<in> {?g, gate_settle k ?g} \<or> ?pcs ! k = PAcquire \<and> sd_gate st' = gate_acquire k ?g \<or>
      ?pcs ! k = PRelease \<and> sd_gate st' = gate_release ?g"
    using step_cases[OF assms(3)] by (cases "?pcs ! k") (auto simp: effect_defs)
  consider "sd_gate st' = ?g" | (settle) "sd_gate st' = dispatchLocked (settleLocked k ?g)"
    | (acquire) "?pcs ! k = PAcquire" "sd_gate st' = dispatchLocked (acquire_base k ?g)"
    | (release) "?pcs ! k = PRelease" "sd_gate st' = dispatchLocked (?g\<lparr>sg_free := sg_free ?g + 1\<rparr>)"
    using cases by (auto simp: gate_settle_def gate_acquire_def acquire_base_def gate_release_def Let_def)
  then show ?thesis
  proof cases
    case settle
    have "gate_pre (slots_of env) ?pcs (settleLocked k ?g)" using settleLocked_pre(1)[OF _ i(1)] g by (simp add: gate_inv_def)
    then show ?thesis using settle i(2) base_granted gate_prio(2) by blast
  next
    case acquire
    have "length (?pcs[k := PWaitSlot]) = length (re_jobs env)" using i(2) by simp
    then show ?thesis using acquire acquire_pre[OF g i(1) acquire(1)] base_granted gate_prio(6) by blast
  next
    case release
    have "length (?pcs[k := PLeave]) = length (re_jobs env)" using i(2) by simp
    moreover have "sg_granted (?g\<lparr>sg_free := sg_free ?g + 1\<rparr>) = sg_granted ?g" "sg_prio (?g\<lparr>sg_free := sg_free ?g + 1\<rparr>) = sg_prio ?g"
      by simp_all
    ultimately show ?thesis using release release_pre[OF g i(1) release(1)] by blast
  qed simp
qed

lemma reach_prio:
  "run_reaches env completed st \<Longrightarrow> sg_prio (sd_gate st) = map (\<lambda>j. job_priority (re_plan_jobs env) (pb_id j)) (re_jobs env)"
proof (induction rule: run_reaches.induct)
  case (Step st st')
  from Step.hyps(2) show ?case
  proof (rule sched_step_cases)
    fix k assume k: "k < length (re_jobs env)" "job_step env k (sd_pc st ! k) st = Some st'"
    show ?thesis using step_gate[OF reach_gates[OF Step.hyps(1)] k] Step.IH by (auto simp: gate_prio)
  qed (use Step.IH in simp)
qed (simp add: init_sched_def newSlotGate_def Let_def)

lemma granted_first:
  assumes "run_reaches env completed st" "sched_step env st st'" "i < length (re_jobs env)"
    and "\<not> sg_granted (sd_gate st) ! i" "sg_granted (sd_gate st') ! i" "waits (sd_gate st') (sd_pc st') j"
  shows "j < length (re_jobs env) \<and> goes_before (sd_gate st) i j"
  using assms(2)
proof (rule sched_step_cases)
  fix k assume k: "k < length (re_jobs env)" "job_step env k (sd_pc st ! k) st = Some st'"
  have g': "gates_inv env st'" using reach_gates[OF assms(1)] gates_sched_step assms(2) by blast
  then have j: "j < length (re_jobs env)" "j \<in> set (sg_waiting (sd_gate st'))"
    using assms(6) by (auto simp: gates_inv_def gate_inv_def gate_pre_def waits_def)
  from step_gate[OF reach_gates[OF assms(1)] k] obtain g pcs where "sd_gate st' = dispatchLocked g" "gate_pre (slots_of env) pcs g"
    "length pcs = length (re_jobs env)" "sg_granted g = sg_granted (sd_gate st)" "sg_prio g = sg_prio (sd_gate st)"
    using assms(4,5) by auto
  then show ?thesis using dispatch_best[of "slots_of env" pcs g i j] j assms(3-5) by (auto simp: goes_before_def)
qed (use assms(4,5) in simp)

text \<open>
  C9: In every interleaving, with any interrupt: at most the configured number of jobs hold a slot; jobs of at
  most the configured number of components are in flight, where that is limited; a job runs only when each
  of its upstreams in the run has ended well; and once every job has reached its first wait, no slot is free
  while a job waits for one.
\<close>

theorem run_keeps_its_limits:
  assumes "run_reaches env completed st" "distinct_jobs env"
  shows "int (card {i. i < length (re_jobs env) \<and> has_slot (sd_pc st ! i)}) \<le> slots_of env \<and>
    (0 < re_cap env \<longrightarrow> int (card (comp_name env ` {i. i < length (re_jobs env) \<and> in_flight (sd_pc st ! i)})) \<le> re_cap env) \<and>
    (\<forall>i < length (re_jobs env). sd_pc st ! i = PExec \<longrightarrow>
       (\<forall>dep \<in> set (deps_at env i). \<forall>d. outcome_of (re_jobs env) dep = Some d \<longrightarrow>
          closed_pc (sd_pc st ! d) \<and> outcome_ok (sd_status st ! d))) \<and>
    (sg_unsettled (sd_gate st) = 0 \<longrightarrow> (\<exists>i < length (re_jobs env). waits (sd_gate st) (sd_pc st) i) \<longrightarrow>
       int (card {i. holds_slot (sd_gate st) (sd_pc st) i}) = slots_of env)"
proof -
  have g: "gates_inv env st" by (rule reach_gates[OF assms(1)])
  then have len: "length (sd_pc st) = length (re_jobs env)" by (simp add: gates_inv_def)
  have "(\<forall>dep \<in> set (deps_at env i). \<forall>d. outcome_of (re_jobs env) dep = Some d \<longrightarrow>
          closed_pc (sd_pc st ! d) \<and> outcome_ok (sd_status st ! d))"
    if "i < length (re_jobs env)" "sd_pc st ! i = PExec" for i
  proof -
    have "at_pc env completed st i (sd_pc st ! i) (sd_status st ! i)" using reach_inv[OF assms] that(1) by (simp add: run_inv_def)
    then have "cleared env completed st i" using that(2) by simp
    then show ?thesis by (auto simp: cleared_def ups_ok_def upstream_ok_def in_set_conv_nth)
  qed
  then show ?thesis using slots_limit[OF g] components_limit[OF g] slots_full[OF g] by blast
qed

theorem run_keeps_its_limits_witness:
  "sd_pc example_middle ! 0 = PExec \<and>
   int (card {i. i < length (re_jobs example_run) \<and> has_slot (sd_pc example_middle ! i)}) \<le> 1"
  using run_keeps_its_limits[OF example_reaches(1) example_distinct] example_running
  by (simp add: slots_of_def example_run_def example_jobs_def)

text \<open>
  A slot goes to the waiting job with the most work behind it in the whole plan. Whenever a step gives a slot
  to one job while another goes on waiting for one, the longest chain of jobs of the plan that starts at the
  first and follows dependents is at least as long as every chain that starts at the other.
\<close>

theorem slots_go_to_the_longest_chain:
  assumes "run_reaches env completed st" "sched_step env st st'" "i < length (re_jobs env)"
    and "\<not> sg_granted (sd_gate st) ! i" "sg_granted (sd_gate st') ! i" "waits (sd_gate st') (sd_pc st') j"
    and "acyclic (waits_edges (re_plan_jobs env))" "set (re_jobs env) \<subseteq> set (re_plan_jobs env)"
    and "chain (waits_edges (re_plan_jobs env)) (id_at env j # xs)"
  shows "\<exists>ys. chain (waits_edges (re_plan_jobs env)) (id_at env i # ys) \<and> length xs \<le> length ys"
proof -
  note first = granted_first[OF assms(1-6)]
  have "re_jobs env ! i \<in> set (re_plan_jobs env)" "re_jobs env ! j \<in> set (re_plan_jobs env)"
    using assms(3,8) first nth_mem by blast+
  then obtain n m where n: "job_priority (re_plan_jobs env) (id_at env i) = int n" "is_longest (waits_edges (re_plan_jobs env)) (id_at env i) n"
    and m: "job_priority (re_plan_jobs env) (id_at env j) = int m" "is_longest (waits_edges (re_plan_jobs env)) (id_at env j) m"
    using priority_is_the_longest_chain[OF assms(7)] by meson
  have "m \<le> n" using first n(1) m(1) assms(3) by (auto simp: goes_before_def reach_prio[OF assms(1)])
  then have "length (id_at env j # xs) \<le> n" using m(2) assms(9) unfolding is_longest_def by fastforce
  then show ?thesis using n(2) unfolding is_longest_def by fastforce
qed

definition example_wide :: run_env where
  \<comment> \<open>two chains, \<open>a\<close>, \<open>b\<close>, \<open>e\<close> and \<open>c\<close>, \<open>d\<close>, with no limit on the components\<close>
  "example_wide = (let jobs = [zero_plan_job\<lparr>pb_id := ''a''\<rparr>, zero_plan_job\<lparr>pb_id := ''b'', pb_depends_on := [''a'']\<rparr>,
       zero_plan_job\<lparr>pb_id := ''c''\<rparr>, zero_plan_job\<lparr>pb_id := ''d'', pb_depends_on := [''c'']\<rparr>,
       zero_plan_job\<lparr>pb_id := ''e'', pb_depends_on := [''b'']\<rparr>]
     in example_run\<lparr>re_cap := 0, re_jobs := jobs, re_plan_jobs := jobs\<rparr>)"

definition wide_at :: "nat \<Rightarrow> sched" where
  \<comment> \<open>at step 14 \<open>c\<close> waits for the slot and \<open>a\<close> is about to ask for it; at step 15 \<open>a\<close> has got it\<close>
  "wide_at n = drive example_wide [4, 3, 2, 1, 0] n (init_sched example_wide [])"

lemma example_wide_jobs:
  "re_plan_jobs example_wide = re_jobs example_wide" "length (re_jobs example_wide) = 5"
  "map pb_id (re_jobs example_wide) = [''a'', ''b'', ''c'', ''d'', ''e'']"
  "map pb_depends_on (re_jobs example_wide) = [[], [''a''], [], [''c''], [''b'']]"
  by (simp_all add: example_wide_def example_run_def zero_plan_job_def Let_def)

lemma waits_edges_list:
  "waits_edges jobs = set (concat (map (\<lambda>j. map (\<lambda>u. (u, pb_id j)) (pb_depends_on j)) jobs))"
  by (auto simp: waits_edges_def)

lemma example_wide_edges: "waits_edges (re_plan_jobs example_wide) = {(''a'', ''b''), (''c'', ''d''), (''b'', ''e'')}"
  by (auto simp: waits_edges_list example_wide_def example_run_def zero_plan_job_def Let_def)

theorem slots_go_to_the_longest_chain_witness:
  "sg_granted (sd_gate (wide_at 15)) ! 0 \<and> waits (sd_gate (wide_at 15)) (sd_pc (wide_at 15)) 2 \<and>
   (\<exists>ys. chain (waits_edges (re_plan_jobs example_wide)) (''a'' # ys) \<and> length [''d''] \<le> length ys)"
proof -
  have reach: "run_reaches example_wide [] (wide_at 14)" unfolding wide_at_def by (rule drive_reaches[OF run_reaches.Start])
  have step: "job_step example_wide 0 (sd_pc (wide_at 14) ! 0) (wide_at 14) = Some (wide_at 15)" by code_simp
  have i: "0 < length (re_jobs example_wide)" by (simp add: example_wide_jobs)
  have gate: "\<not> sg_granted (sd_gate (wide_at 14)) ! 0" "sg_granted (sd_gate (wide_at 15)) ! 0"
    "waits (sd_gate (wide_at 15)) (sd_pc (wide_at 15)) 2" by code_simp+
  have acyc: "acyclic (waits_edges (re_plan_jobs example_wide))" unfolding example_wide_edges
    by (rule acyclicI_order[of _ "\<lambda>k. if k = ''a'' \<or> k = ''c'' then 2 else if k = ''b'' then 1 else 0 :: nat"]) auto
  have jobs: "set (re_jobs example_wide) \<subseteq> set (re_plan_jobs example_wide)" by (simp add: example_wide_jobs)
  have ids: "id_at example_wide 0 = ''a''" "id_at example_wide 2 = ''c''"
    by (simp_all add: example_wide_def example_run_def zero_plan_job_def Let_def)
  have c: "chain (waits_edges (re_plan_jobs example_wide)) [id_at example_wide 2, ''d'']" unfolding ids example_wide_edges by simp
  from slots_go_to_the_longest_chain[OF reach sched_step.Job[OF i step] i gate acyc jobs c] gate show ?thesis unfolding ids by simp
qed

text \<open>
  C8: A run whose jobs do not wait on each other in a cycle never gets stuck and always ends: unless every
  goroutine has returned some job can take a step, and no sequence of steps goes on for ever.
\<close>

theorem run_always_ends:
  assumes "run_reaches env completed st" "distinct_jobs env" "acyclic (upstream_rel env)"
  shows "(finished env st \<or> (\<exists>i < length (re_jobs env). job_step env i (sd_pc st ! i) st \<noteq> None)) \<and>
    \<not> (\<exists>f. f 0 = st \<and> (\<forall>n. sched_step env (f n) (f (Suc n))))"
proof
  have len: "length (sd_pc st) = length (re_jobs env)" using reach_gates[OF assms(1)] by (simp add: gates_inv_def)
  show "finished env st \<or> (\<exists>i < length (re_jobs env). job_step env i (sd_pc st ! i) st \<noteq> None)"
    using stuck_finished[OF reach_inv[OF assms(1,2)] reach_gates[OF assms(1)] assms(3)] by (auto simp: finished_def)
  show "\<not> (\<exists>f. f 0 = st \<and> (\<forall>n. sched_step env (f n) (f (Suc n))))"
  proof
    assume "\<exists>f. f 0 = st \<and> (\<forall>n. sched_step env (f n) (f (Suc n)))"
    then obtain f where f: "f 0 = st" "\<And>n. sched_step env (f n) (f (Suc n))" by blast
    have l: "length (sd_pc (f n)) = length (re_jobs env)" for n
      using step_rank[OF f(2)] f(1) len by (induction n) auto
    have "run_rank env (f n) + n \<le> run_rank env st" for n
    proof (induction n)
      case (Suc n)
      then show ?case using step_rank[OF f(2) l, of n] by simp
    qed (simp add: f(1))
    from this[of "Suc (run_rank env st)"] show False by simp
  qed
qed

theorem run_always_ends_witness:
  "finished example_run example_middle \<or>
   (\<exists>i < length (re_jobs example_run). job_step example_run i (sd_pc example_middle ! i) example_middle \<noteq> None)"
  using run_always_ends[OF example_reaches(1) example_distinct example_acyclic] by simp








text \<open>
  C10: The outcome of a run does not depend on the interleaving. Two finished runs of the same jobs, neither cut
  short by a fail-fast or an interrupt, end with the same status for every job; and if such a run reports no
  error and no job has an upstream outside the run, every job ended well.
\<close>

theorem outcome_ignores_interleaving:
  assumes "run_reaches env completed st" "finished env st" "\<not> halted env st"
    and "run_reaches env completed st'" "finished env st'" "\<not> halted env st'"
    and "distinct_jobs env" "acyclic (upstream_rel env)"
  shows "sd_status st = sd_status st' \<and>
    (\<not> sd_first_err st \<longrightarrow> (\<forall>j \<in> set (re_jobs env). outsideUpstreams (re_jobs env) j = []) \<longrightarrow> list_all outcome_ok (sd_status st))"
proof -
  have sol: "solves env completed (sd_status s)" if "run_reaches env completed s" "finished env s" "\<not> halted env s" for s
    using every_job_ends[OF that(1) assms(7) that(2)] reach_gates[OF that(1)] that(3)
    by (auto simp: solves_def gates_inv_def halted_def stopped_def)
  have "LaneFailed \<notin> set (sd_status st)" if "\<not> sd_first_err st"
    using reach_failed[OF assms(1)] that reach_gates[OF assms(1)] by (auto simp: in_set_conv_nth gates_inv_def)
  then show ?thesis using solves_unique[OF assms(8) sol[OF assms(1-3)] sol[OF assms(4-6)]] solves_ok[OF assms(8) sol[OF assms(1-3)]] by blast
qed

theorem outcome_ignores_interleaving_witness:
  "sd_status example_second = [LaneFailed, LaneBlocked, LaneSucceeded]"
  using outcome_ignores_interleaving[OF example_reaches(2) example_finished(1) example_not_halted(1) example_reaches(3)
    example_finished(2) example_not_halted(2) example_distinct example_acyclic] by (simp add: example_statuses)

end
