(* ===== verification/Preset_Merge.thy ===== *)
theory Preset_Merge
  imports Intent_Model Go_Path
begin

text \<open>
  Intent presets (\<open>internal/preset\<close>): the presets a stack publishes, which an intent names in \<open>extends\<close>, merged
  into the intent in that order. Reading the files of a stack is a parameter; maps are visited in the order of
  their association lists, and by sorted key where the code sorts.
\<close>

section \<open>Presets\<close>

record preset_provenance =
  pv_source :: string
  pv_preset :: string

record written_environment = environment +
  \<comment> \<open>an environment as decoded: a selector list left out is nil, one written as empty is not\<close>
  we_no_components :: bool
  we_no_domains :: bool

record intent_preset =
  ip_kind :: string
  ip_env :: "string gmap"
  ip_roots :: "string list"
  ip_bindings :: "trigger_binding gmap"
  ip_environments :: "written_environment gmap"
  ip_groups :: "group_decl gmap"

record resolved_preset =
  rp_preset :: intent_preset
  rp_provenance :: preset_provenance

record stack_preset =
  sp_name :: string
  sp_path :: string

datatype preset_error =
    UnknownSource string
  | StackUnreadable string string
  | PresetNotPublished string string
  | PresetUnreadable string string string
  | PresetWrongKind string string

record preset_files =
  pf_stack :: "string \<Rightarrow> string + stack_preset list" \<comment> \<open>the entries of \<open>stack.yaml\<close> at this root\<close>
  pf_preset :: "string \<Rightarrow> string + intent_preset" \<comment> \<open>the preset in this file\<close>

definition findPresetEntry :: "stack_preset list \<Rightarrow> string \<Rightarrow> stack_preset option" where
  "findPresetEntry stack name = List.find (\<lambda>e. sp_name e = name) stack"

definition filepath_join :: "string \<Rightarrow> string \<Rightarrow> string" where
  \<comment> \<open>\<open>filepath.Join\<close> of two elements\<close>
  "filepath_join a b = (let es = filter (\<lambda>e. e \<noteq> []) [a, b] in if es = [] then [] else path_clean (join ''/'' es))"

definition load_preset :: "preset_files \<Rightarrow> string gmap \<Rightarrow> string \<times> string \<Rightarrow> preset_error + resolved_preset" where
  "load_preset files sourceRoots ref =
     (case gm_get sourceRoots (fst ref) of
        None \<Rightarrow> Inl (UnknownSource (fst ref))
      | Some dir \<Rightarrow>
          (case pf_stack files dir of
             Inl err \<Rightarrow> Inl (StackUnreadable (fst ref) err)
           | Inr stack \<Rightarrow>
               (case findPresetEntry stack (snd ref) of
                  None \<Rightarrow> Inl (PresetNotPublished (fst ref) (snd ref))
                | Some e \<Rightarrow>
                    (case pf_preset files (filepath_join dir (sp_path e)) of
                       Inl err \<Rightarrow> Inl (PresetUnreadable (snd ref) (fst ref) err)
                     | Inr p \<Rightarrow>
                         if ip_kind p \<noteq> ''IntentPreset'' then Inl (PresetWrongKind (sp_path e) (ip_kind p))
                         else Inr \<lparr>rp_preset = p, rp_provenance = \<lparr>pv_source = fst ref, pv_preset = snd ref\<rparr>\<rparr>))))"

definition LoadPresetsForIntent :: "preset_files \<Rightarrow> intent \<Rightarrow> string gmap \<Rightarrow> preset_error + resolved_preset list" where
  "LoadPresetsForIntent files intent sourceRoots = mapR (load_preset files sourceRoots) (in_extends intent)"

definition ValidateExtendsRefs :: "intent \<Rightarrow> preset_error option" where
  "ValidateExtendsRefs intent =
     map_option (\<lambda>ref. UnknownSource (fst ref))
       (List.find (\<lambda>ref. fst ref \<notin> cs_name ` set (cc_sources (in_compositions intent))) (in_extends intent))"

section \<open>Copies\<close>

definition zero_written :: written_environment where
  "zero_written = environment.extend zero_environment \<lparr>we_no_components = True, we_no_domains = True\<rparr>"

definition copyGroup :: "group_decl \<Rightarrow> group_decl" where
  "copyGroup g = \<lparr>grp_path = grp_path g, grp_policies = grp_policies g, grp_parameter_defaults = grp_parameter_defaults g\<rparr>"

definition copyEnvironment :: "written_environment \<Rightarrow> written_environment" where
  "copyEnvironment e = zero_written
     \<lparr>env_path := env_path e, env_trigger_refs := env_trigger_refs e, env_promotion := env_promotion e,
      env_selectors := env_selectors e, env_parameter_defaults := env_parameter_defaults e, env_policies := env_policies e,
      env_env := env_env e, we_no_components := we_no_components e, we_no_domains := we_no_domains e\<rparr>"

section \<open>Merging\<close>

type_synonym provenance_map = "(string, preset_provenance list) gmap_of"

definition sorted_entries :: "(string, 'v) gmap_of \<Rightarrow> (string \<times> 'v) list" where
  "sorted_entries m = map (\<lambda>k. (k, the (gm_get m k))) (sort (gm_keys m))"

definition fill_entry :: "string \<Rightarrow> preset_provenance \<Rightarrow> string \<times> 'v \<Rightarrow> (string, 'v) gmap_of \<times> provenance_map \<Rightarrow>
    (string, 'v) gmap_of \<times> provenance_map" where
  \<comment> \<open>set this key unless it is there\<close>
  "fill_entry path prov kv s =
     (if gm_has (fst s) (fst kv) then s else (gm_set (fst kv) (snd kv) (fst s), gm_push (path @ fst kv) prov (snd s)))"

definition put_policy :: "string \<Rightarrow> preset_provenance \<Rightarrow> string \<times> yval \<Rightarrow> yval gmap \<times> provenance_map \<Rightarrow> yval gmap \<times> provenance_map" where
  "put_policy path prov kv s = (gm_set (fst kv) (snd kv) (fst s), gm_push (path @ fst kv) prov (snd s))"

definition fill_type :: "string \<Rightarrow> preset_provenance \<Rightarrow> string \<times> yval gmap \<Rightarrow> yval gmap gmap \<times> provenance_map \<Rightarrow>
    yval gmap gmap \<times> provenance_map" where
  \<comment> \<open>the parameter defaults of one component type\<close>
  "fill_type path prov tp s =
     (let (params, pm) = fold (fill_entry (path @ fst tp @ ''.'') prov) (snd tp) (gm_get_or [] (fst s) (fst tp), snd s)
      in (gm_set (fst tp) params (fst s), pm))"

definition mergeEnv_preset :: "string gmap \<Rightarrow> preset_provenance \<Rightarrow> string gmap \<times> provenance_map \<Rightarrow> string gmap \<times> provenance_map" where
  "mergeEnv_preset presetEnv prov s = fold (fill_entry ''env.'' prov) (sorted_entries presetEnv) s"

fun mergeDiscoveryRoots :: "string list \<Rightarrow> preset_provenance \<Rightarrow> string list \<times> provenance_map \<Rightarrow> string list \<times> provenance_map" where
  "mergeDiscoveryRoots [] prov s = s"
| "mergeDiscoveryRoots (r # rs) prov s =
     mergeDiscoveryRoots rs prov
       (if r \<in> set (fst s) then s else (fst s @ [r], gm_push ''discovery.roots'' prov (snd s)))"

definition merge_group :: "preset_provenance \<Rightarrow> string \<times> group_decl \<Rightarrow> group_decl gmap \<times> provenance_map \<Rightarrow> group_decl gmap \<times> provenance_map" where
  "merge_group prov ng s =
     (let name = fst ng; g = snd ng
      in case gm_get (fst s) name of
           None \<Rightarrow> (gm_set name (copyGroup g) (fst s), gm_push (''groups.'' @ name) prov (snd s))
         | Some existing \<Rightarrow>
             (let (params, pm) = fold (fill_type (''groups.'' @ name @ ''.parameterDefaults.'') prov) (grp_parameter_defaults g)
                    (grp_parameter_defaults existing, snd s);
                  (policies, pm) = fold (put_policy (''groups.'' @ name @ ''.policies.'') prov) (grp_policies g)
                    (grp_policies existing, pm)
              in (gm_set name (existing\<lparr>grp_parameter_defaults := params, grp_policies := policies,
                    grp_path := (if grp_path existing = [] then grp_path g else grp_path existing)\<rparr>) (fst s), pm)))"

definition mergeGroups :: "group_decl gmap \<Rightarrow> preset_provenance \<Rightarrow> group_decl gmap \<times> provenance_map \<Rightarrow> group_decl gmap \<times> provenance_map" where
  "mergeGroups presetGroups prov s = fold (merge_group prov) (sorted_entries presetGroups) s"

definition add_trigger_ref :: "string \<Rightarrow> preset_provenance \<Rightarrow> string list \<Rightarrow> string \<Rightarrow> string list \<times> provenance_map \<Rightarrow> string list \<times> provenance_map" where
  \<comment> \<open>compared with the references there were before this preset\<close>
  "add_trigger_ref name prov before r s =
     (if r \<in> set before then s else (fst s @ [r], gm_push (''environments.'' @ name @ ''.activation.triggerRefs'') prov (snd s)))"

definition fill_selectors :: "written_environment \<Rightarrow> written_environment \<Rightarrow> written_environment" where
  "fill_selectors p e =
     (let e = (if we_no_components e \<and> es_components (env_selectors p) \<noteq> []
               then e\<lparr>env_selectors := (env_selectors e)\<lparr>es_components := es_components (env_selectors p)\<rparr>, we_no_components := False\<rparr> else e)
      in if we_no_domains e \<and> es_domains (env_selectors p) \<noteq> []
         then e\<lparr>env_selectors := (env_selectors e)\<lparr>es_domains := es_domains (env_selectors p)\<rparr>, we_no_domains := False\<rparr> else e)"

definition fill_plain :: "string \<times> string \<Rightarrow> string gmap \<Rightarrow> string gmap" where
  "fill_plain kv m = (if gm_has m (fst kv) then m else gm_set (fst kv) (snd kv) m)"

definition merge_into_environment :: "preset_provenance \<Rightarrow> string \<Rightarrow> written_environment \<Rightarrow> written_environment \<times> provenance_map \<Rightarrow>
    written_environment \<times> provenance_map" where
  "merge_into_environment prov name p s =
     (let existing = fst s;
          (params, pm) = fold (fill_type (''environments.'' @ name @ ''.parameterDefaults.'') prov) (env_parameter_defaults p)
            (env_parameter_defaults existing, snd s);
          (policies, pm) = fold (put_policy (''environments.'' @ name @ ''.policies.'') prov) (env_policies p)
            (env_policies existing, pm);
          env = fold fill_plain (sorted_entries (env_env p)) (env_env existing);
          (refs, pm) = fold (add_trigger_ref name prov (env_trigger_refs existing)) (env_trigger_refs p)
            (env_trigger_refs existing, pm)
      in (fill_selectors p (existing\<lparr>env_parameter_defaults := params, env_policies := policies, env_env := env, env_trigger_refs := refs,
            env_path := (if env_path existing = [] then env_path p else env_path existing)\<rparr>), pm))"

definition merge_environment :: "preset_provenance \<Rightarrow> string \<times> written_environment \<Rightarrow>
    written_environment gmap \<times> provenance_map \<Rightarrow> written_environment gmap \<times> provenance_map" where
  "merge_environment prov ne s =
     (case gm_get (fst s) (fst ne) of
        None \<Rightarrow> (gm_set (fst ne) (copyEnvironment (snd ne)) (fst s), gm_push (''environments.'' @ fst ne) prov (snd s))
      | Some existing \<Rightarrow>
          (let (e, pm) = merge_into_environment prov (fst ne) (snd ne) (existing, snd s) in (gm_set (fst ne) e (fst s), pm)))"

definition mergeEnvironments :: "written_environment gmap \<Rightarrow> preset_provenance \<Rightarrow>
    written_environment gmap \<times> provenance_map \<Rightarrow> written_environment gmap \<times> provenance_map" where
  "mergeEnvironments presetEnvs prov s = fold (merge_environment prov) (sorted_entries presetEnvs) s"

definition mergeTriggerBindings :: "trigger_binding gmap \<Rightarrow> preset_provenance \<Rightarrow>
    trigger_binding gmap \<times> provenance_map \<Rightarrow> trigger_binding gmap \<times> provenance_map" where
  "mergeTriggerBindings bindings prov s = fold (fill_entry ''automation.triggerBindings.'' prov) (sorted_entries bindings) s"

record merging =
  mg_intent :: intent
  mg_environments :: "written_environment gmap" \<comment> \<open>the environments of the intent\<close>
  mg_provenance :: provenance_map

definition shallowCopyIntent :: "intent \<Rightarrow> written_environment gmap \<Rightarrow> merging" where
  "shallowCopyIntent intent envs =
     \<lparr>mg_intent = intent\<lparr>in_extends := [], in_groups := map (\<lambda>(k, g). (k, copyGroup g)) (in_groups intent)\<rparr>,
      mg_environments = map (\<lambda>(k, e). (k, copyEnvironment e)) envs, mg_provenance = []\<rparr>"

definition merge_preset :: "resolved_preset \<Rightarrow> merging \<Rightarrow> merging" where
  "merge_preset rp m =
     (let p = rp_preset rp; prov = rp_provenance rp; i = mg_intent m;
          (env, pm) = mergeEnv_preset (ip_env p) prov (in_env i, mg_provenance m);
          (roots, pm) = mergeDiscoveryRoots (ip_roots p) prov (in_discovery_roots i, pm);
          (groups, pm) = mergeGroups (ip_groups p) prov (in_groups i, pm);
          (envs, pm) = mergeEnvironments (ip_environments p) prov (mg_environments m, pm);
          (bindings, pm) = mergeTriggerBindings (ip_bindings p) prov (in_trigger_bindings i, pm)
      in \<lparr>mg_intent = i\<lparr>in_env := env, in_discovery_roots := roots, in_groups := groups, in_trigger_bindings := bindings\<rparr>,
          mg_environments = envs, mg_provenance = pm\<rparr>)"

definition MergePresets :: "intent \<Rightarrow> written_environment gmap \<Rightarrow> resolved_preset list \<Rightarrow> intent \<times> provenance_map" where
  \<comment> \<open>\<open>envs\<close> are the environments of the intent as decoded; no merge returns an error\<close>
  "MergePresets intent envs presets =
     (if presets = [] then (intent, [])
      else (let m = fold merge_preset presets (shallowCopyIntent intent envs)
            in ((mg_intent m)\<lparr>in_environments := map (\<lambda>(k, e). (k, environment.truncate e)) (mg_environments m)\<rparr>, mg_provenance m)))"

section \<open>What a layer says\<close>

fun first_wins :: "('k \<Rightarrow> 'v option) list \<Rightarrow> 'k \<Rightarrow> 'v option" where
  "first_wins [] k = None"
| "first_wins (l # ls) k = (case l k of Some v \<Rightarrow> Some v | None \<Rightarrow> first_wins ls k)"

definition last_wins :: "('k \<Rightarrow> 'v option) list \<Rightarrow> 'k \<Rightarrow> 'v option" where
  "last_wins ls = first_wins (rev ls)"





lemma last_wins_append: "last_wins (ls @ [l]) k = (case l k of Some v \<Rightarrow> Some v | None \<Rightarrow> last_wins ls k)"
  by (simp add: last_wins_def split: option.splits)

lemma last_wins_Nil [simp]: "last_wins [] k = None"
  by (simp add: last_wins_def)




definition or_else :: "'a option \<Rightarrow> 'a option \<Rightarrow> 'a option" where
  "or_else a b = (case a of Some v \<Rightarrow> Some v | None \<Rightarrow> b)"

lemma or_else_None [simp]: "or_else a None = a" "or_else None a = a"
  by (simp_all add: or_else_def split: option.split)







section \<open>The steps of a merge\<close>














section \<open>A whole merge\<close>











lemma merge_preset_parts:
  "in_env (mg_intent (merge_preset rp m)) = fst (mergeEnv_preset (ip_env (rp_preset rp)) (rp_provenance rp) (in_env (mg_intent m), mg_provenance m))"
  "\<exists>pm. in_discovery_roots (mg_intent (merge_preset rp m)) =
     fst (mergeDiscoveryRoots (ip_roots (rp_preset rp)) (rp_provenance rp) (in_discovery_roots (mg_intent m), pm))"
  "\<exists>pm. in_groups (mg_intent (merge_preset rp m)) = fst (mergeGroups (ip_groups (rp_preset rp)) (rp_provenance rp) (in_groups (mg_intent m), pm))"
  "\<exists>pm. mg_environments (merge_preset rp m) =
     fst (mergeEnvironments (ip_environments (rp_preset rp)) (rp_provenance rp) (mg_environments m, pm))"
  "\<exists>pm. in_trigger_bindings (mg_intent (merge_preset rp m)) =
     fst (mergeTriggerBindings (ip_bindings (rp_preset rp)) (rp_provenance rp) (in_trigger_bindings (mg_intent m), pm))"
  by (auto simp: merge_preset_def Let_def split_beta)





section \<open>Theorems\<close>

lemma merged_intent:
  assumes "presets \<noteq> []"
  shows "fst (MergePresets intent envs presets) =
    (let m = fold merge_preset presets (shallowCopyIntent intent envs)
     in (mg_intent m)\<lparr>in_environments := map (\<lambda>(k, e). (k, environment.truncate e)) (mg_environments m)\<rparr>)"
  using assms by (simp add: MergePresets_def Let_def)




definition example_presets :: "resolved_preset list" where
  "example_presets = map (\<lambda>(n, v). \<lparr>rp_preset = \<lparr>ip_kind = ''IntentPreset'', ip_env = [(''A'', v), (''B'', v)], ip_roots = [''apps'', v], ip_bindings = [],
        ip_environments = [(''prod'', zero_written\<lparr>env_policies := [(''tier'', YStr v)], env_env := [(''REGION'', v)]\<rparr>)], ip_groups = []\<rparr>,
      rp_provenance = \<lparr>pv_source = ''platform'', pv_preset = n\<rparr>\<rparr>) [(''one'', ''1''), (''two'', ''2'')]"

definition example_intent :: intent where
  "example_intent = zero_intent\<lparr>in_env := [(''A'', ''0'')], in_discovery_roots := [''apps'']\<rparr>"

definition example_envs :: "written_environment gmap" where
  "example_envs = [(''prod'', zero_written\<lparr>env_policies := [(''tier'', YStr ''0'')], env_secret_env := [(''T'', ''secret://T'')]\<rparr>)]"



text \<open>
  A merge loses what the repository wrote for its environments: with any preset applied, no environment of the
  result has a secret, a URL, links, a description or a dependency mode, because environments are copied
  field by field and these fields are left out.
\<close>

definition bare_environment :: "'a environment_scheme \<Rightarrow> bool" where
  "bare_environment e \<longleftrightarrow> env_secret_env e = [] \<and> env_url e = [] \<and> env_links e = [] \<and> env_description e = [] \<and> env_dependency_mode e = []"

lemma copy_bare: "bare_environment (copyEnvironment e)"
  by (simp add: bare_environment_def copyEnvironment_def zero_written_def zero_environment_def environment.defs)

lemma merge_into_bare: "bare_environment (fst (merge_into_environment prov name p s)) = bare_environment (fst s)"
  by (simp add: merge_into_environment_def bare_environment_def fill_selectors_def Let_def split_beta)

lemma merge_environments_bare:
  "\<forall>n e. gm_get (fst s) n = Some e \<longrightarrow> bare_environment e \<Longrightarrow> gm_get (fst (fold (merge_environment prov) es s)) n = Some e \<Longrightarrow> bare_environment e"
proof (induction es arbitrary: s)
  case (Cons ne es)
  have "\<forall>n e. gm_get (fst (merge_environment prov ne s)) n = Some e \<longrightarrow> bare_environment e"
    using Cons.prems(1) by (auto simp: merge_environment_def gm_get_set split_beta Let_def copy_bare merge_into_bare split: option.splits if_splits)
  then show ?case using Cons.IH Cons.prems(2) by simp
qed auto

lemma merged_bare:
  "\<forall>n e. gm_get (mg_environments m) n = Some e \<longrightarrow> bare_environment e \<Longrightarrow>
   gm_get (mg_environments (fold merge_preset presets m)) n = Some e \<Longrightarrow> bare_environment e"
proof (induction presets arbitrary: m)
  case (Cons rp presets)
  have "\<forall>n e. gm_get (mg_environments (merge_preset rp m)) n = Some e \<longrightarrow> bare_environment e"
    using merge_preset_parts(4)[of rp m] Cons.prems(1) merge_environments_bare unfolding mergeEnvironments_def by (metis fst_conv)
  then show ?case using Cons.IH Cons.prems(2) by simp
qed auto

theorem merged_environments_lose_fields:
  assumes "presets \<noteq> []" "gm_get (in_environments (fst (MergePresets intent envs presets))) name = Some e"
  shows "bare_environment e"
proof -
  let ?m = "fold merge_preset presets (shallowCopyIntent intent envs)"
  obtain w where w: "gm_get (mg_environments ?m) name = Some w" "e = environment.truncate w"
    using assms(2) unfolding merged_intent[OF assms(1)] by (auto simp: Let_def map_of_map)
  have "\<forall>n e. gm_get (mg_environments (shallowCopyIntent intent envs)) n = Some e \<longrightarrow> bare_environment e"
    by (auto simp: shallowCopyIntent_def map_of_map copy_bare)
  from merged_bare[OF this w(1)] show ?thesis by (simp add: w(2) bare_environment_def environment.defs)
qed

lemma merged_environment_loses_its_secret:
  "gm_get (env_secret_env (the (gm_get (in_environments (fst (MergePresets example_intent example_envs example_presets))) ''prod''))) ''T'' = None"
  by code_simp

end
