(* ===== verification/Spec2Isabelle.thy ===== *)
theory Spec2Isabelle
  imports Scope_Ref Job_Model Intent_Model Loader Composition Registry Input_Glob Normalize
    Expand Dep_Resolver Job_Graph Plan_Deps Secret_Bindings Flow_Refs Plan_Steps Coord_Fold Lanes_Correct
    Trigger_Correct Affected Plan_Render Policy_Load Object_Sync Object_Trees
    Step_Stream Run_Correct Preset_Merge
begin

text \<open>
  A verification development for the planning core of orun (\<open>src/internal\<close>), the part that
  turns an intent file into a plan of jobs. The stages and their theories, in the order the
  \<open>plan\<close> command runs them:

  \<^item> \<open>Scope_Ref\<close> (\<open>scoperef\<close>, \<open>secretref\<close>): the grammar of secret references; the parser, the
    renderer and canonicalisation, with the round trip and the meaning of the deprecated form.
  \<^item> \<open>Job_Model\<close>, \<open>Intent_Model\<close> (\<open>model\<close>): the structs, one record field per Go field, with
    their validation methods. \<open>Go_Strings\<close> and \<open>Go_Path\<close> hold what is used of \<open>strings\<close>,
    \<open>regexp\<close> and \<open>path\<close>.
  \<^item> \<open>Loader\<close> (\<open>loader\<close>, \<open>model/component_tree.go\<close>): discovery of component manifests, the
    component-tree cache and its transparency: whatever has changed since the cache was written, it is used
    only where it gives what loading without it gives. What the YAML library reads back is a parameter; the theorem
    asks that the tree comes back as it was written (it would not for a parameter \<open>1.0\<close>, written as \<open>1\<close>).
  \<^item> \<open>Preset_Merge\<close> (\<open>preset\<close>): the presets that an intent extends and their merge, one preset after the other, with
    the order of precedence of each kind of field.
  \<^item> \<open>Composition\<close>, \<open>Registry\<close> (\<open>composition\<close>): profile and dependency-mode resolution; source
    configuration, selection of default compositions, annotation and document validation.
  \<^item> \<open>Normalize\<close>, \<open>Input_Glob\<close> (\<open>normalize\<close>, \<open>inputglob\<close>): the canonical form of an intent and
    promotion-cycle detection, which rests on the search in \<open>Dfs\<close>.
  \<^item> \<open>Expand\<close>, \<open>Dep_Resolver\<close> (\<open>expand\<close>): the environment by component matrix with its merges,
    and the closures of the dependency relation.
  \<^item> \<open>Secret_Bindings\<close>, \<open>Plan_Steps\<close>, \<open>Plan_Deps\<close> (\<open>planner/secret_bindings.go\<close>,
    \<open>planner.go\<close>, \<open>promotion.go\<close>): the references and materialized secrets of a job, the
    selection, overriding and ordering of its steps, and the edges between jobs.
  \<^item> \<open>Flow_Refs\<close> (\<open>flow/outputs.go\<close>, \<open>flow/grant.go\<close>): references to outputs of earlier steps,
    with the masking that protects them from the template pass, and connection grants.
  \<^item> \<open>Job_Graph\<close> (\<open>planner/graph.go\<close>): cycle detection and Kahn's topological sort.
  \<^item> \<open>Coord_Fold\<close> (\<open>statebackend/fold.go\<close>, \<open>coordrunner.go\<close>, \<open>coordloop.go\<close>): a running plan
    as the fold of its event stream; each job follows the table \<open>machine_move\<close> event by event, the
    frontier is what can run next, and the runner loop, a partial function because it may be
    unbounded, returns under a bound on its ticks.

  \<^item> \<open>Plan_Model\<close> (\<open>model/plan.go\<close>): the structs of a plan.
  \<^item> The lanes of a plan (\<open>lanes\<close>), the units a runner takes. \<open>Lane_Graph\<close> is the graph of jobs and
    the graph of lanes, with the levels of \<open>Levels\<close> and the strongly connected components of
    \<open>Tarjan\<close>; \<open>Lane_Repair\<close> is the repair of cycles, \<open>Lane_Split\<close> shows that it keeps every job in
    one lane and \<open>Lane_Converge\<close> that it ends: each round takes a component off every cycle. \<open>Lane_Alloc\<close>
    and \<open>Lane_Pack\<close> are the budget and the packing of auto mode, \<open>Lane_Bins\<close> their contract;
    \<open>Lane_Drafts\<close> is the first layout, \<open>Lanes\<close> the whole of \<open>Assign\<close>, and \<open>Lanes_Correct\<close> its theorems.

  \<^item> \<open>Trigger_Match\<close>, \<open>Trigger_Resolve\<close>, \<open>Trigger_Validate\<close> (\<open>trigger\<close>): CI events and the bindings they
    fire, the environments and the scope that a trigger gives a plan, and the validators of an intent's
    bindings, rules, lanes and plan options; \<open>Go_Duration\<close> is \<open>time.ParseDuration\<close>, \<open>Go_Float\<close> the rounding of \<open>float64\<close>. \<open>Trigger_Correct\<close>
    has their theorems.
  \<^item> \<open>Git_Changes\<close> (\<open>git\<close>), \<open>Affected_Index\<close>, \<open>Affected\<close> (\<open>affected\<close>): what \<open>--changed\<close> selects. The changed
    files and the comparison of two intents feed \<open>Detect\<close>, which maps files to components and closes the
    set over the relations of the catalog; \<open>closure_loop\<close> is total, by the targets not yet visited. What a file or
    an intent change touches is specified on the catalog alone (\<open>first_touched\<close>), without the index of the code.
  \<^item> \<open>Plan_Render\<close> (\<open>render/plan.go\<close>): job instances rendered into a plan, with the lane assignment, the
    checksum and the identity of jobs; \<open>rendered_as\<close> says field by field what a plan job has of its instance.
  \<^item> \<open>Secret_Policy\<close>, \<open>Policy_Narrow\<close>, \<open>Policy_Load\<close> (\<open>secretpolicy\<close>, \<open>cmd/orun/command_policy.go\<close>): policy
    documents with the parser of their predicates, the narrow-only check between the tiers, and loading.
    What a rule grants is defined over an arbitrary meaning of its predicates, so the theorem on narrowing
    does not depend on how the server evaluates them.
  \<^item> \<open>Object_Store\<close>, \<open>Object_Laws\<close>, \<open>Object_Walk\<close>, \<open>Object_Trees\<close> (\<open>objectstore\<close>): the content-addressed store.
    Its interface is the record \<open>store_ops\<close>, its contract the locale \<open>object_store\<close>, which the stores in
    memory and on disk interpret. \<open>Ref_Store\<close> (\<open>refstore\<close>, \<open>nodewriter\<close>) are the mutable references.
  \<^item> \<open>Object_GC\<close> (\<open>objgc\<close>, \<open>objindex\<close>) and \<open>Object_Sync\<close> (\<open>objremote\<close>): the clients of that contract, garbage
    collection in \<open>object_store\<close> and synchronisation in \<open>store_pair\<close>, a locale for two stores. The order in which
    parallel copies take effect, those still running after an error and what other writers do to the
    references are parameters. Writing, removing and \<open>Stat\<close> of a file can fail; a read that fails although the file is
    there is not modelled. The traversal has fuel for one more than the number of objects, and
    \<open>walk_never_out_of_fuel\<close> shows it is enough.
  \<^item> \<open>Redact\<close> (\<open>redact\<close>) and \<open>Step_Stream\<close> (\<open>remotestate/logpipe/stepstream.go\<close>): masking of registered secrets with
    their encodings, the offsets at which a text may be cut, and the stream that sends a step's output in masked
    pieces while it arrives. \<open>Go_Runes\<close> are the runes of a string. What \<open>strings.Replacer\<close>, base64, query escaping
    and JSON strings do is written out.
  \<^item> \<open>Slot_Gate\<close>, \<open>Run_Priority\<close>, \<open>Run_Schedule\<close>, \<open>Run_Gate\<close>, \<open>Run_Limits\<close>, \<open>Run_Invariant\<close>, \<open>Run_Correct\<close>
    (\<open>runner/lane_gate.go\<close>, \<open>runner/lane.go\<close>): the scheduler of a run. A goroutine is a program counter, a step what
    it does under one lock, a run any interleaving of steps (\<open>run_reaches\<close>). \<open>Run_Priority\<close> is the priority of a job,
    the longest chain of work behind it. \<open>Run_Gate\<close> and \<open>Run_Limits\<close> have the invariants of the two gates,
    \<open>Run_Invariant\<close> what holds at each point of a job, and \<open>Run_Correct\<close> the theorems: limits, progress and end of
    every run, its outcome, and that a free slot goes to the longest chain of work.

  Conventions (\<open>Prelude\<close>): a Go map is an association list in visiting order and theorems hold
  for every order; a returned error is \<open>Inl\<close>, a value \<open>Inr\<close>; error values carry the arguments
  of their message rather than its text. Recursive searches take fuel; \<open>dfs_all_decides\<close>,
  \<open>finite_graph\<close> and \<open>kahn_spec\<close> show that the fuel used, one more than the number of nodes,
  always gives an answer. In \<open>lanes\<close> the lemmas \<open>levels_returns\<close>, \<open>sccs_returns\<close>,
  \<open>find_root_rep\<close> and \<open>criticalPath_returns\<close> do the same, and \<open>assign_run\<close> excludes \<open>LanesFuel\<close>.

  Not modelled: reading and decoding files, YAML and JSON codecs, OCI registries, template
  engines, process execution, network clients and the terminal interfaces. Where a modelled
  function calls such code, what it returns is a parameter.
\<close>

end
